(* ===== verification/Prelude.thy ===== *)
theory Prelude
  imports Main "HOL-Library.AList"
begin

text \<open>
  What every component shares: the JavaScript containers the sources are written with, as the
  lists that keep their iteration order, and the generic facts about them.

  A JavaScript \<open>Map\<close> iterates its keys in the order they were first set; setting a key it
  holds keeps the key's place. That is an association list with distinct keys, updated by
  \<open>AList.update\<close> and \<open>AList.delete\<close>. A \<open>Set\<close> built from a list (\<open>new Set(xs)\<close>) iterates the
  first occurrence of each element, in order: \<open>uniq\<close>. \<open>findIndex\<close> answers \<open>-1\<close> where nothing is
  found, here \<open>None\<close>.
\<close>

named_theorems js_simps "facts about the JavaScript containers"

type_synonym ('k, 'v) js_map = "('k \<times> 'v) list"

subsection \<open>Sets built from lists\<close>

text \<open>\<open>[...new Set(xs)]\<close>: each element once, where it first stood.\<close>

definition uniq :: "'a list \<Rightarrow> 'a list" where
  "uniq xs = rev (remdups (rev xs))"

lemma set_uniq [simp]: "set (uniq xs) = set xs"
  by (simp add: uniq_def)

lemma distinct_uniq [simp]: "distinct (uniq xs)"
  by (simp add: uniq_def)

lemma uniq_id [simp]: "distinct xs \<Longrightarrow> uniq xs = xs"
  by (simp add: uniq_def distinct_remdups_id)

lemma uniq_Nil [simp]: "uniq [] = []"
  by (simp add: uniq_def)

lemma uniq_snoc: "uniq (xs @ [x]) = (if x \<in> set xs then uniq xs else uniq xs @ [x])"
  by (simp add: uniq_def)

subsection \<open>Maps in insertion order\<close>

definition map_ok :: "('k, 'v) js_map \<Rightarrow> bool" where
  "map_ok m \<longleftrightarrow> distinct (map fst m)"

text \<open>\<open>new Map(pairs)\<close>.\<close>

definition new_map :: "('k \<times> 'v) list \<Rightarrow> ('k, 'v) js_map" where
  "new_map ps = fold (\<lambda>(k, v) m. AList.update k v m) ps []"

lemma map_ok_Nil [simp]: "map_ok []"
  by (simp add: map_ok_def)

lemma map_ok_update [simp]: "map_ok m \<Longrightarrow> map_ok (AList.update k v m)"
  by (simp add: map_ok_def distinct_update)

lemma map_ok_delete [simp]: "map_ok m \<Longrightarrow> map_ok (AList.delete k m)"
  by (simp add: map_ok_def distinct_delete)

lemma map_of_update [simp]: "map_of (AList.update k v m) = (map_of m)(k \<mapsto> v)"
  by (simp add: update_conv')

lemma map_of_delete [simp]: "map_of (AList.delete k m) = (map_of m)(k := None)"
  by (simp add: delete_conv')

lemma map_ok_fold_update: "map_ok m \<Longrightarrow> map_ok (fold (\<lambda>(k, v) m. AList.update k v m) ps m)"
  by (induction ps arbitrary: m) auto

lemma map_ok_new_map [simp]: "map_ok (new_map ps)"
  by (simp add: new_map_def map_ok_fold_update)

lemma dom_fold_update:
  "dom (map_of (fold (\<lambda>(k, v) m. AList.update k v m) ps m)) = dom (map_of m) \<union> fst ` set ps"
  by (induction ps arbitrary: m) (auto simp: split_beta)

lemma fst_new_map [simp]: "fst ` set (new_map ps) = fst ` set ps"
  using dom_fold_update [of ps "[]"] by (simp add: new_map_def dom_map_of_conv_image_fst)

lemma map_of_in_set: "map_ok m \<Longrightarrow> (k, v) \<in> set m \<longleftrightarrow> map_of m k = Some v"
  by (simp add: map_ok_def)

lemma map_of_None_iff: "map_of m k = None \<longleftrightarrow> k \<notin> fst ` set m"
  by (simp add: map_of_eq_None_iff)

lemma map_of_notin [simp]: "k \<notin> fst ` set m \<Longrightarrow> map_of m k = None"
  by (simp add: map_of_eq_None_iff)

subsection \<open>Searching a list\<close>

text \<open>\<open>xs.findIndex(p)\<close>, with \<open>None\<close> for \<open>-1\<close>.\<close>

fun find_index :: "('a \<Rightarrow> bool) \<Rightarrow> 'a list \<Rightarrow> nat option" where
  "find_index p [] = None"
| "find_index p (x # xs) = (if p x then Some 0 else map_option Suc (find_index p xs))"

lemma find_index_None [simp]: "find_index p xs = None \<longleftrightarrow> (\<forall>x \<in> set xs. \<not> p x)"
  by (induction xs) auto

lemma find_index_Some:
  "find_index p xs = Some i \<Longrightarrow> i < length xs \<and> p (xs ! i) \<and> (\<forall>j < i. \<not> p (xs ! j))"
proof (induction xs arbitrary: i)
  case Nil
  then show ?case by simp
next
  case (Cons x xs)
  then show ?case by (auto split: if_splits simp: nth_Cons split: nat.splits)
qed

text \<open>\<open>xs.at(-1)\<close>, \<open>xs.findLast(p)\<close> and \<open>xs[i]\<close>: none where nothing stands there.\<close>

definition last_opt :: "'a list \<Rightarrow> 'a option" where
  "last_opt xs = (if xs = [] then None else Some (last xs))"

definition find_last :: "('a \<Rightarrow> bool) \<Rightarrow> 'a list \<Rightarrow> 'a option" where
  "find_last p xs = List.find p (rev xs)"

definition nth_opt :: "'a list \<Rightarrow> int \<Rightarrow> 'a option" where
  "nth_opt xs i = (if 0 \<le> i \<and> i < int (length xs) then Some (xs ! nat i) else None)"

lemma find_last_Some: "find_last p xs = Some x \<Longrightarrow> x \<in> set xs \<and> p x"
  by (auto simp: find_last_def find_Some_iff) (metis length_rev nth_mem set_rev)

lemma find_last_None: "find_last p xs = None \<longleftrightarrow> (\<forall>x \<in> set xs. \<not> p x)"
  by (auto simp: find_last_def find_None_iff)

lemma nth_opt_Some: "nth_opt xs i = Some x \<Longrightarrow> x \<in> set xs"
  by (auto simp: nth_opt_def split: if_splits)

lemma nth_opt_None: "nth_opt xs i = None \<longleftrightarrow> i < 0 \<or> int (length xs) \<le> i"
  by (auto simp: nth_opt_def)

lemma find_SomeD: "List.find p xs = Some x \<Longrightarrow> x \<in> set xs \<and> p x"
  by (auto simp: find_Some_iff)

text \<open>A decimal digit, as \<open>\d\<close> reads one.\<close>

definition is_digit :: "char \<Rightarrow> bool" where
  "is_digit c \<longleftrightarrow> 48 \<le> (of_char c :: nat) \<and> (of_char c :: nat) \<le> 57"

end
