(* ===== verification/Synced_Collection.thy ===== *)
theory Synced_Collection
  imports Prelude
begin

text \<open>
  \<open>packages/sync/src/synced-collection.ts\<close>: a collection only sync writes. It is taken whole by
  key: one sync transaction writes each row that moved (\<open>row_changes\<close>), and nothing for the rest.

  The store behind it is TanStack DB's, which is not part of the repository. What is relied on is
  its documented behaviour: with \<open>rowUpdateMode: "full"\<close> a committed sync transaction leaves
  exactly the rows its writes name, an insert or an update under the row's key, a delete without
  it (\<open>apply_change\<close>). \<open>Equal.equals\<close> is structural equality of rows, HOL's equality on the row
  type. A writer is handed out when the collection starts, and let go when it is cleaned up
  (\<open>writer_open\<close>).
\<close>

datatype ('k, 'r) row_change = Insert 'r | Update 'r | Delete 'k

definition row_changes :: "('k, 'r) js_map \<Rightarrow> ('k, 'r) js_map \<Rightarrow> ('k, 'r) row_change list" where
  "row_changes held nxt =
     (let gone = map Delete (filter (\<lambda>k. map_of nxt k = None) (map fst held));
          moved = concat (map (\<lambda>(k, row).
            case map_of held k of
              None \<Rightarrow> [Insert row]
            | Some was \<Rightarrow> if was = row then [] else [Update row]) nxt)
      in gone @ moved)"

record ('k, 'r) synced =
  writer_open :: bool
  held_rows :: "('k, 'r) js_map"
  stored :: "'k \<rightharpoonup> 'r"

text \<open>The collection as \<open>syncedCollection\<close> hands it out: ready and empty, its writer standing.\<close>

definition new_synced :: "('k, 'r) synced" where
  "new_synced = \<lparr>writer_open = True, held_rows = [], stored = Map.empty\<rparr>"

text \<open>The scope's close cleans the collection up, which takes its writer back.\<close>

definition close_synced :: "('k, 'r) synced \<Rightarrow> ('k, 'r) synced" where
  "close_synced s = s\<lparr>writer_open := False\<rparr>"

fun apply_change :: "('r \<Rightarrow> 'k) \<Rightarrow> ('k, 'r) row_change \<Rightarrow> ('k \<rightharpoonup> 'r) \<Rightarrow> ('k \<rightharpoonup> 'r)" where
  "apply_change key (Insert row) m = m(key row \<mapsto> row)"
| "apply_change key (Update row) m = m(key row \<mapsto> row)"
| "apply_change key (Delete k) m = m(k := None)"

fun change_key :: "('r \<Rightarrow> 'k) \<Rightarrow> ('k, 'r) row_change \<Rightarrow> 'k" where
  "change_key key (Insert row) = key row"
| "change_key key (Update row) = key row"
| "change_key key (Delete k) = k"

definition take_rows ::
  "('r \<Rightarrow> 'k) \<Rightarrow> ('k, 'r) synced \<Rightarrow> ('k, 'r) js_map \<Rightarrow> ('k, 'r) synced \<times> 'k list" where
  "take_rows key s nxt =
     (let changes = row_changes (held_rows s) nxt
      in if \<not> writer_open s \<or> changes = [] then (s, [])
         else (s\<lparr>held_rows := nxt, stored := fold (apply_change key) changes (stored s)\<rparr>,
               map (change_key key) changes))"

subsection \<open>A row as it is read out\<close>

text \<open>
  \<open>rowOf\<close>: a stored object without TanStack's virtual fields, whose names start with a dollar
  sign, and without the keys a whole-row change left undefined (\<open>None\<close>). The read row is cached
  by the stored object's identity, so a row that did not move is handed out as the same object.
\<close>

type_synonym 'v js_object = "(string \<times> 'v option) list"

definition virtual_name :: "string \<Rightarrow> bool" where
  "virtual_name n \<longleftrightarrow> List.take 1 n = ''$''"

definition stripped :: "'v js_object \<Rightarrow> 'v js_object" where
  "stripped obj = filter (\<lambda>(n, v). \<not> virtual_name n \<and> v \<noteq> None) obj"

definition row_of ::
  "(nat \<rightharpoonup> 'v js_object) \<Rightarrow> nat \<Rightarrow> 'v js_object \<Rightarrow> (nat \<rightharpoonup> 'v js_object) \<times> 'v js_object" where
  "row_of cache ident obj =
     (case cache ident of
        Some read \<Rightarrow> (cache, read)
      | None \<Rightarrow> (let read = stripped obj in (cache(ident \<mapsto> read), read)))"

lemma stripped_virtual:
  assumes "\<forall>(n, v) \<in> set row. \<not> virtual_name n \<and> v \<noteq> None"
    and "\<forall>(n, v) \<in> set added. virtual_name n \<or> v = None"
  shows "stripped (row @ added) = row"
proof -
  have "filter (\<lambda>(n, v). \<not> virtual_name n \<and> v \<noteq> None) row = row"
    using assms(1) by (auto simp: filter_id_conv)
  moreover have "filter (\<lambda>(n, v). \<not> virtual_name n \<and> v \<noteq> None) added = []"
    using assms(2) by (auto simp: filter_empty_conv)
  ultimately show ?thesis by (simp add: stripped_def)
qed

lemma row_of_again: "row_of cache i obj = (cache', read) \<Longrightarrow> row_of cache' i obj' = (cache', read)"
  by (auto simp: row_of_def Let_def split: option.splits)

subsection \<open>What a take leaves\<close>

text \<open>Rows filed under their own keys, each once: what \<open>answer\<close> and every other caller takes.\<close>

definition keyed :: "('r \<Rightarrow> 'k) \<Rightarrow> ('k, 'r) js_map \<Rightarrow> bool" where
  "keyed key m \<longleftrightarrow> map_ok m \<and> (\<forall>(k, row) \<in> set m. key row = k)"

definition synced_ok :: "('r \<Rightarrow> 'k) \<Rightarrow> ('k, 'r) synced \<Rightarrow> bool" where
  "synced_ok key s \<longleftrightarrow> keyed key (held_rows s) \<and> stored s = map_of (held_rows s)"

lemma keyed_Nil [simp]: "keyed key []"
  by (simp add: keyed_def)

lemma keyed_map_of: "keyed key m \<Longrightarrow> map_of m k = Some row \<Longrightarrow> key row = k"
  by (auto simp: keyed_def dest!: map_of_SomeD)

lemma keyed_iff: "keyed key m \<longleftrightarrow> map_ok m \<and> (\<forall>k row. map_of m k = Some row \<longrightarrow> key row = k)"
  by (auto simp: keyed_def map_ok_def)

lemma keyed_update [simp]: "keyed key m \<Longrightarrow> key row = k \<Longrightarrow> keyed key (AList.update k row m)"
  by (auto simp: keyed_iff)

lemma keyed_delete [simp]: "keyed key m \<Longrightarrow> keyed key (AList.delete k m)"
  by (auto simp: keyed_iff)

lemma fold_apply_cong:
  assumes "\<forall>c \<in> set cs. change_key key c \<noteq> k"
  shows "fold (apply_change key) cs m k = m k"
  using assms
proof (induction cs arbitrary: m)
  case Nil
  then show ?case by simp
next
  case (Cons c cs)
  then show ?case by (cases c) auto
qed

lemma fold_apply_Delete:
  "fold (apply_change key) (map Delete ks) m k = (if k \<in> set ks then None else m k)"
  by (induction ks arbitrary: m) auto

definition moved_part :: "('k, 'r) js_map \<Rightarrow> ('k, 'r) js_map \<Rightarrow> ('k, 'r) row_change list" where
  "moved_part held nxt = concat (map (\<lambda>(k, row).
     case map_of held k of
       None \<Rightarrow> [Insert row]
     | Some was \<Rightarrow> if was = row then [] else [Update row]) nxt)"

lemma row_changes_parts:
  "row_changes held nxt =
     map Delete (filter (\<lambda>k. map_of nxt k = None) (map fst held)) @ moved_part held nxt"
  by (simp add: row_changes_def moved_part_def)

lemma moved_part_keys:
  assumes "keyed key nxt"
  shows "map (change_key key) (moved_part held nxt) =
    map fst (filter (\<lambda>(k, row). map_of held k \<noteq> Some row) nxt)"
  using assms
proof (induction nxt)
  case Nil
  then show ?case by (simp add: moved_part_def)
next
  case (Cons p nxt)
  then have "keyed key nxt" by (auto simp: keyed_def map_ok_def)
  with Cons show ?case
    by (cases p) (auto simp: moved_part_def keyed_def split: option.splits)
qed

lemma fold_moved_part:
  assumes "keyed key nxt"
    and "\<forall>k row. map_of held k = Some row \<longrightarrow> k \<in> fst ` set nxt \<longrightarrow> m k = Some row"
  shows "fold (apply_change key) (moved_part held nxt) m k =
    (case map_of nxt k of None \<Rightarrow> m k | Some row \<Rightarrow> Some row)"
  using assms
proof (induction nxt arbitrary: m)
  case Nil
  then show ?case by (simp add: moved_part_def)
next
  case (Cons p nxt)
  obtain k0 row0 where p: "p = (k0, row0)" by (cases p)
  from Cons.prems(1) p have ok: "keyed key nxt" "key row0 = k0" "k0 \<notin> fst ` set nxt"
    by (auto simp: keyed_def map_ok_def)
  let ?m = "case map_of held k0 of None \<Rightarrow> m(k0 \<mapsto> row0)
    | Some was \<Rightarrow> if was = row0 then m else m(k0 \<mapsto> row0)"
  have step: "fold (apply_change key) (moved_part held (p # nxt)) m =
      fold (apply_change key) (moved_part held nxt) ?m"
    using ok(2) p by (simp add: moved_part_def split: option.splits)
  have m0: "?m k0 = Some row0"
    using Cons.prems(2) p by (auto split: option.splits)
  have mo: "j \<noteq> k0 \<Longrightarrow> ?m j = m j" for j by (auto split: option.splits)
  have "fold (apply_change key) (moved_part held nxt) ?m k =
      (case map_of nxt k of None \<Rightarrow> ?m k | Some row \<Rightarrow> Some row)"
  proof (rule Cons.IH [OF ok(1)], intro allI impI)
    fix j row
    assume "map_of held j = Some row" and j: "j \<in> fst ` set nxt"
    with ok(3) have "j \<noteq> k0" by auto
    with \<open>map_of held j = Some row\<close> j Cons.prems(2) mo show "?m j = Some row" by auto
  qed
  with step m0 mo ok(3) p show ?case
    by (cases "k = k0") (auto simp: map_of_None_iff split: option.splits)
qed

subsection \<open>The contract of a store of rows\<close>

text \<open>
  What the pool relies on of a collection: it reads out what was last taken, a take moves exactly
  the keys it answers, and a take of what it holds moves nothing.
\<close>

locale row_store =
  fixes take_in :: "'s \<Rightarrow> ('k, 'r) js_map \<Rightarrow> 's \<times> 'k list"
    and get :: "'s \<Rightarrow> 'k \<rightharpoonup> 'r"
    and rows :: "'s \<Rightarrow> ('k, 'r) js_map"
    and ok :: "'s \<Rightarrow> bool"
    and fit :: "('k, 'r) js_map \<Rightarrow> bool"
  assumes get_rows: "ok s \<Longrightarrow> get s = map_of (rows s)"
    and rows_fit: "ok s \<Longrightarrow> fit (rows s)"
    and take_ok: "ok s \<Longrightarrow> fit m \<Longrightarrow> ok (fst (take_in s m))"
    and take_get: "ok s \<Longrightarrow> fit m \<Longrightarrow> get (fst (take_in s m)) = map_of m"
    and take_written: "ok s \<Longrightarrow> fit m \<Longrightarrow> set (snd (take_in s m)) = {k. map_of m k \<noteq> get s k}"
begin

lemma unwritten_stays:
  "ok s \<Longrightarrow> fit m \<Longrightarrow> k \<notin> set (snd (take_in s m)) \<Longrightarrow> get (fst (take_in s m)) k = get s k"
  by (simp add: take_get take_written)

lemma take_held: "ok s \<Longrightarrow> snd (take_in s (rows s)) = []"
  using take_written [of s "rows s"] by (simp add: rows_fit get_rows)

lemma take_twice: "ok s \<Longrightarrow> fit m \<Longrightarrow> snd (take_in (fst (take_in s m)) m) = []"
  using take_written [of "fst (take_in s m)" m] by (simp add: take_ok take_get)

end

lemma row_changes_Nil:
  assumes "keyed key held" "keyed key nxt" and "row_changes held nxt = []"
  shows "map_of held = map_of nxt"
proof
  fix k
  from assms(3) have gone: "\<forall>k \<in> fst ` set held. map_of nxt k \<noteq> None"
    by (auto simp: row_changes_parts filter_empty_conv)
  from assms(3) have "moved_part held nxt = []" by (simp add: row_changes_parts)
  with moved_part_keys [OF assms(2), of held]
  have moved: "\<forall>(k, row) \<in> set nxt. map_of held k = Some row" by (auto simp: filter_empty_conv)
  show "map_of held k = map_of nxt k"
  proof (cases "map_of nxt k")
    case None
    with gone have "k \<notin> fst ` set held" by auto
    with None show ?thesis by simp
  next
    case (Some row)
    then have "(k, row) \<in> set nxt" by (rule map_of_SomeD)
    with moved Some show ?thesis by auto
  qed
qed

lemma fold_row_changes:
  assumes "keyed key held" "keyed key nxt"
  shows "fold (apply_change key) (row_changes held nxt) (map_of held) = map_of nxt"
proof
  fix k
  define m where "m = fold (apply_change key)
    (map Delete (filter (\<lambda>k. map_of nxt k = None) (map fst held))) (map_of held)"
  have m: "m j = (if map_of nxt j = None then None else map_of held j)" for j
    by (auto simp: m_def fold_apply_Delete)
  have "fold (apply_change key) (moved_part held nxt) m k =
      (case map_of nxt k of None \<Rightarrow> m k | Some row \<Rightarrow> Some row)"
    by (rule fold_moved_part [OF assms(2)]) (auto simp: m map_of_None_iff)
  then show "fold (apply_change key) (row_changes held nxt) (map_of held) k = map_of nxt k"
    by (auto simp: row_changes_parts m m_def [symmetric] split: option.splits)
qed

lemma take_rows_keys:
  assumes "keyed key held" "keyed key nxt"
  shows "set (map (change_key key) (row_changes held nxt)) = {k. map_of nxt k \<noteq> map_of held k}"
proof -
  let ?gone = "filter (\<lambda>k. map_of nxt k = None) (map fst held)"
  have "map (change_key key) (map Delete ?gone) = ?gone"
    by (simp add: comp_def)
  then have gone: "set (map (change_key key) (map Delete ?gone)) =
      {k. map_of held k \<noteq> None \<and> map_of nxt k = None}"
    by (simp only:) (auto simp: map_of_None_iff)
  have "set (map (change_key key) (moved_part held nxt)) =
      {k. \<exists>row. (k, row) \<in> set nxt \<and> map_of held k \<noteq> Some row}"
    unfolding moved_part_keys [OF assms(2)] by force
  also have "\<dots> = {k. map_of nxt k \<noteq> None \<and> map_of nxt k \<noteq> map_of held k}"
    using assms(2) by (auto simp: keyed_def map_of_in_set)
  finally show ?thesis
    unfolding row_changes_parts map_append set_append gone by auto
qed

interpretation sc: row_store "take_rows key" stored held_rows
  "\<lambda>s. writer_open s \<and> synced_ok key s" "keyed key"
  for key :: "'r \<Rightarrow> 'k"
proof
  fix s :: "('k, 'r) synced" and m
  assume s: "writer_open s \<and> synced_ok key s"
  then show "stored s = map_of (held_rows s)" and "keyed key (held_rows s)"
    by (simp_all add: synced_ok_def)
  then have st: "stored s = map_of (held_rows s)" and ks: "keyed key (held_rows s)" by simp_all
  assume m: "keyed key m"
  show get: "stored (fst (take_rows key s m)) = map_of m"
    using s st fold_row_changes [OF ks m] row_changes_Nil [OF ks m] by (simp add: take_rows_def Let_def)
  show "writer_open (fst (take_rows key s m)) \<and> synced_ok key (fst (take_rows key s m))"
    using s m get by (auto simp: take_rows_def Let_def synced_ok_def split: if_splits)
  show "set (snd (take_rows key s m)) = {k. map_of m k \<noteq> stored s k}"
    using s st take_rows_keys [OF ks m] by (auto simp: take_rows_def Let_def)
qed

end
