(* ===== verification/Entity_Pool.thy ===== *)
theory Entity_Pool
  imports Synced_Collection
begin

text \<open>
  \<open>packages/sync/src/entity-pool.ts\<close>, the pool's rows: one kind's synced rows, the reads that
  stand on them (\<open>Holding\<close>) and the writes drawn over them (\<open>Standing\<close>), with every step the
  source takes at once as one function from the rows to the rows and the draws it asks of the
  reads (\<open>pool_event\<close>). The life of a write over time, its sending and its waiting, is the
  theory \<open>Write_Order\<close>.

  A read stands under a number of its own, the identity of its \<open>Holding\<close> object; a standing write
  likewise. A read's \<open>redraw\<close> and a read beside the pool's \<open>take\<close> are the reader's own code: the
  model answers which of them are called, with what, in order.
\<close>

subsection \<open>Kinds\<close>

text \<open>What a change leaves of a row: \<open>ROW_GONE\<close>, a row, or \<open>undefined\<close> to leave it alone.\<close>

datatype 'r drawn = Row_Gone | Row 'r | Leave

record ('k, 'r, 'c) entity_kind =
  kind_key :: "'r \<Rightarrow> 'k"
  kind_drawn :: "'c \<Rightarrow> 'r option \<Rightarrow> 'r drawn"

text \<open>
  A plain row is the value of each of its fields, \<open>None\<close> for a field it does not carry or carries
  as \<open>undefined\<close>; a \<open>Partial\<close> of it is the fields it names.
\<close>

type_synonym ('f, 'v) fields = "'f \<Rightarrow> 'v option"

datatype ('f, 'v) field_answer = Fields "('f \<times> 'v option) list" | Fields_Gone

datatype ('f, 'v) field_change =
    Change "('f, 'v) fields \<Rightarrow> ('f, 'v) field_answer"
  | Made "('f, 'v) fields"

definition with_fields :: "('f, 'v) fields \<Rightarrow> ('f \<times> 'v option) list \<Rightarrow> ('f, 'v) fields" where
  "with_fields row fs = fold (\<lambda>(name, v) r. r(name := v)) fs row"

fun field_drawn :: "('f, 'v) field_change \<Rightarrow> ('f, 'v) fields option \<Rightarrow> ('f, 'v) fields drawn" where
  "field_drawn (Made m) row = (if row = None then Row m else Leave)"
| "field_drawn (Change f) None = Leave"
| "field_drawn (Change f) (Some row) =
     (case f row of
        Fields_Gone \<Rightarrow> Row_Gone
      | Fields fs \<Rightarrow>
          if list_ex (\<lambda>(name, v). row name \<noteq> v) fs then Row (with_fields row fs) else Leave)"

definition field_kind ::
  "(('f, 'v) fields \<Rightarrow> 'k) \<Rightarrow> ('k, ('f, 'v) fields, ('f, 'v) field_change) entity_kind" where
  "field_kind key = \<lparr>kind_key = key, kind_drawn = field_drawn\<rparr>"

subsection \<open>The rows of one kind\<close>

record ('k, 'r) holding =
  adopts :: "('r \<Rightarrow> bool) option"
  beside :: "('k \<Rightarrow> bool) option"
  order :: "'k list"
  held :: "'k set"
  adopted :: "'k list"

record ('k, 'c) standing =
  write_id :: nat
  write_keys :: "'k list"
  write_change :: 'c

record ('k, 'r, 'c) kind_rows =
  synced :: "('k, 'r) synced"
  reads :: "(nat \<times> ('k, 'r) holding) list"
  standing :: "('k, 'c) standing list"
  taken_at :: "'k \<rightharpoonup> int"

text \<open>A draw asked of a read over keys, or a change handed to a read beside the pool.\<close>

datatype ('k, 'c) pool_event = Redraw nat "'k list" | Beside_Take nat 'c

definition fresh_rows :: "('k, 'r, 'c) kind_rows" where
  "fresh_rows = \<lparr>synced = new_synced, reads = [], standing = [], taken_at = Map.empty\<rparr>"

text \<open>A change drawn over a row as \<open>kind.drawn\<close> answers it, and one write: the body of \<open>drawnRow\<close>'s loop.\<close>

definition draw_change :: "('k, 'r, 'c) entity_kind \<Rightarrow> 'c \<Rightarrow> 'r option \<Rightarrow> 'r option" where
  "draw_change K c row =
     (case kind_drawn K c row of
        Row_Gone \<Rightarrow> None
      | Row r \<Rightarrow> Some r
      | Leave \<Rightarrow> row)"

definition draw_write ::
  "('k, 'r, 'c) entity_kind \<Rightarrow> 'k \<Rightarrow> ('k, 'c) standing \<Rightarrow> 'r option \<Rightarrow> 'r option" where
  "draw_write K key w row =
     (if key \<notin> set (write_keys w) then row else draw_change K (write_change w) row)"

definition drawn_row :: "('k, 'r, 'c) entity_kind \<Rightarrow> ('k, 'r, 'c) kind_rows \<Rightarrow> 'k \<Rightarrow> 'r option" where
  "drawn_row K rows key = fold (draw_write K key) (standing rows) (stored (synced rows) key)"

definition shows_key :: "('k, 'r) holding \<Rightarrow> 'k \<Rightarrow> bool" where
  "shows_key h key \<longleftrightarrow> key \<in> held h \<or> key \<in> set (adopted h) \<or>
     (case beside h of None \<Rightarrow> False | Some f \<Rightarrow> f key)"

definition shown :: "('k, 'r) holding \<Rightarrow> 'k list" where
  "shown h = order h @ filter (\<lambda>key. key \<notin> held h) (adopted h)"

definition held_by_any :: "(nat \<times> ('k, 'r) holding) list \<Rightarrow> 'k \<Rightarrow> bool" where
  "held_by_any rds key = list_ex (\<lambda>(i, h). key \<in> held h) rds"

definition holders_of ::
  "(nat \<times> ('k, 'r) holding) list \<Rightarrow> 'k list \<Rightarrow> nat option \<Rightarrow> nat list" where
  "holders_of rds keys except =
     map fst (filter (\<lambda>(i, h). Some i \<noteq> except \<and> list_ex (shows_key h) keys) rds)"

definition redrawn :: "nat list \<Rightarrow> 'k list \<Rightarrow> ('k, 'c) pool_event list" where
  "redrawn ids keys = (if keys = [] then [] else map (\<lambda>i. Redraw i keys) ids)"

definition standing_over :: "('k, 'r, 'c) kind_rows \<Rightarrow> 'k \<Rightarrow> bool" where
  "standing_over rows key = list_ex (\<lambda>w. key \<in> set (write_keys w)) (standing rows)"

definition moved_by ::
  "('k, 'r, 'c) entity_kind \<Rightarrow> ('k, 'r, 'c) kind_rows \<Rightarrow> 'k list \<Rightarrow>
   (('k, 'r, 'c) kind_rows \<Rightarrow> ('k, 'r, 'c) kind_rows) \<Rightarrow>
   ('k, 'r, 'c) kind_rows \<times> ('k, 'c) pool_event list" where
  "moved_by K rows keys step =
     (let before = map (\<lambda>key. (drawn_row K rows key, standing_over rows key)) keys;
          showing = holders_of (reads rows) keys None;
          rows' = step rows;
          moved = map fst (filter (\<lambda>(key, was).
            was \<noteq> (drawn_row K rows' key, standing_over rows' key)) (zip keys before))
      in (rows', if moved = [] then []
                 else redrawn (uniq (showing @ holders_of (reads rows') moved None)) moved))"

text \<open>The loops of \<open>adopted\<close> and \<open>unadopted\<close>, key by key and read by read.\<close>

definition adopt_key ::
  "('k, 'r, 'c) entity_kind \<Rightarrow> 'k \<Rightarrow> ('k, 'r, 'c) kind_rows \<Rightarrow> ('k, 'r, 'c) kind_rows" where
  "adopt_key K key rows =
     (case drawn_row K rows key of
        None \<Rightarrow> rows
      | Some row \<Rightarrow> rows\<lparr>reads := map (\<lambda>(i, h).
          (i, if shows_key h key \<or> (case adopts h of None \<Rightarrow> True | Some f \<Rightarrow> \<not> f row) then h
              else h\<lparr>adopted := adopted h @ [key]\<rparr>)) (reads rows)\<rparr>)"

definition adopt_keys ::
  "('k, 'r, 'c) entity_kind \<Rightarrow> 'k list \<Rightarrow> ('k, 'r, 'c) kind_rows \<Rightarrow> ('k, 'r, 'c) kind_rows" where
  "adopt_keys K keys rows = fold (adopt_key K) keys rows"

definition unadopt_keys :: "'k list \<Rightarrow> ('k, 'r, 'c) kind_rows \<Rightarrow> ('k, 'r, 'c) kind_rows" where
  "unadopt_keys keys rows =
     (let loose = filter (\<lambda>key. \<not> standing_over rows key) keys
      in rows\<lparr>reads := map (\<lambda>(i, h).
           (i, if \<not> list_ex (\<lambda>key. key \<in> set (adopted h)) loose then h
               else h\<lparr>adopted := filter (\<lambda>key. key \<notin> set loose) (adopted h)\<rparr>)) (reads rows)\<rparr>)"

definition taken_and_drawn ::
  "('k, 'r, 'c) entity_kind \<Rightarrow> ('k, 'r, 'c) kind_rows \<Rightarrow> ('k, 'r) js_map \<Rightarrow> nat option \<Rightarrow>
   ('k, 'r, 'c) kind_rows \<times> ('k, 'c) pool_event list \<times> 'k list" where
  "taken_and_drawn K rows nxt except =
     (let (sy, written) = take_rows (kind_key K) (synced rows) nxt
      in (rows\<lparr>synced := sy\<rparr>, redrawn (holders_of (reads rows) written except) written, written))"

subsection \<open>A read standing on the rows\<close>

text \<open>\<open>stood\<close>: a read begins to hold, under a number no read stands under, and holds nothing yet.\<close>

definition stand_read ::
  "('k, 'r, 'c) kind_rows \<Rightarrow> nat \<Rightarrow> ('r \<Rightarrow> bool) option \<Rightarrow> ('k \<Rightarrow> bool) option \<Rightarrow>
   ('k, 'r, 'c) kind_rows" where
  "stand_read rows i ad be = rows\<lparr>reads := reads rows @
     [(i, \<lparr>adopts = ad, beside = be, order = [], held = {}, adopted = []\<rparr>)]\<rparr>"

text \<open>The keys nobody holds any longer taken out of the rows to take and out of \<open>takenAt\<close>.\<close>

definition let_go ::
  "(nat \<times> ('k, 'r) holding) list \<Rightarrow> 'k list \<Rightarrow> ('k, 'r) js_map \<times> ('k \<rightharpoonup> int) \<Rightarrow>
   ('k, 'r) js_map \<times> ('k \<rightharpoonup> int)" where
  "let_go rds keys = fold (\<lambda>key (nxt, at).
     if held_by_any rds key then (nxt, at) else (AList.delete key nxt, at(key := None))) keys"

text \<open>\<open>stood\<close>'s release, as the read's scope closes.\<close>

definition release_read ::
  "('k, 'r, 'c) entity_kind \<Rightarrow> ('k, 'r, 'c) kind_rows \<Rightarrow> nat \<Rightarrow> ('k, 'r, 'c) kind_rows" where
  "release_read K rows i =
     (case map_of (reads rows) i of
        None \<Rightarrow> rows
      | Some h \<Rightarrow>
          (let rds = filter (\<lambda>(j, _). j \<noteq> i) (reads rows);
               (nxt, at) = let_go rds (order h) (held_rows (synced rows), taken_at rows)
           in rows\<lparr>reads := rds, taken_at := at,
                synced := fst (take_rows (kind_key K) (synced rows) nxt)\<rparr>))"

text \<open>
  The rows an answer upserts: a row answered at a sync id older than the one its key was taken at
  is passed over.
\<close>

definition upserted ::
  "('k, 'r) js_map \<Rightarrow> int option \<Rightarrow> ('k, 'r) js_map \<times> ('k \<rightharpoonup> int) \<Rightarrow>
   ('k, 'r) js_map \<times> ('k \<rightharpoonup> int)" where
  "upserted keyd at = fold (\<lambda>(key, row) (nxt, ta).
     (case (at, ta key) of
        (Some a, Some t) \<Rightarrow>
          if t > a then (nxt, ta) else (AList.update key row nxt, ta(key \<mapsto> a))
      | (Some a, None) \<Rightarrow> (AList.update key row nxt, ta(key \<mapsto> a))
      | (None, _) \<Rightarrow> (AList.update key row nxt, ta))) keyd"

text \<open>\<open>set_read rds i h\<close>: the \<open>Holding\<close> object of read \<open>i\<close> as it now stands.\<close>

definition set_read ::
  "nat \<Rightarrow> ('k, 'r) holding \<Rightarrow> (nat \<times> ('k, 'r) holding) list \<Rightarrow> (nat \<times> ('k, 'r) holding) list" where
  "set_read i h rds = map (\<lambda>(j, g). (j, if j = i then h else g)) rds"

text \<open>The keys an answer names: those \<open>held\<close> says, or those of its rows.\<close>

definition answer_keys ::
  "('k, 'r, 'c) entity_kind \<Rightarrow> 'r list \<Rightarrow> 'k list option \<Rightarrow> 'k list" where
  "answer_keys K answered held_keys = uniq (case held_keys of
     None \<Rightarrow> map fst (new_map (map (\<lambda>row. (kind_key K row, row)) answered)) | Some ks \<Rightarrow> ks)"

text \<open>What the answer leaves to be taken, and the sync ids.\<close>

definition answer_next ::
  "('k, 'r, 'c) entity_kind \<Rightarrow> ('k, 'r, 'c) kind_rows \<Rightarrow> nat \<Rightarrow> ('k, 'r) holding \<Rightarrow> 'r list \<Rightarrow>
   'k list option \<Rightarrow> int option \<Rightarrow> ('k, 'r) js_map \<times> ('k \<rightharpoonup> int)" where
  "answer_next K rows i h answered held_keys at =
     (let keys = answer_keys K answered held_keys
      in let_go (set_read i (h\<lparr>order := keys, held := set keys\<rparr>) (reads rows)) (order h)
           (upserted (new_map (map (\<lambda>row. (kind_key K row, row)) answered)) at
             (held_rows (synced rows), taken_at rows)))"

definition answer_read ::
  "('k, 'r, 'c) entity_kind \<Rightarrow> ('k, 'r, 'c) kind_rows \<Rightarrow> nat \<Rightarrow> 'r list \<Rightarrow> 'k list option \<Rightarrow>
   int option \<Rightarrow> ('k, 'r, 'c) kind_rows \<times> ('k, 'c) pool_event list \<times> 'k list" where
  "answer_read K rows i answered held_keys at =
     (case map_of (reads rows) i of
        None \<Rightarrow> (rows, [], [])
      | Some h \<Rightarrow>
          (let keys = answer_keys K answered held_keys;
               was = order h;
               (nxt, ta) = answer_next K rows i h answered held_keys at;
               placed = filter (\<lambda>key. key \<notin> set was) keys @ filter (\<lambda>key. key \<notin> set keys) was;
               (rows', events, written) =
                 taken_and_drawn K (rows\<lparr>reads := set_read i (h\<lparr>order := keys, held := set keys\<rparr>) (reads rows),
                   taken_at := ta\<rparr>) nxt (Some i)
           in (rows', events, uniq (written @ placed))))"

subsection \<open>What a read hands out\<close>

definition read_rows :: "('k, 'r, 'c) entity_kind \<Rightarrow> ('k, 'r, 'c) kind_rows \<Rightarrow> ('k, 'r) holding \<Rightarrow> 'r list" where
  "read_rows K rows h = List.map_filter (drawn_row K rows) (shown h)"

definition read_row ::
  "('k, 'r, 'c) entity_kind \<Rightarrow> ('k, 'r, 'c) kind_rows \<Rightarrow> ('k, 'r) holding \<Rightarrow> 'k \<Rightarrow> 'r option" where
  "read_row K rows h key =
     (if key \<in> held h \<or> key \<in> set (adopted h) then drawn_row K rows key else None)"

definition read_pending :: "('k, 'r, 'c) kind_rows \<Rightarrow> ('k, 'r) holding \<Rightarrow> 'k list" where
  "read_pending rows h = filter (standing_over rows) (shown h)"

definition read_synced :: "('k, 'r, 'c) kind_rows \<Rightarrow> ('k, 'r) holding \<Rightarrow> 'r list" where
  "read_synced rows h = List.map_filter (map_of (held_rows (synced rows))) (order h)"

definition read_standing :: "('k, 'r, 'c) kind_rows \<Rightarrow> 'c list" where
  "read_standing rows = map write_change (standing rows)"

subsection \<open>A write over the rows\<close>

text \<open>
  The three moves \<open>written\<close> makes of the rows: a write laid as the newest standing, with the rows
  it made adopted (\<open>drawnOn\<close>); its change given way to the service's word (\<open>standsAs\<close>); and the
  write taken out (\<open>drop\<close>).
\<close>

definition lay_write ::
  "('k, 'r, 'c) entity_kind \<Rightarrow> ('k, 'r, 'c) kind_rows \<Rightarrow> ('k, 'c) standing \<Rightarrow>
   ('k, 'r, 'c) kind_rows \<times> ('k, 'c) pool_event list" where
  "lay_write K rows w = moved_by K rows (write_keys w)
     (\<lambda>rows. adopt_keys K (write_keys w) (rows\<lparr>standing := standing rows @ [w]\<rparr>))"

definition stands_as ::
  "('k, 'r, 'c) entity_kind \<Rightarrow> ('k, 'r, 'c) kind_rows \<Rightarrow> nat \<Rightarrow> 'k list \<Rightarrow> 'c \<Rightarrow>
   ('k, 'r, 'c) kind_rows \<times> ('k, 'c) pool_event list" where
  "stands_as K rows wid keys c = moved_by K rows keys
     (\<lambda>rows. rows\<lparr>standing := map (\<lambda>w. if write_id w = wid then w\<lparr>write_change := c\<rparr> else w)
        (standing rows)\<rparr>)"

definition drop_write ::
  "('k, 'r, 'c) entity_kind \<Rightarrow> ('k, 'r, 'c) kind_rows \<Rightarrow> nat \<Rightarrow> 'k list \<Rightarrow>
   ('k, 'r, 'c) kind_rows \<times> ('k, 'c) pool_event list" where
  "drop_write K rows wid keys = moved_by K rows keys
     (\<lambda>rows. unadopt_keys keys (rows\<lparr>standing := filter (\<lambda>w. write_id w \<noteq> wid) (standing rows)\<rparr>))"

text \<open>
  \<open>takenInPlace\<close>: the service's word laid over keys in the place of each read given. The reads are
  given as the objects they are (\<open>Holding\<close>), which a read that has since closed still is, so each
  is its number and its contents; the reads still standing are written back.
\<close>

fun take_key ::
  "('k, 'r, 'c) entity_kind \<Rightarrow> 'c \<Rightarrow> 'k \<Rightarrow>
   ('k, 'r) holding \<times> ('k, 'r) js_map \<times> ('k \<rightharpoonup> int) \<Rightarrow>
   ('k, 'r) holding \<times> ('k, 'r) js_map \<times> ('k \<rightharpoonup> int)" where
  "take_key K taken key (h, nxt, ta) =
     (if key \<notin> held h \<and> key \<notin> set (adopted h) then (h, nxt, ta)
      else
        (let (nxt', ta') =
           (case kind_drawn K taken (map_of nxt key) of
              Row_Gone \<Rightarrow> (AList.delete key nxt, ta(key := None))
            | Row r \<Rightarrow> (AList.update key r nxt, ta)
            | Leave \<Rightarrow> (nxt, ta))
         in if key \<in> held h \<or> map_of nxt' key = None then (h, nxt', ta')
            else (h\<lparr>order := order h @ [key], held := insert key (held h)\<rparr>, nxt', ta')))"

definition take_holding ::
  "('k, 'r, 'c) entity_kind \<Rightarrow> 'c \<Rightarrow> 'k list \<Rightarrow> nat \<times> ('k, 'r) holding \<Rightarrow>
   (nat \<times> ('k, 'r) holding) list \<times> ('k, 'r) js_map \<times> ('k \<rightharpoonup> int) \<Rightarrow>
   (nat \<times> ('k, 'r) holding) list \<times> ('k, 'r) js_map \<times> ('k \<rightharpoonup> int)" where
  "take_holding K taken keys =
     (\<lambda>(i, h) (rds, nxt, ta).
        (let (h', nxt', ta') = fold (take_key K taken) keys (h, nxt, ta)
         in (set_read i h' rds, nxt', ta')))"

definition taken_in_place ::
  "('k, 'r, 'c) entity_kind \<Rightarrow> ('k, 'r, 'c) kind_rows \<Rightarrow> (nat \<times> ('k, 'r) holding) list \<Rightarrow>
   'k list \<Rightarrow> 'c \<Rightarrow> ('k, 'r, 'c) kind_rows \<times> ('k, 'c) pool_event list" where
  "taken_in_place K rows holdings keys taken =
     (let besides = map fst (filter (\<lambda>(i, h).
            case beside h of None \<Rightarrow> False | Some f \<Rightarrow> list_ex f keys) holdings);
          (rds, nxt, ta) = fold (take_holding K taken keys) holdings
            (reads rows, held_rows (synced rows), taken_at rows);
          (rows', events, written) =
            taken_and_drawn K (rows\<lparr>reads := rds, taken_at := ta\<rparr>) nxt None
      in (rows', map (\<lambda>i. Beside_Take i taken) besides @ redrawn besides keys @ events))"

subsection \<open>Facts about the steps\<close>

named_theorems pool_frame "which fields a step leaves alone"

lemma standing_over_cong: "standing r = standing s \<Longrightarrow> standing_over r = standing_over s"
  by (simp add: standing_over_def fun_eq_iff)

lemma standing_over_keys:
  fixes r s :: "('k, 'r, 'c) kind_rows"
  assumes "map write_keys (standing r) = map write_keys (standing s)"
  shows "standing_over r = standing_over s"
proof
  fix k
  have "standing_over t k = list_ex (\<lambda>ks. k \<in> set ks) (map write_keys (standing t))"
    for t :: "('k, 'r, 'c) kind_rows"
    by (simp add: standing_over_def list_ex_iff)
  with assms show "standing_over r k = standing_over s k" by metis
qed

lemma drawn_row_cong:
  "standing r = standing s \<Longrightarrow> synced r = synced s \<Longrightarrow> drawn_row K r = drawn_row K s"
  by (simp add: drawn_row_def fun_eq_iff)

lemma standing_over_standing [simp]:
  "standing_over (rows\<lparr>standing := ws\<rparr>) key \<longleftrightarrow> (\<exists>w \<in> set ws. key \<in> set (write_keys w))"
  by (simp add: standing_over_def list_ex_iff)

lemma standing_over_frame [simp]:
  "standing_over (rows\<lparr>reads := rds\<rparr>) = standing_over rows"
  "standing_over (rows\<lparr>synced := sy\<rparr>) = standing_over rows"
  "standing_over (rows\<lparr>taken_at := ta\<rparr>) = standing_over rows"
  by (simp_all add: standing_over_def fun_eq_iff)

lemma fst_moved_by [simp]: "fst (moved_by K rows keys step) = step rows"
  by (simp add: moved_by_def Let_def)

lemma adopt_key_frame [pool_frame]:
  "synced (adopt_key K key rows) = synced rows"
  "standing (adopt_key K key rows) = standing rows"
  "taken_at (adopt_key K key rows) = taken_at rows"
  "map fst (reads (adopt_key K key rows)) = map fst (reads rows)"
  by (simp_all add: adopt_key_def split_beta comp_def split: option.splits)

lemma adopt_keys_frame [pool_frame]:
  "synced (adopt_keys K keys rows) = synced rows"
  "standing (adopt_keys K keys rows) = standing rows"
  "taken_at (adopt_keys K keys rows) = taken_at rows"
  "map fst (reads (adopt_keys K keys rows)) = map fst (reads rows)"
  unfolding adopt_keys_def
  by (induction keys arbitrary: rows) (simp_all add: adopt_key_frame)

lemma unadopt_keys_frame [pool_frame]:
  "synced (unadopt_keys keys rows) = synced rows"
  "standing (unadopt_keys keys rows) = standing rows"
  "taken_at (unadopt_keys keys rows) = taken_at rows"
  "map fst (reads (unadopt_keys keys rows)) = map fst (reads rows)"
  by (simp_all add: unadopt_keys_def Let_def split_beta comp_def)

lemma held_by_any_iff: "held_by_any rds key \<longleftrightarrow> (\<exists>(i, h) \<in> set rds. key \<in> held h)"
  by (simp add: held_by_any_def list_ex_iff)

lemma set_read_fst [simp]: "map fst (set_read i h rds) = map fst rds"
  by (simp add: set_read_def split_beta comp_def)

lemma set_read_mem:
  assumes "distinct (map fst rds)" and "(i, g) \<in> set rds"
  shows "(j, f) \<in> set (set_read i h rds) \<longleftrightarrow> (if j = i then f = h else (j, f) \<in> set rds)"
  using assms by (auto simp: set_read_def intro: rev_image_eqI split: if_splits)

lemma let_go_spec:
  "let_go rds keys (m, ta) =
     (fold (\<lambda>key nxt. if held_by_any rds key then nxt else AList.delete key nxt) keys m,
      fold (\<lambda>key at. if held_by_any rds key then at else at(key := None)) keys ta)"
  unfolding let_go_def by (induction keys arbitrary: m ta) auto

lemma let_go_map:
  "map_of (fst (let_go rds keys (m, ta))) k =
     (if k \<in> set keys \<and> \<not> held_by_any rds k then None else map_of m k)"
  unfolding let_go_spec fst_conv by (induction keys arbitrary: m) auto

lemma let_go_at:
  "snd (let_go rds keys (m, ta)) k =
     (if k \<in> set keys \<and> \<not> held_by_any rds k then None else ta k)"
  unfolding let_go_spec snd_conv by (induction keys arbitrary: ta) auto

lemma let_go_keyed: "keyed key (fst p) \<Longrightarrow> keyed key (fst (let_go rds keys p))"
proof (cases p)
  case (Pair m ta)
  then show "keyed key (fst p) \<Longrightarrow> ?thesis"
    unfolding Pair let_go_spec fst_conv by (induction keys arbitrary: m) auto
qed

text \<open>Whether a row answered at \<open>at\<close> is older than the one its key was taken at.\<close>

definition stale :: "int option \<Rightarrow> int option \<Rightarrow> bool" where
  "stale at taken \<longleftrightarrow> (\<exists>a t. at = Some a \<and> taken = Some t \<and> t > a)"

lemma upserted_Cons:
  "upserted ((key, row) # keyd) at (m, ta) = upserted keyd at
     (if stale at (ta key) then (m, ta)
      else (AList.update key row m, case at of None \<Rightarrow> ta | Some a \<Rightarrow> ta(key \<mapsto> a)))"
  by (auto simp: upserted_def stale_def split: option.splits)

lemma upserted_spec:
  assumes "map_ok keyd"
  shows "map_of (fst (upserted keyd at (m, ta))) k =
      (case map_of keyd k of None \<Rightarrow> map_of m k
       | Some row \<Rightarrow> if stale at (ta k) then map_of m k else Some row)
    \<and> snd (upserted keyd at (m, ta)) k =
      (case map_of keyd k of None \<Rightarrow> ta k
       | Some row \<Rightarrow> if stale at (ta k) then ta k else (case at of None \<Rightarrow> ta k | Some a \<Rightarrow> Some a))"
  using assms
proof (induction keyd arbitrary: m ta k)
  case Nil
  then show ?case by (simp add: upserted_def)
next
  case (Cons p keyd)
  obtain key row where p: "p = (key, row)" by (cases p)
  from Cons.prems p have ok: "map_ok keyd" and new: "map_of keyd key = None"
    by (auto simp: map_ok_def map_of_None_iff)
  show ?case
    using new by (auto simp: p upserted_Cons Cons.IH [OF ok] split: option.splits)
qed

lemma upserted_keyed:
  assumes "keyed key m" "\<forall>(k, row) \<in> set keyd. key row = k"
  shows "keyed key (fst (upserted keyd at (m, ta)))"
  using assms
proof (induction keyd arbitrary: m ta)
  case Nil
  then show ?case by (simp add: upserted_def)
next
  case (Cons p keyd)
  then show ?case by (cases p) (auto simp: upserted_Cons)
qed

lemma new_map_row_keys: "\<forall>(k, row) \<in> set (new_map (map (\<lambda>row. (key row, row)) rs)). key row = k"
proof -
  have "keyed key m \<Longrightarrow>
    keyed key (fold (\<lambda>(k, v) m. AList.update k v m) (map (\<lambda>row. (key row, row)) rs) m)" for m
    by (induction rs arbitrary: m) auto
  from this [of "[]"] show ?thesis by (simp add: new_map_def keyed_def)
qed

subsection \<open>The contract of a kind\<close>

text \<open>
  A change fits a key where it leaves a row of that key a row of that key, and makes none but a
  row of that key: what \<open>kind.key\<close> and \<open>kind.drawn\<close> owe one another, since the pool files a row
  drawn under the key it was asked for.
\<close>

locale keyed_kind =
  fixes K :: "('k, 'r, 'c) entity_kind"
    and fit :: "'k \<Rightarrow> 'c \<Rightarrow> bool"
  assumes made_key: "fit k c \<Longrightarrow> kind_drawn K c None = Row r \<Longrightarrow> kind_key K r = k"
    and kept_key: "fit k c \<Longrightarrow> kind_key K r0 = k \<Longrightarrow> kind_drawn K c (Some r0) = Row r \<Longrightarrow> kind_key K r = k"
begin

lemma drawn_key:
  "fit k c \<Longrightarrow> (\<And>r0. row = Some r0 \<Longrightarrow> kind_key K r0 = k) \<Longrightarrow> kind_drawn K c row = Row r \<Longrightarrow>
    kind_key K r = k"
  by (cases row) (auto intro: made_key kept_key)

lemma draw_writes_key:
  assumes "\<forall>w \<in> set ws. k \<in> set (write_keys w) \<longrightarrow> fit k (write_change w)"
    and "\<And>r0. row = Some r0 \<Longrightarrow> kind_key K r0 = k"
    and "fold (draw_write K k) ws row = Some r"
  shows "kind_key K r = k"
  using assms
proof (induction ws arbitrary: row)
  case Nil
  then show ?case by simp
next
  case (Cons w ws)
  have "draw_write K k w row = Some r0 \<Longrightarrow> kind_key K r0 = k" for r0
    using Cons.prems(1,2) drawn_key [of k "write_change w" row r0]
    by (auto simp: draw_write_def draw_change_def split: if_splits drawn.splits)
  then show ?case using Cons.IH [of "draw_write K k w row"] Cons.prems by auto
qed

lemma drawn_row_key:
  assumes "synced_ok (kind_key K) (synced rows)"
    and "\<forall>w \<in> set (standing rows). k \<in> set (write_keys w) \<longrightarrow> fit k (write_change w)"
    and "drawn_row K rows k = Some r"
  shows "kind_key K r = k"
proof (rule draw_writes_key [OF assms(2)])
  show "fold (draw_write K k) (standing rows) (stored (synced rows) k) = Some r"
    using assms(3) by (simp add: drawn_row_def)
  show "kind_key K r0 = k" if "stored (synced rows) k = Some r0" for r0
    using assms(1) that by (auto simp: synced_ok_def dest: keyed_map_of)
qed

end

text \<open>The weakest such contract, which every kind has of its own.\<close>

definition fits :: "('k, 'r, 'c) entity_kind \<Rightarrow> 'k \<Rightarrow> 'c \<Rightarrow> bool" where
  "fits K k c \<longleftrightarrow> (\<forall>r. kind_drawn K c None = Row r \<longrightarrow> kind_key K r = k) \<and>
     (\<forall>r0 r. kind_key K r0 = k \<longrightarrow> kind_drawn K c (Some r0) = Row r \<longrightarrow> kind_key K r = k)"

interpretation any_kind: keyed_kind K "fits K" for K :: "('k, 'r, 'c) entity_kind"
  by unfold_locales (auto simp: fits_def)

text \<open>A kind of plain rows: a row made must carry the key, a change must leave it the key.\<close>

fun field_fits :: "(('f, 'v) fields \<Rightarrow> 'k) \<Rightarrow> 'k \<Rightarrow> ('f, 'v) field_change \<Rightarrow> bool" where
  "field_fits key k (Made m) = (key m = k)"
| "field_fits key k (Change f) =
     (\<forall>row fs. key row = k \<longrightarrow> f row = Fields fs \<longrightarrow> key (with_fields row fs) = k)"

interpretation fields: keyed_kind "field_kind key" "field_fits key"
  for key :: "('f, 'v) fields \<Rightarrow> 'k"
proof
  fix k :: 'k and c :: "('f, 'v) field_change" and r r0
  assume fit: "field_fits key k c"
  show "kind_drawn (field_kind key) c None = Row r \<Longrightarrow> kind_key (field_kind key) r = k"
    using fit by (cases c) (auto simp: field_kind_def)
  show "kind_key (field_kind key) r0 = k \<Longrightarrow> kind_drawn (field_kind key) c (Some r0) = Row r \<Longrightarrow>
      kind_key (field_kind key) r = k"
    using fit by (cases c) (auto simp: field_kind_def split: field_answer.splits if_splits)
qed

end
