(* ===== verification/Pool_Invariant.thy ===== *)
theory Pool_Invariant
  imports Entity_Pool
begin

text \<open>
  What holds of one kind's rows in every state the pool can come to, whatever the reads answer and
  whatever is written: the collection holds what was last taken, each row stored is one a read
  standing holds or one taken in the place of a read that had closed (a set of keys, \<open>L\<close>), a sync id is kept only for a row stored, a read's keys are each held once, and a
  read shows a row it adopted only while a write stands over it.
\<close>

definition holding_ok :: "('k, 'r, 'c) kind_rows \<Rightarrow> ('k, 'r) holding \<Rightarrow> bool" where
  "holding_ok rows h \<longleftrightarrow> set (order h) = held h \<and> distinct (order h) \<and> distinct (adopted h) \<and>
     (\<forall>k \<in> set (adopted h). standing_over rows k)"

definition rows_held :: "'k set \<Rightarrow> (nat \<times> ('k, 'r) holding) list \<Rightarrow> ('k \<rightharpoonup> 'r) \<Rightarrow> ('k \<rightharpoonup> int) \<Rightarrow> bool" where
  "rows_held L rds m ta \<longleftrightarrow> (\<forall>k. m k \<noteq> None \<longrightarrow> held_by_any rds k \<or> k \<in> L) \<and> (\<forall>k. ta k \<noteq> None \<longrightarrow> m k \<noteq> None)"

definition pool_ok :: "'k set \<Rightarrow> ('k, 'r, 'c) entity_kind \<Rightarrow> ('k, 'r, 'c) kind_rows \<Rightarrow> bool" where
  "pool_ok L K rows \<longleftrightarrow>
     writer_open (synced rows) \<and> synced_ok (kind_key K) (synced rows) \<and>
     distinct (map fst (reads rows)) \<and> distinct (map write_id (standing rows)) \<and>
     (\<forall>(i, h) \<in> set (reads rows). holding_ok rows h) \<and>
     rows_held L (reads rows) (stored (synced rows)) (taken_at rows)"

lemma pool_okD:
  assumes "pool_ok L K rows"
  shows "writer_open (synced rows) \<and> synced_ok (kind_key K) (synced rows)"
    and "keyed (kind_key K) (held_rows (synced rows))"
    and "stored (synced rows) = map_of (held_rows (synced rows))"
    and "distinct (map fst (reads rows))"
    and "distinct (map write_id (standing rows))"
    and "(i, h) \<in> set (reads rows) \<Longrightarrow> holding_ok rows h"
    and "rows_held L (reads rows) (stored (synced rows)) (taken_at rows)"
  using assms by (auto simp: pool_ok_def synced_ok_def)

lemma holding_ok_cong:
  assumes "standing r = standing s"
  shows "holding_ok r h = holding_ok s h"
  by (simp add: holding_ok_def standing_over_cong [OF assms])

lemma pool_ok_fresh: "pool_ok L K fresh_rows"
  by (simp add: pool_ok_def fresh_rows_def new_synced_def synced_ok_def rows_held_def)

subsection \<open>A take of rows some read holds\<close>

lemma pool_ok_take:
  assumes "pool_ok L K rows" "keyed (kind_key K) nxt"
    and "distinct (map fst rds)" "\<forall>(i, h) \<in> set rds. holding_ok rows h"
    and "rows_held L rds (map_of nxt) ta"
  shows "pool_ok L K (rows\<lparr>reads := rds, taken_at := ta,
      synced := fst (take_rows (kind_key K) (synced rows) nxt)\<rparr>)"
proof -
  note ok = pool_okD(1) [OF assms(1)]
  have "stored (fst (take_rows (kind_key K) (synced rows) nxt)) = map_of nxt"
    using sc.take_get [OF ok assms(2)] .
  moreover have "\<forall>(i, h) \<in> set rds. holding_ok (rows\<lparr>reads := rds, taken_at := ta,
      synced := fst (take_rows (kind_key K) (synced rows) nxt)\<rparr>) h"
    using assms(4) by (simp add: holding_ok_def)
  ultimately show ?thesis
    using sc.take_ok [OF ok assms(2)] assms(3,5) pool_okD(5) [OF assms(1)] by (simp add: pool_ok_def)
qed

lemma stored_taken:
  assumes "pool_ok L K rows" "keyed (kind_key K) nxt"
  shows "stored (fst (take_rows (kind_key K) (synced rows) nxt)) = map_of nxt"
  using sc.take_get [OF pool_okD(1) [OF assms(1)] assms(2)] .

subsection \<open>Reads that begin and close\<close>

lemma pool_ok_stand:
  assumes "pool_ok L K rows" "i \<notin> fst ` set (reads rows)"
  shows "pool_ok L K (stand_read rows i ad be)"
  using assms unfolding pool_ok_def stand_read_def
  by (auto simp: holding_ok_def rows_held_def held_by_any_iff)

lemma read_lookup:
  "pool_ok L K rows \<Longrightarrow> (i, h) \<in> set (reads rows) \<longleftrightarrow> map_of (reads rows) i = Some h"
  using pool_okD(4) by (metis map_of_eq_Some_iff)

lemma held_elsewhere:
  assumes "distinct (map fst rds)" "(i, h) \<in> set rds" "held_by_any rds k" "k \<notin> held h"
  shows "\<exists>(j, f) \<in> set rds. j \<noteq> i \<and> k \<in> held f"
proof -
  from assms(3) obtain j f where jf: "(j, f) \<in> set rds" "k \<in> held f" by (auto simp: held_by_any_iff)
  have "j \<noteq> i"
  proof
    assume "j = i"
    with jf(1) assms(1,2) have "f = h" by (auto dest: eq_key_imp_eq_value)
    with jf(2) assms(4) show False by simp
  qed
  with jf show ?thesis by auto
qed

lemma rows_held_let_go:
  assumes "rows_held L rds m0 ta" and "map_of m = m0"
    and "\<And>k. held_by_any rds k \<Longrightarrow> k \<notin> set keys \<Longrightarrow> held_by_any rds' k"
  shows "rows_held L rds' (map_of (fst (let_go rds' keys (m, ta)))) (snd (let_go rds' keys (m, ta)))"
  using assms by (auto simp: rows_held_def let_go_map let_go_at)

lemma release_read_Some:
  assumes "map_of (reads rows) i = Some h"
  shows "release_read K rows i =
    (let rds = filter (\<lambda>(j, _). j \<noteq> i) (reads rows);
         g = let_go rds (order h) (held_rows (synced rows), taken_at rows)
     in rows\<lparr>reads := rds, taken_at := snd g,
          synced := fst (take_rows (kind_key K) (synced rows) (fst g))\<rparr>)"
  using assms by (simp add: release_read_def Let_def split_beta)

lemma pool_ok_release:
  assumes "pool_ok L K rows"
  shows "pool_ok L K (release_read K rows i)"
proof (cases "map_of (reads rows) i")
  case None
  with assms show ?thesis by (simp add: release_read_def)
next
  case (Some h)
  let ?rds = "filter (\<lambda>(j, _). j \<noteq> i) (reads rows)"
  let ?g = "let_go ?rds (order h) (held_rows (synced rows), taken_at rows)"
  note ok = pool_okD [OF assms]
  have mem: "(i, h) \<in> set (reads rows)" using Some by (rule map_of_SomeD)
  have "rows_held L ?rds (map_of (fst ?g)) (snd ?g)"
  proof (rule rows_held_let_go [OF ok(7) ok(3) [symmetric]])
    fix k
    assume "held_by_any (reads rows) k" "k \<notin> set (order h)"
    moreover have "set (order h) = held h" using ok(6) [OF mem] by (simp add: holding_ok_def)
    ultimately show "held_by_any ?rds k"
      using held_elsewhere [OF ok(4) mem] by (fastforce simp: held_by_any_iff)
  qed
  then show ?thesis
    unfolding release_read_Some [OF Some] Let_def
    using ok(2,4,6)
    by (intro pool_ok_take [OF assms] let_go_keyed) (auto simp: distinct_map_filter)
qed

subsection \<open>Answers\<close>

lemma answer_read_Some:
  assumes "map_of (reads rows) i = Some h"
  shows "fst (answer_read K rows i answered held_keys at) =
    (let keys = answer_keys K answered held_keys; g = answer_next K rows i h answered held_keys at
     in rows\<lparr>reads := set_read i (h\<lparr>order := keys, held := set keys\<rparr>) (reads rows),
          taken_at := snd g, synced := fst (take_rows (kind_key K) (synced rows) (fst g))\<rparr>)"
  using assms
  by (simp add: answer_read_def taken_and_drawn_def Let_def split_beta)

lemma answer_next_keyed:
  assumes "pool_ok L K rows"
  shows "keyed (kind_key K) (fst (answer_next K rows i h answered held_keys at))"
  unfolding answer_next_def Let_def
  by (intro let_go_keyed upserted_keyed pool_okD(2) [OF assms] new_map_row_keys)

lemma held_by_any_set_read:
  assumes "distinct (map fst rds)" and "(i, g) \<in> set rds"
  shows "held_by_any (set_read i h rds) k \<longleftrightarrow>
    k \<in> held h \<or> (\<exists>(j, f) \<in> set rds. j \<noteq> i \<and> k \<in> held f)"
proof -
  have "(\<exists>j f. (j, f) \<in> set (set_read i h rds) \<and> k \<in> held f) \<longleftrightarrow>
      k \<in> held h \<or> (\<exists>j f. (j, f) \<in> set rds \<and> j \<noteq> i \<and> k \<in> held f)"
    unfolding set_read_mem [OF assms] by auto
  then show ?thesis by (auto simp: held_by_any_iff)
qed

lemma pool_ok_answer:
  assumes ok: "pool_ok L K rows"
    and named: "\<forall>ks row. held_keys = Some ks \<longrightarrow> row \<in> set answered \<longrightarrow> kind_key K row \<in> set ks"
  shows "pool_ok L K (fst (answer_read K rows i answered held_keys at))"
proof (cases "map_of (reads rows) i")
  case None
  with ok show ?thesis by (simp add: answer_read_def)
next
  case (Some h)
  let ?keyd = "new_map (map (\<lambda>row. (kind_key K row, row)) answered)"
  let ?keys = "answer_keys K answered held_keys"
  let ?rds = "set_read i (h\<lparr>order := ?keys, held := set ?keys\<rparr>) (reads rows)"
  obtain m ta where up: "upserted ?keyd at (held_rows (synced rows), taken_at rows) = (m, ta)"
    by (cases "upserted ?keyd at (held_rows (synced rows), taken_at rows)")
  note okD = pool_okD [OF ok]
  have mem: "(i, h) \<in> set (reads rows)" using Some by (rule map_of_SomeD)
  have h: "holding_ok rows h" by (rule okD(6) [OF mem])
  have keys: "fst ` set ?keyd \<subseteq> set ?keys"
    using named by (cases held_keys) (auto simp: answer_keys_def simp flip: image_image)
  have spec: "map_of m k = (case map_of ?keyd k of None \<Rightarrow> stored (synced rows) k
        | Some row \<Rightarrow> if stale at (taken_at rows k) then stored (synced rows) k else Some row)"
      "ta k = (case map_of ?keyd k of None \<Rightarrow> taken_at rows k
        | Some row \<Rightarrow> if stale at (taken_at rows k) then taken_at rows k
            else (case at of None \<Rightarrow> taken_at rows k | Some a \<Rightarrow> Some a))" for k
    using upserted_spec [of ?keyd at "held_rows (synced rows)" "taken_at rows" k]
    unfolding up okD(3) by simp_all
  note rds = held_by_any_set_read [OF okD(4) mem]
  have "rows_held L ?rds (map_of (fst (let_go ?rds (order h) (m, ta)))) (snd (let_go ?rds (order h) (m, ta)))"
    unfolding rows_held_def
  proof (intro conjI allI impI)
    fix k
    assume "map_of (fst (let_go ?rds (order h) (m, ta))) k \<noteq> None"
    then have go: "k \<in> set (order h) \<Longrightarrow> held_by_any ?rds k" and m: "map_of m k \<noteq> None"
      by (auto simp: let_go_map split: if_splits)
    show "held_by_any ?rds k \<or> k \<in> L"
    proof (cases "k \<in> set (order h) \<or> k \<in> set ?keys")
      case True
      with go show ?thesis by (auto simp: rds)
    next
      case False
      with keys have "map_of ?keyd k = None" by (auto simp: map_of_None_iff)
      with m spec have "held_by_any (reads rows) k \<or> k \<in> L" using okD(7) by (auto simp: rows_held_def)
      with False h show ?thesis
        using held_elsewhere [OF okD(4) mem] by (auto simp: rds holding_ok_def)
    qed
  next
    fix k
    assume "snd (let_go ?rds (order h) (m, ta)) k \<noteq> None"
    then show "map_of (fst (let_go ?rds (order h) (m, ta))) k \<noteq> None"
      using okD(7) by (auto simp: let_go_map let_go_at spec rows_held_def split: if_splits option.splits)
  qed
  moreover have "\<forall>(j, g) \<in> set ?rds. holding_ok rows g"
  proof -
    have "holding_ok rows (h\<lparr>order := ?keys, held := set ?keys\<rparr>)"
      using h by (simp add: holding_ok_def answer_keys_def)
    then show ?thesis using okD(6) set_read_mem [OF okD(4) mem] by (auto split: if_splits)
  qed
  ultimately show ?thesis
    unfolding answer_read_Some [OF Some] Let_def
    using okD(4) answer_next_keyed [OF ok, of i h answered held_keys at]
    by (intro pool_ok_take [OF ok]) (simp_all add: answer_next_def Let_def up)
qed

subsection \<open>Writes laid and dropped\<close>

lemma adopt_key_holding:
  assumes "\<forall>(i, h) \<in> set (reads rows). holding_ok rows h" and "standing_over rows key"
  shows "\<forall>(i, h) \<in> set (reads (adopt_key K key rows)). holding_ok (adopt_key K key rows) h"
  using assms
  by (auto simp: adopt_key_def holding_ok_def shows_key_def split: option.splits if_splits) auto

lemma adopt_keys_holding:
  assumes "\<forall>(i, h) \<in> set (reads rows). holding_ok rows h" and "\<forall>k \<in> set keys. standing_over rows k"
  shows "\<forall>(i, h) \<in> set (reads (adopt_keys K keys rows)). holding_ok (adopt_keys K keys rows) h"
  using assms unfolding adopt_keys_def
proof (induction keys arbitrary: rows)
  case Nil
  then show ?case by simp
next
  case (Cons k keys)
  have "standing_over (adopt_key K k rows) = standing_over rows"
    by (rule standing_over_cong) (simp add: pool_frame)
  with Cons.prems show ?case
    using adopt_key_holding [OF Cons.prems(1), of k K] by (simp add: Cons.IH)
qed

lemma unadopt_keys_holding:
  assumes "\<And>i h. (i, h) \<in> set (reads rows) \<Longrightarrow> set (order h) = held h \<and> distinct (order h) \<and>
      distinct (adopted h) \<and> (\<forall>k \<in> set (adopted h). k \<notin> set keys \<longrightarrow> standing_over rows k)"
  shows "\<forall>(i, h) \<in> set (reads (unadopt_keys keys rows)). holding_ok (unadopt_keys keys rows) h"
proof -
  have frame: "standing_over (unadopt_keys keys rows) = standing_over rows"
    by (rule standing_over_cong) (simp add: pool_frame)
  show ?thesis
    using assms unfolding holding_ok_def frame
    by (fastforce simp: unadopt_keys_def Let_def list_ex_iff split: if_splits)
qed

lemma held_adopt_key: "held_by_any (reads (adopt_key K key rows)) k = held_by_any (reads rows) k"
  by (auto simp: adopt_key_def held_by_any_def list_ex_iff split: option.splits if_splits) force+

lemma held_adopt_keys: "held_by_any (reads (adopt_keys K keys rows)) k = held_by_any (reads rows) k"
  unfolding adopt_keys_def by (induction keys arbitrary: rows) (simp_all add: held_adopt_key)

lemma held_unadopt_keys: "held_by_any (reads (unadopt_keys keys rows)) k = held_by_any (reads rows) k"
  by (auto simp: unadopt_keys_def Let_def held_by_any_def list_ex_iff split: if_splits) force+

lemma rows_held_cong:
  assumes "\<And>k. held_by_any rds k = held_by_any rds' k"
  shows "rows_held L rds = rows_held L rds'"
  using assms by (simp add: rows_held_def fun_eq_iff)

lemma holding_ok_mono:
  assumes "holding_ok rows h" and "\<And>k. standing_over rows k \<Longrightarrow> standing_over rows' k"
  shows "holding_ok rows' h"
  using assms by (auto simp: holding_ok_def)

lemma pool_ok_lay:
  assumes ok: "pool_ok L K rows" and new: "write_id w \<notin> write_id ` set (standing rows)"
  shows "pool_ok L K (fst (lay_write K rows w))"
proof -
  let ?laid = "rows\<lparr>standing := standing rows @ [w]\<rparr>"
  have over: "\<forall>(i, h) \<in> set (reads ?laid). holding_ok ?laid h"
  proof (clarsimp)
    fix i h
    assume "(i, h) \<in> set (reads rows)"
    then show "holding_ok ?laid h"
      by (rule holding_ok_mono [OF pool_okD(6) [OF ok]]) (auto simp: standing_over_def list_ex_iff)
  qed
  have "\<forall>(i, h) \<in> set (reads (adopt_keys K (write_keys w) ?laid)).
      holding_ok (adopt_keys K (write_keys w) ?laid) h"
    by (rule adopt_keys_holding [OF over]) simp
  then show ?thesis
    using ok new rows_held_cong [OF held_adopt_keys, of _ K "write_keys w" ?laid]
    by (auto simp: lay_write_def pool_ok_def pool_frame)
qed

lemma pool_ok_drop:
  assumes ok: "pool_ok L K rows" and w: "w \<in> set (standing rows)"
  shows "pool_ok L K (fst (drop_write K rows (write_id w) (write_keys w)))"
proof -
  let ?left = "rows\<lparr>standing := filter (\<lambda>v. write_id v \<noteq> write_id w) (standing rows)\<rparr>"
  have one: "v \<in> set (standing rows) \<Longrightarrow> write_id v = write_id w \<Longrightarrow> v = w" for v
    using pool_okD(5) [OF ok] w by (auto simp: distinct_map inj_on_def)
  have still: "standing_over rows k \<Longrightarrow> k \<notin> set (write_keys w) \<Longrightarrow> standing_over ?left k" for k
    using one by (auto simp: standing_over_def list_ex_iff)
  have "\<forall>(i, h) \<in> set (reads (unadopt_keys (write_keys w) ?left)).
      holding_ok (unadopt_keys (write_keys w) ?left) h"
    by (rule unadopt_keys_holding) (use pool_okD(6) [OF ok] still in \<open>auto simp: holding_ok_def\<close>)
  then show ?thesis
    using ok rows_held_cong [OF held_unadopt_keys, of _ "write_keys w" ?left]
    by (auto simp: drop_write_def pool_ok_def pool_frame distinct_map_filter)
qed

lemma pool_ok_stands_as:
  assumes "pool_ok L K rows"
  shows "pool_ok L K (fst (stands_as K rows wid keys c))"
proof -
  let ?new = "\<lambda>w. if write_id w = wid then w\<lparr>write_change := c\<rparr> else w"
  have "map write_keys (map ?new (standing rows)) = map write_keys (standing rows)" by simp
  then have "standing_over (rows\<lparr>standing := map ?new (standing rows)\<rparr>) = standing_over rows"
    by (intro standing_over_keys) simp
  moreover have "map write_id (map ?new (standing rows)) = map write_id (standing rows)" by simp
  ultimately show ?thesis
    using assms by (simp add: stands_as_def pool_ok_def holding_ok_def del: map_map)
qed

subsection \<open>The service's word taken in place\<close>

text \<open>
  The state of \<open>takenInPlace\<close>'s inner loop over one read, whose other readers hold the keys of
  \<open>others\<close>.
\<close>

definition taking_ok ::
  "('k, 'r, 'c) entity_kind \<Rightarrow> ('k \<Rightarrow> bool) \<Rightarrow> ('k, 'r) holding \<Rightarrow>
   ('k, 'r) holding \<times> ('k, 'r) js_map \<times> ('k \<rightharpoonup> int) \<Rightarrow> bool" where
  "taking_ok K others g = (\<lambda>(h, nxt, ta).
     keyed (kind_key K) nxt \<and> set (order h) = held h \<and> distinct (order h) \<and>
     adopted h = adopted g \<and> beside h = beside g \<and> adopts h = adopts g \<and>
     (\<forall>k. map_of nxt k \<noteq> None \<longrightarrow> k \<in> held h \<or> others k) \<and>
     (\<forall>k. ta k \<noteq> None \<longrightarrow> map_of nxt k \<noteq> None))"

lemma taking_ok_key:
  assumes "taking_ok K others g s" and "fits K key taken"
  shows "taking_ok K others g (take_key K taken key s)"
proof (cases s)
  case (fields h nxt ta)
  have drawn: "kind_drawn K taken (map_of nxt key) = Row r \<Longrightarrow> kind_key K r = key" for r
    using assms fields any_kind.drawn_key [of K key taken "map_of nxt key" r]
    by (auto simp: taking_ok_def dest: keyed_map_of)
  show ?thesis
    using assms(1) drawn unfolding fields
    by (cases "kind_drawn K taken (map_of nxt key)") (auto simp: taking_ok_def Let_def)
qed

lemma taking_ok_keys:
  assumes "taking_ok K others g s" and "\<forall>key \<in> set keys. fits K key taken"
  shows "taking_ok K others g (fold (take_key K taken) keys s)"
  using assms by (induction keys arbitrary: s) (simp_all add: taking_ok_key del: take_key.simps)

text \<open>The state of the outer loop, over the reads.\<close>

definition all_taking_ok ::
  "'k set \<Rightarrow> ('k, 'r, 'c) entity_kind \<Rightarrow> ('k, 'r, 'c) kind_rows \<Rightarrow>
   (nat \<times> ('k, 'r) holding) list \<times> ('k, 'r) js_map \<times> ('k \<rightharpoonup> int) \<Rightarrow> bool" where
  "all_taking_ok L K rows = (\<lambda>(rds, nxt, ta).
     map fst rds = map fst (reads rows) \<and> keyed (kind_key K) nxt \<and>
     (\<forall>(i, h) \<in> set rds. holding_ok rows h) \<and> rows_held L rds (map_of nxt) ta)"

lemma set_read_same:
  assumes "distinct (map fst rds)" "(i, h) \<in> set rds"
  shows "set_read i h rds = rds"
proof -
  have "(j, g) \<in> set rds \<Longrightarrow> (j, if j = i then h else g) = (j, g)" for j g
    using assms by (auto dest: eq_key_imp_eq_value)
  then show ?thesis unfolding set_read_def by (intro map_idI) auto
qed

lemma take_holding_ok:
  assumes ok: "all_taking_ok L K rows (rds, nxt, ta)" and "distinct (map fst (reads rows))"
    and mem: "(i, h) \<in> set rds" and fit: "\<forall>key \<in> set keys. fits K key taken"
  shows "all_taking_ok L K rows (take_holding K taken keys (i, h) (rds, nxt, ta))"
    and "(j, f) \<in> set rds \<Longrightarrow> j \<noteq> i \<Longrightarrow> (j, f) \<in> set (fst (take_holding K taken keys (i, h) (rds, nxt, ta)))"
proof -
  define others where "others k \<longleftrightarrow> (\<exists>(j, f) \<in> set rds. j \<noteq> i \<and> k \<in> held f)" for k
  have dist: "distinct (map fst rds)" using ok assms(2) by (simp add: all_taking_ok_def)
  note held_set = held_by_any_set_read [OF dist mem, folded others_def]
  have "held_by_any rds k \<longleftrightarrow> k \<in> held h \<or> others k" for k
    using held_set [of h k] by (simp add: set_read_same [OF dist mem])
  then have start: "taking_ok K (\<lambda>k. others k \<or> k \<in> L) h (h, nxt, ta)"
    using ok mem by (auto simp: all_taking_ok_def taking_ok_def rows_held_def holding_ok_def)
  obtain h' nxt' ta' where out: "fold (take_key K taken) keys (h, nxt, ta) = (h', nxt', ta')"
    by (metis prod_cases3)
  have fin: "taking_ok K (\<lambda>k. others k \<or> k \<in> L) h (h', nxt', ta')"
    using taking_ok_keys [OF start fit] by (simp add: out)
  have res: "take_holding K taken keys (i, h) (rds, nxt, ta) = (set_read i h' rds, nxt', ta')"
    by (simp add: take_holding_def out)
  have "holding_ok rows h'"
    using fin ok mem by (auto simp: all_taking_ok_def taking_ok_def holding_ok_def)
  then have "\<forall>(j, f) \<in> set (set_read i h' rds). holding_ok rows f"
    using ok set_read_mem [OF dist mem] by (auto simp: all_taking_ok_def split: if_splits)
  then show "all_taking_ok L K rows (take_holding K taken keys (i, h) (rds, nxt, ta))"
    using fin ok held_set by (auto simp: res all_taking_ok_def taking_ok_def rows_held_def)
  show "(j, f) \<in> set rds \<Longrightarrow> j \<noteq> i \<Longrightarrow> (j, f) \<in> set (fst (take_holding K taken keys (i, h) (rds, nxt, ta)))"
    by (simp add: res set_read_mem [OF dist mem])
qed

lemma take_holdings_ok:
  assumes "all_taking_ok L K rows s" and "distinct (map fst (reads rows))"
    and "distinct (map fst holdings)" "set holdings \<subseteq> set (fst s)"
    and "\<forall>key \<in> set keys. fits K key taken"
  shows "all_taking_ok L K rows (fold (take_holding K taken keys) holdings s)"
  using assms
proof (induction holdings arbitrary: s)
  case Nil
  then show ?case by simp
next
  case (Cons p holdings)
  obtain i h where p: "p = (i, h)" by (cases p)
  obtain rds nxt ta where s: "s = (rds, nxt, ta)" by (cases s)
  note step = take_holding_ok [of L K rows rds nxt ta i h keys taken]
  have "set holdings \<subseteq> set (fst (take_holding K taken keys p s))"
  proof (clarify)
    fix j f
    assume "(j, f) \<in> set holdings"
    with Cons.prems p s step(2) show "(j, f) \<in> set (fst (take_holding K taken keys p s))" by force
  qed
  with Cons.prems p s step(1) show ?case by (auto intro!: Cons.IH)
qed

lemma pool_ok_take_in_place:
  assumes ok: "pool_ok L K rows" and live: "distinct (map fst holdings)" "set holdings \<subseteq> set (reads rows)"
    and fit: "\<forall>key \<in> set keys. fits K key taken"
  shows "pool_ok L K (fst (taken_in_place K rows holdings keys taken))"
proof -
  note okD = pool_okD [OF ok]
  obtain rds nxt ta where out: "fold (take_holding K taken keys) holdings
      (reads rows, held_rows (synced rows), taken_at rows) = (rds, nxt, ta)"
    by (metis prod_cases3)
  have "all_taking_ok L K rows (reads rows, held_rows (synced rows), taken_at rows)"
    using okD by (auto simp: all_taking_ok_def)
  from take_holdings_ok [OF this okD(4) live(1) _ fit] live(2) out
  have "all_taking_ok L K rows (rds, nxt, ta)" by simp
  then have "pool_ok L K (rows\<lparr>reads := rds, taken_at := ta,
      synced := fst (take_rows (kind_key K) (synced rows) nxt)\<rparr>)"
    using okD(4) by (intro pool_ok_take [OF ok]) (auto simp: all_taking_ok_def simp flip: map_map)
  then show ?thesis
    by (simp add: taken_in_place_def out taken_and_drawn_def Let_def split_beta)
qed

text \<open>The word taken in the place of a read that has closed, which shows nobody the keys it leaves stored.\<close>

lemma loose_taking:
  assumes "keyed (kind_key K) nxt" "\<forall>k. ta k \<noteq> None \<longrightarrow> map_of nxt k \<noteq> None" "\<forall>key \<in> set keys. fits K key taken"
    and "fold (take_key K taken) keys (h, nxt, ta) = (h', nxt', ta')"
  shows "keyed (kind_key K) nxt' \<and> (\<forall>k. ta' k \<noteq> None \<longrightarrow> map_of nxt' k \<noteq> None) \<and>
    (\<forall>k. map_of nxt' k \<noteq> None \<longrightarrow> map_of nxt k \<noteq> None \<or> k \<in> set keys)"
  using assms
proof (induction keys arbitrary: h nxt ta)
  case (Cons key keys)
  obtain h1 nxt1 ta1 where one: "take_key K taken key (h, nxt, ta) = (h1, nxt1, ta1)" by (metis prod_cases3)
  have drawn: "kind_drawn K taken (map_of nxt key) = Row r \<Longrightarrow> kind_key K r = key" for r
    using Cons.prems any_kind.drawn_key [of K key taken "map_of nxt key" r] by (auto dest: keyed_map_of)
  have "keyed (kind_key K) nxt1 \<and> (\<forall>k. ta1 k \<noteq> None \<longrightarrow> map_of nxt1 k \<noteq> None) \<and>
      (\<forall>k. map_of nxt1 k \<noteq> None \<longrightarrow> map_of nxt k \<noteq> None \<or> k = key)"
    using one Cons.prems(1,2) drawn
    by (cases "kind_drawn K taken (map_of nxt key)") (auto simp: Let_def split: if_splits)
  moreover have "fold (take_key K taken) keys (h1, nxt1, ta1) = (h', nxt', ta')"
    using Cons.prems(4) one by simp
  ultimately have one_key: "\<And>k. map_of nxt1 k \<noteq> None \<Longrightarrow> map_of nxt k \<noteq> None \<or> k = key"
    and rest: "keyed (kind_key K) nxt'" "\<forall>k. ta' k \<noteq> None \<longrightarrow> map_of nxt' k \<noteq> None"
      "\<And>k. map_of nxt' k \<noteq> None \<Longrightarrow> map_of nxt1 k \<noteq> None \<or> k \<in> set keys"
    using Cons.IH [of nxt1 ta1 h1] Cons.prems(3) by auto
  have "map_of nxt k \<noteq> None \<or> k \<in> set (key # keys)" if "map_of nxt' k \<noteq> None" for k
    using rest(3) [OF that] one_key by auto
  then show ?case using rest(1,2) by blast
qed simp

lemma pool_ok_take_closed:
  assumes ok: "pool_ok L K rows" and closed: "i \<notin> fst ` set (reads rows)"
    and fit: "\<forall>key \<in> set keys. fits K key taken"
  shows "pool_ok (L \<union> set keys) K (fst (taken_in_place K rows [(i, h)] keys taken))"
proof -
  note okD = pool_okD [OF ok]
  obtain h' nxt ta where out: "fold (take_key K taken) keys (h, held_rows (synced rows), taken_at rows) = (h', nxt, ta)"
    by (metis prod_cases3)
  have here: "set_read i h' (reads rows) = reads rows"
    using closed unfolding set_read_def by (intro map_idI) force
  from okD(3,7) have "\<forall>k. taken_at rows k \<noteq> None \<longrightarrow> map_of (held_rows (synced rows)) k \<noteq> None"
    by (simp add: rows_held_def)
  note taken = loose_taking [OF okD(2) this fit out]
  have ok': "pool_ok (L \<union> set keys) K rows" using ok by (auto simp: pool_ok_def rows_held_def)
  have "held_by_any (reads rows) k \<or> k \<in> L \<union> set keys" if "map_of nxt k \<noteq> None" for k
  proof -
    have "map_of (held_rows (synced rows)) k \<noteq> None \<or> k \<in> set keys" using taken that by blast
    then show ?thesis using okD(3,7) unfolding rows_held_def by auto
  qed
  then have "rows_held (L \<union> set keys) (reads rows) (map_of nxt) ta"
    using taken unfolding rows_held_def by blast
  then have "pool_ok (L \<union> set keys) K (rows\<lparr>reads := reads rows, taken_at := ta,
      synced := fst (take_rows (kind_key K) (synced rows) nxt)\<rparr>)"
    using taken okD(4,6) by (intro pool_ok_take [OF ok']) auto
  then show ?thesis
    by (simp add: taken_in_place_def take_holding_def out here taken_and_drawn_def Let_def split_beta)
qed

subsection \<open>Every state the pool comes to\<close>

text \<open>
  The steps of one kind's rows, in any order: a read begins or closes, answers, a write is laid,
  changed for the service's word, taken out, or taken in the place of reads, standing or closed. A read
  names the keys of the rows it answers, and a change leaves a row its key, as the kinds of the source do. The
  set holds the keys of the words taken in the place of reads that had closed.
\<close>

inductive pool_reach :: "('k, 'r, 'c) entity_kind \<Rightarrow> 'k set \<Rightarrow> ('k, 'r, 'c) kind_rows \<Rightarrow> bool"
  for K :: "('k, 'r, 'c) entity_kind" where
  fresh: "pool_reach K {} fresh_rows"
| stand: "pool_reach K L rows \<Longrightarrow> i \<notin> fst ` set (reads rows) \<Longrightarrow> pool_reach K L (stand_read rows i ad be)"
| release: "pool_reach K L rows \<Longrightarrow> pool_reach K L (release_read K rows i)"
| answer: "pool_reach K L rows \<Longrightarrow>
    \<forall>ks row. held_keys = Some ks \<longrightarrow> row \<in> set answered \<longrightarrow> kind_key K row \<in> set ks \<Longrightarrow>
    pool_reach K L (fst (answer_read K rows i answered held_keys at))"
| lay: "pool_reach K L rows \<Longrightarrow> write_id w \<notin> write_id ` set (standing rows) \<Longrightarrow>
    pool_reach K L (fst (lay_write K rows w))"
| word: "pool_reach K L rows \<Longrightarrow> pool_reach K L (fst (stands_as K rows wid keys c))"
| drop: "pool_reach K L rows \<Longrightarrow> w \<in> set (standing rows) \<Longrightarrow>
    pool_reach K L (fst (drop_write K rows (write_id w) (write_keys w)))"
| in_place: "pool_reach K L rows \<Longrightarrow> distinct (map fst holdings) \<Longrightarrow> set holdings \<subseteq> set (reads rows) \<Longrightarrow>
    \<forall>key \<in> set keys. fits K key taken \<Longrightarrow>
    pool_reach K L (fst (taken_in_place K rows holdings keys taken))"
| closed: "pool_reach K L rows \<Longrightarrow> i \<notin> fst ` set (reads rows) \<Longrightarrow> \<forall>key \<in> set keys. fits K key taken \<Longrightarrow>
    pool_reach K (L \<union> set keys) (fst (taken_in_place K rows [(i, h)] keys taken))"

lemma pool_reach_ok: "pool_reach K L rows \<Longrightarrow> pool_ok L K rows"
proof (induction rule: pool_reach.induct)
  case fresh
  show ?case by (rule pool_ok_fresh)
next
  case (stand L rows i ad be)
  then show ?case by (blast intro: pool_ok_stand)
next
  case (release L rows i)
  then show ?case by (blast intro: pool_ok_release)
next
  case (answer L rows held_keys answered i at)
  then show ?case by (blast intro: pool_ok_answer)
next
  case (lay L rows w)
  then show ?case by (blast intro: pool_ok_lay)
next
  case (word L rows wid keys c)
  then show ?case by (blast intro: pool_ok_stands_as)
next
  case (drop L rows w)
  then show ?case by (blast intro: pool_ok_drop)
next
  case (in_place L rows holdings keys taken)
  then show ?case by (blast intro: pool_ok_take_in_place)
next
  case (closed L rows i keys taken h)
  then show ?case by (blast intro: pool_ok_take_closed)
qed

end
