(* ===== verification/Pool_Properties.thy ===== *)
theory Pool_Properties
  imports Pool_Invariant
begin

text \<open>
  What the pool's rows promise their reads: the functional behaviour of an answer and of a write
  laid over the rows, who is drawn again, and that nothing outlives the reads that hold it. The
  witnesses run a small kind, a number under a number, whose change sets the number.
\<close>

subsection \<open>Who is drawn again\<close>

lemma holders_of_mem:
  "i \<in> set (holders_of rds keys except) \<longleftrightarrow>
     Some i \<noteq> except \<and> (\<exists>h. (i, h) \<in> set rds \<and> (\<exists>k \<in> set keys. shows_key h k))"
  by (force simp: holders_of_def list_ex_iff)

lemma redrawn_mem:
  "Redraw i ks \<in> set (redrawn ids keys) \<longleftrightarrow> keys \<noteq> [] \<and> ks = keys \<and> i \<in> set ids"
  by (auto simp: redrawn_def)

definition draws_again :: "nat \<Rightarrow> 'k \<Rightarrow> ('k, 'c) pool_event list \<Rightarrow> bool" where
  "draws_again i k events \<longleftrightarrow> (\<exists>ks. Redraw i ks \<in> set events \<and> k \<in> set ks)"

lemma moved_by_draws:
  assumes "k \<in> set keys"
    and "(drawn_row K rows k, standing_over rows k) \<noteq>
      (drawn_row K (step rows) k, standing_over (step rows) k)"
    and "(i, h) \<in> set (reads rows) \<union> set (reads (step rows))" "shows_key h k"
  shows "draws_again i k (snd (moved_by K rows keys step))"
proof -
  let ?b = "\<lambda>k. (drawn_row K rows k, standing_over rows k)"
  let ?a = "\<lambda>k. (drawn_row K (step rows) k, standing_over (step rows) k)"
  define moved where
    "moved = map fst (filter (\<lambda>(key, was). was \<noteq> ?a key) (zip keys (map ?b keys)))"
  let ?ids = "uniq (holders_of (reads rows) keys None @ holders_of (reads (step rows)) moved None)"
  have "set moved = {k \<in> set keys. ?b k \<noteq> ?a k}"
    unfolding moved_def by (force simp: zip_map2 zip_same_conv_map)
  with assms(1,2) have k: "k \<in> set moved" by blast
  have i: "i \<in> set ?ids"
    using assms(1,3,4) k by (auto simp: holders_of_mem)
  have "snd (moved_by K rows keys step) = (if moved = [] then [] else redrawn ?ids moved)"
    by (simp add: moved_by_def Let_def moved_def)
  with i k show ?thesis by (auto simp: draws_again_def redrawn_mem)
qed

lemma draw_others: "k \<notin> set (write_keys w) \<Longrightarrow> draw_write K k w row = row"
  by (simp add: draw_write_def)

lemma drawn_row_laid:
  "drawn_row K (fst (lay_write K rows w)) k = draw_write K k w (drawn_row K rows k)"
  by (simp add: lay_write_def drawn_row_def pool_frame)

lemma fold_draw_filter:
  "(\<And>w. w \<in> set ws \<Longrightarrow> \<not> P w \<Longrightarrow> k \<notin> set (write_keys w)) \<Longrightarrow>
    fold (draw_write K k) (filter P ws) row = fold (draw_write K k) ws row"
  by (induction ws arbitrary: row) (auto simp: draw_others)

lemma drawn_row_dropped:
  assumes "pool_ok L K rows" "w \<in> set (standing rows)" "k \<notin> set (write_keys w)"
  shows "drawn_row K (fst (drop_write K rows (write_id w) (write_keys w))) k = drawn_row K rows k"
proof -
  have "v \<in> set (standing rows) \<Longrightarrow> write_id v = write_id w \<Longrightarrow> v = w" for v
    using pool_okD(5) [OF assms(1)] assms(2) by (auto simp: distinct_map inj_on_def)
  then show ?thesis
    using assms(3) by (auto simp: drop_write_def drawn_row_def pool_frame intro!: fold_draw_filter)
qed

lemma taken_and_drawn_draws:
  assumes ok: "writer_open (synced rows) \<and> synced_ok (kind_key K) (synced rows)"
    and fit: "keyed (kind_key K) nxt"
    and moved: "map_of nxt k \<noteq> stored (synced rows) k"
    and i: "(i, h) \<in> set (reads rows)" "shows_key h k" "except \<noteq> Some i"
  shows "draws_again i k (fst (snd (taken_and_drawn K rows nxt except)))"
proof -
  have "k \<in> set (snd (take_rows (kind_key K) (synced rows) nxt))"
    using moved sc.take_written [OF ok fit] by simp
  with i show ?thesis
    by (auto simp: taken_and_drawn_def split_beta draws_again_def redrawn_mem holders_of_mem)
qed

subsection \<open>A small kind\<close>

definition demo_kind :: "(nat, nat \<times> nat, nat) entity_kind" where
  "demo_kind = \<lparr>kind_key = fst, kind_drawn = (\<lambda>c row. case row of None \<Rightarrow> Leave
     | Some r \<Rightarrow> if snd r = c then Leave else Row (fst r, c))\<rparr>"

definition demo_rows :: "(nat, nat \<times> nat, nat) kind_rows" where
  "demo_rows = fst (answer_read demo_kind (stand_read fresh_rows 0 None None) 0 [(1, 5)] None (Some 7))"

definition demo_write :: "(nat, nat) standing" where
  "demo_write = \<lparr>write_id = 9, write_keys = [1], write_change = 6\<rparr>"

lemmas demo_defs = demo_kind_def demo_rows_def demo_write_def fresh_rows_def new_synced_def stand_read_def
  answer_read_def answer_keys_def answer_next_def new_map_def upserted_def let_go_def set_read_def
  taken_and_drawn_def take_rows_def row_changes_def uniq_def held_by_any_def redrawn_def Let_def

lemma demo_rows_eval: "demo_rows =
  \<lparr>synced = \<lparr>writer_open = True, held_rows = [(1, (1, 5))], stored = [1 \<mapsto> (1, 5)]\<rparr>,
   reads = [(0, \<lparr>adopts = None, beside = None, order = [1], held = {1}, adopted = []\<rparr>)],
   standing = [], taken_at = [1 \<mapsto> 7]\<rparr>"
  by (simp add: demo_defs)

lemma demo_reach: "pool_reach demo_kind {} demo_rows"
  unfolding demo_rows_def
  by (intro pool_reach.answer pool_reach.stand pool_reach.fresh) (simp_all add: fresh_rows_def)

lemma demo_laid: "pool_reach demo_kind {} (fst (lay_write demo_kind demo_rows demo_write))"
  by (intro pool_reach.lay demo_reach) (simp add: demo_rows_eval)

subsection \<open>Properties\<close>

text \<open>
  C4: In every state the pool comes to, where reads name the keys of the rows they answer and a change leaves a
  row its key, a row it stores stands under the row's own key, and a read standing holds that key among
  those it answered, unless a word was taken under that key in the place of a read that had closed; each key
  a read shows as made by a write has a write standing over it.
\<close>

theorem stored_rows_are_held:
  assumes "pool_reach K L rows"
  shows "(\<forall>k r. stored (synced rows) k = Some r \<longrightarrow>
      kind_key K r = k \<and> (k \<in> L \<or> (\<exists>(i, h) \<in> set (reads rows). k \<in> set (order h))))
    \<and> (\<forall>(i, h) \<in> set (reads rows). \<forall>k \<in> set (adopted h). standing_over rows k)"
proof -
  note ok = pool_okD [OF pool_reach_ok [OF assms]]
  have "kind_key K r = k" if "stored (synced rows) k = Some r" for k r
    using that ok(2,3) by (auto dest: keyed_map_of)
  moreover have "k \<in> L \<or> (\<exists>(i, h) \<in> set (reads rows). k \<in> set (order h))" if "stored (synced rows) k = Some r" for k r
  proof (cases "k \<in> L")
    case False
    with that ok(7) obtain i h where ih: "(i, h) \<in> set (reads rows)" "k \<in> held h"
      by (auto simp: rows_held_def held_by_any_iff)
    with ok(6) [OF ih(1)] show ?thesis by (auto simp: holding_ok_def)
  qed simp
  ultimately show ?thesis using ok(6) by (auto simp: holding_ok_def)
qed

theorem stored_rows_are_held_witness:
  "stored (synced demo_rows) 1 = Some (1, 5) \<and> (\<exists>(i, h) \<in> set (reads demo_rows). 1 \<in> set (order h))"
  using stored_rows_are_held [OF demo_reach] by (simp add: demo_rows_eval)

text \<open>
  As the last read closes nothing of its account stays, where no word was taken in the place of a read already
  closed: no row and no sync id, so one account's rows never reach the next account's reads.
\<close>

theorem closed_reads_leave_nothing:
  assumes "pool_reach K {} rows" and "reads rows = [(i, h)]"
  shows "stored (synced (release_read K rows i)) = Map.empty
    \<and> held_rows (synced (release_read K rows i)) = []
    \<and> taken_at (release_read K rows i) = Map.empty \<and> reads (release_read K rows i) = []"
proof -
  have none: "reads (release_read K rows i) = []"
    using assms(2) by (simp add: release_read_def split_beta)
  have "pool_ok {} K (release_read K rows i)"
    using assms(1) by (blast intro: pool_reach.release pool_reach_ok)
  note ok = pool_okD [OF this]
  have "stored (synced (release_read K rows i)) = Map.empty"
    using ok(7) none by (auto simp: rows_held_def held_by_any_def fun_eq_iff)
  moreover from this ok(3) have "held_rows (synced (release_read K rows i)) = []" by simp
  ultimately show ?thesis using ok(7) none by (auto simp: rows_held_def fun_eq_iff)
qed

theorem closed_reads_leave_nothing_witness:
  "stored (synced (release_read demo_kind demo_rows 0)) = Map.empty"
  using closed_reads_leave_nothing [OF demo_reach] by (simp add: demo_rows_eval)

text \<open>
  What an answer leaves stored. A row answered replaces the one stored, unless its sync id is
  older than the one its key was taken at; a key no read holds any longer is gone; every other key
  stands as it stood.
\<close>

theorem answer_stores:
  assumes "pool_reach K L rows" and "map_of (reads rows) i = Some h"
  shows "stored (synced (fst (answer_read K rows i answered held_keys at))) k =
    (if k \<in> set (order h) \<and> \<not> held_by_any (reads (fst (answer_read K rows i answered held_keys at))) k
     then None
     else case map_of (new_map (map (\<lambda>row. (kind_key K row, row)) answered)) k of
       None \<Rightarrow> stored (synced rows) k
     | Some row \<Rightarrow> if stale at (taken_at rows k) then stored (synced rows) k else Some row)"
proof -
  let ?keyd = "new_map (map (\<lambda>row. (kind_key K row, row)) answered)"
  let ?rows' = "fst (answer_read K rows i answered held_keys at)"
  note ok = pool_reach_ok [OF assms(1)]
  note eq = answer_read_Some [OF assms(2), of K answered held_keys at, unfolded Let_def]
  have "stored (synced ?rows') = map_of (fst (answer_next K rows i h answered held_keys at))"
    by (simp add: eq stored_taken [OF ok answer_next_keyed [OF ok]])
  moreover have "reads ?rows' = set_read i (h\<lparr>order := answer_keys K answered held_keys,
      held := set (answer_keys K answered held_keys)\<rparr>) (reads rows)"
    by (simp add: eq)
  moreover obtain m ta where
    up: "upserted ?keyd at (held_rows (synced rows), taken_at rows) = (m, ta)" by fastforce
  ultimately show ?thesis
    using upserted_spec [of ?keyd at "held_rows (synced rows)" "taken_at rows" k]
    unfolding pool_okD(3) [OF ok] by (auto simp: answer_next_def Let_def let_go_map)
qed

theorem answer_stores_witness:
  "stored (synced (fst (answer_read demo_kind demo_rows 0 [(1, 8)] None (Some 6)))) 1 = Some (1, 5)
   \<and> stored (synced (fst (answer_read demo_kind demo_rows 0 [(1, 8)] None (Some 7)))) 1 = Some (1, 8)"
proof -
  have map: "map_of (reads demo_rows) 0 =
      Some \<lparr>adopts = None, beside = None, order = [1], held = {1}, adopted = []\<rparr>"
    by (simp add: demo_rows_eval)
  note at = answer_stores [OF demo_reach map, of "[(1, 8)]" None]
  have "held_by_any (reads (fst (answer_read demo_kind demo_rows 0 [(1, 8)] None (Some a)))) 1"
    if "a = 6 \<or> a = 7" for a
    using that by (auto simp: demo_rows_eval demo_defs)
  then show ?thesis
    using at [of "Some 6" 1] at [of "Some 7" 1]
    by (simp add: demo_rows_eval demo_kind_def new_map_def stale_def)
qed

text \<open>
  The sync id kept with a row never goes back: an answer that leaves a row stored leaves it
  taken at the id it was, or at a newer one the answer names.
\<close>

theorem sync_id_never_goes_back:
  assumes "pool_reach K L rows" and "taken_at rows k = Some t"
    and "stored (synced (fst (answer_read K rows i answered held_keys at))) k \<noteq> None"
  shows "\<exists>t' \<ge> t. taken_at (fst (answer_read K rows i answered held_keys at)) k = Some t'"
proof (cases "map_of (reads rows) i")
  case None
  with assms(2) show ?thesis by (simp add: answer_read_def)
next
  case (Some h)
  let ?keyd = "new_map (map (\<lambda>row. (kind_key K row, row)) answered)"
  note ok = pool_reach_ok [OF assms(1)]
  note eq = answer_read_Some [OF Some, of K answered held_keys at, unfolded Let_def]
  have st: "map_of (fst (answer_next K rows i h answered held_keys at)) k \<noteq> None"
    using assms(3) by (simp add: eq stored_taken [OF ok answer_next_keyed [OF ok]])
  obtain m ta where
    up: "upserted ?keyd at (held_rows (synced rows), taken_at rows) = (m, ta)" by fastforce
  have "taken_at (fst (answer_read K rows i answered held_keys at)) k = ta k"
    using st by (auto simp: eq answer_next_def Let_def up let_go_map let_go_at split: if_splits)
  moreover have "\<exists>t' \<ge> t. ta k = Some t'"
    using upserted_spec [of ?keyd at "held_rows (synced rows)" "taken_at rows" k] assms(2)
    by (auto simp: up stale_def split: option.splits if_splits)
  ultimately show ?thesis by simp
qed

theorem sync_id_never_goes_back_witness:
  "\<exists>t' \<ge> 7. taken_at (fst (answer_read demo_kind demo_rows 0 [(1, 8)] None (Some 9))) 1 = Some t'"
proof (rule sync_id_never_goes_back [OF demo_reach])
  show "taken_at demo_rows 1 = Some 7" by (simp add: demo_rows_eval)
  show "stored (synced (fst (answer_read demo_kind demo_rows 0 [(1, 8)] None (Some 9)))) 1 \<noteq> None"
    by (simp add: demo_rows_eval demo_defs)
qed

text \<open>
  An answer draws again every other read that shows a row it moved, and answers its own read
  exactly the keys whose row moved or that it took up or let go.
\<close>

theorem answer_draws_others:
  assumes "pool_reach K L rows" and "map_of (reads rows) i = Some h"
    and "answer_read K rows i answered held_keys at = (rows', events, keys)"
  shows "set keys = {k. stored (synced rows') k \<noteq> stored (synced rows) k}
      \<union> (set (answer_keys K answered held_keys) - set (order h))
      \<union> (set (order h) - set (answer_keys K answered held_keys))
    \<and> (\<forall>j g k. (j, g) \<in> set (reads rows) \<and> j \<noteq> i \<and> shows_key g k \<and>
         stored (synced rows') k \<noteq> stored (synced rows) k \<longrightarrow> draws_again j k events)"
proof -
  let ?nxt = "fst (answer_next K rows i h answered held_keys at)"
  let ?keys = "answer_keys K answered held_keys"
  let ?mid = "rows\<lparr>reads := set_read i (h\<lparr>order := ?keys, held := set ?keys\<rparr>) (reads rows),
    taken_at := snd (answer_next K rows i h answered held_keys at)\<rparr>"
  note ok = pool_reach_ok [OF assms(1)]
  note good = pool_okD(1) [OF ok] and fit = answer_next_keyed [OF ok, of i h answered held_keys at]
  have st: "stored (synced rows') = map_of ?nxt"
    using assms(3) answer_read_Some [OF assms(2), of K answered held_keys at]
      stored_taken [OF ok fit] by (simp add: Let_def)
  have out: "events = fst (snd (taken_and_drawn K ?mid ?nxt (Some i)))"
    "keys = uniq (snd (snd (taken_and_drawn K ?mid ?nxt (Some i))) @
      filter (\<lambda>key. key \<notin> set (order h)) ?keys @ filter (\<lambda>key. key \<notin> set ?keys) (order h))"
    using assms(2,3) by (simp_all add: answer_read_def Let_def split_beta)
  have "set (snd (snd (taken_and_drawn K ?mid ?nxt (Some i)))) =
      {k. stored (synced rows') k \<noteq> stored (synced rows) k}"
    using sc.take_written [OF good fit] by (simp add: taken_and_drawn_def split_beta st)
  then have "set keys = {k. stored (synced rows') k \<noteq> stored (synced rows) k}
      \<union> (set ?keys - set (order h)) \<union> (set (order h) - set ?keys)"
    unfolding out(2) by auto
  moreover have "draws_again j k events"
    if "(j, g) \<in> set (reads rows)" "j \<noteq> i" "shows_key g k" "stored (synced rows') k \<noteq> stored (synced rows) k"
    for j g k
  proof -
    have "(j, g) \<in> set (reads ?mid)"
      using that(1,2) set_read_mem [OF pool_okD(4) [OF ok] map_of_SomeD [OF assms(2)]] by simp
    then show ?thesis
      unfolding out(1) using that good fit st by (intro taken_and_drawn_draws) auto
  qed
  ultimately show ?thesis by blast
qed

theorem answer_draws_others_witness:
  "set (snd (snd (answer_read demo_kind demo_rows 0 [(1, 8), (2, 3)] None None))) = {1, 2}"
proof -
  have map: "map_of (reads demo_rows) 0 =
      Some \<lparr>adopts = None, beside = None, order = [1], held = {1}, adopted = []\<rparr>"
    by (simp add: demo_rows_eval)
  obtain rows' events keys where out:
    "answer_read demo_kind demo_rows 0 [(1, 8), (2, 3)] None None = (rows', events, keys)"
    by (metis prod_cases3)
  have "stored (synced rows') = [1 \<mapsto> (1, 8), 2 \<mapsto> (2, 3)]"
    using arg_cong [OF out, of "\<lambda>x. stored (synced (fst x))"] by (auto simp: demo_rows_eval demo_defs)
  then show ?thesis
    using answer_draws_others [OF demo_reach map out] out
    by (auto simp: demo_rows_eval demo_kind_def answer_keys_def new_map_def uniq_def)
qed

subsection \<open>Writes\<close>

text \<open>
  A write is drawn the moment it is laid, as the newest: each row shows it over what it showed
  before, no other row moves, and every read showing a row it moved, or that no write stood over
  before, is drawn again.
\<close>

theorem write_drawn_at_once:
  assumes "lay_write K rows w = (rows', events)"
  shows "drawn_row K rows' k = draw_write K k w (drawn_row K rows k)
    \<and> synced rows' = synced rows \<and> standing rows' = standing rows @ [w]
    \<and> (\<forall>i h. (i, h) \<in> set (reads rows) \<union> set (reads rows') \<and> shows_key h k \<and> k \<in> set (write_keys w) \<and>
         (drawn_row K rows' k \<noteq> drawn_row K rows k \<or> \<not> standing_over rows k) \<longrightarrow> draws_again i k events)"
proof -
  let ?step = "\<lambda>rows. adopt_keys K (write_keys w) (rows\<lparr>standing := standing rows @ [w]\<rparr>)"
  have rows': "rows' = ?step rows" and events: "events = snd (moved_by K rows (write_keys w) ?step)"
    using arg_cong [OF assms, of fst] arg_cong [OF assms, of snd] by (simp_all add: lay_write_def)
  have over: "k \<in> set (write_keys w) \<Longrightarrow> standing_over rows' k"
    by (simp add: rows' standing_over_def pool_frame)
  have "draws_again i k events"
    if "(i, h) \<in> set (reads rows) \<union> set (reads rows')" "shows_key h k" "k \<in> set (write_keys w)"
      "drawn_row K rows' k \<noteq> drawn_row K rows k \<or> \<not> standing_over rows k" for i h
    unfolding events
  proof (rule moved_by_draws [OF that(3) _ _ that(2)])
    show "(drawn_row K rows k, standing_over rows k) \<noteq>
        (drawn_row K (?step rows) k, standing_over (?step rows) k)"
      using that(4) over [OF that(3)] unfolding rows' by auto
    show "(i, h) \<in> set (reads rows) \<union> set (reads (?step rows))" using that(1) unfolding rows' .
  qed
  moreover have "drawn_row K rows' k = draw_write K k w (drawn_row K rows k)"
    using drawn_row_laid [of K rows w k] assms by simp
  moreover have "synced rows' = synced rows" "standing rows' = standing rows @ [w]"
    by (simp_all add: rows' pool_frame)
  ultimately show ?thesis by blast
qed

theorem write_drawn_at_once_witness:
  "drawn_row demo_kind (fst (lay_write demo_kind demo_rows demo_write)) 1 = Some (1, 6)
   \<and> draws_again 0 1 (snd (lay_write demo_kind demo_rows demo_write))"
proof -
  obtain rows' events where out: "lay_write demo_kind demo_rows demo_write = (rows', events)"
    by fastforce
  note at = write_drawn_at_once [OF out, of 1]
  have drawn: "drawn_row demo_kind rows' 1 = Some (1, 6)"
    using at by (simp add: drawn_row_def demo_rows_eval draw_write_def draw_change_def demo_kind_def demo_write_def)
  have "(0, \<lparr>adopts = None, beside = None, order = [1], held = {1}, adopted = []\<rparr>) \<in> set (reads demo_rows)"
    by (simp add: demo_rows_eval)
  moreover have "\<not> standing_over demo_rows 1" by (simp add: standing_over_def demo_rows_eval)
  ultimately have "draws_again 0 1 events"
    using at by (fastforce simp: shows_key_def demo_write_def)
  with drawn out show ?thesis by simp
qed

text \<open>A read without the keys of \<open>ks\<close> it adopted.\<close>

definition without_adopted :: "'k set \<Rightarrow> (nat \<times> ('k, 'r) holding) list \<Rightarrow> (nat \<times> ('k, 'r) holding) list" where
  "without_adopted ks rds =
     map (\<lambda>(i, h). (i, h\<lparr>adopted := filter (\<lambda>k. k \<notin> ks) (adopted h)\<rparr>)) rds"

lemma without_adopted_key:
  "k \<in> ks \<Longrightarrow> without_adopted ks (reads (adopt_key K k rows)) = without_adopted ks (reads rows)"
  by (auto simp: adopt_key_def without_adopted_def split: option.splits)

lemma without_adopted_keys:
  "set keys \<subseteq> ks \<Longrightarrow> without_adopted ks (reads (adopt_keys K keys rows)) = without_adopted ks (reads rows)"
  unfolding adopt_keys_def
  by (induction keys arbitrary: rows) (simp_all add: without_adopted_key)

lemma unadopt_loose:
  assumes "\<forall>k \<in> set keys. \<not> standing_over rows k"
  shows "reads (unadopt_keys keys rows) = without_adopted (set keys) (reads rows)"
proof -
  have "filter (\<lambda>key. \<not> standing_over rows key) keys = keys"
    using assms by (simp add: filter_id_conv)
  moreover have "h\<lparr>adopted := filter (\<lambda>k. k \<notin> set keys) (adopted h)\<rparr> = h"
    if "\<forall>k \<in> set keys. k \<notin> set (adopted h)" for h :: "('a, 'b) holding"
  proof -
    have "filter (\<lambda>k. k \<notin> set keys) (adopted h) = adopted h" using that by (auto simp: filter_id_conv)
    then show ?thesis by simp
  qed
  ultimately show ?thesis
    by (auto simp: unadopt_keys_def without_adopted_def list_ex_iff)
qed

lemma without_adopted_same:
  assumes "\<forall>(i, h) \<in> set rds. set (adopted h) \<inter> ks = {}"
  shows "without_adopted ks rds = rds"
  unfolding without_adopted_def
proof (rule map_idI)
  fix p
  assume p: "p \<in> set rds"
  obtain i h where ih: "p = (i, h)" by (cases p)
  with p assms have "filter (\<lambda>k. k \<notin> ks) (adopted h) = adopted h" by (fastforce simp: filter_id_conv)
  with ih show "(case p of (i, h) \<Rightarrow> (i, h\<lparr>adopted := filter (\<lambda>k. k \<notin> ks) (adopted h)\<rparr>)) = p" by simp
qed

text \<open>
  C2: A write taken back leaves the rows as they were: what is synced, the other writes, and every
  row drawn, and, where no other write stood over its keys, the reads' own keys too.
\<close>

theorem write_taken_back:
  assumes "pool_reach K L rows" and "write_id w \<notin> write_id ` set (standing rows)"
    and "rows' = fst (drop_write K (fst (lay_write K rows w)) (write_id w) (write_keys w))"
  shows "synced rows' = synced rows \<and> standing rows' = standing rows
    \<and> drawn_row K rows' = drawn_row K rows
    \<and> ((\<forall>k \<in> set (write_keys w). \<not> standing_over rows k) \<longrightarrow> rows' = rows)"
proof -
  let ?laid = "rows\<lparr>standing := standing rows @ [w]\<rparr>"
  let ?adopted = "adopt_keys K (write_keys w) ?laid"
  have "filter (\<lambda>v. write_id v \<noteq> write_id w) (standing rows) = standing rows"
    using assms(2) by (auto simp: filter_id_conv intro: rev_image_eqI)
  then have rows': "rows' = unadopt_keys (write_keys w) (?adopted\<lparr>standing := standing rows\<rparr>)"
    by (simp add: assms(3) drop_write_def lay_write_def pool_frame)
  have frame: "synced rows' = synced rows" "standing rows' = standing rows" "taken_at rows' = taken_at rows"
    by (simp_all add: rows' pool_frame)
  have "reads rows' = reads rows" if free: "\<forall>k \<in> set (write_keys w). \<not> standing_over rows k"
  proof -
    have over: "standing_over (?adopted\<lparr>standing := standing rows\<rparr>) = standing_over rows"
      by (rule standing_over_cong) simp
    have "reads rows' = without_adopted (set (write_keys w)) (reads ?adopted)"
      unfolding rows' by (subst unadopt_loose) (use free over in simp_all)
    also have "\<dots> = without_adopted (set (write_keys w)) (reads rows)"
      by (simp add: without_adopted_keys)
    also have "\<dots> = reads rows"
      using free pool_okD(6) [OF pool_reach_ok [OF assms(1)]]
      by (intro without_adopted_same) (auto simp: holding_ok_def)
    finally show ?thesis .
  qed
  with frame show ?thesis using drawn_row_cong [OF frame(2,1)] by auto
qed

theorem write_taken_back_witness:
  "fst (drop_write demo_kind (fst (lay_write demo_kind demo_rows demo_write)) 9 [1]) = demo_rows"
proof -
  have "write_id demo_write \<notin> write_id ` set (standing demo_rows)" by (simp add: demo_rows_eval)
  from write_taken_back [OF demo_reach this refl] show ?thesis
    by (simp add: demo_write_def standing_over_def demo_rows_eval)
qed

lemma take_keys_nxt:
  assumes "distinct keys"
  shows "map_of (fst (snd (fold (take_key K taken) keys (h, nxt, ta)))) k =
    (if k \<in> set keys \<and> (k \<in> held h \<or> k \<in> set (adopted h))
     then draw_change K taken (map_of nxt k) else map_of nxt k)"
  using assms
proof (induction keys arbitrary: h nxt ta)
  case Nil
  then show ?case by simp
next
  case (Cons key keys)
  obtain h' nxt' ta' where step: "take_key K taken key (h, nxt, ta) = (h', nxt', ta')"
    by (metis prod_cases3)
  have shown: "k \<noteq> key \<Longrightarrow> k \<in> held h' \<or> k \<in> set (adopted h') \<longleftrightarrow> k \<in> held h \<or> k \<in> set (adopted h)"
    using step by (auto simp: Let_def split: if_splits drawn.splits)
  have other: "k \<noteq> key \<Longrightarrow> map_of nxt' k = map_of nxt k"
    using step by (auto simp: Let_def split: if_splits drawn.splits)
  have own: "map_of nxt' key = (if key \<in> held h \<or> key \<in> set (adopted h)
     then draw_change K taken (map_of nxt key) else map_of nxt key)"
    using step by (auto simp: Let_def draw_change_def split: if_splits drawn.splits)
  have "key \<notin> set keys" "distinct keys" using Cons.prems by auto
  then show ?case
    using shown other own Cons.IH [of h' nxt' ta']
    by (cases "k = key") (auto simp: step simp del: take_key.simps)
qed

text \<open>
  What the service answered, taken in one read's place, is its word drawn once over the synced
  row of each key the read shows of the pool, and every other row stands.
\<close>

theorem word_taken_in_place:
  assumes "pool_reach K L rows" and "map_of (reads rows) i = Some h"
    and "distinct keys" and "\<forall>key \<in> set keys. fits K key taken"
  shows "stored (synced (fst (taken_in_place K rows [(i, h)] keys taken))) k =
    (if k \<in> set keys \<and> (k \<in> held h \<or> k \<in> set (adopted h))
     then draw_change K taken (stored (synced rows) k) else stored (synced rows) k)"
proof -
  note ok = pool_reach_ok [OF assms(1)]
  note okD = pool_okD [OF ok]
  obtain h' nxt ta where out: "fold (take_key K taken) keys
      (h, held_rows (synced rows), taken_at rows) = (h', nxt, ta)"
    by (metis prod_cases3)
  have all: "all_taking_ok L K rows (reads rows, held_rows (synced rows), taken_at rows)"
    using okD by (auto simp: all_taking_ok_def)
  have "all_taking_ok L K rows (set_read i h' (reads rows), nxt, ta)"
    using take_holding_ok(1) [OF all okD(4) map_of_SomeD [OF assms(2)] assms(4)]
    by (simp add: take_holding_def out)
  then have "keyed (kind_key K) nxt" by (simp add: all_taking_ok_def)
  then have "stored (synced (fst (taken_in_place K rows [(i, h)] keys taken))) = map_of nxt"
    by (simp add: taken_in_place_def take_holding_def out taken_and_drawn_def split_beta
        stored_taken [OF ok] Let_def)
  then show ?thesis
    using take_keys_nxt [OF assms(3), of K taken h "held_rows (synced rows)" "taken_at rows" k]
    unfolding okD(3) by (simp add: out)
qed

theorem word_taken_in_place_witness:
  "stored (synced (fst (taken_in_place demo_kind demo_rows
     [(0, \<lparr>adopts = None, beside = None, order = [1], held = {1}, adopted = []\<rparr>)] [1, 2] 6))) 1 = Some (1, 6)"
proof -
  have map: "map_of (reads demo_rows) 0 =
      Some \<lparr>adopts = None, beside = None, order = [1], held = {1}, adopted = []\<rparr>"
    by (simp add: demo_rows_eval)
  have fit: "\<forall>key \<in> set [1, 2]. fits demo_kind key 6"
    by (auto simp: fits_def demo_kind_def split: if_splits)
  show ?thesis
    using word_taken_in_place [OF demo_reach map _ fit, of 1]
    by (simp add: demo_rows_eval draw_change_def demo_kind_def)
qed

end
