(* ===== verification/Write_Order.thy ===== *)
theory Write_Order
  imports Pool_Properties
begin

text \<open>
  \<open>packages/sync/src/entity-pool.ts\<close>, the life of a write: asked, sent once the writes to its keys
  asked before it are answered, answered, standing until its reads carry it, and stood down; or
  waiting for a service that did not answer, sent again oldest first, and let go.

  The fibers of the source become one state and the steps they take of it, in any order
  (\<open>pool_step\<close> answers none where a step is not due). A step is what the source runs between two
  awaits; a redraw of a read is taken to be done at once. A write is the number it was asked
  under, which is also its \<open>Turn\<close>. What the service answers, when a read carries a transaction,
  and who is signed in are the environment's, each a label of its own.
\<close>

text \<open>What the service answered of one attempt (\<open>Written\<close>, \<open>Refused\<close>).\<close>

datatype 'c reply =
    Kept bool "'c option" "'c option" bool \<comment> \<open>\<open>settled\<close>, \<open>standsAs\<close>, \<open>taken\<close>, whether it hands \<open>carried\<close>\<close>
  | Refused "'c option" bool \<comment> \<open>\<open>taken\<close>, \<open>unanswered\<close>\<close>

text \<open>
  Where a write stands: asked and awaiting its turn, sent, waiting in the queue, sent again from
  it, settling on the reads left to confirm it (their numbers, the word to take in their place,
  whether it waits on its own \<open>carried\<close>), or done.
\<close>

datatype 'c phase = Asked | Sent | Waits | Resent | Settling "nat list" 'c bool | Done

text \<open>What the write's caller heard.\<close>

datatype told = Hears_Answer | Hears_Refused | Hears_Queued

record ('k, 'c, 'h) turn =
  t_keys :: "'k list"
  t_change :: 'c
  before :: "nat list"
  answered :: bool
  dropped :: bool
  queueable :: bool
  holds :: bool
  asked_as :: 'h
  phase :: "'c phase"
  told :: "told option"

record ('k, 'r, 'c, 'h) pool_state =
  rows :: "('k, 'r, 'c) kind_rows"
  closed_reads :: "(nat \<times> ('k, 'r) holding) list"
  last_writes :: "'k \<rightharpoonup> nat"
  turns :: "nat \<rightharpoonup> ('k, 'c, 'h) turn"
  next_id :: nat
  waiting :: "nat list"
  resending :: "nat option"
  holder :: 'h
  sends :: "(nat \<times> 'h \<times> bool) list" \<comment> \<open>each attempt: the write, who it was sent as, \<open>waited\<close>\<close>
  replays_refused :: nat

definition queue_bound :: nat where
  "queue_bound = 200"

definition new_pool :: "'h \<Rightarrow> ('k, 'r, 'c, 'h) pool_state" where
  "new_pool h = \<lparr>rows = fresh_rows, closed_reads = [], last_writes = Map.empty, turns = Map.empty,
     next_id = 0, waiting = [], resending = None, holder = h, sends = [], replays_refused = 0\<rparr>"

definition room :: "('k, 'r, 'c, 'h) pool_state \<Rightarrow> bool" where
  "room s \<longleftrightarrow> length (waiting s) < queue_bound"

definition put_turn ::
  "nat \<Rightarrow> ('k, 'c, 'h) turn \<Rightarrow> ('k, 'r, 'c, 'h) pool_state \<Rightarrow> ('k, 'r, 'c, 'h) pool_state" where
  "put_turn i t s = s\<lparr>turns := (turns s)(i \<mapsto> t)\<rparr>"

text \<open>\<open>awaitEach\<close>: whether each of the turns reached the point named.\<close>

definition await_each ::
  "('k, 'r, 'c, 'h) pool_state \<Rightarrow> (('k, 'c, 'h) turn \<Rightarrow> bool) \<Rightarrow> nat list \<Rightarrow> bool" where
  "await_each s point ids = list_all (\<lambda>i. case turns s i of None \<Rightarrow> True | Some t \<Rightarrow> point t) ids"

text \<open>What a caller hears is the first thing it is told.\<close>

definition tell :: "told \<Rightarrow> ('k, 'c, 'h) turn \<Rightarrow> ('k, 'c, 'h) turn" where
  "tell w t = (case told t of None \<Rightarrow> t\<lparr>told := Some w\<rparr> | Some _ \<Rightarrow> t)"

subsection \<open>Asking and sending\<close>

definition ask ::
  "('k, 'r, 'c) entity_kind \<Rightarrow> ('k, 'r, 'c, 'h) pool_state \<Rightarrow> 'k list \<Rightarrow> 'c \<Rightarrow> bool \<Rightarrow> bool \<Rightarrow> bool \<Rightarrow>
   ('k, 'r, 'c, 'h) pool_state" where
  "ask K s keys0 c may_wait hold restored =
     (let i = next_id s;
          keys = uniq keys0;
          w = \<lparr>write_id = i, write_keys = keys, write_change = c\<rparr>;
          waits_now = may_wait \<and> room s \<and> (restored \<or> waiting s \<noteq> []);
          t = \<lparr>t_keys = keys, t_change = c, before = uniq (List.map_filter (last_writes s) keys),
               answered = waits_now, dropped = False, queueable = may_wait,
               holds = hold \<and> \<not> restored, asked_as = holder s,
               phase = (if waits_now then Waits else Asked),
               told = (if waits_now \<and> \<not> (hold \<and> \<not> restored) then Some Hears_Queued else None)\<rparr>
      in put_turn i t (s\<lparr>next_id := Suc i, rows := fst (lay_write K (rows s) w),
           last_writes := (\<lambda>k. if k \<in> set keys then Some i else last_writes s k),
           waiting := (if waits_now then waiting s @ [i] else waiting s)\<rparr>))"

text \<open>\<open>sent\<close> up to its attempt: due once every write before it is answered.\<close>

definition send_write ::
  "('k, 'r, 'c, 'h) pool_state \<Rightarrow> nat \<Rightarrow> ('k, 'r, 'c, 'h) pool_state option" where
  "send_write s i =
     (case turns s i of
        None \<Rightarrow> None
      | Some t \<Rightarrow> if phase t = Asked \<and> await_each s answered (before t)
          then Some (put_turn i (t\<lparr>phase := Sent\<rparr>) (s\<lparr>sends := sends s @ [(i, holder s, False)]\<rparr>)) else None)"

subsection \<open>Standing down\<close>

text \<open>\<open>drop\<close>: the write out of \<open>lastWrites\<close> where it is still the newest, and out of the rows.\<close>

definition drop_turn ::
  "('k, 'r, 'c) entity_kind \<Rightarrow> nat \<Rightarrow> ('k, 'c, 'h) turn \<Rightarrow> ('k, 'r, 'c, 'h) pool_state \<Rightarrow>
   ('k, 'r, 'c, 'h) pool_state" where
  "drop_turn K i t s = put_turn i (t\<lparr>dropped := True\<rparr>)
     (s\<lparr>last_writes := (\<lambda>k. if k \<in> set (t_keys t) \<and> last_writes s k = Some i then None
          else last_writes s k),
        rows := fst (drop_write K (rows s) i (t_keys t))\<rparr>)"

text \<open>The reads that show any of the keys, as the objects they are.\<close>

definition showing_reads ::
  "('k, 'r, 'c) kind_rows \<Rightarrow> 'k list \<Rightarrow> (nat \<times> ('k, 'r) holding) list" where
  "showing_reads rws keys = filter (\<lambda>(i, h). list_ex (shows_key h) keys) (reads rws)"

text \<open>\<open>takenBack\<close>: a refused write off the rows, on the service's word where it gave one.\<close>

definition taken_back ::
  "('k, 'r, 'c) entity_kind \<Rightarrow> nat \<Rightarrow> ('k, 'c, 'h) turn \<Rightarrow> 'c option \<Rightarrow> ('k, 'r, 'c, 'h) pool_state \<Rightarrow>
   ('k, 'r, 'c, 'h) pool_state" where
  "taken_back K i t word s = drop_turn K i (tell Hears_Refused (t\<lparr>phase := Done\<rparr>))
     (case word of
        None \<Rightarrow> s
      | Some c \<Rightarrow> s\<lparr>rows := fst (taken_in_place K (rows s) (showing_reads (rows s) (t_keys t)) (t_keys t) c)\<rparr>)"

text \<open>
  \<open>settled\<close> up to its waits: the write stands as the service's word where it gave one, and is left
  to be confirmed on each read showing its keys now; one the service took already is left none.
\<close>

definition settle ::
  "('k, 'r, 'c) entity_kind \<Rightarrow> nat \<Rightarrow> ('k, 'c, 'h) turn \<Rightarrow> bool \<Rightarrow> 'c option \<Rightarrow> 'c option \<Rightarrow> bool \<Rightarrow>
   ('k, 'r, 'c, 'h) pool_state \<Rightarrow> ('k, 'r, 'c, 'h) pool_state" where
  "settle K i t already stands word carried s =
     (let c = (if already then t_change t else case stands of None \<Rightarrow> t_change t | Some c \<Rightarrow> c);
          rows' = (if already \<or> stands = None then rows s
                   else fst (stands_as K (rows s) i (t_keys t) c));
          left = (if already then [] else map fst (showing_reads rows' (t_keys t)))
      in put_turn i (tell Hears_Answer
           (t\<lparr>t_change := c, phase := Settling left (case word of None \<Rightarrow> c | Some v \<Rightarrow> v) carried\<rparr>))
         (s\<lparr>rows := rows'\<rparr>))"

text \<open>What the first attempt came to: \<open>sent\<close>'s end, and what \<open>written\<close> makes of it.\<close>

definition reply_write ::
  "('k, 'r, 'c) entity_kind \<Rightarrow> ('k, 'r, 'c, 'h) pool_state \<Rightarrow> nat \<Rightarrow> 'c reply \<Rightarrow>
   ('k, 'r, 'c, 'h) pool_state option" where
  "reply_write K s i r =
     (case turns s i of
        None \<Rightarrow> None
      | Some t0 \<Rightarrow>
          if phase t0 \<noteq> Sent then None
          else (let t = t0\<lparr>answered := True\<rparr>
            in Some (case r of
                 Kept already stands word carried \<Rightarrow> settle K i t already stands word carried s
               | Refused word unanswered \<Rightarrow>
                   if unanswered \<and> queueable t \<and> room s
                   then put_turn i ((if holds t then t else tell Hears_Queued t)\<lparr>phase := Waits\<rparr>)
                     (s\<lparr>waiting := waiting s @ [i]\<rparr>)
                   else taken_back K i t word s)))"

text \<open>A caller that gives up on the write before it is answered.\<close>

definition interrupt_write ::
  "('k, 'r, 'c) entity_kind \<Rightarrow> ('k, 'r, 'c, 'h) pool_state \<Rightarrow> nat \<Rightarrow> ('k, 'r, 'c, 'h) pool_state option" where
  "interrupt_write K s i =
     (case turns s i of
        None \<Rightarrow> None
      | Some t \<Rightarrow> if phase t = Asked \<or> phase t = Sent
          then Some (drop_turn K i (t\<lparr>answered := True, phase := Done\<rparr>) s) else None)"

text \<open>\<open>confirmedOn\<close> by the read's own wait: the read carries the write's transaction.\<close>

definition carry_write ::
  "('k, 'r, 'c, 'h) pool_state \<Rightarrow> nat \<Rightarrow> nat \<Rightarrow> ('k, 'r, 'c, 'h) pool_state option" where
  "carry_write s i rid =
     (case turns s i of
        None \<Rightarrow> None
      | Some t \<Rightarrow> (case phase t of
            Settling left word carried \<Rightarrow>
              if rid \<in> set left
              then Some (put_turn i (t\<lparr>phase := Settling (remove1 rid left) word carried\<rparr>) s) else None
          | _ \<Rightarrow> None))"

text \<open>
  \<open>confirmedOn\<close> where the read hands no wait: the word taken in its place, after the write's own
  wait and every earlier write's standing down where it has one. The read may have closed since.
\<close>

definition place_write ::
  "('k, 'r, 'c) entity_kind \<Rightarrow> ('k, 'r, 'c, 'h) pool_state \<Rightarrow> nat \<Rightarrow> nat \<Rightarrow>
   ('k, 'r, 'c, 'h) pool_state option" where
  "place_write K s i rid =
     (case turns s i of
        None \<Rightarrow> None
      | Some t \<Rightarrow> (case phase t of
            Settling left word carried \<Rightarrow>
              if rid \<in> set left \<and> (carried \<longrightarrow> await_each s dropped (before t))
              then (case map_of (reads (rows s) @ closed_reads s) rid of
                  None \<Rightarrow> None
                | Some h \<Rightarrow> Some (put_turn i (t\<lparr>phase := Settling (remove1 rid left) word carried\<rparr>)
                    (s\<lparr>rows := fst (taken_in_place K (rows s) [(rid, h)] (t_keys t) word)\<rparr>)))
              else None
          | _ \<Rightarrow> None))"

text \<open>\<open>settled\<close>'s end: every read carries it and every write before it has stood down.\<close>

definition stand_down ::
  "('k, 'r, 'c) entity_kind \<Rightarrow> ('k, 'r, 'c, 'h) pool_state \<Rightarrow> nat \<Rightarrow> ('k, 'r, 'c, 'h) pool_state option" where
  "stand_down K s i =
     (case turns s i of
        None \<Rightarrow> None
      | Some t \<Rightarrow> (case phase t of
            Settling left word carried \<Rightarrow>
              if left = [] \<and> await_each s dropped (before t)
              then Some (drop_turn K i (t\<lparr>phase := Done\<rparr>) s) else None
          | _ \<Rightarrow> None))"

subsection \<open>The waiting writes\<close>

text \<open>
  One turn of \<open>resent\<close>'s loop: the oldest waiting sent again as the account that asked it, or let
  go where the session holds another.
\<close>

definition resend_next ::
  "('k, 'r, 'c) entity_kind \<Rightarrow> ('k, 'r, 'c, 'h) pool_state \<Rightarrow> ('k, 'r, 'c, 'h) pool_state option" where
  "resend_next K s =
     (case (resending s, waiting s) of
        (None, i # rest) \<Rightarrow>
          (case turns s i of
             None \<Rightarrow> None
           | Some t \<Rightarrow>
               if holder s = asked_as t
               then Some (put_turn i (t\<lparr>phase := Resent\<rparr>)
                 (s\<lparr>resending := Some i, sends := sends s @ [(i, holder s, True)]\<rparr>))
               else Some (drop_turn K i (tell Hears_Queued (t\<lparr>phase := Done\<rparr>))
                 (s\<lparr>waiting := filter (\<lambda>j. j \<noteq> i) (waiting s)\<rparr>)))
      | _ \<Rightarrow> None)"

definition reply_resent ::
  "('k, 'r, 'c) entity_kind \<Rightarrow> ('k, 'r, 'c, 'h) pool_state \<Rightarrow> 'c reply \<Rightarrow>
   ('k, 'r, 'c, 'h) pool_state option" where
  "reply_resent K s r =
     (case resending s of
        None \<Rightarrow> None
      | Some i \<Rightarrow>
          (case turns s i of
             None \<Rightarrow> None
           | Some t \<Rightarrow>
               (let free = s\<lparr>resending := None\<rparr>;
                    gone = free\<lparr>waiting := filter (\<lambda>j. j \<noteq> i) (waiting s)\<rparr>
                in Some (case r of
                     Kept already stands word carried \<Rightarrow> settle K i t already stands word carried gone
                   | Refused word unanswered \<Rightarrow>
                       if unanswered then put_turn i (t\<lparr>phase := Waits\<rparr>) free
                       else taken_back K i t word
                         (gone\<lparr>replays_refused := Suc (replays_refused s)\<rparr>)))))"

text \<open>\<open>letGoQueued\<close>: every waiting write let go, taking back what each drew.\<close>

definition let_go_one ::
  "('k, 'r, 'c) entity_kind \<Rightarrow> nat \<Rightarrow> ('k, 'r, 'c, 'h) pool_state \<Rightarrow> ('k, 'r, 'c, 'h) pool_state" where
  "let_go_one K i s =
     (case turns s i of None \<Rightarrow> s | Some t \<Rightarrow> drop_turn K i (tell Hears_Queued t) s)"

definition let_go_queued ::
  "('k, 'r, 'c) entity_kind \<Rightarrow> ('k, 'r, 'c, 'h) pool_state \<Rightarrow> ('k, 'r, 'c, 'h) pool_state" where
  "let_go_queued K s = fold (let_go_one K) (waiting s) (s\<lparr>waiting := []\<rparr>)"

subsection \<open>The machine\<close>

datatype ('k, 'r, 'c, 'h) label =
    Ask "'k list" 'c bool bool bool
  | Send nat
  | Reply nat "'c reply"
  | Interrupt nat
  | Carry nat nat
  | Place nat nat
  | Stand_Down nat
  | Resend
  | Reply_Resent "'c reply"
  | Let_Go
  | Sign_In 'h
  | Read_Stands nat "('r \<Rightarrow> bool) option" "('k \<Rightarrow> bool) option"
  | Read_Closes nat
  | Read_Answers nat "'r list" "'k list option" "int option"

fun pool_step ::
  "('k, 'r, 'c) entity_kind \<Rightarrow> ('k, 'r, 'c, 'h) pool_state \<Rightarrow> ('k, 'r, 'c, 'h) label \<Rightarrow>
   ('k, 'r, 'c, 'h) pool_state option" where
  "pool_step K s (Ask keys c may_wait hold restored) = Some (ask K s keys c may_wait hold restored)"
| "pool_step K s (Send i) = send_write s i"
| "pool_step K s (Reply i r) = reply_write K s i r"
| "pool_step K s (Interrupt i) = interrupt_write K s i"
| "pool_step K s (Carry i rid) = carry_write s i rid"
| "pool_step K s (Place i rid) = place_write K s i rid"
| "pool_step K s (Stand_Down i) = stand_down K s i"
| "pool_step K s Resend = resend_next K s"
| "pool_step K s (Reply_Resent r) = reply_resent K s r"
| "pool_step K s Let_Go = Some (let_go_queued K s)"
| "pool_step K s (Sign_In h) = Some (s\<lparr>holder := h\<rparr>)"
| "pool_step K s (Read_Stands rid ad be) =
     (if rid \<in> fst ` set (reads (rows s) @ closed_reads s) then None
      else Some (s\<lparr>rows := stand_read (rows s) rid ad be\<rparr>))"
| "pool_step K s (Read_Closes rid) =
     (case map_of (reads (rows s)) rid of
        None \<Rightarrow> None
      | Some h \<Rightarrow> Some (s\<lparr>rows := release_read K (rows s) rid, closed_reads := (rid, h) # closed_reads s\<rparr>))"
| "pool_step K s (Read_Answers rid rs held_keys at) =
     Some (s\<lparr>rows := fst (answer_read K (rows s) rid rs held_keys at)\<rparr>)"

fun pool_run ::
  "('k, 'r, 'c) entity_kind \<Rightarrow> ('k, 'r, 'c, 'h) pool_state \<Rightarrow> ('k, 'r, 'c, 'h) label list \<Rightarrow>
   ('k, 'r, 'c, 'h) pool_state option" where
  "pool_run K s [] = Some s"
| "pool_run K s (l # ls) =
     (case pool_step K s l of None \<Rightarrow> None | Some s' \<Rightarrow> pool_run K s' ls)"

end
