(* ===== verification/Write_Properties.thy ===== *)
theory Write_Properties
  imports Write_Order
begin

text \<open>
  What holds of the writes in every run of the pool: they stand over the rows in the order asked,
  from the asking until each is dropped; the waiting ones are few, each once; and, where no write
  is refused, waits or is given up on, the service takes the writes to a key, and they stand down,
  in the order asked. The last section shows two runs where a refusal, and a caller giving up,
  break that order.
\<close>

subsection \<open>What the steps leave of the standing writes\<close>

lemma standing_lay [simp]: "standing (fst (lay_write K rws w)) = standing rws @ [w]"
  by (simp add: lay_write_def pool_frame)

lemma standing_drop [simp]:
  "standing (fst (drop_write K rws i keys)) = filter (\<lambda>w. write_id w \<noteq> i) (standing rws)"
  by (simp add: drop_write_def pool_frame)

lemma standing_word [simp]:
  "standing (fst (stands_as K rws i keys c)) =
    map (\<lambda>w. if write_id w = i then w\<lparr>write_change := c\<rparr> else w) (standing rws)"
  by (simp add: stands_as_def)

lemma standing_place [simp]: "standing (fst (taken_in_place K rws hs keys c)) = standing rws"
  by (simp add: taken_in_place_def taken_and_drawn_def Let_def split_beta)

lemma standing_release [simp]: "standing (release_read K rws i) = standing rws"
  by (simp add: release_read_def Let_def split_beta split: option.splits)

lemma standing_answer [simp]: "standing (fst (answer_read K rws i rs ks at)) = standing rws"
  by (simp add: answer_read_def taken_and_drawn_def Let_def split_beta split: option.splits)

lemma standing_stand [simp]: "standing (stand_read rws i ad be) = standing rws"
  by (simp add: stand_read_def)

lemma tell_frame [simp]:
  "t_keys (tell w t) = t_keys t" "before (tell w t) = before t" "dropped (tell w t) = dropped t"
  "answered (tell w t) = answered t" "phase (tell w t) = phase t" "asked_as (tell w t) = asked_as t"
  "queueable (tell w t) = queueable t"
  by (simp_all add: tell_def split: option.splits)

subsection \<open>The writes standing are those not dropped, in the order asked\<close>

definition alive :: "(nat \<rightharpoonup> ('k, 'c, 'h) turn) \<Rightarrow> nat \<Rightarrow> bool" where
  "alive tn i = (case tn i of None \<Rightarrow> False | Some t \<Rightarrow> \<not> dropped t)"

definition core ::
  "(nat \<rightharpoonup> ('k, 'c, 'h) turn) \<Rightarrow> nat \<Rightarrow> ('k, 'c) standing list \<Rightarrow> ('k \<rightharpoonup> nat) \<Rightarrow> bool" where
  "core tn n st lw \<longleftrightarrow>
     (\<forall>i. tn i \<noteq> None \<longleftrightarrow> i < n) \<and>
     map write_id st = filter (alive tn) [0..<n] \<and>
     (\<forall>w \<in> set st. \<exists>t. tn (write_id w) = Some t \<and> write_keys w = t_keys t) \<and>
     (\<forall>i t. tn i = Some t \<longrightarrow> distinct (t_keys t) \<and> (\<forall>b \<in> set (before t). b < i)) \<and>
     (\<forall>k b. lw k = Some b \<longrightarrow> (\<exists>t. tn b = Some t \<and> k \<in> set (t_keys t)))"

lemma coreI:
  assumes "\<And>i. tn i \<noteq> None \<longleftrightarrow> i < n" and "map write_id st = filter (alive tn) [0..<n]"
    and "\<And>w. w \<in> set st \<Longrightarrow> \<exists>t. tn (write_id w) = Some t \<and> write_keys w = t_keys t"
    and "\<And>i t. tn i = Some t \<Longrightarrow> distinct (t_keys t)"
    and "\<And>i t b. tn i = Some t \<Longrightarrow> b \<in> set (before t) \<Longrightarrow> b < i"
    and "\<And>k b. lw k = Some b \<Longrightarrow> \<exists>t. tn b = Some t \<and> k \<in> set (t_keys t)"
  shows "core tn n st lw"
  using assms unfolding core_def by blast

lemma coreD:
  assumes "core tn n st lw"
  shows "tn i \<noteq> None \<longleftrightarrow> i < n" and "map write_id st = filter (alive tn) [0..<n]"
    and "w \<in> set st \<Longrightarrow> \<exists>t. tn (write_id w) = Some t \<and> write_keys w = t_keys t"
    and "tn i = Some t \<Longrightarrow> distinct (t_keys t)"
    and "tn i = Some t \<Longrightarrow> b \<in> set (before t) \<Longrightarrow> b < i"
    and "lw k = Some b \<Longrightarrow> \<exists>t. tn b = Some t \<and> k \<in> set (t_keys t)"
  using assms unfolding core_def by blast+

lemma core_put:
  assumes core: "core tn n st lw" and i: "tn i = Some t"
    and t': "t_keys t' = t_keys t" "before t' = before t" "dropped t' = dropped t"
  shows "core (tn(i \<mapsto> t')) n st lw"
proof (rule coreI)
  have alive: "alive (tn(i \<mapsto> t')) = alive tn" using i t' by (auto simp: alive_def fun_eq_iff)
  show "map write_id st = filter (alive (tn(i \<mapsto> t'))) [0..<n]" using coreD(2) [OF core] alive by simp
  show "(tn(i \<mapsto> t')) j \<noteq> None \<longleftrightarrow> j < n" for j using coreD(1) [OF core, of j] i by auto
  show "\<exists>t. (tn(i \<mapsto> t')) (write_id w) = Some t \<and> write_keys w = t_keys t" if "w \<in> set st" for w
    using coreD(3) [OF core that] i t' by auto
  show "distinct (t_keys u)" if "(tn(i \<mapsto> t')) j = Some u" for j u
    using that i t' coreD(4) [OF core] by (cases "j = i") auto
  show "b < j" if "(tn(i \<mapsto> t')) j = Some u" "b \<in> set (before u)" for j u b
    using that i t' coreD(5) [OF core] by (cases "j = i") auto
  show "\<exists>t. (tn(i \<mapsto> t')) b = Some t \<and> k \<in> set (t_keys t)" if "lw k = Some b" for k b
    using coreD(6) [OF core that] i t' by auto
qed

lemma core_word:
  assumes core: "core tn n st lw"
  shows "core tn n (map (\<lambda>w. if write_id w = i then w\<lparr>write_change := c\<rparr> else w) st) lw"
proof (rule coreI)
  let ?st = "map (\<lambda>w. if write_id w = i then w\<lparr>write_change := c\<rparr> else w) st"
  have "map write_id ?st = map write_id st" by simp
  then show "map write_id ?st = filter (alive tn) [0..<n]" using coreD(2) [OF core] by simp
  show "\<exists>t. tn (write_id w) = Some t \<and> write_keys w = t_keys t" if "w \<in> set ?st" for w
    using that coreD(3) [OF core] by (auto split: if_splits)
qed (use coreD [OF core] in blast)+

lemma core_drop:
  assumes core: "core tn n st lw" and i: "tn i = Some t"
    and t': "t_keys t' = t_keys t" "before t' = before t" "dropped t'"
    and lw: "\<And>k b. lw' k = Some b \<Longrightarrow> lw k = Some b"
  shows "core (tn(i \<mapsto> t')) n (filter (\<lambda>w. write_id w \<noteq> i) st) lw'"
proof (rule coreI)
  have alive: "alive (tn(i \<mapsto> t')) j \<longleftrightarrow> j \<noteq> i \<and> alive tn j" for j
    using t'(3) by (simp add: alive_def)
  have "map write_id (filter (\<lambda>w. write_id w \<noteq> i) st) = filter (\<lambda>j. j \<noteq> i) (map write_id st)"
    by (simp add: filter_map comp_def)
  also have "\<dots> = filter (\<lambda>j. j \<noteq> i \<and> alive tn j) [0..<n]"
    by (simp add: coreD(2) [OF core] conj_commute)
  also have "\<dots> = filter (alive (tn(i \<mapsto> t'))) [0..<n]"
    by (rule filter_cong) (simp_all add: alive)
  finally show "map write_id (filter (\<lambda>w. write_id w \<noteq> i) st) = filter (alive (tn(i \<mapsto> t'))) [0..<n]" .
  show "(tn(i \<mapsto> t')) j \<noteq> None \<longleftrightarrow> j < n" for j using coreD(1) [OF core, of j] i by auto
  show "\<exists>t. (tn(i \<mapsto> t')) (write_id w) = Some t \<and> write_keys w = t_keys t"
    if "w \<in> set (filter (\<lambda>w. write_id w \<noteq> i) st)" for w
    using that coreD(3) [OF core, of w] i t' by auto
  show "distinct (t_keys u)" if "(tn(i \<mapsto> t')) j = Some u" for j u
    using that i t' coreD(4) [OF core] by (cases "j = i") auto
  show "b < j" if "(tn(i \<mapsto> t')) j = Some u" "b \<in> set (before u)" for j u b
    using that i t' coreD(5) [OF core] by (cases "j = i") auto
  show "\<exists>t. (tn(i \<mapsto> t')) b = Some t \<and> k \<in> set (t_keys t)" if "lw' k = Some b" for k b
    using coreD(6) [OF core lw [OF that]] i t' by auto
qed

lemma core_ask:
  assumes core: "core tn n st lw"
    and w: "write_id w = n" "write_keys w = t_keys t" and t: "\<not> dropped t" "distinct (t_keys t)"
    and bef: "\<forall>b \<in> set (before t). \<exists>k. lw k = Some b"
  shows "core (tn(n \<mapsto> t)) (Suc n) (st @ [w]) (\<lambda>k. if k \<in> set (t_keys t) then Some n else lw k)"
proof (rule coreI)
  have old: "tn j = Some u \<Longrightarrow> j < n" for j u using coreD(1) [OF core, of j] by auto
  have "filter (alive (tn(n \<mapsto> t))) [0..<n] = filter (alive tn) [0..<n]"
    by (rule filter_cong) (auto simp: alive_def)
  then show "map write_id (st @ [w]) = filter (alive (tn(n \<mapsto> t))) [0..<Suc n]"
    using coreD(2) [OF core] w(1) t(1) by (simp add: alive_def)
  show "(tn(n \<mapsto> t)) j \<noteq> None \<longleftrightarrow> j < Suc n" for j
    using coreD(1) [OF core, of j] by (auto simp: less_Suc_eq)
  show "\<exists>t'. (tn(n \<mapsto> t)) (write_id v) = Some t' \<and> write_keys v = t_keys t'" if "v \<in> set (st @ [w])" for v
  proof (cases "v \<in> set st")
    case True
    then obtain u where u: "tn (write_id v) = Some u" "write_keys v = t_keys u"
      using coreD(3) [OF core] by blast
    with old have "write_id v < n" by blast
    with u show ?thesis by auto
  next
    case False
    with that w show ?thesis by auto
  qed
  show "distinct (t_keys u)" if "(tn(n \<mapsto> t)) j = Some u" for j u
    using that t coreD(4) [OF core] by (cases "j = n") auto
  show "b < j" if j: "(tn(n \<mapsto> t)) j = Some u" and b: "b \<in> set (before u)" for j u b
  proof (cases "j = n")
    case True
    with j b bef obtain k where "lw k = Some b" by auto
    then show ?thesis using coreD(6) [OF core] old True by blast
  next
    case False
    then show ?thesis using j b coreD(5) [OF core] by auto
  qed
  show "\<exists>t'. (tn(n \<mapsto> t)) b = Some t' \<and> k \<in> set (t_keys t')"
    if "(if k \<in> set (t_keys t) then Some n else lw k) = Some b" for k b
  proof (cases "k \<in> set (t_keys t)")
    case True
    with that show ?thesis by auto
  next
    case False
    with that have "lw k = Some b" by simp
    then obtain u where u: "tn b = Some u" "k \<in> set (t_keys u)" using coreD(6) [OF core] by blast
    with old have "b < n" by blast
    with u show ?thesis by auto
  qed
qed

text \<open>The waiting writes are each once, wait or are sent again, and no more than the bound.\<close>

definition queue_ok ::
  "(nat \<rightharpoonup> ('k, 'c, 'h) turn) \<Rightarrow> nat list \<Rightarrow> nat option \<Rightarrow> bool" where
  "queue_ok tn ws re \<longleftrightarrow> distinct ws \<and> length ws \<le> queue_bound \<and>
     (\<forall>i \<in> set ws. \<exists>t. tn i = Some t \<and> (phase t = Waits \<or> phase t = Resent)) \<and>
     (\<forall>i. re = Some i \<longrightarrow> (\<exists>t. tn i = Some t \<and> phase t = Resent)) \<and>
     (\<forall>i t. tn i = Some t \<longrightarrow> phase t = Resent \<longrightarrow> re = Some i)"

definition life_ok :: "('k, 'r, 'c, 'h) pool_state \<Rightarrow> bool" where
  "life_ok s \<longleftrightarrow> core (turns s) (next_id s) (standing (rows s)) (last_writes s)
     \<and> queue_ok (turns s) (waiting s) (resending s)"

lemma queueD:
  assumes "queue_ok tn ws re"
  shows "distinct ws" and "length ws \<le> queue_bound"
    and "i \<in> set ws \<Longrightarrow> \<exists>t. tn i = Some t \<and> (phase t = Waits \<or> phase t = Resent)"
    and "re = Some i \<Longrightarrow> \<exists>t. tn i = Some t \<and> phase t = Resent"
    and "tn i = Some t \<Longrightarrow> phase t = Resent \<Longrightarrow> re = Some i"
  using assms unfolding queue_ok_def by blast+

lemma queueI:
  assumes "distinct ws" "length ws \<le> queue_bound"
    and "\<And>i. i \<in> set ws \<Longrightarrow> \<exists>t. tn i = Some t \<and> (phase t = Waits \<or> phase t = Resent)"
    and "\<And>i. re = Some i \<Longrightarrow> \<exists>t. tn i = Some t \<and> phase t = Resent"
    and "\<And>i t. tn i = Some t \<Longrightarrow> phase t = Resent \<Longrightarrow> re = Some i"
  shows "queue_ok tn ws re"
  using assms unfolding queue_ok_def by blast

lemma queue_not_waiting:
  assumes "queue_ok tn ws re" "tn i = Some t" "phase t \<noteq> Waits" "phase t \<noteq> Resent"
  shows "i \<notin> set ws \<and> re \<noteq> Some i"
  using queueD(3,4) [OF assms(1), of i] assms(2-4) by auto

text \<open>A turn changed, with what waits left, shortened, or lengthened by it.\<close>

lemma queue_same:
  assumes q: "queue_ok tn ws re" and i: "tn i = Some t" and p: "phase t' = phase t"
  shows "queue_ok (tn(i \<mapsto> t')) ws re"
proof (rule queueI)
  show "\<exists>u. (tn(i \<mapsto> t')) j = Some u \<and> (phase u = Waits \<or> phase u = Resent)" if "j \<in> set ws" for j
    using queueD(3) [OF q that] i p by auto
  show "\<exists>u. (tn(i \<mapsto> t')) j = Some u \<and> phase u = Resent" if "re = Some j" for j
    using queueD(4) [OF q that] i p by auto
  show "re = Some j" if "(tn(i \<mapsto> t')) j = Some u" "phase u = Resent" for j u
    using that queueD(5) [OF q] i p by (cases "j = i") auto
qed (use queueD(1,2) [OF q] in blast)+

lemma queue_out:
  assumes q: "queue_ok tn ws re" and p: "phase t' \<noteq> Resent"
    and i: "\<And>t. tn i = Some t \<Longrightarrow> phase t \<noteq> Resent \<or> re = Some i"
  shows "queue_ok (tn(i \<mapsto> t')) (filter (\<lambda>j. j \<noteq> i) ws) (if re = Some i then None else re)"
proof (rule queueI)
  show "distinct (filter (\<lambda>j. j \<noteq> i) ws)" using queueD(1) [OF q] by simp
  show "length (filter (\<lambda>j. j \<noteq> i) ws) \<le> queue_bound"
    using queueD(2) [OF q] le_trans length_filter_le by blast
  show "\<exists>u. (tn(i \<mapsto> t')) j = Some u \<and> (phase u = Waits \<or> phase u = Resent)"
    if "j \<in> set (filter (\<lambda>j. j \<noteq> i) ws)" for j
    using queueD(3) [OF q, of j] that by auto
  show "\<exists>u. (tn(i \<mapsto> t')) j = Some u \<and> phase u = Resent" if "(if re = Some i then None else re) = Some j" for j
    using queueD(4) [OF q, of j] that by (auto split: if_splits)
  show "(if re = Some i then None else re) = Some j" if "(tn(i \<mapsto> t')) j = Some u" "phase u = Resent" for j u
  proof -
    have ji: "j \<noteq> i" using that p by auto
    then have "re = Some j" using that queueD(5) [OF q] by simp
    with ji show ?thesis by simp
  qed
qed

lemma queue_in:
  assumes q: "queue_ok tn ws re" and p: "phase t' = Waits" and new: "i \<notin> set ws" "re \<noteq> Some i"
    and room: "length ws < queue_bound"
  shows "queue_ok (tn(i \<mapsto> t')) (ws @ [i]) re"
proof (rule queueI)
  show "distinct (ws @ [i])" using queueD(1) [OF q] new by simp
  show "length (ws @ [i]) \<le> queue_bound" using room by simp
  show "\<exists>u. (tn(i \<mapsto> t')) j = Some u \<and> (phase u = Waits \<or> phase u = Resent)" if "j \<in> set (ws @ [i])" for j
    using queueD(3) [OF q, of j] that p by auto
  show "\<exists>u. (tn(i \<mapsto> t')) j = Some u \<and> phase u = Resent" if "re = Some j" for j
    using queueD(4) [OF q that] new that by auto
  show "re = Some j" if "(tn(i \<mapsto> t')) j = Some u" "phase u = Resent" for j u
    using that queueD(5) [OF q] p by (cases "j = i") auto
qed

lemma queue_done:
  assumes q: "queue_ok tn ws re" and i: "tn i = Some t" "phase t \<noteq> Waits" "phase t \<noteq> Resent"
    and p: "phase t' \<noteq> Resent"
  shows "queue_ok (tn(i \<mapsto> t')) ws re"
proof -
  have out: "i \<notin> set ws" "re \<noteq> Some i" using queue_not_waiting [OF q i] by auto
  then have "filter (\<lambda>j. j \<noteq> i) ws = ws" by (auto simp: filter_id_conv)
  with queue_out [OF q p, of i] i(1,3) out show ?thesis by auto
qed

subsection \<open>Every step keeps them\<close>

lemma life_okI:
  assumes "core (turns s) (next_id s) (standing (rows s)) (last_writes s)"
    and "queue_ok (turns s) (waiting s) (resending s)"
  shows "life_ok s"
  using assms by (simp add: life_ok_def)

lemma life_okD:
  assumes "life_ok s"
  shows "core (turns s) (next_id s) (standing (rows s)) (last_writes s)"
    and "queue_ok (turns s) (waiting s) (resending s)"
  using assms by (simp_all add: life_ok_def)

lemma life_ok_new: "life_ok (new_pool h)"
  by (rule life_okI)
    (auto simp: new_pool_def fresh_rows_def intro!: coreI queueI simp: alive_def)

text \<open>The fields each building block of a step writes.\<close>

lemma put_turn_frame [simp]:
  "turns (put_turn i t s) = (turns s)(i \<mapsto> t)" "next_id (put_turn i t s) = next_id s"
  "rows (put_turn i t s) = rows s" "last_writes (put_turn i t s) = last_writes s"
  "waiting (put_turn i t s) = waiting s" "resending (put_turn i t s) = resending s"
  "sends (put_turn i t s) = sends s" "holder (put_turn i t s) = holder s"
  "closed_reads (put_turn i t s) = closed_reads s"
  by (simp_all add: put_turn_def)

lemma drop_turn_frame [simp]:
  "turns (drop_turn K i t s) = (turns s)(i \<mapsto> t\<lparr>dropped := True\<rparr>)" "next_id (drop_turn K i t s) = next_id s"
  "standing (rows (drop_turn K i t s)) = filter (\<lambda>w. write_id w \<noteq> i) (standing (rows s))"
  "waiting (drop_turn K i t s) = waiting s" "resending (drop_turn K i t s) = resending s"
  "sends (drop_turn K i t s) = sends s" "holder (drop_turn K i t s) = holder s"
  "last_writes (drop_turn K i t s) k = Some b \<longleftrightarrow>
    last_writes s k = Some b \<and> \<not> (k \<in> set (t_keys t) \<and> b = i)"
  by (auto simp: drop_turn_def)

lemma core_drop_turn:
  assumes "core (turns s) (next_id s) (standing (rows s)) (last_writes s)" "turns s i = Some t"
    and "t_keys t' = t_keys t" "before t' = before t"
  shows "core (turns (drop_turn K i t' s)) (next_id (drop_turn K i t' s))
    (standing (rows (drop_turn K i t' s))) (last_writes (drop_turn K i t' s))"
proof -
  have "core ((turns s)(i \<mapsto> t'\<lparr>dropped := True\<rparr>)) (next_id s)
    (filter (\<lambda>w. write_id w \<noteq> i) (standing (rows s))) (last_writes (drop_turn K i t' s))"
    by (rule core_drop [OF assms(1,2)]) (use assms(3,4) in simp_all)
  then show ?thesis by simp
qed

lemma settle_turn:
  "\<exists>t'. turns (settle K i t already stands word carried s) = (turns s)(i \<mapsto> t') \<and> t_keys t' = t_keys t
    \<and> before t' = before t \<and> dropped t' = dropped t \<and> answered t' = answered t \<and> asked_as t' = asked_as t
    \<and> (\<exists>left v. phase t' = Settling left v carried)"
  by (auto simp: settle_def Let_def)

lemma settle_frame [simp]:
  "next_id (settle K i t already stands word carried s) = next_id s"
  "last_writes (settle K i t already stands word carried s) = last_writes s"
  "waiting (settle K i t already stands word carried s) = waiting s"
  "resending (settle K i t already stands word carried s) = resending s"
  "sends (settle K i t already stands word carried s) = sends s"
  "holder (settle K i t already stands word carried s) = holder s"
  by (auto simp: settle_def Let_def)

lemma core_settle:
  assumes "core (turns s) (next_id s) (standing (rows s)) (last_writes s)" "turns s i = Some t0"
    and "t_keys t = t_keys t0" "before t = before t0" "dropped t = dropped t0"
  shows "core (turns (settle K i t already stands word carried s)) (next_id s)
    (standing (rows (settle K i t already stands word carried s))) (last_writes s)"
proof -
  obtain t' where t': "turns (settle K i t already stands word carried s) = (turns s)(i \<mapsto> t')"
    "t_keys t' = t_keys t0" "before t' = before t0" "dropped t' = dropped t0"
    using settle_turn [of K i t already stands word carried s] assms(3-5) by auto
  have "core (turns s) (next_id s) (standing (rows (settle K i t already stands word carried s))) (last_writes s)"
    using assms(1) core_word [OF assms(1)] by (auto simp: settle_def Let_def)
  from core_put [OF this assms(2) t'(2-4)] show ?thesis by (simp add: t'(1))
qed

lemma life_ok_ask:
  assumes ok: "life_ok s"
  shows "life_ok (ask K s keys c may_wait hold restored)"
proof -
  note core = life_okD(1) [OF ok] and q = life_okD(2) [OF ok]
  let ?s = "ask K s keys c may_wait hold restored"
  let ?waits = "may_wait \<and> room s \<and> (restored \<or> waiting s \<noteq> [])"
  obtain t where t: "turns ?s = (turns s)(next_id s \<mapsto> t)" "t_keys t = uniq keys" "\<not> dropped t"
      "set (before t) = {b. \<exists>k \<in> set keys. last_writes s k = Some b}"
      "phase t = (if ?waits then Waits else Asked)"
    by (force simp: ask_def Let_def List.map_filter_def)
  have fields: "next_id ?s = Suc (next_id s)" "waiting ?s = (if ?waits then waiting s @ [next_id s] else waiting s)"
      "resending ?s = resending s" "last_writes ?s = (\<lambda>k. if k \<in> set keys then Some (next_id s) else last_writes s k)"
      "standing (rows ?s) = standing (rows s) @ [\<lparr>write_id = next_id s, write_keys = uniq keys, write_change = c\<rparr>]"
    by (simp_all add: ask_def Let_def)
  have new: "turns s (next_id s) = None" using coreD(1) [OF core, of "next_id s"] by simp
  then have out: "next_id s \<notin> set (waiting s)" "resending s \<noteq> Some (next_id s)"
    using queueD(3,4) [OF q, of "next_id s"] by auto
  show ?thesis
  proof (rule life_okI)
    show "core (turns ?s) (next_id ?s) (standing (rows ?s)) (last_writes ?s)"
      using core_ask [OF core, of "\<lparr>write_id = next_id s, write_keys = uniq keys, write_change = c\<rparr>" t] t
      by (auto simp: fields)
    show "queue_ok (turns ?s) (waiting ?s) (resending ?s)"
    proof (cases ?waits)
      case True
      then show ?thesis
        using queue_in [OF q _ out, of t] t(5) unfolding fields t(1) by (simp add: room_def)
    next
      case False
      have "filter (\<lambda>j. j \<noteq> next_id s) (waiting s) = waiting s" using out by (auto simp: filter_id_conv)
      then show ?thesis
        using queue_out [OF q, of t "next_id s"] False new out t(5) unfolding fields t(1) by auto
    qed
  qed
qed

text \<open>The cases a step falls in, with the turn it is about.\<close>

lemma life_ok_put:
  assumes ok: "life_ok s" and i: "turns s i = Some t"
    and t': "t_keys t' = t_keys t" "before t' = before t" "dropped t' = dropped t"
    and q: "queue_ok ((turns s)(i \<mapsto> t')) ws re"
    and s': "turns s' = (turns s)(i \<mapsto> t')" "next_id s' = next_id s" "standing (rows s') = standing (rows s)"
      "last_writes s' = last_writes s" "waiting s' = ws" "resending s' = re"
  shows "life_ok s'"
  using core_put [OF life_okD(1) [OF ok] i t'] q by (simp add: life_ok_def s')

lemma life_ok_drop:
  assumes ok: "life_ok s" and i: "turns s i = Some t"
    and t': "t_keys t' = t_keys t" "before t' = before t"
    and q: "queue_ok ((turns s)(i \<mapsto> t'\<lparr>dropped := True\<rparr>)) (waiting s') (resending s')"
    and s': "turns s' = turns s" "next_id s' = next_id s" "standing (rows s') = standing (rows s)"
      "last_writes s' = last_writes s"
  shows "life_ok (drop_turn K i t' s')"
proof (rule life_okI)
  have "core (turns s') (next_id s') (standing (rows s')) (last_writes s')"
    using life_okD(1) [OF ok] by (simp add: s')
  from core_drop_turn [OF this _ t'] i
  show "core (turns (drop_turn K i t' s')) (next_id (drop_turn K i t' s'))
      (standing (rows (drop_turn K i t' s'))) (last_writes (drop_turn K i t' s'))"
    by (simp add: s')
  show "queue_ok (turns (drop_turn K i t' s')) (waiting (drop_turn K i t' s')) (resending (drop_turn K i t' s'))"
    using q by (simp add: s')
qed

lemma life_ok_settle:
  assumes ok: "life_ok s" and i: "turns s i = Some t0"
    and t: "t_keys t = t_keys t0" "before t = before t0" "dropped t = dropped t0"
    and q: "\<And>t'. phase t' \<noteq> Resent \<Longrightarrow> queue_ok ((turns s)(i \<mapsto> t')) (waiting s') (resending s')"
    and s': "turns s' = turns s" "next_id s' = next_id s" "standing (rows s') = standing (rows s)"
      "last_writes s' = last_writes s"
  shows "life_ok (settle K i t already stands word carried s')"
proof (rule life_okI)
  have "core (turns s') (next_id s') (standing (rows s')) (last_writes s')"
    using life_okD(1) [OF ok] by (simp add: s')
  from core_settle [OF this _ t] i
  show "core (turns (settle K i t already stands word carried s')) (next_id (settle K i t already stands word carried s'))
      (standing (rows (settle K i t already stands word carried s'))) (last_writes (settle K i t already stands word carried s'))"
    by (simp add: s')
  obtain t' left v where "turns (settle K i t already stands word carried s') = (turns s')(i \<mapsto> t')"
      "phase t' = Settling left v carried"
    using settle_turn [of K i t already stands word carried s'] by auto
  then show "queue_ok (turns (settle K i t already stands word carried s'))
      (waiting (settle K i t already stands word carried s')) (resending (settle K i t already stands word carried s'))"
    using q [of t'] by (simp add: s')
qed

lemma life_ok_taken_back:
  assumes ok: "life_ok s" and i: "turns s i = Some t0"
    and t: "t_keys t = t_keys t0" "before t = before t0"
    and q: "\<And>t'. phase t' \<noteq> Resent \<Longrightarrow> queue_ok ((turns s)(i \<mapsto> t')) (waiting s') (resending s')"
    and s': "turns s' = turns s" "next_id s' = next_id s" "standing (rows s') = standing (rows s)"
      "last_writes s' = last_writes s"
  shows "life_ok (taken_back K i t word s')"
  unfolding taken_back_def
  by (rule life_ok_drop [OF ok i]) (use t q s' in \<open>auto split: option.splits\<close>)

lemma life_ok_let_go_one:
  assumes ok: "life_ok s"
  shows "life_ok (let_go_one K i s)"
proof (cases "turns s i")
  case None
  with ok show ?thesis by (simp add: let_go_one_def)
next
  case (Some t)
  show ?thesis
    unfolding let_go_one_def Some option.case
    by (rule life_ok_drop [OF ok Some]) (simp_all add: queue_same [OF life_okD(2) [OF ok] Some])
qed

lemma life_ok_let_go:
  assumes ok: "life_ok s"
  shows "life_ok (let_go_queued K s)"
proof -
  have "life_ok (s\<lparr>waiting := []\<rparr>)"
    using life_okD [OF ok] by (auto intro!: life_okI queueI dest: queueD(4,5))
  moreover have "life_ok (fold (let_go_one K) is u)" if "life_ok u" for "is" u
    using that by (induction "is" arbitrary: u) (simp_all add: life_ok_let_go_one)
  ultimately show ?thesis by (simp add: let_go_queued_def)
qed

lemma life_ok_send:
  assumes ok: "life_ok s" and step: "send_write s i = Some s'"
  shows "life_ok s'"
proof -
  from step obtain t where t: "turns s i = Some t" "phase t = Asked"
    and s': "s' = put_turn i (t\<lparr>phase := Sent\<rparr>) (s\<lparr>sends := sends s @ [(i, holder s, False)]\<rparr>)"
    by (auto simp: send_write_def split: option.splits if_splits)
  show ?thesis
    by (rule life_ok_put [OF ok t(1)])
      (use queue_done [OF life_okD(2) [OF ok] t(1)] t(2) in \<open>auto simp: s'\<close>)
qed

lemma life_ok_reply:
  assumes ok: "life_ok s" and step: "reply_write K s i r = Some s'"
  shows "life_ok s'"
proof -
  from step obtain t0 where t0: "turns s i = Some t0" "phase t0 = Sent"
    by (auto simp: reply_write_def split: option.splits if_splits)
  note q = life_okD(2) [OF ok]
  have out: "i \<notin> set (waiting s)" "resending s \<noteq> Some i" using queue_not_waiting [OF q t0(1)] t0(2) by auto
  have settled: "phase t' \<noteq> Resent \<Longrightarrow> queue_ok ((turns s)(i \<mapsto> t')) (waiting s) (resending s)" for t'
    using queue_done [OF q t0(1)] t0(2) by simp
  let ?t = "t0\<lparr>answered := True\<rparr>"
  show ?thesis
  proof (cases r)
    case (Kept already stands word carried)
    with step t0 have s': "s' = settle K i ?t already stands word carried s"
      by (simp add: reply_write_def Let_def)
    show ?thesis unfolding s' by (rule life_ok_settle [OF ok t0(1)]) (use settled in simp_all)
  next
    case (Refused word unanswered)
    show ?thesis
    proof (cases "unanswered \<and> queueable ?t \<and> room s")
      case True
      with step t0 Refused have s': "s' = put_turn i ((if holds ?t then ?t else tell Hears_Queued ?t)\<lparr>phase := Waits\<rparr>)
          (s\<lparr>waiting := waiting s @ [i]\<rparr>)"
        by (simp add: reply_write_def Let_def)
      show ?thesis
        by (rule life_ok_put [OF ok t0(1), where t' = "(if holds ?t then ?t else tell Hears_Queued ?t)\<lparr>phase := Waits\<rparr>"])
          (use True queue_in [OF q _ out] in \<open>simp_all add: s' room_def\<close>)
    next
      case False
      with step t0 Refused have s': "s' = taken_back K i ?t word s"
        by (simp add: reply_write_def Let_def split: if_splits)
      show ?thesis unfolding s' by (rule life_ok_taken_back [OF ok t0(1)]) (use settled in simp_all)
    qed
  qed
qed

lemma life_ok_interrupt:
  assumes ok: "life_ok s" and step: "interrupt_write K s i = Some s'"
  shows "life_ok s'"
proof -
  from step obtain t where t: "turns s i = Some t" "phase t = Asked \<or> phase t = Sent"
    and s': "s' = drop_turn K i (t\<lparr>answered := True, phase := Done\<rparr>) s"
    by (auto simp: interrupt_write_def split: option.splits if_splits)
  show ?thesis
    unfolding s' by (rule life_ok_drop [OF ok t(1)]) (use queue_done [OF life_okD(2) [OF ok] t(1)] t(2) in auto)
qed

text \<open>A write confirmed on one read, whichever way, or stood down, was settling.\<close>

lemma carry_writeD:
  assumes "carry_write s i rid = Some s'"
  obtains t left word carried where "turns s i = Some t" "phase t = Settling left word carried"
    "s' = put_turn i (t\<lparr>phase := Settling (remove1 rid left) word carried\<rparr>) s"
  using assms by (auto simp: carry_write_def split: option.splits phase.splits if_splits)

lemma place_writeD:
  assumes "place_write K s i rid = Some s'"
  obtains t left word carried h where "turns s i = Some t" "phase t = Settling left word carried"
    "s' = put_turn i (t\<lparr>phase := Settling (remove1 rid left) word carried\<rparr>)
      (s\<lparr>rows := fst (taken_in_place K (rows s) [(rid, h)] (t_keys t) word)\<rparr>)"
  using assms by (auto simp: place_write_def split: option.splits phase.splits if_splits)

lemma stand_downD:
  assumes "stand_down K s i = Some s'"
  obtains t word carried where "turns s i = Some t" "phase t = Settling [] word carried"
    "await_each s dropped (before t)" "s' = drop_turn K i (t\<lparr>phase := Done\<rparr>) s"
  using assms by (auto simp: stand_down_def split: option.splits phase.splits if_splits)

lemma life_ok_settling:
  assumes ok: "life_ok s"
  shows "carry_write s i rid = Some s' \<Longrightarrow> life_ok s'" (is "?carry \<Longrightarrow> _")
    and "place_write K s i rid = Some s' \<Longrightarrow> life_ok s'"
    and "stand_down K s i = Some s' \<Longrightarrow> life_ok s'"
proof -
  note settled = queue_done [OF life_okD(2) [OF ok]]
  show "life_ok s'" if "carry_write s i rid = Some s'"
  proof -
    from that obtain t left word carried where t: "turns s i = Some t" "phase t = Settling left word carried"
      and s': "s' = put_turn i (t\<lparr>phase := Settling (remove1 rid left) word carried\<rparr>) s"
      by (rule carry_writeD)
    show ?thesis
      by (rule life_ok_put [OF ok t(1), where t' = "t\<lparr>phase := Settling (remove1 rid left) word carried\<rparr>"])
        (use settled [OF t(1)] t(2) in \<open>simp_all add: s'\<close>)
  qed
  show "life_ok s'" if "place_write K s i rid = Some s'"
  proof -
    from that obtain t left word carried h where t: "turns s i = Some t" "phase t = Settling left word carried"
      and s': "s' = put_turn i (t\<lparr>phase := Settling (remove1 rid left) word carried\<rparr>)
        (s\<lparr>rows := fst (taken_in_place K (rows s) [(rid, h)] (t_keys t) word)\<rparr>)"
      by (rule place_writeD)
    show ?thesis
      by (rule life_ok_put [OF ok t(1), where t' = "t\<lparr>phase := Settling (remove1 rid left) word carried\<rparr>"])
        (use settled [OF t(1)] t(2) in \<open>simp_all add: s'\<close>)
  qed
  show "life_ok s'" if "stand_down K s i = Some s'"
  proof -
    from that obtain t word carried where t: "turns s i = Some t" "phase t = Settling [] word carried"
      and s': "s' = drop_turn K i (t\<lparr>phase := Done\<rparr>) s"
      by (rule stand_downD)
    show ?thesis
      unfolding s' by (rule life_ok_drop [OF ok t(1)]) (use settled [OF t(1)] t(2) in simp_all)
  qed
qed

lemma life_ok_resend:
  assumes ok: "life_ok s" and step: "resend_next K s = Some s'"
  shows "life_ok s'"
proof -
  note q = life_okD(2) [OF ok]
  from step obtain i rest t where i: "resending s = None" "waiting s = i # rest" "turns s i = Some t"
    by (auto simp: resend_next_def split: option.splits list.splits)
  show ?thesis
  proof (cases "holder s = asked_as t")
    case True
    with step i have s': "s' = put_turn i (t\<lparr>phase := Resent\<rparr>)
        (s\<lparr>resending := Some i, sends := sends s @ [(i, holder s, True)]\<rparr>)"
      by (simp add: resend_next_def)
    have "queue_ok ((turns s)(i \<mapsto> t\<lparr>phase := Resent\<rparr>)) (waiting s) (Some i)"
    proof (rule queueI)
      show "Some i = Some j" if "((turns s)(i \<mapsto> t\<lparr>phase := Resent\<rparr>)) j = Some u" "phase u = Resent" for j u
        using that queueD(5) [OF q, of j u] i(1) by (cases "j = i") auto
      show "\<exists>u. ((turns s)(i \<mapsto> t\<lparr>phase := Resent\<rparr>)) j = Some u \<and> (phase u = Waits \<or> phase u = Resent)"
        if "j \<in> set (waiting s)" for j
        using queueD(3) [OF q that] by auto
    qed (use queueD(1,2) [OF q] in auto)
    then show ?thesis by (intro life_ok_put [OF ok i(3)]) (auto simp: s')
  next
    case False
    with step i have s': "s' = drop_turn K i (tell Hears_Queued (t\<lparr>phase := Done\<rparr>))
        (s\<lparr>waiting := filter (\<lambda>j. j \<noteq> i) (waiting s)\<rparr>)"
      by (simp add: resend_next_def)
    have "phase t \<noteq> Resent" using queueD(5) [OF q i(3)] i(1) by auto
    then show ?thesis
      unfolding s' using queue_out [OF q, of _ i] i(1,3)
      by (intro life_ok_drop [OF ok i(3)]) (auto simp del: filter.simps)
  qed
qed

lemma life_ok_reply_resent:
  assumes ok: "life_ok s" and step: "reply_resent K s r = Some s'"
  shows "life_ok s'"
proof -
  note q = life_okD(2) [OF ok]
  from step obtain i t where i: "resending s = Some i" "turns s i = Some t"
    by (auto simp: reply_resent_def split: option.splits)
  have gone: "phase t' \<noteq> Resent \<Longrightarrow>
      queue_ok ((turns s)(i \<mapsto> t')) (filter (\<lambda>j. j \<noteq> i) (waiting s)) None" for t'
    using queue_out [OF q, of t' i] i by auto
  show ?thesis
  proof (cases r)
    case (Kept already stands word carried)
    with step i have s': "s' = settle K i t already stands word carried
        (s\<lparr>resending := None, waiting := filter (\<lambda>j. j \<noteq> i) (waiting s)\<rparr>)"
      by (simp add: reply_resent_def Let_def)
    show ?thesis unfolding s' by (rule life_ok_settle [OF ok i(2)]) (use gone in simp_all)
  next
    case (Refused word unanswered)
    show ?thesis
    proof (cases unanswered)
      case True
      with step i Refused have s': "s' = put_turn i (t\<lparr>phase := Waits\<rparr>) (s\<lparr>resending := None\<rparr>)"
        by (simp add: reply_resent_def Let_def)
      have "queue_ok ((turns s)(i \<mapsto> t\<lparr>phase := Waits\<rparr>)) (waiting s) None"
      proof (rule queueI)
        show "None = Some j" if "((turns s)(i \<mapsto> t\<lparr>phase := Waits\<rparr>)) j = Some u" "phase u = Resent" for j u
          using that queueD(5) [OF q, of j u] i(1) by (cases "j = i") auto
        show "\<exists>u. ((turns s)(i \<mapsto> t\<lparr>phase := Waits\<rparr>)) j = Some u \<and> (phase u = Waits \<or> phase u = Resent)"
          if "j \<in> set (waiting s)" for j
          using queueD(3) [OF q that] by auto
      qed (use queueD(1,2) [OF q] in auto)
      then show ?thesis by (intro life_ok_put [OF ok i(2)]) (auto simp: s')
    next
      case False
      with step i Refused have s': "s' = taken_back K i t word
          (s\<lparr>resending := None, waiting := filter (\<lambda>j. j \<noteq> i) (waiting s),
             replays_refused := Suc (replays_refused s)\<rparr>)"
        by (simp add: reply_resent_def Let_def)
      show ?thesis unfolding s' by (rule life_ok_taken_back [OF ok i(2)]) (use gone in simp_all)
    qed
  qed
qed

lemma life_ok_same:
  assumes "life_ok s" and "turns s' = turns s" "next_id s' = next_id s"
    "standing (rows s') = standing (rows s)" "last_writes s' = last_writes s"
    "waiting s' = waiting s" "resending s' = resending s"
  shows "life_ok s'"
  using assms by (simp add: life_ok_def)

lemma life_ok_step:
  assumes ok: "life_ok s" and step: "pool_step K s l = Some s'"
  shows "life_ok s'"
proof (cases l)
  case (Ask keys c may_wait hold restored)
  with step show ?thesis by (auto intro: life_ok_ask [OF ok])
next
  case (Read_Stands rid ad be)
  with step show ?thesis by (auto intro: life_ok_same [OF ok] split: if_splits)
next
  case (Read_Closes rid)
  with step show ?thesis by (auto intro: life_ok_same [OF ok] split: option.splits)
next
  case (Read_Answers rid rs held_keys at)
  with step show ?thesis by (auto intro: life_ok_same [OF ok])
next
  case (Sign_In h)
  with step show ?thesis by (auto intro: life_ok_same [OF ok])
next
  case Let_Go
  with step show ?thesis by (auto intro: life_ok_let_go [OF ok])
next
  case (Send i)
  with step show ?thesis by (intro life_ok_send [OF ok, of i]) simp
next
  case (Reply i r)
  with step show ?thesis by (intro life_ok_reply [OF ok, of K i r]) simp
next
  case (Interrupt i)
  with step show ?thesis by (intro life_ok_interrupt [OF ok, of K i]) simp
next
  case (Carry i rid)
  with step show ?thesis by (intro life_ok_settling(1) [OF ok, of i rid]) simp
next
  case (Place i rid)
  with step show ?thesis by (intro life_ok_settling(2) [OF ok, of K i rid]) simp
next
  case (Stand_Down i)
  with step show ?thesis by (intro life_ok_settling(3) [OF ok, of K i]) simp
next
  case Resend
  with step show ?thesis by (intro life_ok_resend [OF ok, of K]) simp
next
  case (Reply_Resent r)
  with step show ?thesis by (intro life_ok_reply_resent [OF ok, of K r]) simp
qed

lemma run_induct:
  assumes run: "pool_run K s ls = Some s'" and P: "P s"
    and step: "\<And>s l s'. P s \<Longrightarrow> l \<in> set ls \<Longrightarrow> pool_step K s l = Some s' \<Longrightarrow> P s'"
  shows "P s'"
proof -
  have "P s'" if "set ls' \<subseteq> set ls" "pool_run K u ls' = Some s'" "P u" for ls' u
    using that
  proof (induction ls' arbitrary: u)
    case Nil
    then show ?case by simp
  next
    case (Cons l ls')
    from Cons.prems obtain v where v: "pool_step K u l = Some v" "pool_run K v ls' = Some s'"
      by (auto split: option.splits)
    then have "P v" using step [of u l v] Cons.prems by simp
    with Cons v show ?case by simp
  qed
  from this [of ls s] run P show ?thesis by simp
qed

lemma life_ok_run:
  assumes "pool_run K (new_pool h) ls = Some s"
  shows "life_ok s"
  by (rule run_induct [OF assms, of life_ok]) (fact life_ok_new, rule life_ok_step)

end
