(* ===== verification/Write_Turns.thy ===== *)
theory Write_Turns
  imports Write_Properties
begin

text \<open>
  The order of writes that share a key, in the runs where no write waits or is given up on. A write
  passes a gate (it is sent; it stands down) once every turn it was asked after has reached a
  point (it is answered; it has stood down). Those turns are only the newest on each key, so that
  every earlier write has reached the point too is a fact of all the runs, proved once for a gate
  and a point that comes after it, and interpreted on both pairs.
\<close>

definition shares_key :: "('k, 'c, 'h) turn \<Rightarrow> ('k, 'c, 'h) turn \<Rightarrow> bool" where
  "shares_key t u \<longleftrightarrow> list_ex (\<lambda>k. k \<in> set (t_keys u)) (t_keys t)"

lemma shares_key_iff: "shares_key t u \<longleftrightarrow> (\<exists>k. k \<in> set (t_keys t) \<and> k \<in> set (t_keys u))"
  by (auto simp: shares_key_def list_ex_iff)

locale turn_order =
  fixes gate point :: "('k, 'c, 'h) turn \<Rightarrow> bool"
  assumes point_gate: "point t \<Longrightarrow> gate t"
begin

definition ordered :: "(nat \<rightharpoonup> ('k, 'c, 'h) turn) \<Rightarrow> ('k \<rightharpoonup> nat) \<Rightarrow> bool" where
  "ordered tn lw \<longleftrightarrow>
     (\<forall>w t v u k. tn w = Some t \<longrightarrow> tn v = Some u \<longrightarrow> v < w \<longrightarrow> k \<in> set (t_keys t) \<longrightarrow> k \<in> set (t_keys u) \<longrightarrow>
        (gate t \<longrightarrow> point u) \<and>
        (point u \<or> (\<exists>b b'. b \<in> set (before t) \<and> v \<le> b \<and> tn b = Some b' \<and> k \<in> set (t_keys b')))) \<and>
     (\<forall>v u k. tn v = Some u \<longrightarrow> k \<in> set (t_keys u) \<longrightarrow>
        (case lw k of None \<Rightarrow> point u | Some b \<Rightarrow> v \<le> b))"

lemma orderedD:
  assumes "ordered tn lw"
  shows "tn w = Some t \<Longrightarrow> tn v = Some u \<Longrightarrow> v < w \<Longrightarrow> k \<in> set (t_keys t) \<Longrightarrow> k \<in> set (t_keys u) \<Longrightarrow>
      gate t \<Longrightarrow> point u"
    and "tn w = Some t \<Longrightarrow> tn v = Some u \<Longrightarrow> v < w \<Longrightarrow> k \<in> set (t_keys t) \<Longrightarrow> k \<in> set (t_keys u) \<Longrightarrow>
      point u \<or> (\<exists>b b'. b \<in> set (before t) \<and> v \<le> b \<and> tn b = Some b' \<and> k \<in> set (t_keys b'))"
    and "tn v = Some u \<Longrightarrow> k \<in> set (t_keys u) \<Longrightarrow> lw k = None \<Longrightarrow> point u"
    and "tn v = Some u \<Longrightarrow> k \<in> set (t_keys u) \<Longrightarrow> lw k = Some b \<Longrightarrow> v \<le> b"
  using assms unfolding ordered_def by (blast, blast, fastforce+)

lemma orderedI:
  assumes "\<And>w t v u k. tn w = Some t \<Longrightarrow> tn v = Some u \<Longrightarrow> v < w \<Longrightarrow> k \<in> set (t_keys t) \<Longrightarrow>
      k \<in> set (t_keys u) \<Longrightarrow> gate t \<Longrightarrow> point u"
    and "\<And>w t v u k. tn w = Some t \<Longrightarrow> tn v = Some u \<Longrightarrow> v < w \<Longrightarrow> k \<in> set (t_keys t) \<Longrightarrow>
      k \<in> set (t_keys u) \<Longrightarrow> \<not> point u \<Longrightarrow>
      \<exists>b b'. b \<in> set (before t) \<and> v \<le> b \<and> tn b = Some b' \<and> k \<in> set (t_keys b')"
    and "\<And>v u k. tn v = Some u \<Longrightarrow> k \<in> set (t_keys u) \<Longrightarrow> lw k = None \<Longrightarrow> point u"
    and "\<And>v u k b. tn v = Some u \<Longrightarrow> k \<in> set (t_keys u) \<Longrightarrow> lw k = Some b \<Longrightarrow> v \<le> b"
  shows "ordered tn lw"
  unfolding ordered_def
proof (intro conjI allI impI)
  show "case lw k of None \<Rightarrow> point u | Some b \<Rightarrow> v \<le> b" if "tn v = Some u" "k \<in> set (t_keys u)" for v u k
    using assms(3,4) [OF that] by (auto split: option.split)
qed (use assms(1,2) in blast)+

text \<open>What awaits the newest has waited for them all.\<close>

lemma awaited_all:
  assumes ord: "ordered tn lw" and w: "tn w = Some t"
    and awaited: "\<forall>b \<in> set (before t). \<forall>u. tn b = Some u \<longrightarrow> point u"
    and v: "tn v = Some u" "v < w" "k \<in> set (t_keys t)" "k \<in> set (t_keys u)"
  shows "point u"
proof (rule ccontr)
  assume no: "\<not> point u"
  then obtain b b' where b: "b \<in> set (before t)" "v \<le> b" "tn b = Some b'" "k \<in> set (t_keys b')"
    using orderedD(2) [OF ord w v(1,2,3,4)] by blast
  with awaited have "point b'" by blast
  then have "gate b'" by (rule point_gate)
  with orderedD(1) [OF ord b(3) v(1) _ b(4) v(4)] no have "\<not> v < b" by blast
  with b v(1) have "u = b'" by simp
  with no \<open>point b'\<close> show False by simp
qed

lemma ordered_put:
  assumes ord: "ordered tn lw" and i: "tn i = Some t"
    and t': "t_keys t' = t_keys t" "before t' = before t"
    and keeps: "point t \<Longrightarrow> point t'"
    and opens: "gate t' \<Longrightarrow> gate t \<or> (\<forall>b \<in> set (before t). \<forall>u. tn b = Some u \<longrightarrow> point u)"
    and own: "\<And>k. lw k = Some i \<Longrightarrow> k \<in> set (t_keys t)"
    and lw: "\<And>k. lw' k = lw k \<or> (lw k = Some i \<and> lw' k = None \<and> point t')"
  shows "ordered (tn(i \<mapsto> t')) lw'"
proof -
  have before_i: "point u" if "tn v = Some u" "v < i" "k \<in> set (t_keys t)" "k \<in> set (t_keys u)" "gate t'" for v u k
    using opens [OF that(5)] orderedD(1) [OF ord i that(1-4)] awaited_all [OF ord i _ that(1-4)] by blast
  show ?thesis
  proof (rule orderedI)
    show "point u" if "(tn(i \<mapsto> t')) w = Some t1" "(tn(i \<mapsto> t')) v = Some u" "v < w" "k \<in> set (t_keys t1)"
      "k \<in> set (t_keys u)" "gate t1" for w t1 v u k
    proof (cases "w = i")
      case True
      with that t' show ?thesis by (intro before_i [of v u k]) auto
    next
      case False
      with that have w: "tn w = Some t1" by simp
      show ?thesis
      proof (cases "v = i")
        case True
        with that t' have "point t" by (intro orderedD(1) [OF ord w i, of k]) auto
        with keeps True that show ?thesis by simp
      next
        case False
        with that show ?thesis by (intro orderedD(1) [OF ord w, of v u k]) auto
      qed
    qed
    show "\<exists>b b'. b \<in> set (before t1) \<and> v \<le> b \<and> (tn(i \<mapsto> t')) b = Some b' \<and> k \<in> set (t_keys b')"
      if "(tn(i \<mapsto> t')) w = Some t1" "(tn(i \<mapsto> t')) v = Some u" "v < w" "k \<in> set (t_keys t1)"
      "k \<in> set (t_keys u)" "\<not> point u" for w t1 v u k
    proof -
      note now = that
      obtain t0 where t0: "tn w = Some t0" "t_keys t1 = t_keys t0" "before t1 = before t0"
        using now(1) i t' by (cases "w = i") auto
      obtain u0 where u0: "tn v = Some u0" "t_keys u = t_keys u0" "point u0 \<Longrightarrow> point u"
        using now(2) i t' keeps by (cases "v = i") auto
      from orderedD(2) [OF ord t0(1) u0(1) now(3)] now t0 u0
      obtain b b' where "b \<in> set (before t0)" "v \<le> b" "tn b = Some b'" "k \<in> set (t_keys b')" by metis
      then show ?thesis using i t' t0 by (cases "b = i") auto
    qed
    show "point u" if u: "(tn(i \<mapsto> t')) v = Some u" "k \<in> set (t_keys u)" "lw' k = None" for v u k
    proof (cases "lw k = None")
      case True
      show ?thesis
      proof (cases "v = i")
        case True
        with u t' have "point t" using orderedD(3) [OF ord i, of k] \<open>lw k = None\<close> by simp
        with keeps True u show ?thesis by simp
      next
        case False
        with u \<open>lw k = None\<close> show ?thesis by (intro orderedD(3) [OF ord, of v u k]) auto
      qed
    next
      case False
      with lw [of k] u(3) have k: "lw k = Some i" "point t'" by auto
      show ?thesis
      proof (cases "v = i")
        case True
        with k u show ?thesis by simp
      next
        case False
        with u have v: "tn v = Some u" by simp
        then have "v < i" using orderedD(4) [OF ord v u(2) k(1)] False by simp
        moreover have "gate t'" using k(2) by (rule point_gate)
        ultimately show ?thesis using before_i [OF v _ own [OF k(1)] u(2)] by blast
      qed
    qed
    show "v \<le> b" if "(tn(i \<mapsto> t')) v = Some u" "k \<in> set (t_keys u)" "lw' k = Some b" for v u k b
    proof -
      note now = that
      obtain u0 where "tn v = Some u0" "t_keys u = t_keys u0"
        using now(1) i t' by (cases "v = i") auto
      moreover have "lw k = Some b" using lw [of k] now(3) by auto
      ultimately show ?thesis using orderedD(4) [OF ord] now(2) by simp
    qed
  qed
qed

lemma ordered_ask:
  assumes ord: "ordered tn lw" and old: "\<And>j u. tn j = Some u \<Longrightarrow> j < n"
    and named: "\<And>k b. lw k = Some b \<Longrightarrow> \<exists>u. tn b = Some u \<and> k \<in> set (t_keys u)"
    and bef: "\<And>k b. k \<in> set (t_keys t) \<Longrightarrow> lw k = Some b \<Longrightarrow> b \<in> set (before t)"
    and shut: "\<not> gate t" and lw': "lw' = (\<lambda>k. if k \<in> set (t_keys t) then Some n else lw k)"
  shows "ordered (tn(n \<mapsto> t)) lw'"
proof (rule orderedI)
  have was: "tn v = Some u" if "(tn(n \<mapsto> t)) w = Some t1" "(tn(n \<mapsto> t)) v = Some u" "v < w" for w t1 v u
    using that old [of w] by (cases "w = n"; cases "v = n") auto
  show "point u" if "(tn(n \<mapsto> t)) w = Some t1" "(tn(n \<mapsto> t)) v = Some u" "v < w" "k \<in> set (t_keys t1)"
    "k \<in> set (t_keys u)" "gate t1" for w t1 v u k
  proof -
    have "w \<noteq> n" using that(1,6) shut by auto
    with that(1) show ?thesis using orderedD(1) [OF ord _ was [OF that(1-3)] that(3-6)] by simp
  qed
  show "\<exists>b b'. b \<in> set (before t1) \<and> v \<le> b \<and> (tn(n \<mapsto> t)) b = Some b' \<and> k \<in> set (t_keys b')"
    if "(tn(n \<mapsto> t)) w = Some t1" "(tn(n \<mapsto> t)) v = Some u" "v < w" "k \<in> set (t_keys t1)"
      "k \<in> set (t_keys u)" "\<not> point u" for w t1 v u k
  proof -
    note v = was [OF that(1-3)]
    have "\<exists>b b'. b \<in> set (before t1) \<and> v \<le> b \<and> tn b = Some b' \<and> k \<in> set (t_keys b')"
    proof (cases "w = n")
      case True
      with that(1) have t1: "t1 = t" by simp
      from orderedD(3) [OF ord v that(5)] that(6) obtain b where b: "lw k = Some b" by (cases "lw k") auto
      with orderedD(4) [OF ord v that(5) b] named [OF b] bef [OF _ b] that(4) t1 show ?thesis by blast
    next
      case False
      with that(1) have "tn w = Some t1" by simp
      from orderedD(2) [OF ord this v that(3-5)] that(6) show ?thesis by blast
    qed
    then obtain b b' where b: "b \<in> set (before t1)" "v \<le> b" "tn b = Some b'" "k \<in> set (t_keys b')" by blast
    with old [OF b(3)] show ?thesis by auto
  qed
  show "point u" if "(tn(n \<mapsto> t)) v = Some u" "k \<in> set (t_keys u)" "lw' k = None" for v u k
    using that orderedD(3) [OF ord, of v u k] by (cases "v = n") (auto simp: lw' split: if_splits)
  show "v \<le> b" if "(tn(n \<mapsto> t)) v = Some u" "k \<in> set (t_keys u)" "lw' k = Some b" for v u k b
  proof (cases "v = n")
    case True
    with that show ?thesis by (auto simp: lw' split: if_splits)
  next
    case False
    with that(1) have v: "tn v = Some u" by simp
    show ?thesis
    proof (cases "k \<in> set (t_keys t)")
      case True
      with that(3) old [OF v] show ?thesis by (simp add: lw')
    next
      case False
      with that(3) orderedD(4) [OF ord v that(2)] show ?thesis by (simp add: lw')
    qed
  qed
qed

lemma ordered_empty: "ordered Map.empty lw"
  by (rule orderedI) simp_all

end

subsection \<open>Sent once answered\<close>

definition sent_gate :: "('k, 'c, 'h) turn \<Rightarrow> bool" where
  "sent_gate t \<longleftrightarrow> answered t \<or> phase t \<noteq> Asked"

interpretation sent: turn_order sent_gate answered
  by unfold_locales (simp add: sent_gate_def)

interpretation gone: turn_order dropped dropped
  by unfold_locales

text \<open>The steps of a run in which no write waits or is given up on.\<close>

fun calm :: "('k, 'r, 'c, 'h) label \<Rightarrow> bool" where
  "calm (Ask keys c may_wait hold restored) \<longleftrightarrow> \<not> may_wait"
| "calm (Interrupt i) \<longleftrightarrow> False"
| "calm _ \<longleftrightarrow> True"

text \<open>What such a run leaves every turn: none waits, and one past its sending is answered.\<close>

definition direct :: "('k, 'r, 'c, 'h) pool_state \<Rightarrow> bool" where
  "direct s \<longleftrightarrow> life_ok s \<and> waiting s = [] \<and> resending s = None \<and>
     (\<forall>i t. turns s i = Some t \<longrightarrow> \<not> queueable t \<and> (phase t = Asked \<or> phase t = Sent \<or> answered t)) \<and>
     sent.ordered (turns s) (last_writes s)"

lemma directD:
  assumes "direct s"
  shows "life_ok s" "waiting s = []" "resending s = None" "sent.ordered (turns s) (last_writes s)"
    and "turns s i = Some t \<Longrightarrow> \<not> queueable t"
    and "turns s i = Some t \<Longrightarrow> phase t = Asked \<or> phase t = Sent \<or> answered t"
  using assms unfolding direct_def by blast+

text \<open>A step that leaves every turn but one, and \<open>lastWrites\<close> but for that one once it is answered.\<close>

lemma direct_put:
  assumes ok: "direct s" and i: "turns s i = Some t" and life: "life_ok s'"
    and s': "turns s' = (turns s)(i \<mapsto> t')" "waiting s' = []" "resending s' = None"
    and t': "t_keys t' = t_keys t" "before t' = before t" "queueable t' = queueable t"
    and past: "phase t' = Asked \<or> phase t' = Sent \<or> answered t'"
    and keeps: "answered t \<Longrightarrow> answered t'"
    and opens: "phase t = Asked \<Longrightarrow> await_each s answered (before t)"
    and lw: "\<And>k. last_writes s' k = last_writes s k
      \<or> (last_writes s k = Some i \<and> last_writes s' k = None \<and> answered t')"
  shows "direct s'"
proof -
  note D = directD [OF ok]
  have own: "k \<in> set (t_keys t)" if "last_writes s k = Some i" for k
    using coreD(6) [OF life_okD(1) [OF D(1)] that] i by simp
  have "sent_gate t \<or> (\<forall>b \<in> set (before t). \<forall>u. turns s b = Some u \<longrightarrow> answered u)"
    using opens by (fastforce simp: sent_gate_def await_each_def list_all_iff)
  then have "sent.ordered ((turns s)(i \<mapsto> t')) (last_writes s')"
    by (intro sent.ordered_put [OF D(4) i t'(1,2) keeps _ own lw])
  then show ?thesis
    unfolding direct_def s' using life D(5,6) i t'(3) past by (auto simp: s' split: if_splits)
qed

lemma direct_same:
  assumes "direct s" and "turns s' = turns s" "next_id s' = next_id s"
    "standing (rows s') = standing (rows s)" "last_writes s' = last_writes s"
    "waiting s' = waiting s" "resending s' = resending s"
  shows "direct s'"
  using assms life_ok_same [of s s'] by (simp add: direct_def)

lemma direct_ask:
  assumes ok: "direct s"
  shows "direct (ask K s keys c False hold restored)"
proof -
  note D = directD [OF ok]
  note core = life_okD(1) [OF D(1)]
  let ?s = "ask K s keys c False hold restored"
  obtain t where t: "turns ?s = (turns s)(next_id s \<mapsto> t)" "t_keys t = uniq keys" "\<not> answered t"
      "phase t = Asked" "\<not> queueable t" "set (before t) = {b. \<exists>k \<in> set keys. last_writes s k = Some b}"
    by (force simp: ask_def Let_def List.map_filter_def)
  have fields: "waiting ?s = []" "resending ?s = None"
      "last_writes ?s = (\<lambda>k. if k \<in> set keys then Some (next_id s) else last_writes s k)"
    by (simp_all add: ask_def Let_def D(2,3))
  have "sent.ordered ((turns s)(next_id s \<mapsto> t)) (last_writes ?s)"
  proof (rule sent.ordered_ask [OF D(4)])
    show "j < next_id s" if "turns s j = Some u" for j u using coreD(1) [OF core, of j] that by auto
    show "\<exists>u. turns s b = Some u \<and> k \<in> set (t_keys u)" if "last_writes s k = Some b" for k b
      using coreD(6) [OF core that] .
  qed (use t in \<open>auto simp: fields sent_gate_def\<close>)
  then show ?thesis
    unfolding direct_def fields t(1) using life_ok_ask [OF D(1)] D(5,6) t
    by (simp split: if_splits)
qed

lemma reply_writeD:
  assumes "reply_write K s i r = Some s'"
  obtains t0 where "turns s i = Some t0" "phase t0 = Sent"
    "s' = (case r of
        Kept already stands word carried \<Rightarrow>
          settle K i (t0\<lparr>answered := True\<rparr>) already stands word carried s
      | Refused word unanswered \<Rightarrow>
          if unanswered \<and> queueable t0 \<and> room s
          then put_turn i ((if holds t0 then t0\<lparr>answered := True\<rparr>
              else tell Hears_Queued (t0\<lparr>answered := True\<rparr>))\<lparr>phase := Waits\<rparr>) (s\<lparr>waiting := waiting s @ [i]\<rparr>)
          else taken_back K i (t0\<lparr>answered := True\<rparr>) word s)"
  using assms by (cases r) (simp_all add: reply_write_def Let_def split: option.splits if_splits)

lemma taken_back_frame [simp]:
  "turns (taken_back K i t word s) = (turns s)(i \<mapsto> tell Hears_Refused (t\<lparr>phase := Done\<rparr>)\<lparr>dropped := True\<rparr>)"
  "waiting (taken_back K i t word s) = waiting s" "resending (taken_back K i t word s) = resending s"
  by (simp_all add: taken_back_def split: option.splits)

lemma last_writes_drop:
  "last_writes (drop_turn K i t s) k = last_writes s k
    \<or> (last_writes s k = Some i \<and> last_writes (drop_turn K i t s) k = None)"
  by (simp add: drop_turn_def)

lemma last_writes_back:
  "last_writes (taken_back K i t word s) k = last_writes s k
    \<or> (last_writes s k = Some i \<and> last_writes (taken_back K i t word s) k = None)"
  by (auto simp: taken_back_def drop_turn_def split: option.splits)

lemma direct_reply:
  assumes ok: "direct s" and step: "reply_write K s i r = Some s'"
  shows "direct s'"
proof -
  note D = directD [OF ok]
  from step obtain t0 where t0: "turns s i = Some t0" "phase t0 = Sent" and s': "s' = (case r of
        Kept already stands word carried \<Rightarrow>
          settle K i (t0\<lparr>answered := True\<rparr>) already stands word carried s
      | Refused word unanswered \<Rightarrow> taken_back K i (t0\<lparr>answered := True\<rparr>) word s)"
    by (rule reply_writeD) (use D(5) in \<open>auto split: reply.splits\<close>)
  have life: "life_ok s'" by (rule life_ok_reply [OF D(1) step])
  show ?thesis
  proof (cases r)
    case (Kept already stands word carried)
    let ?s = "settle K i (t0\<lparr>answered := True\<rparr>) already stands word carried s"
    obtain t' where t': "turns ?s = (turns s)(i \<mapsto> t')" "t_keys t' = t_keys t0" "before t' = before t0"
      "answered t'" "queueable t' = queueable t0"
      using settle_turn [of K i "t0\<lparr>answered := True\<rparr>" already stands word carried s]
      by (auto simp: settle_def Let_def)
    show ?thesis
      by (rule direct_put [OF ok t0(1) life, of t']) (use t' t0 D(2,3) s' Kept in simp_all)
  next
    case (Refused word unanswered)
    with s' have s': "s' = taken_back K i (t0\<lparr>answered := True\<rparr>) word s" by simp
    show ?thesis
      by (rule direct_put [OF ok t0(1) life,
            of "tell Hears_Refused (t0\<lparr>answered := True, phase := Done\<rparr>)\<lparr>dropped := True\<rparr>"])
        (use t0 D(2,3) last_writes_back [of K i "t0\<lparr>answered := True\<rparr>" word s] in \<open>simp_all add: s'\<close>)
  qed
qed

lemma direct_send:
  assumes ok: "direct s" and step: "send_write s i = Some s'"
  shows "direct s'"
proof -
  from step obtain t where t: "turns s i = Some t" "phase t = Asked" "await_each s answered (before t)"
    and s': "s' = put_turn i (t\<lparr>phase := Sent\<rparr>) (s\<lparr>sends := sends s @ [(i, holder s, False)]\<rparr>)"
    by (auto simp: send_write_def split: option.splits if_splits)
  show ?thesis
    by (rule direct_put [OF ok t(1) life_ok_send [OF directD(1) [OF ok] step], of "t\<lparr>phase := Sent\<rparr>"])
      (use t directD(2,3) [OF ok] in \<open>simp_all add: s'\<close>)
qed

lemma direct_settling:
  assumes ok: "direct s"
  shows "carry_write s i rid = Some s' \<Longrightarrow> direct s'"
    and "place_write K s i rid = Some s' \<Longrightarrow> direct s'"
    and "stand_down K s i = Some s' \<Longrightarrow> direct s'"
proof -
  note D = directD [OF ok]
  show "direct s'" if step: "carry_write s i rid = Some s'"
  proof -
    from step obtain t left word carried where t: "turns s i = Some t" "phase t = Settling left word carried"
      and s': "s' = put_turn i (t\<lparr>phase := Settling (remove1 rid left) word carried\<rparr>) s"
      by (rule carry_writeD)
    show ?thesis
      by (rule direct_put [OF ok t(1) life_ok_settling(1) [OF D(1) step],
            of "t\<lparr>phase := Settling (remove1 rid left) word carried\<rparr>"])
        (use t D(2,3) D(6) [OF t(1)] in \<open>simp_all add: s'\<close>)
  qed
  show "direct s'" if step: "place_write K s i rid = Some s'"
  proof -
    from step obtain t left word carried h where t: "turns s i = Some t" "phase t = Settling left word carried"
      and s': "s' = put_turn i (t\<lparr>phase := Settling (remove1 rid left) word carried\<rparr>)
        (s\<lparr>rows := fst (taken_in_place K (rows s) [(rid, h)] (t_keys t) word)\<rparr>)"
      by (rule place_writeD)
    show ?thesis
      by (rule direct_put [OF ok t(1) life_ok_settling(2) [OF D(1) step],
            of "t\<lparr>phase := Settling (remove1 rid left) word carried\<rparr>"])
        (use t D(2,3) D(6) [OF t(1)] in \<open>simp_all add: s'\<close>)
  qed
  show "direct s'" if step: "stand_down K s i = Some s'"
  proof -
    from step obtain t word carried where t: "turns s i = Some t" "phase t = Settling [] word carried"
      and s': "s' = drop_turn K i (t\<lparr>phase := Done\<rparr>) s"
      by (rule stand_downD)
    show ?thesis
      by (rule direct_put [OF ok t(1) life_ok_settling(3) [OF D(1) step],
            of "t\<lparr>phase := Done, dropped := True\<rparr>"])
        (use t D(2,3) D(6) [OF t(1)] last_writes_drop [of K i "t\<lparr>phase := Done\<rparr>" s] in \<open>simp_all add: s'\<close>)
  qed
qed

lemma direct_step:
  assumes ok: "direct s" and "calm l" and step: "pool_step K s l = Some s'"
  shows "direct s'"
proof (cases l)
  case (Ask keys c may_wait hold restored)
  with step assms(2) direct_ask [OF ok] show ?thesis by auto
next
  case (Interrupt i)
  with assms(2) show ?thesis by simp
next
  case (Read_Stands rid ad be)
  with step show ?thesis by (auto intro: direct_same [OF ok] split: if_splits)
next
  case (Read_Closes rid)
  with step show ?thesis by (auto intro: direct_same [OF ok] split: option.splits)
next
  case (Read_Answers rid rs held_keys at)
  with step show ?thesis by (auto intro: direct_same [OF ok])
next
  case (Sign_In h)
  with step show ?thesis by (auto intro: direct_same [OF ok])
next
  case Let_Go
  with step have "s' = s\<lparr>waiting := []\<rparr>" by (simp add: let_go_queued_def directD(2) [OF ok])
  then show ?thesis by (intro direct_same [OF ok]) (simp_all add: directD(2) [OF ok])
next
  case (Send i)
  with step direct_send [OF ok, of i] show ?thesis by simp
next
  case (Reply i r)
  with step direct_reply [OF ok, of K i r] show ?thesis by simp
next
  case (Carry i rid)
  with step direct_settling(1) [OF ok, of i rid] show ?thesis by simp
next
  case (Place i rid)
  with step direct_settling(2) [OF ok, of K i rid] show ?thesis by simp
next
  case (Stand_Down i)
  with step direct_settling(3) [OF ok, of K i] show ?thesis by simp
next
  case Resend
  with step show ?thesis by (simp add: resend_next_def directD(2,3) [OF ok])
next
  case (Reply_Resent r)
  with step show ?thesis by (simp add: reply_resent_def directD(3) [OF ok])
qed

lemma direct_run:
  assumes run: "pool_run K (new_pool h) ls = Some s" and "list_all calm ls"
  shows "direct s"
proof (rule run_induct [OF run])
  show "direct (new_pool h)"
  proof -
    have "sent.ordered (turns (new_pool h)) (last_writes (new_pool h))"
      using sent.ordered_empty by (simp add: new_pool_def)
    then show ?thesis unfolding direct_def using life_ok_new [of h] by (auto simp: new_pool_def)
  qed
  show "direct s'" if "direct s" "l \<in> set ls" "pool_step K s l = Some s'" for s l s'
    using direct_step [OF that(1) _ that(3)] that(2) assms(2) by (simp add: list_all_iff)
qed

subsection \<open>Stood down in order\<close>

text \<open>The steps of a run of one account whose writes the service keeps, none given up on.\<close>

fun kept :: "('k, 'r, 'c, 'h) label \<Rightarrow> bool" where
  "kept (Reply i (Refused word unanswered)) \<longleftrightarrow> False"
| "kept (Reply_Resent (Refused word unanswered)) \<longleftrightarrow> False"
| "kept (Interrupt i) \<longleftrightarrow> False"
| "kept Let_Go \<longleftrightarrow> False"
| "kept (Sign_In h) \<longleftrightarrow> False"
| "kept _ \<longleftrightarrow> True"

definition orderly :: "('k, 'r, 'c, 'h) pool_state \<Rightarrow> bool" where
  "orderly s \<longleftrightarrow> life_ok s \<and> (\<forall>i t. turns s i = Some t \<longrightarrow> asked_as t = holder s)
     \<and> gone.ordered (turns s) (last_writes s)"

lemma orderlyD:
  assumes "orderly s"
  shows "life_ok s" "turns s i = Some t \<Longrightarrow> asked_as t = holder s" "gone.ordered (turns s) (last_writes s)"
  using assms unfolding orderly_def by blast+

lemma orderly_put:
  assumes ok: "orderly s" and i: "turns s i = Some t" and life: "life_ok s'"
    and s': "turns s' = (turns s)(i \<mapsto> t')" "holder s' = holder s"
    and t': "t_keys t' = t_keys t" "before t' = before t" "asked_as t' = asked_as t"
    and keeps: "dropped t \<Longrightarrow> dropped t'"
    and opens: "dropped t' \<Longrightarrow> dropped t \<or> await_each s dropped (before t)"
    and lw: "\<And>k. last_writes s' k = last_writes s k
      \<or> (last_writes s k = Some i \<and> last_writes s' k = None \<and> dropped t')"
  shows "orderly s'"
proof -
  note D = orderlyD [OF ok]
  have own: "k \<in> set (t_keys t)" if "last_writes s k = Some i" for k
    using coreD(6) [OF life_okD(1) [OF D(1)] that] i by simp
  have "dropped t \<or> (\<forall>b \<in> set (before t). \<forall>u. turns s b = Some u \<longrightarrow> dropped u)" if "dropped t'"
    using opens [OF that] by (fastforce simp: await_each_def list_all_iff)
  then have "gone.ordered ((turns s)(i \<mapsto> t')) (last_writes s')"
    by (intro gone.ordered_put [OF D(3) i t'(1,2) keeps _ own lw])
  then show ?thesis
    unfolding orderly_def s' using life D(2) i t'(3) by (auto simp: s' split: if_splits)
qed

lemma orderly_same:
  assumes "orderly s" and "turns s' = turns s" "next_id s' = next_id s"
    "standing (rows s') = standing (rows s)" "last_writes s' = last_writes s"
    "waiting s' = waiting s" "resending s' = resending s" "holder s' = holder s"
  shows "orderly s'"
  using assms life_ok_same [of s s'] by (simp add: orderly_def)

lemma orderly_ask:
  assumes ok: "orderly s"
  shows "orderly (ask K s keys c may_wait hold restored)"
proof -
  note D = orderlyD [OF ok]
  note core = life_okD(1) [OF D(1)]
  let ?s = "ask K s keys c may_wait hold restored"
  obtain t where t: "turns ?s = (turns s)(next_id s \<mapsto> t)" "t_keys t = uniq keys" "\<not> dropped t"
      "asked_as t = holder s" "set (before t) = {b. \<exists>k \<in> set keys. last_writes s k = Some b}"
    by (force simp: ask_def Let_def List.map_filter_def)
  have fields: "holder ?s = holder s"
      "last_writes ?s = (\<lambda>k. if k \<in> set keys then Some (next_id s) else last_writes s k)"
    by (simp_all add: ask_def Let_def)
  have "gone.ordered ((turns s)(next_id s \<mapsto> t)) (last_writes ?s)"
  proof (rule gone.ordered_ask [OF D(3)])
    show "j < next_id s" if "turns s j = Some u" for j u using coreD(1) [OF core, of j] that by auto
    show "\<exists>u. turns s b = Some u \<and> k \<in> set (t_keys u)" if "last_writes s k = Some b" for k b
      using coreD(6) [OF core that] .
  qed (use t in \<open>auto simp: fields\<close>)
  then show ?thesis
    unfolding orderly_def fields t(1) using life_ok_ask [OF D(1)] D(2) t by (simp split: if_splits)
qed

lemma orderly_settle:
  assumes ok: "orderly s" and i: "turns s i = Some t0"
    and t: "t_keys t = t_keys t0" "before t = before t0" "dropped t = dropped t0" "asked_as t = asked_as t0"
    and s': "turns s' = turns s" "holder s' = holder s" "last_writes s' = last_writes s"
    and life: "life_ok (settle K i t already stands word carried s')"
  shows "orderly (settle K i t already stands word carried s')"
proof -
  obtain t' where t': "turns (settle K i t already stands word carried s') = (turns s)(i \<mapsto> t')"
    "t_keys t' = t_keys t0" "before t' = before t0" "dropped t' = dropped t0" "asked_as t' = asked_as t0"
    using settle_turn [of K i t already stands word carried s'] t s'(1) by auto
  show ?thesis by (rule orderly_put [OF ok i life, of t']) (use t' s' in simp_all)
qed

lemma orderly_step:
  assumes ok: "orderly s" and kept: "kept l" and step: "pool_step K s l = Some s'"
  shows "orderly s'"
proof -
  note D = orderlyD [OF ok]
  have life: "life_ok s'" by (rule life_ok_step [OF D(1) step])
  show ?thesis
  proof (cases l)
    case (Ask keys c may_wait hold restored)
    with step orderly_ask [OF ok] show ?thesis by auto
  next
    case (Send i)
    with step obtain t where t: "turns s i = Some t"
      "s' = put_turn i (t\<lparr>phase := Sent\<rparr>) (s\<lparr>sends := sends s @ [(i, holder s, False)]\<rparr>)"
      by (auto simp: send_write_def split: option.splits if_splits)
    show ?thesis by (rule orderly_put [OF ok t(1) life, of "t\<lparr>phase := Sent\<rparr>"]) (simp_all add: t(2))
  next
    case (Reply i r)
    with kept obtain already stands word carried where r: "r = Kept already stands word carried"
      by (cases r) auto
    from step Reply obtain t0 where t0: "turns s i = Some t0"
      "s' = settle K i (t0\<lparr>answered := True\<rparr>) already stands word carried s"
      by (auto simp: r elim: reply_writeD)
    show ?thesis
      using life unfolding t0(2) by (intro orderly_settle [OF ok t0(1)]) simp_all
  next
    case (Carry i rid)
    from step [unfolded Carry pool_step.simps] obtain t left word carried where t: "turns s i = Some t"
      "s' = put_turn i (t\<lparr>phase := Settling (remove1 rid left) word carried\<rparr>) s"
      by (rule carry_writeD)
    show ?thesis
      by (rule orderly_put [OF ok t(1) life, of "t\<lparr>phase := Settling (remove1 rid left) word carried\<rparr>"])
        (simp_all add: t(2))
  next
    case (Place i rid)
    from step [unfolded Place pool_step.simps] obtain t left word carried h' where t: "turns s i = Some t"
      "s' = put_turn i (t\<lparr>phase := Settling (remove1 rid left) word carried\<rparr>)
        (s\<lparr>rows := fst (taken_in_place K (rows s) [(rid, h')] (t_keys t) word)\<rparr>)"
      by (rule place_writeD)
    show ?thesis
      by (rule orderly_put [OF ok t(1) life, of "t\<lparr>phase := Settling (remove1 rid left) word carried\<rparr>"])
        (simp_all add: t(2))
  next
    case (Stand_Down i)
    from step [unfolded Stand_Down pool_step.simps] obtain t word carried where t: "turns s i = Some t"
      "await_each s dropped (before t)" "s' = drop_turn K i (t\<lparr>phase := Done\<rparr>) s"
      by (rule stand_downD)
    show ?thesis
      by (rule orderly_put [OF ok t(1) life, of "t\<lparr>phase := Done, dropped := True\<rparr>"])
        (use t last_writes_drop [of K i "t\<lparr>phase := Done\<rparr>" s] in simp_all)
  next
    case Resend
    with step obtain i t where t: "turns s i = Some t" "s' = put_turn i (t\<lparr>phase := Resent\<rparr>)
        (s\<lparr>resending := Some i, sends := sends s @ [(i, holder s, True)]\<rparr>)"
      using D(2) by (auto simp: resend_next_def split: option.splits list.splits if_splits)
    show ?thesis by (rule orderly_put [OF ok t(1) life, of "t\<lparr>phase := Resent\<rparr>"]) (simp_all add: t(2))
  next
    case (Reply_Resent r)
    with kept obtain already stands word carried where r: "r = Kept already stands word carried"
      by (cases r) auto
    from step Reply_Resent obtain i t0 where t0: "turns s i = Some t0"
      "s' = settle K i t0 already stands word carried
        (s\<lparr>resending := None, waiting := filter (\<lambda>j. j \<noteq> i) (waiting s)\<rparr>)"
      by (auto simp: r reply_resent_def Let_def split: option.splits)
    show ?thesis
      using life unfolding t0(2) by (intro orderly_settle [OF ok t0(1)]) simp_all
  next
    case (Read_Stands rid ad be)
    with step show ?thesis by (auto intro: orderly_same [OF ok] split: if_splits)
  next
    case (Read_Closes rid)
    with step show ?thesis by (auto intro: orderly_same [OF ok] split: option.splits)
  next
    case (Read_Answers rid rs held_keys at)
    with step show ?thesis by (auto intro: orderly_same [OF ok])
  qed (use kept in simp_all)
qed

lemma orderly_run:
  assumes run: "pool_run K (new_pool h) ls = Some s" and "list_all kept ls"
  shows "orderly s"
proof (rule run_induct [OF run])
  show "orderly (new_pool h)"
  proof -
    have "gone.ordered (turns (new_pool h)) (last_writes (new_pool h))"
      using gone.ordered_empty by (simp add: new_pool_def)
    then show ?thesis unfolding orderly_def using life_ok_new [of h] by (auto simp: new_pool_def)
  qed
  show "orderly s'" if "orderly s" "l \<in> set ls" "pool_step K s l = Some s'" for s l s'
    using orderly_step [OF that(1) _ that(3)] that(2) assms(2) by (simp add: list_all_iff)
qed

end
