(* ===== verification/Write_Claims.thy ===== *)
theory Write_Claims
  imports Write_Turns
begin

text \<open>
  The properties of the writes of an entity pool over every run of it, and the runs in which a
  refusal, a caller giving up, or a queue breaks the order two comments of the source promise.
\<close>

text \<open>The state a run comes to, and whether it runs at all.\<close>

definition comes_to :: "(nat, nat \<times> nat, nat, nat) label list \<Rightarrow> (nat, nat \<times> nat, nat, nat) pool_state" where
  "comes_to ls = (case pool_run demo_kind (new_pool 0) ls of None \<Rightarrow> new_pool 0 | Some s \<Rightarrow> s)"

definition runs :: "(nat, nat \<times> nat, nat, nat) label list \<Rightarrow> bool" where
  "runs ls \<longleftrightarrow> (case pool_run demo_kind (new_pool 0) ls of None \<Rightarrow> False | Some s \<Rightarrow> True)"

lemma runs_to: "runs ls \<Longrightarrow> pool_run demo_kind (new_pool 0) ls = Some (comes_to ls)"
  by (simp add: runs_def comes_to_def split: option.splits)

definition turn_of :: "(nat, nat \<times> nat, nat, nat) pool_state \<Rightarrow> nat \<Rightarrow> (nat, nat, nat) turn" where
  "turn_of s i = (case turns s i of
     None \<Rightarrow> \<lparr>t_keys = [], t_change = 0, before = [], answered = False, dropped = False,
       queueable = False, holds = False, asked_as = 0, phase = Done, told = None\<rparr>
   | Some t \<Rightarrow> t)"

lemma turn_of: "i < next_id s \<Longrightarrow> life_ok s \<Longrightarrow> turns s i = Some (turn_of s i)"
  using coreD(1) [OF life_okD(1), of s i] by (auto simp: turn_of_def split: option.splits)

text \<open>Two writes to one key over a read that holds its row.\<close>

definition two_writes :: "(nat, nat \<times> nat, nat, nat) label list" where
  "two_writes = [Read_Stands 0 None None, Read_Answers 0 [(1, 5)] None None,
     Ask [1] 6 False False False, Ask [1] 7 False False False]"

definition kept_word :: "nat reply" where
  "kept_word = Kept False None None False"

text \<open>
  C1: Where no write waits or is given up on, a write is sent only once the service answered every
  write asked before it that shares a key with it, those its turn was never told of included.
\<close>

theorem sent_once_answered:
  assumes "pool_run K (new_pool h) ls = Some s" and "list_all calm ls"
    and "send_write s w = Some s'"
    and "turns s w = Some t" "turns s v = Some u" "v < w" "shares_key t u"
  shows "answered u"
proof -
  note ord = directD(4) [OF direct_run [OF assms(1,2)]]
  have "\<forall>b \<in> set (before t). \<forall>u. turns s b = Some u \<longrightarrow> answered u"
    using assms(3,4) by (fastforce simp: send_write_def await_each_def list_all_iff split: if_splits)
  with sent.awaited_all [OF ord assms(4) _ assms(5,6)] assms(7) show ?thesis
    unfolding shares_key_iff by blast
qed

theorem sent_once_answered_witness:
  "answered (turn_of (comes_to (two_writes @ [Send 0, Reply 0 kept_word])) 0)"
proof -
  let ?ls = "two_writes @ [Send 0, Reply 0 kept_word]"
  have run: "runs ?ls" by code_simp
  note life = life_ok_run [OF runs_to [OF run]]
  have calm: "list_all calm ?ls" by code_simp
  have "case send_write (comes_to ?ls) 1 of None \<Rightarrow> False | Some s \<Rightarrow> True" by code_simp
  then obtain s' where send: "send_write (comes_to ?ls) 1 = Some s'" by (auto split: option.splits)
  have n: "next_id (comes_to ?ls) = 2" by code_simp
  have shares: "shares_key (turn_of (comes_to ?ls) 1) (turn_of (comes_to ?ls) 0)" by code_simp
  show ?thesis
    by (rule sent_once_answered [OF runs_to [OF run] calm send turn_of turn_of _ shares])
      (simp_all add: life n)
qed

text \<open>
  C3: In a run of one account in which the service keeps every write it answers and no write is given up
  on, none refused, none interrupted, none waiting let go and nobody else signing in, a write stands down only
  once every write asked before it on one of its keys has.
\<close>

theorem stood_down_in_order:
  assumes "pool_run K (new_pool h) ls = Some s" and "list_all kept ls"
    and "turns s w = Some t" "turns s v = Some u" "v < w" "shares_key t u"
    and "dropped t"
  shows "dropped u"
  using gone.orderedD(1) [OF orderlyD(3) [OF orderly_run [OF assms(1,2)]] assms(3,4,5)] assms(6,7)
  unfolding shares_key_iff by blast

definition two_gone :: "(nat, nat \<times> nat, nat, nat) label list" where
  "two_gone = two_writes @ [Send 0, Reply 0 kept_word, Send 1, Reply 1 kept_word,
     Carry 1 0, Carry 0 0, Stand_Down 0, Stand_Down 1]"

theorem stood_down_in_order_witness: "dropped (turn_of (comes_to two_gone) 0)"
proof -
  have run: "runs two_gone" by code_simp
  have kept: "list_all kept two_gone" by code_simp
  have n: "next_id (comes_to two_gone) = 2" by code_simp
  have shares: "shares_key (turn_of (comes_to two_gone) 1) (turn_of (comes_to two_gone) 0)" by code_simp
  have gone: "dropped (turn_of (comes_to two_gone) 1)" by code_simp
  show ?thesis
    by (rule stood_down_in_order [OF runs_to [OF run] kept turn_of turn_of _ shares gone])
      (simp_all add: life_ok_run [OF runs_to [OF run]] n)
qed

text \<open>
  C32: In every run of the pool, whatever is asked, sent, answered, refused, queued, sent again or given up
  on, the writes standing over the rows are those asked and not yet dropped, each once, in the order
  asked, so that the newest is drawn last.
\<close>

theorem writes_stand_in_order:
  assumes "pool_run K (new_pool h) ls = Some s"
  shows "map write_id (standing (rows s)) = filter (alive (turns s)) [0..<next_id s]"
  using coreD(2) [OF life_okD(1) [OF life_ok_run [OF assms]]] .

theorem writes_stand_in_order_witness: "map write_id (standing (rows (comes_to two_writes))) = [0, 1]"
proof -
  have run: "runs two_writes" by code_simp
  have "filter (alive (turns (comes_to two_writes))) [0..<next_id (comes_to two_writes)] = [0, 1]" by code_simp
  with writes_stand_in_order [OF runs_to [OF run]] show ?thesis by simp
qed

text \<open>
  In every run at most two hundred writes wait, each once, and each waits for the service or
  has been sent to it again.
\<close>

theorem few_wait:
  assumes "pool_run K (new_pool h) ls = Some s"
  shows "distinct (waiting s) \<and> length (waiting s) \<le> 200 \<and>
    list_all (\<lambda>i. case turns s i of None \<Rightarrow> False | Some t \<Rightarrow> phase t = Waits \<or> phase t = Resent) (waiting s)"
  using queueD(1,2,3) [OF life_okD(2) [OF life_ok_run [OF assms]]]
  by (fastforce simp: queue_bound_def list_all_iff split: option.splits)

subsection \<open>The queue drained\<close>

fun answering :: "'c reply \<Rightarrow> bool" where
  "answering (Kept already stands word carried) \<longleftrightarrow> True"
| "answering (Refused word unanswered) \<longleftrightarrow> \<not> unanswered"

lemma resent_and_answered:
  assumes ok: "life_ok s" and free: "resending s = None" and ws: "waiting s = i # rest"
    and i: "turns s i = Some t" "asked_as t = holder s" and r: "answering r"
  obtains s' where "pool_run K s [Resend, Reply_Resent r] = Some s'" "waiting s' = rest" "resending s' = None"
    "holder s' = holder s" "sends s' = sends s @ [(i, holder s, True)]"
    "\<And>j. j \<noteq> i \<Longrightarrow> turns s' j = turns s j"
proof -
  let ?t = "t\<lparr>phase := Resent\<rparr>"
  let ?s1 = "put_turn i ?t (s\<lparr>resending := Some i, sends := sends s @ [(i, holder s, True)]\<rparr>)"
  let ?gone = "?s1\<lparr>resending := None, waiting := filter (\<lambda>j. j \<noteq> i) (waiting s)\<rparr>"
  have sent: "resend_next K s = Some ?s1" using free ws i by (simp add: resend_next_def)
  have rest: "filter (\<lambda>j. j \<noteq> i) (waiting s) = rest"
    using queueD(1) [OF life_okD(2) [OF ok]] ws by (auto simp: filter_id_conv)
  show thesis
  proof (cases r)
    case (Kept already stands word carried)
    let ?s2 = "settle K i ?t already stands word carried ?gone"
    have "reply_resent K ?s1 r = Some ?s2" by (simp add: reply_resent_def Let_def Kept)
    moreover have "turns ?s2 j = turns s j" if "j \<noteq> i" for j
      using settle_turn [of K i ?t already stands word carried ?gone] that by auto
    ultimately show ?thesis by (intro that [of ?s2]) (simp_all add: sent rest)
  next
    case (Refused word unanswered)
    let ?s2 = "taken_back K i ?t word (?gone\<lparr>replays_refused := Suc (replays_refused s)\<rparr>)"
    have "reply_resent K ?s1 r = Some ?s2" using r by (simp add: reply_resent_def Let_def Refused put_turn_def)
    moreover have "sends ?s2 = sends s @ [(i, holder s, True)]" "holder ?s2 = holder s"
      by (simp_all add: taken_back_def split: option.splits)
    ultimately show ?thesis by (intro that [of ?s2]) (simp_all add: sent rest)
  qed
qed

lemma pool_run_append:
  "pool_run K s (ls @ ms) = (case pool_run K s ls of None \<Rightarrow> None | Some s' \<Rightarrow> pool_run K s' ms)"
  by (induction ls arbitrary: s) (simp_all split: option.split)

lemma drains:
  assumes "life_ok s" "resending s = None" "length rs = length (waiting s)" "list_all answering rs"
    and "\<forall>i \<in> set (waiting s). \<forall>t. turns s i = Some t \<longrightarrow> asked_as t = holder s"
  shows "\<exists>s'. pool_run K s (concat (map (\<lambda>r. [Resend, Reply_Resent r]) rs)) = Some s' \<and> waiting s' = []
    \<and> sends s' = sends s @ map (\<lambda>i. (i, holder s, True)) (waiting s)"
  using assms
proof (induction rs arbitrary: s)
  case Nil
  then show ?case by simp
next
  case (Cons r rs)
  then obtain i rest where ws: "waiting s = i # rest" by (cases "waiting s") auto
  note q = life_okD(2) [OF Cons.prems(1)]
  obtain t where t: "turns s i = Some t" using queueD(3) [OF q, of i] ws by auto
  obtain s1 where s1: "pool_run K s [Resend, Reply_Resent r] = Some s1" "waiting s1 = rest" "resending s1 = None"
    "holder s1 = holder s" "sends s1 = sends s @ [(i, holder s, True)]" "\<And>j. j \<noteq> i \<Longrightarrow> turns s1 j = turns s j"
    by (rule resent_and_answered [OF Cons.prems(1,2) ws t]) (use Cons.prems(4,5) ws t in auto)
  have "life_ok s1" by (rule run_induct [OF s1(1), of life_ok, OF Cons.prems(1)]) (rule life_ok_step)
  moreover have "\<forall>j \<in> set rest. turns s1 j = turns s j" using queueD(1) [OF q] ws by (metis s1(6) distinct.simps(2))
  ultimately have "\<exists>s'. pool_run K s1 (concat (map (\<lambda>r. [Resend, Reply_Resent r]) rs)) = Some s' \<and> waiting s' = []
    \<and> sends s' = sends s1 @ map (\<lambda>i. (i, holder s1, True)) (waiting s1)"
    using Cons.prems(3-5) s1(2-4) ws by (intro Cons.IH) auto
  then show ?case
    using s1 ws pool_run_append [of K s "[Resend, Reply_Resent r]"] by auto
qed

text \<open>
  A service that answers drains the queue: of one account's waiting writes each is sent again
  once, oldest first, and none is left waiting.
\<close>

theorem queue_drains:
  assumes "pool_run K (new_pool h) ls = Some s" and "resending s = None"
    and "length rs = length (waiting s)" and "list_all answering rs"
    and "\<forall>i \<in> set (waiting s). \<forall>t. turns s i = Some t \<longrightarrow> asked_as t = holder s"
  shows "\<exists>s'. pool_run K s (concat (map (\<lambda>r. [Resend, Reply_Resent r]) rs)) = Some s' \<and> waiting s' = []
    \<and> sends s' = sends s @ map (\<lambda>i. (i, holder s, True)) (waiting s)"
  by (rule drains [OF life_ok_run [OF assms(1)] assms(2-5)])

definition two_waiting :: "(nat, nat \<times> nat, nat, nat) label list" where
  "two_waiting = [Ask [2] 6 True False False, Send 0, Reply 0 (Refused None True), Ask [1] 6 True False False]"

theorem few_wait_witness: "length (waiting (comes_to two_waiting)) \<le> 200 \<and> waiting (comes_to two_waiting) = [0, 1]"
proof -
  have run: "runs two_waiting" by code_simp
  have "waiting (comes_to two_waiting) = [0, 1]" by code_simp
  with few_wait [OF runs_to [OF run]] show ?thesis by simp
qed

theorem queue_drains_witness:
  "\<exists>s'. pool_run demo_kind (comes_to two_waiting)
       [Resend, Reply_Resent kept_word, Resend, Reply_Resent (Refused None False)] = Some s'
     \<and> waiting s' = [] \<and> sends s' = [(0, 0, False), (0, 0, True), (1, 0, True)]"
proof -
  have run: "runs two_waiting" by code_simp
  have ws: "waiting (comes_to two_waiting) = [0, 1]" by code_simp
  have free: "resending (comes_to two_waiting) = None" by code_simp
  have sent: "sends (comes_to two_waiting) = [(0, 0, False)]" "holder (comes_to two_waiting) = 0" by code_simp+
  have as: "asked_as (turn_of (comes_to two_waiting) 0) = 0" "asked_as (turn_of (comes_to two_waiting) 1) = 0"
    by code_simp+
  then have "\<forall>i \<in> set (waiting (comes_to two_waiting)). \<forall>t. turns (comes_to two_waiting) i = Some t
      \<longrightarrow> asked_as t = holder (comes_to two_waiting)"
    by (auto simp: ws sent turn_of_def)
  from queue_drains [OF runs_to [OF run] free _ _ this, of "[kept_word, Refused None False]"] show ?thesis
    by (simp add: ws sent kept_word_def)
qed

subsection \<open>The order lost\<close>

definition refused_between :: "(nat, nat \<times> nat, nat, nat) label list" where
  "refused_between = two_writes @ [Send 0, Reply 0 kept_word, Send 1, Reply 1 (Refused None False),
     Ask [1] 8 False False False, Send 2, Reply 2 kept_word, Read_Answers 0 [(1, 8)] None None,
     Carry 2 0, Stand_Down 2]"

text \<open>
  A refusal between two kept writes on a key loses their order: the first is kept and waits to be
  carried; the second is refused, which takes the key out of \<open>lastWrites\<close>; the third, asked after,
  awaits none, and stands down before the first, whose older change is then drawn over the row the
  third left.
\<close>

theorem refusal_breaks_stand_down_order:
  "runs refused_between \<and> dropped (turn_of (comes_to refused_between) 2)
   \<and> \<not> dropped (turn_of (comes_to refused_between) 0)
   \<and> drawn_row demo_kind (rows (comes_to (butlast refused_between))) 1 = Some (1, 8)
   \<and> drawn_row demo_kind (rows (comes_to refused_between)) 1 = Some (1, 6)"
  by (intro conjI; code_simp)

text \<open>
  The second write is given up on while it awaits the first, and the third, which awaits the second
  alone, is sent with the first unanswered.
\<close>

definition given_up_between :: "(nat, nat \<times> nat, nat, nat) label list" where
  "given_up_between = two_writes @ [Send 0, Ask [1] 8 False False False, Interrupt 1, Send 2]"

theorem giving_up_breaks_send_order:
  "runs given_up_between \<and> \<not> answered (turn_of (comes_to given_up_between) 0)
   \<and> map fst (sends (comes_to given_up_between)) = [0, 2]"
  by (intro conjI; code_simp)

text \<open>
  The second write, asked while an older write waits, joins the queue as answered, and the third,
  asked once the queue is drained but for its answer, is sent with the first unanswered.
\<close>

definition queued_between :: "(nat, nat \<times> nat, nat, nat) label list" where
  "queued_between = [Ask [2] 6 True False False, Send 0, Reply 0 (Refused None True),
     Ask [1] 6 False False False, Send 1, Ask [1] 7 True False False, Ask [1] 8 False False False, Send 3]"

theorem queueing_breaks_send_order:
  "runs queued_between \<and> \<not> answered (turn_of (comes_to queued_between) 1)
   \<and> map fst (sends (comes_to queued_between)) = [0, 1, 3]
   \<and> waiting (comes_to queued_between) = [0, 2]"
  by (intro conjI; code_simp)

end
