(* ===== verification/Agent_Status.thy ===== *)
theory Agent_Status
  imports Prelude
begin

text \<open>
  \<open>packages/features/src/agent-status.ts\<close>: where a coding agent stands, read from its newest turn,
  the newest line awaiting one, and the instant. An instant is a whole number of milliseconds. A
  turn's status is the word its row holds, which may be none this build knows. The lemmas read the
  three questions the module answers (the status, whether a line awaits, the clock's next edge)
  off one case split, what the turn and the line are at the instant.
\<close>

datatype agent_status = Starting | Running | Completed | Failed | Canceled

definition starting_grace :: int where
  "starting_grace = 5 * 60 * 1000"

definition line_grace :: int where
  "line_grace = 5 * 60 * 1000"

definition status_of_turn :: "string \<rightharpoonup> agent_status" where
  "status_of_turn = map_of [(''queued'', Running), (''running'', Running), (''settled'', Completed),
     (''cancelled'', Canceled), (''failed'', Failed)]"

definition is_turn_status_word :: "string \<Rightarrow> bool" where
  "is_turn_status_word word \<longleftrightarrow> (case status_of_turn word of None \<Rightarrow> False | Some _ \<Rightarrow> True)"

record status_turn =
  turn_status :: string
  cancel_requested :: bool
  cancel_requested_at :: "int option"
  queued_at :: int
  settled_at :: "int option"
  session_ended :: bool
  lease_until :: "int option"

record status_standing =
  created_at :: int
  now :: int
  awaiting_line_at :: "int option"
  blank :: bool

datatype line_standing = No_Line | Awaits | Unanswered

text \<open>Where the line stands, and from when its grace is counted where the clock decides it.\<close>

type_synonym line_reading = "line_standing \<times> int option"

definition turn_runs :: "status_turn \<Rightarrow> bool" where
  "turn_runs turn \<longleftrightarrow> status_of_turn (turn_status turn) = Some Running"

definition runner_lost_at :: "status_turn option \<Rightarrow> int \<Rightarrow> bool" where
  "runner_lost_at turn t \<longleftrightarrow> (case turn of
     None \<Rightarrow> False
   | Some u \<Rightarrow> turn_runs u \<and> (case lease_until u of None \<Rightarrow> False | Some lease \<Rightarrow> t > lease))"

definition turn_at :: "status_turn option \<Rightarrow> int \<Rightarrow> status_turn option" where
  "turn_at turn t = (case turn of
     None \<Rightarrow> None
   | Some u \<Rightarrow> (case lease_until u of
       None \<Rightarrow> turn
     | Some lease \<Rightarrow>
         if \<not> runner_lost_at turn t then turn
         else Some (u\<lparr>turn_status := (if cancel_requested u then ''cancelled'' else ''failed''),
                settled_at := Some lease\<rparr>)))"

definition line_of :: "status_turn option \<Rightarrow> status_standing \<Rightarrow> line_reading" where
  "line_of turn standing = (case awaiting_line_at standing of
     None \<Rightarrow> (No_Line, None)
   | Some line \<Rightarrow>
       if (case turn of None \<Rightarrow> False | Some u \<Rightarrow> session_ended u) then (No_Line, None)
       else if (case Option.bind turn cancel_requested_at of None \<Rightarrow> False | Some stopped \<Rightarrow> line < stopped)
       then (No_Line, None)
       else if (case turn of None \<Rightarrow> False | Some u \<Rightarrow> turn_runs u) then (Awaits, None)
       else if (case turn of None \<Rightarrow> False | Some u \<Rightarrow> line < queued_at u) then (No_Line, None)
       else (let since = max line (case Option.bind turn settled_at of None \<Rightarrow> 0 | Some t \<Rightarrow> t)
         in (if now standing - since \<le> line_grace then Awaits else Unanswered, Some since)))"

definition line_awaits_turn :: "status_turn option \<Rightarrow> status_standing \<Rightarrow> bool" where
  "line_awaits_turn turn standing \<longleftrightarrow> fst (line_of (turn_at turn (now standing)) standing) = Awaits"

definition turn_stoppable :: "status_turn option \<Rightarrow> bool" where
  "turn_stoppable turn \<longleftrightarrow> (case turn of None \<Rightarrow> False | Some u \<Rightarrow> turn_runs u \<and> \<not> cancel_requested u)"

definition agent_status_at :: "status_turn option \<Rightarrow> status_standing \<Rightarrow> agent_status" where
  "agent_status_at newest standing =
     (let turn = turn_at newest (now standing); line = fst (line_of turn standing)
      in if line = Awaits then Running
         else if line = Unanswered then Failed
         else (case turn of
             None \<Rightarrow>
               if blank standing then Completed
               else if now standing - created_at standing \<le> starting_grace then Starting else Failed
           | Some u \<Rightarrow> (case status_of_turn (turn_status u) of
               None \<Rightarrow> Failed
             | Some status \<Rightarrow> if status = Running \<and> cancel_requested u then Canceled else status)))"

definition status_clock_edge :: "status_turn option \<Rightarrow> status_standing \<Rightarrow> int option" where
  "status_clock_edge newest standing =
     (let turn = turn_at newest (now standing);
          lapses = (case turn of None \<Rightarrow> None
            | Some u \<Rightarrow> if turn_runs u then map_option (\<lambda>t. t + 1) (lease_until u) else None);
          line = line_of turn standing
      in if fst line = Awaits
         then (case snd line of None \<Rightarrow> lapses | Some since \<Rightarrow> Some (since + line_grace + 1))
         else if lapses \<noteq> None then lapses
         else if fst line = Unanswered \<or> turn \<noteq> None then None
         else if blank standing then None
         else (let edge = created_at standing + starting_grace
           in if now standing \<le> edge then Some (edge + 1) else None))"

subsection \<open>The turn at an instant\<close>

lemma status_of_turn_ended [simp]:
  "status_of_turn ''cancelled'' = Some Canceled" "status_of_turn ''failed'' = Some Failed"
  by (simp_all add: status_of_turn_def)

lemma turn_at_none [simp]: "turn_at None t = None"
  by (simp add: turn_at_def)

lemma turn_at_keeps:
  "\<not> (turn_runs u \<and> (\<exists>lease. lease_until u = Some lease \<and> lease < t)) \<Longrightarrow> turn_at (Some u) t = Some u"
  by (auto simp: turn_at_def runner_lost_at_def split: option.splits)

lemma turn_at_lost:
  "turn_runs u \<Longrightarrow> lease_until u = Some lease \<Longrightarrow> lease < t \<Longrightarrow>
    turn_at (Some u) t = Some (u\<lparr>turn_status := (if cancel_requested u then ''cancelled'' else ''failed''),
      settled_at := Some lease\<rparr>)"
  by (simp add: turn_at_def runner_lost_at_def)

text \<open>The turn is the same all along up to its lease, and past it.\<close>

lemma turn_at_same:
  assumes "t \<le> t'"
    and "\<And>u lease. newest = Some u \<Longrightarrow> turn_runs u \<Longrightarrow> lease_until u = Some lease \<Longrightarrow> t \<le> lease \<Longrightarrow> t' \<le> lease"
  shows "turn_at newest t' = turn_at newest t"
proof (cases newest)
  case (Some u)
  show ?thesis
  proof (cases "turn_runs u \<and> (\<exists>lease. lease_until u = Some lease \<and> lease < t)")
    case True
    then obtain lease where "turn_runs u" "lease_until u = Some lease" "lease < t" by blast
    with assms(1) Some show ?thesis by (simp add: turn_at_lost)
  next
    case False
    then have "\<not> (turn_runs u \<and> (\<exists>lease. lease_until u = Some lease \<and> lease < t'))"
      using assms(2) Some by fastforce
    with False Some show ?thesis by (simp add: turn_at_keeps)
  qed
qed simp

text \<open>A turn that still runs at an instant is the row itself, and its lease holds.\<close>

lemma turn_at_runs:
  assumes "turn_at newest t = Some u" "turn_runs u"
  shows "newest = Some u" and "lease_until u = Some lease \<Longrightarrow> t \<le> lease"
proof -
  obtain v where v: "newest = Some v" using assms(1) by (cases newest) auto
  have no: "\<not> (turn_runs v \<and> (\<exists>lease. lease_until v = Some lease \<and> lease < t))"
  proof
    assume "turn_runs v \<and> (\<exists>lease. lease_until v = Some lease \<and> lease < t)"
    with assms v show False by (auto simp: turn_at_lost turn_runs_def split: if_splits)
  qed
  with assms(1) v have "u = v" by (simp add: turn_at_keeps)
  with v no assms(2) show "newest = Some u" "lease_until u = Some lease \<Longrightarrow> t \<le> lease" by auto
qed

subsection \<open>The line at an instant\<close>

definition at_instant :: "status_standing \<Rightarrow> int \<Rightarrow> status_standing" where
  "at_instant standing t = standing\<lparr>now := t\<rparr>"

lemma at_instant_frame [simp]:
  "now (at_instant standing t) = t" "created_at (at_instant standing t) = created_at standing"
  "awaiting_line_at (at_instant standing t) = awaiting_line_at standing"
  "blank (at_instant standing t) = blank standing"
  by (simp_all add: at_instant_def)

lemma line_of_no_clock:
  "snd (line_of turn standing) = None \<Longrightarrow> line_of turn (at_instant standing t) = line_of turn standing"
  by (auto simp: line_of_def Let_def split: option.splits if_splits)

lemma line_of_clock:
  "snd (line_of turn standing) = Some since \<Longrightarrow>
    line_of turn (at_instant standing t) = (if t - since \<le> line_grace then Awaits else Unanswered, Some since)"
  by (auto simp: line_of_def Let_def split: option.splits if_splits)

lemma line_of_standing:
  "snd (line_of turn standing) = Some since \<Longrightarrow>
    fst (line_of turn standing) = (if now standing - since \<le> line_grace then Awaits else Unanswered)"
  "snd (line_of turn standing) = None \<Longrightarrow> fst (line_of turn standing) \<noteq> Unanswered"
  by (auto simp: line_of_def Let_def split: option.splits if_splits)

lemma line_of_clock_ended:
  "snd (line_of (Some u) standing) = Some since \<Longrightarrow> \<not> turn_runs u"
  by (auto simp: line_of_def Let_def split: option.splits if_splits)

subsection \<open>The clock\<close>

lemma edge_of_running:
  assumes "turn_at newest (now standing) = Some u" "turn_runs u" "lease_until u = Some lease"
  shows "status_clock_edge newest standing = Some (lease + 1)"
proof -
  have "snd (line_of (Some u) standing) = None"
    using line_of_clock_ended assms(2) by (cases "snd (line_of (Some u) standing)") auto
  with assms show ?thesis by (simp add: status_clock_edge_def Let_def)
qed

lemma edge_of_line:
  assumes "snd (line_of (turn_at newest (now standing)) standing) = Some since"
    and "now standing - since \<le> line_grace"
  shows "status_clock_edge newest standing = Some (since + line_grace + 1)"
  using assms line_of_standing(1) [OF assms(1)] by (simp add: status_clock_edge_def Let_def)

lemma edge_of_start:
  assumes "newest = None" "fst (line_of None standing) = No_Line" "\<not> blank standing"
    and "now standing - created_at standing \<le> starting_grace"
  shows "status_clock_edge newest standing = Some (created_at standing + starting_grace + 1)"
  using assms by (simp add: status_clock_edge_def Let_def)

text \<open>
  C40: Nothing but a row changing moves an agent's status before its clock edge: a reader that reads
  the status again at the edge alone, and never again where there is none, shows the right status
  at every instant.
\<close>

theorem status_holds_until_edge:
  assumes "now standing \<le> t"
    and "\<forall>edge. status_clock_edge newest standing = Some edge \<longrightarrow> t < edge"
  shows "agent_status_at newest (at_instant standing t) = agent_status_at newest standing"
proof -
  let ?turn = "turn_at newest (now standing)"
  have turn: "turn_at newest t = ?turn"
  proof (rule turn_at_same [OF assms(1)])
    fix u lease
    assume u: "newest = Some u" "turn_runs u" "lease_until u = Some lease" "now standing \<le> lease"
    then have "?turn = Some u" by (simp add: turn_at_keeps)
    from edge_of_running [OF this u(2,3)] assms(2) show "t \<le> lease" by auto
  qed
  have line: "fst (line_of ?turn (at_instant standing t)) = fst (line_of ?turn standing)"
  proof (cases "snd (line_of ?turn standing)")
    case None
    then show ?thesis by (simp add: line_of_no_clock)
  next
    case (Some since)
    show ?thesis
    proof (cases "now standing - since \<le> line_grace")
      case True
      with edge_of_line [OF Some True] assms(2) have "t - since \<le> line_grace" by auto
      with True show ?thesis by (simp add: line_of_clock [OF Some] line_of_standing(1) [OF Some])
    next
      case False
      with assms(1) show ?thesis by (simp add: line_of_clock [OF Some] line_of_standing(1) [OF Some])
    qed
  qed
  have start: "t - created_at standing \<le> starting_grace \<longleftrightarrow> now standing - created_at standing \<le> starting_grace"
    if "?turn = None" "fst (line_of ?turn standing) = No_Line" "\<not> blank standing"
  proof -
    have "newest = None" using that(1) by (auto simp: turn_at_def split: option.splits if_splits)
    with edge_of_start [OF this] that assms show ?thesis by fastforce
  qed
  show ?thesis
  proof (cases "fst (line_of ?turn standing)")
    case No_Line
    with line have "fst (line_of ?turn (at_instant standing t)) = No_Line" by simp
    with No_Line start show ?thesis by (cases ?turn) (auto simp: agent_status_at_def turn Let_def)
  qed (simp_all add: agent_status_at_def turn line Let_def)
qed

definition demo_turn :: status_turn where
  "demo_turn = \<lparr>turn_status = ''running'', cancel_requested = False, cancel_requested_at = None,
     queued_at = 100, settled_at = None, session_ended = False, lease_until = Some 900\<rparr>"

definition demo_standing :: status_standing where
  "demo_standing = \<lparr>created_at = 50, now = 200, awaiting_line_at = None, blank = False\<rparr>"

theorem status_holds_until_edge_witness:
  "agent_status_at (Some demo_turn) (at_instant demo_standing 900) = Running
   \<and> agent_status_at (Some demo_turn) (at_instant demo_standing 901) = Failed"
proof
  have edge: "status_clock_edge (Some demo_turn) demo_standing = Some 901" by code_simp
  have "agent_status_at (Some demo_turn) demo_standing = Running" by code_simp
  moreover have "now demo_standing \<le> 900" by code_simp
  ultimately show "agent_status_at (Some demo_turn) (at_instant demo_standing 900) = Running"
    using status_holds_until_edge [of demo_standing 900 "Some demo_turn"] edge by simp
  show "agent_status_at (Some demo_turn) (at_instant demo_standing 901) = Failed" by code_simp
qed

text \<open>
  Nothing reads as starting or running forever: once its start, its line, its turn's end and a
  running turn's lease are all further back than the grace, an agent reads as ended.
\<close>

theorem nothing_runs_forever:
  assumes "line_grace < now standing" and "line_grace < now standing - created_at standing"
    and "\<forall>line. awaiting_line_at standing = Some line \<longrightarrow> line_grace < now standing - line"
    and "\<forall>u. newest = Some u \<longrightarrow> turn_runs u \<longrightarrow>
      (\<exists>lease. lease_until u = Some lease \<and> line_grace < now standing - lease)"
    and "\<forall>u t. newest = Some u \<longrightarrow> settled_at u = Some t \<longrightarrow> line_grace < now standing - t"
  shows "agent_status_at newest standing \<in> {Completed, Failed, Canceled}"
proof -
  let ?turn = "turn_at newest (now standing)"
  have ended: "\<not> turn_runs u" if "?turn = Some u" for u
    using turn_at_runs [OF that] assms(4) by (fastforce simp: line_grace_def)
  have settled: "line_grace < now standing - t" if "Option.bind ?turn settled_at = Some t" for t
    using that assms(4,5) by (auto simp: turn_at_def runner_lost_at_def split: option.splits if_splits)
  have "line_grace < now standing - since" if "snd (line_of ?turn standing) = Some since" for since
    using that assms(1,3) settled by (auto simp: line_of_def Let_def max_def split: option.splits if_splits)
  then have "fst (line_of ?turn standing) \<noteq> Awaits"
  proof (cases "snd (line_of ?turn standing)")
    case None
    with ended show ?thesis by (auto simp: line_of_def Let_def split: option.splits if_splits)
  next
    case (Some since)
    with \<open>\<And>since. snd (line_of ?turn standing) = Some since \<Longrightarrow> _\<close> [OF Some] show ?thesis
      by (simp add: line_of_standing(1) [OF Some])
  qed
  moreover have "status \<in> {Completed, Failed, Canceled}"
    if "?turn = Some u" "status_of_turn (turn_status u) = Some status" for u status
    using ended [OF that(1)] that(2) by (auto simp: turn_runs_def status_of_turn_def split: if_splits)
  ultimately show ?thesis
    using assms(2) by (auto simp: agent_status_at_def Let_def line_grace_def starting_grace_def split: option.splits)
qed

theorem nothing_runs_forever_witness:
  "agent_status_at (Some demo_turn) (at_instant demo_standing 1000000) \<in> {Completed, Failed, Canceled}"
  by (rule nothing_runs_forever) (simp_all add: demo_turn_def demo_standing_def line_grace_def)

text \<open>
  A Stop wins: a turn it was asked of reads as canceled at every instant, whether it still runs,
  is queued, or lost its runner, while no line has been written since.
\<close>

theorem stop_wins:
  assumes "turn_runs u" "cancel_requested u" "cancel_requested_at u = Some stopped"
    and "\<forall>line. awaiting_line_at standing = Some line \<longrightarrow> line < stopped"
  shows "agent_status_at (Some u) standing = Canceled \<and> \<not> turn_stoppable (Some u)
    \<and> \<not> line_awaits_turn (Some u) standing"
proof -
  obtain v where v: "turn_at (Some u) (now standing) = Some v" "cancel_requested v"
    "cancel_requested_at v = Some stopped" "status_of_turn (turn_status v) \<in> {Some Running, Some Canceled}"
  proof (cases "\<exists>lease. lease_until u = Some lease \<and> lease < now standing")
    case True
    then obtain lease where "lease_until u = Some lease" "lease < now standing" by blast
    with turn_at_lost [OF assms(1) this] assms(2,3) show ?thesis
      by (intro that [of "u\<lparr>turn_status := ''cancelled'', settled_at := Some lease\<rparr>"]) simp_all
  next
    case False
    with assms show ?thesis by (intro that [of u]) (simp_all add: turn_at_keeps turn_runs_def)
  qed
  have "fst (line_of (Some v) standing) = No_Line"
    using v(3) assms(4) by (auto simp: line_of_def split: option.splits)
  with v assms(2) show ?thesis
    by (auto simp: agent_status_at_def turn_stoppable_def line_awaits_turn_def)
qed

theorem stop_wins_witness:
  "agent_status_at (Some (demo_turn\<lparr>cancel_requested := True, cancel_requested_at := Some 150\<rparr>))
     (demo_standing\<lparr>awaiting_line_at := Some 120\<rparr>) = Canceled"
  using stop_wins [of "demo_turn\<lparr>cancel_requested := True, cancel_requested_at := Some 150\<rparr>" 150
    "demo_standing\<lparr>awaiting_line_at := Some 120\<rparr>"]
  by (simp add: demo_turn_def demo_standing_def turn_runs_def status_of_turn_def)

end
