(* ===== verification/Transcript_Window.thy ===== *)
theory Transcript_Window
  imports Prelude
begin

text \<open>
  \<open>packages/features/src/transcript-window.ts\<close> and the \<open>turn-record.ts\<close> it reads: the newest messages
  of an agent's transcript as live rows deliver them, each row as the tab draws it, and an answer
  past a reader's cursor joined onto the rows it holds. A stored JSON value (a part, a message's
  metadata, a turn's usage) is of a type of its own, read by what the source reads of it: the
  channel of a metadata record, and the counts a usage decodes to. A message's optional keys are
  options, an absent key none.
\<close>

subsection \<open>A turn's record\<close>

record recorded_turn =
  rt_status :: string
  rt_model :: "string option"
  rt_effort :: "string option"
  rt_failure :: "string option"
  rt_fast_refused :: bool

record turn_tokens =
  input_tokens :: int
  output_tokens :: int
  cached_input_tokens :: int
  cache_write_tokens :: "int option"

datatype turn_ending = Stopped | Ending_Failed | Abandoned

record turn_record =
  tr_model :: "string option"
  tr_effort :: "string option"
  tr_tokens :: "turn_tokens option"
  tr_ending :: "turn_ending option"
  tr_fast_refused :: bool

definition max_choice_chars :: nat where
  "max_choice_chars = 200"

definition catalog_id_of :: "string \<Rightarrow> string" where
  "catalog_id_of model = (if CHR ''/'' \<in> set model then model else ''openai'' @ ''/'' @ model)"

definition choice_of :: "string option \<Rightarrow> string option" where
  "choice_of recorded = (case recorded of
     None \<Rightarrow> None
   | Some name \<Rightarrow> if name = [] \<or> length name > max_choice_chars then None else Some name)"

definition ending_of :: "recorded_turn \<Rightarrow> turn_ending option" where
  "ending_of turn =
     (if rt_status turn = ''cancelled'' then Some Stopped
      else if rt_status turn \<noteq> ''failed'' then None
      else if rt_failure turn = Some ''abandoned'' then Some Abandoned
      else Some Ending_Failed)"

text \<open>The usage is handed over as it decodes: none where the row holds none or one that does not read.\<close>

definition turn_record_of :: "recorded_turn \<Rightarrow> turn_tokens option \<Rightarrow> turn_record" where
  "turn_record_of turn usage =
     \<lparr>tr_model = choice_of (map_option catalog_id_of (rt_model turn)),
      tr_effort = choice_of (rt_effort turn), tr_tokens = usage,
      tr_ending = ending_of turn, tr_fast_refused = rt_fast_refused turn\<rparr>"

subsection \<open>The rows\<close>

datatype message_role = User | Assistant | System

datatype cut_field = Cut_Output | Cut_Text

text \<open>The fields of \<open>transcriptWindowRowSchema\<close> this build reads.\<close>

record 'j window_row =
  row_id :: string
  row_seq :: int
  client_id :: string
  row_role :: message_role
  part_count :: nat
  row_metadata :: "'j option"
  placed_at :: int
  row_finished_at :: "int option"
  sender :: "string option"
  sender_name :: "string option"
  sender_model :: "string option"
  member_id :: "string option"
  member_name :: "string option"
  sender_agent_id :: "string option"
  automation_id :: "string option"
  journal_id :: "string option"
  after_step :: "int option"
  turn_started_at :: "int option"
  row_turn_status :: "string option"
  turn_model :: "string option"
  turn_effort :: "string option"
  turn_usage :: "'j option"
  turn_failure :: "string option"
  turn_fast_refused :: "bool option"

record 'j part_row =
  message_id :: string
  part_index :: int
  part :: 'j
  cut_in :: "cut_field option"
  cut_bytes :: "int option"
  cut_head :: "string option"
  cut_tail :: "string option"

datatype agent_sender =
    Former_Member
  | Member string string
  | The_App
  | Automation string "string option"
  | Git_Hub string
  | Agent string "string option" "string option"

record part_cut =
  pc_index :: int
  pc_field :: cut_field
  pc_bytes :: int
  pc_head :: string
  pc_tail :: string

record 'j transcript_message =
  msg_id :: string
  msg_role :: message_role
  msg_parts :: "'j list"
  msg_metadata :: "'j option"
  msg_cuts :: "part_cut list"
  msg_client_id :: "string option"
  msg_sent_by :: "agent_sender option"
  msg_sent_at :: "int option"
  msg_arrived_in :: "(string \<times> int) option"
  msg_started_at :: "int option"
  msg_finished_at :: "int option"
  msg_record :: "turn_record option"

definition transcript_window :: nat where
  "transcript_window = 100"

definition sender_of :: "'j window_row \<Rightarrow> agent_sender option" where
  "sender_of row =
     (if sender row = Some ''member'' then
        (case (member_id row, member_name row) of
           (Some i, Some name) \<Rightarrow> Some (Member i name) | _ \<Rightarrow> Some Former_Member)
      else if sender row = Some ''app'' \<or> sender row = Some ''luke'' then Some The_App
      else if sender row = Some ''automation'' then
        map_option (\<lambda>name. Automation name (automation_id row)) (sender_name row)
      else if sender row = Some ''github'' then map_option Git_Hub (sender_name row)
      else if sender row = Some ''agent'' then
        map_option (\<lambda>name. Agent name (sender_model row) (sender_agent_id row)) (sender_name row)
      else None)"

definition spoken_on_call :: "('j \<Rightarrow> string option) \<Rightarrow> 'j window_row \<Rightarrow> bool" where
  "spoken_on_call channel row \<longleftrightarrow>
     row_role row \<noteq> System \<and> Option.bind (row_metadata row) channel = Some ''voice''"

text \<open>\<open>toSorted\<close> by a number, which keeps the order of equals.\<close>

definition sorted_by :: "('a \<Rightarrow> int) \<Rightarrow> 'a list \<Rightarrow> 'a list" where
  "sorted_by f xs = sort_key f xs"

definition cut_of :: "'j part_row \<Rightarrow> part_cut list" where
  "cut_of p = (case (cut_in p, cut_bytes p, cut_head p, cut_tail p) of
     (Some f, Some b, Some h, Some t) \<Rightarrow>
       [\<lparr>pc_index = part_index p, pc_field = f, pc_bytes = b, pc_head = h, pc_tail = t\<rparr>]
   | _ \<Rightarrow> [])"

definition window_message_of ::
  "('j \<Rightarrow> string option) \<Rightarrow> ('j \<Rightarrow> turn_tokens option) \<Rightarrow> 'j window_row \<Rightarrow> 'j part_row list \<Rightarrow>
   'j transcript_message" where
  "window_message_of channel usage row part_rows =
     (let ordered = sorted_by part_index part_rows;
          message = \<lparr>msg_id = row_id row, msg_role = row_role row, msg_parts = map part ordered,
            msg_metadata = row_metadata row, msg_cuts = concat (map cut_of ordered),
            msg_client_id = None, msg_sent_by = None, msg_sent_at = None, msg_arrived_in = None,
            msg_started_at = None, msg_finished_at = None, msg_record = None\<rparr>
      in if row_role row = User then
           message\<lparr>msg_client_id := Some (client_id row), msg_sent_by := sender_of row,
             msg_sent_at := Some (placed_at row),
             msg_arrived_in := (case (journal_id row, after_step row) of
                (Some j, Some s) \<Rightarrow> Some (j, s) | _ \<Rightarrow> None)\<rparr>
         else if spoken_on_call channel row then message\<lparr>msg_sent_at := Some (placed_at row)\<rparr>
         else (case (turn_started_at row, row_turn_status row) of
             (Some started, Some status) \<Rightarrow>
               message\<lparr>msg_started_at := Some started, msg_finished_at := row_finished_at row,
                 msg_record := Some (turn_record_of
                   \<lparr>rt_status = status, rt_model = turn_model row, rt_effort = turn_effort row,
                    rt_failure = turn_failure row,
                    rt_fast_refused = (turn_fast_refused row = Some True)\<rparr>
                   (Option.bind (turn_usage row) usage))\<rparr>
           | _ \<Rightarrow> message))"

text \<open>The parts by message, each message's in the order they stand.\<close>

definition parts_of :: "'j part_row list \<Rightarrow> string \<Rightarrow> 'j part_row list" where
  "parts_of part_rows i = filter (\<lambda>p. message_id p = i) part_rows"

definition window_messages_of ::
  "('j \<Rightarrow> string option) \<Rightarrow> ('j \<Rightarrow> turn_tokens option) \<Rightarrow> 'j window_row list \<Rightarrow> 'j part_row list \<Rightarrow>
   'j transcript_message list" where
  "window_messages_of channel usage rows part_rows =
     concat (map (\<lambda>row. let parts = parts_of part_rows (row_id row)
       in if length parts = part_count row then [window_message_of channel usage row parts] else [])
       (sorted_by row_seq rows))"

record 'j window_rows =
  window :: "'j window_row list"
  window_parts :: "'j part_row list"

definition joined_window_rows :: "'j window_rows \<Rightarrow> 'j window_rows \<Rightarrow> 'j window_rows" where
  "joined_window_rows held past =
     (let rows_answered = row_id ` set (window past);
          parts_answered = rows_answered \<union> message_id ` set (window_parts past);
          win = take transcript_window (sorted_by (\<lambda>r. - row_seq r)
            (filter (\<lambda>r. row_id r \<notin> rows_answered) (window held) @ window past));
          kept = row_id ` set win
      in \<lparr>window = win,
          window_parts = filter (\<lambda>p. message_id p \<in> kept)
            (filter (\<lambda>p. message_id p \<notin> parts_answered) (window_parts held) @ window_parts past)\<rparr>)"

end
