(* ===== verification/Transcript_Follow.thy ===== *)
theory Transcript_Follow
  imports Transcript_Window
begin

text \<open>
  A reader that follows a transcript by cursor holds the rows a whole read would answer. The
  transcript is a table of messages, each of an id and a sequence of its own, and of parts; the
  live statement answers its newest messages and their parts, past a cursor those of the messages
  written or amended since, and a message amended takes a later sequence.
\<close>

subsection \<open>The newest of a table\<close>

definition newest_by :: "('a \<Rightarrow> int) \<Rightarrow> nat \<Rightarrow> 'a list \<Rightarrow> 'a list" where
  "newest_by seq n xs = take n (sort_key (\<lambda>r. - seq r) xs)"

lemma length_newest [simp]: "length (newest_by seq n xs) = min n (length xs)"
  by (simp add: newest_by_def)

lemma newest_subset: "set (newest_by seq n xs) \<subseteq> set xs"
  by (metis newest_by_def set_sort set_take_subset)

lemma newest_all: "length xs \<le> n \<Longrightarrow> set (newest_by seq n xs) = set xs"
  by (simp add: newest_by_def)

lemma newest_distinct:
  assumes "distinct (map seq xs)"
  shows "distinct (map (\<lambda>r. - seq r) (newest_by seq n xs))" and "sorted (map (\<lambda>r. - seq r) (newest_by seq n xs))"
proof -
  have "map (\<lambda>r. - seq r) xs = map uminus (map seq xs)" by simp
  then have "distinct (map (\<lambda>r. - seq r) xs)" using assms by (simp only: distinct_map) (auto simp: inj_on_def)
  then have "distinct (map (\<lambda>r. - seq r) (sort_key (\<lambda>r. - seq r) xs))"
    by (simp add: distinct_map distinct_sort)
  then show "distinct (map (\<lambda>r. - seq r) (newest_by seq n xs))"
    by (simp add: newest_by_def take_map [symmetric] distinct_take)
  show "sorted (map (\<lambda>r. - seq r) (newest_by seq n xs))"
    by (simp add: newest_by_def take_map [symmetric] sorted_wrt_take)
qed

text \<open>The newest are told by their set.\<close>

lemma newest_eqI:
  assumes "distinct (map seq xs)" "distinct (map seq ys)"
    and same: "set (newest_by seq n xs) = set (newest_by seq n ys)"
  shows "newest_by seq n xs = newest_by seq n ys"
proof (rule map_sorted_distinct_set_unique)
  let ?f = "\<lambda>r. - seq r"
  note X = newest_distinct [OF assms(1), of n] and Y = newest_distinct [OF assms(2), of n]
  show "inj_on ?f (set (newest_by seq n xs) \<union> set (newest_by seq n ys))"
    using X(1) same by (simp add: distinct_map)
  show "sorted (map ?f (newest_by seq n xs))" "distinct (map ?f (newest_by seq n xs))"
    "sorted (map ?f (newest_by seq n ys))" "distinct (map ?f (newest_by seq n ys))"
    using X Y by blast+
qed (rule same)

text \<open>One not among the newest has that many above it.\<close>

lemma above_newest:
  assumes "r \<in> set xs" "r \<notin> set (newest_by seq n xs)"
  shows "length xs > n" and "\<forall>x \<in> set (newest_by seq n xs). seq r \<le> seq x"
proof -
  let ?s = "sort_key (\<lambda>r. - seq r) xs"
  have r: "r \<in> set (drop n ?s)"
    using assms by (metis append_take_drop_id newest_by_def set_append set_sort Un_iff)
  then show "length xs > n" by (metis drop_all empty_iff length_sort list.set(1) not_le)
  have "sorted (map (\<lambda>r. - seq r) (take n ?s @ drop n ?s))"
    by (simp only: append_take_drop_id sorted_sort_key)
  then have "\<forall>x \<in> set (take n ?s). \<forall>y \<in> set (drop n ?s). - seq x \<le> - seq y"
    by (simp only: map_append sorted_append) auto
  with r show "\<forall>x \<in> set (newest_by seq n xs). seq r \<le> seq x" by (auto simp: newest_by_def)
qed

lemma newest_iff:
  assumes "distinct (map seq xs)"
  shows "r \<in> set (newest_by seq n xs) \<longleftrightarrow> r \<in> set xs \<and> card {x \<in> set xs. seq r < seq x} < n"
proof (cases "r \<in> set xs")
  case False
  then show ?thesis using newest_subset by fast
next
  case True
  let ?above = "{x \<in> set xs. seq r < seq x}"
  have inj: "inj_on seq (set xs)" and dist: "distinct xs" using assms by (simp_all add: distinct_map)
  have d: "distinct (newest_by seq n xs)"
    using newest_distinct(1) [OF assms] by (simp add: distinct_map)
  show ?thesis
  proof (cases "r \<in> set (newest_by seq n xs)")
    case in_newest: True
    have "?above \<subseteq> set (newest_by seq n xs)"
      using above_newest(2) in_newest by fastforce
    then have "?above \<subset> set (newest_by seq n xs)" using in_newest by blast
    then have "card ?above < card (set (newest_by seq n xs))" by (simp add: psubset_card_mono)
    also have "\<dots> \<le> n" using d by (simp add: distinct_card)
    finally show ?thesis using True in_newest by simp
  next
    case out: False
    have "set (newest_by seq n xs) \<subseteq> ?above"
    proof
      fix x
      assume x: "x \<in> set (newest_by seq n xs)"
      then have "x \<in> set xs" "x \<noteq> r" using newest_subset out by fast+
      with above_newest(2) [OF True out] x inj True show "x \<in> ?above"
        by (metis (mono_tags, lifting) inj_onD mem_Collect_eq order_le_less)
    qed
    then have "card (set (newest_by seq n xs)) \<le> card ?above" by (simp add: card_mono)
    then have "n \<le> card ?above" using d above_newest(1) [OF True out] by (simp add: distinct_card)
    with out show ?thesis by simp
  qed
qed

subsection \<open>A table amended\<close>

text \<open>
  What becomes of a table of rows between two reads: a row not changed stands, and a changed one
  takes a sequence past the one it had, none the other held.
\<close>

definition amended :: "('a \<Rightarrow> 'i) \<Rightarrow> ('a \<Rightarrow> int) \<Rightarrow> ('i \<Rightarrow> bool) \<Rightarrow> 'a list \<Rightarrow> 'a list \<Rightarrow> bool" where
  "amended ident seq changed old new \<longleftrightarrow>
     distinct (map ident old) \<and> distinct (map ident new) \<and> distinct (map seq old) \<and> distinct (map seq new) \<and>
     list_all (\<lambda>x. list_all (\<lambda>y. seq x = seq y \<longrightarrow> ident x = ident y) new) old \<and>
     list_all (\<lambda>x. if changed (ident x) then list_ex (\<lambda>y. ident y = ident x \<and> seq x \<le> seq y) new
       else x \<in> set new) old \<and>
     list_all (\<lambda>y. changed (ident y) \<or> y \<in> set old) new"

lemma amendedD:
  assumes "amended ident seq changed old new"
  shows "distinct (map ident old)" "distinct (map ident new)" "distinct (map seq old)" "distinct (map seq new)"
    and "x \<in> set old \<Longrightarrow> y \<in> set new \<Longrightarrow> seq x = seq y \<Longrightarrow> ident x = ident y"
    and "x \<in> set old \<Longrightarrow> \<not> changed (ident x) \<Longrightarrow> x \<in> set new"
    and "x \<in> set old \<Longrightarrow> \<exists>y \<in> set new. ident y = ident x \<and> seq x \<le> seq y"
    and "y \<in> set new \<Longrightarrow> \<not> changed (ident y) \<Longrightarrow> y \<in> set old"
proof -
  note A = assms [unfolded amended_def list_all_iff list_ex_iff]
  show "distinct (map ident old)" "distinct (map ident new)" "distinct (map seq old)" "distinct (map seq new)"
    using A by blast+
  show "x \<in> set old \<Longrightarrow> y \<in> set new \<Longrightarrow> seq x = seq y \<Longrightarrow> ident x = ident y" using A by blast
  have old: "if changed (ident x) then \<exists>y \<in> set new. ident y = ident x \<and> seq x \<le> seq y else x \<in> set new"
    if "x \<in> set old" for x
    using A that by blast
  from old [of x] show "x \<in> set old \<Longrightarrow> \<not> changed (ident x) \<Longrightarrow> x \<in> set new" by simp
  from old [of x] show "x \<in> set old \<Longrightarrow> \<exists>y \<in> set new. ident y = ident x \<and> seq x \<le> seq y"
    by (cases "changed (ident x)") auto
  show "y \<in> set new \<Longrightarrow> \<not> changed (ident y) \<Longrightarrow> y \<in> set old" using A by blast
qed

lemma card_above_le:
  assumes "finite S" "inj_on ident S" and moved: "\<And>x. x \<in> S \<Longrightarrow> \<exists>y \<in> set new. ident y = ident x \<and> seq x \<le> seq y"
  shows "card {x \<in> S. m < seq x} \<le> card {y \<in> set new. m < (seq y :: int)}"
proof -
  obtain f where f: "\<And>x. x \<in> S \<Longrightarrow> f x \<in> set new \<and> ident (f x) = ident x \<and> seq x \<le> seq (f x)"
    using moved by metis
  show ?thesis
  proof (rule card_inj_on_le)
    show "inj_on f {x \<in> S. m < seq x}"
      using f assms(2) by (auto simp: inj_on_def) metis
    show "f ` {x \<in> S. m < seq x} \<subseteq> {y \<in> set new. m < seq y}"
      using f by fastforce
  qed simp
qed

lemma newest_changed:
  assumes new: "distinct (map seq new)" and r: "r \<in> set (newest_by seq n new)" "changed (ident r)"
  shows "r \<in> set (newest_by seq n (filter (\<lambda>r. changed (ident r)) new))"
proof -
  have filt: "distinct (map seq (filter (\<lambda>r. changed (ident r)) new))" using new by (rule distinct_map_filter)
  have "card {x \<in> set (filter (\<lambda>r. changed (ident r)) new). seq r < seq x} \<le> card {y \<in> set new. seq r < seq y}"
    by (rule card_mono) auto
  then show ?thesis using r newest_iff [OF new, of r n] newest_iff [OF filt, of r n] by simp
qed

lemma joined_newest:
  fixes seq :: "'a \<Rightarrow> int"
  assumes am: "amended ident seq changed old new"
    and past: "past = newest_by seq n (filter (\<lambda>r. changed (ident r)) new)"
    and J: "J = filter (\<lambda>r. ident r \<notin> ident ` set past) (newest_by seq n old) @ past"
  shows "newest_by seq n J = newest_by seq n new" and "distinct (map ident J)"
proof -
  note A = amendedD [OF am]
  let ?T = "set (newest_by seq n new)"
  have inj: "inj_on ident (set old)" "inj_on ident (set new)" "inj_on seq (set old)" "inj_on seq (set new)"
    and dist: "distinct old" "distinct new"
    using A(1-4) by (simp_all add: distinct_map)
  have past_new: "set past \<subseteq> set new" using newest_subset [of seq n] unfolding past by fastforce
  have filt: "distinct (map seq (filter (\<lambda>r. changed (ident r)) new))"
    using A(4) by (rule distinct_map_filter)
  have held_old: "set (newest_by seq n old) \<subseteq> set old" by (rule newest_subset)
  have dnew: "distinct (newest_by seq n old)" "distinct past"
    using newest_distinct(1) [OF A(3)] newest_distinct(1) [OF filt] by (simp_all add: distinct_map past)
  have dJ: "distinct J" using dnew by (auto simp: J)
  have idJ: "inj_on ident (set J)"
  proof -
    have "inj_on ident (set (filter (\<lambda>r. ident r \<notin> ident ` set past) (newest_by seq n old)))"
      by (rule inj_on_subset [OF inj(1)]) (use held_old in auto)
    moreover have "inj_on ident (set past)" by (rule inj_on_subset [OF inj(2) past_new])
    ultimately show ?thesis unfolding J set_append inj_on_Un by auto
  qed
  with dJ show "distinct (map ident J)" by (simp add: distinct_map)
  have "inj_on seq (set J)"
  proof (rule inj_onI)
    fix x y
    assume xy: "x \<in> set J" "y \<in> set J" "seq x = seq y"
    then have "x \<in> set old \<or> x \<in> set new" "y \<in> set old \<or> y \<in> set new"
      using held_old past_new by (auto simp: J)
    then have "ident x = ident y"
      using inj_onD [OF inj(3) xy(3)] inj_onD [OF inj(4) xy(3)] A(5) [of x y] A(5) [of y x] xy(3) by metis
    with idJ xy show "x = y" by (auto dest: inj_onD)
  qed
  with dJ have seqJ: "distinct (map seq J)" by (simp add: distinct_map)
  have movedJ: "\<exists>y \<in> set new. ident y = ident x \<and> seq x \<le> seq y" if "x \<in> set J" for x
    using that A(7) [of x] held_old past_new by (auto simp: J)
  have T_J: "r \<in> set J" if r: "r \<in> ?T" for r
  proof -
    have new: "r \<in> set new" "card {y \<in> set new. seq r < seq y} < n"
      using r newest_iff [OF A(4)] by simp_all
    show ?thesis
    proof (cases "changed (ident r)")
      case True
      then have "r \<in> set past" unfolding past using newest_changed [OF A(4) r, of changed ident] True by simp
      then show ?thesis by (simp add: J)
    next
      case False
      have "card {x \<in> set old. seq r < seq x} \<le> card {y \<in> set new. seq r < seq y}"
        by (rule card_above_le [OF _ inj(1) A(7)]) simp_all
      then have "r \<in> set (newest_by seq n old)"
        unfolding newest_iff [OF A(3)] using new A(8) False by auto
      moreover have "ident r \<notin> ident ` set past"
        using False newest_subset [of seq n "filter (\<lambda>r. changed (ident r)) new"] by (auto simp: past)
      ultimately show ?thesis by (simp add: J)
    qed
  qed
  have T_top: "?T \<subseteq> set (newest_by seq n J)"
  proof
    fix r
    assume r: "r \<in> ?T"
    have "card {x \<in> set J. seq r < seq x} \<le> card {y \<in> set new. seq r < seq y}"
      by (rule card_above_le [OF _ idJ movedJ]) simp_all
    with T_J [OF r] r show "r \<in> set (newest_by seq n J)"
      unfolding newest_iff [OF seqJ] newest_iff [OF A(4)] by simp
  qed
  have "set (newest_by seq n J) = ?T"
  proof (cases "n \<le> length new")
    case True
    have "distinct (newest_by seq n new)" using newest_distinct(1) [OF A(4)] by (simp add: distinct_map)
    then have "card ?T = n" using True by (simp add: distinct_card)
    moreover have "card (set (newest_by seq n J)) \<le> n" using card_length [of "newest_by seq n J"] by simp
    ultimately show ?thesis using T_top by (intro card_seteq [symmetric]) simp_all
  next
    case False
    then have T: "?T = set new" by (simp add: newest_all)
    have all: "set past = set (filter (\<lambda>r. changed (ident r)) new)"
      unfolding past
      using False length_filter_le [of "\<lambda>r. changed (ident r)" new] by (intro newest_all) linarith
    have "x \<in> set new" if "x \<in> set J" for x
    proof (cases "changed (ident x) \<and> x \<notin> set past")
      case True
      from movedJ [OF that] obtain y where "y \<in> set new" "ident y = ident x" by blast
      with True have "y \<in> set past" unfolding all by simp
      then have "ident x \<in> ident ` set past" using \<open>ident y = ident x\<close> by (metis image_eqI)
      with that True show ?thesis by (simp add: J)
    next
      case False
      with that past_new held_old A(6) show ?thesis by (auto simp: J)
    qed
    with T T_top newest_subset [of seq n J] show ?thesis by blast
  qed
  then show "newest_by seq n J = newest_by seq n new" by (rule newest_eqI [OF seqJ A(4)])
qed

subsection \<open>The follower\<close>

text \<open>What the service's live statement answers of a table: its newest messages and their parts.\<close>

definition whole_answer :: "'j window_row list \<Rightarrow> 'j part_row list \<Rightarrow> 'j window_rows" where
  "whole_answer rows parts =
     (let win = newest_by row_seq transcript_window rows
      in \<lparr>window = win, window_parts = filter (\<lambda>p. message_id p \<in> row_id ` set win) parts\<rparr>)"

lemma window_messages_cong:
  assumes "\<And>i. i \<in> row_id ` set rows \<Longrightarrow> parts_of ps i = parts_of qs i"
  shows "window_messages_of channel usage rows ps = window_messages_of channel usage rows qs"
proof -
  have "set (sorted_by row_seq rows) = set rows" by (simp add: sorted_by_def)
  with assms show ?thesis
    unfolding window_messages_of_def by (intro arg_cong [where f = concat] map_cong refl) auto
qed

lemma parts_of_append [simp]: "parts_of (ps @ qs) i = parts_of ps i @ parts_of qs i"
  by (simp add: parts_of_def)

lemma parts_of_filter: "P i \<Longrightarrow> parts_of (filter (\<lambda>p. P (message_id p)) ps) i = parts_of ps i"
  "\<not> P i \<Longrightarrow> parts_of (filter (\<lambda>p. P (message_id p)) ps) i = []"
  unfolding parts_of_def filter_filter
  by (rule filter_cong, simp, fastforce) (auto simp: filter_empty_conv)

text \<open>The parts drawn of one message: those read past the cursor where it was, those held where not.\<close>

lemma followed_parts:
  fixes new old :: "'j window_row list"
  assumes am: "amended row_id row_seq changed old new"
    and same: "\<forall>i. \<not> changed i \<longrightarrow> parts_of parts0 i = parts_of parts1 i"
    and past: "past = newest_by row_seq n (filter (\<lambda>r. changed (row_id r)) new)"
    and i: "i \<in> row_id ` set (newest_by row_seq n new)"
  shows "parts_of (filter (\<lambda>p. message_id p \<notin> row_id ` set past)
      (filter (\<lambda>p. message_id p \<in> row_id ` set (newest_by row_seq n old)) parts0)) i @
    parts_of (filter (\<lambda>p. message_id p \<in> row_id ` set past) parts1) i = parts_of parts1 i"
proof (cases "i \<in> row_id ` set past")
  case True
  then have "parts_of (filter (\<lambda>p. message_id p \<notin> row_id ` set past) ps) i = []" for ps
    by (intro parts_of_filter(2)) simp
  with True parts_of_filter(1) [of "\<lambda>i. i \<in> row_id ` set past" i parts1] show ?thesis by (simp del: filter_filter)
next
  case False
  let ?J = "filter (\<lambda>r. row_id r \<notin> row_id ` set past) (newest_by row_seq n old) @ past"
  have "set (newest_by row_seq n new) \<subseteq> set ?J"
    using joined_newest(1) [OF am past refl] newest_subset [of row_seq n ?J] by simp
  then obtain r where r: "r \<in> set (newest_by row_seq n new)" "row_id r = i" "r \<in> set ?J" using i by blast
  then have held: "i \<in> row_id ` set (newest_by row_seq n old)" and "r \<notin> set past" using False by auto
  then have "\<not> changed i"
    using newest_changed [OF amendedD(4) [OF am] r(1), of changed row_id] r(2) past by auto
  then have "parts_of parts0 i = parts_of parts1 i" using same by blast
  then show ?thesis
    by (simp only: append_Nil2 parts_of_filter(2) [of "\<lambda>i. i \<in> row_id ` set past" i, OF False]
        parts_of_filter(1) [of "\<lambda>i. i \<notin> row_id ` set past" i, OF False]
        parts_of_filter(1) [of "\<lambda>i. i \<in> row_id ` set (newest_by row_seq n old)" i, OF held])
qed

text \<open>
  C37: A reader that joins each answer past its cursor onto the rows it holds holds the newest
  hundred messages and draws exactly what a whole read of the transcript would draw, whatever
  messages were written or amended in between and however many.
\<close>

theorem follower_draws_whole_read:
  assumes "amended row_id row_seq changed old new"
    and "\<forall>i. \<not> changed i \<longrightarrow> parts_of parts0 i = parts_of parts1 i"
    and "joined = joined_window_rows (whole_answer old parts0)
      (whole_answer (filter (\<lambda>r. changed (row_id r)) new) parts1)"
  shows "window joined = window (whole_answer new parts1) \<and>
    window_messages_of channel usage (window joined) (window_parts joined) =
    window_messages_of channel usage (window (whole_answer new parts1)) (window_parts (whole_answer new parts1))"
proof -
  let ?held = "newest_by row_seq transcript_window old"
  let ?past = "newest_by row_seq transcript_window (filter (\<lambda>r. changed (row_id r)) new)"
  let ?J = "filter (\<lambda>r. row_id r \<notin> row_id ` set ?past) ?held @ ?past"
  let ?win = "newest_by row_seq transcript_window new"
  have win: "window joined = ?win"
    using joined_newest(1) [OF assms(1) refl refl, of transcript_window]
    by (simp add: assms(3) joined_window_rows_def whole_answer_def Let_def sorted_by_def
        newest_by_def [of row_seq transcript_window ?J])
  let ?held_parts = "filter (\<lambda>p. message_id p \<in> row_id ` set ?held) parts0"
  let ?past_parts = "filter (\<lambda>p. message_id p \<in> row_id ` set ?past) parts1"
  have answered: "row_id ` set ?past \<union> message_id ` set ?past_parts = row_id ` set ?past" by auto
  have "window_parts joined = filter (\<lambda>p. message_id p \<in> row_id ` set (window joined))
      (filter (\<lambda>p. message_id p \<notin> row_id ` set ?past \<union> message_id ` set ?past_parts) ?held_parts @ ?past_parts)"
    by (simp add: assms(3) joined_window_rows_def whole_answer_def Let_def)
  then have parts: "window_parts joined = filter (\<lambda>p. message_id p \<in> row_id ` set ?win)
      (filter (\<lambda>p. message_id p \<notin> row_id ` set ?past) ?held_parts @ ?past_parts)"
    unfolding win answered .
  have "parts_of (window_parts joined) i = parts_of (window_parts (whole_answer new parts1)) i"
    if i: "i \<in> row_id ` set ?win" for i
    using followed_parts [OF assms(1,2) refl i]
    by (simp only: parts parts_of_append parts_of_filter(1) [of "\<lambda>i. i \<in> row_id ` set ?win" i, OF i]
        whole_answer_def Let_def window_rows.simps)
  then have "window_messages_of channel usage ?win (window_parts joined) =
      window_messages_of channel usage ?win (window_parts (whole_answer new parts1))"
    by (rule window_messages_cong)
  with win show ?thesis by (simp add: whole_answer_def Let_def)
qed

definition demo_row :: "string \<Rightarrow> int \<Rightarrow> nat \<Rightarrow> string window_row" where
  "demo_row i at parts = \<lparr>row_id = i, row_seq = at, client_id = i, row_role = Assistant, part_count = parts,
     row_metadata = None, placed_at = at, row_finished_at = None, sender = None, sender_name = None,
     sender_model = None, member_id = None, member_name = None, sender_agent_id = None, automation_id = None,
     journal_id = None, after_step = None, turn_started_at = None, row_turn_status = None, turn_model = None,
     turn_effort = None, turn_usage = None, turn_failure = None, turn_fast_refused = None\<rparr>"

definition demo_part :: "string \<Rightarrow> int \<Rightarrow> string \<Rightarrow> string part_row" where
  "demo_part i at p = \<lparr>message_id = i, part_index = at, part = p, cut_in = None, cut_bytes = None,
     cut_head = None, cut_tail = None\<rparr>"

text \<open>One message grows a part and another is written, read past the cursor.\<close>

theorem follower_draws_whole_read_witness:
  "let old = [demo_row ''a'' 1 1, demo_row ''b'' 2 1]; new = [demo_row ''a'' 3 2, demo_row ''b'' 2 1, demo_row ''c'' 4 0];
       parts0 = [demo_part ''a'' 0 ''x'', demo_part ''b'' 0 ''y''];
       parts1 = [demo_part ''a'' 1 ''z'', demo_part ''a'' 0 ''x'', demo_part ''b'' 0 ''y''];
       joined = joined_window_rows (whole_answer old parts0)
         (whole_answer (filter (\<lambda>r. row_id r \<noteq> ''b'') new) parts1)
   in map msg_parts (window_messages_of (\<lambda>_. None) (\<lambda>_. None) (window joined) (window_parts joined))
     = [[''y''], [''x'', ''z''], []]"
proof -
  let ?old = "[demo_row ''a'' 1 1, demo_row ''b'' 2 1]"
  let ?new = "[demo_row ''a'' 3 2, demo_row ''b'' 2 1, demo_row ''c'' 4 0]"
  let ?parts0 = "[demo_part ''a'' 0 ''x'', demo_part ''b'' 0 ''y'']"
  let ?parts1 = "[demo_part ''a'' 1 ''z'', demo_part ''a'' 0 ''x'', demo_part ''b'' 0 ''y'']"
  have am: "amended row_id row_seq (\<lambda>i. i \<noteq> ''b'') ?old ?new" by code_simp
  have parts: "\<forall>i. \<not> i \<noteq> ''b'' \<longrightarrow> parts_of ?parts0 i = parts_of ?parts1 i"
    by (simp add: parts_of_def demo_part_def)
  have whole: "map msg_parts (window_messages_of (\<lambda>_. None) (\<lambda>_. None) (window (whole_answer ?new ?parts1))
      (window_parts (whole_answer ?new ?parts1))) = [[''y''], [''x'', ''z''], []]" by code_simp
  note drawn = follower_draws_whole_read [OF am parts refl, of "\<lambda>_. None" "\<lambda>_. None"]
  show ?thesis unfolding Let_def conjunct2 [OF drawn] by (rule whole)
qed

end
