(* ===== verification/Tab_Strip.thy ===== *)
theory Tab_Strip
  imports Prelude
begin

text \<open>
  \<open>packages/ui/src/tab-strip-model.ts\<close>: what a tab of a strip is, when two are the same tab, and how
  a strip orders, remembers, and replaces its tabs. A tab is a datatype with one constructor per
  kind, as the source's union has them. A key the source mints for a tab (\<open>crypto.randomUUID\<close>) is
  handed over by the caller, used where the tab has none yet.
\<close>

subsection \<open>Tabs\<close>

datatype strip_tab =
    Word string
  | Agent_Tab string
  | Transcript_Tab string
  | Draft_Tab string
  | Subagent_Tab string "(string \<times> string) option" \<comment> \<open>the delegation's agent and task\<close>
  | File_Tab string
  | Changes_Tab string "int option"
  | Terminal_Tab string string string
  | Local_Tab string string string
  | Page_Tab string
  | Cloud_Browser_Tab string

datatype strip_tab_kind =
    Word_Kind | Agent_Kind | Transcript_Kind | Draft_Kind | Subagent_Kind | File_Kind | Changes_Kind
  | Terminal_Kind | Local_Kind | Page_Kind | Cloud_Browser_Kind

fun kind_of_tab :: "strip_tab \<Rightarrow> strip_tab_kind" where
  "kind_of_tab (Word _) = Word_Kind"
| "kind_of_tab (Agent_Tab _) = Agent_Kind"
| "kind_of_tab (Transcript_Tab _) = Transcript_Kind"
| "kind_of_tab (Draft_Tab _) = Draft_Kind"
| "kind_of_tab (Subagent_Tab _ _) = Subagent_Kind"
| "kind_of_tab (File_Tab _) = File_Kind"
| "kind_of_tab (Changes_Tab _ _) = Changes_Kind"
| "kind_of_tab (Terminal_Tab _ _ _) = Terminal_Kind"
| "kind_of_tab (Local_Tab _ _ _) = Local_Kind"
| "kind_of_tab (Page_Tab _) = Page_Kind"
| "kind_of_tab (Cloud_Browser_Tab _) = Cloud_Browser_Kind"

text \<open>The object kinds, by the field that names each, in the order the source lists them.\<close>

definition object_kinds :: "(strip_tab_kind \<times> string) list" where
  "object_kinds = [(Agent_Kind, ''agent''), (Transcript_Kind, ''transcript''), (Draft_Kind, ''draft''),
     (Subagent_Kind, ''subagent''), (File_Kind, ''file''), (Changes_Kind, ''changes''),
     (Terminal_Kind, ''terminal''), (Local_Kind, ''local''), (Page_Kind, ''page''),
     (Cloud_Browser_Kind, ''cloudBrowser'')]"

text \<open>A tab kept before tabs carried their kind: a word, or an object by its fields' names.\<close>

datatype untagged_tab = Kept_Word string | Kept_Fields "string list"

definition tagged_kind :: "untagged_tab \<Rightarrow> strip_tab_kind option" where
  "tagged_kind held = (case held of
     Kept_Word _ \<Rightarrow> Some Word_Kind
   | Kept_Fields fields \<Rightarrow> map_option fst (List.find (\<lambda>(_, field). field \<in> set fields) object_kinds))"

fun untagged :: "strip_tab \<Rightarrow> untagged_tab" where
  "untagged (Word w) = Kept_Word w"
| "untagged (Agent_Tab _) = Kept_Fields [''agent'']"
| "untagged (Transcript_Tab _) = Kept_Fields [''transcript'']"
| "untagged (Draft_Tab _) = Kept_Fields [''draft'']"
| "untagged (Subagent_Tab _ d) = Kept_Fields (''subagent'' # (if d = None then [] else [''delegation'']))"
| "untagged (File_Tab _) = Kept_Fields [''file'']"
| "untagged (Changes_Tab _ n) = Kept_Fields (''changes'' # (if n = None then [] else [''number'']))"
| "untagged (Terminal_Tab _ _ _) = Kept_Fields [''terminal'', ''shell'', ''title'']"
| "untagged (Local_Tab _ _ _) = Kept_Fields [''local'', ''shell'', ''title'']"
| "untagged (Page_Tab _) = Kept_Fields [''page'']"
| "untagged (Cloud_Browser_Tab _) = Kept_Fields [''cloudBrowser'']"

definition followed_agent :: "strip_tab option \<Rightarrow> bool \<Rightarrow> bool \<Rightarrow> string option" where
  "followed_agent tab is_shown covered =
     (if is_shown \<and> \<not> covered then (case tab of Some (Agent_Tab a) \<Rightarrow> Some a | _ \<Rightarrow> None) else None)"

text \<open>\<open>TAB_IDENTITY\<close>, kind by kind: when two tabs are one, and whose own the tab is.\<close>

fun same_of_kind :: "strip_tab \<Rightarrow> strip_tab \<Rightarrow> bool" where
  "same_of_kind (Word a) t = (case t of Word b \<Rightarrow> a = b | _ \<Rightarrow> False)"
| "same_of_kind (Agent_Tab a) t = (case t of Agent_Tab b \<Rightarrow> a = b | _ \<Rightarrow> False)"
| "same_of_kind (Transcript_Tab a) t = (case t of Transcript_Tab b \<Rightarrow> a = b | _ \<Rightarrow> False)"
| "same_of_kind (Draft_Tab a) t = (case t of Draft_Tab b \<Rightarrow> a = b | _ \<Rightarrow> False)"
| "same_of_kind (Subagent_Tab a d) t = (case t of
     Subagent_Tab b e \<Rightarrow> a = b \<and> map_option fst d = map_option fst e | _ \<Rightarrow> False)"
| "same_of_kind (File_Tab a) t = (case t of File_Tab b \<Rightarrow> a = b | _ \<Rightarrow> False)"
| "same_of_kind (Changes_Tab a m) t = (case t of Changes_Tab b n \<Rightarrow> a = b \<and> m = n | _ \<Rightarrow> False)"
| "same_of_kind (Terminal_Tab a s _) t = (case t of Terminal_Tab b s' _ \<Rightarrow> a = b \<and> s = s' | _ \<Rightarrow> False)"
| "same_of_kind (Local_Tab a s _) t = (case t of Local_Tab b s' _ \<Rightarrow> a = b \<and> s = s' | _ \<Rightarrow> False)"
| "same_of_kind (Page_Tab a) t = (case t of Page_Tab b \<Rightarrow> a = b | _ \<Rightarrow> False)"
| "same_of_kind (Cloud_Browser_Tab a) t = (case t of Cloud_Browser_Tab b \<Rightarrow> a = b | _ \<Rightarrow> False)"

fun agent_of_tab :: "strip_tab option \<Rightarrow> string option" where
  "agent_of_tab (Some (Agent_Tab a)) = Some a"
| "agent_of_tab (Some (Changes_Tab a _)) = Some a"
| "agent_of_tab (Some (Terminal_Tab a _ _)) = Some a"
| "agent_of_tab (Some (Local_Tab a _ _)) = Some a"
| "agent_of_tab _ = None"

text \<open>\<open>sameTab\<close> of two tabs; of no tab it is false.\<close>

definition same_tab :: "strip_tab \<Rightarrow> strip_tab \<Rightarrow> bool" where
  "same_tab a b \<longleftrightarrow> kind_of_tab a = kind_of_tab b \<and> same_of_kind a b"

definition same_tab_opt :: "strip_tab option \<Rightarrow> strip_tab option \<Rightarrow> bool" where
  "same_tab_opt a b \<longleftrightarrow> (case (a, b) of (Some x, Some y) \<Rightarrow> same_tab x y | _ \<Rightarrow> False)"

text \<open>The keys made so far, by agent and by agent and number, and a tab's key, made where it has none.\<close>

record tab_keys =
  transcript_keys :: "(string, string) js_map"
  numbered_keys :: "(string \<times> int, string) js_map"

definition transcript_key :: "string \<Rightarrow> string \<Rightarrow> tab_keys \<Rightarrow> string \<times> tab_keys" where
  "transcript_key made agent ks = (case map_of (transcript_keys ks) agent of
     Some held \<Rightarrow> (held, ks)
   | None \<Rightarrow> (made, ks\<lparr>transcript_keys := AList.update agent made (transcript_keys ks)\<rparr>))"

definition numbered_key :: "string \<Rightarrow> string \<Rightarrow> int \<Rightarrow> tab_keys \<Rightarrow> string \<times> tab_keys" where
  "numbered_key made agent n ks = (case map_of (numbered_keys ks) (agent, n) of
     Some held \<Rightarrow> (held, ks)
   | None \<Rightarrow> (made, ks\<lparr>numbered_keys := AList.update (agent, n) made (numbered_keys ks)\<rparr>))"

fun tab_key :: "string \<Rightarrow> strip_tab \<Rightarrow> tab_keys \<Rightarrow> string \<times> tab_keys" where
  "tab_key made (Word w) ks = (w, ks)"
| "tab_key made (Agent_Tab a) ks = (a, ks)"
| "tab_key made (Transcript_Tab a) ks = transcript_key made a ks"
| "tab_key made (Draft_Tab d) ks = (d, ks)"
| "tab_key made (Subagent_Tab s _) ks = (s, ks)"
| "tab_key made (File_Tab f) ks = (f, ks)"
| "tab_key made (Changes_Tab a n) ks = (case n of None \<Rightarrow> (a, ks) | Some k \<Rightarrow> numbered_key made a k ks)"
| "tab_key made (Terminal_Tab _ s _) ks = (s, ks)"
| "tab_key made (Local_Tab _ s _) ks = (s, ks)"
| "tab_key made (Page_Tab p) ks = (p, ks)"
| "tab_key made (Cloud_Browser_Tab b) ks = (b, ks)"

subsection \<open>The order\<close>

definition in_task_order :: "('a \<Rightarrow> strip_tab) \<Rightarrow> 'a list \<Rightarrow> strip_tab list \<Rightarrow> 'a list" where
  "in_task_order tab_of drawn order =
     (let placed = concat (map (\<lambda>tab. filter (\<lambda>each. same_tab (tab_of each) tab) drawn) order)
      in placed @ filter (\<lambda>each. each \<notin> set placed) drawn)"

definition whole_order :: "strip_tab list \<Rightarrow> strip_tab list \<Rightarrow> strip_tab list" where
  "whole_order was strip = was @ filter (\<lambda>each. \<not> list_ex (\<lambda>other. same_tab other each) was) strip"

definition opened_order :: "strip_tab list \<Rightarrow> strip_tab list \<Rightarrow> strip_tab \<Rightarrow> strip_tab list option" where
  "opened_order was strip tab =
     (if list_ex (\<lambda>other. same_tab other tab) strip then None
      else Some (filter (\<lambda>other. \<not> same_tab other tab) (whole_order was strip) @ [tab]))"

definition moved_order ::
  "strip_tab list \<Rightarrow> strip_tab list \<Rightarrow> strip_tab \<Rightarrow> int \<Rightarrow> strip_tab list option" where
  "moved_order was strip tab to =
     (let all = whole_order was strip
      in case (find_index (\<lambda>other. same_tab other tab) strip, List.find (\<lambda>other. same_tab other tab) all) of
          (Some at, Some own) \<Rightarrow>
            if to = int at then None
            else (let before = nth_opt (filter (\<lambda>other. \<not> same_tab other tab) strip) (max 0 to);
                      rest = filter (\<lambda>other. \<not> same_tab other tab) all;
                      place = (case before of None \<Rightarrow> None
                        | Some b \<Rightarrow> find_index (\<lambda>other. same_tab other b) rest)
              in Some (case place of
                  None \<Rightarrow> rest @ [own]
                | Some p \<Rightarrow> take p rest @ [own] @ drop p rest))
        | _ \<Rightarrow> None)"

subsection \<open>The tabs viewed\<close>

text \<open>\<open>slice(-kept)\<close>: the last so many, and the whole list for none, as \<open>-0\<close> is \<open>0\<close>.\<close>

definition last_few :: "nat \<Rightarrow> 'a list \<Rightarrow> 'a list" where
  "last_few kept xs = (if kept = 0 then xs else drop (length xs - kept) xs)"

definition viewed_last :: "strip_tab list \<Rightarrow> strip_tab list \<Rightarrow> nat \<Rightarrow> strip_tab list option" where
  "viewed_last before viewed kept =
     (let others = filter (\<lambda>each. \<not> list_ex (\<lambda>tab. same_tab tab each) viewed) before;
          recent = last_few kept (others @ viewed)
      in if length recent = length before \<and> list_all2 same_tab recent before then None else Some recent)"

definition replacement_of ::
  "strip_tab list \<Rightarrow> strip_tab list \<Rightarrow> strip_tab list \<Rightarrow> strip_tab \<Rightarrow> strip_tab option" where
  "replacement_of standing recent strip tab =
     (case find_last (\<lambda>each. list_ex (\<lambda>other. same_tab other each) standing) recent of
        Some viewed \<Rightarrow> Some viewed
      | None \<Rightarrow> (let place = (case find_index (\<lambda>other. same_tab other tab) strip of
            None \<Rightarrow> -1 | Some p \<Rightarrow> int p)
          in case nth_opt strip (place + 1) of
              Some after \<Rightarrow> Some after
            | None \<Rightarrow> nth_opt strip (place - 1)))"

type_synonym viewed_at = "strip_tab \<times> int"

definition viewed_at_of :: "viewed_at list \<Rightarrow> strip_tab \<Rightarrow> int option" where
  "viewed_at_of stamps tab = map_option snd (List.find (\<lambda>each. same_tab (fst each) tab) stamps)"

definition stamped_viewed ::
  "viewed_at list \<Rightarrow> strip_tab list \<Rightarrow> strip_tab list \<Rightarrow> int \<Rightarrow> nat \<Rightarrow> viewed_at list option" where
  "stamped_viewed before viewed standing at kept =
     (let unstamped = filter (\<lambda>tab. viewed_at_of before tab = None) standing;
          asked = viewed @ unstamped;
          fresh = map snd (filter (\<lambda>(place, tab). viewed_at_of before tab \<noteq> Some at
            \<and> find_index (\<lambda>other. same_tab other tab) asked = Some place) (enumerate 0 asked))
      in if fresh = [] then None
         else (let others = filter (\<lambda>each. \<not> list_ex (\<lambda>tab. same_tab tab (fst each)) fresh) before;
                   all = others @ map (\<lambda>tab. (tab, at)) fresh;
                   placed = enumerate 0 all;
                   loose = take (length all - kept)
                     (filter (\<lambda>(_, each). \<not> list_ex (\<lambda>tab. same_tab tab (fst each)) standing) placed)
           in Some (map snd (filter (\<lambda>p. p \<notin> set loose) placed))))"

definition without_viewed_at :: "viewed_at list \<Rightarrow> strip_tab \<Rightarrow> viewed_at list" where
  "without_viewed_at stamps tab =
     (if list_ex (\<lambda>each. same_tab (fst each) tab) stamps
      then filter (\<lambda>each. \<not> same_tab (fst each) tab) stamps else stamps)"

definition idle_tabs ::
  "strip_tab list \<Rightarrow> viewed_at list \<Rightarrow> int \<Rightarrow> int \<Rightarrow> (strip_tab \<Rightarrow> bool) \<Rightarrow> strip_tab list" where
  "idle_tabs strip stamps t idle keeps =
     rev (filter (\<lambda>tab. case viewed_at_of stamps tab of
         None \<Rightarrow> False | Some at \<Rightarrow> t - at \<ge> idle \<and> \<not> keeps tab) strip)"

end
