(* ===== verification/Tab_Strip_Properties.thy ===== *)
theory Tab_Strip_Properties
  imports Tab_Strip
begin

text \<open>
  What a strip's two lists keep. \<open>same_tab\<close> is an equivalence finer than no kind's own reading, and
  every list of a strip is changed by it alone, so the facts about lists taken by such a sameness
  (an element's projection onto the drawn run, an element taken out, its place) are proved once in
  a locale and interpreted on \<open>same_tab\<close>.
\<close>

subsection \<open>Lists taken up to a sameness\<close>

locale sameness =
  fixes same :: "'a \<Rightarrow> 'a \<Rightarrow> bool"
  assumes same_refl [simp]: "same a a"
    and same_sym: "same a b \<Longrightarrow> same b a"
    and same_trans: "same a b \<Longrightarrow> same b c \<Longrightarrow> same a c"
begin

lemma same_swap: "same a b \<longleftrightarrow> same b a"
  using same_sym by blast

lemma same_cong: "same a b \<Longrightarrow> same c a \<longleftrightarrow> same c b"
  using same_sym same_trans by blast

text \<open>No two of a list are the same.\<close>

definition apart :: "'a list \<Rightarrow> bool" where
  "apart xs \<longleftrightarrow> distinct xs \<and> (\<forall>x \<in> set xs. \<forall>y \<in> set xs. same x y \<longrightarrow> x = y)"

lemma apart_Cons: "apart (x # xs) \<longleftrightarrow> (\<forall>y \<in> set xs. \<not> same x y) \<and> apart xs"
  unfolding apart_def by (auto dest: same_sym)

lemma apart_append: "apart (xs @ ys) \<longleftrightarrow> apart xs \<and> apart ys \<and> (\<forall>x \<in> set xs. \<forall>y \<in> set ys. \<not> same x y)"
  by (induction xs) (auto simp: apart_Cons, auto simp: apart_def)

lemma apart_filter: "apart xs \<Longrightarrow> apart (filter P xs)"
  by (auto simp: apart_def)

lemma filter_same_apart:
  "apart xs \<Longrightarrow> x \<in> set xs \<Longrightarrow> same x t \<Longrightarrow> filter (\<lambda>e. same e t) xs = [x]"
proof (induction xs)
  case (Cons y ys)
  show ?case
  proof (cases "x = y")
    case True
    have "\<not> same e t" if "e \<in> set ys" for e
      using Cons.prems that True same_sym same_trans by (metis apart_Cons)
    then have "filter (\<lambda>e. same e t) ys = []" by (simp add: filter_empty_conv)
    with True Cons.prems(3) show ?thesis by simp
  next
    case False
    with Cons.prems have "\<not> same y t" using same_sym same_trans by (metis apart_Cons set_ConsD)
    with Cons False show ?thesis by (simp add: apart_Cons)
  qed
qed simp

text \<open>Each of an order's elements as the drawn run has it: \<open>placed\<close> of the source.\<close>

definition drawn_as :: "'a list \<Rightarrow> 'a list \<Rightarrow> 'a list" where
  "drawn_as drawn order = concat (map (\<lambda>t. filter (\<lambda>e. same e t) drawn) order)"

lemma drawn_as_append [simp]: "drawn_as drawn (xs @ ys) = drawn_as drawn xs @ drawn_as drawn ys"
  by (simp add: drawn_as_def)

lemma drawn_as_Nil [simp]: "drawn_as drawn [] = []"
  by (simp add: drawn_as_def)

lemma drawn_as_Cons: "drawn_as drawn (t # order) = filter (\<lambda>e. same e t) drawn @ drawn_as drawn order"
  by (simp add: drawn_as_def)

lemma set_drawn_as: "set (drawn_as drawn order) = {e \<in> set drawn. \<exists>t \<in> set order. same e t}"
  by (auto simp: drawn_as_def)

text \<open>An element taken out of the order is taken out of the run.\<close>

lemma drawn_as_without:
  "drawn_as drawn (filter (\<lambda>o'. \<not> same o' t) order) = filter (\<lambda>e. \<not> same e t) (drawn_as drawn order)"
proof (induction order)
  case (Cons x xs)
  show ?case
  proof (cases "same x t")
    case True
    then have "filter (\<lambda>e. \<not> same e t) (filter (\<lambda>e. same e x) drawn) = []"
      by (auto simp: filter_empty_conv dest: same_trans)
    with True Cons show ?thesis by (simp add: drawn_as_Cons)
  next
    case False
    then have "same e x \<Longrightarrow> \<not> same e t" for e using same_sym same_trans by metis
    then have "filter (\<lambda>e. \<not> same e t) (filter (\<lambda>e. same e x) drawn) = filter (\<lambda>e. same e x) drawn"
      unfolding filter_id_conv by simp
    with False Cons show ?thesis by (simp add: drawn_as_Cons)
  qed
qed simp

text \<open>A part of an apart run draws itself.\<close>

lemma drawn_as_self: "apart drawn \<Longrightarrow> set xs \<subseteq> set drawn \<Longrightarrow> drawn_as drawn xs = xs"
  by (induction xs) (auto simp: drawn_as_Cons filter_same_apart)

text \<open>What stands in a run alone is what the order leaves out.\<close>

lemma drawn_as_more:
  assumes "\<forall>t \<in> set order. \<not> same x t"
  shows "drawn_as (drawn @ [x]) order = drawn_as drawn order"
  using assms same_swap by (induction order) (auto simp: drawn_as_Cons)

text \<open>An element put before the first that is the same as another lands before it in the run.\<close>

lemma place_in_run:
  assumes "apart run" and p: "find_index (\<lambda>o'. same o' b) order = Some p"
    and run: "drawn_as drawn order = run" and b: "n < length run" "run ! n = b"
  shows "drawn_as drawn (take p order) = take n run" and "drawn_as drawn (drop p order) = drop n run"
proof -
  have split: "drawn_as drawn (take p order) @ drawn_as drawn (drop p order) = run"
    using run by (metis append_take_drop_id drawn_as_append)
  have before: "\<not> same o' b" if "o' \<in> set (take p order)" for o'
    using find_index_Some [OF p] that by (auto simp: in_set_conv_nth)
  have at: "same (order ! p) b" "p < length order" using find_index_Some [OF p] by simp_all
  have none: "b \<notin> set (drawn_as drawn (take p order))"
    using before same_sym by (auto simp: set_drawn_as)
  have drop: "drop p order = order ! p # drop (Suc p) order" using at(2) by (simp add: Cons_nth_drop_Suc)
  have "b \<in> set run" using b by auto
  then have "b \<in> set drawn" using run by (auto simp: set_drawn_as)
  have inrun: "set (filter (\<lambda>e. same e (order ! p)) drawn) \<subseteq> set run"
    using at(2) by (auto simp: run [symmetric] set_drawn_as)
  have "e = b" if e: "e \<in> set (filter (\<lambda>e. same e (order ! p)) drawn)" for e
  proof -
    have "e \<in> set run" using e inrun by blast
    moreover have "same e b" using e at(1) same_trans by auto
    ultimately show ?thesis using \<open>b \<in> set run\<close> assms(1) by (auto simp: apart_def)
  qed
  moreover have "filter (\<lambda>e. same e (order ! p)) drawn \<noteq> []"
    using \<open>b \<in> set drawn\<close> at(1) same_sym by (auto simp: filter_empty_conv)
  ultimately obtain rest where rest: "drawn_as drawn (drop p order) = b # rest"
    unfolding drop drawn_as_Cons by (cases "filter (\<lambda>e. same e (order ! p)) drawn") auto
  let ?pre = "drawn_as drawn (take p order)"
  have run': "run = ?pre @ b # rest" using split rest by simp
  have "distinct run" using assms(1) by (simp add: apart_def)
  moreover have "run ! length ?pre = b" "length ?pre < length run" using run' by (metis nth_append_length, simp)
  ultimately have "length ?pre = n" using b nth_eq_iff_index_eq [of run "length ?pre" n] by simp
  with split show "?pre = take n run" "drawn_as drawn (drop p order) = drop n run"
    by (metis append_eq_conv_conj)+
qed

end

subsection \<open>Two tabs the same\<close>

lemma same_of_kind_word:
  "same_tab a b \<longleftrightarrow> same_of_kind a b"
  by (cases a; cases b) (simp_all add: same_tab_def)

interpretation tabs: sameness same_tab
proof
  show "same_tab a a" for a by (cases a) (simp_all add: same_of_kind_word)
  show "same_tab b a" if "same_tab a b" for a b
    using that by (cases a; cases b) (simp_all add: same_of_kind_word)
  show "same_tab a c" if "same_tab a b" "same_tab b c" for a b c
    using that by (cases a; cases b; cases c) (simp_all add: same_of_kind_word)
qed

lemma in_task_order_drawn:
  "in_task_order (\<lambda>t. t) drawn order =
    tabs.drawn_as drawn order @ filter (\<lambda>e. \<not> (\<exists>t \<in> set order. same_tab e t)) drawn"
  unfolding in_task_order_def Let_def tabs.drawn_as_def [symmetric]
  by (auto simp: tabs.set_drawn_as intro!: filter_cong)

lemma in_task_order_whole:
  assumes "tabs.drawn_as drawn order = run" "set run = set drawn"
  shows "in_task_order (\<lambda>t. t) drawn order = run"
proof -
  have "\<exists>t \<in> set order. same_tab e t" if "e \<in> set drawn" for e
  proof -
    have "e \<in> set (tabs.drawn_as drawn order)" using that assms by simp
    then show ?thesis by (simp add: tabs.set_drawn_as)
  qed
  then show ?thesis using assms(1) by (simp add: in_task_order_drawn filter_empty_conv)
qed

text \<open>The order written whole draws the strip as it is drawn.\<close>

lemma whole_order_draws:
  assumes "tabs.apart strip" "in_task_order (\<lambda>t. t) strip was = strip"
  shows "tabs.drawn_as strip (whole_order was strip) = strip"
proof -
  let ?new = "filter (\<lambda>each. \<not> list_ex (\<lambda>other. same_tab other each) was) strip"
  have "?new = filter (\<lambda>e. \<not> (\<exists>t \<in> set was. same_tab e t)) strip"
    by (rule filter_cong) (auto simp: list_ex_iff dest: tabs.same_sym)
  moreover have "tabs.drawn_as strip ?new = ?new"
    by (rule tabs.drawn_as_self [OF assms(1)]) simp
  ultimately show ?thesis using assms(2) by (simp add: whole_order_def in_task_order_drawn)
qed

text \<open>
  A tab opened stands at the strip's end and every other keeps the place it is drawn in; a tab
  the strip holds already is only chosen.
\<close>

theorem opened_at_the_end:
  assumes "tabs.apart strip" "in_task_order (\<lambda>t. t) strip was = strip"
  shows "(case opened_order was strip tab of
      None \<Rightarrow> list_ex (\<lambda>other. same_tab other tab) strip
    | Some order \<Rightarrow> in_task_order (\<lambda>t. t) (strip @ [tab]) order = strip @ [tab])"
proof (cases "list_ex (\<lambda>other. same_tab other tab) strip")
  case False
  then have none: "\<forall>o' \<in> set strip. \<not> same_tab o' tab" by (simp add: list_ex_iff)
  let ?rest = "filter (\<lambda>other. \<not> same_tab other tab) (whole_order was strip)"
  have "\<forall>t \<in> set ?rest. \<not> same_tab tab t" by (auto dest: tabs.same_sym)
  then have "tabs.drawn_as (strip @ [tab]) ?rest = tabs.drawn_as strip ?rest"
    by (rule tabs.drawn_as_more)
  also have "\<dots> = strip"
    using none by (simp add: tabs.drawn_as_without whole_order_draws [OF assms] filter_id_conv)
  finally have "tabs.drawn_as (strip @ [tab]) (?rest @ [tab]) = strip @ [tab]"
    using none by (simp add: tabs.drawn_as_Cons filter_empty_conv)
  then have "in_task_order (\<lambda>t. t) (strip @ [tab]) (?rest @ [tab]) = strip @ [tab]"
    by (rule in_task_order_whole) simp
  with False show ?thesis by (simp add: opened_order_def)
qed (simp add: opened_order_def)

theorem opened_at_the_end_witness:
  "in_task_order (\<lambda>t. t) [File_Tab ''a'', File_Tab ''b'', File_Tab ''c'']
    (the (opened_order [File_Tab ''x'', File_Tab ''a'', File_Tab ''c''] [File_Tab ''a'', File_Tab ''b''] (File_Tab ''c'')))
   = [File_Tab ''a'', File_Tab ''b'', File_Tab ''c'']"
proof -
  have "tabs.apart [File_Tab ''a'', File_Tab ''b'']" by (simp add: tabs.apart_def same_of_kind_word)
  moreover have "in_task_order (\<lambda>t. t) [File_Tab ''a'', File_Tab ''b''] [File_Tab ''x'', File_Tab ''a'', File_Tab ''c'']
      = [File_Tab ''a'', File_Tab ''b'']" by code_simp
  ultimately show ?thesis
    using opened_at_the_end [of "[File_Tab ''a'', File_Tab ''b'']" "[File_Tab ''x'', File_Tab ''a'', File_Tab ''c'']"
      "File_Tab ''c''"]
    by (simp add: opened_order_def same_of_kind_word)
qed

text \<open>
  A tab moved stands at the place it was moved to, the rest of the strip closing up around it
  in the order it had, and the tabs the strip does not draw keep theirs in the order kept.
\<close>

theorem moved_to_its_place:
  assumes "tabs.apart strip" "in_task_order (\<lambda>t. t) strip was = strip"
    and "moved_order was strip tab to = Some order"
  shows "\<exists>own \<in> set strip. same_tab own tab \<and>
    in_task_order (\<lambda>t. t) strip order =
      (let rest = filter (\<lambda>other. \<not> same_tab other tab) strip; n = nat to
       in take n rest @ [own] @ drop n rest)"
proof -
  let ?all = "whole_order was strip"
  let ?run = "filter (\<lambda>other. \<not> same_tab other tab) strip"
  let ?rest = "filter (\<lambda>other. \<not> same_tab other tab) ?all"
  let ?n = "nat to"
  from assms(3) obtain at held where at: "find_index (\<lambda>other. same_tab other tab) strip = Some at"
    and held: "List.find (\<lambda>other. same_tab other tab) ?all = Some held"
    by (auto simp: moved_order_def Let_def split: option.splits)
  have own: "strip ! at \<in> set strip" "same_tab (strip ! at) tab" using find_index_Some [OF at] by simp_all
  have "same_tab held tab" using held by (auto simp: find_Some_iff)
  then have drawn_held: "tabs.drawn_as strip [held] = [strip ! at]"
    using tabs.filter_same_apart [OF assms(1) own(1), of held] own(2) tabs.same_sym tabs.same_trans
    by (metis append_Nil2 tabs.drawn_as_Cons tabs.drawn_as_Nil)
  have rest: "tabs.drawn_as strip ?rest = ?run"
    by (simp add: tabs.drawn_as_without whole_order_draws [OF assms(1,2)])
  have shown: "in_task_order (\<lambda>t. t) strip (xs @ [held] @ ys) = take ?n ?run @ [strip ! at] @ drop ?n ?run"
    if "tabs.drawn_as strip xs = take ?n ?run" "tabs.drawn_as strip ys = drop ?n ?run" for xs ys
  proof (rule in_task_order_whole)
    show "tabs.drawn_as strip (xs @ [held] @ ys) = take ?n ?run @ [strip ! at] @ drop ?n ?run"
      unfolding tabs.drawn_as_append that drawn_held by simp
    have "same_tab e tab \<Longrightarrow> e \<in> set strip \<Longrightarrow> e = strip ! at" for e
      using assms(1) own tabs.same_sym tabs.same_trans by (metis tabs.apart_def)
    moreover have "set (take ?n ?run) \<union> set (drop ?n ?run) = set ?run"
      by (metis append_take_drop_id set_append)
    ultimately show "set (take ?n ?run @ [strip ! at] @ drop ?n ?run) = set strip" using own(1) by auto
  qed
  have "in_task_order (\<lambda>t. t) strip order = take ?n ?run @ [strip ! at] @ drop ?n ?run"
  proof (cases "?n < length ?run")
    case True
    let ?b = "?run ! ?n"
    have before: "nth_opt ?run (max 0 to) = Some ?b"
      using True by (auto simp: nth_opt_def max_def)
    have "?b \<in> set (tabs.drawn_as strip ?rest)" using nth_mem [OF True] rest by simp
    then obtain p where p: "find_index (\<lambda>other. same_tab other ?b) ?rest = Some p"
      by (cases "find_index (\<lambda>other. same_tab other ?b) ?rest") (auto simp: tabs.set_drawn_as dest: tabs.same_sym)
    have "tabs.drawn_as strip (take p ?rest) = take ?n ?run" "tabs.drawn_as strip (drop p ?rest) = drop ?n ?run"
      using tabs.place_in_run [OF tabs.apart_filter [OF assms(1)] p rest True refl] by blast+
    moreover have "order = take p ?rest @ [held] @ drop p ?rest"
      using assms(3) at held before p by (simp add: moved_order_def Let_def split: if_splits)
    ultimately show ?thesis using shown by simp
  next
    case False
    then have "length ?run \<le> nat to" by simp
    then have "int (length ?run) \<le> int (nat to)" by (rule of_nat_mono)
    moreover have "int (nat to) = max 0 to" by simp
    ultimately have "int (length ?run) \<le> max 0 to" by linarith
    then have "nth_opt ?run (max 0 to) = None" by (simp only: nth_opt_None simp_thms)
    then have "order = ?rest @ [held] @ []"
      using assms(3) at held by (simp add: moved_order_def Let_def split: if_splits)
    then show ?thesis using shown [of ?rest "[]"] rest False by simp
  qed
  with own show ?thesis by (auto simp: Let_def)
qed

theorem moved_to_its_place_witness:
  "in_task_order (\<lambda>t. t) [File_Tab ''a'', File_Tab ''b'', File_Tab ''c'']
    (the (moved_order [File_Tab ''x'', File_Tab ''a''] [File_Tab ''a'', File_Tab ''b'', File_Tab ''c''] (File_Tab ''a'') 1))
   = [File_Tab ''b'', File_Tab ''a'', File_Tab ''c'']"
proof -
  let ?strip = "[File_Tab ''a'', File_Tab ''b'', File_Tab ''c'']"
  have "tabs.apart ?strip" by (simp add: tabs.apart_def same_of_kind_word)
  moreover have "in_task_order (\<lambda>t. t) ?strip [File_Tab ''x'', File_Tab ''a''] = ?strip" by code_simp
  moreover have "moved_order [File_Tab ''x'', File_Tab ''a''] ?strip (File_Tab ''a'') 1
      = Some [File_Tab ''x'', File_Tab ''b'', File_Tab ''a'', File_Tab ''c'']" by code_simp
  ultimately obtain own where "own \<in> set ?strip" "same_tab own (File_Tab ''a'')"
    "in_task_order (\<lambda>t. t) ?strip [File_Tab ''x'', File_Tab ''b'', File_Tab ''a'', File_Tab ''c''] =
      [File_Tab ''b''] @ [own] @ [File_Tab ''c'']"
    using moved_to_its_place by (fastforce simp: same_of_kind_word Let_def)
  with \<open>moved_order _ _ _ _ = _\<close> show ?thesis by (auto simp: same_of_kind_word)
qed

subsection \<open>Closing\<close>

lemma neighbor_stands:
  assumes "tabs.apart strip" "find_index (\<lambda>other. same_tab other tab) strip = Some at"
    and "j \<noteq> at" "j < length strip"
  shows "\<not> same_tab (strip ! j) tab"
proof
  assume "same_tab (strip ! j) tab"
  with find_index_Some [OF assms(2)] assms(4) have "same_tab (strip ! j) (strip ! at)" "at < length strip"
    using tabs.same_sym tabs.same_trans by blast+
  then have "strip ! j = strip ! at" using assms(1,4) by (auto simp: tabs.apart_def)
  with assms(1,3,4) \<open>at < length strip\<close> show False
    using nth_eq_iff_index_eq [of strip j at] by (simp add: tabs.apart_def)
qed

text \<open>
  Closing a strip's tab while others stand always chooses one that stands: the one viewed last
  of those that do, and only where none was, the tab after it or the one before.
\<close>

theorem replacement_stands:
  assumes "tabs.apart strip" "list_ex (\<lambda>other. same_tab other tab) strip"
    and "standing = filter (\<lambda>other. \<not> same_tab other tab) strip" "standing \<noteq> []"
  shows "case replacement_of standing recent strip tab of None \<Rightarrow> False
    | Some r \<Rightarrow> list_ex (\<lambda>other. same_tab other r) standing \<and>
        (list_ex (\<lambda>each. list_ex (\<lambda>other. same_tab other each) standing) recent \<longrightarrow> r \<in> set recent)"
proof -
  let ?viewed = "find_last (\<lambda>each. list_ex (\<lambda>other. same_tab other each) standing) recent"
  show ?thesis
  proof (cases ?viewed)
    case (Some r)
    with find_last_Some [OF Some] show ?thesis by (simp add: replacement_of_def)
  next
    case None
    then have none: "\<not> list_ex (\<lambda>each. list_ex (\<lambda>other. same_tab other each) standing) recent"
      by (simp add: find_last_None list_ex_iff)
    obtain at where at: "find_index (\<lambda>other. same_tab other tab) strip = Some at"
      using assms(2) by (cases "find_index (\<lambda>other. same_tab other tab) strip") (auto simp: list_ex_iff)
    have lt: "at < length strip" using find_index_Some [OF at] by simp
    have stands: "list_ex (\<lambda>other. same_tab other (strip ! j)) standing" if "j \<noteq> at" "j < length strip" for j
      using neighbor_stands [OF assms(1) at that] that(2) by (auto simp: assms(3) list_ex_iff intro!: exI [of _ "strip ! j"])
    show ?thesis
    proof (cases "Suc at < length strip")
      case True
      then have "nth_opt strip (int at + 1) = Some (strip ! Suc at)" by (simp add: nth_opt_def nat_add_distrib)
      then have "replacement_of standing recent strip tab = Some (strip ! Suc at)"
        using None at by (simp add: replacement_of_def)
      with stands [of "Suc at"] none True show ?thesis by simp
    next
      case False
      then have len: "length strip = Suc at" using lt by simp
      have "at \<noteq> 0"
      proof
        assume "at = 0"
        with len have "strip = [strip ! at]" by (cases strip) auto
        with find_index_Some [OF at] have "\<forall>x \<in> set strip. same_tab x tab" by (metis list.set(1,2) empty_iff insert_iff)
        with assms(3,4) show False by (auto simp: filter_empty_conv)
      qed
      with len have "nth_opt strip (int at + 1) = None" "nth_opt strip (int at - 1) = Some (strip ! (at - 1))"
        by (auto simp: nth_opt_def nat_diff_distrib)
      then have "replacement_of standing recent strip tab = Some (strip ! (at - 1))"
        using None at by (simp add: replacement_of_def)
      with stands [of "at - 1"] none \<open>at \<noteq> 0\<close> lt show ?thesis by simp
    qed
  qed
qed

theorem replacement_stands_witness:
  "replacement_of [File_Tab ''a'', File_Tab ''b''] [File_Tab ''z''] [File_Tab ''a'', File_Tab ''b'', File_Tab ''c'']
    (File_Tab ''c'') = Some (File_Tab ''b'')"
proof -
  let ?strip = "[File_Tab ''a'', File_Tab ''b'', File_Tab ''c'']"
  have "tabs.apart ?strip" by (simp add: tabs.apart_def same_of_kind_word)
  moreover have "list_ex (\<lambda>other. same_tab other (File_Tab ''c'')) ?strip" by code_simp
  ultimately have "replacement_of [File_Tab ''a'', File_Tab ''b''] [File_Tab ''z''] ?strip (File_Tab ''c'') \<noteq> None"
    using replacement_stands [of ?strip "File_Tab ''c''" "[File_Tab ''a'', File_Tab ''b'']" "[File_Tab ''z'']"]
    by (auto simp: same_of_kind_word split: option.splits)
  moreover have "replacement_of [File_Tab ''a'', File_Tab ''b''] [File_Tab ''z''] ?strip (File_Tab ''c'')
    = Some (File_Tab ''b'')" by code_simp
  ultimately show ?thesis by simp
qed

subsection \<open>When each tab was last viewed\<close>

lemma viewed_at_of_None: "viewed_at_of stamps tab = None \<longleftrightarrow> (\<forall>e \<in> set stamps. \<not> same_tab (fst e) tab)"
  by (auto simp: viewed_at_of_def find_None_iff)

lemma viewed_at_of_in:
  assumes "viewed_at_of stamps tab = Some x"
  obtains u where "(u, x) \<in> set stamps" "same_tab u tab"
  using assms by (auto simp: viewed_at_of_def dest: find_SomeD)

text \<open>Where no two stamps are of one tab, a tab's stamp is the one there is.\<close>

lemma viewed_at_of_Some:
  assumes "tabs.apart (map fst stamps)" "(u, x) \<in> set stamps" "same_tab u tab"
  shows "viewed_at_of stamps tab = Some x"
proof (cases "viewed_at_of stamps tab")
  case None
  with assms(2,3) show ?thesis by (auto simp: viewed_at_of_None)
next
  case (Some y)
  then obtain v where v: "(v, y) \<in> set stamps" "same_tab v tab" by (rule viewed_at_of_in)
  have "same_tab u v" using assms(3) v(2) tabs.same_sym tabs.same_trans by blast
  moreover have "u \<in> set (map fst stamps)" "v \<in> set (map fst stamps)" using assms(2) v(1) by force+
  ultimately have "u = v" using assms(1) by (auto simp: tabs.apart_def)
  then have "(u, x) = (v, y)"
    using assms(1,2) v(1) by (metis tabs.apart_def distinct_map eq_key_imp_eq_value)
  with Some show ?thesis by simp
qed

lemma viewed_at_of_cong: "same_tab a b \<Longrightarrow> viewed_at_of stamps a = viewed_at_of stamps b"
  unfolding viewed_at_of_def by (simp add: tabs.same_cong cong: find_cong)

text \<open>The tabs stamped anew, each once.\<close>

definition fresh_tabs :: "viewed_at list \<Rightarrow> strip_tab list \<Rightarrow> int \<Rightarrow> strip_tab list" where
  "fresh_tabs before asked at = map snd (filter (\<lambda>(place, tab). viewed_at_of before tab \<noteq> Some at
     \<and> find_index (\<lambda>other. same_tab other tab) asked = Some place) (enumerate 0 asked))"

lemma find_index_same:
  "same_tab a b \<Longrightarrow> find_index (\<lambda>other. same_tab other a) xs = find_index (\<lambda>other. same_tab other b) xs"
  by (simp add: tabs.same_cong)

lemma fresh_tabs_iff:
  "t \<in> set (fresh_tabs before asked at) \<longleftrightarrow> (\<exists>i < length asked. asked ! i = t
     \<and> viewed_at_of before t \<noteq> Some at \<and> find_index (\<lambda>other. same_tab other t) asked = Some i)"
  by (auto simp: fresh_tabs_def in_set_enumerate_eq image_iff)

lemma fresh_tabs_subset: "t \<in> set (fresh_tabs before asked at) \<Longrightarrow> t \<in> set asked"
  by (auto simp: fresh_tabs_iff)

lemma fresh_tabs_apart: "tabs.apart (fresh_tabs before asked at)"
proof -
  let ?picked = "filter (\<lambda>(place, tab). viewed_at_of before tab \<noteq> Some at
     \<and> find_index (\<lambda>other. same_tab other tab) asked = Some place) (enumerate 0 asked)"
  have "inj_on snd (set ?picked)"
    by (auto simp: inj_on_def)
  then have "distinct (map snd ?picked)" by (simp add: distinct_map)
  moreover have "x = y" if "x \<in> set (fresh_tabs before asked at)" "y \<in> set (fresh_tabs before asked at)" "same_tab x y" for x y
    using that find_index_same [OF that(3), of asked] by (auto simp: fresh_tabs_iff)
  ultimately show ?thesis by (simp add: tabs.apart_def fresh_tabs_def)
qed

text \<open>A tab asked for, and not stamped at that instant already, is stamped by one of its own.\<close>

lemma fresh_tabs_cover:
  assumes "t \<in> set asked" "viewed_at_of before t \<noteq> Some at"
  obtains u where "u \<in> set (fresh_tabs before asked at)" "same_tab u t"
proof -
  obtain i where i: "find_index (\<lambda>other. same_tab other t) asked = Some i"
    using assms(1) by (cases "find_index (\<lambda>other. same_tab other t) asked") auto
  with find_index_Some [OF i] have u: "i < length asked" "same_tab (asked ! i) t" by simp_all
  with i find_index_same [OF u(2), of asked] viewed_at_of_cong [OF u(2), of before] assms(2)
  have "asked ! i \<in> set (fresh_tabs before asked at)" by (auto simp: fresh_tabs_iff)
  with u(2) show ?thesis by (rule that [rotated])
qed

text \<open>The stamps a viewing leaves: every one of \<open>all\<close>, but for the oldest past the bound of tabs not standing.\<close>

lemma stamped_viewed_cases:
  assumes "stamped_viewed before viewed standing at kept = Some after"
  obtains fresh all n where
    "fresh = fresh_tabs before (viewed @ filter (\<lambda>tab. viewed_at_of before tab = None) standing) at"
    "all = filter (\<lambda>each. \<not> list_ex (\<lambda>tab. same_tab tab (fst each)) fresh) before @ map (\<lambda>tab. (tab, at)) fresh"
    "after = map snd (filter (\<lambda>p. p \<notin> set (take (length all - kept)
       (filter (\<lambda>(_, each). \<not> list_ex (\<lambda>tab. same_tab tab (fst each)) standing) (enumerate 0 all)))) (enumerate 0 all))"
  using assms unfolding stamped_viewed_def Let_def fresh_tabs_def [symmetric]
  by (auto split: if_splits)

lemma kept_stamps:
  assumes "after = map snd (filter (\<lambda>p. p \<notin> set (take n (filter (\<lambda>(_, each). \<not> S each) (enumerate 0 all)))) (enumerate 0 all))"
  shows "set after \<subseteq> set all" and "e \<in> set all \<Longrightarrow> S e \<Longrightarrow> e \<in> set after"
    and "distinct (map fst all) \<Longrightarrow> distinct (map fst after)"
proof -
  have all: "map snd (enumerate 0 all) = all" by simp
  show "set after \<subseteq> set all"
  proof -
    have "set after \<subseteq> set (map snd (enumerate 0 all))"
      unfolding assms set_map by (intro image_mono) auto
    then show ?thesis by (simp only: all)
  qed
  show "e \<in> set after" if "e \<in> set all" "S e"
  proof -
    note held = that
    obtain i where i: "i < length all" "all ! i = e" using held(1) by (auto simp: in_set_conv_nth)
    then have "(i, e) \<in> set (enumerate 0 all)" by (auto simp: in_set_enumerate_eq)
    moreover have "(i, e) \<notin> set (take n (filter (\<lambda>(_, each). \<not> S each) (enumerate 0 all)))"
      using held(2) by (auto dest: in_set_takeD)
    ultimately show ?thesis unfolding assms by force
  qed
  show "distinct (map fst after)" if "distinct (map fst all)"
  proof -
    have "distinct (map (fst \<circ> snd) (enumerate 0 all))" using that all by (metis map_map)
    then show ?thesis unfolding assms by (simp add: distinct_map_filter)
  qed
qed

text \<open>
  A viewing stamps each tab it shows, and each standing tab that held no stamp, with the instant,
  and every other standing tab keeps the stamp it had, whatever the bound lets go.
\<close>

theorem standing_stamps_kept:
  assumes "tabs.apart (map fst before)" "stamped_viewed before viewed standing at kept = Some after"
    and "t \<in> set standing"
  shows "viewed_at_of after t =
    (if list_ex (\<lambda>v. same_tab v t) viewed then Some at
     else case viewed_at_of before t of None \<Rightarrow> Some at | Some x \<Rightarrow> Some x)"
proof -
  let ?asked = "viewed @ filter (\<lambda>tab. viewed_at_of before tab = None) standing"
  obtain fresh all n where fresh: "fresh = fresh_tabs before ?asked at"
    and all: "all = filter (\<lambda>each. \<not> list_ex (\<lambda>tab. same_tab tab (fst each)) fresh) before @ map (\<lambda>tab. (tab, at)) fresh"
    and after: "after = map snd (filter (\<lambda>p. p \<notin> set (take (length all - kept)
       (filter (\<lambda>(_, each). \<not> list_ex (\<lambda>tab. same_tab tab (fst each)) standing) (enumerate 0 all)))) (enumerate 0 all))"
    by (rule stamped_viewed_cases [OF assms(2)])
  note kept = kept_stamps [OF after]
  have "tabs.apart (map fst all)"
    unfolding all map_append tabs.apart_append
  proof (intro conjI ballI)
    have "map fst (filter (\<lambda>each. \<not> list_ex (\<lambda>tab. same_tab tab (fst each)) fresh) before)
      = filter (\<lambda>u. \<not> list_ex (\<lambda>tab. same_tab tab u) fresh) (map fst before)"
      by (simp add: filter_map comp_def)
    with tabs.apart_filter [OF assms(1)]
    show "tabs.apart (map fst (filter (\<lambda>each. \<not> list_ex (\<lambda>tab. same_tab tab (fst each)) fresh) before))" by simp
    show "tabs.apart (map fst (map (\<lambda>tab. (tab, at)) fresh))"
      by (simp add: comp_def fresh fresh_tabs_apart)
  qed (auto simp: list_ex_iff dest: tabs.same_sym)
  moreover have "distinct (map fst after)" using kept(3) calculation by (simp add: tabs.apart_def)
  ultimately have apart: "tabs.apart (map fst after)"
    using kept(1) unfolding tabs.apart_def by fastforce
  have stays: "viewed_at_of after t = Some x" if "(u, x) \<in> set all" "same_tab u t" for u x
    using viewed_at_of_Some [OF apart kept(2) that(2)] that assms(3) tabs.same_sym by (auto simp: list_ex_iff)
  have asked: "viewed_at_of after t = Some at" if v: "v \<in> set ?asked" "same_tab v t" for v
  proof (cases "viewed_at_of before v = Some at")
    case False
    with v(1) obtain u where u: "u \<in> set fresh" "same_tab u v"
      unfolding fresh by (rule fresh_tabs_cover)
    then have "(u, at) \<in> set all" "same_tab u t" using v(2) tabs.same_trans by (auto simp: all)
    then show ?thesis by (rule stays)
  next
    case True
    then obtain u where u: "(u, at) \<in> set before" "same_tab u v" by (rule viewed_at_of_in)
    have "\<not> same_tab w u" if "w \<in> set fresh" for w
    proof
      assume "same_tab w u"
      with u(2) have "same_tab w v" using tabs.same_trans by blast
      with True that show False using viewed_at_of_cong [of w v before] by (auto simp: fresh fresh_tabs_iff)
    qed
    with u have "(u, at) \<in> set all" by (auto simp: all list_ex_iff)
    moreover have "same_tab u t" using u(2) v(2) by (rule tabs.same_trans)
    ultimately show ?thesis by (rule stays)
  qed
  show ?thesis
  proof (cases "list_ex (\<lambda>v. same_tab v t) viewed")
    case True
    with asked show ?thesis by (auto simp: list_ex_iff)
  next
    case False
    show ?thesis
    proof (cases "viewed_at_of before t")
      case None
      with asked [of t] assms(3) False show ?thesis by simp
    next
      case (Some x)
      then obtain u where u: "(u, x) \<in> set before" "same_tab u t" by (rule viewed_at_of_in)
      have "\<not> same_tab w u" if "w \<in> set fresh" for w
      proof
        assume "same_tab w u"
        with u(2) have wt: "same_tab w t" using tabs.same_trans by blast
        from that have "w \<in> set ?asked" unfolding fresh by (rule fresh_tabs_subset)
        with wt False Some viewed_at_of_cong [OF wt, of before] show False by (auto simp: list_ex_iff)
      qed
      with u have "(u, x) \<in> set all" by (auto simp: all list_ex_iff)
      with stays [OF this u(2)] False Some show ?thesis by simp
    qed
  qed
qed

theorem standing_stamps_kept_witness:
  "viewed_at_of [(File_Tab ''a'', 3), (File_Tab ''b'', 9)] (File_Tab ''a'') = Some 3"
proof -
  let ?before = "[(File_Tab ''z'', 1), (File_Tab ''a'', 3)]"
  have "tabs.apart (map fst ?before)" by (simp add: tabs.apart_def same_of_kind_word)
  moreover have "stamped_viewed ?before [File_Tab ''b''] [File_Tab ''a'', File_Tab ''b''] 9 1
      = Some [(File_Tab ''a'', 3), (File_Tab ''b'', 9)]" by code_simp
  ultimately show ?thesis
    using standing_stamps_kept [of ?before "[File_Tab ''b'']" "[File_Tab ''a'', File_Tab ''b'']" 9 1
      "[(File_Tab ''a'', 3), (File_Tab ''b'', 9)]" "File_Tab ''a''"]
    by (simp add: same_of_kind_word viewed_at_of_def)
qed

end
