(* ===== verification/Pin_Order.thy ===== *)
theory Pin_Order
  imports Complex_Main Prelude "HOL-Library.Multiset"
begin

text \<open>
  \<open>packages/features/src/pin-order.ts\<close>: the order the Pinned section stands in, and the positions a
  drop writes. A position is a fractional index, minted by the \<open>fractional-indexing\<close> package, which
  is a parameter here (\<open>fractional\<close>): a linearly ordered type of keys (the source compares strings
  by code units), whether a key is well formed, how long it is, and the keys it mints between two.
  What the package documents of them is the hypothesis \<open>mints_between\<close>. A row is a value of its own,
  told from the others by equality.
\<close>

record 'k fractional =
  spelled_in_digits :: "'k \<Rightarrow> bool"
  key_length :: "'k \<Rightarrow> nat"
  well_formed :: "'k \<Rightarrow> bool"
  n_keys_between :: "'k option \<Rightarrow> 'k option \<Rightarrow> nat \<Rightarrow> 'k list"

definition max_position_chars :: nat where
  "max_position_chars = 100"

definition is_pin_position :: "'k fractional \<Rightarrow> 'k \<Rightarrow> bool" where
  "is_pin_position F key \<longleftrightarrow>
     key_length F key \<le> max_position_chars \<and> spelled_in_digits F key \<and> well_formed F key"

record 'k pin_place =
  position :: "'k option"
  pinned_at :: int

definition position_of :: "'k fractional \<Rightarrow> 'k pin_place \<Rightarrow> 'k option" where
  "position_of F p = (case position p of
     None \<Rightarrow> None | Some key \<Rightarrow> if is_pin_position F key then Some key else None)"

subsection \<open>The order drawn\<close>

record ('row, 'k) placed_pin =
  pp_row :: 'row
  pp_at :: int
  pp_position :: "'k option"

text \<open>The merge: a loose pin before the first positioned one pinned earlier than it.\<close>

fun merge_pins :: "('row, 'k) placed_pin list \<Rightarrow> ('row, 'k) placed_pin list \<Rightarrow> 'row list" where
  "merge_pins [] loose = map pp_row loose"
| "merge_pins positioned [] = map pp_row positioned"
| "merge_pins (x # xs) (y # ys) =
     (if pp_at y > pp_at x then pp_row y # merge_pins (x # xs) ys else pp_row x # merge_pins xs (y # ys))"

text \<open>
  Sorted by position and, among equals, the newer first: by the second key, then, keeping the order
  of equals, by the first.
\<close>

definition in_pin_order ::
  "('k :: linorder) fractional \<Rightarrow> 'row list \<Rightarrow> ('row \<Rightarrow> 'k pin_place) \<Rightarrow> 'row list" where
  "in_pin_order F rows place_of =
     (let placed = map (\<lambda>row. \<lparr>pp_row = row, pp_at = pinned_at (place_of row),
            pp_position = position_of F (place_of row)\<rparr>) rows;
          newest = sort_key (\<lambda>p. - pp_at p);
          positioned = sort_key (\<lambda>p. the (pp_position p)) (newest (filter (\<lambda>p. pp_position p \<noteq> None) placed));
          loose = newest (filter (\<lambda>p. pp_position p = None) placed)
      in merge_pins positioned loose)"

subsection \<open>The positions a drop writes\<close>

text \<open>Whether a standing position sorts after the one before it.\<close>

definition sorts_after :: "('k :: linorder) option \<Rightarrow> 'k option \<Rightarrow> bool" where
  "sorts_after previous own \<longleftrightarrow> (case own of
     None \<Rightarrow> False | Some k \<Rightarrow> (case previous of None \<Rightarrow> True | Some p \<Rightarrow> k > p))"

text \<open>
  The loop over the rows from \<open>index\<close>, each with the position it keeps unless it must move: a row
  that sorts after the one before it stands, and a run of rows up to the next that does takes keys
  between.
\<close>

function place_runs ::
  "('k :: linorder) fractional \<Rightarrow> 'k option \<Rightarrow> ('row \<times> 'k option) list \<Rightarrow> ('row \<times> 'k) list" where
  "place_runs F previous [] = []"
| "place_runs F previous ((row, own) # rest) =
     (if sorts_after previous own then place_runs F own rest
      else (let run = row # map fst (takeWhile (\<lambda>(_, next). \<not> sorts_after previous next) rest);
                beyond = dropWhile (\<lambda>(_, next). \<not> sorts_after previous next) rest;
                keys = n_keys_between F previous
                  (case beyond of [] \<Rightarrow> None | (_, next) # _ \<Rightarrow> next) (length run)
        in zip run keys @ place_runs F (case last_opt keys of None \<Rightarrow> previous | Some k \<Rightarrow> Some k) beyond))"
  by pat_completeness auto

termination
  by (relation "measure (\<lambda>(F, previous, rows). length rows)")
    (auto simp: le_imp_less_Suc length_dropWhile_le)

definition positions_after_drop ::
  "('k :: linorder) fractional \<Rightarrow> 'row list \<Rightarrow> 'row \<Rightarrow> ('row \<Rightarrow> 'k pin_place) \<Rightarrow> ('row \<times> 'k) list" where
  "positions_after_drop F after moved place_of =
     (let positions = place_runs F None (map (\<lambda>row. (row,
            if row = moved then None else position_of F (place_of row))) after)
      in if list_all (\<lambda>(_, key). key_length F key \<le> max_position_chars) positions then positions
         else filter (\<lambda>(row, key). Some key \<noteq> position_of F (place_of row))
           (zip after (n_keys_between F None None (length after))))"

definition pin_positions_for_move ::
  "('k :: linorder) fractional \<Rightarrow> 'row list \<Rightarrow> int \<Rightarrow> int \<Rightarrow> ('row \<Rightarrow> 'k pin_place) \<Rightarrow> ('row \<times> 'k) list" where
  "pin_positions_for_move F order from to place_of =
     (case nth_opt order from of
        None \<Rightarrow> []
      | Some moved \<Rightarrow>
          if from = to \<or> to < 0 \<or> to \<ge> int (length order) then []
          else (let kept = take (nat from) order @ drop (Suc (nat from)) order;
                    after = take (nat to) kept @ [moved] @ drop (nat to) kept
            in positions_after_drop F after moved place_of))"

definition pin_positions_for_insert ::
  "('k :: linorder) fractional \<Rightarrow> 'row list \<Rightarrow> 'row \<Rightarrow> int \<Rightarrow> ('row \<Rightarrow> 'k pin_place) \<Rightarrow> ('row \<times> 'k) list" where
  "pin_positions_for_insert F order row to place_of =
     (let place = nat (max 0 (min to (int (length order))))
      in positions_after_drop F (take place order @ [row] @ drop place order) row place_of)"

subsection \<open>What the package documents\<close>

definition key_of :: "'k fractional \<Rightarrow> 'k \<Rightarrow> bool" where
  "key_of F k \<longleftrightarrow> well_formed F k \<and> spelled_in_digits F k"

definition below :: "('k :: linorder) option \<Rightarrow> 'k \<Rightarrow> bool" where
  "below previous k \<longleftrightarrow> (case previous of None \<Rightarrow> True | Some p \<Rightarrow> p < k)"

definition above :: "('k :: linorder) option \<Rightarrow> 'k \<Rightarrow> bool" where
  "above next k \<longleftrightarrow> (case next of None \<Rightarrow> True | Some n \<Rightarrow> k < n)"

text \<open>Between two keys in order, or no key for an end, it mints as many as asked, in order, between them.\<close>

definition mints_between :: "('k :: linorder) fractional \<Rightarrow> bool" where
  "mints_between F \<longleftrightarrow> (\<forall>a b n.
     (\<forall>k. a = Some k \<longrightarrow> key_of F k \<and> above b k) \<longrightarrow> (\<forall>k. b = Some k \<longrightarrow> key_of F k) \<longrightarrow>
     length (n_keys_between F a b n) = n \<and> sorted_wrt (<) (n_keys_between F a b n)
     \<and> (\<forall>k \<in> set (n_keys_between F a b n). key_of F k \<and> below a k \<and> above b k))"

text \<open>As many keys as a section has pins, minted between no ends, fit the bound.\<close>

definition mints_short :: "('k :: linorder) fractional \<Rightarrow> nat \<Rightarrow> bool" where
  "mints_short F n \<longleftrightarrow> list_all (\<lambda>k. key_length F k \<le> max_position_chars) (n_keys_between F None None n)"

lemma mints_betweenD:
  assumes "mints_between F" and "\<forall>k. a = Some k \<longrightarrow> key_of F k \<and> above b k" and "\<forall>k. b = Some k \<longrightarrow> key_of F k"
  shows "length (n_keys_between F a b n) = n" and "sorted_wrt (<) (n_keys_between F a b n)"
    and "\<forall>k \<in> set (n_keys_between F a b n). key_of F k \<and> below a k \<and> above b k"
proof -
  have "length (n_keys_between F a b n) = n \<and> sorted_wrt (<) (n_keys_between F a b n)
     \<and> (\<forall>k \<in> set (n_keys_between F a b n). key_of F k \<and> below a k \<and> above b k)"
    using assms(1) [unfolded mints_between_def, rule_format, of a b n] assms(2,3) by blast
  then show "length (n_keys_between F a b n) = n" "sorted_wrt (<) (n_keys_between F a b n)"
    "\<forall>k \<in> set (n_keys_between F a b n). key_of F k \<and> below a k \<and> above b k" by blast+
qed

subsection \<open>The positions run in the order drawn\<close>

text \<open>A row's position once the answer is written.\<close>

definition written_position :: "('row \<times> 'k) list \<Rightarrow> 'row \<times> 'k option \<Rightarrow> 'k option" where
  "written_position positions each = (case map_of positions (fst each) of None \<Rightarrow> snd each | Some k \<Rightarrow> Some k)"

lemma below_last:
  assumes "sorted_wrt (<) (keys :: ('k :: linorder) list)" "k \<in> set keys"
  shows "k \<le> last keys"
proof -
  have "keys = butlast keys @ [last keys]" using assms(2) by (metis append_butlast_last_id empty_iff list.set(1))
  with assms show ?thesis
    by (metis Un_iff empty_iff insert_iff leI less_imp_le list.set(1,2) order.refl set_append sorted_wrt_append)
qed

lemma map_of_zip_append:
  assumes "length run = length keys" "distinct (run @ rows)" "fst ` set rest \<subseteq> set rows"
  shows "i < length run \<Longrightarrow> map_of (zip run keys @ rest) (run ! i) = Some (keys ! i)"
    and "r \<in> set rows \<Longrightarrow> map_of (zip run keys @ rest) r = map_of rest r"
proof -
  show "map_of (zip run keys @ rest) (run ! i) = Some (keys ! i)" if "i < length run"
    using assms(1,2) that by (simp add: map_add_def map_of_zip_nth)
  show "map_of (zip run keys @ rest) r = map_of rest r" if "r \<in> set rows"
  proof -
    have "map_of (zip run keys) r = None" using that assms(1,2) by (auto simp: map_of_eq_None_iff dest: set_zip_leftD)
    then show ?thesis by (simp add: map_add_def split: option.split)
  qed
qed

lemma place_runs_ok:
  fixes F :: "('k :: linorder) fractional"
  shows "mints_between F \<Longrightarrow> distinct (map fst items) \<Longrightarrow> \<forall>(r, own) \<in> set items. \<forall>k. own = Some k \<longrightarrow> key_of F k \<Longrightarrow>
    \<forall>k. previous = Some k \<longrightarrow> key_of F k \<Longrightarrow>
    fst ` set (place_runs F previous items) \<subseteq> fst ` set items \<and>
    (\<forall>(r, k) \<in> set (place_runs F previous items). key_of F k) \<and>
    (\<exists>ks. map (written_position (place_runs F previous items)) items = map Some ks \<and> sorted_wrt (<) ks
      \<and> (\<forall>k \<in> set ks. below previous k))"
proof (induction F previous items rule: place_runs.induct)
  case (1 F previous)
  then show ?case by simp
next
  case (2 F previous row own rest)
  show ?case
  proof (cases "sorts_after previous own")
    case True
    then obtain k where k: "own = Some k" "below previous k"
      by (auto simp: sorts_after_def below_def split: option.splits)
    have IH: "fst ` set (place_runs F own rest) \<subseteq> fst ` set rest \<and>
        (\<forall>(r, k) \<in> set (place_runs F own rest). key_of F k) \<and>
        (\<exists>ks. map (written_position (place_runs F own rest)) rest = map Some ks \<and> sorted_wrt (<) ks
          \<and> (\<forall>k \<in> set ks. below own k))"
      using 2 True k by auto
    then obtain ks where ks: "map (written_position (place_runs F own rest)) rest = map Some ks"
      "sorted_wrt (<) ks" "\<forall>k \<in> set ks. below own k" by blast
    have "map_of (place_runs F own rest) row = None"
      using IH "2.prems"(2) by (auto simp: map_of_eq_None_iff)
    then have "written_position (place_runs F own rest) (row, own) = Some k"
      by (simp add: written_position_def k(1))
    with ks k have "map (written_position (place_runs F own rest)) ((row, own) # rest) = map Some (k # ks)
        \<and> sorted_wrt (<) (k # ks) \<and> (\<forall>k \<in> set (k # ks). below previous k)"
      by (auto simp: below_def split: option.splits)
    then have "\<exists>ks. map (written_position (place_runs F own rest)) ((row, own) # rest) = map Some ks
        \<and> sorted_wrt (<) ks \<and> (\<forall>k \<in> set ks. below previous k)" by blast
    with IH True show ?thesis by auto
  next
    case False
    let ?stop = "\<lambda>(_, next). \<not> sorts_after previous next"
    let ?taken = "takeWhile ?stop rest"
    let ?run = "row # map fst ?taken"
    let ?beyond = "dropWhile ?stop rest"
    let ?next = "case ?beyond of [] \<Rightarrow> None | (_, next) # _ \<Rightarrow> next"
    let ?keys = "n_keys_between F previous ?next (length ?run)"
    let ?asg = "place_runs F (case last_opt ?keys of None \<Rightarrow> previous | Some k \<Rightarrow> Some k) ?beyond"
    have next_ok: "\<forall>k. ?next = Some k \<longrightarrow> key_of F k \<and> below previous k"
    proof (cases ?beyond)
      case (Cons b bs)
      then have "b \<in> set rest" using set_dropWhileD [of b ?stop rest] by simp
      moreover have "\<not> ?stop b" using hd_dropWhile [of ?stop rest] Cons by simp
      ultimately show ?thesis using Cons "2.prems"(3)
        by (auto simp: sorts_after_def below_def split: option.splits)
    next
      case Nil
      show ?thesis unfolding Nil by simp
    qed
    have prev_ok: "\<forall>k. previous = Some k \<longrightarrow> key_of F k \<and> above ?next k"
      using "2.prems"(4) next_ok by (cases ?next) (auto simp: above_def below_def)
    have "\<forall>k. ?next = Some k \<longrightarrow> key_of F k" using next_ok by blast
    note minted = mints_betweenD [OF "2.prems"(1) prev_ok this, of "length ?run"]
    have keys: "length ?keys = length ?run" "sorted_wrt (<) ?keys"
      "\<And>k. k \<in> set ?keys \<Longrightarrow> key_of F k \<and> below previous k"
      using minted by blast+
    then have "?keys \<noteq> []" by (metis length_0_conv list.discI)
    then have last: "last_opt ?keys = Some (last ?keys)" "last ?keys \<in> set ?keys" by (simp_all add: last_opt_def)
    have split: "rest = ?taken @ ?beyond" by simp
    have dist: "distinct (?run @ map fst ?beyond)"
      using "2.prems"(2) by (metis append_Cons list.simps(9) map_append fst_conv split)
    have IH: "fst ` set ?asg \<subseteq> fst ` set ?beyond \<and> (\<forall>(r, k) \<in> set ?asg. key_of F k) \<and>
        (\<exists>ks. map (written_position ?asg) ?beyond = map Some ks \<and> sorted_wrt (<) ks
          \<and> (\<forall>k \<in> set ks. below (Some (last ?keys)) k))"
      using "2.IH"(2) [OF False refl refl refl] dist "2.prems"(1,3) keys(3) last by (fastforce dest: set_dropWhileD)
    then obtain ks where ks: "map (written_position ?asg) ?beyond = map Some ks" "sorted_wrt (<) ks"
      "\<forall>k \<in> set ks. last ?keys < k" by (auto simp: below_def)
    have eq: "place_runs F previous ((row, own) # rest) = zip ?run ?keys @ ?asg"
      using False by (simp add: Let_def)
    have "fst ` set ?asg \<subseteq> set (map fst ?beyond)" using IH by simp
    note in_map = map_of_zip_append [OF keys(1) [symmetric] dist this]
    have "map (written_position (zip ?run ?keys @ ?asg)) ((row, own) # ?taken) = map Some ?keys"
    proof (rule nth_equalityI)
      show "length (map (written_position (zip ?run ?keys @ ?asg)) ((row, own) # ?taken)) = length (map Some ?keys)"
        using keys(1) by simp
      fix i
      assume i: "i < length (map (written_position (zip ?run ?keys @ ?asg)) ((row, own) # ?taken))"
      then have "fst (((row, own) # ?taken) ! i) = ?run ! i" by (cases i) simp_all
      moreover have "map_of (zip ?run ?keys @ ?asg) (?run ! i) = Some (?keys ! i)"
        by (rule in_map(1)) (use i in simp)
      ultimately have "written_position (zip ?run ?keys @ ?asg) (((row, own) # ?taken) ! i) = Some (?keys ! i)"
        unfolding written_position_def by (simp only: option.case)
      moreover have "i < length ((row, own) # ?taken)" "i < length ?keys" using i keys(1) by simp_all
      ultimately show "map (written_position (zip ?run ?keys @ ?asg)) ((row, own) # ?taken) ! i = map Some ?keys ! i"
        by (simp only: nth_map)
    qed
    moreover have "map (written_position (zip ?run ?keys @ ?asg)) ?beyond = map Some ks"
      unfolding ks(1) [symmetric]
    proof (rule map_cong [OF refl])
      fix x
      assume "x \<in> set ?beyond"
      then have "map_of (zip ?run ?keys @ ?asg) (fst x) = map_of ?asg (fst x)" by (intro in_map(2)) simp
      then show "written_position (zip ?run ?keys @ ?asg) x = written_position ?asg x"
        unfolding written_position_def by (simp only:)
    qed
    ultimately have "map (written_position (zip ?run ?keys @ ?asg)) ((row, own) # rest) = map Some (?keys @ ks)"
      by (metis append_Cons map_append split)
    moreover have "sorted_wrt (<) (?keys @ ks)"
      unfolding sorted_wrt_append using keys(2) ks(2,3) below_last [OF keys(2)] le_less_trans by blast
    moreover have "\<forall>k \<in> set (?keys @ ks). below previous k"
      using keys(3) ks(3) last(2) by (fastforce simp: below_def split: option.splits)
    moreover have "fst ` set (zip ?run ?keys @ ?asg) \<subseteq> fst ` set ((row, own) # rest)"
    proof -
      have "fst ` set (zip ?run ?keys) \<subseteq> set ?run" using set_zip_leftD by fastforce
      moreover have "set ?run \<subseteq> fst ` set ((row, own) # rest)" by (auto dest: set_takeWhileD)
      moreover have "fst ` set ?beyond \<subseteq> fst ` set ((row, own) # rest)" by (auto dest: set_dropWhileD)
      ultimately show ?thesis using IH unfolding set_append image_Un by blast
    qed
    moreover have "\<forall>(r, k) \<in> set (zip ?run ?keys @ ?asg). key_of F k"
      using IH keys(3) by (auto dest: set_zip_rightD)
    ultimately show ?thesis unfolding eq by blast
  qed
qed

subsection \<open>A drop stands where it was let go\<close>

lemma merge_pins_Nil [simp]: "merge_pins xs [] = map pp_row xs"
  by (cases xs) simp_all

text \<open>Rows whose positions run in an order are drawn in it, however they come.\<close>

lemma drawn_by_position:
  fixes F :: "('k :: linorder) fractional"
  assumes rows: "set rows = set after" "distinct rows" "distinct after"
    and pos: "map (\<lambda>row. position_of F (place_of row)) after = map Some ks" "sorted_wrt (<) ks"
  shows "in_pin_order F rows place_of = after"
proof -
  let ?mk = "\<lambda>row. \<lparr>pp_row = row, pp_at = pinned_at (place_of row), pp_position = position_of F (place_of row)\<rparr>"
  let ?key = "\<lambda>p. the (pp_position p)"
  have some: "position_of F (place_of row) \<noteq> None" if "row \<in> set after" for row
  proof -
    from that have "position_of F (place_of row) \<in> set (map Some ks)" unfolding pos(1) [symmetric] by simp
    then show ?thesis by auto
  qed
  have keys: "map ?key (map ?mk after) = ks"
    using arg_cong [OF pos(1), of "map the"] by (simp add: comp_def)
  let ?X = "sort_key ?key (sort_key (\<lambda>p. - pp_at p) (map ?mk rows))"
  have "?X = map ?mk after"
  proof (rule map_sorted_distinct_set_unique)
    have dist: "distinct (map ?key (map ?mk after))"
      unfolding keys using pos(2) by (simp add: strict_sorted_iff)
    then have "inj_on ?key (set (map ?mk after))" by (simp only: distinct_map)
    moreover have X: "set ?X = set (map ?mk after)" using rows(1) by simp
    ultimately show "inj_on ?key (set ?X \<union> set (map ?mk after))" by (simp only: X Un_absorb)
    have "inj_on ?mk (set rows)" by (simp add: inj_on_def)
    then have "distinct ?X" using rows(2) by (simp add: distinct_map)
    then show "distinct (map ?key ?X)" using \<open>inj_on ?key (set (map ?mk after))\<close> X by (simp only: distinct_map)
    show "sorted (map ?key ?X)" by (rule sorted_sort_key)
    show "sorted (map ?key (map ?mk after))" unfolding keys using pos(2) by (simp add: strict_sorted_iff)
    show "distinct (map ?key (map ?mk after))" by (rule dist)
    show "set ?X = set (map ?mk after)" by (rule X)
  qed
  moreover have "filter (\<lambda>p. pp_position p \<noteq> None) (map ?mk rows) = map ?mk rows"
    "filter (\<lambda>p. pp_position p = None) (map ?mk rows) = []"
    using some rows(1) by (auto simp: filter_id_conv filter_empty_conv)
  ultimately show ?thesis by (simp add: in_pin_order_def Let_def comp_def)
qed

text \<open>The rows' places once an answer is written.\<close>

definition place_after :: "('row \<times> 'k) list \<Rightarrow> ('row \<Rightarrow> 'k pin_place) \<Rightarrow> 'row \<Rightarrow> 'k pin_place" where
  "place_after positions place_of row = (case map_of positions row of
     None \<Rightarrow> place_of row | Some k \<Rightarrow> (place_of row)\<lparr>position := Some k\<rparr>)"

lemma position_after:
  assumes "\<And>k. map_of positions row = Some k \<Longrightarrow> is_pin_position F k"
  shows "position_of F (place_after positions place_of row)
    = written_position positions (row, position_of F (place_of row))"
  using assms by (auto simp: place_after_def written_position_def position_of_def split: option.splits)

lemma positions_run:
  fixes F :: "('k :: linorder) fractional"
  assumes F: "mints_between F" "mints_short F (length after)" and "distinct after"
  shows "\<exists>ks. map (\<lambda>row. position_of F (place_after (positions_after_drop F after moved place_of) place_of row)) after
    = map Some ks \<and> sorted_wrt (<) ks"
proof -
  let ?own = "\<lambda>row. if row = moved then None else position_of F (place_of row)"
  let ?items = "map (\<lambda>row. (row, ?own row)) after"
  let ?runs = "place_runs F None ?items"
  show ?thesis
  proof (cases "list_all (\<lambda>(_, key). key_length F key \<le> max_position_chars) ?runs")
    case True
    have dist: "distinct (map fst ?items)" using assms(3) by (simp add: comp_def)
    have own: "\<forall>(r, own) \<in> set ?items. \<forall>k. own = Some k \<longrightarrow> key_of F k"
      by (auto simp: position_of_def key_of_def is_pin_position_def split: option.splits if_splits)
    have none: "\<forall>k. None = Some k \<longrightarrow> key_of F k" by simp
    have ok: "(\<forall>(r, k) \<in> set ?runs. key_of F k) \<and>
        (\<exists>ks. map (written_position ?runs) ?items = map Some ks \<and> sorted_wrt (<) ks)"
      using place_runs_ok [OF F(1) dist own none] by blast
    then obtain ks where ks: "map (written_position ?runs) ?items = map Some ks" "sorted_wrt (<) ks" by blast
    have position: "is_pin_position F k" if "map_of ?runs row = Some k" for row k
      using map_of_SomeD [OF that] ok True by (auto simp: is_pin_position_def key_of_def list_all_iff)
    have "position_of F (place_after ?runs place_of row) = written_position ?runs (row, ?own row)" if "row \<in> set after" for row
    proof -
      have "written_position ?runs (row, ?own row) \<in> set (map Some ks)"
        unfolding ks(1) [symmetric] using that by (auto simp: image_iff)
      then have "map_of ?runs row = None \<Longrightarrow> row \<noteq> moved" by (auto simp: written_position_def)
      with position_after [of ?runs row F place_of] position [of row]
      show ?thesis by (auto simp: written_position_def split: option.splits)
    qed
    then have "map (\<lambda>row. position_of F (place_after ?runs place_of row)) after = map Some ks"
      unfolding ks(1) [symmetric] by simp
    with ks(2) True show ?thesis by (auto simp: positions_after_drop_def Let_def)
  next
    case False
    let ?keys = "n_keys_between F None None (length after)"
    let ?fresh = "filter (\<lambda>(row, key). Some key \<noteq> position_of F (place_of row)) (zip after ?keys)"
    have keys: "length ?keys = length after" "sorted_wrt (<) ?keys" "\<And>k. k \<in> set ?keys \<Longrightarrow> key_of F k"
    proof -
      note minted = mints_betweenD [OF F(1), of None None "length after", simplified]
      show "length ?keys = length after" by (rule minted(1))
      show "sorted_wrt (<) ?keys" by (rule minted(2))
      show "key_of F k" if "k \<in> set ?keys" for k using minted(3) that by blast
    qed
    have position: "is_pin_position F k" if "k \<in> set ?keys" for k
      using that keys(3) F(2) by (auto simp: is_pin_position_def key_of_def mints_short_def list_all_iff)
    have "position_of F (place_after ?fresh place_of (after ! i)) = Some (?keys ! i)" if i: "i < length after" for i
    proof -
      have dist: "distinct (map fst (zip after ?keys))" using assms(3) keys(1) by simp
      then have dist': "distinct (map fst ?fresh)" by (rule distinct_map_filter)
      have in_zip: "(after ! i, k) \<in> set (zip after ?keys) \<longleftrightarrow> k = ?keys ! i" for k
        using i keys(1) assms(3) by (auto simp: in_set_zip nth_eq_iff_index_eq)
      show ?thesis
      proof (cases "Some (?keys ! i) = position_of F (place_of (after ! i))")
        case True
        then have "map_of ?fresh (after ! i) = None" using in_zip by (auto simp: map_of_eq_None_iff)
        with True show ?thesis by (simp add: place_after_def)
      next
        case False
        then have "(after ! i, ?keys ! i) \<in> set ?fresh" using in_zip by simp
        then have "map_of ?fresh (after ! i) = Some (?keys ! i)" using dist' by simp
        moreover have "is_pin_position F (?keys ! i)" using position i keys(1) by simp
        ultimately show ?thesis by (simp add: place_after_def position_of_def)
      qed
    qed
    then have "map (\<lambda>row. position_of F (place_after ?fresh place_of row)) after = map Some ?keys"
      using keys(1) by (intro nth_equalityI) simp_all
    with keys(2) False show ?thesis by (auto simp: positions_after_drop_def Let_def)
  qed
qed

lemma mset_inserted: "mset (take n xs @ [x] @ drop n xs) = add_mset x (mset xs)"
proof -
  have "mset (take n xs) + mset (drop n xs) = mset xs" by (metis append_take_drop_id mset_append)
  then show ?thesis by simp
qed

text \<open>
  A pin dropped at a place is drawn there, the others in the order they had, whichever of them
  held a position before and in whatever order the rows come, once the answer's positions are
  written.
\<close>

theorem drop_stands_where_let_go:
  fixes F :: "('k :: linorder) fractional"
  assumes "mints_between F" "mints_short F (length order)"
    and "distinct order" "set rows = set order" "distinct rows"
    and "from < length order" "to < length order" "from \<noteq> to"
  shows "in_pin_order F rows (place_after (pin_positions_for_move F order (int from) (int to) place_of) place_of) =
    (let others = take from order @ drop (Suc from) order in take to others @ [order ! from] @ drop to others)"
proof -
  let ?others = "take from order @ drop (Suc from) order"
  let ?after = "take to ?others @ [order ! from] @ drop to ?others"
  have order: "order = take from order @ [order ! from] @ drop (Suc from) order"
    using assms(6) by (simp add: id_take_nth_drop)
  have "mset ?after = add_mset (order ! from) (mset ?others)" by (rule mset_inserted)
  also have "\<dots> = mset (take from order @ [order ! from] @ drop (Suc from) order)" by simp
  also have "\<dots> = mset order" by (rule arg_cong [OF order [symmetric]])
  finally have perm: "mset ?after = mset order" .
  have dist: "distinct ?after" using assms(3) perm by (metis mset_eq_imp_distinct_iff)
  have same: "set rows = set ?after" using assms(4) perm by (metis mset_eq_setD)
  have len: "length ?after = length order" using perm by (metis mset_eq_length)
  have "pin_positions_for_move F order (int from) (int to) place_of = positions_after_drop F ?after (order ! from) place_of"
    using assms(6-8) by (simp add: pin_positions_for_move_def nth_opt_def Let_def)
  moreover obtain ks where "map (\<lambda>row. position_of F (place_after (positions_after_drop F ?after (order ! from) place_of)
      place_of row)) ?after = map Some ks" "sorted_wrt (<) ks"
    using positions_run [OF assms(1) _ dist, of "order ! from" place_of] assms(2) len by (metis (no_types, lifting))
  ultimately show ?thesis
    using drawn_by_position [OF same assms(5) dist] by (simp add: Let_def)
qed

text \<open>Rational keys, minted evenly, are one such package.\<close>

definition even_keys :: "rat option \<Rightarrow> rat option \<Rightarrow> nat \<Rightarrow> rat list" where
  "even_keys a b n = map (\<lambda>i. case (a, b) of
      (None, None) \<Rightarrow> of_nat (Suc i)
    | (Some x, None) \<Rightarrow> x + of_nat (Suc i)
    | (None, Some y) \<Rightarrow> y - of_nat (n - i)
    | (Some x, Some y) \<Rightarrow> x + (y - x) * (of_nat (Suc i) / of_nat (Suc n))) [0..<n]"

definition rational_keys :: "rat fractional" where
  "rational_keys = \<lparr>spelled_in_digits = (\<lambda>_. True), key_length = (\<lambda>_. 1), well_formed = (\<lambda>_. True),
     n_keys_between = even_keys\<rparr>"

lemma sorted_map_upt:
  assumes "\<And>i j. i < j \<Longrightarrow> j < n \<Longrightarrow> (f i :: 'a :: linorder) < f j"
  shows "sorted_wrt (<) (map f [0..<n])"
  unfolding sorted_wrt_iff_nth_less using assms by simp

lemma even_keys_ok:
  assumes "\<forall>x. a = Some x \<longrightarrow> above b x"
  shows "sorted_wrt (<) (even_keys a b n) \<and> (\<forall>k \<in> set (even_keys a b n). below a k \<and> above b k)"
proof (cases a; cases b)
  fix x y
  assume ab: "a = Some x" "b = Some y"
  with assms have xy: "x < y" by (simp add: above_def)
  have "x + (y - x) * (of_nat (Suc i) / of_nat (Suc n)) < x + (y - x) * (of_nat (Suc j) / of_nat (Suc n))"
    if "i < j" for i j
    using xy that by (intro add_strict_left_mono mult_strict_left_mono divide_strict_right_mono) simp_all
  moreover have "0 < (y - x) * (of_nat (Suc i) / of_nat (Suc n))" for i
    using xy by (intro mult_pos_pos divide_pos_pos) simp_all
  moreover have "x + (y - x) * (of_nat (Suc i) / of_nat (Suc n)) < y" if "i < n" for i
  proof -
    have "(y - x) * (of_nat (Suc i) / of_nat (Suc n)) < (y - x) * 1"
      using xy that by (intro mult_strict_left_mono) (simp_all add: divide_less_eq)
    then show ?thesis by simp
  qed
  ultimately show ?thesis
    unfolding even_keys_def ab by (intro conjI sorted_map_upt) (auto simp: below_def above_def)
qed (auto simp: even_keys_def below_def above_def intro!: sorted_map_upt)

lemma rational_keys_mint: "mints_between rational_keys"
  unfolding mints_between_def
proof (intro allI impI)
  fix a b :: "rat option" and n
  assume "\<forall>k. a = Some k \<longrightarrow> key_of rational_keys k \<and> above b k"
  then have "\<forall>x. a = Some x \<longrightarrow> above b x" by blast
  from even_keys_ok [OF this, of n]
  show "length (n_keys_between rational_keys a b n) = n \<and> sorted_wrt (<) (n_keys_between rational_keys a b n) \<and>
    (\<forall>k \<in> set (n_keys_between rational_keys a b n). key_of rational_keys k \<and> below a k \<and> above b k)"
    by (simp add: rational_keys_def key_of_def even_keys_def)
qed

theorem drop_stands_where_let_go_witness:
  "in_pin_order rational_keys [10, 20, 30 :: int]
     (place_after (pin_positions_for_move rational_keys [30, 20, 10] 0 2 (\<lambda>row. \<lparr>position = None, pinned_at = row\<rparr>))
       (\<lambda>row. \<lparr>position = None, pinned_at = row\<rparr>)) = [20, 10, 30]"
proof -
  have "mints_short rational_keys (length [30, 20, 10 :: int])"
    by (simp add: mints_short_def rational_keys_def max_position_chars_def list_all_iff)
  from drop_stands_where_let_go [OF rational_keys_mint this, of "[10, 20, 30]" 0 2
    "\<lambda>row. \<lparr>position = None, pinned_at = row\<rparr>"] show ?thesis
    by (auto simp: insert_commute)
qed

end
