(* ===== verification/Undo_Stack.thy ===== *)
theory Undo_Stack
  imports Prelude
begin

text \<open>
  \<open>packages/panel/src/undo-stack.ts\<close>: the entries \<open>Cmd-Z\<close> takes back and \<open>Shift-Cmd-Z\<close> puts back,
  run one at a time, and what a run of a row entry sends. An entry is the number of the press that
  made it, which tells it from every other as its object does. The chain of promises each run waits
  on (\<open>turn\<close>) is the queue of runs asked and not settled; settling is the head's, with what it came
  to.
\<close>

subsection \<open>The lists\<close>

definition max_entries :: nat where
  "max_entries = 50"

datatype undo_ran = Applied | Changed | Refused

datatype undo_way = Undo | Redo

definition back_way :: "undo_way \<Rightarrow> undo_way" where
  "back_way way = (case way of Undo \<Rightarrow> Redo | Redo \<Rightarrow> Undo)"

text \<open>What a toast says of a run: a refusal and a row changed since always, a key's run applied by name.\<close>

datatype said = Says_Refused undo_way | Says_Changed undo_way | Says_Done undo_way nat

record undo_run =
  run_entry :: nat
  run_way :: undo_way
  run_keyed :: bool
  run_asked :: nat \<comment> \<open>the generation it was asked under\<close>

record undo_state =
  undo_line :: "nat list"
  redo_line :: "nat list"
  runs :: "undo_run list"
  generation :: nat
  pressed :: nat \<comment> \<open>how many entries were made\<close>
  toasts :: "said list"

definition new_undo :: undo_state where
  "new_undo = \<lparr>undo_line = [], redo_line = [], runs = [], generation = 0, pressed = 0, toasts = []\<rparr>"

definition line_of_way :: "undo_way \<Rightarrow> undo_state \<Rightarrow> nat list" where
  "line_of_way way s = (case way of Undo \<Rightarrow> undo_line s | Redo \<Rightarrow> redo_line s)"

definition set_line :: "undo_way \<Rightarrow> nat list \<Rightarrow> undo_state \<Rightarrow> undo_state" where
  "set_line way es s = (case way of Undo \<Rightarrow> s\<lparr>undo_line := es\<rparr> | Redo \<Rightarrow> s\<lparr>redo_line := es\<rparr>)"

text \<open>\<open>[...entries, entry].slice(-MAX_ENTRIES)\<close>.\<close>

definition stacked :: "nat list \<Rightarrow> nat \<Rightarrow> nat list" where
  "stacked entries entry = (let es = entries @ [entry] in drop (length es - max_entries) es)"

definition said_of :: "nat \<Rightarrow> undo_way \<Rightarrow> undo_ran \<Rightarrow> bool \<Rightarrow> said list" where
  "said_of entry way came keyed = (case came of
     Refused \<Rightarrow> [Says_Refused way]
   | Changed \<Rightarrow> [Says_Changed way]
   | Applied \<Rightarrow> if keyed then [Says_Done way entry] else [])"

text \<open>\<open>ran\<close> up to its wait: the entry off its list, and its run behind every run asked before.\<close>

definition ran :: "nat \<Rightarrow> undo_way \<Rightarrow> bool \<Rightarrow> undo_state \<Rightarrow> undo_state" where
  "ran entry way keyed s =
     (if entry \<notin> set (line_of_way way s) then s
      else (set_line way (filter (\<lambda>each. each \<noteq> entry) (line_of_way way s)) s)
        \<lparr>runs := runs s @ [\<lparr>run_entry = entry, run_way = way, run_keyed = keyed, run_asked = generation s\<rparr>]\<rparr>)"

definition ran_newest :: "undo_way \<Rightarrow> undo_state \<Rightarrow> undo_state" where
  "ran_newest way s = (case last_opt (line_of_way way s) of None \<Rightarrow> s | Some newest \<Rightarrow> ran newest way True s)"

definition undoable :: "undo_state \<Rightarrow> undo_state" where
  "undoable s = s\<lparr>undo_line := stacked (undo_line s) (pressed s), redo_line := [], pressed := Suc (pressed s)\<rparr>"

text \<open>\<open>ran\<close> past its wait: the run at the head settled, its entry kept for the other way where it applied.\<close>

definition settled :: "undo_ran \<Rightarrow> undo_state \<Rightarrow> undo_state option" where
  "settled came s = (case runs s of
     [] \<Rightarrow> None
   | r # rest \<Rightarrow>
       let s' = s\<lparr>runs := rest\<rparr>
       in Some (if run_asked r \<noteq> generation s then s'
          else (let kept = (if came = Applied
                  then set_line (back_way (run_way r)) (stacked (line_of_way (back_way (run_way r)) s) (run_entry r)) s'
                  else s')
            in kept\<lparr>toasts := toasts s @ said_of (run_entry r) (run_way r) came (run_keyed r)\<rparr>)))"

definition forget_undo :: "undo_state \<Rightarrow> undo_state" where
  "forget_undo s = s\<lparr>undo_line := [], redo_line := [], generation := Suc (generation s)\<rparr>"

definition undo_waits :: "undo_state \<Rightarrow> bool \<times> bool" where
  "undo_waits s = (undo_line s \<noteq> [], redo_line s \<noteq> [])"

text \<open>A press, a key, a toast's Undo, a run settling, and the account changing.\<close>

datatype undo_event = Press | Key undo_way | Toast nat | Settles undo_ran | Forget

fun undo_step :: "undo_event \<Rightarrow> undo_state \<Rightarrow> undo_state option" where
  "undo_step Press s = Some (undoable s)"
| "undo_step (Key way) s = Some (ran_newest way s)"
| "undo_step (Toast entry) s = Some (ran entry Undo False s)"
| "undo_step (Settles came) s = settled came s"
| "undo_step Forget s = Some (forget_undo s)"

inductive undo_reach :: "undo_state \<Rightarrow> bool" where
  start: "undo_reach new_undo"
| step: "undo_reach s \<Longrightarrow> undo_step e s = Some s' \<Longrightarrow> undo_reach s'"

subsection \<open>A row entry\<close>

text \<open>A kind of row write: what it reads of a row, and whether a row holds some of it.\<close>

record ('rows, 'id, 'f) row_write =
  rw_read :: "'rows \<Rightarrow> 'id \<Rightarrow> 'f option"
  rw_holds :: "'f \<Rightarrow> 'f \<Rightarrow> bool"

record ('id, 'f) row_change =
  changed_id :: 'id
  fields_before :: 'f
  fields_after :: 'f

text \<open>A row's fields by name; a field a record has not reads as undefined, which is none.\<close>

type_synonym 'v fields = "(string, 'v option) js_map"

definition get_field :: "'v fields \<Rightarrow> string \<Rightarrow> 'v option" where
  "get_field f key = (case map_of f key of None \<Rightarrow> None | Some v \<Rightarrow> v)"

definition fields_like :: "'v fields \<Rightarrow> 'v fields \<Rightarrow> 'v fields" where
  "fields_like whole like = map (\<lambda>(key, _). (key, get_field whole key)) like"

definition holds_each :: "'v fields \<Rightarrow> 'v fields \<Rightarrow> bool" where
  "holds_each current wanted \<longleftrightarrow> list_all (\<lambda>(key, v). get_field current key = v) wanted"

text \<open>
  \<open>rowsRun\<close>: what it sends, each row still holding what \<open>from\<close> names sent what \<open>to\<close> names, and what it
  came to by the answers, one a row sent.
\<close>

definition rows_due ::
  "('rows, 'id, 'f) row_write \<Rightarrow> 'rows \<Rightarrow> ('id, 'f) row_change list \<Rightarrow> (('id, 'f) row_change \<Rightarrow> 'f) \<Rightarrow>
   ('id, 'f) row_change list" where
  "rows_due W rows changes from = filter (\<lambda>change. case rw_read W rows (changed_id change) of
     None \<Rightarrow> False | Some current \<Rightarrow> rw_holds W current (from change)) changes"

definition rows_run ::
  "('rows, 'id, 'f) row_write \<Rightarrow> 'rows \<Rightarrow> ('id, 'f) row_change list \<Rightarrow> (('id, 'f) row_change \<Rightarrow> 'f) \<Rightarrow>
   (('id, 'f) row_change \<Rightarrow> 'f) \<Rightarrow> ('id \<Rightarrow> bool) \<Rightarrow> ('id \<times> 'f) list \<times> undo_ran" where
  "rows_run W rows changes from to kept =
     (let due = rows_due W rows changes from
      in if due = [] then ([], Changed)
         else (map (\<lambda>change. (changed_id change, to change)) due,
           if list_all (\<lambda>change. kept (changed_id change)) due then Applied else Refused))"

text \<open>\<open>pressRows\<close>: the rows of a press with their fields before, and those of them the service kept.\<close>

definition press_rows ::
  "('rows, 'id, 'v fields) row_write \<Rightarrow> 'rows \<Rightarrow> ('id \<times> 'v fields) list \<Rightarrow> ('id, 'v fields) row_change list" where
  "press_rows W rows asked = concat (map (\<lambda>(i, after). case rw_read W rows i of
     None \<Rightarrow> []
   | Some current \<Rightarrow> [\<lparr>changed_id = i, fields_before = fields_like current after, fields_after = after\<rparr>]) asked)"

definition landed_rows ::
  "('id, 'f) row_change list \<Rightarrow> ('id \<Rightarrow> bool) \<Rightarrow> ('id, 'f) row_change list option" where
  "landed_rows changes kept =
     (let landed = filter (\<lambda>change. kept (changed_id change)) changes
      in if landed = [] then None else Some landed)"

definition run_undo ::
  "('rows, 'id, 'f) row_write \<Rightarrow> 'rows \<Rightarrow> ('id, 'f) row_change list \<Rightarrow> ('id \<Rightarrow> bool) \<Rightarrow> ('id \<times> 'f) list \<times> undo_ran" where
  "run_undo W rows landed = rows_run W rows landed fields_after fields_before"

definition run_redo ::
  "('rows, 'id, 'f) row_write \<Rightarrow> 'rows \<Rightarrow> ('id, 'f) row_change list \<Rightarrow> ('id \<Rightarrow> bool) \<Rightarrow> ('id \<times> 'f) list \<times> undo_ran" where
  "run_redo W rows landed = rows_run W rows landed fields_before fields_after"

subsection \<open>An entry is in one place\<close>

definition places :: "undo_state \<Rightarrow> nat list" where
  "places s = undo_line s @ redo_line s @ map run_entry (runs s)"

definition undo_ok :: "undo_state \<Rightarrow> bool" where
  "undo_ok s \<longleftrightarrow> distinct (places s) \<and> (\<forall>e \<in> set (places s). e < pressed s)
     \<and> length (undo_line s) \<le> max_entries \<and> length (redo_line s) \<le> max_entries
     \<and> (\<forall>r \<in> set (runs s). run_asked r \<le> generation s)"

lemma set_line_frame [simp]:
  "runs (set_line way es s) = runs s" "generation (set_line way es s) = generation s"
  "pressed (set_line way es s) = pressed s" "toasts (set_line way es s) = toasts s"
  "undo_line (set_line Undo es s) = es" "redo_line (set_line Undo es s) = redo_line s"
  "redo_line (set_line Redo es s) = es" "undo_line (set_line Redo es s) = undo_line s"
  by (cases way; simp add: set_line_def)+

lemma stacked_ok:
  "length (stacked es e) \<le> max_entries" "set (stacked es e) \<subseteq> insert e (set es)"
  "distinct es \<Longrightarrow> e \<notin> set es \<Longrightarrow> distinct (stacked es e)"
  by (auto simp: stacked_def Let_def max_entries_def dest: in_set_dropD)

lemma undo_okI:
  assumes "distinct (undo_line s)" "distinct (redo_line s)" "distinct (map run_entry (runs s))"
    and "set (undo_line s) \<inter> set (redo_line s) = {}" "set (undo_line s) \<inter> run_entry ` set (runs s) = {}"
      "set (redo_line s) \<inter> run_entry ` set (runs s) = {}"
    and "set (undo_line s) \<subseteq> {..<pressed s}" "set (redo_line s) \<subseteq> {..<pressed s}"
      "run_entry ` set (runs s) \<subseteq> {..<pressed s}"
    and "length (undo_line s) \<le> max_entries" "length (redo_line s) \<le> max_entries"
    and "\<And>r. r \<in> set (runs s) \<Longrightarrow> run_asked r \<le> generation s"
  shows "undo_ok s"
  using assms unfolding undo_ok_def places_def by auto

lemma undo_okD:
  assumes "undo_ok s"
  shows "distinct (undo_line s)" "distinct (redo_line s)" "distinct (map run_entry (runs s))"
    and "set (undo_line s) \<inter> set (redo_line s) = {}" "set (undo_line s) \<inter> run_entry ` set (runs s) = {}"
      "set (redo_line s) \<inter> run_entry ` set (runs s) = {}"
    and "set (undo_line s) \<subseteq> {..<pressed s}" "set (redo_line s) \<subseteq> {..<pressed s}"
      "run_entry ` set (runs s) \<subseteq> {..<pressed s}"
    and "length (undo_line s) \<le> max_entries" "length (redo_line s) \<le> max_entries"
    and "r \<in> set (runs s) \<Longrightarrow> run_asked r \<le> generation s"
  using assms unfolding undo_ok_def places_def by auto

lemma disjoint_stacked:
  assumes "e \<notin> C" "set es \<inter> C = {}"
  shows "set (stacked es e) \<inter> C = {}" "C \<inter> set (stacked es e) = {}"
proof -
  have "insert e (set es) \<inter> C = {}" using assms by simp
  with stacked_ok(2) [of es e] show "set (stacked es e) \<inter> C = {}" "C \<inter> set (stacked es e) = {}" by blast+
qed

lemma subset_stacked: "e \<in> A \<Longrightarrow> set es \<subseteq> A \<Longrightarrow> set (stacked es e) \<subseteq> A"
  using stacked_ok(2) [of es e] by (meson insert_subset subset_trans)

lemma undo_ok_press:
  assumes "undo_ok s"
  shows "undo_ok (undoable s)"
proof -
  note D = undo_okD [OF assms] and S = stacked_ok [of "undo_line s" "pressed s"]
  have fresh: "pressed s \<notin> set (undo_line s)" using D(7) by auto
  have "pressed s \<notin> run_entry ` set (runs s)" using D(9) by auto
  note sub = disjoint_stacked(1) [OF this D(5)]
  have "set (undo_line s) \<subseteq> {..<Suc (pressed s)}" using D(7) by fastforce
  then have "set (stacked (undo_line s) (pressed s)) \<subseteq> {..<Suc (pressed s)}" by (intro subset_stacked) simp_all
  moreover have "run_entry ` set (runs s) \<subseteq> {..<Suc (pressed s)}" using D(9) by fastforce
  ultimately show ?thesis
    using D(3,12) S(1) S(3) [OF D(1) fresh] sub by (intro undo_okI) (simp_all add: undoable_def)
qed

text \<open>A run settled for the same account lays its entry on the other list.\<close>

lemma undo_ok_kept:
  assumes ok: "undo_ok s" and r: "runs s = r # rest"
  shows "undo_ok (set_line way (stacked (line_of_way way s) (run_entry r)) (s\<lparr>runs := rest\<rparr>))"
proof -
  note D = undo_okD [OF ok]
  have e: "run_entry r \<notin> set (undo_line s)" "run_entry r \<notin> set (redo_line s)" "run_entry r < pressed s"
    "run_entry r \<notin> run_entry ` set rest"
    using D(3,5,6,9) r by auto
  have rest: "distinct (map run_entry rest)" "run_entry ` set rest \<subseteq> {..<pressed s}"
    "set (undo_line s) \<inter> run_entry ` set rest = {}" "set (redo_line s) \<inter> run_entry ` set rest = {}"
    "\<And>q. q \<in> set rest \<Longrightarrow> run_asked q \<le> generation s"
    using D(3,5,6,9,12) r by auto
  show ?thesis
  proof (cases way)
    case Undo
    note S = stacked_ok [of "undo_line s" "run_entry r"]
    have "set (stacked (undo_line s) (run_entry r)) \<inter> set (redo_line s) = {}"
      "set (stacked (undo_line s) (run_entry r)) \<inter> run_entry ` set rest = {}"
      "set (stacked (undo_line s) (run_entry r)) \<subseteq> {..<pressed s}"
      using disjoint_stacked(1) [OF e(2) D(4)] disjoint_stacked(1) [OF e(4) rest(3)] subset_stacked [OF _ D(7)] e(3)
      by simp_all
    then show ?thesis
      using D(2,8,11) S(1) S(3) [OF D(1) e(1)] rest Undo
      by (intro undo_okI) (simp_all add: line_of_way_def)
  next
    case Redo
    note S = stacked_ok [of "redo_line s" "run_entry r"]
    have "set (undo_line s) \<inter> set (stacked (redo_line s) (run_entry r)) = {}"
      "set (stacked (redo_line s) (run_entry r)) \<inter> run_entry ` set rest = {}"
      "set (stacked (redo_line s) (run_entry r)) \<subseteq> {..<pressed s}"
      using disjoint_stacked(2) [OF e(1), of "redo_line s"] disjoint_stacked(1) [OF e(4) rest(4)]
        subset_stacked [OF _ D(8)] e(3) D(4)
      by (simp_all add: Int_commute)
    then show ?thesis
      using D(1,7,10) S(1) S(3) [OF D(2) e(2)] rest Redo
      by (intro undo_okI) (simp_all add: line_of_way_def)
  qed
qed

lemma undo_ok_ran: "undo_ok s \<Longrightarrow> undo_ok (ran e way keyed s)"
  by (cases way) (auto simp: undo_ok_def places_def ran_def line_of_way_def
      intro: le_trans [OF length_filter_le])

lemma undo_ok_settled:
  assumes ok: "undo_ok s" and step: "settled came s = Some s'"
  shows "undo_ok s'"
proof -
  from step obtain r rest where r: "runs s = r # rest" by (auto simp: settled_def split: list.splits)
  show ?thesis
  proof (cases "run_asked r = generation s \<and> came = Applied")
    case True
    with step r have s': "s' = (set_line (back_way (run_way r))
        (stacked (line_of_way (back_way (run_way r)) s) (run_entry r)) (s\<lparr>runs := rest\<rparr>))
        \<lparr>toasts := toasts s @ said_of (run_entry r) (run_way r) came (run_keyed r)\<rparr>"
      by (simp add: settled_def Let_def)
    show ?thesis
      using undo_ok_kept [OF ok r, of "back_way (run_way r)"] by (simp add: s' undo_ok_def places_def)
  next
    case False
    with step r have "undo_line s' = undo_line s" "redo_line s' = redo_line s" "runs s' = rest"
      "generation s' = generation s" "pressed s' = pressed s"
      by (auto simp: settled_def Let_def split: if_splits)
    with ok r show ?thesis by (simp add: undo_ok_def places_def)
  qed
qed

lemma undo_ok_step: "undo_ok s \<Longrightarrow> undo_step e s = Some s' \<Longrightarrow> undo_ok s'"
proof (cases e)
  case Forget
  assume "undo_ok s" "undo_step e s = Some s'"
  with Forget show ?thesis by (fastforce simp: undo_ok_def places_def forget_undo_def)
qed (auto simp: undo_ok_press undo_ok_ran ran_newest_def intro: undo_ok_settled split: option.splits)

lemma undo_reach_ok: "undo_reach s \<Longrightarrow> undo_ok s"
proof (induction rule: undo_reach.induct)
  case start
  then show ?case by (simp add: undo_ok_def places_def new_undo_def)
qed (rule undo_ok_step)

text \<open>
  C39: After any presses, keys, toasts' buttons, runs settled and changes of account, in any order, an
  entry is in one place at most: to be taken back, to be put back, or in a run asked and not settled; and
  each list keeps fifty at most. So an entry being run is not run again, by its toast or by the
  key, until its run has settled.
\<close>

theorem entry_in_one_place:
  assumes "undo_reach s"
  shows "distinct (undo_line s @ redo_line s @ map run_entry (runs s))
    \<and> length (undo_line s) \<le> 50 \<and> length (redo_line s) \<le> 50"
  using undo_reach_ok [OF assms] by (simp add: undo_ok_def places_def max_entries_def)

fun undo_run_of :: "undo_event list \<Rightarrow> undo_state \<Rightarrow> undo_state option" where
  "undo_run_of [] s = Some s"
| "undo_run_of (e # es) s = (case undo_step e s of None \<Rightarrow> None | Some s' \<Rightarrow> undo_run_of es s')"

lemma undo_run_reach: "undo_run_of es s = Some s' \<Longrightarrow> undo_reach s \<Longrightarrow> undo_reach s'"
  by (induction es arbitrary: s) (auto split: option.splits intro: undo_reach.step)

definition demo_undo :: undo_state where
  "demo_undo = \<lparr>undo_line = [0], redo_line = [2],
     runs = [\<lparr>run_entry = 1, run_way = Undo, run_keyed = False, run_asked = 0\<rparr>], generation = 0, pressed = 3,
     toasts = [Says_Done Undo 2]\<rparr>"

lemma demo_undo_reach: "undo_reach demo_undo"
proof (rule undo_run_reach [OF _ undo_reach.start])
  show "undo_run_of [Press, Press, Press, Key Undo, Settles Applied, Toast 1] new_undo = Some demo_undo"
    by code_simp
qed

theorem entry_in_one_place_witness: "distinct ([0, 2, 1] :: nat list)"
  using entry_in_one_place [OF demo_undo_reach] by (simp add: demo_undo_def)

text \<open>
  Once the account changes the lists are empty, and no run asked before it, whatever it comes
  to, lays its entry on either again or says anything.
\<close>

theorem nothing_kept_across_accounts:
  assumes "undo_reach s"
    and "settled came (forget_undo s) = Some s'"
  shows "undo_waits s' = (False, False) \<and> toasts s' = toasts s"
proof -
  from assms(2) obtain r rest where r: "runs s = r # rest"
    by (auto simp: settled_def forget_undo_def split: list.splits)
  then have "run_asked r \<le> generation s" using undo_okD(12) [OF undo_reach_ok [OF assms(1)]] by simp
  with r assms(2) show ?thesis by (auto simp: settled_def forget_undo_def Let_def undo_waits_def)
qed

theorem nothing_kept_across_accounts_witness:
  "\<exists>s'. settled Applied (forget_undo demo_undo) = Some s' \<and> undo_waits s' = (False, False)"
proof -
  have "settled Applied (forget_undo demo_undo) = Some (demo_undo\<lparr>undo_line := [], redo_line := [],
      runs := [], generation := 1\<rparr>)" by code_simp
  with nothing_kept_across_accounts [OF demo_undo_reach this] show ?thesis by blast
qed

text \<open>
  A run asked before the account changed, and waiting for another, is still run after it: the lists
  are emptied, and the queue of runs is not.
\<close>

lemma runs_outlive_the_account:
  "map run_entry (runs (forget_undo (ran 0 Undo True demo_undo))) = [1, 0]"
  by code_simp

subsection \<open>What is taken back\<close>

lemma press_rows_in:
  "c \<in> set (press_rows W rows asked) \<longleftrightarrow> (\<exists>after f. (changed_id c, after) \<in> set asked \<and> rw_read W rows (changed_id c) = Some f \<and>
    c = \<lparr>changed_id = changed_id c, fields_before = fields_like f after, fields_after = after\<rparr>)"
  by (force simp: press_rows_def split: option.splits)

text \<open>
  Whatever the kind of row, an undo sends each row the service kept of the press, that still reads as
  holding what the press set, the fields the press named as they read when it was made, and sends no
  other row; it comes to changed exactly where it sends nothing, and to refused exactly where the
  service refuses one it sends.
\<close>

lemma undo_sends:
  assumes "landed_rows (press_rows W rows0 asked) kept = Some landed"
    and "run_undo W rows1 landed answers = (sends, came)"
  shows "(i, f) \<in> set sends \<longleftrightarrow> (\<exists>after f0 f1. (i, after) \<in> set asked \<and> kept i \<and> rw_read W rows0 i = Some f0 \<and>
      rw_read W rows1 i = Some f1 \<and> rw_holds W f1 after \<and> f = fields_like f0 after)"
    and "came = Changed \<longleftrightarrow> sends = []"
    and "came = Refused \<longleftrightarrow> (\<exists>(i, f) \<in> set sends. \<not> answers i)"
proof -
  let ?due = "rows_due W rows1 landed fields_after"
  have landed: "landed = filter (\<lambda>c. kept (changed_id c)) (press_rows W rows0 asked)"
    using assms(1) by (auto simp: landed_rows_def Let_def split: if_splits)
  have sends: "sends = map (\<lambda>c. (changed_id c, fields_before c)) ?due"
    using assms(2) by (auto simp: run_undo_def rows_run_def Let_def split: if_splits)
  have due: "c \<in> set ?due \<longleftrightarrow> c \<in> set (press_rows W rows0 asked) \<and> kept (changed_id c) \<and>
      (\<exists>f1. rw_read W rows1 (changed_id c) = Some f1 \<and> rw_holds W f1 (fields_after c))" for c
    by (auto simp: rows_due_def landed split: option.splits)
  show "(i, f) \<in> set sends \<longleftrightarrow> (\<exists>after f0 f1. (i, after) \<in> set asked \<and> kept i \<and> rw_read W rows0 i = Some f0 \<and>
      rw_read W rows1 i = Some f1 \<and> rw_holds W f1 after \<and> f = fields_like f0 after)"
    (is "?L \<longleftrightarrow> ?R")
  proof
    assume ?L
    then obtain c where "c \<in> set ?due" "i = changed_id c" "f = fields_before c" by (auto simp: sends)
    then show ?R unfolding due press_rows_in by (metis row_change.select_convs(2,3))
  next
    assume ?R
    then obtain after f0 f1 where of: "(i, after) \<in> set asked" "kept i" "rw_read W rows0 i = Some f0"
      "rw_read W rows1 i = Some f1" "rw_holds W f1 after" "f = fields_like f0 after" by blast
    let ?c = "\<lparr>changed_id = i, fields_before = fields_like f0 after, fields_after = after\<rparr>"
    have "?c \<in> set ?due" unfolding due press_rows_in using of by auto
    then have "(changed_id ?c, fields_before ?c) \<in> set sends" unfolding sends set_map by (rule imageI)
    then show ?L by (simp add: of(6))
  qed
  show "came = Changed \<longleftrightarrow> sends = []" "came = Refused \<longleftrightarrow> (\<exists>(i, f) \<in> set sends. \<not> answers i)"
    using assms(2) by (auto simp: run_undo_def rows_run_def Let_def list_all_iff split: if_splits)
qed

end
