(* ===== verification/List_Selection.thy ===== *)
theory List_Selection
  imports Prelude
begin

text \<open>
  \<open>packages/ui/src/components/selection/list-selection.ts\<close>: the rows of a list chosen at once. The
  rows a list draws are a value the page hands each event, each with the element it is (a number),
  its key, the run it stands in, and whether it belongs to the list and is available. The owner
  draws the list with the set it is handed, or with one of its own. A set is the list of its keys in
  the order a \<open>Set\<close> holds them.
\<close>

datatype plain_press = Keeps | Clears

record drawn_row =
  row_element :: nat
  row_key :: string
  row_run :: "nat option"
  row_of_list :: bool
  row_available :: bool

record anchor =
  anchor_key :: string
  anchor_base :: "string list"
  anchor_head :: string
  anchor_left :: "string list"

text \<open>What the hook holds and reads: the set drawn with, none where the list chooses nothing.\<close>

record selection_state =
  chosen :: "string list option"
  anchored :: "anchor option"
  focused :: "string option" \<comment> \<open>the row the last key moved the focus to\<close>

record selection_page =
  drawn :: "drawn_row list"
  listed :: "string list list option"
  plain_does :: plain_press

definition choosable_of :: "drawn_row list \<Rightarrow> drawn_row list" where
  "choosable_of rows = filter (\<lambda>r. row_of_list r \<and> row_available r) rows"

definition in_run_of :: "drawn_row list \<Rightarrow> drawn_row \<Rightarrow> drawn_row list" where
  "in_run_of rows press = (case row_run press of
     None \<Rightarrow> rows | Some run \<Rightarrow> filter (\<lambda>r. row_run r = Some run) rows)"

definition same_keys :: "string list \<Rightarrow> string list \<Rightarrow> bool" where
  "same_keys a b \<longleftrightarrow> length a = length b \<and> list_all (\<lambda>key. key \<in> set b) a"

text \<open>\<open>slice(min, max + 1)\<close> of the ends, each \<open>indexOf\<close>, which is one before the first where it lists none.\<close>

definition index_of :: "string list \<Rightarrow> string \<Rightarrow> int" where
  "index_of keys key = (case find_index (\<lambda>k. k = key) keys of None \<Rightarrow> -1 | Some i \<Rightarrow> int i)"

definition js_slice :: "'a list \<Rightarrow> int \<Rightarrow> int \<Rightarrow> 'a list" where
  "js_slice xs from until =
     (let n = int (length xs); bound = (\<lambda>i. if i < 0 then max 0 (n + i) else min i n)
      in drop (nat (bound from)) (take (nat (bound until)) xs))"

definition with_run :: "string list \<Rightarrow> string list \<Rightarrow> string \<Rightarrow> string \<Rightarrow> string list" where
  "with_run keys base from to =
     (let end = index_of keys to; found = index_of keys from;
          start = (if found < 0 then end else found)
      in uniq (base @ js_slice keys (min start end) (max start end + 1)))"

definition run_listing :: "string list list \<Rightarrow> string \<Rightarrow> string list" where
  "run_listing order key = (case List.find (\<lambda>run. key \<in> set run) order of None \<Rightarrow> [] | Some run \<Rightarrow> run)"

text \<open>An anchor stands only while the set is the one it left.\<close>

definition standing_anchor :: "selection_state \<Rightarrow> string list \<Rightarrow> anchor option" where
  "standing_anchor s current = (case anchored s of
     None \<Rightarrow> None | Some held \<Rightarrow> if same_keys (anchor_left held) current then Some held else None)"

text \<open>\<open>hand\<close>: the owner draws the list with the set handed.\<close>

definition hand_set :: "string list \<Rightarrow> anchor option \<Rightarrow> selection_state \<Rightarrow> selection_state" where
  "hand_set next to s = s\<lparr>chosen := Some next, anchored := to\<rparr>"

definition anchor_at :: "string \<Rightarrow> string list \<Rightarrow> anchor" where
  "anchor_at key base = \<lparr>anchor_key = key, anchor_base = base, anchor_head = key, anchor_left = base\<rparr>"

definition toggle :: "string \<Rightarrow> selection_state \<Rightarrow> selection_state" where
  "toggle key s = (case chosen s of
     None \<Rightarrow> s
   | Some current \<Rightarrow>
       let next = (if key \<in> set current then filter (\<lambda>k. k \<noteq> key) current else current @ [key])
       in hand_set next (Some (anchor_at key next)) s)"

text \<open>The keys a run is taken over: the run of the page's order that lists the row, or of the rows drawn.\<close>

definition run_keys :: "selection_page \<Rightarrow> drawn_row \<Rightarrow> string list" where
  "run_keys page row = (case listed page of
     None \<Rightarrow> map row_key (in_run_of (choosable_of (drawn page)) row)
   | Some runs \<Rightarrow> run_listing runs (row_key row))"

definition press_row ::
  "selection_page \<Rightarrow> drawn_row \<Rightarrow> bool \<Rightarrow> bool \<Rightarrow> selection_state \<Rightarrow> selection_state \<times> bool" where
  "press_row page row shift command s = (case chosen s of
     None \<Rightarrow> (s, False)
   | Some current \<Rightarrow>
       let key = row_key row
       in if shift then
            (if \<not> row_of_list row then (s, False)
             else (let from = (case standing_anchor s current of None \<Rightarrow> anchor_at key current | Some a \<Rightarrow> a);
                       next = with_run (run_keys page row) (anchor_base from) (anchor_key from) key
               in (hand_set next (Some (from\<lparr>anchor_head := key, anchor_left := next\<rparr>)) s, True)))
          else if command then (toggle key s, True)
          else if plain_does page = Clears \<and> current \<noteq> [] then (hand_set [] (Some (anchor_at key [])) s, False)
          else (s\<lparr>anchored := Some (anchor_at key current)\<rparr>, False))"

definition pass_over :: "selection_page \<Rightarrow> bool \<Rightarrow> bool \<Rightarrow> selection_state \<Rightarrow> selection_state" where
  "pass_over page shift command s = (case chosen s of
     None \<Rightarrow> s
   | Some current \<Rightarrow>
       if plain_does page \<noteq> Clears \<or> shift \<or> command \<or> current = [] then s else hand_set [] None s)"

datatype pressed_key = Escape | Letter_A | Letter_X | Arrow_Down | Arrow_Up | Other_Key

record key_event =
  pressed_key :: pressed_key
  with_shift :: bool
  with_command :: bool
  with_alt :: bool
  composing :: bool
  in_field :: bool \<comment> \<open>typed in a field, or prevented by another\<close>
  on_element :: "nat option"

definition step_of :: "pressed_key \<Rightarrow> int" where
  "step_of k = (case k of Arrow_Down \<Rightarrow> 1 | Arrow_Up \<Rightarrow> -1 | _ \<Rightarrow> 0)"

definition row_on :: "selection_page \<Rightarrow> key_event \<Rightarrow> drawn_row option" where
  "row_on page e = List.find (\<lambda>r. Some (row_element r) = on_element e) (choosable_of (drawn page))"

text \<open>The run grown a row from the row in hand, which the focus follows.\<close>

definition arrow_run ::
  "selection_page \<Rightarrow> drawn_row \<Rightarrow> int \<Rightarrow> string list \<Rightarrow> selection_state \<Rightarrow> selection_state" where
  "arrow_run page in_hand step current s =
     (let keys = run_keys page in_hand;
          here = row_key in_hand;
          place = index_of keys here;
          from = (case standing_anchor s current of
              Some held \<Rightarrow> if anchor_head held = here then held else anchor_at here current
            | None \<Rightarrow> anchor_at here current)
      in case (if place < 0 then None else nth_opt keys (place + step)) of
           None \<Rightarrow> s
         | Some to \<Rightarrow>
             let next = with_run keys (anchor_base from) (anchor_key from) to
             in (hand_set next (Some (from\<lparr>anchor_head := to, anchor_left := next\<rparr>)) s)\<lparr>focused := Some to\<rparr>)"

definition on_key_down :: "selection_page \<Rightarrow> key_event \<Rightarrow> selection_state \<Rightarrow> selection_state \<times> bool" where
  "on_key_down page e s = (case chosen s of
     None \<Rightarrow> (s, False)
   | Some current \<Rightarrow>
       if in_field e then (s, False)
       else if pressed_key e = Escape then
         (if current = [] \<or> composing e then (s, False) else (hand_set [] None s, True))
       else if with_command e \<and> \<not> with_shift e \<and> \<not> with_alt e \<and> pressed_key e = Letter_A then
         (hand_set (uniq (case listed page of
             Some runs \<Rightarrow> concat runs
           | None \<Rightarrow> map row_key (choosable_of (drawn page)))) None s, True)
       else if \<not> with_command e \<and> \<not> with_shift e \<and> \<not> with_alt e \<and> pressed_key e = Letter_X then
         (case row_on page e of None \<Rightarrow> (s, False) | Some row \<Rightarrow> (toggle (row_key row) s, True))
       else if step_of (pressed_key e) = 0 \<or> \<not> with_shift e \<or> with_command e \<or> with_alt e then (s, False)
       else (case row_on page e of
           None \<Rightarrow> (s, False)
         | Some row \<Rightarrow> (arrow_run page row (step_of (pressed_key e)) current s, True)))"

subsection \<open>A run of keys\<close>

lemma index_of_nth: "distinct keys \<Longrightarrow> i < length keys \<Longrightarrow> index_of keys (keys ! i) = int i"
proof -
  assume keys: "distinct keys" "i < length keys"
  then obtain j where j: "find_index (\<lambda>k. k = keys ! i) keys = Some j"
    by (cases "find_index (\<lambda>k. k = keys ! i) keys") auto
  with find_index_Some [OF j] keys nth_eq_iff_index_eq [of keys j i] have "j = i" by simp
  with j show ?thesis by (simp add: index_of_def)
qed

text \<open>The keys from one place to another, whichever comes first.\<close>

definition run_between :: "'a list \<Rightarrow> nat \<Rightarrow> nat \<Rightarrow> 'a list" where
  "run_between keys i j = drop (min i j) (take (Suc (max i j)) keys)"

lemma slice_nat:
  assumes "a < length xs" "b < length xs"
  shows "js_slice xs (int b) (int a + 1) = drop b (take (Suc a) xs)"
proof -
  have "min (int a + 1) (int (length xs)) = int (Suc a)" "min (int b) (int (length xs)) = int b"
    using assms by simp_all
  moreover have "nat (1 + int a) = Suc a" by simp
  ultimately show ?thesis by (simp add: js_slice_def Let_def)
qed

lemma slice_run: "i < length keys \<Longrightarrow> j < length keys \<Longrightarrow>
    js_slice keys (min (int i) (int j)) (max (int i) (int j) + 1) = run_between keys i j"
  using slice_nat [of "max i j" keys "min i j"] by (simp add: run_between_def of_nat_max of_nat_min min_less_iff_disj)

lemma with_run_nth:
  assumes "distinct keys" "i < length keys" "j < length keys"
  shows "with_run keys base (keys ! i) (keys ! j) = uniq (base @ run_between keys i j)"
  using assms by (simp add: with_run_def Let_def index_of_nth slice_run)

lemma run_between_self: "i < length keys \<Longrightarrow> run_between keys i i = [keys ! i]"
  by (simp add: run_between_def take_Suc_conv_app_nth)

lemma same_keys_refl [simp]: "same_keys xs xs"
  by (simp add: same_keys_def list_all_iff)

text \<open>
  A second shift-press swaps the run the first chose for its own: pressing one row and then
  another chooses what pressing the other alone would have, and leaves the same anchor.
\<close>

theorem second_run_replaces_first:
  assumes "chosen s = Some current" "standing_anchor s current = Some a"
    and "row_of_list b" "row_of_list c" "fst (press_row page b True command s) = s'"
  shows "fst (press_row page c True command' s') = fst (press_row page c True command' s)"
proof -
  let ?next = "with_run (run_keys page b) (anchor_base a) (anchor_key a) (row_key b)"
  have s': "s' = s\<lparr>chosen := Some ?next, anchored := Some (a\<lparr>anchor_head := row_key b, anchor_left := ?next\<rparr>)\<rparr>"
    using assms by (auto simp: press_row_def Let_def hand_set_def)
  have "standing_anchor s' ?next = Some (a\<lparr>anchor_head := row_key b, anchor_left := ?next\<rparr>)"
    by (simp add: standing_anchor_def s')
  then show ?thesis using assms(1-4) by (simp add: press_row_def Let_def hand_set_def s')
qed

text \<open>The keys of a page whose rows are drawn all in one run, and an arrow pressed on the row at a place.\<close>

definition one_run :: "selection_page \<Rightarrow> string list \<Rightarrow> bool" where
  "one_run page keys \<longleftrightarrow> distinct keys \<and> (\<forall>row. row_key row \<in> set keys \<longrightarrow> run_keys page row = keys)"

text \<open>Where a walk of arrows from a place comes to, stopped at either end, and whether it moved.\<close>

definition walked :: "nat \<Rightarrow> int \<Rightarrow> nat \<times> bool \<Rightarrow> nat \<times> bool" where
  "walked n step = (\<lambda>(j, moved). if 0 \<le> int j + step \<and> int j + step < int n then (nat (int j + step), True) else (j, moved))"

text \<open>A walk's presses: each arrow on the row the focus stands on.\<close>

fun arrows :: "selection_page \<Rightarrow> (string \<Rightarrow> drawn_row) \<Rightarrow> int list \<Rightarrow> string \<Rightarrow> selection_state \<Rightarrow> selection_state" where
  "arrows page row_at [] here s = s"
| "arrows page row_at (step # steps) here s =
     (case chosen s of
        None \<Rightarrow> s
      | Some current \<Rightarrow>
          let s' = arrow_run page (row_at here) step current (s\<lparr>focused := Some here\<rparr>)
          in arrows page row_at steps (case focused s' of None \<Rightarrow> here | Some k \<Rightarrow> k) s')"

text \<open>A run held: anchored at a place over a set, reaching another.\<close>

definition holds_run :: "string list \<Rightarrow> nat \<Rightarrow> string list \<Rightarrow> nat \<Rightarrow> selection_state \<Rightarrow> bool" where
  "holds_run keys i base j s \<longleftrightarrow> (\<exists>left. chosen s = Some left \<and> set left = set base \<union> set (run_between keys i j) \<and>
     anchored s = Some \<lparr>anchor_key = keys ! i, anchor_base = base, anchor_head = keys ! j, anchor_left = left\<rparr>)"

lemma arrow_moves:
  assumes "one_run page keys" "row_key row = keys ! j" "j < length keys" "i < length keys"
    and begun: "(case standing_anchor s current of
        Some held \<Rightarrow> if anchor_head held = keys ! j then held else anchor_at (keys ! j) current
      | None \<Rightarrow> anchor_at (keys ! j) current) =
      \<lparr>anchor_key = keys ! i, anchor_base = base, anchor_head = keys ! j, anchor_left = left\<rparr>"
  shows "arrow_run page row step current s =
    (if 0 \<le> int j + step \<and> int j + step < int (length keys)
     then (let to = nat (int j + step); next = uniq (base @ run_between keys i to)
       in s\<lparr>chosen := Some next, anchored := Some \<lparr>anchor_key = keys ! i, anchor_base = base,
            anchor_head = keys ! to, anchor_left = next\<rparr>, focused := Some (keys ! to)\<rparr>)
     else s)"
proof -
  have keys: "run_keys page row = keys" "distinct keys" using assms(1-3) by (auto simp: one_run_def)
  note arrow = arrow_run_def [of page row step current s, unfolded Let_def keys(1) assms(2) begun
    index_of_nth [OF keys(2) assms(3)]]
  show ?thesis
  proof (cases "0 \<le> int j + step \<and> int j + step < int (length keys)")
    case True
    then have to: "nat (int j + step) < length keys" by linarith
    from True have "nth_opt keys (int j + step) = Some (keys ! nat (int j + step))" by (simp add: nth_opt_def)
    with True show ?thesis
      unfolding arrow by (simp add: with_run_nth [OF keys(2) assms(4) to] hand_set_def Let_def)
  next
    case False
    then have "nth_opt keys (int j + step) = None" by (auto simp: nth_opt_None)
    with False show ?thesis unfolding arrow by auto
  qed
qed

lemma arrows_held:
  assumes "one_run page keys" "\<And>k. row_key (row_at k) = k" "i < length keys"
  shows "j < length keys \<Longrightarrow> holds_run keys i base j s \<Longrightarrow>
    holds_run keys i base (fst (fold (walked (length keys)) steps (j, True)))
      (arrows page row_at steps (keys ! j) s)"
proof (induction steps arbitrary: j s)
  case Nil
  then show ?case by simp
next
  case (Cons step steps)
  from Cons.prems(2) obtain left where s: "chosen s = Some left"
    "anchored s = Some \<lparr>anchor_key = keys ! i, anchor_base = base, anchor_head = keys ! j, anchor_left = left\<rparr>"
    by (auto simp: holds_run_def)
  let ?s = "s\<lparr>focused := Some (keys ! j)\<rparr>"
  have stands: "(case standing_anchor ?s left of
        Some held \<Rightarrow> if anchor_head held = keys ! j then held else anchor_at (keys ! j) left
      | None \<Rightarrow> anchor_at (keys ! j) left) =
      \<lparr>anchor_key = keys ! i, anchor_base = base, anchor_head = keys ! j, anchor_left = left\<rparr>"
    by (simp add: standing_anchor_def s)
  note moves = arrow_moves [OF assms(1) assms(2) Cons.prems(1) assms(3) stands, of step]
  show ?case
  proof (cases "0 \<le> int j + step \<and> int j + step < int (length keys)")
    case True
    let ?to = "nat (int j + step)"
    have to: "?to < length keys" using True by linarith
    let ?s' = "arrow_run page (row_at (keys ! j)) step left ?s"
    have "holds_run keys i base ?to ?s'" "focused ?s' = Some (keys ! ?to)"
      using True by (simp_all add: moves holds_run_def Let_def)
    with Cons.IH [OF to, of ?s'] True s(1) show ?thesis by (simp add: walked_def Let_def)
  next
    case False
    then have same: "arrow_run page (row_at (keys ! j)) step left ?s = ?s" by (simp only: moves if_False)
    have "walked (length keys) step (j, True) = (j, True)" using False by (simp only: walked_def prod.case if_False)
    moreover have "holds_run keys i base j ?s" using Cons.prems(2) by (simp add: holds_run_def)
    ultimately show ?thesis using Cons.IH [OF Cons.prems(1), of ?s] s(1) same by (simp add: Let_def)
  qed
qed

text \<open>
  Shift and the arrows, from a row in hand over a set chosen before, grow and shrink one run: after
  any of them, however they alternate, the rows chosen are that set and the rows between the row
  they began on and the one they have come to, which stops at either end; and the set alone where
  none has moved.
\<close>

theorem arrows_choose_one_run:
  assumes "one_run page keys" "\<forall>k. row_key (row_at k) = k" "i < length keys"
    and "chosen s = Some base" "anchored s = None"
    and "(j, moved) = fold (walked (length keys)) steps (i, False)"
  shows "\<exists>left. chosen (arrows page row_at steps (keys ! i) s) = Some left \<and>
    set left = set base \<union> (if moved then set (run_between keys i j) else {})"
  using assms(4-)
proof (induction steps arbitrary: s)
  case Nil
  then show ?case by simp
next
  case (Cons step steps)
  let ?s = "s\<lparr>focused := Some (keys ! i)\<rparr>"
  have begun: "(case standing_anchor ?s base of
        Some held \<Rightarrow> if anchor_head held = keys ! i then held else anchor_at (keys ! i) base
      | None \<Rightarrow> anchor_at (keys ! i) base) =
      \<lparr>anchor_key = keys ! i, anchor_base = base, anchor_head = keys ! i, anchor_left = base\<rparr>"
    using Cons.prems(2) by (simp add: standing_anchor_def anchor_at_def)
  have key: "row_key (row_at (keys ! i)) = keys ! i" using assms(2) by simp
  note moves = arrow_moves [OF assms(1) key assms(3) assms(3) begun, of step]
  show ?case
  proof (cases "0 \<le> int i + step \<and> int i + step < int (length keys)")
    case True
    let ?to = "nat (int i + step)"
    let ?s' = "arrow_run page (row_at (keys ! i)) step base ?s"
    have to: "?to < length keys" using True by linarith
    have held: "holds_run keys i base ?to ?s'" "focused ?s' = Some (keys ! ?to)"
      using True by (simp_all add: moves holds_run_def Let_def)
    have walk: "(j, moved) = fold (walked (length keys)) steps (?to, True)"
    proof -
      have "walked (length keys) step (i, False) = (?to, True)" using True by (simp add: walked_def)
      with Cons.prems(3) show ?thesis by simp
    qed
    have "snd (fold (walked (length keys)) steps (k, True))" for k
      by (induction steps arbitrary: k) (auto simp: walked_def)
    with walk have "moved" by (metis snd_conv)
    moreover have "holds_run keys i base j (arrows page row_at steps (keys ! ?to) ?s')"
      using arrows_held [OF assms(1) _ assms(3) to held(1), of row_at steps] assms(2) walk by (metis fst_conv)
    ultimately show ?thesis using Cons.prems(1) held(2) by (auto simp: holds_run_def Let_def)
  next
    case False
    then have same: "arrow_run page (row_at (keys ! i)) step base ?s = ?s" by (simp only: moves if_False)
    have "walked (length keys) step (i, False) = (i, False)" using False by (simp only: walked_def prod.case if_False)
    then have "(j, moved) = fold (walked (length keys)) steps (i, False)" using Cons.prems(3) by simp
    with Cons.IH [of ?s] Cons.prems(1,2) same show ?thesis by (simp add: Let_def)
  qed
qed

definition demo_page :: selection_page where
  "demo_page = \<lparr>drawn = [], listed = Some [[''a'', ''b'', ''c'']], plain_does = Keeps\<rparr>"

definition demo_row_of :: "string \<Rightarrow> drawn_row" where
  "demo_row_of k = \<lparr>row_element = 0, row_key = k, row_run = None, row_of_list = True, row_available = True\<rparr>"

definition demo_selection :: selection_state where
  "demo_selection = \<lparr>chosen = Some [''z''], anchored = None, focused = None\<rparr>"

theorem arrows_choose_one_run_witness:
  "\<exists>left. chosen (arrows demo_page demo_row_of [1, 1, 1, -1] ''b'' demo_selection) = Some left
    \<and> set left = {''z'', ''b''}"
proof -
  have run: "one_run demo_page [''a'', ''b'', ''c'']"
    by (auto simp: one_run_def run_keys_def demo_page_def run_listing_def)
  have keyed: "\<forall>k. row_key (demo_row_of k) = k" by (simp add: demo_row_of_def)
  have walk: "(1, True) = fold (walked (length [''a'', ''b'', ''c''])) [1, 1, 1, -1] (1, False)" by code_simp
  have "chosen demo_selection = Some [''z'']" "anchored demo_selection = None" by (simp_all add: demo_selection_def)
  from arrows_choose_one_run [OF run keyed _ this walk] show ?thesis
    by (simp add: run_between_self insert_commute)
qed

theorem second_run_replaces_first_witness:
  "fst (press_row demo_page (demo_row_of ''a'') True False (fst (press_row demo_page (demo_row_of ''c'') True False
     (demo_selection\<lparr>anchored := Some (anchor_at ''b'' [''z''])\<rparr>))))
   = fst (press_row demo_page (demo_row_of ''a'') True False (demo_selection\<lparr>anchored := Some (anchor_at ''b'' [''z''])\<rparr>))"
  by (rule second_run_replaces_first [where current = "[''z'']" and a = "anchor_at ''b'' [''z'']", OF _ _ _ _ refl])
    (simp_all add: demo_selection_def demo_row_of_def standing_anchor_def anchor_at_def)

end
