(* ===== verification/Turn_Rows.thy ===== *)
theory Turn_Rows
  imports Prelude
begin

text \<open>
  \<open>packages/features/src/turn-rows.ts\<close>: how a turn's blocks fold into the rows a transcript draws. Calls
  next to one another are one group, open while it is the latest work of a turn that moves; a
  finished turn folds the work ahead of its last words into one line, split at the messages that
  reached it. A block is whatever the tab's reading (\<open>row_reading\<close>) says of it. The kinds of call and
  the words of their lines are not here: the fold reads none of them.
\<close>

subsection \<open>What the fold reads\<close>

datatype row_part = Words_Part | Call_Part | Lone_Call_Part | Subagent_Part | Agent_Part | Note_Part | Arrived_Part

record 'b row_reading =
  row_key :: "'b \<Rightarrow> nat \<Rightarrow> string"
  part :: "'b \<Rightarrow> row_part"
  running :: "'b \<Rightarrow> bool"
  kept :: "('b \<Rightarrow> bool) option" \<comment> \<open>none stays out where unsaid\<close>

datatype 'b turn_row =
    Block_Row string 'b
  | Group_Row string "'b list" string bool bool \<comment> \<open>its blocks, summary, and whether it is open and running\<close>
  | Folded_Row string string "'b turn_row list"

definition keeps :: "'b row_reading \<Rightarrow> 'b \<Rightarrow> bool" where
  "keeps read b \<longleftrightarrow> (case kept read of Some k \<Rightarrow> k b | None \<Rightarrow> False)"

type_synonym 'b keyed = "string \<times> 'b"

subsection \<open>Counts and their words\<close>

record held_counts =
  calls :: nat
  subagents :: nat
  started_agents :: nat
  messages :: nat

text \<open>A whole number in digits, as a template literal writes it.\<close>

fun decimal :: "nat \<Rightarrow> string" where
  "decimal n = (if n < 10 then [char_of (48 + n)] else decimal (n div 10) @ [char_of (48 + n mod 10)])"

declare decimal.simps [simp del]

definition noun_for :: "nat \<Rightarrow> string \<times> string \<Rightarrow> string" where
  "noun_for n noun = (if n = 1 then fst noun else snd noun)"

definition count_words :: "nat \<Rightarrow> string \<times> string \<Rightarrow> string" where
  "count_words n noun = decimal n @ '' '' @ noun_for n noun"

fun joined_by :: "string \<Rightarrow> string list \<Rightarrow> string" where
  "joined_by sep [] = []"
| "joined_by sep [x] = x"
| "joined_by sep (x # y # ys) = x @ sep @ joined_by sep (y # ys)"

definition folded_summary :: "held_counts \<Rightarrow> string" where
  "folded_summary h = joined_by '', ''
     ((if calls h > 0 then [count_words (calls h) (''tool call'', ''tool calls'')] else []) @
      (if subagents h > 0 then [count_words (subagents h) (''subagent'', ''subagents'')] else []) @
      (if started_agents h > 0 then [''started '' @ count_words (started_agents h) (''agent'', ''agents'')] else []) @
      (if messages h > 0 then [count_words (messages h) (''message'', ''messages'')] else []))"

definition group_summary :: "held_counts \<Rightarrow> string" where
  "group_summary h = (let tools = calls h + started_agents h in joined_by '', ''
     ((if tools > 0 then [count_words tools (''tool call'', ''tool calls'')] else []) @
      (if subagents h > 0 then [count_words (subagents h) (''subagent'', ''subagents'')] else [])))"

definition count_block :: "row_part \<Rightarrow> held_counts \<Rightarrow> held_counts" where
  "count_block p h =
     \<lparr>calls = calls h + (if p = Call_Part \<or> p = Lone_Call_Part then 1 else 0),
      subagents = subagents h + (if p = Subagent_Part then 1 else 0),
      started_agents = started_agents h + (if p = Agent_Part then 1 else 0),
      messages = messages h + (if p = Words_Part then 1 else 0)\<rparr>"

definition counted :: "'b keyed list \<Rightarrow> 'b row_reading \<Rightarrow> held_counts" where
  "counted blocks read = fold (\<lambda>(_, b). count_block (part read b)) blocks
     \<lparr>calls = 0, subagents = 0, started_agents = 0, messages = 0\<rparr>"

definition foldable :: "held_counts \<Rightarrow> nat" where
  "foldable h = calls h + subagents h + started_agents h"

subsection \<open>Groups\<close>

definition is_work :: "row_part \<Rightarrow> bool" where
  "is_work p \<longleftrightarrow> p = Call_Part \<or> p = Subagent_Part \<or> p = Agent_Part"

definition runs_with_calls :: "row_part \<Rightarrow> bool" where
  "runs_with_calls p \<longleftrightarrow> is_work p \<or> p = Note_Part"

text \<open>\<open>flush\<close>: what the group gathered so far is drawn as.\<close>

definition flushed :: "'b keyed list \<Rightarrow> 'b row_reading \<Rightarrow> bool \<Rightarrow> bool \<Rightarrow> bool \<Rightarrow> 'b turn_row list" where
  "flushed gathered read moving grouped trailing =
     (let held = counted gathered read;
          work = calls held + subagents held + started_agents held;
          open = (trailing \<and> moving)
      in case gathered of
           [] \<Rightarrow> []
         | (key, _) # _ \<Rightarrow>
             if grouped \<and> work > 0 \<and> (length gathered > 1 \<or> open)
             then [Group_Row key (map snd gathered) (group_summary held) open (\<exists>(_, b) \<in> set gathered. running read b)]
             else map (\<lambda>(k, b). Block_Row k b) gathered)"

text \<open>The loop over the blocks, with the group gathered when it reaches them.\<close>

fun grouped_from ::
  "'b keyed list \<Rightarrow> 'b keyed list \<Rightarrow> 'b row_reading \<Rightarrow> bool \<Rightarrow> bool \<Rightarrow> 'b turn_row list" where
  "grouped_from gathered [] read moving grouped = flushed gathered read moving grouped True"
| "grouped_from gathered ((key, b) # rest) read moving grouped =
     (if runs_with_calls (part read b)
      then grouped_from (gathered @ [(key, b)]) rest read moving grouped
      else flushed gathered read moving grouped False @ Block_Row key b # grouped_from [] rest read moving grouped)"

definition grouped_rows :: "'b keyed list \<Rightarrow> 'b row_reading \<Rightarrow> bool \<Rightarrow> bool \<Rightarrow> 'b turn_row list" where
  "grouped_rows blocks read moving grouped = grouped_from [] blocks read moving grouped"

subsection \<open>The fold of a finished turn\<close>

datatype 'b lead_run = Arrived_Run "'b turn_row" | Work_Run "'b keyed list"

fun split_from :: "'b keyed list \<Rightarrow> 'b keyed list \<Rightarrow> 'b row_reading \<Rightarrow> 'b lead_run list" where
  "split_from blocks [] read = (if blocks \<noteq> [] then [Work_Run blocks] else [])"
| "split_from blocks ((key, b) # rest) read =
     (if part read b \<noteq> Arrived_Part then split_from (blocks @ [(key, b)]) rest read
      else (if blocks \<noteq> [] then [Work_Run blocks] else []) @
           Arrived_Run (Block_Row key b) # split_from [] rest read)"

definition split_at_arrivals :: "'b keyed list \<Rightarrow> 'b row_reading \<Rightarrow> 'b lead_run list" where
  "split_at_arrivals lead read = split_from [] lead read"

text \<open>A stretch's rows, and whether it became a fold.\<close>

definition stretch_rows :: "'b keyed list \<Rightarrow> 'b row_reading \<Rightarrow> string \<Rightarrow> nat \<Rightarrow> 'b turn_row list \<times> bool" where
  "stretch_rows blocks read turn_key folds = (case blocks of
     [] \<Rightarrow> ([], False)
   | (key, b) # _ \<Rightarrow>
       let held = counted blocks read in
       if foldable held = 0 then (grouped_rows blocks read False True, False)
       else if length blocks = 1 \<and> messages held = 0 then ([Block_Row key b], False)
       else ([Folded_Row (if folds = 0 then turn_key @ ''-folded'' else key) (folded_summary held)
                (grouped_rows blocks read False False)], True))"

fun folded_from :: "nat \<Rightarrow> 'b lead_run list \<Rightarrow> 'b row_reading \<Rightarrow> string \<Rightarrow> 'b turn_row list" where
  "folded_from folds [] read turn_key = []"
| "folded_from folds (Arrived_Run row # runs) read turn_key = row # folded_from folds runs read turn_key"
| "folded_from folds (Work_Run blocks # runs) read turn_key =
     (let (rows, folded) = stretch_rows blocks read turn_key folds
      in rows @ folded_from (if folded then folds + 1 else folds) runs read turn_key)"

definition folded_lead :: "'b keyed list \<Rightarrow> 'b row_reading \<Rightarrow> string \<Rightarrow> 'b turn_row list" where
  "folded_lead lead read turn_key = folded_from 0 (split_at_arrivals lead read) read turn_key"

subsection \<open>A turn's rows\<close>

record turn_state =
  turn_key :: string
  moving :: bool
  finished :: bool

definition keyed_blocks :: "'b list \<Rightarrow> 'b row_reading \<Rightarrow> 'b keyed list" where
  "keyed_blocks blocks read = map (\<lambda>(i, b). (row_key read b i, b)) (enumerate 0 blocks)"

text \<open>\<open>findLastIndex\<close>: none where no block is found.\<close>

definition find_last_index :: "('b \<Rightarrow> bool) \<Rightarrow> 'b list \<Rightarrow> nat option" where
  "find_last_index p xs = map_option (\<lambda>i. length xs - 1 - i) (find_index p (rev xs))"

text \<open>Where the lead ends: ahead of the last words, or, in a finished turn with none that keeps a block
  out, at its end.\<close>

definition lead_end :: "'b list \<Rightarrow> 'b row_reading \<Rightarrow> bool \<Rightarrow> nat option" where
  "lead_end blocks read is_finished =
     (case find_last_index (\<lambda>b. part read b = Words_Part) blocks of
        Some w \<Rightarrow> Some w
      | None \<Rightarrow> if is_finished \<and> (\<exists>b \<in> set blocks. keeps read b) then Some (length blocks) else None)"

definition turn_rows :: "'b list \<Rightarrow> 'b row_reading \<Rightarrow> turn_state \<Rightarrow> 'b turn_row list" where
  "turn_rows blocks read turn =
     (let keyed = keyed_blocks blocks read;
          whole = grouped_rows keyed read (moving turn) True
      in case lead_end blocks read (finished turn) of
           None \<Rightarrow> whole
         | Some final \<Rightarrow>
             if \<not> finished turn \<or> final < 1 then whole
             else
               let kept_out = filter (\<lambda>e. keeps read (snd e)) (take final keyed);
                   lead = filter (\<lambda>e. \<not> keeps read (snd e)) (take final keyed);
                   held = counted lead read;
                   rest = grouped_rows (kept_out @ drop final keyed) read (moving turn) True
               in if foldable held = 0
                  then if kept_out = [] then whole
                       else grouped_rows lead read (moving turn) True @ rest
                  else folded_lead lead read (turn_key turn) @ rest)"

end
