(* ===== verification/Turn_Rows_Properties.thy ===== *)
theory Turn_Rows_Properties
  imports Turn_Rows "HOL-Library.Sublist" "HOL-Library.Multiset"
begin

text \<open>
  What the fold of a turn (\<open>Turn_Rows\<close>) never loses: every block is drawn once and in its order, a fold
  hides work alone and never one row, one group at most stands open, and no two rows share a key.
\<close>

named_theorems turn_row_defs "the parts the fold is put together from"

declare flushed_def [turn_row_defs] stretch_rows_def [turn_row_defs] grouped_rows_def [turn_row_defs]
  folded_lead_def [turn_row_defs] split_at_arrivals_def [turn_row_defs]

subsection \<open>What is drawn\<close>

fun drawn :: "'b turn_row \<Rightarrow> 'b list" where
  "drawn (Block_Row _ b) = [b]"
| "drawn (Group_Row _ bs _ _ _) = bs"
| "drawn (Folded_Row _ _ rows) = concat (map drawn rows)"

abbreviation drawn_rows :: "'b turn_row list \<Rightarrow> 'b list" where
  "drawn_rows rows \<equiv> concat (map drawn rows)"

lemma drawn_block_rows [simp]: "concat (map (drawn \<circ> (\<lambda>(k, b). Block_Row k b)) es) = map snd es"
  by (induction es) auto

lemma drawn_flushed [simp]: "drawn_rows (flushed g read mv grouped trailing) = map snd g"
  by (auto simp: flushed_def Let_def split: list.splits)

lemma drawn_grouped_from [simp]:
  "drawn_rows (grouped_from g es read mv grouped) = map snd g @ map snd es"
  by (induction g es read mv grouped rule: grouped_from.induct) simp_all

lemma drawn_grouped_rows [simp]: "drawn_rows (grouped_rows es read mv grouped) = map snd es"
  by (simp add: grouped_rows_def)

lemma drawn_stretch_rows [simp]: "drawn_rows (fst (stretch_rows es read key n)) = map snd es"
  by (auto simp: stretch_rows_def Let_def split: list.splits)

text \<open>The blocks of a stretch, and the keys its rows may carry.\<close>

fun run_blocks :: "'b lead_run \<Rightarrow> 'b keyed list" where
  "run_blocks (Arrived_Run (Block_Row k b)) = [(k, b)]"
| "run_blocks (Arrived_Run _) = []"
| "run_blocks (Work_Run es) = es"

definition plain_runs :: "'b lead_run list \<Rightarrow> bool" where
  "plain_runs runs \<longleftrightarrow> (\<forall>run \<in> set runs. \<forall>row. run = Arrived_Run row \<longrightarrow> (\<exists>k b. row = Block_Row k b))"

lemma plain_runs_simps [simp]:
  "plain_runs []"
  "plain_runs (Work_Run es # runs) = plain_runs runs"
  "plain_runs (Arrived_Run row # runs) \<longleftrightarrow> (\<exists>k b. row = Block_Row k b) \<and> plain_runs runs"
  "plain_runs (xs @ ys) \<longleftrightarrow> plain_runs xs \<and> plain_runs ys"
  by (auto simp: plain_runs_def)

lemma plain_split_from [simp]: "plain_runs (split_from bs es read)"
  by (induction bs es read rule: split_from.induct) auto

lemma blocks_split_from [simp]: "concat (map run_blocks (split_from bs es read)) = bs @ es"
  by (induction bs es read rule: split_from.induct) auto

lemma drawn_folded_from:
  "plain_runs runs \<Longrightarrow> drawn_rows (folded_from n runs read key) = map snd (concat (map run_blocks runs))"
proof (induction n runs read key rule: folded_from.induct)
  case (3 folds blocks runs read key)
  obtain rows folded where stretch: "stretch_rows blocks read key folds = (rows, folded)" by fastforce
  then have "drawn_rows rows = map snd blocks" using drawn_stretch_rows [of blocks read key folds] by simp
  then show ?case using "3.IH" [OF stretch [symmetric] refl] "3.prems" by (simp add: stretch)
qed auto

lemma drawn_folded_lead [simp]: "drawn_rows (folded_lead es read key) = map snd es"
  by (simp add: folded_lead_def split_at_arrivals_def drawn_folded_from)

subsection \<open>Where the lead ends\<close>

lemma find_last_index_Some:
  assumes "find_last_index p xs = Some i"
  shows "i < length xs" and "p (xs ! i)"
proof -
  obtain j where j: "find_index p (rev xs) = Some j" "i = length xs - 1 - j"
    using assms by (auto simp: find_last_index_def)
  then have "j < length xs" "p (rev xs ! j)"
    using find_index_Some [of p "rev xs" j] by auto
  then show "i < length xs" "p (xs ! i)" using j by (auto simp: rev_nth)
qed

lemma lead_end_bound: "lead_end blocks read fin = Some final \<Longrightarrow> final \<le> length blocks"
  by (auto simp: lead_end_def split: option.splits if_splits dest: find_last_index_Some)

lemma length_keyed_blocks [simp]: "length (keyed_blocks blocks read) = length blocks"
  by (simp add: keyed_blocks_def)

lemma snd_keyed_blocks [simp]: "map snd (keyed_blocks blocks read) = blocks"
  by (simp add: keyed_blocks_def comp_def split_beta)

lemma snd_filter_keyed [simp]:
  "map snd (filter (\<lambda>e. keeps read (snd e)) es) = filter (keeps read) (map snd es)"
  "map snd (filter (\<lambda>e. \<not> keeps read (snd e)) es) = filter (\<lambda>b. \<not> keeps read b) (map snd es)"
  by (induction es) auto

text \<open>How the rows of a turn are put together: whole, or its lead, what it keeps out, and the rest.\<close>

definition kept_part :: "nat \<Rightarrow> 'b list \<Rightarrow> 'b row_reading \<Rightarrow> 'b keyed list" where
  "kept_part final blocks read = filter (\<lambda>e. keeps read (snd e)) (take final (keyed_blocks blocks read))"

definition lead_part :: "nat \<Rightarrow> 'b list \<Rightarrow> 'b row_reading \<Rightarrow> 'b keyed list" where
  "lead_part final blocks read = filter (\<lambda>e. \<not> keeps read (snd e)) (take final (keyed_blocks blocks read))"

lemma snd_parts [simp]:
  "map snd (kept_part final blocks read) = filter (keeps read) (take final blocks)"
  "map snd (lead_part final blocks read) = filter (\<lambda>b. \<not> keeps read b) (take final blocks)"
  by (simp_all add: kept_part_def lead_part_def take_map [symmetric])

lemma turn_rows_eq:
  "turn_rows blocks read turn =
     (let keyed = keyed_blocks blocks read; whole = grouped_rows keyed read (moving turn) True
      in case lead_end blocks read (finished turn) of
           None \<Rightarrow> whole
         | Some final \<Rightarrow> if \<not> finished turn \<or> final < 1 then whole
             else let lead = lead_part final blocks read; kept_out = kept_part final blocks read;
                      rest = grouped_rows (kept_out @ drop final keyed) read (moving turn) True
                  in if foldable (counted lead read) = 0
                     then if kept_out = [] then whole else grouped_rows lead read (moving turn) True @ rest
                     else folded_lead lead read (turn_key turn) @ rest)"
  unfolding turn_rows_def lead_part_def kept_part_def Let_def by (rule refl)

lemma turn_rows_cases:
  obtains (whole) "turn_rows blocks read turn = grouped_rows (keyed_blocks blocks read) read (moving turn) True"
  | (lead) final rows where "finished turn" "lead_end blocks read True = Some final"
      "turn_rows blocks read turn = rows @
         grouped_rows (kept_part final blocks read @ drop final (keyed_blocks blocks read)) read (moving turn) True"
      "rows = folded_lead (lead_part final blocks read) read (turn_key turn) \<or>
       rows = grouped_rows (lead_part final blocks read) read (moving turn) True \<and>
       foldable (counted (lead_part final blocks read) read) = 0"
proof -
  note cases = that
  show thesis
  proof (cases "lead_end blocks read (finished turn)")
    case None
    then show thesis by (intro cases(1)) (simp add: turn_rows_eq)
  next
    case final: (Some final)
    let ?whole = "grouped_rows (keyed_blocks blocks read) read (moving turn) True"
    let ?rest = "grouped_rows (kept_part final blocks read @ drop final (keyed_blocks blocks read)) read (moving turn) True"
    let ?lead = "lead_part final blocks read"
    have "turn_rows blocks read turn =
        (if \<not> finished turn \<or> final < 1 then ?whole
         else if foldable (counted ?lead read) = 0
         then if kept_part final blocks read = [] then ?whole else grouped_rows ?lead read (moving turn) True @ ?rest
         else folded_lead ?lead read (turn_key turn) @ ?rest)"
      by (simp only: turn_rows_eq Let_def final option.case)
    then consider (whole) "turn_rows blocks read turn = ?whole"
      | (folded) "finished turn" "turn_rows blocks read turn = folded_lead ?lead read (turn_key turn) @ ?rest"
      | (flat) "finished turn" "foldable (counted ?lead read) = 0"
          "turn_rows blocks read turn = grouped_rows ?lead read (moving turn) True @ ?rest"
      by argo
    then show thesis
    proof cases
      case whole then show thesis by (rule cases(1))
    next
      case folded then show thesis using final by (intro cases(2)) auto
    next
      case flat then show thesis using final by (intro cases(2)) auto
    qed
  qed
qed

lemma drawn_turn_rows:
  obtains "drawn_rows (turn_rows blocks read turn) = blocks"
  | final where "drawn_rows (turn_rows blocks read turn) =
      filter (\<lambda>b. \<not> keeps read b) (take final blocks) @ filter (keeps read) (take final blocks) @ drop final blocks"
proof (cases rule: turn_rows_cases [of blocks read turn])
  case whole
  then show ?thesis by (intro that(1)) simp
next
  case (lead final rows)
  have rows: "drawn_rows rows = filter (\<lambda>b. \<not> keeps read b) (take final blocks)"
    using lead(4) by auto
  show ?thesis
    by (rule that(2) [of final]) (simp add: lead(3) rows drop_map [symmetric])
qed

text \<open>
  C36: A turn's rows draw every block of the turn exactly once: those the reading keeps out of the fold
  in the order they came, and those it does not in the order they came, whatever is grouped or folded.
\<close>

theorem every_block_drawn_once:
  "filter (keeps read) (drawn_rows (turn_rows blocks read turn)) = filter (keeps read) blocks \<and>
   filter (\<lambda>b. \<not> keeps read b) (drawn_rows (turn_rows blocks read turn)) = filter (\<lambda>b. \<not> keeps read b) blocks"
proof (cases rule: drawn_turn_rows [of blocks read turn])
  case 1
  then show ?thesis by simp
next
  case (2 final)
  have "filter P blocks = filter P (take final blocks) @ filter P (drop final blocks)" for P
    by (metis append_take_drop_id filter_append)
  then show ?thesis by (simp add: 2)
qed

subsection \<open>What a fold counts\<close>

text \<open>How many blocks of each part a list holds.\<close>

definition counts_of :: "'b list \<Rightarrow> 'b row_reading \<Rightarrow> held_counts" where
  "counts_of bs read =
     (let of_parts = (\<lambda>ps. length (filter (\<lambda>b. part read b \<in> ps) bs))
      in \<lparr>calls = of_parts {Call_Part, Lone_Call_Part}, subagents = of_parts {Subagent_Part},
          started_agents = of_parts {Agent_Part}, messages = of_parts {Words_Part}\<rparr>)"

lemma counted_fold:
  "fold (\<lambda>(_, b). count_block (part read b)) es h =
     \<lparr>calls = calls h + calls (counts_of (map snd es) read),
      subagents = subagents h + subagents (counts_of (map snd es) read),
      started_agents = started_agents h + started_agents (counts_of (map snd es) read),
      messages = messages h + messages (counts_of (map snd es) read)\<rparr>"
  by (induction es arbitrary: h) (auto simp: counts_of_def count_block_def Let_def)

lemma counted_counts: "counted es read = counts_of (map snd es) read"
  by (simp add: counted_def counted_fold)

definition counts_as_work :: "row_part \<Rightarrow> bool" where
  "counts_as_work p \<longleftrightarrow> p \<in> {Call_Part, Lone_Call_Part, Subagent_Part, Agent_Part}"

lemma foldable_counted:
  "foldable (counted es read) = 0 \<longleftrightarrow> (\<forall>b \<in> set (map snd es). \<not> counts_as_work (part read b))"
  by (auto simp: foldable_def counted_counts counts_of_def Let_def filter_empty_conv counts_as_work_def)

lemma one_block_counts:
  "foldable (counted [e] read) \<noteq> 0 \<Longrightarrow> messages (counted [e] read) = 0"
  by (auto simp: counted_counts counts_of_def foldable_def Let_def split: if_splits)

subsection \<open>What a fold hides\<close>

definition is_block_row :: "'b turn_row \<Rightarrow> bool" where
  "is_block_row row \<longleftrightarrow> (\<exists>k b. row = Block_Row k b)"

lemma is_block_row_simps [simp]:
  "is_block_row (Block_Row k b)" "\<not> is_block_row (Group_Row k bs s op r)" "\<not> is_block_row (Folded_Row k s rows)"
  by (auto simp: is_block_row_def)

lemma block_rows_length: "\<forall>row \<in> set rows. is_block_row row \<Longrightarrow> length (drawn_rows rows) = length rows"
  by (induction rows) (auto simp: is_block_row_def)

lemma flushed_not_folded [simp]: "Folded_Row k s rows \<notin> set (flushed g read mv grouped trailing)"
  by (auto simp: flushed_def Let_def split: list.splits if_splits)

lemma grouped_not_folded [simp]: "Folded_Row k s rows \<notin> set (grouped_rows es read mv grouped)"
proof -
  have "Folded_Row k s rows \<notin> set (grouped_from g es read mv grouped)" for g
    by (induction g es read mv grouped rule: grouped_from.induct) auto
  then show ?thesis by (simp add: grouped_rows_def)
qed

lemma ungrouped_rows: "row \<in> set (grouped_rows es read mv False) \<Longrightarrow> is_block_row row"
proof -
  have flush: "row \<in> set (flushed g read mv False tr) \<Longrightarrow> is_block_row row" for g tr mv and read :: "'a row_reading"
    by (auto simp: flushed_def Let_def split: list.splits if_splits)
  have "grouped = False \<Longrightarrow> row \<in> set (grouped_from g es read mv grouped) \<Longrightarrow> is_block_row row" for g grouped
    by (induction g es read mv grouped rule: grouped_from.induct) (auto dest: flush split: if_splits)
  from this [where grouped = False and g = "[]"]
  show "row \<in> set (grouped_rows es read mv False) \<Longrightarrow> is_block_row row" by (simp add: grouped_rows_def)
qed

text \<open>A fold of a stretch holds the stretch, a block to a row.\<close>

lemma folded_stretch:
  assumes "Folded_Row k s rows \<in> set (fst (stretch_rows es read key n))"
  shows "rows = grouped_rows es read False False" and "s = folded_summary (counted es read)"
    and "foldable (counted es read) \<noteq> 0" and "2 \<le> length es"
proof -
  obtain e es' where es: "es = e # es'" using assms by (cases es) (auto simp: stretch_rows_def)
  have in_stretch: "rows = grouped_rows es read False False \<and> s = folded_summary (counted es read) \<and>
      foldable (counted es read) \<noteq> 0 \<and> (length es \<noteq> 1 \<or> messages (counted es read) \<noteq> 0)"
    using assms by (auto simp: stretch_rows_def Let_def es split: if_splits prod.splits)
  then have "length es \<noteq> 1" using one_block_counts [of e read] es by (cases es') auto
  then show "rows = grouped_rows es read False False" "s = folded_summary (counted es read)"
    "foldable (counted es read) \<noteq> 0" "2 \<le> length es"
    using in_stretch es by (auto simp: Suc_le_eq)
qed

lemma folded_runs:
  "plain_runs runs \<Longrightarrow> Folded_Row k s rows \<in> set (folded_from n runs read key) \<Longrightarrow>
     \<exists>es m. Work_Run es \<in> set runs \<and> Folded_Row k s rows \<in> set (fst (stretch_rows es read key m))"
proof (induction n runs read key rule: folded_from.induct)
  case (3 folds blocks runs read key)
  obtain rs folded where stretch: "stretch_rows blocks read key folds = (rs, folded)" by fastforce
  show ?case
  proof (cases "Folded_Row k s rows \<in> set rs")
    case True
    then show ?thesis using stretch by (metis fst_conv list.set_intros(1))
  next
    case False
    then show ?thesis using "3.IH" [OF stretch [symmetric] refl] "3.prems" by (auto simp: stretch)
  qed
qed auto

lemma stretches_of_lead:
  "Work_Run es \<in> set (split_from bs lead read) \<Longrightarrow> \<forall>e \<in> set bs. part read (snd e) \<noteq> Arrived_Part \<Longrightarrow>
     set es \<subseteq> set bs \<union> set lead \<and> (\<forall>e \<in> set es. part read (snd e) \<noteq> Arrived_Part)"
  by (induction bs lead read rule: split_from.induct) (fastforce split: if_splits)+

lemma folded_turn_row:
  assumes "Folded_Row k s rows \<in> set (turn_rows blocks read turn)"
  obtains es where "finished turn" "rows = grouped_rows es read False False"
    "s = folded_summary (counted es read)" "foldable (counted es read) \<noteq> 0" "2 \<le> length es"
    "\<forall>b \<in> set (map snd es). \<not> keeps read b \<and> part read b \<noteq> Arrived_Part"
proof (cases rule: turn_rows_cases [of blocks read turn])
  case whole
  then show ?thesis using assms by simp
next
  case (lead final rs)
  then have "Folded_Row k s rows \<in> set (folded_lead (lead_part final blocks read) read (turn_key turn))"
    using assms by auto
  then obtain es m where es: "Work_Run es \<in> set (split_from [] (lead_part final blocks read) read)"
      "Folded_Row k s rows \<in> set (fst (stretch_rows es read (turn_key turn) m))"
    unfolding folded_lead_def split_at_arrivals_def using folded_runs [OF plain_split_from] by metis
  show ?thesis
  proof (rule that [OF lead(1) folded_stretch [OF es(2)]])
    show "\<forall>b \<in> set (map snd es). \<not> keeps read b \<and> part read b \<noteq> Arrived_Part"
      using stretches_of_lead [OF es(1)] by (force simp: lead_part_def)
  qed
qed

text \<open>
  A fold stands in a finished turn alone and is never a fold over one row: it holds two blocks or
  more, each on a row of its own, some of it work; no block the reading keeps out and no message that
  reached the turn is hidden in it; and its line counts what it holds.
\<close>

theorem folds_hide_work_alone:
  assumes "Folded_Row key summary rows \<in> set (turn_rows blocks read turn)"
  shows "finished turn \<and> 2 \<le> length rows \<and>
     (\<forall>row \<in> set rows. \<exists>k b. row = Block_Row k b \<and> \<not> keeps read b \<and> part read b \<noteq> Arrived_Part) \<and>
     (\<exists>b \<in> set (drawn_rows rows). counts_as_work (part read b)) \<and>
     summary = folded_summary (counts_of (drawn_rows rows) read)"
proof (rule folded_turn_row [OF assms])
  fix es
  assume es: "finished turn" "rows = grouped_rows es read False False"
    "summary = folded_summary (counted es read)" "foldable (counted es read) \<noteq> 0" "2 \<le> length es"
    "\<forall>b \<in> set (map snd es). \<not> keeps read b \<and> part read b \<noteq> Arrived_Part"
  have drawn_es: "drawn_rows rows = map snd es" by (simp add: es(2))
  have blocks: "\<forall>row \<in> set rows. is_block_row row" using es(2) ungrouped_rows by blast
  then have "length rows = length es" using block_rows_length drawn_es by (metis length_map)
  moreover have "\<forall>row \<in> set rows. \<exists>k b. row = Block_Row k b \<and> \<not> keeps read b \<and> part read b \<noteq> Arrived_Part"
  proof
    fix row assume row: "row \<in> set rows"
    then obtain k b where kb: "row = Block_Row k b" using blocks by (auto simp: is_block_row_def)
    then have "b \<in> set (drawn_rows rows)" using row by force
    then show "\<exists>k b. row = Block_Row k b \<and> \<not> keeps read b \<and> part read b \<noteq> Arrived_Part"
      using es(6) kb drawn_es by metis
  qed
  moreover have "\<exists>b \<in> set (drawn_rows rows). counts_as_work (part read b)"
    using es(4) by (simp only: foldable_counted drawn_es) blast
  moreover have "summary = folded_summary (counts_of (drawn_rows rows) read)"
    by (simp only: es(3) counted_counts drawn_es)
  ultimately show ?thesis using es(1,5) by simp
qed

subsection \<open>The one group that stands open\<close>

fun row_open :: "'b turn_row \<Rightarrow> bool" where
  "row_open (Group_Row _ _ _ open _) = open"
| "row_open _ = False"

definition none_open :: "'b turn_row list \<Rightarrow> bool" where
  "none_open rows \<longleftrightarrow> (\<forall>row \<in> set rows. \<not> row_open row)"

definition last_open :: "bool \<Rightarrow> 'b turn_row list \<Rightarrow> bool" where
  "last_open mv rows \<longleftrightarrow> none_open rows \<or> (mv \<and> none_open (butlast rows))"

lemma none_open_simps [simp]:
  "none_open []" "none_open (Block_Row k b # rows) = none_open rows"
  "none_open (xs @ ys) \<longleftrightarrow> none_open xs \<and> none_open ys"
  by (auto simp: none_open_def)

lemma none_open_block_rows: "\<forall>row \<in> set rows. is_block_row row \<Longrightarrow> none_open rows"
  by (auto simp: none_open_def is_block_row_def)

lemma last_open_append: "none_open xs \<Longrightarrow> last_open mv ys \<Longrightarrow> last_open mv (xs @ ys)"
  by (auto simp: last_open_def none_open_def butlast_append)

lemma last_open_still: "last_open False rows = none_open rows"
  by (simp add: last_open_def)

lemma open_of_flushed:
  "none_open (flushed g read mv grouped False)" "last_open mv (flushed g read mv grouped True)"
  by (auto simp: flushed_def last_open_def none_open_def Let_def split: list.splits)

lemma open_of_grouped: "last_open mv (grouped_rows es read mv grouped)"
proof -
  have "last_open mv (grouped_from g es read mv grouped)" for g
  proof (induction g es read mv grouped rule: grouped_from.induct)
    case (2 g key b rest read mv grouped)
    then show ?case using last_open_append [of "flushed g read mv grouped False @ [Block_Row key b]"]
      by (simp add: open_of_flushed)
  qed (simp add: open_of_flushed)
  then show ?thesis by (simp add: grouped_rows_def)
qed

lemma open_of_stretch: "none_open (fst (stretch_rows es read key n))"
  using open_of_grouped [of False es read True]
  by (auto simp: stretch_rows_def Let_def last_open_still none_open_def split: list.splits)

lemma open_of_folded: "plain_runs runs \<Longrightarrow> none_open (folded_from n runs read key)"
proof (induction n runs read key rule: folded_from.induct)
  case (3 folds blocks runs read key)
  obtain rs folded where stretch: "stretch_rows blocks read key folds = (rs, folded)" by fastforce
  then show ?case using "3.IH" [OF stretch [symmetric] refl] "3.prems" open_of_stretch [of blocks read key folds]
    by simp
qed auto

text \<open>With no work to gather there is no group at all.\<close>

lemma no_work_blocks:
  assumes "foldable (counted es read) = 0"
  shows "none_open (grouped_rows es read mv grouped)"
proof -
  have idle: "calls (counted g read) + subagents (counted g read) + started_agents (counted g read) = 0"
    if "set g \<subseteq> set es" for g
  proof -
    have "foldable (counted g read) = 0" using assms that by (auto simp: foldable_counted)
    then show ?thesis by (simp add: foldable_def)
  qed
  have flush: "none_open (flushed g read mv grouped tr)" if "set g \<subseteq> set es" for g tr
    using idle [OF that] by (auto simp: flushed_def Let_def none_open_def split: list.splits)
  have "set g \<subseteq> set es \<Longrightarrow> set fs \<subseteq> set es \<Longrightarrow> none_open (grouped_from g fs read mv grouped)" for g fs
  proof (induction fs arbitrary: g)
    case Nil
    then show ?case by (simp add: flush)
  next
    case (Cons f fs)
    then show ?case by (cases f) (simp add: flush)
  qed
  then show ?thesis by (simp add: grouped_rows_def)
qed

lemma open_of_turn: "last_open (moving turn) (turn_rows blocks read turn)"
proof (cases rule: turn_rows_cases [of blocks read turn])
  case whole
  then show ?thesis by (simp add: open_of_grouped)
next
  case (lead final rows)
  have "none_open rows"
    using lead(4) by (auto simp: folded_lead_def split_at_arrivals_def open_of_folded no_work_blocks)
  then show ?thesis using lead(3) by (simp add: last_open_append open_of_grouped)
qed

text \<open>
  Of a turn's rows only the last can be a group that stands open, and only while the turn moves.
\<close>

theorem latest_group_alone_is_open:
  assumes "i < length (turn_rows blocks read turn)" and "row_open (turn_rows blocks read turn ! i)"
  shows "moving turn \<and> Suc i = length (turn_rows blocks read turn)"
proof -
  let ?rows = "turn_rows blocks read turn"
  have "?rows ! i \<in> set ?rows" using assms(1) by simp
  then have "\<not> none_open ?rows" using assms(2) by (auto simp: none_open_def)
  then have mv: "moving turn" "none_open (butlast ?rows)"
    using open_of_turn [of turn blocks read] by (auto simp: last_open_def)
  have "Suc i = length ?rows"
  proof (rule ccontr)
    assume "Suc i \<noteq> length ?rows"
    then have "i < length (butlast ?rows)" using assms(1) by simp
    then have "butlast ?rows ! i \<in> set (butlast ?rows)" "butlast ?rows ! i = ?rows ! i"
      by (rule nth_mem, rule nth_butlast)
    then show False using mv(2) assms(2) by (auto simp: none_open_def)
  qed
  then show ?thesis using mv(1) by simp
qed

subsection \<open>The keys of the rows\<close>

fun key_of_row :: "'b turn_row \<Rightarrow> string" where
  "key_of_row (Block_Row k _) = k"
| "key_of_row (Group_Row k _ _ _ _) = k"
| "key_of_row (Folded_Row k _ _) = k"

abbreviation row_keys :: "'b turn_row list \<Rightarrow> string list" where
  "row_keys rows \<equiv> map key_of_row rows"

lemma keys_of_flushed: "subseq (row_keys (flushed g read mv grouped tr)) (map fst g)"
  by (auto simp: flushed_def Let_def comp_def split_beta split: list.splits)

lemma keys_of_grouped: "subseq (row_keys (grouped_rows es read mv grouped)) (map fst es)"
proof -
  have "subseq (row_keys (grouped_from g es read mv grouped)) (map fst g @ map fst es)" for g
  proof (induction g es read mv grouped rule: grouped_from.induct)
    case (2 g key b rest read mv grouped)
    then show ?case by (auto intro!: list_emb_append_mono keys_of_flushed)
  qed (simp add: keys_of_flushed)
  from this [of "[]"] show ?thesis by (simp add: grouped_rows_def)
qed

lemma subseq_keys:
  assumes "subseq xs ys"
  shows "set xs \<subseteq> set ys" and "distinct ys \<Longrightarrow> distinct xs"
proof -
  obtain N where xs: "xs = nths ys N" using assms by (auto simp: subseq_conv_nths)
  show "set xs \<subseteq> set ys" by (simp add: xs set_nths_subset)
  show "distinct ys \<Longrightarrow> distinct xs" by (simp add: xs distinct_nthsI)
qed

lemmas grouped_keys = keys_of_grouped [THEN subseq_keys(1)] keys_of_grouped [THEN subseq_keys(2)]

lemma keys_of_stretch:
  "stretch_rows es read key n = (rows, folded) \<Longrightarrow> distinct (map fst es) \<Longrightarrow>
     distinct (row_keys rows) \<and>
     set (row_keys rows) \<subseteq> (if folded \<and> n = 0 then {key @ ''-folded''} else fst ` set es)"
proof (cases es)
  case (Cons e es')
  assume stretch: "stretch_rows es read key n = (rows, folded)" and apart: "distinct (map fst es)"
  consider (plain) "rows = grouped_rows es read False True" "\<not> folded"
    | (one) "rows = [Block_Row (fst e) (snd e)]" "\<not> folded"
    | (fold) s rs where "rows = [Folded_Row (if n = 0 then key @ ''-folded'' else fst e) s rs]" "folded"
    using stretch by (cases e) (auto simp: stretch_rows_def Let_def Cons split: if_splits)
  then show ?thesis
  proof cases
    case plain
    then show ?thesis using grouped_keys [of es read False True] apart by simp
  qed (use Cons in auto)
qed (auto simp: stretch_rows_def)

lemma keys_of_folded:
  "plain_runs runs \<Longrightarrow> distinct (map fst (concat (map run_blocks runs))) \<Longrightarrow>
   key @ ''-folded'' \<notin> fst ` set (concat (map run_blocks runs)) \<Longrightarrow>
     distinct (row_keys (folded_from n runs read key)) \<and>
     set (row_keys (folded_from n runs read key)) \<subseteq>
       fst ` set (concat (map run_blocks runs)) \<union> (if n = 0 then {key @ ''-folded''} else {})"
proof (induction n runs read key rule: folded_from.induct)
  case (2 n row runs read key)
  obtain k b where row: "row = Block_Row k b" and plain: "plain_runs runs" using "2.prems"(1) by auto
  have "distinct (row_keys (folded_from n runs read key))"
    "set (row_keys (folded_from n runs read key)) \<subseteq>
       fst ` set (concat (map run_blocks runs)) \<union> (if n = 0 then {key @ ''-folded''} else {})"
    using "2.IH" [OF plain] "2.prems"(2,3) by (simp_all add: row)
  then show ?case using "2.prems"(2,3) by (cases "n = 0") (auto simp: row)
next
  case (3 n blocks runs read key)
  obtain rs folded where stretch: "stretch_rows blocks read key n = (rs, folded)" by fastforce
  let ?later = "concat (map run_blocks runs)"
  define now where "now = set (row_keys rs)"
  define after where "after = folded_from (if folded then n + 1 else n) runs read key"
  define fold_key where "fold_key = key @ ''-folded''"
  have pre: "plain_runs runs" "distinct (map fst ?later)" "key @ ''-folded'' \<notin> fst ` set ?later"
      "distinct (map fst blocks)" "fst ` set blocks \<inter> fst ` set ?later = {}" "fold_key \<notin> fst ` set blocks"
    using "3.prems" by (simp_all only: plain_runs_simps run_blocks.simps list.map concat.simps map_append
        distinct_append set_append set_map image_Un fold_key_def Un_iff de_Morgan_disj) blast+
  have ih: "distinct (row_keys after)"
      "set (row_keys after) \<subseteq> fst ` set ?later \<union> (if folded \<or> n \<noteq> 0 then {} else {fold_key})"
    using "3.IH" [OF stretch [symmetric] refl pre(1-3)]
    by (cases "folded"; cases "n = 0"; simp add: after_def fold_key_def)+
  have rows: "distinct (row_keys rs)" "now \<subseteq> (if folded \<and> n = 0 then {fold_key} else fst ` set blocks)"
    using keys_of_stretch [OF stretch pre(4)] by (simp_all only: now_def fold_key_def)
  have apart: "A \<inter> B = {}" if "A \<subseteq> (if folded \<and> n = 0 then {x} else K)" "B \<subseteq> L \<union> (if folded \<or> n \<noteq> 0 then {} else {x})"
      "x \<notin> L" "x \<notin> K" "K \<inter> L = {}" for A B K L :: "string set" and x
    using that by (cases "folded"; cases "n = 0") auto
  have "now \<inter> set (row_keys after) = {}"
    using apart [OF rows(2) ih(2)] pre(3,5,6) by (simp only: fold_key_def not_False_eq_True)
  moreover have "now \<union> set (row_keys after) \<subseteq>
      (fst ` set blocks \<union> fst ` set ?later) \<union> (if n = 0 then {fold_key} else {})"
    using rows(2) ih(2) by (cases "folded"; cases "n = 0") auto
  ultimately have "distinct (row_keys (rs @ after)) \<and> set (row_keys (rs @ after)) \<subseteq>
      (fst ` set blocks \<union> fst ` set ?later) \<union> (if n = 0 then {fold_key} else {})"
    using rows(1) ih(1) by (simp only: map_append distinct_append set_append now_def)
  then show ?case
    by (simp only: folded_from.simps stretch Let_def prod.case after_def [symmetric] fold_key_def [symmetric]
        run_blocks.simps list.map concat.simps set_append image_Un)
qed simp

lemma keys_of_parts:
  assumes "distinct (map fst (keyed_blocks blocks read))"
  shows "distinct (map fst (lead_part final blocks read @ kept_part final blocks read @
           drop final (keyed_blocks blocks read)))"
    and "set (lead_part final blocks read @ kept_part final blocks read @
           drop final (keyed_blocks blocks read)) = set (keyed_blocks blocks read)"
proof -
  let ?keyed = "keyed_blocks blocks read"
  let ?parts = "lead_part final blocks read @ kept_part final blocks read @ drop final ?keyed"
  have "mset (lead_part final blocks read) + mset (kept_part final blocks read) = mset (take final ?keyed)"
    by (simp add: lead_part_def kept_part_def add.commute
        flip: multiset_partition [of "mset (take final ?keyed)" "\<lambda>e. keeps read (snd e)"])
  then have parts: "mset ?parts = mset ?keyed"
    by (metis add.assoc append_take_drop_id mset_append)
  show "set ?parts = set ?keyed" using parts by (rule mset_eq_setD)
  have "mset (map fst ?parts) = mset (map fst ?keyed)" using parts by (metis mset_map)
  then show "distinct (map fst ?parts)" using assms mset_eq_imp_distinct_iff by metis
qed

text \<open>
  No two rows of a turn share a key, where no two of its blocks do and none takes the key the turn's
  first fold has.
\<close>

theorem row_keys_stay_apart:
  assumes "distinct (map fst (keyed_blocks blocks read))"
    and "turn_key turn @ ''-folded'' \<notin> fst ` set (keyed_blocks blocks read)"
  shows "distinct (row_keys (turn_rows blocks read turn))"
proof (cases rule: turn_rows_cases [of blocks read turn])
  case whole
  then show ?thesis using assms(1) grouped_keys(2) by simp
next
  case (lead final rows)
  let ?lead = "lead_part final blocks read"
  let ?rest = "kept_part final blocks read @ drop final (keyed_blocks blocks read)"
  let ?fold_key = "turn_key turn @ ''-folded''"
  note parts = keys_of_parts [OF assms(1), of final]
  have fresh: "?fold_key \<notin> fst ` set ?lead" "?fold_key \<notin> fst ` set ?rest"
    using assms(2) parts(2) by (auto simp: image_iff)
  have apart: "distinct (map fst ?lead)" "distinct (map fst ?rest)" "fst ` set ?lead \<inter> fst ` set ?rest = {}"
    using parts(1) by auto
  have "distinct (row_keys rows) \<and> set (row_keys rows) \<subseteq> insert ?fold_key (fst ` set ?lead)"
    using lead(4)
  proof
    assume "rows = folded_lead ?lead read (turn_key turn)"
    then show ?thesis
      using keys_of_folded [of "split_from [] ?lead read" "turn_key turn" 0 read] apart(1) fresh(1)
      by (simp add: folded_lead_def split_at_arrivals_def)
  next
    assume "rows = grouped_rows ?lead read (moving turn) True \<and> foldable (counted ?lead read) = 0"
    then show ?thesis using grouped_keys [of ?lead read] apart(1) by force
  qed
  moreover have "distinct (row_keys (grouped_rows ?rest read (moving turn) True))"
      "set (row_keys (grouped_rows ?rest read (moving turn) True)) \<subseteq> fst ` set ?rest"
    using grouped_keys [of ?rest read "moving turn" True] apart(2) by (simp_all only: set_map)
  ultimately show ?thesis using apart(3) fresh(2) lead(3) by (simp only: map_append distinct_append) blast
qed

subsection \<open>Witnesses\<close>

text \<open>A turn that read two files about a thought, was steered, ran a command, and answered.\<close>

definition tale :: "(row_part \<times> string) list" where
  "tale = [(Call_Part, ''a''), (Note_Part, ''b''), (Call_Part, ''c''), (Arrived_Part, ''d''),
     (Call_Part, ''e''), (Words_Part, ''f'')]"

definition tale_reading :: "(row_part \<times> string) row_reading" where
  "tale_reading = \<lparr>row_key = (\<lambda>b _. snd b), part = fst, running = (\<lambda>_. False), kept = None\<rparr>"

definition tale_ended :: turn_state where
  "tale_ended = \<lparr>turn_key = ''turn'', moving = False, finished = True\<rparr>"

definition tale_moving :: turn_state where
  "tale_moving = \<lparr>turn_key = ''turn'', moving = True, finished = False\<rparr>"

lemma tale_rows:
  "turn_rows tale tale_reading tale_ended =
     [Folded_Row ''turn-folded'' ''2 tool calls''
        [Block_Row ''a'' (Call_Part, ''a''), Block_Row ''b'' (Note_Part, ''b''), Block_Row ''c'' (Call_Part, ''c'')],
      Block_Row ''d'' (Arrived_Part, ''d''), Block_Row ''e'' (Call_Part, ''e''), Block_Row ''f'' (Words_Part, ''f'')]"
  by code_simp

lemma tale_open_rows:
  "turn_rows (take 5 tale) tale_reading tale_moving =
     [Group_Row ''a'' [(Call_Part, ''a''), (Note_Part, ''b''), (Call_Part, ''c'')] ''2 tool calls'' False False,
      Block_Row ''d'' (Arrived_Part, ''d''), Group_Row ''e'' [(Call_Part, ''e'')] ''1 tool call'' True False]"
  by code_simp

lemma folds_hide_work_alone_witness:
  "\<exists>rows. Folded_Row ''turn-folded'' ''2 tool calls'' rows \<in> set (turn_rows tale tale_reading tale_ended) \<and>
     finished tale_ended \<and> 2 \<le> length rows"
  using folds_hide_work_alone [of "''turn-folded''" "''2 tool calls''" _ tale tale_reading tale_ended]
  by (metis list.set_intros(1) tale_rows)

lemma latest_group_alone_is_open_witness:
  "moving tale_moving \<and> Suc 2 = length (turn_rows (take 5 tale) tale_reading tale_moving)"
  by (rule latest_group_alone_is_open) (simp_all add: tale_open_rows)

lemma row_keys_stay_apart_witness: "distinct (row_keys (turn_rows tale tale_reading tale_ended))"
  by (rule row_keys_stay_apart) (code_simp, code_simp)

end
