(* ===== verification/Rate_Hold.thy ===== *)
theory Rate_Hold
  imports Prelude
begin

text \<open>
  What a refusal of GitHub's says and how long it holds its identity
  (\<open>packages/service/src/github/github-rate-gate.ts\<close>), and the holds every instance shares
  (\<open>packages/database/src/models/github-rate-holds.ts\<close>). Instants and waits are whole milliseconds. A
  header is handed over as the HTTP library reads it; \<open>x-ratelimit-reset\<close> as the whole seconds
  \<open>Number\<close> makes of it, none where that is not finite. A member's token is known by its digest alone,
  and the digest (\<open>createHash\<close>) is an argument.
\<close>

subsection \<open>The gate's constants\<close>

definition minimum_hold :: int where "minimum_hold = 60000"
definition maximum_hold :: int where "maximum_hold = 900000"
definition mutative_spacing :: int where "mutative_spacing = 1000"
definition shared_read_for :: int where "shared_read_for = 5000"
definition first_refusal_status :: int where "first_refusal_status = 400"

record hold =
  held_until :: int
  strikes :: nat

record refusal =
  limited :: bool
  stated :: "int option"

definition not_limited :: refusal where
  "not_limited = \<lparr>limited = False, stated = None\<rparr>"

record response =
  status :: int
  retry_after :: "string option"
  remaining :: "string option"
  reset :: "int option"
  body :: "string option" \<comment> \<open>the body, none where reading it fails\<close>

subsection \<open>Words of a header\<close>

definition is_space :: "char \<Rightarrow> bool" where
  "is_space c \<longleftrightarrow> of_char c \<in> {9, 10, 11, 12, 13, 32, 160 :: nat}"

definition trimmed :: "string \<Rightarrow> string" where
  "trimmed s = rev (dropWhile is_space (rev (dropWhile is_space s)))"

definition digits_value :: "string \<Rightarrow> int" where
  "digits_value s = fold (\<lambda>c v. 10 * v + (of_char c - 48)) s 0"

definition lowered :: "char \<Rightarrow> char" where
  "lowered c = (if 65 \<le> (of_char c :: nat) \<and> (of_char c :: nat) \<le> 90 then char_of (of_char c + 32 :: nat) else c)"

definition starts_with :: "string \<Rightarrow> string \<Rightarrow> bool" where
  "starts_with p s \<longleftrightarrow> take (length p) s = p"

fun holds_words :: "string \<Rightarrow> string \<Rightarrow> bool" where
  "holds_words p [] = (p = [])"
| "holds_words p (c # s) \<longleftrightarrow> starts_with p (c # s) \<or> holds_words p s"

text \<open>\<open>RATE_LIMIT_WORDS\<close> and \<open>APP_BEARERS\<close>, each read whatever its case.\<close>

definition rate_limit_words :: "string \<Rightarrow> bool" where
  "rate_limit_words s \<longleftrightarrow> holds_words ''rate limit'' (map lowered s)"

definition app_bearer :: "string \<Rightarrow> bool" where
  "app_bearer auth \<longleftrightarrow> (let s = map lowered auth in
     \<exists>p \<in> set [''bearer'', ''token'']. starts_with p s \<and>
       (let after = drop (length p) s; word = dropWhile is_space after in
          word \<noteq> after \<and> (starts_with ''ghs_'' word \<or> starts_with ''ey'' word)))"

definition identity_of :: "(string \<Rightarrow> string) \<Rightarrow> string option \<Rightarrow> string" where
  "identity_of digest authorization = (case authorization of
     None \<Rightarrow> ''anonymous''
   | Some auth \<Rightarrow> if app_bearer auth then ''app'' else digest auth)"

subsection \<open>What a refusal says\<close>

definition refusal_of :: "response \<Rightarrow> int \<Rightarrow> refusal" where
  "refusal_of res now =
     (let after = (case retry_after res of Some s \<Rightarrow> trimmed s | None \<Rightarrow> []);
          message = (case body res of Some t \<Rightarrow> t | None \<Rightarrow> [])
      in if status res \<noteq> 403 \<and> status res \<noteq> 429 then not_limited
         else if after \<noteq> [] \<and> list_all is_digit after
         then \<lparr>limited = True, stated = Some (digits_value after * 1000)\<rparr>
         else if remaining res = Some ''0'' \<and> reset res \<noteq> None
         then \<lparr>limited = True, stated = Some (max 0 (the (reset res) * 1000 - now))\<rparr>
         else if status res = 429 then \<lparr>limited = True, stated = None\<rparr>
         else if rate_limit_words message then \<lparr>limited = True, stated = None\<rparr>
         else not_limited)"

definition rate_limited :: "response \<Rightarrow> int \<Rightarrow> bool" where
  "rate_limited res now = limited (refusal_of res now)"

subsection \<open>How long it holds\<close>

text \<open>The refusals in a row are counted from one.\<close>

definition backoff_for :: "nat \<Rightarrow> int" where
  "backoff_for n = min (minimum_hold * 2 ^ (n - 1)) maximum_hold"

definition hold_for :: "refusal \<Rightarrow> nat \<Rightarrow> int" where
  "hold_for r n = max (case stated r of Some wait \<Rightarrow> wait | None \<Rightarrow> minimum_hold)
                      (if n = 1 then 0 else backoff_for n)"

text \<open>A backoff under the longest is one of the first four, so the loop below ends.\<close>

lemma backoff_grows_to_longest: "backoff_for n < maximum_hold \<Longrightarrow> n < 5"
proof (rule ccontr)
  assume short: "backoff_for n < maximum_hold" and "\<not> n < 5"
  then have "(2 :: int) ^ 4 \<le> 2 ^ (n - 1)" by (intro power_increasing) auto
  then show False using short by (simp add: backoff_for_def minimum_hold_def maximum_hold_def)
qed

function waits_from :: "refusal \<Rightarrow> nat \<Rightarrow> int list" where
  "waits_from r n = (if backoff_for n < maximum_hold then hold_for r (n + 1) # waits_from r (n + 1) else [])"
  by auto
termination by (relation "measure (\<lambda>(_, n). 5 - n)") (auto dest: backoff_grows_to_longest)

declare waits_from.simps [simp del]

definition waits_for :: "refusal \<Rightarrow> int list" where
  "waits_for r = hold_for r 1 # waits_from r 1"

text \<open>The seconds a held request is told to wait.\<close>

definition held_seconds :: "int \<Rightarrow> int" where
  "held_seconds left = max 1 ((left + 999) div 1000)"

lemma held_seconds_enough: "left \<le> held_seconds left * 1000"
proof -
  have "left + 999 = (left + 999) div 1000 * 1000 + (left + 999) mod 1000" "(left + 999) mod 1000 < 1000"
    by simp_all
  then have "left \<le> (left + 999) div 1000 * 1000" by linarith
  also have "\<dots> \<le> held_seconds left * 1000" by (simp add: held_seconds_def)
  finally show ?thesis .
qed

subsection \<open>The holds every instance shares\<close>

type_synonym hold_store = "string \<Rightarrow> hold option"

text \<open>The one statement that writes a hold: inserted, or moved on over the one standing.\<close>

definition upsert_hold :: "string \<Rightarrow> int \<Rightarrow> int list \<Rightarrow> int \<Rightarrow> hold_store \<Rightarrow> hold \<times> hold_store" where
  "upsert_hold identity now waits forgotten_before stored =
     (let new = (case stored identity of
          None \<Rightarrow> \<lparr>held_until = now + waits ! 0, strikes = 1\<rparr>
        | Some h \<Rightarrow>
            let n = (if held_until h > now then strikes h
                     else if held_until h < forgotten_before then 1 else strikes h + 1);
                wait = waits ! (min n (length waits) - 1)
            in \<lparr>held_until = max (held_until h) (now + wait), strikes = n\<rparr>)
      in (new, stored(identity := Some new)))"

definition delete_lifted :: "string \<Rightarrow> int \<Rightarrow> hold_store \<Rightarrow> hold_store" where
  "delete_lifted identity now stored = (case stored identity of
     Some h \<Rightarrow> if held_until h \<le> now then stored(identity := None) else stored
   | None \<Rightarrow> stored)"

subsection \<open>The holds of one instance\<close>

definition holding_at :: "hold option \<Rightarrow> int \<Rightarrow> bool" where
  "holding_at h now \<longleftrightarrow> (case h of Some standing \<Rightarrow> now < held_until standing | None \<Rightarrow> False)"

text \<open>The holds long lifted, let go before a refusal is counted.\<close>

definition swept_holds :: "int \<Rightarrow> hold_store \<Rightarrow> hold_store" where
  "swept_holds now hs = (\<lambda>i. case hs i of
     Some standing \<Rightarrow> if held_until standing + maximum_hold < now then None else Some standing
   | None \<Rightarrow> None)"

definition held_on :: "string \<Rightarrow> refusal \<Rightarrow> int \<Rightarrow> hold_store \<Rightarrow> hold_store" where
  "held_on identity r now hs =
     (let kept = swept_holds now hs;
          standing = kept identity;
          n = (case standing of Some h \<Rightarrow> strikes h | None \<Rightarrow> 0) + (if holding_at standing now then 0 else 1);
          til = max (case standing of Some h \<Rightarrow> held_until h | None \<Rightarrow> 0) (now + hold_for r n)
      in kept(identity := Some \<lparr>held_until = til, strikes = n\<rparr>))"

text \<open>An answer under 400 lets go of a hold that is over, and of no other.\<close>

definition lifted_hold :: "string \<Rightarrow> int \<Rightarrow> hold_store \<Rightarrow> hold_store" where
  "lifted_hold identity now hs =
     (case hs identity of Some h \<Rightarrow> if now \<ge> held_until h then hs(identity := None) else hs
                        | None \<Rightarrow> hs)"

subsection \<open>The table of waits\<close>

lemma backoff_values:
  "backoff_for 1 = 60000" "backoff_for 2 = 120000" "backoff_for 3 = 240000" "backoff_for 4 = 480000"
  by (simp_all add: backoff_for_def minimum_hold_def maximum_hold_def)

lemma backoff_at_longest: "5 \<le> n \<Longrightarrow> backoff_for n = maximum_hold"
proof -
  assume "5 \<le> n"
  then have "\<not> backoff_for n < maximum_hold" using backoff_grows_to_longest [of n] by auto
  moreover have "backoff_for n \<le> maximum_hold" by (simp add: backoff_for_def)
  ultimately show "backoff_for n = maximum_hold" by simp
qed

lemma backoff_bounds: "minimum_hold \<le> backoff_for n" "backoff_for n \<le> maximum_hold"
proof -
  have "(1 :: int) \<le> 2 ^ (n - 1)" by simp
  then show "minimum_hold \<le> backoff_for n"
    by (simp add: backoff_for_def minimum_hold_def maximum_hold_def)
qed (simp add: backoff_for_def)

lemma waits_for_table: "waits_for r = map (hold_for r) [1, 2, 3, 4, 5]"
proof -
  have "waits_from r 1 = map (hold_for r) [2, 3, 4, 5]"
    using backoff_at_longest [of 5] backoff_values
    by (simp add: waits_from.simps maximum_hold_def numeral_2_eq_2 [symmetric] del: One_nat_def)
  then show ?thesis by (simp add: waits_for_def)
qed

lemma hold_for_longest: "5 \<le> n \<Longrightarrow> hold_for r n = hold_for r 5"
  by (simp add: hold_for_def backoff_at_longest)

lemma waits_index:
  assumes "1 \<le> n"
  shows "waits_for r ! (min n (length (waits_for r)) - 1) = hold_for r n"
proof (cases "n < 5")
  case True
  then have "n \<in> {1, 2, 3, 4}" using assms by auto
  then show ?thesis by (auto simp: waits_for_table)
next
  case False
  then show ?thesis using hold_for_longest [of n r] by (simp add: waits_for_table min_def)
qed

end
