(* ===== verification/Rate_Gate.thy ===== *)
theory Rate_Gate
  imports Rate_Hold
begin

text \<open>
  The gate of \<open>packages/service/src/github/github-rate-gate.ts\<close> as one instance runs it: every request
  to GitHub's API waits its identity's turn where it writes, then its identity's lane, reads the holds,
  and is sent, held, or given up on; what GitHub answers sets and lifts holds. A step is what runs
  between two waits of the source: a clock, a semaphore, GitHub, or the database. The steps come in
  any order, so every interleaving of the fibers is a run. A semaphore of one permit is whoever holds
  it: which of those waiting takes it next is left open. A step of the database fails where
  \<open>unblocking\<close> answers nothing, and other instances write the shared holds as they like.
\<close>

subsection \<open>Requests and lanes\<close>

datatype lane_kind = Writers | Senders | Background_Senders

record lane =
  turn_id :: nat \<comment> \<open>its semaphore\<close>
  waiting :: nat

text \<open>Where a request stands: what it waits for, and what it holds.\<close>

datatype place =
    Wants_Turn
  | Waits_Out int \<comment> \<open>in its turn, until an instant\<close>
  | Wants_Lane
  | Looks
  | Reads int \<comment> \<open>the shared hold, asked for at an instant\<close>
  | Is_Out
  | Was_Refused response int
  | Holds refusal int
  | Lifts int
  | Gone

record call =
  identity :: string
  mutates :: bool
  behind :: bool \<comment> \<open>work no member waits on\<close>
  place :: place
  write_turn :: "nat option"
  send_turn :: "nat option"

record shared_read =
  read_at :: int
  read_hold :: "hold option"

record gate =
  clock :: int
  stored_holds :: hold_store
  holds :: hold_store
  shared_reads :: "string \<Rightarrow> shared_read option"
  next_write :: "string \<Rightarrow> int option"
  lanes :: "lane_kind \<Rightarrow> string \<Rightarrow> lane option"
  taken :: "nat \<Rightarrow> nat option" \<comment> \<open>who holds a semaphore\<close>
  turns_made :: nat
  calls :: "call list"
  sent :: "(nat \<times> int) list" \<comment> \<open>each request sent and when, the latest last\<close>

definition new_gate :: "int \<Rightarrow> hold_store \<Rightarrow> gate" where
  "new_gate now stored = \<lparr>clock = now, stored_holds = stored, holds = (\<lambda>_. None), shared_reads = (\<lambda>_. None),
     next_write = (\<lambda>_. None), lanes = (\<lambda>_ _. None), taken = (\<lambda>_. None), turns_made = 0, calls = [], sent = []\<rparr>"

definition send_lane :: "call \<Rightarrow> lane_kind" where
  "send_lane c = (if behind c then Background_Senders else Senders)"

text \<open>\<open>inLane\<close>: into a lane, made where none stands, and out of it, let go where no other waits.\<close>

definition enter_lane :: "lane_kind \<Rightarrow> string \<Rightarrow> gate \<Rightarrow> nat \<times> gate" where
  "enter_lane k i g = (case lanes g k i of
     Some l \<Rightarrow> (turn_id l, g\<lparr>lanes := (lanes g)(k := (lanes g k)(i := Some (l\<lparr>waiting := waiting l + 1\<rparr>)))\<rparr>)
   | None \<Rightarrow> (turns_made g, g\<lparr>lanes := (lanes g)(k := (lanes g k)(i := Some \<lparr>turn_id = turns_made g, waiting = 1\<rparr>)),
                              turns_made := turns_made g + 1\<rparr>))"

definition give_back :: "nat \<Rightarrow> nat \<Rightarrow> gate \<Rightarrow> gate" where
  "give_back r t g = (if taken g t = Some r then g\<lparr>taken := (taken g)(t := None)\<rparr> else g)"

definition leave_lane :: "lane_kind \<Rightarrow> string \<Rightarrow> nat \<Rightarrow> nat \<Rightarrow> gate \<Rightarrow> gate" where
  "leave_lane k i r t g = (let g = give_back r t g in case lanes g k i of
     None \<Rightarrow> g
   | Some l \<Rightarrow> if waiting l \<le> 1 then g\<lparr>lanes := (lanes g)(k := (lanes g k)(i := None))\<rparr>
       else g\<lparr>lanes := (lanes g)(k := (lanes g k)(i := Some (l\<lparr>waiting := waiting l - 1\<rparr>)))\<rparr>)"

definition set_call :: "nat \<Rightarrow> call \<Rightarrow> gate \<Rightarrow> gate" where
  "set_call r c g = g\<lparr>calls := (calls g)[r := c]\<rparr>"

definition moved_to :: "nat \<Rightarrow> place \<Rightarrow> gate \<Rightarrow> gate" where
  "moved_to r p g = set_call r ((calls g ! r)\<lparr>place := p\<rparr>) g"

text \<open>A request done with, answered, held, failed or given up on: out of its lane, then of its turn.\<close>

definition leave :: "nat \<Rightarrow> gate \<Rightarrow> gate" where
  "leave r g =
     (let c = calls g ! r;
          g1 = (case send_turn c of Some t \<Rightarrow> leave_lane (send_lane c) (identity c) r t g | None \<Rightarrow> g);
          g2 = (case write_turn c of Some t \<Rightarrow> leave_lane Writers (identity c) r t g1 | None \<Rightarrow> g1)
      in set_call r (c\<lparr>place := Gone, send_turn := None, write_turn := None\<rparr>) g2)"

definition join_lane :: "nat \<Rightarrow> gate \<Rightarrow> gate" where
  "join_lane r g = (let c = calls g ! r; (t, g') = enter_lane (send_lane c) (identity c) g
     in set_call r (c\<lparr>place := Wants_Lane, send_turn := Some t\<rparr>) g')"

definition join_turn :: "nat \<Rightarrow> gate \<Rightarrow> gate" where
  "join_turn r g = (let c = calls g ! r; (t, g') = enter_lane Writers (identity c) g
     in set_call r (c\<lparr>place := Wants_Turn, write_turn := Some t\<rparr>) g')"

subsection \<open>Holds and spacing\<close>

text \<open>A read of the shared hold remembered, those past trusting let go.\<close>

definition remembered :: "string \<Rightarrow> int \<Rightarrow> hold option \<Rightarrow> gate \<Rightarrow> gate" where
  "remembered i now h g = g\<lparr>shared_reads := (\<lambda>k. case shared_reads g k of
       Some s \<Rightarrow> if now - read_at s \<ge> shared_read_for then None else Some s
     | None \<Rightarrow> None)(i := Some \<lparr>read_at = now, read_hold = h\<rparr>)\<rparr>"

definition started :: "string \<Rightarrow> int \<Rightarrow> gate \<Rightarrow> gate" where
  "started i now g = g\<lparr>next_write := (\<lambda>k. case next_write g k of
       Some n \<Rightarrow> if n \<le> now then None else Some n
     | None \<Rightarrow> None)(i := Some (now + mutative_spacing))\<rparr>"

text \<open>The hold standing here at an instant.\<close>

definition local_hold :: "string \<Rightarrow> int \<Rightarrow> gate \<Rightarrow> hold option" where
  "local_hold i now g = (if holding_at (holds g i) now then holds g i else None)"

text \<open>The holds read, a request is held or sent; a write books its start as it is sent.\<close>

definition decide_send :: "nat \<Rightarrow> int \<Rightarrow> hold option \<Rightarrow> gate \<Rightarrow> gate" where
  "decide_send r now shared g =
     (let c = calls g ! r;
          held = (case local_hold (identity c) now g of Some h \<Rightarrow> Some h | None \<Rightarrow> shared)
      in if holding_at held now then leave r g
         else let g' = (if mutates c then started (identity c) (clock g) g else g)
              in moved_to r Is_Out (g'\<lparr>sent := sent g' @ [(r, clock g)]\<rparr>))"

text \<open>The shared hold as last read, or read again once that read is past trusting.\<close>

definition shared_hold :: "nat \<Rightarrow> int \<Rightarrow> gate \<Rightarrow> gate" where
  "shared_hold r now g = (case shared_reads g (identity (calls g ! r)) of
     Some s \<Rightarrow> if now - read_at s < shared_read_for then decide_send r now (read_hold s) g
               else moved_to r (Reads now) g
   | None \<Rightarrow> moved_to r (Reads now) g)"

definition look :: "nat \<Rightarrow> gate \<Rightarrow> gate" where
  "look r g =
     (let now = clock g
      in if local_hold (identity (calls g ! r)) now g \<noteq> None then decide_send r now None g
         else shared_hold r now g)"

text \<open>What GitHub answered, and what it says of the holds.\<close>

definition lifted :: "nat \<Rightarrow> int \<Rightarrow> gate \<Rightarrow> gate" where
  "lifted r now g =
     (let i = identity (calls g ! r);
          shared = (case shared_reads g i of Some s \<Rightarrow> read_hold s | None \<Rightarrow> None)
      in case shared of
           None \<Rightarrow> leave r g
         | Some h \<Rightarrow> if now < held_until h then leave r g
             else moved_to r (Lifts now) (remembered i now None g))"

definition noted_answer :: "nat \<Rightarrow> response \<Rightarrow> gate \<Rightarrow> gate" where
  "noted_answer r res g =
     (if status res < first_refusal_status
      then lifted r (clock g) (g\<lparr>holds := lifted_hold (identity (calls g ! r)) (clock g) (holds g)\<rparr>)
      else moved_to r (Was_Refused res (clock g)) g)"

definition noted_refusal :: "nat \<Rightarrow> refusal \<Rightarrow> gate \<Rightarrow> gate" where
  "noted_refusal r ref g =
     (if \<not> limited ref then leave r g
      else moved_to r (Holds ref (clock g)) (g\<lparr>holds := held_on (identity (calls g ! r)) ref (clock g) (holds g)\<rparr>))"

definition held_everywhere :: "nat \<Rightarrow> refusal \<Rightarrow> int \<Rightarrow> bool \<Rightarrow> gate \<Rightarrow> gate" where
  "held_everywhere r ref now failed g =
     (if failed then leave r g
      else let i = identity (calls g ! r);
               (h, stored) = upsert_hold i now (waits_for ref) (now - maximum_hold) (stored_holds g)
           in leave r (remembered i now (Some h) (g\<lparr>stored_holds := stored\<rparr>)))"

subsection \<open>Steps\<close>

datatype gate_label =
    Tick int
  | Come string bool bool \<comment> \<open>an identity, whether it writes, whether no member waits on it\<close>
  | Take nat
  | Wake nat
  | Look nat
  | Read_Answers nat bool
  | Answers nat response
  | Read_Refusal nat
  | Hold_Answers nat bool
  | Lift_Answers nat bool
  | Give_Up nat
  | Others string "hold option"

definition place_of :: "nat \<Rightarrow> gate \<Rightarrow> place" where
  "place_of r g = (if r < length (calls g) then place (calls g ! r) else Gone)"

definition come :: "string \<Rightarrow> bool \<Rightarrow> bool \<Rightarrow> gate \<Rightarrow> gate" where
  "come i writes background g =
     (let c = \<lparr>identity = i, mutates = writes, behind = background, place = Gone, write_turn = None, send_turn = None\<rparr>;
          r = length (calls g); g' = g\<lparr>calls := calls g @ [c]\<rparr>
      in if writes then join_turn r g' else join_lane r g')"

text \<open>A semaphore taken: a write in its turn waits out the last one's second; one in its lane is next.\<close>

definition take_permit :: "nat \<Rightarrow> gate \<Rightarrow> gate option" where
  "take_permit r g = (let c = calls g ! r in case place_of r g of
     Wants_Turn \<Rightarrow> (case write_turn c of
         Some t \<Rightarrow> if taken g t = None
           then let now = clock g; until = (case next_write g (identity c) of Some n \<Rightarrow> n | None \<Rightarrow> now)
                in Some (moved_to r (Waits_Out (if until > now then until else now)) (g\<lparr>taken := (taken g)(t := Some r)\<rparr>))
           else None
       | None \<Rightarrow> None)
   | Wants_Lane \<Rightarrow> (case send_turn c of
         Some t \<Rightarrow> if taken g t = None then Some (moved_to r Looks (g\<lparr>taken := (taken g)(t := Some r)\<rparr>)) else None
       | None \<Rightarrow> None)
   | _ \<Rightarrow> None)"

definition gate_step :: "gate_label \<Rightarrow> gate \<Rightarrow> gate option" where
  "gate_step l g = (case l of
     Tick now \<Rightarrow> if clock g \<le> now then Some (g\<lparr>clock := now\<rparr>) else None
   | Come i writes background \<Rightarrow> Some (come i writes background g)
   | Take r \<Rightarrow> take_permit r g
   | Wake r \<Rightarrow> (case place_of r g of Waits_Out until \<Rightarrow> if until \<le> clock g then Some (join_lane r g) else None | _ \<Rightarrow> None)
   | Look r \<Rightarrow> (case place_of r g of Looks \<Rightarrow> Some (look r g) | _ \<Rightarrow> None)
   | Read_Answers r failed \<Rightarrow> (case place_of r g of
         Reads now \<Rightarrow>
           let i = identity (calls g ! r); h = (if failed then None else stored_holds g i)
           in Some (decide_send r now h (remembered i now h g))
       | _ \<Rightarrow> None)
   | Answers r res \<Rightarrow> (case place_of r g of Is_Out \<Rightarrow> Some (noted_answer r res g) | _ \<Rightarrow> None)
   | Read_Refusal r \<Rightarrow> (case place_of r g of
         Was_Refused res at_time \<Rightarrow> Some (noted_refusal r (refusal_of res at_time) g) | _ \<Rightarrow> None)
   | Hold_Answers r failed \<Rightarrow> (case place_of r g of
         Holds ref now \<Rightarrow> Some (held_everywhere r ref now failed g) | _ \<Rightarrow> None)
   | Lift_Answers r failed \<Rightarrow> (case place_of r g of
         Lifts now \<Rightarrow>
           Some (leave r (if failed then g else g\<lparr>stored_holds := delete_lifted (identity (calls g ! r)) now (stored_holds g)\<rparr>))
       | _ \<Rightarrow> None)
   | Give_Up r \<Rightarrow> if place_of r g \<noteq> Gone then Some (leave r g) else None
   | Others i h \<Rightarrow> Some (g\<lparr>stored_holds := (stored_holds g)(i := h)\<rparr>))"

fun gate_run :: "gate_label list \<Rightarrow> gate \<Rightarrow> gate option" where
  "gate_run [] g = Some g"
| "gate_run (l # ls) g = (case gate_step l g of Some g' \<Rightarrow> gate_run ls g' | None \<Rightarrow> None)"

inductive gate_reach :: "gate \<Rightarrow> bool" where
  start: "gate_reach (new_gate now stored)"
| move: "gate_reach g \<Longrightarrow> gate_step l g = Some g' \<Longrightarrow> gate_reach g'"

end
