(* ===== verification/Rate_Gate_Lanes.thy ===== *)
theory Rate_Gate_Lanes
  imports Rate_Gate
begin

text \<open>
  The lanes of the gate (\<open>Rate_Gate\<close>): in every state a lane stands exactly while a request is in it,
  every request in it waits on its one semaphore, and a semaphore taken is held by a request that
  has it. So a lane made anew, once the last request let the old one go, never stands beside it.
\<close>

named_theorems gate_parts "what an operation of the gate leaves of its parts"

subsection \<open>Lists updated at a place\<close>

lemma count_update:
  "r < length xs \<Longrightarrow>
     length (filter P (xs[r := y])) + (if P (xs ! r) then 1 else 0) = length (filter P xs) + (if P y then 1 else 0)"
proof (induction xs arbitrary: r)
  case (Cons x xs)
  show ?case
  proof (cases r)
    case (Suc r')
    then show ?thesis using Cons.IH [of r'] Cons.prems by (auto split: if_splits)
  qed simp
qed simp

lemma ball_update:
  "r < length xs \<Longrightarrow> P y = P (xs ! r) \<Longrightarrow> (\<forall>x \<in> set (xs[r := y]). P x) = (\<forall>x \<in> set xs. P x)"
  by (induction xs arbitrary: r) (auto split: nat.splits)

lemma ball_update_I: "\<forall>x \<in> set xs. P x \<Longrightarrow> P y \<Longrightarrow> \<forall>x \<in> set (xs[r := y]). P x"
  using set_update_subset_insert by fastforce

subsection \<open>What it is to be in a lane\<close>

definition turn_in :: "lane_kind \<Rightarrow> call \<Rightarrow> nat option" where
  "turn_in k c = (if k = Writers then write_turn c else if k = send_lane c then send_turn c else None)"

definition in_lane :: "lane_kind \<Rightarrow> string \<Rightarrow> call \<Rightarrow> bool" where
  "in_lane k i c \<longleftrightarrow> identity c = i \<and> turn_in k c \<noteq> None"

definition has_turn :: "lane_kind \<Rightarrow> call \<Rightarrow> bool" where
  "has_turn k c \<longleftrightarrow> turn_in k c \<noteq> None \<and> place c \<noteq> (if k = Writers then Wants_Turn else Wants_Lane)"

fun lane_ok :: "lane option \<Rightarrow> call list \<Rightarrow> lane_kind \<Rightarrow> string \<Rightarrow> bool" where
  "lane_ok None cs k i \<longleftrightarrow> (\<forall>c \<in> set cs. \<not> in_lane k i c)"
| "lane_ok (Some l) cs k i \<longleftrightarrow> waiting l = length (filter (in_lane k i) cs) \<and> 0 < waiting l \<and>
     (\<forall>c \<in> set cs. in_lane k i c \<longrightarrow> turn_in k c = Some (turn_id l))"

definition lanes_ok :: "(lane_kind \<Rightarrow> string \<Rightarrow> lane option) \<Rightarrow> call list \<Rightarrow> bool" where
  "lanes_ok ls cs \<longleftrightarrow> (\<forall>k i. lane_ok (ls k i) cs k i)"

definition turns_ok :: "(nat \<Rightarrow> nat option) \<Rightarrow> call list \<Rightarrow> bool" where
  "turns_ok tk cs \<longleftrightarrow>
     (\<forall>r < length cs. \<forall>k. has_turn k (cs ! r) \<longrightarrow> tk (the (turn_in k (cs ! r))) = Some r) \<and>
     (\<forall>t r. tk t = Some r \<longrightarrow> r < length cs \<and> (\<exists>k. has_turn k (cs ! r) \<and> turn_in k (cs ! r) = Some t))"

lemma turn_in_place [simp]: "turn_in k (c\<lparr>place := p\<rparr>) = turn_in k c"
  by (simp add: turn_in_def send_lane_def)

text \<open>A request waits for a lane once it is past its turn, and is in its turn from the first if it writes.\<close>

fun before_lane :: "place \<Rightarrow> bool" where
  "before_lane Wants_Turn = True"
| "before_lane (Waits_Out _) = True"
| "before_lane _ = False"

definition place_ok :: "call \<Rightarrow> bool" where
  "place_ok c \<longleftrightarrow> (send_turn c = None \<longleftrightarrow> before_lane (place c) \<or> place c = Gone) \<and>
     (write_turn c = None \<longleftrightarrow> \<not> mutates c \<or> place c = Gone) \<and> (before_lane (place c) \<longrightarrow> mutates c)"

subsection \<open>Entering and leaving one lane\<close>

definition entered_lane :: "nat \<Rightarrow> lane option \<Rightarrow> lane" where
  "entered_lane fresh l = (case l of Some l \<Rightarrow> l\<lparr>waiting := waiting l + 1\<rparr> | None \<Rightarrow> \<lparr>turn_id = fresh, waiting = 1\<rparr>)"

definition left_lane :: "lane option \<Rightarrow> lane option" where
  "left_lane l = (case l of Some l \<Rightarrow> if waiting l \<le> 1 then None else Some (l\<lparr>waiting := waiting l - 1\<rparr>) | None \<Rightarrow> None)"

lemma lane_ok_same:
  assumes "r < length cs" "in_lane k i c = in_lane k i (cs ! r)" "in_lane k i c \<Longrightarrow> turn_in k c = turn_in k (cs ! r)"
  shows "lane_ok l (cs[r := c]) k i = lane_ok l cs k i"
proof (cases l)
  case None
  then show ?thesis using assms by (simp add: ball_update)
next
  case (Some l')
  have "length (filter (in_lane k i) (cs[r := c])) = length (filter (in_lane k i) cs)"
    using count_update [OF assms(1), of "in_lane k i" c] assms(2) by simp
  moreover have "(\<forall>c \<in> set (cs[r := c]). in_lane k i c \<longrightarrow> turn_in k c = Some (turn_id l')) =
      (\<forall>c \<in> set cs. in_lane k i c \<longrightarrow> turn_in k c = Some (turn_id l'))"
    by (rule ball_update [OF assms(1)]) (use assms(2,3) in auto)
  ultimately show ?thesis by (simp add: Some)
qed

lemma lane_ok_entered:
  assumes "r < length cs" "\<not> in_lane k i (cs ! r)" "in_lane k i c" "lane_ok l cs k i"
    and "turn_in k c = Some (turn_id (entered_lane fresh l))"
  shows "lane_ok (Some (entered_lane fresh l)) (cs[r := c]) k i"
proof -
  let ?l = "entered_lane fresh l"
  have "length (filter (in_lane k i) (cs[r := c])) = length (filter (in_lane k i) cs) + 1"
    using count_update [OF assms(1), of "in_lane k i" c] assms(2,3) by simp
  moreover have "waiting ?l = length (filter (in_lane k i) cs) + 1"
    using assms(4) by (cases l) (auto simp: entered_lane_def filter_empty_conv)
  moreover have "\<forall>c \<in> set cs. in_lane k i c \<longrightarrow> turn_in k c = Some (turn_id ?l)"
    using assms(4) by (cases l) (auto simp: entered_lane_def)
  then have "\<forall>c \<in> set (cs[r := c]). in_lane k i c \<longrightarrow> turn_in k c = Some (turn_id ?l)"
    by (rule ball_update_I) (use assms(5) in simp)
  ultimately show ?thesis by simp
qed

lemma lane_ok_left:
  assumes "r < length cs" "in_lane k i (cs ! r)" "\<not> in_lane k i c" "lane_ok l cs k i"
  shows "lane_ok (left_lane l) (cs[r := c]) k i"
proof -
  have in_set: "cs ! r \<in> set cs" using assms(1) by simp
  obtain l' where l: "l = Some l'" using assms(2,4) in_set by (cases l) auto
  have count: "length (filter (in_lane k i) (cs[r := c])) + 1 = waiting l'"
    using count_update [OF assms(1), of "in_lane k i" c] assms(2,3,4) by (simp add: l)
  have same: "\<forall>c \<in> set (cs[r := c]). in_lane k i c \<longrightarrow> turn_in k c = Some (turn_id l')"
    by (rule ball_update_I) (use assms(3,4) l in auto)
  show ?thesis
  proof (cases "waiting l' \<le> 1")
    case True
    then have "length (filter (in_lane k i) (cs[r := c])) = 0" using count by linarith
    then have "filter (in_lane k i) (cs[r := c]) = []" by (simp only: length_0_conv)
    then show ?thesis using True by (simp add: l left_lane_def filter_empty_conv)
  next
    case False
    then show ?thesis using count same by (auto simp: l left_lane_def)
  qed
qed

subsection \<open>The parts of the gate each operation touches\<close>

lemma enter_lane_parts [gate_parts]:
  "fst (enter_lane k i g) = turn_id (entered_lane (turns_made g) (lanes g k i))"
  "lanes (snd (enter_lane k i g)) = (lanes g)(k := (lanes g k)(i := Some (entered_lane (turns_made g) (lanes g k i))))"
  "taken (snd (enter_lane k i g)) = taken g" "calls (snd (enter_lane k i g)) = calls g"
  "clock (snd (enter_lane k i g)) = clock g" "holds (snd (enter_lane k i g)) = holds g"
  "next_write (snd (enter_lane k i g)) = next_write g" "sent (snd (enter_lane k i g)) = sent g"
  by (auto simp: enter_lane_def entered_lane_def split: option.splits)

lemma leave_lane_parts [gate_parts]:
  "lanes (leave_lane k i r t g) = (lanes g)(k := (lanes g k)(i := left_lane (lanes g k i)))"
  "taken (leave_lane k i r t g) = (if taken g t = Some r then (taken g)(t := None) else taken g)"
  "calls (leave_lane k i r t g) = calls g"
  "clock (leave_lane k i r t g) = clock g" "holds (leave_lane k i r t g) = holds g"
  "next_write (leave_lane k i r t g) = next_write g" "sent (leave_lane k i r t g) = sent g"
  by (auto simp: leave_lane_def give_back_def left_lane_def Let_def fun_eq_iff split: option.splits)

lemma set_call_parts [gate_parts]:
  "calls (set_call r c g) = (calls g)[r := c]" "lanes (set_call r c g) = lanes g" "taken (set_call r c g) = taken g"
  "clock (set_call r c g) = clock g" "holds (set_call r c g) = holds g" "next_write (set_call r c g) = next_write g"
  "sent (set_call r c g) = sent g"
  by (simp_all add: set_call_def)

lemma moved_to_parts [gate_parts]:
  "calls (moved_to r p g) = (calls g)[r := (calls g ! r)\<lparr>place := p\<rparr>]" "lanes (moved_to r p g) = lanes g"
  "taken (moved_to r p g) = taken g" "clock (moved_to r p g) = clock g" "holds (moved_to r p g) = holds g"
  "next_write (moved_to r p g) = next_write g" "sent (moved_to r p g) = sent g"
  by (simp_all add: moved_to_def gate_parts)

lemma remembered_parts [gate_parts]:
  "calls (remembered i now h g) = calls g" "lanes (remembered i now h g) = lanes g"
  "taken (remembered i now h g) = taken g" "clock (remembered i now h g) = clock g"
  "holds (remembered i now h g) = holds g" "next_write (remembered i now h g) = next_write g"
  "sent (remembered i now h g) = sent g"
  by (simp_all add: remembered_def)

lemma started_parts [gate_parts]:
  "calls (started i now g) = calls g" "lanes (started i now g) = lanes g" "taken (started i now g) = taken g"
  "clock (started i now g) = clock g" "holds (started i now g) = holds g" "sent (started i now g) = sent g"
  by (simp_all add: started_def)

abbreviation gone :: "call \<Rightarrow> call" where
  "gone c \<equiv> c\<lparr>place := Gone, send_turn := None, write_turn := None\<rparr>"

lemma leave_parts [gate_parts]:
  "calls (leave r g) = (calls g)[r := gone (calls g ! r)]"
  "clock (leave r g) = clock g" "holds (leave r g) = holds g" "next_write (leave r g) = next_write g"
  "sent (leave r g) = sent g"
  by (auto simp: leave_def Let_def gate_parts split: option.splits)

lemma lanes_leave [gate_parts]:
  "lanes (leave r g) k i =
     (if in_lane k i (calls g ! r) then left_lane (lanes g k i) else lanes g k i)"
  by (cases k) (auto simp: leave_def Let_def gate_parts in_lane_def turn_in_def send_lane_def split: option.splits if_splits)

lemma taken_leave [gate_parts]:
  "taken (leave r g) t =
     (if taken g t = Some r \<and> (\<exists>k. turn_in k (calls g ! r) = Some t) then None else taken g t)"
  by (auto simp: leave_def Let_def gate_parts turn_in_def send_lane_def split: option.splits if_splits)

subsection \<open>The invariant\<close>

definition gate_ok :: "gate \<Rightarrow> bool" where
  "gate_ok g \<longleftrightarrow> lanes_ok (lanes g) (calls g) \<and> turns_ok (taken g) (calls g) \<and> (\<forall>c \<in> set (calls g). place_ok c)"

lemma gate_ok_parts:
  "lanes g' = lanes g \<Longrightarrow> calls g' = calls g \<Longrightarrow> taken g' = taken g \<Longrightarrow> gate_ok g' = gate_ok g"
  by (simp add: gate_ok_def)

lemma gate_ok_new: "gate_ok (new_gate now stored)"
  by (simp add: gate_ok_def new_gate_def lanes_ok_def turns_ok_def)

text \<open>A request set to another place without lanes gained or lost, and keeping what it holds.\<close>

lemma gate_ok_moved:
  assumes ok: "gate_ok g" and r: "r < length (calls g)" and here: "\<not> before_lane (place (calls g ! r))"
      "place (calls g ! r) \<noteq> Wants_Lane" "place (calls g ! r) \<noteq> Gone"
    and to: "\<not> before_lane p" "p \<noteq> Wants_Lane" "p \<noteq> Gone"
  shows "gate_ok (moved_to r p g)"
proof -
  let ?c = "calls g ! r"
  have has: "has_turn k (?c\<lparr>place := p\<rparr>) = has_turn k ?c" for k
    using here to by (auto simp: has_turn_def)
  have "lanes_ok (lanes g) ((calls g)[r := ?c\<lparr>place := p\<rparr>])"
    using ok r by (simp add: gate_ok_def lanes_ok_def lane_ok_same in_lane_def)
  moreover have "turns_ok (taken g) ((calls g)[r := ?c\<lparr>place := p\<rparr>])"
  proof -
    have "has_turn k ((calls g)[r := ?c\<lparr>place := p\<rparr>] ! r') = has_turn k (calls g ! r')"
      "turn_in k ((calls g)[r := ?c\<lparr>place := p\<rparr>] ! r') = turn_in k (calls g ! r')" if "r' < length (calls g)" for k r'
      by (cases "r' = r"; use that has in simp)+
    then show ?thesis using ok by (auto simp: gate_ok_def turns_ok_def)
  qed
  moreover have "place_ok ?c" using ok r by (simp add: gate_ok_def)
  then have "place_ok (?c\<lparr>place := p\<rparr>)" using here to by (simp add: place_ok_def)
  then have "\<forall>c \<in> set ((calls g)[r := ?c\<lparr>place := p\<rparr>]). place_ok c"
    using ok by (auto simp: gate_ok_def dest!: set_update_subset_insert [THEN subsetD])
  ultimately show ?thesis by (simp add: gate_ok_def gate_parts)
qed

lemma gate_ok_leave:
  assumes ok: "gate_ok g" and r: "r < length (calls g)"
  shows "gate_ok (leave r g)"
proof -
  let ?c = "calls g ! r" and ?cs = "(calls g)[r := gone (calls g ! r)]"
  have none: "turn_in k (gone ?c) = None" for k by (simp add: turn_in_def)
  have out: "\<not> in_lane k i (gone ?c)" "\<not> has_turn k (gone ?c)" for k i by (simp_all add: in_lane_def has_turn_def none)
  have "lane_ok (lanes (leave r g) k i) ?cs k i" for k i
  proof (cases "in_lane k i ?c")
    case True
    then show ?thesis using ok r out by (simp add: gate_parts lane_ok_left gate_ok_def lanes_ok_def)
  next
    case False
    have "lane_ok (lanes g k i) (calls g) k i" using ok by (simp add: gate_ok_def lanes_ok_def)
    moreover have "lane_ok (lanes g k i) ?cs k i = lane_ok (lanes g k i) (calls g) k i"
      by (rule lane_ok_same [OF r]) (use out False in blast)+
    ultimately show ?thesis using False by (simp add: gate_parts)
  qed
  moreover have "turns_ok (taken (leave r g)) ?cs"
  proof -
    have old: "turns_ok (taken g) (calls g)" using ok by (simp add: gate_ok_def)
    have held: "taken (leave r g) (the (turn_in k (?cs ! r'))) = Some r'" if "r' < length ?cs" "has_turn k (?cs ! r')" for k r'
    proof -
      have r': "r' \<noteq> r" using that r out by auto
      then have "taken g (the (turn_in k (calls g ! r'))) = Some r'"
        using that old by (auto simp: turns_ok_def)
      then show ?thesis using r' by (simp add: gate_parts)
    qed
    have holder: "r' < length ?cs \<and> (\<exists>k. has_turn k (?cs ! r') \<and> turn_in k (?cs ! r') = Some t)"
      if t: "taken (leave r g) t = Some r'" for t r'
    proof -
      have g: "taken g t = Some r'" "r' = r \<Longrightarrow> \<nexists>k. turn_in k ?c = Some t"
        using t by (auto simp: gate_parts split: if_splits)
      then obtain k where k: "r' < length (calls g)" "has_turn k (calls g ! r')" "turn_in k (calls g ! r') = Some t"
        using old g(1) unfolding turns_ok_def by blast
      then have "r' \<noteq> r" using g(2) by blast
      then show ?thesis using k by auto
    qed
    show ?thesis using held holder by (auto simp: turns_ok_def)
  qed
  moreover have "place_ok (gone ?c)" by (simp add: place_ok_def)
  then have "\<forall>c \<in> set ?cs. place_ok c"
    using ok by (auto simp: gate_ok_def dest!: set_update_subset_insert [THEN subsetD])
  ultimately show ?thesis by (simp add: gate_ok_def gate_parts lanes_ok_def)
qed

text \<open>A request that enters a lane of its identity, its other lanes as they were.\<close>

lemma gate_ok_entered:
  assumes ok: "gate_ok g" and r: "r < length (calls g)"
    and parts: "calls g' = (calls g)[r := c]" "taken g' = taken g"
      "lanes g' = (lanes g)(k := (lanes g k)(identity c := Some (entered_lane (turns_made g) (lanes g k (identity c)))))"
    and call: "turn_in k (calls g ! r) = None" "identity c = identity (calls g ! r)"
      "turn_in k c = Some (turn_id (entered_lane (turns_made g) (lanes g k (identity c))))"
      "\<And>k'. k' \<noteq> k \<Longrightarrow> turn_in k' c = turn_in k' (calls g ! r)"
      "\<And>k'. has_turn k' c = has_turn k' (calls g ! r)" "place_ok c"
  shows "gate_ok g'"
proof -
  have "lane_ok (lanes g' k' i) ((calls g)[r := c]) k' i" for k' i
  proof (cases "k' = k \<and> i = identity c")
    case True
    have old: "lane_ok (lanes g k i) (calls g) k i" using ok by (simp add: gate_ok_def lanes_ok_def)
    have "lane_ok (Some (entered_lane (turns_made g) (lanes g k i))) ((calls g)[r := c]) k i"
      by (rule lane_ok_entered [OF r _ _ old]) (use True call in \<open>auto simp: in_lane_def\<close>)
    moreover have "lanes g' k' i = Some (entered_lane (turns_made g) (lanes g k i))" using True by (simp add: parts)
    ultimately show ?thesis using True by metis
  next
    case False
    have "lanes g' k' i = lanes g k' i" using False by (auto simp: parts)
    moreover have "lane_ok (lanes g k' i) (calls g) k' i" using ok by (simp add: gate_ok_def lanes_ok_def)
    moreover have "lane_ok (lanes g k' i) ((calls g)[r := c]) k' i = lane_ok (lanes g k' i) (calls g) k' i"
      by (rule lane_ok_same [OF r]) (use False call in \<open>auto simp: in_lane_def\<close>)
    ultimately show ?thesis by simp
  qed
  moreover have "turns_ok (taken g) ((calls g)[r := c])"
  proof -
    have turns: "has_turn k' ((calls g)[r := c] ! r') = has_turn k' (calls g ! r')" for k' r'
      by (cases "r' = r") (use call(5) r in auto)
    have same: "turn_in k' ((calls g)[r := c] ! r') = turn_in k' (calls g ! r')" if "has_turn k' (calls g ! r')" for k' r'
    proof (cases "r' = r")
      case True
      then have "k' \<noteq> k" using that call(1) by (auto simp: has_turn_def)
      then show ?thesis using True r call(4) by simp
    qed simp
    have old: "turns_ok (taken g) (calls g)" using ok by (simp add: gate_ok_def)
    show ?thesis unfolding turns_ok_def turns
    proof (intro conjI allI impI)
      fix r' k' assume "r' < length ((calls g)[r := c])" "has_turn k' (calls g ! r')"
      then show "taken g (the (turn_in k' ((calls g)[r := c] ! r'))) = Some r'"
        using old same by (simp add: turns_ok_def)
    next
      fix t r' assume t: "taken g t = Some r'"
      then show "r' < length ((calls g)[r := c])" using old by (auto simp: turns_ok_def)
      show "\<exists>k. has_turn k (calls g ! r') \<and> turn_in k ((calls g)[r := c] ! r') = Some t"
        using old t same unfolding turns_ok_def by metis
    qed
  qed
  moreover have "\<forall>c \<in> set ((calls g)[r := c]). place_ok c"
    using ok call(6) by (auto simp: gate_ok_def dest!: set_update_subset_insert [THEN subsetD])
  ultimately show ?thesis by (simp add: gate_ok_def parts lanes_ok_def)
qed

lemma join_lane_parts [gate_parts]:
  "calls (join_lane r g) = (calls g)[r := (calls g ! r)\<lparr>place := Wants_Lane, send_turn := Some (turn_id
     (entered_lane (turns_made g) (lanes g (send_lane (calls g ! r)) (identity (calls g ! r)))))\<rparr>]"
  "taken (join_lane r g) = taken g" "clock (join_lane r g) = clock g" "holds (join_lane r g) = holds g"
  "next_write (join_lane r g) = next_write g" "sent (join_lane r g) = sent g"
  "lanes (join_lane r g) = (let k = send_lane (calls g ! r); i = identity (calls g ! r) in
     (lanes g)(k := (lanes g k)(i := Some (entered_lane (turns_made g) (lanes g k i)))))"
  by (simp_all add: join_lane_def Let_def split_beta gate_parts)

lemma join_turn_parts [gate_parts]:
  "calls (join_turn r g) = (calls g)[r := (calls g ! r)\<lparr>place := Wants_Turn, write_turn := Some (turn_id
     (entered_lane (turns_made g) (lanes g Writers (identity (calls g ! r)))))\<rparr>]"
  "taken (join_turn r g) = taken g" "clock (join_turn r g) = clock g" "holds (join_turn r g) = holds g"
  "next_write (join_turn r g) = next_write g" "sent (join_turn r g) = sent g"
  "lanes (join_turn r g) = (let i = identity (calls g ! r) in
     (lanes g)(Writers := (lanes g Writers)(i := Some (entered_lane (turns_made g) (lanes g Writers i)))))"
  by (simp_all add: join_turn_def Let_def split_beta gate_parts)

lemma send_lane_not_writers [simp]: "send_lane c \<noteq> Writers" "Writers \<noteq> send_lane c"
  by (simp_all add: send_lane_def)

lemma gate_ok_join_lane:
  assumes ok: "gate_ok g" and r: "r < length (calls g)"
    and from_turn: "(\<exists>t. place (calls g ! r) = Waits_Out t) \<or> (place (calls g ! r) = Gone \<and> \<not> mutates (calls g ! r))"
  shows "gate_ok (join_lane r g)"
proof -
  let ?c = "calls g ! r"
  let ?t = "turn_id (entered_lane (turns_made g) (lanes g (send_lane ?c) (identity ?c)))"
  let ?c' = "?c\<lparr>place := Wants_Lane, send_turn := Some ?t\<rparr>"
  have c: "place_ok ?c" using ok r by (simp add: gate_ok_def)
  have lane: "send_lane ?c' = send_lane ?c" by (simp add: send_lane_def)
  have "send_turn ?c = None" using c from_turn by (auto simp: place_ok_def)
  then have turns: "turn_in (send_lane ?c) ?c = None" "turn_in (send_lane ?c) ?c' = Some ?t"
      "k \<noteq> send_lane ?c \<Longrightarrow> turn_in k ?c' = turn_in k ?c" for k
    by (auto simp: turn_in_def lane)
  have "has_turn k ?c' = has_turn k ?c" for k
    using turns c from_turn by (cases "k = send_lane ?c") (auto simp: has_turn_def turn_in_def place_ok_def lane)
  moreover have "place_ok ?c'" using c from_turn by (auto simp: place_ok_def)
  ultimately show ?thesis
    by (intro gate_ok_entered [OF ok r, where k = "send_lane ?c" and c = ?c']) (simp_all add: gate_parts Let_def turns)
qed

lemma gate_ok_join_turn:
  assumes ok: "gate_ok g" and r: "r < length (calls g)" and fresh: "place (calls g ! r) = Gone" "mutates (calls g ! r)"
  shows "gate_ok (join_turn r g)"
proof -
  let ?c = "calls g ! r"
  let ?t = "turn_id (entered_lane (turns_made g) (lanes g Writers (identity ?c)))"
  let ?c' = "?c\<lparr>place := Wants_Turn, write_turn := Some ?t\<rparr>"
  have c: "place_ok ?c" using ok r by (simp add: gate_ok_def)
  then have none: "write_turn ?c = None" "send_turn ?c = None" using fresh by (auto simp: place_ok_def)
  have lane: "send_lane ?c' = send_lane ?c" by (simp add: send_lane_def)
  have "has_turn k ?c' = has_turn k ?c" for k
    using none by (auto simp: has_turn_def turn_in_def lane)
  moreover have "place_ok ?c'" using fresh none by (auto simp: place_ok_def)
  ultimately show ?thesis using none
    by (intro gate_ok_entered [OF ok r, where k = Writers and c = ?c'])
      (simp_all add: gate_parts Let_def turn_in_def lane)
qed

lemma gate_ok_take:
  assumes ok: "gate_ok g" and r: "r < length (calls g)" and free: "taken g t = None"
    and wants: "place (calls g ! r) = (if k = Writers then Wants_Turn else Wants_Lane)" "turn_in k (calls g ! r) = Some t"
    and to: "p = (if k = Writers then Waits_Out u else Looks)"
  shows "gate_ok (moved_to r p (g\<lparr>taken := (taken g)(t := Some r)\<rparr>))"
proof -
  let ?c = "calls g ! r" and ?c' = "(calls g ! r)\<lparr>place := p\<rparr>"
  have c: "place_ok ?c" using ok r by (simp add: gate_ok_def)
  have gains: "has_turn k' ?c' \<longleftrightarrow> has_turn k' ?c \<or> k' = k" for k'
  proof (cases "k = Writers")
    case True
    then have "send_turn ?c = None" using c wants by (auto simp: place_ok_def)
    then have "turn_in k' ?c = None" if "k' \<noteq> Writers" for k' using that by (auto simp: turn_in_def)
    then show ?thesis using True wants to by (auto simp: has_turn_def)
  next
    case False
    then have "turn_in k' ?c = None" if "k' \<noteq> k" "k' \<noteq> Writers" for k'
      using that wants(2) by (auto simp: turn_in_def split: if_splits)
    then show ?thesis using False wants to by (cases "k' = k"; cases "k' = Writers") (auto simp: has_turn_def)
  qed
  have wanted: "\<not> has_turn k ?c" using wants by (auto simp: has_turn_def)
  have "lanes_ok (lanes g) ((calls g)[r := ?c'])"
    using ok r by (simp add: gate_ok_def lanes_ok_def lane_ok_same in_lane_def)
  moreover have "turns_ok ((taken g)(t := Some r)) ((calls g)[r := ?c'])"
  proof -
    have old: "turns_ok (taken g) (calls g)" using ok by (simp add: gate_ok_def)
    have same: "turn_in k' ((calls g)[r := ?c'] ! r') = turn_in k' (calls g ! r')" for k' r'
      by (cases "r' = r") (use r in auto)
    have has: "has_turn k' ((calls g)[r := ?c'] ! r') \<longleftrightarrow> has_turn k' (calls g ! r') \<or> (r' = r \<and> k' = k)" for k' r'
      by (cases "r' = r") (use r gains in auto)
    show ?thesis unfolding turns_ok_def has same
    proof (intro conjI allI impI)
      fix r' k' assume r': "r' < length ((calls g)[r := ?c'])" "has_turn k' (calls g ! r') \<or> r' = r \<and> k' = k"
      show "((taken g)(t := Some r)) (the (turn_in k' (calls g ! r'))) = Some r'"
      proof (cases "r' = r \<and> k' = k")
        case True then show ?thesis using wants(2) by simp
      next
        case False
        then have "taken g (the (turn_in k' (calls g ! r'))) = Some r'" using old r' by (auto simp: turns_ok_def)
        then show ?thesis using free by auto
      qed
    next
      fix t' r' assume t': "((taken g)(t := Some r)) t' = Some r'"
      show "r' < length ((calls g)[r := ?c'])"
        using t' old r by (auto simp: turns_ok_def split: if_splits)
      show "\<exists>k'. (has_turn k' (calls g ! r') \<or> r' = r \<and> k' = k) \<and> turn_in k' (calls g ! r') = Some t'"
      proof (cases "t' = t")
        case True then show ?thesis using t' wants(2) by auto
      next
        case False then show ?thesis using t' old unfolding turns_ok_def by (metis fun_upd_other)
      qed
    qed
  qed
  moreover have "place_ok ?c'" using c wants to by (auto simp: place_ok_def split: if_splits)
  then have "\<forall>c \<in> set ((calls g)[r := ?c']). place_ok c"
    using ok by (auto simp: gate_ok_def dest!: set_update_subset_insert [THEN subsetD])
  ultimately show ?thesis by (simp add: gate_ok_def gate_parts)
qed

lemma gate_ok_come: "gate_ok g \<Longrightarrow> gate_ok (come i writes background g)"
proof -
  assume ok: "gate_ok g"
  let ?c = "\<lparr>identity = i, mutates = writes, behind = background, place = Gone, write_turn = None, send_turn = None\<rparr>"
  let ?g = "g\<lparr>calls := calls g @ [?c]\<rparr>"
  have none: "turn_in k ?c = None" "\<not> in_lane k j ?c" "\<not> has_turn k ?c" for k j
    by (simp_all add: turn_in_def in_lane_def has_turn_def)
  have "lane_ok l (calls g @ [?c]) k j = lane_ok l (calls g) k j" for l k j
    by (cases l) (auto simp: none)
  moreover have "turns_ok (taken g) (calls g @ [?c])"
    using ok none(3) unfolding gate_ok_def turns_ok_def by (auto simp: nth_append less_Suc_eq)
  ultimately have "gate_ok ?g" using ok by (auto simp: gate_ok_def lanes_ok_def place_ok_def)
  then show ?thesis
    using gate_ok_join_lane [of ?g "length (calls g)"] gate_ok_join_turn [of ?g "length (calls g)"]
    by (simp add: come_def Let_def)
qed

subsection \<open>Every run keeps it\<close>

lemma gate_ok_decide:
  assumes ok: "gate_ok g" and r: "r < length (calls g)" and here: "place (calls g ! r) = Looks \<or> place (calls g ! r) = Reads t"
  shows "gate_ok (decide_send r now h g)"
proof -
  have start: "gate_ok (g'\<lparr>sent := s\<rparr>)" if "g' = g \<or> g' = started i n g" for g' s i n
    using ok that gate_ok_parts [of "g'\<lparr>sent := s\<rparr>" g] by (auto simp: gate_parts)
  have "gate_ok (moved_to r Is_Out (g'\<lparr>sent := s\<rparr>))" if "g' = g \<or> g' = started i n g" for g' s i n
    by (rule gate_ok_moved [OF start [OF that]]) (use that r here in \<open>auto simp: gate_parts\<close>)
  then show ?thesis using gate_ok_leave [OF ok r] by (auto simp: decide_send_def Let_def)
qed

lemma place_of_calls: "place_of r g = p \<Longrightarrow> p \<noteq> Gone \<Longrightarrow> r < length (calls g) \<and> place (calls g ! r) = p"
  by (auto simp: place_of_def split: if_splits)

lemma gate_ok_look: "gate_ok g \<Longrightarrow> r < length (calls g) \<Longrightarrow> place (calls g ! r) = Looks \<Longrightarrow> gate_ok (look r g)"
  by (auto simp: look_def shared_hold_def Let_def intro!: gate_ok_decide gate_ok_moved split: option.splits)

lemma gate_ok_noted_answer:
  assumes ok: "gate_ok g" and r: "r < length (calls g)" and here: "place (calls g ! r) = Is_Out"
  shows "gate_ok (noted_answer r res g)"
proof -
  have same: "gate_ok (g\<lparr>holds := h\<rparr>)" "gate_ok (remembered i now s (g\<lparr>holds := h\<rparr>))" for h i now s
    using ok gate_ok_parts [of "g\<lparr>holds := h\<rparr>" g] gate_ok_parts [of "remembered i now s (g\<lparr>holds := h\<rparr>)" g]
    by (auto simp: gate_parts)
  show ?thesis
    using r here by (auto simp: noted_answer_def lifted_def Let_def gate_parts
        intro!: gate_ok_leave gate_ok_moved same ok split: option.splits)
qed

lemma gate_ok_noted_refusal:
  assumes ok: "gate_ok g" and r: "r < length (calls g)" and here: "place (calls g ! r) = Was_Refused res t"
  shows "gate_ok (noted_refusal r ref g)"
proof -
  have same: "gate_ok (g\<lparr>holds := h\<rparr>)" for h
    using ok gate_ok_parts [of "g\<lparr>holds := h\<rparr>" g] by auto
  show ?thesis
    using r here by (auto simp: noted_refusal_def intro!: gate_ok_leave gate_ok_moved same ok)
qed

lemma gate_ok_held_everywhere:
  assumes ok: "gate_ok g" and r: "r < length (calls g)"
  shows "gate_ok (held_everywhere r ref now failed g)"
proof -
  have same: "gate_ok (remembered i t h (g\<lparr>stored_holds := s\<rparr>))" for i t h s
    using ok gate_ok_parts [of "remembered i t h (g\<lparr>stored_holds := s\<rparr>)" g] by (auto simp: gate_parts)
  show ?thesis
    using r by (auto simp: held_everywhere_def Let_def split_beta gate_parts intro!: gate_ok_leave same ok)
qed

lemma read_answers_step:
  assumes "gate_step (Read_Answers r failed) g = Some g'"
  obtains now h where "r < length (calls g)" "place (calls g ! r) = Reads now"
    "g' = decide_send r now h (remembered (identity (calls g ! r)) now h g)"
  using assms by (auto simp: gate_step_def Let_def dest!: place_of_calls split: place.splits)

lemma gate_step_ok: "gate_ok g \<Longrightarrow> gate_step l g = Some g' \<Longrightarrow> gate_ok g'"
proof (cases l)
  case (Take r)
  assume "gate_ok g" "gate_step l g = Some g'"
  then show ?thesis using Take gate_ok_take [of g r _ Writers]  gate_ok_take [of g r _ "send_lane (calls g ! r)"]
    by (auto simp: gate_step_def take_permit_def Let_def turn_in_def dest!: place_of_calls split: place.splits option.splits if_splits)
next
  case (Read_Answers r failed)
  assume ok: "gate_ok g" and step: "gate_step l g = Some g'"
  obtain now h where r: "r < length (calls g)" "place (calls g ! r) = Reads now"
      and g': "g' = decide_send r now h (remembered (identity (calls g ! r)) now h g)"
    using step Read_Answers read_answers_step by blast
  have "gate_ok (remembered i n h g)" for i n h
    using ok gate_ok_parts [of "remembered i n h g" g] by (simp add: gate_parts)
  then show ?thesis unfolding g' by (rule gate_ok_decide) (use r in \<open>simp_all add: gate_parts\<close>)
next
  case (Lift_Answers r failed)
  assume ok: "gate_ok g" and step: "gate_step l g = Some g'"
  have "gate_ok (g\<lparr>stored_holds := s\<rparr>)" for s using ok gate_ok_parts [of "g\<lparr>stored_holds := s\<rparr>" g] by simp
  then show ?thesis using ok step Lift_Answers
    by (auto simp: gate_step_def dest!: place_of_calls intro!: gate_ok_leave split: place.splits)
next
  case (Give_Up r)
  assume "gate_ok g" "gate_step l g = Some g'"
  then show ?thesis using Give_Up
    by (auto simp: gate_step_def place_of_def intro!: gate_ok_leave split: if_splits)
qed (auto simp: gate_step_def gate_ok_come dest!: place_of_calls
      intro!: gate_ok_join_lane gate_ok_look gate_ok_noted_answer gate_ok_noted_refusal gate_ok_held_everywhere
      intro: gate_ok_parts [THEN iffD2] split: place.splits if_splits)

lemma gate_reach_ok: "gate_reach g \<Longrightarrow> gate_ok g"
  by (induction rule: gate_reach.induct) (auto intro: gate_ok_new gate_step_ok)

end
