(* ===== verification/Rate_Gate_Properties.thy ===== *)
theory Rate_Gate_Properties
  imports Rate_Gate_Lanes
begin

text \<open>
  What the gate (\<open>Rate_Gate\<close>) keeps in every run: one request of an identity's lane in hand at a time,
  writes a second apart, nothing sent before GitHub said it may be, and the one rule of how long a
  refusal holds, here and in the shared store.
\<close>

subsection \<open>What a step does\<close>

definition place_allowed :: "gate \<Rightarrow> call \<Rightarrow> call \<Rightarrow> bool" where
  "place_allowed g c c' \<longleftrightarrow> (case place c' of
     Wants_Turn \<Rightarrow> False
   | Waits_Out t \<Rightarrow> \<forall>n. next_write g (identity c) = Some n \<longrightarrow> n \<le> t
   | Wants_Lane \<Rightarrow> \<exists>t \<le> clock g. place c = Waits_Out t
   | Looks \<Rightarrow> place c = Wants_Lane
   | Reads t \<Rightarrow> place c = Looks \<and> t = clock g
   | _ \<Rightarrow> True)"

definition same_caller :: "call \<Rightarrow> call \<Rightarrow> bool" where
  "same_caller c c' \<longleftrightarrow> identity c' = identity c \<and> mutates c' = mutates c \<and> behind c' = behind c"

definition quiet_move :: "nat \<Rightarrow> gate \<Rightarrow> gate \<Rightarrow> bool" where
  "quiet_move r g g' \<longleftrightarrow> r < length (calls g) \<and> sent g' = sent g \<and> next_write g' = next_write g \<and> clock g' = clock g \<and>
     (\<exists>c'. calls g' = (calls g)[r := c'] \<and> same_caller (calls g ! r) c' \<and> place_allowed g (calls g ! r) c')"

definition sends :: "nat \<Rightarrow> gate \<Rightarrow> gate \<Rightarrow> bool" where
  "sends r g g' \<longleftrightarrow> r < length (calls g) \<and> sent g' = sent g @ [(r, clock g)] \<and> clock g' = clock g \<and>
     calls g' = (calls g)[r := (calls g ! r)\<lparr>place := Is_Out\<rparr>] \<and>
     next_write g' = (if mutates (calls g ! r) then next_write (started (identity (calls g ! r)) (clock g) g) else next_write g) \<and>
     (\<exists>now. (place (calls g ! r) = Looks \<and> now = clock g \<or> place (calls g ! r) = Reads now) \<and>
        \<not> holding_at (holds g (identity (calls g ! r))) now)"

definition comes :: "gate \<Rightarrow> gate \<Rightarrow> bool" where
  "comes g g' \<longleftrightarrow> sent g' = sent g \<and> next_write g' = next_write g \<and> clock g' = clock g \<and>
     (\<exists>c. calls g' = calls g @ [c] \<and> (place c = Wants_Turn \<or> place c = Wants_Lane \<and> \<not> mutates c))"

definition stands_by :: "gate \<Rightarrow> gate \<Rightarrow> bool" where
  "stands_by g g' \<longleftrightarrow> calls g' = calls g \<and> sent g' = sent g \<and> next_write g' = next_write g \<and> clock g \<le> clock g'"

lemma holding_at_simps [simp]: "\<not> holding_at None now" "holding_at (Some h) now \<longleftrightarrow> now < held_until h"
  by (simp_all add: holding_at_def)

lemma quiet_join_lane:
  assumes "r < length (calls g)" "place (calls g ! r) = Waits_Out t" "t \<le> clock g"
  shows "quiet_move r g (join_lane r g)"
  unfolding quiet_move_def using assms
  by (intro conjI exI [where x = "calls (join_lane r g) ! r"])
    (auto simp: gate_parts same_caller_def place_allowed_def)

lemma quiet_moved_to:
  assumes "r < length (calls g)" "place_allowed g (calls g ! r) ((calls g ! r)\<lparr>place := p\<rparr>)"
    and "calls g1 = calls g" "sent g1 = sent g" "next_write g1 = next_write g" "clock g1 = clock g"
  shows "quiet_move r g (moved_to r p g1)"
  using assms by (auto simp: quiet_move_def gate_parts same_caller_def)

lemma quiet_leave:
  assumes "r < length (calls g)" "calls g1 = calls g" "sent g1 = sent g" "next_write g1 = next_write g" "clock g1 = clock g"
  shows "quiet_move r g (leave r g1)"
  using assms by (auto simp: quiet_move_def gate_parts same_caller_def place_allowed_def)

lemma decide_effect:
  assumes r: "r < length (calls g)" and here: "place (calls g ! r) = Looks \<and> now = clock g \<or> place (calls g ! r) = Reads now"
    and g1: "calls g1 = calls g" "sent g1 = sent g" "next_write g1 = next_write g" "clock g1 = clock g" "holds g1 = holds g"
  shows "quiet_move r g (decide_send r now h g1) \<or> sends r g (decide_send r now h g1)"
proof -
  let ?i = "identity (calls g ! r)"
  let ?held = "case local_hold ?i now g1 of Some h \<Rightarrow> Some h | None \<Rightarrow> h"
  show ?thesis
  proof (cases "holding_at ?held now")
    case True
    then show ?thesis using quiet_leave [OF r] g1 by (simp add: decide_send_def Let_def)
  next
    case False
    then have "\<not> holding_at (holds g ?i) now"
      using g1 by (auto simp: local_hold_def split: if_splits option.splits)
    moreover have "next_write (started ?i (clock g) g1) = next_write (started ?i (clock g) g)"
      using g1 by (simp add: started_def)
    ultimately have "sends r g (decide_send r now h g1)"
      using r here g1 False by (auto simp: sends_def decide_send_def Let_def gate_parts)
    then show ?thesis ..
  qed
qed

lemma look_effect:
  assumes "r < length (calls g)" "place (calls g ! r) = Looks"
  shows "quiet_move r g (look r g) \<or> sends r g (look r g)"
proof -
  have "quiet_move r g (moved_to r (Reads (clock g)) g)"
    by (rule quiet_moved_to) (use assms in \<open>simp_all add: place_allowed_def\<close>)
  then show ?thesis using assms decide_effect [of r g "clock g" g]
    by (simp add: look_def shared_hold_def Let_def split: option.splits)
qed

lemma gate_step_effect:
  assumes step: "gate_step l g = Some g'"
  obtains r where "quiet_move r g g'" | r where "sends r g g'" | "comes g g'" | "stands_by g g'"
proof -
  have "(\<exists>r. quiet_move r g g' \<or> sends r g g') \<or> comes g g' \<or> stands_by g g'"
  proof (cases l)
    case (Tick now)
    then show ?thesis using step by (auto simp: gate_step_def stands_by_def split: if_splits)
  next
    case (Come i w b)
    then show ?thesis using step
      by (auto simp: gate_step_def comes_def come_def Let_def gate_parts nth_append)
  next
    case (Take r)
    then have "\<exists>r. quiet_move r g g'" using step
      by (auto simp: gate_step_def take_permit_def Let_def place_allowed_def intro!: exI [of _ r] quiet_moved_to
          dest!: place_of_calls split: place.splits option.splits if_splits)
    then show ?thesis by blast
  next
    case (Wake r)
    then have "quiet_move r g g'" using step
      by (auto simp: gate_step_def intro!: quiet_join_lane dest!: place_of_calls split: place.splits if_splits)
    then show ?thesis by blast
  next
    case (Look r)
    then have "quiet_move r g g' \<or> sends r g g'" using step look_effect
      by (auto simp: gate_step_def dest!: place_of_calls split: place.splits)
    then show ?thesis by blast
  next
    case (Read_Answers r failed)
    obtain now h where r: "r < length (calls g)" "place (calls g ! r) = Reads now"
        and g': "g' = decide_send r now h (remembered (identity (calls g ! r)) now h g)"
      using step Read_Answers read_answers_step by blast
    have "quiet_move r g g' \<or> sends r g g'"
      unfolding g' by (rule decide_effect) (use r in \<open>simp_all add: gate_parts\<close>)
    then show ?thesis by blast
  next
    case (Answers r res)
    then have "quiet_move r g g'" using step
      by (auto simp: gate_step_def noted_answer_def lifted_def Let_def gate_parts place_allowed_def intro!: quiet_leave quiet_moved_to
          dest!: place_of_calls split: place.splits option.splits if_splits)
    then show ?thesis by blast
  next
    case (Read_Refusal r)
    then have "quiet_move r g g'" using step
      by (auto simp: gate_step_def noted_refusal_def Let_def gate_parts place_allowed_def intro!: quiet_leave quiet_moved_to
          dest!: place_of_calls split: place.splits option.splits if_splits)
    then show ?thesis by blast
  next
    case (Hold_Answers r failed)
    then have "quiet_move r g g'" using step
      by (auto simp: gate_step_def held_everywhere_def Let_def split_beta gate_parts intro!: quiet_leave
          dest!: place_of_calls split: place.splits if_splits)
    then show ?thesis by blast
  next
    case (Lift_Answers r failed)
    then have "quiet_move r g g'" using step
      by (auto simp: gate_step_def Let_def gate_parts intro!: quiet_leave
          dest!: place_of_calls split: place.splits if_splits)
    then show ?thesis by blast
  next
    case (Give_Up r)
    then have "quiet_move r g g'" using step
      by (auto simp: gate_step_def place_of_def intro!: quiet_leave split: if_splits)
    then show ?thesis by blast
  next
    case (Others i h)
    then show ?thesis using step by (auto simp: gate_step_def stands_by_def)
  qed
  then show thesis using that by blast
qed

lemma sent_grows: "gate_step l g = Some g' \<Longrightarrow> \<exists>new. sent g' = sent g @ new \<and> clock g \<le> clock g'"
  by (erule gate_step_effect) (auto simp: quiet_move_def sends_def comes_def stands_by_def)

subsection \<open>One in hand\<close>

text \<open>The places of a request past its lane's semaphore.\<close>

fun in_hand :: "place \<Rightarrow> bool" where
  "in_hand Looks = True"
| "in_hand (Reads _) = True"
| "in_hand Is_Out = True"
| "in_hand (Was_Refused _ _) = True"
| "in_hand (Holds _ _) = True"
| "in_hand (Lifts _) = True"
| "in_hand _ = False"

lemma one_holder:
  assumes ok: "gate_ok g" and r: "r < length (calls g)" "has_turn k (calls g ! r)"
    and r': "r' < length (calls g)" "has_turn k (calls g ! r')" and same: "identity (calls g ! r) = identity (calls g ! r')"
  shows "r = r'"
proof -
  let ?i = "identity (calls g ! r)"
  have "in_lane k ?i (calls g ! r)" "in_lane k ?i (calls g ! r')"
    using r r' same by (simp_all add: in_lane_def has_turn_def)
  moreover have "lane_ok (lanes g k ?i) (calls g) k ?i" using ok by (simp add: gate_ok_def lanes_ok_def)
  ultimately have "turn_in k (calls g ! r) = turn_in k (calls g ! r')"
    using r(1) r'(1) by (cases "lanes g k ?i") (auto dest: nth_mem)
  then have "Some r = Some r'" using ok r r' unfolding gate_ok_def turns_ok_def by metis
  then show ?thesis by simp
qed

lemma in_hand_has_turn: "place_ok c \<Longrightarrow> in_hand (place c) \<Longrightarrow> has_turn (send_lane c) c"
  by (cases "place c") (auto simp: place_ok_def has_turn_def turn_in_def)

text \<open>
  C7: An identity has at most one request in hand in its lane and one more in the lane of work no member
  waits on, in every interleaving, whatever lanes are let go and made again in between.
\<close>

theorem one_in_hand_per_lane:
  assumes "gate_reach g" and "r < length (calls g)" and "r' < length (calls g)"
    and "in_hand (place (calls g ! r))" and "in_hand (place (calls g ! r'))"
    and "identity (calls g ! r) = identity (calls g ! r')" and "behind (calls g ! r) = behind (calls g ! r')"
  shows "r = r'"
proof -
  have ok: "gate_ok g" using assms(1) by (rule gate_reach_ok)
  then have "has_turn (send_lane (calls g ! r)) (calls g ! r)" "has_turn (send_lane (calls g ! r')) (calls g ! r')"
    using assms(2-5) in_hand_has_turn by (auto simp: gate_ok_def)
  then show ?thesis using one_holder [OF ok assms(2) _ assms(3)] assms(6,7) by (simp add: send_lane_def)
qed

text \<open>
  Once every request is done with, however it ended, no lane is kept and no semaphore is taken, so
  a token that asked once keeps nothing and no request waits on one that is gone.
\<close>

theorem gone_requests_keep_nothing:
  assumes "gate_reach g" and "\<forall>c \<in> set (calls g). place c = Gone"
  shows "lanes g k i = None \<and> taken g t = None"
proof -
  have ok: "gate_ok g" using assms(1) by (rule gate_reach_ok)
  have none: "turn_in k c = None" if "c \<in> set (calls g)" for k c
    using ok assms(2) that by (auto simp: gate_ok_def place_ok_def turn_in_def)
  have "lane_ok (lanes g k i) (calls g) k i" using ok by (simp add: gate_ok_def lanes_ok_def)
  then have "lanes g k i = None"
    using none by (cases "lanes g k i") (auto simp: in_lane_def filter_empty_conv)
  moreover have "taken g t = None"
  proof (rule ccontr)
    assume "taken g t \<noteq> None"
    then obtain r where "r < length (calls g)" "\<exists>k. turn_in k (calls g ! r) = Some t"
      using ok unfolding gate_ok_def turns_ok_def by blast
    then show False using none [of "calls g ! r"] by auto
  qed
  ultimately show ?thesis ..
qed

subsection \<open>Writes a second apart\<close>

fun ready :: "place \<Rightarrow> bool" where
  "ready Wants_Lane = True"
| "ready Looks = True"
| "ready (Reads _) = True"
| "ready _ = False"

text \<open>An identity's next write is no later than an instant.\<close>

definition free_by :: "gate \<Rightarrow> string \<Rightarrow> int \<Rightarrow> bool" where
  "free_by g i t \<longleftrightarrow> (\<forall>n. next_write g i = Some n \<longrightarrow> n \<le> t)"

definition caller_spaced :: "gate \<Rightarrow> call \<Rightarrow> bool" where
  "caller_spaced g c \<longleftrightarrow>
     (\<forall>t. place c = Waits_Out t \<longrightarrow> free_by g (identity c) t) \<and>
     (mutates c \<and> ready (place c) \<longrightarrow> free_by g (identity c) (clock g)) \<and>
     (\<forall>t. place c = Reads t \<longrightarrow> t \<le> clock g)"

text \<open>A write sent at an instant is a second past, or the next is booked a second past it.\<close>

definition booked :: "gate \<Rightarrow> nat \<times> int \<Rightarrow> bool" where
  "booked g s \<longleftrightarrow> fst s < length (calls g) \<and>
     (mutates (calls g ! fst s) \<longrightarrow> snd s + mutative_spacing \<le> clock g \<or>
       (\<exists>n. next_write g (identity (calls g ! fst s)) = Some n \<and> snd s + mutative_spacing \<le> n))"

definition apart :: "call list \<Rightarrow> nat \<times> int \<Rightarrow> nat \<times> int \<Rightarrow> bool" where
  "apart cs s s' \<longleftrightarrow> mutates (cs ! fst s) \<and> mutates (cs ! fst s') \<and> identity (cs ! fst s) = identity (cs ! fst s') \<longrightarrow>
     snd s + mutative_spacing \<le> snd s'"

definition spaced_ok :: "gate \<Rightarrow> bool" where
  "spaced_ok g \<longleftrightarrow> (\<forall>c \<in> set (calls g). caller_spaced g c) \<and> (\<forall>s \<in> set (sent g). booked g s) \<and>
     sorted_wrt (apart (calls g)) (sent g)"

lemma free_by_later: "free_by g i t \<Longrightarrow> next_write g' = next_write g \<Longrightarrow> t \<le> t' \<Longrightarrow> free_by g' i t'"
  by (auto simp: free_by_def)

lemma booked_later:
  assumes "booked g s" "clock g \<le> clock g'" "next_write g' = next_write g" "length (calls g) \<le> length (calls g')"
    and "\<And>r. r < length (calls g) \<Longrightarrow> same_caller (calls g ! r) (calls g' ! r)"
  shows "booked g' s"
proof -
  have "same_caller (calls g ! fst s) (calls g' ! fst s)" using assms(1,5) by (simp add: booked_def)
  then show ?thesis using assms by (auto simp: booked_def same_caller_def)
qed

lemma apart_later:
  assumes "sorted_wrt (apart cs) ss" "\<forall>s \<in> set ss. fst s < length cs"
    and "\<And>r. r < length cs \<Longrightarrow> same_caller (cs ! r) (cs' ! r)"
  shows "sorted_wrt (apart cs') ss"
  by (rule sorted_wrt_mono_rel [OF _ assms(1)]) (use assms(2,3) in \<open>simp add: apart_def same_caller_def\<close>)

lemma same_caller_refl [simp]: "same_caller c c"
  by (simp add: same_caller_def)

lemma same_caller_update:
  "same_caller (cs ! r) c' \<Longrightarrow> k < length cs \<Longrightarrow> same_caller (cs ! k) (cs[r := c'] ! k)"
  by (cases "k = r") (auto simp: same_caller_def)

lemma spaced_quiet:
  assumes ok: "spaced_ok g" and step: "quiet_move r g g'"
  shows "spaced_ok g'"
proof -
  obtain c' where r: "r < length (calls g)" and c': "calls g' = (calls g)[r := c']" "same_caller (calls g ! r) c'"
      "place_allowed g (calls g ! r) c'" and rest: "sent g' = sent g" "next_write g' = next_write g" "clock g' = clock g"
    using step by (auto simp: quiet_move_def)
  let ?c = "calls g ! r"
  have was: "caller_spaced g ?c" using ok r by (simp add: spaced_ok_def)
  have stay: "caller_spaced g' c" if "caller_spaced g c" for c
    using that rest by (auto simp: caller_spaced_def free_by_def)
  have "caller_spaced g' c'"
    using was c'(2,3) rest
    by (auto simp: caller_spaced_def place_allowed_def same_caller_def free_by_def split: place.splits)
  then have "\<forall>c \<in> set (calls g'). caller_spaced g' c"
    using ok stay by (auto simp: spaced_ok_def c'(1) dest!: set_update_subset_insert [THEN subsetD])
  moreover have "booked g' s" if "s \<in> set (sent g)" for s
    by (rule booked_later [of g]) (use ok that rest c'(1) same_caller_update [OF c'(2)] in \<open>auto simp: spaced_ok_def\<close>)
  moreover have "sorted_wrt (apart (calls g')) (sent g)"
    by (rule apart_later [of "calls g"]) (use ok same_caller_update [OF c'(2)] in \<open>auto simp: spaced_ok_def c'(1) booked_def\<close>)
  ultimately show ?thesis by (simp add: spaced_ok_def rest)
qed

lemma spaced_still:
  assumes ok: "spaced_ok g" and step: "stands_by g g'"
  shows "spaced_ok g'"
proof -
  have same: "calls g' = calls g" "sent g' = sent g" "next_write g' = next_write g" "clock g \<le> clock g'"
    using step by (auto simp: stands_by_def)
  have "caller_spaced g' c" if "caller_spaced g c" for c
    using that same by (fastforce simp: caller_spaced_def free_by_def)
  moreover have "booked g' s" if "booked g s" for s
    by (rule booked_later [OF that]) (use same in auto)
  ultimately show ?thesis using ok same by (auto simp: spaced_ok_def)
qed

lemma spaced_comes:
  assumes ok: "spaced_ok g" and step: "comes g g'"
  shows "spaced_ok g'"
proof -
  obtain c where c: "calls g' = calls g @ [c]" "place c = Wants_Turn \<or> place c = Wants_Lane \<and> \<not> mutates c"
      and same: "sent g' = sent g" "next_write g' = next_write g" "clock g' = clock g"
    using step by (auto simp: comes_def)
  have "caller_spaced g' c" using c(2) by (auto simp: caller_spaced_def)
  moreover have "caller_spaced g' d" if "caller_spaced g d" for d
    using that same by (auto simp: caller_spaced_def free_by_def)
  moreover have "booked g' s" if "booked g s" for s
    by (rule booked_later [OF that]) (use same c(1) in \<open>auto simp: nth_append\<close>)
  moreover have "sorted_wrt (apart (calls g')) (sent g)"
    by (rule apart_later [of "calls g"]) (use ok in \<open>auto simp: spaced_ok_def c(1) booked_def nth_append\<close>)
  ultimately show ?thesis using ok by (auto simp: spaced_ok_def c(1) same)
qed

text \<open>Where one write of an identity is ready, no other is in its turn, so no other is booked at it.\<close>

lemma spaced_sends:
  assumes ok: "spaced_ok g" and gate: "gate_ok g" and step: "sends r g g'"
  shows "spaced_ok g'"
proof -
  let ?c = "calls g ! r"
  let ?c' = "?c\<lparr>place := Is_Out\<rparr>"
  have r: "r < length (calls g)" and calls: "calls g' = (calls g)[r := ?c']" and sent: "sent g' = sent g @ [(r, clock g)]"
      and clock: "clock g' = clock g" and here: "ready (place ?c)"
      and nexts: "next_write g' = (if mutates ?c then next_write (started (identity ?c) (clock g) g) else next_write g)"
    using step by (auto simp: sends_def)
  have c_ok: "place_ok ?c" using gate r by (simp add: gate_ok_def)
  have next_other: "next_write g' i = next_write g i \<or> (\<forall>n. next_write g i = Some n \<longrightarrow> n \<le> clock g) \<and> next_write g' i = None"
    if "i \<noteq> identity ?c \<or> \<not> mutates ?c" for i
    using that nexts by (auto simp: started_def split: option.splits)
  have next_own: "mutates ?c \<Longrightarrow> next_write g' (identity ?c) = Some (clock g + mutative_spacing)"
    using nexts by (simp add: started_def)
  have free: "mutates ?c \<Longrightarrow> free_by g (identity ?c) (clock g)"
    using ok r here by (auto simp: spaced_ok_def caller_spaced_def)
  have same: "same_caller (calls g ! k) (calls g' ! k)" if "k < length (calls g)" for k
    using same_caller_update [of "calls g" r ?c' k] that by (simp add: calls same_caller_def)
  have alone: "k = r" if k: "k < length (calls g)" "identity (calls g ! k) = identity ?c" "mutates (calls g ! k)" "mutates ?c"
      "(\<exists>t. place (calls g ! k) = Waits_Out t) \<or> ready (place (calls g ! k))" for k
  proof -
    have "has_turn Writers ?c"
      using c_ok k(4) here by (cases "place ?c") (auto simp: place_ok_def has_turn_def turn_in_def)
    moreover have "place_ok (calls g ! k)" using gate k(1) by (simp add: gate_ok_def)
    then have "has_turn Writers (calls g ! k)"
      using k(3,5) by (cases "place (calls g ! k)") (auto simp: place_ok_def has_turn_def turn_in_def)
    ultimately show ?thesis using one_holder [OF gate k(1) _ r] k(2) by blast
  qed
  have "caller_spaced g' (calls g' ! k)" if k: "k < length (calls g')" for k
  proof (cases "k = r")
    case True
    then show ?thesis using r by (simp add: calls caller_spaced_def)
  next
    case False
    let ?d = "calls g ! k"
    have d: "calls g' ! k = ?d" "k < length (calls g)" using False k by (simp_all add: calls)
    have was: "caller_spaced g ?d" using ok d(2) by (simp add: spaced_ok_def)
    have "free_by g' (identity ?d) t" if t: "free_by g (identity ?d) t"
        and at_turn: "(\<exists>t. place ?d = Waits_Out t) \<or> ready (place ?d)" "mutates ?d" for t
    proof (cases "identity ?d = identity ?c \<and> mutates ?c")
      case True
      then show ?thesis using alone [OF d(2)] at_turn False by blast
    next
      case False
      then show ?thesis using t next_other [of "identity ?d"] by (auto simp: free_by_def)
    qed
    moreover have "place_ok ?d" using gate d(2) by (simp add: gate_ok_def)
    then have "place ?d = Waits_Out t \<Longrightarrow> mutates ?d" for t by (auto simp: place_ok_def)
    ultimately show ?thesis using was clock d(1) by (auto simp: caller_spaced_def)
  qed
  then have "\<forall>c \<in> set (calls g'). caller_spaced g' c" by (auto simp: in_set_conv_nth)
  moreover have "booked g' s" if s: "s \<in> set (sent g')" for s
  proof (cases "s = (r, clock g)")
    case True
    then show ?thesis using r next_own by (auto simp: booked_def calls)
  next
    case False
    then have b: "booked g s" using s ok by (auto simp: sent spaced_ok_def)
    let ?d = "calls g ! fst s"
    have d: "same_caller ?d (calls g' ! fst s)" using b same by (simp add: booked_def)
    have "snd s + mutative_spacing \<le> clock g \<or>
        (\<exists>n. next_write g' (identity ?d) = Some n \<and> snd s + mutative_spacing \<le> n)" if "mutates ?d"
    proof (cases "identity ?d = identity ?c \<and> mutates ?c")
      case True
      then show ?thesis using b that free by (fastforce simp: booked_def free_by_def)
    next
      case False
      then show ?thesis using b that next_other [of "identity ?d"] by (fastforce simp: booked_def)
    qed
    then show ?thesis using b d by (auto simp: booked_def clock calls same_caller_def)
  qed
  moreover have "sorted_wrt (apart (calls g')) (sent g')"
  proof -
    have old: "sorted_wrt (apart (calls g')) (sent g)"
      by (rule apart_later [of "calls g"]) (use ok same in \<open>auto simp: spaced_ok_def booked_def\<close>)
    have "apart (calls g') s (r, clock g)" if s: "s \<in> set (sent g)" for s
    proof -
      have b: "booked g s" using s ok by (auto simp: spaced_ok_def)
      then have d: "same_caller (calls g ! fst s) (calls g' ! fst s)" using same by (simp add: booked_def)
      have "same_caller ?c (calls g' ! r)" using same r by simp
      then show ?thesis using b d free by (fastforce simp: booked_def apart_def same_caller_def free_by_def)
    qed
    then show ?thesis using old by (simp add: sent sorted_wrt_append)
  qed
  ultimately show ?thesis by (simp add: spaced_ok_def)
qed

lemma gate_reach_spaced: "gate_reach g \<Longrightarrow> spaced_ok g"
proof (induction rule: gate_reach.induct)
  case (start now stored)
  then show ?case by (simp add: spaced_ok_def new_gate_def)
next
  case (move g l g')
  show ?case
    using move.hyps(2)
    by (rule gate_step_effect)
      (use move gate_reach_ok spaced_quiet spaced_sends spaced_comes spaced_still in blast)+
qed

text \<open>
  C6: Of one identity's writes each is sent a second or more after the one before, whatever waits, holds,
  failures, and requests given up on come between, and whichever lane each was sent in.
\<close>

theorem writes_a_second_apart:
  assumes "gate_reach g" and "p < q" and "q < length (sent g)"
    and "mutates (calls g ! fst (sent g ! p))" and "mutates (calls g ! fst (sent g ! q))"
    and "identity (calls g ! fst (sent g ! p)) = identity (calls g ! fst (sent g ! q))"
  shows "snd (sent g ! p) + 1000 \<le> snd (sent g ! q)"
proof -
  have "sorted_wrt (apart (calls g)) (sent g)" using gate_reach_spaced [OF assms(1)] by (simp add: spaced_ok_def)
  then have "apart (calls g) (sent g ! p) (sent g ! q)" using assms(2,3) by (simp add: sorted_wrt_iff_nth_less)
  then show ?thesis using assms(4-6) by (simp add: apart_def mutative_spacing_def)
qed

subsection \<open>Nothing sent while held\<close>

lemma callers_stay:
  assumes "gate_step l g = Some g'" "r < length (calls g)"
  shows "r < length (calls g') \<and> same_caller (calls g ! r) (calls g' ! r)"
  using assms(1)
proof (rule gate_step_effect)
  fix k assume "quiet_move k g g'"
  then show ?thesis using assms(2) same_caller_update by (auto simp: quiet_move_def)
next
  fix k assume "sends k g g'"
  then show ?thesis
    using assms(2) same_caller_update [of "calls g" k "(calls g ! k)\<lparr>place := Is_Out\<rparr>" r]
    by (auto simp: sends_def same_caller_def)
qed (use assms(2) in \<open>auto simp: comes_def stands_by_def nth_append\<close>)

lemma hold_for_bounds:
  "(case stated ref of Some wait \<Rightarrow> wait | None \<Rightarrow> minimum_hold) \<le> hold_for ref n" "0 \<le> hold_for ref n"
proof -
  show "(case stated ref of Some wait \<Rightarrow> wait | None \<Rightarrow> minimum_hold) \<le> hold_for ref n"
    by (simp add: hold_for_def)
  have "0 \<le> (if n = 1 then 0 else backoff_for n)"
    using backoff_bounds(1) [of n] by (simp add: minimum_hold_def)
  then show "0 \<le> hold_for ref n" by (simp add: hold_for_def)
qed

lemma held_on_keeps:
  assumes "hs i = Some h" "now < held_until h"
  shows "\<exists>h'. held_on j ref now hs i = Some h' \<and> held_until h \<le> held_until h'"
  using assms by (auto simp: held_on_def Let_def swept_holds_def maximum_hold_def)

lemma held_on_own:
  "\<exists>h. held_on j ref now hs j = Some h \<and> now + hold_for ref (strikes h) \<le> held_until h"
  by (simp add: held_on_def Let_def)

lemma lifted_hold_keeps: "hs i = Some h \<Longrightarrow> now < held_until h \<Longrightarrow> lifted_hold j now hs i = Some h"
  by (auto simp: lifted_hold_def split: option.splits)

text \<open>A hold stands until it is over: no step lets it go before, or makes it shorter.\<close>

lemma hold_stands:
  assumes step: "gate_step l g = Some g'" and h: "holds g i = Some h" "clock g < held_until h"
  shows "\<exists>h'. holds g' i = Some h' \<and> held_until h \<le> held_until h'"
proof (cases "holds g' = holds g")
  case True
  then show ?thesis using h by auto
next
  case False
  have come: "holds (come j w b g) = holds g" for j w b by (simp add: come_def Let_def gate_parts)
  have decide: "holds (decide_send r now s g1) = holds g1" for r now s g1
    by (simp add: decide_send_def Let_def gate_parts)
  have look: "holds (look r g) = holds g" for r by (simp add: look_def shared_hold_def Let_def gate_parts decide split: option.splits)
  have everywhere: "holds (held_everywhere r ref now failed g) = holds g" for r ref now failed
    by (simp add: held_everywhere_def Let_def split_beta gate_parts)
  consider r res where "holds g' = lifted_hold (identity (calls g ! r)) (clock g) (holds g)"
    | r ref where "holds g' = held_on (identity (calls g ! r)) ref (clock g) (holds g)"
    using step False
    by (cases l) (auto simp: gate_step_def take_permit_def noted_answer_def lifted_def noted_refusal_def Let_def gate_parts
        come decide look everywhere split: place.splits option.splits if_splits)
  then show ?thesis using h lifted_hold_keeps held_on_keeps by cases (metis order_refl)+
qed

text \<open>An identity is held until an instant, or the instant is past.\<close>

definition held_or_past :: "gate \<Rightarrow> string \<Rightarrow> int \<Rightarrow> bool" where
  "held_or_past g i u \<longleftrightarrow> (\<exists>h. holds g i = Some h \<and> u \<le> held_until h) \<or> u \<le> clock g"

lemma held_or_past_step:
  assumes "gate_step l g = Some g'" "held_or_past g i u"
  shows "held_or_past g' i u"
proof (cases "u \<le> clock g")
  case True
  then show ?thesis using sent_grows [OF assms(1)] by (auto simp: held_or_past_def)
next
  case False
  then obtain h where h: "holds g i = Some h" "u \<le> held_until h" using assms(2) by (auto simp: held_or_past_def)
  then show ?thesis using hold_stands [OF assms(1) h(1)] False by (auto simp: held_or_past_def)
qed

lemma sent_past_hold:
  assumes reach: "gate_reach g" and step: "gate_step l g = Some g'" and held: "held_or_past g i u"
    and s: "s \<in> set (drop (length (sent g)) (sent g'))" "identity (calls g ! fst s) = i"
  shows "fst s < length (calls g) \<and> u \<le> snd s"
  using step
proof (rule gate_step_effect)
  fix r assume sends: "sends r g g'"
  then have s_is: "s = (r, clock g)" using s(1) by (simp add: sends_def)
  obtain now where now: "place (calls g ! r) = Looks \<and> now = clock g \<or> place (calls g ! r) = Reads now"
      "\<not> holding_at (holds g i) now" and r: "r < length (calls g)"
    using sends s(2) s_is by (auto simp: sends_def)
  have "caller_spaced g (calls g ! r)" using gate_reach_spaced [OF reach] r by (simp add: spaced_ok_def)
  then have "now \<le> clock g" using now(1) by (auto simp: caller_spaced_def)
  then have "u \<le> clock g" using held now(2) by (auto simp: held_or_past_def)
  then show ?thesis using r s_is by simp
qed (use s in \<open>auto simp: quiet_move_def comes_def stands_by_def\<close>)

lemma run_past_hold:
  "gate_run ls g = Some g' \<Longrightarrow> gate_reach g \<Longrightarrow> held_or_past g i u \<Longrightarrow>
     \<exists>new. sent g' = sent g @ new \<and> (\<forall>s \<in> set new. identity (calls g' ! fst s) = i \<longrightarrow> u \<le> snd s) \<and>
       (\<forall>r < length (calls g). r < length (calls g') \<and> same_caller (calls g ! r) (calls g' ! r))"
proof (induction ls arbitrary: g)
  case Nil
  then show ?case by auto
next
  case (Cons l ls)
  then obtain g1 where g1: "gate_step l g = Some g1" "gate_run ls g1 = Some g'"
    by (auto split: option.splits)
  have reach: "gate_reach g1" using Cons.prems(2) g1(1) by (rule gate_reach.move)
  obtain new where new: "sent g' = sent g1 @ new" "\<forall>s \<in> set new. identity (calls g' ! fst s) = i \<longrightarrow> u \<le> snd s"
      "\<forall>r < length (calls g1). r < length (calls g') \<and> same_caller (calls g1 ! r) (calls g' ! r)"
    using Cons.IH [OF g1(2) reach held_or_past_step [OF g1(1) Cons.prems(3)]] by blast
  obtain first where first: "sent g1 = sent g @ first" using sent_grows [OF g1(1)] by blast
  have callers: "r < length (calls g') \<and> same_caller (calls g ! r) (calls g' ! r)" if "r < length (calls g)" for r
    using callers_stay [OF g1(1) that] new(3) by (auto simp: same_caller_def)
  have firsts: "u \<le> snd s" if s: "s \<in> set first" and own: "identity (calls g' ! fst s) = i" for s
  proof -
    have in_new: "s \<in> set (drop (length (sent g)) (sent g1))" using s first by simp
    have "fst s < length (calls g)"
      using sent_past_hold [OF Cons.prems(2) g1(1) _ in_new refl, of "clock g"] by (simp add: held_or_past_def)
    then have "identity (calls g ! fst s) = i" using callers own by (auto simp: same_caller_def)
    then show ?thesis using sent_past_hold [OF Cons.prems(2) g1(1) Cons.prems(3) in_new] by simp
  qed
  have "sent g' = sent g @ (first @ new)" by (simp add: new(1) first)
  then show ?case using firsts new(2) callers by (metis Un_iff set_append)
qed

text \<open>
  C5: Once GitHub refuses a request for a rate limit and the refusal is read, the instance sends nothing
  more under its identity before the wait GitHub named is over, a minute where it named none, whatever
  is answered, lifted, refused, or given up on in between.
\<close>

theorem nothing_sent_while_limited:
  assumes "gate_reach g" and "place_of r g = Was_Refused res asked" and "limited (refusal_of res asked)"
    and "gate_step (Read_Refusal r) g = Some g1" and "gate_run ls g1 = Some g2"
    and "s \<in> set (drop (length (sent g)) (sent g2))" and "identity (calls g2 ! fst s) = identity (calls g ! r)"
  shows "clock g + (case stated (refusal_of res asked) of Some wait \<Rightarrow> wait | None \<Rightarrow> 60000) \<le> snd s"
proof -
  let ?ref = "refusal_of res asked" and ?i = "identity (calls g ! r)"
  let ?u = "clock g + (case stated ?ref of Some wait \<Rightarrow> wait | None \<Rightarrow> minimum_hold)"
  have g1: "g1 = noted_refusal r ?ref g" using assms(2,4) by (simp add: gate_step_def)
  obtain h where h: "held_on ?i ?ref (clock g) (holds g) ?i = Some h" "clock g + hold_for ?ref (strikes h) \<le> held_until h"
    using held_on_own by blast
  have "holds g1 ?i = Some h" "sent g1 = sent g" using h(1) assms(3) by (simp_all add: g1 noted_refusal_def gate_parts)
  then have "held_or_past g1 ?i ?u"
    using h(2) hold_for_bounds(1) [of ?ref "strikes h"] by (force simp: held_or_past_def)
  then obtain new where "sent g2 = sent g1 @ new" "\<forall>s \<in> set new. identity (calls g2 ! fst s) = ?i \<longrightarrow> ?u \<le> snd s"
    using run_past_hold [OF assms(5) gate_reach.move [OF assms(1,4)]] by blast
  then have "?u \<le> snd s" using assms(6,7) \<open>sent g1 = sent g\<close> by simp
  then show ?thesis unfolding minimum_hold_def .
qed

subsection \<open>The one rule of a refusal, here and in the shared store\<close>

text \<open>
  What the gate asks of whatever keeps the holds: a refusal written holds for its wait, never shortens
  the hold standing, counts one strike while it stands, the next once it is over, and the first again
  once it is long over.
\<close>

locale hold_keeper =
  fixes put :: "string \<Rightarrow> refusal \<Rightarrow> int \<Rightarrow> 's \<Rightarrow> 's"
    and stored :: "string \<Rightarrow> 's \<Rightarrow> hold option"
    and fine :: "'s \<Rightarrow> bool"
  assumes fine_write: "fine s \<Longrightarrow> fine (put i ref now s)"
    and written: "fine s \<Longrightarrow>
      \<exists>h'. stored i (put i ref now s) = Some h' \<and> now + hold_for ref (strikes h') \<le> held_until h'"
    and longer: "fine s \<Longrightarrow> stored i s = Some h \<Longrightarrow> stored i (put i ref now s) = Some h' \<Longrightarrow> held_until h \<le> held_until h'"
    and same_strike: "fine s \<Longrightarrow> stored i s = Some h \<Longrightarrow> now < held_until h \<Longrightarrow>
      stored i (put i ref now s) = Some h' \<Longrightarrow> strikes h' = strikes h"
    and next_strike: "fine s \<Longrightarrow> stored i s = Some h \<Longrightarrow> held_until h \<le> now \<Longrightarrow> now \<le> held_until h + maximum_hold \<Longrightarrow>
      stored i (put i ref now s) = Some h' \<Longrightarrow> strikes h' = strikes h + 1"
    and first_strike: "fine s \<Longrightarrow> (\<forall>h. stored i s = Some h \<longrightarrow> held_until h + maximum_hold < now) \<Longrightarrow>
      stored i (put i ref now s) = Some h' \<Longrightarrow> strikes h' = 1"
begin

abbreviation write_all :: "string \<Rightarrow> (refusal \<times> int) list \<Rightarrow> 's \<Rightarrow> 's" where
  "write_all i \<equiv> fold (\<lambda>(ref, now). put i ref now)"

text \<open>A burst: refusals of requests already out as the hold began.\<close>

lemma burst:
  "fine s \<Longrightarrow> stored i s = Some h \<Longrightarrow> \<forall>(ref, now) \<in> set rs. now < held_until h \<Longrightarrow>
     \<exists>h'. stored i (write_all i rs s) = Some h' \<and> strikes h' = strikes h \<and> held_until h \<le> held_until h'"
proof (induction rs arbitrary: s h)
  case (Cons r rs)
  obtain ref now where r: "r = (ref, now)" by fastforce
  obtain h1 where h1: "stored i (put i ref now s) = Some h1" using written [OF Cons.prems(1)] by blast
  have one: "strikes h1 = strikes h" "held_until h \<le> held_until h1"
    using same_strike longer Cons.prems h1 by (auto simp: r)
  have "\<forall>(ref, now) \<in> set rs. now < held_until h1" using Cons.prems(3) one(2) by fastforce
  then show ?case using Cons.IH [OF fine_write [OF Cons.prems(1)] h1] one by (force simp: r)
qed auto

text \<open>Refusals in a row, each soon after the hold before it was over, wait twice as long up to the bound.\<close>

lemma in_a_row:
  assumes "fine s" "stored i s = Some h" "held_until h \<le> now" "now \<le> held_until h + maximum_hold" "strikes h \<ge> 1"
  shows "\<exists>h'. stored i (put i ref now s) = Some h' \<and> strikes h' = strikes h + 1 \<and>
    now + backoff_for (strikes h + 1) \<le> held_until h'"
proof -
  obtain h' where h': "stored i (put i ref now s) = Some h'" "now + hold_for ref (strikes h') \<le> held_until h'"
    using written [OF assms(1)] by blast
  have n: "strikes h' = strikes h + 1" using next_strike assms h'(1) by blast
  have "backoff_for (strikes h + 1) \<le> hold_for ref (strikes h')" using assms(5) by (simp add: hold_for_def n)
  then show ?thesis using h' n by auto
qed

end

definition counted_holds :: "hold_store \<Rightarrow> bool" where
  "counted_holds hs \<longleftrightarrow> (\<forall>i h. hs i = Some h \<longrightarrow> 1 \<le> strikes h)"

definition write_shared :: "string \<Rightarrow> refusal \<Rightarrow> int \<Rightarrow> hold_store \<Rightarrow> hold_store" where
  "write_shared i ref now hs = snd (upsert_hold i now (waits_for ref) (now - maximum_hold) hs)"

lemma first_wait: "waits_for ref ! 0 = hold_for ref 1"
  by (simp add: waits_for_def)

lemma held_on_at:
  "held_on i ref now hs i = Some
     (let standing = swept_holds now hs i;
          n = (case standing of Some h \<Rightarrow> strikes h | None \<Rightarrow> 0) + (if holding_at standing now then 0 else 1)
      in \<lparr>held_until = max (case standing of Some h \<Rightarrow> held_until h | None \<Rightarrow> 0) (now + hold_for ref n), strikes = n\<rparr>)"
  by (simp add: held_on_def Let_def)

lemma shared_at:
  assumes "counted_holds hs"
  shows "write_shared i ref now hs i = Some (case hs i of
     None \<Rightarrow> \<lparr>held_until = now + hold_for ref 1, strikes = 1\<rparr>
   | Some h \<Rightarrow> let n = (if held_until h > now then strikes h
                      else if held_until h < now - maximum_hold then 1 else strikes h + 1)
       in \<lparr>held_until = max (held_until h) (now + hold_for ref n), strikes = n\<rparr>)"
proof (cases "hs i")
  case (Some h)
  then have "1 \<le> strikes h" using assms by (auto simp: counted_holds_def)
  then show ?thesis
    using Some waits_index [of _ ref] by (simp add: write_shared_def upsert_hold_def Let_def)
qed (simp add: write_shared_def upsert_hold_def Let_def first_wait)

interpretation here: hold_keeper held_on "\<lambda>i hs. hs i" counted_holds
proof unfold_locales
  fix i ref now hs
  assume "counted_holds hs"
  then show "counted_holds (held_on i ref now hs)"
    by (auto simp: counted_holds_def held_on_def swept_holds_def Let_def split: option.splits if_splits)
  show "\<exists>h'. held_on i ref now hs i = Some h' \<and> now + hold_for ref (strikes h') \<le> held_until h'"
    by (rule held_on_own)
next
  fix i ref now hs h h'
  assume "hs i = Some h" "held_on i ref now hs i = Some h'"
  then show "held_until h \<le> held_until h'"
    using hold_for_bounds(2) [of ref "strikes h'"]
    by (auto simp: held_on_at swept_holds_def maximum_hold_def Let_def split: if_splits)
qed (auto simp: held_on_at swept_holds_def maximum_hold_def Let_def split: option.splits if_splits)

interpretation shared: hold_keeper write_shared "\<lambda>i hs. hs i" counted_holds
proof unfold_locales
  fix i ref now hs
  assume ok: "counted_holds hs"
  show "counted_holds (write_shared i ref now hs)"
    unfolding counted_holds_def
  proof (intro allI impI)
    fix j h assume h: "write_shared i ref now hs j = Some h"
    show "1 \<le> strikes h"
    proof (cases "j = i")
      case True
      then show ?thesis using h ok
        by (auto simp: shared_at [OF ok] counted_holds_def Let_def split: option.splits if_splits)
    next
      case False
      then show ?thesis using h ok
        by (auto simp: write_shared_def upsert_hold_def counted_holds_def Let_def)
    qed
  qed
  show "\<exists>h'. write_shared i ref now hs i = Some h' \<and> now + hold_for ref (strikes h') \<le> held_until h'"
    by (auto simp: shared_at [OF ok] Let_def split: option.splits)
qed (auto simp: shared_at maximum_hold_def Let_def split: option.splits if_splits)

text \<open>
  The one statement that writes a refusal's hold for every instance, over the table of waits the gate
  hands it, writes the hold an instance alone would come to from the same one, whatever stood before:
  none, one standing, one over, or one long over.
\<close>

theorem shared_hold_is_the_local_one:
  assumes "counted_holds hs" and "0 \<le> now"
  shows "fst (upsert_hold i now (waits_for ref) (now - maximum_hold) hs) = the (held_on i ref now hs i)"
proof -
  have "write_shared i ref now hs i = held_on i ref now hs i"
    using assms(2) hold_for_bounds(2) [of ref 1]
    by (auto simp: shared_at [OF assms(1)] held_on_at swept_holds_def maximum_hold_def Let_def max_def
        split: option.splits if_splits)
  moreover have "write_shared i ref now hs i = Some (fst (upsert_hold i now (waits_for ref) (now - maximum_hold) hs))"
    by (simp add: write_shared_def upsert_hold_def Let_def)
  ultimately show ?thesis by (metis option.sel)
qed

text \<open>
  Refusals of requests already out as a hold began are one strike, not one each, and never shorten
  it, in the instance's own holds and in those every instance shares.
\<close>

theorem burst_is_one_strike:
  assumes "counted_holds hs" and "hs i = Some h" and "\<forall>(ref, now) \<in> set rs. now < held_until h"
  shows "(\<exists>h'. fold (\<lambda>(ref, now). held_on i ref now) rs hs i = Some h' \<and>
            strikes h' = strikes h \<and> held_until h \<le> held_until h') \<and>
         (\<exists>h'. fold (\<lambda>(ref, now). snd \<circ> upsert_hold i now (waits_for ref) (now - maximum_hold)) rs hs i = Some h' \<and>
            strikes h' = strikes h \<and> held_until h \<le> held_until h')"
proof -
  have "(\<lambda>(ref, now). snd \<circ> upsert_hold i now (waits_for ref) (now - maximum_hold)) =
      (\<lambda>(ref, now). write_shared i ref now)"
    by (simp add: fun_eq_iff write_shared_def)
  then show ?thesis using here.burst [OF assms] shared.burst [OF assms] by simp
qed

subsection \<open>Witnesses\<close>

lemma gate_run_reach: "gate_run ls g = Some g' \<Longrightarrow> gate_reach g \<Longrightarrow> gate_reach g'"
  by (induction ls arbitrary: g) (auto split: option.splits intro: gate_reach.move)

definition demo_start :: gate where
  "demo_start = new_gate 0 (\<lambda>_. None)"

definition demo_ok :: response where
  "demo_ok = \<lparr>status = 201, retry_after = None, remaining = None, reset = None, body = None\<rparr>"

definition demo_refused :: response where
  "demo_refused = \<lparr>status = 429, retry_after = Some '' 2'', remaining = None, reset = None, body = None\<rparr>"

definition comes_to :: "gate_label list \<Rightarrow> gate" where
  "comes_to ls = (case gate_run ls demo_start of Some g \<Rightarrow> g | None \<Rightarrow> demo_start)"

lemma comes_to_reach: "gate_reach (comes_to ls)"
  using gate_run_reach [of ls demo_start] gate_reach.start [of 0 "\<lambda>_. None"]
  by (auto simp: comes_to_def demo_start_def split: option.splits)

definition demo_two_writes :: "gate_label list" where
  "demo_two_writes = [Come ''m'' True False, Come ''m'' True False, Take 0, Wake 0, Take 0, Look 0, Read_Answers 0 False,
     Answers 0 demo_ok, Take 1, Tick 1000, Wake 1, Take 1, Look 1]"

lemma writes_a_second_apart_witness:
  "sent (comes_to demo_two_writes) = [(0, 0), (1, 1000)] \<and> (0 :: int) + 1000 \<le> 1000"
proof -
  have sent: "sent (comes_to demo_two_writes) = [(0, 0), (1, 1000)]" by code_simp
  have "mutates (calls (comes_to demo_two_writes) ! 0)" "mutates (calls (comes_to demo_two_writes) ! 1)"
    "identity (calls (comes_to demo_two_writes) ! 0) = identity (calls (comes_to demo_two_writes) ! 1)"
    by code_simp+
  then show ?thesis using writes_a_second_apart [OF comes_to_reach [of demo_two_writes], of 0 1] by (simp add: sent)
qed

lemma one_in_hand_per_lane_witness:
  "{r. r < length (calls (comes_to demo_two_writes)) \<and> in_hand (place (calls (comes_to demo_two_writes) ! r))} = {1}"
proof -
  let ?g = "comes_to demo_two_writes"
  have one: "1 < length (calls ?g)" "in_hand (place (calls ?g ! 1))" by code_simp+
  have "list_all (\<lambda>c. identity c = ''m'' \<and> \<not> behind c) (calls ?g)" by code_simp
  then have same: "identity (calls ?g ! r) = ''m'' \<and> \<not> behind (calls ?g ! r)" if "r < length (calls ?g)" for r
    using that by (simp add: list_all_length)
  have "r = 1" if "r < length (calls ?g)" "in_hand (place (calls ?g ! r))" for r
    using one_in_hand_per_lane [OF comes_to_reach that(1) one(1) that(2) one(2)] same that(1) one(1) by simp
  then show ?thesis using one by blast
qed

lemma gone_requests_keep_nothing_witness:
  "lanes (comes_to (demo_two_writes @ [Answers 1 demo_ok])) Writers ''m'' = None"
proof -
  have "list_all (\<lambda>c. place c = Gone) (calls (comes_to (demo_two_writes @ [Answers 1 demo_ok])))" by code_simp
  then have "\<forall>c \<in> set (calls (comes_to (demo_two_writes @ [Answers 1 demo_ok]))). place c = Gone"
    by (simp only: list_all_iff)
  from gone_requests_keep_nothing [OF comes_to_reach this] show ?thesis by simp
qed

definition demo_refusal :: "gate_label list" where
  "demo_refusal = [Come ''m'' False False, Take 0, Look 0, Read_Answers 0 False, Answers 0 demo_refused]"

definition demo_after :: "gate_label list" where
  "demo_after = [Hold_Answers 0 False, Come ''m'' False False, Take 1, Tick 2000, Look 1]"

lemma nothing_sent_while_limited_witness:
  "(1, 2000) \<in> set (sent (comes_to (demo_refusal @ Read_Refusal 0 # demo_after))) \<and> (2000 :: int) \<le> 2000"
proof -
  let ?g = "comes_to demo_refusal"
  let ?g1 = "the (gate_step (Read_Refusal 0) ?g)"
  let ?g2 = "the (gate_run demo_after ?g1)"
  have at: "place_of 0 ?g = Was_Refused demo_refused 0" "clock ?g = 0" "identity (calls ?g ! 0) = ''m''" by code_simp+
  have says: "limited (refusal_of demo_refused 0)" "stated (refusal_of demo_refused 0) = Some 2000" by code_simp+
  have step: "gate_step (Read_Refusal 0) ?g = Some ?g1" by (simp add: gate_step_def at)
  have "gate_run demo_after ?g1 \<noteq> None" by code_simp
  then have run: "gate_run demo_after ?g1 = Some ?g2" by auto
  have "drop (length (sent ?g)) (sent ?g2) = [(1, 2000)]" "identity (calls ?g2 ! 1) = ''m''" by code_simp+
  then have "clock ?g + 2000 \<le> snd (1 :: nat, 2000 :: int)"
    using nothing_sent_while_limited [OF comes_to_reach at(1) says(1) step run, of "(1, 2000)"] at says by simp
  moreover have "(1, 2000) \<in> set (sent (comes_to (demo_refusal @ Read_Refusal 0 # demo_after)))" by code_simp
  ultimately show ?thesis by (simp add: at)
qed

definition demo_holds :: hold_store where
  "demo_holds = (\<lambda>_. None)(''m'' := Some \<lparr>held_until = 60000, strikes = 2\<rparr>)"

lemma demo_holds_counted: "counted_holds demo_holds"
  by (auto simp: counted_holds_def demo_holds_def split: if_splits)

lemma shared_hold_is_the_local_one_witness:
  "fst (upsert_hold ''m'' 70000 (waits_for not_limited) (70000 - maximum_hold) demo_holds) =
     the (held_on ''m'' not_limited 70000 demo_holds ''m'')"
  by (rule shared_hold_is_the_local_one [OF demo_holds_counted]) simp

lemma burst_is_one_strike_witness:
  "\<exists>h'. fold (\<lambda>(ref, now). held_on ''m'' ref now) [(not_limited, 1), (not_limited, 2)] demo_holds ''m'' = Some h' \<and>
     strikes h' = 2"
  using burst_is_one_strike [OF demo_holds_counted, of "''m''" "\<lparr>held_until = 60000, strikes = 2\<rparr>"
      "[(not_limited, 1), (not_limited, 2)]"]
  by (auto simp: demo_holds_def)

end
