(* ===== verification/Tab_Switcher.thy ===== *)
theory Tab_Switcher
  imports Tab_Strip_Properties
begin

text \<open>
  \<open>packages/panel/src/desktop/tab-switcher-model.ts\<close>: the stops a window keeps, most recent first, and
  how a press, a hold, and a let-go of the switcher move through their cards; and
  \<open>packages/panel/src/tasks/closed-tabs.ts\<close>, the tabs closed last, which a press opens again.
\<close>

subsection \<open>Stops\<close>

definition stops_kept :: nat where "stops_kept = 40"
definition switcher_cards :: nat where "switcher_cards = 5"

datatype switcher_place = Home_Place | Inbox_Place | Board_Place | Automations_Place

datatype stop =
    Task_Stop string "strip_tab option" "strip_tab option" bool \<comment> \<open>its column's tab, its panel's, and whether that fills the window\<close>
  | Place_Stop switcher_place
  | Agent_Stop string
  | Person_Stop string "string option" "string option" \<comment> \<open>the name, then the workspace\<close>

definition same_tab_or_none :: "strip_tab option \<Rightarrow> strip_tab option \<Rightarrow> bool" where
  "same_tab_or_none a b \<longleftrightarrow> (case a of None \<Rightarrow> b = None | Some _ \<Rightarrow> same_tab_opt a b)"

fun same_stop :: "stop \<Rightarrow> stop \<Rightarrow> bool" where
  "same_stop (Task_Stop t c p f) b = (case b of
     Task_Stop t' c' p' f' \<Rightarrow> t' = t \<and> same_tab_or_none c c' \<and> same_tab_or_none p p' \<and> f = f' | _ \<Rightarrow> False)"
| "same_stop (Place_Stop p) b = (case b of Place_Stop p' \<Rightarrow> p' = p | _ \<Rightarrow> False)"
| "same_stop (Agent_Stop a) b = (case b of Agent_Stop a' \<Rightarrow> a' = a | _ \<Rightarrow> False)"
| "same_stop (Person_Stop u _ w) b = (case b of Person_Stop u' _ w' \<Rightarrow> u' = u \<and> w' = w | _ \<Rightarrow> False)"

fun stop_task :: "stop \<Rightarrow> string option" where
  "stop_task (Task_Stop t _ _ _) = Some t"
| "stop_task _ = None"

definition same_page :: "stop \<Rightarrow> stop \<Rightarrow> bool" where
  "same_page a b = (case a of
     Task_Stop t _ _ _ \<Rightarrow> (case b of Task_Stop t' _ _ _ \<Rightarrow> t' = t | _ \<Rightarrow> False)
   | _ \<Rightarrow> same_stop a b)"

definition visited :: "stop list \<Rightarrow> stop \<Rightarrow> stop list" where
  "visited stops s =
     (if stops \<noteq> [] \<and> same_stop (hd stops) s then stops
      else take stops_kept (s # filter (\<lambda>each. \<not> same_stop each s) stops))"

definition forgotten :: "stop list \<Rightarrow> (stop \<Rightarrow> bool) \<Rightarrow> stop list" where
  "forgotten stops gone =
     (let kept = filter (\<lambda>s. \<not> gone s) stops in if length kept = length stops then stops else kept)"

definition moved :: "stop list \<Rightarrow> stop option \<Rightarrow> stop option \<Rightarrow> bool \<Rightarrow> stop list" where
  "moved stops before after pressed = (case after of
     None \<Rightarrow> stops
   | Some a \<Rightarrow> (case before of
       None \<Rightarrow> visited stops a
     | Some b \<Rightarrow>
         if pressed \<or> \<not> same_page b a \<or> same_stop b a then visited stops a
         else take stops_kept (a # filter (\<lambda>s. \<not> same_stop s b \<and> \<not> same_stop s a) stops)))"

subsection \<open>The switcher\<close>

datatype switcher =
    Let_Go
  | Held (cards: "stop list") (here: bool) (chosen: int) (shown: bool)

datatype switch_step = On | Back

definition step_by :: "switch_step \<Rightarrow> int" where
  "step_by s = (case s of On \<Rightarrow> 1 | Back \<Rightarrow> -1)"

text \<open>JavaScript's \<open>%\<close>, whose answer has the sign of what is divided.\<close>

definition js_rem :: "int \<Rightarrow> int \<Rightarrow> int" where
  "js_rem a b = sgn a * (\<bar>a\<bar> mod \<bar>b\<bar>)"

definition wrapped :: "int \<Rightarrow> int \<Rightarrow> int" where
  "wrapped n count = js_rem (js_rem n count + count) count"

definition switcher_pressed :: "switcher \<Rightarrow> stop list \<Rightarrow> stop option \<Rightarrow> switch_step \<Rightarrow> switcher" where
  "switcher_pressed state stops now step = (case state of
     Held cs h n _ \<Rightarrow> Held cs h (wrapped (n + step_by step) (int (length cs))) True
   | Let_Go \<Rightarrow>
       let cs = take switcher_cards stops;
           h = (case (now, cs) of (Some s, first # _) \<Rightarrow> same_stop first s | _ \<Rightarrow> False)
       in if length cs < (if h then 2 else 1) then state
          else Held cs h (if step = On then (if h then 1 else 0) else int (length cs) - 1) False)"

definition switcher_shown :: "switcher \<Rightarrow> switcher" where
  "switcher_shown state = (case state of Held cs h n _ \<Rightarrow> Held cs h n True | Let_Go \<Rightarrow> state)"

definition switcher_chose :: "switcher \<Rightarrow> int \<Rightarrow> switcher" where
  "switcher_chose state n = (case state of
     Held cs h _ s \<Rightarrow> if n < 0 \<or> n \<ge> int (length cs) then state else Held cs h n s
   | Let_Go \<Rightarrow> state)"

definition switcher_target :: "switcher \<Rightarrow> stop option" where
  "switcher_target state = (case state of
     Held cs h n _ \<Rightarrow> if h \<and> n = 0 then None else nth_opt cs n
   | Let_Go \<Rightarrow> None)"

subsection \<open>The stop on screen\<close>

record window_standing =
  over :: bool
  inbox :: bool
  standing_agent :: "string option"
  person :: "(string \<times> string option \<times> string option) option"
  board :: bool
  automations :: bool
  home :: bool
  bound_for :: "string option"
  open_task :: "string option"
  column :: "strip_tab option"
  panel :: "strip_tab option"
  full_screen :: bool

definition shown_stop :: "window_standing \<Rightarrow> stop option" where
  "shown_stop w =
     (if over w then None
      else if inbox w then Some (Place_Stop Inbox_Place)
      else case standing_agent w of Some a \<Rightarrow> Some (Agent_Stop a) | None \<Rightarrow>
        (case person w of Some (u, n, ws) \<Rightarrow> Some (Person_Stop u n ws) | None \<Rightarrow>
          if board w then Some (Place_Stop Board_Place)
          else if automations w then Some (Place_Stop Automations_Place)
          else case bound_for w of
            None \<Rightarrow> if home w then Some (Place_Stop Home_Place) else None
          | Some t \<Rightarrow> if Some t \<noteq> open_task w then None
              else Some (Task_Stop t (column w) (panel w) (panel w \<noteq> None \<and> full_screen w))))"

subsection \<open>Tabs closed\<close>

definition closed_tabs_kept :: nat where "closed_tabs_kept = 20"

datatype 'f closed_tab =
    Closed_Column string strip_tab nat
  | Closed_Side_Panel string strip_tab nat "'f option" \<comment> \<open>a file's tab's file\<close>

fun closed_task :: "'f closed_tab \<Rightarrow> string" where
  "closed_task (Closed_Column t _ _) = t"
| "closed_task (Closed_Side_Panel t _ _ _) = t"

definition with_closed_tab :: "'f closed_tab list \<Rightarrow> 'f closed_tab \<Rightarrow> 'f closed_tab list" where
  "with_closed_tab was closed = (let all = was @ [closed] in drop (length all - closed_tabs_kept) all)"

text \<open>\<open>findLastIndex\<close>, one more: how many are kept up to the last found.\<close>

fun up_to_last :: "('a \<Rightarrow> bool) \<Rightarrow> 'a list \<Rightarrow> nat" where
  "up_to_last p [] = 0"
| "up_to_last p (x # xs) = (let n = up_to_last p xs in if n > 0 then n + 1 else if p x then 1 else 0)"

definition with_undrawn_passed ::
  "'f closed_tab list \<Rightarrow> string option \<Rightarrow> ('f closed_tab \<Rightarrow> bool) \<Rightarrow> ('f closed_tab \<Rightarrow> bool) \<Rightarrow> 'f closed_tab list" where
  "with_undrawn_passed was task draws draws_anywhere =
     (let kept = up_to_last (\<lambda>c. draws_anywhere c \<and> (Some (closed_task c) \<noteq> task \<or> draws c)) was
      in if kept = length was then was else take kept was)"

subsection \<open>Two stops the same\<close>

lemma same_tab_or_none_simps [simp]:
  "same_tab_or_none None b \<longleftrightarrow> b = None" "same_tab_or_none a None \<longleftrightarrow> a = None"
  "same_tab_or_none (Some x) (Some y) \<longleftrightarrow> same_tab x y"
  by (auto simp: same_tab_or_none_def same_tab_opt_def split: option.splits)

lemma same_tab_or_none_refl [simp]: "same_tab_or_none a a"
  by (cases a) simp_all

lemma same_tab_or_none_sym: "same_tab_or_none a b \<Longrightarrow> same_tab_or_none b a"
  by (cases a; cases b) (simp_all, blast intro: tabs.same_sym)

lemma same_tab_or_none_trans: "same_tab_or_none a b \<Longrightarrow> same_tab_or_none b c \<Longrightarrow> same_tab_or_none a c"
  by (cases a; cases b; cases c) (simp_all, blast intro: tabs.same_trans)

interpretation stops: sameness same_stop
proof
  show "same_stop a a" for a by (cases a) simp_all
  show "same_stop b a" if "same_stop a b" for a b
    using that by (cases a; cases b) (simp_all, blast intro: same_tab_or_none_sym)
  show "same_stop a c" if "same_stop a b" "same_stop b c" for a b c
    using that by (cases a; cases b; cases c) (simp_all, blast intro: same_tab_or_none_trans)
qed

text \<open>The stops as a window comes to keep them.\<close>

inductive stops_reach :: "stop list \<Rightarrow> bool" where
  none: "stops_reach []"
| visit: "stops_reach stops \<Longrightarrow> stops_reach (visited stops s)"
| forget: "stops_reach stops \<Longrightarrow> stops_reach (forgotten stops gone)"
| move: "stops_reach stops \<Longrightarrow> stops_reach (moved stops before after pressed)"

definition stops_ok :: "stop list \<Rightarrow> bool" where
  "stops_ok stops \<longleftrightarrow> stops.apart stops \<and> length stops \<le> stops_kept"

lemma apart_front: "stops.apart stops \<Longrightarrow> stops.apart (take n (s # filter (\<lambda>e. \<not> same_stop e s \<and> P e) stops))"
proof -
  assume "stops.apart stops"
  then have "stops.apart (s # filter (\<lambda>e. \<not> same_stop e s \<and> P e) stops)"
    using stops.apart_filter by (auto simp: stops.apart_Cons stops.same_swap [of s])
  then show ?thesis by (metis append_take_drop_id stops.apart_append)
qed

lemma visited_ok: "stops_ok stops \<Longrightarrow> stops_ok (visited stops s)"
  using apart_front [of stops stops_kept s "\<lambda>_. True"] by (auto simp: stops_ok_def visited_def)

lemma forgotten_ok: "stops_ok stops \<Longrightarrow> stops_ok (forgotten stops gone)"
  by (auto simp: stops_ok_def forgotten_def Let_def stops.apart_filter intro: le_trans [OF length_filter_le])

lemma moved_ok: "stops_ok stops \<Longrightarrow> stops_ok (moved stops before after pressed)"
proof -
  assume ok: "stops_ok stops"
  have "stops_ok (take stops_kept (a # filter (\<lambda>s. \<not> same_stop s b \<and> \<not> same_stop s a) stops))" for a b
    using ok apart_front [of stops stops_kept a "\<lambda>s. \<not> same_stop s b"]
    by (simp add: stops_ok_def conj_commute)
  then show ?thesis using ok visited_ok by (auto simp: moved_def split: option.splits)
qed

lemma stops_reach_ok: "stops_reach stops \<Longrightarrow> stops_ok stops"
proof (induction rule: stops_reach.induct)
  case none
  then show ?case by (simp add: stops_ok_def stops.apart_def)
qed (auto intro: visited_ok forgotten_ok moved_ok)

text \<open>
  However a window moves, its stops are at most forty and no two of them the same screen, and the
  screen it moved to is the first.
\<close>

theorem stops_stand_apart:
  assumes "stops_reach stops"
  shows "length (moved stops before after pressed) \<le> 40 \<and>
     (\<forall>i < length (moved stops before after pressed). \<forall>j < i.
        \<not> same_stop (moved stops before after pressed ! j) (moved stops before after pressed ! i)) \<and>
     (\<forall>a. after = Some a \<longrightarrow> same_stop (hd (moved stops before after pressed)) a)"
proof -
  let ?m = "moved stops before after pressed"
  have ok: "stops_ok ?m" by (rule moved_ok [OF stops_reach_ok [OF assms]])
  have "\<not> same_stop (?m ! j) (?m ! i)" if "i < length ?m" "j < i" for i j
  proof -
    have "?m ! j \<in> set ?m" "?m ! i \<in> set ?m" "?m ! j \<noteq> ?m ! i"
      using ok that by (auto simp: stops_ok_def stops.apart_def nth_eq_iff_index_eq)
    then show ?thesis using ok by (auto simp: stops_ok_def stops.apart_def)
  qed
  moreover have "same_stop (hd (visited stops a)) a" for a
    by (auto simp: visited_def stops_kept_def)
  then have "after = Some a \<Longrightarrow> same_stop (hd ?m) a" for a
    by (auto simp: moved_def stops_kept_def split: option.splits)
  ultimately show ?thesis using ok by (auto simp: stops_ok_def stops_kept_def)
qed

subsection \<open>The choice\<close>

lemma wrapped_mod: "0 < count \<Longrightarrow> - count \<le> n \<Longrightarrow> wrapped n count = n mod count"
proof -
  assume count: "0 < count" "- count \<le> n"
  have "js_rem n count + count \<ge> 0 \<and> (js_rem n count + count) mod count = n mod count"
  proof (cases "n < 0")
    case True
    then have "js_rem n count = - ((- n) mod count)" using count by (simp add: js_rem_def)
    moreover have "(- n) mod count < count" "0 \<le> (- n) mod count" using count by simp_all
    moreover have "(- ((- n) mod count)) mod count = n mod count" by (metis mod_minus_eq minus_minus)
    ultimately show ?thesis by simp
  next
    case False
    then have "js_rem n count = n mod count" using count by (cases "n = 0") (simp_all add: js_rem_def)
    then show ?thesis using count by simp
  qed
  moreover have "wrapped n count = sgn x * (x mod count)" if "x = js_rem n count + count" "0 \<le> x" for x
    using that count by (simp add: wrapped_def js_rem_def)
  ultimately show ?thesis by (cases "js_rem n count + count = 0") auto
qed

inductive switcher_reach :: "switcher \<Rightarrow> bool" where
  let_go: "switcher_reach Let_Go"
| pressed: "switcher_reach st \<Longrightarrow> switcher_reach (switcher_pressed st stops now step)"
| held: "switcher_reach st \<Longrightarrow> switcher_reach (switcher_shown st)"
| rested: "switcher_reach st \<Longrightarrow> switcher_reach (switcher_chose st n)"

definition switcher_ok :: "switcher \<Rightarrow> bool" where
  "switcher_ok st \<longleftrightarrow> (case st of
     Let_Go \<Rightarrow> True
   | Held cs h n _ \<Rightarrow> 0 \<le> n \<and> n < int (length cs) \<and> length cs \<le> switcher_cards \<and> (h \<longrightarrow> 2 \<le> length cs))"

lemma pressed_ok: "switcher_ok st \<Longrightarrow> switcher_ok (switcher_pressed st stops now step)"
proof (cases st)
  case (Held cs h n s)
  assume "switcher_ok st"
  then have "0 < int (length cs)" "- int (length cs) \<le> n + step_by step"
    by (auto simp: switcher_ok_def Held step_by_def split: switch_step.splits)
  then show ?thesis using \<open>switcher_ok st\<close>
    by (simp add: switcher_ok_def Held switcher_pressed_def wrapped_mod)
qed (auto simp: switcher_ok_def switcher_pressed_def Let_def split: option.splits list.splits)

lemma switcher_reach_ok: "switcher_reach st \<Longrightarrow> switcher_ok st"
  by (induction rule: switcher_reach.induct)
    (auto simp: pressed_ok, auto simp: switcher_ok_def switcher_shown_def switcher_chose_def split: switcher.splits)

text \<open>A card is always chosen among those held, and a let-go goes nowhere only from the one stood on.\<close>

lemma choice_in_range:
  assumes "switcher_reach (Held cs h n s)"
  shows "0 \<le> n \<and> n < int (length cs) \<and> length cs \<le> 5 \<and> (switcher_target (Held cs h n s) = None \<longleftrightarrow> h \<and> n = 0)"
  using switcher_reach_ok [OF assms]
  by (auto simp: switcher_ok_def switcher_cards_def switcher_target_def nth_opt_def)

text \<open>
  A quick tap is the screen before this one: where the window stood on one screen and moved to another,
  a press of \<open>ON\<close> let go at once goes to the first, and a second such tap from there comes back.
\<close>

theorem tap_flips_between_two:
  assumes "stops \<noteq> []" and "same_stop (hd stops) a" and "\<not> same_stop a b"
  shows "\<exists>a'. switcher_target (switcher_pressed Let_Go (moved stops (Some a) (Some b) True) (Some b) On) = Some a' \<and>
       same_stop a' a \<and>
       (\<exists>b'. switcher_target (switcher_pressed Let_Go
           (moved (moved stops (Some a) (Some b) True) (Some b) (Some a') True) (Some a') On) = Some b' \<and> same_stop b' b)"
proof -
  obtain a' rest where stops: "stops = a' # rest" using assms(1) by (cases stops) auto
  have aa: "same_stop a' a" using assms(2) by (simp add: stops)
  have ab: "\<not> same_stop a' b" using aa assms(3) stops.same_sym stops.same_trans by blast
  then have ba: "\<not> same_stop b a'" using stops.same_sym by blast
  define older where "older = filter (\<lambda>e. \<not> same_stop e b) rest"
  have first: "moved stops (Some a) (Some b) True = b # a' # take 38 older"
    using ab by (simp add: moved_def visited_def stops older_def stops_kept_def eval_nat_numeral)
  define oldest where "oldest = filter (\<lambda>e. \<not> same_stop e a') (take 38 older)"
  have second: "moved (b # a' # take 38 older) (Some b) (Some a') True = a' # b # take 38 oldest"
    using ba by (simp add: moved_def visited_def oldest_def stops_kept_def eval_nat_numeral)
  have target: "switcher_target (switcher_pressed Let_Go (x # y # zs) (Some x) On) = Some y" for x y zs
    by (simp add: switcher_pressed_def switcher_target_def Let_def switcher_cards_def nth_opt_def eval_nat_numeral)
  show ?thesis using aa by (simp only: first second target option.inject ex_simps simp_thms) auto
qed

subsection \<open>The tab a press opens again\<close>

lemma up_to_last_bound: "up_to_last p xs \<le> length xs"
  by (induction xs) (auto simp: Let_def)

lemma up_to_last_is: "0 < up_to_last p xs \<Longrightarrow> p (xs ! (up_to_last p xs - 1))"
proof (induction xs)
  case (Cons x xs)
  then show ?case by (cases "up_to_last p xs") (auto simp: Let_def split: if_splits)
qed simp

lemma up_to_last_none: "x \<in> set (drop (up_to_last p xs) xs) \<Longrightarrow> \<not> p x"
proof (induction xs)
  case (Cons y xs)
  then show ?case by (cases "up_to_last p xs = 0") (auto simp: Let_def split: if_splits)
qed simp

text \<open>
  What is passed over before a press opens a closed tab again is what the open task would not draw, or
  no task would; the latest left, where any is, is another task's or one the open task draws, and
  every tab before it is kept in its order.
\<close>

theorem reopen_finds_the_latest_drawn:
  "\<exists>passed. was = with_undrawn_passed was task draws anywhere @ passed \<and>
     (\<forall>c \<in> set passed. \<not> anywhere c \<or> (Some (closed_task c) = task \<and> \<not> draws c)) \<and>
     (with_undrawn_passed was task draws anywhere = [] \<or>
       (let c = last (with_undrawn_passed was task draws anywhere)
        in anywhere c \<and> (Some (closed_task c) \<noteq> task \<or> draws c)))"
proof -
  let ?p = "\<lambda>c. anywhere c \<and> (Some (closed_task c) \<noteq> task \<or> draws c)"
  let ?n = "up_to_last ?p was"
  have kept: "with_undrawn_passed was task draws anywhere = take ?n was"
    by (simp add: with_undrawn_passed_def Let_def)
  have "\<not> ?p c" if "c \<in> set (drop ?n was)" for c using that by (rule up_to_last_none)
  moreover have "?p (last (take ?n was))" if "take ?n was \<noteq> []"
  proof -
    have n: "0 < ?n" "?n \<le> length was" using that up_to_last_bound by auto
    have "last (take m was) = was ! (m - 1)" if "0 < m" "m \<le> length was" for m
      using that by (subst last_conv_nth) auto
    then have "last (take ?n was) = was ! (?n - 1)" using n by blast
    then show ?thesis using up_to_last_is [OF n(1)] by simp
  qed
  moreover have "was = take ?n was @ drop ?n was" by simp
  ultimately show ?thesis unfolding kept Let_def by blast
qed

lemma closed_tabs_bound: "length (with_closed_tab was closed) \<le> 20 \<and> last (with_closed_tab was closed) = closed"
  by (auto simp: with_closed_tab_def Let_def closed_tabs_kept_def)

subsection \<open>Witnesses\<close>

lemma stops_stand_apart_witness:
  "length (moved [] None (Some (Place_Stop Inbox_Place)) True) \<le> 40"
  using stops_stand_apart [OF stops_reach.none, of None "Some (Place_Stop Inbox_Place)" True] by simp

lemma tap_flips_between_two_witness:
  "\<exists>a'. switcher_target (switcher_pressed Let_Go
       (moved [Agent_Stop ''a''] (Some (Agent_Stop ''a'')) (Some (Place_Stop Inbox_Place)) True)
       (Some (Place_Stop Inbox_Place)) On) = Some a' \<and> same_stop a' (Agent_Stop ''a'')"
  using tap_flips_between_two [of "[Agent_Stop ''a'']" "Agent_Stop ''a''" "Place_Stop Inbox_Place"] by auto

end
