(* ===== verification/Task_List.thy ===== *)
theory Task_List
  imports Prelude "HOL-Library.Product_Lexorder"
begin

text \<open>
  \<open>packages/ui/src/task-list-model.ts\<close>: the rows of the sidebar's task list, how they are grouped,
  filtered and counted, and how child tasks nest under their parents; and
  \<open>packages/panel/src/desktop/nested-rows.ts\<close>, which reads the nesting back from the rows as drawn. A
  task is the fields the list reads of it; an agent's name is handed over as its tab says it.
\<close>

subsection \<open>Rows\<close>

datatype task_status = Backlog | Todo | In_Progress | Done_Status | Canceled

definition task_status_order :: "task_status list" where
  "task_status_order = [Backlog, Todo, In_Progress, Done_Status, Canceled]"

definition shown_statuses :: "task_status list" where
  "shown_statuses = [Todo, In_Progress]"

datatype task_order = Updated | Created | Name

datatype assigned_to = Me | Anyone | Member string

record task_summary =
  task_id :: string
  task_name :: string
  task_repository :: "string option"
  created_by :: "string option"
  owner_id :: "string option"
  created_at :: int
  updated_at :: int
  activity_at :: "int option"
  assignee :: "string option"
  task_status :: "task_status option"
  pinned_at :: "int option"
  parent_task_id :: "string option"

record taskless_agent =
  agent_id :: string
  agent_name :: string
  agent_repository :: "string option"
  started_by :: "string option"
  agent_activity_at :: int

datatype task_row = Task_Row task_summary | Agent_Row taskless_agent

fun task_row_key :: "task_row \<Rightarrow> string" where
  "task_row_key (Task_Row t) = task_id t"
| "task_row_key (Agent_Row a) = agent_id a"

fun task_row_name :: "task_row \<Rightarrow> string" where
  "task_row_name (Task_Row t) = task_name t"
| "task_row_name (Agent_Row a) = agent_name a"

fun task_row_repository :: "task_row \<Rightarrow> string option" where
  "task_row_repository (Task_Row t) = task_repository t"
| "task_row_repository (Agent_Row a) = agent_repository a"

definition creator_id_of :: "task_summary \<Rightarrow> string option" where
  "creator_id_of t = (case created_by t of Some u \<Rightarrow> Some u | None \<Rightarrow> owner_id t)"

fun task_row_creator_id :: "task_row \<Rightarrow> string option" where
  "task_row_creator_id (Task_Row t) = creator_id_of t"
| "task_row_creator_id (Agent_Row a) = started_by a"

definition task_time :: "task_summary \<Rightarrow> task_order \<Rightarrow> int" where
  "task_time t order = (if order = Created then created_at t
     else max (updated_at t) (case activity_at t of Some a \<Rightarrow> a | None \<Rightarrow> 0))"

fun task_row_time :: "task_row \<Rightarrow> int" where
  "task_row_time (Task_Row t) = task_time t Updated"
| "task_row_time (Agent_Row a) = agent_activity_at a"

subsection \<open>Groups\<close>

text \<open>\<open>toSorted\<close> keeps equal rows in their order, as \<open>sort_key\<close> does.\<close>

definition order_task_rows :: "task_row list \<Rightarrow> task_row list" where
  "order_task_rows rows = sort_key (\<lambda>r. - task_row_time r) rows"

definition grouped :: "task_row list \<Rightarrow> (task_row \<Rightarrow> 'k) \<Rightarrow> ('k, task_row list) js_map" where
  "grouped rows key_of = fold (\<lambda>row groups.
     AList.update (key_of row) (case map_of groups (key_of row) of None \<Rightarrow> [row] | Some g \<Rightarrow> g @ [row]) groups) rows []"

definition latest :: "task_row list \<Rightarrow> int" where
  "latest rows = Max (set (map task_row_time rows))"

type_synonym repository_group = "string option \<times> task_row list"

definition repository_groups :: "task_row list \<Rightarrow> repository_group list" where
  "repository_groups rows = sort_key (\<lambda>(repository, members). (repository = None, if repository = None then 0 else - latest members))
     (grouped (order_task_rows rows) task_row_repository)"

text \<open>A repository's owner and name, split at its first slash.\<close>

definition repository_parts :: "string \<Rightarrow> string option \<times> string" where
  "repository_parts repository = (case find_index (\<lambda>c. c = CHR ''/'') repository of
     Some slash \<Rightarrow> if slash = 0 then (None, repository) else (Some (take slash repository), drop (slash + 1) repository)
   | None \<Rightarrow> (None, repository))"

definition name_of :: "string \<Rightarrow> string" where
  "name_of repository = snd (repository_parts repository)"

definition repository_label :: "string \<Rightarrow> string option list \<Rightarrow> string" where
  "repository_label repository groups =
     (if \<exists>g \<in> set groups. (case g of Some other \<Rightarrow> other \<noteq> repository \<and> name_of other = name_of repository | None \<Rightarrow> False)
      then repository else name_of repository)"

subsection \<open>Filters\<close>

definition created_by_only :: "task_summary list \<Rightarrow> string option \<Rightarrow> task_summary list" where
  "created_by_only tasks who = (case who of None \<Rightarrow> tasks | Some u \<Rightarrow> filter (\<lambda>t. creator_id_of t = Some u) tasks)"

fun task_row_assignee_id :: "task_row \<Rightarrow> string option" where
  "task_row_assignee_id (Task_Row t) = assignee t"
| "task_row_assignee_id (Agent_Row a) = started_by a"

definition task_rows_assigned_to :: "task_row list \<Rightarrow> assigned_to \<Rightarrow> string option \<Rightarrow> task_row list" where
  "task_rows_assigned_to rows assigned reader = (case assigned of
     Anyone \<Rightarrow> rows
   | Member u \<Rightarrow> filter (\<lambda>r. task_row_assignee_id r = Some u) rows
   | Me \<Rightarrow> (case reader of None \<Rightarrow> rows
       | Some me \<Rightarrow> filter (\<lambda>r. case task_row_assignee_id r of
            None \<Rightarrow> task_row_creator_id r = Some me
          | Some u \<Rightarrow> u = me) rows))"

fun task_row_status :: "task_row \<Rightarrow> task_status option" where
  "task_row_status (Task_Row t) = task_status t"
| "task_row_status (Agent_Row _) = None"

definition task_row_in_statuses :: "task_row \<Rightarrow> task_status list \<Rightarrow> string set \<Rightarrow> bool" where
  "task_row_in_statuses row statuses open_parents \<longleftrightarrow>
     (case task_row_status row of None \<Rightarrow> True | Some s \<Rightarrow> s \<in> set statuses) \<or>
     (case row of Task_Row t \<Rightarrow> task_id t \<in> open_parents | Agent_Row _ \<Rightarrow> False)"

definition task_rows_in_statuses :: "task_row list \<Rightarrow> task_status list \<Rightarrow> string set \<Rightarrow> task_row list" where
  "task_rows_in_statuses rows statuses open_parents = filter (\<lambda>r. task_row_in_statuses r statuses open_parents) rows"

definition hidden_statuses :: "task_row list \<Rightarrow> task_status list \<Rightarrow> string set \<Rightarrow> (task_status \<times> nat) list" where
  "hidden_statuses rows statuses open_parents =
     (let hidden = filter (\<lambda>r. \<not> task_row_in_statuses r statuses open_parents) rows
      in concat (map (\<lambda>s. if s \<in> set statuses then []
           else let n = length (filter (\<lambda>r. task_row_status r = Some s) hidden)
                in if n = 0 then [] else [(s, n)]) task_status_order))"

subsection \<open>Child tasks under their parents\<close>

record drawn_task_row =
  drawn_row :: task_row
  depth :: nat
  opened_under :: "bool option"

datatype task_row_node = Row_Node (node_row: task_row) (node_children: "task_row_node list")

definition held_tasks :: "task_row list \<Rightarrow> string set" where
  "held_tasks rows = set (concat (map (\<lambda>r. case r of Task_Row t \<Rightarrow> [task_id t] | Agent_Row _ \<Rightarrow> []) rows))"

definition parent_in :: "task_row \<Rightarrow> string set \<Rightarrow> string option" where
  "parent_in row held = (case row of
     Agent_Row _ \<Rightarrow> None
   | Task_Row t \<Rightarrow> if pinned_at t \<noteq> None then None
       else (case parent_task_id t of
         Some p \<Rightarrow> if p \<noteq> task_id t \<and> p \<in> held then Some p else None
       | None \<Rightarrow> None))"

text \<open>The rows at the top, and the rows under each parent.\<close>

definition rows_by_parent :: "task_row list \<Rightarrow> task_row list \<times> (string, task_row list) js_map" where
  "rows_by_parent rows = fold (\<lambda>row (tops, children_of).
     case parent_in row (held_tasks rows) of
       None \<Rightarrow> (tops @ [row], children_of)
     | Some p \<Rightarrow> (tops, AList.update p ((case map_of children_of p of Some c \<Rightarrow> c | None \<Rightarrow> []) @ [row]) children_of))
     rows ([], [])"

definition rows_under :: "(string, task_row list) js_map \<Rightarrow> task_row \<Rightarrow> task_row list" where
  "rows_under children_of row = (case row of
     Task_Row t \<Rightarrow> (case map_of children_of (task_id t) of Some c \<Rightarrow> c | None \<Rightarrow> [])
   | Agent_Row _ \<Rightarrow> [])"

text \<open>
  \<open>node\<close> over one row and over a list of rows, with the keys reached so far handed on. A node is never
  deeper than the rows are many, which is the fuel.
\<close>

function (sequential)
  node_from :: "nat \<Rightarrow> (string, task_row list) js_map \<Rightarrow> task_row \<Rightarrow> string set \<Rightarrow> task_row_node \<times> string set" and
  nodes_from :: "nat \<Rightarrow> (string, task_row list) js_map \<Rightarrow> task_row list \<Rightarrow> string set \<Rightarrow> task_row_node list \<times> string set"
where
  "node_from 0 children_of row reached = (Row_Node row [], insert (task_row_key row) reached)"
| "node_from (Suc fuel) children_of row reached =
     (let reached = insert (task_row_key row) reached;
          (children, reached) = nodes_from fuel children_of
            (filter (\<lambda>child. task_row_key child \<notin> reached) (rows_under children_of row)) reached
      in (Row_Node row children, reached))"
| "nodes_from fuel children_of [] reached = ([], reached)"
| "nodes_from fuel children_of (row # rows) reached =
     (let (node, reached) = node_from fuel children_of row reached;
          (nodes, reached) = nodes_from fuel children_of rows reached
      in (node # nodes, reached))"
  by pat_completeness auto
termination
  by (relation "measures [\<lambda>x. case x of Inl (n, _) \<Rightarrow> n | Inr (n, _) \<Rightarrow> n,
       \<lambda>x. case x of Inl _ \<Rightarrow> 0 | Inr (_, _, rows, _) \<Rightarrow> Suc (length rows)]") auto

text \<open>The rows no top reaches, a loop of parents, each stood at the top where its loop is cut.\<close>

fun loops_from :: "nat \<Rightarrow> (string, task_row list) js_map \<Rightarrow> task_row list \<Rightarrow> string set \<Rightarrow> task_row_node list" where
  "loops_from fuel children_of [] reached = []"
| "loops_from fuel children_of (row # rows) reached =
     (if task_row_key row \<in> reached then loops_from fuel children_of rows reached
      else let (node, reached) = node_from fuel children_of row reached
           in node # loops_from fuel children_of rows reached)"

definition task_row_tree :: "task_row list \<Rightarrow> task_row_node list" where
  "task_row_tree rows =
     (let (tops, children_of) = rows_by_parent rows;
          (tree, reached) = nodes_from (length rows) children_of tops {}
      in tree @ loops_from (length rows) children_of rows reached)"

fun holds_standing :: "(task_row \<Rightarrow> bool) \<Rightarrow> task_row_node \<Rightarrow> bool" where
  "holds_standing standing (Row_Node row children) \<longleftrightarrow>
     standing row \<or> (\<exists>child \<in> set children. holds_standing standing child)"

definition open_of :: "(string \<Rightarrow> bool) \<Rightarrow> task_row \<Rightarrow> task_row_node list \<Rightarrow> bool option" where
  "open_of opened row children = (case row of
     Task_Row t \<Rightarrow> if children = [] then None else Some (opened (task_id t))
   | Agent_Row _ \<Rightarrow> None)"

text \<open>A row, then the rows under it, those a fold shuts left out unless they hold one standing.\<close>

fun draw_node :: "(string \<Rightarrow> bool) \<Rightarrow> (task_row \<Rightarrow> bool) \<Rightarrow> nat \<Rightarrow> task_row_node \<Rightarrow> drawn_task_row list" where
  "draw_node opened standing d (Row_Node row children) =
     (let open = open_of opened row children
      in \<lparr>drawn_row = row, depth = d, opened_under = open\<rparr> #
         concat (map (\<lambda>child. if open = Some False \<and> \<not> holds_standing standing child then []
                              else draw_node opened standing (d + 1) child) children))"

definition drawn_task_rows :: "task_row list \<Rightarrow> (string \<Rightarrow> bool) \<Rightarrow> (task_row \<Rightarrow> bool) \<Rightarrow> drawn_task_row list" where
  "drawn_task_rows rows opened standing = concat (map (draw_node opened standing 0) (task_row_tree rows))"

subsection \<open>The list each row is drawn in\<close>

text \<open>
  The first row of each task with the list it stands in: \<open>listOf\<close> and \<open>byId\<close> together, as they are
  set together.
\<close>

definition first_tasks :: "task_row list list \<Rightarrow> (task_summary \<times> nat) list" where
  "first_tasks runs = fold (\<lambda>(rows, n) firsts. fold (\<lambda>row firsts. case row of
       Agent_Row _ \<Rightarrow> firsts
     | Task_Row t \<Rightarrow> if task_id t \<in> set (map (\<lambda>(t, _). task_id t) firsts) then firsts else firsts @ [(t, n)]) rows firsts)
     (zip runs [0..<length runs]) []"

definition task_by_id :: "(task_summary \<times> nat) list \<Rightarrow> string \<Rightarrow> (task_summary \<times> nat) option" where
  "task_by_id firsts k = List.find (\<lambda>(t, _). task_id t = k) firsts"

lemma task_by_id_Some: "task_by_id firsts k = Some (t, n) \<Longrightarrow> task_id t = k \<and> (t, n) \<in> set firsts"
  by (auto simp: task_by_id_def dest: find_SomeD)

text \<open>The ids a walk has not come by.\<close>

definition ids_left :: "(task_summary \<times> nat) list \<Rightarrow> string set \<Rightarrow> nat" where
  "ids_left firsts walked = card (set (map (\<lambda>(t, _). task_id t) firsts) - walked)"

lemma ids_left_less:
  assumes "(t, n) \<in> set firsts" "task_id t \<notin> walked"
  shows "ids_left firsts (insert (task_id t) walked) < ids_left firsts walked"
proof -
  let ?ids = "set (map (\<lambda>(t, _). task_id t) firsts)"
  have "task_id t \<in> ?ids" unfolding set_map by (rule image_eqI [OF _ assms(1)]) simp
  then have "task_id t \<in> ?ids - walked" using assms(2) by blast
  then have "card (?ids - walked - {task_id t}) < card (?ids - walked)" by (intro card_Diff1_less) simp_all
  then show ?thesis unfolding ids_left_def by (simp only: Diff_insert [symmetric])
qed

text \<open>The walk up a task's parents, which ends where a loop of them closes: none where an ancestor is in no list.\<close>

function home_walk :: "(task_summary \<times> nat) list \<Rightarrow> task_summary \<Rightarrow> string set \<Rightarrow> task_summary option" where
  "home_walk firsts t walked = (if pinned_at t \<noteq> None then Some t
     else case parent_task_id t of
       None \<Rightarrow> Some t
     | Some p \<Rightarrow> (case task_by_id firsts p of
         None \<Rightarrow> None
       | Some (parent, _) \<Rightarrow> if task_id parent \<in> walked then Some t
           else home_walk firsts parent (insert (task_id parent) walked)))"
  by pat_completeness auto
termination
proof (relation "measure (\<lambda>(firsts, _, walked). ids_left firsts walked)")
  fix firsts :: "(task_summary \<times> nat) list" and t parent :: task_summary and walked p x n
  assume "task_by_id firsts p = Some x" "(parent, n) = x" "task_id parent \<notin> walked"
  then show "((firsts, parent, insert (task_id parent) walked), firsts, t, walked)
      \<in> measure (\<lambda>(firsts, _, walked). ids_left firsts walked)"
    using task_by_id_Some [of firsts p parent n] ids_left_less [of parent n firsts walked] by simp
qed (rule wf_measure)

declare home_walk.simps [simp del]

definition home_of :: "(task_summary \<times> nat) list \<Rightarrow> task_row \<Rightarrow> nat \<Rightarrow> nat option" where
  "home_of firsts row n = (case row of
     Agent_Row _ \<Rightarrow> Some n
   | Task_Row t \<Rightarrow> (case home_walk firsts t {task_id t} of
       None \<Rightarrow> None
     | Some at \<Rightarrow> map_option snd (task_by_id firsts (task_id at))))"

definition homed_task_rows :: "task_row list list \<Rightarrow> task_row list list" where
  "homed_task_rows runs =
     (let firsts = first_tasks runs;
          homed = map (\<lambda>(rows, n). map (\<lambda>row. (row, home_of firsts row n)) rows) (zip runs [0..<length runs])
      in map (\<lambda>n. map fst (filter (\<lambda>(_, home). home = Some n) (homed ! n)) @
           concat (map (\<lambda>from_list. if from_list = n then []
             else map fst (filter (\<lambda>(_, home). home = Some n) (homed ! from_list))) [0..<length runs]))
         [0..<length runs])"

subsection \<open>Counts of child tasks\<close>

definition task_finished :: "task_summary \<Rightarrow> bool" where
  "task_finished t \<longleftrightarrow> task_status t = Some Done_Status \<or> task_status t = Some Canceled"

definition sub_tasks_of :: "task_summary list \<Rightarrow> string \<Rightarrow> task_summary list" where
  "sub_tasks_of tasks parent =
     sort_key created_at (filter (\<lambda>t. parent_task_id t = Some parent \<and> task_id t \<noteq> parent) tasks)"

definition sub_task_count :: "task_summary list \<Rightarrow> nat \<times> nat" where
  "sub_task_count tasks = (length (filter task_finished tasks), length tasks)"

definition child_task_counts :: "task_summary list \<Rightarrow> (string, nat \<times> nat) js_map" where
  "child_task_counts tasks = fold (\<lambda>t counts. case parent_task_id t of
     None \<Rightarrow> counts
   | Some p \<Rightarrow> if p = task_id t then counts
       else let (finished, total) = (case map_of counts p of Some was \<Rightarrow> was | None \<Rightarrow> (0, 0))
            in AList.update p (finished + (if task_finished t then 1 else 0), total + 1) counts) tasks []"

text \<open>\<open>new Map(tasks.map(...))\<close>: the last task of an id is the one it answers.\<close>

definition task_of_id :: "task_summary list \<Rightarrow> string \<Rightarrow> task_summary option" where
  "task_of_id tasks k = find_last (\<lambda>t. task_id t = k) tasks"

function open_above :: "task_summary list \<Rightarrow> string \<Rightarrow> string option \<Rightarrow> string set \<Rightarrow> string set" where
  "open_above tasks own None reached = reached"
| "open_above tasks own (Some p) reached =
     (if p = own \<or> p \<in> reached then reached
      else open_above tasks own (case task_of_id tasks p of Some t \<Rightarrow> parent_task_id t | None \<Rightarrow> None) (insert p reached))"
  by pat_completeness auto
termination
proof (relation "measure (\<lambda>(tasks, _, next, reached).
    case next of None \<Rightarrow> 0 | Some _ \<Rightarrow> Suc (card (set (map task_id tasks) - reached)))")
  fix tasks :: "task_summary list" and own p :: string and reached :: "string set"
  assume new: "\<not> (p = own \<or> p \<in> reached)"
  let ?m = "\<lambda>reached. card (set (map task_id tasks) - reached)"
  show "((tasks, own, case task_of_id tasks p of Some t \<Rightarrow> parent_task_id t | None \<Rightarrow> None, insert p reached),
      tasks, own, Some p, reached) \<in> measure (\<lambda>(tasks, _, next, reached).
    case next of None \<Rightarrow> 0 | Some _ \<Rightarrow> Suc (card (set (map task_id tasks) - reached)))"
  proof (cases "task_of_id tasks p")
    case (Some t)
    then have "t \<in> set tasks \<and> task_id t = p" using find_last_Some by (fastforce simp: task_of_id_def)
    then have "p \<in> set (map task_id tasks) - reached" using new by auto
    then have "card (set (map task_id tasks) - reached - {p}) < ?m reached" by (intro card_Diff1_less) simp_all
    then have "?m (insert p reached) < ?m reached" by (simp only: Diff_insert [symmetric])
    then show ?thesis by (simp add: Some split: option.splits)
  qed simp
qed simp

definition open_parent_ids :: "task_summary list \<Rightarrow> task_status list \<Rightarrow> string set" where
  "open_parent_ids tasks statuses = fold (\<lambda>t reached.
     if (case task_status t of Some s \<Rightarrow> s \<notin> set statuses | None \<Rightarrow> False) then reached
     else open_above tasks (task_id t) (parent_task_id t) reached) tasks {}"

subsection \<open>The nesting read back from the rows drawn\<close>

text \<open>
  \<open>parentsOf\<close>: the rows last drawn at each depth down to the one before, and each row's parent among
  them. An index JavaScript leaves empty as it sets one past the end is \<open>None\<close>.
\<close>

fun parents_from :: "nat \<Rightarrow> nat option list \<Rightarrow> nat list \<Rightarrow> int list" where
  "parents_from n path [] = []"
| "parents_from n path (d # ds) =
     (if d = 0 then -1 else case nth_opt path (int d - 1) of Some (Some p) \<Rightarrow> int p | _ \<Rightarrow> -1) #
     parents_from (Suc n) (take d (path @ replicate (d - length path) None) @ [Some n]) ds"

definition parents_of :: "nat list \<Rightarrow> int list" where
  "parents_of nested = parents_from 0 [] nested"

definition siblings_at :: "nat list \<Rightarrow> nat \<Rightarrow> nat list" where
  "siblings_at nested n =
     (let parents = parents_of nested
      in filter (\<lambda>each. Some (parents ! each) = nth_opt parents (int n)) [0..<length nested])"

definition nests_of :: "nat list \<Rightarrow> (nat \<times> nat) option list" where
  "nests_of nested =
     (if list_all (\<lambda>d. d = 0) nested then map (\<lambda>_. None) nested
      else let parents = parents_of nested;
               (positions, sizes) = fold (\<lambda>p (positions, sizes).
                 let position = (case map_of sizes p of Some n \<Rightarrow> n | None \<Rightarrow> 0) + 1
                 in (positions @ [position], AList.update p position sizes)) parents ([], [] :: (int, nat) js_map)
           in map (\<lambda>(p, position). Some (position, case map_of sizes p of Some n \<Rightarrow> n | None \<Rightarrow> 1)) (zip parents positions))"

definition listed_slot :: "bool list \<Rightarrow> nat \<Rightarrow> nat \<Rightarrow> nat" where
  "listed_slot leaving from_slot to_slot =
     (let before = (if to_slot > from_slot then take (to_slot + 1) leaving else take to_slot leaving)
      in length (filter (\<lambda>n. \<not> before ! n \<and> n \<noteq> from_slot) [0..<length before]))"

definition moved_beside :: "nat list \<Rightarrow> nat \<Rightarrow> nat \<Rightarrow> nat option" where
  "moved_beside nested from_row to_row =
     (let siblings = siblings_at nested from_row;
          own = find_index (\<lambda>e. e = from_row) siblings;
          up_to = length (takeWhile (\<lambda>e. e \<le> to_row) siblings)
      in if up_to = 0 then None
         else let reached = up_to - 1;
                  beside = (if Some reached = own \<and> to_row > from_row then reached + 1 else reached)
              in if Some beside = own then None else nth_opt siblings (int beside))"

definition stored_slot :: "task_row list \<Rightarrow> drawn_task_row list \<Rightarrow> nat \<Rightarrow> nat option" where
  "stored_slot rows nested n = (case List.find (\<lambda>e. depth e = 0) (drop n nested) of
     None \<Rightarrow> Some (length rows)
   | Some e \<Rightarrow> find_index (\<lambda>row. row = drawn_row e) rows)"

text \<open>A task of an id and a parent, and nothing else of note.\<close>

definition plain_task :: "string \<Rightarrow> string option \<Rightarrow> task_summary" where
  "plain_task k parent = \<lparr>task_id = k, task_name = k, task_repository = None, created_by = None, owner_id = None,
     created_at = 0, updated_at = 0, activity_at = None, assignee = None, task_status = None, pinned_at = None,
     parent_task_id = parent\<rparr>"

end
