(* ===== verification/Task_List_Properties.thy ===== *)
theory Task_List_Properties
  imports Task_List "HOL-Library.Sublist"
begin

text \<open>
  What the nesting of the task list (\<open>Task_List\<close>) keeps: no row is lost or stands twice, whatever loop
  its parents make; the open task is never folded away; the nesting read back from the rows drawn is
  the one they were drawn by; and a child task is in the list that holds its parent.
\<close>

subsection \<open>Rows by their parent\<close>

definition under :: "string set \<Rightarrow> task_row list \<Rightarrow> string \<Rightarrow> task_row list" where
  "under held rows p = filter (\<lambda>r. parent_in r held = Some p) rows"

lemma rows_by_parent_fold:
  fixes rows :: "task_row list" and held :: "string set"
  defines "step \<equiv> \<lambda>row (tops, children_of). case parent_in row held of
       None \<Rightarrow> (tops @ [row], children_of)
     | Some p \<Rightarrow> (tops, AList.update p ((case map_of children_of p of Some c \<Rightarrow> c | None \<Rightarrow> []) @ [row]) children_of)"
  shows "fst (fold step rows ([], [])) = filter (\<lambda>r. parent_in r held = None) rows \<and>
    (\<forall>p. (case map_of (snd (fold step rows ([], []))) p of Some c \<Rightarrow> c | None \<Rightarrow> []) = under held rows p)"
proof (induction rows rule: rev_induct)
  case Nil
  then show ?case by (simp add: under_def)
next
  case (snoc row rows)
  obtain tops children_of where so_far: "fold step rows ([], []) = (tops, children_of)" by fastforce
  have ih: "tops = filter (\<lambda>r. parent_in r held = None) rows"
      "(case map_of children_of p of Some c \<Rightarrow> c | None \<Rightarrow> []) = under held rows p" for p
    using snoc so_far by simp_all
  show ?case
  proof (cases "parent_in row held")
    case None
    then have "fold step (rows @ [row]) ([], []) = (tops @ [row], children_of)"
      by (simp add: so_far) (simp add: step_def)
    then show ?thesis using None ih by (simp add: under_def)
  next
    case (Some q)
    have "fold step (rows @ [row]) ([], []) = (tops, AList.update q (under held rows q @ [row]) children_of)"
      using Some ih(2) [of q] by (simp add: so_far) (simp add: step_def)
    then show ?thesis using Some ih by (auto simp: under_def)
  qed
qed

lemma rows_by_parent_tops: "fst (rows_by_parent rows) = filter (\<lambda>r. parent_in r (held_tasks rows) = None) rows"
  unfolding rows_by_parent_def using rows_by_parent_fold [of "held_tasks rows" rows] by simp

lemma rows_under_task:
  "rows_under (snd (rows_by_parent rows)) (Task_Row t) = under (held_tasks rows) rows (task_id t)"
  unfolding rows_by_parent_def rows_under_def using rows_by_parent_fold [of "held_tasks rows" rows] by simp

lemma rows_under_agent [simp]: "rows_under m (Agent_Row a) = []"
  by (simp add: rows_under_def)

subsection \<open>Trees\<close>

fun flat :: "task_row_node \<Rightarrow> task_row list" where
  "flat (Row_Node row children) = row # concat (map flat children)"

abbreviation flats :: "task_row_node list \<Rightarrow> task_row list" where
  "flats ts \<equiv> concat (map flat ts)"

lemma node_row_flat: "node_row t \<in> set (flat t)"
  by (cases t) simp

lemma node_rows_flats: "set (map node_row ts) \<subseteq> set (flats ts)"
  using node_row_flat by force

text \<open>Every row of \<open>U\<close> has its own key and stands under one row at most.\<close>

definition well_nested :: "task_row set \<Rightarrow> (string, task_row list) js_map \<Rightarrow> bool" where
  "well_nested U m \<longleftrightarrow> finite U \<and> inj_on task_row_key U \<and>
     (\<forall>p \<in> U. set (rows_under m p) \<subseteq> U \<and> distinct (rows_under m p)) \<and>
     (\<forall>p \<in> U. \<forall>q \<in> U. \<forall>r. r \<in> set (rows_under m p) \<longrightarrow> r \<in> set (rows_under m q) \<longrightarrow> p = q)"

lemma well_nested_rows:
  assumes "distinct (map task_row_key rows)"
  shows "well_nested (set rows) (snd (rows_by_parent rows))"
proof -
  let ?m = "snd (rows_by_parent rows)" and ?H = "held_tasks rows"
  have under_set: "set (rows_under ?m p) = (case p of Task_Row t \<Rightarrow> {r \<in> set rows. parent_in r ?H = Some (task_id t)} | Agent_Row _ \<Rightarrow> {})" for p
    by (cases p) (auto simp: rows_under_task under_def)
  have inj: "inj_on task_row_key (set rows)" using assms by (simp add: distinct_map)
  have "distinct (rows_under ?m p)" for p
    using assms by (cases p) (auto simp: rows_under_task under_def distinct_map)
  moreover have "p = q" if "p \<in> set rows" "q \<in> set rows" "r \<in> set (rows_under ?m p)" "r \<in> set (rows_under ?m q)" for p q r
  proof -
    have "task_row_key p = task_row_key q" using that(3,4) by (auto simp: under_set split: task_row.splits)
    then show ?thesis using inj that(1,2) by (auto dest: inj_onD)
  qed
  ultimately show ?thesis using inj unfolding well_nested_def by (auto simp: under_set split: task_row.splits)
qed

text \<open>What growing trees from rows comes to: each row at its root, nothing reached twice, all beneath.\<close>

definition grown :: "task_row set \<Rightarrow> (string, task_row list) js_map \<Rightarrow> string set \<Rightarrow> task_row list \<Rightarrow> task_row_node list \<Rightarrow> string set \<Rightarrow> bool" where
  "grown U m reached rs ts reached' \<longleftrightarrow> map node_row ts = rs \<and>
     reached' = reached \<union> task_row_key ` set (flats ts) \<and>
     distinct (flats ts) \<and> set (flats ts) \<subseteq> U \<and> task_row_key ` set (flats ts) \<inter> reached = {} \<and>
     (\<forall>r \<in> set (flats ts). r \<notin> set rs \<longrightarrow> (\<exists>p \<in> set (flats ts). r \<in> set (rows_under m p))) \<and>
     (\<forall>p \<in> set (flats ts). \<forall>r \<in> set (rows_under m p). task_row_key r \<in> reached')"

lemma grownD:
  assumes "grown U m reached rs ts reached'"
  shows "map node_row ts = rs" "reached' = reached \<union> task_row_key ` set (flats ts)" "distinct (flats ts)"
    "set (flats ts) \<subseteq> U" "task_row_key ` set (flats ts) \<inter> reached = {}"
    "\<And>r. r \<in> set (flats ts) \<Longrightarrow> r \<notin> set rs \<Longrightarrow> \<exists>p \<in> set (flats ts). r \<in> set (rows_under m p)"
    "\<And>p r. p \<in> set (flats ts) \<Longrightarrow> r \<in> set (rows_under m p) \<Longrightarrow> task_row_key r \<in> reached'"
  using assms unfolding grown_def by blast+

lemma grown_fresh: "grown U m reached rs ts reached' \<Longrightarrow> r \<in> set (flats ts) \<Longrightarrow> task_row_key r \<notin> reached"
  using grownD(5) by blast

lemma grown_reaches: "grown U m reached rs ts reached' \<Longrightarrow> r \<in> set (flats ts) \<Longrightarrow> task_row_key r \<in> reached'"
  using grownD(2) by blast

lemma grown_roots: "grown U m reached rs ts reached' \<Longrightarrow> set rs \<subseteq> set (flats ts)"
  using grownD(1) node_rows_flats by blast

definition left_of :: "task_row set \<Rightarrow> string set \<Rightarrow> nat" where
  "left_of U reached = card (task_row_key ` U - reached)"

lemma left_of_mono: "finite U \<Longrightarrow> reached \<subseteq> reached' \<Longrightarrow> left_of U reached' \<le> left_of U reached"
  unfolding left_of_def by (rule card_mono) auto

lemma left_of_less:
  assumes "finite U" "row \<in> U" "task_row_key row \<notin> reached"
  shows "left_of U (insert (task_row_key row) reached) < left_of U reached"
proof -
  have "task_row_key row \<in> task_row_key ` U - reached" using assms by blast
  then have "card (task_row_key ` U - reached - {task_row_key row}) < left_of U reached"
    unfolding left_of_def using assms(1) by (intro card_Diff1_less) simp_all
  then show ?thesis unfolding left_of_def by (simp only: Diff_insert [symmetric])
qed

lemma grown_node:
  assumes ok: "well_nested U m" and row: "row \<in> U" "task_row_key row \<notin> reached"
    and kids: "grown U m (insert (task_row_key row) reached)
      (filter (\<lambda>c. task_row_key c \<notin> insert (task_row_key row) reached) (rows_under m row)) ts reached'"
  shows "grown U m reached [row] [Row_Node row ts] reached'"
proof -
  let ?r1 = "insert (task_row_key row) reached"
  let ?kids = "filter (\<lambda>c. task_row_key c \<notin> ?r1) (rows_under m row)"
  note kid = grownD [OF kids]
  have new: "row \<notin> set (flats ts)" using grown_fresh [OF kids] by blast
  have parent: "\<exists>p \<in> insert row (set (flats ts)). r \<in> set (rows_under m p)" if "r \<in> set (flats ts)" for r
  proof (cases "r \<in> set ?kids")
    case False
    then show ?thesis using kid(6) [OF that] by blast
  qed simp
  have beneath: "task_row_key r \<in> reached'" if "p \<in> insert row (set (flats ts))" "r \<in> set (rows_under m p)" for p r
  proof (cases "p = row")
    case True
    then have "r \<in> set ?kids \<or> task_row_key r \<in> ?r1" using that(2) by auto
    then show ?thesis using grown_roots [OF kids] grown_reaches [OF kids] kid(2) by blast
  next
    case False
    then show ?thesis using kid(7) that by blast
  qed
  have "reached' = reached \<union> task_row_key ` insert row (set (flats ts))" using kid(2) by simp
  moreover have "task_row_key ` insert row (set (flats ts)) \<inter> reached = {}" using row(2) kid(5) by blast
  ultimately show ?thesis
    using new parent beneath kid(3,4) row(1) by (simp add: grown_def)
qed

lemma grown_append:
  assumes ok: "well_nested U m" and first: "grown U m reached [row] [t] reached1" and rest: "grown U m reached1 rows ts reached2"
  shows "grown U m reached (row # rows) (t # ts) reached2"
proof -
  note one = grownD [OF first] and more = grownD [OF rest]
  have "set (flat t) \<inter> set (flats ts) = {}"
    using grown_reaches [OF first] grown_fresh [OF rest] by auto
  then have "distinct (flat t @ flats ts)" using one(3) more(3) by simp
  moreover have "\<exists>p \<in> set (flat t) \<union> set (flats ts). r \<in> set (rows_under m p)"
    if "r \<in> set (flat t) \<union> set (flats ts)" "r \<notin> set (row # rows)" for r
    using that one(6) [of r] more(6) [of r] by auto
  moreover have "task_row_key r \<in> reached2" if "p \<in> set (flat t) \<union> set (flats ts)" "r \<in> set (rows_under m p)" for p r
    using that one(7) [of p r] more(2) more(7) [of p r] by auto
  moreover have "reached2 = reached \<union> task_row_key ` (set (flat t) \<union> set (flats ts))"
    using one(2) more(2) by (simp add: image_Un Un_assoc)
  moreover have "task_row_key ` (set (flat t) \<union> set (flats ts)) \<inter> reached = {}"
    using one(2,5) more(5) by (simp add: image_Un) blast
  ultimately show ?thesis using one(1,4) more(1,4) by (simp add: grown_def)
qed

lemma node_nodes_grow:
  fixes m :: "(string, task_row list) js_map"
  assumes ok: "well_nested U m"
  shows "row \<in> U \<Longrightarrow> task_row_key row \<notin> reached \<Longrightarrow> left_of U reached \<le> n \<Longrightarrow> m' = m \<Longrightarrow>
      node_from n m' row reached = (t, reached') \<Longrightarrow> grown U m reached [row] [t] reached'"
    and "set rows \<subseteq> U \<Longrightarrow> distinct rows \<Longrightarrow> \<forall>r \<in> set rows. task_row_key r \<notin> reached \<Longrightarrow> left_of U reached \<le> n \<Longrightarrow>
      \<forall>r \<in> set rows. \<forall>p \<in> U. r \<in> set (rows_under m p) \<longrightarrow> task_row_key p \<in> reached \<Longrightarrow> m' = m \<Longrightarrow>
      nodes_from n m' rows reached = (ts, reached') \<Longrightarrow> grown U m reached rows ts reached'"
proof (induction n m' row reached and n m' rows reached arbitrary: t reached' and ts reached' rule: node_from_nodes_from.induct)
  case (1 m' row reached)
  then show ?case using left_of_less [of U row reached] ok by (simp add: well_nested_def)
next
  case (2 n m' row reached)
  let ?r1 = "insert (task_row_key row) reached"
  let ?kids = "filter (\<lambda>c. task_row_key c \<notin> ?r1) (rows_under m row)"
  obtain ts where ts: "nodes_from n m ?kids ?r1 = (ts, reached')" "t = Row_Node row ts"
    using "2.prems"(4,5) by (auto simp: Let_def split: prod.splits)
  have m': "m' = m" by (rule "2.prems"(4))
  have kids: "set ?kids \<subseteq> U" "distinct ?kids"
    using ok "2.prems"(1) by (auto simp: well_nested_def)
  have fuel: "left_of U ?r1 \<le> n" using left_of_less [of U row reached] ok "2.prems"(1-3) by (simp add: well_nested_def)
  have alone: "\<forall>r \<in> set ?kids. \<forall>p \<in> U. r \<in> set (rows_under m p) \<longrightarrow> task_row_key p \<in> ?r1"
    using ok "2.prems"(1) unfolding well_nested_def by (metis filter_is_subset insertI1 subsetD)
  note IH = "2.IH" [OF refl, unfolded m']
  have "\<forall>r \<in> set ?kids. task_row_key r \<notin> ?r1" by simp
  then have "grown U m ?r1 ?kids ts reached'" by (rule IH [OF kids _ fuel alone refl ts(1)])
  then show ?case unfolding ts(2) by (rule grown_node [OF ok "2.prems"(1,2)])
next
  case (3 n m' reached)
  then show ?case by (simp add: grown_def)
next
  case (4 n m' row rows reached)
  obtain t reached1 ts' where t: "node_from n m row reached = (t, reached1)"
      and ts: "nodes_from n m rows reached1 = (ts', reached')" "ts = t # ts'"
    using "4.prems"(6,7) by (auto simp: Let_def split: prod.splits)
  have head: "row \<in> U" "task_row_key row \<notin> reached" using "4.prems"(1,3) by simp_all
  have m': "m' = m" by (rule "4.prems"(6))
  note IH = "4.IH" [unfolded m']
  have first: "grown U m reached [row] [t] reached1" by (rule IH(1) [OF head "4.prems"(4) refl t])
  have r1: "reached1 = reached \<union> task_row_key ` set (flat t)" "set (flat t) \<subseteq> U" using grownD(2,4) [OF first] by simp_all
  have fresh: "task_row_key r \<notin> reached1" if r: "r \<in> set rows" for r
  proof
    assume "task_row_key r \<in> reached1"
    moreover have here: "task_row_key r \<notin> reached" "r \<in> U" "r \<noteq> row" using "4.prems"(1-3) r by auto
    ultimately obtain r' where r': "r' \<in> set (flat t)" "task_row_key r = task_row_key r'" using r1(1) by blast
    then have "r = r'" using ok here(2) r1(2) unfolding well_nested_def by (meson inj_onD subsetD)
    then obtain p where "p \<in> set (flat t)" "r \<in> set (rows_under m p)"
      using grownD(6) [OF first, of r] r'(1) here(3) by auto
    then show False using "4.prems"(5) r r1(2) grown_fresh [OF first, of p] by auto
  qed
  have "reached \<subseteq> reached1" "finite U" using r1 ok by (auto simp: well_nested_def)
  then have fuel: "left_of U reached1 \<le> n" using left_of_mono "4.prems"(4) order_trans by metis
  have "\<forall>r \<in> set rows. \<forall>p \<in> U. r \<in> set (rows_under m p) \<longrightarrow> task_row_key p \<in> reached1"
    using "4.prems"(5) r1(1) by simp
  moreover have "\<forall>r \<in> set rows. task_row_key r \<notin> reached1" "set rows \<subseteq> U" "distinct rows"
    using fresh "4.prems"(1,2) by simp_all
  ultimately have "grown U m reached1 rows ts' reached'"
    using IH(2) [OF t [symmetric] refl _ _ _ fuel _ refl ts(1)] by blast
  then show ?case unfolding ts(2) by (rule grown_append [OF ok first])
qed

text \<open>The rows cut out of a loop of parents: nothing reached before, and every row of the list then reached.\<close>

lemma loops_cover:
  assumes ok: "well_nested U m"
  shows "set rows \<subseteq> U \<Longrightarrow> left_of U reached \<le> n \<Longrightarrow>
    distinct (flats (loops_from n m rows reached)) \<and> set (flats (loops_from n m rows reached)) \<subseteq> U \<and>
    task_row_key ` set (flats (loops_from n m rows reached)) \<inter> reached = {} \<and>
    (\<forall>r \<in> set rows. task_row_key r \<in> reached \<union> task_row_key ` set (flats (loops_from n m rows reached)))"
proof (induction rows arbitrary: reached)
  case (Cons row rows)
  show ?case
  proof (cases "task_row_key row \<in> reached")
    case True
    then show ?thesis using Cons by simp
  next
    case False
    obtain t reached1 where t: "node_from n m row reached = (t, reached1)" by fastforce
    let ?rest = "loops_from n m rows reached1"
    have first: "grown U m reached [row] [t] reached1"
      using node_nodes_grow(1) [OF ok _ False Cons.prems(2) refl t] Cons.prems(1) by simp
    note one = grownD [OF first]
    have "finite U" "reached \<subseteq> reached1" using ok one(2) by (auto simp: well_nested_def)
    then have "left_of U reached1 \<le> n" using left_of_mono Cons.prems(2) order_trans by metis
    then have rest: "distinct (flats ?rest)" "set (flats ?rest) \<subseteq> U" "task_row_key ` set (flats ?rest) \<inter> reached1 = {}"
        "\<forall>r \<in> set rows. task_row_key r \<in> reached1 \<union> task_row_key ` set (flats ?rest)"
      using Cons.IH [of reached1] Cons.prems(1) by simp_all
    have here: "loops_from n m (row # rows) reached = t # ?rest" using False t by simp
    have "set (flat t) \<inter> set (flats ?rest) = {}" using grown_reaches [OF first] rest(3) by fastforce
    then have "distinct (flat t @ flats ?rest)" using one(3) rest(1) by simp
    moreover have "task_row_key ` (set (flat t) \<union> set (flats ?rest)) \<inter> reached = {}"
      using one(2,5) rest(3) by (simp add: image_Un) blast
    moreover have "\<forall>r \<in> set (row # rows). task_row_key r \<in> reached \<union> task_row_key ` (set (flat t) \<union> set (flats ?rest))"
      using one(2) rest(4) grown_roots [OF first] by (simp add: image_Un Un_assoc)
    ultimately show ?thesis unfolding here using one(4) rest(2) by simp
  qed
qed simp

lemma task_row_tree_rows:
  assumes keys: "distinct (map task_row_key rows)"
  shows "distinct (flats (task_row_tree rows))" "set (flats (task_row_tree rows)) = set rows"
proof -
  let ?U = "set rows" and ?n = "length rows" and ?H = "held_tasks rows"
  obtain tops m where m: "rows_by_parent rows = (tops, m)" by fastforce
  obtain tree reached where tree: "nodes_from ?n m tops {} = (tree, reached)" by fastforce
  let ?loops = "loops_from ?n m rows reached"
  have ok: "well_nested ?U m" using well_nested_rows [OF keys] m by simp
  have tops: "tops = filter (\<lambda>r. parent_in r ?H = None) rows" using rows_by_parent_tops [of rows] m by simp
  have fuel: "left_of ?U {} \<le> ?n" unfolding left_of_def
    by (metis Diff_empty card_length length_map set_map)
  have child: "parent_in r ?H \<noteq> None" if "r \<in> set (rows_under m p)" for r p
    using that rows_under_task [of rows] m by (cases p) (auto simp: under_def)
  have "parent_in r ?H = None" if "r \<in> set tops" for r using that tops by simp
  then have alone: "\<forall>r \<in> set tops. \<forall>p \<in> ?U. r \<in> set (rows_under m p) \<longrightarrow> task_row_key p \<in> {}"
    using child by blast
  have "grown ?U m {} tops tree reached"
    by (rule node_nodes_grow(2) [OF ok _ _ _ fuel alone refl tree]) (use tops keys in \<open>auto simp: distinct_map\<close>)
  note top = grownD [OF this]
  have "left_of ?U reached \<le> ?n" using left_of_mono [of ?U "{}" reached] fuel by simp
  note loop = loops_cover [OF ok subset_refl this]
  have all: "task_row_tree rows = tree @ ?loops" unfolding task_row_tree_def m by (simp add: tree)
  have "set (flats tree) \<inter> set (flats ?loops) = {}" using top(2) loop by blast
  then show "distinct (flats (task_row_tree rows))" unfolding all using top(3) loop by simp
  have "r \<in> set (flats tree) \<union> set (flats ?loops)" if r: "r \<in> ?U" for r
  proof -
    have "task_row_key r \<in> task_row_key ` (set (flats tree) \<union> set (flats ?loops))"
      using loop top(2) r by (simp add: image_Un)
    then obtain r' where "r' \<in> set (flats tree) \<union> set (flats ?loops)" "task_row_key r = task_row_key r'" by blast
    moreover have "inj_on task_row_key ?U" using keys by (simp add: distinct_map)
    ultimately show ?thesis using r top(4) loop by (metis Un_iff inj_onD subsetD)
  qed
  moreover have "set (flats tree) \<union> set (flats ?loops) \<subseteq> ?U" using top(4) loop by simp
  ultimately have "set (flats tree) \<union> set (flats ?loops) = ?U" by blast
  then show "set (flats (task_row_tree rows)) = ?U" by (simp only: all map_append concat_append set_append)
qed

subsection \<open>What is drawn\<close>

lemma holds_standing_iff: "holds_standing standing t \<longleftrightarrow> (\<exists>r \<in> set (flat t). standing r)"
  by (induction t) auto

lemma draw_node_rows: "subseq (map drawn_row (draw_node opened standing d t)) (flat t)"
proof (induction t arbitrary: d)
  case (Row_Node row children)
  let ?open = "open_of opened row children"
  let ?draw = "\<lambda>child. if ?open = Some False \<and> \<not> holds_standing standing child then [] else draw_node opened standing (d + 1) child"
  have "subseq (map drawn_row (concat (map ?draw cs))) (flats cs)" if "set cs \<subseteq> set children" for cs
    using that Row_Node.IH by (induction cs) (auto intro: list_emb_append_mono)
  then show ?case by (simp add: Let_def)
qed

lemma standing_row_drawn:
  "r \<in> set (flat t) \<Longrightarrow> standing r \<Longrightarrow> r \<in> drawn_row ` set (draw_node opened standing d t)"
proof (induction t arbitrary: d)
  case (Row_Node row children)
  show ?case
  proof (cases "r = row")
    case False
    then obtain child where child: "child \<in> set children" "r \<in> set (flat child)" using Row_Node.prems(1) by auto
    then have "holds_standing standing child" using Row_Node.prems(2) holds_standing_iff by blast
    moreover have "r \<in> drawn_row ` set (draw_node opened standing (d + 1) child)"
      using Row_Node child by blast
    ultimately show ?thesis using child(1) by (auto simp: Let_def)
  qed (simp add: Let_def)
qed

lemma opened_rows_drawn: "map drawn_row (draw_node (\<lambda>_. True) standing d t) = flat t"
proof (induction t arbitrary: d)
  case (Row_Node row children)
  have "open_of (\<lambda>_. True) row children \<noteq> Some False" by (simp add: open_of_def split: task_row.splits)
  then show ?case using Row_Node.IH by (simp add: Let_def map_concat comp_def cong: map_cong)
qed

lemma subseq_keeps: "subseq xs ys \<Longrightarrow> distinct ys \<Longrightarrow> distinct xs \<and> set xs \<subseteq> set ys"
  by (induction rule: list_emb.induct) auto

lemma drawn_rows_subseq: "subseq (map drawn_row (drawn_task_rows rows opened standing)) (flats (task_row_tree rows))"
proof -
  have "subseq (map drawn_row (concat (map (draw_node opened standing 0) ts))) (flats ts)" for ts
    by (induction ts) (simp_all add: list_emb_append_mono draw_node_rows)
  then show ?thesis unfolding drawn_task_rows_def .
qed

text \<open>
  C38: no row of the task list is lost or drawn twice, whatever loops the tasks' parents make: the rows
  drawn are rows of the list, each once; a row that stands (the open task's) is drawn whatever is folded
  over it; and with every fold open all of the rows are drawn.
\<close>

theorem rows_drawn_once:
  assumes "distinct (map task_row_key rows)"
  shows "distinct (map drawn_row (drawn_task_rows rows opened standing)) \<and>
    set (map drawn_row (drawn_task_rows rows opened standing)) \<subseteq> set rows \<and>
    (\<forall>r \<in> set rows. standing r \<longrightarrow> r \<in> set (map drawn_row (drawn_task_rows rows opened standing))) \<and>
    ((\<forall>k. opened k) \<longrightarrow> set (map drawn_row (drawn_task_rows rows opened standing)) = set rows)"
proof -
  let ?D = "drawn_task_rows rows opened standing"
  note tree = task_row_tree_rows [OF assms]
  have "distinct (map drawn_row ?D)" "set (map drawn_row ?D) \<subseteq> set rows"
    using subseq_keeps [OF drawn_rows_subseq tree(1)] tree(2) by simp_all
  moreover have "r \<in> set (map drawn_row ?D)" if "r \<in> set rows" "standing r" for r
  proof -
    obtain t where "t \<in> set (task_row_tree rows)" "r \<in> set (flat t)" using \<open>r \<in> set rows\<close> tree(2) by auto
    then show ?thesis using standing_row_drawn [of r t standing opened 0] that(2) by (force simp: drawn_task_rows_def)
  qed
  moreover have "map drawn_row ?D = flats (task_row_tree rows)" if "\<forall>k. opened k"
  proof -
    have "opened = (\<lambda>_. True)" using that by blast
    then show ?thesis by (simp add: drawn_task_rows_def map_concat comp_def opened_rows_drawn)
  qed
  ultimately show ?thesis using tree(2) by metis
qed

theorem rows_drawn_once_witness:
  "let a = Task_Row (plain_task ''a'' (Some ''b'')); b = Task_Row (plain_task ''b'' (Some ''a''))
   in a \<in> set (map drawn_row (drawn_task_rows [a, b] (\<lambda>_. False) (\<lambda>r. r = a)))"
  using rows_drawn_once [of "[Task_Row (plain_task ''a'' (Some ''b'')), Task_Row (plain_task ''b'' (Some ''a''))]"]
  by (simp add: plain_task_def Let_def)

subsection \<open>The nesting read back\<close>

definition stands_under :: "task_row \<Rightarrow> task_row \<Rightarrow> bool" where
  "stands_under r p \<longleftrightarrow> (case (r, p) of
     (Task_Row child, Task_Row parent) \<Rightarrow> parent_task_id child = Some (task_id parent)
   | _ \<Rightarrow> False)"

fun linked :: "task_row_node \<Rightarrow> bool" where
  "linked (Row_Node row children) \<longleftrightarrow> (\<forall>c \<in> set children. stands_under (node_row c) row \<and> linked c)"

lemma rows_under_stand:
  assumes "r \<in> set (rows_under (snd (rows_by_parent rows)) row)"
  shows "stands_under r row"
proof (cases row)
  case (Task_Row t)
  then have "parent_in r (held_tasks rows) = Some (task_id t)"
    using assms rows_under_task [of rows t] by (simp add: under_def)
  then show ?thesis
    by (auto simp: Task_Row parent_in_def stands_under_def split: task_row.splits if_splits option.splits)
qed (use assms in simp)

lemma grown_linked:
  assumes m: "\<And>row r. r \<in> set (rows_under m row) \<Longrightarrow> stands_under r row"
  shows "node_from n m' row reached = (t, reached') \<Longrightarrow> m' = m \<Longrightarrow> linked t \<and> node_row t = row"
    and "nodes_from n m' rows reached = (ts, reached') \<Longrightarrow> m' = m \<Longrightarrow> (\<forall>t \<in> set ts. linked t) \<and> map node_row ts = rows"
proof (induction n m' row reached and n m' rows reached arbitrary: t reached' and ts reached' rule: node_from_nodes_from.induct)
  case (2 n m' row reached)
  let ?r1 = "insert (task_row_key row) reached"
  let ?kids = "filter (\<lambda>c. task_row_key c \<notin> ?r1) (rows_under m' row)"
  obtain ts where ts: "nodes_from n m' ?kids ?r1 = (ts, reached')" "t = Row_Node row ts"
    using "2.prems"(1) by (auto simp: Let_def split: prod.splits)
  have kids: "(\<forall>t \<in> set ts. linked t) \<and> map node_row ts = ?kids" by (rule "2.IH" [OF refl ts(1) "2.prems"(2)])
  then have "node_row c \<in> set ?kids" if "c \<in> set ts" for c using that by (metis image_eqI set_map)
  then have "stands_under (node_row c) row" if "c \<in> set ts" for c using that m "2.prems"(2) by auto
  then show ?case using kids ts(2) by simp
next
  case (4 n m' row rows reached)
  obtain t reached1 ts' where t: "node_from n m' row reached = (t, reached1)"
      and ts: "nodes_from n m' rows reached1 = (ts', reached')" "ts = t # ts'"
    using "4.prems"(1) by (auto simp: Let_def split: prod.splits)
  show ?case using "4.IH"(1) [OF t "4.prems"(2)] "4.IH"(2) [OF t [symmetric] refl ts(1) "4.prems"(2)] ts(2) by simp
qed auto

lemma task_row_tree_linked: "\<forall>t \<in> set (task_row_tree rows). linked t"
proof -
  obtain tops m where m: "rows_by_parent rows = (tops, m)" by fastforce
  have stand: "stands_under r row" if "r \<in> set (rows_under m row)" for r row using rows_under_stand [of r rows row] that m by simp
  obtain tree reached where tree: "nodes_from (length rows) m tops {} = (tree, reached)" by fastforce
  have loops: "\<forall>t \<in> set (loops_from n m rs reached). linked t" for n rs reached
  proof (induction rs arbitrary: reached)
    case (Cons row rs)
    obtain t reached1 where "node_from n m row reached = (t, reached1)" by fastforce
    then show ?case using Cons grown_linked(1) [of m, OF stand] by auto
  qed simp
  have "task_row_tree rows = tree @ loops_from (length rows) m rows reached" unfolding task_row_tree_def m by (simp add: tree)
  then show ?thesis using loops grown_linked(2) [of m, OF stand tree refl] by auto
qed

text \<open>Rows each nested under the row last drawn a level above, \<open>above\<close> being those so far.\<close>

fun well_drawn :: "task_row list \<Rightarrow> drawn_task_row list \<Rightarrow> bool" where
  "well_drawn over [] \<longleftrightarrow> True"
| "well_drawn over (x # xs) \<longleftrightarrow> depth x \<le> length over \<and> (depth x > 0 \<longrightarrow> stands_under (drawn_row x) (over ! (depth x - 1))) \<and>
     well_drawn (take (depth x) over @ [drawn_row x]) xs"

definition drawn_beyond :: "nat \<Rightarrow> task_row list \<Rightarrow> drawn_task_row list \<Rightarrow> bool" where
  "drawn_beyond d over xs \<longleftrightarrow> (\<forall>over'. take d over' = take d over \<longrightarrow> d \<le> length over' \<longrightarrow> well_drawn over' xs)"

lemma draw_node_well_drawn:
  "linked t \<Longrightarrow> d \<le> length over \<Longrightarrow> (d > 0 \<longrightarrow> stands_under (node_row t) (over ! (d - 1))) \<Longrightarrow>
    drawn_beyond d over xs \<Longrightarrow> well_drawn over (draw_node opened standing d t @ xs)"
proof (induction t arbitrary: d over xs)
  case (Row_Node row children)
  let ?open = "open_of opened row children" and ?over = "take d over @ [row]"
  let ?draw = "\<lambda>child. if ?open = Some False \<and> \<not> holds_standing standing child then [] else draw_node opened standing (d + 1) child"
  have len: "length ?over = d + 1" using Row_Node.prems(2) by simp
  have "drawn_beyond (d + 1) ?over (concat (map ?draw cs) @ xs)" if "set cs \<subseteq> set children" for cs
    using that
  proof (induction cs)
    case Nil
    have "take d over' = take d over" if "take (d + 1) over' = take (d + 1) ?over" for over'
    proof -
      have "take d (take (d + 1) over') = take d (take (d + 1) ?over)" using that by simp
      then show ?thesis using Row_Node.prems(2) by (simp add: min_def)
    qed
    then show ?case using Row_Node.prems(4) by (simp add: drawn_beyond_def)
  next
    case (Cons child cs)
    then have rest: "drawn_beyond (d + 1) ?over (concat (map ?draw cs) @ xs)" by simp
    have child: "child \<in> set children" "linked child" "stands_under (node_row child) row" using Cons.prems Row_Node.prems(1) by simp_all
    show ?case
    proof (cases "?open = Some False \<and> \<not> holds_standing standing child")
      case False
      have "well_drawn over' (draw_node opened standing (d + 1) child @ concat (map ?draw cs) @ xs)"
        if over': "take (d + 1) over' = take (d + 1) ?over" "d + 1 \<le> length over'" for over'
      proof (rule Row_Node.IH [OF child(1,2) over'(2)])
        have "over' ! d = take (d + 1) over' ! d" by simp
        also have "\<dots> = row" using over'(1) len Row_Node.prems(2) by (simp add: nth_append)
        finally show "d + 1 > 0 \<longrightarrow> stands_under (node_row child) (over' ! (d + 1 - 1))" using child(3) by simp
        show "drawn_beyond (d + 1) over' (concat (map ?draw cs) @ xs)" using rest over'(1) by (simp add: drawn_beyond_def)
      qed
      then show ?thesis using False by (auto simp: drawn_beyond_def)
    qed (use rest in simp)
  qed
  then have "well_drawn ?over (concat (map ?draw children) @ xs)" using len unfolding drawn_beyond_def by auto
  then show ?case using Row_Node.prems(2,3) by (simp add: Let_def)
qed

lemma drawn_task_rows_well_drawn: "well_drawn [] (drawn_task_rows rows opened standing)"
proof -
  have "drawn_beyond 0 [] (concat (map (draw_node opened standing 0) ts))" if "\<forall>t \<in> set ts. linked t" for ts
    using that
  proof (induction ts)
    case (Cons t ts)
    then have "well_drawn over (draw_node opened standing 0 t @ concat (map (draw_node opened standing 0) ts))" for over
      by (intro draw_node_well_drawn) (auto simp: drawn_beyond_def)
    then show ?case by (simp add: drawn_beyond_def)
  qed (simp add: drawn_beyond_def)
  then show ?thesis using task_row_tree_linked by (auto simp: drawn_task_rows_def drawn_beyond_def)
qed

text \<open>The path \<open>parents_from\<close> keeps holds, for each depth, the place of the row last drawn at it.\<close>

lemma parents_from_read:
  fixes before xs :: "drawn_task_row list"
  assumes "well_drawn over xs" "length path = length over"
    "\<And>k. k < length path \<Longrightarrow> \<exists>i < length before. path ! k = Some i \<and> drawn_row (before ! i) = over ! k \<and> depth (before ! i) = k"
    "j < length xs"
  shows "(depth (xs ! j) = 0 \<longrightarrow> parents_from (length before) path (map depth xs) ! j = -1) \<and>
    (depth (xs ! j) > 0 \<longrightarrow> (\<exists>i < length before + j. parents_from (length before) path (map depth xs) ! j = int i \<and>
       depth (xs ! j) = Suc (depth ((before @ xs) ! i)) \<and>
       stands_under (drawn_row (xs ! j)) (drawn_row ((before @ xs) ! i))))"
  using assms
proof (induction xs arbitrary: before path over j)
  case (Cons x xs)
  let ?d = "depth x" and ?path = "take (depth x) path @ [Some (length before)]"
  have d: "?d \<le> length path" using Cons.prems(1,2) by simp
  have rest: "parents_from (length before) path (map depth (x # xs)) =
      (if ?d = 0 then -1 else case nth_opt path (int ?d - 1) of Some (Some p) \<Rightarrow> int p | _ \<Rightarrow> -1) #
      parents_from (length (before @ [x])) ?path (map depth xs)"
    using d by simp
  show ?case
  proof (cases j)
    case 0
    show ?thesis
    proof (cases "?d = 0")
      case False
      then have "?d - 1 < length path" using d by linarith
      from Cons.prems(3) [OF this] obtain i where i: "i < length before" "path ! (?d - 1) = Some i" "drawn_row (before ! i) = over ! (?d - 1)" "depth (before ! i) = ?d - 1" by blast
      have "nth_opt path (int ?d - 1) = Some (Some i)"
        using False d i(2) by (simp add: nth_opt_def nat_diff_distrib)
      moreover have "stands_under (drawn_row x) (over ! (?d - 1))" using Cons.prems(1) False by simp
      ultimately show ?thesis using 0 False i unfolding rest by (auto simp: nth_append intro!: exI [of _ i])
    qed (use 0 rest in simp)
  next
    case (Suc j')
    have "\<exists>i < length (before @ [x]). ?path ! k = Some i \<and> drawn_row ((before @ [x]) ! i) = (take ?d over @ [drawn_row x]) ! k \<and> depth ((before @ [x]) ! i) = k"
      if k: "k < length ?path" for k
    proof (cases "k < ?d")
      case True
      then have "k < length path" using d by simp
      from Cons.prems(3) [OF this] obtain i where "i < length before" "path ! k = Some i" "drawn_row (before ! i) = over ! k" "depth (before ! i) = k" by blast
      then show ?thesis using True d Cons.prems(2) by (intro exI [of _ i]) (simp add: nth_append)
    next
      case False
      then have "k = ?d" using k d by simp
      then show ?thesis using d Cons.prems(2) by (intro exI [of _ "length before"]) (simp add: nth_append)
    qed
    note Cons.IH [of "take ?d over @ [drawn_row x]" ?path "before @ [x]" j', OF _ _ this]
    then show ?thesis using Cons.prems(1,2,4) Suc d unfolding rest by simp
  qed
qed simp

text \<open>
  The nesting read back from the rows drawn (\<open>parentsOf\<close>, which moving and announcing rows go by) is
  the nesting they were drawn by: a row at the top has no parent, and any other has as its parent a row
  drawn before it, one level up, which is the task it names as its parent.
\<close>

theorem nesting_reads_back:
  assumes "n < length (drawn_task_rows rows opened standing)"
  shows "let drawn = drawn_task_rows rows opened standing; parent = parents_of (map depth drawn) ! n
    in (depth (drawn ! n) = 0 \<longrightarrow> parent = -1) \<and>
       (depth (drawn ! n) > 0 \<longrightarrow> (\<exists>i < n. parent = int i \<and> depth (drawn ! n) = Suc (depth (drawn ! i)) \<and>
          stands_under (drawn_row (drawn ! n)) (drawn_row (drawn ! i))))"
  using parents_from_read [OF drawn_task_rows_well_drawn, of "[]" "[]" n] assms
  by (simp add: Let_def parents_of_def)

theorem nesting_reads_back_witness:
  "let drawn = drawn_task_rows [Task_Row (plain_task ''b'' (Some ''a'')), Task_Row (plain_task ''a'' None)] (\<lambda>_. True) (\<lambda>_. False)
   in \<exists>i < 1. parents_of (map depth drawn) ! 1 = int i \<and> stands_under (drawn_row (drawn ! 1)) (drawn_row (drawn ! i))"
proof -
  let ?rows = "[Task_Row (plain_task ''b'' (Some ''a'')), Task_Row (plain_task ''a'' None)]"
  let ?drawn = "drawn_task_rows ?rows (\<lambda>_. True) (\<lambda>_. False)"
  have long: "1 < length ?drawn" by code_simp
  have "depth (?drawn ! 1) > 0" by code_simp
  then show ?thesis using nesting_reads_back [OF long] unfolding Let_def by blast
qed

end
