(* ===== verification/Task_Homes.thy ===== *)
theory Task_Homes
  imports Task_List
begin

text \<open>
  The lists \<open>homedTaskRows\<close> of \<open>packages/ui/src/task-list-model.ts\<close> deals the task rows out to
  (\<open>homed_task_rows\<close> of \<open>Task_List\<close>): no row is in two of them, a row without a parent stays where it
  was, and a child task is in the list that holds its parent, or in none when its parent is in none.
\<close>

subsection \<open>The first row of each task\<close>

definition first_step :: "nat \<Rightarrow> task_row \<Rightarrow> (task_summary \<times> nat) list \<Rightarrow> (task_summary \<times> nat) list" where
  "first_step n row firsts = (case row of
     Agent_Row _ \<Rightarrow> firsts
   | Task_Row t \<Rightarrow> if task_id t \<in> set (map (\<lambda>(t, _). task_id t) firsts) then firsts else firsts @ [(t, n)])"

lemma in_runs: "row \<in> set (concat runs) \<longleftrightarrow> (\<exists>n < length runs. row \<in> set (runs ! n))"
proof -
  have "row \<in> set (concat runs) \<longleftrightarrow> (\<exists>rows. rows \<in> set runs \<and> row \<in> set rows)" by auto
  then show ?thesis unfolding in_set_conv_nth [of _ runs] by blast
qed

lemma in_runsI: "n < length runs \<Longrightarrow> row \<in> set (runs ! n) \<Longrightarrow> row \<in> set (concat runs)"
  unfolding in_runs by blast

text \<open>Every row with the list it is in, in the order the lists are read.\<close>

definition placed_rows :: "task_row list list \<Rightarrow> (task_row \<times> nat) list" where
  "placed_rows runs = concat (map (\<lambda>(rows, n). map (\<lambda>row. (row, n)) rows) (zip runs [0..<length runs]))"

lemma placed_rowsD: "(row, n) \<in> set (placed_rows runs) \<Longrightarrow> n < length runs \<and> row \<in> set (runs ! n)"
  by (auto simp: placed_rows_def set_zip)

lemma placed_rowsI: "n < length runs \<Longrightarrow> row \<in> set (runs ! n) \<Longrightarrow> (row, n) \<in> set (placed_rows runs)"
  by (force simp: placed_rows_def set_zip)

definition first_ids :: "(task_summary \<times> nat) list \<Rightarrow> string set" where
  "first_ids firsts = set (map (\<lambda>(t, _). task_id t) firsts)"

lemma first_ids_iff: "k \<in> first_ids firsts \<longleftrightarrow> (\<exists>t n. (t, n) \<in> set firsts \<and> task_id t = k)"
  unfolding first_ids_def by force

lemma first_tasks_steps: "first_tasks runs = fold (\<lambda>(row, n). first_step n row) (placed_rows runs) []"
proof -
  have one: "fold (\<lambda>(row, n). first_step n row) (map (\<lambda>row. (row, n)) rows) firsts = fold (first_step n) rows firsts" for n rows firsts
    by (induction rows arbitrary: firsts) simp_all
  have "fold (\<lambda>(rows, n). fold (first_step n) rows) placed firsts =
      fold (\<lambda>(row, n). first_step n row) (concat (map (\<lambda>(rows, n). map (\<lambda>row. (row, n)) rows) placed)) firsts" for placed firsts
    by (induction placed arbitrary: firsts) (auto simp: one)
  moreover have "first_tasks runs = fold (\<lambda>(rows, n). fold (first_step n) rows) (zip runs [0..<length runs]) []"
    unfolding first_tasks_def first_step_def by (simp add: case_prod_unfold fun_eq_iff)
  ultimately show ?thesis unfolding placed_rows_def by simp
qed

lemma first_step_within: "(t, k) \<in> set (first_step n row firsts) \<Longrightarrow> (t, k) \<in> set firsts \<or> row = Task_Row t \<and> k = n"
  by (auto simp: first_step_def split: task_row.splits if_splits)

lemma first_step_ids: "k \<in> first_ids (first_step n row firsts) \<longleftrightarrow> k \<in> first_ids firsts \<or> (\<exists>t. row = Task_Row t \<and> task_id t = k)"
  by (auto simp: first_step_def first_ids_def split: task_row.splits)

lemma first_tasks_within: "(t, n) \<in> set (first_tasks runs) \<Longrightarrow> n < length runs \<and> Task_Row t \<in> set (runs ! n)"
proof -
  have "(t, n) \<in> set (fold (\<lambda>(row, n). first_step n row) placed firsts) \<Longrightarrow>
      (t, n) \<in> set firsts \<or> (Task_Row t, n) \<in> set placed" for placed firsts
  proof (induction placed arbitrary: firsts)
    case (Cons each placed)
    obtain row k where each: "each = (row, k)" by fastforce
    show ?case using Cons.IH [of "first_step k row firsts"] Cons.prems first_step_within [of t n k row firsts]
      by (simp add: each) blast
  qed simp
  then show "(t, n) \<in> set (first_tasks runs) \<Longrightarrow> ?thesis"
    unfolding first_tasks_steps using placed_rowsD by fastforce
qed

lemma first_tasks_ids: "Task_Row t \<in> set (concat runs) \<Longrightarrow> task_id t \<in> first_ids (first_tasks runs)"
proof -
  have ids: "k \<in> first_ids (fold (\<lambda>(row, n). first_step n row) placed firsts) \<longleftrightarrow>
      k \<in> first_ids firsts \<or> (\<exists>t n. (Task_Row t, n) \<in> set placed \<and> task_id t = k)" for k placed firsts
  proof (induction placed arbitrary: firsts)
    case (Cons each placed)
    obtain row n where each: "each = (row, n)" by fastforce
    show ?case unfolding each using Cons [of "first_step n row firsts"] first_step_ids [of k n row firsts] by auto
  qed simp
  assume "Task_Row t \<in> set (concat runs)"
  then obtain i where "i < length runs" "Task_Row t \<in> set (runs ! i)" unfolding in_runs by blast
  then show ?thesis unfolding first_tasks_steps ids using placed_rowsI by blast
qed

lemma task_by_id_first:
  assumes "task_id t \<in> first_ids firsts"
  shows "\<exists>t' n. task_by_id firsts (task_id t) = Some (t', n) \<and> (t', n) \<in> set firsts \<and> task_id t' = task_id t"
proof (cases "task_by_id firsts (task_id t)")
  case None
  then have "\<not> (\<exists>x. x \<in> set firsts \<and> (\<lambda>(t', _). task_id t' = task_id t) x)"
    by (simp add: task_by_id_def find_None_iff)
  then show ?thesis using assms unfolding first_ids_iff by blast
next
  case (Some x)
  then show ?thesis using task_by_id_Some [of firsts "task_id t"] by (cases x) blast
qed

text \<open>With a key of its own for every row, a task's first row is its row.\<close>

lemma task_by_id_row:
  assumes "distinct (map task_row_key (concat runs))" "Task_Row t \<in> set (concat runs)"
  shows "\<exists>n. task_by_id (first_tasks runs) (task_id t) = Some (t, n)"
proof -
  obtain t' n where t': "task_by_id (first_tasks runs) (task_id t) = Some (t', n)"
      "(t', n) \<in> set (first_tasks runs)" "task_id t' = task_id t"
    using task_by_id_first [OF first_tasks_ids [OF assms(2)]] by blast
  have "n < length runs \<and> Task_Row t' \<in> set (runs ! n)" by (rule first_tasks_within [OF t'(2)])
  then have "Task_Row t' \<in> set (concat runs)" by auto
  moreover have "inj_on task_row_key (set (concat runs))" using assms(1) by (simp only: distinct_map)
  ultimately have "Task_Row t' = Task_Row t" using inj_onD [of task_row_key _ "Task_Row t'" "Task_Row t"] assms(2) t'(3) by simp
  then show ?thesis using t'(1) by simp
qed

subsection \<open>The lists dealt out\<close>

text \<open>A row is in the list its home names, wherever it was listed.\<close>

definition homes_in :: "task_row list list \<Rightarrow> nat \<Rightarrow> nat \<Rightarrow> task_row list" where
  "homes_in runs k n = filter (\<lambda>row. home_of (first_tasks runs) row n = Some k) (runs ! n)"

lemma homed_task_rows_eq:
  "homed_task_rows runs = map (\<lambda>k. concat (map (homes_in runs k) (k # filter (\<lambda>n. n \<noteq> k) [0..<length runs]))) [0..<length runs]"
proof -
  let ?homed = "map (\<lambda>(rows, n). map (\<lambda>row. (row, home_of (first_tasks runs) row n)) rows) (zip runs [0..<length runs])"
  have here: "map fst (filter (\<lambda>(_, home). home = Some k) (?homed ! n)) = homes_in runs k n" if "n < length runs" for k n
  proof -
    have "map fst (filter (\<lambda>(_, home). home = Some k) (map (\<lambda>row. (row, h row)) rows)) = filter (\<lambda>row. h row = Some k) rows"
      for h :: "task_row \<Rightarrow> nat option" and rows
      by (induction rows) simp_all
    then show ?thesis using that by (simp add: homes_in_def)
  qed
  have others: "concat (map (\<lambda>n. if n = k then [] else f n) ns) = concat (map f (filter (\<lambda>n. n \<noteq> k) ns))"
    for f :: "nat \<Rightarrow> task_row list" and k ns
    by (induction ns) simp_all
  show ?thesis unfolding homed_task_rows_def Let_def
  proof (rule map_cong [OF refl])
    fix k assume "k \<in> set [0..<length runs]"
    then have own: "map fst (filter (\<lambda>(_, home). home = Some k) (?homed ! k)) = homes_in runs k k" using here by simp
    have "concat (map (\<lambda>n. if n = k then [] else map fst (filter (\<lambda>(_, home). home = Some k) (?homed ! n))) [0..<length runs]) =
        concat (map (\<lambda>n. if n = k then [] else homes_in runs k n) [0..<length runs])"
      by (rule arg_cong [of _ _ concat], rule map_cong [OF refl]) (use here in simp)
    then show "map fst (filter (\<lambda>(_, home). home = Some k) (?homed ! k)) @
        concat (map (\<lambda>n. if n = k then [] else map fst (filter (\<lambda>(_, home). home = Some k) (?homed ! n))) [0..<length runs]) =
        concat (map (homes_in runs k) (k # filter (\<lambda>n. n \<noteq> k) [0..<length runs]))"
      by (simp only: own others list.map concat.simps)
  qed
qed

lemma homed_length [simp]: "length (homed_task_rows runs) = length runs"
  by (simp add: homed_task_rows_eq)

lemma homed_nth: "k < length runs \<Longrightarrow>
  homed_task_rows runs ! k = concat (map (homes_in runs k) (k # filter (\<lambda>n. n \<noteq> k) [0..<length runs]))"
  by (simp add: homed_task_rows_eq)

lemma homed_iff:
  assumes "k < length runs"
  shows "row \<in> set (homed_task_rows runs ! k) \<longleftrightarrow>
    (\<exists>n < length runs. row \<in> set (runs ! n) \<and> home_of (first_tasks runs) row n = Some k)"
proof -
  have "set (k # filter (\<lambda>n. n \<noteq> k) [0..<length runs]) = {0..<length runs}" using assms by auto
  then have "set (homed_task_rows runs ! k) = (\<Union>n \<in> {0..<length runs}. set (homes_in runs k n))"
    unfolding homed_nth [OF assms] by (simp only: set_concat set_map image_image)
  then show ?thesis by (auto simp: homes_in_def)
qed

lemma distinct_concat_parts:
  assumes "distinct (concat xss)" "i < length xss" "j < length xss" "x \<in> set (xss ! i)" "x \<in> set (xss ! j)"
  shows "i = j"
  using assms
proof (induction xss arbitrary: i j)
  case (Cons xs xss)
  have "x \<in> set (concat xss)" if "n < length xss" "x \<in> set (xss ! n)" for n
    using that nth_mem by fastforce
  then show ?case using Cons by (cases i; cases j) auto
qed simp

lemma distinct_homes:
  assumes "distinct (concat runs)" "distinct ns" "\<forall>n \<in> set ns. n < length runs"
  shows "distinct (concat (map (homes_in runs k) ns))"
  using assms(2,3)
proof (induction ns)
  case (Cons n ns)
  have "distinct (runs ! n)" using assms(1) Cons.prems by (auto simp: distinct_concat_iff)
  then have "distinct (homes_in runs k n)" by (simp add: homes_in_def)
  moreover have False if x: "x \<in> set (homes_in runs k n)" "x \<in> set (concat (map (homes_in runs k) ns))" for x
  proof -
    obtain n' where "n' \<in> set ns" "x \<in> set (runs ! n')" "x \<in> set (runs ! n)" using x by (auto simp: homes_in_def)
    then show False using distinct_concat_parts [OF assms(1), of n n' x] Cons.prems by auto
  qed
  ultimately show ?case using Cons by auto
qed simp

text \<open>A row drawn under no parent: an agent, a pinned task, or one without a parent.\<close>

definition parentless :: "task_row \<Rightarrow> bool" where
  "parentless row = (case row of Agent_Row _ \<Rightarrow> True | Task_Row t \<Rightarrow> pinned_at t \<noteq> None \<or> parent_task_id t = None)"

lemma home_walk_stops:
  assumes "pinned_at t \<noteq> None \<or> parent_task_id t = None"
  shows "home_walk firsts t walked = Some t"
proof (cases "pinned_at t \<noteq> None")
  case True
  then show ?thesis by (subst home_walk.simps) simp
next
  case False
  then have "parent_task_id t = None" using assms by simp
  then show ?thesis by (subst home_walk.simps) simp
qed

lemma parentless_home:
  assumes "distinct (map task_row_key (concat runs))" "n < length runs" "row \<in> set (runs ! n)" "parentless row"
  shows "home_of (first_tasks runs) row n = Some n"
proof (cases row)
  case (Task_Row t)
  have t: "Task_Row t \<in> set (concat runs)" using in_runsI [OF assms(2,3)] unfolding Task_Row .
  obtain k where k: "task_by_id (first_tasks runs) (task_id t) = Some (t, k)" using task_by_id_row [OF assms(1) t] by blast
  have "(t, k) \<in> set (first_tasks runs)" using task_by_id_Some [OF k] by (rule conjunct2)
  from first_tasks_within [OF this] have at: "k < length runs" "Task_Row t \<in> set (runs ! k)" by simp_all
  have "distinct (concat runs)" using assms(1) by (simp only: distinct_map)
  from distinct_concat_parts [OF this at(1) assms(2) at(2)] have "k = n" using assms(3) Task_Row by simp
  moreover have "home_walk (first_tasks runs) t {task_id t} = Some t"
    by (rule home_walk_stops) (use assms(4) Task_Row in \<open>simp add: parentless_def\<close>)
  ultimately show ?thesis using k by (simp add: home_of_def Task_Row)
qed (simp add: home_of_def)

text \<open>
  Dealing the rows out to their lists draws no row twice: no list holds a row twice, no two hold
  the same row, no row comes from nowhere, and a row under no parent (an agent, a pinned task, a task
  of its own) stays in the list it was in.
\<close>

theorem rows_in_one_list:
  assumes "distinct (map task_row_key (concat runs))"
  shows "(\<forall>k < length runs. distinct (homed_task_rows runs ! k)) \<and>
    (\<forall>k < length runs. \<forall>l < length runs. \<forall>row. row \<in> set (homed_task_rows runs ! k) \<longrightarrow>
       row \<in> set (homed_task_rows runs ! l) \<longrightarrow> k = l \<and> row \<in> set (concat runs)) \<and>
    (\<forall>k < length runs. \<forall>row \<in> set (runs ! k). parentless row \<longrightarrow> row \<in> set (homed_task_rows runs ! k))"
proof -
  have apart: "distinct (concat runs)" using assms by (simp only: distinct_map)
  have once: "distinct (homed_task_rows runs ! k)" if "k < length runs" for k
    unfolding homed_nth [OF that] by (rule distinct_homes [OF apart]) (use that in auto)
  have one: "k = l \<and> row \<in> set (concat runs)"
    if "k < length runs" "l < length runs" "row \<in> set (homed_task_rows runs ! k)" "row \<in> set (homed_task_rows runs ! l)" for k l row
  proof -
    note at = that
    obtain m where m: "m < length runs" "row \<in> set (runs ! m)" "home_of (first_tasks runs) row m = Some k"
      using at(3) unfolding homed_iff [OF at(1)] by blast
    obtain n where n: "n < length runs" "row \<in> set (runs ! n)" "home_of (first_tasks runs) row n = Some l"
      using at(4) unfolding homed_iff [OF at(2)] by blast
    have "m = n" by (rule distinct_concat_parts [OF apart m(1) n(1) m(2) n(2)])
    moreover have "row \<in> set (concat runs)" by (rule in_runsI [OF m(1,2)])
    ultimately show ?thesis using m(3) n(3) by simp
  qed
  have stays: "row \<in> set (homed_task_rows runs ! k)" if "k < length runs" "row \<in> set (runs ! k)" "parentless row" for k row
    using homed_iff [OF that(1)] parentless_home [OF assms that] that(1,2) by blast
  have "\<forall>k < length runs. distinct (homed_task_rows runs ! k)" using once by simp
  moreover have "\<forall>k < length runs. \<forall>l < length runs. \<forall>row. row \<in> set (homed_task_rows runs ! k) \<longrightarrow>
      row \<in> set (homed_task_rows runs ! l) \<longrightarrow> k = l \<and> row \<in> set (concat runs)"
    by (intro allI impI) (rule one)
  moreover have "\<forall>k < length runs. \<forall>row \<in> set (runs ! k). parentless row \<longrightarrow> row \<in> set (homed_task_rows runs ! k)"
    by (intro allI impI ballI) (rule stays)
  ultimately show ?thesis by (intro conjI)
qed

theorem rows_in_one_list_witness:
  "let b = Task_Row (plain_task ''b'' (Some ''a'')); a = Task_Row (plain_task ''a'' None)
   in a \<in> set (homed_task_rows [[b], [a]] ! 1) \<and> distinct (homed_task_rows [[b], [a]] ! 1)"
  using rows_in_one_list [of "[[Task_Row (plain_task ''b'' (Some ''a''))], [Task_Row (plain_task ''a'' None)]]"]
  by (simp add: plain_task_def Let_def parentless_def)

text \<open>Up a chain of parents with no loop in it, what was walked before does not matter.\<close>

definition descends :: "(string \<Rightarrow> nat) \<Rightarrow> task_row list \<Rightarrow> bool" where
  "descends rank rows \<longleftrightarrow> (\<forall>row \<in> set rows. case row of Agent_Row _ \<Rightarrow> True
     | Task_Row t \<Rightarrow> (case parent_task_id t of None \<Rightarrow> True | Some p \<Rightarrow> rank p < rank (task_id t)))"

lemma descendsD: "descends rank rows \<Longrightarrow> Task_Row t \<in> set rows \<Longrightarrow> parent_task_id t = Some p \<Longrightarrow> rank p < rank (task_id t)"
  unfolding descends_def by (drule bspec, assumption) simp

lemma task_by_id_listed:
  assumes "task_by_id (first_tasks runs) k = Some (t, n)"
  shows "Task_Row t \<in> set (concat runs)" "task_id t = k"
proof -
  have at: "task_id t = k" "(t, n) \<in> set (first_tasks runs)" using task_by_id_Some [OF assms] by simp_all
  show "task_id t = k" by (rule at(1))
  from first_tasks_within [OF at(2)] show "Task_Row t \<in> set (concat runs)" unfolding in_runs by blast
qed

lemma home_walk_loopless:
  assumes "descends rank (concat runs)"
  shows "Task_Row t \<in> set (concat runs) \<Longrightarrow> \<forall>k \<in> walked \<union> walked'. rank (task_id t) \<le> rank k \<Longrightarrow>
    home_walk (first_tasks runs) t walked = home_walk (first_tasks runs) t walked'"
proof (induction "rank (task_id t)" arbitrary: t walked walked' rule: less_induct)
  case less
  show ?case
  proof (cases "pinned_at t \<noteq> None \<or> parent_task_id t = None")
    case False
    then obtain p where p: "pinned_at t = None" "parent_task_id t = Some p" by auto
    have rank: "rank p < rank (task_id t)" by (rule descendsD [OF assms less.prems(1) p(2)])
    show ?thesis
    proof (cases "task_by_id (first_tasks runs) p")
      case None
      then show ?thesis using p by (simp add: home_walk.simps [of _ t])
    next
      case (Some x)
      then obtain parent n where parent: "task_by_id (first_tasks runs) p = Some (parent, n)" by (cases x) simp
      note listed = task_by_id_listed [OF parent]
      have new: "p \<notin> walked" "p \<notin> walked'" using less.prems(2) rank by (auto simp: not_le [symmetric])
      have "\<forall>k \<in> insert p walked \<union> insert p walked'. rank (task_id parent) \<le> rank k"
        using less.prems(2) rank listed(2) by (auto intro: order_trans [OF less_imp_le])
      then have "home_walk (first_tasks runs) parent (insert p walked) = home_walk (first_tasks runs) parent (insert p walked')"
        using less.hyps [of parent] rank listed by simp
      moreover have "home_walk (first_tasks runs) t w = home_walk (first_tasks runs) parent (insert p w)" if "p \<notin> w" for w
        using p parent listed(2) that by (subst home_walk.simps) simp
      ultimately show ?thesis using new by simp
    qed
  qed (simp add: home_walk_stops)
qed

lemma child_home:
  assumes "distinct (map task_row_key (concat runs))" "descends rank (concat runs)"
    "Task_Row child \<in> set (concat runs)" "pinned_at child = None" "parent_task_id child = Some (task_id parent)"
    "Task_Row parent \<in> set (concat runs)"
  shows "home_of (first_tasks runs) (Task_Row child) n = home_of (first_tasks runs) (Task_Row parent) m"
proof -
  obtain k where k: "task_by_id (first_tasks runs) (task_id parent) = Some (parent, k)" using task_by_id_row [OF assms(1,6)] by blast
  have rank: "rank (task_id parent) < rank (task_id child)" by (rule descendsD [OF assms(2,3,5)])
  then have "home_walk (first_tasks runs) child {task_id child} =
      home_walk (first_tasks runs) parent (insert (task_id parent) {task_id child})"
    using assms(4,5) k by (subst home_walk.simps) auto
  also have "\<dots> = home_walk (first_tasks runs) parent {task_id parent}"
    by (rule home_walk_loopless [OF assms(2,6)]) (use rank in auto)
  finally show ?thesis by (simp add: home_of_def)
qed

text \<open>
  Where no loop of parents is written, a child task is drawn in the list its parent is drawn in
  and in no other, whichever list either was in; and one whose parent no list holds is drawn nowhere.
\<close>

theorem child_listed_with_parent:
  assumes keys: "distinct (map task_row_key (concat runs))" and rank: "descends rank (concat runs)"
    and child: "Task_Row child \<in> set (concat runs)" "pinned_at child = None" "parent_task_id child = Some p"
    and k: "k < length runs"
  shows "(\<forall>parent. Task_Row parent \<in> set (concat runs) \<longrightarrow> task_id parent = p \<longrightarrow>
       (Task_Row child \<in> set (homed_task_rows runs ! k) \<longleftrightarrow> Task_Row parent \<in> set (homed_task_rows runs ! k))) \<and>
    ((\<forall>parent. Task_Row parent \<in> set (concat runs) \<longrightarrow> task_id parent \<noteq> p) \<longrightarrow>
       Task_Row child \<notin> set (homed_task_rows runs ! k))"
proof (intro conjI allI impI)
  fix parent assume parent: "Task_Row parent \<in> set (concat runs)" "task_id parent = p"
  have same: "home_of (first_tasks runs) (Task_Row child) n = home_of (first_tasks runs) (Task_Row parent) m" for n m
    by (rule child_home [OF keys rank child(1,2) _ parent(1)]) (simp add: child(3) parent(2))
  obtain m n where "m < length runs" "Task_Row child \<in> set (runs ! m)" "n < length runs" "Task_Row parent \<in> set (runs ! n)"
    using child(1) parent(1) unfolding in_runs by blast
  then show "Task_Row child \<in> set (homed_task_rows runs ! k) \<longleftrightarrow> Task_Row parent \<in> set (homed_task_rows runs ! k)"
    unfolding homed_iff [OF k] using same by metis
next
  assume "\<forall>parent. Task_Row parent \<in> set (concat runs) \<longrightarrow> task_id parent \<noteq> p"
  then have "task_by_id (first_tasks runs) p \<noteq> Some (t, n)" for t n using task_by_id_listed by blast
  then have "task_by_id (first_tasks runs) p = None" by (cases "task_by_id (first_tasks runs) p") auto
  then have "home_walk (first_tasks runs) child {task_id child} = None" using child(2,3) by (subst home_walk.simps) simp
  then have "home_of (first_tasks runs) (Task_Row child) n = None" for n by (simp add: home_of_def)
  then show "Task_Row child \<notin> set (homed_task_rows runs ! k)" unfolding homed_iff [OF k] by simp
qed

theorem child_listed_with_parent_witness:
  "let b = Task_Row (plain_task ''b'' (Some ''a'')); a = Task_Row (plain_task ''a'' None)
   in b \<in> set (homed_task_rows [[b], [a]] ! 1) \<longleftrightarrow> a \<in> set (homed_task_rows [[b], [a]] ! 1)"
proof -
  let ?b = "plain_task ''b'' (Some ''a'')" and ?a = "plain_task ''a'' None"
  let ?runs = "[[Task_Row ?b], [Task_Row ?a]]"
  have "descends (\<lambda>k. if k = ''b'' then 1 else 0) (concat ?runs)" by (simp add: descends_def plain_task_def)
  moreover have "distinct (map task_row_key (concat ?runs))" by (simp add: plain_task_def)
  moreover have "Task_Row ?b \<in> set (concat ?runs)" "pinned_at ?b = None" "parent_task_id ?b = Some ''a''" "1 < length ?runs"
    by (simp_all add: plain_task_def)
  ultimately have "\<forall>parent. Task_Row parent \<in> set (concat ?runs) \<longrightarrow> task_id parent = ''a'' \<longrightarrow>
      (Task_Row ?b \<in> set (homed_task_rows ?runs ! 1) \<longleftrightarrow> Task_Row parent \<in> set (homed_task_rows ?runs ! 1))"
    using child_listed_with_parent [of ?runs _ ?b "''a''" 1] by blast
  moreover have "Task_Row ?a \<in> set (concat ?runs)" "task_id ?a = ''a''" by (simp_all add: plain_task_def)
  ultimately show ?thesis unfolding Let_def by blast
qed

end
