(* ===== verification/Sync_Hub.thy ===== *)
theory Sync_Hub
  imports Prelude
begin

text \<open>
  \<open>packages/service/src/sync/hub.ts\<close>: one instance's listener on the database's channel of changes, and
  the watches it wakes (\<open>packages/service/src/sync/watch.ts\<close>). A step is what the source runs between
  two waits: for the database, the clock, a latch or a deferred. Steps come in any order, so every
  interleaving of the listener's fiber and of the watches' is a run; a timer may end at any step. A
  watch is a number, as is a connection. The listener of the database (\<open>SyncListener\<close>) is known by
  what it promises: once it listens, what commits is heard in its order, until the connection is lost.
  A beat's round trip is what it came to, and the counts of metrics are left out.
\<close>

subsection \<open>Topics and notifications\<close>

datatype topic_kind =
    Account | Account_Integrations | Account_Skills | Workspace | Workspace_Chapters | Memory
  | Workspace_Integrations | Workspace_Skills | Task_Topic | Agent_Topic | Conversation

type_synonym topic = "topic_kind \<times> string"

datatype notification = Change "topic list" string | Heartbeat string | Undecoded

subsection \<open>Watchers\<close>

record watcher =
  txids :: "string list"
  woken :: bool
  heard_at :: "int option"
  answered_heard_at :: "int option"

definition fresh_watcher :: watcher where
  "fresh_watcher = \<lparr>txids = [], woken = False, heard_at = None, answered_heard_at = None\<rparr>"

record watchers =
  by_topic :: "(topic_kind, (string, nat list) js_map) js_map"
  every_watcher :: "nat list"

definition wake :: "(string \<times> int) option \<Rightarrow> watcher \<Rightarrow> watcher" where
  "wake heard r = (case heard of
       None \<Rightarrow> r
     | Some (x, at) \<Rightarrow> r\<lparr>txids := (if x \<in> set (txids r) then txids r else txids r @ [x]),
                        heard_at := (case heard_at r of None \<Rightarrow> Some at | Some first \<Rightarrow> Some first)\<rparr>)\<lparr>woken := True\<rparr>"

definition wake_each :: "nat list \<Rightarrow> (string \<times> int) option \<Rightarrow> (nat \<Rightarrow> watcher) \<Rightarrow> nat \<Rightarrow> watcher" where
  "wake_each ws heard = fold (\<lambda>w f. f(w := wake heard (f w))) ws"

definition watchers_on :: "watchers \<Rightarrow> topic \<Rightarrow> nat list" where
  "watchers_on ws t = (case map_of (by_topic ws) (fst t) of
     None \<Rightarrow> []
   | Some of_kind \<Rightarrow> (case map_of of_kind (snd t) of None \<Rightarrow> [] | Some of_id \<Rightarrow> of_id))"

definition dispatch :: "watchers \<Rightarrow> topic list \<Rightarrow> string \<Rightarrow> int \<Rightarrow> (nat \<Rightarrow> watcher) \<Rightarrow> nat \<Rightarrow> watcher" where
  "dispatch ws ts x at = fold (\<lambda>t. wake_each (watchers_on ws t) (Some (x, at))) ts"

definition taken :: "watcher \<Rightarrow> string list \<times> watcher" where
  "taken r = (txids r, r\<lparr>txids := [], woken := False, answered_heard_at := heard_at r, heard_at := None\<rparr>)"

definition register_topic :: "nat \<Rightarrow> topic \<Rightarrow> watchers \<Rightarrow> watchers" where
  "register_topic w t ws =
     (let of_kind = (case map_of (by_topic ws) (fst t) of Some m \<Rightarrow> m | None \<Rightarrow> []);
          of_id = (case map_of of_kind (snd t) of Some l \<Rightarrow> l | None \<Rightarrow> [])
      in ws\<lparr>by_topic := AList.update (fst t) (AList.update (snd t) (List.insert w of_id) of_kind) (by_topic ws)\<rparr>)"

definition register :: "nat \<Rightarrow> topic list \<Rightarrow> watchers \<Rightarrow> watchers" where
  "register w ts ws = fold (register_topic w) ts (ws\<lparr>every_watcher := List.insert w (every_watcher ws)\<rparr>)"

definition unregister_topic :: "nat \<Rightarrow> topic \<Rightarrow> watchers \<Rightarrow> watchers" where
  "unregister_topic w t ws = (case map_of (by_topic ws) (fst t) of
     None \<Rightarrow> ws
   | Some of_kind \<Rightarrow>
       (let of_kind' = (case map_of of_kind (snd t) of
            None \<Rightarrow> of_kind
          | Some of_id \<Rightarrow>
              (let left = removeAll w of_id
               in if left = [] then AList.delete (snd t) of_kind else AList.update (snd t) left of_kind))
        in ws\<lparr>by_topic := (if of_kind' = [] then AList.delete (fst t) (by_topic ws)
                           else AList.update (fst t) of_kind' (by_topic ws))\<rparr>))"

definition unregister :: "nat \<Rightarrow> topic list \<Rightarrow> watchers \<Rightarrow> watchers" where
  "unregister w ts ws = fold (unregister_topic w) ts (ws\<lparr>every_watcher := removeAll w (every_watcher ws)\<rparr>)"

subsection \<open>The listener\<close>

datatype listener_state = Opening | Up | Down

datatype loss = Dropped | Silent | Unconfirmed

record listening =
  lstate :: listener_state
  settled :: bool
  connection :: "nat option"
  lost_since :: bool
  idle :: bool
  down_since :: "int option"

text \<open>\<open>opened\<close>: the listener as its first watch opens it.\<close>

definition opened :: listening where
  "opened = \<lparr>lstate = Opening, settled = False, connection = None, lost_since = False, idle = False, down_since = None\<rparr>"

text \<open>What \<open>countDown\<close> leaves of when the listener went down.\<close>

definition count_down :: "int \<Rightarrow> listening \<Rightarrow> listening" where
  "count_down now l = (if down_since l = None then l
     else l\<lparr>down_since := (if lstate l = Up then None else Some now)\<rparr>)"

definition stood :: "int \<Rightarrow> nat \<Rightarrow> listening \<Rightarrow> listening" where
  "stood now c l = count_down now (l\<lparr>lstate := Up, connection := Some c, lost_since := False, settled := True\<rparr>)"

definition lost :: "int \<Rightarrow> bool \<Rightarrow> listening \<Rightarrow> listening" where
  "lost now watched l = l\<lparr>lstate := Opening, connection := None, lost_since := True,
     down_since := (if watched \<and> down_since l = None then Some now else down_since l), settled := False\<rparr>"

definition unopened :: "int \<Rightarrow> listening \<Rightarrow> listening" where
  "unopened now l = count_down now (l\<lparr>lstate := Down, connection := None, lost_since := True,
     down_since := (if down_since l = None then Some now else down_since l), settled := True\<rparr>)"

text \<open>\<open>confirmed\<close> up to its round trip, with the connection it proves; and what it does with the answer.\<close>

definition begin_confirm :: "listening \<Rightarrow> listening \<times> nat option" where
  "begin_confirm l = (if \<not> idle l then (l, None)
     else if lstate l \<noteq> Up then (l\<lparr>idle := False\<rparr>, None)
     else (case connection l of
         None \<Rightarrow> (l\<lparr>idle := False\<rparr>, None)
       | Some c \<Rightarrow> (l\<lparr>idle := False, lstate := Opening, settled := False\<rparr>, Some c)))"

definition end_confirm :: "nat \<Rightarrow> listening \<Rightarrow> listening" where
  "end_confirm c l = (if connection l \<noteq> Some c then l else l\<lparr>lstate := Up, settled := True\<rparr>)"

subsection \<open>The hub\<close>

text \<open>
  Where a watch stands: proving the idle listener's connection, waiting for the listener to settle, or
  registered, between two of its \<open>next\<close>s, waiting in one (on its clock too, or on its wake alone), or
  gathering what arrives once woken.
\<close>

datatype watch_phase = Proving nat | Settling | Between | Waiting (on_clock: bool) | Gathering

record watch =
  topics :: "topic list"
  phase :: watch_phase

text \<open>A connection that stands, with what it has yet to hear and whether a watch asked to give it up.\<close>

record standing_connection =
  conn :: nat
  payloads :: "notification list"
  drop_asked :: bool

record hub =
  watchers :: watchers
  watcher_of :: "nat \<Rightarrow> watcher"
  watches :: "(nat, watch) js_map"
  listener :: "listening option"
  connected :: "standing_connection option"
  next_conn :: nat
  clock :: int

definition new_hub :: hub where
  "new_hub = \<lparr>watchers = \<lparr>by_topic = [], every_watcher = []\<rparr>, watcher_of = (\<lambda>_. fresh_watcher),
     watches = [], listener = None, connected = None, next_conn = 0, clock = 0\<rparr>"

definition wake_all :: "hub \<Rightarrow> hub" where
  "wake_all h = h\<lparr>watcher_of := wake_each (every_watcher (watchers h)) None (watcher_of h)\<rparr>"

definition watch_of :: "hub \<Rightarrow> nat \<rightharpoonup> watch" where
  "watch_of h = map_of (watches h)"

definition set_phase :: "nat \<Rightarrow> watch_phase \<Rightarrow> hub \<Rightarrow> hub" where
  "set_phase w p h = (case watch_of h w of
     None \<Rightarrow> h
   | Some x \<Rightarrow> h\<lparr>watches := AList.update w (x\<lparr>phase := p\<rparr>) (watches h)\<rparr>)"

definition ask_drop :: "nat \<Rightarrow> hub \<Rightarrow> hub" where
  "ask_drop c h = h\<lparr>connected := map_option (\<lambda>s. if conn s = c then s\<lparr>drop_asked := True\<rparr> else s) (connected h)\<rparr>"

text \<open>\<open>watchOn\<close>: a watch opened holds the listener, which the first opens, and proves it where it stands idle.\<close>

definition open_watch :: "nat \<Rightarrow> topic list \<Rightarrow> hub \<Rightarrow> hub option" where
  "open_watch w ts h = (if ts = [] \<or> watch_of h w \<noteq> None then None
     else (let (l, proving) = begin_confirm (case listener h of Some l \<Rightarrow> l | None \<Rightarrow> opened)
           in Some (h\<lparr>listener := Some l,
                watches := AList.update w
                  \<lparr>topics = ts, phase = (case proving of Some c \<Rightarrow> Proving c | None \<Rightarrow> Settling)\<rparr> (watches h)\<rparr>)))"

definition proved_watch :: "nat \<Rightarrow> bool \<Rightarrow> hub \<Rightarrow> hub option" where
  "proved_watch w proved h = (case (watch_of h w, listener h) of
     (Some x, Some l) \<Rightarrow> (case phase x of
         Proving c \<Rightarrow> Some (set_phase w Settling
           (if proved then h\<lparr>listener := Some (end_confirm c l)\<rparr> else ask_drop c h))
       | _ \<Rightarrow> None)
   | _ \<Rightarrow> None)"

definition settled_watch :: "nat \<Rightarrow> bool \<Rightarrow> hub \<Rightarrow> hub option" where
  "settled_watch w timed_out h = (case (watch_of h w, listener h) of
     (Some x, Some l) \<Rightarrow>
       if phase x = Settling \<and> (settled l \<or> timed_out)
       then Some (set_phase w Between (h\<lparr>watchers := register w (topics x) (watchers h),
              watcher_of := (watcher_of h)(w := fresh_watcher)\<rparr>))
       else None
   | _ \<Rightarrow> None)"

text \<open>\<open>nextOf\<close>: waits for its wake, and on its clock too where no connection stands; once woken, it gathers.\<close>

definition next_watch :: "nat \<Rightarrow> hub \<Rightarrow> hub option" where
  "next_watch w h = (case (watch_of h w, listener h) of
     (Some x, Some l) \<Rightarrow> if phase x = Between then Some (set_phase w (Waiting (lstate l \<noteq> Up)) h) else None
   | _ \<Rightarrow> None)"

definition waken_watch :: "nat \<Rightarrow> hub \<Rightarrow> hub option" where
  "waken_watch w h = (case watch_of h w of
     Some x \<Rightarrow> (case phase x of
         Waiting _ \<Rightarrow> if woken (watcher_of h w) then Some (set_phase w Gathering h) else None
       | _ \<Rightarrow> None)
   | None \<Rightarrow> None)"

definition answer_watch :: "nat \<Rightarrow> hub \<Rightarrow> hub \<times> (nat \<times> string list) option" where
  "answer_watch w h =
     (let (answer, r) = taken (watcher_of h w)
      in (set_phase w Between (h\<lparr>watcher_of := (watcher_of h)(w := r)\<rparr>), Some (w, answer)))"

text \<open>A watch whose scope closes, wherever it stands; one given up as it proves gives the connection up too.\<close>

definition close_watch :: "nat \<Rightarrow> hub \<Rightarrow> hub option" where
  "close_watch w h = (case watch_of h w of
     None \<Rightarrow> None
   | Some x \<Rightarrow>
       (let h' = h\<lparr>watches := AList.delete w (watches h)\<rparr>
        in Some (case phase x of
             Proving c \<Rightarrow> ask_drop c h'
           | Settling \<Rightarrow> h'
           | _ \<Rightarrow> (let ws = unregister w (topics x) (watchers h)
                in h'\<lparr>watchers := ws,
                     listener := (if every_watcher ws = [] then map_option (\<lambda>l. l\<lparr>idle := True\<rparr>) (listener h) else listener h)\<rparr>))))"

text \<open>\<open>connected\<close>, once Postgres acknowledged the \<open>LISTEN\<close> (\<open>stood\<close>) or did not (\<open>unopened\<close>), and once it is lost.\<close>

definition listen_stood :: "hub \<Rightarrow> hub option" where
  "listen_stood h = (case (listener h, connected h) of
     (Some l, None) \<Rightarrow> Some (wake_all (h\<lparr>listener := Some (stood (clock h) (next_conn h) l),
        connected := Some \<lparr>conn = next_conn h, payloads = [], drop_asked = False\<rparr>, next_conn := Suc (next_conn h)\<rparr>))
   | _ \<Rightarrow> None)"

definition listen_refused :: "hub \<Rightarrow> hub option" where
  "listen_refused h = (case (listener h, connected h) of
     (Some l, None) \<Rightarrow> Some (h\<lparr>listener := Some (unopened (clock h) l)\<rparr>)
   | _ \<Rightarrow> None)"

definition lose :: "loss \<Rightarrow> hub \<Rightarrow> hub option" where
  "lose why h = (case (listener h, connected h) of
     (Some l, Some s) \<Rightarrow> if why = Unconfirmed \<and> \<not> drop_asked s then None
       else Some (wake_all (h\<lparr>listener := Some (lost (clock h) (every_watcher (watchers h) \<noteq> []) l), connected := None\<rparr>))
   | _ \<Rightarrow> None)"

definition hear :: "hub \<Rightarrow> hub option" where
  "hear h = (case connected h of
     None \<Rightarrow> None
   | Some s \<Rightarrow> (case payloads s of
       [] \<Rightarrow> None
     | p # ps \<Rightarrow> (let h' = h\<lparr>connected := Some (s\<lparr>payloads := ps\<rparr>)\<rparr> in Some (case p of
           Change ts x \<Rightarrow> h'\<lparr>watcher_of := dispatch (watchers h) ts x (clock h) (watcher_of h)\<rparr>
         | Heartbeat _ \<Rightarrow> h'
         | Undecoded \<Rightarrow> h'))))"

text \<open>What the channel carries reaches the connection that stands, and the idle listener is let go with its connection.\<close>

definition notified :: "notification \<Rightarrow> hub \<Rightarrow> hub" where
  "notified p h = h\<lparr>connected := map_option (\<lambda>s. s\<lparr>payloads := payloads s @ [p]\<rparr>) (connected h)\<rparr>"

definition let_go_idle :: "hub \<Rightarrow> hub option" where
  "let_go_idle h = (if listener h = None \<or> watches h \<noteq> [] then None
     else Some (h\<lparr>listener := None, connected := None\<rparr>))"

datatype hub_label =
    Opens nat "topic list" | Proved nat bool | Settles nat bool | Nexts nat | Wakes nat | Gathered nat
  | Falls_Back nat | Closes nat | Listens | Refused | Hears | Loses loss | Arrives notification | Idles | Ticks nat

definition answers :: "nat \<Rightarrow> watch_phase \<Rightarrow> hub \<Rightarrow> (hub \<times> (nat \<times> string list) option) option" where
  "answers w p h = (case watch_of h w of
     Some x \<Rightarrow> if phase x = p then Some (answer_watch w h) else None
   | None \<Rightarrow> None)"

fun hub_step :: "hub_label \<Rightarrow> hub \<Rightarrow> (hub \<times> (nat \<times> string list) option) option" where
  "hub_step (Opens w ts) h = map_option (\<lambda>h. (h, None)) (open_watch w ts h)"
| "hub_step (Proved w proved) h = map_option (\<lambda>h. (h, None)) (proved_watch w proved h)"
| "hub_step (Settles w timed_out) h = map_option (\<lambda>h. (h, None)) (settled_watch w timed_out h)"
| "hub_step (Nexts w) h = map_option (\<lambda>h. (h, None)) (next_watch w h)"
| "hub_step (Wakes w) h = map_option (\<lambda>h. (h, None)) (waken_watch w h)"
| "hub_step (Gathered w) h = answers w Gathering h"
| "hub_step (Falls_Back w) h = answers w (Waiting True) h"
| "hub_step (Closes w) h = map_option (\<lambda>h. (h, None)) (close_watch w h)"
| "hub_step Listens h = map_option (\<lambda>h. (h, None)) (listen_stood h)"
| "hub_step Refused h = map_option (\<lambda>h. (h, None)) (listen_refused h)"
| "hub_step Hears h = map_option (\<lambda>h. (h, None)) (hear h)"
| "hub_step (Loses why) h = map_option (\<lambda>h. (h, None)) (lose why h)"
| "hub_step (Arrives p) h = Some (notified p h, None)"
| "hub_step Idles h = map_option (\<lambda>h. (h, None)) (let_go_idle h)"
| "hub_step (Ticks n) h = Some (h\<lparr>clock := clock h + int n\<rparr>, None)"

end
