(* ===== verification/Sync_Hub_Properties.thy ===== *)
theory Sync_Hub_Properties
  imports Sync_Hub
begin

text \<open>
  What the hub (\<open>Sync_Hub\<close>) promises the readers that wait on it: a change committed on a watch's topics
  is never lost to it, whatever connections are lost, proved, or refused meanwhile; a watch waits on its
  wake alone only on a connection that stands; and what a \<open>next\<close> answers is what was heard on the
  watch's own topics, and all of it.
\<close>

subsection \<open>The watchers by their topics\<close>

lemma watchers_on_register_topic:
  "v \<in> set (watchers_on (register_topic w t ws) u) \<longleftrightarrow> v \<in> set (watchers_on ws u) \<or> v = w \<and> u = t"
  by (cases t; cases u) (auto simp: watchers_on_def register_topic_def Let_def split: option.splits if_splits)

lemma removeAll_only: "removeAll w l = [] \<Longrightarrow> v \<in> set l \<Longrightarrow> v = w"
  by (induction l) (auto split: if_splits)

lemma delete_only: "AList.delete b m = [] \<Longrightarrow> Some y = map_of m c \<Longrightarrow> c = b"
  using map_of_delete [of b m] by (metis fun_upd_other map_of.simps(1) option.distinct(1))

lemma watchers_on_unregister_topic:
  "v \<in> set (watchers_on (unregister_topic w t ws) u) \<longleftrightarrow> v \<in> set (watchers_on ws u) \<and> \<not> (v = w \<and> u = t)"
  by (cases t; cases u)
    (auto simp: watchers_on_def unregister_topic_def Let_def dest: removeAll_only delete_only split: option.splits if_splits)

lemma watchers_on_frame [simp]: "watchers_on (ws\<lparr>every_watcher := l\<rparr>) t = watchers_on ws t"
  by (simp add: watchers_on_def)

lemma every_register_topic [simp]: "every_watcher (register_topic w t ws) = every_watcher ws"
  by (simp add: register_topic_def Let_def)

lemma every_unregister_topic [simp]: "every_watcher (unregister_topic w t ws) = every_watcher ws"
  by (simp add: unregister_topic_def Let_def split: option.splits)

lemma register_spec:
  "v \<in> set (watchers_on (register w ts ws) u) \<longleftrightarrow> v \<in> set (watchers_on ws u) \<or> v = w \<and> u \<in> set ts"
  "set (every_watcher (register w ts ws)) = insert w (set (every_watcher ws))"
proof -
  have "v \<in> set (watchers_on (fold (register_topic w) ts ws') u) \<longleftrightarrow> v \<in> set (watchers_on ws' u) \<or> v = w \<and> u \<in> set ts" for ws'
    by (induction ts arbitrary: ws') (auto simp: watchers_on_register_topic)
  then show "v \<in> set (watchers_on (register w ts ws) u) \<longleftrightarrow> v \<in> set (watchers_on ws u) \<or> v = w \<and> u \<in> set ts"
    unfolding register_def by simp
  have "every_watcher (fold (register_topic w) ts ws') = every_watcher ws'" for ws'
    by (induction ts arbitrary: ws') simp_all
  then show "set (every_watcher (register w ts ws)) = insert w (set (every_watcher ws))"
    unfolding register_def by simp
qed

lemma unregister_spec:
  "v \<in> set (watchers_on (unregister w ts ws) u) \<longleftrightarrow> v \<in> set (watchers_on ws u) \<and> \<not> (v = w \<and> u \<in> set ts)"
  "set (every_watcher (unregister w ts ws)) = set (every_watcher ws) - {w}"
proof -
  have "v \<in> set (watchers_on (fold (unregister_topic w) ts ws') u) \<longleftrightarrow> v \<in> set (watchers_on ws' u) \<and> \<not> (v = w \<and> u \<in> set ts)" for ws'
    by (induction ts arbitrary: ws') (auto simp: watchers_on_unregister_topic)
  then show "v \<in> set (watchers_on (unregister w ts ws) u) \<longleftrightarrow> v \<in> set (watchers_on ws u) \<and> \<not> (v = w \<and> u \<in> set ts)"
    unfolding unregister_def by simp
  have "every_watcher (fold (unregister_topic w) ts ws') = every_watcher ws'" for ws'
    by (induction ts arbitrary: ws') simp_all
  then show "set (every_watcher (unregister w ts ws)) = set (every_watcher ws) - {w}"
    unfolding unregister_def by simp
qed

subsection \<open>Wakes\<close>

lemma woken_wake [simp]: "woken (wake heard r)"
  by (simp add: wake_def)

lemma wake_twice [simp]: "wake heard (wake heard r) = wake heard r"
  by (cases r) (auto simp: wake_def split: option.splits prod.splits)

lemma txids_wake [simp]: "set (txids (wake heard r)) = set (txids r) \<union> (case heard of None \<Rightarrow> {} | Some (x, _) \<Rightarrow> {x})"
  by (auto simp: wake_def split: option.splits prod.splits)

lemma wake_each_at: "wake_each ws heard f w = (if w \<in> set ws then wake heard (f w) else f w)"
proof (induction ws arbitrary: f)
  case (Cons v ws)
  have "wake_each (v # ws) heard f = wake_each ws heard (f(v := wake heard (f v)))" by (simp add: wake_each_def)
  then show ?case using Cons by auto
qed (simp add: wake_each_def)

lemma dispatch_at:
  "dispatch ws ts x at f w = (if \<exists>t \<in> set ts. w \<in> set (watchers_on ws t) then wake (Some (x, at)) (f w) else f w)"
proof (induction ts arbitrary: f)
  case (Cons t ts)
  have "dispatch ws (t # ts) x at f = dispatch ws ts x at (wake_each (watchers_on ws t) (Some (x, at)) f)"
    by (simp add: dispatch_def)
  then show ?case using Cons by (auto simp: wake_each_at)
qed (simp add: dispatch_def)

lemma woken_dispatch: "woken (f w) \<Longrightarrow> woken (dispatch ws ts x at f w)"
  by (simp add: dispatch_at)

subsection \<open>What holds of the hub\<close>

fun registered :: "watch_phase \<Rightarrow> bool" where
  "registered (Proving _) = False"
| "registered Settling = False"
| "registered _ = True"

definition index_ok :: "hub \<Rightarrow> bool" where
  "index_ok h \<longleftrightarrow>
     (\<forall>w t. w \<in> set (watchers_on (watchers h) t) \<longleftrightarrow> (\<exists>x. watch_of h w = Some x \<and> registered (phase x) \<and> t \<in> set (topics x))) \<and>
     (\<forall>w. w \<in> set (every_watcher (watchers h)) \<longleftrightarrow> (\<exists>x. watch_of h w = Some x \<and> registered (phase x)))"

definition link_ok :: "hub \<Rightarrow> bool" where
  "link_ok h \<longleftrightarrow> (case listener h of
     None \<Rightarrow> connected h = None \<and> watches h = []
   | Some l \<Rightarrow> connection l = map_option conn (connected h) \<and> (lstate l = Up \<longrightarrow> connected h \<noteq> None))"

definition waits_ok :: "hub \<Rightarrow> bool" where
  "waits_ok h \<longleftrightarrow> (\<forall>w x. watch_of h w = Some x \<longrightarrow> phase x = Waiting False \<longrightarrow> woken (watcher_of h w) \<or> connected h \<noteq> None)"

lemma watch_of_set_phase:
  "watch_of (set_phase w p h) v = (if v = w then map_option (\<lambda>x. x\<lparr>phase := p\<rparr>) (watch_of h w) else watch_of h v)"
  by (auto simp: set_phase_def watch_of_def split: option.splits)

lemma set_phase_frame [simp]:
  "watchers (set_phase w p h) = watchers h" "watcher_of (set_phase w p h) = watcher_of h"
  "listener (set_phase w p h) = listener h" "connected (set_phase w p h) = connected h"
  "watches (set_phase w p h) = [] \<longleftrightarrow> watches h = []"
  by (auto simp: set_phase_def watch_of_def split: option.splits)

definition hub_ok :: "hub \<Rightarrow> bool" where
  "hub_ok h \<longleftrightarrow> index_ok h \<and> link_ok h \<and> waits_ok h"

lemma hub_okI: "index_ok h \<Longrightarrow> link_ok h \<Longrightarrow> waits_ok h \<Longrightarrow> hub_ok h"
  by (simp add: hub_ok_def)

lemma hub_okD: "hub_ok h \<Longrightarrow> index_ok h" "hub_ok h \<Longrightarrow> link_ok h" "hub_ok h \<Longrightarrow> waits_ok h"
  by (simp_all add: hub_ok_def)

lemma hub_ok_new: "hub_ok new_hub"
  by (simp add: hub_ok_def index_ok_def link_ok_def waits_ok_def new_hub_def watch_of_def watchers_on_def)

lemma index_ok_watchers_on: "index_ok h \<Longrightarrow> w \<in> set (watchers_on (watchers h) t) \<longleftrightarrow>
    (\<exists>x. watch_of h w = Some x \<and> registered (phase x) \<and> t \<in> set (topics x))"
  unfolding index_ok_def by blast

lemma index_ok_every: "index_ok h \<Longrightarrow> w \<in> set (every_watcher (watchers h)) \<longleftrightarrow> (\<exists>x. watch_of h w = Some x \<and> registered (phase x))"
  unfolding index_ok_def by blast

lemma index_ok_cong: "index_ok h \<Longrightarrow> watchers h' = watchers h \<Longrightarrow> watch_of h' = watch_of h \<Longrightarrow> index_ok h'"
  by (simp add: index_ok_def)

lemma index_ok_phase:
  assumes "index_ok h" "watch_of h w = Some x" "registered p \<longleftrightarrow> registered (phase x)"
  shows "index_ok (set_phase w p h)"
  using assms unfolding index_ok_def watch_of_set_phase set_phase_frame by auto

lemma link_ok_phase: "link_ok h \<Longrightarrow> link_ok (set_phase w p h)"
  by (simp add: link_ok_def split: option.splits)

lemma waits_ok_phase: "waits_ok h \<Longrightarrow> p \<noteq> Waiting False \<Longrightarrow> waits_ok (set_phase w p h)"
  unfolding waits_ok_def watch_of_set_phase set_phase_frame by auto

lemma begin_confirm_link:
  "begin_confirm l = (l', proving) \<Longrightarrow> connection l' = connection l \<and> (lstate l' = Up \<longrightarrow> lstate l = Up)"
  by (auto simp: begin_confirm_def split: if_splits option.splits)

lemma conn_ask_drop:
  "map_option conn (connected (ask_drop c h)) = map_option conn (connected h)"
  "connected (ask_drop c h) = None \<longleftrightarrow> connected h = None"
  by (auto simp: ask_drop_def option.map_comp comp_def intro!: option.map_cong)

lemma ask_drop_frame [simp]:
  "watchers (ask_drop c h) = watchers h" "watcher_of (ask_drop c h) = watcher_of h"
  "listener (ask_drop c h) = listener h" "watches (ask_drop c h) = watches h" "watch_of (ask_drop c h) v = watch_of h v"
  by (simp_all add: ask_drop_def watch_of_def)

lemma hub_ok_ask_drop: "hub_ok h \<Longrightarrow> hub_ok (ask_drop c h)"
  by (auto simp: hub_ok_def index_ok_def link_ok_def waits_ok_def conn_ask_drop split: option.splits)

lemma hub_ok_open: "open_watch w ts h = Some h' \<Longrightarrow> hub_ok h \<Longrightarrow> hub_ok h'"
proof -
  assume step: "open_watch w ts h = Some h'" and ok: "hub_ok h"
  obtain l proving where confirm: "begin_confirm (case listener h of Some l \<Rightarrow> l | None \<Rightarrow> opened) = (l, proving)" by fastforce
  define p where "p = (case proving of Some c \<Rightarrow> Proving c | None \<Rightarrow> Settling)"
  have p: "\<not> registered p" "p \<noteq> Waiting False" by (simp_all add: p_def split: option.splits)
  have new: "watch_of h w = None" and h': "h' = h\<lparr>listener := Some l, watches := AList.update w \<lparr>topics = ts, phase = p\<rparr> (watches h)\<rparr>"
    using step confirm by (auto simp: open_watch_def p_def split: if_splits)
  have w': "watch_of h' v = (if v = w then Some \<lparr>topics = ts, phase = p\<rparr> else watch_of h v)" for v by (simp add: h' watch_of_def)
  have "index_ok h'" using hub_okD(1) [OF ok] new p(1) unfolding index_ok_def w' by (auto simp: h')
  moreover have "connection (case listener h of Some l \<Rightarrow> l | None \<Rightarrow> opened) = map_option conn (connected h)"
    "lstate (case listener h of Some l \<Rightarrow> l | None \<Rightarrow> opened) = Up \<longrightarrow> connected h \<noteq> None"
    using hub_okD(2) [OF ok] by (auto simp: link_ok_def opened_def split: option.splits)
  then have "link_ok h'" using begin_confirm_link [OF confirm] by (simp add: link_ok_def h')
  moreover have "waits_ok h'" using hub_okD(3) [OF ok] p(2) unfolding waits_ok_def w' by (auto simp: h')
  ultimately show ?thesis by (intro hub_okI)
qed

lemma hub_ok_proved: "proved_watch w proved h = Some h' \<Longrightarrow> hub_ok h \<Longrightarrow> hub_ok h'"
proof -
  assume step: "proved_watch w proved h = Some h'" and ok: "hub_ok h"
  obtain x l c where x: "watch_of h w = Some x" "listener h = Some l" "phase x = Proving c"
    and h': "h' = set_phase w Settling (if proved then h\<lparr>listener := Some (end_confirm c l)\<rparr> else ask_drop c h)"
    using step by (auto simp: proved_watch_def split: option.splits watch_phase.splits)
  have "hub_ok (h\<lparr>listener := Some (end_confirm c l)\<rparr>)"
    using ok x(2) by (auto simp: hub_ok_def index_ok_def link_ok_def waits_ok_def end_confirm_def watch_of_def)
  then have "hub_ok (if proved then h\<lparr>listener := Some (end_confirm c l)\<rparr> else ask_drop c h)" (is "hub_ok ?h")
    using hub_ok_ask_drop [OF ok] by simp
  moreover have "watch_of ?h w = Some x" using x(1) by (simp add: watch_of_def)
  ultimately show ?thesis unfolding h' using x(3)
    by (intro hub_okI index_ok_phase link_ok_phase waits_ok_phase) (auto simp: hub_ok_def)
qed

lemma settledD:
  assumes "settled_watch w timed_out h = Some h'"
  obtains x where "watch_of h w = Some x" "phase x = Settling"
    "h' = set_phase w Between (h\<lparr>watchers := register w (topics x) (watchers h), watcher_of := (watcher_of h)(w := fresh_watcher)\<rparr>)"
  using assms by (auto simp: settled_watch_def split: option.splits if_splits)

lemma hub_ok_settled: "settled_watch w timed_out h = Some h' \<Longrightarrow> hub_ok h \<Longrightarrow> hub_ok h'"
proof -
  assume step: "settled_watch w timed_out h = Some h'" and ok: "hub_ok h"
  obtain x where x: "watch_of h w = Some x" "phase x = Settling"
    and h': "h' = set_phase w Between (h\<lparr>watchers := register w (topics x) (watchers h), watcher_of := (watcher_of h)(w := fresh_watcher)\<rparr>)"
      (is "_ = set_phase w Between ?h")
    by (rule settledD [OF step])
  have w': "watch_of h' v = (if v = w then Some (x\<lparr>phase := Between\<rparr>) else watch_of h v)" for v
    using x(1) by (simp add: h' watch_of_set_phase) (simp add: watch_of_def)
  have "index_ok h'" unfolding index_ok_def w'
    using hub_okD(1) [OF ok] x by (auto simp: h' register_spec index_ok_watchers_on index_ok_every)
  moreover have "link_ok ?h" "waits_ok ?h"
    using hub_okD(2,3) [OF ok] x by (auto simp: link_ok_def waits_ok_def watch_of_def split: option.splits)
  ultimately show ?thesis unfolding h' by (intro hub_okI link_ok_phase waits_ok_phase) simp_all
qed

lemma hub_ok_next: "next_watch w h = Some h' \<Longrightarrow> hub_ok h \<Longrightarrow> hub_ok h'"
proof -
  assume step: "next_watch w h = Some h'" and ok: "hub_ok h"
  obtain x l where x: "watch_of h w = Some x" "listener h = Some l" "phase x = Between"
    and h': "h' = set_phase w (Waiting (lstate l \<noteq> Up)) h"
    using step by (auto simp: next_watch_def split: option.splits if_splits)
  have "connected h \<noteq> None" if "lstate l = Up" using hub_okD(2) [OF ok] x(2) that by (simp add: link_ok_def)
  then have "waits_ok h'" using hub_okD(3) [OF ok] unfolding h' waits_ok_def watch_of_set_phase set_phase_frame by auto
  then show ?thesis using ok x unfolding h' by (intro hub_okI index_ok_phase link_ok_phase) (auto simp: hub_ok_def)
qed

lemma hub_ok_waken: "waken_watch w h = Some h' \<Longrightarrow> hub_ok h \<Longrightarrow> hub_ok h'"
proof -
  assume step: "waken_watch w h = Some h'" and ok: "hub_ok h"
  obtain x where "watch_of h w = Some x" "registered (phase x)" "h' = set_phase w Gathering h"
    using step by (auto simp: waken_watch_def split: option.splits if_splits watch_phase.splits)
  then show ?thesis using ok by (intro hub_okI) (auto simp: hub_ok_def intro!: index_ok_phase link_ok_phase waits_ok_phase)
qed

lemma hub_ok_answer: "answers w p h = Some (h', a) \<Longrightarrow> registered p \<Longrightarrow> hub_ok h \<Longrightarrow> hub_ok h'"
proof -
  assume step: "answers w p h = Some (h', a)" and p: "registered p" and ok: "hub_ok h"
  obtain x where x: "watch_of h w = Some x" "phase x = p" and h': "h' = set_phase w Between (h\<lparr>watcher_of := (watcher_of h)(w := snd (taken (watcher_of h w)))\<rparr>)"
      (is "_ = set_phase w Between ?h")
    using step by (auto simp: answers_def answer_watch_def split: option.splits if_splits prod.splits)
  have w': "watch_of h' v = (if v = w then Some (x\<lparr>phase := Between\<rparr>) else watch_of h v)" for v
    using x(1) by (simp add: h' watch_of_set_phase) (simp add: watch_of_def)
  have "waits_ok h'" using hub_okD(3) [OF ok] unfolding waits_ok_def w' by (simp add: h')
  moreover have "index_ok ?h" "link_ok ?h" "watch_of ?h w = Some x"
    using hub_okD(1,2) [OF ok] x(1) by (auto simp: index_ok_def link_ok_def watch_of_def split: option.splits)
  ultimately show ?thesis using p x(2) unfolding h' by (intro hub_okI index_ok_phase link_ok_phase) auto
qed

lemma hub_ok_close: "close_watch w h = Some h' \<Longrightarrow> hub_ok h \<Longrightarrow> hub_ok h'"
proof -
  assume step: "close_watch w h = Some h'" and ok: "hub_ok h"
  let ?h = "h\<lparr>watches := AList.delete w (watches h)\<rparr>"
  obtain x where x: "watch_of h w = Some x" using step by (auto simp: close_watch_def split: option.splits)
  have w: "watch_of ?h v = (if v = w then None else watch_of h v)" for v by (simp add: watch_of_def)
  have held: "listener h \<noteq> None" using hub_okD(2) [OF ok] x by (auto simp: link_ok_def watch_of_def split: option.splits)
  have unregistered: "hub_ok ?h" if "\<not> registered (phase x)"
  proof (rule hub_okI)
    show "index_ok ?h" using hub_okD(1) [OF ok] x that unfolding index_ok_def w by auto
    show "link_ok ?h" using hub_okD(2) [OF ok] held by (auto simp: link_ok_def split: option.splits)
    show "waits_ok ?h" using hub_okD(3) [OF ok] unfolding waits_ok_def w by auto
  qed
  show ?thesis
  proof (cases "registered (phase x)")
    case False
    then show ?thesis using step x unregistered
      by (auto simp: close_watch_def Let_def hub_ok_ask_drop split: watch_phase.splits)
  next
    case True
    let ?ws = "unregister w (topics x) (watchers h)"
    have h': "h' = ?h\<lparr>watchers := ?ws, listener := (if every_watcher ?ws = [] then map_option (\<lambda>l. l\<lparr>idle := True\<rparr>) (listener h) else listener h)\<rparr>"
      using step x True by (auto simp: close_watch_def Let_def split: watch_phase.splits)
    have w': "watch_of h' v = (if v = w then None else watch_of h v)" for v by (simp add: h' watch_of_def)
    have "index_ok h'" unfolding index_ok_def w'
      using hub_okD(1) [OF ok] x by (auto simp: h' unregister_spec index_ok_watchers_on index_ok_every)
    moreover have "link_ok h'" using hub_okD(2) [OF ok] held by (auto simp: link_ok_def h' split: option.splits)
    moreover have "waits_ok h'" using hub_okD(3) [OF ok] unfolding waits_ok_def w' by (auto simp: h')
    ultimately show ?thesis by (intro hub_okI)
  qed
qed

lemma wake_all_frame [simp]:
  "watchers (wake_all h) = watchers h" "listener (wake_all h) = listener h" "connected (wake_all h) = connected h"
  "watches (wake_all h) = watches h" "watch_of (wake_all h) = watch_of h"
  by (simp_all add: wake_all_def watch_of_def)

lemma woken_wake_all: "index_ok h \<Longrightarrow> watch_of h w = Some x \<Longrightarrow> registered (phase x) \<Longrightarrow> woken (watcher_of (wake_all h) w)"
  by (simp add: wake_all_def wake_each_at index_ok_every)

lemma hub_ok_wake_all: "index_ok h \<Longrightarrow> link_ok h \<Longrightarrow> hub_ok (wake_all h)"
proof (rule hub_okI)
  assume ok: "index_ok h" and "link_ok h"
  then show "index_ok (wake_all h)" "link_ok (wake_all h)" by (auto simp: index_ok_def link_ok_def split: option.splits)
  show "waits_ok (wake_all h)" using woken_wake_all [OF ok] by (simp add: waits_ok_def)
qed

lemma hub_ok_listens: "listen_stood h = Some h' \<Longrightarrow> hub_ok h \<Longrightarrow> hub_ok h'"
proof -
  assume step: "listen_stood h = Some h'" and ok: "hub_ok h"
  obtain l where l: "listener h = Some l"
    and h': "h' = wake_all (h\<lparr>listener := Some (stood (clock h) (next_conn h) l),
        connected := Some \<lparr>conn = next_conn h, payloads = [], drop_asked = False\<rparr>, next_conn := Suc (next_conn h)\<rparr>)"
    using step by (auto simp: listen_stood_def split: option.splits)
  have "connection (stood (clock h) (next_conn h) l) = Some (next_conn h)" by (simp add: stood_def count_down_def)
  then show ?thesis unfolding h' using hub_okD(1) [OF ok]
    by (intro hub_ok_wake_all) (auto simp: link_ok_def index_ok_def watch_of_def)
qed

lemma hub_ok_refused: "listen_refused h = Some h' \<Longrightarrow> hub_ok h \<Longrightarrow> hub_ok h'"
proof -
  assume step: "listen_refused h = Some h'" and ok: "hub_ok h"
  obtain l where l: "connected h = None" and h': "h' = h\<lparr>listener := Some (unopened (clock h) l)\<rparr>"
    using step by (auto simp: listen_refused_def split: option.splits)
  have "connection (unopened (clock h) l) = None" "lstate (unopened (clock h) l) \<noteq> Up" by (simp_all add: unopened_def count_down_def)
  then show ?thesis using ok l by (auto simp: h' hub_ok_def link_ok_def index_ok_def waits_ok_def watch_of_def)
qed

lemma hub_ok_lose: "lose why h = Some h' \<Longrightarrow> hub_ok h \<Longrightarrow> hub_ok h'"
proof -
  assume step: "lose why h = Some h'" and ok: "hub_ok h"
  obtain l where h': "h' = wake_all (h\<lparr>listener := Some (lost (clock h) (every_watcher (watchers h) \<noteq> []) l), connected := None\<rparr>)"
    using step by (auto simp: lose_def split: option.splits if_splits)
  show ?thesis unfolding h' using hub_okD(1) [OF ok]
    by (intro hub_ok_wake_all) (auto simp: link_ok_def index_ok_def watch_of_def lost_def)
qed

lemma hearD:
  assumes "hear h = Some h'"
  obtains s p ps where "connected h = Some s" "payloads s = p # ps" "connected h' = Some (s\<lparr>payloads := ps\<rparr>)"
    "watchers h' = watchers h" "watches h' = watches h" "listener h' = listener h"
    "watcher_of h' = (case p of Change ts x \<Rightarrow> dispatch (watchers h) ts x (clock h) (watcher_of h) | _ \<Rightarrow> watcher_of h)"
  using assms by (auto simp: hear_def Let_def split: option.splits list.splits notification.splits)

lemma hub_ok_hear: "hear h = Some h' \<Longrightarrow> hub_ok h \<Longrightarrow> hub_ok h'"
proof -
  assume step: "hear h = Some h'" and ok: "hub_ok h"
  obtain s ps where h': "connected h = Some s" "connected h' = Some (s\<lparr>payloads := ps\<rparr>)"
    "watchers h' = watchers h" "watches h' = watches h" "listener h' = listener h" by (rule hearD [OF step])
  then show ?thesis using ok by (auto simp: hub_ok_def index_ok_def link_ok_def waits_ok_def watch_of_def split: option.splits)
qed

lemma hub_ok_notified: "hub_ok h \<Longrightarrow> hub_ok (notified p h)"
  by (auto simp: hub_ok_def index_ok_def link_ok_def waits_ok_def watch_of_def notified_def option.map_comp comp_def split: option.splits)

lemma hub_ok_idle: "let_go_idle h = Some h' \<Longrightarrow> hub_ok h \<Longrightarrow> hub_ok h'"
  by (auto simp: let_go_idle_def hub_ok_def index_ok_def link_ok_def waits_ok_def watch_of_def split: if_splits)

lemma hub_ok_step: "hub_step lab h = Some (h', a) \<Longrightarrow> hub_ok h \<Longrightarrow> hub_ok h'"
proof (cases lab)
  case (Ticks n)
  assume "hub_step lab h = Some (h', a)" "hub_ok h"
  then show ?thesis using Ticks by (auto simp: hub_ok_def index_ok_def link_ok_def waits_ok_def watch_of_def split: option.splits)
qed (auto intro: hub_ok_open hub_ok_proved hub_ok_settled hub_ok_next hub_ok_waken hub_ok_answer hub_ok_close
    hub_ok_listens hub_ok_refused hub_ok_lose hub_ok_hear hub_ok_notified hub_ok_idle)

subsection \<open>A hub among its readers and the database\<close>

text \<open>
  What commits, in order, and how far each reader has read; a reader reads again before each \<open>next\<close>, as
  \<open>watch.ts\<close> asks, so it owes a read from its watch's opening, and from each answer, until it reads. Kept
  beside it: what a watch's topics carried over the connection since it registered, and what its \<open>next\<close>s
  answered.
\<close>

record world =
  hub :: hub
  commits :: "(topic list \<times> string) list"
  read_to :: "nat \<Rightarrow> nat"
  owes :: "nat \<Rightarrow> bool"
  heard_of :: "nat \<Rightarrow> string list"
  answered_of :: "nat \<Rightarrow> string list"

definition new_world :: world where
  "new_world = \<lparr>hub = new_hub, commits = [], read_to = (\<lambda>_. 0), owes = (\<lambda>_. False),
     heard_of = (\<lambda>_. []), answered_of = (\<lambda>_. [])\<rparr>"

definition on_topics :: "hub \<Rightarrow> nat \<Rightarrow> topic list \<Rightarrow> bool" where
  "on_topics h w ts = (case watch_of h w of
     Some x \<Rightarrow> registered (phase x) \<and> (\<exists>t \<in> set ts. t \<in> set (topics x))
   | None \<Rightarrow> False)"

definition heard_now :: "hub \<Rightarrow> nat \<Rightarrow> string list" where
  "heard_now h w = (case connected h of
     Some s \<Rightarrow> (case payloads s of Change ts x # _ \<Rightarrow> if on_topics h w ts then [x] else [] | _ \<Rightarrow> [])
   | None \<Rightarrow> [])"

datatype world_label = Commits "topic list" string | Reads nat | Does hub_label

fun allowed :: "hub_label \<Rightarrow> world \<Rightarrow> bool" where
  "allowed (Arrives (Change _ _)) s = False"
| "allowed (Nexts w) s = (\<not> owes s w)"
| "allowed _ s = True"

definition hub_done :: "hub_label \<Rightarrow> hub \<times> (nat \<times> string list) option \<Rightarrow> world \<Rightarrow> world" where
  "hub_done lab came s = (case lab of
       Settles w _ \<Rightarrow> s\<lparr>owes := (owes s)(w := True), heard_of := (heard_of s)(w := []), answered_of := (answered_of s)(w := [])\<rparr>
     | Hears \<Rightarrow> s\<lparr>heard_of := (\<lambda>w. heard_of s w @ heard_now (hub s) w)\<rparr>
     | _ \<Rightarrow> (case snd came of
           Some (w, answer) \<Rightarrow> s\<lparr>owes := (owes s)(w := True), answered_of := (answered_of s)(w := answered_of s w @ answer)\<rparr>
         | None \<Rightarrow> s))\<lparr>hub := fst came\<rparr>"

fun world_step :: "world_label \<Rightarrow> world \<Rightarrow> world option" where
  "world_step (Commits ts x) s = Some (s\<lparr>commits := commits s @ [(ts, x)], hub := notified (Change ts x) (hub s)\<rparr>)"
| "world_step (Reads w) s =
     (if owes s w then Some (s\<lparr>owes := (owes s)(w := False), read_to := (read_to s)(w := length (commits s))\<rparr>) else None)"
| "world_step (Does lab) s =
     (if allowed lab s then map_option (\<lambda>came. hub_done lab came s) (hub_step lab (hub s)) else None)"

fun world_run :: "world_label list \<Rightarrow> world \<Rightarrow> world option" where
  "world_run [] s = Some s"
| "world_run (lab # labs) s = (case world_step lab s of None \<Rightarrow> None | Some s' \<Rightarrow> world_run labs s')"

text \<open>A commit on the watch's topics that its reader has not read.\<close>

definition unread :: "world \<Rightarrow> nat \<Rightarrow> nat \<Rightarrow> bool" where
  "unread s w i \<longleftrightarrow> i < length (commits s) \<and> read_to s w \<le> i \<and> on_topics (hub s) w (fst (commits s ! i))"

definition carried :: "hub \<Rightarrow> topic list \<times> string \<Rightarrow> bool" where
  "carried h c \<longleftrightarrow> (\<exists>s. connected h = Some s \<and> Change (fst c) (snd c) \<in> set (payloads s))"

definition stirred :: "hub \<Rightarrow> nat \<Rightarrow> topic list \<times> string \<Rightarrow> bool" where
  "stirred h w c \<longleftrightarrow> (\<exists>x. watch_of h w = Some x \<and> phase x = Gathering) \<or> woken (watcher_of h w) \<or> connected h = None \<or> carried h c"

definition world_ok :: "world \<Rightarrow> bool" where
  "world_ok s \<longleftrightarrow> hub_ok (hub s) \<and> (\<forall>w i. unread s w i \<longrightarrow> owes s w \<or> stirred (hub s) w (commits s ! i)) \<and>
     (\<forall>w x. watch_of (hub s) w = Some x \<longrightarrow> registered (phase x) \<longrightarrow>
        set (heard_of s w) = set (answered_of s w) \<union> set (txids (watcher_of (hub s) w)))"

subsection \<open>What a step keeps of a watch\<close>

definition same_stand :: "hub \<Rightarrow> hub \<Rightarrow> nat \<Rightarrow> bool" where
  "same_stand h h' w \<longleftrightarrow> (\<forall>x'. watch_of h' w = Some x' \<longrightarrow> registered (phase x') \<longrightarrow>
     (\<exists>x. watch_of h w = Some x \<and> registered (phase x) \<and> topics x' = topics x \<and> (phase x = Gathering \<longrightarrow> phase x' = Gathering)))"

definition keeps :: "hub \<Rightarrow> hub \<Rightarrow> nat \<Rightarrow> bool" where
  "keeps h h' w \<longleftrightarrow> same_stand h h' w \<and> (\<forall>c. on_topics h' w (fst c) \<longrightarrow> on_topics h w (fst c) \<and> (stirred h w c \<longrightarrow> stirred h' w c))"

lemma same_stand_refl: "watch_of h' w = watch_of h w \<Longrightarrow> same_stand h h' w"
  by (simp add: same_stand_def)

lemma same_stand_topics: "same_stand h h' w \<Longrightarrow> on_topics h' w ts \<Longrightarrow> on_topics h w ts"
  unfolding same_stand_def on_topics_def by (auto split: option.splits)

lemma keepsI:
  assumes stand: "same_stand h h' w" and woken: "woken (watcher_of h w) \<longrightarrow> woken (watcher_of h' w)"
    and conn: "connected h' = None \<or> (\<exists>s s'. connected h = Some s \<and> connected h' = Some s' \<and> set (payloads s) \<subseteq> set (payloads s'))"
  shows "keeps h h' w"
  unfolding keeps_def
proof (intro allI impI conjI stand)
  fix c :: "topic list \<times> string" assume on: "on_topics h' w (fst c)"
  then show "on_topics h w (fst c)" by (rule same_stand_topics [OF stand])
  obtain x' where x': "watch_of h' w = Some x'" "registered (phase x')" using on by (auto simp: on_topics_def split: option.splits)
  then obtain x where x: "watch_of h w = Some x" "phase x = Gathering \<longrightarrow> phase x' = Gathering" using stand unfolding same_stand_def by blast
  assume "stirred h w c"
  then consider "phase x = Gathering" | "woken (watcher_of h w)" | "connected h = None" | "carried h c"
    using x(1) unfolding stirred_def by auto
  then show "stirred h' w c"
  proof cases
    case 1
    then show ?thesis using x x' by (simp add: stirred_def)
  next
    case 2
    then show ?thesis using woken by (simp add: stirred_def)
  next
    case 3
    then show ?thesis using conn by (auto simp: stirred_def)
  next
    case 4
    then show ?thesis using conn unfolding stirred_def carried_def by (cases "connected h' = None") (simp, fastforce)
  qed
qed

lemma same_stand_phase:
  assumes "watch_of h v = Some x" "registered p \<longrightarrow> registered (phase x) \<and> (phase x = Gathering \<longrightarrow> p = Gathering)"
  shows "same_stand h (set_phase v p h) w"
  unfolding same_stand_def watch_of_set_phase using assms by auto

lemma keeps_open: "open_watch v ts h = Some h' \<Longrightarrow> keeps h h' w"
proof -
  assume "open_watch v ts h = Some h'"
  then obtain l p where h': "h' = h\<lparr>listener := Some l, watches := AList.update v \<lparr>topics = ts, phase = p\<rparr> (watches h)\<rparr>" "\<not> registered p"
    by (auto simp: open_watch_def Let_def split: prod.splits option.splits if_splits)
  then have "watch_of h' u = (if u = v then Some \<lparr>topics = ts, phase = p\<rparr> else watch_of h u)" for u by (simp add: watch_of_def)
  then have "same_stand h h' w" using h'(2) by (simp add: same_stand_def)
  then show ?thesis by (rule keepsI) (auto simp: h'(1))
qed

lemma payloads_ask_drop: "connected (ask_drop c h) = None \<or>
    (\<exists>s s'. connected h = Some s \<and> connected (ask_drop c h) = Some s' \<and> set (payloads s) \<subseteq> set (payloads s'))"
  by (cases "connected h") (auto simp: ask_drop_def)

lemma keeps_proved: "proved_watch v proved h = Some h' \<Longrightarrow> keeps h h' w"
proof -
  assume step: "proved_watch v proved h = Some h'"
  obtain x l c where x: "watch_of h v = Some x" "phase x = Proving c"
    and h': "h' = set_phase v Settling (if proved then h\<lparr>listener := Some (end_confirm c l)\<rparr> else ask_drop c h)"
      (is "_ = set_phase v Settling ?h")
    using step by (auto simp: proved_watch_def split: option.splits watch_phase.splits)
  have w: "watch_of ?h = watch_of h" by (auto simp: watch_of_def fun_eq_iff)
  have "same_stand h h' w" using x unfolding h' same_stand_def watch_of_set_phase w by auto
  then show ?thesis using payloads_ask_drop [of c h] unfolding h' by (intro keepsI) auto
qed

lemma keeps_settled: "settled_watch v timed_out h = Some h' \<Longrightarrow> v \<noteq> w \<Longrightarrow> keeps h h' w"
proof -
  assume step: "settled_watch v timed_out h = Some h'" and other: "v \<noteq> w"
  obtain x :: watch where h': "h' = set_phase v Between (h\<lparr>watchers := register v (topics x) (watchers h), watcher_of := (watcher_of h)(v := fresh_watcher)\<rparr>)"
    by (rule settledD [OF step])
  have "watch_of h' w = watch_of h w" using other unfolding h' watch_of_set_phase by (simp add: watch_of_def)
  then show ?thesis using other by (intro keepsI same_stand_refl) (auto simp: h')
qed

lemma keeps_next: "next_watch v h = Some h' \<Longrightarrow> keeps h h' w"
  by (auto simp: next_watch_def split: option.splits if_splits intro!: keepsI same_stand_phase)

lemma keeps_waken: "waken_watch v h = Some h' \<Longrightarrow> keeps h h' w"
  by (auto simp: waken_watch_def split: option.splits if_splits watch_phase.splits intro!: keepsI same_stand_phase)

lemma answersD:
  assumes "answers v p h = Some (h', a)"
  obtains x where "watch_of h v = Some x" "phase x = p" "a = Some (v, txids (watcher_of h v))"
    "h' = set_phase v Between (h\<lparr>watcher_of := (watcher_of h)(v := snd (taken (watcher_of h v)))\<rparr>)"
  using assms by (auto simp: answers_def answer_watch_def taken_def split: option.splits if_splits)

lemma keeps_answer: "answers v p h = Some (h', a) \<Longrightarrow> v \<noteq> w \<Longrightarrow> keeps h h' w"
proof -
  assume step: "answers v p h = Some (h', a)" and other: "v \<noteq> w"
  have h': "h' = set_phase v Between (h\<lparr>watcher_of := (watcher_of h)(v := snd (taken (watcher_of h v)))\<rparr>)" by (rule answersD [OF step])
  have "watch_of h' w = watch_of h w" using other unfolding h' watch_of_set_phase by (simp add: watch_of_def)
  then show ?thesis using other by (intro keepsI same_stand_refl) (auto simp: h')
qed

lemma keeps_close: "close_watch v h = Some h' \<Longrightarrow> keeps h h' w"
proof -
  assume step: "close_watch v h = Some h'"
  have w: "watch_of h' w = (if w = v then None else watch_of h w)" and r: "watcher_of h' = watcher_of h"
    using step by (auto simp: close_watch_def Let_def watch_of_def ask_drop_def split: option.splits watch_phase.splits)
  have "connected h' = connected h \<or> (\<exists>c. connected h' = connected (ask_drop c h))"
    using step by (auto simp: close_watch_def Let_def ask_drop_def split: option.splits watch_phase.splits)
  then have "connected h' = None \<or> (\<exists>s s'. connected h = Some s \<and> connected h' = Some s' \<and> set (payloads s) \<subseteq> set (payloads s'))"
    using payloads_ask_drop [of _ h] by (metis option.exhaust subset_refl)
  then show ?thesis using w r by (intro keepsI) (auto simp: same_stand_def)
qed

lemma keeps_listens: "listen_stood h = Some h' \<Longrightarrow> index_ok h \<Longrightarrow> keeps h h' w"
proof -
  assume step: "listen_stood h = Some h'" and ok: "index_ok h"
  obtain g where g: "h' = wake_all g" "watchers g = watchers h" "watches g = watches h"
    using step by (auto simp: listen_stood_def split: option.splits)
  have w: "watch_of g = watch_of h" "watch_of h' = watch_of h" using g by (simp_all add: watch_of_def fun_eq_iff)
  then have "index_ok g" using ok g by (simp add: index_ok_def)
  then have "stirred h' w c" if "on_topics h' w (fst c)" for c
    using that woken_wake_all [of g w] w unfolding g(1) stirred_def on_topics_def by (auto split: option.splits)
  then show ?thesis using w unfolding keeps_def by (auto simp: same_stand_refl on_topics_def)
qed

lemma keeps_refused: "listen_refused h = Some h' \<Longrightarrow> keeps h h' w"
  by (auto simp: listen_refused_def watch_of_def split: option.splits intro!: keepsI same_stand_refl)

lemma keeps_lose: "lose why h = Some h' \<Longrightarrow> keeps h h' w"
  by (auto simp: lose_def wake_all_def wake_each_at watch_of_def split: option.splits if_splits intro!: keepsI same_stand_refl)

lemma keeps_idle: "let_go_idle h = Some h' \<Longrightarrow> keeps h h' w"
  by (auto simp: let_go_idle_def watch_of_def split: if_splits intro!: keepsI same_stand_refl)

lemma keeps_notified: "keeps h (notified p h) w"
  by (rule keepsI; cases "connected h") (auto simp: notified_def watch_of_def same_stand_def)

lemma on_topics_watchers: "index_ok h \<Longrightarrow> on_topics h w ts \<longleftrightarrow> (\<exists>t \<in> set ts. w \<in> set (watchers_on (watchers h) t))"
  by (auto simp: on_topics_def index_ok_watchers_on split: option.splits)

lemma keeps_hear: "hear h = Some h' \<Longrightarrow> index_ok h \<Longrightarrow> keeps h h' w"
proof -
  assume step: "hear h = Some h'" and ok: "index_ok h"
  obtain s p ps where h: "connected h = Some s" "payloads s = p # ps" "connected h' = Some (s\<lparr>payloads := ps\<rparr>)" "watches h' = watches h"
    and r: "watcher_of h' = (case p of Change ts x \<Rightarrow> dispatch (watchers h) ts x (clock h) (watcher_of h) | _ \<Rightarrow> watcher_of h)"
    by (rule hearD [OF step])
  have w: "watch_of h' = watch_of h" using h(4) by (simp add: watch_of_def fun_eq_iff)
  have woken: "woken (watcher_of h w) \<Longrightarrow> woken (watcher_of h' w)" by (simp add: r woken_dispatch split: notification.splits)
  have "stirred h' w c" if on: "on_topics h' w (fst c)" and "stirred h w c" for c
  proof (cases "p = Change (fst c) (snd c)")
    case True
    have "\<exists>t \<in> set (fst c). w \<in> set (watchers_on (watchers h) t)"
      using on w on_topics_watchers [OF ok] by (simp add: on_topics_def)
    then have "woken (watcher_of h' w)" by (simp add: r True dispatch_at)
    then show ?thesis by (simp add: stirred_def)
  next
    case False
    have "carried h c \<Longrightarrow> carried h' c" using False h by (auto simp: carried_def)
    then show ?thesis using \<open>stirred h w c\<close> woken w h(1) by (auto simp: stirred_def)
  qed
  then show ?thesis using w unfolding keeps_def by (auto simp: same_stand_refl on_topics_def)
qed

lemma keeps_step:
  assumes "hub_step lab h = Some (h', a)" "hub_ok h" "\<forall>b. lab \<noteq> Settles w b" "\<forall>answer. a \<noteq> Some (w, answer)"
  shows "keeps h h' w"
proof -
  have ok: "index_ok h" by (rule hub_okD(1) [OF assms(2)])
  show ?thesis
  proof (cases lab)
    case (Gathered v)
    then have step: "answers v Gathering h = Some (h', a)" using assms(1) by simp
    have "v \<noteq> w" by (rule answersD [OF step]) (use assms(4) in auto)
    then show ?thesis by (rule keeps_answer [OF step])
  next
    case (Falls_Back v)
    then have step: "answers v (Waiting True) h = Some (h', a)" using assms(1) by simp
    have "v \<noteq> w" by (rule answersD [OF step]) (use assms(4) in auto)
    then show ?thesis by (rule keeps_answer [OF step])
  next
    case (Settles v b)
    then show ?thesis using assms(1,3) keeps_settled [of v b h h' w] by auto
  next
    case (Ticks n)
    then show ?thesis using assms(1) by (auto simp: watch_of_def intro!: keepsI same_stand_refl)
  qed (use assms(1) ok in \<open>auto intro: keeps_open keeps_proved keeps_next keeps_waken keeps_close keeps_listens
      keeps_refused keeps_hear keeps_lose keeps_notified keeps_idle\<close>)
qed

lemma txids_step:
  assumes "hub_step lab h = Some (h', a)" "\<forall>b. lab \<noteq> Settles w b" "a = None" "lab \<noteq> Hears"
  shows "set (txids (watcher_of h' w)) = set (txids (watcher_of h w))"
proof (cases lab)
  case (Settles v b)
  then have "settled_watch v b h = Some h'" "v \<noteq> w" using assms(1,2) by auto
  then show ?thesis by (elim settledD) simp
next
  case (Gathered v)
  then show ?thesis using assms(1,3) by (auto elim: answersD)
next
  case (Falls_Back v)
  then show ?thesis using assms(1,3) by (auto elim: answersD)
qed (use assms in \<open>auto simp: open_watch_def proved_watch_def next_watch_def waken_watch_def close_watch_def listen_stood_def
    listen_refused_def lose_def notified_def let_go_idle_def wake_all_def wake_each_at Let_def
    split: option.splits if_splits watch_phase.splits prod.splits\<close>)

subsection \<open>What holds of the hub among its readers\<close>

lemma hub_done_frame [simp]:
  "hub (hub_done lab came s) = fst came" "commits (hub_done lab came s) = commits s" "read_to (hub_done lab came s) = read_to s"
  by (auto simp: hub_done_def split: hub_label.splits option.splits)

lemma hub_step_answer: "hub_step lab h = Some (h', a) \<Longrightarrow> a \<noteq> None \<Longrightarrow> (\<exists>w. lab = Gathered w \<or> lab = Falls_Back w)"
  by (cases lab) auto

lemma hub_done_quiet:
  assumes "hub_step lab (hub s) = Some (h', a)" "\<forall>b. lab \<noteq> Settles w b" "\<forall>answer. a \<noteq> Some (w, answer)"
  shows "owes (hub_done lab (h', a) s) w = owes s w"
    "answered_of (hub_done lab (h', a) s) w = answered_of s w"
    "heard_of (hub_done lab (h', a) s) w = heard_of s w @ (if lab = Hears then heard_now (hub s) w else [])"
  using assms hub_step_answer [OF assms(1)] by (auto simp: hub_done_def split: hub_label.splits option.splits)

lemma unread_done: "unread (hub_done lab (h', a) s) w i \<longleftrightarrow>
    i < length (commits s) \<and> read_to s w \<le> i \<and> on_topics h' w (fst (commits s ! i))"
  by (simp add: unread_def)

lemma stirred_coming:
  assumes "hub_step lab (hub s) = Some (h', a)" "hub_ok (hub s)"
    and ok: "\<And>i. unread s w i \<Longrightarrow> owes s w \<or> stirred (hub s) w (commits s ! i)"
    and un: "unread (hub_done lab (h', a) s) w i"
  shows "owes (hub_done lab (h', a) s) w \<or> stirred h' w (commits s ! i)"
proof (cases "(\<exists>b. lab = Settles w b) \<or> (\<exists>answer. a = Some (w, answer))")
  case True
  then have "owes (hub_done lab (h', a) s) w"
  proof
    assume "\<exists>answer. a = Some (w, answer)"
    then show ?thesis using hub_step_answer [OF assms(1)] by (auto simp: hub_done_def split: hub_label.splits)
  qed (auto simp: hub_done_def)
  then show ?thesis ..
next
  case False
  then have keep: "keeps (hub s) h' w" using keeps_step [OF assms(1,2)] by blast
  have "unread s w i" using un keep unfolding unread_done by (auto simp: unread_def keeps_def)
  then have "owes s w \<or> stirred (hub s) w (commits s ! i)" by (rule ok)
  moreover have "owes (hub_done lab (h', a) s) w = owes s w" using hub_done_quiet(1) [OF assms(1)] False by blast
  ultimately show ?thesis using keep un unfolding unread_done keeps_def by blast
qed

lemma txids_heard:
  assumes step: "hear h = Some h'" and ok: "index_ok h"
  shows "set (txids (watcher_of h' w)) = set (txids (watcher_of h w)) \<union> set (heard_now h w)"
proof -
  obtain s p ps where h: "connected h = Some s" "payloads s = p # ps"
    and r: "watcher_of h' = (case p of Change ts x \<Rightarrow> dispatch (watchers h) ts x (clock h) (watcher_of h) | _ \<Rightarrow> watcher_of h)"
    by (rule hearD [OF step])
  show ?thesis using h by (cases p) (auto simp: r heard_now_def dispatch_at on_topics_watchers [OF ok])
qed

lemma heard_answered:
  assumes step: "hub_step lab (hub s) = Some (h', a)" and hub: "hub_ok (hub s)"
    and ok: "\<And>x. watch_of (hub s) w = Some x \<Longrightarrow> registered (phase x) \<Longrightarrow>
        set (heard_of s w) = set (answered_of s w) \<union> set (txids (watcher_of (hub s) w))"
    and x': "watch_of h' w = Some x'" "registered (phase x')"
  shows "set (heard_of (hub_done lab (h', a) s) w) = set (answered_of (hub_done lab (h', a) s) w) \<union> set (txids (watcher_of h' w))"
proof -
  consider (new) b where "lab = Settles w b" | (answer) y where "a = Some (w, y)"
    | (quiet) "\<forall>b. lab \<noteq> Settles w b" "\<forall>y. a \<noteq> Some (w, y)" by blast
  then show ?thesis
  proof cases
    case new
    then have "settled_watch w b (hub s) = Some h'" using step by auto
    then have "txids (watcher_of h' w) = []" by (elim settledD) (simp add: fresh_watcher_def)
    then show ?thesis using new by (simp add: hub_done_def)
  next
    case answer
    then obtain v p where v: "lab = Gathered v \<and> p = Gathering \<or> lab = Falls_Back v \<and> p = Waiting True" and "answers v p (hub s) = Some (h', a)"
      using hub_step_answer [OF step] step by auto
    then have did: "v = w" "y = txids (watcher_of (hub s) w)" "txids (watcher_of h' w) = []"
        and was: "\<exists>x. watch_of (hub s) w = Some x \<and> registered (phase x)"
      using answer by (auto elim!: answersD simp: taken_def)
    have "heard_of (hub_done lab (h', a) s) w = heard_of s w" "answered_of (hub_done lab (h', a) s) w = answered_of s w @ y"
      using v answer by (auto simp: hub_done_def)
    then show ?thesis using ok was did by auto
  next
    case quiet
    have "same_stand (hub s) h' w" using keeps_step [OF step hub quiet] by (simp add: keeps_def)
    then obtain x where "watch_of (hub s) w = Some x" "registered (phase x)" using x' unfolding same_stand_def by blast
    then have was: "set (heard_of s w) = set (answered_of s w) \<union> set (txids (watcher_of (hub s) w))" by (rule ok)
    note did = hub_done_quiet [OF step quiet]
    show ?thesis
    proof (cases "lab = Hears")
      case True
      then have "hear (hub s) = Some h'" using step by auto
      from txids_heard [OF this hub_okD(1) [OF hub]] show ?thesis using was did True by auto
    next
      case False
      have "set (txids (watcher_of h' w)) = set (txids (watcher_of (hub s) w))"
      proof (cases "a = None")
        case True
        then show ?thesis by (rule txids_step [OF step quiet(1) _ False])
      next
        case a: False
        then obtain v p where "answers v p (hub s) = Some (h', a)" using hub_step_answer [OF step] step by auto
        then show ?thesis using quiet(2) by (auto elim!: answersD)
      qed
      then show ?thesis using was did False by simp
    qed
  qed
qed

lemma world_ok_step:
  assumes step: "world_step lab s = Some s'" and ok: "world_ok s"
  shows "world_ok s'"
proof -
  have hub: "hub_ok (hub s)" and stir: "\<And>w i. unread s w i \<Longrightarrow> owes s w \<or> stirred (hub s) w (commits s ! i)"
    and heard: "\<And>w x. watch_of (hub s) w = Some x \<Longrightarrow> registered (phase x) \<Longrightarrow>
        set (heard_of s w) = set (answered_of s w) \<union> set (txids (watcher_of (hub s) w))"
    using ok unfolding world_ok_def by blast+
  show ?thesis
  proof (cases lab)
    case (Commits ts x)
    let ?h = "notified (Change ts x) (hub s)"
    have s': "s' = s\<lparr>commits := commits s @ [(ts, x)], hub := ?h\<rparr>" using step Commits by simp
    have watch: "watch_of ?h = watch_of (hub s)" "watcher_of ?h = watcher_of (hub s)" by (simp_all add: notified_def watch_of_def fun_eq_iff)
    have "owes s' w \<or> stirred (hub s') w (commits s' ! i)" if un: "unread s' w i" for w i
    proof (cases "i < length (commits s)")
      case True
      then have "unread s w i" using un watch(1) by (simp add: s' unread_def nth_append on_topics_def)
      then have "owes s w \<or> stirred (hub s) w (commits s ! i)" by (rule stir)
      moreover have "on_topics ?h w (fst (commits s ! i))" using un True by (simp add: s' unread_def nth_append)
      ultimately have "owes s w \<or> stirred ?h w (commits s ! i)"
        using keeps_notified [of "hub s" "Change ts x" w] unfolding keeps_def by blast
      then show ?thesis using True by (simp add: s' nth_append)
    next
      case False
      then have "commits s' ! i = (ts, x)" using un by (simp add: s' unread_def nth_append)
      then show ?thesis by (cases "connected (hub s)") (simp_all add: s' stirred_def carried_def notified_def)
    qed
    then show ?thesis using hub_ok_notified [OF hub] heard watch by (simp add: world_ok_def s')
  next
    case (Reads v)
    then have s': "s' = s\<lparr>owes := (owes s)(v := False), read_to := (read_to s)(v := length (commits s))\<rparr>"
      using step by (auto split: if_splits)
    have "unread s' w i \<Longrightarrow> w \<noteq> v \<and> unread s w i" for w i by (auto simp: s' unread_def split: if_splits)
    then show ?thesis using hub stir heard by (auto simp: world_ok_def s')
  next
    case (Does hl)
    then obtain h' a where run: "hub_step hl (hub s) = Some (h', a)" and s': "s' = hub_done hl (h', a) s"
      using step by (auto split: if_splits)
    have "hub_ok (hub s')" using hub_ok_step [OF run hub] by (simp add: s')
    moreover have "\<forall>w i. unread s' w i \<longrightarrow> owes s' w \<or> stirred (hub s') w (commits s' ! i)"
      using stirred_coming [OF run hub stir] by (simp add: s')
    moreover have "\<forall>w x. watch_of (hub s') w = Some x \<longrightarrow> registered (phase x) \<longrightarrow>
        set (heard_of s' w) = set (answered_of s' w) \<union> set (txids (watcher_of (hub s') w))"
      using heard_answered [OF run hub heard] by (simp add: s')
    ultimately show ?thesis by (simp add: world_ok_def)
  qed
qed

lemma world_ok_new: "world_ok new_world"
  using hub_ok_new by (simp add: world_ok_def new_world_def unread_def) (simp add: new_hub_def watch_of_def)

lemma world_ok_run: "world_run labs s = Some s' \<Longrightarrow> world_ok s \<Longrightarrow> world_ok s'"
  by (induction labs arbitrary: s) (auto split: option.splits dest: world_ok_step)

lemmas world_reached = world_ok_run [OF _ world_ok_new]

text \<open>
  C8: no commit is ever missed: whatever connections are lost, refused and proved and however the fibers
  interleave, while a watch stands on a topic a commit touched that its reader has not read, the reader
  is about to read, or the watch is woken or gathering, or the commit is on its way over the standing
  connection, or no connection stands and the watch does not wait on its wake alone.
\<close>

theorem no_commit_missed:
  assumes "world_run labs new_world = Some s" "watch_of (hub s) w = Some x" "unread s w i"
  shows "owes s w \<or> phase x = Gathering \<or> woken (watcher_of (hub s) w) \<or> carried (hub s) (commits s ! i) \<or>
    connected (hub s) = None \<and> phase x \<noteq> Waiting False"
proof -
  have ok: "world_ok s" by (rule world_reached [OF assms(1)])
  then have "owes s w \<or> stirred (hub s) w (commits s ! i)" using assms(3) by (simp add: world_ok_def)
  moreover have "waits_ok (hub s)" using ok by (simp add: world_ok_def hub_ok_def)
  ultimately show ?thesis using assms(2) unfolding stirred_def waits_ok_def by auto
qed

text \<open>A run: a watch opened on an agent's topic, the connection standing, its reader reading, a commit.\<close>

definition sample_labels :: "world_label list" where
  "sample_labels = [Does (Opens 1 [(Agent_Topic, ''a'')]), Does Listens, Does (Settles 1 False), Reads 1,
     Does (Nexts 1), Commits [(Agent_Topic, ''a'')] ''7'']"

lemma sample_runs: "\<exists>s. world_run sample_labels new_world = Some s \<and> commits s = [([(Agent_Topic, ''a'')], ''7'')] \<and> read_to s 1 = 0 \<and>
    owes s 1 = False \<and> watch_of (hub s) 1 = Some \<lparr>topics = [(Agent_Topic, ''a'')], phase = Waiting False\<rparr> \<and>
    woken (watcher_of (hub s) 1) = False \<and>
    connected (hub s) = Some \<lparr>conn = 0, payloads = [Change [(Agent_Topic, ''a'')] ''7''], drop_asked = False\<rparr>"
  by (simp add: sample_labels_def new_world_def new_hub_def open_watch_def begin_confirm_def opened_def watch_of_def
      listen_stood_def stood_def count_down_def wake_all_def wake_each_def settled_watch_def set_phase_def register_def
      register_topic_def next_watch_def hub_done_def notified_def fresh_watcher_def)

lemma sample_unread:
  assumes "commits s = [([(Agent_Topic, ''a'')], ''7'')]" "read_to s 1 = 0"
    "watch_of (hub s) 1 = Some \<lparr>topics = [(Agent_Topic, ''a'')], phase = Waiting False\<rparr>"
  shows "unread s 1 0"
  using assms by (simp add: unread_def on_topics_def)

theorem no_commit_missed_witness:
  "\<exists>s. world_run sample_labels new_world = Some s \<and> carried (hub s) (commits s ! 0)"
proof -
  obtain s where s: "world_run sample_labels new_world = Some s" "commits s = [([(Agent_Topic, ''a'')], ''7'')]" "read_to s 1 = 0"
      "owes s 1 = False" "watch_of (hub s) 1 = Some \<lparr>topics = [(Agent_Topic, ''a'')], phase = Waiting False\<rparr>"
      "woken (watcher_of (hub s) 1) = False"
    using sample_runs by blast
  have "carried (hub s) (commits s ! 0)"
    using no_commit_missed [OF s(1,5) sample_unread [OF s(2,3,5)]] s(4,6) by simp
  then show ?thesis using s(1) by blast
qed

lemma hears_all:
  assumes "world_ok s" "connected (hub s) = Some c" "watch_of (hub s) w = Some x" "on_topics (hub s) w (fst k)" "stirred (hub s) w k"
  shows "\<exists>s' c'. world_run (replicate (length (payloads c)) (Does Hears)) s = Some s' \<and> connected (hub s') = Some c' \<and> payloads c' = [] \<and>
    watch_of (hub s') w = Some x \<and> stirred (hub s') w k"
  using assms
proof (induction "payloads c" arbitrary: s c)
  case Nil
  then show ?case by auto
next
  case (Cons p ps)
  have "payloads c = p # ps" by (rule Cons.hyps(2) [symmetric])
  then have step: "hear (hub s) \<noteq> None" using Cons.prems(2) by (simp add: hear_def Let_def)
  then obtain h where h: "hear (hub s) = Some h" by blast
  then have next_h: "connected h = Some (c\<lparr>payloads := ps\<rparr>)" "watch_of h = watch_of (hub s)"
    using Cons.hyps(2) Cons.prems(2) by (auto elim!: hearD simp: watch_of_def fun_eq_iff)
  have hub: "hub_ok (hub s)" using Cons.prems(1) by (simp add: world_ok_def)
  have on: "on_topics h w (fst k)" using Cons.prems(4) next_h(2) by (simp add: on_topics_def)
  then have "stirred h w k" using keeps_hear [OF h hub_okD(1) [OF hub]] Cons.prems(5) unfolding keeps_def by blast
  define s1 where "s1 = hub_done Hears (h, None) s"
  have run: "world_step (Does Hears) s = Some s1" using h by (simp add: s1_def)
  have "world_ok s1" by (rule world_ok_step [OF run Cons.prems(1)])
  moreover have hub1: "hub s1 = h" by (simp add: s1_def)
  ultimately obtain s' c' where "world_run (replicate (length ps) (Does Hears)) s1 = Some s'" "connected (hub s') = Some c'"
      "payloads c' = []" "watch_of (hub s') w = Some x" "stirred (hub s') w k"
    using Cons.hyps(1) [of "c\<lparr>payloads := ps\<rparr>" s1] next_h Cons.prems(3) on \<open>stirred h w k\<close> by auto
  moreover have "length (payloads c) = Suc (length ps)" using Cons.hyps(2) by (metis length_Cons)
  ultimately show ?case using run by auto
qed

lemma world_run_append: "world_run (as @ bs) s = (case world_run as s of None \<Rightarrow> None | Some s' \<Rightarrow> world_run bs s')"
  by (induction as arbitrary: s) (auto split: option.splits)

text \<open>
  C9: a commit a waiting watch's reader has not read reaches it: once the standing connection has heard what
  it carries, the watch wakes, its \<open>next\<close> answers, and the reader is due to read again.
\<close>

theorem commit_reaches_reader:
  assumes run: "world_run labs new_world = Some s" and unread: "unread s w i" and read: "\<not> owes s w"
    and x: "watch_of (hub s) w = Some x" "phase x = Waiting b" and c: "connected (hub s) = Some c"
  shows "\<exists>s'. world_run (replicate (length (payloads c)) (Does Hears) @ [Does (Wakes w), Does (Gathered w)]) s = Some s' \<and> owes s' w"
proof -
  have ok: "world_ok s" by (rule world_reached [OF run])
  then have "stirred (hub s) w (commits s ! i)" using unread read unfolding world_ok_def by blast
  moreover have "on_topics (hub s) w (fst (commits s ! i))" using unread by (simp add: unread_def)
  ultimately obtain s' c' where s': "world_run (replicate (length (payloads c)) (Does Hears)) s = Some s'"
      "connected (hub s') = Some c'" "payloads c' = []" "watch_of (hub s') w = Some x" "stirred (hub s') w (commits s ! i)"
    using hears_all [OF ok c x(1)] by blast
  have woken: "woken (watcher_of (hub s') w)" using s'(2-5) x(2) by (auto simp: stirred_def carried_def)
  have "world_run [Does (Wakes w), Does (Gathered w)] s' \<noteq> None \<and>
      (\<forall>s''. world_run [Does (Wakes w), Does (Gathered w)] s' = Some s'' \<longrightarrow> owes s'' w)"
    using woken s'(4) x(2) by (simp add: waken_watch_def watch_of_set_phase answers_def answer_watch_def hub_done_def split: prod.splits)
  then show ?thesis unfolding world_run_append using s'(1) by auto
qed

theorem commit_reaches_reader_witness:
  "\<exists>s s'. world_run sample_labels new_world = Some s \<and>
     world_run [Does Hears, Does (Wakes 1), Does (Gathered 1)] s = Some s' \<and> owes s' 1"
proof -
  obtain s where s: "world_run sample_labels new_world = Some s" "commits s = [([(Agent_Topic, ''a'')], ''7'')]" "read_to s 1 = 0"
      "owes s 1 = False" "watch_of (hub s) 1 = Some \<lparr>topics = [(Agent_Topic, ''a'')], phase = Waiting False\<rparr>"
      "connected (hub s) = Some \<lparr>conn = 0, payloads = [Change [(Agent_Topic, ''a'')] ''7''], drop_asked = False\<rparr>"
    using sample_runs by blast
  show ?thesis using commit_reaches_reader [OF s(1) sample_unread [OF s(2,3,5)] _ s(5) _ s(6)] s(1,4) by auto
qed

text \<open>
  What the \<open>next\<close>s of a watch have answered and what it holds for the one to come are exactly the
  transactions the connection heard on the watch's own topics since it registered.
\<close>

theorem answers_are_what_was_heard:
  assumes "world_run labs new_world = Some s" "watch_of (hub s) w = Some x" "registered (phase x)"
  shows "set (answered_of s w) \<union> set (txids (watcher_of (hub s) w)) = set (heard_of s w)"
  using world_reached [OF assms(1)] assms(2,3) by (simp add: world_ok_def)

theorem answers_are_what_was_heard_witness:
  "\<exists>s. world_run sample_labels new_world = Some s \<and>
     set (answered_of s 1) \<union> set (txids (watcher_of (hub s) 1)) = set (heard_of s 1)"
proof -
  obtain s where s: "world_run sample_labels new_world = Some s"
      "watch_of (hub s) 1 = Some \<lparr>topics = [(Agent_Topic, ''a'')], phase = Waiting False\<rparr>"
    using sample_runs by blast
  show ?thesis using answers_are_what_was_heard [OF s] s(1) by auto
qed

end
