(* ===== verification/Keep_Identity.thy ===== *)
theory Keep_Identity
  imports Prelude
begin

text \<open>
  \<open>packages/wire/src/keep-identity.ts\<close>: a value delivered again, rebuilt over the one held before it so
  that each part that did not change is the held part itself. An array or a record carries the object
  it is (its number), which \<open>===\<close> tells apart; one the walk makes has none, as it is like no object
  before it. Any other value is a leaf, told apart by equality, and \<open>Equal.equals\<close> of two leaves is an
  argument. A record lists its own keys in their order.
\<close>

subsection \<open>Values\<close>

datatype 'a held =
    Leaf 'a
  | Items "nat option" "'a held list"
  | Fields "nat option" "(string \<times> 'a held) list"

text \<open>\<open>===\<close>.\<close>

fun same :: "'a held \<Rightarrow> 'a held \<Rightarrow> bool" where
  "same (Leaf a) (Leaf b) \<longleftrightarrow> a = b"
| "same (Items i _) (Items j _) \<longleftrightarrow> i \<noteq> None \<and> i = j"
| "same (Fields i _) (Fields j _) \<longleftrightarrow> i \<noteq> None \<and> i = j"
| "same _ _ \<longleftrightarrow> False"

subsection \<open>The walk\<close>

text \<open>
  The loops over a list and a record, with the walk of one value handed in. \<open>front_run\<close> answers the
  values matched from the front and the one it stopped at; \<open>back_run\<close> those matched from the back, the
  last first.
\<close>

fun front_run :: "('a held \<Rightarrow> 'a held \<Rightarrow> 'a held) \<Rightarrow> 'a held list \<Rightarrow> 'a held list \<Rightarrow> 'a held list \<times> 'a held option" where
  "front_run keep (h # hs) (n # ns) =
     (let v = keep h n
      in if same v h then (let (vs, stop) = front_run keep hs ns in (v # vs, stop)) else ([], Some v))"
| "front_run keep _ _ = ([], None)"

fun back_run :: "('a held \<Rightarrow> 'a held \<Rightarrow> 'a held) \<Rightarrow> nat \<Rightarrow> 'a held list \<Rightarrow> 'a held list \<Rightarrow> 'a held list" where
  "back_run keep (Suc reach) (h # hs) (n # ns) =
     (let v = keep h n in if same v h then v # back_run keep reach hs ns else [])"
| "back_run keep _ _ _ = []"

text \<open>What stands at a place once the loops ran: the back's value, the front's, the middle's, or the new one.\<close>

definition value_at ::
  "('a held \<Rightarrow> 'a held \<Rightarrow> 'a held) \<Rightarrow> 'a held list \<Rightarrow> 'a held list \<Rightarrow> 'a held list \<Rightarrow> 'a held option \<Rightarrow> 'a held list \<Rightarrow> nat \<Rightarrow> 'a held" where
  "value_at keep hs ns fronts stop backs i =
     (if length ns - length backs \<le> i then backs ! (length ns - 1 - i)
      else if i < length fronts then fronts ! i
      else if i = length fronts then (case stop of Some v \<Rightarrow> v | None \<Rightarrow> ns ! i)
      else if i < length hs - length backs then keep (hs ! i) (ns ! i)
      else ns ! i)"

definition kept_values :: "('a held \<Rightarrow> 'a held \<Rightarrow> 'a held) \<Rightarrow> 'a held list \<Rightarrow> 'a held list \<Rightarrow> 'a held list" where
  "kept_values keep hs ns =
     (let (fronts, stop) = front_run keep hs ns;
          reach = min (length hs) (length ns) - length fronts - (if length hs = length ns then 1 else 0);
          backs = back_run keep reach (rev hs) (rev ns)
      in map (value_at keep hs ns fronts stop backs) [0..<length ns])"

definition kept_list :: "('a held \<Rightarrow> 'a held \<Rightarrow> 'a held) \<Rightarrow> nat option \<Rightarrow> 'a held list \<Rightarrow> nat option \<Rightarrow> 'a held list \<Rightarrow> 'a held" where
  "kept_list keep i hs j ns =
     (let values = kept_values keep hs ns
      in if length values = length hs \<and> (\<forall>at < length hs. same (values ! at) (hs ! at)) then Items i hs
         else if \<forall>at < length ns. same (values ! at) (ns ! at) then Items j ns
         else Items None values)"

definition kept_field :: "('a held \<Rightarrow> 'a held \<Rightarrow> 'a held) \<Rightarrow> (string \<times> 'a held) list \<Rightarrow> string \<times> 'a held \<Rightarrow> 'a held" where
  "kept_field keep hs f = (case map_of hs (fst f) of Some h \<Rightarrow> keep h (snd f) | None \<Rightarrow> snd f)"

definition kept_record :: "('a held \<Rightarrow> 'a held \<Rightarrow> 'a held) \<Rightarrow> nat option \<Rightarrow> (string \<times> 'a held) list \<Rightarrow> nat option \<Rightarrow> (string \<times> 'a held) list \<Rightarrow> 'a held" where
  "kept_record keep i hs j ns =
     (let unchanged = (length ns = length hs \<and>
            (\<forall>f \<in> set ns. case map_of hs (fst f) of Some h \<Rightarrow> same (kept_field keep hs f) h | None \<Rightarrow> False));
          reused = (\<exists>f \<in> set ns. \<not> same (kept_field keep hs f) (snd f))
      in if unchanged then Fields i hs
         else if \<not> reused then Fields j ns
         else Fields None (map (\<lambda>f. (fst f, kept_field keep hs f)) ns))"

subsection \<open>The loops read the walk on the parts of the new value alone\<close>

lemma front_run_cong [fundef_cong]:
  "hs = hs' \<Longrightarrow> ns = ns' \<Longrightarrow> (\<And>h n. n \<in> set ns' \<Longrightarrow> keep h n = keep' h n) \<Longrightarrow> front_run keep hs ns = front_run keep' hs' ns'"
proof (induction keep hs ns arbitrary: hs' ns' rule: front_run.induct)
  case (1 keep h hs n ns)
  then show ?case by (auto simp: Let_def)
qed auto

lemma back_run_cong:
  "(\<And>h n. n \<in> set ns \<Longrightarrow> keep h n = keep' h n) \<Longrightarrow> back_run keep reach hs ns = back_run keep' reach hs ns"
  by (induction keep reach hs ns rule: back_run.induct) (auto simp: Let_def)

lemma kept_values_cong:
  assumes "\<And>h n. n \<in> set ns \<Longrightarrow> keep h n = keep' h n"
  shows "kept_values keep hs ns = kept_values keep' hs ns"
proof -
  have "front_run keep hs ns = front_run keep' hs ns" by (rule front_run_cong) (use assms in auto)
  moreover have "back_run keep reach (rev hs) (rev ns) = back_run keep' reach (rev hs) (rev ns)" for reach
    by (rule back_run_cong) (use assms in auto)
  moreover have "map (value_at keep hs ns fronts stop backs) [0..<length ns] = map (value_at keep' hs ns fronts stop backs) [0..<length ns]"
    for fronts stop backs
    by (rule map_cong [OF refl]) (simp add: value_at_def assms)
  ultimately show ?thesis unfolding kept_values_def by (simp only:)
qed

lemma kept_list_cong [fundef_cong]:
  "i = i' \<Longrightarrow> hs = hs' \<Longrightarrow> j = j' \<Longrightarrow> ns = ns' \<Longrightarrow> (\<And>h n. n \<in> set ns' \<Longrightarrow> keep h n = keep' h n) \<Longrightarrow>
    kept_list keep i hs j ns = kept_list keep' i' hs' j' ns'"
  unfolding kept_list_def using kept_values_cong [of ns' keep keep' hs'] by (simp only:)

lemma kept_record_cong [fundef_cong]:
  "i = i' \<Longrightarrow> hs = hs' \<Longrightarrow> j = j' \<Longrightarrow> ns = ns' \<Longrightarrow> (\<And>h n. n \<in> snd ` set ns' \<Longrightarrow> keep h n = keep' h n) \<Longrightarrow>
    kept_record keep i hs j ns = kept_record keep' i' hs' j' ns'"
proof -
  assume eq: "i = i'" "hs = hs'" "j = j'" "ns = ns'" and keep: "\<And>h n. n \<in> snd ` set ns' \<Longrightarrow> keep h n = keep' h n"
  have "kept_field keep hs' f = kept_field keep' hs' f" if "f \<in> set ns'" for f
    using keep that by (auto simp: kept_field_def split: option.splits)
  note field = this
  have "(\<forall>f \<in> set ns'. case map_of hs' (fst f) of Some h \<Rightarrow> same (kept_field keep hs' f) h | None \<Rightarrow> False) \<longleftrightarrow>
      (\<forall>f \<in> set ns'. case map_of hs' (fst f) of Some h \<Rightarrow> same (kept_field keep' hs' f) h | None \<Rightarrow> False)"
    by (rule ball_cong [OF refl]) (simp add: field split: option.splits)
  moreover have "(\<exists>f \<in> set ns'. \<not> same (kept_field keep hs' f) (snd f)) \<longleftrightarrow> (\<exists>f \<in> set ns'. \<not> same (kept_field keep' hs' f) (snd f))"
    by (rule bex_cong [OF refl]) (simp add: field)
  moreover have "map (\<lambda>f. (fst f, kept_field keep hs' f)) ns' = map (\<lambda>f. (fst f, kept_field keep' hs' f)) ns'"
    by (rule map_cong [OF refl]) (simp add: field)
  ultimately show ?thesis unfolding kept_record_def eq by (simp only:)
qed

text \<open>\<open>keepIdentity\<close>, with \<open>equals\<close> for \<open>Equal.equals\<close> of two leaves.\<close>

function kept :: "('a \<Rightarrow> 'a \<Rightarrow> bool) \<Rightarrow> 'a held \<Rightarrow> 'a held \<Rightarrow> 'a held" where
  "kept equals h n = (if same h n then h else case n of
     Items j ns \<Rightarrow> (case h of Items i hs \<Rightarrow> kept_list (kept equals) i hs j ns | _ \<Rightarrow> n)
   | Fields j ns \<Rightarrow> (case h of Fields i hs \<Rightarrow> kept_record (kept equals) i hs j ns | _ \<Rightarrow> n)
   | Leaf b \<Rightarrow> (case h of Leaf a \<Rightarrow> if equals a b then h else n | _ \<Rightarrow> n))"
  by pat_completeness auto
termination
  by (relation "measure (\<lambda>(_, _, n). size n)") (auto simp: size_list_estimation' less_Suc_eq_le)

declare kept.simps [simp del]

subsection \<open>Values alike\<close>

text \<open>Structural equality, which no object's identity and no order of a record's keys bears on.\<close>

inductive alike :: "('a \<Rightarrow> 'a \<Rightarrow> bool) \<Rightarrow> 'a held \<Rightarrow> 'a held \<Rightarrow> bool" for equals where
  alike_leaf: "a = b \<or> equals a b \<Longrightarrow> alike equals (Leaf a) (Leaf b)"
| alike_items: "list_all2 (alike equals) hs ns \<Longrightarrow> alike equals (Items i hs) (Items j ns)"
| alike_fields: "length hs = length ns \<Longrightarrow> (\<forall>(k, n) \<in> set ns. \<exists>h. map_of hs k = Some h \<and> alike equals h n) \<Longrightarrow>
    alike equals (Fields i hs) (Fields j ns)"

inductive_cases alike_to_leaf: "alike equals h (Leaf b)"
inductive_cases alike_to_items: "alike equals h (Items j ns)"
inductive_cases alike_to_fields: "alike equals h (Fields j ns)"

text \<open>The parts of a value, itself among them, and a value as data stands: objects numbered, keys once each.\<close>

fun parts :: "'a held \<Rightarrow> 'a held set" where
  "parts (Leaf a) = {Leaf a}"
| "parts (Items i hs) = insert (Items i hs) (\<Union>h \<in> set hs. parts h)"
| "parts (Fields i hs) = insert (Fields i hs) (\<Union>f \<in> set hs. parts (snd f))"

fun stands :: "'a held \<Rightarrow> bool" where
  "stands (Leaf a) \<longleftrightarrow> True"
| "stands (Items i hs) \<longleftrightarrow> i \<noteq> None"
| "stands (Fields i hs) \<longleftrightarrow> i \<noteq> None \<and> distinct (map fst hs)"

definition data :: "'a held set \<Rightarrow> bool" where
  "data V \<longleftrightarrow> (\<forall>v \<in> V. stands v) \<and> (\<forall>v \<in> V. \<forall>w \<in> V. same v w \<longrightarrow> v = w)"

lemma self_part [simp]: "v \<in> parts v"
  by (cases v) auto

lemma same_refl: "stands v \<Longrightarrow> same v v"
  by (cases v) auto

lemma alike_refl: "(\<forall>v \<in> parts n. stands v) \<Longrightarrow> alike equals n n"
proof (induction n)
  case (Items i ns)
  then show ?case by (intro alike_items) (auto simp: list_all2_same)
next
  case (Fields i ns)
  have "\<exists>h. map_of ns k = Some h \<and> alike equals h n" if "(k, n) \<in> set ns" for k n
  proof -
    have "distinct (map fst ns)" using Fields.prems by simp
    then have "map_of ns k = Some n" using that by simp
    moreover have "alike equals n n" using Fields that by (fastforce simp: snds.simps)
    ultimately show ?thesis by blast
  qed
  then show ?case by (intro alike_fields) auto
qed (simp add: alike_leaf)

lemma alike_refl_data: "data V \<Longrightarrow> parts n \<subseteq> V \<Longrightarrow> alike equals n n"
  by (rule alike_refl) (auto simp: data_def)

text \<open>What the walk answers is the held value, the new one, or an object it made.\<close>

lemma kept_is: "kept equals h n = h \<or> kept equals h n = n \<or> (\<exists>vs. kept equals h n = Items None vs) \<or> (\<exists>fs. kept equals h n = Fields None fs)"
  by (subst (1 2 3 4) kept.simps) (auto simp: kept_list_def kept_record_def Let_def split: held.splits)

lemma kept_same:
  assumes "data V" "h \<in> V" "n \<in> V" "v \<in> V" "same (kept equals h n) v"
  shows "kept equals h n = v"
  using kept_is [of equals h n] assms unfolding data_def by (elim disjE exE) (simp_all, (cases v; simp)+)

subsection \<open>What the loops answer\<close>

lemma front_run_values:
  "front_run keep hs ns = (vs, stop) \<Longrightarrow> length vs \<le> length hs \<and> length vs \<le> length ns \<and>
    (\<forall>i < length vs. vs ! i = keep (hs ! i) (ns ! i)) \<and>
    (\<forall>v. stop = Some v \<longrightarrow> length vs < length hs \<and> length vs < length ns \<and> v = keep (hs ! length vs) (ns ! length vs))"
proof (induction keep hs ns arbitrary: vs stop rule: front_run.induct)
  case (1 keep h hs n ns)
  obtain vs' stop' where rest: "front_run keep hs ns = (vs', stop')" by fastforce
  show ?case
  proof (cases "same (keep h n) h")
    case True
    then have "vs = keep h n # vs'" "stop = stop'" using "1.prems" rest by (simp_all add: Let_def)
    then show ?thesis using "1.IH" [OF refl True rest] by (auto simp: nth_Cons split: nat.splits)
  next
    case False
    then show ?thesis using "1.prems" by (auto simp: Let_def)
  qed
qed auto

lemma back_run_values:
  "length (back_run keep r hs ns) \<le> length hs \<and> length (back_run keep r hs ns) \<le> length ns \<and> length (back_run keep r hs ns) \<le> r \<and>
    (\<forall>i < length (back_run keep r hs ns). back_run keep r hs ns ! i = keep (hs ! i) (ns ! i))"
proof (induction keep r hs ns rule: back_run.induct)
  case (1 keep r h hs n ns)
  then show ?case by (auto simp: Let_def nth_Cons split: nat.splits)
qed auto

lemma kept_values_length [simp]: "length (kept_values keep hs ns) = length ns"
  by (simp add: kept_values_def Let_def split: prod.splits)

lemma kept_values_at:
  assumes i: "i < length ns"
  shows "kept_values keep hs ns ! i = ns ! i \<or> (\<exists>h \<in> set hs. kept_values keep hs ns ! i = keep h (ns ! i))"
proof -
  obtain vs stop where f: "front_run keep hs ns = (vs, stop)" by fastforce
  define r where "r = min (length hs) (length ns) - length vs - (if length hs = length ns then 1 else 0)"
  define bs where "bs = back_run keep r (rev hs) (rev ns)"
  have at: "kept_values keep hs ns ! i = value_at keep hs ns vs stop bs i"
    using i by (simp add: kept_values_def f Let_def bs_def r_def)
  note front = front_run_values [OF f]
  have behind: "length bs \<le> length hs" "length bs \<le> length ns" "\<And>j. j < length bs \<Longrightarrow> bs ! j = keep (rev hs ! j) (rev ns ! j)"
    using back_run_values [of keep r "rev hs" "rev ns"] by (simp_all add: bs_def)
  consider "length ns - length bs \<le> i" | "i < length ns - length bs" "i < length vs"
    | "i < length ns - length bs" "i = length vs" | "i < length ns - length bs" "i > length vs" by linarith
  then show ?thesis
  proof cases
    case 1
    then have j: "length ns - 1 - i < length bs" using i by linarith
    then have "bs ! (length ns - 1 - i) = keep (rev hs ! (length ns - 1 - i)) (ns ! i)"
      using behind(3) [OF j] i behind(2) by (simp add: rev_nth)
    moreover have "rev hs ! (length ns - 1 - i) \<in> set hs" using j behind(1) by (metis length_rev nth_mem order_less_le_trans set_rev)
    ultimately show ?thesis using 1 by (auto simp: at value_at_def)
  next
    case 2
    then show ?thesis using front by (auto simp: at value_at_def)
  next
    case 3
    then have "kept_values keep hs ns ! i = (case stop of Some v \<Rightarrow> v | None \<Rightarrow> ns ! i)" unfolding at value_at_def by simp
    moreover have "hs ! i \<in> set hs \<and> v = keep (hs ! i) (ns ! i)" if "stop = Some v" for v using front 3(2) that by simp
    ultimately show ?thesis by (cases stop) auto
  next
    case 4
    then show ?thesis by (auto simp: at value_at_def)
  qed
qed

lemma front_run_held:
  "length hs = length ns \<Longrightarrow> (\<forall>i < length ns. keep (hs ! i) (ns ! i) = hs ! i \<and> same (hs ! i) (hs ! i)) \<Longrightarrow>
    front_run keep hs ns = (hs, None)"
proof (induction hs ns rule: list_induct2)
  case (Cons h hs n ns)
  have "keep h n = h" "same h h" using Cons.prems by (auto dest: spec [of _ 0])
  moreover have "\<forall>i < length ns. keep (hs ! i) (ns ! i) = hs ! i \<and> same (hs ! i) (hs ! i)" using Cons.prems by auto
  ultimately show ?case using Cons.IH by simp
qed simp

lemma kept_values_held:
  assumes "length hs = length ns" "\<forall>i < length ns. keep (hs ! i) (ns ! i) = hs ! i \<and> same (hs ! i) (hs ! i)"
  shows "kept_values keep hs ns = hs"
  using front_run_held [OF assms] assms(1)
  by (intro nth_equalityI) (simp_all add: kept_values_def Let_def value_at_def)

subsection \<open>What the walk keeps\<close>

text \<open>\<open>data\<close> of a value's parts is of its part's parts.\<close>

lemma parts_item: "h \<in> set hs \<Longrightarrow> parts h \<subseteq> parts (Items i hs)"
  by auto

lemma parts_field: "(k, h) \<in> set hs \<Longrightarrow> parts h \<subseteq> parts (Fields i hs)"
  by force

lemma kept_list_alike:
  assumes V: "data V" "set hs \<subseteq> V" "set ns \<subseteq> V" "Items i hs \<in> V" "Items j ns \<in> V" "parts (Items j ns) \<subseteq> V"
    and keep: "\<And>h n. h \<in> set hs \<Longrightarrow> n \<in> set ns \<Longrightarrow> alike equals (keep h n) n"
    and one: "\<And>h n v. h \<in> set hs \<Longrightarrow> n \<in> set ns \<Longrightarrow> v \<in> V \<Longrightarrow> same (keep h n) v \<Longrightarrow> keep h n = v"
  shows "alike equals (kept_list keep i hs j ns) (Items j ns)"
proof -
  let ?vs = "kept_values keep hs ns"
  have self: "alike equals n n" if "n \<in> set ns" for n
    by (rule alike_refl_data [OF V(1) subset_trans [OF parts_item [OF that] V(6)]])
  have each: "alike equals (?vs ! at) (ns ! at)" if "at < length ns" for at
    using kept_values_at [OF that, of keep hs] keep self that by auto
  have held: "?vs ! at = hs ! at" if "at < length ns" "at < length hs" "same (?vs ! at) (hs ! at)" for at
  proof -
    have "hs ! at \<in> V" "ns ! at \<in> V" using V(2,3) that by auto
    then show ?thesis using kept_values_at [OF that(1), of keep hs] one that V(1) by (auto simp: data_def)
  qed
  show ?thesis
  proof (cases "length ?vs = length hs \<and> (\<forall>at < length hs. same (?vs ! at) (hs ! at))")
    case True
    then have long: "length hs = length ns" by simp
    have "?vs = hs" by (rule nth_equalityI) (use True held long in auto)
    then have "list_all2 (alike equals) hs ns" using each long by (intro list_all2_all_nthI) auto
    then show ?thesis using True by (simp add: kept_list_def Let_def alike_items)
  next
    case False
    have "list_all2 (alike equals) ?vs ns" using each by (intro list_all2_all_nthI) auto
    moreover have "alike equals (Items j ns) (Items j ns)" by (rule alike_refl_data [OF V(1,6)])
    ultimately show ?thesis using False by (auto simp: kept_list_def Let_def alike_items)
  qed
qed

lemma map_of_kept: "distinct (map fst ns) \<Longrightarrow> (k, n) \<in> set ns \<Longrightarrow> map_of (map (\<lambda>f. (fst f, g f)) ns) k = Some (g (k, n))"
  by (induction ns) (auto simp: image_iff)

lemma kept_record_alike:
  assumes V: "data V" "snd ` set hs \<subseteq> V" "Fields j ns \<in> V" "parts (Fields j ns) \<subseteq> V"
    and keep: "\<And>h n. h \<in> snd ` set hs \<Longrightarrow> n \<in> snd ` set ns \<Longrightarrow> alike equals (keep h n) n"
    and one: "\<And>h n v. h \<in> snd ` set hs \<Longrightarrow> n \<in> snd ` set ns \<Longrightarrow> v \<in> V \<Longrightarrow> same (keep h n) v \<Longrightarrow> keep h n = v"
  shows "alike equals (kept_record keep i hs j ns) (Fields j ns)"
proof -
  have keys: "distinct (map fst ns)" using V(1,3) by (auto simp: data_def)
  have self: "alike equals n n" if "(k, n) \<in> set ns" for k n
    by (rule alike_refl_data [OF V(1) subset_trans [OF parts_field [OF that] V(4)]])
  have each: "alike equals (kept_field keep hs (k, n)) n" if "(k, n) \<in> set ns" for k n
    using that self keep by (force simp: kept_field_def dest: map_of_SomeD split: option.splits)
  have whole: "alike equals (Fields j ns) (Fields j ns)" by (rule alike_refl_data [OF V(1,4)])
  have made: "alike equals (Fields None (map (\<lambda>f. (fst f, kept_field keep hs f)) ns)) (Fields j ns)"
  proof (intro alike_fields ballI)
    fix f assume f: "f \<in> set ns"
    obtain k n where "f = (k, n)" by fastforce
    then show "case f of (k, n) \<Rightarrow> \<exists>h. map_of (map (\<lambda>f. (fst f, kept_field keep hs f)) ns) k = Some h \<and> alike equals h n"
      using each [of k n] map_of_kept [OF keys, of k n "kept_field keep hs"] f by auto
  qed simp
  show ?thesis
  proof (cases "length ns = length hs \<and> (\<forall>f \<in> set ns. case map_of hs (fst f) of Some h \<Rightarrow> same (kept_field keep hs f) h | None \<Rightarrow> False)")
    case True
    have "\<exists>h. map_of hs k = Some h \<and> alike equals h n" if f: "(k, n) \<in> set ns" for k n
    proof -
      obtain h where h: "map_of hs k = Some h" "same (keep h n) h"
        using True f by (auto simp: kept_field_def dest!: bspec split: option.splits)
      then have "h \<in> snd ` set hs" "n \<in> snd ` set ns" using f by (force dest: map_of_SomeD)+
      then have "keep h n = h" using one h(2) V(2) by blast
      then show ?thesis using each [OF f] h(1) by (simp add: kept_field_def)
    qed
    then have "alike equals (Fields i hs) (Fields j ns)" using True by (intro alike_fields) auto
    then show ?thesis using True by (simp add: kept_record_def)
  next
    case False
    then show ?thesis using whole made by (auto simp: kept_record_def Let_def)
  qed
qed

lemma parts_in: "parts v \<subseteq> V \<Longrightarrow> v \<in> V"
  using self_part by blast

lemma items_in: "parts (Items i hs) \<subseteq> V \<Longrightarrow> set hs \<subseteq> V"
  using parts_item parts_in by (metis subsetI subset_trans)

lemma fields_in: "parts (Fields i hs) \<subseteq> V \<Longrightarrow> snd ` set hs \<subseteq> V"
  using parts_field parts_in by (metis (no_types, lifting) image_subsetI prod.collapse subset_trans)

lemma data_same_refl: "data V \<Longrightarrow> parts v \<subseteq> V \<Longrightarrow> same v v"
  by (intro same_refl) (simp add: data_def parts_in)

lemma data_same: "data V \<Longrightarrow> v \<in> V \<Longrightarrow> w \<in> V \<Longrightarrow> same v w \<Longrightarrow> v = w"
  by (simp add: data_def)

lemma kept_alike: "data V \<Longrightarrow> parts h \<subseteq> V \<Longrightarrow> parts n \<subseteq> V \<Longrightarrow> alike equals (kept equals h n) n"
proof (induction n arbitrary: h)
  case (Leaf b)
  then show ?case by (subst kept.simps) (auto simp: alike_leaf split: held.splits)
next
  case (Items j ns)
  have whole: "alike equals (Items j ns) (Items j ns)" by (rule alike_refl_data [OF Items.prems(1,3)])
  show ?case
  proof (cases "same h (Items j ns)")
    case True
    then have "h = Items j ns" using data_same [OF Items.prems(1)] Items.prems(2,3) self_part by blast
    then show ?thesis using whole True by (subst kept.simps) simp
  next
    case apart: False
    show ?thesis
    proof (cases h)
      case h: (Items i hs)
      have V: "set hs \<subseteq> V" "set ns \<subseteq> V" using items_in Items.prems(2,3) unfolding h by blast+
      have "alike equals (kept_list (kept equals) i hs j ns) (Items j ns)"
      proof (rule kept_list_alike [OF Items.prems(1) V _ _ Items.prems(3)])
        show "Items i hs \<in> V" "Items j ns \<in> V" using Items.prems(2,3) h by auto
        show "alike equals (kept equals h' n) n" if "h' \<in> set hs" "n \<in> set ns" for h' n
        proof (rule Items.IH [OF that(2) Items.prems(1)])
          show "parts h' \<subseteq> V" "parts n \<subseteq> V"
            using parts_item [OF that(1), of i] parts_item [OF that(2), of j] Items.prems(2,3) unfolding h by blast+
        qed
        show "kept equals h' n = v" if "h' \<in> set hs" "n \<in> set ns" "v \<in> V" "same (kept equals h' n) v" for h' n v
          using kept_same [OF Items.prems(1) _ _ that(3,4)] V that(1,2) by auto
      qed
      then show ?thesis using apart h by (subst kept.simps) auto
    qed (use whole apart in \<open>subst kept.simps, simp\<close>)+
  qed
next
  case (Fields j ns)
  have whole: "alike equals (Fields j ns) (Fields j ns)" by (rule alike_refl_data [OF Fields.prems(1,3)])
  show ?case
  proof (cases "same h (Fields j ns)")
    case True
    then have "h = Fields j ns" using data_same [OF Fields.prems(1)] Fields.prems(2,3) self_part by blast
    then show ?thesis using whole True by (subst kept.simps) simp
  next
    case apart: False
    show ?thesis
    proof (cases h)
      case h: (Fields i hs)
      have V: "snd ` set hs \<subseteq> V" "snd ` set ns \<subseteq> V" using fields_in Fields.prems(2,3) unfolding h by blast+
      have "alike equals (kept_record (kept equals) i hs j ns) (Fields j ns)"
      proof (rule kept_record_alike [OF Fields.prems(1) V(1) _ Fields.prems(3)])
        show "Fields j ns \<in> V" using Fields.prems(3) by auto
        show "alike equals (kept equals h' n) n" if "h' \<in> snd ` set hs" "n \<in> snd ` set ns" for h' n
        proof -
          note both = that
          obtain k k' where "(k, h') \<in> set hs" "(k', n) \<in> set ns" using both by force
          then have "parts h' \<subseteq> V" "parts n \<subseteq> V" "(k', n) \<in> set ns"
            using parts_field [of k h' hs i] parts_field [of k' n ns j] Fields.prems(2,3) unfolding h by blast+
          then show ?thesis using Fields.IH [of "(k', n)" n h'] Fields.prems(1) by (simp add: snds.simps)
        qed
        show "kept equals h' n = v" if "h' \<in> snd ` set hs" "n \<in> snd ` set ns" "v \<in> V" "same (kept equals h' n) v" for h' n v
          using kept_same [OF Fields.prems(1) _ _ that(3,4)] V that(1,2) by auto
      qed
      then show ?thesis using apart h by (subst kept.simps) auto
    qed (use whole apart in \<open>subst kept.simps, simp\<close>)+
  qed
qed

lemma kept_held: "data V \<Longrightarrow> parts h \<subseteq> V \<Longrightarrow> parts n \<subseteq> V \<Longrightarrow> alike equals h n \<Longrightarrow> kept equals h n = h"
proof (induction n arbitrary: h)
  case (Leaf b)
  then show ?case by (elim alike_to_leaf) (subst kept.simps, auto)
next
  case (Items j ns)
  from Items.prems(4) obtain i hs where h: "h = Items i hs" "list_all2 (alike equals) hs ns" by (rule alike_to_items)
  have "\<forall>at < length ns. kept equals (hs ! at) (ns ! at) = hs ! at \<and> same (hs ! at) (hs ! at)"
  proof (intro allI impI)
    fix k assume "k < length ns"
    then have item: "hs ! k \<in> set hs" "ns ! k \<in> set ns" "alike equals (hs ! k) (ns ! k)"
      using h(2) by (auto simp: list_all2_conv_all_nth)
    have V: "parts (hs ! k) \<subseteq> V" "parts (ns ! k) \<subseteq> V"
      using parts_item [OF item(1), of i] parts_item [OF item(2), of j] Items.prems(2,3) unfolding h(1) by blast+
    have "kept equals (hs ! k) (ns ! k) = hs ! k" by (rule Items.IH [OF item(2) Items.prems(1) V item(3)])
    moreover have "same (hs ! k) (hs ! k)" by (rule data_same_refl [OF Items.prems(1) V(1)])
    ultimately show "kept equals (hs ! k) (ns ! k) = hs ! k \<and> same (hs ! k) (hs ! k)" by simp
  qed
  then have all_held: "kept_values (kept equals) hs ns = hs" "\<forall>at < length hs. same (hs ! at) (hs ! at)" "length hs = length ns"
    using kept_values_held [of hs ns "kept equals"] h(2) by (auto simp: list_all2_lengthD)
  then have "kept_list (kept equals) i hs j ns = Items i hs" by (simp add: kept_list_def Let_def)
  then show ?case unfolding h(1) by (subst kept.simps) simp
next
  case (Fields j ns)
  from Fields.prems(4) obtain i hs where h: "h = Fields i hs" "length hs = length ns"
    "\<forall>(k, n) \<in> set ns. \<exists>h. map_of hs k = Some h \<and> alike equals h n" by (rule alike_to_fields)
  have "case map_of hs (fst f) of Some h \<Rightarrow> same (kept_field (kept equals) hs f) h | None \<Rightarrow> False" if f: "f \<in> set ns" for f
  proof -
    obtain k n where kn: "f = (k, n)" by fastforce
    then obtain h' where h': "map_of hs k = Some h'" "alike equals h' n" using h(3) f by auto
    have V: "parts h' \<subseteq> V" "parts n \<subseteq> V"
      using parts_field [OF map_of_SomeD [OF h'(1)], of i] parts_field [of k n ns j] f Fields.prems(2,3) unfolding h(1) kn by blast+
    have "kept equals h' n = h'" using Fields.IH [of f n h'] f kn V h'(2) Fields.prems(1) by (simp add: snds.simps)
    moreover have "same h' h'" by (rule data_same_refl [OF Fields.prems(1) V(1)])
    ultimately show ?thesis using h'(1) by (simp add: kn kept_field_def)
  qed
  then have "kept_record (kept equals) i hs j ns = Fields i hs" using h(2) by (simp add: kept_record_def)
  then show ?case unfolding h(1) by (subst kept.simps) simp
qed

text \<open>
  C35: a value delivered again is answered as itself, and over the parts held: what the walk answers is
  always structurally equal to the new value, and it is the held value itself wherever the two are
  equal, so no reader of a value that did not change is handed another object.
\<close>

theorem delivered_again:
  assumes "data (parts h \<union> parts n)"
  shows "alike equals (kept equals h n) n \<and> (alike equals h n \<longrightarrow> kept equals h n = h)"
  using kept_alike [OF assms, of h n equals] kept_held [OF assms, of h n equals] by simp

theorem delivered_again_witness:
  "let h = Items (Some 0) [Leaf (1::nat), Fields (Some 1) [(''a'', Leaf 2)]]; n = Items (Some 2) [Leaf 1, Fields (Some 3) [(''a'', Leaf 2)]]
   in kept (=) h n = h"
proof -
  let ?h = "Items (Some 0) [Leaf (1::nat), Fields (Some 1) [(''a'', Leaf 2)]]"
  let ?n = "Items (Some 2) [Leaf (1::nat), Fields (Some 3) [(''a'', Leaf 2)]]"
  have "data (parts ?h \<union> parts ?n)" by (auto simp: data_def)
  moreover have "alike (=) ?h ?n" by (auto intro!: alike_items alike_fields alike_leaf)
  ultimately show ?thesis using delivered_again [of ?h ?n "(=)"] by (simp add: Let_def)
qed

end
