(* ===== verification/Task_Step.thy ===== *)
theory Task_Step
  imports Tab_Strip_Properties
begin

text \<open>
  \<open>packages/panel/src/places/task-step.ts\<close>: what a step of the window's history holds of what its page
  shows, when two steps of one page are one, how a step showing something else is written, and which
  task a task's address names (with \<open>workspaceOfSlug\<close> and \<open>taskLinkStep\<close> of \<open>packages/features\<close>). Lower
  case is the platform's, an argument.
\<close>

subsection \<open>What a step shows\<close>

text \<open>\<open>SideStep\<close>: not yet known, shut (\<open>null\<close>), or open on a tab.\<close>

datatype side_step = Side_Unknown | Side_Shut | Side_On strip_tab

record panel_step =
  panel_open :: bool
  panel_tab :: "strip_tab option"

record step_shown =
  panel :: "panel_step option"
  column :: "strip_tab option"
  side :: side_step

datatype step_within = Visit | Settle | Same

record step_led =
  pressed :: bool
  opened_side :: bool

definition open_panel_tab :: "panel_step option \<Rightarrow> strip_tab option" where
  "open_panel_tab p = (case p of Some q \<Rightarrow> if panel_open q then panel_tab q else None | None \<Rightarrow> None)"

definition sub_step_of :: "step_shown \<Rightarrow> bool option" where
  "sub_step_of x = map_option panel_open (panel x)"

definition same_or_unknown_tab :: "strip_tab option \<Rightarrow> strip_tab option \<Rightarrow> bool" where
  "same_or_unknown_tab a b \<longleftrightarrow> a = None \<or> b = None \<or> same_tab_opt a b"

definition same_tab_or_none :: "strip_tab option \<Rightarrow> strip_tab option \<Rightarrow> bool" where
  "same_tab_or_none a b \<longleftrightarrow> (if a = None \<or> b = None then a = b else same_tab_opt a b)"

fun same_side :: "side_step \<Rightarrow> side_step \<Rightarrow> bool" where
  "same_side (Side_On a) (Side_On b) \<longleftrightarrow> same_tab a b"
| "same_side a b \<longleftrightarrow> a = b"

definition side_of :: "step_shown \<Rightarrow> side_step" where
  "side_of x = (if panel x = None then side x
     else (case open_panel_tab (panel x) of Some t \<Rightarrow> Side_On t | None \<Rightarrow> Side_Unknown))"

definition same_shown_side :: "step_shown \<Rightarrow> step_shown \<Rightarrow> bool" where
  "same_shown_side x y \<longleftrightarrow> side_of x = Side_Unknown \<or> side_of y = Side_Unknown \<or> same_side (side_of x) (side_of y)"

definition same_chosen :: "step_shown \<Rightarrow> step_shown \<Rightarrow> bool" where
  "same_chosen x y \<longleftrightarrow> same_or_unknown_tab (column x) (column y)"

definition same_sub_step :: "step_shown \<Rightarrow> step_shown \<Rightarrow> bool" where
  "same_sub_step x y \<longleftrightarrow> sub_step_of x = None \<or> sub_step_of y = None \<or> sub_step_of x = sub_step_of y"

definition same_step_shown :: "step_shown \<Rightarrow> step_shown \<Rightarrow> bool" where
  "same_step_shown x y \<longleftrightarrow> same_sub_step x y \<and> same_chosen x y \<and> same_shown_side x y"

definition stood_alike :: "step_shown \<Rightarrow> step_shown \<Rightarrow> bool" where
  "stood_alike x y \<longleftrightarrow> sub_step_of x = sub_step_of y
     \<and> same_tab_or_none (Option.bind (panel x) panel_tab) (Option.bind (panel y) panel_tab)
     \<and> same_tab_or_none (column x) (column y) \<and> same_side (side x) (side y)"

definition step_within :: "step_shown \<Rightarrow> step_shown \<Rightarrow> step_led \<Rightarrow> step_within" where
  "step_within standing nxt led =
     (if \<not> same_sub_step standing nxt then Visit
      else if same_step_shown standing nxt then Same
      else if pressed led \<and> \<not> same_chosen standing nxt \<or> opened_side led \<and> \<not> same_shown_side standing nxt
      then Visit else Settle)"

lemma same_side_sym: "same_side a b \<longleftrightarrow> same_side b a"
  by (cases a; cases b) (auto intro: tabs.same_sym)

lemma same_step_shown_sym: "same_step_shown x y \<longleftrightarrow> same_step_shown y x"
  unfolding same_step_shown_def same_sub_step_def same_chosen_def same_or_unknown_tab_def same_shown_side_def
    same_tab_opt_def
  using same_side_sym [of "side_of x"] tabs.same_swap by (auto split: option.splits)

lemma same_step_shown_refl [simp]: "same_step_shown x x"
  by (cases "side_of x") (auto simp: same_step_shown_def same_sub_step_def same_chosen_def same_or_unknown_tab_def
      same_shown_side_def same_tab_opt_def split: option.splits)

subsection \<open>The task an address names\<close>

record task_at =
  at_workspace :: string
  at_task :: string

record task_addressed =
  addressed_id :: string
  addressed_number :: "nat option"
  addressed_workspace :: string

record workspace_addressed =
  workspace_id :: string
  slug :: "string option"
  former_slugs :: "string list"

definition workspace_of_slug ::
  "(string \<Rightarrow> string) \<Rightarrow> workspace_addressed list \<Rightarrow> string \<Rightarrow> workspace_addressed option" where
  "workspace_of_slug lower ws step =
     (case List.find (\<lambda>w. workspace_id w = step) ws of
       Some w \<Rightarrow> Some w
     | None \<Rightarrow> (case List.find (\<lambda>w. map_option lower (slug w) = Some (lower step)) ws of
         Some w \<Rightarrow> Some w
       | None \<Rightarrow> List.find (\<lambda>w. list_ex (\<lambda>former. lower former = lower step) (former_slugs w)) ws))"

text \<open>\<open>String(number)\<close> of a whole number: its decimal digits.\<close>

fun decimal :: "nat \<Rightarrow> string" where
  "decimal n = (if n < 10 then [char_of (48 + n)] else decimal (n div 10) @ [char_of (48 + n mod 10)])"

declare decimal.simps [simp del]

definition number_step :: "string \<Rightarrow> bool" where
  "number_step s \<longleftrightarrow> s \<noteq> [] \<and> list_all is_digit s"

definition task_link_step :: "task_addressed \<Rightarrow> string" where
  "task_link_step t = (case addressed_number t of None \<Rightarrow> addressed_id t | Some n \<Rightarrow> decimal n)"

definition task_of_at ::
  "(string \<Rightarrow> string) \<Rightarrow> task_at \<Rightarrow> task_addressed list \<Rightarrow> workspace_addressed list \<Rightarrow> string option" where
  "task_of_at lower at ts ws =
     (let home = workspace_of_slug lower ws (at_workspace at);
          named = (home \<noteq> None \<or> ws = [])
      in case List.find (\<lambda>t. addressed_id t = at_task at \<or> named \<and> task_link_step t = at_task at
             \<and> (case home of None \<Rightarrow> True | Some w \<Rightarrow> addressed_workspace t = workspace_id w)) ts of
           Some t \<Rightarrow> Some (addressed_id t)
         | None \<Rightarrow> if number_step (at_task at) then None else Some (at_task at))"

definition task_at_of ::
  "string \<Rightarrow> task_addressed list \<Rightarrow> workspace_addressed list \<Rightarrow> workspace_addressed option \<Rightarrow> string option \<Rightarrow> task_at option" where
  "task_at_of i ts ws listed standing_in =
     (case List.find (\<lambda>t. addressed_id t = i) ts of
       None \<Rightarrow> if number_step i then None
         else (case (Option.bind listed slug, listed, standing_in) of
             (Some s, _, _) \<Rightarrow> Some \<lparr>at_workspace = s, at_task = i\<rparr>
           | (None, Some w, _) \<Rightarrow> Some \<lparr>at_workspace = workspace_id w, at_task = i\<rparr>
           | (None, None, Some s) \<Rightarrow> Some \<lparr>at_workspace = s, at_task = i\<rparr>
           | (None, None, None) \<Rightarrow> None)
     | Some t \<Rightarrow>
         (let home = List.find (\<lambda>w. workspace_id w = addressed_workspace t) ws
          in Some \<lparr>at_workspace = (case home of
               Some w \<Rightarrow> (case slug w of Some s \<Rightarrow> s | None \<Rightarrow> workspace_id w)
             | None \<Rightarrow> addressed_workspace t), at_task = task_link_step t\<rparr>))"

subsection \<open>A task's address names it\<close>

lemma decimal_number: "number_step (decimal n)"
proof (induction n rule: decimal.induct)
  case (1 n)
  show ?case
  proof (cases "n < 10")
    case True
    then show ?thesis by (simp add: decimal.simps [of n] number_step_def is_digit_def)
  next
    case False
    moreover have "is_digit (char_of (48 + n mod 10))" by (simp add: is_digit_def)
    ultimately show ?thesis using 1 by (simp add: decimal.simps [of n] number_step_def)
  qed
qed

lemma char_of_small: "a < 256 \<Longrightarrow> b < 256 \<Longrightarrow> char_of (a :: nat) = char_of b \<longleftrightarrow> a = b"
  by (metis mod_less of_char_of)

lemma decimal_inj: "decimal m = decimal n \<longleftrightarrow> m = n"
proof (induction m arbitrary: n rule: decimal.induct)
  case (1 m)
  have long: "2 \<le> length (decimal k)" if "\<not> k < 10" for k
    using that decimal_number [of "k div 10"] by (cases "decimal (k div 10)") (simp_all add: decimal.simps [of k] number_step_def)
  show ?case
  proof (cases "m < 10 \<or> n < 10")
    case True
    then show ?thesis
    proof (cases "m < 10 \<and> n < 10")
      case True
      then show ?thesis by (simp add: decimal.simps [of m] decimal.simps [of n] char_of_small)
    next
      case False
      have "length (decimal k) = 1" if "k < 10" for k using that by (simp add: decimal.simps [of k])
      then have "length (decimal m) \<noteq> length (decimal n)" using False True long [of m] long [of n] by fastforce
      then show ?thesis by auto
    qed
  next
    case False
    have digits: "char_of (48 + m mod 10) = char_of (48 + n mod 10) \<longleftrightarrow> m mod 10 = n mod 10"
      by (subst char_of_small) (auto simp: mod_less_divisor trans_less_add2)
    have "decimal m = decimal n \<longleftrightarrow> m div 10 = n div 10 \<and> m mod 10 = n mod 10"
      using False 1 digits by (simp add: decimal.simps [of m] decimal.simps [of n])
    then show ?thesis by (metis div_mult_mod_eq)
  qed
qed

definition tasks_apart :: "task_addressed list \<Rightarrow> bool" where
  "tasks_apart ts \<longleftrightarrow> distinct (map addressed_id ts) \<and> (\<forall>t \<in> set ts. \<not> number_step (addressed_id t))
     \<and> distinct (map (\<lambda>t. (addressed_workspace t, addressed_number t)) (filter (\<lambda>t. addressed_number t \<noteq> None) ts))"

definition workspaces_apart :: "(string \<Rightarrow> string) \<Rightarrow> workspace_addressed list \<Rightarrow> bool" where
  "workspaces_apart lower ws \<longleftrightarrow> distinct (map workspace_id ws)
     \<and> (\<forall>w \<in> set ws. \<forall>v \<in> set ws. slug w = Some (workspace_id v) \<longrightarrow> v = w)
     \<and> distinct (map (\<lambda>w. map_option lower (slug w)) (filter (\<lambda>w. slug w \<noteq> None) ws))"

lemma distinct_filter_inj:
  "distinct (map f (filter p xs)) \<Longrightarrow> x \<in> set xs \<Longrightarrow> y \<in> set xs \<Longrightarrow> p x \<Longrightarrow> p y \<Longrightarrow> f x = f y \<Longrightarrow> x = y"
  unfolding distinct_map by (elim conjE, erule inj_onD) simp_all

lemma find_only:
  assumes "x \<in> set xs" "p x" "\<And>y. y \<in> set xs \<Longrightarrow> p y \<Longrightarrow> y = x"
  shows "List.find p xs = Some x"
proof (cases "List.find p xs")
  case None
  then show ?thesis using assms(1,2) by (simp add: find_None_iff)
next
  case (Some y)
  then show ?thesis using assms(3) find_SomeD [OF Some] by simp
qed

lemma workspace_id_found:
  assumes "workspaces_apart lower ws" "w \<in> set ws"
  shows "List.find (\<lambda>v. workspace_id v = workspace_id w) ws = Some w"
  using assms by (intro find_only) (auto simp: workspaces_apart_def distinct_map dest: inj_onD)

lemma workspace_found:
  assumes "workspaces_apart lower ws" "w \<in> set ws"
  shows "workspace_of_slug lower ws (case slug w of Some s \<Rightarrow> s | None \<Rightarrow> workspace_id w) = Some w"
proof (cases "slug w")
  case None
  then show ?thesis using workspace_id_found [OF assms] by (simp add: workspace_of_slug_def)
next
  case (Some s)
  show ?thesis
  proof (cases "List.find (\<lambda>v. workspace_id v = s) ws")
    case None
    have "List.find (\<lambda>v. map_option lower (slug v) = Some (lower s)) ws = Some w"
    proof (rule find_only [OF assms(2)])
      show "map_option lower (slug w) = Some (lower s)" using Some by simp
      fix v assume v: "v \<in> set ws" "map_option lower (slug v) = Some (lower s)"
      show "v = w"
        using assms v Some unfolding workspaces_apart_def
          by (intro distinct_filter_inj [of "\<lambda>w. map_option lower (slug w)" "\<lambda>w. slug w \<noteq> None" ws]) auto
    qed
    then show ?thesis using None Some by (simp add: workspace_of_slug_def)
  next
    case found: (Some v)
    then have "v = w" using find_SomeD [OF found] assms Some by (auto simp: workspaces_apart_def)
    then show ?thesis using found Some by (simp add: workspace_of_slug_def)
  qed
qed

lemma known_task_found:
  assumes ts: "tasks_apart ts" and t: "t \<in> set ts" and home: "addressed_workspace t = workspace_id w"
    and found: "workspace_of_slug lower ws step = Some w"
  shows "task_of_at lower \<lparr>at_workspace = step, at_task = task_link_step t\<rparr> ts ws = Some (addressed_id t)"
proof -
  let ?p = "\<lambda>u. addressed_id u = task_link_step t \<or> task_link_step u = task_link_step t \<and> addressed_workspace u = workspace_id w"
  have "List.find ?p ts = Some t"
  proof (rule find_only [OF t])
    show "?p t" using home by simp
    fix u assume u: "u \<in> set ts" "?p u"
    have ids: "\<not> number_step (addressed_id u)" "\<not> number_step (addressed_id t)" using ts u(1) t by (auto simp: tasks_apart_def)
    have inj: "u = t" if "addressed_id u = addressed_id t"
      using ts u(1) t that by (auto simp: tasks_apart_def distinct_map dest: inj_onD)
    show "u = t"
    proof (cases "addressed_number t")
      case None
      then show ?thesis using u(2) inj ids decimal_number
        by (cases "addressed_number u") (auto simp: task_link_step_def, metis)
    next
      case (Some n)
      then have "addressed_workspace u = workspace_id w" "task_link_step u = decimal n"
        using u(2) ids decimal_number [of n] by (auto simp: task_link_step_def)
      then have "addressed_number u = Some n" "addressed_workspace u = addressed_workspace t"
        using ids decimal_number [of n] home by (auto simp: task_link_step_def decimal_inj split: option.splits)
      then show ?thesis using ts u(1) t Some unfolding tasks_apart_def
        by (intro distinct_filter_inj
            [of "\<lambda>t. (addressed_workspace t, addressed_number t)" "\<lambda>t. addressed_number t \<noteq> None" ts]) auto
    qed
  qed
  then show ?thesis using found by (simp add: task_of_at_def)
qed

text \<open>
  The address a task stands at names that task: where the window has the task, by its number or its
  id under its workspace; where it has not, by its id under whichever workspace stands.
\<close>

theorem address_names_its_task:
  assumes "tasks_apart ts" "workspaces_apart lower ws"
    and "\<forall>t \<in> set ts. addressed_id t = i \<longrightarrow> addressed_workspace t \<in> workspace_id ` set ws"
    and at: "task_at_of i ts ws listed standing_in = Some at"
  shows "task_of_at lower at ts ws = Some i"
proof (cases "List.find (\<lambda>t. addressed_id t = i) ts")
  case None
  then have i: "\<not> number_step i" "at_task at = i"
    using at by (auto simp: task_at_of_def split: option.splits if_splits)
  have none: "\<forall>t \<in> set ts. addressed_id t \<noteq> i" using None by (simp add: find_None_iff)
  moreover have "\<forall>t \<in> set ts. task_link_step t \<noteq> i" using none i decimal_number by (auto simp: task_link_step_def split: option.splits) metis
  ultimately have "List.find (\<lambda>t. addressed_id t = at_task at \<or> b \<and> task_link_step t = at_task at \<and> q t) ts = None" for b q
    using none i by (simp add: find_None_iff)
  then show ?thesis using i by (simp add: task_of_at_def Let_def)
next
  case (Some t)
  then have t: "t \<in> set ts" "addressed_id t = i" using find_SomeD [OF Some] by auto
  then obtain w where w: "w \<in> set ws" "workspace_id w = addressed_workspace t" using assms(3) by auto
  have "List.find (\<lambda>v. workspace_id v = addressed_workspace t) ws = Some w"
    using workspace_id_found [OF assms(2) w(1)] w(2) by simp
  then have "at = \<lparr>at_workspace = (case slug w of Some s \<Rightarrow> s | None \<Rightarrow> workspace_id w), at_task = task_link_step t\<rparr>"
    using at Some by (simp add: task_at_of_def)
  then show ?thesis
    using known_task_found [OF assms(1) t(1) _ workspace_found [OF assms(2) w(1)]] w(2) t(2) by simp
qed

lemma address_names_its_task_witness:
  "let ts = [\<lparr>addressed_id = ''t1'', addressed_number = Some 12, addressed_workspace = ''w''\<rparr>,
             \<lparr>addressed_id = ''t2'', addressed_number = None, addressed_workspace = ''v''\<rparr>];
       ws = [\<lparr>workspace_id = ''v'', slug = None, former_slugs = []\<rparr>, \<lparr>workspace_id = ''w'', slug = Some ''acme'', former_slugs = [''old'']\<rparr>]
   in task_at_of ''t1'' ts ws None None = Some \<lparr>at_workspace = ''acme'', at_task = ''12''\<rparr>
      \<and> task_of_at id \<lparr>at_workspace = ''acme'', at_task = ''12''\<rparr> ts ws = Some ''t1''"
proof -
  define ts where "ts = [\<lparr>addressed_id = ''t1'', addressed_number = Some 12, addressed_workspace = ''w''\<rparr>,
    \<lparr>addressed_id = ''t2'', addressed_number = None, addressed_workspace = ''v''\<rparr>]"
  define ws where "ws = [\<lparr>workspace_id = ''v'', slug = None, former_slugs = []\<rparr>,
    \<lparr>workspace_id = ''w'', slug = Some ''acme'', former_slugs = [''old'']\<rparr>]"
  have "tasks_apart ts" by (simp add: ts_def tasks_apart_def number_step_def is_digit_def)
  moreover have "workspaces_apart id ws" by (simp add: ws_def workspaces_apart_def)
  moreover have "\<forall>t \<in> set ts. addressed_id t = ''t1'' \<longrightarrow> addressed_workspace t \<in> workspace_id ` set ws"
    by (simp add: ts_def ws_def)
  moreover have "task_at_of ''t1'' ts ws None None = Some \<lparr>at_workspace = ''acme'', at_task = ''12''\<rparr>"
    unfolding ts_def ws_def by code_simp
  ultimately show ?thesis using address_names_its_task [of ts id ws "''t1''"] by (simp add: ts_def ws_def Let_def)
qed

end
