(* ===== verification/Nav_Trail.thy ===== *)
theory Nav_Trail
  imports Task_Step
begin

text \<open>
  \<open>packages/panel/src/navigation-history.ts\<close>, the pure half: the places a window can stand on, the trail
  of steps it has stood on, how a visit is written on it, and what Back and Forward draw and reach. An
  entry of the trail carries the object it is (\<open>entry_id\<close>), which the source tells apart by \<open>===\<close>.
  Whether a step can still be gone to, what it is called now, and how an address is read as a path or a
  route are arguments, as they are in the source.
\<close>

subsection \<open>Places\<close>

record task_step = step_shown +
  task_id :: string

record step_panes =
  pane_column :: "string option"
  pane_side :: "string option"

record step_title =
  label :: string
  detail :: "string option"
  panes :: "step_panes option"

record place =
  address :: string
  place_side :: side_step
  place_task :: "task_step option"
  title :: "step_title option"

definition task_place :: "string \<Rightarrow> task_step \<Rightarrow> place" where
  "task_place a t = \<lparr>address = a, place_side = Side_Unknown, place_task = Some t, title = None\<rparr>"

definition routed_place :: "string \<Rightarrow> place" where
  "routed_place a = \<lparr>address = a, place_side = Side_Unknown, place_task = None, title = None\<rparr>"

definition same_title :: "place \<Rightarrow> place \<Rightarrow> bool" where
  "same_title p q \<longleftrightarrow> map_option label (title p) = map_option label (title q)
     \<and> Option.bind (title p) detail = Option.bind (title q) detail"

definition same_page :: "place \<Rightarrow> place \<Rightarrow> bool" where
  "same_page p q \<longleftrightarrow> (case (place_task p, place_task q) of
     (None, None) \<Rightarrow> address p = address q
   | (Some t, Some u) \<Rightarrow> task_id t = task_id u
   | _ \<Rightarrow> False)"

definition shown_of :: "place \<Rightarrow> step_shown" where
  "shown_of p = (case place_task p of
     Some t \<Rightarrow> step_shown.truncate t
   | None \<Rightarrow> \<lparr>panel = None, column = None, side = place_side p\<rparr>)"

definition same_step :: "place option \<Rightarrow> place \<Rightarrow> bool" where
  "same_step p q \<longleftrightarrow> (case p of None \<Rightarrow> False | Some p \<Rightarrow> same_page p q \<and> same_step_shown (shown_of p) (shown_of q))"

definition same_place_sub_step :: "place \<Rightarrow> place \<Rightarrow> bool" where
  "same_place_sub_step p q \<longleftrightarrow> same_sub_step (shown_of p) (shown_of q)"

text \<open>Whether two places hold one draft, by the steps of their addresses' paths.\<close>

definition same_draft :: "(string \<Rightarrow> string list) \<Rightarrow> place \<Rightarrow> place \<Rightarrow> bool" where
  "same_draft path_steps p q \<longleftrightarrow>
     (if same_page p q then True
      else if place_task p \<noteq> None \<or> place_task q \<noteq> None then False
      else (let mine = path_steps (address p); theirs = path_steps (address q);
                same_start = (\<forall>i < min 4 (length mine). nth_opt mine (int i) = nth_opt theirs (int i));
                version = (\<lambda>s. s = Some ''versions'' \<or> s = Some ''version'')
            in if nth_opt mine 2 = Some ''automation'' then nth_opt mine 3 \<noteq> None \<and> same_start
               else nth_opt mine 2 = Some ''task'' \<and> version (nth_opt mine 4) \<and> version (nth_opt theirs 4) \<and> same_start))"

subsection \<open>The trail\<close>

record trail_entry =
  entry_id :: nat
  entry_address :: string
  entry_place :: place

record trail =
  entries :: "trail_entry list"
  at :: int

definition trail_limit :: nat where
  "trail_limit = 50"

definition empty_trail :: trail where
  "empty_trail = \<lparr>entries = [], at = -1\<rparr>"

datatype trail_write_kind = Push | Replace

type_synonym trail_write = "trail_write_kind \<times> trail_entry"

definition standing_of :: "trail \<Rightarrow> trail_entry option" where
  "standing_of t = nth_opt (entries t) (at t)"

definition visit_write ::
  "nat \<Rightarrow> trail \<Rightarrow> place \<Rightarrow> string \<Rightarrow> place option \<Rightarrow> step_led \<Rightarrow> (string \<Rightarrow> bool) \<Rightarrow> trail_write option" where
  "visit_write eid t p a up led on_task_route =
     (let entry = \<lparr>entry_id = eid, entry_address = a, entry_place = p\<rparr>;
          went_up = (case up of None \<Rightarrow> False | Some u \<Rightarrow> same_step (Some u) p)
      in case standing_of t of
           None \<Rightarrow> Some (Push, entry)
         | Some e \<Rightarrow>
             (let stood = entry_place e;
                  routed_here = (place_task stood = None \<and> place_task p \<noteq> None
                     \<and> (entry_address e = a \<or> on_task_route (entry_address e)));
                  within = (if same_page stood p then step_within (shown_of stood) (shown_of p) led else Visit)
              in if went_up \<or> within = Settle \<or> routed_here then Some (Replace, entry)
                 else if within = Same then
                   (if \<not> stood_alike (shown_of stood) (shown_of p) \<or> \<not> same_title stood p \<or> entry_address e \<noteq> a
                    then Some (Replace, entry) else None)
                 else Some (Push, entry)))"

text \<open>\<open>xs.slice(-n)\<close>.\<close>

definition last_n :: "nat \<Rightarrow> 'a list \<Rightarrow> 'a list" where
  "last_n n xs = drop (length xs - n) xs"

definition written :: "trail \<Rightarrow> trail_write \<Rightarrow> trail" where
  "written t w =
     (if at t < 0 then \<lparr>entries = [snd w], at = 0\<rparr>
      else if fst w = Replace then t\<lparr>entries := (entries t)[nat (at t) := snd w]\<rparr>
      else (let es = last_n trail_limit (take (nat (at t) + 1) (entries t) @ [snd w])
            in \<lparr>entries = es, at = int (length es) - 1\<rparr>))"

definition after_visit ::
  "nat \<Rightarrow> trail \<Rightarrow> place \<Rightarrow> string \<Rightarrow> place option \<Rightarrow> step_led \<Rightarrow> (string \<Rightarrow> bool) \<Rightarrow> trail" where
  "after_visit eid t p a up led on_task_route =
     (case visit_write eid t p a up led on_task_route of None \<Rightarrow> t | Some w \<Rightarrow> written t w)"

subsection \<open>Back and Forward\<close>

datatype way = Back | Forward

text \<open>The places a loop one way along the trail comes by.\<close>

fun along :: "trail \<Rightarrow> way \<Rightarrow> int list" where
  "along t Back = (if at t \<le> int (length (entries t)) then rev [0..at t - 1] else [])"
| "along t Forward = (if -1 \<le> at t then [at t + 1..int (length (entries t)) - 1] else [])"

definition place_at :: "trail \<Rightarrow> int \<Rightarrow> place option" where
  "place_at t i = map_option entry_place (nth_opt (entries t) i)"

definition nearest :: "trail \<Rightarrow> way \<Rightarrow> (place \<Rightarrow> bool) \<Rightarrow> int option" where
  "nearest t w reachable = List.find (\<lambda>i. case place_at t i of
     None \<Rightarrow> False
   | Some p \<Rightarrow> reachable p \<and> \<not> same_step (place_at t (at t)) p) (along t w)"

definition away_from :: "trail \<Rightarrow> (place \<Rightarrow> bool) \<Rightarrow> int option" where
  "away_from t reachable = List.find (\<lambda>i. case place_at t i of
     None \<Rightarrow> False
   | Some p \<Rightarrow> reachable p \<and> (case place_at t (at t) of None \<Rightarrow> True | Some s \<Rightarrow> \<not> same_page s p)) (rev [0..at t - 1])"

datatype history_page = Task_Page string | Routed_Page string

definition page_of :: "place \<Rightarrow> history_page" where
  "page_of p = (case place_task p of None \<Rightarrow> Routed_Page (address p) | Some t \<Rightarrow> Task_Page (task_id t))"

definition same_history_page :: "history_page \<Rightarrow> history_page \<Rightarrow> bool" where
  "same_history_page p q \<longleftrightarrow> p = q"

record history_step =
  step_at :: int
  step_title_now :: "step_title option"
  step_page :: history_page

definition listed_limit :: nat where
  "listed_limit = 15"

text \<open>The loop of \<open>listedSteps\<close>, over how many steps may still be listed.\<close>

primrec list_steps ::
  "nat \<Rightarrow> trail \<Rightarrow> way \<Rightarrow> (place \<Rightarrow> bool) \<Rightarrow> (place \<Rightarrow> step_title option) \<Rightarrow> history_step list" where
  "list_steps 0 t w reachable named = []"
| "list_steps (Suc n) t w reachable named =
     (case nearest t w reachable of
       None \<Rightarrow> []
     | Some i \<Rightarrow> (case place_at t i of
         None \<Rightarrow> []
       | Some p \<Rightarrow> \<lparr>step_at = i, step_title_now = named p, step_page = page_of p\<rparr>
           # list_steps n (t\<lparr>at := i\<rparr>) w reachable named))"

definition listed_steps ::
  "trail \<Rightarrow> way \<Rightarrow> (place \<Rightarrow> bool) \<Rightarrow> (place \<Rightarrow> step_title option) \<Rightarrow> history_step list" where
  "listed_steps = list_steps listed_limit"

definition away_step :: "trail \<Rightarrow> (place \<Rightarrow> bool) \<Rightarrow> (place \<Rightarrow> step_title option) \<Rightarrow> step_title option option" where
  "away_step t reachable named =
     (case away_from t reachable of None \<Rightarrow> None | Some i \<Rightarrow> map_option named (place_at t i))"

record history_reading =
  can_go_back :: bool
  can_go_forward :: bool
  steps_back :: "history_step list"
  steps_forward :: "history_step list"
  away :: "step_title option option"

definition reading_of :: "trail \<Rightarrow> (place \<Rightarrow> bool) \<Rightarrow> (place \<Rightarrow> step_title option) \<Rightarrow> history_reading" where
  "reading_of t reachable named =
     \<lparr>can_go_back = (nearest t Back reachable \<noteq> None),
      can_go_forward = (nearest t Forward reachable \<noteq> None),
      steps_back = listed_steps t Back reachable named,
      steps_forward = listed_steps t Forward reachable named,
      away = away_step t reachable named\<rparr>"

definition same_step_title :: "step_title option \<Rightarrow> step_title option \<Rightarrow> bool" where
  "same_step_title a b \<longleftrightarrow> map_option label a = map_option label b
     \<and> Option.bind a detail = Option.bind b detail
     \<and> Option.bind (Option.bind a panes) pane_column = Option.bind (Option.bind b panes) pane_column
     \<and> Option.bind (Option.bind a panes) pane_side = Option.bind (Option.bind b panes) pane_side"

definition same_steps :: "history_step list \<Rightarrow> history_step list \<Rightarrow> bool" where
  "same_steps = list_all2 (\<lambda>s u. step_at s = step_at u \<and> same_history_page (step_page s) (step_page u)
     \<and> same_step_title (step_title_now s) (step_title_now u))"

definition same_reading :: "history_reading \<Rightarrow> history_reading \<Rightarrow> bool" where
  "same_reading r q \<longleftrightarrow> can_go_back r = can_go_back q \<and> can_go_forward r = can_go_forward q
     \<and> same_steps (steps_back r) (steps_back q) \<and> same_steps (steps_forward r) (steps_forward q)
     \<and> (away r = None \<longleftrightarrow> away q = None)
     \<and> same_step_title (Option.bind (away r) id) (Option.bind (away q) id)"

end
