(* ===== verification/Window_Trail.thy ===== *)
theory Window_Trail
  imports Nav_Trail
begin

text \<open>
  \<open>packages/panel/src/navigation-history.ts\<close>: the trail a window keeps beside its router's history. The
  router's history is a library's over the browser's: an argument (\<open>router_ops\<close>) acting on a history
  \<open>'h\<close> that the state carries. A move along it (\<open>go\<close>) is asked for and lands later, when the history
  tells where it stands. Telling the trail's listeners is an argument too (\<open>tell\<close>, with whether the trail
  follows the router), since what the window does when told is \<open>Window_History\<close>'s.
\<close>

subsection \<open>What an entry of the router's history holds\<close>

datatype held_place = Held_Home | Held_Task task_step | Held_Place place

type_synonym saved_step = "place \<times> int"

record location =
  href :: string
  held_step :: "(held_place \<times> int) option"

definition saved_step_of :: "location \<Rightarrow> saved_step option" where
  "saved_step_of loc = map_option (\<lambda>(p, i). (case p of
       Held_Home \<Rightarrow> routed_place (href loc)
     | Held_Task t \<Rightarrow> task_place (href loc) t
     | Held_Place q \<Rightarrow> q, i)) (held_step loc)"

definition saves_step :: "location \<Rightarrow> bool" where
  "saves_step loc \<longleftrightarrow> saved_step_of loc \<noteq> None"

definition saved_task_of :: "location \<Rightarrow> string option" where
  "saved_task_of loc = Option.bind (saved_step_of loc) (\<lambda>(p, _). map_option task_id (place_task p))"

subsection \<open>The trail held\<close>

datatype 'h router_ops = Router_Ops
  (push_entry: "string \<Rightarrow> saved_step \<Rightarrow> 'h \<Rightarrow> 'h")
  (replace_entry: "string \<Rightarrow> saved_step \<Rightarrow> 'h \<Rightarrow> 'h")
  (go_entries: "int \<Rightarrow> 'h \<Rightarrow> 'h")
  (location_of: "'h \<Rightarrow> location")

datatype router_call = Write_Call trail_write_kind string saved_step | Go_Call int int

record 'h window_trail =
  router :: 'h
  trail :: trail
  base :: int
  highest :: int
  traveling :: "int option"
  waiting :: "router_call list"
  minted :: nat

type_synonym ('h, 'm) teller = "bool \<Rightarrow> ('h, 'm) window_trail_scheme \<Rightarrow> ('h, 'm) window_trail_scheme"

definition stand_trail :: "('h, 'm) teller \<Rightarrow> bool \<Rightarrow> trail \<Rightarrow> ('h, 'm) window_trail_scheme \<Rightarrow> ('h, 'm) window_trail_scheme" where
  "stand_trail tell routing nxt s = (if nxt = trail s then s else tell routing (s\<lparr>trail := nxt\<rparr>))"

text \<open>What waits, run in order until a move travels: what travels, what waits still, and the history.\<close>

fun run_calls :: "'h router_ops \<Rightarrow> router_call list \<Rightarrow> 'h \<Rightarrow> int option \<times> router_call list \<times> 'h" where
  "run_calls R [] h = (None, [], h)"
| "run_calls R (Write_Call Push a step # cs) h = run_calls R cs (push_entry R a step h)"
| "run_calls R (Write_Call Replace a step # cs) h = run_calls R cs (replace_entry R a step h)"
| "run_calls R (Go_Call target delta # cs) h = (Some target, cs, go_entries R delta h)"

definition drain_trail :: "'h router_ops \<Rightarrow> ('h, 'm) window_trail_scheme \<Rightarrow> ('h, 'm) window_trail_scheme" where
  "drain_trail R s = (if traveling s \<noteq> None then s
     else (let (t, cs, h) = run_calls R (waiting s) (router s)
           in s\<lparr>traveling := t, waiting := cs, router := h\<rparr>))"

definition in_turn :: "'h router_ops \<Rightarrow> router_call \<Rightarrow> ('h, 'm) window_trail_scheme \<Rightarrow> ('h, 'm) window_trail_scheme" where
  "in_turn R c s = drain_trail R (s\<lparr>waiting := waiting s @ [c]\<rparr>)"

definition write_through ::
  "'h router_ops \<Rightarrow> trail_write_kind \<Rightarrow> trail_entry \<Rightarrow> int \<Rightarrow> ('h, 'm) window_trail_scheme \<Rightarrow> ('h, 'm) window_trail_scheme" where
  "write_through R kind e i s =
     in_turn R (Write_Call kind (entry_address e) (entry_place e, base s + i)) (s\<lparr>highest := max (highest s) (base s + i)\<rparr>)"

definition keep_trail :: "trail_entry list \<Rightarrow> int \<Rightarrow> ('h, 'm) window_trail_scheme \<Rightarrow> ('h, 'm) window_trail_scheme \<times> trail" where
  "keep_trail es i s =
     (let dropped = length es - trail_limit
      in (s\<lparr>base := base s + int dropped\<rparr>, \<lparr>entries = drop dropped es, at = i - int dropped\<rparr>))"

text \<open>An entry read back from where the router's history stands, a new object of the window's.\<close>

definition landed_entry :: "location \<Rightarrow> place \<Rightarrow> ('h, 'm) window_trail_scheme \<Rightarrow> trail_entry" where
  "landed_entry loc p s = \<lparr>entry_id = minted s, entry_address = href loc, entry_place = p\<rparr>"

definition alone_on :: "location \<Rightarrow> ('h, 'm) window_trail_scheme \<Rightarrow> ('h, 'm) window_trail_scheme \<times> trail" where
  "alone_on loc s = (case saved_step_of loc of
     None \<Rightarrow> (s\<lparr>highest := highest s + 1, base := highest s + 1\<rparr>, empty_trail)
   | Some (p, i) \<Rightarrow> (s\<lparr>highest := max (highest s) i, base := i, minted := Suc (minted s)\<rparr>,
        \<lparr>entries = [landed_entry loc p s], at = 0\<rparr>))"

definition landed_on :: "location \<Rightarrow> ('h, 'm) window_trail_scheme \<Rightarrow> ('h, 'm) window_trail_scheme \<times> trail" where
  "landed_on loc s = (case saved_step_of loc of
     None \<Rightarrow> alone_on loc s
   | Some (p, i) \<Rightarrow>
       (let s = s\<lparr>highest := max (highest s) i\<rparr>;
            es = entries (trail s);
            n = i - base s;
            e = landed_entry loc p s;
            s' = s\<lparr>minted := Suc (minted s)\<rparr>
        in if 0 \<le> n \<and> n < int (length es) then (s, \<lparr>entries = es, at = n\<rparr>)
           else if n = -1 then (s'\<lparr>base := base s - 1\<rparr>, \<lparr>entries = take trail_limit (e # es), at = 0\<rparr>)
           else if n = int (length es) then keep_trail (es @ [e]) n s'
           else alone_on loc s))"

definition follow_routed ::
  "'h router_ops \<Rightarrow> ('h, 'm) teller \<Rightarrow> trail_write_kind \<Rightarrow> location \<Rightarrow> ('h, 'm) window_trail_scheme \<Rightarrow> ('h, 'm) window_trail_scheme" where
  "follow_routed R tell kind loc s =
     (let e = landed_entry loc (routed_place (href loc)) s;
          s = s\<lparr>minted := Suc (minted s)\<rparr>;
          nxt = written (trail s) (kind, e);
          s = (if kind = Push \<and> 0 \<le> at (trail s)
               then s\<lparr>base := base s + (at (trail s) + 2 - int (length (entries nxt)))\<rparr> else s)
      in stand_trail tell True nxt (write_through R Replace e (at nxt) s))"

datatype history_move = Pushed | Replaced | Moved

fun write_kind_of :: "history_move \<Rightarrow> trail_write_kind option" where
  "write_kind_of Pushed = Some Push"
| "write_kind_of Replaced = Some Replace"
| "write_kind_of Moved = None"

text \<open>
  \<open>hear\<close>: the router's history told, standing at \<open>h\<close>, of a write or a move not the window's own. What the
  window's own writes tell is not followed (\<open>writing\<close>), and is left out. Note that where a move lands
  elsewhere the listeners are told before what waits is dropped, as the source has it.
\<close>

definition hear ::
  "'h router_ops \<Rightarrow> ('h, 'm) teller \<Rightarrow> history_move \<Rightarrow> 'h \<Rightarrow> ('h, 'm) window_trail_scheme \<Rightarrow> ('h, 'm) window_trail_scheme" where
  "hear R tell action h s =
     (let loc = location_of R h; s = s\<lparr>router := h\<rparr>
      in case write_kind_of action of
           Some kind \<Rightarrow>
             if saved_step_of loc = None then follow_routed R tell kind loc s
             else (let (s, t) = landed_on loc s in stand_trail tell False t s)
         | None \<Rightarrow>
             (case traveling s of
               None \<Rightarrow> (let (s, t) = landed_on loc s in stand_trail tell False t s)
             | Some target \<Rightarrow>
                 (let arrived = (map_option snd (saved_step_of loc) = Some target);
                      s = s\<lparr>traveling := None\<rparr>
                  in if arrived then drain_trail R s
                     else (let (s, t) = (if waiting s = [] then landed_on loc s else alone_on loc s);
                               s = stand_trail tell False t s
                           in drain_trail R (s\<lparr>waiting := []\<rparr>)))))"

definition trail_of :: "'h router_ops \<Rightarrow> 'h \<Rightarrow> 'h window_trail" where
  "trail_of R h = (let (s, t) = alone_on (location_of R h)
       \<lparr>router = h, trail = empty_trail, base = 0, highest = 0, traveling = None, waiting = [], minted = 0\<rparr>
     in s\<lparr>trail := t\<rparr>)"

definition record_trail ::
  "'h router_ops \<Rightarrow> ('h, 'm) teller \<Rightarrow> trail_write \<Rightarrow> ('h, 'm) window_trail_scheme \<Rightarrow> ('h, 'm) window_trail_scheme" where
  "record_trail R tell w s =
     (let pushed = (fst w = Push \<and> 0 \<le> at (trail s));
          nxt = written (trail s) w;
          s = (if pushed then s\<lparr>base := base s + (at (trail s) + 2 - int (length (entries nxt)))\<rparr> else s)
      in stand_trail tell False nxt (write_through R (if pushed then Push else Replace) (snd w) (at nxt) s))"

definition go_along ::
  "'h router_ops \<Rightarrow> ('h, 'm) teller \<Rightarrow> int \<Rightarrow> ('h, 'm) window_trail_scheme \<Rightarrow> ('h, 'm) window_trail_scheme" where
  "go_along R tell delta s =
     (let i = at (trail s) + delta
      in if delta = 0 \<or> i < 0 \<or> int (length (entries (trail s))) \<le> i then s
         else stand_trail tell False ((trail s)\<lparr>at := i\<rparr>) (in_turn R (Go_Call (base s + i) delta) s))"

end
