(* ===== verification/Window_History.thy ===== *)
theory Window_History
  imports Window_Trail
begin

text \<open>
  \<open>packages/panel/src/navigation-history.ts\<close>, \<open>useHistory\<close>: the window over its trail. What the hook keeps in
  its refs is the record \<open>window\<close>, over the trail held; each handler and effect is one operation. What the
  latest render handed the hook is the argument \<open>E\<close>, different from one operation to the next. A leave
  the guard (\<open>useLeaveGuard\<close> of \<open>tasks/use-tasks-tab.ts\<close>) asks about is kept as what it would do
  (\<open>leave\<close>), done once the developer says to. Where the window is taken (\<open>go\<close>) is told in \<open>gone\<close>.
\<close>

record reads =
  reachable :: "place \<Rightarrow> bool"
  named :: "place \<Rightarrow> step_title option"
  path_steps :: "string \<Rightarrow> string list"
  on_task_route :: "string \<Rightarrow> bool"

datatype leave = Leave_Follow "trail_entry option" trail_entry | Leave_Go_To int place

record 'h window = "'h window_trail" +
  standing_entry :: "trail_entry option"
  presses :: nat
  presses_written :: nat
  opens :: nat
  opens_written :: nat
  went_up :: "place option"
  window_place :: "place option"
  visited :: "(place option \<times> string) option"
  ask_stands :: bool
  asked :: "leave list"
  gone :: "place list"

definition new_window :: "'h router_ops \<Rightarrow> 'h \<Rightarrow> 'h window" where
  "new_window R h = window_trail.extend (trail_of R h)
     \<lparr>standing_entry = None, presses = 0, presses_written = 0, opens = 0, opens_written = 0, went_up = None,
      window_place = None, visited = None, ask_stands = False, asked = [], gone = []\<rparr>"

definition led_now :: "'h window \<Rightarrow> step_led" where
  "led_now s = \<lparr>pressed = (presses s \<noteq> presses_written s), opened_side = (opens s \<noteq> opens_written s)\<rparr>"

text \<open>A write of the window's own, which the trail's listener does not follow.\<close>

definition quiet :: "('h, 'm) teller" where
  "quiet routing s = s"

definition own :: "('h window \<Rightarrow> 'h window) \<Rightarrow> 'h window \<Rightarrow> 'h window" where
  "own write s = (let s = write s
     in s\<lparr>presses_written := presses s, opens_written := opens s, standing_entry := standing_of (trail s)\<rparr>)"

text \<open>A visit written, a new entry minted for it.\<close>

definition write_visit :: "'h router_ops \<Rightarrow> reads \<Rightarrow> place \<Rightarrow> string \<Rightarrow> place option \<Rightarrow> 'h window \<Rightarrow> 'h window" where
  "write_visit R E p a up s =
     (case visit_write (minted s) (trail s) p a up (led_now s) (on_task_route E) of
       None \<Rightarrow> s
     | Some w \<Rightarrow> own (record_trail R quiet w) (s\<lparr>minted := Suc (minted s)\<rparr>))"

text \<open>What Back and Forward draw: the trail as it stands once the visit to the place drawn is written.\<close>

definition drawn_reading :: "reads \<Rightarrow> place option \<Rightarrow> string \<Rightarrow> 'h window \<Rightarrow> history_reading" where
  "drawn_reading E p a s =
     (let writes = (p \<noteq> None \<and> visited s \<noteq> Some (p, a)
            \<and> (standing_entry s \<noteq> None \<or> standing_of (trail s) = None));
          t = (if writes then after_visit (minted s) (trail s) (the p) a (went_up s) (led_now s) (on_task_route E) else trail s)
      in reading_of t (reachable E) (named E))"

text \<open>The effect that writes the visit to the place drawn, or goes where a reloaded trail already stands.\<close>

definition settle :: "'h router_ops \<Rightarrow> reads \<Rightarrow> place option \<Rightarrow> string \<Rightarrow> 'h window \<Rightarrow> 'h window" where
  "settle R E p a s =
     (let up = went_up s; s = s\<lparr>visited := Some (p, a), went_up := None, window_place := p\<rparr>
      in case p of
           None \<Rightarrow> s
         | Some q \<Rightarrow>
             (case (standing_entry s, standing_of (trail s)) of
               (None, Some loaded) \<Rightarrow>
                 (let s = s\<lparr>standing_entry := Some loaded\<rparr>
                  in if reachable E (entry_place loaded) then s\<lparr>gone := gone s @ [entry_place loaded]\<rparr> else s)
             | _ \<Rightarrow>
                 if place_task q = None \<and> address q \<noteq> href (location_of R (router s)) then s
                 else write_visit R E q a up s))"

subsection \<open>Leaving\<close>

definition arrive_nowhere :: "'h router_ops \<Rightarrow> trail_entry \<Rightarrow> 'h window \<Rightarrow> 'h window" where
  "arrive_nowhere R was s = (if entry_address was \<noteq> href (location_of R (router s)) then s
     else own (record_trail R quiet (Push, was)) s)"

definition index_of :: "trail_entry \<Rightarrow> trail_entry list \<Rightarrow> nat option" where
  "index_of e es = find_index (\<lambda>x. x = e) es"

fun leave_for :: "'h router_ops \<Rightarrow> leave \<Rightarrow> 'h window \<Rightarrow> 'h window" where
  "leave_for R (Leave_Follow None was) s = arrive_nowhere R was s"
| "leave_for R (Leave_Follow (Some target) was) s =
     (let s' = (case index_of target (entries (trail s)) of
           Some i \<Rightarrow> if int i \<noteq> at (trail s) then own (go_along R quiet (int i - at (trail s))) s
                     else s\<lparr>standing_entry := Some target\<rparr>
         | None \<Rightarrow> s\<lparr>standing_entry := Some target\<rparr>)
      in s'\<lparr>gone := gone s' @ [entry_place target]\<rparr>)"
| "leave_for R (Leave_Go_To i p) s =
     (let s' = own (go_along R quiet (i - at (trail s))) s in s'\<lparr>gone := gone s' @ [p]\<rparr>)"

text \<open>\<open>asking\<close>: whether a step to \<open>to\<close> leaves without asking; and a leave taken, or asked about.\<close>

definition leaves_freely :: "reads \<Rightarrow> place option \<Rightarrow> 'h window \<Rightarrow> bool" where
  "leaves_freely E to s \<longleftrightarrow> (case (window_place s, to) of
     (Some p, Some q) \<Rightarrow> same_draft (path_steps E) p q \<or> \<not> ask_stands s
   | _ \<Rightarrow> \<not> ask_stands s)"

definition asking :: "'h router_ops \<Rightarrow> reads \<Rightarrow> place option \<Rightarrow> leave \<Rightarrow> 'h window \<Rightarrow> 'h window \<times> bool" where
  "asking R E to l s = (if leaves_freely E to s then (leave_for R l s, True) else (s\<lparr>asked := asked s @ [l]\<rparr>, False))"

subsection \<open>Following the router's history\<close>

definition stand_back :: "'h router_ops \<Rightarrow> nat option \<Rightarrow> trail_entry \<Rightarrow> 'h window \<Rightarrow> 'h window" where
  "stand_back R from_at was s = (case from_at of
     Some i \<Rightarrow> own (go_along R quiet (int i - at (trail s))) s
   | None \<Rightarrow> own (record_trail R quiet (Push, was)) s)"

definition followed_step :: "reads \<Rightarrow> trail \<Rightarrow> trail_entry \<Rightarrow> trail_entry option" where
  "followed_step E moved was =
     (let way = (case index_of was (entries moved) of Some i \<Rightarrow> if int i < at moved then Forward else Back | None \<Rightarrow> Back);
          i = (case standing_of moved of
                 None \<Rightarrow> Some (at moved)
               | Some e \<Rightarrow> if reachable E (entry_place e) then Some (at moved) else nearest moved way (reachable E))
      in Option.bind i (nth_opt (entries moved)))"

definition follow :: "'h router_ops \<Rightarrow> reads \<Rightarrow> trail \<Rightarrow> trail_entry \<Rightarrow> 'h window \<Rightarrow> 'h window" where
  "follow R E moved was s =
     (let from_at = index_of was (entries moved); target = followed_step E moved was
      in if standing_of moved \<noteq> None \<and> target = None then stand_back R from_at was s
         else (let (s, followed) = asking R E (map_option entry_place target) (Leave_Follow target was) s
               in if followed then s else stand_back R from_at was s))"

definition told :: "'h router_ops \<Rightarrow> reads \<Rightarrow> bool \<Rightarrow> 'h window \<Rightarrow> 'h window" where
  "told R E routing s =
     (if routing then s\<lparr>standing_entry := standing_of (trail s)\<rparr>
      else (case standing_entry s of
        None \<Rightarrow> s
      | Some was \<Rightarrow> if standing_of (trail s) = Some was then s else follow R E (trail s) was s))"

subsection \<open>The window's own steps\<close>

definition go_to :: "'h router_ops \<Rightarrow> reads \<Rightarrow> int option \<Rightarrow> 'h window \<Rightarrow> 'h window \<times> bool" where
  "go_to R E i s = (case i of
     None \<Rightarrow> (s, False)
   | Some j \<Rightarrow> (case place_at (trail s) j of
       None \<Rightarrow> (s, False)
     | Some p \<Rightarrow> if \<not> reachable E p then (s, False) else (fst (asking R E (Some p) (Leave_Go_To j p) s), True)))"

definition step :: "'h router_ops \<Rightarrow> reads \<Rightarrow> way \<Rightarrow> 'h window \<Rightarrow> 'h window \<times> bool" where
  "step R E w s = go_to R E (nearest (trail s) w (reachable E)) s"

definition step_away :: "'h router_ops \<Rightarrow> reads \<Rightarrow> 'h window \<Rightarrow> 'h window \<times> bool" where
  "step_away R E s = go_to R E (away_from (trail s) (reachable E)) s"

definition visit :: "'h router_ops \<Rightarrow> reads \<Rightarrow> place \<Rightarrow> 'h window \<Rightarrow> 'h window \<times> bool" where
  "visit R E to s = (if standing_of (trail s) = None then (s, False)
     else (write_visit R E to (address to) None s, True))"

definition back_to :: "'h router_ops \<Rightarrow> reads \<Rightarrow> place \<Rightarrow> 'h window \<Rightarrow> 'h window \<times> bool" where
  "back_to R E to s = (case nearest (trail s) Back (reachable E) of
     None \<Rightarrow> (s, False)
   | Some i \<Rightarrow> if \<not> same_step (place_at (trail s) i) to then (s, False) else (fst (step R E Back s), True))"

text \<open>\<open>upTo\<close>, with whether it stands the list in the step's place.\<close>

definition up_to :: "'h router_ops \<Rightarrow> reads \<Rightarrow> place \<Rightarrow> 'h window \<Rightarrow> 'h window \<times> bool" where
  "up_to R E to s =
     (if (case window_place s of None \<Rightarrow> True | Some here \<Rightarrow> \<not> same_page here to \<or> same_place_sub_step here to) then (s, True)
      else (let (s, went) = back_to R E to s in if went then (s, False) else (s\<lparr>went_up := Some to\<rparr>, True)))"

datatype 'h window_event =
    Draws "place option" string | Presses | Opens_Side | Asks bool | Hears history_move 'h
  | Steps way | Steps_Away | Goes_To int | Visits place | Goes_Back_To place | Goes_Up_To place | Leaves nat

text \<open>One event of the window; a leave said goes through where it was asked about and is still waiting.\<close>

fun window_step :: "'h router_ops \<Rightarrow> reads \<Rightarrow> 'h window_event \<Rightarrow> 'h window \<Rightarrow> 'h window" where
  "window_step R E (Draws p a) s = settle R E p a s"
| "window_step R E Presses s = s\<lparr>presses := Suc (presses s)\<rparr>"
| "window_step R E Opens_Side s = s\<lparr>opens := Suc (opens s)\<rparr>"
| "window_step R E (Asks b) s = s\<lparr>ask_stands := b\<rparr>"
| "window_step R E (Hears action h) s = hear R (told R E) action h s"
| "window_step R E (Steps w) s = fst (step R E w s)"
| "window_step R E Steps_Away s = fst (step_away R E s)"
| "window_step R E (Goes_To i) s = fst (go_to R E (Some i) s)"
| "window_step R E (Visits to) s = fst (visit R E to s)"
| "window_step R E (Goes_Back_To to) s = fst (back_to R E to s)"
| "window_step R E (Goes_Up_To to) s = fst (up_to R E to s)"
| "window_step R E (Leaves n) s =
     (case nth_opt (asked s) (int n) of
       None \<Rightarrow> s
     | Some l \<Rightarrow> leave_for R l (s\<lparr>asked := take n (asked s) @ drop (Suc n) (asked s)\<rparr>))"

end
