(* ===== verification/Trail_History.thy ===== *)
theory Trail_History
  imports Window_History
begin

text \<open>
  The trail of a window (\<open>Window_History\<close>) is the router's history around the entry it stands on, however
  the window, the router and the reader move it. The router's history is known by what it documents
  (\<open>session_history\<close>): a push drops what is ahead and stands after it, a replace writes in place, a move
  asked for changes nothing until it lands.
\<close>

subsection \<open>A router's history\<close>

definition written_entry :: "string \<Rightarrow> saved_step \<Rightarrow> location" where
  "written_entry a sv = \<lparr>href = a, held_step = Some (Held_Place (fst sv), snd sv)\<rparr>"

definition session_history :: "'h router_ops \<Rightarrow> ('h \<Rightarrow> location list) \<Rightarrow> ('h \<Rightarrow> nat) \<Rightarrow> bool" where
  "session_history R stack pos \<longleftrightarrow>
     (\<forall>h. pos h < length (stack h) \<and> location_of R h = stack h ! pos h
        \<and> (\<forall>a sv. stack (push_entry R a sv h) = take (Suc (pos h)) (stack h) @ [written_entry a sv]
             \<and> pos (push_entry R a sv h) = Suc (pos h)
             \<and> stack (replace_entry R a sv h) = (stack h)[pos h := written_entry a sv]
             \<and> pos (replace_entry R a sv h) = pos h)
        \<and> (\<forall>d. stack (go_entries R d h) = stack h \<and> pos (go_entries R d h) = pos h))"

lemma session:
  assumes "session_history R stack pos"
  shows "pos h < length (stack h)" "location_of R h = stack h ! pos h"
    "stack (push_entry R a sv h) = take (Suc (pos h)) (stack h) @ [written_entry a sv]"
    "pos (push_entry R a sv h) = Suc (pos h)"
    "stack (replace_entry R a sv h) = (stack h)[pos h := written_entry a sv]"
    "pos (replace_entry R a sv h) = pos h"
    "stack (go_entries R d h) = stack h" "pos (go_entries R d h) = pos h"
  using assms unfolding session_history_def by blast+

text \<open>What the router itself writes holds no step.\<close>

definition navigated :: "('h \<Rightarrow> location list) \<Rightarrow> ('h \<Rightarrow> nat) \<Rightarrow> trail_write_kind \<Rightarrow> string \<Rightarrow> 'h \<Rightarrow> 'h \<Rightarrow> bool" where
  "navigated stack pos kind a h h' \<longleftrightarrow> (case kind of
     Push \<Rightarrow> stack h' = take (Suc (pos h)) (stack h) @ [\<lparr>href = a, held_step = None\<rparr>] \<and> pos h' = Suc (pos h)
   | Replace \<Rightarrow> stack h' = (stack h)[pos h := \<lparr>href = a, held_step = None\<rparr>] \<and> pos h' = pos h)"

lemma saved_written [simp]: "saved_step_of (written_entry a sv) = Some sv" "href (written_entry a sv) = a"
    "held_step (written_entry a sv) = Some (Held_Place (fst sv), snd sv)"
  by (simp_all add: saved_step_of_def written_entry_def)

subsection \<open>The history once what waits has run\<close>

type_synonym history_view = "location list \<times> nat"

fun seen_call :: "router_call \<Rightarrow> history_view \<Rightarrow> history_view" where
  "seen_call (Write_Call Push a sv) (st, q) = (take (Suc q) st @ [written_entry a sv], Suc q)"
| "seen_call (Write_Call Replace a sv) (st, q) = (st[q := written_entry a sv], q)"
| "seen_call (Go_Call t d) (st, q) = (st, nat (int q + d))"

fun call_ok :: "int \<Rightarrow> router_call \<Rightarrow> history_view \<Rightarrow> bool" where
  "call_ok c (Write_Call k a sv) (st, q) \<longleftrightarrow> snd sv = c + int q + (if k = Push then 1 else 0)"
| "call_ok c (Go_Call t d) (st, q) \<longleftrightarrow> 0 \<le> int q + d \<and> int q + d < int (length st) \<and> t = c + (int q + d)"

definition seen :: "router_call list \<Rightarrow> history_view \<Rightarrow> history_view" where
  "seen cs v = fold seen_call cs v"

fun calls_ok :: "int \<Rightarrow> router_call list \<Rightarrow> history_view \<Rightarrow> bool" where
  "calls_ok c [] v \<longleftrightarrow> True"
| "calls_ok c (x # xs) v \<longleftrightarrow> call_ok c x v \<and> calls_ok c xs (seen_call x v)"

lemma seen_append [simp]: "seen (xs @ ys) v = seen ys (seen xs v)"
  by (simp add: seen_def)

lemma seen_Nil [simp]: "seen [] v = v"
  by (simp add: seen_def)

lemma seen_Cons [simp]: "seen (x # xs) v = seen xs (seen_call x v)"
  by (simp add: seen_def)

lemma calls_ok_append [simp]: "calls_ok c (xs @ ys) v \<longleftrightarrow> calls_ok c xs v \<and> calls_ok c ys (seen xs v)"
  by (induction xs arbitrary: v) simp_all

text \<open>Every entry is a step of the window's, numbered by its place.\<close>

definition numbered :: "int \<Rightarrow> location list \<Rightarrow> bool" where
  "numbered c st \<longleftrightarrow> (\<forall>k < length st. \<exists>p. held_step (st ! k) = Some (p, c + int k))"

lemma numbered_update: "numbered c st \<Longrightarrow> numbered c (st[q := written_entry a (p, c + int q)])"
  unfolding numbered_def
proof (intro allI impI)
  fix k assume "\<forall>k < length st. \<exists>p. held_step (st ! k) = Some (p, c + int k)" "k < length (st[q := written_entry a (p, c + int q)])"
  then show "\<exists>h. held_step (st[q := written_entry a (p, c + int q)] ! k) = Some (h, c + int k)"
    by (cases "k = q") simp_all
qed

lemma numbered_push:
  "numbered c st \<Longrightarrow> q < length st \<Longrightarrow> numbered c (take (Suc q) st @ [written_entry a (p, c + int q + 1)])"
  by (auto simp: numbered_def nth_append min_def less_Suc_eq)

definition landing :: "int \<Rightarrow> ('h \<Rightarrow> nat) \<Rightarrow> int option \<Rightarrow> 'h \<Rightarrow> nat" where
  "landing c pos t h = (case t of None \<Rightarrow> pos h | Some n \<Rightarrow> nat (n - c))"

text \<open>A state whose history, once the move travelling lands and what waits has run, is the view \<open>v\<close>.\<close>

definition comes_to ::
  "('h \<Rightarrow> location list) \<Rightarrow> ('h \<Rightarrow> nat) \<Rightarrow> int \<Rightarrow> ('h, 'm) window_trail_scheme \<Rightarrow> history_view \<Rightarrow> bool" where
  "comes_to stack pos c s v \<longleftrightarrow>
     (let now = (stack (router s), landing c pos (traveling s) (router s))
      in numbered c (fst now) \<and> snd now < length (fst now) \<and> (\<forall>n. traveling s = Some n \<longrightarrow> c \<le> n)
         \<and> calls_ok c (waiting s) now \<and> seen (waiting s) now = v \<and> (traveling s = None \<longrightarrow> waiting s = []))"

lemma run_calls_sees:
  assumes "session_history R stack pos" "numbered c (stack h)" "calls_ok c cs (stack h, pos h)"
    and "run_calls R cs h = (t, cs', h')"
  shows "numbered c (stack h') \<and> landing c pos t h' < length (stack h') \<and> (\<forall>n. t = Some n \<longrightarrow> c \<le> n)
    \<and> calls_ok c cs' (stack h', landing c pos t h') \<and> seen cs' (stack h', landing c pos t h') = seen cs (stack h, pos h)
    \<and> (t = None \<longrightarrow> cs' = [])"
  using assms
proof (induction R cs h rule: run_calls.induct)
  case (1 R h)
  then show ?case using session(1) [OF 1(1), of h] by (auto simp: landing_def)
next
  case (2 R a sv cs h)
  then have "sv = (fst sv, c + int (pos h) + 1)" by (cases sv) simp
  then have "numbered c (stack (push_entry R a sv h))"
    using numbered_push [OF 2(3) session(1) [OF 2(2)], of a "fst sv"] by (simp add: session [OF 2(2)])
  then show ?case using 2 by (simp add: session [OF 2(2)])
next
  case (3 R a sv cs h)
  then have "sv = (fst sv, c + int (pos h))" by (cases sv) simp
  then have "numbered c (stack (replace_entry R a sv h))"
    using numbered_update [OF 3(3), of "pos h" a "fst sv"] by (simp add: session [OF 3(2)])
  then show ?case using 3 by (simp add: session [OF 3(2)])
next
  case (4 R target delta cs h)
  then show ?case by (auto simp: landing_def session [OF 4(1)])
qed

lemma drain_comes_to:
  assumes "session_history R stack pos"
    and "numbered c (fst now)" "snd now < length (fst now)" "calls_ok c (waiting s) now" "seen (waiting s) now = v"
    and "now = (stack (router s), landing c pos (traveling s) (router s))" "\<forall>n. traveling s = Some n \<longrightarrow> c \<le> n"
  shows "comes_to stack pos c (drain_trail R s) v"
proof (cases "traveling s")
  case (Some n)
  then show ?thesis using assms by (simp add: drain_trail_def comes_to_def)
next
  case None
  obtain t cs h where run: "run_calls R (waiting s) (router s) = (t, cs, h)" by (metis prod_cases3)
  then show ?thesis
    using run_calls_sees [OF assms(1) _ _ run, of c] assms None
    by (simp add: drain_trail_def comes_to_def landing_def)
qed

lemma in_turn_comes_to:
  assumes "session_history R stack pos" "comes_to stack pos c s v" "call_ok c x v"
  shows "comes_to stack pos c (in_turn R x s) (seen_call x v)"
  unfolding in_turn_def
  by (rule drain_comes_to [OF assms(1)]) (use assms(2,3) in \<open>auto simp: comes_to_def Let_def\<close>)

subsection \<open>The trail around the entry standing\<close>

definition holds_entry :: "location \<Rightarrow> trail_entry \<Rightarrow> bool" where
  "holds_entry loc e \<longleftrightarrow> href loc = entry_address e \<and> map_option fst (saved_step_of loc) = Some (entry_place e)"

definition around :: "int \<Rightarrow> history_view \<Rightarrow> trail \<Rightarrow> int \<Rightarrow> bool" where
  "around c v t b \<longleftrightarrow> numbered c (fst v) \<and> snd v < length (fst v)
     \<and> 0 \<le> at t \<and> at t < int (length (entries t)) \<and> b + at t = c + int (snd v)
     \<and> (\<forall>n < length (entries t). c \<le> b + int n \<and> b + int n - c < int (length (fst v))
          \<and> holds_entry (fst v ! nat (b + int n - c)) (entries t ! n))"

lemma aroundI:
  assumes "numbered c st" "q < length st" "0 \<le> at t" "at t < int (length (entries t))" "b + at t = c + int q"
    and "\<And>n. n < length (entries t) \<Longrightarrow> c \<le> b + int n \<and> b + int n - c < int (length st)
      \<and> holds_entry (st ! nat (b + int n - c)) (entries t ! n)"
  shows "around c (st, q) t b"
  using assms by (simp add: around_def)

lemma holds_written [simp]: "holds_entry (written_entry (entry_address e) (entry_place e, i)) e"
  by (simp add: holds_entry_def)

lemma around_replace:
  assumes "around c (st, q) t b"
  shows "around c (st[q := written_entry (entry_address e) (entry_place e, c + int q)], q)
    (t\<lparr>entries := (entries t)[nat (at t) := e]\<rparr>) b"
proof (rule aroundI)
  note a = assms [unfolded around_def, simplified]
  let ?st = "st[q := written_entry (entry_address e) (entry_place e, c + int q)]"
  let ?t = "t\<lparr>entries := (entries t)[nat (at t) := e]\<rparr>"
  show "numbered c ?st" using a numbered_update by simp
  show "q < length ?st" "0 \<le> at ?t" "at ?t < int (length (entries ?t))" "b + at ?t = c + int q" using a by simp_all
  fix n assume "n < length (entries ?t)"
  then have n: "n < length (entries t)" by simp
  then have h: "c \<le> b + int n" "b + int n - c < int (length st)" "holds_entry (st ! nat (b + int n - c)) (entries t ! n)"
    using a by simp_all
  have q: "nat (b + int n - c) = q \<longleftrightarrow> n = nat (at t)" using a h(1) by linarith
  show "c \<le> b + int n \<and> b + int n - c < int (length ?st) \<and> holds_entry (?st ! nat (b + int n - c)) (entries ?t ! n)"
  proof (cases "n = nat (at t)")
    case True
    then have "nat (b + int n - c) = q" using q by blast
    then show ?thesis using True h n a by (simp add: nth_list_update_eq)
  next
    case False
    then show ?thesis using q h by simp
  qed
qed

text \<open>The oldest entries let go of, and a trail with its steps ahead cleared and one put after it.\<close>

lemma around_drop:
  assumes "around c v t b" "int d \<le> at t"
  shows "around c v \<lparr>entries = drop d (entries t), at = at t - int d\<rparr> (b + int d)"
proof -
  note a = assms(1) [unfolded around_def]
  have "c \<le> b + int d + int n \<and> b + int d + int n - c < int (length (fst v))
      \<and> holds_entry (fst v ! nat (b + int d + int n - c)) (drop d (entries t) ! n)" if "n < length (drop d (entries t))" for n
  proof -
    have "d + n < length (entries t)" using that by simp
    then show ?thesis using a by (auto simp: add.assoc dest!: spec [of _ "d + n"])
  qed
  then show ?thesis using a assms(2) by (simp add: around_def)
qed

lemma around_extend:
  assumes "around c (st, q) t b"
  shows "around c (take (Suc q) st @ [written_entry (entry_address e) (entry_place e, c + int q + 1)], Suc q)
    \<lparr>entries = take (nat (at t) + 1) (entries t) @ [e], at = at t + 1\<rparr> b"
proof -
  note a = assms [unfolded around_def, simplified]
  let ?w = "written_entry (entry_address e) (entry_place e, c + int q + 1)"
  let ?st = "take (Suc q) st @ [?w]"
  let ?es = "take (nat (at t) + 1) (entries t) @ [e]"
  have len: "nat (at t) < length (entries t)" using a by linarith
  then have es: "length ?es = nat (at t) + 2" by (simp add: min_def)
  have st: "length ?st = Suc (Suc q)" using a by simp
  have old: "?st ! m = st ! m" if "m \<le> q" for m using that a by (simp add: nth_append)
  have new: "?st ! Suc q = ?w" using a by (simp add: nth_append)
  have shown: "c \<le> b + int n \<and> b + int n - c < int (length ?st) \<and> holds_entry (?st ! nat (b + int n - c)) (?es ! n)"
    if n: "n < nat (at t) + 2" for n
  proof (cases "n = nat (at t) + 1")
    case True
    then have "b + int n - c = int (Suc q)" using a by simp
    moreover have "?es ! n = e" using True len by (simp add: nth_append min_def)
    moreover have "nat (int (Suc q)) = Suc q" by simp
    ultimately show ?thesis unfolding st using new a by (simp only: holds_written) simp
  next
    case False
    then have n': "n \<le> nat (at t)" "n < length (entries t)" using n a by auto
    then have h: "c \<le> b + int n" "holds_entry (st ! nat (b + int n - c)) (entries t ! n)" using a by auto
    have le: "nat (b + int n - c) \<le> q" using n'(1) h(1) a by linarith
    have "?es ! n = entries t ! n" using n' by (simp add: nth_append)
    then show ?thesis unfolding st old [OF le] using h le by simp
  qed
  show ?thesis
    by (rule aroundI) (use a es st shown numbered_push in \<open>simp_all only: trail.simps es, simp_all\<close>)
qed

lemma around_push:
  assumes "around c (st, q) t b"
  shows "around c (take (Suc q) st @ [written_entry (entry_address e) (entry_place e, c + int q + 1)], Suc q)
    (written t (Push, e)) (b + (at t + 2 - int (length (entries (written t (Push, e))))))"
proof -
  note a = assms [unfolded around_def, simplified]
  let ?es = "take (nat (at t) + 1) (entries t) @ [e]"
  define d where "d = length ?es - trail_limit"
  have len: "nat (at t) < length (entries t)" using a by linarith
  then have es: "length ?es = nat (at t) + 2" by (simp add: min_def)
  have d: "int d \<le> at t + 1" using a es unfolding d_def trail_limit_def by linarith
  have w: "written t (Push, e) = \<lparr>entries = drop d ?es, at = at t + 1 - int d\<rparr>"
    using a d es by (simp add: written_def last_n_def Let_def d_def del: drop_append take_append length_append)
  have b: "b + (at t + 2 - int (length (entries (written t (Push, e))))) = b + int d"
    unfolding w trail.simps length_drop es using d a by linarith
  show ?thesis unfolding b unfolding w using around_drop [OF around_extend [OF assms, of e], of d] d by simp
qed

lemma around_go:
  assumes "around c (st, q) t b" "0 \<le> at t + d" "at t + d < int (length (entries t))"
  shows "around c (st, nat (int q + d)) (t\<lparr>at := at t + d\<rparr>) b" "0 \<le> int q + d" "int q + d < int (length st)"
proof -
  note a = assms(1) [unfolded around_def, simplified]
  have "nat (at t + d) < length (entries t)" using assms(2,3) by linarith
  then have "c \<le> b + (at t + d)" "b + (at t + d) - c < int (length st)" using a assms(2) by auto
  then show q: "0 \<le> int q + d" "int q + d < int (length st)" using a by linarith+
  then show "around c (st, nat (int q + d)) (t\<lparr>at := at t + d\<rparr>) b" using a assms(2,3) by (simp add: around_def)
qed

subsection \<open>The window in step with its history\<close>

definition unstarted :: "('h \<Rightarrow> location list) \<Rightarrow> ('h, 'm) window_trail_scheme \<Rightarrow> bool" where
  "unstarted stack s \<longleftrightarrow> (\<exists>loc. stack (router s) = [loc] \<and> held_step loc = None)
     \<and> trail s = empty_trail \<and> traveling s = None \<and> waiting s = []"

definition in_step :: "('h \<Rightarrow> location list) \<Rightarrow> ('h \<Rightarrow> nat) \<Rightarrow> ('h, 'm) window_trail_scheme \<Rightarrow> bool" where
  "in_step stack pos s \<longleftrightarrow> unstarted stack s \<or> (\<exists>c v. comes_to stack pos c s v \<and> around c v (trail s) (base s))"

lemma in_step_cong:
  assumes "in_step stack pos s" "router s' = router s" "trail s' = trail s" "base s' = base s"
    "traveling s' = traveling s" "waiting s' = waiting s"
  shows "in_step stack pos s'"
  using assms unfolding in_step_def unstarted_def comes_to_def by auto

lemma in_stepI: "comes_to stack pos c s v \<Longrightarrow> around c v (trail s) (base s) \<Longrightarrow> in_step stack pos s"
  unfolding in_step_def by blast

lemma in_turn_frame [simp]:
  "trail (in_turn R x s) = trail s" "base (in_turn R x s) = base s"
  "trail (write_through R k e i s) = trail s" "base (write_through R k e i s) = base s"
  by (simp_all add: write_through_def in_turn_def drain_trail_def Let_def split: prod.split)

lemma comes_to_frame [simp]:
  "comes_to stack pos c (s\<lparr>trail := t\<rparr>) v = comes_to stack pos c s v"
  "comes_to stack pos c (s\<lparr>base := b\<rparr>) v = comes_to stack pos c s v"
  "comes_to stack pos c (s\<lparr>highest := n\<rparr>) v = comes_to stack pos c s v"
  "comes_to stack pos c (s\<lparr>minted := m\<rparr>) v = comes_to stack pos c s v"
  by (simp_all add: comes_to_def)

lemma stand_quiet [simp]: "stand_trail quiet b nxt s = s\<lparr>trail := nxt\<rparr>"
  by (simp add: stand_trail_def quiet_def)

lemma in_step_stand:
  assumes "in_step stack pos (s\<lparr>trail := nxt\<rparr>)" "\<And>s. in_step stack pos s \<Longrightarrow> in_step stack pos (tell b s)"
  shows "in_step stack pos (stand_trail tell b nxt s)"
  using assms by (auto simp: stand_trail_def)

lemma write_through_comes_to:
  assumes "session_history R stack pos" "comes_to stack pos c s (st, q)"
    and "base s + i = c + int q + (if k = Push then 1 else 0)"
  shows "comes_to stack pos c (write_through R k e i s)
    (seen_call (Write_Call k (entry_address e) (entry_place e, base s + i)) (st, q))"
  unfolding write_through_def using assms by (intro in_turn_comes_to) auto

text \<open>A write with nothing on its way is in place at once, as the first of all is on the entry standing.\<close>

lemma written_now:
  assumes "session_history R stack pos" "traveling s = None" "waiting s = []"
    and st: "(stack (router s))[pos (router s) := written_entry (entry_address e) (entry_place e, base s + i)] = st"
    and a: "around c (st, pos (router s)) t (base s)"
  shows "in_step stack pos (write_through R Replace e i s\<lparr>trail := t\<rparr>)"
proof (rule in_stepI)
  let ?h = "replace_entry R (entry_address e) (entry_place e, base s + i) (router s)"
  have "write_through R Replace e i s = s\<lparr>highest := max (highest s) (base s + i), router := ?h\<rparr>"
    using assms(2,3) by (simp add: write_through_def in_turn_def drain_trail_def)
  then show "comes_to stack pos c (write_through R Replace e i s\<lparr>trail := t\<rparr>) (st, pos (router s))"
    using assms(2,3) a st by (simp add: comes_to_def landing_def session [OF assms(1)] around_def)
  show "around c (st, pos (router s)) (trail (write_through R Replace e i s\<lparr>trail := t\<rparr>))
      (base (write_through R Replace e i s\<lparr>trail := t\<rparr>))" using a by simp
qed

lemma first_write:
  assumes "session_history R stack pos" "unstarted stack s"
  shows "in_step stack pos (write_through R Replace e 0 s\<lparr>trail := \<lparr>entries = [e], at = 0\<rparr>\<rparr>)"
proof -
  obtain loc where loc: "stack (router s) = [loc]" and s: "traveling s = None" "waiting s = []"
    using assms(2) by (auto simp: unstarted_def)
  have pos: "pos (router s) = 0" using session(1) [OF assms(1), of "router s"] loc by simp
  show ?thesis
    by (rule written_now [OF assms(1) s refl, where c = "base s"]) (simp_all add: loc pos around_def numbered_def)
qed

lemma written_empty: "trail s = empty_trail \<Longrightarrow> written (trail s) w = \<lparr>entries = [snd w], at = 0\<rparr>"
  by (simp add: written_def empty_trail_def)

lemma record_in_step:
  assumes "session_history R stack pos" "in_step stack pos s"
  shows "in_step stack pos (record_trail R quiet w s)"
  using assms(2) unfolding in_step_def [of _ _ s]
proof (elim disjE exE conjE)
  assume u: "unstarted stack s"
  then have "trail s = empty_trail" by (simp add: unstarted_def)
  then show ?thesis using first_write [OF assms(1) u, of "snd w"] written_empty [of s w]
    by (simp add: record_trail_def empty_trail_def)
next
  fix c v assume s: "comes_to stack pos c s v" and a: "around c v (trail s) (base s)"
  obtain st q where v: "v = (st, q)" by fastforce
  have at: "0 \<le> at (trail s)" "base s + at (trail s) = c + int q" using a by (simp_all add: around_def v)
  obtain k e where w: "w = (k, e)" by fastforce
  show ?thesis
  proof (cases k)
    case Replace
    have "written (trail s) w = (trail s)\<lparr>entries := (entries (trail s))[nat (at (trail s)) := e]\<rparr>"
      using at w Replace by (simp add: written_def)
    then show ?thesis
      using write_through_comes_to [OF assms(1) s [unfolded v], of "at (trail s)" Replace e] around_replace [OF a [unfolded v], of e] at w Replace
      by (auto simp: record_trail_def in_step_def)
  next
    case Push
    define b where "b = base s + (at (trail s) + 2 - int (length (entries (written (trail s) (Push, e)))))"
    note p = around_push [OF a [unfolded v], of e, folded b_def]
    have n: "b + at (written (trail s) (Push, e)) = c + int q + 1" using p unfolding around_def by simp
    have rec: "record_trail R quiet w s
        = (write_through R Push e (at (written (trail s) (Push, e))) (s\<lparr>base := b\<rparr>))\<lparr>trail := written (trail s) (Push, e)\<rparr>"
      using at w Push by (simp add: record_trail_def Let_def b_def)
    have "comes_to stack pos c (write_through R Push e (at (written (trail s) (Push, e))) (s\<lparr>base := b\<rparr>))
        (take (Suc q) st @ [written_entry (entry_address e) (entry_place e, c + int q + 1)], Suc q)"
      using write_through_comes_to [OF assms(1), of c "s\<lparr>base := b\<rparr>" st q "at (written (trail s) (Push, e))" Push e] s v n
      by simp
    then show ?thesis unfolding rec using p by (intro in_stepI) simp_all
  qed
qed

lemma go_in_step:
  assumes "session_history R stack pos" "in_step stack pos s"
  shows "in_step stack pos (go_along R quiet d s)"
  using assms(2) unfolding in_step_def [of _ _ s]
proof (elim disjE exE conjE)
  assume "unstarted stack s"
  then have "go_along R quiet d s = s" by (auto simp: go_along_def unstarted_def empty_trail_def Let_def)
  then show ?thesis using assms(2) by simp
next
  fix c v assume s: "comes_to stack pos c s v" and a: "around c v (trail s) (base s)"
  obtain st q where v: "v = (st, q)" by fastforce
  show ?thesis
  proof (cases "d = 0 \<or> at (trail s) + d < 0 \<or> int (length (entries (trail s))) \<le> at (trail s) + d")
    case True
    then show ?thesis using assms(2) by (auto simp: go_along_def Let_def)
  next
    case False
    note g = around_go [OF a [unfolded v], of d]
    have "call_ok c (Go_Call (base s + (at (trail s) + d)) d) v" using g a False v by (auto simp: around_def)
    then have "comes_to stack pos c (in_turn R (Go_Call (base s + (at (trail s) + d)) d) s) (st, nat (int q + d))"
      using in_turn_comes_to [OF assms(1) s] v by fastforce
    moreover have "go_along R quiet d s
        = (in_turn R (Go_Call (base s + (at (trail s) + d)) d) s)\<lparr>trail := (trail s)\<lparr>at := at (trail s) + d\<rparr>\<rparr>"
      using False by (simp add: go_along_def Let_def)
    ultimately show ?thesis using g(1) False by (intro in_stepI) auto
  qed
qed

subsection \<open>Hearing the history\<close>

lemma follow_in_step:
  assumes R: "session_history R stack pos" and s: "in_step stack pos s" and still: "traveling s = None"
    and nav: "navigated stack pos kind a (router s) h" and stands: "kind = Push \<Longrightarrow> 0 \<le> at (trail s)"
    and tell: "\<And>s. in_step stack pos s \<Longrightarrow> in_step stack pos (tell True s)"
  shows "in_step stack pos (follow_routed R tell kind (location_of R h) (s\<lparr>router := h\<rparr>))"
proof -
  let ?loc = "location_of R h"
  define e where "e = landed_entry ?loc (routed_place (href ?loc)) (s\<lparr>router := h\<rparr>)"
  define s1 where "s1 = s\<lparr>router := h, minted := Suc (minted s)\<rparr>"
  define nxt where "nxt = written (trail s) (kind, e)"
  define b where "b = (if kind = Push \<and> 0 \<le> at (trail s)
    then base s + (at (trail s) + 2 - int (length (entries nxt))) else base s)"
  have follow: "follow_routed R tell kind ?loc (s\<lparr>router := h\<rparr>)
      = stand_trail tell True nxt (write_through R Replace e (at nxt) (s1\<lparr>base := b\<rparr>))"
    by (simp add: follow_routed_def Let_def e_def s1_def nxt_def b_def)
  have "in_step stack pos ((write_through R Replace e (at nxt) (s1\<lparr>base := b\<rparr>))\<lparr>trail := nxt\<rparr>)"
    using s unfolding in_step_def [of _ _ s]
  proof (elim disjE exE conjE)
    assume u: "unstarted stack s"
    then have kind: "kind = Replace" "b = base s" "nxt = \<lparr>entries = [e], at = 0\<rparr>" and w: "waiting s = []"
      using stands by (cases kind; simp add: unstarted_def empty_trail_def b_def nxt_def written_def)+
    obtain loc where "stack (router s) = [loc]" using u by (auto simp: unstarted_def)
    moreover have "pos (router s) = 0" using session(1) [OF R, of "router s"] calculation by simp
    ultimately have "unstarted stack (s1\<lparr>base := b\<rparr>)" using u nav kind by (simp add: unstarted_def s1_def navigated_def)
    then show ?thesis using first_write [OF R] kind by simp
  next
    fix c v assume c: "comes_to stack pos c s v" and a: "around c v (trail s) (base s)"
    then have w: "waiting s = []" and v: "v = (stack (router s), pos (router s))"
      using still by (auto simp: comes_to_def landing_def Let_def)
    have at: "0 \<le> at (trail s)" "base s + at (trail s) = c + int (pos (router s))"
      "pos (router s) < length (stack (router s))" using a by (simp_all add: around_def v)
    show ?thesis
    proof (cases kind)
      case Replace
      then have n: "nxt = (trail s)\<lparr>entries := (entries (trail s))[nat (at (trail s)) := e]\<rparr>" "b = base s"
        using at by (simp_all add: nxt_def written_def b_def)
      show ?thesis
        by (rule written_now [OF R _ _ refl])
          (use still w nav Replace n at around_replace [OF a [unfolded v], of e] in \<open>simp_all add: s1_def navigated_def\<close>)
    next
      case Push
      note p = around_push [OF a [unfolded v], of e]
      have n: "nxt = written (trail s) (Push, e)" "b = base s + (at (trail s) + 2 - int (length (entries nxt)))"
        using at Push by (simp_all add: nxt_def b_def)
      note p' = p [folded n(1), folded n(2)]
      have bn: "c + int (pos (router s)) + 1 = b + at nxt" using p' by (simp add: around_def)
      show ?thesis
        by (rule written_now [OF R _ _ refl, where c = c])
          (use still w nav Push at p' [unfolded bn] in \<open>simp_all add: s1_def navigated_def list_update_append\<close>)
    qed
  qed
  then show ?thesis unfolding follow by (rule in_step_stand) (rule tell)
qed

lemma numbered_saved: "numbered c st \<Longrightarrow> p < length st \<Longrightarrow> \<exists>q. saved_step_of (st ! p) = Some (q, c + int p)"
  by (force simp: numbered_def saved_step_of_def)

lemma alone_around:
  assumes "numbered c st" "p < length st" "alone_on (st ! p) s = (s', t)"
  shows "around c (st, p) t (base s')"
proof -
  obtain q where "saved_step_of (st ! p) = Some (q, c + int p)" using numbered_saved [OF assms(1,2)] by blast
  then show ?thesis
    using assms by (auto simp: alone_on_def around_def holds_entry_def landed_entry_def)
qed

lemma around_take:
  "around c v t b \<Longrightarrow> at t < int k \<Longrightarrow> around c v \<lparr>entries = take k (entries t), at = at t\<rparr> b"
  by (simp add: around_def min_def)

lemma around_behind:
  assumes "around c (st, q) t b" "b = c + int p + 1" "holds_entry (st ! p) e"
  shows "around c (st, p) \<lparr>entries = take trail_limit (e # entries t), at = 0\<rparr> (b - 1)"
proof -
  note a = assms(1) [unfolded around_def, simplified]
  have "c \<le> b - 1 + int n \<and> b - 1 + int n - c < int (length st) \<and> holds_entry (st ! nat (b - 1 + int n - c)) ((e # entries t) ! n)"
    if "n < length (e # entries t)" for n
  proof (cases n)
    case 0
    have "c \<le> b" "b - c < int (length st)" using a by (auto dest!: spec [of _ 0])
    then show ?thesis using 0 assms(2,3) by simp
  next
    case (Suc m)
    then have "m < length (entries t)" using that by simp
    then show ?thesis using a Suc by auto
  qed
  moreover have "p < length st"
  proof -
    have "b - c < int (length st)" using a by (auto dest!: spec [of _ 0])
    then show ?thesis using assms(2) by simp
  qed
  ultimately have "around c (st, p) \<lparr>entries = e # entries t, at = 0\<rparr> (b - 1)" using a assms(2) by (simp add: around_def)
  from around_take [OF this, of trail_limit] show ?thesis by (simp add: trail_limit_def)
qed

lemma around_ahead:
  assumes "around c (st, q) t b" "c + int p = b + int (length (entries t))" "p < length st" "holds_entry (st ! p) e"
  shows "around c (st, p) \<lparr>entries = entries t @ [e], at = int (length (entries t))\<rparr> b"
proof -
  note a = assms(1) [unfolded around_def, simplified]
  have "c \<le> b + int n \<and> b + int n - c < int (length st) \<and> holds_entry (st ! nat (b + int n - c)) ((entries t @ [e]) ! n)"
    if "n < length (entries t @ [e])" for n
  proof (cases "n < length (entries t)")
    case True
    then show ?thesis using a by (simp add: nth_append)
  next
    case False
    then have "n = length (entries t)" using that by simp
    moreover have "nat (b + int (length (entries t)) - c) = p" using assms(2) by linarith
    ultimately show ?thesis using assms(2-4) by simp
  qed
  then show ?thesis using a assms(2,3) by (simp add: around_def)
qed

lemma landed_around:
  assumes a: "around c (st, q) (trail s) (base s)" and p: "p < length st" and l: "landed_on (st ! p) s = (s', t)"
  shows "around c (st, p) t (base s')"
proof -
  have n: "numbered c st" using a by (simp add: around_def)
  obtain r where saved: "saved_step_of (st ! p) = Some (r, c + int p)" using numbered_saved [OF n p] by blast
  define e where "e = landed_entry (st ! p) r (s\<lparr>highest := max (highest s) (c + int p)\<rparr>)"
  have e: "holds_entry (st ! p) e" using saved by (simp add: e_def holds_entry_def landed_entry_def)
  define i where "i = c + int p - base s"
  consider "0 \<le> i \<and> i < int (length (entries (trail s)))" | "i = -1" | "i = int (length (entries (trail s)))"
    | "\<not> (0 \<le> i \<and> i < int (length (entries (trail s))))" "i \<noteq> -1" "i \<noteq> int (length (entries (trail s)))" by blast
  then show ?thesis
  proof cases
    case 1
    then have "t = \<lparr>entries = entries (trail s), at = i\<rparr>" "base s' = base s"
      using l saved by (auto simp: landed_on_def Let_def i_def e_def)
    then show ?thesis using a 1 p by (simp add: around_def i_def)
  next
    case 2
    then have "t = \<lparr>entries = take trail_limit (e # entries (trail s)), at = 0\<rparr>" "base s' = base s - 1"
      using l saved by (auto simp: landed_on_def Let_def i_def e_def)
    moreover have "base s = c + int p + 1" using 2 i_def by simp
    ultimately show ?thesis using around_behind [OF a _ e] by simp
  next
    case 3
    then have t: "t = \<lparr>entries = drop (length (entries (trail s) @ [e]) - trail_limit) (entries (trail s) @ [e]),
          at = i - int (length (entries (trail s) @ [e]) - trail_limit)\<rparr>"
        "base s' = base s + int (length (entries (trail s) @ [e]) - trail_limit)"
      using l saved by (auto simp: landed_on_def Let_def i_def e_def keep_trail_def)
    have "int (length (entries (trail s) @ [e]) - trail_limit) \<le> int (length (entries (trail s)))"
      by (simp add: trail_limit_def)
    then show ?thesis
      using around_drop [OF around_ahead [OF a _ p e]] 3 unfolding t by (simp add: i_def del: drop_append length_append)
  next
    case 4
    then have "alone_on (st ! p) (s\<lparr>highest := max (highest s) (c + int p)\<rparr>) = (s', t)"
      using l saved by (auto simp: landed_on_def Let_def i_def e_def)
    then show ?thesis by (rule alone_around [OF n p])
  qed
qed

lemma landed_frame:
  "landed_on loc s = (s', t) \<Longrightarrow> router s' = router s \<and> traveling s' = traveling s \<and> waiting s' = waiting s"
  "alone_on loc s = (s', t) \<Longrightarrow> router s' = router s \<and> traveling s' = traveling s \<and> waiting s' = waiting s"
  by (auto simp: landed_on_def alone_on_def keep_trail_def Let_def split: option.splits prod.splits if_splits)

lemma move_in_step:
  assumes R: "session_history R stack pos" and s: "in_step stack pos s" and st: "stack h = stack (router s)"
    and land: "traveling s = None \<or> waiting s = [] \<or> map_option snd (saved_step_of (location_of R h)) = traveling s"
    and tell: "\<And>s. in_step stack pos s \<Longrightarrow> in_step stack pos (tell False s)"
    and calm: "\<And>s. traveling s = None \<Longrightarrow> waiting s = [] \<Longrightarrow> waiting (tell False s) = []"
  shows "in_step stack pos (hear R tell Moved h s)"
  using s unfolding in_step_def [of _ _ s]
proof (elim disjE exE conjE)
  assume u: "unstarted stack s"
  then obtain loc where "stack (router s) = [loc]" "held_step loc = None" by (auto simp: unstarted_def)
  moreover have "pos h = 0" using session(1) [OF R, of h] st calculation(1) by simp
  ultimately have loc: "saved_step_of (location_of R h) = None" using st session(2) [OF R, of h] by (simp add: saved_step_of_def)
  have "unstarted stack (s\<lparr>router := h, highest := n, base := b\<rparr>)" for n b using u st by (simp add: unstarted_def)
  then show ?thesis using u loc
    by (simp add: hear_def Let_def landed_on_def alone_on_def stand_trail_def unstarted_def in_step_def)
next
  fix c v assume c: "comes_to stack pos c s v" and a: "around c v (trail s) (base s)"
  have n: "numbered c (stack (router s))" using c by (simp add: comes_to_def Let_def)
  have p: "pos h < length (stack (router s))" using session(1) [OF R, of h] st by simp
  have loc: "location_of R h = stack (router s) ! pos h" using session(2) [OF R, of h] st by simp
  have landed: "in_step stack pos (stand_trail tell False t s')"
    if l: "landed_on (location_of R h) (s\<lparr>router := h, traveling := None\<rparr>) = (s', t)" and w: "waiting s = []" for s' t
  proof (rule in_step_stand [where tell = tell and b = False, OF in_stepI [of stack pos c "s'\<lparr>trail := t\<rparr>" "(stack h, pos h)"]])
    show "in_step stack pos (tell False u)" if "in_step stack pos u" for u using tell that .
    note f = landed_frame(1) [OF l]
    show "comes_to stack pos c (s'\<lparr>trail := t\<rparr>) (stack h, pos h)"
      using f w n p st by (simp add: comes_to_def landing_def)
    have "v = (stack (router s), landing c pos (traveling s) (router s))" using c w by (simp add: comes_to_def Let_def)
    then show "around c (stack h, pos h) (trail (s'\<lparr>trail := t\<rparr>)) (base (s'\<lparr>trail := t\<rparr>))"
      using landed_around [OF _ p l [unfolded loc]] a st by simp
  qed
  show ?thesis
  proof (cases "traveling s")
    case None
    then have same: "s\<lparr>router := h, traveling := None\<rparr> = s\<lparr>router := h\<rparr>" by simp
    have "waiting s = []" using c None by (simp add: comes_to_def Let_def)
    then show ?thesis using landed None same by (auto simp: hear_def Let_def split: prod.split)
  next
    case (Some target)
    show ?thesis
    proof (cases "map_option snd (saved_step_of (location_of R h)) = Some target")
      case True
      then have "target = c + int (pos h)" using numbered_saved [OF n p] loc by auto
      then have "landing c pos (traveling s) (router s) = pos h" using Some by (simp add: landing_def)
      then have "comes_to stack pos c (drain_trail R (s\<lparr>router := h, traveling := None\<rparr>)) v"
        using c p n st by (intro drain_comes_to [OF R, where now = "(stack h, pos h)"]) (simp_all add: comes_to_def landing_def Let_def)
      moreover have "hear R tell Moved h s = drain_trail R (s\<lparr>router := h, traveling := None\<rparr>)"
        using True Some by (simp add: hear_def Let_def)
      moreover have "trail (drain_trail R s') = trail s'" "base (drain_trail R s') = base s'" for s' :: "('a, 'b) window_trail_scheme"
        by (simp_all add: drain_trail_def Let_def split: prod.split)
      ultimately show ?thesis using a by (simp add: in_stepI)
    next
      case False
      then have w: "waiting s = []" using land Some by auto
      obtain s' t where l: "landed_on (location_of R h) (s\<lparr>router := h, traveling := None\<rparr>) = (s', t)" by fastforce
      have "waiting (stand_trail tell False t s') = []"
        using landed_frame(1) [OF l] w calm by (simp add: stand_trail_def)
      then have "drain_trail R ((stand_trail tell False t s')\<lparr>waiting := []\<rparr>) = stand_trail tell False t s'"
        by (simp add: drain_trail_def Let_def)
      then show ?thesis using landed [OF l w] False Some w l by (simp add: hear_def Let_def)
    qed
  qed
qed

subsection \<open>Every event of the window\<close>

lemma in_step_refs [simp]:
  "in_step stack pos (s\<lparr>standing_entry := e\<rparr>) = in_step stack pos s"
  "in_step stack pos (s\<lparr>presses := n\<rparr>) = in_step stack pos s"
  "in_step stack pos (s\<lparr>presses_written := n\<rparr>) = in_step stack pos s"
  "in_step stack pos (s\<lparr>opens := n\<rparr>) = in_step stack pos s"
  "in_step stack pos (s\<lparr>opens_written := n\<rparr>) = in_step stack pos s"
  "in_step stack pos (s\<lparr>went_up := p\<rparr>) = in_step stack pos s"
  "in_step stack pos (s\<lparr>window_place := p\<rparr>) = in_step stack pos s"
  "in_step stack pos (s\<lparr>visited := w\<rparr>) = in_step stack pos s"
  "in_step stack pos (s\<lparr>ask_stands := b\<rparr>) = in_step stack pos s"
  "in_step stack pos (s\<lparr>asked := ls\<rparr>) = in_step stack pos s"
  "in_step stack pos (s\<lparr>gone := ps\<rparr>) = in_step stack pos s"
  "in_step stack pos (s\<lparr>minted := m\<rparr>) = in_step stack pos s"
  by (simp_all add: in_step_def unstarted_def comes_to_def)

lemma own_in_step [simp]: "in_step stack pos (own f s) = in_step stack pos (f s)"
  by (simp add: own_def Let_def)

lemma write_visit_in_step:
  "session_history R stack pos \<Longrightarrow> in_step stack pos s \<Longrightarrow> in_step stack pos (write_visit R E p a up s)"
  by (auto simp: write_visit_def record_in_step split: option.split)

lemma settle_in_step:
  "session_history R stack pos \<Longrightarrow> in_step stack pos s \<Longrightarrow> in_step stack pos (settle R E p a s)"
  by (auto simp: settle_def Let_def write_visit_in_step split: option.split)

lemma leave_in_step:
  "session_history R stack pos \<Longrightarrow> in_step stack pos s \<Longrightarrow> in_step stack pos (leave_for R l s)"
  by (cases "(R, l, s)" rule: leave_for.cases)
    (auto simp: arrive_nowhere_def Let_def record_in_step go_in_step split: option.split)

lemma asking_in_step:
  "session_history R stack pos \<Longrightarrow> in_step stack pos s \<Longrightarrow> in_step stack pos (fst (asking R E to l s))"
  by (simp add: asking_def leave_in_step)

lemma stand_back_in_step:
  "session_history R stack pos \<Longrightarrow> in_step stack pos s \<Longrightarrow> in_step stack pos (stand_back R i was s)"
  by (auto simp: stand_back_def record_in_step go_in_step split: option.split)

lemma told_in_step:
  assumes "session_history R stack pos" "in_step stack pos s"
  shows "in_step stack pos (told R E b s)"
proof -
  have "in_step stack pos (follow R E t was s)" for t was
    using asking_in_step [OF assms] stand_back_in_step [OF assms(1)] assms
    by (auto simp: follow_def Let_def split: prod.split) (metis fst_conv)+
  then show ?thesis using assms(2) by (auto simp: told_def split: option.split)
qed

lemma go_to_in_step:
  "session_history R stack pos \<Longrightarrow> in_step stack pos s \<Longrightarrow> in_step stack pos (fst (go_to R E i s))"
  by (auto simp: go_to_def asking_in_step split: option.split)

lemma back_to_in_step:
  "session_history R stack pos \<Longrightarrow> in_step stack pos s \<Longrightarrow> in_step stack pos (fst (back_to R E to s))"
  by (auto simp: back_to_def step_def go_to_in_step split: option.split)

lemma up_to_in_step:
  "session_history R stack pos \<Longrightarrow> in_step stack pos s \<Longrightarrow> in_step stack pos (fst (up_to R E to s))"
  using back_to_in_step [of R stack pos s E to] by (auto simp: up_to_def Let_def split: prod.split option.split)

text \<open>A window told with nothing on its way leaves nothing waiting, since it asks for one move or one write.\<close>

lemma in_turn_calm: "traveling s = None \<Longrightarrow> waiting s = [] \<Longrightarrow> waiting (in_turn R x s) = []"
  by (cases "(R, [x], router s)" rule: run_calls.cases) (auto simp: in_turn_def drain_trail_def)

lemma record_calm: "traveling s = None \<Longrightarrow> waiting s = [] \<Longrightarrow> waiting (record_trail R quiet w s) = []"
  by (simp add: record_trail_def write_through_def in_turn_calm Let_def)

lemma go_calm: "traveling s = None \<Longrightarrow> waiting s = [] \<Longrightarrow> waiting (go_along R quiet d s) = []"
  by (simp add: go_along_def in_turn_calm Let_def)

lemma own_calm [simp]: "waiting (own f s) = waiting (f s)" "traveling (own f s) = traveling (f s)"
  by (simp_all add: own_def Let_def)

lemma leave_calm: "traveling s = None \<Longrightarrow> waiting s = [] \<Longrightarrow> waiting (leave_for R l s) = []"
  by (cases "(R, l, s)" rule: leave_for.cases)
    (auto simp: arrive_nowhere_def Let_def record_calm go_calm split: option.split)

lemma told_calm:
  assumes "traveling s = None" "waiting s = []"
  shows "waiting (told R E b s) = []"
proof -
  have "waiting (stand_back R i was s') = []" if "traveling s' = None" "waiting s' = []" for i was s'
    using that by (auto simp: stand_back_def record_calm go_calm split: option.split)
  then have "waiting (follow R E t was s) = []" for t was
    using assms leave_calm [of s R] by (auto simp: follow_def asking_def Let_def)
  then show ?thesis using assms by (auto simp: told_def split: option.split)
qed

subsection \<open>Runs\<close>

text \<open>
  What a run allows: a move lands anywhere in the history, but for one that lands elsewhere than the
  window asked while writes wait on it; the router writes of its own while nothing travels, and first
  of all only in place.
\<close>

fun event_fits :: "'h router_ops \<Rightarrow> ('h \<Rightarrow> location list) \<Rightarrow> ('h \<Rightarrow> nat) \<Rightarrow> 'h window_event \<Rightarrow> 'h window \<Rightarrow> bool" where
  "event_fits R stack pos (Hears Moved h) s \<longleftrightarrow> stack h = stack (router s)
     \<and> (traveling s = None \<or> waiting s = [] \<or> map_option snd (saved_step_of (location_of R h)) = traveling s)"
| "event_fits R stack pos (Hears Pushed h) s \<longleftrightarrow> traveling s = None \<and> 0 \<le> at (trail s)
     \<and> (\<exists>a. navigated stack pos Push a (router s) h)"
| "event_fits R stack pos (Hears Replaced h) s \<longleftrightarrow> traveling s = None \<and> (\<exists>a. navigated stack pos Replace a (router s) h)"
| "event_fits R stack pos _ s \<longleftrightarrow> True"

inductive window_run :: "'h router_ops \<Rightarrow> ('h \<Rightarrow> location list) \<Rightarrow> ('h \<Rightarrow> nat) \<Rightarrow> 'h \<Rightarrow> 'h window \<Rightarrow> bool"
  for R stack pos h where
  opens: "window_run R stack pos h (new_window R h)"
| goes_on: "window_run R stack pos h s \<Longrightarrow> event_fits R stack pos ev s \<Longrightarrow> window_run R stack pos h (window_step R E ev s)"

text \<open>A tab opened afresh on one entry, or reloaded among the steps a window numbered.\<close>

definition starts_well :: "'h router_ops \<Rightarrow> ('h \<Rightarrow> location list) \<Rightarrow> 'h \<Rightarrow> bool" where
  "starts_well R stack h \<longleftrightarrow> (\<exists>c. numbered c (stack h)) \<or> (\<exists>loc. stack h = [loc] \<and> held_step loc = None)"

lemma new_window_frame [simp]:
  "router (new_window R h) = h" "traveling (new_window R h) = None" "waiting (new_window R h) = []"
  "trail (new_window R h) = trail (trail_of R h)" "base (new_window R h) = base (trail_of R h)"
  by (simp_all add: new_window_def trail_of_def alone_on_def window_trail.extend_def split: option.split prod.split)

lemma new_window_in_step:
  assumes R: "session_history R stack pos" and "starts_well R stack h"
  shows "in_step stack pos (new_window R h)"
  using assms(2) unfolding starts_well_def
proof (elim disjE exE conjE)
  fix loc assume h: "stack h = [loc]" "held_step loc = None"
  then have "location_of R h = loc" using session(1,2) [OF R, of h] by simp
  then have "trail (new_window R h) = empty_trail" using h by (simp add: trail_of_def alone_on_def saved_step_of_def)
  then show ?thesis using h by (simp add: in_step_def unstarted_def)
next
  fix c assume n: "numbered c (stack h)"
  note p = session(1) [OF R, of h]
  let ?s = "\<lparr>router = h, trail = empty_trail, base = 0, highest = 0, traveling = None, waiting = [], minted = 0\<rparr>"
  obtain s' t where a: "alone_on (location_of R h) ?s = (s', t)" by fastforce
  then have "trail (trail_of R h) = t" "base (trail_of R h) = base s'" by (simp_all add: trail_of_def)
  then show ?thesis
    using alone_around [OF n p] a session(2) [OF R, of h] n p
    by (intro in_stepI [of _ _ c _ "(stack h, pos h)"]) (simp_all add: comes_to_def landing_def)
qed

lemma event_in_step:
  assumes R: "session_history R stack pos" and s: "in_step stack pos s" and fits: "event_fits R stack pos ev s"
  shows "in_step stack pos (window_step R E ev s)"
proof (cases ev)
  case (Hears k h)
  note t = told_in_step [OF R, of _ E]
  show ?thesis
  proof (cases k)
    case Moved
    then have "in_step stack pos (hear R (told R E) Moved h s)" using fits Hears by (intro move_in_step [OF R s] t told_calm) auto
    then show ?thesis using Moved Hears by simp
  next
    case Pushed
    then obtain a where a: "navigated stack pos Push a (router s) h" and f: "traveling s = None" "0 \<le> at (trail s)"
      using fits Hears by auto
    have "saved_step_of (location_of R h) = None"
      using a session(2) [OF R, of h] session(1) [OF R, of "router s"] by (simp add: navigated_def saved_step_of_def nth_append min_def)
    then show ?thesis using follow_in_step [OF R s f(1) a] f t Pushed Hears by (simp add: hear_def Let_def)
  next
    case Replaced
    then obtain a where a: "navigated stack pos Replace a (router s) h" and f: "traveling s = None"
      using fits Hears by auto
    have "saved_step_of (location_of R h) = None"
      using a session(2) [OF R, of h] session(1) [OF R, of "router s"] by (simp add: navigated_def saved_step_of_def)
    then show ?thesis using follow_in_step [OF R s f a] t Replaced Hears by (simp add: hear_def Let_def)
  qed
qed (use s in \<open>auto simp: settle_in_step [OF R] step_def step_away_def visit_def go_to_in_step [OF R] back_to_in_step [OF R]
    up_to_in_step [OF R] write_visit_in_step [OF R] leave_in_step [OF R] split: option.split\<close>)

lemma run_in_step:
  "window_run R stack pos h s \<Longrightarrow> session_history R stack pos \<Longrightarrow> starts_well R stack h \<Longrightarrow> in_step stack pos s"
  by (induction rule: window_run.induct) (auto intro: new_window_in_step event_in_step)

text \<open>
  C10: The trail is the router's history around the entry standing, in the runs of a window opened in a
  fresh tab or reloaded among its own steps in which the router neither pushes while the trail is empty nor writes
  while a move of the window's is on its way, and no move lands elsewhere than the window asked with writes
  waiting on it. Wherever such a run has no move on its way, each step of the trail is the entry
  as far from the one the router stands on as the step is from the one the trail stands on, held at the
  same address, saved with the same place and with the step's number; so a move along the trail lands
  on the step it names.
\<close>

theorem trail_is_the_history:
  assumes "session_history R stack pos" "starts_well R stack h" "window_run R stack pos h s"
    and "traveling s = None" "nth_opt (entries (trail s)) i = Some e"
  shows "\<exists>loc. nth_opt (stack (router s)) (int (pos (router s)) + (i - at (trail s))) = Some loc
    \<and> href loc = entry_address e \<and> saved_step_of loc = Some (entry_place e, base s + i)"
proof -
  have s: "in_step stack pos s" using run_in_step [OF assms(3,1,2)] .
  have i: "0 \<le> i" "i < int (length (entries (trail s)))" "entries (trail s) ! nat i = e"
    using assms(5) by (auto simp: nth_opt_def split: if_splits)
  have "\<not> unstarted stack s" using i by (auto simp: unstarted_def empty_trail_def)
  then obtain c v where "comes_to stack pos c s v" and a: "around c v (trail s) (base s)" using s by (auto simp: in_step_def)
  then have v: "v = (stack (router s), pos (router s))" using assms(4) by (auto simp: comes_to_def landing_def Let_def)
  have at: "base s + at (trail s) = c + int (pos (router s))" and n: "numbered c (stack (router s))"
    using a by (simp_all add: around_def v)
  have h: "c \<le> base s + i" "base s + i - c < int (length (stack (router s)))" "holds_entry (stack (router s) ! nat (base s + i - c)) e"
    using a i by (auto simp: around_def v dest!: spec [of _ "nat i"])
  have k: "int (pos (router s)) + (i - at (trail s)) = base s + i - c" using at by simp
  obtain q where "saved_step_of (stack (router s) ! nat (base s + i - c)) = Some (q, c + int (nat (base s + i - c)))"
    using numbered_saved [OF n] h by (metis nat_less_iff int_one_le_iff_zero_less diff_ge_0_iff_ge)
  then show ?thesis using h unfolding k by (auto simp: nth_opt_def holds_entry_def)
qed

subsection \<open>A tab\<close>

text \<open>A history as a tab keeps one: the entries behind, nearest first, the one standing, and those ahead.\<close>

type_synonym tab = "location list \<times> location \<times> location list"

definition tab_ops :: "tab router_ops" where
  "tab_ops = Router_Ops (\<lambda>a sv (behind, x, ahead). (x # behind, written_entry a sv, []))
     (\<lambda>a sv (behind, x, ahead). (behind, written_entry a sv, ahead)) (\<lambda>d tab. tab) (\<lambda>(behind, x, ahead). x)"

definition tab_stack :: "tab \<Rightarrow> location list" where
  "tab_stack = (\<lambda>(behind, x, ahead). rev behind @ x # ahead)"

definition tab_pos :: "tab \<Rightarrow> nat" where
  "tab_pos = (\<lambda>(behind, x, ahead). length behind)"

lemma tab_history: "session_history tab_ops tab_stack tab_pos"
  by (auto simp: session_history_def tab_ops_def tab_stack_def tab_pos_def nth_append list_update_append)

definition open_reads :: reads where
  "open_reads = \<lparr>reachable = (\<lambda>_. True), named = (\<lambda>_. None), path_steps = (\<lambda>a. [a]), on_task_route = (\<lambda>_. False)\<rparr>"

definition window_steps :: "tab window_event list \<Rightarrow> tab \<Rightarrow> tab window" where
  "window_steps evs h = fold (window_step tab_ops open_reads) evs (new_window tab_ops h)"

definition plain_entry :: "string \<Rightarrow> location" where
  "plain_entry a = \<lparr>href = a, held_step = None\<rparr>"

fun quiet_event :: "'h window_event \<Rightarrow> bool" where
  "quiet_event (Hears k h) \<longleftrightarrow> False"
| "quiet_event _ \<longleftrightarrow> True"

lemma quiet_fits: "quiet_event ev \<Longrightarrow> event_fits R stack pos ev s"
  by (cases ev) simp_all

lemma run_fold:
  "window_run R stack pos h s \<Longrightarrow> list_all quiet_event evs \<Longrightarrow> window_run R stack pos h (fold (window_step R E) evs s)"
  by (induction evs arbitrary: s) (auto intro: goes_on quiet_fits)

text \<open>A window that visits a page after Home, goes back, and has landed there.\<close>

definition back_home :: "tab window" where
  "back_home = window_steps [Draws (Some (routed_place ''/app'')) ''/app'', Visits (routed_place ''/a''), Steps Back,
     Hears Moved ([], written_entry ''/app'' (routed_place ''/app'', 1), [written_entry ''/a'' (routed_place ''/a'', 2)])]
     ([], plain_entry ''/app'', [])"

lemma back_home_runs: "window_run tab_ops tab_stack tab_pos ([], plain_entry ''/app'', []) back_home"
proof -
  let ?s = "window_steps [Draws (Some (routed_place ''/app'')) ''/app'', Visits (routed_place ''/a''), Steps Back]
     ([], plain_entry ''/app'', [])"
  let ?h = "([], written_entry ''/app'' (routed_place ''/app'', 1), [written_entry ''/a'' (routed_place ''/a'', 2)])"
  have "window_run tab_ops tab_stack tab_pos ([], plain_entry ''/app'', []) ?s"
    unfolding window_steps_def by (rule run_fold [OF opens]) simp
  moreover have "tab_stack ?h = tab_stack (router ?s) \<and> map_option snd (saved_step_of (location_of tab_ops ?h)) = traveling ?s"
    by code_simp
  then have "event_fits tab_ops tab_stack tab_pos (Hears Moved ?h) ?s" by simp
  ultimately have "window_run tab_ops tab_stack tab_pos ([], plain_entry ''/app'', []) (window_step tab_ops open_reads (Hears Moved ?h) ?s)"
    by (rule goes_on)
  then show ?thesis by (simp add: back_home_def window_steps_def)
qed

lemma trail_is_the_history_witness:
  "\<exists>loc. nth_opt (tab_stack (router back_home)) 1 = Some loc \<and> href loc = ''/a''
    \<and> saved_step_of loc = Some (routed_place ''/a'', 2)"
proof -
  have "starts_well tab_ops tab_stack ([], plain_entry ''/app'', [])"
    by (simp add: starts_well_def tab_stack_def plain_entry_def)
  moreover have "traveling back_home = None \<and> base back_home = 1 \<and> at (trail back_home) = 0 \<and> tab_pos (router back_home) = 0
      \<and> nth_opt (entries (trail back_home)) 1 = Some \<lparr>entry_id = 1, entry_address = ''/a'', entry_place = routed_place ''/a''\<rparr>"
    by code_simp
  ultimately show ?thesis
    using trail_is_the_history [OF tab_history _ back_home_runs, of 1] by fastforce
qed

text \<open>
  Where the router writes a step after a page that holds none yet, as a door does before the window
  knows where it is, the trail turns around. Back to that page, which then takes its first step, and
  Forward again: the trail holds the page it came from as the step ahead, though in the router's history
  it is the entry behind and nothing is ahead. Forward then asks for a move that no entry can land, and
  what the window writes after it waits on it.
\<close>

theorem first_push_turns_trail_around:
  "let app = routed_place ''/app''; settings = routed_place ''/settings'';
       s = window_steps [Hears Pushed ([plain_entry ''/app''], plain_entry ''/settings'', []),
             Hears Moved ([], plain_entry ''/app'', [written_entry ''/settings'' (settings, 1)]),
             Draws (Some app) ''/app'',
             Hears Moved ([written_entry ''/app'' (app, 2)], written_entry ''/settings'' (settings, 1), [])]
           ([], plain_entry ''/app'', []);
       t = window_step tab_ops open_reads (Visits (routed_place ''/b'')) (window_step tab_ops open_reads (Steps Forward) s)
   in map entry_address (entries (trail s)) = [''/settings'', ''/app''] \<and> at (trail s) = 0
      \<and> map href (tab_stack (router s)) = [''/app'', ''/settings''] \<and> tab_pos (router s) = 1
      \<and> traveling t = Some 2 \<and> length (waiting t) = 1 \<and> router t = router s"
  by code_simp

text \<open>
  Where a move lands elsewhere than the window asked, on a page that cannot be stood on, a write that
  waited on the move runs all the same, though it is to be dropped: the window's step is written after
  it, and the trail and the router's history part.
\<close>

theorem dropped_write_still_runs:
  "let app = written_entry ''/app'' (routed_place ''/app'', 1);
       s = window_steps [Draws (Some (routed_place ''/app'')) ''/app'', Visits (routed_place ''/a''), Visits (routed_place ''/b''),
             Steps Back, Visits (routed_place ''/c'')] ([], plain_entry ''/app'', []);
       t = window_step tab_ops (open_reads\<lparr>reachable := (\<lambda>p. address p \<noteq> ''/app'')\<rparr>)
             (Hears Moved ([], app, [written_entry ''/a'' (routed_place ''/a'', 2), written_entry ''/b'' (routed_place ''/b'', 3)])) s
   in length (waiting s) = 1 \<and> traveling t = None
      \<and> map entry_address (entries (trail t)) = [''/app'', ''/c'']
      \<and> map href (tab_stack (router t)) = [''/app'', ''/c'', ''/c''] \<and> tab_pos (router t) = 2 \<and> at (trail t) = 1"
  by code_simp

end
