(* ===== verification/Nav_Properties.thy ===== *)
theory Nav_Properties
  imports Trail_History
begin

text \<open>
  What the window's history promises beside being the router's (\<open>Trail_History\<close>): the trail stays within
  its bound with a step standing on it; Forward takes back what Back took; a move the reader or the
  browser makes ends on a step the window can stand on, and leaves unsaved work only once it may.
\<close>

subsection \<open>The trail within its bound\<close>

definition trail_ok :: "trail \<Rightarrow> bool" where
  "trail_ok t \<longleftrightarrow> length (entries t) \<le> trail_limit
     \<and> (if entries t = [] then at t = -1 else 0 \<le> at t \<and> at t < int (length (entries t)))"

lemma trail_ok_empty [simp]: "trail_ok empty_trail"
  by (simp add: trail_ok_def empty_trail_def)

lemma last_n_length: "length (last_n n xs) = min n (length xs)"
  by (simp add: last_n_def)

lemma trail_ok_written: "trail_ok t \<Longrightarrow> trail_ok (written t w)"
proof (cases "at t < 0 \<or> fst w = Replace")
  case True
  then show "trail_ok t \<Longrightarrow> trail_ok (written t w)" by (auto simp: trail_ok_def written_def trail_limit_def split: if_splits)
next
  case False
  let ?es = "last_n trail_limit (take (nat (at t) + 1) (entries t) @ [snd w])"
  have "0 < length ?es" "length ?es \<le> trail_limit" by (simp_all add: last_n_length trail_limit_def)
  then show ?thesis using False by (simp add: written_def trail_ok_def Let_def)
qed

lemma trail_ok_keep: "es \<noteq> [] \<Longrightarrow> i = int (length es) - 1 \<Longrightarrow> trail_ok (snd (keep_trail es i s))"
  by (cases "length es \<le> trail_limit") (auto simp: keep_trail_def trail_ok_def Let_def trail_limit_def)

lemma alone_ok: "alone_on loc s = (s', t) \<Longrightarrow> trail_ok t"
  by (auto simp: alone_on_def split: option.splits) (simp add: trail_ok_def trail_limit_def)

lemma landed_ok:
  assumes "trail_ok (trail s)" "landed_on loc s = (s', t)"
  shows "trail_ok t"
proof (cases "saved_step_of loc")
  case None
  then show ?thesis using assms(2) alone_ok [of loc s] by (simp add: landed_on_def)
next
  case (Some q)
  obtain p i where q: "q = (p, i)" by fastforce
  let ?s = "s\<lparr>highest := max (highest s) i\<rparr>"
  let ?e = "landed_entry loc p ?s"
  consider "0 \<le> i - base s \<and> i - base s < int (length (entries (trail s)))" | "i - base s = -1"
    | "i - base s = int (length (entries (trail s)))"
    | "\<not> (0 \<le> i - base s \<and> i - base s < int (length (entries (trail s))))" "i - base s \<noteq> -1"
      "i - base s \<noteq> int (length (entries (trail s)))" by blast
  then show ?thesis
  proof cases
    case 1
    then have "t = \<lparr>entries = entries (trail s), at = i - base s\<rparr>" using assms(2) Some q by (auto simp: landed_on_def Let_def)
    then show ?thesis using 1 assms(1) by (auto simp: trail_ok_def)
  next
    case 2
    then have "t = \<lparr>entries = take trail_limit (?e # entries (trail s)), at = 0\<rparr>"
      using assms(2) Some q by (auto simp: landed_on_def Let_def)
    then show ?thesis by (auto simp: trail_ok_def trail_limit_def)
  next
    case 3
    then have "t = snd (keep_trail (entries (trail s) @ [?e]) (i - base s) (?s\<lparr>minted := Suc (minted s)\<rparr>))"
      using assms(2) Some q by (auto simp: landed_on_def Let_def)
    then show ?thesis using 3 trail_ok_keep [of "entries (trail s) @ [?e]"] by simp
  next
    case 4
    then have "alone_on loc ?s = (s', t)" using assms(2) Some q by (auto simp: landed_on_def Let_def)
    then show ?thesis by (rule alone_ok)
  qed
qed

text \<open>Each operation of the window leaves its trail so.\<close>

lemma drain_trail_frame [simp]: "trail (drain_trail R s) = trail s"
  by (simp add: drain_trail_def Let_def split: prod.split)

lemma record_ok [simp]: "trail_ok (trail s) \<Longrightarrow> trail_ok (trail (record_trail R quiet w s))"
  by (simp add: record_trail_def Let_def trail_ok_written)

lemma go_ok [simp]: "trail_ok (trail s) \<Longrightarrow> trail_ok (trail (go_along R quiet d s))"
  by (auto simp: go_along_def Let_def trail_ok_def)

lemma own_trail [simp]: "trail (own f s) = trail (f s)" "gone (own f s) = gone (f s)"
  by (simp_all add: own_def Let_def)

lemma write_visit_ok [simp]: "trail_ok (trail s) \<Longrightarrow> trail_ok (trail (write_visit R E p a up s))"
  by (simp add: write_visit_def split: option.split)

lemma settle_ok: "trail_ok (trail s) \<Longrightarrow> trail_ok (trail (settle R E p a s))"
  by (auto simp: settle_def Let_def split: option.split)

lemma leave_ok: "trail_ok (trail s) \<Longrightarrow> trail_ok (trail (leave_for R l s))"
  by (cases "(R, l, s)" rule: leave_for.cases) (auto simp: arrive_nowhere_def Let_def split: option.split)

lemma asking_ok: "trail_ok (trail s) \<Longrightarrow> trail_ok (trail (fst (asking R E to l s)))"
  by (simp add: asking_def leave_ok)

lemma stand_back_ok: "trail_ok (trail s) \<Longrightarrow> trail_ok (trail (stand_back R i was s))"
  by (simp add: stand_back_def split: option.split)

lemma follow_ok:
  assumes "trail_ok (trail s)"
  shows "trail_ok (trail (follow R E t was s))"
proof -
  obtain s' b where a: "asking R E (map_option entry_place (followed_step E t was)) (Leave_Follow (followed_step E t was) was) s = (s', b)"
    by fastforce
  then have "trail_ok (trail s')" using asking_ok [OF assms] by (metis fst_conv)
  then show ?thesis using assms a by (simp add: follow_def Let_def stand_back_ok)
qed

lemma told_ok: "trail_ok (trail s) \<Longrightarrow> trail_ok (trail (told R E b s))"
  by (simp add: told_def follow_ok split: option.split)

lemma stand_told_ok: "trail_ok nxt \<Longrightarrow> trail_ok (trail s) \<Longrightarrow> trail_ok (trail (stand_trail (told R E) b nxt s))"
  by (simp add: stand_trail_def told_ok)

lemma landed_trail: "landed_on loc s = (s', t) \<Longrightarrow> trail s' = trail s" "alone_on loc s = (s', t) \<Longrightarrow> trail s' = trail s"
  by (auto simp: landed_on_def alone_on_def keep_trail_def Let_def split: option.splits if_splits prod.splits)

lemma landing_told_ok:
  "landed_on loc u = (s', t) \<Longrightarrow> trail_ok (trail u) \<Longrightarrow> trail_ok (trail (stand_trail (told R E) False t s'))"
  "alone_on loc u = (s', t) \<Longrightarrow> trail_ok (trail u) \<Longrightarrow> trail_ok (trail (stand_trail (told R E) False t s'))"
  using landed_ok [of u loc] alone_ok [of loc u] landed_trail [of loc u] by (simp_all add: stand_told_ok)

lemma hear_ok:
  assumes "trail_ok (trail s)"
  shows "trail_ok (trail (hear R (told R E) k h s))"
proof -
  have "trail_ok (trail (follow_routed R (told R E) w loc (s\<lparr>router := h\<rparr>)))" for w loc
    using assms by (simp add: follow_routed_def Let_def stand_told_ok trail_ok_written)
  then show ?thesis using assms
    by (auto simp: hear_def Let_def split: option.split prod.split if_split intro: landing_told_ok)
qed

text \<open>
  However the window, the router and the reader move it, a window's trail holds at most fifty steps
  and, where it holds any, stands on one of them.
\<close>

theorem trail_within_bound:
  "let t = trail (fold (\<lambda>(E, ev). window_step R E ev) evs (new_window R h))
   in length (entries t) \<le> 50 \<and> (if entries t = [] then at t = -1 else 0 \<le> at t \<and> at t < int (length (entries t)))"
proof -
  have go: "trail_ok (trail (fst (go_to R E i s)))" if "trail_ok (trail s)" for E i and s :: "'a window"
    using that by (auto simp: go_to_def asking_ok split: option.split)
  have goes_back: "trail_ok (trail (fst (back_to R E p s)))" if "trail_ok (trail s)" for E p and s :: "'a window"
    using that go by (auto simp: back_to_def step_def split: option.split)
  have one: "trail_ok (trail (window_step R E ev s))" if "trail_ok (trail s)" for E ev and s :: "'a window"
    using that go goes_back [OF that, of E]
    by (cases ev) (auto simp: settle_ok hear_ok step_def step_away_def visit_def up_to_def leave_ok Let_def split_beta
        split: option.split)
  have "trail_ok (trail (new_window R h))"
    using alone_ok [of "location_of R h"] by (auto simp: trail_of_def split: prod.split)
  then have "trail_ok (trail (fold (\<lambda>(E, ev). window_step R E ev) evs (new_window R h)))"
    by (intro fold_invariant [where Q = "\<lambda>_. True" and P = "\<lambda>s. trail_ok (trail s)"]) (auto simp: one)
  then show ?thesis by (simp add: trail_ok_def trail_limit_def Let_def)
qed

subsection \<open>Back and Forward\<close>

text \<open>What a search along the trail finds: the first that will do, and every one before it will not.\<close>

lemma find_upto:
  "List.find p [a..b] = Some i \<longleftrightarrow> a \<le> i \<and> i \<le> b \<and> p i \<and> (\<forall>j. a \<le> j \<and> j < i \<longrightarrow> \<not> p j)"
proof (induction a b rule: upto.induct)
  case (1 a b)
  show ?case
  proof (cases "a \<le> b \<and> \<not> p a")
    case True
    have "(\<forall>j. a \<le> j \<and> j < i \<longrightarrow> \<not> p j) \<longleftrightarrow> (\<forall>j. a + 1 \<le> j \<and> j < i \<longrightarrow> \<not> p j)" 
    proof (intro iffI allI impI)
      fix j assume n: "\<forall>j. a + 1 \<le> j \<and> j < i \<longrightarrow> \<not> p j" and j: "a \<le> j \<and> j < i"
      show "\<not> p j" using True n j by (cases "j = a") auto
    qed auto
    then show ?thesis using True 1 by (subst upto.simps) (auto simp: order_le_less zless_imp_add1_zle)
  next
    case False
    then show ?thesis by (subst upto.simps) (auto simp: order_le_less)
  qed
qed

lemma find_rev_upto:
  "List.find p (rev [a..b]) = Some i \<longleftrightarrow> a \<le> i \<and> i \<le> b \<and> p i \<and> (\<forall>j. i < j \<and> j \<le> b \<longrightarrow> \<not> p j)"
proof -
  have "rev [a..b] = map uminus [-b..-a]"
    by (rule nth_equalityI) (auto simp: rev_nth nth_upto)
  moreover have "List.find p (map uminus xs) = map_option uminus (List.find (\<lambda>x. p (- x)) xs)" for xs
    by (induction xs) auto
  ultimately have "List.find p (rev [a..b]) = Some i \<longleftrightarrow> List.find (\<lambda>x. p (- x)) [-b..-a] = Some (- i)"
    by (auto simp: map_option_case split: option.splits)
  also have "\<dots> \<longleftrightarrow> - b \<le> - i \<and> - i \<le> - a \<and> p i \<and> (\<forall>j. - b \<le> j \<and> j < - i \<longrightarrow> \<not> p (- j))" by (simp add: find_upto)
  also have "(\<forall>j. - b \<le> j \<and> j < - i \<longrightarrow> \<not> p (- j)) \<longleftrightarrow> (\<forall>j. i < j \<and> j \<le> b \<longrightarrow> \<not> p j)"
    by (metis minus_le_iff minus_less_iff minus_minus le_minus_iff less_minus_iff)
  finally show ?thesis by auto
qed

definition can_take :: "trail \<Rightarrow> (place \<Rightarrow> bool) \<Rightarrow> int \<Rightarrow> bool" where
  "can_take t r i \<longleftrightarrow> (case place_at t i of None \<Rightarrow> False | Some p \<Rightarrow> r p \<and> \<not> same_step (place_at t (at t)) p)"

lemma nearest_Back:
  "at t \<le> int (length (entries t)) \<Longrightarrow> nearest t Back r = Some i \<longleftrightarrow>
     0 \<le> i \<and> i < at t \<and> can_take t r i \<and> (\<forall>j. i < j \<and> j < at t \<longrightarrow> \<not> can_take t r j)"
  unfolding nearest_def can_take_def [symmetric] by (auto simp: find_rev_upto)

lemma nearest_Forward:
  "-1 \<le> at t \<Longrightarrow> nearest t Forward r = Some i \<longleftrightarrow>
     at t < i \<and> i < int (length (entries t)) \<and> can_take t r i \<and> (\<forall>j. at t < j \<and> j < i \<longrightarrow> \<not> can_take t r j)"
  unfolding nearest_def can_take_def [symmetric] by (auto simp: find_upto)

fun opposite :: "way \<Rightarrow> way" where
  "opposite Back = Forward"
| "opposite Forward = Back"

lemma place_at_moved [simp]: "place_at (t\<lparr>at := i\<rparr>) j = place_at t j"
  by (simp add: place_at_def)

lemma same_page_sym: "same_page p q \<longleftrightarrow> same_page q p"
  by (auto simp: same_page_def split: option.splits)

lemma same_step_sym: "same_step (Some p) q \<longleftrightarrow> same_step (Some q) p"
  using same_page_sym same_step_shown_sym by (auto simp: same_step_def)

lemma same_step_refl [simp]: "same_step (Some p) p"
  by (simp add: same_step_def same_page_def split: option.split)

lemma nearest_takes: "nearest t w r = Some i \<Longrightarrow> can_take t r i"
  unfolding nearest_def can_take_def [symmetric] by (drule find_SomeD) simp

lemma nearest_found: "can_take t r i \<Longrightarrow> i \<in> set (along t w) \<Longrightarrow> \<exists>j. nearest t w r = Some j"
  unfolding nearest_def can_take_def [symmetric]
  by (cases "List.find (can_take t r) (along t w)") (auto simp: find_None_iff)

text \<open>
  Forward takes back what Back took, and Back what Forward took: from the step a press of one stands
  the window on, a press of the other reaches the step it left, or one between that is the same step to
  the eye.
\<close>

theorem other_way_returns:
  assumes here: "place_at t (at t) = Some p" "reach p" and went: "nearest t w reach = Some i"
  shows "\<exists>j q. nearest (t\<lparr>at := i\<rparr>) (opposite w) reach = Some j \<and> place_at t j = Some q \<and> same_step (Some p) q"
proof -
  let ?t = "t\<lparr>at := i\<rparr>"
  have at: "0 \<le> at t" "at t < int (length (entries t))" using here(1) by (auto simp: place_at_def nth_opt_def split: if_splits)
  obtain u where u: "place_at t i = Some u" "\<not> same_step (Some p) u"
    using nearest_takes [OF went] here by (auto simp: can_take_def split: option.splits)
  then have home: "can_take ?t reach (at t)" using here same_step_sym by (simp add: can_take_def)
  have same: "\<exists>q. place_at t j = Some q \<and> same_step (Some p) q"
    if "can_take ?t reach j" "j = at t \<or> \<not> can_take t reach j" for j
    using that here by (auto simp: can_take_def split: option.splits)
  show ?thesis
  proof (cases w)
    case Back
    then have i: "0 \<le> i" "i < at t" "\<forall>j. i < j \<and> j < at t \<longrightarrow> \<not> can_take t reach j"
      using went at nearest_Back [of t] by auto
    obtain j where j: "nearest ?t Forward reach = Some j" using nearest_found [OF home, of Forward] i at by auto
    then have "i < j" "can_take ?t reach j" "j \<le> at t"
      using nearest_Forward [of ?t reach j] i(1,2) home by (auto simp: linorder_not_less [symmetric])
    then show ?thesis using same [of j] i j Back by (metis opposite.simps(1) order_le_less)
  next
    case Forward
    then have i: "at t < i" "i < int (length (entries t))" "\<forall>j. at t < j \<and> j < i \<longrightarrow> \<not> can_take t reach j"
      using went at nearest_Forward [of t] by auto
    obtain j where j: "nearest ?t Back reach = Some j" using nearest_found [OF home, of Back] i at by auto
    then have "j < i" "can_take ?t reach j" "at t \<le> j"
      using nearest_Back [of ?t reach j] i(1,2) at home by (auto simp: linorder_not_less [symmetric])
    then show ?thesis using same [of j] i j Forward by (metis opposite.simps(2) order_le_less)
  qed
qed

lemma other_way_returns_witness:
  "let e = \<lambda>n a. \<lparr>entry_id = n, entry_address = a, entry_place = routed_place a\<rparr>;
       t = \<lparr>entries = [e 0 ''/app'', e 1 ''/a'', e 2 ''/b''], at = 2\<rparr>
   in nearest t Back (\<lambda>p. address p \<noteq> ''/a'') = Some 0
     \<and> (\<exists>j q. nearest (t\<lparr>at := 0\<rparr>) Forward (\<lambda>p. address p \<noteq> ''/a'') = Some j \<and> place_at t j = Some q
          \<and> same_step (Some (routed_place ''/b'')) q)"
proof -
  define t where "t = \<lparr>entries = [\<lparr>entry_id = 0, entry_address = ''/app'', entry_place = routed_place ''/app''\<rparr>,
    \<lparr>entry_id = 1, entry_address = ''/a'', entry_place = routed_place ''/a''\<rparr>,
    \<lparr>entry_id = 2, entry_address = ''/b'', entry_place = routed_place ''/b''\<rparr>], at = 2\<rparr>"
  have here: "place_at t (at t) = Some (routed_place ''/b'')" "address (routed_place ''/b'') \<noteq> ''/a''"
    unfolding t_def by code_simp+
  have went: "nearest t Back (\<lambda>p. address p \<noteq> ''/a'') = Some 0" unfolding t_def by code_simp
  show ?thesis using other_way_returns [OF here went] went by (simp add: t_def Let_def)
qed

subsection \<open>Where a move heard ends\<close>

lemma standing_pushed: "trail_ok t \<Longrightarrow> standing_of (written t (Push, e)) = Some e"
proof (cases "at t < 0")
  case True
  then show ?thesis by (simp add: written_def standing_of_def nth_opt_def)
next
  case False
  let ?es = "last_n trail_limit (take (nat (at t) + 1) (entries t) @ [e])"
  have "last ?es = e" "?es \<noteq> []" by (simp_all add: last_n_def trail_limit_def)
  then have "?es ! (length ?es - 1) = e" "0 < length ?es" by (metis last_conv_nth, simp)
  moreover have "nat (int (length ?es) - 1) = length ?es - 1" by simp
  ultimately show ?thesis using False by (simp add: written_def standing_of_def nth_opt_def Let_def)
qed

lemma index_of_Some: "index_of e es = Some i \<Longrightarrow> i < length es" "index_of e es = Some i \<Longrightarrow> es ! i = e"
  using find_index_Some [of "\<lambda>x. x = e" es i] by (simp_all add: index_of_def)

lemma record_trail_trail [simp]: "trail (record_trail R quiet w s) = written (trail s) w"
  by (simp add: record_trail_def Let_def)

lemma standing_gone:
  assumes "index_of e (entries (trail s)) = Some i"
  shows "standing_of (trail (go_along R quiet (int i - at (trail s)) s)) = Some e"
proof -
  note i = index_of_Some [OF assms]
  have "int i = at (trail s) \<Longrightarrow> nat (at (trail s)) = i" by (metis nat_int)
  then show ?thesis using i by (auto simp: go_along_def Let_def standing_of_def nth_opt_def)
qed

lemma writes_gone [simp]:
  "gone (record_trail R quiet w s) = gone s" "gone (go_along R quiet d s) = gone s"
  by (auto simp: record_trail_def go_along_def write_through_def in_turn_def drain_trail_def Let_def split: prod.split)

lemma own_standing [simp]: "standing_entry (own f s) = standing_of (trail (f s))"
  by (simp add: own_def Let_def)

lemma stand_back_ends:
  assumes "trail_ok (trail s)" "\<And>i. from_at = Some i \<Longrightarrow> index_of was (entries (trail s)) = Some i"
  shows "standing_of (trail (stand_back R from_at was s)) = Some was" "standing_entry (stand_back R from_at was s) = Some was"
    "gone (stand_back R from_at was s) = gone s"
  using assms standing_gone [of was s] standing_pushed [of "trail s" was]
  by (auto simp: stand_back_def split: option.split)

lemma leave_ends:
  assumes "index_of target (entries (trail s)) = Some i"
  shows "standing_of (trail (leave_for R (Leave_Follow (Some target) was) s)) = Some target"
    "standing_entry (leave_for R (Leave_Follow (Some target) was) s) = Some target"
    "gone (leave_for R (Leave_Follow (Some target) was) s) = gone s @ [entry_place target]"
proof -
  note i = index_of_Some [OF assms]
  have "int i = at (trail s) \<Longrightarrow> standing_of (trail s) = Some target"
    using i by (auto simp: standing_of_def nth_opt_def) (metis nat_int)
  then show "standing_of (trail (leave_for R (Leave_Follow (Some target) was) s)) = Some target"
      "standing_entry (leave_for R (Leave_Follow (Some target) was) s) = Some target"
      "gone (leave_for R (Leave_Follow (Some target) was) s) = gone s @ [entry_place target]"
    using assms standing_gone [OF assms, of R] by (simp_all add: Let_def)
qed

lemma followed_step_stands:
  assumes "followed_step E t was = Some e" "standing_of t \<noteq> None"
  shows "reachable E (entry_place e)" "\<exists>i. index_of e (entries t) = Some i"
proof -
  obtain a where a: "standing_of t = Some a" using assms(2) by auto
  define way where "way = (case index_of was (entries t) of
      Some i \<Rightarrow> if int i < at t then Forward else Back | None \<Rightarrow> Back)"
  define c where "c = (if reachable E (entry_place a) then Some (at t) else nearest t way (reachable E))"
  have "followed_step E t was = Option.bind c (nth_opt (entries t))"
    unfolding followed_step_def Let_def a c_def way_def by simp
  then have "Option.bind c (nth_opt (entries t)) = Some e" using assms(1) by simp
  then obtain i where i: "c = Some i" "nth_opt (entries t) i = Some e" by (cases c) auto
  show "reachable E (entry_place e)"
  proof (cases "reachable E (entry_place a)")
    case True
    then show ?thesis using i a by (simp add: c_def standing_of_def)
  next
    case False
    then have "can_take t (reachable E) i" using i nearest_takes [of t way] by (simp add: c_def)
    then show ?thesis using i(2) by (simp add: can_take_def place_at_def)
  qed
  have "e \<in> set (entries t)" by (rule nth_opt_Some [OF i(2)])
  then show "\<exists>i. index_of e (entries t) = Some i" unfolding index_of_def
    by (cases "find_index (\<lambda>x. x = e) (entries t)") auto
qed

text \<open>
  The step a move ends on where the trail landed as it did: the one landed on where it can be stood on, else
  the nearest the same way that can and is not the same step to the eye.
\<close>

definition moved_on :: "trail \<Rightarrow> trail_entry \<Rightarrow> bool" where
  "moved_on t was \<longleftrightarrow> (\<exists>k. index_of was (entries t) = Some k \<and> int k < at t)"

definition stood_on :: "reads \<Rightarrow> trail \<Rightarrow> trail_entry \<Rightarrow> int \<Rightarrow> bool" where
  "stood_on E t was i \<longleftrightarrow>
     (if \<exists>p. place_at t (at t) = Some p \<and> reachable E p then i = at t
      else can_take t (reachable E) i \<and>
        (if moved_on t was then at t < i \<and> (\<forall>j. at t < j \<and> j < i \<longrightarrow> \<not> can_take t (reachable E) j)
         else i < at t \<and> (\<forall>j. i < j \<and> j < at t \<longrightarrow> \<not> can_take t (reachable E) j)))"

lemma can_take_in: "can_take t r i \<Longrightarrow> 0 \<le> i \<and> i < int (length (entries t))"
  by (auto simp: can_take_def place_at_def nth_opt_def split: option.splits if_splits)

lemma followed_step_is:
  assumes "trail_ok t" "standing_of t \<noteq> None"
  shows "followed_step E t was = Some e \<longleftrightarrow> (\<exists>i. stood_on E t was i \<and> nth_opt (entries t) i = Some e)"
proof -
  obtain a where a: "standing_of t = Some a" using assms(2) by auto
  then have here: "place_at t (at t) = Some (entry_place a)" by (simp add: standing_of_def place_at_def)
  have range: "-1 \<le> at t" "at t \<le> int (length (entries t))" using assms(1) by (auto simp: trail_ok_def split: if_splits)
  define way where "way = (case index_of was (entries t) of
      Some i \<Rightarrow> if int i < at t then Forward else Back | None \<Rightarrow> Back)"
  have way: "way = (if moved_on t was then Forward else Back)"
    by (auto simp: way_def moved_on_def split: option.split)
  have "followed_step E t was =
      Option.bind (if reachable E (entry_place a) then Some (at t) else nearest t way (reachable E)) (nth_opt (entries t))"
    unfolding followed_step_def Let_def a way_def by simp
  moreover have "stood_on E t was i \<longleftrightarrow>
      (if reachable E (entry_place a) then Some (at t) else nearest t way (reachable E)) = Some i" for i
    using nearest_Forward [OF range(1), of "reachable E" i] nearest_Back [OF range(2), of "reachable E" i] can_take_in [of t "reachable E" i]
    unfolding stood_on_def here way by auto
  ultimately show ?thesis by (auto simp: bind_eq_Some_conv)
qed

lemma follow_ends:
  assumes "trail_ok (trail s)" "standing_of (trail s) \<noteq> None" and s'_def: "s' = follow R E (trail s) was s"
  shows "(\<exists>i e. stood_on E (trail s) was i \<and> nth_opt (entries (trail s)) i = Some e \<and> leaves_freely E (Some (entry_place e)) s
        \<and> standing_of (trail s') = Some e \<and> standing_entry s' = Some e \<and> gone s' = gone s @ [entry_place e])
    \<or> (\<forall>i e. stood_on E (trail s) was i \<and> nth_opt (entries (trail s)) i = Some e \<longrightarrow> \<not> leaves_freely E (Some (entry_place e)) s)
        \<and> standing_of (trail s') = Some was \<and> standing_entry s' = Some was \<and> gone s' = gone s"
proof -
  note target = followed_step_is [OF assms(1,2), of E was]
  show ?thesis
  proof (cases "followed_step E (trail s) was")
    case None
    then have "\<not> (stood_on E (trail s) was i \<and> nth_opt (entries (trail s)) i = Some e)" for i e using target [of e] by auto
    then show ?thesis using None assms stand_back_ends [where s = s] by (auto simp: follow_def Let_def)
  next
    case (Some e)
    then obtain i where i: "stood_on E (trail s) was i" "nth_opt (entries (trail s)) i = Some e" using target [of e] by auto
    have only: "e' = e" if "stood_on E (trail s) was j" "nth_opt (entries (trail s)) j = Some e'" for j e'
      using target [of e'] that Some by auto
    show ?thesis
    proof (cases "leaves_freely E (Some (entry_place e)) s")
      case True
      have "standing_of (trail s') = Some e \<and> standing_entry s' = Some e \<and> gone s' = gone s @ [entry_place e]"
        using Some True followed_step_stands(2) [OF Some assms(2)] leave_ends [where target = e and s = s]
        by (auto simp: s'_def follow_def asking_def Let_def simp del: leave_for.simps)
      then show ?thesis using i True by blast
    next
      case False
      have "standing_of (trail s') = Some was \<and> standing_entry s' = Some was \<and> gone s' = gone s"
        using Some False assms(1) stand_back_ends [where s = "s\<lparr>asked := asked s @ [Leave_Follow (Some e) was]\<rparr>"]
        by (auto simp: s'_def follow_def asking_def Let_def)
      then show ?thesis using only False by blast
    qed
  qed
qed

lemma landed_window:
  fixes s :: "'h window"
  assumes "landed_on loc s = (s', t)"
  shows "gone s' = gone s" "ask_stands s' = ask_stands s" "window_place s' = window_place s" "standing_entry s' = standing_entry s"
  using assms by (auto simp: landed_on_def alone_on_def keep_trail_def Let_def split: option.splits if_splits prod.splits)

lemma landed_stands:
  "landed_on loc s = (s', t) \<Longrightarrow> saved_step_of loc \<noteq> None \<Longrightarrow> trail_ok t \<Longrightarrow> standing_of t \<noteq> None"
  by (auto simp: landed_on_def alone_on_def keep_trail_def Let_def standing_of_def nth_opt_def trail_ok_def trail_limit_def
      split: option.splits if_splits prod.splits)

text \<open>
  C11: A move the browser makes by itself, as its Back and Forward do, with no move of the window's own on its
  way, landing on an entry the window saved a step in. Where the trail then stands on the step the window stood on,
  nothing is gone to. Else the window goes to the step landed on, where that can be stood on, or to the nearest the
  same way that can and is not the same step to the eye, and window and trail end on it; unless there is none, or
  the page holds unsaved work and the step is not within that page's draft: then both stand on the step the window
  stood on, and it has gone nowhere.
\<close>

theorem heard_move_ends_on_a_step:
  assumes "trail_ok (trail s)" "standing_of (trail s) = Some was" "standing_entry s = Some was"
    and "traveling s = None" "saves_step (location_of R h)"
    and "landed_on (location_of R h) (s\<lparr>router := h\<rparr>) = (u, t)" "s' = window_step R E (Hears Moved h) s"
  shows "if standing_of t = Some was
    then standing_of (trail s') = Some was \<and> standing_entry s' = Some was \<and> gone s' = gone s
    else (\<exists>i e. stood_on E t was i \<and> nth_opt (entries t) i = Some e \<and> leaves_freely E (Some (entry_place e)) s
          \<and> standing_of (trail s') = Some e \<and> standing_entry s' = Some e \<and> gone s' = gone s @ [entry_place e])
      \<or> (\<forall>i e. stood_on E t was i \<and> nth_opt (entries t) i = Some e \<longrightarrow> \<not> leaves_freely E (Some (entry_place e)) s)
          \<and> standing_of (trail s') = Some was \<and> standing_entry s' = Some was \<and> gone s' = gone s"
proof -
  note l = assms(6)
  have t: "trail_ok t" using landed_ok [OF _ l] assms(1) by simp
  have stands: "standing_of t \<noteq> None" using landed_stands [OF l _ t] assms(5) by (simp add: saves_step_def)
  have u: "trail u = trail s" "standing_entry u = Some was" "gone u = gone s"
      "\<And>to. leaves_freely E to (u\<lparr>trail := t\<rparr>) = leaves_freely E to s"
    using landed_trail(1) [OF l] landed_window [OF l] assms(3) by (simp_all add: leaves_freely_def split: option.split)
  have s': "s' = stand_trail (told R E) False t u"
    using assms(4,7) l by (simp add: hear_def Let_def)
  have step: "s' = (if t = trail s then u else if standing_of t = Some was then u\<lparr>trail := t\<rparr>
      else follow R E t was (u\<lparr>trail := t\<rparr>))"
    unfolding s' using u by (simp add: stand_trail_def told_def)
  show ?thesis
  proof (cases "standing_of t = Some was")
    case True
    then show ?thesis using step u assms(2) by auto
  next
    case False
    then have "t \<noteq> trail s" using assms(2) by auto
    then have "s' = follow R E (trail (u\<lparr>trail := t\<rparr>)) was (u\<lparr>trail := t\<rparr>)" using step False by simp
    from follow_ends [OF _ _ this] t stands u False show ?thesis by simp
  qed
qed

lemma heard_move_ends_on_a_step_witness:
  "let s = window_steps [Draws (Some (routed_place ''/app'')) ''/app'', Visits (routed_place ''/a''),
        Draws (Some (routed_place ''/a'')) ''/a'', Asks True] ([], plain_entry ''/app'', []);
       h = ([], written_entry ''/app'' (routed_place ''/app'', 1), [written_entry ''/a'' (routed_place ''/a'', 2)]);
       s' = window_step tab_ops open_reads (Hears Moved h) s
   in \<exists>e. standing_of (trail s') = Some e \<and> entry_address e = ''/a'' \<and> gone s' = gone s \<and> length (asked s') = 1"
proof -
  define s where "s = window_steps [Draws (Some (routed_place ''/app'')) ''/app'', Visits (routed_place ''/a''),
        Draws (Some (routed_place ''/a'')) ''/a'', Asks True] ([], plain_entry ''/app'', [])"
  let ?h = "([], written_entry ''/app'' (routed_place ''/app'', 1), [written_entry ''/a'' (routed_place ''/a'', 2)])"
  let ?was = "\<lparr>entry_id = 1, entry_address = ''/a'', entry_place = routed_place ''/a''\<rparr>"
  have "length (entries (trail s)) = 2 \<and> at (trail s) = 1" unfolding s_def by code_simp
  then have "trail_ok (trail s)" by (auto simp: trail_ok_def trail_limit_def)
  moreover have "standing_of (trail s) = Some ?was \<and> standing_entry s = Some ?was \<and> traveling s = None" unfolding s_def by code_simp
  moreover have "saves_step (location_of tab_ops ?h)" by code_simp
  moreover have "ask_stands s \<and> window_place s = Some (routed_place ''/a'')" unfolding s_def by code_simp
  moreover have "length (asked (window_step tab_ops open_reads (Hears Moved ?h) s)) = 1
      \<and> gone (window_step tab_ops open_reads (Hears Moved ?h) s) = gone s" unfolding s_def by code_simp
  moreover obtain u t where l: "landed_on (location_of tab_ops ?h) (s\<lparr>router := ?h\<rparr>) = (u, t)" by fastforce
  moreover have "standing_of (snd (landed_on (location_of tab_ops ?h) (s\<lparr>router := ?h\<rparr>))) \<noteq> Some ?was" unfolding s_def by code_simp
  then have "standing_of t \<noteq> Some ?was" using l by simp
  ultimately show ?thesis
    using heard_move_ends_on_a_step [of s ?was tab_ops ?h u t "window_step tab_ops open_reads (Hears Moved ?h) s" open_reads]
    by (auto simp: Let_def s_def [symmetric])
qed

end
