(* ===== verification/Text_Lines.thy ===== *)
theory Text_Lines
  imports Prelude
begin

text \<open>
  A text and its lines, as \<open>text.split("\n")\<close> and \<open>lines.join("\n")\<close> have them: a text of no
  characters is one empty line, and a line break at the end opens an empty last line. A list's
  \<open>slice(a, b)\<close> answers nothing where \<open>b\<close> stands before \<open>a\<close>.
\<close>

definition newline :: char where
  "newline = CHR 0x0A"

fun split_lines :: "string \<Rightarrow> string list" where
  "split_lines [] = [[]]"
| "split_lines (c # cs) =
     (if c = newline then [] # split_lines cs
      else case split_lines cs of [] \<Rightarrow> [[c]] | l # ls \<Rightarrow> (c # l) # ls)"

fun join_lines :: "string list \<Rightarrow> string" where
  "join_lines [] = []"
| "join_lines [l] = l"
| "join_lines (l # k # ls) = l @ newline # join_lines (k # ls)"

definition slice :: "nat \<Rightarrow> nat \<Rightarrow> 'a list \<Rightarrow> 'a list" where
  "slice a b xs = take (b - a) (drop a xs)"

lemma split_lines_ne [simp]: "split_lines t \<noteq> []"
  by (induction t) (auto split: list.splits)

lemma join_Cons: "ls \<noteq> [] \<Longrightarrow> join_lines (l # ls) = l @ newline # join_lines ls"
  by (cases ls) auto

lemma join_split [simp]: "join_lines (split_lines t) = t"
proof (induction t)
  case Nil
  then show ?case by simp
next
  case (Cons c cs)
  show ?case
  proof (cases "c = newline")
    case True
    then show ?thesis using Cons by (simp add: join_Cons)
  next
    case False
    obtain l ls where s: "split_lines cs = l # ls"
      by (cases "split_lines cs") auto
    have "join_lines ((c # l) # ls) = c # join_lines (l # ls)"
      by (cases ls) simp_all
    then show ?thesis using Cons False s by simp
  qed
qed

lemma split_line [simp]: "newline \<notin> set l \<Longrightarrow> split_lines l = [l]"
  by (induction l) auto

lemma split_append_line: "newline \<notin> set l \<Longrightarrow> split_lines (l @ newline # t) = l # split_lines t"
  by (induction l) auto

lemma split_join [simp]: "ls \<noteq> [] \<Longrightarrow> \<forall>l \<in> set ls. newline \<notin> set l \<Longrightarrow> split_lines (join_lines ls) = ls"
  by (induction ls rule: join_lines.induct) (auto simp: split_append_line)

lemma lines_unbroken: "l \<in> set (split_lines t) \<Longrightarrow> newline \<notin> set l"
proof (induction t arbitrary: l)
  case Nil
  then show ?case by simp
next
  case (Cons c cs)
  obtain k ks where s: "split_lines cs = k # ks" by (cases "split_lines cs") auto
  show ?case
  proof (cases "c = newline")
    case True
    then show ?thesis using Cons s by auto
  next
    case False
    then show ?thesis using Cons s by auto
  qed
qed

lemma slice_same [simp]: "slice a a xs = []"
  by (simp add: slice_def)

lemma slice_past [simp]: "b \<le> a \<Longrightarrow> slice a b xs = []"
  by (simp add: slice_def)

lemma slice_append: "a \<le> b \<Longrightarrow> b \<le> c \<Longrightarrow> slice a b xs @ slice b c xs = slice a c xs"
proof -
  assume "a \<le> b" "b \<le> c"
  then have "c - a = (b - a) + (c - b)" "drop b xs = drop (b - a) (drop a xs)" by simp_all
  then show ?thesis unfolding slice_def by (simp only: take_add)
qed

lemma slice_drop: "a \<le> b \<Longrightarrow> slice a b xs @ drop b xs = drop a xs"
proof -
  assume "a \<le> b"
  then have "drop b xs = drop (b - a) (drop a xs)" by simp
  then show ?thesis unfolding slice_def by (simp only: append_take_drop_id)
qed

lemma length_slice: "b \<le> length xs \<Longrightarrow> length (slice a b xs) = b - a"
  by (simp add: slice_def)

lemma slice_nth: "i < b - a \<Longrightarrow> b \<le> length xs \<Longrightarrow> slice a b xs ! i = xs ! (a + i)"
  by (simp add: slice_def)

lemma set_slice: "set (slice a b xs) \<subseteq> set xs"
  using set_take_subset [of "b - a" "drop a xs"] set_drop_subset [of a xs] by (auto simp: slice_def)

end
