(* ===== verification/Line_Merge.thy ===== *)
theory Line_Merge
  imports Text_Lines
begin

text \<open>
  Keep mine, in \<open>features/src/description-edit-model.ts\<close>: the developer's change of a text from its
  base laid over another writer's change of it from the same base, line by line
  (\<open>lineChanges\<close>, \<open>byPlace\<close>, \<open>settledChanges\<close>, \<open>placesOf\<close>, \<open>keptOver\<close>).

  The line diff is the library \<open>diff\<close>'s \<open>diffArrays\<close>, so it is an argument: from two lists of
  lines to the parts between them. What the code relies on of it is \<open>diff_ok\<close>: the parts it kept
  and struck are the first list, those it kept and wrote are the second, each part counts its
  lines and is not struck and written at once, and two equal lists differ in nothing.
\<close>

subsection \<open>The parts of a diff\<close>

record diff_part =
  value_of :: "string list"
  count_of :: nat
  part_added :: bool
  part_removed :: bool

type_synonym line_diff = "string list \<Rightarrow> string list \<Rightarrow> diff_part list"

definition parts_ok :: "string list \<Rightarrow> string list \<Rightarrow> diff_part list \<Rightarrow> bool" where
  "parts_ok xs ys ps \<longleftrightarrow>
     concat (map value_of (filter (\<lambda>p. \<not> part_added p) ps)) = xs \<and>
     concat (map value_of (filter (\<lambda>p. \<not> part_removed p) ps)) = ys \<and>
     (\<forall>p \<in> set ps. count_of p = length (value_of p) \<and> \<not> (part_added p \<and> part_removed p))"

definition diff_ok :: "line_diff \<Rightarrow> bool" where
  "diff_ok d \<longleftrightarrow> (\<forall>xs ys. parts_ok xs ys (d xs ys)) \<and>
     (\<forall>xs. \<forall>p \<in> set (d xs xs). \<not> part_added p \<and> \<not> part_removed p)"

subsection \<open>A text's changes from the base\<close>

record line_change =
  from_line :: nat
  to_line :: nat
  new_lines :: "string list"
  by_me :: bool

text \<open>One part read: a run of lines struck and written in is one change.\<close>

definition take_part ::
  "bool \<Rightarrow> diff_part \<Rightarrow> line_change list \<times> nat \<Rightarrow> line_change list \<times> nat" where
  "take_part mine p = (\<lambda>(changes, at).
     let latest = last_opt changes;
         changed = part_added p \<or> part_removed p;
         joins = changed \<and> (case latest of None \<Rightarrow> False | Some l \<Rightarrow> to_line l = at);
         kept = (if joins then butlast changes else changes);
         change = (if joins then the latest
                   else \<lparr>from_line = at, to_line = at, new_lines = [], by_me = mine\<rparr>);
         added = (if part_added p
                  then kept @ [change\<lparr>new_lines := new_lines change @ value_of p\<rparr>] else kept);
         removed = (if part_removed p
                    then added @ [change\<lparr>to_line := at + count_of p\<rparr>] else added)
     in (removed, if part_added p then at else at + count_of p))"

definition line_changes :: "line_diff \<Rightarrow> string list \<Rightarrow> string \<Rightarrow> bool \<Rightarrow> line_change list" where
  "line_changes d base text mine = fst (fold (take_part mine) (d base (split_lines text)) ([], 0))"

subsection \<open>The order of changes, and the places they change\<close>

definition writes_rank :: "line_change \<Rightarrow> int" where
  "writes_rank c = (if from_line c = to_line c then 0 else 1)"

definition by_place :: "line_change \<Rightarrow> line_change \<Rightarrow> int" where
  "by_place a b =
     (let places = int (from_line a) - int (from_line b);
          ranks = writes_rank a - writes_rank b
      in if places \<noteq> 0 then places
         else if ranks \<noteq> 0 then ranks
         else of_bool (by_me a) - of_bool (by_me b))"

text \<open>\<open>changes.sort(byPlace)\<close>, which is stable.\<close>

fun put_by_place :: "line_change \<Rightarrow> line_change list \<Rightarrow> line_change list" where
  "put_by_place c [] = [c]"
| "put_by_place c (b # bs) = (if by_place c b \<le> 0 then c # b # bs else b # put_by_place c bs)"

definition sorted_by_place :: "line_change list \<Rightarrow> line_change list" where
  "sorted_by_place cs = foldr put_by_place cs []"

definition writes_in :: "line_change \<Rightarrow> bool" where
  "writes_in c \<longleftrightarrow> from_line c = to_line c"

definition settled_changes :: "line_change list \<Rightarrow> line_change list" where
  "settled_changes place =
     (let mine = filter by_me place;
          theirs = filter (\<lambda>c. \<not> by_me c) place
      in if mine = [] \<or> theirs = [] then place
         else if \<not> list_all writes_in place then mine
         else if join_lines (new_lines (hd mine)) = join_lines (new_lines (hd theirs)) then mine
         else theirs @ mine)"

definition place_change ::
  "line_change \<Rightarrow> line_change list list \<times> int \<times> int \<Rightarrow> line_change list list \<times> int \<times> int" where
  "place_change c = (\<lambda>(places, beg, edge).
     let inserts_here = beg = edge \<and> int (from_line c) = edge \<and> int (to_line c) = edge;
         joins = places \<noteq> [] \<and> (int (from_line c) < edge \<or> inserts_here)
     in (if joins then butlast places @ [last places @ [c]] else places @ [[c]],
         if joins then beg else int (from_line c),
         max edge (int (to_line c))))"

definition places_of :: "line_change list \<Rightarrow> line_change list list" where
  "places_of cs = fst (fold place_change cs ([], 0, - 1))"

subsection \<open>The merge\<close>

definition lay_change ::
  "string list \<Rightarrow> line_change \<Rightarrow> string list \<times> nat \<Rightarrow> string list \<times> nat" where
  "lay_change ls c = (\<lambda>(merged, at). (merged @ slice at (from_line c) ls @ new_lines c, to_line c))"

definition lay_place ::
  "string list \<Rightarrow> line_change list \<Rightarrow> string list \<times> nat \<Rightarrow> string list \<times> nat" where
  "lay_place ls place acc =
     (let (merged, at) = fold (lay_change ls) (settled_changes place) acc;
          edge = fold max (map to_line place) at
      in (merged @ slice at edge ls, edge))"

definition kept_over :: "line_diff \<Rightarrow> string \<Rightarrow> string \<Rightarrow> string \<Rightarrow> string" where
  "kept_over d base mine theirs =
     (let ls = split_lines base;
          changes = line_changes d ls theirs False @ line_changes d ls mine True;
          (merged, at) = fold (lay_place ls) (places_of (sorted_by_place changes)) ([], 0)
      in join_lines (merged @ drop at ls))"

subsection \<open>What a list of changes makes of the base\<close>

fun patched :: "string list \<Rightarrow> nat \<Rightarrow> line_change list \<Rightarrow> string list" where
  "patched ls at [] = drop at ls"
| "patched ls at (c # cs) = slice at (from_line c) ls @ new_lines c @ patched ls (to_line c) cs"

definition apart :: "nat \<Rightarrow> line_change list \<Rightarrow> bool" where
  "apart n cs \<longleftrightarrow> sorted_wrt (\<lambda>a b. to_line a < from_line b) cs \<and>
     (\<forall>c \<in> set cs. from_line c \<le> to_line c \<and> to_line c \<le> n)"

end
