(* ===== verification/Line_Changes.thy ===== *)
theory Line_Changes
  imports Line_Merge
begin

text \<open>
  The changes a diff answers of a text, as \<open>lineChanges\<close> reads them: each a line or more apart
  from the last, all of one writer, and laid over the base they make the text again.
\<close>

subsection \<open>Changes laid one after the other\<close>

fun laid :: "string list \<Rightarrow> nat \<Rightarrow> line_change list \<Rightarrow> string list" where
  "laid ls at [] = []"
| "laid ls at (c # cs) = slice at (from_line c) ls @ new_lines c @ laid ls (to_line c) cs"

definition laid_to :: "nat \<Rightarrow> line_change list \<Rightarrow> nat" where
  "laid_to at cs = (if cs = [] then at else to_line (last cs))"

lemma laid_to_simps [simp]:
  "laid_to at [] = at" "laid_to at (c # cs) = laid_to (to_line c) cs"
  "laid_to at (cs @ [c]) = to_line c"
  by (auto simp: laid_to_def)

lemma patched_laid: "patched ls at cs = laid ls at cs @ drop (laid_to at cs) ls"
  by (induction cs arbitrary: at) auto

lemma laid_append: "laid ls at (cs @ ds) = laid ls at cs @ laid ls (laid_to at cs) ds"
  by (induction cs arbitrary: at) auto

lemma slice_longer: "b \<le> length xs \<Longrightarrow> slice a b (xs @ ys) = slice a b xs"
  by (simp add: slice_def)

lemma laid_longer: "\<forall>c \<in> set cs. from_line c \<le> length xs \<Longrightarrow> laid (xs @ ys) at cs = laid xs at cs"
  by (induction cs arbitrary: at) (auto simp: slice_longer)

lemma fold_lay: "fold (lay_change ls) cs (merged, at) = (merged @ laid ls at cs, laid_to at cs)"
  by (induction cs arbitrary: merged at) (auto simp: lay_change_def)

lemma laid_skip:
  "at \<le> m \<Longrightarrow> \<forall>c \<in> set cs. m \<le> from_line c \<Longrightarrow> slice at m ls @ patched ls m cs = patched ls at cs"
  by (cases cs) (auto simp: slice_drop slice_append simp flip: append_assoc)

subsection \<open>The changes a diff answers\<close>

definition kept_words :: "diff_part list \<Rightarrow> string list" where
  "kept_words ps = concat (map value_of (filter (\<lambda>p. \<not> part_added p) ps))"

definition text_words :: "diff_part list \<Rightarrow> string list" where
  "text_words ps = concat (map value_of (filter (\<lambda>p. \<not> part_removed p) ps))"

definition part_ok :: "diff_part \<Rightarrow> bool" where
  "part_ok p \<longleftrightarrow> count_of p = length (value_of p) \<and> \<not> (part_added p \<and> part_removed p)"

lemma words_snoc:
  "kept_words (ps @ [p]) = kept_words ps @ (if part_added p then [] else value_of p)"
  "text_words (ps @ [p]) = text_words ps @ (if part_removed p then [] else value_of p)"
  by (simp_all add: kept_words_def text_words_def)

definition read_ok :: "bool \<Rightarrow> string list \<Rightarrow> string list \<Rightarrow> line_change list \<times> nat \<Rightarrow> bool" where
  "read_ok mine xs ys = (\<lambda>(cs, at). at = length xs \<and> apart at cs \<and> patched xs 0 cs = ys \<and>
     (\<forall>c \<in> set cs. by_me c = mine))"

lemma apart_snoc:
  "apart n (cs @ [c]) \<longleftrightarrow> apart n cs \<and> (\<forall>b \<in> set cs. to_line b < from_line c) \<and>
     from_line c \<le> to_line c \<and> to_line c \<le> n"
  by (auto simp: apart_def sorted_wrt_append)

lemma apart_more: "apart n cs \<Longrightarrow> n \<le> m \<Longrightarrow> apart m cs"
  by (auto simp: apart_def)

lemma apart_ends: "apart n cs \<Longrightarrow> laid_to 0 cs \<le> n"
  by (auto simp: apart_def laid_to_def)

lemma apart_before:
  assumes "apart n cs" "laid_to 0 cs \<noteq> n" "cs \<noteq> [] \<or> True" "c \<in> set cs"
  shows "to_line c < n"
proof -
  obtain ks l where cs: "cs = ks @ [l]" using assms(4) by (cases cs rule: rev_cases) auto
  show ?thesis using assms by (auto simp: cs apart_snoc)
qed

lemma patched_longer:
  assumes "apart (length xs) cs"
  shows "patched (xs @ v) 0 cs = patched xs 0 cs @ v"
proof -
  have "\<forall>c \<in> set cs. from_line c \<le> length xs" using assms by (auto simp: apart_def)
  then show ?thesis using apart_ends [OF assms] by (simp add: patched_laid laid_longer)
qed

lemma read_kept:
  assumes r: "read_ok mine xs ys (cs, at)" and p: "part_ok p" "\<not> part_added p" "\<not> part_removed p"
  shows "read_ok mine (xs @ value_of p) (ys @ value_of p) (take_part mine p (cs, at))"
proof -
  have "take_part mine p (cs, at) = (cs, at + length (value_of p))"
    using p by (simp add: take_part_def part_ok_def)
  then show ?thesis using r by (auto simp: read_ok_def patched_longer intro: apart_more)
qed

lemma read_fresh:
  assumes r: "read_ok mine xs ys (cs, at)" and p: "part_ok p" "part_added p \<or> part_removed p"
    and new: "cs = [] \<or> to_line (last cs) \<noteq> at"
  shows "read_ok mine (xs @ (if part_added p then [] else value_of p))
           (ys @ (if part_removed p then [] else value_of p)) (take_part mine p (cs, at))"
proof -
  define v where "v = value_of p"
  have at: "at = length xs" and ap: "apart at cs" and made: "patched xs 0 cs = ys"
    and me: "\<forall>c \<in> set cs. by_me c = mine"
    using r by (auto simp: read_ok_def)
  have early: "\<forall>c \<in> set cs. to_line c < at"
  proof
    fix c assume c: "c \<in> set cs"
    then have "laid_to 0 cs \<noteq> at" using new by (auto simp: laid_to_def)
    then show "to_line c < at" using apart_before [OF ap] c by blast
  qed
  have low: "\<forall>c \<in> set cs. from_line c \<le> length xs" using ap at by (auto simp: apart_def)
  have last: "laid_to 0 cs \<le> length xs" using apart_ends [OF ap] at by simp
  show ?thesis
  proof (cases "part_added p")
    case True
    let ?c = "\<lparr>from_line = at, to_line = at, new_lines = v, by_me = mine\<rparr>"
    have t: "take_part mine p (cs, at) = (cs @ [?c], at)"
      using True p new by (auto simp: take_part_def part_ok_def last_opt_def v_def)
    have "patched xs 0 (cs @ [?c]) = patched xs 0 cs @ v"
      using at last by (simp add: patched_laid laid_append slice_drop slice_def)
    then show ?thesis unfolding t using True p early ap at me made
      by (simp add: read_ok_def apart_snoc part_ok_def v_def)
  next
    case False
    let ?c = "\<lparr>from_line = at, to_line = at + length v, new_lines = [], by_me = mine\<rparr>"
    have t: "take_part mine p (cs, at) = (cs @ [?c], at + length v)"
      using False p new by (auto simp: take_part_def part_ok_def last_opt_def v_def)
    have "patched (xs @ v) 0 (cs @ [?c]) = patched xs 0 cs"
      using at last low by (simp add: patched_laid laid_append laid_longer slice_longer slice_def)
    then show ?thesis unfolding t using False p early ap at me made
      by (auto simp: read_ok_def apart_snoc v_def intro: apart_more)
  qed
qed

lemma read_joined:
  assumes r: "read_ok mine xs ys (ks @ [l], at)" and p: "part_ok p" "part_added p \<or> part_removed p"
    and joins: "to_line l = at"
  shows "read_ok mine (xs @ (if part_added p then [] else value_of p))
           (ys @ (if part_removed p then [] else value_of p)) (take_part mine p (ks @ [l], at))"
proof -
  define v where "v = value_of p"
  have at: "at = length xs" and ap: "apart at (ks @ [l])" and made: "patched xs 0 (ks @ [l]) = ys"
    and me: "\<forall>c \<in> set ks. by_me c = mine" "by_me l = mine"
    using r by (auto simp: read_ok_def)
  have low: "\<forall>c \<in> set (ks @ [l]). from_line c \<le> length xs"
    using ap at by (auto simp: apart_def)
  show ?thesis
  proof (cases "part_added p")
    case True
    let ?c = "l\<lparr>new_lines := new_lines l @ v\<rparr>"
    have t: "take_part mine p (ks @ [l], at) = (ks @ [?c], at)"
      using True p joins by (simp add: take_part_def part_ok_def last_opt_def v_def)
    have "patched xs 0 (ks @ [?c]) = patched xs 0 (ks @ [l]) @ v"
      using at joins by (simp add: patched_laid laid_append)
    then show ?thesis unfolding t using True p ap at me made
      by (simp add: read_ok_def apart_snoc part_ok_def v_def)
  next
    case False
    let ?c = "l\<lparr>to_line := at + length v\<rparr>"
    have t: "take_part mine p (ks @ [l], at) = (ks @ [?c], at + length v)"
      using False p joins by (simp add: take_part_def part_ok_def last_opt_def v_def)
    have "laid (xs @ v) 0 ks = laid xs 0 ks" using low by (intro laid_longer) simp
    then have "patched (xs @ v) 0 (ks @ [?c]) = patched xs 0 (ks @ [l])"
      using at joins low by (simp add: patched_laid laid_append slice_longer)
    moreover have "apart (at + length v) (ks @ [?c])"
      using ap joins by (auto simp: apart_snoc intro: apart_more)
    ultimately show ?thesis unfolding t using False p at me made
      by (auto simp: read_ok_def v_def)
  qed
qed

lemma read_part:
  assumes r: "read_ok mine xs ys (cs, at)" and p: "part_ok p"
  shows "read_ok mine (xs @ (if part_added p then [] else value_of p))
           (ys @ (if part_removed p then [] else value_of p)) (take_part mine p (cs, at))"
proof (cases "part_added p \<or> part_removed p")
  case False
  then show ?thesis using read_kept [OF r p] by simp
next
  case changed: True
  show ?thesis
  proof (cases "cs = [] \<or> to_line (last cs) \<noteq> at")
    case True
    then show ?thesis by (rule read_fresh [OF r p changed])
  next
    case False
    then obtain ks l where cs: "cs = ks @ [l]" by (cases cs rule: rev_cases) auto
    then show ?thesis using False read_joined [of mine xs ys ks l at p] r p changed by simp
  qed
qed

lemma read_parts:
  "\<forall>p \<in> set ps. part_ok p \<Longrightarrow>
   read_ok mine (kept_words ps) (text_words ps) (fold (take_part mine) ps ([], 0))"
proof (induction ps rule: rev_induct)
  case Nil
  then show ?case by (simp add: read_ok_def kept_words_def text_words_def apart_def)
next
  case (snoc p ps)
  then have "read_ok mine (kept_words ps) (text_words ps) (fold (take_part mine) ps ([], 0))"
    by simp
  then show ?case using snoc.prems
    by (cases "fold (take_part mine) ps ([], 0)") (simp add: words_snoc read_part)
qed

lemma changes_read:
  assumes "diff_ok d"
  shows "read_ok mine base (split_lines words)
           (line_changes d base words mine, length base)"
proof -
  define ps where "ps = d base (split_lines words)"
  have "parts_ok base (split_lines words) ps" using assms by (simp add: diff_ok_def ps_def)
  then have "\<forall>p \<in> set ps. part_ok p" "kept_words ps = base" "text_words ps = split_lines words"
    by (simp_all add: parts_ok_def part_ok_def kept_words_def text_words_def)
  then have "read_ok mine base (split_lines words) (fold (take_part mine) ps ([], 0))"
    using read_parts by metis
  then show ?thesis
    by (cases "fold (take_part mine) ps ([], 0)") (auto simp: read_ok_def line_changes_def ps_def)
qed

lemma changes_apart: "diff_ok d \<Longrightarrow> apart (length base) (line_changes d base words mine)"
  and changes_writer: "diff_ok d \<Longrightarrow> c \<in> set (line_changes d base words mine) \<Longrightarrow> by_me c = mine"
  using changes_read [of d mine base words] by (auto simp: read_ok_def)

lemma changes_made: "diff_ok d \<Longrightarrow> patched base 0 (line_changes d base words mine) = split_lines words"
  using changes_read [of d mine base words] by (simp add: read_ok_def)

end
