(* ===== verification/Merge_Places.thy ===== *)
theory Merge_Places
  imports Line_Changes
begin

text \<open>
  The changes of two writers in the order \<open>byPlace\<close> gives them, and the places \<open>placesOf\<close> cuts them
  into: each change of a place meets one before it, and two places are apart from each other.
\<close>

subsection \<open>The changes of both, in order\<close>

definition place_le :: "line_change \<Rightarrow> line_change \<Rightarrow> bool" where
  "place_le a b \<longleftrightarrow> from_line a < from_line b \<or> from_line a = from_line b \<and>
     ((writes_in a \<and> \<not> writes_in b) \<or> (writes_in a = writes_in b \<and> (by_me a \<longrightarrow> by_me b)))"

lemma by_place_le: "by_place a b \<le> 0 \<longleftrightarrow> place_le a b"
  by (auto simp: by_place_def place_le_def writes_rank_def writes_in_def Let_def)

lemma place_le_trans: "place_le a b \<Longrightarrow> place_le b c \<Longrightarrow> place_le a c"
  by (auto simp: place_le_def)

lemma place_le_total: "\<not> place_le a b \<Longrightarrow> place_le b a"
  by (auto simp: place_le_def)

lemma set_put: "set (put_by_place c cs) = insert c (set cs)"
  by (induction cs) auto

lemma sorted_put: "sorted_wrt place_le cs \<Longrightarrow> sorted_wrt place_le (put_by_place c cs)"
proof (induction cs)
  case Nil
  then show ?case by simp
next
  case (Cons b bs)
  show ?case
  proof (cases "place_le c b")
    case True
    then show ?thesis using Cons.prems by (auto simp: by_place_le intro: place_le_trans)
  next
    case False
    then show ?thesis using Cons by (auto simp: by_place_le set_put dest: place_le_total)
  qed
qed

lemma distinct_put: "distinct cs \<Longrightarrow> c \<notin> set cs \<Longrightarrow> distinct (put_by_place c cs)"
  by (induction cs) (auto simp: set_put)

lemma set_sorted_by_place [simp]: "set (sorted_by_place cs) = set cs"
  by (induction cs) (auto simp: sorted_by_place_def set_put)

lemma sorted_by_place_sorted: "sorted_wrt place_le (sorted_by_place cs)"
  by (induction cs) (auto simp: sorted_by_place_def sorted_put)

lemma distinct_sorted_by_place: "distinct cs \<Longrightarrow> distinct (sorted_by_place cs)"
proof (induction cs)
  case Nil
  then show ?case by (simp add: sorted_by_place_def)
next
  case (Cons c cs)
  have "c \<notin> set (sorted_by_place cs)" using Cons.prems by simp
  then show ?case using Cons distinct_put by (simp add: sorted_by_place_def)
qed

text \<open>Two changes in order: by place, and one writer's leave a line between them.\<close>

definition in_turn :: "line_change \<Rightarrow> line_change \<Rightarrow> bool" where
  "in_turn a b \<longleftrightarrow> place_le a b \<and> (by_me a = by_me b \<longrightarrow> to_line a < from_line b) \<and>
     from_line a \<le> to_line a \<and> from_line b \<le> to_line b"

lemma apart_distinct: "apart n cs \<Longrightarrow> distinct cs"
  unfolding apart_def by (induction cs) force+

lemma apart_pair:
  "apart n cs \<Longrightarrow> a \<in> set cs \<Longrightarrow> b \<in> set cs \<Longrightarrow> a = b \<or> to_line a < from_line b \<or> to_line b < from_line a"
  unfolding apart_def by (induction cs) auto

lemma both_in_turn:
  assumes t: "apart n ts" "\<forall>c \<in> set ts. \<not> by_me c" and m: "apart n ms" "\<forall>c \<in> set ms. by_me c"
  shows "sorted_wrt in_turn (sorted_by_place (ts @ ms))"
proof -
  let ?s = "sorted_by_place (ts @ ms)"
  have proper: "from_line c \<le> to_line c" if "c \<in> set ?s" for c
    using that t m by (auto simp: apart_def)
  have "distinct (ts @ ms)" using t m apart_distinct by auto
  then have d: "distinct ?s" by (rule distinct_sorted_by_place)
  have s: "sorted_wrt place_le ?s" by (rule sorted_by_place_sorted)
  show ?thesis
    unfolding sorted_wrt_iff_nth_less
  proof (intro allI impI)
    fix i j assume ij: "i < j" "j < length ?s"
    let ?a = "?s ! i" and ?b = "?s ! j"
    have ne: "?a \<noteq> ?b" using d ij by (simp add: nth_eq_iff_index_eq)
    have le: "place_le ?a ?b" using s ij by (simp add: sorted_wrt_iff_nth_less)
    have mem: "?a \<in> set ?s" "?b \<in> set ?s" by (rule nth_mem, use ij in simp)+
    have "to_line ?a < from_line ?b" if same: "by_me ?a = by_me ?b"
    proof -
      have "?a \<in> set ts \<and> ?b \<in> set ts \<or> ?a \<in> set ms \<and> ?b \<in> set ms"
        using mem same t m by (auto simp del: nth_mem)
      then have "to_line ?a < from_line ?b \<or> to_line ?b < from_line ?a"
        using ne apart_pair t(1) m(1) by blast
      then show ?thesis using le proper [OF mem(1)] proper [OF mem(2)] by (auto simp: place_le_def)
    qed
    then show "in_turn ?a ?b" using le proper mem by (simp add: in_turn_def)
  qed
qed

subsection \<open>The places changed\<close>

definition meets :: "line_change list \<Rightarrow> line_change \<Rightarrow> bool" where
  "meets xs c \<longleftrightarrow> (\<exists>x \<in> set xs. from_line c < to_line x) \<or>
     writes_in c \<and> (\<forall>x \<in> set xs. writes_in x \<and> from_line x = from_line c)"

definition linked :: "line_change list \<Rightarrow> bool" where
  "linked cs \<longleftrightarrow> (\<forall>i < length cs. 0 < i \<longrightarrow> meets (take i cs) (cs ! i))"

definition parted :: "line_change list \<Rightarrow> line_change list \<Rightarrow> bool" where
  "parted ps qs \<longleftrightarrow> (\<forall>p \<in> set ps. \<forall>q \<in> set qs. to_line p \<le> from_line q \<and>
     \<not> (writes_in p \<and> writes_in q \<and> from_line p = from_line q))"

lemma linked_single [simp]: "linked [c]"
  by (simp add: linked_def)

lemma linked_snoc: "linked cs \<Longrightarrow> meets cs c \<Longrightarrow> linked (cs @ [c])"
  by (auto simp: linked_def nth_append less_Suc_eq)

definition cut_ok :: "line_change list \<Rightarrow> line_change list list \<times> int \<times> int \<Rightarrow> bool" where
  "cut_ok cs = (\<lambda>(places, beg, edge). concat places = cs \<and> [] \<notin> set places \<and>
     sorted_wrt parted places \<and> list_all linked places \<and>
     (places \<noteq> [] \<longrightarrow> beg = int (from_line (hd (last places))) \<and>
        (\<forall>c \<in> set cs. int (to_line c) \<le> edge) \<and> (\<exists>c \<in> set (last places). int (to_line c) = edge)))"

lemma in_turn_le: "in_turn a b \<Longrightarrow> from_line a \<le> from_line b"
  by (auto simp: in_turn_def place_le_def)

lemma hd_first: "sorted_wrt in_turn cs \<Longrightarrow> c \<in> set cs \<Longrightarrow> from_line (hd cs) \<le> from_line c"
  by (cases cs) (auto dest: in_turn_le)

lemma place_joins:
  assumes ok: "cut_ok cs (ps @ [p], beg, edge)" and s: "sorted_wrt in_turn (cs @ [c])"
    and joins: "int (from_line c) < edge \<or>
      (beg = edge \<and> int (from_line c) = edge \<and> int (to_line c) = edge)"
  shows "cut_ok (cs @ [c]) (ps @ [p @ [c]], beg, max edge (int (to_line c)))"
proof -
  have cs: "cs = concat ps @ p" and p: "p \<noteq> []" and lp: "linked p"
    and beg: "beg = int (from_line (hd p))" and top: "\<forall>x \<in> set cs. int (to_line x) \<le> edge"
    and ex: "\<exists>x \<in> set p. int (to_line x) = edge"
    and rest: "[] \<notin> set ps" "sorted_wrt parted ps" "\<forall>q \<in> set ps. parted q p" "list_all linked ps"
    using ok by (auto simp: cut_ok_def sorted_wrt_append)
  have turn: "in_turn x c" if "x \<in> set cs" for x using s that by (simp add: sorted_wrt_append)
  have sp: "sorted_wrt in_turn p" using s by (simp add: cs sorted_wrt_append)
  have meet: "meets p c"
  proof (cases "int (from_line c) < edge")
    case True
    then obtain x where "x \<in> set p" "int (to_line x) = edge" using ex by blast
    then show ?thesis using True unfolding meets_def by (intro disjI1 bexI [of _ x]) auto
  next
    case False
    then have eq: "beg = edge" "int (from_line c) = edge" "int (to_line c) = edge" using joins by auto
    have "writes_in x \<and> from_line x = from_line c" if x: "x \<in> set p" for x
    proof -
      have "from_line x \<le> to_line x" using turn [of x] x by (simp add: cs in_turn_def)
      moreover have "int (to_line x) \<le> edge" using top x by (simp add: cs)
      moreover have "from_line (hd p) \<le> from_line x" by (rule hd_first [OF sp x])
      ultimately show ?thesis using eq beg by (simp add: writes_in_def)
    qed
    moreover have "writes_in c" using eq by (simp add: writes_in_def)
    ultimately show ?thesis unfolding meets_def by blast
  qed
  have par: "parted q (p @ [c])" if q: "q \<in> set ps" for q
  proof -
    have 1: "parted q p" using rest q by blast
    have h: "hd p \<in> set p" using p by simp
    have hc: "in_turn (hd p) c" using turn h by (simp add: cs)
    have "to_line x \<le> from_line c \<and> \<not> (writes_in x \<and> writes_in c \<and> from_line x = from_line c)"
      if x: "x \<in> set q" for x
    proof -
      have xh: "to_line x \<le> from_line (hd p)"
        "\<not> (writes_in x \<and> writes_in (hd p) \<and> from_line x = from_line (hd p))"
        using 1 x h by (auto simp: parted_def)
      have "x \<in> set cs" using x q by (auto simp: cs)
      then have "from_line x \<le> to_line x" using turn by (simp add: in_turn_def)
      moreover have "from_line (hd p) \<le> from_line c" by (rule in_turn_le [OF hc])
      moreover have "from_line (hd p) = from_line c \<Longrightarrow> writes_in c \<Longrightarrow> writes_in (hd p)"
        using hc by (auto simp: in_turn_def place_le_def)
      ultimately show ?thesis using xh by auto
    qed
    then show ?thesis using 1 by (auto simp: parted_def)
  qed
  obtain y where y: "y \<in> set p" "int (to_line y) = edge" using ex by blast
  have "\<exists>x \<in> set (p @ [c]). int (to_line x) = max edge (int (to_line c))"
    using y by (cases "edge \<le> int (to_line c)") auto
  moreover have "\<forall>x \<in> set (cs @ [c]). int (to_line x) \<le> max edge (int (to_line c))"
    using top by force
  ultimately show ?thesis using p rest par lp meet beg
    by (auto simp: cut_ok_def cs sorted_wrt_append linked_snoc hd_append)
qed

lemma place_opens:
  assumes ok: "cut_ok cs (places, beg, edge)" and s: "sorted_wrt in_turn (cs @ [c])"
    and opens: "places = [] \<or> \<not> (int (from_line c) < edge \<or>
      (beg = edge \<and> int (from_line c) = edge \<and> int (to_line c) = edge))"
  shows "cut_ok (cs @ [c]) (places @ [[c]], int (from_line c), if places = [] then int (to_line c)
           else max edge (int (to_line c)))"
proof (cases "places = []")
  case True
  then show ?thesis using ok by (auto simp: cut_ok_def)
next
  case False
  have cs: "cs = concat places" and ne: "[] \<notin> set places"
    and beg: "beg = int (from_line (hd (last places)))"
    and top: "\<forall>x \<in> set cs. int (to_line x) \<le> edge"
    and ex: "\<exists>x \<in> set (last places). int (to_line x) = edge"
    using ok False by (auto simp: cut_ok_def)
  have past: "edge \<le> int (from_line c)" using opens False by auto
  have turn: "in_turn x c" if "x \<in> set cs" for x using s that by (simp add: sorted_wrt_append)
  have cc: "from_line c \<le> to_line c"
  proof -
    obtain y where y: "y \<in> set (last places)" using ex by blast
    have "last places \<in> set places" using False by simp
    then have "y \<in> set cs" using y unfolding cs set_concat by blast
    then show ?thesis using turn by (simp add: in_turn_def)
  qed
  define p where "p = last places"
  define ps where "ps = butlast places"
  have split: "places = ps @ [p]" using False by (simp add: p_def ps_def)
  have sp: "sorted_wrt in_turn p" using s by (simp add: cs split sorted_wrt_append)
  have lp: "linked p" and pp: "\<forall>q \<in> set ps. parted q p"
    using ok by (simp_all add: cut_ok_def split sorted_wrt_append)
  have pne: "p \<noteq> []" using ne split by auto
  have no: "\<not> (writes_in x \<and> writes_in c \<and> from_line x = from_line c)" if x: "x \<in> set cs" for x
  proof
    assume w: "writes_in x \<and> writes_in c \<and> from_line x = from_line c"
    have up: "edge = int (from_line c)"
      using top x w past by (force simp: writes_in_def)
    then have less: "from_line (hd p) \<noteq> from_line c"
      using opens False w beg by (auto simp: writes_in_def p_def)
    have hp: "hd p \<in> set p" "hd p \<in> set cs" using pne by (auto simp: cs split)
    have "from_line (hd p) \<le> from_line c" using turn hp by (intro in_turn_le) simp
    then have low: "from_line (hd p) < from_line c" using less by simp
    show False
    proof (cases "x \<in> set p")
      case True
      then obtain i where i: "i < length p" "p ! i = x" by (auto simp: in_set_conv_nth)
      have i0: "0 < i"
      proof (rule ccontr)
        assume "\<not> 0 < i"
        then have "x = hd p" using i pne by (simp add: hd_conv_nth)
        then show False using low w by simp
      qed
      then have "meets (take i p) x" using lp i by (auto simp: linked_def)
      then consider y where "y \<in> set (take i p)" "from_line x < to_line y"
        | "\<forall>y \<in> set (take i p). from_line y = from_line x"
        by (auto simp: meets_def)
      then show False
      proof cases
        case (1 y)
        then have "y \<in> set cs" using in_set_takeD by (fastforce simp: cs split)
        then show False using 1 top up w by force
      next
        case 2
        have "take i p ! 0 \<in> set (take i p)" using i i0 by (intro nth_mem) auto
        then have "hd p \<in> set (take i p)" using i0 pne by (simp add: hd_conv_nth)
        then show False using 2 low w by auto
      qed
    next
      case False
      then obtain q where q: "q \<in> set ps" "x \<in> set q" using x by (auto simp: cs split)
      then have "to_line x \<le> from_line (hd p)" using pp hp(1) by (auto simp: parted_def)
      then show False using low w by (auto simp: writes_in_def)
    qed
  qed
  have "parted q [c]" if q: "q \<in> set places" for q
  proof -
    have "x \<in> set cs" if "x \<in> set q" for x using q that by (auto simp: cs)
    then show ?thesis using no top past by (fastforce simp: parted_def)
  qed
  moreover have "\<forall>x \<in> set (cs @ [c]). int (to_line x) \<le> max edge (int (to_line c))"
    using top by force
  moreover have "max edge (int (to_line c)) = int (to_line c)" using past cc by simp
  ultimately show ?thesis using ok False unfolding cut_ok_def
    by (simp add: sorted_wrt_append)
qed

lemma cut_places:
  "sorted_wrt in_turn cs \<Longrightarrow> \<exists>beg edge places. fold place_change cs ([], 0, - 1) = (places, beg, edge) \<and>
     cut_ok cs (places, beg, edge)"
proof (induction cs rule: rev_induct)
  case Nil
  then show ?case by (simp add: cut_ok_def)
next
  case (snoc c cs)
  then obtain places beg edge where f: "fold place_change cs ([], 0, - 1) = (places, beg, edge)"
    and ok: "cut_ok cs (places, beg, edge)" by (auto simp: sorted_wrt_append)
  have step: "fold place_change (cs @ [c]) ([], 0, - 1) = place_change c (places, beg, edge)"
    by (simp add: f)
  let ?j = "int (from_line c) < edge \<or> (beg = edge \<and> int (from_line c) = edge \<and> int (to_line c) = edge)"
  show ?case
  proof (cases "places \<noteq> [] \<and> ?j")
    case True
    then obtain ps p where pl: "places = ps @ [p]" by (cases places rule: rev_cases) auto
    have "cut_ok (cs @ [c]) (ps @ [p @ [c]], beg, max edge (int (to_line c)))"
      using place_joins ok snoc.prems True unfolding pl by blast
    moreover have "place_change c (places, beg, edge) = (ps @ [p @ [c]], beg, max edge (int (to_line c)))"
      using True by (auto simp: place_change_def pl)
    ultimately show ?thesis unfolding step by blast
  next
    case False
    then have o: "places = [] \<or> \<not> ?j" by blast
    have "place_change c (places, beg, edge) = (places @ [[c]], int (from_line c), max edge (int (to_line c)))"
      using False by (auto simp: place_change_def)
    moreover have "cut_ok (cs @ [c]) (places @ [[c]], int (from_line c), max edge (int (to_line c)))"
    proof (cases "places = []")
      case True
      then have "cs = []" using ok by (simp add: cut_ok_def)
      then show ?thesis using True f place_opens [OF ok snoc.prems o]
        by (auto simp: cut_ok_def)
    next
      case False
      then show ?thesis using place_opens [OF ok snoc.prems o] by simp
    qed
    ultimately show ?thesis unfolding step by blast
  qed
qed

end
