(* ===== verification/Line_Merge_Properties.thy ===== *)
theory Line_Merge_Properties
  imports Merge_Places
begin

text \<open>
  What Keep mine makes: the base with every change of the developer's, and each of the other
  writer's that no change of theirs meets (\<open>keep_mine_is_the_merge\<close>), so that a writer who changed
  nothing is answered the other's text, and a text's changes alone make the text again.
\<close>

subsection \<open>One place settled\<close>

text \<open>Two changes that touch one line, and two that write lines in at one place alike.\<close>

definition clash :: "line_change \<Rightarrow> line_change \<Rightarrow> bool" where
  "clash m t \<longleftrightarrow> from_line m < to_line t \<and> from_line t < to_line m"

definition same_words_in :: "line_change \<Rightarrow> line_change \<Rightarrow> bool" where
  "same_words_in m t \<longleftrightarrow> writes_in m \<and> writes_in t \<and> from_line m = from_line t \<and>
     join_lines (new_lines m) = join_lines (new_lines t)"

definition stands_over :: "line_change list \<Rightarrow> line_change \<Rightarrow> bool" where
  "stands_over ms c \<longleftrightarrow> by_me c \<or> \<not> (\<exists>m \<in> set ms. by_me m \<and> (clash m c \<or> same_words_in m c))"

lemma nth_turn: "sorted_wrt in_turn p \<Longrightarrow> i < j \<Longrightarrow> j < length p \<Longrightarrow> in_turn (p ! i) (p ! j)"
  by (simp add: sorted_wrt_iff_nth_less)

lemma first_meets:
  assumes "linked p" "1 < length p"
  shows "meets [p ! 0] (p ! 1)"
proof -
  have "take 1 p = [p ! 0]" using assms(2) by (cases p) auto
  moreover have "meets (take 1 p) (p ! 1)" using assms by (simp add: linked_def)
  ultimately show ?thesis by simp
qed

lemma writes_only_from_second:
  assumes s: "sorted_wrt in_turn p" and l: "linked p" and len: "1 < length p"
    and w: "writes_in (p ! 0)" "writes_in (p ! 1)" "from_line (p ! 1) = from_line (p ! 0)"
    and i: "i < length p"
  shows "writes_in (p ! i) \<and> from_line (p ! i) = from_line (p ! 0)"
  using i
proof (induction i rule: less_induct)
  case (less i)
  show ?case
  proof (cases "i \<le> 1")
    case True
    then show ?thesis using w by (cases i) auto
  next
    case False
    then have m: "meets (take i p) (p ! i)" using l less.prems by (simp add: linked_def)
    have le: "from_line (p ! 0) \<le> from_line (p ! i)"
      using nth_turn [OF s, of 0 i] False less.prems by (simp add: in_turn_le)
    have "\<not> from_line (p ! i) < to_line x" if "x \<in> set (take i p)" for x
    proof -
      obtain j where j: "j < i" "x = p ! j" using \<open>x \<in> set (take i p)\<close> less.prems
        by (auto simp: in_set_conv_nth)
      moreover have "j < length p" using j less.prems by simp
      ultimately have "writes_in x \<and> from_line x = from_line (p ! 0)" using less.IH by blast
      then show ?thesis using le by (simp add: writes_in_def)
    qed
    then have both: "writes_in (p ! i)" "\<forall>x \<in> set (take i p). from_line x = from_line (p ! i)"
      using m by (auto simp: meets_def)
    have "take i p ! 0 \<in> set (take i p)" using less.prems False by (intro nth_mem) auto
    then have "p ! 0 \<in> set (take i p)" using False by simp
    then have "from_line (p ! 0) = from_line (p ! i)" using both(2) by blast
    then show ?thesis using both(1) by simp
  qed
qed

lemma met_by_mine:
  assumes s: "sorted_wrt in_turn p" and l: "linked p" and mixed: "\<not> list_all writes_in p"
    and t: "t \<in> set p" "\<not> by_me t" and m: "m \<in> set p" "by_me m"
  shows "\<exists>m \<in> set p. by_me m \<and> clash m t"
proof -
  obtain i where i: "i < length p" "p ! i = t" using t by (auto simp: in_set_conv_nth)
  show ?thesis
  proof (cases "i = 0")
    case False
    then have "meets (take i p) t" using l i by (auto simp: linked_def)
    then consider x where "x \<in> set (take i p)" "from_line t < to_line x"
      | "writes_in t" "\<forall>x \<in> set (take i p). writes_in x \<and> from_line x = from_line t"
      by (auto simp: meets_def)
    then show ?thesis
    proof cases
      case (1 x)
      then obtain j where j: "j < i" "p ! j = x" using i by (auto simp: in_set_conv_nth)
      then have turn: "in_turn x t" using nth_turn [OF s j(1) i(1)] i by simp
      have "by_me x" using turn 1 t by (auto simp: in_turn_def)
      moreover have "clash x t" using turn 1 by (auto simp: in_turn_def place_le_def clash_def writes_in_def)
      moreover have "x \<in> set p" using j i by auto
      ultimately show ?thesis by blast
    next
      case 2
      have "p ! 0 \<in> set (take i p)" using nth_mem [of 0 "take i p"] False i by simp
      then have "writes_in (p ! 0)" "from_line (p ! 0) = from_line t" using 2 by auto
      moreover have "in_turn (p ! 0) t" using nth_turn [OF s, of 0 i] False i by simp
      ultimately have False using 2 t by (auto simp: in_turn_def place_le_def writes_in_def)
      then show ?thesis ..
    qed
  next
    case True
    then have t0: "p ! 0 = t" using i by simp
    have len: "1 < length p"
    proof (rule ccontr)
      assume "\<not> 1 < length p"
      then have "p = [t]" using t0 i by (cases p) auto
      then show False using t m by auto
    qed
    have meet: "meets [t] (p ! 1)" using first_meets [OF l len] t0 by simp
    have turn: "in_turn t (p ! 1)" using nth_turn [OF s, of 0 1] len t0 by simp
    have "from_line (p ! 1) < to_line t"
    proof (rule ccontr)
      assume "\<not> from_line (p ! 1) < to_line t"
      then have "writes_in t" "writes_in (p ! 1)" "from_line (p ! 1) = from_line t"
        using meet by (auto simp: meets_def)
      then have "\<forall>i < length p. writes_in (p ! i)"
        using writes_only_from_second [OF s l len] t0 by auto
      then show False using mixed by (simp add: list_all_length)
    qed
    then have "by_me (p ! 1)" "clash (p ! 1) t"
      using turn t by (auto simp: in_turn_def place_le_def clash_def writes_in_def)
    then show ?thesis using len nth_mem by blast
  qed
qed

lemma written_at_one_place:
  assumes s: "sorted_wrt in_turn p" and l: "linked p" and w: "list_all writes_in p"
    and t: "t \<in> set p" "\<not> by_me t" and m: "m \<in> set p" "by_me m"
  shows "p = [t, m] \<and> from_line t = from_line m"
proof -
  have len: "1 < length p"
  proof (rule ccontr)
    assume "\<not> 1 < length p"
    then obtain c where "p = [c]" using t by (cases p) auto
    then show False using t m by auto
  qed
  have wi: "writes_in (p ! i)" if "i < length p" for i using w that by (simp add: list_all_length)
  have w01: "writes_in (p ! 0)" "writes_in (p ! 1)" by (rule wi, use len in linarith)+
  have "meets [p ! 0] (p ! 1)" by (rule first_meets [OF l len])
  moreover have turn: "in_turn (p ! 0) (p ! 1)" using nth_turn [OF s, of 0 1] len by simp
  ultimately have "from_line (p ! 1) = from_line (p ! 0)"
    using w01 by (auto simp: meets_def in_turn_def place_le_def writes_in_def)
  then have at: "writes_in (p ! i) \<and> from_line (p ! i) = from_line (p ! 0)" if "i < length p" for i
    by (rule writes_only_from_second [OF s l len w01 _ that])
  then have same: "from_line (p ! i) = from_line (p ! 0)" "to_line (p ! i) = from_line (p ! 0)"
    if "i < length p" for i
    using at [OF that] by (simp_all add: writes_in_def)
  have other: "by_me (p ! i) \<noteq> by_me (p ! j)" if "i < j" "j < length p" for i j
    using nth_turn [OF s that] same [of i] same [of j] that by (auto simp: in_turn_def)
  have "length p = 2"
  proof (rule ccontr)
    assume "length p \<noteq> 2"
    then have "2 < length p" using len by simp
    then show False using other [of 0 1] other [of 1 2] other [of 0 2] by auto
  qed
  then obtain a b where p: "p = [a, b]" by (auto simp: length_Suc_conv numeral_2_eq_2)
  have "in_turn a b" "by_me a \<noteq> by_me b" "from_line b = from_line a"
    using turn other [of 0 1] same [of 1] by (simp_all add: p)
  moreover have "writes_in a" "writes_in b" using w by (simp_all add: p)
  ultimately have "\<not> by_me a" "by_me b" by (auto simp: in_turn_def place_le_def)
  then show ?thesis using t m \<open>from_line b = from_line a\<close> by (auto simp: p)
qed

lemma place_settled:
  assumes s: "sorted_wrt in_turn p" and l: "linked p"
  shows "settled_changes p = filter (stands_over p) p"
proof (cases "\<exists>t \<in> set p. \<not> by_me t")
  case False
  then have all: "\<forall>c \<in> set p. by_me c" by blast
  then have "filter (stands_over p) p = p" by (auto simp: stands_over_def intro: filter_True)
  moreover have "filter (\<lambda>c. \<not> by_me c) p = []" using all by simp
  ultimately show ?thesis by (simp add: settled_changes_def Let_def)
next
  case True
  then obtain t where t: "t \<in> set p" "\<not> by_me t" by blast
  then have th: "filter (\<lambda>c. \<not> by_me c) p \<noteq> []" by (auto simp: filter_empty_conv)
  show ?thesis
  proof (cases "\<exists>m \<in> set p. by_me m")
    case False
    then have "filter (stands_over p) p = p" by (auto simp: stands_over_def intro: filter_True)
    moreover have "filter by_me p = []" using False by simp
    ultimately show ?thesis by (simp add: settled_changes_def Let_def)
  next
    case True
    then obtain m where m: "m \<in> set p" "by_me m" by blast
    then have mi: "filter by_me p \<noteq> []" by (auto simp: filter_empty_conv)
    show ?thesis
    proof (cases "list_all writes_in p")
      case False
      have "stands_over p c = by_me c" if "c \<in> set p" for c
        using met_by_mine [OF s l False that _ m] by (auto simp: stands_over_def)
      then have "filter (stands_over p) p = filter by_me p" by (auto intro: filter_cong)
      then show ?thesis using False mi th by (simp add: settled_changes_def Let_def)
    next
      case True
      have p: "p = [t, m]" and f: "from_line t = from_line m"
        using written_at_one_place [OF s l True t m] by auto
      have w: "writes_in t" "writes_in m" using True by (simp_all add: p)
      then have "\<not> clash m t" using f by (simp add: clash_def writes_in_def)
      then show ?thesis using t m w f True
        by (auto simp: p settled_changes_def stands_over_def same_words_in_def Let_def)
    qed
  qed
qed

subsection \<open>The places laid over the base\<close>

lemma parted_apart:
  assumes "parted p q" "c \<in> set p" "d \<in> set q"
  shows "\<not> clash c d" "\<not> clash d c" "\<not> same_words_in c d" "\<not> same_words_in d c"
  using assms unfolding parted_def clash_def same_words_in_def by force+

lemma sorted_pair: "sorted_wrt r xs \<Longrightarrow> a \<in> set xs \<Longrightarrow> b \<in> set xs \<Longrightarrow> a = b \<or> r a b \<or> r b a"
  by (induction xs) auto

lemma places_settled:
  assumes ok: "cut_ok cs (places, b, e)" and s: "sorted_wrt in_turn cs"
  shows "concat (map settled_changes places) = filter (stands_over cs) cs"
proof -
  have cs: "cs = concat places" and sep: "sorted_wrt parted places" and l: "list_all linked places"
    using ok by (auto simp: cut_ok_def)
  have "settled_changes p = filter (stands_over cs) p" if p: "p \<in> set places" for p
  proof -
    have "sorted_wrt in_turn p" using s p unfolding cs
      by (induction places) (auto simp: sorted_wrt_append)
    moreover have "linked p" using l p by (simp add: list_all_iff)
    ultimately have "settled_changes p = filter (stands_over p) p" by (rule place_settled)
    moreover have "stands_over p c = stands_over cs c" if c: "c \<in> set p" for c
    proof -
      have "m \<in> set p" if m: "m \<in> set cs" "clash m c \<or> same_words_in m c" for m
      proof -
        obtain q where q: "q \<in> set places" "m \<in> set q" using m by (auto simp: cs)
        then have "p = q \<or> parted p q \<or> parted q p" using sorted_pair [OF sep p] by blast
        then show ?thesis using parted_apart c q m by blast
      qed
      then show ?thesis using p by (auto simp: stands_over_def cs)
    qed
    ultimately show ?thesis by (simp cong: filter_cong)
  qed
  then have "concat (map settled_changes places) = concat (map (filter (stands_over cs)) places)"
    by (simp cong: map_cong)
  then show ?thesis by (simp add: cs filter_concat)
qed

lemma set_settled: "set (settled_changes p) \<subseteq> set p"
  by (auto simp: settled_changes_def Let_def)

lemma fold_max_above: "(a :: nat) \<le> fold max xs a"
proof (induction xs arbitrary: a)
  case (Cons x xs)
  have "a \<le> max x a" by simp
  also have "\<dots> \<le> fold max xs (max x a)" by (rule Cons.IH)
  finally show ?case by simp
qed simp

lemma fold_max_below: "(a :: nat) \<le> b \<Longrightarrow> \<forall>x \<in> set xs. x \<le> b \<Longrightarrow> fold max xs a \<le> b"
  by (induction xs arbitrary: a) auto

lemma patched_append: "patched ls at (cs @ ds) = laid ls at cs @ patched ls (laid_to at cs) ds"
  by (induction cs arbitrary: at) auto

lemma laid_to_le: "at \<le> b \<Longrightarrow> \<forall>c \<in> set cs. to_line c \<le> b \<Longrightarrow> laid_to at cs \<le> b"
  by (auto simp: laid_to_def)

lemma places_laid:
  assumes "sorted_wrt parted places" "\<forall>p \<in> set places. \<forall>c \<in> set p. at \<le> from_line c"
  shows "(case fold (lay_place ls) places (merged, at) of (m, a) \<Rightarrow> m @ drop a ls) =
    merged @ patched ls at (concat (map settled_changes places))"
  using assms
proof (induction places arbitrary: merged at)
  case Nil
  then show ?case by simp
next
  case (Cons p ps)
  define e where "e = laid_to at (settled_changes p)"
  define edge where "edge = fold max (map to_line p) e"
  have step: "lay_place ls p (merged, at) =
      (merged @ laid ls at (settled_changes p) @ slice e edge ls, edge)"
    by (simp add: lay_place_def fold_lay e_def edge_def Let_def)
  have low: "edge \<le> from_line c" if c: "q \<in> set ps" "c \<in> set q" for q c
  proof -
    have "\<forall>d \<in> set p. to_line d \<le> from_line c" using Cons.prems c by (auto simp: parted_def)
    moreover have "at \<le> from_line c" using Cons.prems c by auto
    moreover have "e \<le> from_line c" unfolding e_def
      using calculation set_settled [of p] by (intro laid_to_le) auto
    ultimately show ?thesis unfolding edge_def by (intro fold_max_below) auto
  qed
  let ?rest = "concat (map settled_changes ps)"
  have lowr: "\<forall>c \<in> set ?rest. edge \<le> from_line c" using low set_settled by fastforce
  have "slice e edge ls @ patched ls edge ?rest = patched ls e ?rest"
    using lowr unfolding edge_def by (intro laid_skip) (auto intro: fold_max_above)
  moreover have "(case fold (lay_place ls) ps (merged @ laid ls at (settled_changes p) @ slice e edge ls, edge)
      of (m, a) \<Rightarrow> m @ drop a ls) =
      (merged @ laid ls at (settled_changes p) @ slice e edge ls) @ patched ls edge ?rest"
    using Cons.prems low by (intro Cons.IH) auto
  ultimately show ?case by (simp add: step patched_append e_def)
qed

text \<open>The merge, as one list of changes laid over the base.\<close>

definition merged_changes :: "line_diff \<Rightarrow> string \<Rightarrow> string \<Rightarrow> string \<Rightarrow> line_change list" where
  "merged_changes d base mine theirs =
     (let ls = split_lines base;
          ms = line_changes d ls mine True;
          ts = line_changes d ls theirs False
      in filter (stands_over ms) (sorted_by_place (ts @ ms)))"

lemma kept_over_merged:
  assumes d: "diff_ok d"
  shows "kept_over d base mine theirs =
    join_lines (patched (split_lines base) 0 (merged_changes d base mine theirs))"
proof -
  define ls where "ls = split_lines base"
  define ms where "ms = line_changes d ls mine True"
  define ts where "ts = line_changes d ls theirs False"
  define cs where "cs = sorted_by_place (ts @ ms)"
  have tm: "\<forall>c \<in> set ts. \<not> by_me c" "\<forall>c \<in> set ms. by_me c"
    using changes_writer [OF d] unfolding ts_def ms_def by blast+
  have ap: "apart (length ls) ts" "apart (length ls) ms"
    unfolding ts_def ms_def by (rule changes_apart [OF d])+
  have s: "sorted_wrt in_turn cs"
    unfolding cs_def using both_in_turn [OF ap(1) tm(1) ap(2) tm(2)] .
  then obtain b e places where f: "fold place_change cs ([], 0, - 1) = (places, b, e)"
    and ok: "cut_ok cs (places, b, e)" using cut_places by blast
  have "kept_over d base mine theirs =
      join_lines (case fold (lay_place ls) places ([], 0) of (m, a) \<Rightarrow> m @ drop a ls)"
    unfolding kept_over_def Let_def ls_def [symmetric] ms_def [symmetric] ts_def [symmetric]
      cs_def [symmetric] by (simp add: places_of_def f split_beta)
  also have "\<dots> = join_lines (patched ls 0 (filter (stands_over cs) cs))"
    using places_laid [of places 0 ls "[]"] places_settled [OF ok s] ok by (simp add: cut_ok_def)
  also have "filter (stands_over cs) cs = filter (stands_over ms) cs"
    using tm by (intro filter_cong) (auto simp: stands_over_def cs_def)
  finally show ?thesis
    by (simp add: merged_changes_def Let_def ls_def ms_def ts_def cs_def)
qed

subsection \<open>Changes already in order\<close>

lemma filter_put:
  "sorted_wrt place_le cs \<Longrightarrow>
   filter q (put_by_place c cs) = (if q c then put_by_place c (filter q cs) else filter q cs)"
proof (induction cs)
  case Nil
  then show ?case by simp
next
  case (Cons b bs)
  show ?case
  proof (cases "place_le c b")
    case True
    have "put_by_place c (filter q (b # bs)) = c # filter q (b # bs)"
    proof (cases "filter q (b # bs)")
      case (Cons e es)
      then have "e \<in> set (b # bs)" by (metis filter_is_subset list.set_intros(1) subsetD)
      then have "place_le c e" using True Cons.prems by (auto intro: place_le_trans)
      then show ?thesis using Cons by (simp add: by_place_le)
    qed simp
    then show ?thesis using True by (simp add: by_place_le)
  next
    case False
    then show ?thesis using Cons by (simp add: by_place_le)
  qed
qed

lemma filter_sorted_by_place: "filter q (sorted_by_place cs) = sorted_by_place (filter q cs)"
  by (induction cs)
    (auto simp: sorted_by_place_def filter_put sorted_by_place_sorted [unfolded sorted_by_place_def])

lemma sorted_by_place_id: "sorted_wrt place_le cs \<Longrightarrow> sorted_by_place cs = cs"
proof (induction cs)
  case (Cons c cs)
  then have "sorted_by_place (c # cs) = put_by_place c cs" by (simp add: sorted_by_place_def)
  then show ?case using Cons.prems by (cases cs) (auto simp: by_place_le)
qed (simp add: sorted_by_place_def)

lemma apart_in_order:
  assumes "apart n cs"
  shows "sorted_by_place cs = cs"
proof (rule sorted_by_place_id)
  have "sorted_wrt (\<lambda>a b. to_line a < from_line b) cs" using assms by (simp add: apart_def)
  then show "sorted_wrt place_le cs"
  proof (rule sorted_wrt_mono_rel [rotated])
    fix a b assume "a \<in> set cs" "b \<in> set cs" "to_line a < from_line b"
    moreover have "from_line a \<le> to_line a" using assms \<open>a \<in> set cs\<close> by (simp add: apart_def)
    ultimately show "place_le a b" by (simp add: place_le_def)
  qed
qed

lemma unchanged:
  assumes "diff_ok d"
  shows "line_changes d (split_lines t) t mine = []"
proof -
  have "fst (fold (take_part mine) ps ([], n)) = []"
    if "\<forall>p \<in> set ps. \<not> part_added p \<and> \<not> part_removed p" for ps n
    using that by (induction ps arbitrary: n) (auto simp: take_part_def)
  then show ?thesis using assms by (simp add: line_changes_def diff_ok_def)
qed

lemma other_writer:
  "line_changes d ls t False = map (by_me_update (\<lambda>_. False)) (line_changes d ls t True)"
proof -
  have "fst (fold (take_part False) ps (map (by_me_update (\<lambda>_. False)) cs, n)) =
      map (by_me_update (\<lambda>_. False)) (fst (fold (take_part True) ps (cs, n)))" for ps cs n
  proof (induction ps arbitrary: cs n)
    case (Cons p ps)
    have "take_part False p (map (by_me_update (\<lambda>_. False)) cs, n) =
        (map (by_me_update (\<lambda>_. False)) (fst (take_part True p (cs, n))), snd (take_part True p (cs, n)))"
      by (cases cs rule: rev_cases) (auto simp: take_part_def last_opt_def Let_def)
    then show ?case using Cons by (cases "take_part True p (cs, n)") simp
  qed simp
  from this [of "d ls (split_lines t)" "[]" 0] show ?thesis by (simp add: line_changes_def)
qed

subsection \<open>Properties\<close>

text \<open>A diff that compares line by line, for the witnesses.\<close>

fun side_diff :: line_diff where
  "side_diff [] ys = (if ys = [] then []
     else [\<lparr>value_of = ys, count_of = length ys, part_added = True, part_removed = False\<rparr>])"
| "side_diff (x # xs) [] =
     [\<lparr>value_of = x # xs, count_of = length (x # xs), part_added = False, part_removed = True\<rparr>]"
| "side_diff (x # xs) (y # ys) =
     (if x = y
      then [\<lparr>value_of = [x], count_of = 1, part_added = False, part_removed = False\<rparr>]
      else [\<lparr>value_of = [x], count_of = 1, part_added = False, part_removed = True\<rparr>,
            \<lparr>value_of = [y], count_of = 1, part_added = True, part_removed = False\<rparr>])
     @ side_diff xs ys"

lemma side_diff_ok: "diff_ok side_diff"
proof -
  have "parts_ok xs ys (side_diff xs ys)" for xs ys
    by (induction xs ys rule: side_diff.induct) (auto simp: parts_ok_def)
  moreover have "\<forall>p \<in> set (side_diff xs xs). \<not> part_added p \<and> \<not> part_removed p" for xs
    by (induction xs) auto
  ultimately show ?thesis by (simp add: diff_ok_def)
qed

text \<open>C27: Keep mine is the base with one list of changes laid over it, none over another: every
  change of the developer's, and each of the other writer's but those the developer changed the
  same lines as, or wrote the same lines in at the same place.\<close>

theorem keep_mine_is_the_merge:
  assumes "diff_ok d"
  shows "kept_over d base mine theirs =
      join_lines (patched (split_lines base) 0 (merged_changes d base mine theirs)) \<and>
    sorted_wrt (\<lambda>a b. to_line a \<le> from_line b) (merged_changes d base mine theirs) \<and>
    set (merged_changes d base mine theirs) = set (line_changes d (split_lines base) mine True) \<union>
      {t \<in> set (line_changes d (split_lines base) theirs False).
         \<forall>m \<in> set (line_changes d (split_lines base) mine True). \<not> clash m t \<and> \<not> same_words_in m t}"
proof -
  define ls where "ls = split_lines base"
  define ms where "ms = line_changes d ls mine True"
  define ts where "ts = line_changes d ls theirs False"
  have tm: "\<forall>c \<in> set ts. \<not> by_me c" "\<forall>c \<in> set ms. by_me c"
    using changes_writer [OF assms] unfolding ts_def ms_def by blast+
  have ap: "apart (length ls) ts" "apart (length ls) ms"
    unfolding ts_def ms_def by (rule changes_apart [OF assms])+
  define cs where "cs = filter (stands_over ms) (sorted_by_place (ts @ ms))"
  have m: "merged_changes d base mine theirs = cs"
    by (simp add: merged_changes_def Let_def ls_def ms_def ts_def cs_def)
  have mem: "set cs = set ms \<union> {t \<in> set ts. \<forall>m \<in> set ms. \<not> clash m t \<and> \<not> same_words_in m t}"
    using tm by (auto simp: cs_def stands_over_def)
  have "sorted_wrt in_turn cs"
    unfolding cs_def using both_in_turn [OF ap(1) tm(1) ap(2) tm(2)] by (rule sorted_wrt_filter)
  moreover have "to_line a \<le> from_line b" if "a \<in> set cs" "b \<in> set cs" "in_turn a b" for a b
  proof (rule ccontr)
    assume n: "\<not> to_line a \<le> from_line b"
    then have "by_me a \<noteq> by_me b" using that by (auto simp: in_turn_def)
    then have "\<not> clash a b \<or> \<not> clash b a" using that mem tm by auto
    then show False using n that by (auto simp: clash_def in_turn_def place_le_def writes_in_def)
  qed
  ultimately have "sorted_wrt (\<lambda>a b. to_line a \<le> from_line b) cs"
    by (rule sorted_wrt_mono_rel [rotated])
  then show ?thesis
    using kept_over_merged [OF assms, of base mine theirs] mem
    unfolding m ls_def [symmetric] ms_def [symmetric] ts_def [symmetric] by blast
qed

lemma keep_mine_is_the_merge_witness:
  "diff_ok side_diff \<and>
   kept_over side_diff (join_lines [''a'', ''b'', ''c'']) (join_lines [''A'', ''b'', ''c''])
     (join_lines [''B'', ''b'', ''C'']) = join_lines [''A'', ''b'', ''C'']"
proof -
  have "patched (split_lines (join_lines [''a'', ''b'', ''c''])) 0
      (merged_changes side_diff (join_lines [''a'', ''b'', ''c'']) (join_lines [''A'', ''b'', ''c''])
        (join_lines [''B'', ''b'', ''C''])) = [''A'', ''b'', ''C'']"
    by code_simp
  then show ?thesis
    using side_diff_ok conjunct1 [OF keep_mine_is_the_merge [OF side_diff_ok]] by simp
qed

text \<open>Where one writer changed nothing, Keep mine answers the other's text, and where both wrote
  the same text, that text.\<close>

theorem keep_mine_of_one_writer:
  assumes "diff_ok d"
  shows "kept_over d base mine base = mine \<and> kept_over d base base theirs = theirs \<and>
    kept_over d base mine mine = mine"
proof (intro conjI)
  have ap: "apart (length (split_lines base)) (line_changes d (split_lines base) t w)" for t w
    by (rule changes_apart [OF assms])
  have "stands_over ms c" if "by_me c" for ms c using that by (simp add: stands_over_def)
  then have all: "filter (stands_over ms) (line_changes d ls t True) = line_changes d ls t True"
    for ms ls t using changes_writer [OF assms, of _ ls t True] by (simp add: filter_id_conv)
  show "kept_over d base mine base = mine"
    unfolding kept_over_merged [OF assms]
    by (simp add: merged_changes_def Let_def unchanged [OF assms] apart_in_order [OF ap] all
        changes_made [OF assms])
  have "filter (stands_over []) cs = cs" for cs by (simp add: stands_over_def)
  then show "kept_over d base base theirs = theirs"
    unfolding kept_over_merged [OF assms]
    by (simp add: merged_changes_def Let_def unchanged [OF assms] apart_in_order [OF ap]
        changes_made [OF assms])
  let ?ls = "split_lines base"
  define ms where "ms = line_changes d ?ls mine True"
  define ts where "ts = line_changes d ?ls mine False"
  have met: "\<not> stands_over ms t" if t: "t \<in> set ts" for t
  proof -
    obtain m where m: "m \<in> set ms" "t = m\<lparr>by_me := False\<rparr>"
      using t unfolding ts_def ms_def other_writer by auto
    have "by_me m" using m changes_writer [OF assms] unfolding ms_def by blast
    moreover have "clash m t \<or> same_words_in m t"
      using ap [of mine True] m by (auto simp: apart_def clash_def same_words_in_def writes_in_def ms_def)
    ultimately show ?thesis using m \<open>t \<in> set ts\<close> changes_writer [OF assms, of t ?ls mine False]
      unfolding ts_def by (auto simp: stands_over_def)
  qed
  have "filter (stands_over ms) (sorted_by_place (ts @ ms)) = sorted_by_place ms"
    using met all unfolding filter_sorted_by_place by (simp add: ms_def)
  then show "kept_over d base mine mine = mine"
    unfolding kept_over_merged [OF assms] merged_changes_def Let_def ms_def ts_def
    by (simp add: apart_in_order [OF ap] changes_made [OF assms])
qed

lemma keep_mine_of_one_writer_witness:
  "kept_over side_diff ''a'' ''b'' ''a'' = ''b'' \<and> kept_over side_diff ''a'' ''a'' ''c'' = ''c''"
  using keep_mine_of_one_writer [OF side_diff_ok, of "''a''" "''b''"]
    keep_mine_of_one_writer [OF side_diff_ok, of "''a''" "''c''" "''c''"] by simp

end
