(* ===== verification/Description_Editor.thy ===== *)
theory Description_Editor
  imports Line_Merge_Properties
begin

text \<open>
  The open description's text in its editor: \<open>features/src/description-edit-model.ts\<close>, and the
  service's taking of an edit into the text, \<open>applyDocumentEdit\<close> of
  \<open>features/src/description-edit.ts\<close>.

  An editor is what was typed, the text the words are a change from, the save still out, and where
  it stands with the service; each operation is a function from the editor to the editor. The line
  diff of Keep mine is the argument of \<open>Line_Merge\<close>; the patch the service lays an edit over a text
  that moved with is the same library's (\<open>structuredPatch\<close>, \<open>applyPatch\<close>), here one argument, from
  the base, the text written from it and the text that stands to the text with the patch applied,
  or none where it does not apply.
\<close>

subsection \<open>What the window sends, and what the service answers\<close>

record comment_anchor =
  thread_of :: string
  anchor_from :: nat
  anchor_to :: nat

record comment_anchors =
  anchor_list :: "comment_anchor list"
  carried :: "string list"

datatype description_actor = Developer | Notetaker | Agent | Earlier

record member_ref =
  user_id :: string
  member_name :: string

record last_edit =
  edit_actor :: description_actor
  edit_by :: "member_ref option"
  edit_label :: "string option"
  edit_agent :: "string option"
  edit_at :: int
  edit_in_call :: bool

record edit_request =
  req_base :: string
  req_value :: string
  req_comments :: "comment_anchors option"

datatype edit_failure = Unanswered | Not_Found | Too_Long

text \<open>\<open>TasksEditAnswer\<close>; a conflict's text is \<open>None\<close> where what it answered is no text.\<close>

datatype edit_answer =
  Saved_Answer
| Conflict_Answer "string option" "last_edit option"
| Failure_Answer edit_failure

subsection \<open>The editor\<close>

datatype editor_state =
  Editing
| Conflict string "last_edit option"
| Failed string

record document_editor =
  ed_draft :: string
  ed_anchors :: "comment_anchors option"
  ed_base :: string
  ed_sending :: "edit_request option"
  ed_state :: editor_state
  ed_closing :: bool

definition failure_note :: "edit_failure \<Rightarrow> string" where
  "failure_note f = (case f of
     Unanswered \<Rightarrow> ''Not saved: the service did not answer.''
   | Not_Found \<Rightarrow> ''Not saved: this task no longer exists.''
   | Too_Long \<Rightarrow> ''Not saved: the description is too long.'')"

definition max_body_chars :: nat where
  "max_body_chars = 200000"

definition too_long :: "string \<Rightarrow> bool" where
  "too_long t \<longleftrightarrow> max_body_chars < length t"

definition current_or :: "string \<Rightarrow> string option \<Rightarrow> string" where
  "current_or base current = (case current of Some t \<Rightarrow> t | None \<Rightarrow> base)"

definition editor_opened :: "string \<Rightarrow> document_editor" where
  "editor_opened t = \<lparr>ed_draft = t, ed_anchors = None, ed_base = t, ed_sending = None,
     ed_state = Editing, ed_closing = False\<rparr>"

definition is_failed :: "editor_state \<Rightarrow> bool" where
  "is_failed s = (case s of Failed n \<Rightarrow> True | _ \<Rightarrow> False)"

definition editor_typed :: "document_editor \<Rightarrow> string \<Rightarrow> comment_anchors option \<Rightarrow> document_editor" where
  "editor_typed e words given =
     (let anchors = (case given of None \<Rightarrow> ed_anchors e | Some a \<Rightarrow> Some a);
          typed = (case anchors of None \<Rightarrow> e\<lparr>ed_draft := words\<rparr>
                   | Some a \<Rightarrow> e\<lparr>ed_draft := words, ed_anchors := Some a\<rparr>)
      in if too_long words then typed\<lparr>ed_state := Failed (failure_note Too_Long)\<rparr>
         else if is_failed (ed_state e) then typed\<lparr>ed_state := Editing\<rparr>
         else typed)"

definition pending_save :: "document_editor \<Rightarrow> edit_request option" where
  "pending_save e =
     (if ed_sending e \<noteq> None then None
      else if ed_state e \<noteq> Editing then None
      else if ed_draft e = ed_base e \<or> too_long (ed_draft e) then None
      else Some \<lparr>req_base = ed_base e, req_value = ed_draft e, req_comments = ed_anchors e\<rparr>)"

definition editor_sent :: "document_editor \<Rightarrow> edit_request \<Rightarrow> document_editor" where
  "editor_sent e r = e\<lparr>ed_sending := Some r\<rparr>"

definition editor_answered :: "document_editor \<Rightarrow> edit_answer \<Rightarrow> document_editor" where
  "editor_answered e answer =
     (let rest = e\<lparr>ed_sending := None\<rparr> in
      case answer of
        Saved_Answer \<Rightarrow>
          (let base = (case ed_sending e of None \<Rightarrow> ed_base e | Some r \<Rightarrow> req_value r)
           in editor_typed (rest\<lparr>ed_base := base, ed_state := Editing\<rparr>) (ed_draft rest) None)
      | Conflict_Answer current who \<Rightarrow>
          rest\<lparr>ed_state := Conflict (current_or (ed_base e) current) who\<rparr>
      | Failure_Answer f \<Rightarrow> rest\<lparr>ed_state := Failed (failure_note f)\<rparr>)"

definition editor_refused :: "document_editor \<Rightarrow> string \<Rightarrow> document_editor" where
  "editor_refused e note = e\<lparr>ed_sending := None, ed_state := Failed note\<rparr>"

definition editor_retried :: "document_editor \<Rightarrow> document_editor" where
  "editor_retried e = (if is_failed (ed_state e) then e\<lparr>ed_state := Editing\<rparr> else e)"

definition leaving_save :: "document_editor \<Rightarrow> edit_request option" where
  "leaving_save e = pending_save (editor_retried e)"

definition editor_left :: "document_editor \<Rightarrow> document_editor option" where
  "editor_left e = (if ed_draft e = ed_base e then None
     else Some (e\<lparr>ed_sending := None, ed_closing := False\<rparr>))"

definition editor_kept_mine :: "line_diff \<Rightarrow> document_editor \<Rightarrow> document_editor" where
  "editor_kept_mine d e = (case ed_state e of
     Conflict current who \<Rightarrow>
       (let base = current;
            words = kept_over d (ed_base e) (ed_draft e) base;
            kept = (if words = ed_draft e then e else e\<lparr>ed_anchors := None\<rparr>)
        in editor_typed (kept\<lparr>ed_base := base, ed_state := Editing\<rparr>) words None)
   | _ \<Rightarrow> e)"

definition editor_took_theirs :: "document_editor \<Rightarrow> document_editor" where
  "editor_took_theirs e = (case ed_state e of
     Conflict current who \<Rightarrow>
       e\<lparr>ed_base := current, ed_draft := current, ed_state := Editing, ed_closing := True\<rparr>
   | _ \<Rightarrow> e)"

definition editor_rebased :: "document_editor \<Rightarrow> string \<Rightarrow> string \<Rightarrow> document_editor" where
  "editor_rebased e base words = e\<lparr>ed_draft := words, ed_base := base\<rparr>"

definition editor_close_asked :: "document_editor \<Rightarrow> document_editor" where
  "editor_close_asked e = e\<lparr>ed_closing := True\<rparr>"

definition editor_closes :: "document_editor \<Rightarrow> bool" where
  "editor_closes e \<longleftrightarrow> ed_closing e \<and> ed_sending e = None \<and> ed_state e = Editing \<and>
     pending_save e = None"

subsection \<open>An edit taken into the text\<close>

type_synonym laid_patch = "string \<Rightarrow> string \<Rightarrow> string \<Rightarrow> string option"

datatype edit_outcome = Applied string | Conflicted string

definition patch_lines :: "string \<Rightarrow> string" where
  "patch_lines t = t @ [newline]"

definition rebased :: "laid_patch \<Rightarrow> string \<Rightarrow> string \<Rightarrow> string \<Rightarrow> string option" where
  "rebased patch base val current =
     (case patch (patch_lines base) (patch_lines val) (patch_lines current) of
        None \<Rightarrow> None
      | Some applied \<Rightarrow>
          Some (if last_opt applied = Some newline then butlast applied else applied))"

definition apply_document_edit :: "laid_patch \<Rightarrow> string \<Rightarrow> edit_request \<Rightarrow> edit_outcome" where
  "apply_document_edit patch current r =
     (if current = req_base r then Applied (req_value r)
      else case (if req_value r = [] then None
                 else rebased patch (req_base r) (req_value r) current) of
             None \<Rightarrow> Conflicted current
           | Some next \<Rightarrow> Applied next)"

subsection \<open>The editor's acts, and the texts the service was heard to hold\<close>

datatype editor_act =
  Type string "comment_anchors option"
| Send
| Answer edit_answer
| Refuse string
| Retry
| Keep_Mine
| Take_Theirs
| Rebase string string
| Ask_Close

definition act :: "line_diff \<Rightarrow> editor_act \<Rightarrow> document_editor \<Rightarrow> document_editor" where
  "act d a e = (case a of
     Type words anchors \<Rightarrow> editor_typed e words anchors
   | Send \<Rightarrow> (case pending_save e of None \<Rightarrow> e | Some r \<Rightarrow> editor_sent e r)
   | Answer answer \<Rightarrow> (if ed_sending e = None then e else editor_answered e answer)
   | Refuse note \<Rightarrow> (if ed_sending e = None then e else editor_refused e note)
   | Retry \<Rightarrow> editor_retried e
   | Keep_Mine \<Rightarrow> editor_kept_mine d e
   | Take_Theirs \<Rightarrow> editor_took_theirs e
   | Rebase base words \<Rightarrow> editor_rebased e base words
   | Ask_Close \<Rightarrow> editor_close_asked e)"

text \<open>What each act tells of the text the service holds: a save it took, the text a conflict it
  answered met, and the text of a merged answer.\<close>

definition heard_held :: "editor_act \<Rightarrow> document_editor \<Rightarrow> string set" where
  "heard_held a e = (case a of
     Answer Saved_Answer \<Rightarrow> (case ed_sending e of None \<Rightarrow> {} | Some r \<Rightarrow> {req_value r})
   | Answer (Conflict_Answer (Some t) who) \<Rightarrow> (if ed_sending e = None then {} else {t})
   | Rebase base words \<Rightarrow> {base}
   | _ \<Rightarrow> {})"

fun acts_from :: "line_diff \<Rightarrow> document_editor \<times> string set \<Rightarrow> editor_act list \<Rightarrow> document_editor \<times> string set" where
  "acts_from d s [] = s"
| "acts_from d (e, held) (a # as) = acts_from d (act d a e, held \<union> heard_held a e) as"

end
