(* ===== verification/Description_Editor_Properties.thy ===== *)
theory Description_Editor_Properties
  imports Description_Editor
begin

text \<open>
  What an editor promises of the words in it, over every sequence of its acts: it closes only on
  words the service holds, words typed while a save is out are saved after it from what it saved,
  and Keep mine's merge lands in the text the conflict met. The one way past the first is named
  too: Retry on words past the bound.
\<close>

lemmas editor_defs = editor_typed_def editor_sent_def editor_answered_def editor_refused_def
  editor_retried_def editor_kept_mine_def editor_took_theirs_def editor_rebased_def
  editor_close_asked_def

lemma is_failed_simps [simp]:
  "is_failed (Failed n)" "\<not> is_failed Editing" "\<not> is_failed (Conflict c w)"
  by (simp_all add: is_failed_def)

lemma typed_fields [simp]:
  "ed_draft (editor_typed e w a) = w" "ed_base (editor_typed e w a) = ed_base e"
  "ed_sending (editor_typed e w a) = ed_sending e" "ed_closing (editor_typed e w a) = ed_closing e"
  by (simp_all add: editor_typed_def Let_def split: option.splits)

lemma typed_state:
  "ed_state (editor_typed e w a) = (if too_long w then Failed (failure_note Too_Long)
     else if is_failed (ed_state e) then Editing else ed_state e)"
  by (simp add: editor_typed_def Let_def split: option.splits)

subsection \<open>The invariant of an editor and the texts heard\<close>

definition words_held :: "document_editor \<times> string set \<Rightarrow> bool" where
  "words_held = (\<lambda>(e, held). ed_base e \<in> held \<and>
     (\<forall>c w. ed_state e = Conflict c w \<longrightarrow> c \<in> held \<and> ed_sending e = None) \<and>
     (too_long (ed_draft e) \<longrightarrow> ed_state e \<noteq> Editing \<or> ed_draft e = ed_base e))"

text \<open>An act that does not put words past the bound back to editing.\<close>

definition within_bound :: "editor_act \<Rightarrow> document_editor \<Rightarrow> bool" where
  "within_bound a e = (case a of
     Retry \<Rightarrow> \<not> too_long (ed_draft e) \<or> ed_draft e = ed_base e
   | Rebase base words \<Rightarrow> \<not> too_long words \<or> words = base
   | _ \<Rightarrow> True)"

fun all_within_bound :: "line_diff \<Rightarrow> document_editor \<Rightarrow> editor_act list \<Rightarrow> bool" where
  "all_within_bound d e [] \<longleftrightarrow> True"
| "all_within_bound d e (a # as) \<longleftrightarrow> within_bound a e \<and> all_within_bound d (act d a e) as"

lemma words_held_opened: "words_held (editor_opened t, {t})"
  by (simp add: words_held_def editor_opened_def)

lemma words_held_mono: "words_held (e, held) \<Longrightarrow> held \<subseteq> wide \<Longrightarrow> words_held (e, wide)"
  by (auto simp: words_held_def)

lemma words_heldD:
  assumes "words_held (e, held)"
  shows "ed_base e \<in> held" "ed_state e = Conflict c who \<Longrightarrow> c \<in> held"
    "ed_state e = Conflict c who \<Longrightarrow> ed_sending e = None"
    "too_long (ed_draft e) \<Longrightarrow> ed_state e = Editing \<Longrightarrow> ed_draft e = ed_base e"
  using assms by (auto simp: words_held_def)

lemma words_held_typed:
  assumes "ed_base e \<in> held" "\<forall>c who. ed_state e = Conflict c who \<longrightarrow> c \<in> held \<and> ed_sending e = None"
  shows "words_held (editor_typed e w a, held)"
  using assms by (auto simp: words_held_def typed_state)

lemma words_held_answered:
  assumes "words_held (e, held)" "ed_sending e = Some r"
  shows "words_held (editor_answered e ans, held \<union> heard_held (Answer ans) e)"
proof (cases ans)
  case Saved_Answer
  then have "editor_answered e ans = editor_typed (e\<lparr>ed_sending := None, ed_base := req_value r,
      ed_state := Editing\<rparr>) (ed_draft e) None" using assms by (simp add: editor_answered_def)
  moreover have "words_held (editor_typed (e\<lparr>ed_sending := None, ed_base := req_value r,
      ed_state := Editing\<rparr>) (ed_draft e) None, h)" if "req_value r \<in> h" for h
    by (rule words_held_typed) (use that in auto)
  ultimately show ?thesis using Saved_Answer assms by (auto simp: heard_held_def)
next
  case (Conflict_Answer c who)
  then show ?thesis using assms
    by (cases c) (auto simp: editor_answered_def heard_held_def words_held_def current_or_def)
next
  case (Failure_Answer f)
  then show ?thesis using assms
    by (simp add: editor_answered_def heard_held_def words_held_def)
qed

lemma words_held_kept:
  assumes "words_held (e, held)"
  shows "words_held (editor_kept_mine d e, held)"
proof (cases "ed_state e")
  case (Conflict c who)
  have "words_held (editor_typed e' w a, held)" if "ed_base e' = c" "ed_state e' = Editing" for e' w a
    by (rule words_held_typed) (use that words_heldD(2) [OF assms Conflict] in auto)
  then show ?thesis using Conflict by (simp add: editor_kept_mine_def Let_def)
qed (use assms in \<open>simp_all add: editor_kept_mine_def\<close>)

lemma words_held_took: "words_held (e, held) \<Longrightarrow> words_held (editor_took_theirs e, held)"
  by (cases "ed_state e") (simp_all add: editor_took_theirs_def words_held_def)

lemma words_held_act:
  assumes h: "words_held (e, held)" and b: "within_bound a e"
  shows "words_held (act d a e, held \<union> heard_held a e)"
proof (cases a)
  case (Type w an)
  have "words_held (editor_typed e w an, held)"
    by (rule words_held_typed) (use words_heldD [OF h] in auto)
  then show ?thesis using Type by (simp add: act_def heard_held_def)
next
  case Send
  have "ed_state e = Editing" if "pending_save e = Some r" for r
    using that by (simp add: pending_save_def split: if_splits)
  then show ?thesis using Send h
    by (cases "pending_save e") (simp_all add: act_def heard_held_def editor_sent_def words_held_def)
next
  case (Answer ans)
  then show ?thesis using h words_held_answered
    by (cases "ed_sending e") (auto simp: act_def intro: words_held_mono [OF h])
next
  case (Refuse n)
  then show ?thesis using h
    by (auto simp: act_def heard_held_def editor_refused_def words_held_def)
next
  case Retry
  then show ?thesis using h b
    by (auto simp: act_def heard_held_def editor_retried_def words_held_def within_bound_def)
next
  case Keep_Mine
  then show ?thesis using h by (simp add: act_def heard_held_def words_held_kept)
next
  case Take_Theirs
  then show ?thesis using h by (simp add: act_def heard_held_def words_held_took)
next
  case (Rebase bs w)
  then show ?thesis using h b
    by (auto simp: act_def heard_held_def editor_rebased_def words_held_def within_bound_def)
next
  case Ask_Close
  then show ?thesis using h
    by (simp add: act_def heard_held_def editor_close_asked_def words_held_def)
qed

lemma words_held_acts:
  "words_held (e, held) \<Longrightarrow> all_within_bound d e as \<Longrightarrow> words_held (acts_from d (e, held) as)"
  by (induction as arbitrary: e held) (simp_all add: words_held_act)

lemma short_text: "length t \<le> 200000 \<Longrightarrow> \<not> too_long t"
  by (simp add: too_long_def max_body_chars_def)

lemmas editor_run = act_def heard_held_def editor_opened_def pending_save_def editor_defs short_text
  within_bound_def editor_closes_def

lemma closes_without_words: "editor_closes e \<Longrightarrow> ed_draft e = ed_base e \<or> too_long (ed_draft e)"
  by (simp add: editor_closes_def pending_save_def split: if_splits)

subsection \<open>Properties\<close>

text \<open>C28: an editor opened on a text, whatever was typed, sent, answered, refused, retried, kept,
  taken, rebased and asked to close since, closes only on words the service was heard to hold,
  where no Retry and no rebase put words past the bound back to editing.\<close>

theorem closes_on_held_words:
  assumes "acts_from d (editor_opened t, {t}) as = (e, held)"
    and "all_within_bound d (editor_opened t) as" and "editor_closes e"
  shows "ed_draft e = ed_base e \<and> ed_draft e \<in> held"
proof -
  have "words_held (e, held)"
    using words_held_acts [OF words_held_opened assms(2)] assms(1) by simp
  moreover have "ed_state e = Editing" using assms(3) by (simp add: editor_closes_def)
  ultimately show ?thesis using closes_without_words [OF assms(3)] by (auto simp: words_held_def)
qed

lemma closes_on_held_words_witness:
  "ed_draft (fst (acts_from side_diff (editor_opened ''a'', {''a''})
     [Type ''b'' None, Send, Ask_Close, Answer Saved_Answer])) \<in>
   snd (acts_from side_diff (editor_opened ''a'', {''a''})
     [Type ''b'' None, Send, Ask_Close, Answer Saved_Answer])"
proof -
  let ?as = "[Type ''b'' None, Send, Ask_Close, Answer Saved_Answer]"
  let ?r = "acts_from side_diff (editor_opened ''a'', {''a''}) ?as"
  have "all_within_bound side_diff (editor_opened ''a'') ?as" by (simp add: editor_run)
  moreover have "editor_closes (fst ?r)" by (simp add: editor_run)
  ultimately show ?thesis
    by (rule conjunct2 [OF closes_on_held_words [OF prod.collapse [symmetric]]])
qed

text \<open>Retry asked over words past the bound puts them back to editing with nothing to send, so
  the editor asked to close then closes on words the service does not hold; without the Retry it is
  held open.\<close>

theorem retry_closes_on_unsaved_words:
  assumes "too_long w" "w \<noteq> t"
  shows "(\<exists>e. acts_from d (editor_opened t, {t}) [Type w None, Retry, Ask_Close] = (e, {t}) \<and>
      editor_closes e \<and> ed_draft e = w \<and> ed_draft e \<notin> {t}) \<and>
    \<not> editor_closes (fst (acts_from d (editor_opened t, {t}) [Type w None, Ask_Close]))"
  using assms
  by (simp_all add: act_def heard_held_def editor_opened_def editor_typed_def editor_retried_def
      editor_close_asked_def editor_closes_def pending_save_def)

lemma retry_closes_on_unsaved_words_witness:
  "\<not> editor_closes (fst (acts_from side_diff (editor_opened ''a'', {''a''})
      [Type (replicate 200001 CHR ''m'') None, Ask_Close]))"
proof (rule conjunct2 [OF retry_closes_on_unsaved_words])
  show "too_long (replicate 200001 CHR ''m'')" by (simp add: too_long_def max_body_chars_def)
  show "replicate 200001 CHR ''m'' \<noteq> ''a''"
    by (rule notI, drule arg_cong [of _ _ length]) simp
qed

text \<open>One save is out at a time, and words typed while it is out are saved once it is answered
  saved, as a change from what it saved.\<close>

theorem words_typed_meanwhile_save_next:
  assumes "pending_save e = Some r" "w \<noteq> req_value r" "\<not> too_long w"
  shows "pending_save (editor_typed (editor_sent e r) w None) = None \<and>
    pending_save (editor_answered (editor_typed (editor_sent e r) w None) Saved_Answer) =
      Some \<lparr>req_base = req_value r, req_value = w, req_comments = ed_anchors e\<rparr>"
proof -
  have "ed_state e = Editing" using assms(1) by (simp add: pending_save_def split: if_splits)
  then show ?thesis using assms(2,3)
    by (simp add: pending_save_def editor_answered_def typed_state editor_sent_def)
      (simp add: editor_typed_def Let_def split: option.splits)
qed

lemma words_typed_meanwhile_save_next_witness:
  "pending_save (editor_answered (editor_typed (editor_sent
      (editor_typed (editor_opened ''a'') ''b'' None)
      \<lparr>req_base = ''a'', req_value = ''b'', req_comments = None\<rparr>) ''c'' None) Saved_Answer) =
   Some \<lparr>req_base = ''b'', req_value = ''c'', req_comments = None\<rparr>"
proof -
  let ?e = "editor_typed (editor_opened ''a'') ''b'' None"
  let ?r = "\<lparr>req_base = ''a'', req_value = ''b'', req_comments = None\<rparr> :: edit_request"
  have "pending_save ?e = Some ?r" "ed_anchors ?e = None" "\<not> too_long ''c''"
    by (simp_all add: editor_run)
  then show ?thesis using words_typed_meanwhile_save_next [of ?e ?r "''c''"] by simp
qed

text \<open>A conflict kept over saves in one round: the next save's base is the text the conflict
  met, so a service that still holds it takes the merged words whole, whatever its patch answers;
  and where nothing is left to save, the merge is the text it holds or past the bound.\<close>

theorem keep_mine_lands:
  assumes "ed_state e = Conflict current who" "ed_sending e = None"
  shows "case pending_save (editor_kept_mine d e) of
      Some r \<Rightarrow> apply_document_edit patch current r =
        Applied (kept_over d (ed_base e) (ed_draft e) current)
    | None \<Rightarrow> kept_over d (ed_base e) (ed_draft e) current = current \<or>
        too_long (kept_over d (ed_base e) (ed_draft e) current)"
proof -
  let ?k = "kept_over d (ed_base e) (ed_draft e) current"
  have "ed_base (editor_kept_mine d e) = current" "ed_draft (editor_kept_mine d e) = ?k"
    "ed_sending (editor_kept_mine d e) = None"
    "ed_state (editor_kept_mine d e) = (if too_long ?k then Failed (failure_note Too_Long) else Editing)"
    using assms by (simp_all add: editor_kept_mine_def Let_def typed_state)
  then show ?thesis by (auto simp: pending_save_def apply_document_edit_def)
qed

lemma keep_mine_lands_witness:
  "\<exists>e r. ed_state e = Conflict (join_lines [''a'', ''B'']) None \<and>
     pending_save (editor_kept_mine side_diff e) = Some r \<and>
     apply_document_edit (\<lambda>_ _ _. None) (join_lines [''a'', ''B'']) r =
       Applied (kept_over side_diff (ed_base e) (ed_draft e) (join_lines [''a'', ''B'']))"
proof -
  let ?c = "join_lines [''a'', ''B'']"
  let ?e = "(editor_opened (join_lines [''a'', ''b'']))\<lparr>ed_draft := join_lines [''A'', ''b''],
    ed_state := Conflict ?c None\<rparr>"
  have "kept_over side_diff (join_lines [''a'', ''b'']) (join_lines [''A'', ''b'']) ?c =
      join_lines [''A'', ''B'']" by code_simp
  then have "pending_save (editor_kept_mine side_diff ?e) =
      Some \<lparr>req_base = ?c, req_value = join_lines [''A'', ''B''], req_comments = None\<rparr>"
    by (simp add: editor_run)
  moreover have "ed_state ?e = Conflict ?c None" "ed_sending ?e = None"
    by (simp_all add: editor_opened_def)
  ultimately show ?thesis
    using keep_mine_lands [of ?e ?c None side_diff "\<lambda>_ _ _. None"]
    by (intro exI [of _ ?e]) (simp del: join_lines.simps)
qed

end
