(* ===== verification/Description_Editing.thy ===== *)
theory Description_Editing
  imports Description_Editor_Properties
begin

text \<open>
  The open task's one editor in its window: \<open>panel/src/tasks/use-description-editing.ts\<close>.

  The state is the hook's: the editor as last drawn, the updates asked of it since (\<open>setEditor\<close> is
  applied as the next draw is made), the refs read between draws (\<open>latest\<close>, \<open>opening\<close>, \<open>flight\<close>,
  \<open>stamp\<close>), the stores the window keeps of words not saved, the saves out, and whose account is
  signed in. A step is one thing that happens: a key or a press, the pause running out, a save
  answered, the account changing, or a draw, which applies the updates asked, runs the cleanup of
  a task left and then the effects in the order the hook declares them. A task's saves are one
  mutation scope, so they are answered in the order they were asked. The pause's store is read
  synchronously, so its running out draws at once. Where the caret goes, which block holds the
  keyboard and the count of saves shown are left out, and so is how a toast is drawn.
\<close>

record account =
  account_id :: "string option"
  account_email :: string

definition same_account :: "account option \<Rightarrow> account option \<Rightarrow> bool" where
  "same_account a b = (case (a, b) of
     (Some x, Some y) \<Rightarrow>
       (if account_id x \<noteq> None \<and> account_id y \<noteq> None then account_id x = account_id y
        else account_email x = account_email y)
   | _ \<Rightarrow> a = None \<and> b = None)"

text \<open>What a save came to: the service's answer, or the act refused with its words.\<close>

datatype outcome = Came edit_answer | Threw string

definition hear :: "outcome \<Rightarrow> document_editor \<Rightarrow> document_editor" where
  "hear out e = (case out of Came a \<Rightarrow> editor_answered e a | Threw n \<Rightarrow> editor_refused e n)"

text \<open>\<open>setEditor\<close> with an editor, with a save's answer for the opening it was sent from, and with
  Take theirs.\<close>

datatype editor_update = Put "document_editor option" | Land nat outcome | Took

record left_task =
  left_id :: string
  left_owner :: "account option"

datatype save_kind = From_Editor nat | From_Left left_task document_editor nat

record save_out =
  save_id :: nat
  save_task :: string
  save_request :: edit_request
  save_kind :: save_kind

text \<open>The words of a task left while a save was out, which go once it is answered.\<close>

record waiter =
  wait_flight :: nat
  wait_left :: left_task
  wait_held :: document_editor
  wait_mark :: nat

record editing =
  drawn_editor :: "document_editor option"
  queued :: "editor_update list"
  latest :: "document_editor option"
  opened_as :: nat
  flight :: "nat option"
  answered_saves :: "(nat \<times> outcome) list"
  stamp :: nat
  pausing :: "nat option"
  paused_on :: "nat option"
  wrote_as :: "account option"
  task_id :: "string option"
  task_text :: "string option"
  owner :: "account option"
  handing :: "(string \<times> comment_anchors option) option"
  left_unsaved :: "(string, document_editor) js_map"
  left_toasts :: "left_task list"
  open_unsaved :: "string list"
  saving_left :: "nat list"
  signed_in :: "account option"
  outs :: "save_out list"
  waiters :: "waiter list"
  next_id :: nat

definition new_editing :: "account option \<Rightarrow> editing" where
  "new_editing who = \<lparr>drawn_editor = None, queued = [], latest = None, opened_as = 0, flight = None,
     answered_saves = [], stamp = 0, pausing = None, paused_on = None, wrote_as = who,
     task_id = None, task_text = None, owner = who, handing = None, left_unsaved = [],
     left_toasts = [], open_unsaved = [], saving_left = [], signed_in = who, outs = [],
     waiters = [], next_id = 0\<rparr>"

definition mark :: "'k \<Rightarrow> bool \<Rightarrow> 'k list \<Rightarrow> 'k list" where
  "mark key unsaved marks =
     (let others = filter (\<lambda>k. k \<noteq> key) marks in if unsaved then others @ [key] else others)"

definition words_unsaved :: "editing \<Rightarrow> bool" where
  "words_unsaved s \<longleftrightarrow> open_unsaved s \<noteq> [] \<or> saving_left s \<noteq> [] \<or> left_unsaved s \<noteq> []"

subsection \<open>Words a task was left with\<close>

definition take_left :: "string \<Rightarrow> editing \<Rightarrow> document_editor option \<times> editing" where
  "take_left t s = (case map_of (left_unsaved s) t of
     None \<Rightarrow> (None, s)
   | Some e \<Rightarrow> (Some e, s\<lparr>left_unsaved := AList.delete t (left_unsaved s)\<rparr>))"

definition keep_left :: "left_task \<Rightarrow> document_editor \<Rightarrow> nat \<Rightarrow> editing \<Rightarrow> editing" where
  "keep_left l now saving s =
     (if \<not> same_account (signed_in s) (left_owner l)
      then s\<lparr>saving_left := mark saving False (saving_left s)\<rparr>
      else let kept = editor_left now;
               s1 = s\<lparr>left_unsaved := (case kept of
                        None \<Rightarrow> AList.delete (left_id l) (left_unsaved s)
                      | Some e \<Rightarrow> AList.update (left_id l) e (left_unsaved s)),
                      saving_left := mark saving False (saving_left s)\<rparr>
           in if kept = None then s1 else s1\<lparr>left_toasts := left_toasts s1 @ [l]\<rparr>)"

definition save_left :: "left_task \<Rightarrow> document_editor \<Rightarrow> nat \<Rightarrow> editing \<Rightarrow> editing" where
  "save_left l now saving s =
     (if \<not> same_account (signed_in s) (left_owner l)
      then s\<lparr>saving_left := mark saving False (saving_left s)\<rparr>
      else let s1 = s\<lparr>saving_left := mark saving True (saving_left s)\<rparr> in
           case leaving_save now of
             None \<Rightarrow> keep_left l now saving s1
           | Some r \<Rightarrow> s1\<lparr>outs := outs s1 @ [\<lparr>save_id = next_id s1, save_task = left_id l,
               save_request = r, save_kind = From_Left l (editor_sent now r) saving\<rparr>],
               next_id := Suc (next_id s1)\<rparr>)"

definition save_left_anew :: "left_task \<Rightarrow> document_editor \<Rightarrow> editing \<Rightarrow> editing" where
  "save_left_anew l now s = save_left l now (next_id s) (s\<lparr>next_id := Suc (next_id s)\<rparr>)"

definition press_toast :: "line_diff \<Rightarrow> left_task \<Rightarrow> editing \<Rightarrow> editing" where
  "press_toast d l s =
     (if l \<notin> set (left_toasts s) then s
      else case take_left (left_id l) s of
             (None, s1) \<Rightarrow> s1
           | (Some e, s1) \<Rightarrow> save_left_anew l (editor_kept_mine d e) s1)"

definition withdraw_toast :: "string \<Rightarrow> editing \<Rightarrow> editing" where
  "withdraw_toast t s = s\<lparr>left_toasts := filter (\<lambda>l. left_id l \<noteq> t) (left_toasts s)\<rparr>"

definition words_owner :: "account option \<Rightarrow> editing \<Rightarrow> editing" where
  "words_owner held s =
     (if same_account held (owner s) then s
      else (fold withdraw_toast (map fst (left_unsaved s)) s)\<lparr>left_unsaved := []\<rparr>)"

subsection \<open>The open editor\<close>

definition put_latest :: "document_editor \<Rightarrow> editing \<Rightarrow> editing" where
  "put_latest e s = s\<lparr>latest := Some e, queued := queued s @ [Put (Some e)]\<rparr>"

definition send :: "editing \<Rightarrow> editing" where
  "send s = (case latest s of
     None \<Rightarrow> s
   | Some held \<Rightarrow>
       if \<not> same_account (signed_in s) (wrote_as s) then s
       else (case pending_save held of
              None \<Rightarrow> s
            | Some r \<Rightarrow> (put_latest (editor_sent held r) s)
                \<lparr>flight := Some (next_id s), next_id := Suc (next_id s),
                 outs := outs s @ [\<lparr>save_id = next_id s,
                   save_task = (case task_id s of Some t \<Rightarrow> t | None \<Rightarrow> []),
                   save_request = r, save_kind = From_Editor (opened_as s)\<rparr>]\<rparr>))"

definition changed :: "(document_editor \<Rightarrow> document_editor) \<Rightarrow> editing \<Rightarrow> editing" where
  "changed next s = (case latest s of
     None \<Rightarrow> s
   | Some e \<Rightarrow> (put_latest (next e) s)
       \<lparr>stamp := Suc (stamp s), pausing := Some (Suc (stamp s))\<rparr>)"

definition open_editor :: "editing \<Rightarrow> editing" where
  "open_editor s = (case task_text s of
     None \<Rightarrow> s
   | Some t \<Rightarrow>
       if (case drawn_editor s of None \<Rightarrow> False | Some e \<Rightarrow> \<not> editor_closes (editor_close_asked e))
       then s
       else s\<lparr>opened_as := Suc (opened_as s), wrote_as := signed_in s,
              queued := queued s @ [Put (Some (editor_opened t))]\<rparr>)"

definition type_text :: "string \<Rightarrow> comment_anchors option \<Rightarrow> editing \<Rightarrow> editing" where
  "type_text words anchors s =
     changed (\<lambda>now. editor_typed now words anchors) (s\<lparr>handing := None\<rparr>)"

definition hand_over :: "editing \<Rightarrow> editing" where
  "hand_over s = (case handing s of None \<Rightarrow> s | Some (words, anchors) \<Rightarrow> type_text words anchors s)"

definition close_editor :: "editing \<Rightarrow> editing" where
  "close_editor s = (case latest s of
     None \<Rightarrow> s | Some e \<Rightarrow> send (put_latest (editor_close_asked e) s))"

definition rebase_editor :: "string \<Rightarrow> string \<Rightarrow> editing \<Rightarrow> editing" where
  "rebase_editor base words s = (case latest s of
     None \<Rightarrow> s | Some e \<Rightarrow> put_latest (editor_rebased e base words) s)"

definition retry_save :: "editing \<Rightarrow> editing" where
  "retry_save s = (case latest s of
     None \<Rightarrow> s | Some e \<Rightarrow> send (s\<lparr>latest := Some (editor_retried e)\<rparr>))"

subsection \<open>A save answered\<close>

definition wake_waiter :: "nat \<Rightarrow> outcome \<Rightarrow> waiter \<Rightarrow> editing \<Rightarrow> editing" where
  "wake_waiter i out w s =
     (if wait_flight w = i
      then save_left (wait_left w) (hear out (wait_held w)) (wait_mark w)
             (s\<lparr>waiters := remove1 w (waiters s)\<rparr>)
      else s)"

definition answer_save :: "nat \<Rightarrow> outcome \<Rightarrow> editing \<Rightarrow> editing" where
  "answer_save i out s = (case List.find (\<lambda>o1. save_id o1 = i) (outs s) of
     None \<Rightarrow> s
   | Some o1 \<Rightarrow>
       (let s1 = s\<lparr>outs := remove1 o1 (outs s)\<rparr> in
        case save_kind o1 of
          From_Editor n \<Rightarrow>
            fold (wake_waiter i out) (waiters s1)
              (s1\<lparr>queued := queued s1 @ [Land n out],
                  answered_saves := answered_saves s1 @ [(i, out)]\<rparr>)
        | From_Left l sent saving \<Rightarrow> keep_left l (hear out sent) saving s1))"

text \<open>A task's writes run one at a time, in the order asked.\<close>

definition next_of_task :: "nat \<Rightarrow> editing \<Rightarrow> bool" where
  "next_of_task i s \<longleftrightarrow> (case List.find (\<lambda>o1. save_id o1 = i) (outs s) of
     None \<Rightarrow> False
   | Some o1 \<Rightarrow> List.find (\<lambda>o2. save_task o2 = save_task o1) (outs s) = Some o1)"

subsection \<open>A draw\<close>

definition apply_update :: "nat \<Rightarrow> editor_update \<Rightarrow> document_editor option \<Rightarrow> document_editor option" where
  "apply_update current u now = (case u of
     Put e \<Rightarrow> e
   | Land n out \<Rightarrow> (if current = n then map_option (hear out) now else now)
   | Took \<Rightarrow> map_option editor_took_theirs now)"

definition flushed_editor :: "editing \<Rightarrow> document_editor option" where
  "flushed_editor s = fold (apply_update (opened_as s)) (queued s) (drawn_editor s)"

text \<open>The cleanup as another task opens, or the document goes.\<close>

definition leave_task :: "string \<Rightarrow> editing \<Rightarrow> editing" where
  "leave_task t s0 =
     (let s = hand_over s0 in
      case latest s of
        None \<Rightarrow> s
      | Some held \<Rightarrow>
          (let l = \<lparr>left_id = t, left_owner = wrote_as s\<rparr> in
           if ed_sending held = None then save_left_anew l held s
           else let saving = next_id s;
                    s1 = s\<lparr>next_id := Suc saving, saving_left := mark saving True (saving_left s)\<rparr>
                in case flight s of
                     None \<Rightarrow> s1
                   | Some i \<Rightarrow>
                       (case map_of (answered_saves s1) i of
                          Some out \<Rightarrow> save_left l (hear out held) saving s1
                        | None \<Rightarrow> s1\<lparr>waiters := waiters s1 @ [\<lparr>wait_flight = i, wait_left = l,
                            wait_held = held, wait_mark = saving\<rparr>]\<rparr>)))"

definition mark_open :: "string option \<Rightarrow> string \<Rightarrow> editing \<Rightarrow> editing" where
  "mark_open earlier t s =
     (let unsaved = (case drawn_editor s of None \<Rightarrow> False
          | Some e \<Rightarrow> handing s \<noteq> None \<or> ed_draft e \<noteq> ed_base e);
          rest = (case earlier of None \<Rightarrow> open_unsaved s | Some b \<Rightarrow> mark b False (open_unsaved s))
      in s\<lparr>open_unsaved := mark t unsaved rest\<rparr>)"

definition follow_account :: "account option \<Rightarrow> editing \<Rightarrow> editing" where
  "follow_account earlier s =
     (if owner s = earlier then s
      else if same_account (wrote_as s) (owner s) then s\<lparr>wrote_as := owner s\<rparr>
      else if latest s = None then s
      else s\<lparr>opened_as := Suc (opened_as s), latest := None, queued := queued s @ [Put None],
             handing := None\<rparr>)"

definition save_paused :: "editing \<Rightarrow> editing" where
  "save_paused s = (if paused_on s = Some (stamp s) then send s else s)"

definition close_or_save :: "editing \<Rightarrow> editing" where
  "close_or_save s = (case drawn_editor s of
     None \<Rightarrow> s
   | Some e \<Rightarrow>
       if \<not> ed_closing e then s
       else if editor_closes e then s\<lparr>queued := queued s @ [Put None]\<rparr>
       else send s)"

definition take_up_task :: "string \<Rightarrow> editing \<Rightarrow> editing" where
  "take_up_task t s0 =
     (let s1 = s0\<lparr>opened_as := Suc (opened_as s0)\<rparr>;
          (kept, s2) = (case task_text s1 of None \<Rightarrow> (None, s1) | Some x \<Rightarrow> take_left t s1);
          s3 = (if kept = None then s2 else withdraw_toast t s2)
      in s3\<lparr>wrote_as := signed_in s3, latest := kept, queued := queued s3 @ [Put kept]\<rparr>)"

definition draw :: "string \<Rightarrow> string option \<Rightarrow> editing \<Rightarrow> editing" where
  "draw t words s =
     (let earlier = task_id s;
          owner_before = owner s;
          now = flushed_editor s;
          s1 = words_owner owner_before (s\<lparr>drawn_editor := now, queued := [], latest := now,
                 task_id := Some t, task_text := words, owner := signed_in s\<rparr>);
          turned = (earlier \<noteq> Some t);
          s2 = (case earlier of None \<Rightarrow> s1 | Some b \<Rightarrow> if turned then leave_task b s1 else s1);
          s3 = close_or_save (save_paused (follow_account owner_before (mark_open earlier t s2)))
      in if turned then take_up_task t s3 else s3)"

text \<open>The document gone: the cleanup, and the next to stand in its place starts anew.\<close>

definition unmount :: "editing \<Rightarrow> editing" where
  "unmount s = (case task_id s of
     None \<Rightarrow> s
   | Some t \<Rightarrow> (leave_task t s)\<lparr>drawn_editor := None, queued := [], latest := None,
       opened_as := Suc (opened_as s), flight := None, stamp := 0, pausing := None, paused_on := None,
       task_id := None, task_text := None, handing := None,
       open_unsaved := mark t False (open_unsaved s)\<rparr>)"

subsection \<open>Steps\<close>

datatype editing_label =
  Open_Editor
| Hold_Words string "comment_anchors option"
| Hand_Over
| Close_Editor
| Press_Keep_Mine
| Press_Take_Theirs
| Press_Retry
| Take_In string string
| Pause_Out
| Answer_Save nat outcome
| Sign_In "account option"
| Press_Toast left_task
| Draw string "string option"
| Gone

definition after :: "line_diff \<Rightarrow> editing_label \<Rightarrow> editing \<Rightarrow> editing" where
  "after d l s = (case l of
     Open_Editor \<Rightarrow> open_editor s
   | Hold_Words w a \<Rightarrow> (if latest s = None then s else s\<lparr>handing := Some (w, a)\<rparr>)
   | Hand_Over \<Rightarrow> hand_over s
   | Close_Editor \<Rightarrow> close_editor (hand_over s)
   | Press_Keep_Mine \<Rightarrow> changed (editor_kept_mine d) s
   | Press_Take_Theirs \<Rightarrow> s\<lparr>queued := queued s @ [Took]\<rparr>
   | Press_Retry \<Rightarrow> retry_save s
   | Take_In b w \<Rightarrow> rebase_editor b w s
   | Pause_Out \<Rightarrow> (case (pausing s, task_id s) of
       (Some n, Some t) \<Rightarrow> draw t (task_text s) (s\<lparr>paused_on := Some n, pausing := None\<rparr>)
     | _ \<Rightarrow> s)
   | Answer_Save i out \<Rightarrow> (if next_of_task i s then answer_save i out s else s)
   | Sign_In a \<Rightarrow> s\<lparr>signed_in := a\<rparr>
   | Press_Toast lt \<Rightarrow> press_toast d lt s
   | Draw t words \<Rightarrow> draw t words s
   | Gone \<Rightarrow> unmount s)"

definition run :: "line_diff \<Rightarrow> editing_label list \<Rightarrow> editing \<Rightarrow> editing" where
  "run d ls s = fold (after d) ls s"

end
