(* ===== verification/Editing_Runs.thy ===== *)
theory Editing_Runs
  imports Description_Editing
begin

text \<open>
  Runs of the window of \<open>Description_Editing\<close> on concrete texts, which the witnesses and the orders of
  events that go wrong are stated of: an editor opened, words typed, a task left and turned to.
\<close>

lemma too_long_code [code]: "too_long t \<longleftrightarrow> 200000 < int (length t)"
  by (simp add: too_long_def max_body_chars_def)

subsection \<open>The runs\<close>

definition ann :: "account option" where
  "ann = Some \<lparr>account_id = Some ''u'', account_email = ''e''\<rparr>"

definition opened_on :: "string \<Rightarrow> string \<Rightarrow> editing_label list" where
  "opened_on t a = [Draw t (Some a), Draw t (Some a), Open_Editor, Draw t (Some a)]"

definition typed_in :: "string \<Rightarrow> editing_label list" where
  "typed_in w = [Hold_Words w None, Hand_Over]"

definition turned_to :: "string \<Rightarrow> string \<Rightarrow> editing_label list" where
  "turned_to t a = [Draw t (Some a), Draw t (Some a)]"

definition left_with_words :: "editing_label list" where
  "left_with_words = opened_on ''t'' ''a'' @ typed_in ''b''"

definition left_twice :: "editing_label list" where
  "left_twice = left_with_words @ turned_to ''v'' ''a'' @ opened_on ''t'' ''a'' @ typed_in ''c''
     @ turned_to ''v'' ''a''"

definition save_sent :: "editing_label list" where
  "save_sent = opened_on ''t'' ''a'' @ typed_in ''b'' @ [Pause_Out, Draw ''t'' (Some ''a'')]"

definition typed_over_answer :: "editing_label list" where
  "typed_over_answer = save_sent @ [Answer_Save 0 (Came Saved_Answer)] @ typed_in ''c''
     @ [Draw ''t'' (Some ''a'')]"

definition answered_with_turn :: "editing_label list" where
  "answered_with_turn = save_sent @ [Close_Editor, Draw ''t'' (Some ''a'')] @ typed_in ''c''
     @ [Draw ''t'' (Some ''a''), Answer_Save 0 (Came Saved_Answer), Draw ''v'' (Some ''x'')]"

definition ran :: "editing_label list \<Rightarrow> editing" where
  "ran ls = run side_diff ls (new_editing ann)"

end
