(* ===== verification/Editing_Saves.thy ===== *)
theory Editing_Saves
  imports Editing_Runs
begin

text \<open>
  What the window's one editor promises of its saves over every run of \<open>Description_Editing\<close>: one
  save of an opening is out at a time (\<open>one_save_out\<close>), and words a task was left with are marked
  unsaved for as long as they are carried (\<open>left_words_are_marked\<close>).
\<close>

subsection \<open>One save out of an opening\<close>

definition of_opening :: "nat \<Rightarrow> save_out \<Rightarrow> bool" where
  "of_opening n x \<longleftrightarrow> save_kind x = From_Editor n"

definition open_outs :: "editing \<Rightarrow> save_out list" where
  "open_outs s = filter (of_opening (opened_as s)) (outs s)"

definition is_sending :: "document_editor option \<Rightarrow> bool" where
  "is_sending x \<longleftrightarrow> (\<exists>e. x = Some e \<and> ed_sending e \<noteq> None)"

definition outs_ok :: "editing \<Rightarrow> bool" where
  "outs_ok s \<longleftrightarrow> (\<forall>x \<in> set (outs s). \<forall>n. of_opening n x \<longrightarrow> n \<le> opened_as s)"

definition one_out :: "editing \<Rightarrow> bool" where
  "one_out s \<longleftrightarrow> outs_ok s \<and> length (open_outs s) \<le> 1 \<and>
     (open_outs s \<noteq> [] \<longrightarrow> is_sending (latest s) \<and> is_sending (flushed_editor s))"

lemma is_sending_simps [simp]:
  "\<not> is_sending None" "is_sending (Some e) \<longleftrightarrow> ed_sending e \<noteq> None"
  by (simp_all add: is_sending_def)

lemma outs_ok_later:
  assumes "outs_ok s" "outs s' = outs s" "opened_as s' = Suc (opened_as s)"
  shows "outs_ok s' \<and> open_outs s' = []"
proof -
  have "n \<le> opened_as s" if "x \<in> set (outs s)" "of_opening n x" for x n
    using assms(1) that by (auto simp: outs_ok_def)
  then have "\<not> of_opening (Suc (opened_as s)) x" if "x \<in> set (outs s)" for x
    using that Suc_n_not_le_n by blast
  then show ?thesis using assms by (auto simp: outs_ok_def open_outs_def filter_empty_conv le_Suc_eq)
qed

lemma one_out_later: "one_out s \<Longrightarrow> outs s' = outs s \<Longrightarrow> opened_as s' = Suc (opened_as s) \<Longrightarrow> one_out s'"
  using outs_ok_later [of s s'] by (simp add: one_out_def)

text \<open>What \<open>one_out\<close> reads of a state.\<close>

definition core_of :: "editing \<Rightarrow> save_out list \<times> nat \<times> document_editor option \<times> editor_update list \<times>
    document_editor option" where
  "core_of s = (filter (\<lambda>x. \<exists>n. of_opening n x) (outs s), opened_as s, latest s, queued s, drawn_editor s)"

lemma core_of_outs:
  assumes "core_of s' = core_of s"
  shows "open_outs s' = open_outs s" "outs_ok s' = outs_ok s"
proof -
  have f: "filter (\<lambda>x. \<exists>n. of_opening n x) (outs s') = filter (\<lambda>x. \<exists>n. of_opening n x) (outs s)"
    and o: "opened_as s' = opened_as s" using assms by (simp_all add: core_of_def)
  have "open_outs u = filter (of_opening (opened_as u)) (filter (\<lambda>x. \<exists>n. of_opening n x) (outs u))" for u
    unfolding open_outs_def filter_filter by (rule filter_cong) auto
  then show "open_outs s' = open_outs s" by (simp only: f o)
  have "outs_ok u \<longleftrightarrow> (\<forall>x \<in> set (filter (\<lambda>x. \<exists>n. of_opening n x) (outs u)). \<forall>n. of_opening n x \<longrightarrow>
      n \<le> opened_as u)" for u by (auto simp: outs_ok_def)
  then show "outs_ok s' = outs_ok s" by (simp only: f o)
qed

lemma one_out_core: "core_of s' = core_of s \<Longrightarrow> one_out s' = one_out s"
  using core_of_outs [of s' s] by (simp add: one_out_def flushed_editor_def core_of_def)

lemma one_out_upd [simp]:
  "one_out (s\<lparr>stamp := a\<rparr>) = one_out s" "one_out (s\<lparr>pausing := p\<rparr>) = one_out s"
  "one_out (s\<lparr>paused_on := q\<rparr>) = one_out s" "one_out (s\<lparr>wrote_as := w\<rparr>) = one_out s"
  "one_out (s\<lparr>handing := h\<rparr>) = one_out s" "one_out (s\<lparr>signed_in := w\<rparr>) = one_out s"
  by (simp_all add: one_out_def outs_ok_def open_outs_def flushed_editor_def)

lemma core_keep_left [simp]: "core_of (keep_left l now m s) = core_of s"
  by (simp add: keep_left_def core_of_def Let_def)

lemma core_save_left [simp]: "core_of (save_left l now m s) = core_of s"
proof (cases "leaving_save now")
  case None
  then show ?thesis using core_keep_left [of l now m "s\<lparr>saving_left := mark m True (saving_left s)\<rparr>"]
    by (simp add: save_left_def Let_def) (simp add: core_of_def)
next
  case (Some r)
  then show ?thesis by (simp add: save_left_def Let_def core_of_def of_opening_def)
qed

lemma core_anew [simp]: "core_of (save_left_anew l now s) = core_of s"
  by (simp add: save_left_anew_def) (simp add: core_of_def)

lemma core_take_left: "core_of (snd (take_left t s)) = core_of s"
  by (simp add: take_left_def core_of_def split: option.splits)

lemma core_press [simp]: "core_of (press_toast d l s) = core_of s"
proof -
  have "core_of (snd (take_left (left_id l) s)) = core_of s" by (rule core_take_left)
  then show ?thesis
    by (cases "take_left (left_id l) s") (simp add: press_toast_def split: option.splits)
qed

lemma core_wake [simp]: "core_of (wake_waiter i out w s) = core_of s"
proof -
  have "core_of (s\<lparr>waiters := ws\<rparr>) = core_of s" for ws by (simp add: core_of_def)
  then show ?thesis by (simp add: wake_waiter_def)
qed

lemma core_wakes [simp]: "core_of (fold (wake_waiter i out) ws s) = core_of s"
  by (induction ws arbitrary: s) simp_all

lemma core_withdraw [simp]: "core_of (withdraw_toast t s) = core_of s"
  by (simp add: withdraw_toast_def core_of_def)

lemma core_withdraws [simp]: "core_of (fold withdraw_toast ts s) = core_of s"
  by (induction ts arbitrary: s) simp_all

lemma core_words_owner [simp]: "core_of (words_owner held s) = core_of s"
proof -
  have "core_of (u\<lparr>left_unsaved := m\<rparr>) = core_of u" for u m by (simp add: core_of_def)
  then show ?thesis by (simp add: words_owner_def)
qed

lemma core_mark_open [simp]: "core_of (mark_open b t s) = core_of s"
  by (simp add: mark_open_def core_of_def Let_def)

lemma flushed_put [simp]: "flushed_editor (s\<lparr>queued := queued s @ [Put e]\<rparr>) = e"
  by (simp add: flushed_editor_def apply_update_def)

lemma put_latest_sel [simp]:
  "outs (put_latest e s) = outs s" "opened_as (put_latest e s) = opened_as s"
  "latest (put_latest e s) = Some e" "flushed_editor (put_latest e s) = Some e"
  by (simp_all add: put_latest_def flushed_editor_def apply_update_def)

lemma one_out_put:
  assumes "one_out s" "latest s = Some e" "ed_sending e' = ed_sending e"
  shows "one_out (put_latest e' s)"
proof -
  have "open_outs (put_latest e' s) = open_outs s" by (simp add: open_outs_def)
  then show ?thesis using assms by (simp add: one_out_def outs_ok_def)
qed

lemma one_out_latest:
  assumes "one_out s" "latest s = Some e" "ed_sending e' = ed_sending e"
  shows "one_out (s\<lparr>latest := Some e'\<rparr>)"
  using assms by (simp add: one_out_def outs_ok_def open_outs_def flushed_editor_def)

lemma one_out_send:
  assumes "one_out s"
  shows "one_out (send s)"
proof (cases "latest s")
  case None
  then show ?thesis using assms by (simp add: send_def)
next
  case (Some e)
  show ?thesis
  proof (cases "pending_save e")
    case None
    then show ?thesis using Some assms by (simp add: send_def)
  next
    case (Some r)
    then have "open_outs s = []"
      using \<open>latest s = Some e\<close> assms by (auto simp: one_out_def pending_save_def)
    then show ?thesis using Some \<open>latest s = Some e\<close> assms
      by (auto simp: send_def one_out_def outs_ok_def open_outs_def of_opening_def editor_sent_def
          put_latest_def flushed_editor_def apply_update_def)
  qed
qed

lemma one_out_changed:
  assumes "one_out s" "\<And>e. ed_sending (f e) = ed_sending e"
  shows "one_out (changed f s)"
proof (cases "latest s")
  case (Some e)
  then show ?thesis using one_out_put [OF assms(1) Some, of "f e"] assms(2)
    by (simp add: changed_def)
qed (use assms in \<open>simp add: changed_def\<close>)

lemma kept_mine_sending [simp]: "ed_sending (editor_kept_mine d e) = ed_sending e"
  by (simp add: editor_kept_mine_def Let_def split: editor_state.splits)

lemma took_sending [simp]: "ed_sending (editor_took_theirs e) = ed_sending e"
  by (simp add: editor_took_theirs_def split: editor_state.splits)

lemma one_out_type: "one_out s \<Longrightarrow> one_out (type_text w a s)"
  by (simp add: type_text_def one_out_changed)

lemma one_out_hand_over: "one_out s \<Longrightarrow> one_out (hand_over s)"
  by (simp add: hand_over_def one_out_type split: option.splits)

lemma core_leave: "core_of (leave_task t s) = core_of (hand_over s)"
proof -
  have 1: "core_of (u\<lparr>next_id := a, saving_left := b\<rparr>) = core_of u"
    and 2: "core_of (u\<lparr>next_id := a, saving_left := b, waiters := c\<rparr>) = core_of u" for u a b c
    by (simp_all add: core_of_def)
  show ?thesis by (simp add: leave_task_def Let_def 1 2 split: option.splits)
qed

lemma one_out_leave: "one_out s \<Longrightarrow> one_out (leave_task t s)"
  using one_out_core [OF core_leave] one_out_hand_over by simp

lemma one_out_follow:
  assumes "one_out s"
  shows "one_out (follow_account b s)"
proof -
  have "one_out (s\<lparr>opened_as := Suc (opened_as s), latest := None, queued := q, handing := None\<rparr>)" for q
    by (rule one_out_later [OF assms]) simp_all
  then show ?thesis using assms by (simp add: follow_account_def)
qed

lemma one_out_close:
  assumes o: "one_out s" and c: "\<And>e. drawn_editor s = Some e \<Longrightarrow> editor_closes e \<Longrightarrow> open_outs s = []"
  shows "one_out (close_or_save s)"
proof (cases "drawn_editor s")
  case (Some e)
  show ?thesis
  proof (cases "editor_closes e")
    case True
    have "open_outs (s\<lparr>queued := queued s @ [Put None]\<rparr>) = open_outs s"
      by (simp add: open_outs_def)
    then show ?thesis using o c [OF Some True] Some True
      by (simp add: close_or_save_def one_out_def outs_ok_def)
  next
    case False
    then show ?thesis using Some o by (simp add: close_or_save_def one_out_send)
  qed
qed (use o in \<open>simp add: close_or_save_def\<close>)

lemma one_out_close_later:
  assumes "outs_ok s"
  shows "outs_ok (close_or_save s)" "outs_ok (send s)"
  using assms
  by (auto simp: close_or_save_def send_def outs_ok_def put_latest_def of_opening_def
      split: option.splits if_splits)

lemma one_out_take_up:
  assumes "outs_ok s"
  shows "one_out (take_up_task t s)"
proof -
  have "outs (take_up_task t s) = outs s \<and> opened_as (take_up_task t s) = Suc (opened_as s)"
    by (simp add: take_up_task_def Let_def take_left_def withdraw_toast_def split: option.splits)
  then show ?thesis using outs_ok_later [OF assms] by (simp add: one_out_def)
qed

lemma one_out_drawn:
  assumes "one_out s"
  shows "one_out (s\<lparr>drawn_editor := flushed_editor s, queued := [], latest := flushed_editor s,
    task_id := a, task_text := b, owner := c\<rparr>)"
  using assms by (simp add: one_out_def outs_ok_def open_outs_def flushed_editor_def)

lemma follow_sel:
  "drawn_editor (follow_account b s) = drawn_editor s"
  "latest (follow_account b s) = latest s \<or> latest (follow_account b s) = None"
  "open_outs s = [] \<Longrightarrow> outs_ok s \<Longrightarrow> open_outs (follow_account b s) = []"
    apply (simp_all add: follow_account_def)
  apply (auto simp: open_outs_def outs_ok_def filter_empty_conv)
  by force

lemma one_out_draw:
  assumes o: "one_out s"
  shows "one_out (draw t words s)"
proof -
  define s1 where "s1 = words_owner (owner s) (s\<lparr>drawn_editor := flushed_editor s, queued := [],
    latest := flushed_editor s, task_id := Some t, task_text := words, owner := signed_in s\<rparr>)"
  have o1: "one_out s1"
    unfolding s1_def using one_out_core [OF core_words_owner] one_out_drawn [OF o] by simp
  have d1: "drawn_editor s1 = latest s1"
    using core_words_owner [of "owner s" "s\<lparr>drawn_editor := flushed_editor s, queued := [],
      latest := flushed_editor s, task_id := Some t, task_text := words, owner := signed_in s\<rparr>"]
    by (simp add: s1_def core_of_def)
  define s2 where "s2 = (case task_id s of None \<Rightarrow> s1
    | Some b \<Rightarrow> if task_id s \<noteq> Some t then leave_task b s1 else s1)"
  have o2: "one_out s2" using o1 by (auto simp: s2_def one_out_leave split: option.splits)
  define s3 where "s3 = save_paused (follow_account (owner s) (mark_open (task_id s) t s2))"
  have o3': "one_out (follow_account (owner s) (mark_open (task_id s) t s2))"
    using o2 one_out_core [OF core_mark_open] one_out_follow by simp
  then have o3: "one_out s3" by (simp add: s3_def save_paused_def one_out_send)
  have d: "draw t words s = (if task_id s \<noteq> Some t then take_up_task t (close_or_save s3)
      else close_or_save s3)"
    unfolding draw_def Let_def s3_def s2_def s1_def by (rule refl)
  show ?thesis
  proof (cases "task_id s = Some t")
    case False
    have "outs_ok s3" using o3 by (simp add: one_out_def)
    then show ?thesis using False one_out_take_up [OF one_out_close_later(1)] by (simp add: d)
  next
    case True
    then have s2: "s2 = s1" by (simp add: s2_def)
    define f where "f = follow_account (owner s) (mark_open (task_id s) t s1)"
    have cm: "core_of (mark_open (task_id s) t s1) = core_of s1" by simp
    have "open_outs s3 = []" if e: "drawn_editor s3 = Some e" "editor_closes e" for e
    proof -
      have df: "drawn_editor f = drawn_editor s1"
        using cm by (simp add: f_def follow_sel(1) core_of_def)
      have lf: "latest f = latest s1 \<or> latest f = None"
        using follow_sel(2) [of "owner s" "mark_open (task_id s) t s1"] cm
        by (simp add: f_def core_of_def)
      have ds: "drawn_editor s3 = drawn_editor f"
        by (simp add: s3_def s2 f_def save_paused_def send_def put_latest_def split: option.splits)
      then have drawn: "drawn_editor s1 = Some e" using e df by simp
      then have "open_outs s1 = []"
        using o1 d1 e(2) by (auto simp: one_out_def editor_closes_def)
      then have "open_outs f = []"
        using follow_sel(3) [of "mark_open (task_id s) t s1"] o1 core_of_outs [OF cm]
        by (simp add: f_def one_out_def)
      moreover have "send f = f"
        using lf drawn d1 e(2) by (auto simp: send_def editor_closes_def split: option.splits)
      ultimately show ?thesis by (simp add: s3_def s2 f_def [symmetric] save_paused_def)
    qed
    then show ?thesis using True o3 by (simp add: d one_out_close)
  qed
qed

lemma one_out_answer:
  assumes o: "one_out s"
  shows "one_out (answer_save i out s)"
proof (cases "List.find (\<lambda>x. save_id x = i) (outs s)")
  case None
  then show ?thesis using o by (simp add: answer_save_def)
next
  case (Some x)
  then have x: "x \<in> set (outs s)" by (rule find_SomeD [THEN conjunct1])
  have sub: "set (remove1 x (outs s)) \<subseteq> set (outs s)" by (rule set_remove1_subset)
  show ?thesis
  proof (cases "save_kind x")
    case (From_Left l e m)
    then have "filter (of_opening n) (remove1 x (outs s)) = filter (of_opening n) (outs s)" for n
      by (simp add: filter_remove1 of_opening_def remove1_idem)
    then have "one_out (s\<lparr>outs := remove1 x (outs s)\<rparr>)"
      using o sub by (auto simp: one_out_def outs_ok_def open_outs_def flushed_editor_def)
    then show ?thesis using Some From_Left
      by (simp add: answer_save_def Let_def one_out_core [OF core_keep_left])
  next
    case (From_Editor n)
    let ?s1 = "s\<lparr>outs := remove1 x (outs s), queued := queued s @ [Land n out],
      answered_saves := answered_saves s @ [(i, out)]\<rparr>"
    have "one_out ?s1"
    proof (cases "n = opened_as s")
      case True
      then have "x \<in> set (open_outs s)" using x From_Editor by (simp add: open_outs_def of_opening_def)
      then have "open_outs s = [x]"
        using o by (cases "open_outs s") (auto simp: one_out_def)
      then have "open_outs ?s1 = []" by (simp add: open_outs_def filter_remove1)
      then show ?thesis using o sub by (auto simp: one_out_def outs_ok_def)
    next
      case False
      then have "open_outs ?s1 = open_outs s"
        using From_Editor by (simp add: open_outs_def filter_remove1 of_opening_def remove1_idem)
      moreover have "flushed_editor ?s1 = flushed_editor s"
        using False by (simp add: flushed_editor_def apply_update_def)
      ultimately show ?thesis using o sub by (auto simp: one_out_def outs_ok_def)
    qed
    moreover have "answer_save i out s = fold (wake_waiter i out) (waiters s) ?s1"
      using Some From_Editor by (simp add: answer_save_def Let_def)
    ultimately show ?thesis using one_out_core [OF core_wakes] by simp
  qed
qed

lemma one_out_after:
  assumes o: "one_out s"
  shows "one_out (after d l s)"
proof (cases l)
  case Open_Editor
  have "one_out (s\<lparr>opened_as := Suc (opened_as s), wrote_as := a, queued := q\<rparr>)" for a q
    by (rule one_out_later [OF o]) simp_all
  then show ?thesis using Open_Editor o
    by (simp add: after_def open_editor_def split: option.splits)
next
  case (Hold_Words w a)
  then show ?thesis using o by (simp add: after_def)
next
  case Close_Editor
  have "one_out (close_editor u)" if "one_out u" for u
    using that by (auto simp: close_editor_def editor_close_asked_def
        intro!: one_out_send one_out_put split: option.splits)
  then show ?thesis using Close_Editor o by (simp add: after_def one_out_hand_over)
next
  case Press_Take_Theirs
  have "open_outs (s\<lparr>queued := q\<rparr>) = open_outs s" for q by (simp add: open_outs_def)
  moreover have "is_sending (flushed_editor (s\<lparr>queued := queued s @ [Took]\<rparr>)) =
      is_sending (flushed_editor s)"
    by (cases "flushed_editor s") (simp_all add: flushed_editor_def apply_update_def)
  ultimately show ?thesis using Press_Take_Theirs o by (simp add: after_def one_out_def outs_ok_def)
next
  case Press_Retry
  then show ?thesis using o
    by (auto simp: after_def retry_save_def editor_retried_def
        intro!: one_out_send one_out_latest split: option.splits)
next
  case (Take_In b w)
  then show ?thesis using o
    by (auto simp: after_def rebase_editor_def editor_rebased_def intro!: one_out_put
        split: option.splits)
next
  case Pause_Out
  then show ?thesis using o
    by (auto simp: after_def intro!: one_out_draw split: option.splits)
next
  case (Sign_In a)
  then show ?thesis using o by (simp add: after_def)
next
  case Gone
  have "outs_ok (leave_task t s)" for t using one_out_leave [OF o] by (simp add: one_out_def)
  moreover have "opened_as (leave_task t s) = opened_as s" for t
    using core_leave [of t s]
    by (simp add: core_of_def hand_over_def type_text_def changed_def put_latest_def split: option.splits)
  ultimately have "one_out ((leave_task t s)\<lparr>drawn_editor := None, queued := [], latest := None,
       opened_as := Suc (opened_as s), flight := None, stamp := 0, pausing := None, paused_on := None,
       task_id := None, task_text := None, handing := None, open_unsaved := marks\<rparr>)" for t marks
    using outs_ok_later [of "leave_task t s"] by (simp add: one_out_def)
  then have "one_out (unmount s)" using o by (simp add: unmount_def split: option.splits)
  then show ?thesis using Gone by (simp add: after_def)
qed (use o in \<open>simp_all add: after_def one_out_hand_over one_out_changed one_out_answer
  one_out_core [OF core_press] one_out_draw\<close>)

lemma one_out_run: "one_out s \<Longrightarrow> one_out (run d ls s)"
  by (induction ls arbitrary: s) (simp_all add: run_def one_out_after)

lemma one_out_new: "one_out (new_editing who)"
  by (simp add: one_out_def outs_ok_def open_outs_def new_editing_def)

text \<open>C31: whatever is typed, pressed, answered, drawn, left and signed in, in whatever order, one
  save of the open editor is out at a time.\<close>

theorem one_save_out: "length (open_outs (run d ls (new_editing who))) \<le> 1"
  using one_out_run [OF one_out_new] by (simp add: one_out_def)

end
