(* ===== verification/Editing_Left.thy ===== *)
theory Editing_Left
  imports Editing_Saves "HOL-Library.Multiset"
begin

text \<open>
  The marks of words a task was left with: each save of theirs out, or waiting on the one before it,
  holds a mark of its own, so the window knows of unsaved words for as long as they stand
  (\<open>left_words_are_marked\<close>).
\<close>

subsection \<open>The marks of words left\<close>

definition mark_of :: "save_out \<Rightarrow> nat list" where
  "mark_of x = (case save_kind x of From_Editor n \<Rightarrow> [] | From_Left l e m \<Rightarrow> [m])"

lemma mark_of_left [simp]: "save_kind x = From_Left l e m \<Longrightarrow> mark_of x = [m]"
  by (simp add: mark_of_def)

definition left_marks :: "editing \<Rightarrow> nat list" where
  "left_marks s = concat (map mark_of (outs s)) @ map wait_mark (waiters s)"

definition marks_ok :: "editing \<Rightarrow> bool" where
  "marks_ok s \<longleftrightarrow> distinct (left_marks s) \<and> set (left_marks s) \<subseteq> set (saving_left s) \<and>
     (\<forall>m \<in> set (left_marks s). m < next_id s)"

definition free_mark :: "nat \<Rightarrow> editing \<Rightarrow> bool" where
  "free_mark m s \<longleftrightarrow> m < next_id s \<and> m \<notin> set (left_marks s)"

lemma set_mark: "set (mark m b ms) = (if b then insert m (set ms) else set ms - {m})"
  by (auto simp: mark_def Let_def)

lemma marks_ok_unmark: "marks_ok s \<Longrightarrow> m \<notin> set (left_marks s) \<Longrightarrow>
  marks_ok (s\<lparr>saving_left := mark m b (saving_left s)\<rparr>)"
  by (auto simp: marks_ok_def left_marks_def set_mark)

lemma marks_ok_keep: "marks_ok s \<Longrightarrow> m \<notin> set (left_marks s) \<Longrightarrow> marks_ok (keep_left l now m s)"
  by (auto simp: keep_left_def Let_def marks_ok_def left_marks_def set_mark)

lemma marks_ok_save:
  assumes "marks_ok s" "free_mark m s"
  shows "marks_ok (save_left l now m s)"
proof -
  let ?s1 = "s\<lparr>saving_left := mark m True (saving_left s)\<rparr>"
  have s1: "marks_ok ?s1" "m \<notin> set (left_marks ?s1)"
    using assms by (auto simp: marks_ok_def free_mark_def left_marks_def set_mark)
  have "marks_ok (?s1\<lparr>outs := outs ?s1 @ [\<lparr>save_id = next_id ?s1, save_task = left_id l,
      save_request = r, save_kind = From_Left l e m\<rparr>], next_id := Suc (next_id ?s1)\<rparr>)" for r e
    using assms by (auto simp: marks_ok_def free_mark_def left_marks_def set_mark less_Suc_eq)
  then show ?thesis
    using marks_ok_keep [OF s1, of l now] marks_ok_unmark [OF assms(1), of m False] assms(2)
    by (simp add: save_left_def Let_def free_mark_def split: option.splits)
qed

lemma marks_ok_anew: "marks_ok s \<Longrightarrow> marks_ok (save_left_anew l now s)"
  unfolding save_left_anew_def
  by (rule marks_ok_save) (auto simp: marks_ok_def free_mark_def left_marks_def less_Suc_eq)

lemma mset_concat_remove1:
  "x \<in> set xs \<Longrightarrow> mset (concat (map f xs)) = mset (f x) + mset (concat (map f (remove1 x xs)))"
  by (induction xs) auto

lemma distinct_rest: "mset xs = mset ys + mset zs \<Longrightarrow> distinct xs \<Longrightarrow>
  distinct zs \<and> set zs \<subseteq> set xs \<and> set ys \<inter> set zs = {}"
  by (metis distinct_append mset_append mset_eq_imp_distinct_iff mset_eq_setD set_append sup.cobounded2)

lemma marks_without_out:
  assumes "marks_ok s" "x \<in> set (outs s)"
  shows "marks_ok (s\<lparr>outs := remove1 x (outs s)\<rparr>)"
    "set (mark_of x) \<inter> set (left_marks (s\<lparr>outs := remove1 x (outs s)\<rparr>)) = {}"
proof -
  let ?s = "s\<lparr>outs := remove1 x (outs s)\<rparr>"
  have "mset (left_marks s) = mset (mark_of x) + mset (left_marks ?s)"
    using mset_concat_remove1 [OF assms(2), of mark_of] by (simp add: left_marks_def)
  then have "distinct (left_marks ?s) \<and> set (left_marks ?s) \<subseteq> set (left_marks s) \<and>
      set (mark_of x) \<inter> set (left_marks ?s) = {}"
    by (rule distinct_rest) (use assms(1) in \<open>simp add: marks_ok_def\<close>)
  then show "marks_ok ?s" "set (mark_of x) \<inter> set (left_marks ?s) = {}"
    using assms(1) by (auto simp: marks_ok_def)
qed

lemma marks_without_waiter:
  assumes "marks_ok s" "w \<in> set (waiters s)"
  shows "marks_ok (s\<lparr>waiters := remove1 w (waiters s)\<rparr>)"
    "free_mark (wait_mark w) (s\<lparr>waiters := remove1 w (waiters s)\<rparr>)"
proof -
  let ?s = "s\<lparr>waiters := remove1 w (waiters s)\<rparr>"
  have "concat (map (\<lambda>w. [wait_mark w]) ws) = map wait_mark ws" for ws :: "waiter list" by (induction ws) auto
  then have "mset (map wait_mark (waiters s)) = mset [wait_mark w] + mset (map wait_mark (remove1 w (waiters s)))"
    using mset_concat_remove1 [OF assms(2), of "\<lambda>w. [wait_mark w]"] by simp
  then have "mset (left_marks s) = mset [wait_mark w] + mset (left_marks ?s)"
    by (simp add: left_marks_def)
  then have "distinct (left_marks ?s) \<and> set (left_marks ?s) \<subseteq> set (left_marks s) \<and>
      set [wait_mark w] \<inter> set (left_marks ?s) = {}"
    by (rule distinct_rest) (use assms(1) in \<open>simp add: marks_ok_def\<close>)
  moreover have "wait_mark w \<in> set (left_marks s)" using assms(2) by (simp add: left_marks_def)
  ultimately show "marks_ok ?s" "free_mark (wait_mark w) ?s"
    using assms(1) by (auto simp: marks_ok_def free_mark_def)
qed

lemma keep_left_waiters [simp]: "waiters (keep_left l now m s) = waiters s"
  by (simp add: keep_left_def Let_def)

lemma save_left_waiters [simp]: "waiters (save_left l now m s) = waiters s"
  by (simp add: save_left_def Let_def split: option.splits)

lemma marks_ok_wakes:
  "marks_ok s \<Longrightarrow> distinct ws \<Longrightarrow> set ws \<subseteq> set (waiters s) \<Longrightarrow>
   marks_ok (fold (wake_waiter i out) ws s)"
proof (induction ws arbitrary: s)
  case (Cons w ws)
  let ?s = "s\<lparr>waiters := remove1 w (waiters s)\<rparr>"
  have w: "w \<in> set (waiters s)" using Cons.prems by simp
  have d: "distinct (waiters s)"
    using Cons.prems(1) by (auto simp: marks_ok_def left_marks_def distinct_map)
  have "marks_ok (wake_waiter i out w s)"
    using marks_without_waiter [OF Cons.prems(1) w] Cons.prems(1)
    by (simp add: wake_waiter_def marks_ok_save)
  moreover have "set ws \<subseteq> set (waiters (wake_waiter i out w s))"
    using Cons.prems d by (auto simp: wake_waiter_def)
  ultimately show ?case using Cons by simp
qed simp

text \<open>What \<open>marks_ok\<close> reads of a state.\<close>

definition marks_view :: "editing \<Rightarrow> nat list \<times> nat list" where
  "marks_view s = (left_marks s, saving_left s)"

lemma marks_ok_view:
  "marks_ok s \<Longrightarrow> marks_view s' = marks_view s \<Longrightarrow> next_id s \<le> next_id s' \<Longrightarrow> marks_ok s'"
  by (auto simp: marks_ok_def marks_view_def)

lemma marks_ok_send: "marks_ok s \<Longrightarrow> marks_ok (send s)"
  by (erule marks_ok_view)
    (simp_all add: send_def marks_view_def left_marks_def mark_of_def put_latest_def split: option.splits)

lemma marks_ok_changed: "marks_ok s \<Longrightarrow> marks_ok (changed f s)"
  by (erule marks_ok_view)
    (simp_all add: changed_def marks_view_def left_marks_def put_latest_def split: option.splits)

lemma marks_ok_upd [simp]:
  "marks_ok (s\<lparr>latest := a\<rparr>) = marks_ok s" "marks_ok (s\<lparr>queued := q\<rparr>) = marks_ok s"
  "marks_ok (s\<lparr>handing := h\<rparr>) = marks_ok s" "marks_ok (s\<lparr>signed_in := w\<rparr>) = marks_ok s"
  "marks_ok (s\<lparr>wrote_as := w\<rparr>) = marks_ok s" "marks_ok (s\<lparr>left_unsaved := u\<rparr>) = marks_ok s"
  "marks_ok (s\<lparr>left_toasts := ts\<rparr>) = marks_ok s" "marks_ok (s\<lparr>open_unsaved := os\<rparr>) = marks_ok s"
  "marks_ok (s\<lparr>opened_as := n\<rparr>) = marks_ok s" "marks_ok (s\<lparr>pausing := p\<rparr>) = marks_ok s"
  "marks_ok (s\<lparr>paused_on := p\<rparr>) = marks_ok s" "marks_ok (s\<lparr>drawn_editor := a\<rparr>) = marks_ok s"
  "marks_ok (s\<lparr>task_id := i\<rparr>) = marks_ok s" "marks_ok (s\<lparr>task_text := i\<rparr>) = marks_ok s"
  "marks_ok (s\<lparr>owner := w\<rparr>) = marks_ok s" "marks_ok (s\<lparr>answered_saves := v\<rparr>) = marks_ok s"
  "marks_ok (s\<lparr>flight := f\<rparr>) = marks_ok s" "marks_ok (s\<lparr>stamp := n\<rparr>) = marks_ok s"
  by (simp_all add: marks_ok_def left_marks_def)

lemma marks_ok_put [simp]: "marks_ok (put_latest e s) = marks_ok s"
  by (simp add: put_latest_def)

lemma marks_ok_hand_over: "marks_ok s \<Longrightarrow> marks_ok (hand_over s)"
  by (simp add: hand_over_def type_text_def marks_ok_changed split: option.splits)

lemma marks_ok_take: "marks_ok s \<Longrightarrow> marks_ok (snd (take_left t s))"
  by (simp add: take_left_def split: option.splits)

lemma marks_ok_leave:
  assumes "marks_ok s"
  shows "marks_ok (leave_task t s)"
proof -
  let ?h = "hand_over s"
  have h: "marks_ok ?h" by (rule marks_ok_hand_over [OF assms])
  let ?s1 = "?h\<lparr>next_id := Suc (next_id ?h), saving_left := mark (next_id ?h) True (saving_left ?h)\<rparr>"
  have s1: "marks_ok ?s1" "free_mark (next_id ?h) ?s1"
    using h by (auto simp: marks_ok_def free_mark_def left_marks_def set_mark less_Suc_eq)
  have "marks_ok (?s1\<lparr>waiters := waiters ?s1 @ [\<lparr>wait_flight = i, wait_left = l, wait_held = e,
      wait_mark = next_id ?h\<rparr>]\<rparr>)" for i l e
    using h by (auto simp: marks_ok_def left_marks_def set_mark less_Suc_eq)
  then show ?thesis using h s1
    by (simp add: leave_task_def Let_def marks_ok_anew marks_ok_save split: option.splits)
qed

lemma marks_ok_withdraws: "marks_ok s \<Longrightarrow> marks_ok (fold withdraw_toast ts s)"
  by (induction ts arbitrary: s) (simp_all add: withdraw_toast_def)

lemma marks_ok_words_owner: "marks_ok s \<Longrightarrow> marks_ok (words_owner held s)"
  by (simp add: words_owner_def marks_ok_withdraws)

lemma marks_ok_take_up: "marks_ok s \<Longrightarrow> marks_ok (take_up_task t s)"
  by (simp add: take_up_task_def Let_def take_left_def withdraw_toast_def split: option.splits)

lemma marks_ok_effects:
  "marks_ok u \<Longrightarrow> marks_ok (close_or_save (save_paused (follow_account b (mark_open a t u))))"
proof -
  assume "marks_ok u"
  then have "marks_ok (follow_account b (mark_open a t u))"
    by (simp add: follow_account_def mark_open_def Let_def)
  then have "marks_ok (save_paused (follow_account b (mark_open a t u)))"
    by (simp add: save_paused_def marks_ok_send)
  then show ?thesis by (simp add: close_or_save_def marks_ok_send split: option.splits)
qed

text \<open>A draw, as its cleanup and effects over the state drawn.\<close>

definition drawn_state :: "string \<Rightarrow> string option \<Rightarrow> editing \<Rightarrow> editing" where
  "drawn_state t words s = words_owner (owner s) (s\<lparr>drawn_editor := flushed_editor s, queued := [],
     latest := flushed_editor s, task_id := Some t, task_text := words, owner := signed_in s\<rparr>)"

definition left_state :: "string \<Rightarrow> string option \<Rightarrow> editing \<Rightarrow> editing" where
  "left_state t words s = (case task_id s of
     None \<Rightarrow> drawn_state t words s
   | Some b \<Rightarrow> if task_id s \<noteq> Some t then leave_task b (drawn_state t words s)
       else drawn_state t words s)"

definition effects_state :: "string \<Rightarrow> string option \<Rightarrow> editing \<Rightarrow> editing" where
  "effects_state t words s = close_or_save (save_paused (follow_account (owner s)
     (mark_open (task_id s) t (left_state t words s))))"

lemma draw_states: "draw t words s = (if task_id s \<noteq> Some t
    then take_up_task t (effects_state t words s) else effects_state t words s)"
  unfolding draw_def Let_def effects_state_def left_state_def drawn_state_def by (rule refl)

lemma marks_ok_draw:
  assumes "marks_ok s"
  shows "marks_ok (draw t words s)"
proof -
  have "marks_ok (drawn_state t words s)"
    unfolding drawn_state_def by (rule marks_ok_words_owner) (simp add: assms)
  then have "marks_ok (left_state t words s)"
    by (simp add: left_state_def marks_ok_leave split: option.splits)
  then have "marks_ok (effects_state t words s)" unfolding effects_state_def by (rule marks_ok_effects)
  then show ?thesis by (simp add: draw_states marks_ok_take_up)
qed

lemma marks_ok_answer:
  assumes "marks_ok s"
  shows "marks_ok (answer_save i out s)"
proof (cases "List.find (\<lambda>x. save_id x = i) (outs s)")
  case None
  then show ?thesis using assms by (simp add: answer_save_def)
next
  case (Some x)
  then have x: "x \<in> set (outs s)" by (rule find_SomeD [THEN conjunct1])
  let ?s = "s\<lparr>outs := remove1 x (outs s)\<rparr>"
  note out = marks_without_out [OF assms x]
  show ?thesis
  proof (cases "save_kind x")
    case (From_Left l e m)
    then have "m \<notin> set (left_marks ?s)" using out(2) by (auto simp: mark_of_def)
    then show ?thesis using Some From_Left out(1)
      by (simp add: answer_save_def Let_def marks_ok_keep)
  next
    case (From_Editor n)
    have "distinct (waiters s)" using assms by (auto simp: marks_ok_def left_marks_def distinct_map)
    then show ?thesis using Some From_Editor out(1)
      by (simp add: answer_save_def Let_def marks_ok_wakes)
  qed
qed

lemma marks_ok_press: "marks_ok s \<Longrightarrow> marks_ok (press_toast d l s)"
  using marks_ok_take [of s "left_id l"]
  by (cases "take_left (left_id l) s") (auto simp: press_toast_def marks_ok_anew split: option.splits)

lemma marks_ok_after: "marks_ok s \<Longrightarrow> marks_ok (after d l s)"
  by (cases l)
    (auto simp: after_def open_editor_def marks_ok_hand_over close_editor_def marks_ok_send
      marks_ok_changed retry_save_def rebase_editor_def marks_ok_draw marks_ok_answer marks_ok_press
      unmount_def marks_ok_leave split: option.splits)

lemma marks_ok_run: "marks_ok s \<Longrightarrow> marks_ok (run d ls s)"
  by (induction ls arbitrary: s) (simp_all add: run_def marks_ok_after)

lemma marks_ok_new: "marks_ok (new_editing who)"
  by (simp add: marks_ok_def left_marks_def new_editing_def)

text \<open>Words a task was left with are unsaved work for the window, which asks before a way out,
  for as long as a save of theirs is out, waits on one before it, or they are kept.\<close>

theorem left_words_are_marked:
  assumes "\<not> words_unsaved (run d ls (new_editing who))"
  shows "(\<forall>x \<in> set (outs (run d ls (new_editing who))). \<exists>n. save_kind x = From_Editor n) \<and>
    waiters (run d ls (new_editing who)) = [] \<and> left_unsaved (run d ls (new_editing who)) = []"
proof -
  let ?s = "run d ls (new_editing who)"
  have "left_marks ?s = []"
    using marks_ok_run [OF marks_ok_new, of d ls who] assms by (simp add: marks_ok_def words_unsaved_def)
  moreover have "\<exists>n. save_kind x = From_Editor n" if "mark_of x = []" for x
    using that by (cases "save_kind x") (simp_all add: mark_of_def)
  ultimately show ?thesis using assms by (auto simp: left_marks_def words_unsaved_def)
qed

lemma left_words_are_marked_witness:
  "\<not> words_unsaved (ran (left_with_words @ turned_to ''v'' ''a'' @ [Answer_Save 1 (Came Saved_Answer)])) \<and>
   left_unsaved (ran (left_with_words @ turned_to ''v'' ''a'' @ [Answer_Save 1 (Came Saved_Answer)])) = []"
proof -
  have "\<not> words_unsaved (ran (left_with_words @ turned_to ''v'' ''a'' @ [Answer_Save 1 (Came Saved_Answer)]))"
    by code_simp
  then show ?thesis using left_words_are_marked unfolding ran_def by blast
qed

end
