(* ===== verification/Editing_Words.thy ===== *)
theory Editing_Words
  imports Editing_Left
begin

text \<open>
  The words a task was left with, followed: carried from the moment the task is left
  (\<open>leaving_carries_the_words\<close>) through everything that does not concern them
  (\<open>carried_words_stay\<close>), and where their save is answered, held by the service or kept
  (\<open>left_save_lands_or_keeps\<close>).
\<close>

subsection \<open>Words carried\<close>

definition left_of :: "string \<Rightarrow> save_out \<Rightarrow> bool" where
  "left_of t x \<longleftrightarrow> (case save_kind x of From_Editor n \<Rightarrow> False | From_Left l e m \<Rightarrow> left_id l = t)"

definition carried_out :: "string \<Rightarrow> string \<Rightarrow> save_out \<Rightarrow> bool" where
  "carried_out t w x \<longleftrightarrow> (case save_kind x of From_Editor n \<Rightarrow> False
     | From_Left l e m \<Rightarrow> left_id l = t \<and> ed_draft e = w)"

definition carried_words :: "editing \<Rightarrow> string \<Rightarrow> string \<Rightarrow> bool" where
  "carried_words s t w \<longleftrightarrow>
     (case map_of (left_unsaved s) t of None \<Rightarrow> False | Some e \<Rightarrow> ed_draft e = w) \<or>
     list_ex (carried_out t w) (outs s) \<or>
     list_ex (\<lambda>x. left_id (wait_left x) = t \<and> ed_draft (wait_held x) = w) (waiters s)"

definition keeps :: "string \<Rightarrow> editing \<Rightarrow> editing \<Rightarrow> bool" where
  "keeps t s s' \<longleftrightarrow> map_of (left_unsaved s') t = map_of (left_unsaved s) t \<and>
     (\<forall>x \<in> set (outs s). left_of t x \<longrightarrow> x \<in> set (outs s')) \<and>
     (\<forall>x \<in> set (waiters s). left_id (wait_left x) = t \<longrightarrow> x \<in> set (waiters s'))"

lemma keeps_refl [simp]: "keeps t s s"
  by (simp add: keeps_def)

lemma keeps_trans: "keeps t a b \<Longrightarrow> keeps t b c \<Longrightarrow> keeps t a c"
  by (simp add: keeps_def)

lemma keeps_carried:
  assumes "keeps t s s'" "carried_words s t w"
  shows "carried_words s' t w"
proof -
  have "carried_out t w x \<Longrightarrow> left_of t x" for x
    by (cases "save_kind x") (auto simp: carried_out_def left_of_def)
  then show ?thesis using assms by (auto simp: carried_words_def keeps_def list_ex_iff)
qed

lemma keeps_keep_left: "left_id l \<noteq> t \<Longrightarrow> keeps t s (keep_left l now m s)"
  by (simp add: keep_left_def Let_def keeps_def split: option.splits)

lemma keeps_save_left: "left_id l \<noteq> t \<Longrightarrow> keeps t s (save_left l now m s)"
  by (simp add: save_left_def keep_left_def Let_def keeps_def split: option.splits)

lemma keeps_anew: "left_id l \<noteq> t \<Longrightarrow> keeps t s (save_left_anew l now s)"
  using keeps_save_left [of l t "s\<lparr>next_id := Suc (next_id s)\<rparr>"]
  by (simp add: save_left_anew_def keeps_def)

lemma still_in: "y \<in> set xs \<Longrightarrow> P y \<Longrightarrow> \<not> P x \<Longrightarrow> y \<in> set (remove1 x xs)"
  by (metis in_set_remove1)

lemma keeps_wake: "wait_flight w = i \<Longrightarrow> left_id (wait_left w) \<noteq> t \<Longrightarrow> keeps t s (wake_waiter i out w s)"
  using keeps_save_left [of "wait_left w" t "s\<lparr>waiters := remove1 w (waiters s)\<rparr>"]
  by (auto simp: wake_waiter_def keeps_def
      intro: still_in [where P = "\<lambda>y. left_id (wait_left y) = t"])

lemma keeps_wakes:
  "\<forall>w \<in> set ws. wait_flight w = i \<longrightarrow> left_id (wait_left w) \<noteq> t \<Longrightarrow>
   keeps t s (fold (wake_waiter i out) ws s)"
proof (induction ws arbitrary: s)
  case (Cons w ws)
  have "keeps t s (wake_waiter i out w s)"
    using Cons.prems keeps_wake [of w i t s out]
    by (cases "wait_flight w = i") (simp_all add: wake_waiter_def)
  then show ?case using Cons keeps_trans by fastforce
qed simp

lemma keeps_send [simp]: "keeps t s (send s)"
  by (simp add: send_def keeps_def put_latest_def split: option.splits)

lemma keeps_changed [simp]: "keeps t s (changed f s)"
  by (simp add: changed_def keeps_def put_latest_def split: option.splits)

lemma keeps_upd [simp]:
  "keeps t s (s'\<lparr>latest := a\<rparr>) = keeps t s s'" "keeps t s (s'\<lparr>queued := q\<rparr>) = keeps t s s'"
  "keeps t s (s'\<lparr>handing := h\<rparr>) = keeps t s s'" "keeps t s (s'\<lparr>signed_in := u\<rparr>) = keeps t s s'"
  "keeps t s (s'\<lparr>wrote_as := u\<rparr>) = keeps t s s'" "keeps t s (s'\<lparr>opened_as := n\<rparr>) = keeps t s s'"
  "keeps t s (s'\<lparr>left_toasts := ts\<rparr>) = keeps t s s'" "keeps t s (s'\<lparr>open_unsaved := os\<rparr>) = keeps t s s'"
  "keeps t s (s'\<lparr>pausing := p\<rparr>) = keeps t s s'" "keeps t s (s'\<lparr>paused_on := p\<rparr>) = keeps t s s'"
  "keeps t s (s'\<lparr>drawn_editor := a\<rparr>) = keeps t s s'" "keeps t s (s'\<lparr>task_id := i\<rparr>) = keeps t s s'"
  "keeps t s (s'\<lparr>task_text := i\<rparr>) = keeps t s s'" "keeps t s (s'\<lparr>owner := u\<rparr>) = keeps t s s'"
  "keeps t s (s'\<lparr>answered_saves := v\<rparr>) = keeps t s s'" "keeps t s (s'\<lparr>flight := f\<rparr>) = keeps t s s'"
  "keeps t s (s'\<lparr>stamp := n\<rparr>) = keeps t s s'" "keeps t s (s'\<lparr>next_id := n\<rparr>) = keeps t s s'"
  "keeps t s (s'\<lparr>saving_left := ms\<rparr>) = keeps t s s'" "keeps t s (put_latest e s') = keeps t s s'"
  by (simp_all add: keeps_def put_latest_def)

lemma keeps_from [simp]:
  "keeps t (s\<lparr>latest := a\<rparr>) s' = keeps t s s'" "keeps t (s\<lparr>handing := h\<rparr>) s' = keeps t s s'"
  "keeps t (put_latest e s) s' = keeps t s s'" "keeps t (s\<lparr>paused_on := p\<rparr>) s' = keeps t s s'"
  "keeps t (s\<lparr>pausing := p\<rparr>) s' = keeps t s s'" "keeps t (s\<lparr>saving_left := ms\<rparr>) s' = keeps t s s'"
  "keeps t (s\<lparr>next_id := n\<rparr>) s' = keeps t s s'"
  by (simp_all add: keeps_def put_latest_def)

lemma keeps_hand_over [simp]: "keeps t s (hand_over s)"
  using keeps_changed [of t "s\<lparr>handing := None\<rparr>" f for f] unfolding keeps_from
  by (simp add: hand_over_def type_text_def split: option.splits)

lemma keeps_take_left: "t' \<noteq> t \<Longrightarrow> keeps t s (snd (take_left t' s))"
  by (simp add: take_left_def keeps_def split: option.splits)

lemma keeps_leave:
  assumes "b \<noteq> t"
  shows "keeps t s (leave_task b s)"
proof -
  have anew: "keeps t s (save_left_anew l now (hand_over s))" if "left_id l = b" for l now
    by (rule keeps_trans [OF keeps_hand_over keeps_anew]) (use that assms in simp)
  have save: "keeps t s (save_left l now m ((hand_over s)\<lparr>next_id := n, saving_left := ms\<rparr>))"
    if "left_id l = b" for l now m n ms
  proof -
    have "keeps t s ((hand_over s)\<lparr>next_id := n, saving_left := ms\<rparr>)" by simp
    then show ?thesis by (rule keeps_trans) (rule keeps_save_left, use that assms in simp)
  qed
  have wait: "keeps t s ((hand_over s)\<lparr>next_id := n, saving_left := ms, waiters := waiters (hand_over s) @ ws\<rparr>)"
    for n ms ws using keeps_hand_over [of t s] by (auto simp: keeps_def)
  show ?thesis by (simp add: leave_task_def Let_def anew save wait split: option.splits)
qed

lemma keeps_effects:
  "keeps t u (close_or_save (save_paused (follow_account b (mark_open a t' u))))"
proof -
  have 1: "keeps t u (follow_account b (mark_open a t' u))"
    by (simp add: follow_account_def mark_open_def Let_def)
  have 2: "keeps t v (save_paused v)" for v by (simp add: save_paused_def)
  have 3: "keeps t v (close_or_save v)" for v by (simp add: close_or_save_def split: option.splits)
  show ?thesis by (rule keeps_trans [OF keeps_trans [OF 1 2] 3])
qed

lemma keeps_take_up: "t' \<noteq> t \<Longrightarrow> keeps t s (take_up_task t' s)"
  by (simp add: take_up_task_def Let_def take_left_def withdraw_toast_def split: option.splits)
    (simp add: keeps_def)

lemma keeps_drawn: "same_account (owner s) (signed_in s) \<Longrightarrow> keeps t s (drawn_state t' words s)"
  by (simp add: drawn_state_def words_owner_def)

lemma keeps_draw:
  assumes "same_account (owner s) (signed_in s)"
    and "task_id s = Some t' \<or> (t' \<noteq> t \<and> task_id s \<noteq> Some t)"
  shows "keeps t s (draw t' words s)"
proof -
  have "keeps t s (left_state t' words s)"
    using keeps_drawn [OF assms(1), of t t' words] assms(2)
    by (auto simp: left_state_def intro: keeps_trans [OF _ keeps_leave] split: option.splits)
  then have "keeps t s (effects_state t' words s)"
    unfolding effects_state_def by (rule keeps_trans [OF _ keeps_effects])
  then show ?thesis using assms(2) keeps_trans [OF _ keeps_take_up]
    by (auto simp: draw_states)
qed

text \<open>What a thing that happens has to do with the words a task was left with.\<close>

definition concerns_left :: "editing_label \<Rightarrow> editing \<Rightarrow> string \<Rightarrow> bool" where
  "concerns_left l s t = (case l of
     Press_Toast lt \<Rightarrow> left_id lt = t
   | Answer_Save i out \<Rightarrow> list_ex (\<lambda>x. save_id x = i \<and> left_of t x) (outs s) \<or>
       list_ex (\<lambda>w. wait_flight w = i \<and> left_id (wait_left w) = t) (waiters s)
   | Draw t' words \<Rightarrow> (t' = t) \<noteq> (task_id s = Some t)
   | Gone \<Rightarrow> task_id s = Some t
   | _ \<Rightarrow> False)"

lemma keeps_answered_save:
  assumes "\<not> concerns_left (Answer_Save i out) s t"
  shows "keeps t s (answer_save i out s)"
proof (cases "List.find (\<lambda>x. save_id x = i) (outs s)")
  case None
  then show ?thesis by (simp add: answer_save_def)
next
  case (Some x)
  then have x: "x \<in> set (outs s)" "save_id x = i" by (auto dest: find_SomeD)
  then have nl: "\<not> left_of t x" using assms by (auto simp: concerns_left_def list_ex_iff)
  then have k: "keeps t s (s\<lparr>outs := remove1 x (outs s)\<rparr>)"
    by (auto simp: keeps_def intro: still_in [where P = "left_of t"])
  show ?thesis
  proof (cases "save_kind x")
    case (From_Left l e m)
    then have "left_id l \<noteq> t" using nl by (simp add: left_of_def)
    then show ?thesis using Some From_Left keeps_trans [OF k keeps_keep_left]
      by (simp add: answer_save_def Let_def)
  next
    case (From_Editor n)
    have "\<forall>w \<in> set (waiters s). wait_flight w = i \<longrightarrow> left_id (wait_left w) \<noteq> t"
      using assms by (auto simp: concerns_left_def list_ex_iff)
    then show ?thesis using Some From_Editor k
      by (auto simp: answer_save_def Let_def intro: keeps_trans [OF _ keeps_wakes])
  qed
qed

lemma keeps_press: "left_id lt \<noteq> t \<Longrightarrow> keeps t s (press_toast d lt s)"
  using keeps_take_left [of "left_id lt" t s]
  by (cases "take_left (left_id lt) s")
    (auto simp: press_toast_def intro: keeps_trans [OF _ keeps_anew] split: option.splits)

lemma keeps_after:
  assumes "\<not> concerns_left l s t" "same_account (owner s) (signed_in s)"
  shows "keeps t s (after d l s)"
proof (cases l)
  case Close_Editor
  have "keeps t u (close_editor u)" for u
    using keeps_send [of t "put_latest e u" for e] unfolding keeps_from
    by (simp add: close_editor_def split: option.splits)
  then show ?thesis using Close_Editor keeps_trans [OF keeps_hand_over] by (simp add: after_def)
next
  case Press_Retry
  have "keeps t s (send (s\<lparr>latest := a\<rparr>))" for a
    using keeps_send [of t "s\<lparr>latest := a\<rparr>"] unfolding keeps_from .
  then show ?thesis using Press_Retry by (simp add: after_def retry_save_def split: option.splits)
next
  case Pause_Out
  then show ?thesis
    using keeps_draw [of "s\<lparr>paused_on := p, pausing := None\<rparr>" for p] assms(2)
    by (simp add: after_def split: option.splits)
next
  case (Draw t' words)
  then show ?thesis using assms by (auto simp: after_def concerns_left_def intro!: keeps_draw)
next
  case Gone
  then show ?thesis using assms(1) keeps_leave
    by (auto simp: after_def unmount_def concerns_left_def split: option.splits)
next
  case (Answer_Save i out)
  then show ?thesis using assms(1) by (simp add: after_def keeps_answered_save)
next
  case (Press_Toast lt)
  then show ?thesis using assms(1) by (simp add: after_def concerns_left_def keeps_press)
qed (simp_all add: after_def open_editor_def rebase_editor_def split: option.splits)

subsection \<open>A task left\<close>

text \<open>The editor as the cleanup of its task reads it: as drawn, with the words it still held.\<close>

definition leaving_editor :: "editing \<Rightarrow> document_editor option" where
  "leaving_editor s = (case flushed_editor s of None \<Rightarrow> None
     | Some e \<Rightarrow> Some (case handing s of None \<Rightarrow> e | Some (w, a) \<Rightarrow> editor_typed e w a))"

text \<open>Words the service was heard to save, as the save they were sent in was answered.\<close>

definition answered_saved :: "editing \<Rightarrow> document_editor \<Rightarrow> bool" where
  "answered_saved s e \<longleftrightarrow> (case (flight s, ed_sending e) of
     (Some i, Some r) \<Rightarrow> map_of (answered_saves s) i = Some (Came Saved_Answer) \<and> req_value r = ed_draft e
   | _ \<Rightarrow> False)"

lemma heard_draft [simp]: "ed_draft (hear out e) = ed_draft e"
  by (simp add: hear_def editor_answered_def editor_refused_def Let_def
      split: outcome.splits edit_answer.splits)

lemma heard_base:
  "ed_base (hear out e) = (if out = Came Saved_Answer
     then (case ed_sending e of None \<Rightarrow> ed_base e | Some r \<Rightarrow> req_value r) else ed_base e)"
  by (simp add: hear_def editor_answered_def editor_refused_def Let_def
      split: outcome.splits edit_answer.splits)

lemma save_left_carries:
  assumes "same_account (signed_in s) (left_owner l)" "ed_draft now \<noteq> ed_base now"
  shows "carried_words (save_left l now m s) (left_id l) (ed_draft now)"
proof (cases "leaving_save now")
  case None
  then show ?thesis using assms
    by (simp add: save_left_def keep_left_def Let_def editor_left_def carried_words_def)
next
  case (Some r)
  then show ?thesis using assms
    by (simp add: save_left_def Let_def carried_words_def carried_out_def editor_sent_def)
qed

lemma leave_carries:
  assumes e: "latest (hand_over s) = Some e" "ed_draft e \<noteq> ed_base e"
    and same: "same_account (signed_in s) (wrote_as s)"
    and fl: "ed_sending e \<noteq> None \<longrightarrow> flight s \<noteq> None"
  shows "carried_words (leave_task t s) t (ed_draft e) \<or> answered_saved s e"
proof -
  let ?h = "hand_over s"
  have h: "signed_in ?h = signed_in s" "wrote_as ?h = wrote_as s" "flight ?h = flight s"
    "answered_saves ?h = answered_saves s"
    by (simp_all add: hand_over_def type_text_def changed_def put_latest_def split: option.splits)
  let ?l = "\<lparr>left_id = t, left_owner = wrote_as s\<rparr>"
  show ?thesis
  proof (cases "ed_sending e")
    case None
    then show ?thesis
      using save_left_carries [of "?h\<lparr>next_id := Suc (next_id ?h)\<rparr>" ?l e] e same h
      by (simp add: leave_task_def Let_def save_left_anew_def)
  next
    case (Some r)
    then obtain i where i: "flight s = Some i" using fl by auto
    let ?s1 = "?h\<lparr>next_id := Suc (next_id ?h), saving_left := mark (next_id ?h) True (saving_left ?h)\<rparr>"
    show ?thesis
    proof (cases "map_of (answered_saves s) i")
      case None
      then show ?thesis using e Some i h
        by (simp add: leave_task_def Let_def carried_words_def)
    next
      case (Some out)
      have l: "leave_task t s = save_left ?l (hear out e) (next_id ?h) ?s1"
        using e \<open>ed_sending e = Some r\<close> i Some h by (simp add: leave_task_def Let_def)
      show ?thesis
      proof (cases "ed_draft e = ed_base (hear out e)")
        case True
        then have "out = Came Saved_Answer \<and> req_value r = ed_draft e"
          using e(2) \<open>ed_sending e = Some r\<close> by (auto simp: heard_base split: if_splits)
        then show ?thesis using i Some \<open>ed_sending e = Some r\<close> by (simp add: answered_saved_def)
      next
        case False
        then show ?thesis unfolding l
          using save_left_carries [of ?s1 ?l "hear out e"] same h by simp
      qed
    qed
  qed
qed

lemma words_owner_sel [simp]:
  "latest (words_owner a s) = latest s" "handing (words_owner a s) = handing s"
  "signed_in (words_owner a s) = signed_in s" "wrote_as (words_owner a s) = wrote_as s"
  "flight (words_owner a s) = flight s" "answered_saves (words_owner a s) = answered_saves s"
proof -
  have f: "latest (fold withdraw_toast ts u) = latest u \<and> handing (fold withdraw_toast ts u) = handing u \<and>
      signed_in (fold withdraw_toast ts u) = signed_in u \<and> wrote_as (fold withdraw_toast ts u) = wrote_as u \<and>
      flight (fold withdraw_toast ts u) = flight u \<and>
      answered_saves (fold withdraw_toast ts u) = answered_saves u" for ts u
    by (induction ts arbitrary: u) (simp_all add: withdraw_toast_def)
  show "latest (words_owner a s) = latest s" "handing (words_owner a s) = handing s"
    "signed_in (words_owner a s) = signed_in s" "wrote_as (words_owner a s) = wrote_as s"
    "flight (words_owner a s) = flight s" "answered_saves (words_owner a s) = answered_saves s"
    using f by (simp_all add: words_owner_def)
qed

lemma drawn_hand_over:
  "latest (hand_over (drawn_state t words s)) = leaving_editor s"
  by (simp add: drawn_state_def hand_over_def type_text_def changed_def put_latest_def
      leaving_editor_def split: option.splits prod.splits)

subsection \<open>What stands in every run\<close>

text \<open>Where no save was ever promised no editor sends one; what is kept of a task sends nothing and
  is not what the service holds; and a save of words left holds just those words.\<close>

definition calm :: "document_editor option \<Rightarrow> bool" where
  "calm x \<longleftrightarrow> \<not> is_sending x"

definition calm_update :: "editor_update \<Rightarrow> bool" where
  "calm_update u \<longleftrightarrow> (case u of Put e \<Rightarrow> calm e | _ \<Rightarrow> True)"

definition own_out :: "save_out \<Rightarrow> bool" where
  "own_out x \<longleftrightarrow> (case save_kind x of From_Editor n \<Rightarrow> True
     | From_Left l e m \<Rightarrow> ed_sending e = Some (save_request x) \<and>
         req_value (save_request x) = ed_draft e \<and> ed_draft e \<noteq> ed_base e)"

definition editors_calm :: "editing \<Rightarrow> bool" where
  "editors_calm s \<longleftrightarrow> (flight s = None \<longrightarrow>
     calm (latest s) \<and> calm (drawn_editor s) \<and> list_all calm_update (queued s))"

definition kept_calm :: "editing \<Rightarrow> bool" where
  "kept_calm s \<longleftrightarrow> (\<forall>t e. map_of (left_unsaved s) t = Some e \<longrightarrow>
     ed_sending e = None \<and> ed_draft e \<noteq> ed_base e)"

definition books_ok :: "editing \<Rightarrow> bool" where
  "books_ok s \<longleftrightarrow> editors_calm s \<and> kept_calm s \<and> list_all own_out (outs s)"

lemma calm_simps [simp]: "calm None" "calm (Some e) \<longleftrightarrow> ed_sending e = None"
  by (simp_all add: calm_def)

lemma calm_update_simps [simp]: "calm_update (Put e) = calm e" "calm_update (Land n out)" "calm_update Took"
  by (simp_all add: calm_update_def)

lemma books_upd [simp]:
  "books_ok (s\<lparr>handing := h\<rparr>) = books_ok s" "books_ok (s\<lparr>signed_in := u\<rparr>) = books_ok s"
  "books_ok (s\<lparr>wrote_as := u\<rparr>) = books_ok s" "books_ok (s\<lparr>opened_as := n\<rparr>) = books_ok s"
  "books_ok (s\<lparr>left_toasts := ts\<rparr>) = books_ok s" "books_ok (s\<lparr>open_unsaved := os\<rparr>) = books_ok s"
  "books_ok (s\<lparr>pausing := p\<rparr>) = books_ok s" "books_ok (s\<lparr>paused_on := p\<rparr>) = books_ok s"
  "books_ok (s\<lparr>task_id := i\<rparr>) = books_ok s" "books_ok (s\<lparr>task_text := i\<rparr>) = books_ok s"
  "books_ok (s\<lparr>owner := u\<rparr>) = books_ok s" "books_ok (s\<lparr>answered_saves := v\<rparr>) = books_ok s"
  "books_ok (s\<lparr>stamp := n\<rparr>) = books_ok s" "books_ok (s\<lparr>next_id := n\<rparr>) = books_ok s"
  "books_ok (s\<lparr>saving_left := ms\<rparr>) = books_ok s" "books_ok (s\<lparr>waiters := ws\<rparr>) = books_ok s"
  by (simp_all add: books_ok_def editors_calm_def kept_calm_def)

lemma books_latest [simp]: "books_ok s \<Longrightarrow> calm x \<Longrightarrow> books_ok (s\<lparr>latest := x\<rparr>)"
  by (simp add: books_ok_def editors_calm_def kept_calm_def)

lemma books_queue: "books_ok s \<Longrightarrow> list_all calm_update us \<Longrightarrow> books_ok (s\<lparr>queued := queued s @ us\<rparr>)"
  by (simp add: books_ok_def editors_calm_def kept_calm_def)

lemma books_keep: "books_ok s \<Longrightarrow> books_ok (keep_left l now m s)"
  by (auto simp: keep_left_def Let_def books_ok_def editors_calm_def kept_calm_def editor_left_def
      split: option.splits if_splits)

lemma leaving_saved: "leaving_save now = Some r \<Longrightarrow> req_value r = ed_draft now \<and> ed_draft now \<noteq> ed_base now"
  by (auto simp: leaving_save_def pending_save_def editor_retried_def split: if_splits)

lemma books_save: "books_ok s \<Longrightarrow> books_ok (save_left l now m s)"
proof -
  assume b: "books_ok s"
  have "books_ok (s\<lparr>saving_left := ms, outs := outs s @ [\<lparr>save_id = i, save_task = t, save_request = r,
      save_kind = From_Left l (editor_sent now r) m\<rparr>], next_id := n\<rparr>)"
    if "leaving_save now = Some r" for r ms i t n
    using b leaving_saved [OF that]
    by (simp add: books_ok_def editors_calm_def kept_calm_def own_out_def editor_sent_def)
  then show ?thesis using b by (simp add: save_left_def Let_def books_keep split: option.splits)
qed

lemma books_anew: "books_ok s \<Longrightarrow> books_ok (save_left_anew l now s)"
  by (simp add: save_left_anew_def books_save)

lemma books_wakes: "books_ok s \<Longrightarrow> books_ok (fold (wake_waiter i out) ws s)"
  by (induction ws arbitrary: s) (simp_all add: wake_waiter_def books_save)

lemma books_put:
  assumes "books_ok s" "latest s = Some e" "ed_sending e' = ed_sending e"
  shows "books_ok (put_latest e' s)"
  using assms by (simp add: put_latest_def books_ok_def editors_calm_def kept_calm_def)

lemma books_changed:
  assumes "books_ok s" "\<And>e. ed_sending (f e) = ed_sending e"
  shows "books_ok (changed f s)"
  using assms(1) books_put [OF assms(1)] assms(2) by (simp add: changed_def split: option.splits)

lemma books_hand_over: "books_ok s \<Longrightarrow> books_ok (hand_over s)"
  by (simp add: hand_over_def type_text_def books_changed split: option.splits)

lemma books_send: "books_ok s \<Longrightarrow> books_ok (send s)"
  by (auto simp: send_def put_latest_def books_ok_def editors_calm_def kept_calm_def own_out_def
      split: option.splits)

lemma books_take:
  "books_ok s \<Longrightarrow> books_ok (snd (take_left t s)) \<and> calm (fst (take_left t s))"
  by (auto simp: take_left_def books_ok_def editors_calm_def kept_calm_def split: option.splits)

lemma books_leave: "books_ok s \<Longrightarrow> books_ok (leave_task t s)"
  by (simp add: leave_task_def Let_def books_hand_over books_anew books_save split: option.splits)

lemma calm_flushed: "books_ok s \<Longrightarrow> flight s = None \<Longrightarrow> calm (flushed_editor s)"
proof -
  have "list_all calm_update us \<Longrightarrow> calm x \<Longrightarrow> calm (fold (apply_update n) us x)" for us x n
  proof (induction us arbitrary: x)
    case (Cons u us)
    have "ed_sending (hear out e) = None" for out e
      by (simp add: hear_def editor_answered_def editor_refused_def Let_def
          split: outcome.splits edit_answer.splits)
    then have "calm (apply_update n u x)" using Cons.prems
      by (cases u; cases x) (auto simp: apply_update_def)
    then show ?case using Cons by simp
  qed simp
  then show "books_ok s \<Longrightarrow> flight s = None \<Longrightarrow> calm (flushed_editor s)"
    by (simp add: flushed_editor_def books_ok_def editors_calm_def)
qed

lemma books_words_owner: "books_ok s \<Longrightarrow> books_ok (words_owner a s)"
proof -
  have "books_ok u \<Longrightarrow> books_ok (fold withdraw_toast ts u)" for ts u
    by (induction ts arbitrary: u) (simp_all add: withdraw_toast_def)
  moreover have "books_ok u \<Longrightarrow> books_ok (u\<lparr>left_unsaved := []\<rparr>)" for u
    by (simp add: books_ok_def editors_calm_def kept_calm_def)
  ultimately show "books_ok s \<Longrightarrow> books_ok (words_owner a s)" by (simp add: words_owner_def)
qed

lemma books_drawn: "books_ok s \<Longrightarrow> books_ok (drawn_state t words s)"
  unfolding drawn_state_def using calm_flushed [of s]
  by (intro books_words_owner) (simp add: books_ok_def editors_calm_def kept_calm_def)

lemma books_effects:
  assumes "books_ok u"
  shows "books_ok (close_or_save (save_paused (follow_account b (mark_open a t u))))"
proof -
  have 1: "books_ok (follow_account b (mark_open a t u))"
    using assms books_queue [of "u\<lparr>latest := None\<rparr>" "[Put None]"] by (simp add: follow_account_def mark_open_def Let_def books_ok_def
      editors_calm_def kept_calm_def)
  have 2: "books_ok v \<Longrightarrow> books_ok (save_paused v)" for v by (simp add: save_paused_def books_send)
  have 3: "books_ok v \<Longrightarrow> books_ok (close_or_save v)" for v
    using books_queue [of v "[Put None]"] by (simp add: close_or_save_def books_send split: option.splits)
  show ?thesis by (rule 3 [OF 2 [OF 1]])
qed

lemma books_take_up: "books_ok s \<Longrightarrow> books_ok (take_up_task t s)"
proof -
  assume "books_ok s"
  then have "books_ok (s\<lparr>opened_as := n\<rparr>)" for n by simp
  note k = books_take [OF this, where t = t]
  show ?thesis
    using k \<open>books_ok s\<close>
    by (simp add: take_up_task_def Let_def take_left_def withdraw_toast_def books_ok_def
        editors_calm_def kept_calm_def split: option.splits)
qed

lemma books_draw: "books_ok s \<Longrightarrow> books_ok (draw t words s)"
proof -
  assume "books_ok s"
  then have "books_ok (left_state t words s)"
    by (simp add: left_state_def books_leave books_drawn split: option.splits)
  then have "books_ok (effects_state t words s)" unfolding effects_state_def by (rule books_effects)
  then show "books_ok (draw t words s)" by (simp add: draw_states books_take_up)
qed

lemma books_answer: "books_ok s \<Longrightarrow> books_ok (answer_save i out s)"
proof -
  assume b: "books_ok s"
  have "books_ok (s\<lparr>outs := remove1 x (outs s)\<rparr>)" for x
    using b by (auto simp: books_ok_def editors_calm_def kept_calm_def list_all_iff dest: subsetD [OF set_remove1_subset])
  moreover have "books_ok (s\<lparr>outs := remove1 x (outs s), queued := queued s @ [Land n out],
      answered_saves := v\<rparr>)" for x n v
    using books_queue [OF calculation [of x], of "[Land n out]"] by simp
  ultimately show "books_ok (answer_save i out s)" using b
    by (simp add: answer_save_def Let_def books_keep books_wakes split: option.splits save_kind.splits)
qed

lemma books_press: "books_ok s \<Longrightarrow> books_ok (press_toast d l s)"
  using books_take [of s "left_id l"]
  by (cases "take_left (left_id l) s") (auto simp: press_toast_def books_anew split: option.splits)

lemma books_after:
  assumes b: "books_ok s"
  shows "books_ok (after d l s)"
proof (cases l)
  case Open_Editor
  have "books_ok (s\<lparr>opened_as := n, wrote_as := u, queued := queued s @ [Put (Some (editor_opened t))]\<rparr>)"
    for n u t using books_queue [of "s\<lparr>opened_as := n, wrote_as := u\<rparr>" "[Put (Some (editor_opened t))]"] b
    by (simp add: editor_opened_def)
  then show ?thesis using Open_Editor b
    by (simp add: after_def open_editor_def split: option.splits)
next
  case Close_Editor
  have "books_ok (close_editor u)" if "books_ok u" for u
    using that books_put [OF that, of e "editor_close_asked e" for e]
    by (simp add: close_editor_def books_send editor_close_asked_def split: option.splits)
  then show ?thesis using Close_Editor books_hand_over [OF b] by (simp add: after_def)
next
  case Press_Retry
  have "books_ok (s\<lparr>latest := Some (editor_retried e)\<rparr>)" if "latest s = Some e" for e
    using that b by (simp add: books_ok_def editors_calm_def kept_calm_def editor_retried_def)
  then show ?thesis using Press_Retry b
    by (simp add: after_def retry_save_def books_send split: option.splits)
next
  case (Take_In bs w)
  then show ?thesis using b books_put [OF b, of e "editor_rebased e bs w" for e]
    by (simp add: after_def rebase_editor_def editor_rebased_def split: option.splits)
next
  case Gone
  then show ?thesis using b books_leave [OF b]
    by (simp add: after_def unmount_def books_ok_def editors_calm_def kept_calm_def split: option.splits)
next
  case Press_Take_Theirs
  then show ?thesis using books_queue [OF b, of "[Took]"] by (simp add: after_def)
next
  case Pause_Out
  then show ?thesis using b by (simp add: after_def books_draw split: option.splits)
qed (use b in \<open>simp_all add: after_def books_hand_over books_changed books_answer books_press books_draw\<close>)

lemma books_run: "books_ok s \<Longrightarrow> books_ok (run d ls s)"
  by (induction ls arbitrary: s) (simp_all add: run_def books_after)

lemma books_new: "books_ok (new_editing who)"
  by (simp add: books_ok_def editors_calm_def kept_calm_def new_editing_def)

lemma flight_held:
  assumes "books_ok s" "leaving_editor s = Some e" "ed_sending e \<noteq> None"
  shows "flight s \<noteq> None"
proof
  assume "flight s = None"
  then have "calm (flushed_editor s)" by (rule calm_flushed [OF assms(1)])
  then show False using assms(2,3) by (auto simp: leaving_editor_def split: option.splits prod.splits)
qed

subsection \<open>Properties\<close>

text \<open>C29: a task left for another with words the service does not hold, by the account that wrote
  them, has its words carried once the other task is drawn: right after that draw they are kept for it,
  or in a save out, or waiting on the save before, unless the save they were sent in was already answered
  saved. What a later step may do to words carried is not said here.\<close>

theorem leaving_carries_the_words:
  assumes "task_id s = Some t" "t' \<noteq> t" and "leaving_editor s = Some e"
    and "ed_draft e \<noteq> ed_base e" and "same_account (signed_in s) (wrote_as s)"
    and "s = run d ls (new_editing who)"
  shows "carried_words (after d (Draw t' words) s) t (ed_draft e) \<or> answered_saved s e"
proof -
  let ?d = "drawn_state t' words s"
  have sel: "signed_in ?d = signed_in s" "wrote_as ?d = wrote_as s" "flight ?d = flight s"
    "answered_saves ?d = answered_saves s" by (simp_all add: drawn_state_def)
  have "carried_words (leave_task t ?d) t (ed_draft e) \<or> answered_saved ?d e"
  proof (rule leave_carries)
    show "ed_sending e \<noteq> None \<longrightarrow> flight ?d \<noteq> None"
      using flight_held [of s e] books_run [OF books_new] assms(3,6) sel by simp
  qed (use assms sel in \<open>simp_all add: drawn_hand_over\<close>)
  moreover have "left_state t' words s = leave_task t ?d"
    using assms(1,2) by (simp add: left_state_def)
  moreover have "keeps t (left_state t' words s) (draw t' words s)"
    unfolding draw_states effects_state_def
    using assms(2) by (auto intro: keeps_effects keeps_trans [OF keeps_effects keeps_take_up])
  moreover have "answered_saved ?d e = answered_saved s e"
    unfolding answered_saved_def sel by (rule refl)
  ultimately show ?thesis using keeps_carried by (auto simp: after_def)
qed

lemma leaving_carries_the_words_witness:
  "carried_words (after side_diff (Draw ''v'' (Some ''a'')) (ran left_with_words)) ''t'' ''b''"
proof -
  let ?s = "ran left_with_words"
  have "task_id ?s = Some ''t''" by code_simp
  moreover have "(''v''::string) \<noteq> ''t''" by simp
  moreover obtain e where e: "leaving_editor ?s = Some e" "ed_draft e = ''b''" "ed_base e = ''a''"
    "ed_sending e = None"
  proof -
    have "(case leaving_editor ?s of None \<Rightarrow> False
      | Some e \<Rightarrow> ed_draft e = ''b'' \<and> ed_base e = ''a'' \<and> ed_sending e = None)" by code_simp
    then show thesis using that by (auto split: option.splits)
  qed
  moreover have "same_account (signed_in ?s) (wrote_as ?s)" by code_simp
  ultimately have "carried_words (after side_diff (Draw ''v'' (Some ''a'')) ?s) ''t'' (ed_draft e) \<or>
      answered_saved ?s e"
    using leaving_carries_the_words [of ?s "''t''" "''v''" e side_diff left_with_words ann "Some ''a''"]
    by (simp add: ran_def)
  then show ?thesis using e by (auto simp: answered_saved_def split: option.splits)
qed

text \<open>Words carried stay carried through every step that does not concern them: whatever is
  typed, pressed, answered and drawn of other tasks while the account stays signed in.\<close>

theorem carried_words_stay:
  assumes "carried_words s t w" and "\<not> concerns_left l s t"
    and "same_account (owner s) (signed_in s)"
  shows "carried_words (after d l s) t w"
  using keeps_carried [OF keeps_after [OF assms(2,3)] assms(1)] .

lemma carried_words_stay_witness:
  "carried_words (after side_diff Open_Editor (ran (left_with_words @ turned_to ''v'' ''a''))) ''t'' ''b''"
proof (rule carried_words_stay)
  show "carried_words (ran (left_with_words @ turned_to ''v'' ''a'')) ''t'' ''b''" by code_simp
  show "\<not> concerns_left Open_Editor (ran (left_with_words @ turned_to ''v'' ''a'')) ''t''" by code_simp
  show "same_account (owner (ran (left_with_words @ turned_to ''v'' ''a'')))
      (signed_in (ran (left_with_words @ turned_to ''v'' ''a'')))" by code_simp
qed

text \<open>C30: where the save of words left is answered to the account that wrote them, the service holds
  just those words, or they are kept for the task as they were typed.\<close>

theorem left_save_lands_or_keeps:
  assumes "s = run d ls (new_editing who)" and "next_of_task i s"
    and "List.find (\<lambda>x. save_id x = i) (outs s) = Some x" and "save_kind x = From_Left l e m"
    and "same_account (signed_in s) (left_owner l)"
  shows "case map_of (left_unsaved (after d (Answer_Save i out) s)) (left_id l) of
      None \<Rightarrow> out = Came Saved_Answer \<and> req_value (save_request x) = ed_draft e
    | Some kept \<Rightarrow> out \<noteq> Came Saved_Answer \<and> ed_draft kept = ed_draft e"
proof -
  have "x \<in> set (outs s)" using find_SomeD [OF assms(3)] by simp
  then have own: "ed_sending e = Some (save_request x)" "req_value (save_request x) = ed_draft e"
    "ed_draft e \<noteq> ed_base e"
    using books_run [OF books_new, of d ls who] assms(1,4)
    by (auto simp: books_ok_def list_all_iff own_out_def)
  have "after d (Answer_Save i out) s = keep_left l (hear out e) m (s\<lparr>outs := remove1 x (outs s)\<rparr>)"
    using assms by (simp add: after_def answer_save_def Let_def)
  then show ?thesis using own assms(5)
    by (simp add: keep_left_def Let_def editor_left_def heard_base)
qed

lemma left_save_lands_or_keeps_witness:
  "(case map_of (left_unsaved (after side_diff (Answer_Save 1 (Threw ''n''))
      (ran (left_with_words @ turned_to ''v'' ''a'')))) ''t'' of
    None \<Rightarrow> False | Some kept \<Rightarrow> ed_draft kept = ''b'')"
proof -
  let ?s = "ran (left_with_words @ turned_to ''v'' ''a'')"
  have "next_of_task 1 ?s" by code_simp
  moreover have "same_account (signed_in ?s) ann" by code_simp
  moreover obtain x e m where "List.find (\<lambda>x. save_id x = 1) (outs ?s) = Some x"
    "save_kind x = From_Left \<lparr>left_id = ''t'', left_owner = ann\<rparr> e m" "ed_draft e = ''b''"
  proof -
    have "(case List.find (\<lambda>x. save_id x = 1) (outs ?s) of None \<Rightarrow> False
      | Some x \<Rightarrow> (case save_kind x of From_Editor n \<Rightarrow> False
         | From_Left l e m \<Rightarrow> l = \<lparr>left_id = ''t'', left_owner = ann\<rparr> \<and> ed_draft e = ''b''))"
      by code_simp
    then show thesis using that by (auto split: option.splits save_kind.splits)
  qed
  ultimately show ?thesis
    using left_save_lands_or_keeps [of ?s side_diff "left_with_words @ turned_to ''v'' ''a''" ann 1 x
        "\<lparr>left_id = ''t'', left_owner = ann\<rparr>" e m "Threw ''n''"]
    by (auto simp: ran_def split: option.splits)
qed

end
