(* ===== verification/Editing_Faults.thy ===== *)
theory Editing_Faults
  imports Editing_Words
begin

text \<open>
  Three orders of events in which the one editor's saves go wrong, each a run of the window's model:
  words typed between a save's answer and the draw that shows it put the answered save back
  (\<open>typed_over_answer_sticks\<close>), a task left twice lets go of the first words as the second save
  lands (\<open>second_save_drops_the_first\<close>), and an answer drawn in the same commit as another task
  sends the words still unsaved to that task too (\<open>words_sent_to_the_next_task\<close>).
\<close>

lemma is_sending_code [code]:
  "is_sending x \<longleftrightarrow> (case x of None \<Rightarrow> False | Some e \<Rightarrow> ed_sending e \<noteq> None)"
  by (simp add: is_sending_def split: option.splits)

subsection \<open>Words typed over an answer\<close>

definition stuck :: "editing \<Rightarrow> bool" where
  "stuck s \<longleftrightarrow> is_sending (latest s) \<and> is_sending (drawn_editor s) \<and> is_sending (flushed_editor s) \<and>
     open_outs s = []"

text \<open>A step of the same task, the same account signed in.\<close>

definition in_place :: "editing_label \<Rightarrow> editing \<Rightarrow> bool" where
  "in_place l s \<longleftrightarrow> signed_in s = owner s \<and> task_id s \<noteq> None \<and>
     (case l of Draw t words \<Rightarrow> task_id s = Some t | Gone \<Rightarrow> False | Sign_In a \<Rightarrow> False | _ \<Rightarrow> True)"

fun all_in_place :: "line_diff \<Rightarrow> editing_label list \<Rightarrow> editing \<Rightarrow> bool" where
  "all_in_place d [] s \<longleftrightarrow> True"
| "all_in_place d (l # ls) s \<longleftrightarrow> in_place l s \<and> all_in_place d ls (after d l s)"

lemma same_account_refl [simp]: "same_account a a"
  by (simp add: same_account_def split: option.splits)

lemma sending_waits: "is_sending (latest s) \<Longrightarrow> send s = s"
  by (auto simp: send_def is_sending_def pending_save_def)

lemma stuck_core: "core_of s' = core_of s \<Longrightarrow> stuck s' = stuck s"
  using core_of_outs [of s' s] by (simp add: stuck_def flushed_editor_def core_of_def)

lemma stuck_upd [simp]:
  "stuck (s\<lparr>stamp := n\<rparr>) = stuck s" "stuck (s\<lparr>pausing := p\<rparr>) = stuck s"
  "stuck (s\<lparr>paused_on := p\<rparr>) = stuck s" "stuck (s\<lparr>handing := h\<rparr>) = stuck s"
  by (simp_all add: stuck_def open_outs_def flushed_editor_def)

lemma stuck_put:
  assumes "stuck s" "latest s = Some e" "ed_sending e' = ed_sending e"
  shows "stuck (put_latest e' s)"
proof -
  have "open_outs (put_latest e' s) = open_outs s" by (simp add: open_outs_def)
  moreover have "drawn_editor (put_latest e' s) = drawn_editor s" by (simp add: put_latest_def)
  ultimately show ?thesis using assms by (simp add: stuck_def)
qed

lemma stuck_changed: "stuck s \<Longrightarrow> (\<And>e. ed_sending (f e) = ed_sending e) \<Longrightarrow> stuck (changed f s)"
  using stuck_put [of s e "f e" for e] by (simp add: changed_def split: option.splits)

lemma stuck_hand_over: "stuck s \<Longrightarrow> stuck (hand_over s)"
  by (simp add: hand_over_def type_text_def stuck_changed split: option.splits)

lemma stuck_send: "stuck s \<Longrightarrow> stuck (send s)"
  by (simp add: sending_waits stuck_def)

lemma stuck_draw:
  assumes s: "stuck s" and t: "task_id s = Some t" and o: "signed_in s = owner s"
  shows "stuck (draw t words s)"
proof -
  define u where "u = drawn_state t words s"
  have u: "u = s\<lparr>drawn_editor := flushed_editor s, queued := [], latest := flushed_editor s,
      task_id := Some t, task_text := words, owner := signed_in s\<rparr>"
    using o by (simp add: u_def drawn_state_def words_owner_def)
  have su: "stuck u" using s by (simp add: u stuck_def open_outs_def flushed_editor_def)
  have ow: "owner u = owner s" using o by (simp add: u)
  define v where "v = mark_open (task_id s) t u"
  have sv: "stuck v" unfolding v_def using stuck_core [OF core_mark_open] su by simp
  have "owner v = owner s" using ow by (simp add: v_def mark_open_def Let_def)
  then have f: "follow_account (owner s) v = v" by (simp add: follow_account_def)
  have p: "save_paused v = v" using sv by (simp add: save_paused_def sending_waits stuck_def)
  have c: "close_or_save v = v"
    using sv by (auto simp: close_or_save_def sending_waits stuck_def editor_closes_def split: option.splits)
  have "draw t words s = v"
    using t f p c by (simp add: draw_states effects_state_def left_state_def u_def v_def)
  then show ?thesis using sv by simp
qed

lemma stuck_answer:
  assumes s: "stuck s"
  shows "stuck (answer_save i out s)"
proof (cases "List.find (\<lambda>x. save_id x = i) (outs s)")
  case None
  then show ?thesis using s by (simp add: answer_save_def)
next
  case (Some x)
  then have x: "x \<in> set (outs s)" by (rule find_SomeD [THEN conjunct1])
  have none: "filter (of_opening (opened_as s)) (outs s) = []" using s by (simp add: stuck_def open_outs_def)
  then have "\<not> of_opening (opened_as s) x" using x by (auto simp: filter_empty_conv)
  then have other: "save_kind x = From_Editor n \<Longrightarrow> n \<noteq> opened_as s" for n by (auto simp: of_opening_def)
  have rest: "filter (of_opening (opened_as s)) (remove1 x (outs s)) = []"
    using none by (simp add: filter_remove1)
  have "stuck (s\<lparr>outs := remove1 x (outs s)\<rparr>)"
    using s rest by (simp add: stuck_def open_outs_def flushed_editor_def)
  moreover have "stuck (s\<lparr>outs := remove1 x (outs s), queued := queued s @ [Land n out],
      answered_saves := v\<rparr>)" if "n \<noteq> opened_as s" for n v
    using s rest that by (simp add: stuck_def open_outs_def flushed_editor_def apply_update_def)
  ultimately show ?thesis using Some other stuck_core [OF core_keep_left] stuck_core [OF core_wakes]
    by (cases "save_kind x") (simp_all add: answer_save_def Let_def)
qed

lemma stuck_after:
  assumes s: "stuck s" and l: "in_place l s"
  shows "stuck (after d l s)"
proof (cases l)
  case Open_Editor
  have "open_editor s = s"
    using s by (auto simp: open_editor_def stuck_def editor_closes_def editor_close_asked_def
        split: option.splits)
  then show ?thesis using Open_Editor s by (simp add: after_def)
next
  case Close_Editor
  have "stuck (close_editor u)" if "stuck u" for u
    using that stuck_put [OF that, of e "editor_close_asked e" for e]
    by (simp add: close_editor_def stuck_send editor_close_asked_def split: option.splits)
  then show ?thesis using Close_Editor stuck_hand_over [OF s] by (simp add: after_def)
next
  case Press_Take_Theirs
  have "is_sending (flushed_editor (s\<lparr>queued := queued s @ [Took]\<rparr>)) = is_sending (flushed_editor s)"
    by (cases "flushed_editor s") (simp_all add: flushed_editor_def apply_update_def)
  then show ?thesis using Press_Take_Theirs s by (simp add: after_def stuck_def open_outs_def)
next
  case Press_Retry
  have "stuck (s\<lparr>latest := Some (editor_retried e)\<rparr>)" if "latest s = Some e" for e
    using that s by (simp add: stuck_def open_outs_def flushed_editor_def editor_retried_def)
  then show ?thesis using Press_Retry s
    by (simp add: after_def retry_save_def stuck_send split: option.splits)
next
  case (Take_In b w)
  then show ?thesis using s stuck_put [OF s, of e "editor_rebased e b w" for e]
    by (simp add: after_def rebase_editor_def editor_rebased_def split: option.splits)
next
  case Pause_Out
  have "stuck (draw t (task_text s) (s\<lparr>paused_on := p, pausing := None\<rparr>))" if "task_id s = Some t" for t p
    by (rule stuck_draw) (use s l that in \<open>simp_all add: in_place_def\<close>)
  then show ?thesis using Pause_Out s by (simp add: after_def split: option.splits)
next
  case (Draw t words)
  then show ?thesis using s l by (simp add: after_def in_place_def stuck_draw)
next
  case (Hold_Words w a)
  then show ?thesis using s by (simp add: after_def)
qed (use s l in \<open>simp_all add: after_def in_place_def stuck_hand_over stuck_changed stuck_answer
  stuck_core [OF core_press]\<close>)

lemma stuck_run: "stuck s \<Longrightarrow> all_in_place d ls s \<Longrightarrow> stuck (run d ls s)"
  by (induction ls arbitrary: s) (simp_all add: run_def stuck_after)

subsection \<open>Properties\<close>

text \<open>Words typed after a save was answered and before the answer is drawn put the editor back
  as it was before the answer, its save still marked out with none out; from then on, whatever the
  developer does on the task, no save of that editor goes out and it never closes.\<close>

theorem typed_over_answer_sticks:
  assumes "all_in_place side_diff ls (ran typed_over_answer)"
  shows "open_outs (run side_diff ls (ran typed_over_answer)) = [] \<and>
    (case latest (run side_diff ls (ran typed_over_answer)) of None \<Rightarrow> False
     | Some e \<Rightarrow> pending_save e = None \<and> \<not> editor_closes e)"
proof -
  have "stuck (ran typed_over_answer)"
    unfolding stuck_def by code_simp
  then have "stuck (run side_diff ls (ran typed_over_answer))" using assms by (rule stuck_run)
  then show ?thesis by (auto simp: stuck_def is_sending_def pending_save_def editor_closes_def)
qed

lemma typed_over_answer_sticks_witness:
  "open_outs (run side_diff (typed_in ''d'' @ [Pause_Out, Close_Editor]) (ran typed_over_answer)) = []"
proof -
  have "all_in_place side_diff (typed_in ''d'' @ [Pause_Out, Close_Editor]) (ran typed_over_answer)"
    by code_simp
  then show ?thesis using typed_over_answer_sticks by blast
qed

text \<open>A task left with words whose save is still out, opened again and left with others: where the
  first save fails and the second lands, the first words are nowhere, and nothing marks them unsaved.\<close>

theorem second_save_drops_the_first:
  "carried_words (ran left_twice) ''t'' ''b'' \<and>
   carried_words (ran (left_twice @ [Answer_Save 1 (Came (Failure_Answer Unanswered))])) ''t'' ''b'' \<and>
   \<not> carried_words (ran (left_twice @ [Answer_Save 1 (Came (Failure_Answer Unanswered)),
      Answer_Save 3 (Came Saved_Answer)])) ''t'' ''b'' \<and>
   \<not> words_unsaved (ran (left_twice @ [Answer_Save 1 (Came (Failure_Answer Unanswered)),
      Answer_Save 3 (Came Saved_Answer)]))"
  by (intro conjI) code_simp+

text \<open>An editor asked to close, its save answered and another task opened in one draw: the words
  typed since are sent for their own task, and by the closing editor's effect for the other too.\<close>

theorem words_sent_to_the_next_task:
  "map (\<lambda>x. (save_task x, req_base (save_request x), req_value (save_request x))) (outs (ran answered_with_turn)) =
     [(''t'', ''b'', ''c''), (''v'', ''b'', ''c'')]"
  by code_simp

end
