(* ===== verification/Text_Space.thy ===== *)
theory Text_Space
  imports Text_Lines
begin

text \<open>
  White space as JavaScript's \<open>trim\<close>, \<open>trimEnd\<close> and \<open>\s\<close> have it, for the characters below 256: tab,
  line feed, vertical tab, form feed, carriage return, space and the no-break space.
\<close>

definition white :: "char \<Rightarrow> bool" where
  "white c \<longleftrightarrow> c \<in> set [CHR 0x09, CHR 0x0A, CHR 0x0B, CHR 0x0C, CHR 0x0D, CHR 0x20, CHR 0xA0]"

text \<open>\<open>[ \t]\<close>.\<close>

definition is_blank :: "char \<Rightarrow> bool" where
  "is_blank c \<longleftrightarrow> c = CHR 0x20 \<or> c = CHR 0x09"

definition trim_end :: "string \<Rightarrow> string" where
  "trim_end s = rev (dropWhile white (rev s))"

definition trim :: "string \<Rightarrow> string" where
  "trim s = trim_end (dropWhile white s)"

lemma white_newline [simp]: "white newline"
  by (simp add: white_def newline_def)

lemma blank_white: "is_blank c \<Longrightarrow> white c"
  by (auto simp: is_blank_def white_def)

lemma blank_newline [simp]: "\<not> is_blank newline"
  by (simp add: is_blank_def newline_def)

lemma trim_end_Nil [simp]: "trim_end [] = []"
  by (simp add: trim_end_def)

lemma trim_Nil [simp]: "trim [] = []"
  by (simp add: trim_def)

lemma trim_end_append_space: "\<forall>c \<in> set w. white c \<Longrightarrow> trim_end (s @ w) = trim_end s"
  using dropWhile_append2 [of "rev w" white "rev s"] by (simp add: trim_end_def)

lemma trim_end_split: "\<exists>w. s = trim_end s @ w \<and> (\<forall>c \<in> set w. white c)"
proof -
  have "s = rev (takeWhile white (rev s) @ dropWhile white (rev s))" by simp
  then have "s = trim_end s @ rev (takeWhile white (rev s))" unfolding trim_end_def rev_append .
  moreover have "\<forall>c \<in> set (rev (takeWhile white (rev s))). white c" by (auto dest: set_takeWhileD)
  ultimately show ?thesis by blast
qed

lemma trim_end_last: "trim_end s \<noteq> [] \<Longrightarrow> \<not> white (last (trim_end s))"
proof -
  assume ne: "trim_end s \<noteq> []"
  then have "dropWhile white (rev s) \<noteq> []" by (simp add: trim_end_def)
  from hd_dropWhile [OF this] show ?thesis by (simp add: trim_end_def last_rev)
qed

lemma trim_end_id: "s = [] \<or> \<not> white (last s) \<Longrightarrow> trim_end s = s"
  by (cases s rule: rev_cases) (auto simp: trim_end_def)

lemma trim_end_idem [simp]: "trim_end (trim_end s) = trim_end s"
  using trim_end_last by (intro trim_end_id) blast

lemma trim_end_all_space: "trim_end s = [] \<longleftrightarrow> (\<forall>c \<in> set s. white c)"
  by (simp add: trim_end_def dropWhile_eq_Nil_conv)

lemma trim_all_space: "trim s = [] \<longleftrightarrow> (\<forall>c \<in> set s. white c)"
proof
  assume "trim s = []"
  then have all: "\<forall>c \<in> set (dropWhile white s). white c" by (simp add: trim_def trim_end_all_space)
  have "dropWhile white s = []"
    using all hd_dropWhile [of white s] hd_in_set [of "dropWhile white s"] by blast
  then show "\<forall>c \<in> set s. white c" by (simp add: dropWhile_eq_Nil_conv)
next
  assume "\<forall>c \<in> set s. white c"
  then have "dropWhile white s = []" by (simp add: dropWhile_eq_Nil_conv)
  then show "trim s = []" unfolding trim_def by (simp only: trim_end_Nil)
qed

lemma trim_end_append_word: "r \<noteq> [] \<Longrightarrow> \<not> white (last r) \<Longrightarrow> trim_end (s @ r) = s @ r"
  by (rule trim_end_id) simp

text \<open>Words that end on no space stand at the front of whatever they open, trimmed.\<close>

lemma trim_end_keeps_front: "s = [] \<or> \<not> white (last s) \<Longrightarrow> \<exists>w. trim_end (s @ r) = s @ w"
proof (cases "trim_end r = []")
  case True
  assume "s = [] \<or> \<not> white (last s)"
  with True show ?thesis
    by (auto simp: trim_end_all_space trim_end_append_space trim_end_id intro!: exI [of _ "[]"])
next
  case False
  obtain w where w: "r = trim_end r @ w" "\<forall>c \<in> set w. white c" using trim_end_split by blast
  have "trim_end (s @ r) = trim_end ((s @ trim_end r) @ w)" using w(1) by simp
  also have "\<dots> = trim_end (s @ trim_end r)" using w(2) by (rule trim_end_append_space)
  also have "\<dots> = s @ trim_end r" using False trim_end_last [of r] by (intro trim_end_append_word) auto
  finally show ?thesis by blast
qed

lemma length_trim_end: "length (trim_end s) \<le> length s"
proof -
  obtain w where "s = trim_end s @ w" using trim_end_split by blast
  from arg_cong [OF this, of length] show ?thesis by simp
qed

lemma trim_end_take: "trim_end s = take (length (trim_end s)) s"
  by (metis append_eq_conv_conj trim_end_split)

lemma join_append: "as \<noteq> [] \<Longrightarrow> bs \<noteq> [] \<Longrightarrow> join_lines (as @ bs) = join_lines as @ newline # join_lines bs"
proof (induction as)
  case Nil
  then show ?case by simp
next
  case (Cons a as)
  then show ?case by (cases as) (simp_all add: join_Cons)
qed

lemma split_append_break: "split_lines (s @ newline # t) = split_lines s @ split_lines t"
proof (induction s)
  case Nil
  then show ?case by simp
next
  case (Cons c s)
  obtain l ls where "split_lines s = l # ls" by (cases "split_lines s") auto
  with Cons show ?case by simp
qed

lemma length_join: "ls \<noteq> [] \<Longrightarrow> length (join_lines ls) + 1 = sum_list (map (\<lambda>l. length l + 1) ls)"
  by (induction ls rule: join_lines.induct) auto

text \<open>A text with more written on its end: its last line grows, and the lines after it follow.\<close>

lemma split_append: "split_lines (s @ t) = butlast (split_lines s) @ (last (split_lines s) @ hd (split_lines t)) # tl (split_lines t)"
proof (induction s)
  case Nil
  then show ?case by (cases "split_lines t") auto
next
  case (Cons c s)
  obtain l ls where s: "split_lines s = l # ls" by (cases "split_lines s") auto
  show ?case
  proof (cases "ls = []")
    case True
    then show ?thesis using Cons s by (cases "c = newline") auto
  next
    case False
    then show ?thesis using Cons s by (cases "c = newline") auto
  qed
qed

end
