(* ===== verification/Description_Sections.thy ===== *)
theory Description_Sections
  imports Text_Space
begin

text \<open>
  A description's sections: \<open>features/src/description-document.ts\<close>, its fences, its headings and
  \<open>descriptionSections\<close>. A pattern is written as the walk it stands for: each of them matches in one
  way alone, so the greedy reading is the whole of it. A section's \<open>from\<close> and \<open>to\<close> are offsets in
  the text, its \<open>heading\<close> the words it is known by.
\<close>

subsection \<open>Fences\<close>

text \<open>\<open>^ {0,n}\<close>: up to \<open>n\<close> spaces taken off.\<close>

fun unindent :: "nat \<Rightarrow> string \<Rightarrow> string" where
  "unindent (Suc n) (c # cs) = (if c = CHR '' '' then unindent n cs else c # cs)"
| "unindent n cs = cs"

definition fence_char :: "char \<Rightarrow> bool" where
  "fence_char c \<longleftrightarrow> c = CHR 0x60 \<or> c = CHR 0x7E"

text \<open>The run a fence's line opens on and what stands after it, as both patterns read one.\<close>

definition fence_run :: "string \<Rightarrow> (string \<times> string) option" where
  "fence_run line =
     (case unindent 3 line of
        [] \<Rightarrow> None
      | c # cs \<Rightarrow>
          if fence_char c \<and> 3 \<le> length (takeWhile ((=) c) (c # cs))
          then Some (takeWhile ((=) c) (c # cs), dropWhile ((=) c) (c # cs)) else None)"

definition opening_fence :: "string \<Rightarrow> string option" where
  "opening_fence line = map_option fst (fence_run line)"

definition closing_fence :: "string \<Rightarrow> string option" where
  "closing_fence line =
     (case fence_run line of
        None \<Rightarrow> None
      | Some (run, rest) \<Rightarrow> if list_all is_blank rest then Some run else None)"

definition fence_after :: "string option \<Rightarrow> string \<Rightarrow> string option" where
  "fence_after open line =
     (case (if open = None then opening_fence line else closing_fence line) of
        None \<Rightarrow> open
      | Some fence \<Rightarrow>
          (case open of
             None \<Rightarrow> Some fence
           | Some standing \<Rightarrow>
               if hd fence = hd standing \<and> length standing \<le> length fence then None else open))"

text \<open>\<open>openFenceAt\<close>, over the lines from \<open>at\<close> on.\<close>

fun open_fence_from :: "nat \<Rightarrow> nat \<Rightarrow> string option \<Rightarrow> string list \<Rightarrow> string option" where
  "open_fence_from offset at open [] = open"
| "open_fence_from offset at open (line # ls) =
     (if offset \<le> at + length line then open
      else open_fence_from offset (at + length line + 1) (fence_after open line) ls)"

definition open_fence_at :: "string \<Rightarrow> nat \<Rightarrow> string option" where
  "open_fence_at t offset = open_fence_from offset 0 None (split_lines t)"

subsection \<open>Headings\<close>

text \<open>The walk back over the closing hashes: where the words before them end.\<close>

fun hash_end :: "string \<Rightarrow> nat \<Rightarrow> nat" where
  "hash_end w 0 = 0"
| "hash_end w (Suc n) = (if w ! n = CHR ''#'' then hash_end w n else Suc n)"

definition without_closing_hashes :: "string \<Rightarrow> string" where
  "without_closing_hashes w =
     (let e = hash_end w (length w)
      in if e = length w then w
         else if e = 0 then []
         else if is_blank (w ! (e - 1)) then trim_end (take e w) else w)"

definition max_heading_chars :: nat where
  "max_heading_chars = 1000"

text \<open>\<open>SECTION_OPENER\<close>, and the words after it.\<close>

definition opened_section :: "string \<Rightarrow> string option" where
  "opened_section line =
     (let s = unindent 3 line; n = length (takeWhile ((=) CHR ''#'') s)
      in if (n = 1 \<or> n = 2) \<and> (drop n s = [] \<or> is_blank (hd (drop n s))) then Some (drop n s) else None)"

definition heading_of :: "string \<Rightarrow> string option" where
  "heading_of line =
     map_option (\<lambda>rest. take max_heading_chars (without_closing_hashes (trim rest))) (opened_section line)"

subsection \<open>Sections\<close>

record description_section =
  sec_heading :: string
  sec_text :: string
  sec_from :: nat
  sec_to :: nat

record section_lines =
  sl_heading :: string
  sl_from :: nat
  sl_lines :: "string list"

definition standing_section :: "section_lines \<Rightarrow> bool" where
  "standing_section s \<longleftrightarrow> sl_heading s \<noteq> [] \<or> list_ex (\<lambda>l. trim l \<noteq> []) (sl_lines s)"

text \<open>The section so far pushed where it stands.\<close>

definition pushed :: "section_lines list \<Rightarrow> section_lines \<Rightarrow> section_lines list" where
  "pushed secs s = (if standing_section s then secs @ [s] else secs)"

fun read_sections ::
  "section_lines list \<Rightarrow> section_lines \<Rightarrow> string option \<Rightarrow> nat \<Rightarrow> string list \<Rightarrow> section_lines list" where
  "read_sections secs current open offset [] = pushed secs current"
| "read_sections secs current open offset (line # ls) =
     (case (if open = None then heading_of line else None) of
        None \<Rightarrow>
          read_sections secs (current\<lparr>sl_lines := sl_lines current @ [line]\<rparr>)
            (fence_after open line) (offset + length line + 1) ls
      | Some heading \<Rightarrow>
          read_sections (pushed secs current)
            \<lparr>sl_heading = heading, sl_from = offset, sl_lines = [line]\<rparr>
            (fence_after open line) (offset + length line + 1) ls)"

definition section_read :: "section_lines \<Rightarrow> description_section" where
  "section_read s =
     (let words = trim_end (join_lines (sl_lines s))
      in \<lparr>sec_heading = sl_heading s, sec_text = words, sec_from = sl_from s, sec_to = sl_from s + length words\<rparr>)"

definition description_sections :: "string \<Rightarrow> description_section list" where
  "description_sections t =
     map section_read (read_sections [] \<lparr>sl_heading = [], sl_from = 0, sl_lines = []\<rparr> None 0 (split_lines t))"

subsection \<open>The text cut at its headings\<close>

text \<open>
  The lines cut before each heading outside a fence: what stands before the first, then one run of
  lines for each heading. The sections are read off it.
\<close>

definition cut_at :: "string option \<Rightarrow> string \<Rightarrow> bool" where
  "cut_at open line \<longleftrightarrow> open = None \<and> heading_of line \<noteq> None"

fun cut_lines :: "string option \<Rightarrow> string list \<Rightarrow> string list \<times> string list list" where
  "cut_lines open [] = ([], [])"
| "cut_lines open (line # ls) =
     (case cut_lines (fence_after open line) ls of
        (lead, blocks) \<Rightarrow>
          if cut_at open line then ([], (line # lead) # blocks) else (line # lead, blocks))"

definition fence_end :: "string option \<Rightarrow> string list \<Rightarrow> string option" where
  "fence_end open ls = fold (\<lambda>l f. fence_after f l) ls open"

text \<open>How many characters lines take, each with its break.\<close>

definition chars_of :: "string list \<Rightarrow> nat" where
  "chars_of ls = sum_list (map (\<lambda>l. length l + 1) ls)"

definition block_section :: "nat \<Rightarrow> string list \<Rightarrow> description_section" where
  "block_section offset b =
     section_read \<lparr>sl_heading = the (heading_of (hd b)), sl_from = offset, sl_lines = b\<rparr>"

fun block_sections :: "nat \<Rightarrow> string list list \<Rightarrow> description_section list" where
  "block_sections offset [] = []"
| "block_sections offset (b # bs) = block_section offset b # block_sections (offset + chars_of b) bs"

definition lead_sections :: "string list \<Rightarrow> description_section list" where
  "lead_sections lead =
     map section_read (pushed [] \<lparr>sl_heading = [], sl_from = 0, sl_lines = lead\<rparr>)"

definition cut_sections :: "string list \<times> string list list \<Rightarrow> description_section list" where
  "cut_sections c = lead_sections (fst c) @ block_sections (chars_of (fst c)) (snd c)"

lemma chars_of_simps [simp]: "chars_of [] = 0" "chars_of (l # ls) = length l + 1 + chars_of ls"
  "chars_of (as @ bs) = chars_of as + chars_of bs"
  by (simp_all add: chars_of_def)

lemma fence_end_simps [simp]: "fence_end f [] = f" "fence_end f (l # ls) = fence_end (fence_after f l) ls"
  "fence_end f (as @ bs) = fence_end (fence_end f as) bs"
  by (simp_all add: fence_end_def)

lemma blank_unopened: "list_all white line \<Longrightarrow> opened_section line = None"
proof -
  have u: "list_all white l \<Longrightarrow> list_all white (unindent n l)" for n l
    by (induction n l rule: unindent.induct) auto
  have "takeWhile ((=) CHR ''#'') l = []" if "list_all white l" for l
    using that by (cases l) (auto simp: white_def)
  then show "list_all white line \<Longrightarrow> opened_section line = None"
    using u by (simp add: opened_section_def Let_def)
qed

lemma heading_stands: "heading_of line \<noteq> None \<Longrightarrow> trim line \<noteq> []"
  using blank_unopened [of line] by (force simp: heading_of_def trim_all_space list_all_iff)

lemma pushed_append: "pushed secs s = secs @ pushed [] s"
  by (simp add: pushed_def)

lemma block_stands:
  "heading_of (hd b) = Some h \<Longrightarrow> b \<noteq> [] \<Longrightarrow> standing_section \<lparr>sl_heading = h, sl_from = n, sl_lines = b\<rparr>"
  using heading_stands [of "hd b"] by (cases b) (auto simp: standing_section_def)

lemma read_sections_cut:
  "map section_read (read_sections secs cur f off ls) =
    (case cut_lines f ls of (lead, blocks) \<Rightarrow>
       map section_read (pushed secs (cur\<lparr>sl_lines := sl_lines cur @ lead\<rparr>)) @
       block_sections (off + chars_of lead) blocks)"
proof (induction ls arbitrary: secs cur f off)
  case Nil
  then show ?case by simp
next
  case (Cons line ls)
  obtain lead blocks where c: "cut_lines (fence_after f line) ls = (lead, blocks)" by force
  show ?case
  proof (cases "if f = None then heading_of line else None")
    case None
    then have "\<not> cut_at f line" by (auto simp: cut_at_def split: if_splits)
    with None c Cons.IH show ?thesis by (simp add: add.assoc)
  next
    case (Some h)
    then have cut: "cut_at f line" and h: "heading_of line = Some h" by (auto simp: cut_at_def split: if_splits)
    have "pushed (pushed secs cur) \<lparr>sl_heading = h, sl_from = off, sl_lines = line # lead\<rparr> =
        pushed secs cur @ [\<lparr>sl_heading = h, sl_from = off, sl_lines = line # lead\<rparr>]"
      using block_stands [of "line # lead" h off] h by (simp add: pushed_def [of "pushed secs cur"])
    then show ?thesis using Some c Cons.IH cut h by (simp add: block_section_def add.assoc)
  qed
qed

text \<open>The loop's reading is the cut's.\<close>

lemma sections_cut: "description_sections t = cut_sections (cut_lines None (split_lines t))"
  unfolding description_sections_def read_sections_cut
  by (simp add: cut_sections_def lead_sections_def split: prod.split)

end
