(* ===== verification/Section_Cuts.thy ===== *)
theory Section_Cuts
  imports Description_Sections
begin

text \<open>
  Facts about the cut of a text at its headings, and that its sections tile it: each section is the
  stretch of the text it says, they stand in order and apart, and no word stands outside them.
\<close>

subsection \<open>The cut\<close>

lemma cut_concat: "cut_lines f ls = (lead, blocks) \<Longrightarrow> lead @ concat blocks = ls"
  by (induction ls arbitrary: f lead blocks) (auto split: prod.splits if_splits)

lemma cut_blocks:
  "cut_lines f ls = (lead, blocks) \<Longrightarrow> b \<in> set blocks \<Longrightarrow> b \<noteq> [] \<and> heading_of (hd b) \<noteq> None"
  by (induction ls arbitrary: f lead blocks) (auto simp: cut_at_def split: prod.splits if_splits)

text \<open>Lines that leave no fence open, and lines that open on a heading, are cut apart.\<close>

definition opens_section :: "string list \<Rightarrow> bool" where
  "opens_section ls \<longleftrightarrow> ls = [] \<or> heading_of (hd ls) \<noteq> None"

lemma cut_opens: "opens_section ls \<Longrightarrow> fst (cut_lines None ls) = []"
  by (cases ls) (auto simp: opens_section_def cut_at_def split: prod.splits)

lemma cut_append:
  "fence_end f as = None \<Longrightarrow> opens_section bs \<Longrightarrow>
    cut_lines f (as @ bs) = (fst (cut_lines f as), snd (cut_lines f as) @ snd (cut_lines None bs))"
proof (induction as arbitrary: f)
  case Nil
  then have "f = None" by simp
  with cut_opens [OF Nil(2)] show ?case by (simp add: prod_eq_iff)
next
  case (Cons a as)
  then show ?case by (auto split: prod.splits)
qed

lemma cut_block:
  "cut_lines f ls = (lead, pre @ b # post) \<Longrightarrow>
    fence_end f (lead @ concat pre) = None \<and> opens_section (concat (b # post)) \<and>
    cut_lines f (lead @ concat pre) = (lead, pre) \<and> cut_lines None (concat (b # post)) = ([], b # post)"
proof (induction ls arbitrary: f lead pre)
  case Nil
  then show ?case by simp
next
  case (Cons l ls)
  obtain lead' blocks' where c: "cut_lines (fence_after f l) ls = (lead', blocks')" by force
  show ?case
  proof (cases "cut_at f l")
    case False
    then have "lead = l # lead'" "blocks' = pre @ b # post" using Cons.prems c by auto
    then show ?thesis using Cons.IH [of "fence_after f l" lead' pre] c False by auto
  next
    case True
    then have lead: "lead = []" and blocks: "(l # lead') # blocks' = pre @ b # post" and f: "f = None"
      using Cons.prems c by (auto simp: cut_at_def)
    show ?thesis
    proof (cases pre)
      case Nil
      have "opens_section (concat (b # post))" using blocks Nil True by (auto simp: opens_section_def cut_at_def)
      moreover have "concat (b # post) = l # ls" using blocks Nil cut_concat [OF c] by auto
      ultimately show ?thesis using Nil lead f Cons.prems by (simp del: cut_lines.simps add: cut_lines.simps(1))
    next
      case (Cons p pre')
      then have "blocks' = pre' @ b # post" "p = l # lead'" using blocks by auto
      then show ?thesis using Cons.IH [of "fence_after f l" lead' pre'] c True Cons lead by auto
    qed
  qed
qed

text \<open>One run of lines put in another's place leaves every other run as it was cut.\<close>

lemma cut_replaced:
  assumes "cut_lines None ls = (lead, pre @ b # post)"
    and "opens_section bs" "post \<noteq> [] \<Longrightarrow> fence_end None bs = None"
  shows "cut_lines None (lead @ concat pre @ bs @ concat post) = (lead, pre @ snd (cut_lines None bs) @ post)"
proof -
  note block = cut_block [OF assms(1)]
  have post: "cut_lines None (bs @ concat post) = ([], snd (cut_lines None bs) @ post)"
  proof (cases post)
    case Nil
    then show ?thesis using cut_opens [OF assms(2)] by (simp add: prod_eq_iff)
  next
    case (Cons q qs)
    have "cut_lines None ls = (lead, (pre @ [b]) @ q # qs)" using assms(1) Cons by simp
    from cut_block [OF this] have p: "opens_section (concat post)" "snd (cut_lines None (concat post)) = post"
      using Cons by auto
    show ?thesis using cut_append [OF _ p(1), of None bs] p(2) assms(3) Cons cut_opens [OF assms(2)] by auto
  qed
  have "opens_section (bs @ concat post)"
  proof (cases "bs = []")
    case True
    show ?thesis
    proof (cases post)
      case (Cons q qs)
      then have "cut_lines None ls = (lead, (pre @ [b]) @ q # qs)" using assms(1) by simp
      from cut_block [OF this] show ?thesis using True Cons by simp
    qed (simp add: True opens_section_def)
  qed (use assms(2) in \<open>simp add: opens_section_def\<close>)
  from cut_append [of None "lead @ concat pre", OF _ this] block post show ?thesis by simp
qed

subsection \<open>The sections tile the text\<close>

definition tiled :: "nat \<Rightarrow> string \<Rightarrow> description_section list \<Rightarrow> bool" where
  "tiled off u secs \<longleftrightarrow>
     (\<forall>s \<in> set secs. off \<le> sec_from s \<and> sec_from s < sec_to s \<and> sec_to s \<le> off + length u \<and>
        sec_text s = slice (sec_from s - off) (sec_to s - off) u \<and> \<not> white (last (sec_text s))) \<and>
     sorted_wrt (\<lambda>r s. sec_to r < sec_from s) secs \<and>
     (\<forall>i < length u. \<not> white (u ! i) \<longrightarrow>
        (\<exists>s \<in> set secs. sec_from s \<le> off + i \<and> off + i < sec_to s))"

lemma slice_left: "b \<le> length x \<Longrightarrow> slice a b (x @ u) = slice a b x"
  by (simp add: slice_def)

lemma slice_right: "length x \<le> a \<Longrightarrow> a \<le> b \<Longrightarrow> slice a b (x @ u) = slice (a - length x) (b - length x) u"
  by (simp add: slice_def)

lemma tiled_Nil: "\<forall>c \<in> set u. white c \<Longrightarrow> tiled off u []"
  by (auto simp: tiled_def)

lemma tiled_append:
  assumes l: "tiled off u secs" and r: "tiled (off + length u + 1) v secs'"
  shows "tiled off (u @ newline # v) (secs @ secs')"
proof -
  let ?w = "u @ newline # v"
  have left: "sec_text s = slice (sec_from s - off) (sec_to s - off) ?w \<and> sec_to s \<le> off + length u"
    if "s \<in> set secs" for s
    using l that slice_left [of "sec_to s - off" u] by (auto simp: tiled_def)
  have right: "sec_text s = slice (sec_from s - off) (sec_to s - off) ?w \<and> off + length u < sec_from s"
    if s: "s \<in> set secs'" for s
  proof -
    have "slice (sec_from s - off) (sec_to s - off) ((u @ [newline]) @ v) =
        slice (sec_from s - off - length (u @ [newline])) (sec_to s - off - length (u @ [newline])) v"
      using r s by (intro slice_right) (auto simp: tiled_def)
    with r s show ?thesis by (auto simp: tiled_def)
  qed
  have cover: "\<exists>s \<in> set (secs @ secs'). sec_from s \<le> off + i \<and> off + i < sec_to s"
    if i: "i < length ?w" "\<not> white (?w ! i)" for i
  proof (cases "i < length u")
    case True
    then show ?thesis using l i by (fastforce simp: tiled_def nth_append)
  next
    case False
    then have "length u < i" using i by (cases "i = length u") auto
    then obtain j where j: "i = length u + 1 + j" by (metis add_Suc_right less_iff_Suc_add Suc_eq_plus1 add_Suc)
    then have "j < length v" "\<not> white (v ! j)" using i by (auto simp: nth_append)
    then obtain s where "s \<in> set secs'" "sec_from s \<le> off + length u + 1 + j" "off + length u + 1 + j < sec_to s"
      using r by (auto simp: tiled_def)
    then show ?thesis using j by (auto simp: add.assoc intro!: bexI [of _ s])
  qed
  show ?thesis
    unfolding tiled_def
  proof (intro conjI ballI)
    fix s assume "s \<in> set (secs @ secs')"
    then show "off \<le> sec_from s" "sec_from s < sec_to s" "sec_to s \<le> off + length ?w"
      "\<not> white (last (sec_text s))"
      using l r by (auto simp: tiled_def)
    show "sec_text s = slice (sec_from s - off) (sec_to s - off) ?w"
      using \<open>s \<in> set (secs @ secs')\<close> left right by auto
  next
    show "sorted_wrt (\<lambda>r s. sec_to r < sec_from s) (secs @ secs')"
      using l r left right by (fastforce simp: tiled_def sorted_wrt_append)
  qed (use cover in blast)
qed

lemma tiled_section:
  assumes "trim_end (join_lines b) \<noteq> []"
  shows "tiled off (join_lines b) [section_read \<lparr>sl_heading = h, sl_from = off, sl_lines = b\<rparr>]"
proof -
  obtain w where w: "join_lines b = trim_end (join_lines b) @ w" "\<forall>c \<in> set w. white c"
    using trim_end_split by blast
  have "i < length (trim_end (join_lines b))" if "i < length (join_lines b)" "\<not> white (join_lines b ! i)" for i
  proof (rule ccontr)
    let ?t = "trim_end (join_lines b)"
    assume "\<not> i < length ?t"
    then have "join_lines b ! i = w ! (i - length ?t)" "i - length ?t < length w"
      using that(1) arg_cong [OF w(1), of length] arg_cong [OF w(1), of "\<lambda>x. x ! i"]
      by (simp_all add: nth_append)
    with w(2) that(2) show False by auto
  qed
  then show ?thesis
    using assms trim_end_last [OF assms] length_trim_end [of "join_lines b"] trim_end_take [of "join_lines b"]
    by (auto simp: tiled_def section_read_def Let_def slice_def)
qed

lemma chars_join: "b \<noteq> [] \<Longrightarrow> chars_of b = length (join_lines b) + 1"
  using length_join [of b] by (simp add: chars_of_def)

lemma word_in_join: "l \<in> set b \<Longrightarrow> c \<in> set l \<Longrightarrow> c \<in> set (join_lines b)"
  by (induction b rule: join_lines.induct) auto

lemma heading_block_words: "b \<noteq> [] \<Longrightarrow> heading_of (hd b) \<noteq> None \<Longrightarrow> trim_end (join_lines b) \<noteq> []"
  using heading_stands [of "hd b"] word_in_join [OF hd_in_set [of b]]
  by (auto simp: trim_end_all_space trim_all_space)

lemma tiled_blocks:
  "\<forall>b \<in> set blocks. b \<noteq> [] \<and> heading_of (hd b) \<noteq> None \<Longrightarrow>
    tiled off (join_lines (concat blocks)) (block_sections off blocks)"
proof (induction blocks arbitrary: off)
  case Nil
  then show ?case by (simp add: tiled_Nil)
next
  case (Cons b bs)
  have one: "tiled off (join_lines b) [block_section off b]"
    unfolding block_section_def using Cons.prems heading_block_words [of b] by (intro tiled_section) auto
  show ?case
  proof (cases "bs = []")
    case True
    with one show ?thesis by simp
  next
    case False
    then have ne: "concat bs \<noteq> []" using Cons.prems by (cases bs) auto
    have "tiled (off + length (join_lines b) + 1) (join_lines (concat bs)) (block_sections (off + chars_of b) bs)"
      using Cons by (simp add: chars_join)
    from tiled_append [OF one this] show ?thesis
      using join_append [of b "concat bs"] ne Cons.prems by simp
  qed
qed

lemma tiled_lead: "tiled 0 (join_lines lead) (lead_sections lead)"
proof (cases "list_ex (\<lambda>l. trim l \<noteq> []) lead")
  case True
  then have "trim_end (join_lines lead) \<noteq> []"
    by (auto simp: list_ex_iff trim_all_space trim_end_all_space dest: word_in_join)
  with True show ?thesis
    using tiled_section by (simp add: lead_sections_def pushed_def standing_section_def)
next
  case False
  have "c \<in> set (join_lines ls) \<Longrightarrow> c = newline \<or> (\<exists>l \<in> set ls. c \<in> set l)" for c ls
    by (induction ls rule: join_lines.induct) auto
  then have "\<forall>c \<in> set (join_lines lead). white c"
    using False by (fastforce simp: list_ex_iff trim_all_space)
  with False show ?thesis
    by (simp add: lead_sections_def pushed_def standing_section_def tiled_Nil)
qed

text \<open>
  C19: A description's sections tile its text: each is the stretch of the text from its offset to
  its end and ends on no white space, they stand in the order of the text and apart, and every
  character outside all of them is white space.
\<close>

theorem sections_tile_the_text: "tiled 0 t (description_sections t)"
proof -
  obtain lead blocks where c: "cut_lines None (split_lines t) = (lead, blocks)" by force
  have t: "join_lines (lead @ concat blocks) = t" using cut_concat [OF c] by simp
  have bs: "\<forall>b \<in> set blocks. b \<noteq> [] \<and> heading_of (hd b) \<noteq> None" using cut_blocks [OF c] by blast
  show ?thesis
  proof (cases "lead = [] \<or> blocks = []")
    case True
    then show ?thesis
      using t tiled_lead [of lead] tiled_blocks [OF bs, of 0]
      by (auto simp: sections_cut c cut_sections_def lead_sections_def pushed_def standing_section_def)
  next
    case False
    then have ne: "concat blocks \<noteq> []" using bs by (cases blocks) auto
    have "tiled (0 + length (join_lines lead) + 1) (join_lines (concat blocks)) (block_sections (chars_of lead) blocks)"
      using tiled_blocks [OF bs, of "chars_of lead"] False by (simp add: chars_join)
    from tiled_append [OF tiled_lead this] show ?thesis
      using t False ne by (simp add: sections_cut c cut_sections_def join_append)
  qed
qed

text \<open>The headings a text is read under.\<close>

definition headings :: "string \<Rightarrow> string list" where
  "headings t = map sec_heading (description_sections t)"

end
