(* ===== verification/Section_Writers.thy ===== *)
theory Section_Writers
  imports Section_Cuts
begin

text \<open>
  Who last changed each section of a description, read off its revisions: the rest of
  \<open>features/src/description-document.ts\<close>. A writer is any value of a type of its own, as
  \<open>DescriptionSectionWriterWho\<close> names the actor, the member or the agent.
\<close>

subsection \<open>The sections a change moved\<close>

definition filed_under ::
  "description_section \<Rightarrow> (string, string list) js_map \<Rightarrow> (string, string list) js_map" where
  "filed_under s m =
     AList.update (sec_heading s)
       ((case map_of m (sec_heading s) of None \<Rightarrow> [] | Some ws \<Rightarrow> ws) @ [sec_text s]) m"

definition words_by_heading :: "string \<Rightarrow> (string, string list) js_map" where
  "words_by_heading t = fold filed_under (description_sections t) []"

definition changed_sections :: "string \<Rightarrow> string \<Rightarrow> string list" where
  "changed_sections before after =
     (let was = words_by_heading before; now = words_by_heading after
      in map fst (filter (\<lambda>(heading, ws).
            (case map_of was heading of None \<Rightarrow> [] | Some then_ws \<Rightarrow> then_ws) \<noteq> ws) now) @
         filter (\<lambda>heading. map_of now heading = None) (map fst was))"

subsection \<open>The headings a change renamed\<close>

definition words_beneath :: "description_section \<Rightarrow> string" where
  "words_beneath s = drop 1 (dropWhile (\<lambda>c. c \<noteq> newline) (sec_text s))"

definition count_beneath :: "description_section list \<Rightarrow> string \<Rightarrow> nat" where
  "count_beneath secs ws = length (filter (\<lambda>s. words_beneath s = ws) secs)"

definition rename_found ::
  "description_section list \<Rightarrow> description_section list \<Rightarrow> description_section \<Rightarrow>
    (string, string) js_map \<Rightarrow> (string, string) js_map" where
  "rename_found gone arrived s m =
     (case List.find (\<lambda>each. words_beneath each = words_beneath s) gone of
        None \<Rightarrow> m
      | Some old \<Rightarrow>
          if count_beneath gone (words_beneath s) = 1 \<and> count_beneath arrived (words_beneath s) = 1
          then AList.update (sec_heading s) (sec_heading old) m else m)"

definition renamed_headings ::
  "description_section list \<Rightarrow> description_section list \<Rightarrow> (string, string) js_map" where
  "renamed_headings before after =
     (let was = map sec_heading before; now = map sec_heading after;
          gone = filter (\<lambda>s. sec_heading s \<noteq> [] \<and> sec_heading s \<notin> set now) before;
          arrived = filter (\<lambda>s. sec_heading s \<noteq> [] \<and> sec_heading s \<notin> set was) after
      in fold (rename_found gone arrived) arrived [])"

subsection \<open>The writers after a revision\<close>

record 'w section_writer =
  sw_section :: string
  sw_who :: 'w
  sw_at :: int

definition max_sections :: nat where
  "max_sections = 500"

definition with_section_writers ::
  "'w section_writer list \<Rightarrow> string \<Rightarrow> string \<Rightarrow> 'w \<Rightarrow> int \<Rightarrow> 'w section_writer list" where
  "with_section_writers writers before after who at =
     (let secs = description_sections after;
          renamed = renamed_headings (description_sections before) secs;
          standing = map sec_heading secs;
          changed = filter (\<lambda>h. h \<in> set standing \<and> map_of renamed h = None) (changed_sections before after);
          renamed_to = new_map (map (\<lambda>(heading, old). (old, heading)) renamed);
          kept = concat (map (\<lambda>w.
            let section = (case map_of renamed_to (sw_section w) of None \<Rightarrow> sw_section w | Some h \<Rightarrow> h)
            in if section \<in> set standing \<and> section \<notin> set changed then [w\<lparr>sw_section := section\<rparr>] else []) writers);
          written = kept @ map (\<lambda>section. \<lparr>sw_section = section, sw_who = who, sw_at = at\<rparr>) changed
      in drop (length written - max_sections) written)"

record 'w section_revision =
  sr_text :: string
  sr_who :: 'w
  sr_at :: int

fun writers_over ::
  "'w section_writer list \<Rightarrow> string \<Rightarrow> 'w section_revision list \<Rightarrow> 'w section_writer list" where
  "writers_over writers before [] = writers"
| "writers_over writers before (r # rs) =
     writers_over (with_section_writers writers before (sr_text r) (sr_who r) (sr_at r)) (sr_text r) rs"

definition section_writers_of :: "string \<Rightarrow> 'w section_revision list \<Rightarrow> 'w section_writer list" where
  "section_writers_of base revisions = writers_over [] base revisions"

subsection \<open>What the maps hold\<close>

lemma filed_ok: "map_ok m \<Longrightarrow> map_ok (fold filed_under secs m)"
  by (induction secs arbitrary: m) (auto simp: filed_under_def)

lemma filed_keys: "fst ` set (fold filed_under secs m) = fst ` set m \<union> sec_heading ` set secs"
  by (induction secs arbitrary: m) (auto simp: filed_under_def dom_update)

lemma filed_one:
  "map_of (filed_under s m) h =
    (if h = sec_heading s then Some ((case map_of m h of None \<Rightarrow> [] | Some ws \<Rightarrow> ws) @ [sec_text s]) else map_of m h)"
  by (simp add: filed_under_def)

lemma filed_lookup:
  "map_of (fold filed_under secs m) h =
    (if h \<in> sec_heading ` set secs
     then Some ((case map_of m h of None \<Rightarrow> [] | Some ws \<Rightarrow> ws) @ map sec_text (filter (\<lambda>s. sec_heading s = h) secs))
     else map_of m h)"
proof (induction secs arbitrary: m)
  case (Cons s secs)
  have "sec_heading s \<notin> sec_heading ` set secs \<Longrightarrow> filter (\<lambda>r. sec_heading r = sec_heading s) secs = []"
    by (rule filter_False) (metis image_eqI)
  then show ?case by (auto simp: Cons.IH filed_one split: option.splits)
qed simp

lemma words_by_heading_ok: "map_ok (words_by_heading t)"
  by (simp add: words_by_heading_def filed_ok)

lemma words_by_heading_keys: "fst ` set (words_by_heading t) = set (headings t)"
  by (simp add: words_by_heading_def headings_def filed_keys)

definition words_under :: "string \<Rightarrow> string \<Rightarrow> string list" where
  "words_under t h = map sec_text (filter (\<lambda>s. sec_heading s = h) (description_sections t))"

lemma words_by_heading_lookup:
  "map_of (words_by_heading t) h = (if h \<in> set (headings t) then Some (words_under t h) else None)"
  by (simp add: words_by_heading_def headings_def words_under_def filed_lookup)

text \<open>A heading is changed where its sections' words differ; one in neither text is not.\<close>

lemma under_heading: "words_under t h \<noteq> [] \<longleftrightarrow> h \<in> set (headings t)"
  by (auto simp: words_under_def headings_def filter_empty_conv)

lemma changed_iff:
  "h \<in> set (changed_sections before after) \<longleftrightarrow>
    (h \<in> set (headings before) \<or> h \<in> set (headings after)) \<and> words_under before h \<noteq> words_under after h"
proof -
  let ?was = "words_by_heading before" and ?now = "words_by_heading after"
  have was: "(case map_of ?was h of None \<Rightarrow> [] | Some ws \<Rightarrow> ws) = words_under before h"
    using under_heading [of before h] by (auto simp: words_by_heading_lookup)
  have "h \<in> fst ` set (filter (\<lambda>(heading, ws).
      (case map_of ?was heading of None \<Rightarrow> [] | Some then_ws \<Rightarrow> then_ws) \<noteq> ws) ?now) \<longleftrightarrow>
      (\<exists>ws. map_of ?now h = Some ws \<and> words_under before h \<noteq> ws)"
    using was by (auto simp: map_of_in_set [OF words_by_heading_ok, symmetric] image_iff)
  then show ?thesis
    using words_by_heading_keys [of before] under_heading [of before h] under_heading [of after h]
    by (auto simp: changed_sections_def Let_def words_by_heading_lookup)
qed

lemma changed_distinct: "distinct (changed_sections before after)"
proof -
  let ?was = "words_by_heading before" and ?now = "words_by_heading after"
  have "distinct (map fst ?was)" "distinct (map fst ?now)"
    using words_by_heading_ok by (simp_all add: map_ok_def)
  then show ?thesis
    by (auto simp: changed_sections_def Let_def distinct_map_filter map_of_None_iff)
qed

subsection \<open>What a rename carries\<close>

definition renamed_in :: "string \<Rightarrow> string \<Rightarrow> (string, string) js_map" where
  "renamed_in before after = renamed_headings (description_sections before) (description_sections after)"

lemma renames_ok: "map_ok m \<Longrightarrow> map_ok (fold (rename_found gone arrived) secs m)"
  by (induction secs arbitrary: m) (auto simp: rename_found_def split: option.splits)

lemma find_in: "List.find P xs = Some x \<Longrightarrow> x \<in> set xs \<and> P x"
  by (induction xs) (auto split: if_splits)

lemma rename_found_from:
  "map_of (rename_found gone arrived s m) new = Some old \<Longrightarrow>
    map_of m new = Some old \<or> new = sec_heading s \<and> old \<in> sec_heading ` set gone"
  by (auto simp: rename_found_def split: option.splits if_splits dest: find_in)

lemma renames_from:
  "map_of (fold (rename_found gone arrived) secs m) new = Some old \<Longrightarrow>
    map_of m new = Some old \<or> new \<in> sec_heading ` set secs \<and> old \<in> sec_heading ` set gone"
proof (induction secs arbitrary: m)
  case (Cons s secs)
  then have "map_of (rename_found gone arrived s m) new = Some old \<or>
      new \<in> sec_heading ` set secs \<and> old \<in> sec_heading ` set gone" by simp
  then show ?case using rename_found_from by fastforce
qed simp

lemma renamed_ok: "map_ok (renamed_in before after)"
  by (simp add: renamed_in_def renamed_headings_def Let_def renames_ok)

lemma renamed_between:
  "map_of (renamed_in before after) new = Some old \<Longrightarrow>
    new \<in> set (headings after) \<and> new \<notin> set (headings before) \<and>
    old \<in> set (headings before) \<and> old \<notin> set (headings after)"
  by (auto simp: renamed_in_def renamed_headings_def Let_def headings_def dest!: renames_from)

subsection \<open>The writers a revision leaves\<close>

text \<open>The writers name sections of the text, each once.\<close>

definition writers_ok :: "string \<Rightarrow> 'w section_writer list \<Rightarrow> bool" where
  "writers_ok t writers \<longleftrightarrow>
     distinct (map sw_section writers) \<and> sw_section ` set writers \<subseteq> set (headings t)"

text \<open>Where a writer's section stands after a change, and the sections the change writes.\<close>

definition section_after :: "string \<Rightarrow> string \<Rightarrow> string \<Rightarrow> string" where
  "section_after before after h =
     (case map_of (new_map (map (\<lambda>(heading, old). (old, heading)) (renamed_in before after))) h of
        None \<Rightarrow> h | Some h' \<Rightarrow> h')"

definition written_by :: "string \<Rightarrow> string \<Rightarrow> string list" where
  "written_by before after =
     filter (\<lambda>h. h \<in> set (headings after) \<and> map_of (renamed_in before after) h = None) (changed_sections before after)"

definition kept_writers :: "'w section_writer list \<Rightarrow> string \<Rightarrow> string \<Rightarrow> 'w section_writer list" where
  "kept_writers writers before after =
     concat (map (\<lambda>w.
       let section = section_after before after (sw_section w)
       in if section \<in> set (headings after) \<and> section \<notin> set (written_by before after)
          then [w\<lparr>sw_section := section\<rparr>] else []) writers)"

lemma with_section_writers_parts:
  "with_section_writers writers before after who at =
    (let written = kept_writers writers before after @
       map (\<lambda>section. \<lparr>sw_section = section, sw_who = who, sw_at = at\<rparr>) (written_by before after)
     in drop (length written - max_sections) written)"
  by (simp add: with_section_writers_def kept_writers_def written_by_def section_after_def renamed_in_def headings_def Let_def)

lemma new_map_in: "map_of (new_map ps) k = Some v \<Longrightarrow> (k, v) \<in> set ps"
proof -
  have "map_of (fold (\<lambda>(k, v) m. AList.update k v m) ps m) k = Some v \<Longrightarrow> map_of m k = Some v \<or> (k, v) \<in> set ps" for m
    by (induction ps arbitrary: m) (fastforce split: if_splits)+
  from this [of "[]"] show "map_of (new_map ps) k = Some v \<Longrightarrow> (k, v) \<in> set ps" by (simp add: new_map_def)
qed

lemma section_after_cases:
  "section_after before after h = h \<or> map_of (renamed_in before after) (section_after before after h) = Some h"
  by (auto simp: section_after_def map_of_in_set [OF renamed_ok, symmetric] split: option.splits dest!: new_map_in)

lemma section_after_inj:
  assumes same: "section_after before after g = section_after before after h"
    and was: "g \<in> set (headings before)" "h \<in> set (headings before)"
  shows "g = h"
proof -
  let ?new = "section_after before after g"
  have arrived: "?new \<notin> set (headings before)" if "map_of (renamed_in before after) ?new = Some k" for k
    using renamed_between [OF that] by blast
  consider "?new = g" "?new = h" | "?new = g" "map_of (renamed_in before after) ?new = Some h"
    | "?new = h" "map_of (renamed_in before after) ?new = Some g"
    | "map_of (renamed_in before after) ?new = Some g" "map_of (renamed_in before after) ?new = Some h"
    using section_after_cases [of before after g] section_after_cases [of before after h] same by force
  then show ?thesis using arrived was by cases auto
qed

lemma kept_sections:
  "map sw_section (kept_writers writers before after) =
    filter (\<lambda>h. h \<in> set (headings after) \<and> h \<notin> set (written_by before after))
      (map (\<lambda>w. section_after before after (sw_section w)) writers)"
  by (induction writers) (auto simp: kept_writers_def Let_def)

lemma written_distinct:
  fixes after :: string
  assumes "writers_ok before writers"
  defines "written \<equiv> \<lambda>who at. kept_writers writers before after @
    map (\<lambda>section. \<lparr>sw_section = section, sw_who = who, sw_at = at\<rparr>) (written_by before after)"
  shows "distinct (map sw_section (written who at)) \<and> set (map sw_section (written who at)) \<subseteq> set (headings after)"
proof -
  let ?kept = "kept_writers writers before after" and ?new = "written_by before after"
  have "inj_on (section_after before after) (set (map sw_section writers))"
    using assms(1) by (intro inj_onI, elim section_after_inj) (auto simp: writers_ok_def)
  then have "distinct (map (section_after before after) (map sw_section writers))"
    using assms(1) by (simp add: distinct_map [of "section_after before after" "map sw_section writers"] writers_ok_def del: map_map)
  then have kept: "distinct (map sw_section ?kept)"
    unfolding kept_sections by (intro distinct_filter) (simp add: comp_def)
  have sections: "map sw_section (written who at) = map sw_section ?kept @ ?new" by (simp add: written_def comp_def)
  show ?thesis
    unfolding sections using kept changed_distinct [of before after]
    by (auto simp: kept_sections written_by_def)
qed

lemma with_section_writers_ok:
  assumes "writers_ok before writers"
  shows "writers_ok after (with_section_writers writers before after who at)"
  using written_distinct [OF assms, where after = after and who = who and at = at]
  unfolding with_section_writers_parts Let_def writers_ok_def
  by (auto simp only: drop_map [symmetric] set_map [symmetric] distinct_drop dest: in_set_dropD)

lemma written_fits:
  assumes "writers_ok before writers" "length (headings after) \<le> max_sections"
  shows "with_section_writers writers before after who at = kept_writers writers before after @
    map (\<lambda>section. \<lparr>sw_section = section, sw_who = who, sw_at = at\<rparr>) (written_by before after)" (is "_ = ?written")
proof -
  have "distinct (map sw_section ?written) \<and> set (map sw_section ?written) \<subseteq> set (headings after)"
    using written_distinct [OF assms(1)] by blast
  then have "length (map sw_section ?written) \<le> length (headings after)"
    by (metis List.finite_set card_length card_mono distinct_card le_trans)
  with assms(2) have "length ?written \<le> max_sections" by simp
  then show ?thesis by (simp add: with_section_writers_parts Let_def)
qed

text \<open>A section a revision neither changes nor renames keeps the writer it had.\<close>

lemma writer_stays:
  assumes "writers_ok before writers" "length (headings after) \<le> max_sections"
    and w: "w \<in> set writers" "sw_section w \<notin> set (changed_sections before after)"
  shows "w \<in> set (with_section_writers writers before after who at)"
proof -
  let ?h = "sw_section w"
  have "?h \<in> set (headings before)" using assms(1) w(1) by (auto simp: writers_ok_def)
  then have standing: "?h \<in> set (headings after)"
    using w(2) by (metis changed_iff under_heading)
  then have "section_after before after ?h = ?h"
    using section_after_cases [of before after ?h] renamed_between [of before after "section_after before after ?h" ?h] by blast
  moreover have "?h \<notin> set (written_by before after)" using w(2) by (simp add: written_by_def)
  ultimately have "w \<in> set (kept_writers writers before after)"
    using standing w(1) by (auto simp: kept_writers_def Let_def intro!: bexI [of _ w])
  then show ?thesis by (simp add: written_fits [OF assms(1,2)])
qed

lemma writers_over_append:
  "writers_over ws before (xs @ ys) =
    writers_over (writers_over ws before xs) (last (before # map sr_text xs)) ys"
  by (induction xs arbitrary: ws before) auto

lemma writers_over_ok: "writers_ok before ws \<Longrightarrow> writers_ok (last (before # map sr_text rs)) (writers_over ws before rs)"
proof (induction rs arbitrary: ws before)
  case (Cons r rs)
  from Cons.IH [OF with_section_writers_ok [OF Cons.prems]] show ?case by simp
qed simp

subsection \<open>A section through revisions that leave it or only rename it\<close>

text \<open>
  A section only renamed: it stood under a heading of its own, the new text holds one section under a
  heading of its own that the old one did not hold, the words beneath the two are one, and no other
  section gone or arrived has those words.
\<close>

definition gone_sections :: "string \<Rightarrow> string \<Rightarrow> description_section list" where
  "gone_sections before after =
     filter (\<lambda>s. sec_heading s \<noteq> [] \<and> sec_heading s \<notin> set (headings after)) (description_sections before)"

definition sections_under :: "string \<Rightarrow> string \<Rightarrow> description_section list" where
  "sections_under t h = filter (\<lambda>s. sec_heading s = h) (description_sections t)"

definition only_renamed :: "string \<Rightarrow> string \<Rightarrow> string \<Rightarrow> string \<Rightarrow> bool" where
  "only_renamed before after h h' \<longleftrightarrow> (\<exists>s s'.
     sections_under before h = [s] \<and> sections_under after h' = [s'] \<and>
     filter (\<lambda>g. words_beneath g = words_beneath s) (gone_sections before after) = [s] \<and>
     filter (\<lambda>g. words_beneath g = words_beneath s) (gone_sections after before) = [s'])"

inductive stands_on_as :: "string \<Rightarrow> string \<Rightarrow> 'w section_revision list \<Rightarrow> string \<Rightarrow> bool" where
  to_the_end: "stands_on_as t h [] h"
| left_alone: "words_under t h = words_under (sr_text r) h \<Longrightarrow> stands_on_as (sr_text r) h rs h' \<Longrightarrow>
    stands_on_as t h (r # rs) h'"
| renamed: "only_renamed t (sr_text r) h g \<Longrightarrow> stands_on_as (sr_text r) g rs h' \<Longrightarrow>
    stands_on_as t h (r # rs) h'"

lemma renamed_in_fold:
  "renamed_in before after =
    fold (rename_found (gone_sections before after) (gone_sections after before)) (gone_sections after before) []"
  by (simp add: renamed_in_def renamed_headings_def gone_sections_def headings_def Let_def)

lemma renames_other:
  "h \<notin> sec_heading ` set secs \<Longrightarrow> map_of (fold (rename_found gone arrived) secs m) h = map_of m h"
  by (induction secs arbitrary: m) (auto simp: rename_found_def split: option.splits)

lemma renames_words:
  "map_of (fold (rename_found gone arrived) secs m) new = Some old \<Longrightarrow>
    map_of m new = Some old \<or> (\<exists>s \<in> set secs. \<exists>g \<in> set gone. sec_heading s = new \<and> sec_heading g = old \<and>
      words_beneath g = words_beneath s)"
proof (induction secs arbitrary: m)
  case (Cons s secs)
  have "map_of (rename_found gone arrived s m) new = Some old \<Longrightarrow> map_of m new = Some old \<or>
      sec_heading s = new \<and> (\<exists>g \<in> set gone. sec_heading g = old \<and> words_beneath g = words_beneath s)"
    by (auto simp: rename_found_def split: option.splits if_splits dest: find_in)
  then show ?case using Cons.IH [of "rename_found gone arrived s m"] Cons.prems by auto
qed simp

lemma filter_one: "filter P xs = [x] \<Longrightarrow> y \<in> set xs \<Longrightarrow> P y \<Longrightarrow> y = x"
  by (induction xs) (auto simp: filter_empty_conv split: if_splits)

lemma find_filter: "List.find P xs = (case filter P xs of [] \<Rightarrow> None | x # _ \<Rightarrow> Some x)"
  by (induction xs) auto

lemma only_renamed_read:
  assumes "only_renamed before after h h'"
  shows "map_of (renamed_in before after) h' = Some h"
    and "map_of (renamed_in before after) k = Some h \<Longrightarrow> k = h'"
proof -
  let ?gone = "gone_sections before after" and ?arrived = "gone_sections after before"
  obtain s s' where one: "sections_under before h = [s]" "sections_under after h' = [s']"
    and gone: "filter (\<lambda>g. words_beneath g = words_beneath s) ?gone = [s]"
    and arrived: "filter (\<lambda>g. words_beneath g = words_beneath s) ?arrived = [s']"
    using assms by (auto simp: only_renamed_def)
  have s: "s \<in> set ?gone" and s': "s' \<in> set ?arrived" "words_beneath s' = words_beneath s"
    using gone arrived by (auto simp: filter_eq_Cons_iff)
  have heads: "sec_heading s = h" "sec_heading s' = h'"
    using one by (auto simp: sections_under_def filter_eq_Cons_iff)
  from s'(1) obtain xs ys where split: "?arrived = xs @ s' # ys" by (auto dest: split_list)
  have "h' \<notin> sec_heading ` set ys"
  proof
    assume "h' \<in> sec_heading ` set ys"
    then have "1 \<le> length (filter (\<lambda>g. sec_heading g = h') ys)"
      by (metis (mono_tags, lifting) One_nat_def Suc_leI filter_empty_conv image_iff length_greater_0_conv)
    then have "2 \<le> length (filter (\<lambda>g. sec_heading g = h') ?arrived)" using split heads by simp
    also have "\<dots> \<le> length (sections_under after h')"
    proof -
      have "filter (\<lambda>g. sec_heading g = h') ?arrived =
          filter (\<lambda>g. sec_heading g \<noteq> [] \<and> sec_heading g \<notin> set (headings before)) (sections_under after h')"
        by (simp add: gone_sections_def sections_under_def conj_commute)
      then show ?thesis by (simp only: length_filter_le)
    qed
    finally show False using one by simp
  qed
  moreover have "rename_found ?gone ?arrived s' m = AList.update h' h m" for m
    using gone arrived s'(2) heads by (simp add: rename_found_def find_filter count_beneath_def)
  moreover have "renamed_in before after = fold (rename_found ?gone ?arrived) (xs @ s' # ys) []"
    unfolding renamed_in_fold by (simp only: split)
  ultimately show "map_of (renamed_in before after) h' = Some h"
    by (simp only: fold_append fold_simps comp_apply) (simp add: renames_other)
  assume "map_of (renamed_in before after) k = Some h"
  then obtain r g where r: "r \<in> set ?arrived" "sec_heading r = k" and g: "g \<in> set ?gone" "sec_heading g = h"
    and same: "words_beneath g = words_beneath r"
    unfolding renamed_in_fold by (auto dest!: renames_words)
  have "g = s" using g one(1) by (intro filter_one [OF one(1) [unfolded sections_under_def]]) (auto simp: gone_sections_def)
  then have "r = s'" using r(1) same by (intro filter_one [OF arrived]) auto
  then show "k = h'" using r(2) heads by simp
qed

lemma new_map_one:
  assumes "(k, v) \<in> set ps" "\<And>w. (k, w) \<in> set ps \<Longrightarrow> w = v"
  shows "map_of (new_map ps) k = Some v"
proof -
  have "k \<in> fst ` set (new_map ps)" using assms(1) by force
  then have "map_of (new_map ps) k \<noteq> None" by (simp only: map_of_None_iff) simp
  then obtain w where w: "map_of (new_map ps) k = Some w" by blast
  then show ?thesis using assms(2) [OF new_map_in [OF w]] by simp
qed

lemma only_renamed_carries:
  assumes "only_renamed before after h h'"
  shows "section_after before after h = h'" "h' \<in> set (headings after)" "h' \<notin> set (written_by before after)"
proof -
  let ?renamed = "renamed_in before after"
  note read = only_renamed_read [OF assms]
  have "map_of (new_map (map (\<lambda>(heading, old). (old, heading)) ?renamed)) h = Some h'"
  proof (rule new_map_one)
    show "(h, h') \<in> set (map (\<lambda>(heading, old). (old, heading)) ?renamed)"
      using map_of_SomeD [OF read(1)] by force
    show "w = h'" if "(h, w) \<in> set (map (\<lambda>(heading, old). (old, heading)) ?renamed)" for w
    proof -
      have "(w, h) \<in> set ?renamed" using that by auto
      then show ?thesis using read(2) by (simp add: map_of_in_set [OF renamed_ok, symmetric])
    qed
  qed
  then show "section_after before after h = h'" by (simp add: section_after_def)
  show "h' \<in> set (headings after)" using renamed_between [OF read(1)] by blast
  show "h' \<notin> set (written_by before after)" using read(1) by (simp add: written_by_def)
qed

lemma writer_renamed:
  assumes "writers_ok before writers" "length (headings after) \<le> max_sections"
    and w: "w \<in> set writers" "only_renamed before after (sw_section w) h'"
  shows "w\<lparr>sw_section := h'\<rparr> \<in> set (with_section_writers writers before after who at)"
proof -
  have "w\<lparr>sw_section := h'\<rparr> \<in> set (kept_writers writers before after)"
    using only_renamed_carries [OF w(2)] w(1) by (auto simp: kept_writers_def Let_def intro!: bexI [of _ w])
  then show ?thesis by (simp add: written_fits [OF assms(1,2)])
qed

lemma writer_stays_over:
  "stands_on_as t h rs h' \<Longrightarrow> writers_ok t ws \<Longrightarrow> w \<in> set ws \<Longrightarrow> sw_section w = h \<Longrightarrow>
    \<forall>x \<in> set rs. length (headings (sr_text x)) \<le> max_sections \<Longrightarrow>
    w\<lparr>sw_section := h'\<rparr> \<in> set (writers_over ws t rs)"
proof (induction arbitrary: ws w rule: stands_on_as.induct)
  case (to_the_end t h)
  then show ?case by (metis section_writer.surjective section_writer.update_convs(1) writers_over.simps(1))
next
  case (left_alone t h r rs h')
  have "w \<in> set (with_section_writers ws t (sr_text r) (sr_who r) (sr_at r))"
    using left_alone.hyps(1) left_alone.prems by (intro writer_stays) (auto simp: changed_iff)
  with left_alone.IH [OF with_section_writers_ok [OF left_alone.prems(1)] this] left_alone.prems show ?case by simp
next
  case (renamed t r h g rs h')
  have "w\<lparr>sw_section := g\<rparr> \<in> set (with_section_writers ws t (sr_text r) (sr_who r) (sr_at r))"
    using renamed.hyps(1) renamed.prems by (intro writer_renamed) auto
  with renamed.IH [OF with_section_writers_ok [OF renamed.prems(1)] this] renamed.prems show ?case by simp
qed

text \<open>
  C20: Read off a description's revisions, a section names the writer, and the time, of the last
  revision that changed its words. A revision wrote what stands under a heading, did not arrive at
  that heading by renaming another, and every revision after it either left what stands under the
  heading as it was or only renamed the one section under it: to a heading new to the text that one
  section stands under, the words beneath as they were and beneath no other section gone or arrived.
  Then, whatever the revisions before it did and the later ones did to other sections, the section is
  named under the heading it came to with that revision's writer; provided none of the texts from
  that revision on has more than 500 sections. And no section is named twice, nor one the text no
  longer holds.
\<close>

theorem last_changer_is_named:
  assumes changed: "words_under (last (base # map sr_text earlier)) h \<noteq> words_under (sr_text r) h"
    and standing: "h \<in> set (headings (sr_text r))"
    and not_renamed: "map_of (renamed_headings (description_sections (last (base # map sr_text earlier)))
      (description_sections (sr_text r))) h = None"
    and since: "stands_on_as (sr_text r) h later h'"
    and bound: "\<forall>x \<in> set (r # later). length (headings (sr_text x)) \<le> max_sections"
  shows "let writers = section_writers_of base (earlier @ r # later) in
    \<lparr>sw_section = h', sw_who = sr_who r, sw_at = sr_at r\<rparr> \<in> set writers \<and>
    distinct (map sw_section writers) \<and>
    sw_section ` set writers \<subseteq> set (headings (last (map sr_text (earlier @ r # later))))"
proof -
  let ?before = "last (base # map sr_text earlier)"
  let ?ws = "writers_over [] base earlier"
  let ?w = "\<lparr>sw_section = h, sw_who = sr_who r, sw_at = sr_at r\<rparr>"
  let ?next = "with_section_writers ?ws ?before (sr_text r) (sr_who r) (sr_at r)"
  have ok: "writers_ok ?before ?ws" by (rule writers_over_ok) (simp add: writers_ok_def)
  have "h \<in> set (written_by ?before (sr_text r))"
    using changed standing not_renamed by (simp add: written_by_def renamed_in_def changed_iff)
  then have named: "?w \<in> set ?next" using written_fits [OF ok, of "sr_text r"] bound by simp
  have "section_writers_of base (earlier @ r # later) = writers_over ?next (sr_text r) later"
    by (simp only: section_writers_of_def writers_over_append writers_over.simps)
  moreover have "writers_ok (last (sr_text r # map sr_text later)) (writers_over ?next (sr_text r) later)"
    by (rule writers_over_ok) (rule with_section_writers_ok [OF ok])
  moreover have "?w\<lparr>sw_section := h'\<rparr> \<in> set (writers_over ?next (sr_text r) later)"
    using named bound by (intro writer_stays_over [OF since with_section_writers_ok [OF ok]]) auto
  ultimately show ?thesis by (simp add: writers_ok_def Let_def)
qed

theorem last_changer_is_named_witness:
  "let first = \<lparr>sr_text = ''# A'', sr_who = ''ann'', sr_at = 1\<rparr>;
       second = \<lparr>sr_text = ''# A'' @ newline # ''x'', sr_who = ''bo'', sr_at = 2\<rparr>;
       third = \<lparr>sr_text = ''# A'' @ newline # ''x'' @ newline # ''# B'', sr_who = ''cy'', sr_at = 3\<rparr>;
       fourth = \<lparr>sr_text = ''# C'' @ newline # ''x'' @ newline # ''# B'', sr_who = ''di'', sr_at = 4\<rparr>
   in \<lparr>sw_section = ''C'', sw_who = ''bo'', sw_at = 2\<rparr> \<in>
     set (section_writers_of [] [first, second, third, fourth])"
proof -
  let ?first = "\<lparr>sr_text = ''# A'', sr_who = ''ann'', sr_at = 1\<rparr>"
  let ?second = "\<lparr>sr_text = ''# A'' @ newline # ''x'', sr_who = ''bo'', sr_at = 2\<rparr>"
  let ?third = "\<lparr>sr_text = ''# A'' @ newline # ''x'' @ newline # ''# B'', sr_who = ''cy'', sr_at = 3\<rparr>"
  let ?fourth = "\<lparr>sr_text = ''# C'' @ newline # ''x'' @ newline # ''# B'', sr_who = ''di'', sr_at = 4\<rparr>"
  have "words_under (last ([] # map sr_text [?first])) ''A'' \<noteq> words_under (sr_text ?second) ''A''" by code_simp
  moreover have "''A'' \<in> set (headings (sr_text ?second))" by code_simp
  moreover have "map_of (renamed_headings (description_sections (last ([] # map sr_text [?first])))
      (description_sections (sr_text ?second))) ''A'' = None" by code_simp
  moreover have "stands_on_as (sr_text ?second) ''A'' [?third, ?fourth] ''C''"
  proof (rule stands_on_as.left_alone)
    show "words_under (sr_text ?second) ''A'' = words_under (sr_text ?third) ''A''" by code_simp
    let ?s = "hd (sections_under (sr_text ?third) ''A'')" and ?s' = "hd (sections_under (sr_text ?fourth) ''C'')"
    have "sections_under (sr_text ?third) ''A'' = [?s] \<and> sections_under (sr_text ?fourth) ''C'' = [?s'] \<and>
        filter (\<lambda>g. words_beneath g = words_beneath ?s) (gone_sections (sr_text ?third) (sr_text ?fourth)) = [?s] \<and>
        filter (\<lambda>g. words_beneath g = words_beneath ?s) (gone_sections (sr_text ?fourth) (sr_text ?third)) = [?s']"
      by code_simp
    then have "only_renamed (sr_text ?third) (sr_text ?fourth) ''A'' ''C''" unfolding only_renamed_def by blast
    then show "stands_on_as (sr_text ?third) ''A'' [?fourth] ''C''"
      by (rule stands_on_as.renamed) (rule stands_on_as.to_the_end)
  qed
  moreover have "length (headings (sr_text ?second)) = 1" "length (headings (sr_text ?third)) = 2"
    "length (headings (sr_text ?fourth)) = 2" by code_simp+
  then have "\<forall>x \<in> set [?second, ?third, ?fourth]. length (headings (sr_text x)) \<le> max_sections"
    by (simp add: max_sections_def)
  ultimately show ?thesis
    using last_changer_is_named [of "[]" "[?first]" "''A''" ?second "[?third, ?fourth]" "''C''"]
    by (simp only: Let_def append.simps) simp
qed

text \<open>
  Two sections under one heading, each renamed to a heading of its own with its words as they were:
  one keeps its writer, and the other names nobody.
\<close>

lemma shared_heading_renamed_apart:
  "let a = ''# A'' @ newline # ''x'' @ newline # ''# A'' @ newline # ''y'';
       b = ''# B'' @ newline # ''x'' @ newline # ''# C'' @ newline # ''y''
   in section_writers_of [] [\<lparr>sr_text = a, sr_who = ''ann'', sr_at = 1\<rparr>, \<lparr>sr_text = b, sr_who = ''bo'', sr_at = 2\<rparr>] =
     [\<lparr>sw_section = ''C'', sw_who = ''ann'', sw_at = 1\<rparr>] \<and> headings b = [''B'', ''C'']"
  by code_simp

end
