(* ===== verification/Comment_Anchors.thy ===== *)
theory Comment_Anchors
  imports Description_Sections Description_Editor
begin

text \<open>
  Where a comment's anchored words stand in a description's text, carried through a change of it:
  \<open>features/src/description-comment-anchor.ts\<close>, and \<open>moveDescriptionCommentAnchors\<close> of
  \<open>database/src/models/description-comments.ts\<close>, which carries every thread's over a save. The diff
  library's reads, \<open>diffLines\<close>, \<open>diffWordsWithSpace\<close> and \<open>diffChars\<close>, are arguments; the finer two
  answer nothing past the edits they may follow.
\<close>

subsection \<open>A diff read finely\<close>

record diff_part =
  dp_value :: string
  dp_added :: bool
  dp_removed :: bool

type_synonym diff_read = "string \<Rightarrow> string \<Rightarrow> diff_part list option"

record kept_run =
  kr_before :: nat
  kr_after :: nat
  kr_length :: nat

definition max_fine_diff_chars :: nat where
  "max_fine_diff_chars = 40000"

definition changed_part :: "diff_part \<Rightarrow> bool" where
  "changed_part p \<longleftrightarrow> dp_added p \<or> dp_removed p"

definition past_fine_read :: "string \<Rightarrow> string \<Rightarrow> bool" where
  "past_fine_read removed added \<longleftrightarrow> max_fine_diff_chars < length removed + length added"

lemma past_fine_read_code [code]:
  "past_fine_read removed added \<longleftrightarrow> 40000 < int (length removed) + int (length added)"
  unfolding past_fine_read_def max_fine_diff_chars_def by linarith

text \<open>\<open>changedAround\<close>, over the parts that stand next to one, nearest first.\<close>

definition change_size :: "diff_part list \<Rightarrow> nat" where
  "change_size ps =
     (let run = takeWhile changed_part ps
      in max (sum_list (map (\<lambda>p. length (dp_value p)) (filter (\<lambda>p. \<not> dp_added p) run)))
           (sum_list (map (\<lambda>p. length (dp_value p)) (filter dp_added run))))"

definition part_read :: "diff_part list \<Rightarrow> nat \<Rightarrow> diff_part list" where
  "part_read ps i =
     (let p = ps ! i; n = length (dp_value p)
      in if changed_part p then [p]
         else if change_size (rev (take i ps)) < n \<or> change_size (drop (i + 1) ps) < n then [p]
         else [\<lparr>dp_value = dp_value p, dp_added = False, dp_removed = True\<rparr>,
               \<lparr>dp_value = dp_value p, dp_added = True, dp_removed = False\<rparr>])"

definition meaningful :: "diff_part list \<Rightarrow> diff_part list" where
  "meaningful ps = concat (map (part_read ps) [0..<length ps])"

text \<open>
  The loop over a read's parts: where it stands in either text, what was taken out and written in
  since the last part kept, and \<open>settle\<close>, which reads the two finer.
\<close>

fun fold_parts ::
  "(string \<Rightarrow> string \<Rightarrow> nat \<Rightarrow> nat \<Rightarrow> kept_run list) \<Rightarrow> nat \<Rightarrow> nat \<Rightarrow> string \<Rightarrow> string \<Rightarrow> diff_part list \<Rightarrow> kept_run list" where
  "fold_parts settle at to gone written [] = settle gone written at to"
| "fold_parts settle at to gone written (p # ps) =
     (if dp_removed p then fold_parts settle at to (gone @ dp_value p) written ps
      else if dp_added p then fold_parts settle at to gone (written @ dp_value p) ps
      else settle gone written at to @
        \<lparr>kr_before = at + length gone, kr_after = to + length written, kr_length = length (dp_value p)\<rparr> #
        fold_parts settle (at + length gone + length (dp_value p)) (to + length written + length (dp_value p)) [] [] ps)"

text \<open>\<open>keptFinely\<close>, the reads left to it and whether one was made already.\<close>

fun kept_finely :: "diff_read list \<Rightarrow> bool \<Rightarrow> string \<Rightarrow> string \<Rightarrow> nat \<Rightarrow> nat \<Rightarrow> kept_run list" where
  "kept_finely [] deep removed added before after = []"
| "kept_finely (read # reads) deep removed added before after =
     (if removed = [] \<or> added = [] then []
      else if deep \<and> list_ex white (removed @ added) then []
      else if past_fine_read removed added then []
      else case read removed added of
             None \<Rightarrow> []
           | Some parts \<Rightarrow> fold_parts (kept_finely reads True) before after [] [] (meaningful parts))"

subsection \<open>A change of a text, line by line\<close>

record changed_stretch =
  cs_text :: string
  cs_at :: nat

record line_runs =
  lr_kept :: "kept_run list"
  lr_removed :: "changed_stretch list"
  lr_added :: "changed_stretch list"

definition settled :: "diff_read list \<Rightarrow> string \<Rightarrow> string \<Rightarrow> nat \<Rightarrow> nat \<Rightarrow> line_runs" where
  "settled reads removed added at to =
     (let finely = kept_finely reads False removed added at to
      in \<lparr>lr_kept = finely,
          lr_removed = (if finely = [] \<and> trim removed \<noteq> [] then [\<lparr>cs_text = removed, cs_at = at\<rparr>] else []),
          lr_added = (if finely = [] \<and> trim added \<noteq> [] then [\<lparr>cs_text = added, cs_at = to\<rparr>] else [])\<rparr>)"

definition runs_then :: "line_runs \<Rightarrow> line_runs \<Rightarrow> line_runs" where
  "runs_then a b =
     \<lparr>lr_kept = lr_kept a @ lr_kept b, lr_removed = lr_removed a @ lr_removed b, lr_added = lr_added a @ lr_added b\<rparr>"

fun read_lines :: "diff_read list \<Rightarrow> nat \<Rightarrow> nat \<Rightarrow> string \<Rightarrow> string \<Rightarrow> diff_part list \<Rightarrow> line_runs" where
  "read_lines reads at to removed added [] = settled reads removed added at to"
| "read_lines reads at to removed added (p # ps) =
     (if dp_removed p then read_lines reads at to (removed @ dp_value p) added ps
      else if dp_added p then read_lines reads at to removed (added @ dp_value p) ps
      else runs_then (settled reads removed added at to)
        (runs_then \<lparr>lr_kept = [\<lparr>kr_before = at + length removed, kr_after = to + length added,
              kr_length = length (dp_value p)\<rparr>], lr_removed = [], lr_added = []\<rparr>
          (read_lines reads (at + length removed + length (dp_value p)) (to + length added + length (dp_value p)) [] [] ps)))"

text \<open>The blocks taken out whole in one place and written in whole in another.\<close>

definition moved_runs :: "line_runs \<Rightarrow> kept_run list" where
  "moved_runs r =
     concat (map (\<lambda>gone.
       let words = trim_end (cs_text gone);
           same = filter (\<lambda>written. trim_end (cs_text written) = words) (lr_added r);
           twice = 1 < length (filter (\<lambda>other. trim_end (cs_text other) = words) (lr_removed r))
       in case same of
            [moved] \<Rightarrow>
              if twice then []
              else [\<lparr>kr_before = cs_at gone, kr_after = cs_at moved, kr_length = length words\<rparr>]
          | _ \<Rightarrow> []) (lr_removed r))"

record diff_reads =
  lines_read :: "string \<Rightarrow> string \<Rightarrow> diff_part list"
  words_read :: diff_read
  chars_read :: diff_read

definition kept_runs :: "diff_reads \<Rightarrow> string \<Rightarrow> string \<Rightarrow> kept_run list" where
  "kept_runs d before after =
     (let r = read_lines [words_read d, chars_read d] 0 0 [] [] (lines_read d before after)
      in lr_kept r @ moved_runs r)"

subsection \<open>A span carried over a change\<close>

type_synonym comment_span = "nat \<times> nat"

definition run_meets :: "comment_span \<Rightarrow> kept_run \<Rightarrow> bool" where
  "run_meets span r \<longleftrightarrow> max (fst span) (kr_before r) < min (snd span) (kr_before r + kr_length r)"

definition span_over :: "comment_span \<Rightarrow> kept_run \<Rightarrow> comment_span" where
  "span_over span r =
     (kr_after r + (max (fst span) (kr_before r) - kr_before r),
      kr_after r + (min (snd span) (kr_before r + kr_length r) - kr_before r))"

fun spans_joined :: "comment_span option \<Rightarrow> comment_span list \<Rightarrow> comment_span option" where
  "spans_joined joined [] = joined"
| "spans_joined None (s # ss) = spans_joined (Some (fst s, max 0 (snd s))) ss"
| "spans_joined (Some (a, b)) (s # ss) = spans_joined (Some (min a (fst s), max b (snd s))) ss"

definition text_change :: "diff_reads \<Rightarrow> string \<Rightarrow> string \<Rightarrow> comment_span \<Rightarrow> comment_span option" where
  "text_change d before after span =
     (if before = after then Some span
      else spans_joined None (map (span_over span) (filter (run_meets span) (kept_runs d before after))))"

definition span_within :: "comment_span \<Rightarrow> nat \<Rightarrow> bool" where
  "span_within span n \<longleftrightarrow> fst span < snd span \<and> snd span \<le> n"

subsection \<open>Every thread's anchor carried over a save\<close>

record comment_thread =
  ct_id :: string
  ct_anchor :: "comment_span option"
  ct_section :: string
  ct_revision :: nat
  ct_updated :: int

record reported_anchors =
  ra_text :: string
  ra_anchors :: comment_anchors

definition section_at_offset :: "string \<Rightarrow> nat \<Rightarrow> string" where
  "section_at_offset t offset =
     (case filter (\<lambda>s. sec_from s \<le> offset) (description_sections t) of
        [] \<Rightarrow> []
      | ss \<Rightarrow> sec_heading (last ss))"

text \<open>Where a thread stands after the save; \<open>None\<close> for one the save leaves as it is, unread.\<close>

definition thread_moved ::
  "diff_reads \<Rightarrow> string \<Rightarrow> string \<Rightarrow> reported_anchors option \<Rightarrow> comment_thread \<Rightarrow> comment_span option option" where
  "thread_moved d before after reported th =
     (let carried_over = (case ct_anchor th of None \<Rightarrow> None | Some was \<Rightarrow> Some (text_change d before after was))
      in case reported of
           None \<Rightarrow> carried_over
         | Some r \<Rightarrow>
             if ct_id th \<notin> set (carried (ra_anchors r)) then carried_over
             else Some (case List.find (\<lambda>a. thread_of a = ct_id th) (anchor_list (ra_anchors r)) of
                 None \<Rightarrow> None
               | Some report \<Rightarrow>
                   if span_within (anchor_from report, anchor_to report) (length (ra_text r))
                   then text_change d (ra_text r) after (anchor_from report, anchor_to report) else None))"

definition move_thread ::
  "diff_reads \<Rightarrow> string \<Rightarrow> string \<Rightarrow> reported_anchors option \<Rightarrow> int \<Rightarrow> comment_thread \<Rightarrow> comment_thread" where
  "move_thread d before after reported now th =
     (case thread_moved d before after reported th of
        None \<Rightarrow> th
      | Some moved \<Rightarrow>
          (let section = (case moved of None \<Rightarrow> ct_section th | Some m \<Rightarrow> section_at_offset after (fst m))
           in if moved = ct_anchor th \<and> section = ct_section th then th
              else th\<lparr>ct_anchor := moved, ct_section := section, ct_revision := ct_revision th + 1, ct_updated := now\<rparr>))"

definition move_anchors ::
  "diff_reads \<Rightarrow> string \<Rightarrow> string \<Rightarrow> reported_anchors option \<Rightarrow> int \<Rightarrow> comment_thread list \<Rightarrow> comment_thread list" where
  "move_anchors d before after reported now threads = map (move_thread d before after reported now) threads"

end
