(* ===== verification/Anchor_Properties.thy ===== *)
theory Anchor_Properties
  imports Comment_Anchors "HOL-Library.Sublist"
begin

text \<open>
  What the diff library promises of its reads; the runs a change keeps of a text stand in both texts;
  and what a span comes to over each run it meets.
\<close>

subsection \<open>What the diff library promises\<close>

text \<open>A read's parts, without the added ones, are the old text, and without the removed ones the new.\<close>

definition parts_of_change :: "diff_part list \<Rightarrow> string \<Rightarrow> string \<Rightarrow> bool" where
  "parts_of_change ps a b \<longleftrightarrow>
     concat (map dp_value (filter (\<lambda>p. \<not> dp_added p) ps)) = a \<and>
     concat (map dp_value (filter (\<lambda>p. \<not> dp_removed p) ps)) = b \<and>
     list_all (\<lambda>p. \<not> (dp_added p \<and> dp_removed p)) ps"

definition reads_changes :: "diff_read \<Rightarrow> bool" where
  "reads_changes read \<longleftrightarrow> (\<forall>a b ps. read a b = Some ps \<longrightarrow> parts_of_change ps a b)"

definition diff_laws :: "diff_reads \<Rightarrow> bool" where
  "diff_laws d \<longleftrightarrow> (\<forall>a b. parts_of_change (lines_read d a b) a b) \<and>
     reads_changes (words_read d) \<and> reads_changes (chars_read d)"

lemma part_read_ok:
  "\<not> (dp_added (ps ! i) \<and> dp_removed (ps ! i)) \<Longrightarrow>
    concat (map dp_value (filter (\<lambda>p. \<not> dp_added p) (part_read ps i))) =
      concat (map dp_value (filter (\<lambda>p. \<not> dp_added p) [ps ! i])) \<and>
    concat (map dp_value (filter (\<lambda>p. \<not> dp_removed p) (part_read ps i))) =
      concat (map dp_value (filter (\<lambda>p. \<not> dp_removed p) [ps ! i])) \<and>
    list_all (\<lambda>p. \<not> (dp_added p \<and> dp_removed p)) (part_read ps i)"
  by (auto simp: part_read_def changed_part_def Let_def)

lemma words_concat:
  "concat (map dp_value (filter Q (concat pss))) = concat (map (\<lambda>ps. concat (map dp_value (filter Q ps))) pss)"
  by (induction pss) auto

lemma meaningful_ok: "parts_of_change ps a b \<Longrightarrow> parts_of_change (meaningful ps) a b"
proof -
  assume ok: "parts_of_change ps a b"
  have one: "\<not> (dp_added (ps ! i) \<and> dp_removed (ps ! i))" if "i < length ps" for i
    using ok that by (auto simp: parts_of_change_def list_all_length)
  have ps: "concat (map (\<lambda>i. [ps ! i]) [0..<length ps]) = ps" using concat_map_singleton map_nth by metis
  have same: "concat (map dp_value (filter Q (meaningful ps))) = concat (map dp_value (filter Q ps))"
    if "\<And>i. i < length ps \<Longrightarrow> concat (map dp_value (filter Q (part_read ps i))) = concat (map dp_value (filter Q [ps ! i]))"
    for Q
  proof -
    have "concat (map dp_value (filter Q (meaningful ps))) =
        concat (map (\<lambda>i. concat (map dp_value (filter Q (part_read ps i)))) [0..<length ps])"
      by (simp add: meaningful_def words_concat comp_def)
    also have "\<dots> = concat (map (\<lambda>i. concat (map dp_value (filter Q [ps ! i]))) [0..<length ps])"
      by (rule arg_cong [of _ _ concat], rule map_cong [OF refl], rule that) simp
    also have "\<dots> = concat (map dp_value (filter Q (concat (map (\<lambda>i. [ps ! i]) [0..<length ps]))))"
      unfolding words_concat by (simp only: map_map comp_def)
    finally show ?thesis unfolding ps .
  qed
  have "list_all (\<lambda>p. \<not> (dp_added p \<and> dp_removed p)) (meaningful ps)"
    using part_read_ok [OF one] by (auto simp: meaningful_def list_all_iff)
  with same [of "\<lambda>p. \<not> dp_added p"] same [of "\<lambda>p. \<not> dp_removed p"] part_read_ok [OF one] ok
  show ?thesis by (simp add: parts_of_change_def)
qed

subsection \<open>The runs kept stand in both texts\<close>

definition run_holds :: "string \<Rightarrow> string \<Rightarrow> kept_run \<Rightarrow> bool" where
  "run_holds a b r \<longleftrightarrow> kr_before r + kr_length r \<le> length a \<and> kr_after r + kr_length r \<le> length b \<and>
     take (kr_length r) (drop (kr_before r) a) = take (kr_length r) (drop (kr_after r) b)"

lemma prefix_drop:
  "prefix (g @ v) (drop at a) \<Longrightarrow> prefix v (drop (at + length g) a)"
  by (auto simp: prefix_def) (metis append_eq_conv_conj drop_drop add.commute)

text \<open>Words that stand in a text from an offset on.\<close>

definition stands :: "string \<Rightarrow> nat \<Rightarrow> string \<Rightarrow> bool" where
  "stands w at a \<longleftrightarrow> at \<le> length a \<and> prefix w (drop at a)"

lemma stands_past: "stands (g @ v) at a \<Longrightarrow> stands v (at + length g) a"
  using prefix_length_le [of "g @ v" "drop at a"] by (auto simp: stands_def prefix_drop)

lemma stands_front: "stands (g @ v) at a \<Longrightarrow> stands g at a"
  by (auto simp: stands_def dest: append_prefixD)

lemma stands_take: "stands w at a \<Longrightarrow> at + length w \<le> length a \<and> take (length w) (drop at a) = w"
  using prefix_length_le [of w "drop at a"] by (auto simp: stands_def prefix_def)

lemma run_of_value:
  assumes "stands (g @ v @ x) at a" "stands (w @ v @ y) to b"
  shows "run_holds a b \<lparr>kr_before = at + length g, kr_after = to + length w, kr_length = length v\<rparr>"
  using stands_take [OF stands_front [OF stands_past [OF assms(1)]]]
    stands_take [OF stands_front [OF stands_past [OF assms(2)]]]
  by (simp add: run_holds_def)

abbreviation old_words :: "diff_part list \<Rightarrow> string" where
  "old_words ps \<equiv> concat (map dp_value (filter (\<lambda>p. \<not> dp_added p) ps))"

abbreviation new_words :: "diff_part list \<Rightarrow> string" where
  "new_words ps \<equiv> concat (map dp_value (filter (\<lambda>p. \<not> dp_removed p) ps))"

lemma fold_parts_hold:
  assumes settle: "\<And>g w at to r. stands g at a \<Longrightarrow> stands w to b \<Longrightarrow> r \<in> set (settle g w at to) \<Longrightarrow> run_holds a b r"
  shows "stands (gone @ old_words ps) at a \<Longrightarrow> stands (written @ new_words ps) to b \<Longrightarrow>
    list_all (\<lambda>p. \<not> (dp_added p \<and> dp_removed p)) ps \<Longrightarrow> r \<in> set (fold_parts settle at to gone written ps) \<Longrightarrow>
    run_holds a b r"
proof (induction ps arbitrary: at to gone written)
  case Nil
  then show ?case using settle by auto
next
  case (Cons p ps)
  show ?case
  proof (cases "changed_part p")
    case True
    then show ?thesis
      using Cons.prems Cons.IH [where gone = "gone @ dp_value p" and at = at and written = written and to = to]
        Cons.IH [where gone = gone and at = at and written = "written @ dp_value p" and to = to]
      by (cases "dp_removed p") (simp_all add: changed_part_def)
  next
    case False
    let ?v = "dp_value p"
    have old: "stands (gone @ ?v @ old_words ps) at a" and new: "stands (written @ ?v @ new_words ps) to b"
      using Cons.prems False by (simp_all add: changed_part_def)
    from Cons.prems(4) False consider "r \<in> set (settle gone written at to)"
      | "r = \<lparr>kr_before = at + length gone, kr_after = to + length written, kr_length = length ?v\<rparr>"
      | "r \<in> set (fold_parts settle (at + length gone + length ?v) (to + length written + length ?v) [] [] ps)"
      by (auto simp: changed_part_def)
    then show ?thesis
    proof cases
      case 1
      then show ?thesis using settle stands_front [OF old] stands_front [OF new] by blast
    next
      case 2
      then show ?thesis using run_of_value [OF old new] by simp
    next
      case 3
      have "stands ([] @ old_words ps) (at + length gone + length ?v) a"
        "stands ([] @ new_words ps) (to + length written + length ?v) b"
        using stands_past [OF stands_past [OF old]] stands_past [OF stands_past [OF new]] by simp_all
      from Cons.IH [OF this _ 3] Cons.prems(3) show ?thesis by simp
    qed
  qed
qed

lemma finely_holds:
  "\<forall>read \<in> set reads. reads_changes read \<Longrightarrow> stands removed before a \<Longrightarrow> stands added after b \<Longrightarrow>
    r \<in> set (kept_finely reads deep removed added before after) \<Longrightarrow> run_holds a b r"
proof (induction reads arbitrary: deep removed added before after r)
  case (Cons read reads)
  from Cons.prems(4) have "r \<in> set (case read removed added of None \<Rightarrow> []
      | Some parts \<Rightarrow> fold_parts (kept_finely reads True) before after [] [] (meaningful parts))"
    by (simp split: if_splits)
  then obtain parts where parts: "read removed added = Some parts"
    "r \<in> set (fold_parts (kept_finely reads True) before after [] [] (meaningful parts))"
    by (cases "read removed added") simp_all
  then have "parts_of_change (meaningful parts) removed added"
    using Cons.prems(1) meaningful_ok by (auto simp: reads_changes_def)
  then have "stands ([] @ old_words (meaningful parts)) before a" "stands ([] @ new_words (meaningful parts)) after b"
    "list_all (\<lambda>p. \<not> (dp_added p \<and> dp_removed p)) (meaningful parts)"
    using Cons.prems(2,3) by (simp_all add: parts_of_change_def)
  moreover have "run_holds a b k" if "stands g at a" "stands w to b" "k \<in> set (kept_finely reads True g w at to)" for g w at to k
    using Cons.IH [OF _ that] Cons.prems(1) by simp
  ultimately show ?case using fold_parts_hold [where settle = "kept_finely reads True"] parts(2) by blast
qed simp

definition runs_hold :: "string \<Rightarrow> string \<Rightarrow> line_runs \<Rightarrow> bool" where
  "runs_hold a b r \<longleftrightarrow> (\<forall>k \<in> set (lr_kept r). run_holds a b k) \<and>
     (\<forall>c \<in> set (lr_removed r). stands (cs_text c) (cs_at c) a) \<and>
     (\<forall>c \<in> set (lr_added r). stands (cs_text c) (cs_at c) b)"

lemma runs_hold_then: "runs_hold a b x \<Longrightarrow> runs_hold a b y \<Longrightarrow> runs_hold a b (runs_then x y)"
  by (auto simp: runs_hold_def runs_then_def)

lemma settled_holds:
  "\<forall>read \<in> set reads. reads_changes read \<Longrightarrow> stands removed at a \<Longrightarrow> stands added to b \<Longrightarrow>
    runs_hold a b (settled reads removed added at to)"
  using finely_holds [of reads removed at a added to b] by (auto simp: settled_def runs_hold_def Let_def)

lemma read_lines_hold:
  assumes reads: "\<forall>read \<in> set reads. reads_changes read"
  shows "stands (removed @ old_words ps) at a \<Longrightarrow> stands (added @ new_words ps) to b \<Longrightarrow>
    list_all (\<lambda>p. \<not> (dp_added p \<and> dp_removed p)) ps \<Longrightarrow> runs_hold a b (read_lines reads at to removed added ps)"
proof (induction ps arbitrary: at to removed added)
  case Nil
  then show ?case using settled_holds [OF reads] by simp
next
  case (Cons p ps)
  show ?case
  proof (cases "changed_part p")
    case True
    then show ?thesis using Cons by (auto simp: changed_part_def)
  next
    case False
    let ?v = "dp_value p"
    have old: "stands (removed @ ?v @ old_words ps) at a" and new: "stands (added @ ?v @ new_words ps) to b"
      using Cons.prems False by (simp_all add: changed_part_def)
    have "stands ([] @ old_words ps) (at + length removed + length ?v) a"
      "stands ([] @ new_words ps) (to + length added + length ?v) b"
      using stands_past [OF stands_past [OF old]] stands_past [OF stands_past [OF new]] by simp_all
    then have "runs_hold a b (read_lines reads (at + length removed + length ?v) (to + length added + length ?v) [] [] ps)"
      using Cons.IH Cons.prems(3) by simp
    moreover have "runs_hold a b \<lparr>lr_kept = [\<lparr>kr_before = at + length removed, kr_after = to + length added,
        kr_length = length ?v\<rparr>], lr_removed = [], lr_added = []\<rparr>"
      using run_of_value [OF old new] by (simp add: runs_hold_def)
    moreover have "runs_hold a b (settled reads removed added at to)"
      using settled_holds [OF reads stands_front [OF old] stands_front [OF new]] .
    ultimately show ?thesis using False by (simp add: changed_part_def runs_hold_then)
  qed
qed

lemma moved_hold: "runs_hold a b r \<Longrightarrow> k \<in> set (moved_runs r) \<Longrightarrow> run_holds a b k"
proof -
  assume holds: "runs_hold a b r" and "k \<in> set (moved_runs r)"
  then obtain gone where g: "gone \<in> set (lr_removed r)"
    and "k \<in> set (case filter (\<lambda>written. trim_end (cs_text written) = trim_end (cs_text gone)) (lr_added r) of
        [moved] \<Rightarrow> if 1 < length (filter (\<lambda>other. trim_end (cs_text other) = trim_end (cs_text gone)) (lr_removed r)) then []
          else [\<lparr>kr_before = cs_at gone, kr_after = cs_at moved, kr_length = length (trim_end (cs_text gone))\<rparr>]
      | _ \<Rightarrow> [])" (is "_ \<in> set (case ?same of [moved] \<Rightarrow> _ | _ \<Rightarrow> [])")
    by (auto simp: moved_runs_def Let_def)
  then obtain moved where m: "?same = [moved]"
    and k: "k = \<lparr>kr_before = cs_at gone, kr_after = cs_at moved, kr_length = length (trim_end (cs_text gone))\<rparr>"
    by (cases ?same; cases "tl ?same") (auto split: if_splits)
  from m have "moved \<in> set (lr_added r)" "trim_end (cs_text moved) = trim_end (cs_text gone)"
    by (auto simp: filter_eq_Cons_iff)
  moreover have "stands (trim_end w) n t" if "stands w n t" for w n t
    using that stands_front trim_end_split [of w] by metis
  ultimately have "stands ([] @ trim_end (cs_text gone) @ []) (cs_at gone) a"
    "stands ([] @ trim_end (cs_text gone) @ []) (cs_at moved) b"
    using holds g by (auto simp: runs_hold_def) metis
  from run_of_value [OF this] k show ?thesis by simp
qed

lemma kept_runs_hold: "diff_laws d \<Longrightarrow> r \<in> set (kept_runs d before after) \<Longrightarrow> run_holds before after r"
proof -
  assume d: "diff_laws d" and r: "r \<in> set (kept_runs d before after)"
  let ?r = "read_lines [words_read d, chars_read d] 0 0 [] [] (lines_read d before after)"
  have "runs_hold before after ?r"
    using d by (intro read_lines_hold) (auto simp: diff_laws_def parts_of_change_def stands_def)
  with r moved_hold show ?thesis by (auto simp: kept_runs_def Let_def runs_hold_def)
qed

subsection \<open>A span over the runs kept\<close>

lemma spans_joined_some:
  "spans_joined (Some (x, y)) ss = Some (Min (set (x # map fst ss)), Max (set (y # map snd ss)))"
proof (induction ss arbitrary: x y)
  case (Cons s ss)
  then show ?case by (cases "ss = []") (simp_all add: min.assoc max.assoc)
qed simp

lemma spans_joined_none:
  "spans_joined None ss = (if ss = [] then None else Some (Min (fst ` set ss), Max (snd ` set ss)))"
  by (cases ss) (auto simp: spans_joined_some)

lemma run_nth:
  assumes "run_holds a b r" "kr_before r \<le> i" "i < kr_before r + kr_length r"
  shows "a ! i = b ! (kr_after r + (i - kr_before r))"
proof -
  have "take (kr_length r) (drop (kr_before r) a) ! (i - kr_before r) =
      take (kr_length r) (drop (kr_after r) b) ! (i - kr_before r)" using assms(1) by (simp add: run_holds_def)
  then show ?thesis using assms by (simp add: run_holds_def)
qed

lemma meets_iff:
  "run_meets (a, b) r \<longleftrightarrow> (\<exists>i. kr_before r \<le> i \<and> i < kr_before r + kr_length r \<and> a \<le> i \<and> i < b)"
  by (auto simp: run_meets_def max_def min_def intro: exI [of _ "max a (kr_before r)"])

text \<open>A diff that keeps what both texts open with, for which the laws hold.\<close>

definition front_diff :: "string \<Rightarrow> string \<Rightarrow> diff_part list" where
  "front_diff a b =
     (let n = length (longest_common_prefix a b)
      in [\<lparr>dp_value = take n a, dp_added = False, dp_removed = False\<rparr>,
          \<lparr>dp_value = drop n a, dp_added = False, dp_removed = True\<rparr>,
          \<lparr>dp_value = drop n b, dp_added = True, dp_removed = False\<rparr>])"

definition front_reads :: diff_reads where
  "front_reads = \<lparr>lines_read = front_diff, words_read = (\<lambda>a b. None), chars_read = (\<lambda>a b. Some (front_diff a b))\<rparr>"

lemma front_laws: "diff_laws front_reads"
proof -
  have front: "take (length (longest_common_prefix a b)) a @ drop (length (longest_common_prefix a b)) b = b" for a b :: string
  proof -
    have "take (length p) a = p" "p @ drop (length p) b = b" if "prefix p a" "prefix p b" for p
      using that by (auto elim!: prefixE)
    note both = this [OF longest_common_prefix_prefix1 longest_common_prefix_prefix2]
    show ?thesis unfolding both(1) by (rule both(2))
  qed
  show ?thesis
    by (simp add: diff_laws_def reads_changes_def front_reads_def parts_of_change_def front_diff_def Let_def front)
qed

end
