(* ===== verification/Anchor_Kept.thy ===== *)
theory Anchor_Kept
  imports Anchor_Properties
begin

text \<open>
  What a change of a text keeps of it, said of the diff library's reads alone: the characters of the
  lines left as they were, those of the finer reads of each stretch of lines changed, and those of a
  block of lines moved whole. The runs \<open>keptRuns\<close> gathers hold these characters and no others, so an
  anchor carried over the change stands from the first of them that stood under it to the last.
\<close>

subsection \<open>What a read keeps\<close>

text \<open>
  The character at \<open>i\<close> of the old text is in a part left as it was, and stands at \<open>j\<close> of the new.
\<close>

definition parts_keep :: "diff_part list \<Rightarrow> nat \<Rightarrow> nat \<Rightarrow> bool" where
  "parts_keep ps i j \<longleftrightarrow> (\<exists>xs p ys k. ps = xs @ p # ys \<and> \<not> changed_part p \<and> k < length (dp_value p) \<and>
     i = length (old_words xs) + k \<and> j = length (new_words xs) + k)"

text \<open>
  A stretch of changed parts next to no other changed part: the words it takes out and those it
  writes in, and where the one stood and the other stand.
\<close>

definition stretch :: "diff_part list \<Rightarrow> string \<Rightarrow> string \<Rightarrow> nat \<Rightarrow> nat \<Rightarrow> bool" where
  "stretch ps gone written m n \<longleftrightarrow> (\<exists>xs ss ys. ps = xs @ ss @ ys \<and> list_all changed_part ss \<and>
     (xs = [] \<or> \<not> changed_part (last xs)) \<and> (ys = [] \<or> \<not> changed_part (hd ys)) \<and>
     gone = old_words ss \<and> written = new_words ss \<and> m = length (old_words xs) \<and> n = length (new_words xs))"

text \<open>
  A stretch read finer: not one with nothing taken out or nothing written in, one past the bound, or,
  once a finer read was made, one with white space in it.
\<close>

definition read_finer :: "bool \<Rightarrow> string \<Rightarrow> string \<Rightarrow> bool" where
  "read_finer deep gone written \<longleftrightarrow> gone \<noteq> [] \<and> written \<noteq> [] \<and> \<not> past_fine_read gone written \<and>
     \<not> (deep \<and> list_ex white (gone @ written))"

inductive finely_keeps :: "diff_read list \<Rightarrow> bool \<Rightarrow> string \<Rightarrow> string \<Rightarrow> nat \<Rightarrow> nat \<Rightarrow> bool" where
  left: "read_finer deep gone written \<Longrightarrow> read gone written = Some ps \<Longrightarrow> parts_keep (meaningful ps) i j \<Longrightarrow>
    finely_keeps (read # reads) deep gone written i j"
| within: "read_finer deep gone written \<Longrightarrow> read gone written = Some ps \<Longrightarrow>
    stretch (meaningful ps) g w m n \<Longrightarrow> finely_keeps reads True g w i j \<Longrightarrow>
    finely_keeps (read # reads) deep gone written (m + i) (n + j)"

inductive_simps finely_keeps_none: "finely_keeps [] deep gone written i j"
inductive_simps finely_keeps_read: "finely_keeps (read # reads) deep gone written i j"

subsection \<open>What a change keeps\<close>

abbreviation fine_reads :: "diff_reads \<Rightarrow> diff_read list" where
  "fine_reads d \<equiv> [words_read d, chars_read d]"

text \<open>A block taken out, and one written in: words changed of which the finer reads keep nothing.\<close>

definition block_gone :: "diff_reads \<Rightarrow> diff_part list \<Rightarrow> string \<Rightarrow> nat \<Rightarrow> bool" where
  "block_gone d ps g m \<longleftrightarrow> (\<exists>w n. stretch ps g w m n \<and> trim g \<noteq> [] \<and> (\<forall>i j. \<not> finely_keeps (fine_reads d) False g w i j))"

definition block_written :: "diff_reads \<Rightarrow> diff_part list \<Rightarrow> string \<Rightarrow> nat \<Rightarrow> bool" where
  "block_written d ps w n \<longleftrightarrow> (\<exists>g m. stretch ps g w m n \<and> trim w \<noteq> [] \<and> (\<forall>i j. \<not> finely_keeps (fine_reads d) False g w i j))"

text \<open>The character at \<open>i\<close> of the text before is kept, and stands at \<open>j\<close> of the text after.\<close>

inductive change_keeps :: "diff_reads \<Rightarrow> string \<Rightarrow> string \<Rightarrow> nat \<Rightarrow> nat \<Rightarrow> bool"
  for d before after where
  line_left: "parts_keep (lines_read d before after) i j \<Longrightarrow> change_keeps d before after i j"
| read_fine: "stretch (lines_read d before after) g w m n \<Longrightarrow> finely_keeps (fine_reads d) False g w i j \<Longrightarrow>
    change_keeps d before after (m + i) (n + j)"
| moved_whole: "block_gone d (lines_read d before after) g m \<Longrightarrow> block_written d (lines_read d before after) w n \<Longrightarrow>
    trim_end w = trim_end g \<Longrightarrow>
    (\<And>g' m'. block_gone d (lines_read d before after) g' m' \<Longrightarrow> trim_end g' = trim_end g \<Longrightarrow> m' = m) \<Longrightarrow>
    (\<And>w' n'. block_written d (lines_read d before after) w' n' \<Longrightarrow> trim_end w' = trim_end g \<Longrightarrow> n' = n) \<Longrightarrow>
    k < length (trim_end g) \<Longrightarrow> change_keeps d before after (m + k) (n + k)"

subsection \<open>The loop over a read's parts\<close>

abbreviation one_way :: "diff_part list \<Rightarrow> bool" where
  "one_way ps \<equiv> list_all (\<lambda>p. \<not> (dp_added p \<and> dp_removed p)) ps"

fun stretch_list :: "nat \<Rightarrow> nat \<Rightarrow> string \<Rightarrow> string \<Rightarrow> diff_part list \<Rightarrow> (string \<times> string \<times> nat \<times> nat) list" where
  "stretch_list at to gone written [] = [(gone, written, at, to)]"
| "stretch_list at to gone written (p # ps) =
     (if dp_removed p then stretch_list at to (gone @ dp_value p) written ps
      else if dp_added p then stretch_list at to gone (written @ dp_value p) ps
      else (gone, written, at, to) #
        stretch_list (at + length gone + length (dp_value p)) (to + length written + length (dp_value p)) [] [] ps)"

definition run_at :: "kept_run \<Rightarrow> nat \<Rightarrow> nat \<Rightarrow> bool" where
  "run_at r i j \<longleftrightarrow> (\<exists>k < kr_length r. i = kr_before r + k \<and> j = kr_after r + k)"

lemma run_atI: "k < n \<Longrightarrow> run_at \<lparr>kr_before = m, kr_after = m', kr_length = n\<rparr> (m + k) (m' + k)"
  by (auto simp: run_at_def)

lemma parts_keep_Nil: "\<not> parts_keep [] i j"
  by (simp add: parts_keep_def)

lemma parts_keep_Cons:
  "parts_keep (p # ps) i j \<longleftrightarrow>
    (\<not> changed_part p \<and> i = j \<and> i < length (dp_value p)) \<or>
    (\<exists>i' j'. parts_keep ps i' j' \<and> i = length (old_words [p]) + i' \<and> j = length (new_words [p]) + j')"
    (is "?L \<longleftrightarrow> ?R")
proof
  assume ?L
  then obtain xs q ys k where at: "p # ps = xs @ q # ys" "\<not> changed_part q" "k < length (dp_value q)"
    "i = length (old_words xs) + k" "j = length (new_words xs) + k" unfolding parts_keep_def by blast
  show ?R
  proof (cases xs)
    case Nil
    then show ?thesis using at by simp
  next
    case (Cons x zs)
    then have "parts_keep ps (length (old_words zs) + k) (length (new_words zs) + k)"
      using at unfolding parts_keep_def by auto
    moreover have "i = length (old_words [p]) + (length (old_words zs) + k)" "j = length (new_words [p]) + (length (new_words zs) + k)"
      using at Cons by simp_all
    ultimately show ?thesis by blast
  qed
next
  assume ?R
  then show ?L
  proof (elim disjE exE conjE)
    assume "\<not> changed_part p" "i = j" "i < length (dp_value p)"
    then show ?L unfolding parts_keep_def by (intro exI [of _ "[]"] exI [of _ p] exI [of _ ps] exI [of _ i]) simp
  next
    fix i' j' assume "parts_keep ps i' j'" and at: "i = length (old_words [p]) + i'" "j = length (new_words [p]) + j'"
    then obtain xs q ys k where "ps = xs @ q # ys" "\<not> changed_part q" "k < length (dp_value q)"
      "i' = length (old_words xs) + k" "j' = length (new_words xs) + k" unfolding parts_keep_def by blast
    then show ?L using at unfolding parts_keep_def
      by (intro exI [of _ "p # xs"] exI [of _ q] exI [of _ ys] exI [of _ k]) simp
  qed
qed

text \<open>The loop keeps what the parts keep, and what is settled of each stretch.\<close>

lemma fold_parts_at:
  assumes "one_way ps"
  shows "(\<exists>r \<in> set (fold_parts settle at to gone written ps). run_at r i j) \<longleftrightarrow>
    (\<exists>i' j'. parts_keep ps i' j' \<and> i = at + length gone + i' \<and> j = to + length written + j') \<or>
    (\<exists>(g, w, m, n) \<in> set (stretch_list at to gone written ps). \<exists>r \<in> set (settle g w m n). run_at r i j)"
  using assms
proof (induction ps arbitrary: at to gone written)
  case Nil
  then show ?case by (simp add: parts_keep_Nil)
next
  case (Cons p ps)
  then have rest: "one_way ps" by simp
  show ?case
  proof (cases "changed_part p")
    case True
    then show ?thesis
      using Cons.prems by (auto simp: Cons.IH [OF rest] parts_keep_Cons changed_part_def add.assoc)
  next
    case False
    let ?a = "at + length gone" and ?t = "to + length written" and ?v = "length (dp_value p)"
    let ?then = "\<exists>i' j'. parts_keep ps i' j' \<and> i = ?a + ?v + length ([] :: string) + i' \<and> j = ?t + ?v + length ([] :: string) + j'"
    have run: "run_at \<lparr>kr_before = ?a, kr_after = ?t, kr_length = ?v\<rparr> i j \<longleftrightarrow> (\<exists>k < ?v. i = ?a + k \<and> j = ?t + k)"
      by (simp add: run_at_def)
    have keeps: "(\<exists>i' j'. parts_keep (p # ps) i' j' \<and> i = ?a + i' \<and> j = ?t + j') \<longleftrightarrow>
        (\<exists>k < ?v. i = ?a + k \<and> j = ?t + k) \<or> ?then" (is "?L \<longleftrightarrow> ?R")
    proof
      assume ?L
      then show ?R using False by (fastforce simp: parts_keep_Cons changed_part_def)
    next
      assume ?R
      then show ?L
      proof
        assume "\<exists>k < ?v. i = ?a + k \<and> j = ?t + k"
        then show ?L using False unfolding parts_keep_Cons by blast
      next
        assume ?then
        then obtain i' j' where "parts_keep ps i' j'" "i = ?a + (?v + i')" "j = ?t + (?v + j')" by (auto simp: add.assoc)
        moreover from this(1) have "parts_keep (p # ps) (?v + i') (?v + j')"
          using False by (auto simp: parts_keep_Cons changed_part_def)
        ultimately show ?L by blast
      qed
    qed
    have "(\<exists>r \<in> set (fold_parts settle at to gone written (p # ps)). run_at r i j) \<longleftrightarrow>
        (\<exists>r \<in> set (settle gone written at to). run_at r i j) \<or> (\<exists>k < ?v. i = ?a + k \<and> j = ?t + k) \<or>
        (\<exists>r \<in> set (fold_parts settle (?a + ?v) (?t + ?v) [] [] ps). run_at r i j)"
      using False by (simp add: changed_part_def bex_Un run) argo
    moreover have "(\<exists>(g, w, m, n) \<in> set (stretch_list at to gone written (p # ps)). \<exists>r \<in> set (settle g w m n). run_at r i j) \<longleftrightarrow>
        (\<exists>r \<in> set (settle gone written at to). run_at r i j) \<or>
        (\<exists>(g, w, m, n) \<in> set (stretch_list (?a + ?v) (?t + ?v) [] [] ps). \<exists>r \<in> set (settle g w m n). run_at r i j)"
      using False by (simp add: changed_part_def)
    ultimately show ?thesis unfolding keeps Cons.IH [OF rest, of "?a + ?v" "?t + ?v" "[]" "[]"] by argo
  qed
qed

lemma stretch_at_unchanged:
  assumes pre: "list_all changed_part pre" and p: "\<not> changed_part p"
  shows "stretch (pre @ p # ps) g w m n \<longleftrightarrow>
    (g = old_words pre \<and> w = new_words pre \<and> m = 0 \<and> n = 0) \<or>
    (\<exists>m' n'. stretch ps g w m' n' \<and> m = length (old_words (pre @ [p])) + m' \<and> n = length (new_words (pre @ [p])) + n')"
proof
  assume "stretch (pre @ p # ps) g w m n"
  then obtain xs ss ys where eq: "pre @ p # ps = xs @ ss @ ys" and ss: "list_all changed_part ss"
    and ends: "xs = [] \<or> \<not> changed_part (last xs)" "ys = [] \<or> \<not> changed_part (hd ys)"
    and at: "g = old_words ss" "w = new_words ss" "m = length (old_words xs)" "n = length (new_words xs)"
    by (auto simp: stretch_def)
  show "(g = old_words pre \<and> w = new_words pre \<and> m = 0 \<and> n = 0) \<or>
    (\<exists>m' n'. stretch ps g w m' n' \<and> m = length (old_words (pre @ [p])) + m' \<and> n = length (new_words (pre @ [p])) + n')"
  proof (cases "xs = []")
    case True
    have "ss = pre"
    proof -
      have pq: "takeWhile changed_part (pre @ p # ps) = pre" using pre p by (simp add: takeWhile_append list_all_iff)
      have "takeWhile changed_part (ss @ ys) = ss"
        using ss ends(2) by (cases ys) (auto simp: takeWhile_append list_all_iff)
      with pq eq True show ?thesis by simp
    qed
    then show ?thesis using at True by simp
  next
    case False
    then obtain xs' q where xs: "xs = xs' @ [q]" "\<not> changed_part q" using ends(1) by (metis append_butlast_last_id)
    have "length pre \<le> length xs'"
    proof (rule ccontr)
      assume "\<not> length pre \<le> length xs'"
      then have "q = pre ! length xs'" using arg_cong [OF eq, of "\<lambda>l. l ! length xs'"] xs(1) by (simp add: nth_append)
      with \<open>\<not> length pre \<le> length xs'\<close> pre xs(2) show False by (simp add: list_all_length)
    qed
    then obtain zs where zs: "xs = pre @ p # zs" "ps = zs @ ss @ ys"
      using eq xs(1) by (auto simp: append_eq_append_conv2 Cons_eq_append_conv append_eq_Cons_conv)
    then have "zs = [] \<or> \<not> changed_part (last zs)" using ends(1) by auto
    then have "stretch ps g w (length (old_words zs)) (length (new_words zs))"
      using zs ss ends(2) at unfolding stretch_def by blast
    then show ?thesis using zs at by auto
  qed
next
  assume "(g = old_words pre \<and> w = new_words pre \<and> m = 0 \<and> n = 0) \<or>
    (\<exists>m' n'. stretch ps g w m' n' \<and> m = length (old_words (pre @ [p])) + m' \<and> n = length (new_words (pre @ [p])) + n')"
  then show "stretch (pre @ p # ps) g w m n"
  proof (elim disjE exE conjE)
    assume "g = old_words pre" "w = new_words pre" "m = 0" "n = 0"
    then show ?thesis using pre p unfolding stretch_def
      by (intro exI [of _ "[]"] exI [of _ pre] exI [of _ "p # ps"]) simp
  next
    fix m' n' assume s: "stretch ps g w m' n'" and at: "m = length (old_words (pre @ [p])) + m'" "n = length (new_words (pre @ [p])) + n'"
    then obtain xs ss ys where "ps = xs @ ss @ ys" "list_all changed_part ss"
      "xs = [] \<or> \<not> changed_part (last xs)" "ys = [] \<or> \<not> changed_part (hd ys)"
      "g = old_words ss" "w = new_words ss" "m' = length (old_words xs)" "n' = length (new_words xs)"
      by (auto simp: stretch_def)
    moreover from this(3) have "\<not> changed_part (last (pre @ p # xs))" using p by (cases "xs = []") simp_all
    ultimately show ?thesis unfolding stretch_def at
      by (intro exI [of _ "pre @ p # xs"] exI [of _ ss] exI [of _ ys]) simp
  qed
qed

lemma stretch_list_at:
  assumes "list_all changed_part pre" "one_way pre" "one_way ps"
  shows "(g, w, m, n) \<in> set (stretch_list at to (old_words pre) (new_words pre) ps) \<longleftrightarrow>
    (\<exists>m' n'. stretch (pre @ ps) g w m' n' \<and> m = at + m' \<and> n = to + n')"
  using assms
proof (induction ps arbitrary: at to pre)
  case Nil
  have "stretch pre g w m' n' \<longleftrightarrow> g = old_words pre \<and> w = new_words pre \<and> m' = 0 \<and> n' = 0" for m' n'
  proof
    assume "stretch pre g w m' n'"
    then obtain xs ss ys where s: "pre = xs @ ss @ ys" "xs = [] \<or> \<not> changed_part (last xs)" "ys = [] \<or> \<not> changed_part (hd ys)"
      "g = old_words ss" "w = new_words ss" "m' = length (old_words xs)" "n' = length (new_words xs)"
      by (auto simp: stretch_def)
    moreover have "xs = []" "ys = []" using s(1-3) Nil.prems(1) by (auto simp: list_all_iff)
    ultimately show "g = old_words pre \<and> w = new_words pre \<and> m' = 0 \<and> n' = 0" by simp
  next
    assume "g = old_words pre \<and> w = new_words pre \<and> m' = 0 \<and> n' = 0"
    then show "stretch pre g w m' n'" using Nil.prems(1) unfolding stretch_def
      by (intro exI [of _ "[]"] exI [of _ pre]) simp
  qed
  then show ?case by auto
next
  case (Cons p ps)
  show ?case
  proof (cases "changed_part p")
    case True
    then have pre: "list_all changed_part (pre @ [p])" "one_way (pre @ [p])" using Cons.prems by simp_all
    have "set (stretch_list at to (old_words pre) (new_words pre) (p # ps)) =
        set (stretch_list at to (old_words (pre @ [p])) (new_words (pre @ [p])) ps)"
      using True Cons.prems by (auto simp: changed_part_def)
    then show ?thesis using Cons.IH [OF pre] Cons.prems(3) by simp
  next
    case False
    have "set (stretch_list at to (old_words pre) (new_words pre) (p # ps)) =
        insert (old_words pre, new_words pre, at, to)
          (set (stretch_list (at + length (old_words (pre @ [p]))) (to + length (new_words (pre @ [p]))) (old_words []) (new_words []) ps))"
      using False by (simp add: changed_part_def add.assoc)
    then show ?thesis
      using Cons.IH [of "[]"] Cons.prems stretch_at_unchanged [OF Cons.prems(1) False]
      by (auto simp: add.assoc)
  qed
qed

lemma stretch_list_read:
  "one_way ps \<Longrightarrow> (g, w, m, n) \<in> set (stretch_list at to [] [] ps) \<longleftrightarrow>
    (\<exists>m' n'. stretch ps g w m' n' \<and> m = at + m' \<and> n = to + n')"
  using stretch_list_at [of "[]"] by simp

subsection \<open>The finer reads\<close>

lemma meaningful_one_way: "reads_changes read \<Longrightarrow> read g w = Some ps \<Longrightarrow> one_way (meaningful ps)"
  using meaningful_ok by (auto simp: reads_changes_def parts_of_change_def)

lemma kept_finely_read:
  "kept_finely (read # reads) deep g w at to =
    (if read_finer deep g w
     then (case read g w of None \<Rightarrow> [] | Some ps \<Rightarrow> fold_parts (kept_finely reads True) at to [] [] (meaningful ps))
     else [])"
  by (auto simp: read_finer_def split: option.split)

declare kept_finely.simps(2) [simp del]

lemma finely_at:
  "\<forall>read \<in> set reads. reads_changes read \<Longrightarrow>
    (\<exists>r \<in> set (kept_finely reads deep g w at to). run_at r i j) \<longleftrightarrow>
    (\<exists>i' j'. finely_keeps reads deep g w i' j' \<and> i = at + i' \<and> j = to + j')"
proof (induction reads arbitrary: deep g w at to i j)
  case Nil
  then show ?case by (simp add: finely_keeps_none)
next
  case (Cons read reads)
  show ?case
  proof (cases "read_finer deep g w \<and> (\<exists>ps. read g w = Some ps)")
    case False
    then have "kept_finely (read # reads) deep g w at to = []"
      by (cases "read g w") (simp_all add: kept_finely_read)
    moreover have "\<not> finely_keeps (read # reads) deep g w i' j'" for i' j'
      using False by (auto simp: finely_keeps_read)
    ultimately show ?thesis by simp
  next
    case True
    then obtain ps where fine: "read_finer deep g w" and ps: "read g w = Some ps" by blast
    let ?ps = "meaningful ps"
    have way: "one_way ?ps" using Cons.prems by (intro meaningful_one_way [of read g w]) (simp_all add: ps)
    have IH: "(\<exists>r \<in> set (kept_finely reads True g' w' m n). run_at r i j) \<longleftrightarrow>
        (\<exists>i' j'. finely_keeps reads True g' w' i' j' \<and> i = m + i' \<and> j = n + j')" for g' w' m n
      using Cons.IH Cons.prems by simp
    have "(\<exists>r \<in> set (kept_finely (read # reads) deep g w at to). run_at r i j) \<longleftrightarrow>
        (\<exists>i' j'. parts_keep ?ps i' j' \<and> i = at + i' \<and> j = to + j') \<or>
        (\<exists>(g', w', m, n) \<in> set (stretch_list at to [] [] ?ps). \<exists>r \<in> set (kept_finely reads True g' w' m n). run_at r i j)"
      using fine ps by (simp add: kept_finely_read fold_parts_at [OF way])
    also have "(\<exists>(g', w', m, n) \<in> set (stretch_list at to [] [] ?ps). \<exists>r \<in> set (kept_finely reads True g' w' m n). run_at r i j) \<longleftrightarrow>
        (\<exists>g' w' m n i' j'. stretch ?ps g' w' m n \<and> finely_keeps reads True g' w' i' j' \<and> i = at + (m + i') \<and> j = to + (n + j'))"
      (is "?L \<longleftrightarrow> ?R")
    proof
      assume ?L
      then obtain g' w' m n where "(g', w', m, n) \<in> set (stretch_list at to [] [] ?ps)"
        and fine: "\<exists>r \<in> set (kept_finely reads True g' w' m n). run_at r i j" by blast
      then obtain m' n' where "stretch ?ps g' w' m' n'" "m = at + m'" "n = to + n'"
        unfolding stretch_list_read [OF way] by blast
      moreover from fine obtain i' j' where "finely_keeps reads True g' w' i' j'" "i = m + i'" "j = n + j'"
        unfolding IH by blast
      ultimately show ?R by (metis add.assoc)
    next
      assume ?R
      then obtain g' w' m n i' j' where s: "stretch ?ps g' w' m n" and k: "finely_keeps reads True g' w' i' j'"
        "i = at + (m + i')" "j = to + (n + j')" by blast
      have "(g', w', at + m, to + n) \<in> set (stretch_list at to [] [] ?ps)"
        unfolding stretch_list_read [OF way] using s by blast
      moreover have "\<exists>r \<in> set (kept_finely reads True g' w' (at + m) (to + n)). run_at r i j"
        unfolding IH using k by (metis add.assoc)
      ultimately show ?L by blast
    qed
    finally have loop: "(\<exists>r \<in> set (kept_finely (read # reads) deep g w at to). run_at r i j) \<longleftrightarrow>
        (\<exists>i' j'. parts_keep ?ps i' j' \<and> i = at + i' \<and> j = to + j') \<or>
        (\<exists>g' w' m n i' j'. stretch ?ps g' w' m n \<and> finely_keeps reads True g' w' i' j' \<and>
          i = at + (m + i') \<and> j = to + (n + j'))" .
    have "finely_keeps (read # reads) deep g w x y \<longleftrightarrow> parts_keep ?ps x y \<or>
        (\<exists>g' w' m n i' j'. x = m + i' \<and> y = n + j' \<and> stretch ?ps g' w' m n \<and> finely_keeps reads True g' w' i' j')" for x y
      unfolding finely_keeps_read using fine ps by fastforce
    then show ?thesis unfolding loop by blast
  qed
qed

text \<open>A run kept finely is of a character at least, so where none is kept no run is.\<close>

lemma fold_parts_some:
  "\<forall>g w m n. \<forall>k \<in> set (settle g w m n). 0 < kr_length k \<Longrightarrow>
    \<forall>p \<in> set ps. changed_part p \<or> dp_value p \<noteq> [] \<Longrightarrow>
    r \<in> set (fold_parts settle at to gone written ps) \<Longrightarrow> 0 < kr_length r"
  by (induction ps arbitrary: at to gone written) (auto simp: changed_part_def split: if_splits)

lemma meaningful_some: "p \<in> set (meaningful ps) \<Longrightarrow> changed_part p \<or> dp_value p \<noteq> []"
  by (auto simp: meaningful_def part_read_def changed_part_def Let_def split: if_splits)

lemma finely_some: "r \<in> set (kept_finely reads deep g w at to) \<Longrightarrow> 0 < kr_length r"
proof (induction reads arbitrary: deep g w at to r)
  case (Cons read reads)
  from Cons.prems obtain ps where "r \<in> set (fold_parts (kept_finely reads True) at to [] [] (meaningful ps))"
    by (cases "read_finer deep g w"; cases "read g w") (simp_all add: kept_finely_read)
  moreover have "\<forall>p \<in> set (meaningful ps). changed_part p \<or> dp_value p \<noteq> []" using meaningful_some by blast
  moreover have "\<forall>g w m n. \<forall>k \<in> set (kept_finely reads True g w m n). 0 < kr_length k" using Cons.IH by blast
  ultimately show ?case by (intro fold_parts_some)
qed simp

lemma finely_none:
  assumes "\<forall>read \<in> set reads. reads_changes read"
  shows "kept_finely reads deep g w at to = [] \<longleftrightarrow> (\<forall>i j. \<not> finely_keeps reads deep g w i j)"
proof
  assume "kept_finely reads deep g w at to = []"
  then have "\<not> (\<exists>r \<in> set (kept_finely reads deep g w at to). run_at r (at + i) (to + j))" for i j by simp
  then show "\<forall>i j. \<not> finely_keeps reads deep g w i j" unfolding finely_at [OF assms] by blast
next
  assume none: "\<forall>i j. \<not> finely_keeps reads deep g w i j"
  have "r \<notin> set (kept_finely reads deep g w at to)" for r
  proof
    assume r: "r \<in> set (kept_finely reads deep g w at to)"
    then have "run_at r (kr_before r) (kr_after r)" using finely_some [OF r] by (auto simp: run_at_def)
    with r none finely_at [OF assms, of deep g w at to "kr_before r" "kr_after r"] show False by blast
  qed
  then show "kept_finely reads deep g w at to = []" by (metis list.set_intros(1) neq_Nil_conv)
qed

subsection \<open>The lines\<close>

lemma lines_kept:
  "lr_kept (read_lines reads at to g w ps) = fold_parts (kept_finely reads False) at to g w ps"
  by (induction ps arbitrary: at to g w) (simp_all add: settled_def runs_then_def Let_def)

lemma lines_changed:
  "lr_removed (read_lines reads at to g w ps) =
    concat (map (\<lambda>(g, w, m, n). lr_removed (settled reads g w m n)) (stretch_list at to g w ps))"
  "lr_added (read_lines reads at to g w ps) =
    concat (map (\<lambda>(g, w, m, n). lr_added (settled reads g w m n)) (stretch_list at to g w ps))"
  by (induction ps arbitrary: at to g w) (simp_all add: runs_then_def)

lemma trim_some: "trim w \<noteq> [] \<Longrightarrow> 0 < length w"
  by (auto simp: trim_def trim_end_def)

lemma settled_removed:
  "lr_removed (settled reads g w at to) = [] \<or>
    (\<exists>c. lr_removed (settled reads g w at to) = [c] \<and> cs_at c = at \<and> 0 < length g)"
  using trim_some by (simp add: settled_def Let_def)

lemma settled_added:
  "lr_added (settled reads g w at to) = [] \<or>
    (\<exists>c. lr_added (settled reads g w at to) = [c] \<and> cs_at c = to \<and> 0 < length w)"
  using trim_some by (simp add: settled_def Let_def)

definition in_order_from :: "nat \<Rightarrow> changed_stretch list \<Rightarrow> bool" where
  "in_order_from at cs \<longleftrightarrow> sorted_wrt (<) (map cs_at cs) \<and> (\<forall>c \<in> set cs. at \<le> cs_at c)"

lemma in_order_then:
  "xs = [] \<or> (\<exists>c. xs = [c] \<and> cs_at c = at \<and> 0 < k) \<Longrightarrow> in_order_from (at + k + v) ys \<Longrightarrow> in_order_from at (xs @ ys)"
  by (fastforce simp: in_order_from_def)

lemma lines_in_order:
  "in_order_from at (lr_removed (read_lines reads at to g w ps))"
  "in_order_from to (lr_added (read_lines reads at to g w ps))"
proof (induction ps arbitrary: at to g w)
  case Nil
  { case 1 show ?case using settled_removed [of reads g w at to] by (auto simp: in_order_from_def) }
  { case 2 show ?case using settled_added [of reads g w at to] by (auto simp: in_order_from_def) }
next
  case (Cons p ps)
  { case 1 show ?case using Cons.IH(1) in_order_then [OF settled_removed Cons.IH(1)] by (simp add: runs_then_def) }
  { case 2 show ?case using Cons.IH(2) in_order_then [OF settled_added Cons.IH(2)] by (simp add: runs_then_def) }
qed

lemma in_order_distinct: "in_order_from at cs \<Longrightarrow> distinct (map cs_at cs)"
  by (auto simp: in_order_from_def strict_sorted_iff)

lemma only_member: "\<forall>y \<in> set ys. y = x \<Longrightarrow> x \<in> set ys \<Longrightarrow> distinct ys \<Longrightarrow> ys = [x]"
  by (cases ys; cases "tl ys") auto

lemma filter_only:
  assumes "distinct (map f xs)"
  shows "filter P xs = [x] \<longleftrightarrow> x \<in> set xs \<and> P x \<and> (\<forall>y \<in> set xs. P y \<longrightarrow> f y = f x)"
proof
  assume "filter P xs = [x]"
  then have "set (filter P xs) = {x}" by simp
  then show "x \<in> set xs \<and> P x \<and> (\<forall>y \<in> set xs. P y \<longrightarrow> f y = f x)" by auto
next
  assume x: "x \<in> set xs \<and> P x \<and> (\<forall>y \<in> set xs. P y \<longrightarrow> f y = f x)"
  have "inj_on f (set xs)" "distinct xs" using assms by (simp_all add: distinct_map)
  then have "y = x" if "y \<in> set (filter P xs)" for y
    using x that by (auto dest: inj_onD)
  moreover have "x \<in> set (filter P xs)" "distinct (filter P xs)" using x \<open>distinct xs\<close> by simp_all
  ultimately show "filter P xs = [x]" by (intro only_member ballI)
qed

subsection \<open>The runs kept hold what the change keeps\<close>

lemma reads_of_laws: "diff_laws d \<Longrightarrow> \<forall>read \<in> set (fine_reads d). reads_changes read"
  by (simp add: diff_laws_def)

lemma one_way_lines: "diff_laws d \<Longrightarrow> one_way (lines_read d before after)"
  by (simp add: diff_laws_def parts_of_change_def)

abbreviation lines_of :: "diff_reads \<Rightarrow> string \<Rightarrow> string \<Rightarrow> line_runs" where
  "lines_of d before after \<equiv> read_lines (fine_reads d) 0 0 [] [] (lines_read d before after)"

lemma line_blocks:
  assumes "diff_laws d"
  shows "(\<exists>c \<in> set (lr_removed (lines_of d before after)). cs_text c = g \<and> cs_at c = m) \<longleftrightarrow>
      block_gone d (lines_read d before after) g m"
    and "(\<exists>c \<in> set (lr_added (lines_of d before after)). cs_text c = w \<and> cs_at c = n) \<longleftrightarrow>
      block_written d (lines_read d before after) w n"
proof -
  let ?ps = "lines_read d before after"
  have at: "(g, w, m, n) \<in> set (stretch_list 0 0 [] [] ?ps) \<longleftrightarrow> stretch ?ps g w m n" for g w m n
    using stretch_list_read [OF one_way_lines [OF assms], of g w m n 0 0] by simp
  note none = finely_none [OF reads_of_laws [OF assms], of False]
  have "(\<exists>c \<in> set (lr_removed (lines_of d before after)). cs_text c = g \<and> cs_at c = m) \<longleftrightarrow>
      (\<exists>w n. (g, w, m, n) \<in> set (stretch_list 0 0 [] [] ?ps) \<and> trim g \<noteq> [] \<and> kept_finely (fine_reads d) False g w m n = [])"
    unfolding lines_changed settled_def Let_def by (force split: if_splits)
  then show "(\<exists>c \<in> set (lr_removed (lines_of d before after)). cs_text c = g \<and> cs_at c = m) \<longleftrightarrow> block_gone d ?ps g m"
    unfolding at none block_gone_def .
  have "(\<exists>c \<in> set (lr_added (lines_of d before after)). cs_text c = w \<and> cs_at c = n) \<longleftrightarrow>
      (\<exists>g m. (g, w, m, n) \<in> set (stretch_list 0 0 [] [] ?ps) \<and> trim w \<noteq> [] \<and> kept_finely (fine_reads d) False g w m n = [])"
    unfolding lines_changed settled_def Let_def by (force split: if_splits)
  then show "(\<exists>c \<in> set (lr_added (lines_of d before after)). cs_text c = w \<and> cs_at c = n) \<longleftrightarrow> block_written d ?ps w n"
    unfolding at none block_written_def .
qed

lemma only_one_in:
  "r \<in> set (case ws of [x] \<Rightarrow> if t then [] else [f x] | _ \<Rightarrow> []) \<longleftrightarrow> (\<exists>x. ws = [x] \<and> \<not> t \<and> r = f x)"
  by (cases ws; cases "tl ws") auto

text \<open>A block moved whole: the one block taken out, and the one written in, of its words.\<close>

lemma moved_run:
  assumes "distinct (map cs_at (lr_removed l))" "distinct (map cs_at (lr_added l))"
  shows "r \<in> set (moved_runs l) \<longleftrightarrow> (\<exists>gone moved. gone \<in> set (lr_removed l) \<and> moved \<in> set (lr_added l) \<and>
    trim_end (cs_text moved) = trim_end (cs_text gone) \<and>
    (\<forall>c \<in> set (lr_removed l). trim_end (cs_text c) = trim_end (cs_text gone) \<longrightarrow> cs_at c = cs_at gone) \<and>
    (\<forall>c \<in> set (lr_added l). trim_end (cs_text c) = trim_end (cs_text gone) \<longrightarrow> cs_at c = cs_at moved) \<and>
    r = \<lparr>kr_before = cs_at gone, kr_after = cs_at moved, kr_length = length (trim_end (cs_text gone))\<rparr>)"
proof -
  let ?gone = "\<lambda>gone. filter (\<lambda>c. trim_end (cs_text c) = trim_end (cs_text gone)) (lr_removed l)"
  let ?written = "\<lambda>gone. filter (\<lambda>c. trim_end (cs_text c) = trim_end (cs_text gone)) (lr_added l)"
  have once: "\<not> 1 < length (?gone gone) \<longleftrightarrow> ?gone gone = [gone]" if "gone \<in> set (lr_removed l)" for gone
  proof -
    have "gone \<in> set (?gone gone)" using that by simp
    then show ?thesis by (cases "?gone gone"; cases "tl (?gone gone)") auto
  qed
  have "r \<in> set (moved_runs l) \<longleftrightarrow> (\<exists>gone \<in> set (lr_removed l). r \<in> set (case ?written gone of
      [moved] \<Rightarrow> if 1 < length (?gone gone) then []
        else [\<lparr>kr_before = cs_at gone, kr_after = cs_at moved, kr_length = length (trim_end (cs_text gone))\<rparr>]
    | _ \<Rightarrow> []))" by (simp add: moved_runs_def Let_def)
  also have "\<dots> \<longleftrightarrow> (\<exists>gone \<in> set (lr_removed l). \<exists>moved. ?written gone = [moved] \<and> ?gone gone = [gone] \<and>
      r = \<lparr>kr_before = cs_at gone, kr_after = cs_at moved, kr_length = length (trim_end (cs_text gone))\<rparr>)"
    unfolding only_one_in using once by (intro bex_cong refl) auto
  finally show ?thesis unfolding filter_only [OF assms(1)] filter_only [OF assms(2)] by blast
qed

lemma moved_run_at:
  assumes "distinct (map cs_at (lr_removed l))" "distinct (map cs_at (lr_added l))"
  shows "(\<exists>r \<in> set (moved_runs l). run_at r i j) \<longleftrightarrow> (\<exists>gone \<in> set (lr_removed l). \<exists>moved \<in> set (lr_added l). \<exists>k.
    trim_end (cs_text moved) = trim_end (cs_text gone) \<and>
    (\<forall>c \<in> set (lr_removed l). trim_end (cs_text c) = trim_end (cs_text gone) \<longrightarrow> cs_at c = cs_at gone) \<and>
    (\<forall>c \<in> set (lr_added l). trim_end (cs_text c) = trim_end (cs_text gone) \<longrightarrow> cs_at c = cs_at moved) \<and>
    k < length (trim_end (cs_text gone)) \<and> i = cs_at gone + k \<and> j = cs_at moved + k)" (is "?L \<longleftrightarrow> ?R")
proof
  assume ?L
  then obtain r where "r \<in> set (moved_runs l)" and at: "run_at r i j" by blast
  then obtain gone moved where "gone \<in> set (lr_removed l)" "moved \<in> set (lr_added l)"
    "trim_end (cs_text moved) = trim_end (cs_text gone)"
    "\<forall>c \<in> set (lr_removed l). trim_end (cs_text c) = trim_end (cs_text gone) \<longrightarrow> cs_at c = cs_at gone"
    "\<forall>c \<in> set (lr_added l). trim_end (cs_text c) = trim_end (cs_text gone) \<longrightarrow> cs_at c = cs_at moved"
    and r: "r = \<lparr>kr_before = cs_at gone, kr_after = cs_at moved, kr_length = length (trim_end (cs_text gone))\<rparr>"
    unfolding moved_run [OF assms] by blast
  moreover from at obtain k where "k < length (trim_end (cs_text gone))" "i = cs_at gone + k" "j = cs_at moved + k"
    unfolding r run_at_def by auto
  ultimately show ?R by blast
next
  assume ?R
  then obtain gone moved k where one: "gone \<in> set (lr_removed l)" "moved \<in> set (lr_added l)"
    "trim_end (cs_text moved) = trim_end (cs_text gone)"
    "\<forall>c \<in> set (lr_removed l). trim_end (cs_text c) = trim_end (cs_text gone) \<longrightarrow> cs_at c = cs_at gone"
    "\<forall>c \<in> set (lr_added l). trim_end (cs_text c) = trim_end (cs_text gone) \<longrightarrow> cs_at c = cs_at moved"
    and k: "k < length (trim_end (cs_text gone))" "i = cs_at gone + k" "j = cs_at moved + k" by blast
  let ?r = "\<lparr>kr_before = cs_at gone, kr_after = cs_at moved, kr_length = length (trim_end (cs_text gone))\<rparr>"
  have "?r \<in> set (moved_runs l)" unfolding moved_run [OF assms] using one by blast
  moreover have "run_at ?r i j" using run_atI [OF k(1)] k(2,3) by simp
  ultimately show ?L by blast
qed

text \<open>The characters in the runs kept are those the change keeps.\<close>

lemma kept_at:
  assumes "diff_laws d"
  shows "(\<exists>r \<in> set (kept_runs d before after). run_at r i j) \<longleftrightarrow> change_keeps d before after i j"
proof -
  let ?ps = "lines_read d before after" and ?l = "lines_of d before after"
  let ?fine = "\<exists>g w m n i' j'. stretch ?ps g w m n \<and> finely_keeps (fine_reads d) False g w i' j' \<and> i = m + i' \<and> j = n + j'"
  let ?moved = "\<exists>g w m n k. block_gone d ?ps g m \<and> block_written d ?ps w n \<and> trim_end w = trim_end g \<and>
        (\<forall>g' m'. block_gone d ?ps g' m' \<and> trim_end g' = trim_end g \<longrightarrow> m' = m) \<and>
        (\<forall>w' n'. block_written d ?ps w' n' \<and> trim_end w' = trim_end g \<longrightarrow> n' = n) \<and>
        k < length (trim_end g) \<and> i = m + k \<and> j = n + k"
  note way = one_way_lines [OF assms, of before after] and fine = finely_at [OF reads_of_laws [OF assms], of False]
    and blocks = line_blocks [OF assms, of before after]
  have "(\<exists>r \<in> set (lr_kept ?l). run_at r i j) \<longleftrightarrow> parts_keep ?ps i j \<or> ?fine"
  proof -
    have at: "(g, w, m, n) \<in> set (stretch_list 0 0 [] [] ?ps) \<longleftrightarrow> stretch ?ps g w m n" for g w m n
      using stretch_list_read [OF way, of g w m n 0 0] by simp
    have "(\<exists>r \<in> set (lr_kept ?l). run_at r i j) \<longleftrightarrow> parts_keep ?ps i j \<or>
        (\<exists>(g, w, m, n) \<in> set (stretch_list 0 0 [] [] ?ps). \<exists>r \<in> set (kept_finely (fine_reads d) False g w m n). run_at r i j)"
      using fold_parts_at [OF way, of "kept_finely (fine_reads d) False" 0 0 "[]" "[]" i j] by (simp add: lines_kept)
    also have "(\<exists>(g, w, m, n) \<in> set (stretch_list 0 0 [] [] ?ps). \<exists>r \<in> set (kept_finely (fine_reads d) False g w m n). run_at r i j) \<longleftrightarrow>
        ?fine"
      unfolding fine using at by (auto simp: Bex_def)
    finally show ?thesis .
  qed
  moreover have "(\<exists>r \<in> set (moved_runs ?l). run_at r i j) \<longleftrightarrow> ?moved"
    unfolding moved_run_at [OF in_order_distinct [OF lines_in_order(1)] in_order_distinct [OF lines_in_order(2)]]
      blocks [symmetric] by blast
  ultimately have runs: "(\<exists>r \<in> set (kept_runs d before after). run_at r i j) \<longleftrightarrow> (parts_keep ?ps i j \<or> ?fine) \<or> ?moved"
    unfolding kept_runs_def Let_def set_append bex_Un by (simp only:)
  show ?thesis unfolding runs
  proof
    show "change_keeps d before after i j" if "(parts_keep ?ps i j \<or> ?fine) \<or> ?moved"
      using that
    proof (elim disjE exE conjE)
      fix g w m n k
      assume "block_gone d ?ps g m" "block_written d ?ps w n" "trim_end w = trim_end g"
        and once: "\<forall>g' m'. block_gone d ?ps g' m' \<and> trim_end g' = trim_end g \<longrightarrow> m' = m"
          "\<forall>w' n'. block_written d ?ps w' n' \<and> trim_end w' = trim_end g \<longrightarrow> n' = n"
        and k: "k < length (trim_end g)" "i = m + k" "j = n + k"
      then show ?thesis unfolding k(2,3) by (intro change_keeps.moved_whole) blast+
    qed (auto intro: change_keeps.line_left change_keeps.read_fine)
  next
    show "(parts_keep ?ps i j \<or> ?fine) \<or> ?moved" if "change_keeps d before after i j"
      using that by cases blast+
  qed
qed

subsection \<open>An anchor carried stands on the words kept\<close>

lemma run_at_same:
  assumes "run_holds before after r" "run_at r i j"
  shows "before ! i = after ! j"
  using assms(2) run_nth [OF assms(1)] by (auto simp: run_at_def)

lemma meets_at: "run_meets (a, b) r \<longleftrightarrow> (\<exists>i j. run_at r i j \<and> a \<le> i \<and> i < b)"
  unfolding meets_iff run_at_def by (metis add.commute le_add1 le_add_diff_inverse nat_add_left_cancel_less)

text \<open>Over a run it meets, a span stands from a character of the run to a character of it.\<close>

lemma span_over_at:
  assumes "run_meets (a, b) r" "span_over (a, b) r = (x, y)"
  shows "x < y" "\<exists>i. a \<le> i \<and> i < b \<and> run_at r i x" "\<exists>i. a \<le> i \<and> i < b \<and> run_at r i (y - 1)"
proof -
  let ?i = "max a (kr_before r)" and ?j = "min b (kr_before r + kr_length r)"
  have ij: "?i < ?j" using assms(1) by (simp add: run_meets_def)
  have xy: "x = kr_after r + (?i - kr_before r)" "y = kr_after r + (?j - kr_before r)"
    using assms(2) by (simp_all add: span_over_def)
  show "x < y" using ij unfolding xy by auto
  have "run_at r ?i x" unfolding run_at_def xy using ij by (intro exI [of _ "?i - kr_before r"]) auto
  then show "\<exists>i. a \<le> i \<and> i < b \<and> run_at r i x" using ij by (intro exI [of _ ?i]) auto
  have "run_at r (?j - 1) (y - 1)" unfolding run_at_def xy using ij by (intro exI [of _ "?j - 1 - kr_before r"]) auto
  then show "\<exists>i. a \<le> i \<and> i < b \<and> run_at r i (y - 1)" using ij by (intro exI [of _ "?j - 1"]) auto
qed

lemma at_span_over:
  "run_at r i j \<Longrightarrow> a \<le> i \<Longrightarrow> i < b \<Longrightarrow> fst (span_over (a, b) r) \<le> j \<and> j < snd (span_over (a, b) r)"
  by (auto simp: run_at_def span_over_def)

lemma span_over_inside:
  "run_holds before after r \<Longrightarrow> run_meets (a, b) r \<Longrightarrow> snd (span_over (a, b) r) \<le> length after"
  by (auto simp: run_holds_def run_meets_def span_over_def)

text \<open>
  C21: What a change of a text keeps, as the diff library reads the two, is every character of the
  lines it left as they were; of a stretch of lines changed, the characters the finer reads, by words
  and then by characters, leave in parts longer than the change around them; and, of a stretch of
  which those keep nothing, the characters of a block moved whole: one whose words stand in one
  stretch taken out and one written in. An anchor carried over a change stands inside the new text,
  on at least one character; its first and its last character are characters the change kept from
  under it, and every character it stood on that the change kept stands under it still, wherever it
  went. It stands nowhere only where the change kept no character of it.
\<close>

theorem anchor_stands_on_kept_words:
  assumes laws: "diff_laws d" and moved: "before \<noteq> after"
  shows "case text_change d before after (a, b) of
      None \<Rightarrow> \<forall>i j. change_keeps d before after i j \<longrightarrow> \<not> (a \<le> i \<and> i < b)
    | Some (x, y) \<Rightarrow> x < y \<and> y \<le> length after \<and>
        (\<exists>i. a \<le> i \<and> i < b \<and> change_keeps d before after i x \<and> before ! i = after ! x) \<and>
        (\<exists>i. a \<le> i \<and> i < b \<and> change_keeps d before after i (y - 1) \<and> before ! i = after ! (y - 1)) \<and>
        (\<forall>i j. change_keeps d before after i j \<and> a \<le> i \<and> i < b \<longrightarrow> x \<le> j \<and> j < y)"
proof -
  let ?rs = "filter (run_meets (a, b)) (kept_runs d before after)"
  have change: "text_change d before after (a, b) = (if ?rs = [] then None else
      Some (Min (fst ` span_over (a, b) ` set ?rs), Max (snd ` span_over (a, b) ` set ?rs)))"
    using moved by (simp add: text_change_def spans_joined_none image_comp)
  have meets: "\<exists>r \<in> set ?rs. run_at r i j" if "change_keeps d before after i j" "a \<le> i" "i < b" for i j
    using that unfolding kept_at [OF laws, symmetric] by (auto simp: meets_at)
  show ?thesis
  proof (cases "?rs = []")
    case True
    then show ?thesis using change meets by auto
  next
    case False
    let ?xs = "fst ` span_over (a, b) ` set ?rs" and ?ys = "snd ` span_over (a, b) ` set ?rs"
    have kept: "run_holds before after r" "run_meets (a, b) r" if "r \<in> set ?rs" for r
      using that kept_runs_hold [OF laws] by auto
    have at: "change_keeps d before after i j \<and> before ! i = after ! j" if "r \<in> set ?rs" "run_at r i j" for r i j
    proof
      show "change_keeps d before after i j" using that unfolding kept_at [OF laws, symmetric] by auto
      show "before ! i = after ! j" by (rule run_at_same [OF kept(1) [OF that(1)] that(2)])
    qed
    have "Min ?xs \<in> ?xs" "Max ?ys \<in> ?ys" using False by (auto intro!: Min_in Max_in)
    then obtain r s where r: "r \<in> set ?rs" "Min ?xs = fst (span_over (a, b) r)"
      and s: "s \<in> set ?rs" "Max ?ys = snd (span_over (a, b) s)" by auto
    have all: "Min ?xs \<le> fst (span_over (a, b) q) \<and> snd (span_over (a, b) q) \<le> Max ?ys" if "q \<in> set ?rs" for q
      using that by (intro conjI Min_le Max_ge) auto
    note first = span_over_at [OF kept(2) [OF r(1)] prod.collapse [symmetric]]
    note last = span_over_at [OF kept(2) [OF s(1)] prod.collapse [symmetric]]
    have "Min ?xs \<le> j \<and> j < Max ?ys" if "change_keeps d before after i j \<and> a \<le> i \<and> i < b" for i j
      using meets [of i j] that at_span_over all by (meson le_trans less_le_trans)
    moreover have "Min ?xs < Max ?ys" using all [OF s(1)] last(1) by simp
    moreover have "Max ?ys \<le> length after" unfolding s(2) using span_over_inside [OF kept [OF s(1)]] .
    ultimately show ?thesis using change False first(2) last(3) at [OF r(1)] at [OF s(1)] r(2) s(2) by simp blast
  qed
qed

theorem anchor_stands_on_kept_words_witness:
  "text_change front_reads ''one two'' ''one too'' (4, 6) = Some (4, 5) \<and>
   (\<exists>i. 4 \<le> i \<and> i < 6 \<and> change_keeps front_reads ''one two'' ''one too'' i 4 \<and> ''one two'' ! i = ''one too'' ! 4)"
proof -
  have change: "text_change front_reads ''one two'' ''one too'' (4, 6) = Some (4, 5)" by code_simp
  have "''one two'' \<noteq> ''one too''" by simp
  note stands = anchor_stands_on_kept_words [OF front_laws this, of 4 6]
  show ?thesis using stands unfolding change option.case prod.case by blast
qed

end
