(* ===== verification/Description_History.thy ===== *)
theory Description_History
  imports Section_Writers Description_Editor
begin

text \<open>
  A description's history: \<open>database/src/models/description-revisions.ts\<close>. The table is the list of
  one task's rows, in the order they were written; a query is the read of that list it stands for,
  with its order and its limit. What the joins read beside a row, an account's name and an agent's
  title and model, are arguments.
\<close>

subsection \<open>The rows\<close>

definition join_within_ms :: int where
  "join_within_ms = 10 * 60000"

definition section_history :: nat where
  "section_history = 50"

definition history_page :: nat where
  "history_page = 50"

datatype description_writer =
  Notetaker_Writer
| Agent_Writer string
| Developer_Writer "nat option"

record save_record =
  save_writer :: description_writer
  save_user :: string
  save_before :: string
  save_after :: string
  save_changes :: nat
  saved_before :: "int option"

record revision_row =
  rv_seq :: nat
  rv_actor :: description_actor
  rv_user :: "string option"
  rv_agent :: "string option"
  rv_document :: string
  rv_changes :: nat
  rv_started :: int
  rv_at :: int
  rv_restored :: "nat option"

text \<open>\<open>orderBy(desc(seq))\<close>.\<close>

definition newest_first :: "revision_row list \<Rightarrow> revision_row list" where
  "newest_first rows = rev (sort_key rv_seq rows)"

definition find_newest :: "revision_row list \<Rightarrow> revision_row option" where
  "find_newest rows = (case newest_first rows of [] \<Rightarrow> None | r # _ \<Rightarrow> Some r)"

definition move_revision_on :: "nat \<Rightarrow> string \<Rightarrow> nat \<Rightarrow> int \<Rightarrow> revision_row list \<Rightarrow> revision_row list" where
  "move_revision_on seq document changes at rows =
     map (\<lambda>r. if rv_seq r = seq
              then r\<lparr>rv_document := document, rv_changes := changes, rv_at := at\<rparr> else r) rows"

subsection \<open>A save recorded\<close>

fun actor_of :: "description_writer \<Rightarrow> description_actor" where
  "actor_of Notetaker_Writer = Notetaker"
| "actor_of (Agent_Writer a) = Agent"
| "actor_of (Developer_Writer r) = Developer"

definition member_of :: "save_record \<Rightarrow> string option" where
  "member_of rec = (if actor_of (save_writer rec) = Agent then None else Some (save_user rec))"

fun agent_of :: "description_writer \<Rightarrow> string option" where
  "agent_of (Agent_Writer a) = Some a"
| "agent_of w = None"

fun restored_of :: "description_writer \<Rightarrow> nat option" where
  "restored_of (Developer_Writer r) = r"
| "restored_of w = None"

definition joins_newest :: "revision_row \<Rightarrow> save_record \<Rightarrow> int \<Rightarrow> bool" where
  "joins_newest newest rec now \<longleftrightarrow>
     rv_restored newest = None \<and> restored_of (save_writer rec) = None \<and>
     rv_actor newest = actor_of (save_writer rec) \<and> rv_user newest = member_of rec \<and>
     rv_agent newest = agent_of (save_writer rec) \<and> now - rv_at newest \<le> join_within_ms"

definition record_earlier :: "save_record \<Rightarrow> revision_row list \<Rightarrow> revision_row list \<times> nat" where
  "record_earlier rec rows =
     (case saved_before rec of
        None \<Rightarrow> (rows, 0)
      | Some at \<Rightarrow>
          (rows @ [\<lparr>rv_seq = 1, rv_actor = Earlier, rv_user = None, rv_agent = None,
             rv_document = save_before rec, rv_changes = 0, rv_started = at, rv_at = at, rv_restored = None\<rparr>], 1))"

definition new_revision :: "save_record \<Rightarrow> nat \<Rightarrow> int \<Rightarrow> revision_row" where
  "new_revision rec seq now =
     \<lparr>rv_seq = seq, rv_actor = actor_of (save_writer rec), rv_user = member_of rec,
      rv_agent = agent_of (save_writer rec), rv_document = save_after rec, rv_changes = save_changes rec,
      rv_started = now, rv_at = now, rv_restored = restored_of (save_writer rec)\<rparr>"

definition record_revision :: "save_record \<Rightarrow> int \<Rightarrow> revision_row list \<Rightarrow> revision_row list" where
  "record_revision rec now rows =
     (case find_newest rows of
        None \<Rightarrow> (case record_earlier rec rows of (rows', n) \<Rightarrow> rows' @ [new_revision rec (n + 1) now])
      | Some newest \<Rightarrow>
          if joins_newest newest rec now
          then move_revision_on (rv_seq newest) (save_after rec) (rv_changes newest + save_changes rec) now rows
          else rows @ [new_revision rec (rv_seq newest + 1) now])"

subsection \<open>The history read\<close>

record revision_names =
  account_name :: "string \<Rightarrow> string option"
  agent_title :: "string \<Rightarrow> string option"
  agent_model :: "string \<Rightarrow> string option"

definition unknown_agent_label :: string where
  "unknown_agent_label = ''an agent''"

text \<open>The member a revision names, where its account still stands.\<close>

definition editor_of :: "revision_names \<Rightarrow> revision_row \<Rightarrow> member_ref option" where
  "editor_of names r =
     Option.bind (rv_user r) (\<lambda>u. map_option (\<lambda>n. \<lparr>user_id = u, member_name = n\<rparr>) (account_name names u))"

definition last_edit_of :: "revision_names \<Rightarrow> revision_row \<Rightarrow> last_edit" where
  "last_edit_of names r =
     \<lparr>edit_actor = rv_actor r, edit_by = editor_of names r,
      edit_label = (if rv_actor r = Agent
        then Some (case Option.bind (rv_agent r) (agent_title names) of
               Some t \<Rightarrow> t
             | None \<Rightarrow> (case Option.bind (rv_agent r) (agent_model names) of Some m \<Rightarrow> m | None \<Rightarrow> unknown_agent_label))
        else None),
      edit_agent = rv_agent r, edit_at = rv_at r, edit_in_call = False\<rparr>"

definition read_last_edit :: "revision_names \<Rightarrow> revision_row list \<Rightarrow> last_edit option" where
  "read_last_edit names rows = map_option (last_edit_of names) (find_newest rows)"

record writer_who =
  who_actor :: description_actor
  who_by :: "member_ref option"
  who_agent :: "string option"

definition writer_of :: "revision_names \<Rightarrow> revision_row \<Rightarrow> writer_who" where
  "writer_of names r = \<lparr>who_actor = rv_actor r, who_by = editor_of names r, who_agent = rv_agent r\<rparr>"

definition read_section_writers :: "revision_names \<Rightarrow> revision_row list \<Rightarrow> writer_who section_writer list" where
  "read_section_writers names rows =
     (case rev (take (section_history + 1) (newest_first rows)) of
        [] \<Rightarrow> []
      | first # rest \<Rightarrow>
          (let read = first # rest;
               from_start = (length read \<le> section_history \<and> rv_actor first \<noteq> Earlier);
               base = (if from_start then [] else rv_document first);
               written = (if from_start then read else rest)
           in section_writers_of base
                (map (\<lambda>r. \<lparr>sr_text = rv_document r, sr_who = writer_of names r, sr_at = rv_at r\<rparr>) written)))"

record revision_line =
  line_seq :: nat
  line_edit :: last_edit
  line_agent :: "string option"
  line_started :: int
  line_changes :: nat
  line_restored :: "(nat \<times> int) option"

definition revision_line_of :: "revision_names \<Rightarrow> revision_row list \<Rightarrow> revision_row \<Rightarrow> revision_line" where
  "revision_line_of names rows r =
     \<lparr>line_seq = rv_seq r, line_edit = last_edit_of names r, line_agent = rv_agent r,
      line_started = rv_started r, line_changes = rv_changes r,
      line_restored = Option.bind (rv_restored r)
        (\<lambda>s. map_option (\<lambda>q. (s, rv_at q)) (List.find (\<lambda>q. rv_seq q = s) rows))\<rparr>"

record revisions_answer =
  answer_revisions :: "revision_line list"
  answer_earlier :: "nat option"

definition list_revisions ::
  "revision_names \<Rightarrow> bool \<Rightarrow> revision_row list \<Rightarrow> nat option \<Rightarrow> revisions_answer" where
  "list_revisions names reachable rows before =
     (let found = take (history_page + 1) (newest_first
            (filter (\<lambda>r. reachable \<and> (case before of None \<Rightarrow> True | Some b \<Rightarrow> rv_seq r < b)) rows));
          page = take history_page found
      in \<lparr>answer_revisions = map (revision_line_of names rows) page,
          answer_earlier = (if length page < length found \<and> page \<noteq> [] then Some (rv_seq (last page)) else None)\<rparr>)"

definition read_revision_content :: "bool \<Rightarrow> revision_row list \<Rightarrow> nat \<Rightarrow> string option" where
  "read_revision_content reachable rows seq =
     map_option rv_document (List.find (\<lambda>r. reachable \<and> rv_seq r = seq) rows)"

definition read_revision :: "bool \<Rightarrow> revision_row list \<Rightarrow> nat \<Rightarrow> (string \<times> string option) option" where
  "read_revision reachable rows seq =
     map_option (\<lambda>document. (document, if seq = 0 then None else read_revision_content reachable rows (seq - 1)))
       (read_revision_content reachable rows seq)"

end
