(* ===== verification/History_Properties.thy ===== *)
theory History_Properties
  imports Description_History
begin

text \<open>
  What a description's history keeps: its numbers, the rows before the newest, and the pages it is
  read in.
\<close>

subsection \<open>Numbered rows\<close>

definition history_numbered :: "revision_row list \<Rightarrow> bool" where
  "history_numbered rows \<longleftrightarrow> map rv_seq rows = map Suc [0..<length rows]"

lemma numbered_empty [simp]: "history_numbered []"
  by (simp add: history_numbered_def)

lemma numbered_snoc:
  "history_numbered (rows @ [r]) \<longleftrightarrow> history_numbered rows \<and> rv_seq r = length rows + 1"
  by (auto simp: history_numbered_def)

lemma numbered_nth: "history_numbered rows \<Longrightarrow> i < length rows \<Longrightarrow> rv_seq (rows ! i) = i + 1"
  by (metis (no_types, lifting) Suc_eq_plus1 add_0 diff_zero history_numbered_def length_map length_upt nth_map nth_upt)

lemma numbered_take: "history_numbered rows \<Longrightarrow> history_numbered (take n rows)"
  by (cases "n \<le> length rows") (simp_all add: history_numbered_def take_map [symmetric] min_def, simp add: take_map)

lemma numbered_newest_first: "history_numbered rows \<Longrightarrow> newest_first rows = rev rows"
  by (simp add: newest_first_def history_numbered_def sort_key_id_if_sorted sorted_map sorted_wrt_iff_nth_less)

lemma numbered_newest:
  "history_numbered rows \<Longrightarrow> find_newest rows = (if rows = [] then None else Some (last rows))"
  by (cases rows rule: rev_cases) (simp_all add: find_newest_def numbered_newest_first)

lemma numbered_last: "history_numbered rows \<Longrightarrow> rows \<noteq> [] \<Longrightarrow> rv_seq (last rows) = length rows"
  by (cases rows rule: rev_cases) (simp_all add: numbered_snoc)

lemma numbered_below: "history_numbered rows \<Longrightarrow> r \<in> set rows \<Longrightarrow> rv_seq r \<le> length rows"
  by (auto simp: in_set_conv_nth numbered_nth)

lemma numbered_found:
  "history_numbered rows \<Longrightarrow>
   List.find (\<lambda>r. rv_seq r = n) rows = (if 1 \<le> n \<and> n \<le> length rows then Some (rows ! (n - 1)) else None)"
proof (induction rows rule: rev_induct)
  case (snoc r rows)
  then have rows: "history_numbered rows" and r: "rv_seq r = length rows + 1"
    by (simp_all add: numbered_snoc)
  have app: "List.find P (xs @ [x]) = (case List.find P xs of None \<Rightarrow> if P x then Some x else None | Some y \<Rightarrow> Some y)"
    for P :: "revision_row \<Rightarrow> bool" and xs x
    by (induction xs) auto
  show ?case using r snoc.IH [OF rows] by (auto simp: app nth_append le_Suc_eq split: if_splits)
qed simp

text \<open>The number under which a save's move lands changes the newest row and no other.\<close>

lemma moved_on_newest:
  "history_numbered (rows @ [r]) \<Longrightarrow>
   move_revision_on (rv_seq r) t n at (rows @ [r]) =
     rows @ [r\<lparr>rv_document := t, rv_changes := n, rv_at := at\<rparr>]"
  using numbered_below [of rows] by (force simp: move_revision_on_def numbered_snoc intro!: map_idI)

subsection \<open>A save recorded\<close>

lemma record_first:
  "record_revision rec now [] =
     (case saved_before rec of
        None \<Rightarrow> [new_revision rec 1 now]
      | Some at \<Rightarrow> [\<lparr>rv_seq = 1, rv_actor = Earlier, rv_user = None, rv_agent = None,
          rv_document = save_before rec, rv_changes = 0, rv_started = at, rv_at = at, rv_restored = None\<rparr>,
          new_revision rec 2 now])"
  by (simp add: record_revision_def find_newest_def newest_first_def record_earlier_def numeral_2_eq_2
      split: option.split)

lemma record_joined:
  "history_numbered (rows @ [r]) \<Longrightarrow> joins_newest r rec now \<Longrightarrow>
   record_revision rec now (rows @ [r]) =
     rows @ [r\<lparr>rv_document := save_after rec, rv_changes := rv_changes r + save_changes rec, rv_at := now\<rparr>]"
  by (simp add: record_revision_def numbered_newest moved_on_newest)

lemma record_apart:
  "history_numbered (rows @ [r]) \<Longrightarrow> \<not> joins_newest r rec now \<Longrightarrow>
   record_revision rec now (rows @ [r]) = rows @ [r, new_revision rec (length rows + 2) now]"
  by (simp add: record_revision_def numbered_newest numbered_snoc)

lemma new_revision_simps [simp]:
  "rv_seq (new_revision rec n now) = n" "rv_document (new_revision rec n now) = save_after rec"
  "rv_restored (new_revision rec n now) = restored_of (save_writer rec)"
  by (simp_all add: new_revision_def)

lemma record_numbered:
  assumes "history_numbered rows"
  shows "history_numbered (record_revision rec now rows) \<and> record_revision rec now rows \<noteq> [] \<and>
    rv_document (last (record_revision rec now rows)) = save_after rec"
proof (cases rows rule: rev_cases)
  case Nil
  then show ?thesis by (cases "saved_before rec") (simp_all add: record_first history_numbered_def)
next
  case (snoc rows' r)
  show ?thesis
  proof (cases "joins_newest r rec now")
    case True
    with assms show ?thesis by (simp add: snoc record_joined numbered_snoc)
  next
    case False
    with assms show ?thesis
      using numbered_snoc [of "rows' @ [r]" "new_revision rec (length rows' + 2) now"]
      by (simp add: snoc record_apart)
  qed
qed

text \<open>
  A save recorded keeps a description's history in order: its revisions stay numbered from one
  on with none skipped, its newest holds the text the save left, and every revision under the one that was
  newest stands as it was, text, writer and times.
\<close>

theorem record_keeps_history:
  assumes "history_numbered rows"
  shows "history_numbered (record_revision rec now rows) \<and>
    rv_document (last (record_revision rec now rows)) = save_after rec \<and>
    length rows \<le> length (record_revision rec now rows) \<and>
    take (length rows - 1) (record_revision rec now rows) = take (length rows - 1) rows"
proof (cases rows rule: rev_cases)
  case Nil
  then show ?thesis using record_numbered [OF assms, of rec now] by simp
next
  case (snoc rows' r)
  then show ?thesis using record_numbered [OF assms, of rec now] assms
    by (cases "joins_newest r rec now") (simp_all add: record_joined record_apart)
qed

definition a_save :: "description_writer \<Rightarrow> string \<Rightarrow> string \<Rightarrow> save_record" where
  "a_save w before after = \<lparr>save_writer = w, save_user = ''ada'', save_before = before,
     save_after = after, save_changes = 1, saved_before = Some 0\<rparr>"

theorem record_keeps_history_witness:
  "history_numbered (record_revision (a_save Notetaker_Writer ''b'' ''c'') 9
     (record_revision (a_save (Developer_Writer None) ''a'' ''b'') 5 []))"
proof -
  have "history_numbered (record_revision (a_save (Developer_Writer None) ''a'' ''b'') 5 [])"
    using record_keeps_history [of "[]"] by simp
  then show ?thesis using record_keeps_history by blast
qed

subsection \<open>A restore stands by itself\<close>

lemma restore_joins_nothing:
  "restored_of (save_writer rec) \<noteq> None \<or> rv_restored r \<noteq> None \<Longrightarrow> \<not> joins_newest r rec now"
  by (auto simp: joins_newest_def)

text \<open>
  A restore joins nothing and nothing joins it: where a save is a restore, or the newest revision
  is one, the save is a revision of its own after every one that stood, each as it was, and it names
  the revision it brought back.
\<close>

theorem restore_stands_alone:
  assumes "history_numbered rows" "rows \<noteq> []"
    "restored_of (save_writer rec) \<noteq> None \<or> rv_restored (last rows) \<noteq> None"
  shows "\<exists>r. record_revision rec now rows = rows @ [r] \<and> rv_seq r = length rows + 1 \<and>
    rv_document r = save_after rec \<and> rv_restored r = restored_of (save_writer rec)"
proof -
  obtain rows' r where rows: "rows = rows' @ [r]" using assms(2) by (cases rows rule: rev_cases) auto
  then have "\<not> joins_newest r rec now" using assms(3) restore_joins_nothing by simp
  then show ?thesis using assms(1) unfolding rows
    by - (rule exI [of _ "new_revision rec (length rows' + 2) now"], simp add: record_apart)
qed

theorem restore_stands_alone_witness:
  "\<exists>r. record_revision (a_save (Developer_Writer (Some 1)) ''b'' ''a'') 6
       [new_revision (a_save (Developer_Writer None) ''a'' ''b'') 1 5] =
     [new_revision (a_save (Developer_Writer None) ''a'' ''b'') 1 5, r] \<and> rv_restored r = Some 1"
proof -
  have "history_numbered [new_revision (a_save (Developer_Writer None) ''a'' ''b'') 1 5]"
    by (simp add: history_numbered_def)
  from restore_stands_alone [OF this, of "a_save (Developer_Writer (Some 1)) ''b'' ''a''" 6]
  show ?thesis by (auto simp: a_save_def)
qed

subsection \<open>The pages\<close>

lemma before_all:
  "history_numbered rows \<Longrightarrow> filter (\<lambda>r. rv_seq r < b) rows = take (b - 1) rows"
proof (induction rows rule: rev_induct)
  case (snoc r rows)
  then show ?case by (auto simp: numbered_snoc)
qed simp

definition page_before :: "revision_row list \<Rightarrow> nat option \<Rightarrow> revision_row list" where
  "page_before rows before = (case before of None \<Rightarrow> rows | Some b \<Rightarrow> take (b - 1) rows)"

lemma page_rows:
  assumes "history_numbered rows"
  shows "list_revisions names True rows before =
    (let below = page_before rows before
     in \<lparr>answer_revisions = map (revision_line_of names rows) (take history_page (rev below)),
         answer_earlier = (if history_page < length below then Some (Suc (length below - history_page)) else None)\<rparr>)"
proof -
  let ?below = "page_before rows before"
  have below: "filter (\<lambda>r. case before of None \<Rightarrow> True | Some b \<Rightarrow> rv_seq r < b) rows = ?below"
    using assms by (cases before) (simp_all add: page_before_def before_all)
  have numbered: "history_numbered ?below"
    using assms by (cases before) (simp_all add: page_before_def numbered_take)
  have seq: "rv_seq (last (take history_page (rev ?below))) = length ?below - history_page + 1"
    if "history_page < length ?below"
  proof -
    have "last (take history_page (rev ?below)) = rev ?below ! (history_page - 1)"
      using that by (subst last_conv_nth) (auto simp: history_page_def)
    also have "\<dots> = ?below ! (length ?below - history_page)"
      using that by (subst rev_nth) (auto simp: history_page_def)
    finally show ?thesis using that by (simp add: numbered_nth [OF numbered] history_page_def)
  qed
  show ?thesis
  proof (cases "history_page < length ?below")
    case True
    moreover have "take history_page (rev ?below) \<noteq> []" using True by (auto simp: history_page_def)
    ultimately show ?thesis using seq
      by (simp add: list_revisions_def below numbered_newest_first [OF numbered] Let_def min_def not_le)
  next
    case False
    then show ?thesis
      by (simp add: list_revisions_def below numbered_newest_first [OF numbered] Let_def min_def not_le)
  qed
qed

text \<open>A reader that asks for each older page before the one the last answer named.\<close>

fun pages_read :: "nat \<Rightarrow> revision_names \<Rightarrow> revision_row list \<Rightarrow> nat option \<Rightarrow> revision_line list list" where
  "pages_read 0 names rows before = []"
| "pages_read (Suc fuel) names rows before =
     (let page = list_revisions names True rows before
      in answer_revisions page #
         (case answer_earlier page of None \<Rightarrow> [] | Some b \<Rightarrow> pages_read fuel names rows (Some b)))"

lemma pages_read_below:
  "history_numbered rows \<Longrightarrow> length (page_before rows before) \<le> fuel \<Longrightarrow>
   concat (pages_read (Suc fuel) names rows before) =
     map (revision_line_of names rows) (rev (page_before rows before)) \<and>
   list_all (\<lambda>p. length p \<le> history_page) (pages_read (Suc fuel) names rows before)"
proof (induction fuel arbitrary: before)
  case 0
  then show ?case by (simp add: page_rows Let_def)
next
  case (Suc fuel)
  let ?below = "page_before rows before"
  show ?case
  proof (cases "history_page < length ?below")
    case True
    let ?b = "Suc (length ?below - history_page)"
    have pre: "?below = take (length ?below) rows"
      by (cases before) (auto simp: page_before_def min_def)
    have "length ?below \<le> length rows" by (cases before) (simp_all add: page_before_def)
    then have older: "page_before rows (Some ?b) = take (length ?below - history_page) ?below"
      by (subst pre) (simp add: page_before_def min_def)
    then have "length (page_before rows (Some ?b)) \<le> fuel"
      using Suc.prems(2) True by (simp add: history_page_def)
    note IH = Suc.IH [OF Suc.prems(1) this]
    have "map (revision_line_of names rows) (take history_page (rev ?below)) @
        map (revision_line_of names rows) (rev (take (length ?below - history_page) ?below)) =
      map (revision_line_of names rows) (rev ?below)"
      using True by (simp add: rev_take flip: map_append)
    then show ?thesis using IH True Suc.prems(1) by (simp add: page_rows [OF Suc.prems(1), of names before] Let_def older)
  next
    case False
    then show ?thesis using Suc.prems(1) by (simp add: page_rows Let_def)
  qed
qed

text \<open>
  C34: A description's history, its revisions numbered from one in the order they were made as every save
  leaves them, read page by page, each asked for before the revision the last page names as where older
  ones begin, is every revision once, the newest first, in pages of at most fifty: none read twice,
  none passed over, and the reader comes to the end within as many pages as there are revisions and one.
\<close>

theorem pages_are_the_history:
  "history_numbered rows \<Longrightarrow>
   concat (pages_read (Suc (length rows)) names rows None) = map (revision_line_of names rows) (rev rows) \<and>
   list_all (\<lambda>p. length p \<le> history_page) (pages_read (Suc (length rows)) names rows None)"
  using pages_read_below [of rows None "length rows" names] by (simp add: page_before_def)

definition no_names :: revision_names where
  "no_names = \<lparr>account_name = \<lambda>_. None, agent_title = \<lambda>_. None, agent_model = \<lambda>_. None\<rparr>"

theorem pages_are_the_history_witness:
  "history_numbered [new_revision (a_save Notetaker_Writer ''a'' ''b'') 1 5] \<and>
   concat (pages_read 2 no_names [new_revision (a_save Notetaker_Writer ''a'' ''b'') 1 5] None) =
     [revision_line_of no_names [new_revision (a_save Notetaker_Writer ''a'' ''b'') 1 5]
        (new_revision (a_save Notetaker_Writer ''a'' ''b'') 1 5)]"
  using pages_are_the_history [of "[new_revision (a_save Notetaker_Writer ''a'' ''b'') 1 5]" no_names]
  by (simp add: history_numbered_def numeral_2_eq_2)

end
