(* ===== verification/Note_Text.thy ===== *)
theory Note_Text
  imports Description_Sections
begin

text \<open>
  A note's words as they land in a description: \<open>features/src/description-notes.ts\<close>, \<open>contained\<close>
  and the patterns it reads lines by. A line that would underline the line above it, or open an
  HTML block, takes a backslash; a fence the words leave open is closed.
\<close>

subsection \<open>Lines a note's words are read by\<close>

text \<open>\<open>text.replace(/\r\n?/gu, "\n")\<close>.\<close>

fun unix_breaks :: "string \<Rightarrow> string" where
  "unix_breaks [] = []"
| "unix_breaks [c] = [if c = CHR 0x0D then newline else c]"
| "unix_breaks (c # d # cs) =
     (if c = CHR 0x0D \<and> d = newline then newline # unix_breaks cs
      else (if c = CHR 0x0D then newline else c) # unix_breaks (d # cs))"

text \<open>A fence's opening, whose info string holds no backtick where its run is of backticks.\<close>

definition fence_opened :: "string \<Rightarrow> string option" where
  "fence_opened line =
     (case fence_run line of
        None \<Rightarrow> None
      | Some (marker, info) \<Rightarrow> if hd marker = CHR 0x60 \<and> CHR 0x60 \<in> set info then None else Some marker)"

definition fence_closes :: "string \<Rightarrow> string \<Rightarrow> bool" where
  "fence_closes line fence =
     (case fence_run line of
        None \<Rightarrow> False
      | Some (marker, rest) \<Rightarrow> hd marker = hd fence \<and> length fence \<le> length marker \<and> trim rest = [])"

text \<open>\<open>(?:>[ \t]*)*\<close> taken off.\<close>

function unquoted :: "string \<Rightarrow> string" where
  "unquoted [] = []"
| "unquoted (c # cs) = (if c = CHR ''>'' then unquoted (dropWhile is_blank cs) else c # cs)"
  by pat_completeness auto
termination
  by (relation "measure length") (auto simp: le_imp_less_Suc length_dropWhile_le)

text \<open>Where \<open>SETEXT_LINE\<close> matches, the length of its first group; and where \<open>HTML_LINE\<close> does.\<close>

definition setext_at :: "string \<Rightarrow> nat option" where
  "setext_at line =
     (case unquoted (unindent 3 line) of
        [] \<Rightarrow> None
      | c # cs \<Rightarrow>
          if (c = CHR ''='' \<or> c = CHR ''-'') \<and> list_all is_blank (dropWhile ((=) c) cs)
          then Some (length line - length (c # cs)) else None)"

definition html_at :: "string \<Rightarrow> nat option" where
  "html_at line =
     (case unindent 3 line of
        [] \<Rightarrow> None
      | c # cs \<Rightarrow> if c = CHR ''<'' then Some (length line - length (c # cs)) else None)"

definition escaped_line :: "string \<Rightarrow> bool \<Rightarrow> string" where
  "escaped_line line after_text =
     (case (case (if after_text then setext_at line else None) of
              None \<Rightarrow> html_at line
            | Some at \<Rightarrow> Some at) of
        None \<Rightarrow> line
      | Some at \<Rightarrow> take at line @ CHR 0x5C # drop at line)"

subsection \<open>The words contained\<close>

text \<open>The loop over the lines, with the fence open and whether the line before is text.\<close>

fun contained_lines :: "string option \<Rightarrow> bool \<Rightarrow> string list \<Rightarrow> string list" where
  "contained_lines fence after_text [] = (case fence of None \<Rightarrow> [] | Some marker \<Rightarrow> [marker])"
| "contained_lines fence after_text (line # ls) =
     (case fence of
        Some f \<Rightarrow> line # contained_lines (if fence_closes line f then None else fence) False ls
      | None \<Rightarrow>
          (let opened = fence_opened line
           in (if opened = None then escaped_line line after_text else line) #
              contained_lines opened (opened = None \<and> trim line \<noteq> []) ls))"

definition contained_words :: "string \<Rightarrow> string" where
  "contained_words t = join_lines (contained_lines None False (split_lines (unix_breaks t)))"

subsection \<open>What holds of the words\<close>

text \<open>
  Words whose white space is of spaces, tabs and line breaks alone, with no line that a run of
  backticks opens and another backtick follows: the words for which the two readings of a fence,
  this file's and the sections', are the same.
\<close>

definition plain_char :: "char \<Rightarrow> bool" where
  "plain_char c \<longleftrightarrow> (white c \<longrightarrow> is_blank c \<or> c = newline)"

definition plain_line :: "string \<Rightarrow> bool" where
  "plain_line l \<longleftrightarrow> list_all plain_char l \<and>
     (case fence_run l of None \<Rightarrow> True | Some (run, rest) \<Rightarrow> hd run = CHR 0x60 \<longrightarrow> CHR 0x60 \<notin> set rest)"

definition plain_words :: "string \<Rightarrow> bool" where
  "plain_words t \<longleftrightarrow> list_all plain_line (split_lines (unix_breaks t))"

lemma hd_run:
  "fence_run l = Some (run, rest) \<Longrightarrow> fence_char (hd run) \<and> 3 \<le> length run \<and> (\<forall>c \<in> set run. c = hd run)"
  by (auto simp: fence_run_def split: list.splits if_splits dest: set_takeWhileD)

text \<open>A fence's run closes the fence it opened.\<close>

definition run_ok :: "string option \<Rightarrow> bool" where
  "run_ok f \<longleftrightarrow> (case f of None \<Rightarrow> True | Some r \<Rightarrow> fence_char (hd r) \<and> 3 \<le> length r \<and> (\<forall>c \<in> set r. c = hd r))"

lemma run_ok_None [simp]: "run_ok None"
  by (simp add: run_ok_def)

lemma opening_run: "run_ok (opening_fence l)"
  using hd_run [of l] by (auto simp: opening_fence_def run_ok_def split: option.splits)

lemma fence_after_ok: "run_ok f \<Longrightarrow> run_ok (fence_after f l)"
  using opening_run [of l] by (auto simp: fence_after_def run_ok_def split: option.splits)

lemma fence_end_ok: "run_ok f \<Longrightarrow> run_ok (fence_end f ls)"
  by (induction ls arbitrary: f) (auto simp: fence_after_ok)

lemma run_of_run: "run_ok (Some r) \<Longrightarrow> fence_run r = Some (r, [])"
proof -
  assume ok: "run_ok (Some r)"
  then obtain c cs where r: "r = c # cs" by (cases r) (auto simp: run_ok_def)
  with ok have "c \<noteq> CHR '' ''" "takeWhile ((=) c) (c # cs) = c # cs" "dropWhile ((=) c) (c # cs) = []"
    by (auto simp: run_ok_def fence_char_def)
  moreover from this(2) have cs: "takeWhile ((=) c) cs = cs" by simp
  ultimately show ?thesis using ok r by (simp add: fence_run_def run_ok_def numeral_3_eq_3 cs)
qed

lemma run_closes: "run_ok (Some r) \<Longrightarrow> fence_after (Some r) r = None"
  using run_of_run [of r] by (simp add: fence_after_def closing_fence_def)

lemma plain_all_blank: "list_all plain_char r \<Longrightarrow> newline \<notin> set r \<Longrightarrow> trim r = [] \<longleftrightarrow> list_all is_blank r"
  by (auto simp: trim_all_space list_all_iff plain_char_def blank_white)

lemma fence_run_rest: "fence_run l = Some (run, rest) \<Longrightarrow> set rest \<subseteq> set l"
proof -
  have u: "set (unindent n l) \<subseteq> set l" for n l by (induction n l rule: unindent.induct) auto
  assume "fence_run l = Some (run, rest)"
  then have "set rest \<subseteq> set (unindent 3 l)"
    by (auto simp: fence_run_def split: list.splits if_splits dest: set_dropWhileD)
  with u show ?thesis by blast
qed

lemma plain_opens: "plain_line l \<Longrightarrow> fence_opened l = opening_fence l"
  by (auto simp: plain_line_def fence_opened_def opening_fence_def split: option.splits)

lemma plain_closes:
  assumes "plain_line l" "newline \<notin> set l"
  shows "fence_after (Some f) l = (if fence_closes l f then None else Some f)"
proof (cases "fence_run l")
  case None
  then show ?thesis by (simp add: fence_after_def closing_fence_def fence_closes_def)
next
  case (Some r)
  obtain run rest where r: "r = (run, rest)" by force
  then have "trim rest = [] \<longleftrightarrow> list_all is_blank rest"
    using fence_run_rest [of l run rest] Some assms by (intro plain_all_blank) (auto simp: plain_line_def list_all_iff)
  then show ?thesis using Some r
    by (auto simp: fence_after_def closing_fence_def fence_closes_def)
qed

text \<open>An escaped line opens no fence.\<close>

lemma unindent_append: "\<exists>k \<le> n. l = replicate k CHR '' '' @ unindent n l"
proof (induction n l rule: unindent.induct)
  case (1 n c cs)
  show ?case
  proof (cases "c = CHR '' ''")
    case True
    with 1 obtain k where "k \<le> n" "cs = replicate k CHR '' '' @ unindent n cs" by auto
    with True show ?thesis by (intro exI [of _ "Suc k"]) simp
  qed (auto intro!: exI [of _ 0])
qed (auto intro!: exI [of _ 0])

lemma unindent_spaces: "k \<le> n \<Longrightarrow> c \<noteq> CHR '' '' \<Longrightarrow> unindent n (replicate k CHR '' '' @ c # cs) = c # cs"
proof (induction k arbitrary: n)
  case 0
  then show ?case by (cases n) auto
next
  case (Suc k)
  then show ?case by (cases n) auto
qed

lemma unquoted_suffix: "\<exists>q. s = q @ unquoted s \<and> (q \<noteq> [] \<longrightarrow> hd q = CHR ''>'')"
proof (induction s rule: unquoted.induct)
  case (2 c cs)
  show ?case
  proof (cases "c = CHR ''>''")
    case True
    then obtain q where "dropWhile is_blank cs = q @ unquoted (dropWhile is_blank cs)" using 2 by blast
    then have "c # cs = (c # takeWhile is_blank cs @ q) @ unquoted (c # cs)"
      using True takeWhile_dropWhile_id [of is_blank cs] by simp
    then show ?thesis using True by (metis list.sel(1) append_Cons)
  next
    case False
    then show ?thesis by (intro exI [of _ "[]"]) simp
  qed
qed simp

lemma escaped_no_fence:
  assumes "escaped_line l a \<noteq> l"
  shows "opening_fence (escaped_line l a) = None"
proof -
  obtain k where k: "k \<le> 3" "l = replicate k CHR '' '' @ unindent 3 l" using unindent_append by blast
  have close: "opening_fence (take at l @ CHR 0x5C # drop at l) = None"
    if q: "unindent 3 l = q @ r" "q \<noteq> [] \<longrightarrow> hd q = CHR ''>''" "at = length l - length r" for at q r
  proof -
    let ?s = "replicate k CHR '' ''"
    have len: "length l = k + length q + length r" using arg_cong [OF k(2), of length] q(1) by simp
    then have at: "at = length (?s @ q)" using q(3) by simp
    have l: "l = (?s @ q) @ r" using k(2) q(1) by simp
    have esc: "take at l @ CHR 0x5C # drop at l = ?s @ q @ CHR 0x5C # r"
      unfolding l at by (simp only: take_append drop_append) simp
    show ?thesis
    proof (cases q)
      case Nil
      then show ?thesis unfolding esc using unindent_spaces [OF k(1), of "CHR 0x5C" r]
        by (simp add: opening_fence_def fence_run_def fence_char_def)
    next
      case (Cons c q')
      then show ?thesis unfolding esc using q(2) unindent_spaces [OF k(1), of c "q' @ CHR 0x5C # r"]
        by (simp add: opening_fence_def fence_run_def fence_char_def)
    qed
  qed
  have html: "opening_fence (take at l @ CHR 0x5C # drop at l) = None" if "html_at l = Some at" for at
    using that close [of "[]" "unindent 3 l" at] by (auto simp: html_at_def split: list.splits if_splits)
  have setext: "opening_fence (take at l @ CHR 0x5C # drop at l) = None" if "setext_at l = Some at" for at
    using that unquoted_suffix [of "unindent 3 l"] close [of _ "unquoted (unindent 3 l)" at]
    by (auto simp: setext_at_def split: list.splits if_splits)
  show ?thesis using assms html setext
    by (auto simp: escaped_line_def split: option.splits if_splits)
qed

text \<open>The two readings of the lines agree, line by line, and the words end outside every fence.\<close>

lemma contained_lines_close:
  assumes "list_all plain_line ls" "\<forall>l \<in> set ls. newline \<notin> set l" "run_ok f"
  shows "fence_end f (contained_lines f a ls) = None"
  using assms
proof (induction ls arbitrary: f a)
  case Nil
  then show ?case using run_closes by (auto split: option.splits)
next
  case (Cons l ls)
  show ?case
  proof (cases f)
    case (Some r)
    have "fence_after f l = (if fence_closes l r then None else f)"
      using plain_closes [of l r] Cons.prems Some by simp
    then show ?thesis using Cons Some fence_after_ok [of f l] by simp
  next
    case None
    let ?w = "if fence_opened l = None then escaped_line l a else l"
    have "fence_after None ?w = fence_opened l"
    proof (cases "?w = l")
      case True
      then show ?thesis using plain_opens [of l] Cons.prems
        by (simp add: fence_after_def split: option.splits)
    next
      case False
      then have "escaped_line l a \<noteq> l" "fence_opened l = None" by (auto split: if_splits)
      then show ?thesis using escaped_no_fence [of l a] by (simp add: fence_after_def)
    qed
    moreover have "run_ok (fence_opened l)"
      using fence_after_ok [of None l] plain_opens [of l] Cons.prems by (simp add: fence_after_def split: option.splits)
    ultimately show ?thesis using Cons None by (simp add: Let_def)
  qed
qed

lemma contained_lines_ne: "ls \<noteq> [] \<Longrightarrow> contained_lines f a ls \<noteq> []"
  by (cases ls) (auto simp: Let_def split: option.splits)

lemma escaped_unbroken: "newline \<notin> set l \<Longrightarrow> newline \<notin> set (escaped_line l a)"
  by (auto simp: escaped_line_def newline_def split: option.splits dest: in_set_takeD in_set_dropD)

lemma contained_lines_unbroken:
  "\<forall>l \<in> set ls. newline \<notin> set l \<Longrightarrow> run_ok f \<Longrightarrow> \<forall>l \<in> set (contained_lines f a ls). newline \<notin> set l"
proof (induction ls arbitrary: f a)
  case Nil
  have "newline \<notin> set r" if "run_ok (Some r)" for r
    using that by (auto simp: run_ok_def fence_char_def newline_def)
  with Nil show ?case by (auto split: option.splits)
next
  case (Cons l ls)
  have "run_ok (fence_opened l)"
    using hd_run [of l] by (auto simp: fence_opened_def run_ok_def split: option.splits)
  moreover have "\<forall>k \<in> set (contained_lines g b ls). newline \<notin> set k" if "run_ok g" for g b
    using Cons.IH Cons.prems(1) that by simp
  moreover from this [of None False] have "\<forall>k \<in> set (contained_lines None False ls). newline \<notin> set k" by simp
  ultimately show ?case using Cons.prems escaped_unbroken [of l a]
    by (cases f) (simp_all add: Let_def)
qed

text \<open>The words contained, as lines, are the lines the loop wrote.\<close>

lemma split_contained:
  "split_lines (contained_words t) = contained_lines None False (split_lines (unix_breaks t))"
  unfolding contained_words_def
proof (rule split_join)
  show "\<forall>l \<in> set (contained_lines None False (split_lines (unix_breaks t))). newline \<notin> set l"
    using lines_unbroken by (intro contained_lines_unbroken) auto
qed (simp add: contained_lines_ne)

text \<open>
  Words taken from a note leave no code fence open, as the description's sections read fences:
  whatever the words hold, a heading written after them is still read as one, where no line of
  theirs opens on backticks with another backtick after them.
\<close>

theorem contained_closes_its_fences:
  "plain_words t \<Longrightarrow> open_fence_at (contained_words t) (length (contained_words t) + 1) = None"
proof -
  assume plain: "plain_words t"
  have all: "n + chars_of ls \<le> offset \<Longrightarrow> open_fence_from offset n f ls = fence_end f ls" for offset n f ls
    by (induction ls arbitrary: n f) auto
  let ?ls = "split_lines (contained_words t)"
  have "chars_of ?ls = length (contained_words t) + 1"
    using length_join [of ?ls] by (simp add: chars_of_def)
  then have "open_fence_at (contained_words t) (length (contained_words t) + 1) = fence_end None ?ls"
    unfolding open_fence_at_def by (intro all) simp
  also have "\<dots> = None"
    unfolding split_contained using plain
    by (intro contained_lines_close) (auto simp: plain_words_def lines_unbroken)
  finally show ?thesis .
qed

theorem contained_closes_its_fences_witness:
  "let w = contained_words (''~~~ b'' @ newline # ''<x'')
   in w = ''~~~ b'' @ newline # ''<x'' @ newline # ''~~~'' \<and> open_fence_at w (length w + 1) = None"
proof -
  have "plain_words (''~~~ b'' @ newline # ''<x'')" by code_simp
  note contained_closes_its_fences [OF this]
  moreover have "contained_words (''~~~ b'' @ newline # ''<x'') = ''~~~ b'' @ newline # ''<x'' @ newline # ''~~~''" by code_simp
  ultimately show ?thesis unfolding Let_def by blast
qed

end
