(* ===== verification/Note_Places.thy ===== *)
theory Note_Places
  imports Text_Space "HOL-Library.Sublist" "HOL-Library.Monad_Syntax"
begin

text \<open>
  Where a phrase stands in a text: \<open>features/src/description-notes.ts\<close>, \<open>spansOf\<close> and
  \<open>locatedPhrase\<close>. The loop over \<open>indexOf\<close> starts each search past the phrase it found, so a phrase
  of no characters is found for ever: a search is \<open>None\<close> where it does not return.
\<close>

subsection \<open>Where one string stands in another\<close>

fun first_at :: "string \<Rightarrow> string \<Rightarrow> nat option" where
  "first_at phrase [] = (if phrase = [] then Some 0 else None)"
| "first_at phrase (c # cs) =
     (if prefix phrase (c # cs) then Some 0 else map_option Suc (first_at phrase cs))"

text \<open>\<open>text.indexOf(phrase, at)\<close>, whose position is held to the text's length.\<close>

definition index_from :: "string \<Rightarrow> string \<Rightarrow> nat \<Rightarrow> nat option" where
  "index_from t phrase at =
     (let from_at = min at (length t) in map_option (\<lambda>i. from_at + i) (first_at phrase (drop from_at t)))"

type_synonym span = "nat \<times> nat"

partial_function (option) exact_spans :: "string \<Rightarrow> string \<Rightarrow> nat \<Rightarrow> span list option" where
  "exact_spans t phrase at =
     (case index_from t phrase at of
        None \<Rightarrow> Some []
      | Some i \<Rightarrow> Option.bind (exact_spans t phrase (i + length phrase)) (\<lambda>rest. Some ((i, i + length phrase) # rest)))"

declare exact_spans.simps [code]

subsection \<open>Words, and the spaces between them\<close>

text \<open>\<open>find.split(/\s+/u)\<close> without its empty words.\<close>

function words_of :: "string \<Rightarrow> string list" where
  "words_of [] = []"
| "words_of (c # cs) =
     (if white c then words_of cs
      else (c # takeWhile (\<lambda>d. \<not> white d) cs) # words_of (dropWhile (\<lambda>d. \<not> white d) cs))"
  by pat_completeness auto
termination
  by (relation "measure length") (auto simp: le_imp_less_Suc length_dropWhile_le)

text \<open>
  The pattern of the words with \<open>\s+\<close> between them, matched where a string begins: what stands after
  the match. A word begins with no space, so the run of spaces before it is taken whole.
\<close>

fun words_match :: "string list \<Rightarrow> string \<Rightarrow> string option" where
  "words_match [] t = Some t"
| "words_match (w # ws) t =
     (if \<not> prefix w t then None
      else case ws of
             [] \<Rightarrow> Some (drop (length w) t)
           | _ \<Rightarrow>
               (case drop (length w) t of
                  [] \<Rightarrow> None
                | c # cs \<Rightarrow> if white c then words_match ws (dropWhile white cs) else None))"

text \<open>\<open>text.matchAll(pattern)\<close>: past an empty match the next is looked for one character on.\<close>

function match_spans :: "string list \<Rightarrow> nat \<Rightarrow> string \<Rightarrow> span list" where
  "match_spans ws at [] = (case words_match ws [] of None \<Rightarrow> [] | Some rest \<Rightarrow> [(at, at)])"
| "match_spans ws at (c # cs) =
     (case words_match ws (c # cs) of
        None \<Rightarrow> match_spans ws (at + 1) cs
      | Some rest \<Rightarrow>
          if length rest < length (c # cs)
          then (at, at + (length (c # cs) - length rest)) #
            match_spans ws (at + (length (c # cs) - length rest)) rest
          else (at, at) # match_spans ws (at + 1) cs)"
  by pat_completeness auto
termination
  by (relation "measure (\<lambda>(ws, at, t). length t)") auto

definition spans_of :: "string \<Rightarrow> string \<Rightarrow> span list option" where
  "spans_of t phrase =
     Option.bind (exact_spans t phrase 0)
       (\<lambda>exact. Some (if exact \<noteq> [] then exact
                      else if words_of phrase = [] then [] else match_spans (words_of phrase) 0 t))"

text \<open>\<open>locatedPhrase\<close>: the outer option is whether the search returns.\<close>

definition located_phrase :: "string \<Rightarrow> string \<Rightarrow> span option option" where
  "located_phrase t phrase =
     map_option (\<lambda>spans. case spans of [s] \<Rightarrow> Some s | _ \<Rightarrow> None) (spans_of t phrase)"

subsection \<open>When the search returns\<close>

lemma first_at_bound: "first_at phrase t = Some i \<Longrightarrow> i + length phrase \<le> length t"
  by (induction t arbitrary: i) (auto dest: prefix_length_le split: if_splits)

lemma index_from_bound: "index_from t phrase at = Some i \<Longrightarrow> min at (length t) \<le> i \<and> i + length phrase \<le> length t"
  using first_at_bound [of phrase "drop (min at (length t)) t"] by (auto simp: index_from_def Let_def)

lemma exact_returns: "phrase \<noteq> [] \<Longrightarrow> \<exists>spans. exact_spans t phrase at = Some spans"
proof (induction "length t - at" arbitrary: at rule: less_induct)
  case less
  show ?case
  proof (cases "index_from t phrase at")
    case None
    then show ?thesis by (subst exact_spans.simps) simp
  next
    case (Some i)
    then have i: "i + length phrase \<le> length t" "min at (length t) \<le> i" using index_from_bound by blast+
    moreover have "0 < length phrase" using less.prems by simp
    ultimately have "length t - (i + length phrase) < length t - at" by linarith
    then obtain rest where "exact_spans t phrase (i + length phrase) = Some rest"
      using less by blast
    with Some show ?thesis by (subst exact_spans.simps) simp
  qed
qed

lemma first_at_empty: "first_at [] t = Some 0"
  by (cases t) auto

lemma exact_of_nothing:
  assumes "exact_spans t phrase at = Some spans"
  shows "phrase \<noteq> []"
proof (rule exact_spans.raw_induct [where P = "\<lambda>t phrase at r. phrase \<noteq> []", OF _ assms])
  fix f :: "string \<Rightarrow> string \<Rightarrow> nat \<Rightarrow> span list option" and t phrase :: string and at r
  assume "\<And>t phrase at r. f t phrase at = Some r \<Longrightarrow> phrase \<noteq> []"
    and "(case index_from t phrase at of None \<Rightarrow> Some []
        | Some i \<Rightarrow> Option.bind (f t phrase (i + length phrase)) (\<lambda>rest. Some ((i, i + length phrase) # rest))) = Some r"
  then show "phrase \<noteq> []"
    by (auto simp: index_from_def first_at_empty Let_def bind_eq_Some_conv split: option.splits)
qed

text \<open>
  The search for a phrase returns, whatever the text, exactly where the phrase is of at least
  one character; one of none is found at the text's end again and again.
\<close>

theorem search_returns: "(\<exists>spans. spans_of t phrase = Some spans) \<longleftrightarrow> phrase \<noteq> []"
  using exact_returns [of phrase t 0] exact_of_nothing [of t phrase 0]
  by (auto simp: spans_of_def bind_eq_Some_conv)

subsection \<open>What the search finds\<close>

lemma first_at_first:
  "first_at phrase t = Some i \<Longrightarrow> prefix phrase (drop i t) \<and> (\<forall>j < i. \<not> prefix phrase (drop j t))"
proof (induction t arbitrary: i)
  case Nil
  then show ?case by (auto split: if_splits)
next
  case (Cons c cs)
  then show ?case by (auto simp: less_Suc_eq_0_disj split: if_splits)
qed

lemma first_at_nowhere: "first_at phrase t = None \<Longrightarrow> \<not> prefix phrase (drop j t)"
proof (induction t arbitrary: j)
  case Nil
  then show ?case by (auto split: if_splits)
next
  case (Cons c cs)
  then show ?case by (cases j) (auto split: if_splits)
qed

lemma index_from_first:
  assumes "index_from t phrase at = Some i" "at \<le> length t"
  shows "prefix phrase (drop i t) \<and> (\<forall>j. at \<le> j \<and> j < i \<longrightarrow> \<not> prefix phrase (drop j t))"
proof -
  obtain k where k: "first_at phrase (drop at t) = Some k" "i = at + k"
    using assms by (auto simp: index_from_def Let_def)
  from first_at_first [OF k(1)] have "prefix phrase (drop i t)" and no: "\<forall>j < k. \<not> prefix phrase (drop (at + j) t)"
    by (simp_all add: k(2) add.commute)
  moreover have "\<not> prefix phrase (drop j t)" if "at \<le> j" "j < i" for j
    using no [rule_format, of "j - at"] that k(2) by simp
  ultimately show ?thesis by blast
qed

lemma index_from_nowhere:
  assumes "index_from t phrase at = None" "at \<le> length t" "at \<le> j"
  shows "\<not> prefix phrase (drop j t)"
  using first_at_nowhere [of phrase "drop at t" "j - at"] assms
  by (simp add: index_from_def Let_def)

text \<open>The words of a phrase hold no space, and none is empty.\<close>

definition one_word :: "string \<Rightarrow> bool" where
  "one_word w \<longleftrightarrow> w \<noteq> [] \<and> (\<forall>c \<in> set w. \<not> white c)"

lemma takeWhile_all: "\<forall>c \<in> set (takeWhile P xs). P c"
  by (induction xs) auto

lemma words_are_words: "\<forall>w \<in> set (words_of t). one_word w"
proof (induction t rule: words_of.induct)
  case (2 c cs)
  have "\<forall>d \<in> set (takeWhile (\<lambda>d. \<not> white d) cs). \<not> white d" by (rule takeWhile_all)
  then have "\<not> white c \<Longrightarrow> one_word (c # takeWhile (\<lambda>d. \<not> white d) cs)" by (simp add: one_word_def)
  with 2 show ?case by simp
qed simp

lemma words_of_word: "one_word w \<Longrightarrow> words_of w = [w]"
proof (cases w)
  case (Cons c cs)
  assume "one_word w"
  then have w: "takeWhile (\<lambda>d. \<not> white d) cs = cs" "dropWhile (\<lambda>d. \<not> white d) cs = []" "\<not> white c"
    using Cons by (auto simp: one_word_def)
  show ?thesis using Cons w(3) by (simp add: w(1,2))
qed (simp add: one_word_def)

lemma words_of_spaces: "\<forall>c \<in> set s. white c \<Longrightarrow> words_of (s @ t) = words_of t"
  by (induction s) auto

lemma words_of_parted: "one_word w \<Longrightarrow> white c \<Longrightarrow> words_of (w @ c # t) = w # words_of t"
proof (cases w)
  case (Cons d ds)
  assume w: "one_word w" and c: "white c"
  then have "takeWhile (\<lambda>d. \<not> white d) (ds @ c # t) = ds" "dropWhile (\<lambda>d. \<not> white d) (ds @ c # t) = c # t"
    "\<not> white d"
    using Cons by (auto simp: one_word_def takeWhile_append2 dropWhile_append2 takeWhile_append dropWhile_append)
  with Cons c show ?thesis by simp
qed (simp add: one_word_def)

lemma words_match_words:
  "words_match ws t = Some rest \<Longrightarrow> ws \<noteq> [] \<Longrightarrow> \<forall>w \<in> set ws. one_word w \<Longrightarrow>
    \<exists>m. t = m @ rest \<and> m \<noteq> [] \<and> words_of m = ws"
proof (induction ws t rule: words_match.induct)
  case (2 w ws t)
  then have pre: "prefix w t" and w: "one_word w" by (auto split: if_splits)
  then obtain u where t: "t = w @ u" by (auto elim: prefixE)
  show ?case
  proof (cases ws)
    case Nil
    then show ?thesis using 2 t words_of_word [OF w] w by (auto simp: one_word_def)
  next
    case (Cons v vs)
    have "(case u of [] \<Rightarrow> None | c # cs \<Rightarrow> if white c then words_match ws (dropWhile white cs) else None) = Some rest"
      using "2.prems"(1) t unfolding Cons by simp
    then obtain c cs where u: "u = c # cs" "white c" "words_match ws (dropWhile white cs) = Some rest"
      by (cases u) (simp_all split: if_splits)
    from "2.IH" [of v vs c cs] Cons pre t u "2.prems"(3)
    obtain m where m: "dropWhile white cs = m @ rest" "words_of m = ws" by auto
    let ?s = "takeWhile white cs"
    have s: "\<forall>c \<in> set ?s. white c" by (rule takeWhile_all)
    have "t = (w @ c # ?s @ m) @ rest" using t u m takeWhile_dropWhile_id [of white cs] by simp
    moreover have "words_of (w @ c # ?s @ m) = w # ws"
      using words_of_parted [OF w u(2)] words_of_spaces [OF s, of m] m(2) by simp
    ultimately show ?thesis by blast
  qed
qed simp

lemma match_spans_match:
  "(a, b) \<in> set (match_spans ws at t) \<Longrightarrow> ws \<noteq> [] \<Longrightarrow> \<forall>w \<in> set ws. one_word w \<Longrightarrow>
    at \<le> a \<and> a < b \<and> b \<le> at + length t \<and> words_of (slice (a - at) (b - at) t) = ws"
proof (induction ws at t rule: match_spans.induct)
  case (1 ws at)
  then have "words_match ws [] = None" using words_match_words [of ws "[]"] by (cases "words_match ws []") auto
  with 1 show ?case by simp
next
  case (2 ws at c cs)
  show ?case
  proof (cases "words_match ws (c # cs)")
    case None
    then have "at + 1 \<le> a \<and> a < b \<and> b \<le> at + 1 + length cs \<and> words_of (slice (a - (at + 1)) (b - (at + 1)) cs) = ws"
      using 2 by simp
    moreover have "slice (a - at) (b - at) (c # cs) = slice (a - (at + 1)) (b - (at + 1)) cs" if "at + 1 \<le> a" "a < b"
      using that by (simp add: slice_def drop_Cons' Suc_diff_le)
    ultimately show ?thesis by auto
  next
    case (Some rest)
    then obtain m where m: "c # cs = m @ rest" "m \<noteq> []" "words_of m = ws"
      using words_match_words [of ws "c # cs" rest] 2 by blast
    then have len: "length (c # cs) - length rest = length m" "length rest < length (c # cs)"
      using arg_cong [OF m(1), of length] by simp_all
    then consider "(a, b) = (at, at + length m)" | "(a, b) \<in> set (match_spans ws (at + length m) rest)"
      using 2 Some by auto
    then show ?thesis
    proof cases
      case 1
      then show ?thesis using m by (auto simp: slice_def)
    next
      case 2
      then have "at + length m \<le> a \<and> a < b \<and> b \<le> at + length m + length rest \<and>
          words_of (slice (a - (at + length m)) (b - (at + length m)) rest) = ws"
        using "2.IH"(2) [OF Some len(2)] "2.prems" len by simp
      moreover have "slice (a - at) (b - at) (m @ rest) = slice (a - (at + length m)) (b - (at + length m)) rest"
        if "at + length m \<le> a" "a < b"
        using that by (simp add: slice_def)
      ultimately show ?thesis using m by auto
    qed
  qed
qed

lemma located_cases:
  assumes "located_phrase t phrase = Some (Some (a, b))"
  shows "exact_spans t phrase 0 = Some [(a, b)] \<or>
    exact_spans t phrase 0 = Some [] \<and> words_of phrase \<noteq> [] \<and> match_spans (words_of phrase) 0 t = [(a, b)]"
proof -
  obtain spans where spans: "spans_of t phrase = Some spans" and one: "(case spans of [s] \<Rightarrow> Some s | _ \<Rightarrow> None) = Some (a, b)"
    using assms unfolding located_phrase_def by (elim map_option_eq_Some [THEN iffD1, elim_format]) blast
  have single: "spans = [(a, b)]"
  proof (cases spans)
    case (Cons s ss)
    with one show ?thesis by (cases ss) simp_all
  qed (use one in simp)
  obtain exact where "exact_spans t phrase 0 = Some exact"
    "spans = (if exact \<noteq> [] then exact else if words_of phrase = [] then [] else match_spans (words_of phrase) 0 t)"
    using spans by (cases "exact_spans t phrase 0") (auto simp: spans_of_def)
  with single show ?thesis by (auto split: if_splits)
qed

lemma exact_Nil: "exact_spans t phrase at = Some [] \<Longrightarrow> index_from t phrase at = None"
  by (subst (asm) exact_spans.simps)
    (cases "index_from t phrase at"; cases "exact_spans t phrase (the (index_from t phrase at) + length phrase)"; simp)

lemma exact_Cons:
  "exact_spans t phrase at = Some (s # ss) \<Longrightarrow>
    index_from t phrase at = Some (fst s) \<and> s = (fst s, fst s + length phrase) \<and>
    exact_spans t phrase (fst s + length phrase) = Some ss"
  by (subst (asm) exact_spans.simps)
    (cases "index_from t phrase at"; cases "exact_spans t phrase (the (index_from t phrase at) + length phrase)"; auto)

text \<open>
  The place a phrase is located at is a stretch of the text that reads, word for word, as the
  phrase, and where the phrase stands anywhere in the text as written, it stands there overlapping
  that place: no copy of it stands before or past it.
\<close>

theorem located_reads_as_the_phrase:
  assumes "located_phrase t phrase = Some (Some (a, b))"
  shows "a < b \<and> b \<le> length t \<and> words_of (slice a b t) = words_of phrase \<and>
    (\<forall>i. prefix phrase (drop i t) \<longrightarrow> a \<le> i \<and> i < b)"
  using located_cases [OF assms]
proof
  assume one: "exact_spans t phrase 0 = Some [(a, b)]"
  then have ne: "phrase \<noteq> []" by (rule exact_of_nothing)
  from exact_Cons [OF one] have i: "index_from t phrase 0 = Some a" "b = a + length phrase"
    and rest: "exact_spans t phrase b = Some []" by auto
  have bound: "b \<le> length t" using index_from_bound [OF i(1)] i(2) by simp
  have past: "\<not> prefix phrase (drop j t)" if "b \<le> j" for j
    using index_from_nowhere [OF exact_Nil [OF rest] bound that] .
  have here: "prefix phrase (drop a t)" "\<And>j. j < a \<Longrightarrow> \<not> prefix phrase (drop j t)"
    using index_from_first [OF i(1)] by auto
  then have "slice a b t = phrase" using i(2) by (auto simp: slice_def elim!: prefixE)
  moreover have "a \<le> j \<and> j < b" if "prefix phrase (drop j t)" for j
    using here(2) [of j] past [of j] that by (meson not_le)
  ultimately show ?thesis using bound i(2) ne by simp
next
  assume flex: "exact_spans t phrase 0 = Some [] \<and> words_of phrase \<noteq> [] \<and> match_spans (words_of phrase) 0 t = [(a, b)]"
  then have "\<not> prefix phrase (drop j t)" for j
    using index_from_nowhere [OF exact_Nil, of t phrase 0 j] by simp
  moreover have "a < b \<and> b \<le> length t \<and> words_of (slice a b t) = words_of phrase"
    using match_spans_match [of a b "words_of phrase" 0 t] flex words_are_words by auto
  ultimately show ?thesis by blast
qed

theorem located_reads_as_the_phrase_witness:
  "located_phrase ''- one  two.'' ''one two'' = Some (Some (2, 10)) \<and>
   words_of (slice 2 10 ''- one  two.'') = words_of ''one two''"
proof -
  have "located_phrase ''- one  two.'' ''one two'' = Some (Some (2, 10))" by code_simp
  with located_reads_as_the_phrase [OF this] show ?thesis by blast
qed

end
