(* ===== verification/Note_Edits.thy ===== *)
theory Note_Edits
  imports Section_Cuts Note_Text Note_Places Description_Editor
begin

text \<open>
  The notes an agent edits a description by: \<open>features/src/description-notes.ts\<close>, a point added under
  a heading, the one place of a phrase replaced or deleted, a batch of notes taken whole or not at
  all, and the journal they are kept in. The links that are mentions and the pictures a text draws
  are read by files of their own; here they are any two readings of a text, \<open>mentions\<close> and \<open>pictures\<close>.
  A replacement is \<open>None\<close> where the search for its phrase does not return.
\<close>

subsection \<open>The notes, and the journal of them\<close>

datatype description_note =
  Add string string
| Replace string string

datatype journal_note =
  Journal_Add string string
| Journal_Replace string string
| Journal_Remove string

definition trimmed :: "string \<Rightarrow> bool" where
  "trimmed t \<longleftrightarrow> trim t = t"

text \<open>What the notes' schemas let through.\<close>

fun note_reads :: "description_note \<Rightarrow> bool" where
  "note_reads (Add section t) \<longleftrightarrow>
     trimmed section \<and> section \<noteq> [] \<and> length section \<le> max_heading_chars \<and>
     trimmed t \<and> t \<noteq> [] \<and> \<not> too_long t"
| "note_reads (Replace phrase t) \<longleftrightarrow>
     trimmed phrase \<and> phrase \<noteq> [] \<and> \<not> too_long phrase \<and> trimmed t \<and> \<not> too_long t"

definition journal_find_chars :: nat where
  "journal_find_chars = 500"

fun journaled_note :: "description_note \<Rightarrow> journal_note" where
  "journaled_note (Add section t) = Journal_Add section t"
| "journaled_note (Replace phrase t) =
     (let cut = trim_end (take journal_find_chars phrase)
      in if t = [] then Journal_Remove cut else Journal_Replace cut t)"

record journal_entry =
  journal_agent :: string
  journal_at :: int
  journal_notes :: "journal_note list"

definition agent_edits_kept :: nat where
  "agent_edits_kept = 50"

text \<open>\<open>xs.slice(-n)\<close>.\<close>

definition last_of :: "nat \<Rightarrow> 'a list \<Rightarrow> 'a list" where
  "last_of n xs = drop (length xs - n) xs"

definition with_agent_edit ::
  "journal_entry list \<Rightarrow> string \<Rightarrow> int \<Rightarrow> description_note list \<Rightarrow> journal_entry list" where
  "with_agent_edit journal agent at notes =
     last_of agent_edits_kept
       (journal @ [\<lparr>journal_agent = agent, journal_at = at, journal_notes = map journaled_note notes\<rparr>])"

subsection \<open>A point added\<close>

definition is_digit :: "char \<Rightarrow> bool" where
  "is_digit c \<longleftrightarrow> c \<in> set ''0123456789''"

text \<open>\<open>LIST_ITEM_LINE\<close>.\<close>

definition list_item :: "string \<Rightarrow> bool" where
  "list_item t =
     (let s = dropWhile white t; n = length (takeWhile is_digit s)
      in (case s of m # c # _ \<Rightarrow> m \<in> set ''-*+'' \<and> white c | _ \<Rightarrow> False) \<or>
         (1 \<le> n \<and> n \<le> 9 \<and> (case drop n s of m # c # _ \<Rightarrow> m \<in> set ''.)'' \<and> white c | _ \<Rightarrow> False)))"

definition appended :: "string \<Rightarrow> string \<Rightarrow> string" where
  "appended current t =
     current @ (if list_item (last (split_lines current)) \<and> list_item t then [newline] else [newline, newline]) @ t"

definition fence_closed :: "string \<Rightarrow> string" where
  "fence_closed words =
     (case open_fence_at words (length words + 1) of None \<Rightarrow> words | Some run \<Rightarrow> words @ newline # run)"

definition added_to_text :: "string \<Rightarrow> string \<Rightarrow> string \<Rightarrow> string option" where
  "added_to_text t section words =
     (let added = contained_words words
      in case filter (\<lambda>s. sec_heading s = section) (description_sections t) of
           [] \<Rightarrow>
             (let head = fence_closed (trim_end t)
              in Some ((if head = [] then [] else head @ [newline, newline]) @
                   ''## '' @ section @ [newline, newline] @ added @ [newline]))
         | [s] \<Rightarrow>
             (let words = fence_closed (sec_text s);
                  grown = (if 1 < length (split_lines words) then appended words added
                           else words @ [newline, newline] @ added)
              in Some (slice 0 (sec_from s) t @ grown @ drop (sec_to s) t))
         | _ \<Rightarrow> None)"

subsection \<open>A phrase replaced, or deleted\<close>

text \<open>\<open>text.lastIndexOf("\n", n)\<close> and one past it, zero where there is none.\<close>

fun line_start :: "string \<Rightarrow> nat \<Rightarrow> nat" where
  "line_start t 0 = (if t \<noteq> [] \<and> hd t = newline then 1 else 0)"
| "line_start t (Suc n) =
     (if Suc n < length t \<and> t ! Suc n = newline then Suc (Suc n) else line_start t n)"

definition lines_of :: "string \<Rightarrow> span \<Rightarrow> span" where
  "lines_of t at =
     (line_start t (fst at - 1),
      case index_from t [newline] (max (fst at) (snd at - 1)) of
        None \<Rightarrow> length t
      | Some i \<Rightarrow> i + 1)"

text \<open>\<open>head.replace(/\n+$/u, "\n")\<close>, and \<open>tail.replace(/^\n+/u, "")\<close>.\<close>

definition one_last_break :: "string \<Rightarrow> string" where
  "one_last_break head =
     (let words = rev (dropWhile ((=) newline) (rev head))
      in if length words < length head then words @ [newline] else head)"

definition struck_from_text :: "string \<Rightarrow> span \<Rightarrow> string" where
  "struck_from_text t lines =
     (let head = slice 0 (fst lines) t; tail = drop (snd lines) t
      in if trim tail = [] then one_last_break head
         else if suffix [newline, newline] head \<or> head = []
              then head @ dropWhile ((=) newline) tail else head @ tail)"

text \<open>\<open>keepsAddresses\<close>: every address read before the change is read after it, each copy counted.\<close>

definition keeps_addresses :: "string \<Rightarrow> string \<Rightarrow> (string \<Rightarrow> string list) \<Rightarrow> bool" where
  "keeps_addresses before after reading \<longleftrightarrow>
     list_all (\<lambda>a. count_list (reading before) a \<le> count_list (reading after) a) (reading before)"

definition keeps_all ::
  "(string \<Rightarrow> string list) \<Rightarrow> (string \<Rightarrow> string list) \<Rightarrow> string \<Rightarrow> string \<Rightarrow> bool" where
  "keeps_all mentions pictures before after \<longleftrightarrow>
     keeps_addresses before after mentions \<and> keeps_addresses before after pictures"

definition deleted_from_text ::
  "(string \<Rightarrow> string list) \<Rightarrow> (string \<Rightarrow> string list) \<Rightarrow> string \<Rightarrow> span \<Rightarrow> string option" where
  "deleted_from_text mentions pictures t at =
     (let lines = lines_of t at;
          rest = slice (fst lines) (fst at) t @ slice (snd at) (snd lines) t
      in if trim rest = [] then Some (struck_from_text t lines)
         else let deleted = slice 0 (fst at) t @ drop (snd at) t
              in if keeps_all mentions pictures t deleted then Some deleted else None)"

definition replaced_in_text ::
  "(string \<Rightarrow> string list) \<Rightarrow> (string \<Rightarrow> string list) \<Rightarrow> string \<Rightarrow> string \<Rightarrow> string \<Rightarrow> string option option" where
  "replaced_in_text mentions pictures t phrase words =
     map_option (\<lambda>place. case place of
         None \<Rightarrow> None
       | Some at \<Rightarrow>
           if words = [] then deleted_from_text mentions pictures t at
           else let words = (if open_fence_at t (fst at) = None then contained_words words else words);
                    replaced = slice 0 (fst at) t @ words @ drop (snd at) t
                in if keeps_all mentions pictures t replaced then Some replaced else None)
       (located_phrase t phrase)"

subsection \<open>A batch of notes\<close>

fun apply_note ::
  "(string \<Rightarrow> string list) \<Rightarrow> (string \<Rightarrow> string list) \<Rightarrow> string \<Rightarrow> description_note \<Rightarrow> string option option" where
  "apply_note mentions pictures t (Add section words) = Some (added_to_text t section words)"
| "apply_note mentions pictures t (Replace phrase words) = replaced_in_text mentions pictures t phrase words"

record notes_taken =
  taken_text :: string
  taken_missed :: "description_note option"

fun taken_in_order ::
  "(string \<Rightarrow> string list) \<Rightarrow> (string \<Rightarrow> string list) \<Rightarrow> string \<Rightarrow> description_note list \<Rightarrow> notes_taken option" where
  "taken_in_order mentions pictures t [] = Some \<lparr>taken_text = t, taken_missed = None\<rparr>"
| "taken_in_order mentions pictures t (n # ns) =
     Option.bind (apply_note mentions pictures t n)
       (\<lambda>next. case next of
          None \<Rightarrow> Some \<lparr>taken_text = t, taken_missed = Some n\<rparr>
        | Some t' \<Rightarrow> taken_in_order mentions pictures t' ns)"

definition apply_notes_to_text ::
  "(string \<Rightarrow> string list) \<Rightarrow> (string \<Rightarrow> string list) \<Rightarrow> string \<Rightarrow> description_note list \<Rightarrow> notes_taken option" where
  "apply_notes_to_text mentions pictures t notes =
     map_option (\<lambda>taken. if taken_missed taken = None then taken
        else \<lparr>taken_text = t, taken_missed = taken_missed taken\<rparr>)
       (taken_in_order mentions pictures t notes)"

end
