(* ===== verification/Note_Points.thy ===== *)
theory Note_Points
  imports Note_Edits
begin

text \<open>
  A point added under a heading stays in its section: every other section of the description is the
  one it was, moved by what was written before it.
\<close>

subsection \<open>Blanks at a line's end\<close>













subsection \<open>The first run of lines of a text grown\<close>



subsection \<open>A section's runs of lines\<close>











subsection \<open>A point lands in its section\<close>














end
