(* ===== verification/Note_Batches.thy ===== *)
theory Note_Batches
  imports Note_Points
begin

text \<open>
  Batches of notes: they return, they are taken whole or not at all, a replacement and a deletion
  change the place they name and nothing beside it. Then the words that break what the notes are
  taken to keep.
\<close>

subsection \<open>Every batch that reads returns\<close>

lemma note_returns: "note_reads n \<Longrightarrow> \<exists>r. apply_note mentions pictures t n = Some r"
proof (cases n)
  case (Replace phrase words)
  assume "note_reads n"
  then obtain spans where "spans_of t phrase = Some spans" using Replace search_returns by auto
  then show ?thesis by (simp add: Replace replaced_in_text_def located_phrase_def)
qed simp

lemma order_returns: "list_all note_reads batch \<Longrightarrow> \<exists>r. taken_in_order mentions pictures t batch = Some r"
proof (induction batch arbitrary: t)
  case (Cons n ns)
  then obtain r where "apply_note mentions pictures t n = Some r" using note_returns by auto blast
  with Cons show ?case by (cases r) auto
qed simp

text \<open>
  C17: A batch of notes the schema reads is always answered, whatever the text: no search for a
  phrase of theirs runs for ever.
\<close>

theorem notes_return: "list_all note_reads batch \<Longrightarrow> \<exists>r. apply_notes_to_text mentions pictures t batch = Some r"
  using order_returns [of batch mentions pictures t] by (auto simp: apply_notes_to_text_def)

theorem notes_return_witness:
  "list_all note_reads [Replace ''a'' ''b'', Add ''A'' ''- x''] \<and>
   (\<exists>r. apply_notes_to_text (\<lambda>_. []) (\<lambda>_. []) ''## A'' [Replace ''a'' ''b'', Add ''A'' ''- x''] = Some r)"
proof -
  have "list_all note_reads [Replace ''a'' ''b'', Add ''A'' ''- x'']"
    by (simp add: trimmed_def trim_def trim_end_def white_def max_heading_chars_def too_long_def max_body_chars_def)
  then show ?thesis using notes_return by blast
qed

subsection \<open>Whole or not at all\<close>

text \<open>Notes taken one over another, each over the text the one before it left.\<close>

inductive taken_one_by_one ::
  "(string \<Rightarrow> string list) \<Rightarrow> (string \<Rightarrow> string list) \<Rightarrow> string \<Rightarrow> description_note list \<Rightarrow> string \<Rightarrow> bool"
  for mentions pictures where
  none: "taken_one_by_one mentions pictures t [] t"
| one: "apply_note mentions pictures t n = Some (Some t') \<Longrightarrow> taken_one_by_one mentions pictures t' ns t'' \<Longrightarrow>
    taken_one_by_one mentions pictures t (n # ns) t''"

lemma order_taken:
  "taken_in_order mentions pictures t batch = Some taken \<Longrightarrow>
    (case taken_missed taken of
       None \<Rightarrow> taken_one_by_one mentions pictures t batch (taken_text taken)
     | Some n \<Rightarrow> \<exists>before after. batch = before @ n # after \<and>
         taken_one_by_one mentions pictures t before (taken_text taken) \<and>
         apply_note mentions pictures (taken_text taken) n = Some None)"
proof (induction batch arbitrary: t)
  case Nil
  then show ?case by (auto intro: taken_one_by_one.none)
next
  case (Cons n ns)
  then obtain r where r: "apply_note mentions pictures t n = Some r" by (cases "apply_note mentions pictures t n") auto
  show ?case
  proof (cases r)
    case None
    then have "taken = \<lparr>taken_text = t, taken_missed = Some n\<rparr>" using Cons.prems r by simp
    moreover have "n # ns = [] @ n # ns" "taken_one_by_one mentions pictures t [] t"
      by (simp_all add: taken_one_by_one.none)
    ultimately show ?thesis using r None by simp blast
  next
    case (Some t')
    then have "taken_in_order mentions pictures t' ns = Some taken" using Cons.prems r by simp
    from Cons.IH [OF this] show ?thesis
    proof (cases "taken_missed taken")
      case (Some m)
      then obtain before after where "ns = before @ m # after"
        "taken_one_by_one mentions pictures t' before (taken_text taken)"
        "apply_note mentions pictures (taken_text taken) m = Some None"
        using Cons.IH [OF \<open>taken_in_order mentions pictures t' ns = Some taken\<close>] by auto
      moreover from this have "n # ns = (n # before) @ m # after"
        "taken_one_by_one mentions pictures t (n # before) (taken_text taken)"
        using r \<open>r = Some t'\<close> by (auto intro: taken_one_by_one.one)
      ultimately have "\<exists>before' after'. n # ns = before' @ m # after' \<and>
          taken_one_by_one mentions pictures t before' (taken_text taken) \<and>
          apply_note mentions pictures (taken_text taken) m = Some None" by blast
      then show ?thesis using Some by simp
    qed (use r \<open>r = Some t'\<close> in \<open>auto intro: taken_one_by_one.one\<close>)
  qed
qed

text \<open>
  A batch is taken whole or not at all: the text answered is every note taken in order, each over
  the text the ones before it left, or the text as it stood, with the first note that could not be
  taken once those before it were.
\<close>

theorem batch_whole_or_none:
  assumes "apply_notes_to_text mentions pictures t batch = Some taken"
  shows "case taken_missed taken of
      None \<Rightarrow> taken_one_by_one mentions pictures t batch (taken_text taken)
    | Some n \<Rightarrow> taken_text taken = t \<and>
        (\<exists>before after t'. batch = before @ n # after \<and> taken_one_by_one mentions pictures t before t' \<and>
           apply_note mentions pictures t' n = Some None)"
proof -
  obtain r where r: "taken_in_order mentions pictures t batch = Some r"
    "taken = (if taken_missed r = None then r else \<lparr>taken_text = t, taken_missed = taken_missed r\<rparr>)"
    using assms by (auto simp: apply_notes_to_text_def)
  from order_taken [OF r(1)] r(2) show ?thesis by (cases "taken_missed r") auto
qed

theorem batch_whole_or_none_witness:
  "let batch = [Add ''A'' ''- x'', Replace ''b'' ''c'']
   in apply_notes_to_text (\<lambda>_. []) (\<lambda>_. []) ''## A'' batch =
       Some \<lparr>taken_text = ''## A'', taken_missed = Some (Replace ''b'' ''c'')\<rparr> \<and>
     (\<exists>before after t'. batch = before @ Replace ''b'' ''c'' # after \<and>
        taken_one_by_one (\<lambda>_. []) (\<lambda>_. []) ''## A'' before t')"
proof -
  let ?batch = "[Add ''A'' ''- x'', Replace ''b'' ''c'']"
  have "apply_notes_to_text (\<lambda>_. []) (\<lambda>_. []) ''## A'' ?batch =
      Some \<lparr>taken_text = ''## A'', taken_missed = Some (Replace ''b'' ''c'')\<rparr>" by code_simp
  with batch_whole_or_none [OF this] show ?thesis by (auto simp: Let_def)
qed

subsection \<open>A replacement, a deletion\<close>

text \<open>
  A replacement with words writes them, contained where its place stands outside code, in the
  one place its phrase stands, which reads as the phrase, and changes nothing before or after it; and
  the text still holds every mention and every picture it held.
\<close>

theorem replacement_changes_its_place_alone:
  assumes "replaced_in_text mentions pictures t phrase words = Some (Some t')" "words \<noteq> []"
  shows "\<exists>a b. located_phrase t phrase = Some (Some (a, b)) \<and> words_of (slice a b t) = words_of phrase \<and>
    t' = take a t @ (if open_fence_at t a = None then contained_words words else words) @ drop b t \<and>
    keeps_all mentions pictures t t'"
proof -
  obtain a b where "located_phrase t phrase = Some (Some (a, b))"
    using assms by (auto simp: replaced_in_text_def split: option.splits)
  with located_reads_as_the_phrase [OF this] assms show ?thesis
    by (auto simp: replaced_in_text_def slice_def Let_def split: if_splits)
qed

theorem replacement_changes_its_place_alone_witness:
  "replaced_in_text (\<lambda>_. []) (\<lambda>_. []) ''- one  two.'' ''one two'' ''six'' = Some (Some ''- six.'') \<and>
   (\<exists>a b. located_phrase ''- one  two.'' ''one two'' = Some (Some (a, b)) \<and>
     words_of (slice a b ''- one  two.'') = words_of ''one two'')"
proof -
  have "replaced_in_text (\<lambda>_. []) (\<lambda>_. []) ''- one  two.'' ''one two'' ''six'' = Some (Some ''- six.'')" by code_simp
  with replacement_changes_its_place_alone [OF this] show ?thesis by blast
qed

text \<open>Where a text's lines stand: no line break stands between a line's start and what it is the start of.\<close>

lemma line_start_bound: "line_start t n \<le> Suc n \<and> (\<forall>i. line_start t n \<le> i \<and> i \<le> n \<and> i < length t \<longrightarrow> t ! i \<noteq> newline)"
proof (induction n)
  case 0
  then show ?case by (cases t) auto
next
  case (Suc n)
  then show ?case by (auto simp: le_Suc_eq)
qed

lemma trimmed_hd: "trimmed p \<Longrightarrow> p \<noteq> [] \<Longrightarrow> \<not> white (hd p)"
proof (cases p)
  case (Cons c cs)
  assume "trimmed p"
  then have "length p \<le> length (dropWhile white p)"
    using length_trim_end [of "dropWhile white p"] by (simp add: trimmed_def trim_def)
  with Cons length_dropWhile_le [of white cs] show ?thesis by (auto split: if_splits)
qed simp

text \<open>A phrase trimmed stands where it is located from its first character on.\<close>

lemma words_match_hd:
  "words_match ws (c # cs) = Some rest \<Longrightarrow> ws \<noteq> [] \<Longrightarrow> \<forall>w \<in> set ws. one_word w \<Longrightarrow> \<not> white c"
proof (cases ws)
  case (Cons w vs)
  assume "words_match ws (c # cs) = Some rest" and words: "\<forall>w \<in> set ws. one_word w"
  then have "prefix w (c # cs)" using Cons by (auto split: if_splits)
  then show ?thesis using words Cons by (cases w) (auto simp: one_word_def)
qed simp

lemma match_spans_hd:
  "(a, b) \<in> set (match_spans ws at t) \<Longrightarrow> ws \<noteq> [] \<Longrightarrow> \<forall>w \<in> set ws. one_word w \<Longrightarrow> \<not> white (t ! (a - at))"
proof (induction ws at t rule: match_spans.induct)
  case (1 ws at)
  then have "words_match ws [] = None" using words_match_words [of ws "[]"] by (cases "words_match ws []") auto
  with 1 show ?case by simp
next
  case (2 ws at c cs)
  show ?case
  proof (cases "words_match ws (c # cs)")
    case None
    then have "(a, b) \<in> set (match_spans ws (at + 1) cs)" using 2 by simp
    moreover from this have "at + 1 \<le> a" using match_spans_match 2 by blast
    ultimately show ?thesis using 2 None by (simp add: Suc_diff_le [symmetric] nth_Cons')
  next
    case (Some rest)
    then obtain m where m: "c # cs = m @ rest" "m \<noteq> []" using words_match_words [of ws "c # cs" rest] 2 by blast
    then have len: "length (c # cs) - length rest = length m" "length rest < length (c # cs)"
      using arg_cong [OF m(1), of length] by simp_all
    then consider "a = at" | "(a, b) \<in> set (match_spans ws (at + length m) rest)" using 2 Some by auto
    then show ?thesis
    proof cases
      case 1
      then show ?thesis using words_match_hd [OF Some] 2 by simp
    next
      case right: 2
      then have past: "at + length m \<le> a" using match_spans_match 2 by blast
      have "\<not> white (rest ! (a - (at + length m)))"
        using "2.IH"(2) [OF Some len(2)] right "2.prems" len by simp
      moreover have "\<not> a - at < length m" using past by simp
      ultimately show ?thesis unfolding m(1) by (simp add: nth_append)
    qed
  qed
qed

lemma located_hd:
  assumes "located_phrase t phrase = Some (Some (a, b))" "trimmed phrase" "phrase \<noteq> []"
  shows "\<not> white (t ! a)"
  using located_cases [OF assms(1)]
proof
  assume "exact_spans t phrase 0 = Some [(a, b)]"
  then have "prefix phrase (drop a t)" using exact_Cons index_from_first [of t phrase 0 a] by fastforce
  then have "hd phrase = t ! a" using assms(3)
    by (metis append_Cons drop_eq_Nil hd_append2 hd_drop_conv_nth leI prefix_bot.extremum_uniqueI prefix_def)
  then show ?thesis using trimmed_hd [OF assms(2,3)] by simp
next
  assume "exact_spans t phrase 0 = Some [] \<and> words_of phrase \<noteq> [] \<and> match_spans (words_of phrase) 0 t = [(a, b)]"
  then show ?thesis using match_spans_hd [of a b "words_of phrase" 0 t] words_are_words by simp
qed

text \<open>Lines struck take nothing but white space beside them.\<close>

lemma one_last_break_cut:
  "\<exists>k gap. k \<le> length h \<and> one_last_break h = take k h @ gap \<and> (\<forall>c \<in> set (drop k h @ gap). white c)"
proof -
  let ?w = "rev (dropWhile ((=) newline) (rev h))" and ?n = "rev (takeWhile ((=) newline) (rev h))"
  have "rev (takeWhile ((=) newline) (rev h) @ dropWhile ((=) newline) (rev h)) = h" by simp
  then have h: "h = ?w @ ?n" unfolding rev_append by simp
  have n: "\<forall>c \<in> set ?n. white c" using takeWhile_all [of "(=) newline" "rev h"] by auto
  have "take (length ?w) h = ?w \<and> drop (length ?w) h = ?n" by (subst (2 4) h) simp
  then show ?thesis
    using n h by (cases "length ?w < length h")
      (auto simp: one_last_break_def Let_def intro: exI [of _ "length ?w"] exI [of _ "[newline]"] exI [of _ "length h"])
qed

lemma struck_takes_white:
  assumes "f \<le> e" "e \<le> length t"
  shows "\<exists>c d gap. c \<le> f \<and> e \<le> d \<and> struck_from_text t (f, e) = take c t @ gap @ drop d t \<and>
    (\<forall>ch \<in> set (slice c f t @ gap @ slice e d t). white ch)"
proof -
  let ?head = "take f t" and ?tail = "drop e t"
  consider "trim ?tail = []" | "trim ?tail \<noteq> []" "suffix [newline, newline] ?head \<or> ?head = []"
    | "trim ?tail \<noteq> []" "\<not> (suffix [newline, newline] ?head \<or> ?head = [])" by blast
  then show ?thesis
  proof cases
    case 1
    obtain k gap where k: "k \<le> length ?head" "one_last_break ?head = take k ?head @ gap"
      "\<forall>ch \<in> set (drop k ?head @ gap). white ch" using one_last_break_cut by blast
    then have "k \<le> f" "slice k f t = drop k ?head" "slice e (length t) t = ?tail"
      by (simp_all add: slice_def drop_take)
    then show ?thesis using 1 k assms trim_all_space [of ?tail]
      by - (rule exI [of _ k], rule exI [of _ "length t"], rule exI [of _ gap],
        auto simp: struck_from_text_def slice_def Let_def min_absorb2)
  next
    case 2
    let ?n = "takeWhile ((=) newline) ?tail"
    have "?tail = ?n @ dropWhile ((=) newline) ?tail" by simp
    then have "drop (e + length ?n) t = dropWhile ((=) newline) ?tail"
      by (metis add.commute append_eq_conv_conj drop_drop)
    moreover have "slice e (e + length ?n) t = ?n" by (simp add: slice_def takeWhile_eq_take [symmetric])
    moreover have "\<forall>ch \<in> set ?n. white ch" using takeWhile_all [of "(=) newline" ?tail] by auto
    ultimately show ?thesis using 2
      by - (rule exI [of _ f], rule exI [of _ "e + length ?n"], rule exI [of _ "[]"],
        auto simp: struck_from_text_def slice_def Let_def)
  next
    case 3
    then show ?thesis
      by - (rule exI [of _ f], rule exI [of _ e], rule exI [of _ "[]"],
        auto simp: struck_from_text_def slice_def Let_def)
  qed
qed

lemma lines_of_around:
  assumes "a < b" "b \<le> length t" "\<not> white (t ! a)" "lines_of t (a, b) = (f, e)"
  shows "f \<le> a \<and> b \<le> e \<and> e \<le> length t"
proof -
  have "f \<le> a"
  proof (cases a)
    case 0
    then have "hd t \<noteq> newline" using assms(1-3) by (cases t) auto
    with 0 assms(4) show ?thesis by (auto simp: lines_of_def)
  next
    case (Suc n)
    then show ?thesis using line_start_bound [of t n] assms(4) by (simp add: lines_of_def)
  qed
  moreover have "b \<le> e \<and> e \<le> length t"
    using assms index_from_bound [of t "[newline]" "max a (b - 1)"]
    by (auto simp: lines_of_def max_def min_def split: option.splits if_splits)
  ultimately show ?thesis by blast
qed

text \<open>Every stretch that reads as the words begins inside a match the search finds.\<close>

lemma words_match_step:
  "\<lbrakk>prefix w t; drop (length w) t = d # u; white d\<rbrakk> \<Longrightarrow> words_match (w # v # vs) t = words_match (v # vs) (dropWhile white u)"
  by simp

lemma words_match_reads:
  "\<lbrakk>words_of (c # s) = ws; \<not> white c\<rbrakk> \<Longrightarrow> \<exists>rest. words_match ws ((c # s) @ r) = Some rest"
proof (induction ws arbitrary: c s)
  case (Cons w ws)
  let ?w = "c # takeWhile (\<lambda>d. \<not> white d) s" and ?u = "dropWhile (\<lambda>d. \<not> white d) s"
  have w: "w = ?w" "ws = words_of ?u" using Cons.prems by auto
  have split: "(c # s) @ r = ?w @ ?u @ r" by simp
  have pre: "prefix w ((c # s) @ r)" and past: "drop (length w) ((c # s) @ r) = ?u @ r"
    unfolding w(1) split by simp_all
  show ?case
  proof (cases ws)
    case Nil
    then show ?thesis using pre by simp
  next
    case (Cons v vs)
    then obtain d ds where u: "?u = d # ds" using w(2) by (cases ?u) auto
    have d: "white d" using u hd_dropWhile [of "\<lambda>d. \<not> white d" s] by simp
    have "words_of (dropWhile white ds) = ws"
      using w(2) u d words_of_spaces [of "takeWhile white ds" "dropWhile white ds"] takeWhile_all [of white ds] by simp
    moreover from this Cons obtain e es where e: "dropWhile white ds = e # es" by (cases "dropWhile white ds") auto
    moreover have "\<not> white e" using e hd_dropWhile [of white ds] by simp
    ultimately obtain rest where "words_match ws ((e # es) @ r) = Some rest" using Cons.IH [of e es] by auto
    moreover have "dropWhile white (ds @ r) = (e # es) @ r"
      using e by (metis append_Cons dropWhile_append3 dropWhile_append1 dropWhile_eq_Nil_conv list.distinct(1))
    ultimately have "words_match ws (dropWhile white (ds @ r)) = Some rest" by simp
    moreover have "drop (length w) ((c # s) @ r) = d # ds @ r" using past u by simp
    ultimately show ?thesis using words_match_step [OF pre _ d, of "ds @ r" v vs] Cons by auto
  qed
qed simp

lemma match_spans_all:
  "\<lbrakk>words_match ws (drop i t) \<noteq> None; ws \<noteq> []; \<forall>w \<in> set ws. one_word w\<rbrakk> \<Longrightarrow>
   \<exists>(a, b) \<in> set (match_spans ws at t). a \<le> at + i \<and> at + i < b"
proof (induction ws at t arbitrary: i rule: match_spans.induct)
  case (1 ws at)
  then show ?case using words_match_words [of ws "[]"] by (cases "words_match ws []") (auto simp del: words_match.simps)
next
  case (2 ws at c cs)
  show ?case
  proof (cases "words_match ws (c # cs)")
    case None
    then have "i \<noteq> 0" using "2.prems"(1) by (intro notI) (simp del: words_match.simps)
    then obtain k where k: "i = Suc k" by (cases i) simp_all
    then have "words_match ws (drop k cs) \<noteq> None" using "2.prems"(1) by (simp del: words_match.simps)
    from "2.IH"(1) [OF None this "2.prems"(2,3)] show ?thesis using None k by (simp del: words_match.simps)
  next
    case (Some rest)
    then obtain m where m: "c # cs = m @ rest" "m \<noteq> []" using words_match_words [of ws "c # cs" rest] 2 by blast
    then have len: "length (c # cs) - length rest = length m" "length rest < length (c # cs)"
      using arg_cong [OF m(1), of length] by simp_all
    have spans: "match_spans ws at (c # cs) = (at, at + length m) # match_spans ws (at + length m) rest"
      using Some len by simp
    show ?thesis
    proof (cases "i < length m")
      case True
      then show ?thesis unfolding spans by auto
    next
      case False
      then have "words_match ws (drop (i - length m) rest) \<noteq> None"
        using "2.prems"(1) unfolding m(1) by (simp del: words_match.simps)
      from "2.IH"(2) [OF Some len(2), unfolded len(1), OF this] "2.prems" False
      show ?thesis unfolding spans by auto
    qed
  qed
qed

text \<open>
  The place located is the only one: of the copies of the phrase none begins outside it, and where there is none,
  no stretch that reads as its words does.
\<close>

definition only_place :: "string \<Rightarrow> string \<Rightarrow> nat \<Rightarrow> nat \<Rightarrow> bool" where
  "only_place t phrase a b \<longleftrightarrow> a < b \<and> b \<le> length t \<and>
     (slice a b t = phrase \<and> (\<forall>i. prefix phrase (drop i t) \<longrightarrow> a \<le> i \<and> i < b) \<or>
      words_of (slice a b t) = words_of phrase \<and> (\<forall>i. \<not> prefix phrase (drop i t)) \<and>
        (\<forall>i j. i < j \<and> j \<le> length t \<and> \<not> white (t ! i) \<and> words_of (slice i j t) = words_of phrase \<longrightarrow> a \<le> i \<and> i < b))"

lemma located_only_place:
  assumes at: "located_phrase t phrase = Some (Some (a, b))"
  shows "only_place t phrase a b"
  using located_cases [OF at]
proof
  assume "exact_spans t phrase 0 = Some [(a, b)]"
  then have "index_from t phrase 0 = Some a" "b = a + length phrase" using exact_Cons by force+
  then have "slice a b t = phrase" using index_from_first [of t phrase 0 a] by (auto simp: slice_def prefix_def)
  then show ?thesis using located_reads_as_the_phrase [OF at] by (simp add: only_place_def)
next
  assume words: "exact_spans t phrase 0 = Some [] \<and> words_of phrase \<noteq> [] \<and> match_spans (words_of phrase) 0 t = [(a, b)]"
  have none: "\<not> prefix phrase (drop i t)" for i
    using index_from_nowhere [of t phrase 0 i] exact_Nil [of t phrase 0] words by simp
  have "a \<le> i \<and> i < b"
    if "i < j" "j \<le> length t" "\<not> white (t ! i)" "words_of (slice i j t) = words_of phrase" for i j
  proof -
    have "drop i t = t ! i # drop (Suc i) t" using that(1,2) by (simp add: Cons_nth_drop_Suc)
    moreover have "j - i = Suc (j - Suc i)" using that(1) by simp
    ultimately have hd: "slice i j t = t ! i # slice (Suc i) j t" by (simp add: slice_def drop_take)
    have "slice i j t @ drop j t = drop i t"
      using append_take_drop_id [of "j - i" "drop i t"] that(1) by (simp add: slice_def drop_take)
    then have "words_match (words_of phrase) (drop i t) \<noteq> None"
      using words_match_reads [of "t ! i" "slice (Suc i) j t" "words_of phrase" "drop j t"] that(3,4)
      unfolding hd by (auto simp del: words_match.simps words_of.simps)
    from match_spans_all [OF this, of 0] words words_are_words show ?thesis by (auto simp del: words_match.simps)
  qed
  then show ?thesis using none located_reads_as_the_phrase [OF at] by (auto simp: only_place_def)
qed

text \<open>
  C18: A deletion takes out one place, where its phrase stands or, where it stands nowhere as written, where the text reads
  as its words whatever white space is between them; every other such place begins inside the one taken. Beside it
  it takes white space alone: what stood before and after stands as it did. Where its lines hold other words, every
  mention and every picture of the text stands too.
\<close>

theorem deletion_takes_the_phrase_alone:
  assumes deleted: "replaced_in_text mentions pictures t phrase [] = Some (Some t')"
    and phrase: "note_reads (Replace phrase [])"
  shows "\<exists>a b c d gap. only_place t phrase a b \<and> c \<le> a \<and> b \<le> d \<and>
    t' = take c t @ gap @ drop d t \<and> (\<forall>ch \<in> set (slice c a t @ gap @ slice b d t). white ch) \<and>
    (keeps_all mentions pictures t t' \<or>
     (\<forall>ch \<in> set (slice (fst (lines_of t (a, b))) a t @ slice b (snd (lines_of t (a, b))) t). white ch))"
proof -
  obtain a b where at: "located_phrase t phrase = Some (Some (a, b))"
    and del: "deleted_from_text mentions pictures t (a, b) = Some t'"
    using deleted by (auto simp: replaced_in_text_def split: option.splits)
  note place = located_only_place [OF at]
  have ab: "a < b" "b \<le> length t" "\<not> white (t ! a)"
    using located_reads_as_the_phrase [OF at] located_hd [OF at] phrase by auto
  obtain f e where fe: "lines_of t (a, b) = (f, e)" by force
  note around = lines_of_around [OF ab fe]
  show ?thesis
  proof (cases "trim (slice f a t @ slice b e t) = []")
    case True
    then have white: "\<forall>ch \<in> set (slice f a t @ slice b e t). white ch" by (simp only: trim_all_space)
    have "t' = struck_from_text t (f, e)" using True del fe by (simp add: deleted_from_text_def Let_def)
    then obtain c d gap where cd: "c \<le> f" "e \<le> d" "t' = take c t @ gap @ drop d t"
      "\<forall>ch \<in> set (slice c f t @ gap @ slice e d t). white ch"
      using struck_takes_white [of f e t] around ab by auto
    moreover have "slice c a t = slice c f t @ slice f a t" "slice b d t = slice b e t @ slice e d t"
      using cd around by (simp_all add: slice_append)
    ultimately show ?thesis using place white around fe
      by - (rule exI [of _ a], rule exI [of _ b], rule exI [of _ c], rule exI [of _ d], rule exI [of _ gap],
        auto)
  next
    case False
    then have "t' = take a t @ drop b t" "keeps_all mentions pictures t t'"
      using del fe by (auto simp: deleted_from_text_def Let_def slice_def split: if_splits)
    then show ?thesis using place
      by - (rule exI [of _ a], rule exI [of _ b], rule exI [of _ a], rule exI [of _ b], rule exI [of _ "[]"],
        simp)
  qed
qed

theorem deletion_takes_the_phrase_alone_witness:
  "let t = ''- one'' @ newline # ''- two'' @ [newline]
   in replaced_in_text (\<lambda>_. []) (\<lambda>_. []) t ''- one'' [] = Some (Some (''- two'' @ [newline])) \<and>
     (\<exists>a b c d gap. only_place t ''- one'' a b \<and> c \<le> a \<and> b \<le> d \<and>
        ''- two'' @ [newline] = take c t @ gap @ drop d t)"
proof -
  let ?t = "''- one'' @ newline # ''- two'' @ [newline]"
  have "replaced_in_text (\<lambda>_. []) (\<lambda>_. []) ?t ''- one'' [] = Some (Some (''- two'' @ [newline]))" by code_simp
  moreover have "note_reads (Replace ''- one'' [])"
    by (simp add: trimmed_def trim_def trim_end_def white_def too_long_def max_body_chars_def)
  ultimately show ?thesis
    using deletion_takes_the_phrase_alone [of "\<lambda>_. []" "\<lambda>_. []" ?t "''- one''" "''- two'' @ [newline]"]
    by (simp only: Let_def) blast
qed

subsection \<open>What the notes do not keep\<close>

text \<open>
  A point whose words open a line on three backticks and close them on it is no fence to the notes,
  which leave it as it is, and a fence to the sections: every heading after it is read as code, so the
  description loses the section it was written before, and a second note for that section opens
  another of its name at the text's end.
\<close>

theorem inline_backticks_swallow_sections:
  "\<exists>t words t'. note_reads (Add ''A'' words) \<and> headings t = [''A'', ''B''] \<and>
     added_to_text t ''A'' words = Some t' \<and> headings t' = [''A''] \<and>
     (\<exists>t''. added_to_text t' ''B'' ''x'' = Some t'' \<and> length t' < length t'' \<and> take (length t' - 1) t'' = take (length t' - 1) t')"
proof -
  let ?nl = "[newline]"
  let ?t = "''## A'' @ ?nl @ ?nl @ ''## B'' @ ?nl"
  let ?words = "''```x``` y''"
  let ?t' = "''## A'' @ ?nl @ ?nl @ ?words @ ?nl @ ?nl @ ''## B'' @ ?nl"
  have "note_reads (Add ''A'' ?words)"
    by (simp add: trimmed_def trim_def trim_end_def white_def too_long_def max_body_chars_def max_heading_chars_def)
  moreover have "headings ?t = [''A'', ''B'']" "added_to_text ?t ''A'' ?words = Some ?t'" "headings ?t' = [''A'']"
    by code_simp+
  moreover have "added_to_text ?t' ''B'' ''x'' =
      Some (butlast ?t' @ ?nl @ ''```'' @ ?nl @ ?nl @ ''## B'' @ ?nl @ ?nl @ ''x'' @ ?nl)" by code_simp
  ultimately show ?thesis by (intro exI conjI) (assumption | simp)+
qed

text \<open>A phrase that stands twice, each time over the other, is located at the first of the two.\<close>

lemma overlapping_phrase_located:
  "located_phrase ''- - -'' ''- -'' = Some (Some (0, 3)) \<and> prefix ''- -'' (drop 2 ''- - -'')"
  by code_simp

text \<open>A replacement's first line is never escaped: it underlines the line above it into a heading.\<close>

lemma replacement_underlines:
  "replaced_in_text (\<lambda>_. []) (\<lambda>_. []) (''Intro'' @ newline # ''x'') ''x'' ''==='' = Some (Some (''Intro'' @ newline # ''===''))"
  by code_simp

text \<open>A fence closed on a line that ends in a carriage return is never read as closed.\<close>

lemma carriage_return_keeps_fence_open:
  "let cr = [CHR 0x0D, newline]
   in headings (''```'' @ cr @ ''```'' @ cr @ ''## A'' @ cr) = [[]] \<and>
     headings (''```'' @ [newline] @ ''```'' @ [newline] @ ''## A'') = [[], ''A'']"
  by code_simp

end
