(* ===== verification/Description_Saves.thy ===== *)
theory Description_Saves
  imports History_Properties Note_Batches Comment_Anchors
begin

text \<open>
  The description's one write, \<open>service/src/tasks/description-notes.ts\<close>: an agent's notes, the
  developer's edit and their restore of a revision, each taken into the text under its row's lock and saved in one
  transaction, with what \<open>database/src/models/task-store.ts\<close> reads of the row and writes back to it.

  The store is one task's row with its revisions and its comment threads, or none where no such task stands.
  A save runs in a setting: the clock it reads at each place, whether the account reaches the task
  at each of its statements, where the store fails it, and the reads of other libraries. Two saves of one task
  hold the row's lock in turn, so a save is one step of the store.
\<close>

subsection \<open>The row, and the task it reads as\<close>

record described_task =
  dt_text :: string
  dt_created :: int
  dt_updated :: int
  dt_journal :: "journal_entry list"
  dt_revisions :: "revision_row list"
  dt_threads :: "comment_thread list"

datatype save_step = Reading | Locking | Recording | Carrying | Saving | Committing

record save_setting =
  at_taken :: int
  at_recorded :: int
  at_carried :: int
  at_saved :: int
  reached_reading :: bool
  reached_locking :: bool
  reached_saving :: bool
  failing :: "save_step \<Rightarrow> bool"
  row_names :: revision_names
  agent_labels :: "string \<Rightarrow> string option"
  mentions_in :: "string \<Rightarrow> string list"
  pictures_in :: "string \<Rightarrow> string list"
  diffs_in :: diff_reads
  patch_laid :: laid_patch

record section_edit =
  se_section :: string
  se_edit :: last_edit

text \<open>A coding agent by its label, or as an agent whose row is gone.\<close>

definition agent_label :: "save_setting \<Rightarrow> string option \<Rightarrow> string" where
  "agent_label env agent =
     (case Option.bind agent (agent_labels env) of Some l \<Rightarrow> l | None \<Rightarrow> unknown_agent_label)"

definition section_edit_of :: "save_setting \<Rightarrow> writer_who section_writer \<Rightarrow> section_edit" where
  "section_edit_of env w =
     (let who = sw_who w
      in \<lparr>se_section = sw_section w,
          se_edit = \<lparr>edit_actor = who_actor who, edit_by = who_by who,
            edit_label = (if who_actor who = Agent then Some (agent_label env (who_agent who)) else None),
            edit_agent = who_agent who, edit_at = sw_at w, edit_in_call = False\<rparr>\<rparr>)"

definition journaled_edit :: "save_setting \<Rightarrow> journal_entry \<Rightarrow> last_edit" where
  "journaled_edit env j =
     \<lparr>edit_actor = Agent, edit_by = None, edit_label = Some (agent_label env (Some (journal_agent j))),
      edit_agent = Some (journal_agent j), edit_at = journal_at j, edit_in_call = False\<rparr>"

text \<open>\<open>StoredTask\<close>, less what a save reads none of.\<close>

record stored_task =
  st_text :: string
  st_updated :: int
  st_saved :: bool
  st_journal :: "journal_entry list"
  st_last_edit :: "last_edit option"
  st_section_edits :: "section_edit list"

definition stored_task_of :: "save_setting \<Rightarrow> described_task \<Rightarrow> stored_task" where
  "stored_task_of env row =
     \<lparr>st_text = dt_text row, st_updated = dt_updated row, st_saved = (dt_created row < dt_updated row),
      st_journal = dt_journal row,
      st_last_edit = (case read_last_edit (row_names env) (dt_revisions row) of
          Some e \<Rightarrow> Some e
        | None \<Rightarrow> map_option (journaled_edit env) (last_opt (dt_journal row))),
      st_section_edits = map (section_edit_of env) (read_section_writers (row_names env) (dt_revisions row))\<rparr>"

subsection \<open>A change taken under the lock\<close>

datatype save_refusal = Too_Long_Text | No_Task | No_Revision | Unavailable

record text_taken =
  tk_text :: string
  tk_changes :: nat
  tk_journal :: "journal_entry list option"
  tk_anchors :: "reported_anchors option"

datatype 'f locked_save =
  Saved_As stored_task bool
| Saved_Nothing save_refusal
| Refused 'f

datatype store_failure = Store_Failure

type_synonym description_store = "described_task option"
type_synonym 'a store_run = "description_store \<Rightarrow> (store_failure + 'a) \<times> description_store"

definition stepped :: "save_setting \<Rightarrow> save_step \<Rightarrow> 'a store_run \<Rightarrow> 'a store_run" where
  "stepped env p run s = (if failing env p then (Inl Store_Failure, s) else run s)"

text \<open>A transaction that fails leaves the store as it found it.\<close>

definition with_transaction :: "save_setting \<Rightarrow> 'a store_run \<Rightarrow> 'a store_run" where
  "with_transaction env run s =
     (case run s of
        (Inl failure, s') \<Rightarrow> (Inl failure, s)
      | (Inr a, s') \<Rightarrow> if failing env Committing then (Inl Store_Failure, s) else (Inr a, s'))"

definition reached_row :: "bool \<Rightarrow> description_store \<Rightarrow> described_task option" where
  "reached_row reached s = (if reached then s else None)"

text \<open>\<open>recordRevision\<close> for a change that moved the text.\<close>

definition revision_kept ::
  "save_setting \<Rightarrow> string \<Rightarrow> description_writer \<Rightarrow> stored_task \<Rightarrow> text_taken \<Rightarrow> described_task \<Rightarrow> described_task" where
  "revision_kept env user w stored taken row =
     row\<lparr>dt_revisions := record_revision
       \<lparr>save_writer = w, save_user = user, save_before = st_text stored, save_after = tk_text taken,
        save_changes = tk_changes taken,
        saved_before = (if st_saved stored then Some (st_updated stored) else None)\<rparr>
       (at_recorded env) (dt_revisions row)\<rparr>"

definition anchors_carried ::
  "save_setting \<Rightarrow> stored_task \<Rightarrow> text_taken \<Rightarrow> described_task \<Rightarrow> described_task" where
  "anchors_carried env stored taken row =
     row\<lparr>dt_threads := move_anchors (diffs_in env) (st_text stored) (tk_text taken) (tk_anchors taken)
       (at_carried env) (dt_threads row)\<rparr>"

text \<open>\<open>saveDescriptionText\<close>: the update of the row the account reaches, none where it reaches none.\<close>

definition save_description_text ::
  "save_setting \<Rightarrow> string \<Rightarrow> journal_entry list option \<Rightarrow> stored_task option store_run" where
  "save_description_text env t journal =
     stepped env Saving (\<lambda>s.
       case reached_row (reached_saving env) s of
         None \<Rightarrow> (Inr None, s)
       | Some row \<Rightarrow>
           (let row' = row\<lparr>dt_text := t, dt_updated := at_saved env,
                  dt_journal := (case journal of None \<Rightarrow> dt_journal row | Some j \<Rightarrow> j)\<rparr>
            in (Inr (Some (stored_task_of env row')), Some row')))"

text \<open>What follows the text being taken: the revision, the anchors and the row, in that order.\<close>

definition taken_saved ::
  "save_setting \<Rightarrow> string \<Rightarrow> description_writer \<Rightarrow> stored_task \<Rightarrow> text_taken \<Rightarrow> 'f locked_save store_run" where
  "taken_saved env user w stored taken =
     (let moved = (tk_text taken \<noteq> st_text stored) in
      stepped env Recording (\<lambda>s.
        let s1 = (if moved then map_option (revision_kept env user w stored taken) s else s) in
        stepped env Carrying (\<lambda>s.
          let s2 = (if moved \<or> tk_anchors taken \<noteq> None then map_option (anchors_carried env stored taken) s else s) in
          (case save_description_text env (tk_text taken) (tk_journal taken) s2 of
             (Inl failure, s3) \<Rightarrow> (Inl failure, s3)
           | (Inr None, s3) \<Rightarrow> (Inr (Saved_Nothing No_Task), s3)
           | (Inr (Some saved), s3) \<Rightarrow> (Inr (Saved_As saved moved), s3))) s1))"

text \<open>
  \<open>savedUnderLock\<close>; \<open>None\<close> where taking the change never returns. The change is taken from the row read under
  the lock.
\<close>

definition saved_under_lock ::
  "save_setting \<Rightarrow> string \<Rightarrow> description_writer \<Rightarrow> (stored_task \<Rightarrow> int \<Rightarrow> ('f + text_taken) option) \<Rightarrow>
    description_store \<Rightarrow> ((store_failure + 'f locked_save) \<times> description_store) option" where
  "saved_under_lock env user w change s =
     (if failing env Locking then Some (Inl Store_Failure, s)
      else case reached_row (reached_locking env) s of
        None \<Rightarrow> Some (with_transaction env (\<lambda>s. (Inr (Saved_Nothing No_Task), s)) s)
      | Some row \<Rightarrow>
          (let stored = stored_task_of env row in
           map_option (\<lambda>outcome. with_transaction env (\<lambda>s.
             case outcome of
               Inl refused \<Rightarrow> (Inr (Refused refused), s)
             | Inr taken \<Rightarrow>
                 if too_long (tk_text taken) then (Inr (Saved_Nothing Too_Long_Text), s)
                 else taken_saved env user w stored taken s) s)
             (change stored (at_taken env))))"

text \<open>\<open>reachedStore\<close>.\<close>

definition reached_store :: "(store_failure + 'f locked_save) \<times> description_store \<Rightarrow> 'f locked_save \<times> description_store" where
  "reached_store r =
     (case r of (Inl failure, s) \<Rightarrow> (Saved_Nothing Unavailable, s) | (Inr a, s) \<Rightarrow> (a, s))"

subsection \<open>An agent's notes\<close>

record notes_conflict =
  nc_current :: string
  nc_missed :: description_note

definition notes_taken_in ::
  "save_setting \<Rightarrow> description_writer \<Rightarrow> description_note list \<Rightarrow> stored_task \<Rightarrow> int \<Rightarrow>
    (notes_conflict + text_taken) option" where
  "notes_taken_in env w batch stored now =
     map_option (\<lambda>noted. case taken_missed noted of
         Some missed \<Rightarrow> Inl \<lparr>nc_current = st_text stored, nc_missed = missed\<rparr>
       | None \<Rightarrow> Inr \<lparr>tk_text = taken_text noted, tk_changes = length batch,
           tk_journal = (case w of
               Agent_Writer agent \<Rightarrow> if batch \<noteq> [] then Some (with_agent_edit (st_journal stored) agent now batch) else None
             | _ \<Rightarrow> None),
           tk_anchors = None\<rparr>)
       (apply_notes_to_text (mentions_in env) (pictures_in env) (st_text stored) batch)"

definition save_notes ::
  "save_setting \<Rightarrow> string \<Rightarrow> description_note list \<Rightarrow> description_writer \<Rightarrow> description_store \<Rightarrow>
    (notes_conflict locked_save \<times> description_store) option" where
  "save_notes env user batch w s =
     map_option reached_store (saved_under_lock env user w (notes_taken_in env w batch) s)"

subsection \<open>The developer's edit\<close>

record edit_conflict =
  ec_current :: string
  ec_by :: "last_edit option"

text \<open>The later of two edits, the first where they were made together, as \<open>conflictWriter\<close>'s \<open>reduce\<close> keeps it.\<close>

definition later_edit :: "section_edit \<Rightarrow> section_edit option \<Rightarrow> section_edit option" where
  "later_edit each latest =
     (case latest of
        None \<Rightarrow> Some each
      | Some l \<Rightarrow> if edit_at (se_edit l) < edit_at (se_edit each) then Some each else Some l)"

definition contested_edits :: "stored_task \<Rightarrow> edit_request \<Rightarrow> string \<Rightarrow> section_edit list" where
  "contested_edits stored r current =
     (let mine = changed_sections (req_base r) (req_value r);
          contested = filter (\<lambda>h. h \<in> set mine) (changed_sections (req_base r) current)
      in filter (\<lambda>e. se_section e \<in> set contested) (st_section_edits stored))"

definition conflict_writer :: "stored_task \<Rightarrow> edit_request \<Rightarrow> string \<Rightarrow> last_edit option" where
  "conflict_writer stored r current =
     (case fold later_edit (contested_edits stored r current) None of
        None \<Rightarrow> st_last_edit stored
      | Some newest \<Rightarrow> Some (se_edit newest))"

definition take_document_edit ::
  "save_setting \<Rightarrow> edit_request \<Rightarrow> stored_task \<Rightarrow> int \<Rightarrow> (edit_conflict + text_taken) option" where
  "take_document_edit env r stored now =
     Some (case apply_document_edit (patch_laid env) (st_text stored) r of
         Conflicted current \<Rightarrow> Inl \<lparr>ec_current = current, ec_by = conflict_writer stored r current\<rparr>
       | Applied t \<Rightarrow> Inr \<lparr>tk_text = t, tk_changes = 1, tk_journal = None,
           tk_anchors = map_option (\<lambda>a. \<lparr>ra_text = req_value r, ra_anchors = a\<rparr>) (req_comments r)\<rparr>)"

definition save_developer_edit ::
  "save_setting \<Rightarrow> string \<Rightarrow> edit_request \<Rightarrow> description_store \<Rightarrow>
    (edit_conflict locked_save \<times> description_store) option" where
  "save_developer_edit env user r s =
     map_option reached_store (saved_under_lock env user (Developer_Writer None) (take_document_edit env r) s)"

subsection \<open>The developer's restore\<close>

definition restore_taken :: "string \<Rightarrow> stored_task \<Rightarrow> int \<Rightarrow> (unit + text_taken) option" where
  "restore_taken t stored now =
     Some (Inr \<lparr>tk_text = t, tk_changes = length (changed_sections (st_text stored) t),
       tk_journal = None, tk_anchors = None\<rparr>)"

text \<open>
  \<open>restoreRevision\<close>, the revision read in the store as it stands before the lock is held,
  \<open>was\<close>, and taken in the one the lock holds.
\<close>

definition restore_revision ::
  "save_setting \<Rightarrow> string \<Rightarrow> nat \<Rightarrow> description_store \<Rightarrow> description_store \<Rightarrow>
    (unit locked_save \<times> description_store) option" where
  "restore_revision env user seq was s =
     (if failing env Reading then Some (reached_store (Inl Store_Failure, s))
      else case (case was of None \<Rightarrow> None
                 | Some row \<Rightarrow> read_revision_content (reached_reading env) (dt_revisions row) seq) of
        None \<Rightarrow> Some (Saved_Nothing No_Revision, s)
      | Some t \<Rightarrow> map_option reached_store
          (saved_under_lock env user (Developer_Writer (Some seq)) (restore_taken t) s))"

end
