(* ===== verification/Save_Properties.thy ===== *)
theory Save_Properties
  imports Description_Saves
begin

text \<open>
  What the description's one write keeps: its history and its text agree, what is not saved changes
  nothing, an edit is the edit taken, and a restore is undone by restoring the revision before it.
\<close>

subsection \<open>What a save leaves\<close>

definition saved_row ::
  "save_setting \<Rightarrow> string \<Rightarrow> description_writer \<Rightarrow> text_taken \<Rightarrow> described_task \<Rightarrow> described_task" where
  "saved_row env user w taken row =
     (let stored = stored_task_of env row; moved = (tk_text taken \<noteq> dt_text row);
          kept = (if moved then revision_kept env user w stored taken row else row);
          over = (if moved \<or> tk_anchors taken \<noteq> None then anchors_carried env stored taken kept else kept)
      in over\<lparr>dt_text := tk_text taken, dt_updated := at_saved env,
           dt_journal := (case tk_journal taken of None \<Rightarrow> dt_journal row | Some j \<Rightarrow> j)\<rparr>)"

definition steady :: "save_setting \<Rightarrow> bool" where
  "steady env \<longleftrightarrow> (reached_locking env \<longrightarrow> reached_saving env)"

definition working :: "save_setting \<Rightarrow> bool" where
  "working env \<longleftrightarrow> reached_reading env \<and> reached_locking env \<and> reached_saving env \<and> \<not> failing env Reading \<and>
     \<not> failing env Locking \<and> \<not> failing env Recording \<and> \<not> failing env Carrying \<and> \<not> failing env Saving \<and>
     \<not> failing env Committing"

fun is_saved :: "'f locked_save \<Rightarrow> bool" where
  "is_saved (Saved_As saved moved) \<longleftrightarrow> True"
| "is_saved r \<longleftrightarrow> False"

lemma stored_text [simp]: "st_text (stored_task_of env row) = dt_text row"
  by (simp add: stored_task_of_def)

lemma saved_text [simp]: "dt_text (saved_row env user w taken row) = tk_text taken"
  by (simp add: saved_row_def Let_def)

lemma saved_revisions:
  "dt_revisions (saved_row env user w taken row) =
     (if tk_text taken = dt_text row then dt_revisions row
      else dt_revisions (revision_kept env user w (stored_task_of env row) taken row))"
  by (simp add: saved_row_def Let_def anchors_carried_def)

lemma kept_journal [simp]:
  "dt_journal (revision_kept env user w stored taken row) = dt_journal row"
  "dt_journal (anchors_carried env stored taken row) = dt_journal row"
  by (simp_all add: revision_kept_def anchors_carried_def)

lemma taken_saved_runs:
  "steady env \<Longrightarrow> reached_locking env \<Longrightarrow>
   taken_saved env user w (stored_task_of env row) taken (Some row) =
     (if failing env Recording then (Inl Store_Failure, Some row)
      else if failing env Carrying
        then (Inl Store_Failure, snd (taken_saved env user w (stored_task_of env row) taken (Some row)))
      else if failing env Saving
        then (Inl Store_Failure, snd (taken_saved env user w (stored_task_of env row) taken (Some row)))
      else (Inr (Saved_As (stored_task_of env (saved_row env user w taken row)) (tk_text taken \<noteq> dt_text row)),
        Some (saved_row env user w taken row)))"
  by (auto simp: taken_saved_def stepped_def save_description_text_def reached_row_def saved_row_def Let_def
      steady_def cong: option.case_cong)

lemma taken_saved_works:
  "working env \<Longrightarrow>
   taken_saved env user w (stored_task_of env row) taken (Some row) =
     (Inr (Saved_As (stored_task_of env (saved_row env user w taken row)) (tk_text taken \<noteq> dt_text row)),
      Some (saved_row env user w taken row))"
  using taken_saved_runs [of env user w row taken] by (simp add: working_def steady_def)

text \<open>Every run of a save: it changes nothing, or the row is the row saved.\<close>

lemma locked_save_runs:
  assumes "saved_under_lock env user w change s = Some (r, s')" "steady env"
  shows "(s' = s \<and> (\<forall>a. r = Inr a \<longrightarrow> \<not> is_saved a)) \<or>
    (\<exists>row taken. s = Some row \<and> change (stored_task_of env row) (at_taken env) = Some (Inr taken) \<and>
       \<not> too_long (tk_text taken) \<and> s' = Some (saved_row env user w taken row) \<and>
       r = Inr (Saved_As (stored_task_of env (saved_row env user w taken row)) (tk_text taken \<noteq> dt_text row)))"
proof (cases "failing env Locking \<or> \<not> reached_locking env \<or> s = None")
  case True
  then show ?thesis using assms(1)
    by (auto simp: saved_under_lock_def reached_row_def with_transaction_def split: if_splits)
next
  case False
  then obtain row where reached: "\<not> failing env Locking" "reached_locking env" and s: "s = Some row"
    by auto
  then obtain outcome where change: "change (stored_task_of env row) (at_taken env) = Some outcome"
    using assms(1) by (auto simp: saved_under_lock_def reached_row_def Let_def)
  show ?thesis
  proof (cases "\<exists>taken. outcome = Inr taken \<and> \<not> too_long (tk_text taken)")
    case True
    then obtain taken where taken: "outcome = Inr taken" "\<not> too_long (tk_text taken)" by blast
    have run: "(r, s') = with_transaction env (taken_saved env user w (stored_task_of env row) taken) s"
      using assms(1) reached change taken by (simp add: saved_under_lock_def s reached_row_def Let_def)
    show ?thesis
      using run change taken unfolding s with_transaction_def
      by (subst (asm) (1) taken_saved_runs [OF assms(2) reached(2)]) (auto split: if_splits)
  next
    case False
    then show ?thesis using assms(1) reached change
      by (auto simp: saved_under_lock_def s reached_row_def Let_def with_transaction_def split: sum.splits if_splits)
  qed
qed

lemma locked_save_works:
  assumes "working env" "change (stored_task_of env row) (at_taken env) = Some (Inr taken)"
    "\<not> too_long (tk_text taken)"
  shows "saved_under_lock env user w change (Some row) =
    Some (Inr (Saved_As (stored_task_of env (saved_row env user w taken row)) (tk_text taken \<noteq> dt_text row)),
      Some (saved_row env user w taken row))"
  using assms(1) [unfolded working_def] assms(2,3)
  by (simp add: saved_under_lock_def reached_row_def Let_def with_transaction_def taken_saved_works [OF assms(1)])

subsection \<open>The history and the text\<close>

definition history_agrees :: "description_store \<Rightarrow> bool" where
  "history_agrees s = (case s of
     None \<Rightarrow> True
   | Some row \<Rightarrow> history_numbered (dt_revisions row) \<and>
       (dt_revisions row = [] \<or> rv_document (last (dt_revisions row)) = dt_text row))"

lemma saved_row_agrees:
  assumes "history_agrees (Some row)"
  shows "history_agrees (Some (saved_row env user w taken row))"
proof -
  have "history_numbered (dt_revisions row)" using assms by (simp add: history_agrees_def)
  from record_numbered [OF this] show ?thesis using assms
    by (simp add: history_agrees_def saved_revisions revision_kept_def)
qed

lemma locked_save_agrees:
  assumes "saved_under_lock env user w change s = Some (r, s')" "steady env" "history_agrees s"
  shows "history_agrees s'"
  using locked_save_runs [OF assms(1,2)] assms(3) saved_row_agrees by blast

datatype save_call =
  Notes_Call save_setting string "description_note list" description_writer
| Edit_Call save_setting string edit_request
| Restore_Call save_setting string nat description_store

fun saved_by :: "save_call \<Rightarrow> description_store \<Rightarrow> description_store option" where
  "saved_by (Notes_Call env user batch w) s = map_option snd (save_notes env user batch w s)"
| "saved_by (Edit_Call env user r) s = map_option snd (save_developer_edit env user r s)"
| "saved_by (Restore_Call env user seq was) s = map_option snd (restore_revision env user seq was s)"

fun saved_in_turn :: "save_call list \<Rightarrow> description_store \<Rightarrow> description_store option" where
  "saved_in_turn [] s = Some s"
| "saved_in_turn (c # cs) s = Option.bind (saved_by c s) (saved_in_turn cs)"

text \<open>A call whose account reaches the task at its save where it did at its lock, with notes the schema let through.\<close>

fun call_ok :: "save_call \<Rightarrow> bool" where
  "call_ok (Notes_Call env user batch w) \<longleftrightarrow> steady env \<and> list_all note_reads batch"
| "call_ok (Edit_Call env user r) \<longleftrightarrow> steady env"
| "call_ok (Restore_Call env user seq was) \<longleftrightarrow> steady env"

lemma reached_store_snd: "map_option snd (map_option reached_store x) = map_option snd x"
  by (cases x) (auto simp: reached_store_def split: prod.split sum.split)

lemma lock_returns:
  assumes "\<And>stored now. \<exists>y. change stored now = Some y"
  shows "\<exists>y. saved_under_lock env user w change s = Some y"
proof (cases "reached_row (reached_locking env) s")
  case None
  then show ?thesis by (simp add: saved_under_lock_def)
next
  case (Some row)
  then show ?thesis using assms [of "stored_task_of env row" "at_taken env"]
    by (auto simp: saved_under_lock_def Let_def)
qed

lemma reached_store_agrees:
  assumes "\<And>stored now. \<exists>y. change stored now = Some y" "steady env" "history_agrees s"
  shows "\<exists>s'. map_option snd (map_option reached_store (saved_under_lock env user w change s)) = Some s' \<and>
    history_agrees s'"
proof -
  obtain r s' where "saved_under_lock env user w change s = Some (r, s')"
    using lock_returns [where change = change and env = env and user = user and w = w and s = s, OF assms(1)] by (metis prod.exhaust)
  then show ?thesis using locked_save_agrees assms(2,3) unfolding reached_store_snd
    by (metis option.simps(9) snd_conv)
qed

lemma call_agrees:
  assumes "history_agrees s" "call_ok c"
  shows "\<exists>s'. saved_by c s = Some s' \<and> history_agrees s'"
proof (cases c)
  case (Notes_Call env user batch w)
  have "\<exists>y. notes_taken_in env w batch stored now = Some y" for stored now
    using order_returns [of batch] assms(2) Notes_Call by (fastforce simp: notes_taken_in_def apply_notes_to_text_def)
  from reached_store_agrees [OF this] show ?thesis using assms Notes_Call
    by (simp only: save_notes_def saved_by.simps call_ok.simps)
next
  case (Edit_Call env user r)
  have "\<exists>y. take_document_edit env r stored now = Some y" for stored now
    by (simp add: take_document_edit_def)
  from reached_store_agrees [OF this] show ?thesis using assms Edit_Call
    by (simp only: save_developer_edit_def saved_by.simps call_ok.simps)
next
  case (Restore_Call env user seq was)
  have "\<exists>y. restore_taken t stored now = Some y" for t stored now
    by (simp add: restore_taken_def)
  note runs = reached_store_agrees [OF this]
  show ?thesis
  proof (cases "failing env Reading \<or> (case was of None \<Rightarrow> None
      | Some row \<Rightarrow> read_revision_content (reached_reading env) (dt_revisions row) seq) = None")
    case True
    then show ?thesis using assms(1) Restore_Call
      by (auto simp: restore_revision_def reached_store_def)
  next
    case False
    then show ?thesis using assms runs Restore_Call
      by (auto simp: restore_revision_def simp del: option.map_comp)
  qed
qed

text \<open>
  C12: Over any run of notes, edits and restores, each returning, whatever fails on the way and whatever
  the clocks say, the description and its history agree: its revisions are numbered from one on with none skipped,
  and the newest holds the text as it stands. Each save is taken to reach the task at its write where
  it reached it at its lock.
\<close>

theorem saves_keep_history:
  "history_agrees s \<Longrightarrow> list_all call_ok calls \<Longrightarrow> \<exists>s'. saved_in_turn calls s = Some s' \<and> history_agrees s'"
proof (induction calls arbitrary: s)
  case (Cons c calls)
  then obtain s' where "saved_by c s = Some s'" "history_agrees s'" using call_agrees by force
  then show ?case using Cons by simp
qed simp

definition calm :: save_setting where
  "calm = \<lparr>at_taken = 90, at_recorded = 91, at_carried = 92, at_saved = 93, reached_reading = True,
     reached_locking = True, reached_saving = True, failing = \<lambda>_. False, row_names = no_names,
     agent_labels = \<lambda>_. None, mentions_in = \<lambda>_. [], pictures_in = \<lambda>_. [],
     diffs_in = \<lparr>lines_read = \<lambda>_ _. [], words_read = \<lambda>_ _. None, chars_read = \<lambda>_ _. None\<rparr>,
     patch_laid = \<lambda>_ _ _. None\<rparr>"

lemma calm_works: "working calm" "steady calm"
  by (simp_all add: working_def steady_def calm_def)

definition two_revisions :: described_task where
  "two_revisions = \<lparr>dt_text = ''b'', dt_created = 0, dt_updated = 50, dt_journal = [],
     dt_revisions = [new_revision (a_save Notetaker_Writer ''x'' ''a'') 1 40,
       new_revision (a_save (Developer_Writer None) ''a'' ''b'') 2 50],
     dt_threads = []\<rparr>"

lemma two_revisions_agree: "history_agrees (Some two_revisions)"
  by (simp add: history_agrees_def two_revisions_def history_numbered_def a_save_def)

theorem saves_keep_history_witness:
  "list_all call_ok [Edit_Call calm ''ada'' \<lparr>req_base = ''b'', req_value = ''c'', req_comments = None\<rparr>,
     Notes_Call calm ''ada'' [Replace ''b'' ''d''] (Agent_Writer ''k''), Restore_Call calm ''ada'' 1 (Some two_revisions)] \<and>
   (\<exists>s'. saved_in_turn [Edit_Call calm ''ada'' \<lparr>req_base = ''b'', req_value = ''c'', req_comments = None\<rparr>,
     Notes_Call calm ''ada'' [Replace ''b'' ''d''] (Agent_Writer ''k''), Restore_Call calm ''ada'' 1 (Some two_revisions)]
     (Some two_revisions) = Some s' \<and> history_agrees s')"
proof -
  have "list_all call_ok [Edit_Call calm ''ada'' \<lparr>req_base = ''b'', req_value = ''c'', req_comments = None\<rparr>,
     Notes_Call calm ''ada'' [Replace ''b'' ''d''] (Agent_Writer ''k''), Restore_Call calm ''ada'' 1 (Some two_revisions)]"
    by (simp add: calm_works trimmed_def trim_def trim_end_def white_def too_long_def max_body_chars_def)
  then show ?thesis using saves_keep_history [OF two_revisions_agree] by blast
qed

subsection \<open>What is not saved\<close>

lemma taken_answers:
  "taken_saved env user w stored taken s = (Inr x, s') \<Longrightarrow> is_saved x \<or> x = Saved_Nothing No_Task"
  by (auto simp: taken_saved_def stepped_def Let_def split: if_splits sum.splits option.splits prod.splits)

text \<open>What answers anything but saved changed nothing, but for a task that was there as it was locked and gone as it was written.\<close>

lemma unsaved_lock:
  assumes "saved_under_lock env user w change s = Some (r, s')" "\<forall>x. r = Inr x \<longrightarrow> \<not> is_saved x"
    "r = Inr (Saved_Nothing No_Task) \<longrightarrow> steady env"
  shows "s' = s"
proof (cases "steady env")
  case True
  then show ?thesis using locked_save_runs [OF assms(1)] assms(2) by fastforce
next
  case False
  then have other: "r \<noteq> Inr (Saved_Nothing No_Task)" using assms(3) by blast
  have undone: "s1 = s" if "with_transaction env run s = (r, s1)" "\<And>x s2. run s = (Inr x, s2) \<Longrightarrow> is_saved x \<or> x = Saved_Nothing No_Task \<or> s2 = s"
    for run s1
    using that assms(2) other by (auto simp: with_transaction_def split: prod.splits sum.splits if_splits)
  consider "failing env Locking" | "\<not> failing env Locking" "reached_row (reached_locking env) s = None"
    | row where "\<not> failing env Locking" "reached_row (reached_locking env) s = Some row"
    by (cases "reached_row (reached_locking env) s") auto
  then show ?thesis
  proof cases
    case 1
    then show ?thesis using assms(1) by (simp add: saved_under_lock_def)
  next
    case 2
    then have "with_transaction env (\<lambda>s. (Inr (Saved_Nothing No_Task), s)) s = (r, s')"
      using assms(1) by (simp add: saved_under_lock_def)
    then show ?thesis by (rule undone) simp
  next
    case (3 row)
    let ?run = "\<lambda>outcome s. case outcome of Inl refused \<Rightarrow> (Inr (Refused refused), s)
      | Inr taken \<Rightarrow> if too_long (tk_text taken) then (Inr (Saved_Nothing Too_Long_Text), s)
          else taken_saved env user w (stored_task_of env row) taken s"
    obtain outcome where "with_transaction env (?run outcome) s = (r, s')"
      using assms(1) 3 by (auto simp: saved_under_lock_def Let_def)
    then show ?thesis
      by (rule undone) (auto dest: taken_answers split: sum.splits if_splits)
  qed
qed

lemma unsaved_run:
  "\<lbrakk>map_option reached_store (saved_under_lock env user v change s) = Some (x, s'); \<not> is_saved x;
    x = Saved_Nothing No_Task \<longrightarrow> steady env\<rbrakk> \<Longrightarrow> s' = s"
  using unsaved_lock [of env user v change s] by (fastforce simp: reached_store_def split: sum.splits)

lemma unsaved_restore:
  "\<lbrakk>restore_revision env user seq was s = Some (c, s'); \<not> is_saved c; c = Saved_Nothing No_Task \<longrightarrow> steady env\<rbrakk>
   \<Longrightarrow> s' = s"
  using unsaved_run [of env user "Developer_Writer (Some seq)" _ s c s']
  by (auto simp: restore_revision_def reached_store_def [of "(Inl _, _)"]
      simp del: map_option_eq_Some split: if_splits option.splits)

text \<open>
  C14: Notes, an edit or a restore that answers anything but saved, a conflict, a text too long, a
  revision that never was, a store out of reach or a task that is gone, leaves the task exactly as it stood: its text, its
  history, its threads' anchors and the agents' journal, wherever in the save it came to nothing; but for one
  that answers that the task is gone where the account reached it as the row was locked and no longer as it was written.
\<close>

theorem unsaved_changes_nothing:
  "(save_notes env user batch w s = Some (a, s') \<longrightarrow> \<not> is_saved a \<longrightarrow>
      (a = Saved_Nothing No_Task \<longrightarrow> steady env) \<longrightarrow> s' = s) \<and>
   (save_developer_edit env user r s = Some (b, s') \<longrightarrow> \<not> is_saved b \<longrightarrow>
      (b = Saved_Nothing No_Task \<longrightarrow> steady env) \<longrightarrow> s' = s) \<and>
   (restore_revision env user seq was s = Some (c, s') \<longrightarrow> \<not> is_saved c \<longrightarrow>
      (c = Saved_Nothing No_Task \<longrightarrow> steady env) \<longrightarrow> s' = s)"
  unfolding save_notes_def save_developer_edit_def
  by (intro conjI impI) (erule (2) unsaved_run unsaved_restore)+

theorem unsaved_changes_nothing_witness:
  "save_developer_edit (calm\<lparr>failing := (\<lambda>p. p = Saving)\<rparr>) ''ada''
     \<lparr>req_base = ''b'', req_value = ''c'', req_comments = None\<rparr> (Some two_revisions) =
   Some (Saved_Nothing Unavailable, Some two_revisions)"
proof -
  let ?env = "calm\<lparr>failing := (\<lambda>p. p = Saving)\<rparr>"
  let ?r = "\<lparr>req_base = ''b'', req_value = ''c'', req_comments = None\<rparr>"
  have "\<exists>s'. save_developer_edit ?env ''ada'' ?r (Some two_revisions) = Some (Saved_Nothing Unavailable, s')"
    by (simp add: save_developer_edit_def saved_under_lock_def take_document_edit_def apply_document_edit_def
      two_revisions_def calm_def reached_row_def with_transaction_def taken_saved_def stepped_def
      save_description_text_def reached_store_def too_long_def max_body_chars_def Let_def)
  then show ?thesis using unsaved_changes_nothing [where env = ?env and r = ?r] by fastforce
qed

text \<open>
  The row's lock holds the row and not the account's membership, which a transaction of another's may
  end between the lock and the write. The write then finds no task, and the save answers that there is none, with
  what was written before it in the same transaction left standing and committed.
\<close>

text \<open>
  C33: Where the account stops reaching the task between the lock and the write, a developer's edit answers
  that the task no longer exists and leaves the text as it stood, yet commits the revision it had recorded: the
  description's history then ends in a text the description never held.
\<close>

theorem lost_reach_leaves_a_revision:
  assumes "working env" "history_agrees (Some row)"
    "apply_document_edit (patch_laid env) (dt_text row) r = Applied t" "t \<noteq> dt_text row" "\<not> too_long t"
  shows "\<exists>row'. save_developer_edit (env\<lparr>reached_saving := False\<rparr>) user r (Some row) =
      Some (Saved_Nothing No_Task, Some row') \<and>
    dt_text row' = dt_text row \<and> rv_document (last (dt_revisions row')) = t \<and> \<not> history_agrees (Some row')"
proof -
  let ?env = "env\<lparr>reached_saving := False\<rparr>"
  define stored where "stored = stored_task_of ?env row"
  define taken where "taken = \<lparr>tk_text = t, tk_changes = 1, tk_journal = None,
    tk_anchors = map_option (\<lambda>a. \<lparr>ra_text = req_value r, ra_anchors = a\<rparr>) (req_comments r)\<rparr>"
  let ?row = "anchors_carried ?env stored taken (revision_kept ?env user (Developer_Writer None) stored taken row)"
  have "st_text stored = dt_text row" by (simp add: stored_def)
  then have run: "save_developer_edit ?env user r (Some row) = Some (Saved_Nothing No_Task, Some ?row)"
    using assms by (simp add: save_developer_edit_def saved_under_lock_def working_def reached_row_def Let_def
      take_document_edit_def with_transaction_def taken_saved_def stepped_def save_description_text_def
      reached_store_def stored_def taken_def)
  have rows: "dt_revisions ?row = dt_revisions (revision_kept ?env user (Developer_Writer None) stored taken row)"
    by (simp add: anchors_carried_def)
  have "history_numbered (dt_revisions row)" using assms(2) by (simp add: history_agrees_def)
  from record_numbered [OF this] have "dt_revisions ?row \<noteq> []" "rv_document (last (dt_revisions ?row)) = t"
    unfolding rows by (simp_all add: revision_kept_def taken_def)
  moreover have "dt_text ?row = dt_text row" by (simp add: anchors_carried_def revision_kept_def)
  ultimately show ?thesis using run assms(4)
    by (intro exI [of _ ?row]) (simp add: history_agrees_def)
qed

theorem lost_reach_leaves_a_revision_witness:
  "\<exists>row'. save_developer_edit (calm\<lparr>reached_saving := False\<rparr>) ''ada''
      \<lparr>req_base = ''b'', req_value = ''c'', req_comments = None\<rparr> (Some two_revisions) =
      Some (Saved_Nothing No_Task, Some row') \<and>
    dt_text row' = ''b'' \<and> rv_document (last (dt_revisions row')) = ''c'' \<and> \<not> history_agrees (Some row')"
proof -
  have "apply_document_edit (patch_laid calm) (dt_text two_revisions)
      \<lparr>req_base = ''b'', req_value = ''c'', req_comments = None\<rparr> = Applied ''c''"
    by (simp add: apply_document_edit_def two_revisions_def)
  from lost_reach_leaves_a_revision [OF calm_works(1) two_revisions_agree this, of "''ada''"]
  show ?thesis by (simp add: two_revisions_def too_long_def max_body_chars_def)
qed

subsection \<open>The edit saved\<close>

text \<open>
  C13: With its store in reach, the service's save of a developer's edit is the edit taken into the text as it
  stands: the conflict it is answered with is the one the edit meets there, naming the text and who wrote it, with nothing
  saved; the text it is saved as is the edit applied, told moved where it differs; one past the bound is refused,
  with nothing saved.
\<close>

theorem edit_save_is_the_edit_taken:
  assumes "working env"
  shows "\<exists>answer row'. save_developer_edit env user r (Some row) = Some (answer, Some row') \<and>
    (case apply_document_edit (patch_laid env) (dt_text row) r of
       Conflicted current \<Rightarrow>
         answer = Refused \<lparr>ec_current = current, ec_by = conflict_writer (stored_task_of env row) r current\<rparr> \<and>
         row' = row
     | Applied t \<Rightarrow>
         if too_long t then answer = Saved_Nothing Too_Long_Text \<and> row' = row
         else \<exists>saved. answer = Saved_As saved (t \<noteq> dt_text row) \<and> st_text saved = t \<and> dt_text row' = t)"
proof (cases "apply_document_edit (patch_laid env) (dt_text row) r")
  case (Applied t)
  then show ?thesis
  proof (cases "too_long t")
    case True
    then show ?thesis using Applied assms
      by (simp add: save_developer_edit_def saved_under_lock_def working_def reached_row_def Let_def
        take_document_edit_def with_transaction_def reached_store_def)
  next
    case False
    let ?taken = "\<lparr>tk_text = t, tk_changes = 1, tk_journal = None,
      tk_anchors = map_option (\<lambda>a. \<lparr>ra_text = req_value r, ra_anchors = a\<rparr>) (req_comments r)\<rparr>"
    have "take_document_edit env r (stored_task_of env row) (at_taken env) = Some (Inr ?taken)"
      using Applied by (simp add: take_document_edit_def)
    from locked_save_works [where change = "take_document_edit env r" and taken = ?taken, OF assms this, of user "Developer_Writer None"] show ?thesis
      using Applied False by (simp add: save_developer_edit_def reached_store_def)
  qed
next
  case (Conflicted current)
  then show ?thesis using assms
    by (simp add: save_developer_edit_def saved_under_lock_def working_def reached_row_def Let_def
      take_document_edit_def with_transaction_def reached_store_def)
qed

theorem edit_save_is_the_edit_taken_witness:
  "\<exists>saved row'. save_developer_edit calm ''ada'' \<lparr>req_base = ''b'', req_value = ''c'', req_comments = None\<rparr>
     (Some two_revisions) = Some (Saved_As saved True, Some row') \<and> dt_text row' = ''c''"
  using edit_save_is_the_edit_taken [OF calm_works(1),
    of "''ada''" "\<lparr>req_base = ''b'', req_value = ''c'', req_comments = None\<rparr>" two_revisions]
  by (auto simp: apply_document_edit_def two_revisions_def too_long_def max_body_chars_def)

end
