(* ===== verification/Restore_Properties.thy ===== *)
theory Restore_Properties
  imports Save_Properties
begin

text \<open>
  Whom a save names, and what undoes a restore.
\<close>

subsection \<open>A restore undone\<close>

lemma restore_apart:
  assumes "history_numbered rows" "rows \<noteq> []" "restored_of (save_writer rec) \<noteq> None"
  shows "record_revision rec now rows = rows @ [new_revision rec (length rows + 1) now]"
proof -
  obtain rows' r where "rows = rows' @ [r]" using assms(2) by (cases rows rule: rev_cases) auto
  then show ?thesis using assms restore_joins_nothing [of rec r now] by (simp add: record_apart)
qed

lemma content_numbered:
  "history_numbered rows \<Longrightarrow> 1 \<le> n \<Longrightarrow> n \<le> length rows \<Longrightarrow>
   read_revision_content True rows n = Some (rv_document (rows ! (n - 1)))"
  by (simp add: read_revision_content_def numbered_found)

lemma reached_saved: "reached_store r = (Saved_As saved moved, s) \<Longrightarrow> r = (Inr (Saved_As saved moved), s)"
  by (cases r; cases "fst r") (auto simp: reached_store_def)

text \<open>A restore that changed the text, read off its answer.\<close>

lemma restore_saved:
  assumes "restore_revision env user seq was s = Some (Saved_As saved moved, s')" "steady env"
  shows "\<exists>row taken. s = Some row \<and> \<not> too_long (tk_text taken) \<and> moved = (tk_text taken \<noteq> dt_text row) \<and>
    s' = Some (saved_row env user (Developer_Writer (Some seq)) taken row)"
proof -
  obtain t where "map_option reached_store
      (saved_under_lock env user (Developer_Writer (Some seq)) (restore_taken t) s) = Some (Saved_As saved moved, s')"
    using assms(1)
    by (auto simp: restore_revision_def reached_store_def [of "(Inl _, _)"]
        simp del: map_option_eq_Some split: if_splits option.splits)
  then have "saved_under_lock env user (Developer_Writer (Some seq)) (restore_taken t) s =
      Some (Inr (Saved_As saved moved), s')"
    using reached_saved by fastforce
  from locked_save_runs [OF this assms(2)] show ?thesis by auto
qed

lemma restore_works:
  assumes "working env" "read_revision_content True (dt_revisions row) seq = Some t" "\<not> too_long t"
  shows "\<exists>saved row'. restore_revision env user seq (Some row) (Some row) =
    Some (Saved_As saved (t \<noteq> dt_text row), Some row') \<and> dt_text row' = t"
proof -
  let ?taken = "\<lparr>tk_text = t, tk_changes = length (changed_sections (dt_text row) t), tk_journal = None, tk_anchors = None\<rparr>"
  have "restore_taken t (stored_task_of env row) (at_taken env) = Some (Inr ?taken)"
    by (simp add: restore_taken_def)
  from locked_save_works [where change = "restore_taken t" and taken = ?taken, OF assms(1) this,
      of user "Developer_Writer (Some seq)"]
  show ?thesis using assms by (simp add: restore_revision_def working_def reached_store_def)
qed

text \<open>
  C15: A restore is undone by restoring the revision before it: where a restore moved the text of a
  description with a history, restoring the revision under the newest brings back the very text the restore
  replaced, and is itself saved as a change.
\<close>

theorem restore_is_undone:
  assumes "history_agrees (Some row)" "dt_revisions row \<noteq> []" "steady env" "working env'"
    "restore_revision env user seq was (Some row) = Some (Saved_As saved True, Some row')"
    "\<not> too_long (dt_text row)"
  shows "\<exists>saved' row''. restore_revision env' user' (length (dt_revisions row') - 1) (Some row') (Some row') =
    Some (Saved_As saved' True, Some row'') \<and> dt_text row'' = dt_text row"
proof -
  let ?rows = "dt_revisions row" and ?w = "Developer_Writer (Some seq)"
  obtain taken where taken: "tk_text taken \<noteq> dt_text row" "row' = saved_row env user ?w taken row"
    using restore_saved [OF assms(5,3)] by auto
  have numbered: "history_numbered ?rows" and newest: "rv_document (last ?rows) = dt_text row"
    using assms(1,2) by (simp_all add: history_agrees_def)
  obtain r where rows': "dt_revisions row' = ?rows @ [r]"
    using restore_apart [OF numbered assms(2)] taken by (simp add: saved_revisions revision_kept_def)
  have "history_numbered (dt_revisions row')"
    using saved_row_agrees [OF assms(1)] taken(2) by (simp add: history_agrees_def)
  from content_numbered [OF this, of "length ?rows"]
  have "read_revision_content True (dt_revisions row') (length ?rows) = Some (dt_text row)"
    using assms(2) newest by (simp add: rows' nth_append last_conv_nth Suc_le_eq)
  moreover have "dt_text row \<noteq> dt_text row'" using taken by simp
  moreover have "length (dt_revisions row') - 1 = length ?rows" unfolding rows' by simp
  ultimately show ?thesis using restore_works [OF assms(4) _ assms(6), of row' "length ?rows" user'] by simp
qed

theorem restore_is_undone_witness:
  "\<exists>saved row' saved' row''.
     restore_revision calm ''ada'' 1 (Some two_revisions) (Some two_revisions) = Some (Saved_As saved True, Some row') \<and>
     dt_text row' = ''a'' \<and>
     restore_revision calm ''ada'' (length (dt_revisions row') - 1) (Some row') (Some row') =
       Some (Saved_As saved' True, Some row'') \<and> dt_text row'' = ''b''"
proof -
  have "read_revision_content True (dt_revisions two_revisions) 1 = Some ''a''"
    by (simp add: read_revision_content_def two_revisions_def a_save_def)
  from restore_works [OF calm_works(1) this, of "''ada''"] obtain saved row' where
    first: "restore_revision calm ''ada'' 1 (Some two_revisions) (Some two_revisions) = Some (Saved_As saved True, Some row')"
    "dt_text row' = ''a''"
    by (auto simp: two_revisions_def too_long_def max_body_chars_def)
  have "dt_revisions two_revisions \<noteq> []" "\<not> too_long (dt_text two_revisions)" "dt_text two_revisions = ''b''"
    by (simp_all add: two_revisions_def too_long_def max_body_chars_def)
  with restore_is_undone [OF two_revisions_agree this(1) calm_works(2,1) first(1) this(2), of "''ada''"] first
  show ?thesis by fastforce
qed

subsection \<open>Whom a save names\<close>

lemma record_newest_who:
  assumes "history_numbered rows"
  shows "rv_actor (last (record_revision rec now rows)) = actor_of (save_writer rec) \<and>
    rv_user (last (record_revision rec now rows)) = member_of rec \<and>
    rv_agent (last (record_revision rec now rows)) = agent_of (save_writer rec) \<and>
    rv_at (last (record_revision rec now rows)) = now"
proof (cases rows rule: rev_cases)
  case Nil
  then show ?thesis by (cases "saved_before rec") (simp_all add: record_first new_revision_def)
next
  case (snoc rows' r)
  then show ?thesis using assms
    by (cases "joins_newest r rec now") (simp_all add: record_joined record_apart new_revision_def joins_newest_def)
qed

definition named_as :: "save_setting \<Rightarrow> string \<Rightarrow> description_writer \<Rightarrow> last_edit \<Rightarrow> bool" where
  "named_as env user w e \<longleftrightarrow>
     edit_actor e = actor_of w \<and> edit_agent e = agent_of w \<and> edit_at e = at_recorded env \<and>
     edit_by e = (if actor_of w = Agent then None
       else map_option (\<lambda>n. \<lparr>user_id = user, member_name = n\<rparr>) (account_name (row_names env) user))"

text \<open>
  C22: A save that moved the text answers with its own writer as the description's last edit, whether it began
  a revision, was the first to begin a history, or joined the one before it: the actor, the agent where an agent wrote, the
  member by id and name where a member did, and the time it was recorded.
\<close>

theorem save_names_its_writer:
  assumes "history_agrees (Some row)" "steady env"
    "saved_under_lock env user w change (Some row) = Some (Inr (Saved_As saved True), s')"
  shows "\<exists>e. st_last_edit saved = Some e \<and> named_as env user w e"
proof -
  obtain taken where taken: "tk_text taken \<noteq> dt_text row" "saved = stored_task_of env (saved_row env user w taken row)"
    using locked_save_runs [OF assms(3,2)] by auto
  let ?rows = "dt_revisions (saved_row env user w taken row)"
  have rows: "history_numbered (dt_revisions row)" using assms(1) by (simp add: history_agrees_def)
  note newest = record_newest_who [OF rows]
  have kept: "history_numbered ?rows \<and> ?rows \<noteq> []"
    using record_numbered [OF rows] taken(1) by (simp add: saved_revisions revision_kept_def)
  then have "st_last_edit saved = Some (last_edit_of (row_names env) (last ?rows))"
    by (simp add: taken(2) stored_task_of_def read_last_edit_def numbered_newest)
  moreover have "named_as env user w (last_edit_of (row_names env) (last ?rows))"
    using newest taken(1)
    by (simp add: named_as_def last_edit_of_def editor_of_def saved_revisions revision_kept_def member_of_def)
  ultimately show ?thesis by blast
qed

theorem save_names_its_writer_witness:
  "\<exists>saved s' e. saved_under_lock calm ''ada'' (Agent_Writer ''k'') (restore_taken ''c'') (Some two_revisions) =
       Some (Inr (Saved_As saved True) :: store_failure + unit locked_save, s') \<and>
     st_last_edit saved = Some e \<and> edit_actor e = Agent \<and> edit_agent e = Some ''k'' \<and> edit_at e = 91"
proof -
  let ?taken = "\<lparr>tk_text = ''c'', tk_changes = length (changed_sections ''b'' ''c''), tk_journal = None, tk_anchors = None\<rparr>"
  have "restore_taken ''c'' (stored_task_of calm two_revisions) (at_taken calm) = Some (Inr ?taken)"
    by (simp add: restore_taken_def two_revisions_def)
  from locked_save_works [where change = "restore_taken ''c''" and taken = ?taken, OF calm_works(1) this,
      of "''ada''" "Agent_Writer ''k''"]
  have run: "saved_under_lock calm ''ada'' (Agent_Writer ''k'') (restore_taken ''c'') (Some two_revisions) =
    Some (Inr (Saved_As (stored_task_of calm (saved_row calm ''ada'' (Agent_Writer ''k'') ?taken two_revisions)) True),
      Some (saved_row calm ''ada'' (Agent_Writer ''k'') ?taken two_revisions))"
    by (simp add: too_long_def max_body_chars_def two_revisions_def)
  from save_names_its_writer [OF two_revisions_agree calm_works(2) this] show ?thesis
    using run by (auto simp: named_as_def calm_def)
qed

subsection \<open>Whom a conflict names\<close>

lemma later_edits:
  "\<exists>e. fold later_edit es (Some l) = Some e \<and> (e = l \<or> e \<in> set es) \<and>
     edit_at (se_edit l) \<le> edit_at (se_edit e) \<and> (\<forall>e'\<in>set es. edit_at (se_edit e') \<le> edit_at (se_edit e))"
proof (induction es arbitrary: l)
  case (Cons e es)
  show ?case using Cons.IH [of e] Cons.IH [of l] by (force simp: later_edit_def)
qed simp

text \<open>
  A conflict names who wrote what the edit met: where the text since the edit's base and the edit both changed
  sections some writer is named for, the conflict carries the text as it stands and, of those writers, one whose change is
  the newest.
\<close>

theorem conflict_names_the_newest:
  assumes "working env" "apply_document_edit (patch_laid env) (dt_text row) r = Conflicted current"
    "contested_edits (stored_task_of env row) r current \<noteq> []"
  shows "\<exists>e \<in> set (contested_edits (stored_task_of env row) r current).
    save_developer_edit env user r (Some row) =
      Some (Refused \<lparr>ec_current = current, ec_by = Some (se_edit e)\<rparr>, Some row) \<and>
    (\<forall>e' \<in> set (contested_edits (stored_task_of env row) r current). edit_at (se_edit e') \<le> edit_at (se_edit e))"
proof -
  obtain l es where es: "contested_edits (stored_task_of env row) r current = l # es"
    using assms(3) by (cases "contested_edits (stored_task_of env row) r current") auto
  obtain e where e: "fold later_edit es (Some l) = Some e" "e \<in> set (l # es)"
    "\<forall>e'\<in>set (l # es). edit_at (se_edit e') \<le> edit_at (se_edit e)"
    using later_edits [of es l] by auto
  have "conflict_writer (stored_task_of env row) r current = Some (se_edit e)"
    using e(1) es by (simp add: conflict_writer_def later_edit_def)
  then have "save_developer_edit env user r (Some row) =
      Some (Refused \<lparr>ec_current = current, ec_by = Some (se_edit e)\<rparr>, Some row)"
    using assms(1,2) by (simp add: save_developer_edit_def saved_under_lock_def working_def reached_row_def Let_def
      take_document_edit_def with_transaction_def reached_store_def)
  then show ?thesis using e unfolding es by blast
qed

theorem conflict_names_the_newest_witness:
  "\<exists>e :: section_edit. save_developer_edit calm ''ada'' \<lparr>req_base = ''a'', req_value = ''c'', req_comments = None\<rparr> (Some two_revisions) =
      Some (Refused \<lparr>ec_current = ''b'', ec_by = Some (se_edit e)\<rparr>, Some two_revisions)"
proof -
  have contested: "contested_edits (stored_task_of calm two_revisions)
      \<lparr>req_base = ''a'', req_value = ''c'', req_comments = None\<rparr> ''b'' \<noteq> []"
    by code_simp
  have "apply_document_edit (patch_laid calm) (dt_text two_revisions)
      \<lparr>req_base = ''a'', req_value = ''c'', req_comments = None\<rparr> = Conflicted ''b''"
    by (simp add: apply_document_edit_def rebased_def two_revisions_def calm_def)
  from conflict_names_the_newest [OF calm_works(1) this contested, of "''ada''"] show ?thesis by blast
qed

end
