(* ===== verification/Account_Stored.thy ===== *)
theory Account_Stored
  imports Prelude
begin

text \<open>
  The account a Mac keeps and what its service answers: \<open>credentials/src/account/client.ts\<close>,
  \<open>snapshot.ts\<close>, and the pure functions of \<open>session-manager.ts\<close>.
\<close>

subsection \<open>The account kept, and the account shown\<close>

datatype account_provider = Google | Github

record account_tokens =
  access_token :: string
  refresh_token :: string

record account_identity =
  ai_id :: "string option"
  ai_email :: string
  ai_name :: "string option"
  ai_picture :: "string option"
  ai_provider :: account_provider

record stored_account =
  sa_identity :: account_identity
  sa_tokens :: account_tokens
  sa_session :: "string option"

datatype account_snapshot =
  Signed_Out
| Signing_In
| Signed_In account_identity

text \<open>\<open>SettingsStore.accountSnapshot\<close>.\<close>

definition snapshot_of :: "stored_account option \<Rightarrow> account_snapshot" where
  "snapshot_of stored = (case stored of None \<Rightarrow> Signed_Out | Some a \<Rightarrow> Signed_In (sa_identity a))"

definition is_signed_in :: "account_snapshot \<Rightarrow> bool" where
  "is_signed_in a = (case a of Signed_In i \<Rightarrow> True | _ \<Rightarrow> False)"

subsection \<open>How a call on the service fails\<close>

text \<open>An answer that refused, with its status, its OAuth code and its words; or no answer at all.\<close>

datatype client_failure =
  Answered "nat option" "string option" string
| Unreached string

fun failure_message :: "client_failure \<Rightarrow> string" where
  "failure_message (Answered status code words) = words"
| "failure_message (Unreached words) = words"

datatype failure_action = Keep_Account | Sign_Out_Account

fun account_failure_action :: "client_failure \<Rightarrow> failure_action" where
  "account_failure_action (Answered status code words) =
     (if code = Some ''invalid_grant'' then Sign_Out_Account else Keep_Account)"
| "account_failure_action (Unreached words) = Keep_Account"

fun access_token_needs_refresh :: "client_failure \<Rightarrow> bool" where
  "access_token_needs_refresh (Answered status code words) \<longleftrightarrow> status = Some 401 \<or> code = Some ''invalid_scope''"
| "access_token_needs_refresh (Unreached words) \<longleftrightarrow> False"

subsection \<open>Whose an identity is\<close>

definition same_account_of :: "stored_account \<Rightarrow> string option \<Rightarrow> string \<Rightarrow> bool" where
  "same_account_of stored i email =
     (if ai_id (sa_identity stored) \<noteq> None \<and> i \<noteq> None then ai_id (sa_identity stored) = i
      else ai_email (sa_identity stored) = email)"

definition same_identity :: "stored_account \<Rightarrow> account_identity \<Rightarrow> bool" where
  "same_identity stored i \<longleftrightarrow>
     (ai_id i = None \<or> ai_id i = ai_id (sa_identity stored)) \<and>
     ai_email i = ai_email (sa_identity stored) \<and> ai_name i = ai_name (sa_identity stored) \<and>
     ai_picture i = ai_picture (sa_identity stored) \<and> ai_provider i = ai_provider (sa_identity stored)"

text \<open>A session held, an empty one none.\<close>

definition session_held :: "stored_account \<Rightarrow> string option" where
  "session_held stored = (if sa_session stored = Some [] then None else sa_session stored)"

text \<open>The tokens and the session kept, under the identity as it is answered.\<close>

definition merged_identity :: "stored_account \<Rightarrow> account_identity \<Rightarrow> stored_account" where
  "merged_identity stored i = \<lparr>sa_identity = i, sa_tokens = sa_tokens stored, sa_session = session_held stored\<rparr>"

definition with_tokens :: "stored_account \<Rightarrow> account_tokens \<Rightarrow> stored_account" where
  "with_tokens stored t = stored\<lparr>sa_tokens := t\<rparr>"

text \<open>A signed-in account with a session taken in, named by the session's id.\<close>

definition with_session :: "stored_account \<Rightarrow> string \<Rightarrow> string \<Rightarrow> stored_account" where
  "with_session stored uid token =
     stored\<lparr>sa_identity := (sa_identity stored)\<lparr>ai_id := Some uid\<rparr>, sa_session := Some token\<rparr>"

end
