(* ===== verification/Account_Session.thy ===== *)
theory Account_Session
  imports Account_Stored
begin

text \<open>
  The session of the account signed in on a Mac: \<open>credentials/src/account/session-manager.ts\<close>, with
  \<open>singleFlightEffect\<close> (\<open>runtime/src/effect/single-flight.ts\<close>) and \<open>withIssuedAccountTokens\<close>
  (\<open>credentials/src/account/client.ts\<close>).

  The manager's fields are the state; an act of the window is a function of it, and an operation that
  waits is a fiber, a place between two of its awaits with what it holds there. The service's answers, the store's
  writes landing, the browser's redirect and the capabilities' stop are the labels of the steps, so a run is any order of
  them. The settings store lands its writes one after another in the order they were asked
  (\<open>host/src/settings-store.ts\<close>, \<open>#mutate\<close>) and answers a read from what has landed. The consent
  trip's listener is a parameter of the manager: here it says a reason, or hands over a code once, and
  nothing after it was canceled.
\<close>

subsection \<open>The fibers\<close>

datatype trip_outcome =
  Grant
| Withdrawn
| Said string

datatype out_at =
  Out_Reading
| Out_Clearing "stored_account option" bool bool
| Out_Revoking "stored_account option"
| Out_Ending
| Out_Dying

datatype delete_at =
  Del_Reading
| Del_Asked stored_account
| Del_Granting nat stored_account
| Del_Storing nat stored_account bool
| Del_Again stored_account

datatype refresh_at =
  Ref_Reading
| Ref_Asked nat stored_account
| Ref_Storing nat bool
| Ref_Renewing nat
| Ref_Waiting nat

datatype renew_at =
  Ren_Reading
| Ren_Granting nat stored_account
| Ren_Storing nat stored_account bool
| Ren_Asked nat stored_account
| Ren_Merging nat bool

text \<open>A trip of a sign-in; the flag of its fiber says whether it is one taken again over a session that stands.\<close>

datatype trip_at =
  Trip_Open bool
| Trip_Issuing
| Trip_Identifying account_tokens
| Trip_Reading account_tokens account_identity
| Trip_Storing nat account_tokens "stored_account option" bool
| Trip_Replacing nat account_tokens
| Trip_Starting nat account_tokens
| Trip_Unwinding account_tokens trip_outcome
| Trip_Continuing
| Trip_Paging nat
| Trip_Settling trip_outcome

datatype session_at =
  Sess_Open bool bool
| Sess_Exchanging
| Sess_Reading string string string
| Sess_Storing string bool
| Sess_Ending trip_outcome
| Sess_Settling trip_outcome

datatype cancel_door =
  Cancel_Trip nat
| Cancel_Wait nat "cancel_door option"

datatype fiber =
  Out bool "bool option" out_at
| Deletion delete_at
| Refreshing refresh_at
| Renewing renew_at
| Pressing account_provider nat nat "cancel_door option"
| Trip bool account_provider nat trip_at
| Handing nat session_at
| Ended

text \<open>
  \<open>Out\<close> holds whether the service is told, and, for the sign-out a trip makes as it ends, the trip's flag;
  \<open>Pressing\<close> is a sign-in waiting on the sign-out a refused renewal started.
\<close>

subsection \<open>The manager\<close>

datatype service_call =
  Grant_Asked string
| Revoke_Asked string
| End_Session_Asked string
| Code_Asked
| Session_Code_Asked
| Identity_Asked string
| Delete_Asked string

record session_manager =
  as_shown :: account_snapshot
  as_generation :: nat
  as_published :: "account_snapshot list"
  as_sign_in :: "nat option"
  as_again :: "(account_provider \<times> nat) option"
  as_cancel :: "cancel_door option"
  as_session :: "nat option"
  as_cancel_session :: "nat option"
  as_signing_out :: "nat option"
  as_wait_cancels :: nat
  as_refreshing :: "nat option"
  as_renewing :: "nat option"
  as_disk :: "stored_account option"
  as_writes :: "(nat \<times> stored_account option) list"
  as_running :: bool
  as_calls :: "service_call list"
  as_fibers :: "fiber list"

definition new_manager :: "stored_account option \<Rightarrow> session_manager" where
  "new_manager stored =
     \<lparr>as_shown = snapshot_of stored, as_generation = 0, as_published = [], as_sign_in = None, as_again = None,
      as_cancel = None, as_session = None, as_cancel_session = None, as_signing_out = None, as_wait_cancels = 0,
      as_refreshing = None, as_renewing = None, as_disk = stored, as_writes = [],
      as_running = is_signed_in (snapshot_of stored), as_calls = [], as_fibers = []\<rparr>"

definition set_fiber :: "nat \<Rightarrow> fiber \<Rightarrow> session_manager \<Rightarrow> session_manager" where
  "set_fiber f x s = s\<lparr>as_fibers := (as_fibers s)[f := x]\<rparr>"

definition forked :: "fiber \<Rightarrow> session_manager \<Rightarrow> session_manager" where
  "forked x s = s\<lparr>as_fibers := as_fibers s @ [x]\<rparr>"

definition next_fiber :: "session_manager \<Rightarrow> nat" where
  "next_fiber s = length (as_fibers s)"

definition fiber_at :: "session_manager \<Rightarrow> nat \<Rightarrow> fiber" where
  "fiber_at s f = (if f < length (as_fibers s) then as_fibers s ! f else Ended)"

definition has_ended :: "session_manager \<Rightarrow> nat \<Rightarrow> bool" where
  "has_ended s f \<longleftrightarrow> fiber_at s f = Ended"

definition published :: "session_manager \<Rightarrow> session_manager" where
  "published s = s\<lparr>as_published := as_published s @ [as_shown s]\<rparr>"

definition asked :: "service_call \<Rightarrow> session_manager \<Rightarrow> session_manager" where
  "asked c s = s\<lparr>as_calls := as_calls s @ [c]\<rparr>"

definition is_current :: "nat \<Rightarrow> session_manager \<Rightarrow> bool" where
  "is_current g s \<longleftrightarrow> g = as_generation s"

text \<open>A write asked of the store, behind those asked before it.\<close>

definition write_asked :: "nat \<Rightarrow> stored_account option \<Rightarrow> session_manager \<Rightarrow> session_manager" where
  "write_asked f v s = s\<lparr>as_writes := as_writes s @ [(f, v)]\<rparr>"

text \<open>What \<open>#storeCurrent\<close> does once its write has landed, where its generation still stands.\<close>

definition stored_shown :: "session_manager \<Rightarrow> session_manager" where
  "stored_shown s = published (s\<lparr>as_shown := snapshot_of (as_disk s)\<rparr>)"

subsection \<open>Canceling\<close>

text \<open>A consent's \<open>cancel\<close>: nothing once its code is in hand.\<close>

fun withdrawn :: "fiber \<Rightarrow> fiber" where
  "withdrawn (Trip again p g (Trip_Open w)) = Trip again p g (Trip_Open True)"
| "withdrawn (Handing g (Sess_Open w opened)) = Handing g (Sess_Open True opened)"
| "withdrawn x = x"

definition withdraw :: "nat \<Rightarrow> session_manager \<Rightarrow> session_manager" where
  "withdraw f s = set_fiber f (withdrawn (fiber_at s f)) s"

fun press_cancel :: "cancel_door \<Rightarrow> session_manager \<Rightarrow> session_manager" where
  "press_cancel (Cancel_Trip f) s = withdraw f s"
| "press_cancel (Cancel_Wait f None) s = s\<lparr>as_wait_cancels := as_wait_cancels s + 1\<rparr>"
| "press_cancel (Cancel_Wait f (Some d)) s = press_cancel d (s\<lparr>as_wait_cancels := as_wait_cancels s + 1\<rparr>)"

definition cancel_sign_in :: "session_manager \<Rightarrow> session_manager" where
  "cancel_sign_in s = (case as_cancel s of None \<Rightarrow> s | Some d \<Rightarrow> press_cancel d s)"

definition drop_cancel :: "nat \<Rightarrow> session_manager \<Rightarrow> session_manager" where
  "drop_cancel f s = (if as_cancel s = Some (Cancel_Trip f) then s\<lparr>as_cancel := None\<rparr> else s)"

definition trip_over :: "bool \<Rightarrow> nat \<Rightarrow> session_manager \<Rightarrow> session_manager" where
  "trip_over again f s =
     (let s1 = drop_cancel f (set_fiber f Ended s)
      in if again then s1\<lparr>as_again := None\<rparr> else s1\<lparr>as_sign_in := None\<rparr>)"

subsection \<open>Signing out\<close>

text \<open>The first of \<open>#clearAccount\<close>, up to its read of the store, on the fiber given.\<close>

definition departing :: "nat \<Rightarrow> bool \<Rightarrow> bool option \<Rightarrow> session_manager \<Rightarrow> session_manager" where
  "departing f remote trip s =
     (let s1 = s\<lparr>as_generation := as_generation s + 1\<rparr>;
          s2 = (case as_cancel_session s1 of None \<Rightarrow> s1 | Some c \<Rightarrow> withdraw c s1)
      in set_fiber f (Out remote trip Out_Reading) (published (s2\<lparr>as_shown := Signed_Out\<rparr>)))"

definition sign_out :: "bool \<Rightarrow> session_manager \<Rightarrow> session_manager" where
  "sign_out remote s = departing (next_fiber s) remote None (forked Ended s)"

definition out_over :: "nat \<Rightarrow> bool option \<Rightarrow> session_manager \<Rightarrow> session_manager" where
  "out_over f trip s = (case trip of None \<Rightarrow> set_fiber f Ended s | Some again \<Rightarrow> trip_over again f s)"

definition out_session :: "nat \<Rightarrow> bool \<Rightarrow> bool option \<Rightarrow> stored_account option \<Rightarrow> session_manager \<Rightarrow> session_manager" where
  "out_session f remote trip stored s =
     (case Option.bind stored sa_session of
        Some token \<Rightarrow> if remote \<and> token \<noteq> [] then set_fiber f (Out remote trip Out_Ending) (asked (End_Session_Asked token) s)
          else out_over f trip s
      | None \<Rightarrow> out_over f trip s)"

definition out_remote :: "nat \<Rightarrow> bool \<Rightarrow> bool option \<Rightarrow> stored_account option \<Rightarrow> session_manager \<Rightarrow> session_manager" where
  "out_remote f remote trip stored s =
     (case stored of
        Some a \<Rightarrow> if remote \<and> refresh_token (sa_tokens a) \<noteq> []
          then set_fiber f (Out remote trip (Out_Revoking stored)) (asked (Revoke_Asked (refresh_token (sa_tokens a))) s)
          else out_session f remote trip stored s
      | None \<Rightarrow> out_session f remote trip stored s)"

text \<open>What comes back to a fiber.\<close>

datatype answer =
  Resumed
| Capabilities_Done
| Call_Done
| Call_Failed client_failure
| Tokens_Come account_tokens
| Identity_Come account_identity
| Session_Come string string string
| Code_Comes
| Page_Opens
| Consent_Says string

text \<open>A call on the service whose answer, good or bad, is taken alike.\<close>

fun call_over :: "answer \<Rightarrow> bool" where
  "call_over Call_Done \<longleftrightarrow> True"
| "call_over (Call_Failed e) \<longleftrightarrow> True"
| "call_over ans \<longleftrightarrow> False"

definition come_out :: "nat \<Rightarrow> bool \<Rightarrow> bool option \<Rightarrow> out_at \<Rightarrow> answer \<Rightarrow> session_manager \<Rightarrow> session_manager option" where
  "come_out f remote trip at ans s =
     (case at of
        Out_Reading \<Rightarrow>
          if ans = Resumed
          then Some (set_fiber f (Out remote trip (Out_Clearing (as_disk s) False False)) (write_asked f None s)) else None
      | Out_Clearing stored cleared stopped \<Rightarrow>
          if \<not> stopped \<and> ans = Capabilities_Done
          then Some (set_fiber f (Out remote trip (Out_Clearing stored cleared True)) (s\<lparr>as_running := False\<rparr>))
          else if cleared \<and> stopped \<and> ans = Resumed
          then Some (out_remote f remote trip stored (published (s\<lparr>as_shown := Signed_Out\<rparr>)))
          else None
      | Out_Revoking stored \<Rightarrow> if call_over ans then Some (out_session f remote trip stored s) else None
      | Out_Ending \<Rightarrow> if call_over ans then Some (out_over f trip s) else None
      | Out_Dying \<Rightarrow> if ans = Capabilities_Done then Some (out_over f trip (s\<lparr>as_running := False\<rparr>)) else None)"

subsection \<open>Deleting the account\<close>

fun deletion_asked :: "nat \<Rightarrow> stored_account \<Rightarrow> answer \<Rightarrow> session_manager \<Rightarrow> session_manager option" where
  "deletion_asked f a Call_Done s = Some (departing f False None s)"
| "deletion_asked f a (Call_Failed e) s =
     Some (if access_token_needs_refresh e
       then set_fiber f (Deletion (Del_Granting (as_generation s) a)) (asked (Grant_Asked (refresh_token (sa_tokens a))) s)
       else set_fiber f Ended s)"
| "deletion_asked f a ans s = None"

fun deletion_granted :: "nat \<Rightarrow> nat \<Rightarrow> stored_account \<Rightarrow> answer \<Rightarrow> session_manager \<Rightarrow> session_manager option" where
  "deletion_granted f g a (Tokens_Come t) s =
     Some (if is_current g s
       then set_fiber f (Deletion (Del_Storing g (with_tokens a t) False)) (write_asked f (Some (with_tokens a t)) s)
       else set_fiber f (Deletion (Del_Again (with_tokens a t))) (asked (Delete_Asked (access_token t)) s))"
| "deletion_granted f g a (Call_Failed e) s = Some (set_fiber f Ended s)"
| "deletion_granted f g a ans s = None"

fun deletion_again :: "nat \<Rightarrow> answer \<Rightarrow> session_manager \<Rightarrow> session_manager option" where
  "deletion_again f Call_Done s = Some (departing f False None s)"
| "deletion_again f (Call_Failed e) s = Some (set_fiber f Ended s)"
| "deletion_again f ans s = None"

definition come_deletion :: "nat \<Rightarrow> delete_at \<Rightarrow> answer \<Rightarrow> session_manager \<Rightarrow> session_manager option" where
  "come_deletion f at ans s =
     (case at of
        Del_Reading \<Rightarrow>
          if ans = Resumed
          then Some (case as_disk s of
              None \<Rightarrow> set_fiber f Ended s
            | Some a \<Rightarrow> set_fiber f (Deletion (Del_Asked a)) (asked (Delete_Asked (access_token (sa_tokens a))) s))
          else None
      | Del_Asked a \<Rightarrow> deletion_asked f a ans s
      | Del_Granting g a \<Rightarrow> deletion_granted f g a ans s
      | Del_Storing g a l \<Rightarrow>
          if l \<and> ans = Resumed
          then Some (set_fiber f (Deletion (Del_Again a))
            (asked (Delete_Asked (access_token (sa_tokens a))) (if is_current g s then stored_shown s else s)))
          else None
      | Del_Again a \<Rightarrow> deletion_again f ans s)"

subsection \<open>Refreshing and renewing\<close>

text \<open>\<open>renewOnce\<close>: the flight under way, or one of its own.\<close>

definition renew_once :: "session_manager \<Rightarrow> session_manager \<times> nat" where
  "renew_once s =
     (case as_renewing s of
        Some f \<Rightarrow> (s, f)
      | None \<Rightarrow> ((forked (Renewing Ren_Reading) s)\<lparr>as_renewing := Some (next_fiber s)\<rparr>, next_fiber s))"

definition refresh_once :: "session_manager \<Rightarrow> session_manager" where
  "refresh_once s =
     (case as_refreshing s of
        Some f \<Rightarrow> s
      | None \<Rightarrow> (forked (Refreshing Ref_Reading) s)\<lparr>as_refreshing := Some (next_fiber s)\<rparr>)"

definition refresh_over :: "nat \<Rightarrow> session_manager \<Rightarrow> session_manager" where
  "refresh_over f s = set_fiber f Ended (s\<lparr>as_refreshing := None\<rparr>)"

definition renew_over :: "nat \<Rightarrow> session_manager \<Rightarrow> session_manager" where
  "renew_over f s = set_fiber f Ended (s\<lparr>as_renewing := None\<rparr>)"

text \<open>A grant and an identity asked for under the generation as the store answers, where an account is kept.\<close>

definition refresh_reading :: "bool \<Rightarrow> nat \<Rightarrow> session_manager \<Rightarrow> session_manager" where
  "refresh_reading required f s =
     (case as_disk s of
        None \<Rightarrow> refresh_over f s
      | Some a \<Rightarrow>
          if \<not> required then refresh_over f s
          else set_fiber f (Refreshing (Ref_Asked (as_generation s) a))
            (asked (Identity_Asked (access_token (sa_tokens a))) s))"

fun refresh_asked :: "nat \<Rightarrow> nat \<Rightarrow> stored_account \<Rightarrow> answer \<Rightarrow> session_manager \<Rightarrow> session_manager option" where
  "refresh_asked f g a (Identity_Come i) s =
     Some (if same_identity a i \<or> \<not> is_current g s then refresh_over f s
       else set_fiber f (Refreshing (Ref_Storing g False)) (write_asked f (Some (merged_identity a i)) s))"
| "refresh_asked f g a (Call_Failed e) s =
     Some (if \<not> access_token_needs_refresh e then refresh_over f s
       else (case renew_once s of (s', r) \<Rightarrow> set_fiber f (Refreshing (Ref_Renewing r)) s'))"
| "refresh_asked f g a ans s = None"

definition come_refresh :: "bool \<Rightarrow> nat \<Rightarrow> refresh_at \<Rightarrow> answer \<Rightarrow> session_manager \<Rightarrow> session_manager option" where
  "come_refresh required f at ans s =
     (case at of
        Ref_Reading \<Rightarrow> if ans = Resumed then Some (refresh_reading required f s) else None
      | Ref_Asked g a \<Rightarrow> refresh_asked f g a ans s
      | Ref_Storing g l \<Rightarrow>
          if l \<and> ans = Resumed
          then Some (refresh_over f (if is_current g s then published (stored_shown s) else s)) else None
      | Ref_Renewing r \<Rightarrow>
          if ans = Resumed \<and> has_ended s r
          then Some (case as_signing_out s of
              None \<Rightarrow> refresh_over f s
            | Some out \<Rightarrow> set_fiber f (Refreshing (Ref_Waiting out)) s)
          else None
      | Ref_Waiting out \<Rightarrow> if ans = Resumed \<and> has_ended s out then Some (refresh_over f s) else None)"

definition renew_reading :: "bool \<Rightarrow> nat \<Rightarrow> session_manager \<Rightarrow> session_manager" where
  "renew_reading required f s =
     (case as_disk s of
        None \<Rightarrow> renew_over f s
      | Some a \<Rightarrow>
          if \<not> required then renew_over f s
          else set_fiber f (Renewing (Ren_Granting (as_generation s) a))
            (asked (Grant_Asked (refresh_token (sa_tokens a))) s))"

text \<open>A refusal that signs out starts the sign-out and does not wait for it.\<close>

fun renew_granted :: "nat \<Rightarrow> nat \<Rightarrow> stored_account \<Rightarrow> answer \<Rightarrow> session_manager \<Rightarrow> session_manager option" where
  "renew_granted f g a (Tokens_Come t) s =
     Some (if is_current g s
       then set_fiber f (Renewing (Ren_Storing g (with_tokens a t) False)) (write_asked f (Some (with_tokens a t)) s)
       else renew_over f s)"
| "renew_granted f g a (Call_Failed e) s =
     Some (if account_failure_action e = Sign_Out_Account \<and> is_current g s
       then renew_over f ((sign_out False s)\<lparr>as_signing_out := Some (next_fiber s)\<rparr>)
       else renew_over f s)"
| "renew_granted f g a ans s = None"

fun renew_identified :: "nat \<Rightarrow> nat \<Rightarrow> stored_account \<Rightarrow> answer \<Rightarrow> session_manager \<Rightarrow> session_manager option" where
  "renew_identified f g a (Identity_Come i) s =
     Some (if is_current g s
       then set_fiber f (Renewing (Ren_Merging g False)) (write_asked f (Some (merged_identity a i)) s)
       else renew_over f s)"
| "renew_identified f g a (Call_Failed e) s = Some (renew_over f s)"
| "renew_identified f g a ans s = None"

definition come_renew :: "bool \<Rightarrow> nat \<Rightarrow> renew_at \<Rightarrow> answer \<Rightarrow> session_manager \<Rightarrow> session_manager option" where
  "come_renew required f at ans s =
     (case at of
        Ren_Reading \<Rightarrow> if ans = Resumed then Some (renew_reading required f s) else None
      | Ren_Granting g a \<Rightarrow> renew_granted f g a ans s
      | Ren_Storing g a l \<Rightarrow>
          if l \<and> ans = Resumed
          then Some (if is_current g s
            then set_fiber f (Renewing (Ren_Asked g a)) (asked (Identity_Asked (access_token (sa_tokens a))) (stored_shown s))
            else renew_over f s)
          else None
      | Ren_Asked g a \<Rightarrow> renew_identified f g a ans s
      | Ren_Merging g l \<Rightarrow>
          if l \<and> ans = Resumed
          then Some (renew_over f (if is_current g s then published (stored_shown s) else s)) else None)"

subsection \<open>Handing a session off\<close>

text \<open>\<open>#startSession\<close>.\<close>

definition start_session :: "session_manager \<Rightarrow> session_manager" where
  "start_session s =
     (forked (Handing (as_generation s) (Sess_Open False False)) s)
       \<lparr>as_cancel_session := Some (next_fiber s), as_session := Some (next_fiber s)\<rparr>"

definition session_over :: "nat \<Rightarrow> session_manager \<Rightarrow> session_manager" where
  "session_over f s =
     set_fiber f Ended (if as_cancel_session s = Some f then s\<lparr>as_cancel_session := None, as_session := None\<rparr> else s)"

definition obtain_session :: "session_manager \<Rightarrow> session_manager" where
  "obtain_session s = (if is_signed_in (as_shown s) \<and> as_session s = None then start_session s else s)"

definition other_browser_account :: string where
  "other_browser_account = ''That browser is signed in to a different Vespin account.''"

definition access_not_completed :: string where
  "access_not_completed = ''Workspace access was not completed.''"

fun session_open :: "nat \<Rightarrow> nat \<Rightarrow> bool \<Rightarrow> bool \<Rightarrow> answer \<Rightarrow> session_manager \<Rightarrow> session_manager option" where
  "session_open f g w opened Page_Opens s =
     (if w \<or> opened then None else Some (set_fiber f (Handing g (Sess_Open False True)) s))"
| "session_open f g w opened Code_Comes s =
     (if w \<or> \<not> opened then None else Some (set_fiber f (Handing g Sess_Exchanging) (asked Session_Code_Asked s)))"
| "session_open f g w opened Resumed s =
     (if w then Some (set_fiber f (Handing g (Sess_Settling Withdrawn)) s) else None)"
| "session_open f g w opened (Consent_Says r) s =
     (if w then None else Some (set_fiber f (Handing g (Sess_Settling (Said r))) s))"
| "session_open f g w opened ans s = None"

fun session_exchanged :: "nat \<Rightarrow> nat \<Rightarrow> answer \<Rightarrow> session_manager \<Rightarrow> session_manager option" where
  "session_exchanged f g (Session_Come token uid email) s =
     Some (set_fiber f (Handing g (Sess_Reading token uid email)) s)"
| "session_exchanged f g (Call_Failed e) s =
     Some (set_fiber f (Handing g (Sess_Settling (Said (failure_message e)))) s)"
| "session_exchanged f g ans s = None"

text \<open>A session nobody keeps is ended on the service.\<close>

definition session_refused :: "nat \<Rightarrow> nat \<Rightarrow> string \<Rightarrow> trip_outcome \<Rightarrow> session_manager \<Rightarrow> session_manager" where
  "session_refused f g token r s = set_fiber f (Handing g (Sess_Ending r)) (asked (End_Session_Asked token) s)"

definition session_reading :: "nat \<Rightarrow> nat \<Rightarrow> string \<Rightarrow> string \<Rightarrow> string \<Rightarrow> session_manager \<Rightarrow> session_manager" where
  "session_reading f g token uid email s =
     (case as_disk s of
        None \<Rightarrow> session_refused f g token (Said other_browser_account) s
      | Some a \<Rightarrow>
          if \<not> same_account_of a (Some uid) email then session_refused f g token (Said other_browser_account) s
          else if \<not> is_current g s then session_refused f g token Withdrawn s
          else set_fiber f (Handing g (Sess_Storing token False)) (write_asked f (Some (with_session a uid token)) s))"

definition come_session :: "nat \<Rightarrow> nat \<Rightarrow> session_at \<Rightarrow> answer \<Rightarrow> session_manager \<Rightarrow> session_manager option" where
  "come_session f g at ans s =
     (case at of
        Sess_Open w opened \<Rightarrow> session_open f g w opened ans s
      | Sess_Exchanging \<Rightarrow> session_exchanged f g ans s
      | Sess_Reading token uid email \<Rightarrow> if ans = Resumed then Some (session_reading f g token uid email s) else None
      | Sess_Storing token l \<Rightarrow>
          if l \<and> ans = Resumed
          then Some (if is_current g s then set_fiber f (Handing g (Sess_Settling Grant)) (stored_shown s)
            else session_refused f g token Withdrawn s)
          else None
      | Sess_Ending r \<Rightarrow> if call_over ans then Some (set_fiber f (Handing g (Sess_Settling r)) s) else None
      | Sess_Settling r \<Rightarrow> if ans = Resumed then Some (session_over f s) else None)"

subsection \<open>Signing in\<close>

text \<open>What \<open>beginSignIn\<close> does once no sign-out stands before it; a press while a trip runs joins it.\<close>

definition begin_now :: "account_provider \<Rightarrow> session_manager \<Rightarrow> session_manager" where
  "begin_now p s =
     (if is_signed_in (as_shown s) \<or> as_sign_in s \<noteq> None then s
      else (let s1 = published (s\<lparr>as_shown := Signing_In, as_generation := as_generation s + 1\<rparr>)
        in (forked (Trip False p (as_generation s1) (Trip_Open False)) s1)
             \<lparr>as_cancel := Some (Cancel_Trip (next_fiber s1)), as_sign_in := Some (next_fiber s1)\<rparr>))"

definition begin_sign_in :: "account_provider \<Rightarrow> session_manager \<Rightarrow> session_manager" where
  "begin_sign_in p s =
     (case as_signing_out s of
        None \<Rightarrow> begin_now p s
      | Some out \<Rightarrow>
          (forked (Pressing p out (as_wait_cancels s) (as_cancel s)) s)
            \<lparr>as_cancel := Some (Cancel_Wait (next_fiber s) (as_cancel s))\<rparr>)"

definition come_pressing ::
  "nat \<Rightarrow> account_provider \<Rightarrow> nat \<Rightarrow> nat \<Rightarrow> cancel_door option \<Rightarrow> answer \<Rightarrow> session_manager \<Rightarrow> session_manager option" where
  "come_pressing f p out cancels standing ans s =
     (if ans = Resumed \<and> has_ended s out
      then (let s1 = set_fiber f Ended (if as_cancel s = Some (Cancel_Wait f standing) then s\<lparr>as_cancel := standing\<rparr> else s)
        in Some (if as_wait_cancels s1 \<noteq> cancels then s1 else begin_now p s1))
      else None)"

definition sign_in_again :: "account_provider \<Rightarrow> session_manager \<Rightarrow> session_manager" where
  "sign_in_again p s =
     (if \<not> is_signed_in (as_shown s) then begin_sign_in p s
      else if as_again s \<noteq> None then s
      else (forked (Trip True p (as_generation s) (Trip_Open False)) s)
        \<lparr>as_cancel := Some (Cancel_Trip (next_fiber s)), as_again := Some (p, next_fiber s)\<rparr>)"

definition other_account :: string where
  "other_account = ''That sign-in is a different Vespin account.''"

definition sign_in_not_completed :: string where
  "sign_in_not_completed = ''Sign-in was not completed.''"

text \<open>A use of issued tokens that ends otherwise than well: they are revoked as it unwinds.\<close>

definition trip_unwinds ::
  "nat \<Rightarrow> bool \<Rightarrow> account_provider \<Rightarrow> nat \<Rightarrow> account_tokens \<Rightarrow> trip_outcome \<Rightarrow> session_manager \<Rightarrow> session_manager" where
  "trip_unwinds f again p g t r s =
     set_fiber f (Trip again p g (Trip_Unwinding t r)) (asked (Revoke_Asked (refresh_token t)) s)"

text \<open>The tokens and the identity kept, with the session the account replaced held.\<close>

definition trip_stores ::
  "nat \<Rightarrow> bool \<Rightarrow> account_provider \<Rightarrow> nat \<Rightarrow> nat \<Rightarrow> account_tokens \<Rightarrow> account_identity \<Rightarrow> stored_account option \<Rightarrow>
    session_manager \<Rightarrow> session_manager" where
  "trip_stores f again p g current t i replaced s =
     set_fiber f (Trip again p g (Trip_Storing current t replaced False))
       (write_asked f (Some \<lparr>sa_identity = i, sa_tokens = t, sa_session = Option.bind replaced session_held\<rparr>) s)"

fun trip_open :: "nat \<Rightarrow> bool \<Rightarrow> account_provider \<Rightarrow> nat \<Rightarrow> bool \<Rightarrow> answer \<Rightarrow> session_manager \<Rightarrow> session_manager option" where
  "trip_open f again p g w Code_Comes s =
     (if w then None else Some (set_fiber f (Trip again p g Trip_Issuing) (asked Code_Asked s)))"
| "trip_open f again p g w Resumed s =
     (if w then Some (set_fiber f (Trip again p g (Trip_Settling Withdrawn)) s) else None)"
| "trip_open f again p g w (Consent_Says r) s =
     (if w then None else Some (set_fiber f (Trip again p g (Trip_Settling (Said r))) s))"
| "trip_open f again p g w ans s = None"

fun trip_issuing :: "nat \<Rightarrow> bool \<Rightarrow> account_provider \<Rightarrow> nat \<Rightarrow> answer \<Rightarrow> session_manager \<Rightarrow> session_manager option" where
  "trip_issuing f again p g (Tokens_Come t) s =
     Some (set_fiber f (Trip again p g (Trip_Identifying t)) (asked (Identity_Asked (access_token t)) s))"
| "trip_issuing f again p g (Call_Failed e) s =
     Some (set_fiber f (Trip again p g (Trip_Settling (Said (failure_message e)))) s)"
| "trip_issuing f again p g ans s = None"

fun trip_identifying ::
  "nat \<Rightarrow> bool \<Rightarrow> account_provider \<Rightarrow> nat \<Rightarrow> account_tokens \<Rightarrow> answer \<Rightarrow> session_manager \<Rightarrow> session_manager option" where
  "trip_identifying f again p g t (Identity_Come i) s =
     Some (if again then set_fiber f (Trip again p g (Trip_Reading t i)) s
       else if \<not> is_current g s then trip_unwinds f again p g t Withdrawn s
       else trip_stores f again p g g t i None s)"
| "trip_identifying f again p g t (Call_Failed e) s =
     Some (trip_unwinds f again p g t (Said (failure_message e)) s)"
| "trip_identifying f again p g t ans s = None"

definition trip_reading ::
  "nat \<Rightarrow> bool \<Rightarrow> account_provider \<Rightarrow> nat \<Rightarrow> account_tokens \<Rightarrow> account_identity \<Rightarrow> session_manager \<Rightarrow> session_manager" where
  "trip_reading f again p g t i s =
     (if \<not> is_current g s then trip_unwinds f again p g t Withdrawn s
      else (case as_disk s of
          None \<Rightarrow> trip_stores f again p g (g + 1) t i None (s\<lparr>as_generation := g + 1\<rparr>)
        | Some a \<Rightarrow>
            if \<not> same_account_of a (ai_id i) (ai_email i) then trip_unwinds f again p g t (Said other_account) s
            else trip_stores f again p g (g + 1) t i (Some a) (s\<lparr>as_generation := g + 1\<rparr>)))"

definition trip_stored ::
  "nat \<Rightarrow> bool \<Rightarrow> account_provider \<Rightarrow> nat \<Rightarrow> nat \<Rightarrow> account_tokens \<Rightarrow> stored_account option \<Rightarrow> session_manager \<Rightarrow> session_manager" where
  "trip_stored f again p g current t replaced s =
     (if \<not> is_current current s then trip_unwinds f again p g t Withdrawn s
      else (case replaced of
          None \<Rightarrow> set_fiber f (Trip again p g (Trip_Starting current t)) (stored_shown s)
        | Some a \<Rightarrow>
            if refresh_token (sa_tokens a) = []
            then set_fiber f (Trip again p g (Trip_Starting current t)) (stored_shown s)
            else set_fiber f (Trip again p g (Trip_Replacing current t))
              (asked (Revoke_Asked (refresh_token (sa_tokens a))) (stored_shown s))))"

definition trip_started ::
  "nat \<Rightarrow> bool \<Rightarrow> account_provider \<Rightarrow> nat \<Rightarrow> nat \<Rightarrow> account_tokens \<Rightarrow> session_manager \<Rightarrow> session_manager" where
  "trip_started f again p g current t s =
     (let s1 = s\<lparr>as_running := True\<rparr>
      in if \<not> is_current current s then trip_unwinds f again p g t Withdrawn s1
         else set_fiber f (Trip again p g Trip_Continuing) s1)"

text \<open>\<open>#continueToSession\<close>, up to the hand-off page it waits for.\<close>

definition trip_continuing :: "nat \<Rightarrow> bool \<Rightarrow> account_provider \<Rightarrow> nat \<Rightarrow> session_manager \<Rightarrow> session_manager" where
  "trip_continuing f again p g s =
     (case as_disk s of
        None \<Rightarrow> set_fiber f (Trip again p g (Trip_Settling Grant)) s
      | Some a \<Rightarrow>
          if sa_session a \<noteq> None \<or> as_session s \<noteq> None then set_fiber f (Trip again p g (Trip_Settling Grant)) s
          else set_fiber f (Trip again p g (Trip_Paging (next_fiber s))) (start_session s))"

definition page_awaited :: "session_manager \<Rightarrow> nat \<Rightarrow> bool" where
  "page_awaited s h = (case fiber_at s h of Handing g (Sess_Open w opened) \<Rightarrow> \<not> opened | _ \<Rightarrow> False)"

definition trip_settled :: "nat \<Rightarrow> bool \<Rightarrow> nat \<Rightarrow> trip_outcome \<Rightarrow> session_manager \<Rightarrow> session_manager" where
  "trip_settled f again g r s =
     (if again then trip_over again f s
      else if r = Grant then trip_over again f (published s)
      else if is_current g s then departing f False (Some again) s
      else trip_over again f s)"

definition come_trip ::
  "nat \<Rightarrow> bool \<Rightarrow> account_provider \<Rightarrow> nat \<Rightarrow> trip_at \<Rightarrow> answer \<Rightarrow> session_manager \<Rightarrow> session_manager option" where
  "come_trip f again p g at ans s =
     (case at of
        Trip_Open w \<Rightarrow> trip_open f again p g w ans s
      | Trip_Issuing \<Rightarrow> trip_issuing f again p g ans s
      | Trip_Identifying t \<Rightarrow> trip_identifying f again p g t ans s
      | Trip_Reading t i \<Rightarrow> if ans = Resumed then Some (trip_reading f again p g t i s) else None
      | Trip_Storing current t replaced l \<Rightarrow>
          if l \<and> ans = Resumed then Some (trip_stored f again p g current t replaced s) else None
      | Trip_Replacing current t \<Rightarrow>
          if call_over ans then Some (set_fiber f (Trip again p g (Trip_Starting current t)) s) else None
      | Trip_Starting current t \<Rightarrow> if ans = Capabilities_Done then Some (trip_started f again p g current t s) else None
      | Trip_Unwinding t r \<Rightarrow> if call_over ans then Some (set_fiber f (Trip again p g (Trip_Settling r)) s) else None
      | Trip_Continuing \<Rightarrow> if ans = Resumed then Some (trip_continuing f again p g s) else None
      | Trip_Paging h \<Rightarrow>
          if ans = Resumed \<and> \<not> page_awaited s h then Some (set_fiber f (Trip again p g (Trip_Settling Grant)) s) else None
      | Trip_Settling r \<Rightarrow> if ans = Resumed then Some (trip_settled f again g r s) else None)"

subsection \<open>A write landing, and the steps\<close>

definition landed :: "fiber \<Rightarrow> fiber" where
  "landed x =
     (case x of
        Out remote trip (Out_Clearing stored c p) \<Rightarrow> Out remote trip (Out_Clearing stored True p)
      | Deletion (Del_Storing g a l) \<Rightarrow> Deletion (Del_Storing g a True)
      | Refreshing (Ref_Storing g l) \<Rightarrow> Refreshing (Ref_Storing g True)
      | Renewing (Ren_Storing g a l) \<Rightarrow> Renewing (Ren_Storing g a True)
      | Renewing (Ren_Merging g l) \<Rightarrow> Renewing (Ren_Merging g True)
      | Trip again p g (Trip_Storing c t replaced l) \<Rightarrow> Trip again p g (Trip_Storing c t replaced True)
      | Handing g (Sess_Storing token l) \<Rightarrow> Handing g (Sess_Storing token True)
      | _ \<Rightarrow> x)"

definition write_lands :: "session_manager \<Rightarrow> session_manager option" where
  "write_lands s =
     (case as_writes s of
        [] \<Rightarrow> None
      | (f, v) # ws \<Rightarrow> Some (set_fiber f (landed (fiber_at s f)) (s\<lparr>as_disk := v, as_writes := ws\<rparr>)))"

text \<open>
  A write the store could not make dies in its fiber: the deletion and the flights end there, a sign-out once the
  capabilities' stop beside it has ended, and a sign-in unwinds with its consent's own refusal.
\<close>

definition died :: "nat \<Rightarrow> session_manager \<Rightarrow> session_manager" where
  "died f s =
     (case fiber_at s f of
        Out remote trip (Out_Clearing stored cleared stopped) \<Rightarrow>
          if stopped then out_over f trip s else set_fiber f (Out remote trip Out_Dying) s
      | Deletion (Del_Storing g a l) \<Rightarrow> set_fiber f Ended s
      | Refreshing (Ref_Storing g l) \<Rightarrow> refresh_over f s
      | Renewing (Ren_Storing g a l) \<Rightarrow> renew_over f s
      | Renewing (Ren_Merging g l) \<Rightarrow> renew_over f s
      | Trip again p g (Trip_Storing c t replaced l) \<Rightarrow> trip_unwinds f again p g t (Said sign_in_not_completed) s
      | Handing g (Sess_Storing token l) \<Rightarrow> set_fiber f (Handing g (Sess_Settling (Said access_not_completed))) s
      | _ \<Rightarrow> s)"

definition write_dies :: "session_manager \<Rightarrow> session_manager option" where
  "write_dies s =
     (case as_writes s of [] \<Rightarrow> None | (f, v) # ws \<Rightarrow> Some (died f (s\<lparr>as_writes := ws\<rparr>)))"

definition come :: "bool \<Rightarrow> nat \<Rightarrow> answer \<Rightarrow> session_manager \<Rightarrow> session_manager option" where
  "come required f ans s =
     (case fiber_at s f of
        Out remote trip at \<Rightarrow> come_out f remote trip at ans s
      | Deletion at \<Rightarrow> come_deletion f at ans s
      | Refreshing at \<Rightarrow> come_refresh required f at ans s
      | Renewing at \<Rightarrow> come_renew required f at ans s
      | Pressing p out cancels standing \<Rightarrow> come_pressing f p out cancels standing ans s
      | Trip again p g at \<Rightarrow> come_trip f again p g at ans s
      | Handing g at \<Rightarrow> come_session f g at ans s
      | Ended \<Rightarrow> None)"

text \<open>A sign-out cut while it tells the service: what it had to do here is done.\<close>

definition cut :: "nat \<Rightarrow> session_manager \<Rightarrow> session_manager option" where
  "cut f s =
     (case fiber_at s f of
        Out remote None (Out_Revoking stored) \<Rightarrow> Some (set_fiber f Ended s)
      | Out remote None Out_Ending \<Rightarrow> Some (set_fiber f Ended s)
      | _ \<Rightarrow> None)"

datatype session_act =
  Ask_Sign_In account_provider
| Ask_Again account_provider
| Ask_Cancel
| Ask_Sign_Out bool
| Ask_Delete
| Ask_Refresh
| Ask_Renew
| Ask_Session
| Write_Lands
| Write_Dies
| Come nat answer
| Cut nat

fun session_step :: "bool \<Rightarrow> session_act \<Rightarrow> session_manager \<Rightarrow> session_manager option" where
  "session_step required (Ask_Sign_In p) s = Some (begin_sign_in p s)"
| "session_step required (Ask_Again p) s = Some (sign_in_again p s)"
| "session_step required Ask_Cancel s = Some (cancel_sign_in s)"
| "session_step required (Ask_Sign_Out remote) s = Some (sign_out remote s)"
| "session_step required Ask_Delete s = Some (forked (Deletion Del_Reading) s)"
| "session_step required Ask_Refresh s = Some (refresh_once s)"
| "session_step required Ask_Renew s = Some (fst (renew_once s))"
| "session_step required Ask_Session s = Some (obtain_session s)"
| "session_step required Write_Lands s = write_lands s"
| "session_step required Write_Dies s = write_dies s"
| "session_step required (Come f ans) s = come required f ans s"
| "session_step required (Cut f) s = cut f s"

fun session_run :: "bool \<Rightarrow> session_act list \<Rightarrow> session_manager \<Rightarrow> session_manager option" where
  "session_run required [] s = Some s"
| "session_run required (a # as) s = Option.bind (session_step required a s) (session_run required as)"

end
