(* ===== verification/Account_Faults.thy ===== *)
theory Account_Faults
  imports Account_Session
begin

text \<open>Runs of the account session in which it does not do what its file says.\<close>

definition ada :: account_identity where
  "ada = \<lparr>ai_id = Some ''1'', ai_email = ''ada@x'', ai_name = None, ai_picture = None, ai_provider = Google\<rparr>"

definition ada_account :: stored_account where
  "ada_account = \<lparr>sa_identity = ada, sa_tokens = \<lparr>access_token = ''a'', refresh_token = ''r''\<rparr>, sa_session = Some ''s''\<rparr>"

definition new_tokens :: account_tokens where
  "new_tokens = \<lparr>access_token = ''b'', refresh_token = ''n''\<rparr>"

definition expired :: client_failure where
  "expired = Answered (Some 401) None ''expired''"

text \<open>The developer's own sign-out, whose capability stop ends after a sign-in pressed behind it has landed.\<close>

definition sign_in_behind_sign_out :: "session_act list" where
  "sign_in_behind_sign_out =
     [Ask_Sign_Out False, Come 0 Resumed, Write_Lands, Ask_Sign_In Google, Come 1 Code_Comes,
      Come 1 (Tokens_Come new_tokens), Come 1 (Identity_Come ada), Write_Lands, Come 1 Resumed,
      Come 1 Capabilities_Done, Come 0 Capabilities_Done, Come 0 Resumed]"

theorem sign_out_lands_over_sign_in:
  "\<exists>s. session_run True sign_in_behind_sign_out (new_manager (Some ada_account)) = Some s \<and>
     as_disk s \<noteq> None \<and> as_shown s = Signed_Out \<and> \<not> as_running s \<and> fiber_at s 1 = Trip False Google 2 Trip_Continuing"
  by (rule exI, rule conjI, code_simp) (code_simp)

definition renewal_beside_deletion :: "session_act list" where
  "renewal_beside_deletion =
     [Ask_Delete, Come 0 Resumed, Ask_Renew, Come 1 Resumed, Come 0 (Call_Failed expired)]"

theorem deletion_grants_beside_renewal:
  "\<exists>s. session_run True renewal_beside_deletion (new_manager (Some ada_account)) = Some s \<and>
     fiber_at s 0 = Deletion (Del_Granting 0 ada_account) \<and> fiber_at s 1 = Renewing (Ren_Granting 0 ada_account) \<and>
     as_calls s = [Delete_Asked ''a'', Grant_Asked ''r'', Grant_Asked ''r'']"
  by (rule exI, rule conjI, code_simp) (code_simp)

definition sign_out_over_renewal :: "session_act list" where
  "sign_out_over_renewal =
     [Ask_Renew, Come 0 Resumed, Ask_Sign_Out True, Come 1 Resumed, Write_Lands, Come 1 Capabilities_Done,
      Come 1 Resumed, Come 1 Call_Done, Come 1 Call_Done, Come 0 (Tokens_Come new_tokens)]"

theorem renewed_tokens_left_live:
  "\<exists>s. session_run True sign_out_over_renewal (new_manager (Some ada_account)) = Some s \<and>
     as_fibers s = [Ended, Ended] \<and> as_writes s = [] \<and> as_disk s = None \<and>
     as_calls s = [Grant_Asked ''r'', Revoke_Asked ''r'', End_Session_Asked ''s'']"
  by (rule exI, rule conjI, code_simp) (code_simp)

end
