(* ===== verification/Account_Safety.thy ===== *)
theory Account_Safety
  imports Account_Faults
begin

text \<open>
  What the account session keeps in every run: one renewal at a time, nobody signed in again once a
  sign-out has come to its end, and no token issued to a sign-in left live with nobody to hold it.
\<close>

subsection \<open>The state under its operations\<close>

named_theorems session_simps "what an operation of the session leaves of each field"

lemma set_fiber_fields [session_simps]:
  "as_shown (set_fiber f x s) = as_shown s" "as_generation (set_fiber f x s) = as_generation s"
  "as_disk (set_fiber f x s) = as_disk s" "as_writes (set_fiber f x s) = as_writes s"
  "as_renewing (set_fiber f x s) = as_renewing s" "as_calls (set_fiber f x s) = as_calls s"
  "as_fibers (set_fiber f x s) = (as_fibers s)[f := x]" "as_session (set_fiber f x s) = as_session s"
  "as_running (set_fiber f x s) = as_running s" "as_published (set_fiber f x s) = as_published s"
  "as_signing_out (set_fiber f x s) = as_signing_out s" "as_sign_in (set_fiber f x s) = as_sign_in s"
  by (simp_all add: set_fiber_def)

lemma asked_fields [session_simps]:
  "as_shown (asked c s) = as_shown s" "as_generation (asked c s) = as_generation s"
  "as_disk (asked c s) = as_disk s" "as_writes (asked c s) = as_writes s"
  "as_renewing (asked c s) = as_renewing s" "as_calls (asked c s) = as_calls s @ [c]"
  "as_fibers (asked c s) = as_fibers s" "as_running (asked c s) = as_running s"
  "as_published (asked c s) = as_published s"
  by (simp_all add: asked_def)

lemma published_fields [session_simps]:
  "as_shown (published s) = as_shown s" "as_generation (published s) = as_generation s"
  "as_disk (published s) = as_disk s" "as_writes (published s) = as_writes s"
  "as_renewing (published s) = as_renewing s" "as_calls (published s) = as_calls s"
  "as_fibers (published s) = as_fibers s"
  by (simp_all add: published_def)

lemma stored_shown_fields [session_simps]:
  "as_shown (stored_shown s) = snapshot_of (as_disk s)" "as_generation (stored_shown s) = as_generation s"
  "as_disk (stored_shown s) = as_disk s" "as_writes (stored_shown s) = as_writes s"
  "as_renewing (stored_shown s) = as_renewing s" "as_calls (stored_shown s) = as_calls s"
  "as_fibers (stored_shown s) = as_fibers s"
  by (simp_all add: stored_shown_def published_def)

lemma write_asked_fields [session_simps]:
  "as_shown (write_asked f v s) = as_shown s" "as_generation (write_asked f v s) = as_generation s"
  "as_disk (write_asked f v s) = as_disk s" "as_writes (write_asked f v s) = as_writes s @ [(f, v)]"
  "as_renewing (write_asked f v s) = as_renewing s" "as_calls (write_asked f v s) = as_calls s"
  "as_fibers (write_asked f v s) = as_fibers s"
  by (simp_all add: write_asked_def)

lemma forked_fields [session_simps]:
  "as_shown (forked x s) = as_shown s" "as_generation (forked x s) = as_generation s"
  "as_disk (forked x s) = as_disk s" "as_writes (forked x s) = as_writes s"
  "as_renewing (forked x s) = as_renewing s" "as_calls (forked x s) = as_calls s"
  "as_fibers (forked x s) = as_fibers s @ [x]"
  by (simp_all add: forked_def)

lemma withdraw_fields [session_simps]:
  "as_shown (withdraw f s) = as_shown s" "as_generation (withdraw f s) = as_generation s"
  "as_disk (withdraw f s) = as_disk s" "as_writes (withdraw f s) = as_writes s"
  "as_renewing (withdraw f s) = as_renewing s" "as_calls (withdraw f s) = as_calls s"
  "as_fibers (withdraw f s) = (as_fibers s)[f := withdrawn (fiber_at s f)]"
  by (simp_all add: withdraw_def session_simps)

lemma drop_cancel_fields [session_simps]:
  "as_shown (drop_cancel f s) = as_shown s" "as_generation (drop_cancel f s) = as_generation s"
  "as_disk (drop_cancel f s) = as_disk s" "as_writes (drop_cancel f s) = as_writes s"
  "as_renewing (drop_cancel f s) = as_renewing s" "as_calls (drop_cancel f s) = as_calls s"
  "as_fibers (drop_cancel f s) = as_fibers s"
  by (simp_all add: drop_cancel_def)

lemma trip_over_fields [session_simps]:
  "as_shown (trip_over again f s) = as_shown s" "as_generation (trip_over again f s) = as_generation s"
  "as_disk (trip_over again f s) = as_disk s" "as_writes (trip_over again f s) = as_writes s"
  "as_renewing (trip_over again f s) = as_renewing s" "as_calls (trip_over again f s) = as_calls s"
  "as_fibers (trip_over again f s) = (as_fibers s)[f := Ended]"
  by (simp_all add: trip_over_def Let_def session_simps)

lemma out_over_fields [session_simps]:
  "as_shown (out_over f trip s) = as_shown s" "as_generation (out_over f trip s) = as_generation s"
  "as_disk (out_over f trip s) = as_disk s" "as_writes (out_over f trip s) = as_writes s"
  "as_renewing (out_over f trip s) = as_renewing s" "as_calls (out_over f trip s) = as_calls s"
  "as_fibers (out_over f trip s) = (as_fibers s)[f := Ended]"
  by (simp_all add: out_over_def session_simps split: option.split)

lemma fiber_at_set [simp]:
  "f < length (as_fibers s) \<Longrightarrow> fiber_at (set_fiber f x s) h = (if h = f then x else fiber_at s h)"
  by (simp add: fiber_at_def set_fiber_def)

lemma fiber_at_in: "fiber_at s f \<noteq> Ended \<Longrightarrow> f < length (as_fibers s) \<and> fiber_at s f \<in> set (as_fibers s)"
  by (auto simp: fiber_at_def split: if_splits)

subsection \<open>Any change of fibers one property bounds\<close>

text \<open>
  A step changes the fibers it names and forks others: what holds of every fiber, and of those, holds of
  all after.
\<close>

lemma all_fibers_set: "\<lbrakk>list_all P xs; P x\<rbrakk> \<Longrightarrow> list_all P (xs[f := x])"
  by (auto simp: list_all_iff dest!: set_update_subset_insert [THEN subsetD])

lemma at_all: "list_all P (as_fibers s) \<Longrightarrow> P Ended \<Longrightarrow> P (fiber_at s f)"
  by (auto simp: fiber_at_def list_all_length)

subsection \<open>Once signed out\<close>

text \<open>A fiber that asks under an older generation than the one given, and waits to begin no sign-in and no grant of a deletion.\<close>

definition older :: "nat \<Rightarrow> fiber \<Rightarrow> bool" where
  "older n x \<longleftrightarrow>
     (case x of
        Out remote trip at \<Rightarrow> True
      | Deletion at \<Rightarrow> (case at of Del_Asked a \<Rightarrow> False | Del_Granting g a \<Rightarrow> g < n | Del_Storing g a l \<Rightarrow> g < n | _ \<Rightarrow> True)
      | Refreshing at \<Rightarrow> (case at of Ref_Asked g a \<Rightarrow> g < n | Ref_Storing g l \<Rightarrow> g < n | _ \<Rightarrow> True)
      | Renewing at \<Rightarrow> (case at of Ren_Reading \<Rightarrow> True | Ren_Granting g a \<Rightarrow> g < n | Ren_Storing g a l \<Rightarrow> g < n
          | Ren_Asked g a \<Rightarrow> g < n | Ren_Merging g l \<Rightarrow> g < n)
      | Pressing p out cancels standing \<Rightarrow> False
      | Trip again p g at \<Rightarrow> g < n \<and> (case at of Trip_Storing c t replaced l \<Rightarrow> c < n | Trip_Replacing c t \<Rightarrow> c < n
          | Trip_Starting c t \<Rightarrow> c < n | _ \<Rightarrow> True)
      | Handing g at \<Rightarrow> g < n
      | Ended \<Rightarrow> True)"

lemma older_simps [simp]:
  "older n (Out remote trip x)" "older n Ended" "\<not> older n (Pressing p out cancels standing)"
  "older n (Deletion Del_Reading)" "\<not> older n (Deletion (Del_Asked a))" "older n (Deletion (Del_Granting g a)) \<longleftrightarrow> g < n"
  "older n (Deletion (Del_Storing g a l)) \<longleftrightarrow> g < n" "older n (Deletion (Del_Again a))"
  "older n (Refreshing Ref_Reading)" "older n (Refreshing (Ref_Asked g a)) \<longleftrightarrow> g < n"
  "older n (Refreshing (Ref_Storing g l)) \<longleftrightarrow> g < n" "older n (Refreshing (Ref_Renewing f))" "older n (Refreshing (Ref_Waiting f))"
  "older n (Renewing Ren_Reading)" "older n (Renewing (Ren_Granting g a)) \<longleftrightarrow> g < n"
  "older n (Renewing (Ren_Storing g a l)) \<longleftrightarrow> g < n" "older n (Renewing (Ren_Asked g a)) \<longleftrightarrow> g < n"
  "older n (Renewing (Ren_Merging g l)) \<longleftrightarrow> g < n"
  "older n (Handing g at) \<longleftrightarrow> g < n"
  by (simp_all add: older_def)

lemma older_trip [simp]:
  "older n (Trip again p g at) \<longleftrightarrow> g < n \<and> (case at of Trip_Storing c t replaced l \<Rightarrow> c < n | Trip_Replacing c t \<Rightarrow> c < n
     | Trip_Starting c t \<Rightarrow> c < n | _ \<Rightarrow> True)"
  by (simp add: older_def)

lemma older_mono: "older n x \<Longrightarrow> n \<le> m \<Longrightarrow> older m x"
  by (cases x) (auto simp: older_def split: delete_at.splits refresh_at.splits renew_at.splits trip_at.splits)

lemma older_withdrawn: "older n x \<Longrightarrow> older n (withdrawn x)"
  by (cases x rule: withdrawn.cases) auto

lemma older_landed: "older n x \<Longrightarrow> older n (landed x)"
  by (cases x) (auto simp: landed_def older_def
    split: out_at.splits delete_at.splits refresh_at.splits renew_at.splits trip_at.splits session_at.splits)

definition settled_out :: "session_manager \<Rightarrow> bool" where
  "settled_out s \<longleftrightarrow>
     as_shown s = Signed_Out \<and> as_disk s = None \<and> list_all (\<lambda>w. snd w = None) (as_writes s) \<and>
     list_all (older (as_generation s)) (as_fibers s)"

lemma settled_simps [simp]:
  "settled_out (asked c s) = settled_out s" "settled_out (published s) = settled_out s"
  "settled_out (write_asked f v s) \<longleftrightarrow> settled_out s \<and> v = None"
  "settled_out (forked x s) \<longleftrightarrow> settled_out s \<and> older (as_generation s) x"
  "settled_out (s\<lparr>as_running := b\<rparr>) = settled_out s" "settled_out (s\<lparr>as_cancel := d\<rparr>) = settled_out s"
  "settled_out (s\<lparr>as_again := ag\<rparr>) = settled_out s" "settled_out (s\<lparr>as_sign_in := si\<rparr>) = settled_out s"
  "settled_out (s\<lparr>as_session := se\<rparr>) = settled_out s" "settled_out (s\<lparr>as_cancel_session := se\<rparr>) = settled_out s"
  "settled_out (s\<lparr>as_cancel_session := se, as_session := se'\<rparr>) = settled_out s"
  "settled_out (s\<lparr>as_refreshing := fl\<rparr>) = settled_out s" "settled_out (s\<lparr>as_renewing := fl\<rparr>) = settled_out s"
  "settled_out (s\<lparr>as_signing_out := fl\<rparr>) = settled_out s" "settled_out (s\<lparr>as_wait_cancels := n\<rparr>) = settled_out s"
  by (auto simp: settled_out_def session_simps)

lemma settled_set [simp, intro]: "\<lbrakk>settled_out s; older (as_generation s) x\<rbrakk> \<Longrightarrow> settled_out (set_fiber f x s)"
  by (simp add: settled_out_def session_simps all_fibers_set)

lemma settled_shown [simp]: "settled_out s \<Longrightarrow> settled_out (s\<lparr>as_shown := Signed_Out\<rparr>)"
  by (simp add: settled_out_def)

lemma settled_older: "settled_out s \<Longrightarrow> older (as_generation s) (fiber_at s f)"
  by (simp add: settled_out_def at_all)

lemma settled_disk: "settled_out s \<Longrightarrow> as_disk s = None"
  by (simp add: settled_out_def)

lemma settled_withdraw [simp]: "settled_out s \<Longrightarrow> settled_out (withdraw f s)"
  by (simp add: withdraw_def older_withdrawn settled_older settled_set)

lemma settled_cancel: "settled_out s \<Longrightarrow> settled_out (press_cancel d s)"
  by (induction d s rule: press_cancel.induct) auto

lemma settled_over [simp]:
  "settled_out s \<Longrightarrow> settled_out (trip_over again f s)" "settled_out s \<Longrightarrow> settled_out (out_over f trip s)"
  "settled_out s \<Longrightarrow> settled_out (refresh_over f s)" "settled_out s \<Longrightarrow> settled_out (renew_over f s)"
  "settled_out s \<Longrightarrow> settled_out (session_over f s)"
  by (auto simp: trip_over_def drop_cancel_def out_over_def refresh_over_def renew_over_def session_over_def Let_def
    split: option.split)

lemma settled_departing [simp]: "settled_out s \<Longrightarrow> settled_out (departing f remote trip s)"
proof -
  assume s: "settled_out s"
  then have "settled_out (s\<lparr>as_generation := as_generation s + 1\<rparr>)"
    by (auto simp: settled_out_def list_all_iff intro: older_mono)
  then show ?thesis by (auto simp: departing_def Let_def split: option.split)
qed

lemma settled_come_out: "\<lbrakk>settled_out s; come_out f remote trip at ans s = Some s'\<rbrakk> \<Longrightarrow> settled_out s'"
  by (cases at) (auto simp: come_out_def out_remote_def out_session_def split: if_splits option.splits)

lemma settled_come_deletion:
  "\<lbrakk>settled_out s; older (as_generation s) (Deletion at); come_deletion f at ans s = Some s'\<rbrakk> \<Longrightarrow> settled_out s'"
  by (cases at; cases ans) (auto simp: come_deletion_def settled_disk is_current_def session_simps split: if_splits)

lemma settled_come_refresh:
  "\<lbrakk>settled_out s; older (as_generation s) (Refreshing at); come_refresh required f at ans s = Some s'\<rbrakk> \<Longrightarrow> settled_out s'"
  by (cases at; cases ans)
    (auto simp: come_refresh_def refresh_reading_def settled_disk is_current_def renew_once_def session_simps
      split: if_splits option.splits)

lemma settled_come_renew:
  "\<lbrakk>settled_out s; older (as_generation s) (Renewing at); come_renew required f at ans s = Some s'\<rbrakk> \<Longrightarrow> settled_out s'"
  by (cases at; cases ans)
    (auto simp: come_renew_def renew_reading_def settled_disk is_current_def split: if_splits)

lemma settled_come_trip:
  "\<lbrakk>settled_out s; older (as_generation s) (Trip again p g at); come_trip f again p g at ans s = Some s'\<rbrakk> \<Longrightarrow> settled_out s'"
  by (cases at; cases ans)
    (auto simp: come_trip_def trip_reading_def trip_stored_def trip_started_def trip_continuing_def trip_settled_def
      trip_unwinds_def settled_disk is_current_def session_simps split: if_splits)

lemma settled_come_session:
  "\<lbrakk>settled_out s; older (as_generation s) (Handing g at); come_session f g at ans s = Some s'\<rbrakk> \<Longrightarrow> settled_out s'"
  by (cases at; cases ans)
    (auto simp: come_session_def session_reading_def session_refused_def settled_disk is_current_def session_simps split: if_splits)

lemma settled_come: "\<lbrakk>settled_out s; come required f ans s = Some s'\<rbrakk> \<Longrightarrow> settled_out s'"
  using settled_older [of s f]
  by (cases "fiber_at s f") (auto simp: come_def simp del: older_trip intro: settled_come_out settled_come_deletion
    settled_come_refresh settled_come_renew settled_come_trip settled_come_session)

lemma settled_lands: "\<lbrakk>settled_out s; write_lands s = Some s'\<rbrakk> \<Longrightarrow> settled_out s'"
proof -
  assume s: "settled_out s" and "write_lands s = Some s'"
  then obtain f v ws where w: "as_writes s = (f, v) # ws"
    "s' = set_fiber f (landed (fiber_at s f)) (s\<lparr>as_disk := v, as_writes := ws\<rparr>)"
    by (auto simp: write_lands_def split: list.splits)
  have "settled_out (s\<lparr>as_disk := v, as_writes := ws\<rparr>)" using s w(1) by (simp add: settled_out_def)
  then show "settled_out s'" using older_landed [OF settled_older [OF s, of f]] w(2) by (simp add: settled_set)
qed

lemma settled_died: "settled_out s \<Longrightarrow> settled_out (died f s)"
  using settled_older [of s f]
  by (cases "fiber_at s f")
    (auto simp: died_def trip_unwinds_def session_simps split: out_at.split delete_at.split refresh_at.split renew_at.split trip_at.split session_at.split)

lemma settled_dies: "\<lbrakk>settled_out s; write_dies s = Some s'\<rbrakk> \<Longrightarrow> settled_out s'"
proof -
  assume s: "settled_out s" and "write_dies s = Some s'"
  then obtain f v ws where w: "as_writes s = (f, v) # ws" "s' = died f (s\<lparr>as_writes := ws\<rparr>)"
    by (auto simp: write_dies_def split: list.splits)
  then have "settled_out (s\<lparr>as_writes := ws\<rparr>)" using s by (simp add: settled_out_def)
  then show "settled_out s'" using w(2) settled_died by simp
qed

lemma settled_cut: "\<lbrakk>settled_out s; cut f s = Some s'\<rbrakk> \<Longrightarrow> settled_out s'"
  by (cases "fiber_at s f") (auto simp: cut_def split: option.splits out_at.splits)

fun is_press :: "session_act \<Rightarrow> bool" where
  "is_press (Ask_Sign_In p) \<longleftrightarrow> True"
| "is_press (Ask_Again p) \<longleftrightarrow> True"
| "is_press a \<longleftrightarrow> False"

lemma settled_asks:
  assumes "settled_out s"
  shows "settled_out (cancel_sign_in s)" "settled_out (sign_out remote s)" "settled_out (refresh_once s)"
    "settled_out (fst (renew_once s))" "settled_out (obtain_session s)"
proof -
  have "as_shown s = Signed_Out" using assms by (simp add: settled_out_def)
  then show "settled_out (obtain_session s)" using assms by (simp add: obtain_session_def is_signed_in_def)
qed (use assms in \<open>auto simp: cancel_sign_in_def sign_out_def refresh_once_def renew_once_def settled_cancel
  split: option.split\<close>)

lemma settled_step:
  assumes "settled_out s" "\<not> is_press a" "session_step required a s = Some s'"
  shows "settled_out s'"
proof (cases a)
  case Write_Lands
  then show ?thesis using assms settled_lands [of s s'] by simp
next
  case Write_Dies
  then show ?thesis using assms settled_dies [of s s'] by simp
next
  case (Come f ans)
  then show ?thesis using assms settled_come [of s required f ans s'] by simp
next
  case (Cut f)
  then show ?thesis using assms settled_cut [of s f s'] by simp
qed (use assms settled_asks [OF assms(1)] in auto)

text \<open>
  C23: Signed out stays signed out. Once the account shown and the account kept are both gone, with no
  write of an account waiting, nothing out asking under the generation that stands and no deletion or pressed
  sign-in still to come back, no answer of the service, no refusal, cancel, renewal, hand-off or failed write, in any order,
  shows an account or keeps one again, until a sign-in is pressed.
\<close>

theorem signed_out_stays:
  "\<lbrakk>settled_out s; list_all (\<lambda>a. \<not> is_press a) acts; session_run required acts s = Some s'\<rbrakk> \<Longrightarrow>
   as_shown s' = Signed_Out \<and> as_disk s' = None"
proof (induction acts arbitrary: s)
  case Nil
  then show ?case by (simp add: settled_out_def)
next
  case (Cons a acts)
  then obtain s1 where "session_step required a s = Some s1" "session_run required acts s1 = Some s'"
    by (auto simp: bind_eq_Some_conv)
  then show ?case using Cons settled_step [of s a required s1] by simp
qed

definition left_for_good :: "session_act list" where
  "left_for_good =
     [Ask_Renew, Come 0 Resumed, Ask_Sign_Out True, Come 1 Resumed, Write_Lands, Come 1 Capabilities_Done, Come 1 Resumed]"

theorem signed_out_stays_witness:
  "\<exists>s s'. session_run True left_for_good (new_manager (Some ada_account)) = Some s \<and> settled_out s \<and>
     session_run True [Come 0 (Tokens_Come new_tokens), Come 1 Call_Done, Ask_Refresh, Come 2 Resumed] s = Some s' \<and>
     as_shown s' = Signed_Out \<and> as_disk s' = None"
proof -
  obtain s where run: "session_run True left_for_good (new_manager (Some ada_account)) = Some s" "settled_out s"
    by (atomize_elim, rule exI, rule conjI, code_simp) (code_simp)
  have "session_run True (left_for_good @ [Come 0 (Tokens_Come new_tokens), Come 1 Call_Done, Ask_Refresh, Come 2 Resumed])
    (new_manager (Some ada_account)) \<noteq> None" by code_simp
  moreover have append: "session_run True (xs @ ys) t = Option.bind (session_run True xs t) (session_run True ys)" for xs ys t
    by (induction xs arbitrary: t) (auto split: bind_split)
  ultimately obtain s' where later:
    "session_run True [Come 0 (Tokens_Come new_tokens), Come 1 Call_Done, Ask_Refresh, Come 2 Resumed] s = Some s'"
    using run(1) by auto
  then show ?thesis using run signed_out_stays [OF run(2) _ later] by auto
qed

end
