(* ===== verification/Account_Flights.thy ===== *)
theory Account_Flights
  imports Account_Safety
begin

text \<open>
  The flights of the account session: one renewal at a time, and the tokens a sign-in is issued.
\<close>

subsection \<open>Where a fiber stands after an operation\<close>

lemma fiber_at_same [simp]:
  "fiber_at (asked c s) f = fiber_at s f" "fiber_at (published s) f = fiber_at s f"
  "fiber_at (write_asked h v s) f = fiber_at s f" "fiber_at (stored_shown s) f = fiber_at s f"
  "fiber_at (s\<lparr>as_running := b\<rparr>) f = fiber_at s f" "fiber_at (s\<lparr>as_cancel := d\<rparr>) f = fiber_at s f"
  "fiber_at (s\<lparr>as_again := ag\<rparr>) f = fiber_at s f" "fiber_at (s\<lparr>as_sign_in := si\<rparr>) f = fiber_at s f"
  "fiber_at (s\<lparr>as_cancel_session := se\<rparr>) f = fiber_at s f" "fiber_at (s\<lparr>as_session := se\<rparr>) f = fiber_at s f"
  "fiber_at (s\<lparr>as_refreshing := fl\<rparr>) f = fiber_at s f" "fiber_at (s\<lparr>as_renewing := fl\<rparr>) f = fiber_at s f"
  "fiber_at (s\<lparr>as_signing_out := fl\<rparr>) f = fiber_at s f" "fiber_at (s\<lparr>as_wait_cancels := n\<rparr>) f = fiber_at s f"
  "fiber_at (s\<lparr>as_shown := a\<rparr>) f = fiber_at s f" "fiber_at (s\<lparr>as_generation := n\<rparr>) f = fiber_at s f"
  "fiber_at (s\<lparr>as_disk := v\<rparr>) f = fiber_at s f" "fiber_at (s\<lparr>as_writes := ws\<rparr>) f = fiber_at s f"
  "fiber_at (drop_cancel h s) f = fiber_at s f"
  by (simp_all add: fiber_at_def asked_def published_def write_asked_def stored_shown_def drop_cancel_def)

lemma fiber_at_new: "fiber_at (set_fiber f x s) h = (if h = f \<and> f < length (as_fibers s) then x else fiber_at s h)"
  by (auto simp: fiber_at_def set_fiber_def)

lemma fiber_at_forked: "fiber_at (forked x s) h = (if h = next_fiber s then x else fiber_at s h)"
  by (auto simp: fiber_at_def forked_def next_fiber_def nth_append)

lemma fiber_at_next [simp]: "fiber_at s (next_fiber s) = Ended"
  by (simp add: fiber_at_def next_fiber_def)

subsection \<open>One renewal at a time\<close>

definition is_renewing :: "fiber \<Rightarrow> bool" where
  "is_renewing x \<longleftrightarrow> (case x of Renewing at \<Rightarrow> True | _ \<Rightarrow> False)"

lemma is_renewing_simps [simp]:
  "is_renewing (Renewing at)" "\<not> is_renewing Ended" "\<not> is_renewing (Out remote trip oat)" "\<not> is_renewing (Deletion dat)"
  "\<not> is_renewing (Refreshing rat)" "\<not> is_renewing (Pressing p out n d)" "\<not> is_renewing (Trip again p g tat)"
  "\<not> is_renewing (Handing g sat)"
  by (simp_all add: is_renewing_def)

definition one_renewing :: "session_manager \<Rightarrow> bool" where
  "one_renewing s \<longleftrightarrow> (\<forall>h. is_renewing (fiber_at s h) \<longleftrightarrow> as_renewing s = Some h)"

lemma one_same [simp]:
  "one_renewing (asked c s) = one_renewing s" "one_renewing (published s) = one_renewing s"
  "one_renewing (write_asked f v s) = one_renewing s" "one_renewing (stored_shown s) = one_renewing s"
  "one_renewing (s\<lparr>as_running := b\<rparr>) = one_renewing s" "one_renewing (s\<lparr>as_cancel := d\<rparr>) = one_renewing s"
  "one_renewing (s\<lparr>as_again := ag\<rparr>) = one_renewing s" "one_renewing (s\<lparr>as_sign_in := si\<rparr>) = one_renewing s"
  "one_renewing (s\<lparr>as_cancel_session := se, as_session := se'\<rparr>) = one_renewing s"
  "one_renewing (s\<lparr>as_cancel := d, as_again := ag\<rparr>) = one_renewing s"
  "one_renewing (s\<lparr>as_cancel := d, as_sign_in := si\<rparr>) = one_renewing s"
  "one_renewing (s\<lparr>as_refreshing := fl\<rparr>) = one_renewing s" "one_renewing (s\<lparr>as_signing_out := fl\<rparr>) = one_renewing s"
  "one_renewing (s\<lparr>as_wait_cancels := n\<rparr>) = one_renewing s" "one_renewing (s\<lparr>as_shown := a\<rparr>) = one_renewing s"
  "one_renewing (s\<lparr>as_generation := n\<rparr>) = one_renewing s" "one_renewing (s\<lparr>as_shown := a, as_generation := n\<rparr>) = one_renewing s"
  "one_renewing (s\<lparr>as_disk := v\<rparr>) = one_renewing s" "one_renewing (s\<lparr>as_writes := ws\<rparr>) = one_renewing s"
  "one_renewing (drop_cancel f s) = one_renewing s"
  by (simp_all add: one_renewing_def session_simps)

lemma one_set [simp]: "\<lbrakk>one_renewing s; is_renewing x = is_renewing (fiber_at s f)\<rbrakk> \<Longrightarrow> one_renewing (set_fiber f x s)"
  by (auto simp: one_renewing_def session_simps fiber_at_new)

lemma one_forked [simp]: "\<lbrakk>one_renewing s; \<not> is_renewing x\<rbrakk> \<Longrightarrow> one_renewing (forked x s)"
  by (auto simp: one_renewing_def session_simps fiber_at_forked) (metis fiber_at_next is_renewing_simps(2))

lemma one_over: "\<lbrakk>one_renewing s; is_renewing (fiber_at s f)\<rbrakk> \<Longrightarrow> one_renewing (renew_over f s)"
  by (auto simp: one_renewing_def renew_over_def session_simps fiber_at_new)
     (auto simp: fiber_at_def split: if_splits)

lemma one_begun: "\<lbrakk>one_renewing s; renew_once s = (s', f)\<rbrakk> \<Longrightarrow> one_renewing s'"
  by (auto simp: renew_once_def one_renewing_def session_simps fiber_at_forked split: option.splits if_splits)

lemma renewing_withdrawn [simp]: "is_renewing (withdrawn x) = is_renewing x"
  by (cases x rule: withdrawn.cases) auto

lemma renewing_landed [simp]: "is_renewing (landed x) = is_renewing x"
  by (cases x) (auto simp: landed_def split: out_at.split delete_at.split refresh_at.split renew_at.split
    trip_at.split session_at.split)

lemma one_withdraw [simp]: "one_renewing s \<Longrightarrow> one_renewing (withdraw f s)"
  by (simp add: withdraw_def)

lemma renewing_withdraw [simp]: "is_renewing (fiber_at (withdraw f s) h) = is_renewing (fiber_at s h)"
  by (simp add: withdraw_def fiber_at_new)

lemma one_departing [simp]:
  "\<lbrakk>one_renewing s; \<not> is_renewing (fiber_at s f)\<rbrakk> \<Longrightarrow> one_renewing (departing f remote trip s)"
  by (auto simp: departing_def Let_def split: option.split)

lemma renewing_departing:
  "\<not> is_renewing (fiber_at s f) \<Longrightarrow> is_renewing (fiber_at (departing f remote trip s) h) = is_renewing (fiber_at s h)"
  by (auto simp: departing_def Let_def fiber_at_new split: option.split)

lemma one_sign_out [simp]: "one_renewing s \<Longrightarrow> one_renewing (sign_out remote s)"
  by (simp add: sign_out_def fiber_at_forked)

lemma renewing_sign_out: "is_renewing (fiber_at s h) \<Longrightarrow> is_renewing (fiber_at (sign_out remote s) h)"
  by (auto simp: sign_out_def renewing_departing fiber_at_forked)

lemma one_trip_over [simp]: "\<lbrakk>one_renewing s; \<not> is_renewing (fiber_at s f)\<rbrakk> \<Longrightarrow> one_renewing (trip_over again f s)"
  by (simp add: trip_over_def Let_def)

lemma one_out_over [simp]: "\<lbrakk>one_renewing s; \<not> is_renewing (fiber_at s f)\<rbrakk> \<Longrightarrow> one_renewing (out_over f trip s)"
  by (simp add: out_over_def split: option.split)

lemma one_others_over [simp]:
  "\<lbrakk>one_renewing s; \<not> is_renewing (fiber_at s f)\<rbrakk> \<Longrightarrow> one_renewing (refresh_over f s)"
  "\<lbrakk>one_renewing s; \<not> is_renewing (fiber_at s f)\<rbrakk> \<Longrightarrow> one_renewing (session_over f s)"
  by (auto simp: refresh_over_def session_over_def)

lemma one_come_out:
  "\<lbrakk>one_renewing s; \<not> is_renewing (fiber_at s f); come_out f remote trip at ans s = Some s'\<rbrakk> \<Longrightarrow> one_renewing s'"
  by (cases at) (auto simp: come_out_def out_remote_def out_session_def split: if_splits option.splits)

lemma one_come_deletion:
  "\<lbrakk>one_renewing s; \<not> is_renewing (fiber_at s f); come_deletion f at ans s = Some s'\<rbrakk> \<Longrightarrow> one_renewing s'"
  by (cases at; cases ans) (auto simp: come_deletion_def split: if_splits option.splits)

lemma renewing_begun: "\<lbrakk>renew_once s = (s', r); fiber_at s f \<noteq> Ended\<rbrakk> \<Longrightarrow> fiber_at s' f = fiber_at s f"
  by (auto simp: renew_once_def fiber_at_forked split: option.splits)

lemma one_come_refresh:
  "\<lbrakk>one_renewing s; fiber_at s f = Refreshing at; come_refresh required f at ans s = Some s'\<rbrakk> \<Longrightarrow> one_renewing s'"
  by (cases at; cases ans)
    (auto simp: come_refresh_def refresh_reading_def renewing_begun dest: one_begun split: if_splits option.splits prod.splits
      intro!: one_set)

lemma one_come_renew:
  "\<lbrakk>one_renewing s; fiber_at s f = Renewing at; come_renew required f at ans s = Some s'\<rbrakk> \<Longrightarrow> one_renewing s'"
  by (cases at; cases ans)
    (auto simp: come_renew_def renew_reading_def renewing_sign_out intro!: one_over split: if_splits option.splits)

lemma one_come_trip:
  "\<lbrakk>one_renewing s; fiber_at s f = Trip again p g at; come_trip f again p g at ans s = Some s'\<rbrakk> \<Longrightarrow> one_renewing s'"
  by (cases at; cases ans)
    (auto simp: come_trip_def trip_reading_def trip_stored_def trip_started_def trip_continuing_def trip_settled_def
      trip_unwinds_def trip_stores_def start_session_def fiber_at_forked Let_def split: if_splits option.splits)

lemma one_come_session:
  "\<lbrakk>one_renewing s; \<not> is_renewing (fiber_at s f); come_session f g at ans s = Some s'\<rbrakk> \<Longrightarrow> one_renewing s'"
  by (cases at; cases ans)
    (auto simp: come_session_def session_reading_def session_refused_def split: if_splits option.splits)

lemma one_begin_now: "one_renewing s \<Longrightarrow> one_renewing (begin_now p s)"
  by (simp add: begin_now_def Let_def)

lemma one_come_pressing:
  "\<lbrakk>one_renewing s; \<not> is_renewing (fiber_at s f); come_pressing f p out n d ans s = Some s'\<rbrakk> \<Longrightarrow> one_renewing s'"
  by (auto simp: come_pressing_def Let_def one_begin_now split: if_splits)

lemma one_come:
  assumes "one_renewing s" "come required f ans s = Some s'"
  shows "one_renewing s'"
proof (cases "fiber_at s f")
  case (Out remote trip at)
  then show ?thesis using assms one_come_out [of s f remote trip at ans s'] by (simp add: come_def)
next
  case (Deletion at)
  then show ?thesis using assms one_come_deletion [of s f at ans s'] by (simp add: come_def)
next
  case (Refreshing at)
  then show ?thesis using assms one_come_refresh [of s f at required ans s'] by (simp add: come_def)
next
  case (Renewing at)
  then show ?thesis using assms one_come_renew [of s f at required ans s'] by (simp add: come_def)
next
  case (Pressing p out n d)
  then show ?thesis using assms one_come_pressing [of s f p out n d ans s'] by (simp add: come_def)
next
  case (Trip again p g at)
  then show ?thesis using assms one_come_trip [of s f again p g at ans s'] by (simp add: come_def)
next
  case (Handing g at)
  then show ?thesis using assms one_come_session [of s f g at ans s'] by (simp add: come_def)
qed (use assms in \<open>simp add: come_def\<close>)

lemma one_died: "one_renewing s \<Longrightarrow> one_renewing (died f s)"
  by (cases "fiber_at s f")
    (auto simp: died_def trip_unwinds_def one_over split: out_at.split delete_at.split refresh_at.split renew_at.split trip_at.split session_at.split)

lemma one_write_lands: "\<lbrakk>one_renewing s; write_lands s = Some s'\<rbrakk> \<Longrightarrow> one_renewing s'"
  by (auto simp: write_lands_def split: list.splits)

lemma one_write_dies: "\<lbrakk>one_renewing s; write_dies s = Some s'\<rbrakk> \<Longrightarrow> one_renewing s'"
  by (auto simp: write_dies_def one_died split: list.splits)

lemma one_cut: "\<lbrakk>one_renewing s; cut f s = Some s'\<rbrakk> \<Longrightarrow> one_renewing s'"
  by (cases "fiber_at s f") (auto simp: cut_def split: option.splits out_at.splits)

lemma one_cancel: "one_renewing s \<Longrightarrow> one_renewing (press_cancel d s)"
  by (induction d s rule: press_cancel.induct) auto

lemma one_asks:
  assumes "one_renewing s"
  shows "one_renewing (cancel_sign_in s)" "one_renewing (refresh_once s)" "one_renewing (obtain_session s)"
    "one_renewing (begin_sign_in p s)" "one_renewing (sign_in_again p s)" "one_renewing (fst (renew_once s))"
  using assms one_begun [of s "fst (renew_once s)" "snd (renew_once s)"]
  by (auto simp: cancel_sign_in_def refresh_once_def obtain_session_def start_session_def begin_sign_in_def
    sign_in_again_def one_begin_now one_cancel Let_def split: option.split)

lemma one_step:
  assumes "one_renewing s" "session_step required a s = Some s'"
  shows "one_renewing s'"
proof (cases a)
  case Write_Lands
  then show ?thesis using assms one_write_lands [of s s'] by simp
next
  case Write_Dies
  then show ?thesis using assms one_write_dies [of s s'] by simp
next
  case (Come f ans)
  then show ?thesis using assms one_come [of s required f ans s'] by simp
next
  case (Cut f)
  then show ?thesis using assms one_cut [of s f s'] by simp
qed (use assms one_asks [OF assms(1)] in auto)

lemma one_run: "\<lbrakk>one_renewing s; session_run required acts s = Some s'\<rbrakk> \<Longrightarrow> one_renewing s'"
proof (induction acts arbitrary: s)
  case (Cons a acts)
  then obtain s1 where "session_step required a s = Some s1" "session_run required acts s1 = Some s'"
    by (auto simp: bind_eq_Some_conv)
  then show ?case using Cons one_step [of s required a s1] by simp
qed simp

lemma one_new: "one_renewing (new_manager stored)"
  by (simp add: one_renewing_def new_manager_def fiber_at_def)

text \<open>
  C24: One renewal at a time. In any run from a store just opened, whatever is pressed, answered or failed and in whatever
  order, the renewals that stand are one at most, the one kept as the flight a second caller joins.
\<close>

theorem one_renewal_out:
  "\<lbrakk>session_run required acts (new_manager stored) = Some s; fiber_at s f = Renewing at; fiber_at s h = Renewing at'\<rbrakk> \<Longrightarrow>
   f = h \<and> as_renewing s = Some f"
  using one_run [OF one_new, of required acts stored s] unfolding one_renewing_def
  by (metis is_renewing_simps(1) option.inject)

theorem one_renewal_out_witness:
  "\<exists>s. session_run True [Ask_Renew, Ask_Renew, Come 0 Resumed] (new_manager (Some ada_account)) = Some s \<and>
     fiber_at s 0 = Renewing (Ren_Granting 0 ada_account) \<and> as_renewing s = Some 0"
proof -
  obtain s where run: "session_run True [Ask_Renew, Ask_Renew, Come 0 Resumed] (new_manager (Some ada_account)) = Some s"
    "fiber_at s 0 = Renewing (Ren_Granting 0 ada_account)"
    by (atomize_elim, rule exI, rule conjI, code_simp) (code_simp)
  then show ?thesis using one_renewal_out [OF run(1) run(2) run(2)] by blast
qed

end
