(* ===== verification/Account_Tokens.thy ===== *)
theory Account_Tokens
  imports Account_Flights
begin

text \<open>
  What a fiber of the account session leaves of the others, and the tokens a sign-in is issued: kept, or revoked.
\<close>

subsection \<open>A step moves its own fiber\<close>

text \<open>
  Calls made stay made, and a fiber under way other than the one named is left as it was or withdrawn.
\<close>

definition moves :: "nat \<Rightarrow> session_manager \<Rightarrow> session_manager \<Rightarrow> bool" where
  "moves f s s' \<longleftrightarrow>
     set (as_calls s) \<subseteq> set (as_calls s') \<and>
     (\<forall>h. h \<noteq> f \<and> fiber_at s h \<noteq> Ended \<longrightarrow> fiber_at s' h = fiber_at s h \<or> fiber_at s' h = withdrawn (fiber_at s h))"

lemma withdrawn_again [simp]: "withdrawn (withdrawn x) = withdrawn x"
  by (cases x rule: withdrawn.cases) auto

lemma withdrawn_ended [simp]: "withdrawn x = Ended \<longleftrightarrow> x = Ended"
  by (cases x rule: withdrawn.cases) auto

lemma moves_still [simp]: "moves f s s"
  by (simp add: moves_def)

lemma moves_on [simp]:
  assumes "moves f s s1"
  shows "moves f s (asked c s1)" "moves f s (published s1)" "moves f s (write_asked h v s1)" "moves f s (stored_shown s1)"
    "moves f s (s1\<lparr>as_running := b\<rparr>)" "moves f s (s1\<lparr>as_cancel := d\<rparr>)" "moves f s (s1\<lparr>as_again := ag\<rparr>)"
    "moves f s (s1\<lparr>as_sign_in := si\<rparr>)" "moves f s (s1\<lparr>as_cancel_session := se, as_session := se'\<rparr>)"
    "moves f s (s1\<lparr>as_cancel := d, as_again := ag\<rparr>)" "moves f s (s1\<lparr>as_cancel := d, as_sign_in := si\<rparr>)"
    "moves f s (s1\<lparr>as_refreshing := fl\<rparr>)" "moves f s (s1\<lparr>as_renewing := fl\<rparr>)" "moves f s (s1\<lparr>as_signing_out := fl\<rparr>)"
    "moves f s (s1\<lparr>as_wait_cancels := n\<rparr>)" "moves f s (s1\<lparr>as_shown := a\<rparr>)" "moves f s (s1\<lparr>as_generation := n\<rparr>)"
    "moves f s (s1\<lparr>as_shown := a, as_generation := n\<rparr>)" "moves f s (drop_cancel h s1)"
    "moves f s (s1\<lparr>as_writes := ws\<rparr>)" "moves f s (s1\<lparr>as_disk := v\<rparr>)"
  using assms by (auto simp: moves_def session_simps)

lemma moves_forked [simp]: "moves f s s1 \<Longrightarrow> moves f s (forked x s1)"
  by (simp add: moves_def session_simps fiber_at_forked)
     (metis fiber_at_next withdrawn_ended)

lemma moves_set [simp]: "\<lbrakk>moves f s s1; h = f \<or> fiber_at s h = Ended\<rbrakk> \<Longrightarrow> moves f s (set_fiber h x s1)"
  by (auto simp: moves_def session_simps fiber_at_new)

lemma moves_withdraw [simp]: "moves f s s1 \<Longrightarrow> moves f s (withdraw h s1)"
  by (auto simp: moves_def withdraw_def session_simps fiber_at_new)

lemma moves_departing [simp]:
  "\<lbrakk>moves f s s1; h = f \<or> fiber_at s h = Ended\<rbrakk> \<Longrightarrow> moves f s (departing h remote trip s1)"
  by (auto simp: departing_def Let_def split: option.split)

lemma moves_over [simp]:
  "moves f s s1 \<Longrightarrow> moves f s (trip_over again f s1)" "moves f s s1 \<Longrightarrow> moves f s (out_over f trip s1)"
  "moves f s s1 \<Longrightarrow> moves f s (refresh_over f s1)" "moves f s s1 \<Longrightarrow> moves f s (renew_over f s1)"
  "moves f s s1 \<Longrightarrow> moves f s (session_over f s1)"
  by (auto simp: trip_over_def out_over_def refresh_over_def renew_over_def session_over_def Let_def split: option.split)

lemma moves_sign_out [simp]: "moves f s (sign_out remote s)"
  by (simp add: sign_out_def)

lemma moves_start [simp]: "moves f s s1 \<Longrightarrow> moves f s (start_session s1)"
  by (simp add: start_session_def)

lemma moves_begin [simp]: "moves f s s1 \<Longrightarrow> moves f s (begin_now p s1)"
  by (simp add: begin_now_def Let_def)

lemma moves_renew_once: "renew_once s = (s', r) \<Longrightarrow> moves f s s'"
  by (auto simp: renew_once_def split: option.splits)

lemma moves_come_out: "come_out f remote trip at ans s = Some s' \<Longrightarrow> moves f s s'"
  by (cases at) (auto simp: come_out_def out_remote_def out_session_def split: if_splits option.splits)

lemma moves_come_deletion: "come_deletion f at ans s = Some s' \<Longrightarrow> moves f s s'"
  by (cases at; cases ans) (auto simp: come_deletion_def split: if_splits option.splits)

lemma moves_come_refresh: "come_refresh required f at ans s = Some s' \<Longrightarrow> moves f s s'"
  by (cases at; cases ans)
    (auto simp: come_refresh_def refresh_reading_def renew_once_def split: if_splits option.splits prod.splits)

lemma moves_come_renew: "come_renew required f at ans s = Some s' \<Longrightarrow> moves f s s'"
  by (cases at; cases ans) (auto simp: come_renew_def renew_reading_def split: if_splits option.splits)

lemma moves_come_trip: "come_trip f again p g at ans s = Some s' \<Longrightarrow> moves f s s'"
  by (cases at; cases ans)
    (auto simp: come_trip_def trip_reading_def trip_stored_def trip_started_def trip_continuing_def trip_settled_def
      trip_unwinds_def trip_stores_def Let_def split: if_splits option.splits)

lemma moves_come_session: "come_session f g at ans s = Some s' \<Longrightarrow> moves f s s'"
  by (cases at; cases ans)
    (auto simp: come_session_def session_reading_def session_refused_def split: if_splits option.splits)

lemma moves_come_pressing: "come_pressing f p out n d ans s = Some s' \<Longrightarrow> moves f s s'"
  by (auto simp: come_pressing_def Let_def split: if_splits)

lemma moves_come: "come required f ans s = Some s' \<Longrightarrow> moves f s s'"
  by (auto simp: come_def split: fiber.splits intro: moves_come_out moves_come_deletion moves_come_refresh
    moves_come_renew moves_come_trip moves_come_session moves_come_pressing)

lemma moves_died: "moves f s (died f s)"
  by (cases "fiber_at s f") (auto simp: died_def trip_unwinds_def split: out_at.split delete_at.split refresh_at.split renew_at.split trip_at.split session_at.split)

lemma moves_cut: "cut f s = Some s' \<Longrightarrow> moves f s s'"
  by (cases "fiber_at s f") (auto simp: cut_def split: option.splits out_at.splits)

lemma moves_cancel: "moves f s s1 \<Longrightarrow> moves f s (press_cancel d s1)"
  by (induction d s1 rule: press_cancel.induct) auto

lemma moves_asks:
  "moves f s (cancel_sign_in s)" "moves f s (refresh_once s)" "moves f s (obtain_session s)"
  "moves f s (begin_sign_in p s)" "moves f s (sign_in_again p s)" "moves f s (fst (renew_once s))"
  by (auto simp: cancel_sign_in_def refresh_once_def obtain_session_def renew_once_def begin_sign_in_def
    sign_in_again_def moves_cancel Let_def split: option.split)

lemma moves_past [simp]: "moves f (s\<lparr>as_writes := ws\<rparr>) s' = moves f s s'"
  by (simp add: moves_def)

lemma moves_step: "session_step required a s = Some s' \<Longrightarrow> \<exists>h. moves h s s'"
proof (cases a)
  case Write_Lands
  assume "session_step required a s = Some s'"
  then show ?thesis using Write_Lands by (auto simp: write_lands_def intro: exI [where x = "fst (hd (as_writes s))"] split: list.splits)
next
  case Write_Dies
  assume "session_step required a s = Some s'"
  then obtain h v ws where "s' = died h (s\<lparr>as_writes := ws\<rparr>)"
    using Write_Dies by (auto simp: write_dies_def split: list.splits)
  then show ?thesis using moves_died [of h "s\<lparr>as_writes := ws\<rparr>"] by auto
next
  case (Come h ans)
  assume "session_step required a s = Some s'"
  then show ?thesis using Come moves_come [of required h ans s s'] by auto
next
  case (Cut h)
  assume "session_step required a s = Some s'"
  then show ?thesis using Cut moves_cut [of h s s'] by auto
qed (use moves_asks [of 0 s] in auto)

subsection \<open>The tokens a sign-in is issued\<close>

text \<open>
  The generation a trip's account stands under: the one its press took, or, signing in again, the next,
  which it takes once it has read the account it replaces.
\<close>

definition trip_generation :: "bool \<Rightarrow> nat \<Rightarrow> nat" where
  "trip_generation again g = (if again then g + 1 else g)"

definition holds_tokens :: "bool \<Rightarrow> nat \<Rightarrow> account_tokens \<Rightarrow> fiber \<Rightarrow> bool" where
  "holds_tokens again g t x \<longleftrightarrow>
     (case x of
        Trip ag p h at \<Rightarrow> ag = again \<and> h = g \<and>
          (case at of
             Trip_Identifying t' \<Rightarrow> t' = t
           | Trip_Reading t' i \<Rightarrow> t' = t \<and> again
           | Trip_Storing c t' replaced l \<Rightarrow> t' = t \<and> c = trip_generation again g
           | Trip_Replacing c t' \<Rightarrow> t' = t \<and> c = trip_generation again g
           | Trip_Starting c t' \<Rightarrow> t' = t \<and> c = trip_generation again g
           | _ \<Rightarrow> False)
      | _ \<Rightarrow> False)"

definition taken_back :: "account_tokens \<Rightarrow> session_manager \<Rightarrow> bool" where
  "taken_back t s \<longleftrightarrow> Revoke_Asked (refresh_token t) \<in> set (as_calls s)"

text \<open>The trip goes on signed in: its generation stands, and the capabilities run.\<close>

definition signed_on :: "bool \<Rightarrow> nat \<Rightarrow> nat \<Rightarrow> session_manager \<Rightarrow> bool" where
  "signed_on again g f s \<longleftrightarrow>
     (case fiber_at s f of
        Trip ag p h Trip_Continuing \<Rightarrow>
          ag = again \<and> h = g \<and> as_running s \<and> as_generation s = trip_generation again g
      | _ \<Rightarrow> False)"

lemma holds_withdrawn [simp]: "holds_tokens again g t (withdrawn x) = holds_tokens again g t x"
  by (cases x rule: withdrawn.cases) (auto simp: holds_tokens_def)

lemma holds_landed [simp]: "holds_tokens again g t (landed x) = holds_tokens again g t x"
  by (cases x) (auto simp: holds_tokens_def landed_def split: out_at.split delete_at.split refresh_at.split renew_at.split
    trip_at.split session_at.split)

lemma holds_under_way: "holds_tokens again g t x \<Longrightarrow> x \<noteq> Ended"
  by (auto simp: holds_tokens_def)

lemma moved_holds: "\<lbrakk>moves f s s'; h \<noteq> f; holds_tokens again g t (fiber_at s h)\<rbrakk> \<Longrightarrow> holds_tokens again g t (fiber_at s' h)"
  by (metis holds_under_way holds_withdrawn moves_def)

lemma moved_taken: "\<lbrakk>moves f s s'; taken_back t s\<rbrakk> \<Longrightarrow> taken_back t s'"
  by (auto simp: moves_def taken_back_def)

text \<open>Where a trip that holds its tokens comes to.\<close>

lemma tokens_come_trip:
  assumes "fiber_at s f = Trip ag p h at" "holds_tokens again g t (Trip ag p h at)" "come_trip f ag p h at ans s = Some s'"
  shows "holds_tokens again g t (fiber_at s' f) \<or> taken_back t s' \<or> signed_on again g f s'"
proof -
  have "f < length (as_fibers s)" using assms(1) by (auto simp: fiber_at_def split: if_splits)
  then show ?thesis using assms(2,3)
    by (cases at; cases ans)
      (auto simp: come_trip_def trip_reading_def trip_stored_def trip_started_def trip_unwinds_def trip_stores_def
        is_current_def trip_generation_def holds_tokens_def signed_on_def taken_back_def signed_on_def fiber_at_new session_simps Let_def split: if_splits option.splits)
qed

lemma tokens_come:
  assumes "holds_tokens again g t (fiber_at s f)" "come required f ans s = Some s'"
  shows "holds_tokens again g t (fiber_at s' f) \<or> taken_back t s' \<or> signed_on again g f s'"
proof (cases "fiber_at s f")
  case (Trip ag p h at)
  then show ?thesis using assms tokens_come_trip [of s f ag p h at again g t ans s'] by (simp add: come_def)
qed (use assms in \<open>auto simp: holds_tokens_def\<close>)

lemma tokens_died: "holds_tokens again g t (fiber_at s f) \<Longrightarrow> holds_tokens again g t (fiber_at (died h s) f) \<or> taken_back t (died h s)"
  using moved_holds [OF moves_died [of h s], of f again g t]
  by (cases "h = f") (auto simp: died_def holds_tokens_def trip_unwinds_def taken_back_def session_simps
    split: fiber.splits trip_at.splits)

lemma tokens_step:
  assumes "holds_tokens again g t (fiber_at s f)" "session_step required a s = Some s'"
  shows "holds_tokens again g t (fiber_at s' f) \<or> taken_back t s' \<or> signed_on again g f s'"
proof -
  have still: ?thesis if "moves h s s'" "f \<noteq> h" for h
    using moved_holds [OF that assms(1)] by blast
  note other = still [of "Suc f"]
  show ?thesis
  proof (cases a)
    case Write_Lands
    then show ?thesis using assms by (auto simp: write_lands_def fiber_at_new split: list.splits if_splits)
  next
    case Write_Dies
    then obtain h ws where "s' = died h (s\<lparr>as_writes := ws\<rparr>)" using assms(2) by (auto simp: write_dies_def split: list.splits)
    then show ?thesis using assms(1) tokens_died [of again g t "s\<lparr>as_writes := ws\<rparr>" f h] by auto
  next
    case (Come h ans)
    then show ?thesis using assms still [OF moves_come [of required h ans s s']] tokens_come [of again g t s f required ans s']
      by (cases "h = f") auto
  next
    case (Cut h)
    then show ?thesis using assms still [OF moves_cut [of h s s']]
      by (cases "h = f") (auto simp: cut_def holds_tokens_def split: fiber.splits)
  qed (use assms other moves_asks [of "Suc f" s] in auto)
qed

lemma taken_step: "\<lbrakk>taken_back t s; session_step required a s = Some s'\<rbrakk> \<Longrightarrow> taken_back t s'"
  using moves_step [of required a s s'] moved_taken by blast

lemma taken_run: "\<lbrakk>taken_back t s; session_run required acts s = Some s'\<rbrakk> \<Longrightarrow> taken_back t s'"
  by (induction acts arbitrary: s) (auto simp: bind_eq_Some_conv dest: taken_step)

lemma tokens_run:
  "\<lbrakk>holds_tokens again g t (fiber_at s f); session_run required acts s = Some s'\<rbrakk> \<Longrightarrow>
   holds_tokens again g t (fiber_at s' f) \<or> taken_back t s' \<or>
   (\<exists>n s1. n \<le> length acts \<and> session_run required (take n acts) s = Some s1 \<and> signed_on again g f s1)"
proof (induction acts arbitrary: s)
  case (Cons a acts)
  then obtain s1 where step: "session_step required a s = Some s1" and run: "session_run required acts s1 = Some s'"
    by (auto simp: bind_eq_Some_conv)
  consider (held) "holds_tokens again g t (fiber_at s1 f)" | (taken) "taken_back t s1" | (on) "signed_on again g f s1"
    using tokens_step [OF Cons.prems(1) step] by blast
  then show ?case
  proof cases
    case held
    consider "holds_tokens again g t (fiber_at s' f) \<or> taken_back t s'"
      | n s2 where "n \<le> length acts" "session_run required (take n acts) s1 = Some s2" "signed_on again g f s2"
      using Cons.IH [OF held run] by blast
    then show ?thesis
    proof cases
      case (2 n s2)
      then have "Suc n \<le> length (a # acts) \<and> session_run required (take (Suc n) (a # acts)) s = Some s2" using step by simp
      then show ?thesis using 2(3) by blast
    qed blast
  next
    case taken
    then show ?thesis using taken_run [OF _ run] by blast
  next
    case on
    have "Suc 0 \<le> length (a # acts) \<and> session_run required (take (Suc 0) (a # acts)) s = Some s1" using step by simp
    then show ?thesis using on by blast
  qed
qed simp

text \<open>
  C25: No token issued to a sign-in is left live with nobody to hold it. From a trip whose code was just
  exchanged for tokens, whatever is pressed, answered or failed after and in whatever order, the trip
  holds them still, or their revocation was asked of the service, or the trip came to where it goes on
  signed in: with the capabilities running, and with the generation its account stands under, the one its
  press took or, signing in again, the next, still the one that stands, so that no sign-out and no other
  sign-in came between.
\<close>

theorem issued_tokens_are_kept_or_revoked:
  "\<lbrakk>fiber_at s f = Trip again p g (Trip_Identifying t); session_run required acts s = Some s'\<rbrakk> \<Longrightarrow>
   holds_tokens again g t (fiber_at s' f) \<or> taken_back t s' \<or>
   (\<exists>n s1. n \<le> length acts \<and> session_run required (take n acts) s = Some s1 \<and> signed_on again g f s1)"
  by (rule tokens_run) (simp_all add: holds_tokens_def)

definition sign_in_left :: "session_act list" where
  "sign_in_left = [Ask_Sign_In Google, Come 0 Code_Comes, Come 0 (Tokens_Come new_tokens)]"

definition out_over_it :: "session_act list" where
  "out_over_it = [Ask_Sign_Out True, Come 0 (Identity_Come ada)]"

theorem issued_tokens_are_kept_or_revoked_witness:
  "\<exists>s s'. session_run True sign_in_left (new_manager None) = Some s \<and> fiber_at s 0 = Trip False Google 1 (Trip_Identifying new_tokens) \<and>
     session_run True out_over_it s = Some s' \<and> taken_back new_tokens s'"
proof -
  define s where "s = the (session_run True sign_in_left (new_manager None))"
  define s' where "s' = the (session_run True out_over_it s)"
  have facts: "session_run True sign_in_left (new_manager None) = Some s" "fiber_at s 0 = Trip False Google 1 (Trip_Identifying new_tokens)"
    "session_run True out_over_it s = Some s'" "\<not> holds_tokens False 1 new_tokens (fiber_at s' 0)"
    unfolding s'_def s_def by code_simp+
  have "list_all (\<lambda>n. case session_run True (take n out_over_it) s of
      None \<Rightarrow> True | Some s1 \<Rightarrow> \<not> signed_on False 1 0 s1) [0, 1, 2]"
    unfolding s_def by code_simp
  then have each: "case session_run True (take n out_over_it) s of None \<Rightarrow> True | Some s1 \<Rightarrow> \<not> signed_on False 1 0 s1"
    if "n \<in> set [0, 1, 2]" for n
    using that by (simp only: list_all_iff)
  have not_on: "\<not> signed_on False 1 0 s1" if "n \<le> length out_over_it" "session_run True (take n out_over_it) s = Some s1" for n s1
  proof -
    have "n \<in> set [0, 1, 2]" using that(1) by (auto simp: out_over_it_def)
    from each [OF this] show ?thesis unfolding that(2) by simp
  qed
  have "taken_back new_tokens s'"
    using issued_tokens_are_kept_or_revoked [OF facts(2) facts(3)] facts(4) not_on by blast
  then show ?thesis using facts by blast
qed

end
