(* ===== verification/Account_Leaving.thy ===== *)
theory Account_Leaving
  imports Account_Flights
begin

text \<open>
  A renewal begun while a sign-out is clearing the account: it reads the account the store holds still, and takes
  the generation the sign-out began.
\<close>

subsection \<open>A sign-out and a renewal begun behind it\<close>

definition sign_out_clears :: "nat \<Rightarrow> bool \<Rightarrow> session_act list" where
  "sign_out_clears h remote = [Ask_Sign_Out remote, Come h Resumed]"

definition renewal_reads :: "nat \<Rightarrow> session_act list" where
  "renewal_reads f = [Ask_Renew, Come f Resumed]"

definition sign_out_ends :: "nat \<Rightarrow> session_act list" where
  "sign_out_ends h = [Write_Lands, Come h Capabilities_Done, Come h Resumed]"

definition renewal_stores :: "nat \<Rightarrow> account_tokens \<Rightarrow> session_act list" where
  "renewal_stores f t = [Come f (Tokens_Come t), Write_Lands, Come f Resumed]"

lemma running_kept [simp]:
  "as_running (published s) = as_running s" "as_running (stored_shown s) = as_running s"
  "as_running (write_asked h v s) = as_running s"
  by (simp_all add: published_def stored_shown_def write_asked_def)

lemma run_then: "session_run required (as @ bs) s = Option.bind (session_run required as s) (session_run required bs)"
  by (induction as arbitrary: s) (simp_all split: bind_split)

text \<open>The sign-out at its clear: the account stands in the store, its removal asked of it.\<close>

lemma sign_out_clearing:
  assumes "as_disk s = Some a" "as_writes s = []" "as_renewing s = None" "h = length (as_fibers s)"
  shows "\<exists>s1. session_run True (sign_out_clears h remote) s = Some s1 \<and> as_disk s1 = Some a \<and>
    as_writes s1 = [(h, None)] \<and> as_renewing s1 = None \<and> length (as_fibers s1) = Suc h \<and>
    fiber_at s1 h = Out remote None (Out_Clearing (Some a) False False)"
proof -
  let ?s = "sign_out remote s"
  have s: "as_disk ?s = Some a" "as_writes ?s = []" "as_renewing ?s = None" "length (as_fibers ?s) = Suc h"
    "fiber_at ?s h = Out remote None Out_Reading"
    using assms by (auto simp: sign_out_def departing_def Let_def session_simps next_fiber_def fiber_at_def split: option.split)
  then show ?thesis
    by (simp add: sign_out_clears_def come_def come_out_def session_simps)
qed

text \<open>The renewal, having read the store: it holds the account leaving under the generation that stands.\<close>

lemma renewal_reading:
  assumes "as_disk s = Some a" "as_renewing s = None" "f = length (as_fibers s)"
  shows "\<exists>s1. session_run True (renewal_reads f) s = Some s1 \<and> as_writes s1 = as_writes s \<and>
    length (as_fibers s1) = Suc f \<and> fiber_at s1 f = Renewing (Ren_Granting (as_generation s1) a) \<and>
    (\<forall>h < f. fiber_at s1 h = fiber_at s h)"
  using assms
  by (auto simp: renewal_reads_def renew_once_def come_def come_renew_def renew_reading_def session_simps
    next_fiber_def fiber_at_def nth_append)

text \<open>The sign-out's end leaves the renewal and the generation as they stood.\<close>

lemma out_remote_leaves:
  "h < length (as_fibers s) \<Longrightarrow>
    as_disk (out_remote h remote None stored s) = as_disk s \<and> as_writes (out_remote h remote None stored s) = as_writes s \<and>
    as_running (out_remote h remote None stored s) = as_running s \<and>
    as_generation (out_remote h remote None stored s) = as_generation s \<and>
    length (as_fibers (out_remote h remote None stored s)) = length (as_fibers s) \<and>
    (\<forall>f. f \<noteq> h \<longrightarrow> fiber_at (out_remote h remote None stored s) f = fiber_at s f)"
  by (auto simp: out_remote_def out_session_def out_over_def session_simps split: option.split)

lemma sign_out_ending:
  assumes "as_writes s = [(h, None)]" "fiber_at s h = Out remote None (Out_Clearing stored False False)" "f \<noteq> h"
  shows "\<exists>s1. session_run True (sign_out_ends h) s = Some s1 \<and> as_writes s1 = [] \<and> as_disk s1 = None \<and>
    \<not> as_running s1 \<and> as_generation s1 = as_generation s \<and> length (as_fibers s1) = length (as_fibers s) \<and>
    fiber_at s1 f = fiber_at s f"
proof -
  have h: "h < length (as_fibers s)" using assms(2) fiber_at_in [of s h] by simp
  show ?thesis
    using assms h by (simp add: sign_out_ends_def write_lands_def landed_def come_def come_out_def session_simps out_remote_leaves)
qed

lemma renewal_storing:
  assumes "as_writes s = []" "fiber_at s f = Renewing (Ren_Granting (as_generation s) a)"
  shows "\<exists>s1. session_run True (renewal_stores f t) s = Some s1 \<and> as_disk s1 = Some (with_tokens a t) \<and>
    as_shown s1 = Signed_In (sa_identity a) \<and> as_running s1 = as_running s"
proof -
  have f: "f < length (as_fibers s)" using assms(2) fiber_at_in [of s f] by simp
  show ?thesis
    using assms f by (simp add: renewal_stores_def write_lands_def landed_def come_def come_renew_def is_current_def
      session_simps snapshot_of_def with_tokens_def)
qed

text \<open>
  C26: A renewal begun behind a sign-out signs the leaving account back in. Whatever state the session is in,
  with an account kept, no write of the store under way and no renewal, when a sign-out is pressed and a
  renewal is asked after the sign-out has read the store and before its clear has landed, the renewal
  granted once the sign-out has cleared the store, stopped the capabilities and shown itself out stores the
  tokens it was granted: the account that left is kept and shown signed in again, its capabilities stopped.
\<close>

theorem renewal_signs_back_in:
  assumes kept: "as_disk s = Some a" and still: "as_writes s = []" "as_renewing s = None"
    and fibers: "h = length (as_fibers s)" "f = Suc h"
  shows "\<exists>gone back.
    session_run True (sign_out_clears h remote @ renewal_reads f @ sign_out_ends h) s = Some gone \<and>
    as_disk gone = None \<and> \<not> as_running gone \<and>
    session_run True (renewal_stores f t) gone = Some back \<and>
    as_disk back = Some (with_tokens a t) \<and> as_shown back = Signed_In (sa_identity a) \<and> \<not> as_running back"
proof -
  obtain s1 where s1: "session_run True (sign_out_clears h remote) s = Some s1" "as_disk s1 = Some a"
    "as_writes s1 = [(h, None)]" "as_renewing s1 = None" "length (as_fibers s1) = Suc h"
    "fiber_at s1 h = Out remote None (Out_Clearing (Some a) False False)"
    using sign_out_clearing [OF kept still fibers(1), of remote] by blast
  obtain s2 where s2: "session_run True (renewal_reads f) s1 = Some s2" "as_writes s2 = as_writes s1"
    "fiber_at s2 f = Renewing (Ren_Granting (as_generation s2) a)" "fiber_at s2 h = fiber_at s1 h"
    using renewal_reading [OF s1(2,4), of f] s1(5) fibers(2) by auto
  obtain s3 where s3: "session_run True (sign_out_ends h) s2 = Some s3" "as_writes s3 = []" "as_disk s3 = None"
    "\<not> as_running s3" "as_generation s3 = as_generation s2" "fiber_at s3 f = fiber_at s2 f"
    using sign_out_ending [of s2 h remote "Some a" f] s1(3,6) s2(2,4) fibers(2) by auto
  obtain s4 where "session_run True (renewal_stores f t) s3 = Some s4" "as_disk s4 = Some (with_tokens a t)"
    "as_shown s4 = Signed_In (sa_identity a)" "as_running s4 = as_running s3"
    using renewal_storing [OF s3(2), of f a t] s2(3) s3(5,6) by auto
  moreover have "session_run True (sign_out_clears h remote @ renewal_reads f @ sign_out_ends h) s = Some s3"
    using s1(1) s2(1) s3(1) by (simp add: run_then)
  ultimately show ?thesis using s3(3,4) by auto
qed

theorem renewal_signs_back_in_witness:
  "\<exists>gone back.
    session_run True (sign_out_clears 0 True @ renewal_reads 1 @ sign_out_ends 0) (new_manager (Some ada_account)) = Some gone \<and>
    session_run True (renewal_stores 1 new_tokens) gone = Some back \<and> as_disk gone = None \<and>
    as_shown back = Signed_In ada \<and> \<not> as_running back"
proof -
  have "as_disk (new_manager (Some ada_account)) = Some ada_account" "as_writes (new_manager (Some ada_account)) = []"
    "as_renewing (new_manager (Some ada_account)) = None" "0 = length (as_fibers (new_manager (Some ada_account)))"
    by (simp_all add: new_manager_def)
  from renewal_signs_back_in [OF this, of 1 True new_tokens] show ?thesis by (auto simp: ada_account_def)
qed

end
