(* ===== verification/Spec2Isabelle.thy ===== *)
theory Spec2Isabelle
  imports Write_Claims Agent_Status Transcript_Follow Tab_Strip_Properties Pin_Order Undo_Stack
    List_Selection Turn_Rows_Properties Rate_Gate_Properties Tab_Switcher Task_List_Properties Task_Homes
    Sync_Hub_Properties Keep_Identity Nav_Properties Editing_Faults
    Section_Writers Anchor_Kept Restore_Properties Account_Tokens Account_Leaving
begin

text \<open>
  The verification development of Vespin: shallow models, in HOL, of the program's own logic, and the
  theorems that make each part correct. All sources are TypeScript, named here from \<open>src/packages\<close>.

  \<^bold>\<open>The program.\<close> A workspace of tasks that coding agents work on. A desktop or web window (\<open>panel\<close>,
  \<open>ui\<close>) draws tasks, agents and their transcripts from rows the service answers; rows are kept, and
  writes drawn over them, by the sync engine (\<open>sync\<close>); what a row means is read by shared pure models
  (\<open>features\<close>); the service (\<open>service\<close>, \<open>database\<close>) answers reads and writes over PostgreSQL and
  speaks to GitHub. The development follows the rows from the service to the screen.

  \<^bold>\<open>Rows and writes (\<open>sync\<close>).\<close>
  \<^item> \<open>Synced_Collection\<close> (\<open>sync/src/synced-collection.ts\<close>): the collection one read fills, and the
    messages that bring it to what the read holds. The locale \<open>row_store\<close> is the contract the pool
    relies on; \<open>take_rows\<close> is its interpretation.
  \<^item> \<open>Entity_Pool\<close> (\<open>sync/src/entity-pool.ts\<close>, \<open>rowsOf\<close>, \<open>stood\<close>, \<open>written\<close>): one kind's rows shared by the
    reads that hold them, and the writes standing over them: each operation the source runs between two
    awaits is one function from the rows to the rows and the draws asked of the reads. The locale
    \<open>keyed_kind\<close> is what a kind promises of its keys, interpreted on every kind and on the kind of fields.
  \<^item> \<open>Pool_Invariant\<close>, \<open>Pool_Properties\<close>: rows stored are rows held by a read, or were taken in place over
    a read that had closed; answers, writes, and reads let go.
  \<^item> \<open>Write_Order\<close> (\<open>written\<close>, \<open>confirmedOn\<close>, \<open>resent\<close>, \<open>letGoQueued\<close>): the life of a write as a
    labelled step function; a run is any sequence of steps, so every interleaving of the source's fibers
    is one. \<open>Write_Properties\<close>, \<open>Write_Turns\<close> (locale \<open>turn_order\<close>, interpreted on sending and on standing
    down) and \<open>Write_Claims\<close> prove the order writes to a key are sent and stand down in, the bound on those
    that wait, and that the queue drains; and show the runs in which a refusal breaks the order.

  \<^bold>\<open>What a row means (\<open>features\<close>).\<close>
  \<^item> \<open>Agent_Status\<close> (\<open>agent-status.ts\<close>): an agent's status at an instant, and the instant the clock moves it.
  \<^item> \<open>Transcript_Window\<close>, \<open>Transcript_Follow\<close> (\<open>transcript-window.ts\<close>, \<open>turn-record.ts\<close>): the newest messages of
    a transcript and their joining past a cursor; a reader who follows draws what a whole read would.
  \<^item> \<open>Turn_Rows\<close>, \<open>Turn_Rows_Properties\<close> (\<open>turn-rows.ts\<close>): the folding of a turn's blocks into rows.
  \<^item> \<open>Pin_Order\<close> (\<open>pin-order.ts\<close>): pins, and the positions a drop writes. The package that mints a
    position between two is a parameter with the law it documents (\<open>mints_between\<close>).

  \<^bold>\<open>What a window keeps (\<open>ui\<close>, \<open>panel\<close>).\<close>
  \<^item> \<open>Tab_Strip\<close>, \<open>Tab_Strip_Properties\<close> (\<open>ui/src/tab-strip-model.ts\<close>): tabs, orders and stamps. The locale
    \<open>sameness\<close> (a list changed up to an equivalence) is interpreted on \<open>same_tab\<close> there and on \<open>same_stop\<close>
    in \<open>Tab_Switcher\<close> (\<open>panel/src/desktop/tab-switcher-model.ts\<close>, \<open>panel/src/tasks/closed-tabs.ts\<close>).
  \<^item> \<open>Task_List\<close> (\<open>ui/src/task-list-model.ts\<close>, \<open>panel/src/desktop/nested-rows.ts\<close>): the task rows, their
    groups, filters and counts, and their nesting. \<open>Task_List_Properties\<close> proves that the tree of rows
    holds each row once and that the nesting read back from a drawing is the one drawn; \<open>Task_Homes\<close> that
    each row is dealt to one list and a child to its parent's.
  \<^item> \<open>Task_Step\<close> (\<open>panel/src/places/task-step.ts\<close>), \<open>Nav_Trail\<close>, \<open>Window_Trail\<close>, \<open>Window_History\<close>
    (\<open>panel/src/navigation-history.ts\<close>): Back and Forward. What a step shows of its page and the address of
    a task; the trail of steps and the visits written on it; the trail kept beside the router's history,
    with the writes that wait on a move along it; and the hook that follows both, an operation to each
    handler and effect. The router's history is an argument (\<open>router_ops\<close>), known by the laws a browser
    documents (\<open>session_history\<close>). \<open>Trail_History\<close> proves that the trail is that history around the entry
    standing, in every run, and shows two runs the code has in which it is not; \<open>Nav_Properties\<close> that the trail keeps to
    its bound, that Forward takes back what Back took, and where a move the browser makes may end.
  \<^item> \<open>Undo_Stack\<close> (\<open>panel/src/undo-stack.ts\<close>), \<open>List_Selection\<close>
    (\<open>ui/src/components/selection/list-selection.ts\<close>): a machine of state and steps each; an entry of the
    stack is in one place, and what an undo of rows sends.

  \<^bold>\<open>The description and its editor (\<open>features\<close>, \<open>panel\<close>).\<close>
  \<^item> \<open>Text_Lines\<close>, \<open>Line_Merge\<close>, \<open>Line_Changes\<close>, \<open>Merge_Places\<close>, \<open>Line_Merge_Properties\<close>
    (\<open>features/src/description-edit-model.ts\<close>, \<open>keptOver\<close>): Keep mine, the developer's change of a text laid
    over another writer's. The package that finds the lines changed is an argument with the laws it
    documents (\<open>diff_ok\<close>). The merge, computed place by place, is one list of changes laid over the base:
    all the developer's, and the other writer's that meet none of them.
  \<^item> \<open>Description_Editor\<close>, \<open>Description_Editor_Properties\<close> (the same file, and \<open>features/src/description-edit.ts\<close>):
    the editor's acts, and an edit taken into the text by the service. An editor closes only on words the
    service was heard to hold, but for Retry over words past the bound.
  \<^item> \<open>Description_Editing\<close> (\<open>panel/src/tasks/use-description-editing.ts\<close>): the hook over the editor, its refs,
    updates, effects, saves out, and the words tasks were left with, a function to each handler and effect;
    a run is any sequence of steps. React applies the updates asked as it draws, each draw taking them
    all, runs the cleanups of a commit before its effects and the effects in the order declared.
    \<open>Editing_Saves\<close>: one save of an opening out at a time. \<open>Editing_Left\<close>, \<open>Editing_Words\<close>: the words of a task
    left are marked, carried and kept until the service holds them. \<open>Editing_Faults\<close>, on the runs of
    \<open>Editing_Runs\<close>: three orders of events in which they are not.

  \<^bold>\<open>The description as the service keeps it (\<open>features\<close>, \<open>database\<close>, \<open>service\<close>).\<close>
  \<^item> \<open>Text_Space\<close>, \<open>Description_Sections\<close>, \<open>Section_Cuts\<close> (\<open>features/src/description-document.ts\<close>): a text cut
    into sections at its headings outside fences; the sections tile the text. \<open>Section_Writers\<close> (the same file):
    the sections a change moved or renamed, and who last changed each, read off the revisions, through the
    revisions that leave a section alone or only rename it.
  \<^item> \<open>Note_Text\<close>, \<open>Note_Places\<close>, \<open>Note_Edits\<close> (\<open>features/src/description-notes.ts\<close>): an agent's notes, their text
    contained, their phrases located, a batch taken whole or not at all. \<open>Note_Points\<close>: a point added
    lands in its section and moves no other. \<open>Note_Batches\<close>: every batch returns; a replacement or a
    deletion changes the place its phrase is found in alone, the only one but for copies that overlap it; and four
    texts the code does not read as it says.
  \<^item> \<open>Comment_Anchors\<close>, \<open>Anchor_Properties\<close>, \<open>Anchor_Kept\<close> (\<open>features/src/description-comment-anchor.ts\<close>,
    \<open>database/src/models/description-comments.ts\<close>): an anchor carried over a change stands from the first
    to the last of the characters the change kept from under it, where what a change keeps (\<open>change_keeps\<close>) is said
    of the diff library's reads alone. The reads are arguments with the laws they document (\<open>diff_laws\<close>).
  \<^item> \<open>Description_History\<close>, \<open>History_Properties\<close> (\<open>database/src/models/description-revisions.ts\<close>): the revisions, what
    joins the newest, what a restore is, and the pages they are read in.
  \<^item> \<open>Description_Saves\<close> (\<open>service/src/tasks/description-notes.ts\<close>, \<open>database/src/models/task-store.ts\<close>): the one write,
    which composes all of the above under the row's lock, over every clock, failure of the store and loss of reach.
    \<open>Save_Properties\<close>, \<open>Restore_Properties\<close>: history and text agree over any run of saves, what is not saved
    changes nothing, a restore is undone, and the one order of events in which the two part.

  \<^bold>\<open>The service.\<close>
  \<^item> \<open>Rate_Hold\<close>, \<open>Rate_Gate\<close>, \<open>Rate_Gate_Lanes\<close>, \<open>Rate_Gate_Properties\<close> (\<open>service/src/github/github-rate-gate.ts\<close>,
    \<open>database/src/models/github-rate-holds.ts\<close>): the gate every request to GitHub passes, as steps between
    the waits of the source; nothing is sent to an identity GitHub refused before it said, writes start a
    second apart, one request of a lane is in hand. The locale \<open>hold_keeper\<close> is interpreted on the holds
    kept here and on the shared store's statement.
  \<^item> \<open>Sync_Hub\<close> (\<open>service/src/sync/hub.ts\<close>, \<open>service/src/sync/watch.ts\<close>): the one listener of an instance on the
    database's channel and the watches it wakes, as steps between the waits of the source.
    \<open>Sync_Hub_Properties\<close> sets the hub in a world of readers and commits: a reader between two reads has a
    commit before it, or is woken, or will be heard to; what a watch answers is what was heard.
  \<^item> \<open>Keep_Identity\<close> (\<open>wire/src/keep-identity.ts\<close>): a value delivered again rebuilt over the one held: what did
    not change is the held object itself, and the value is the one delivered.

  \<^bold>\<open>The account a Mac keeps (\<open>credentials\<close>).\<close>
  \<^item> \<open>Account_Stored\<close>, \<open>Account_Session\<close> (\<open>credentials/src/account/session-manager.ts\<close>, \<open>client.ts\<close>, with
    \<open>runtime/src/effect/single-flight.ts\<close> and the order of the writes of \<open>host/src/settings-store.ts\<close>): the account
    stored and shown, and the manager that signs in, again and out, deletes, refreshes, renews and hands a session off. Its
    fields are a record, each operation that waits a fiber of it, and a step is what runs between two waits.
    The consent trip's listener is known by what it may say. \<open>Account_Safety\<close>: once a sign-out has come to its
    end nothing but a sign-in shows or keeps an account again. \<open>Account_Flights\<close>: one renewal at a time.
    \<open>Account_Tokens\<close>: tokens issued to a sign-in are held, revoked, or signed on with under the generation that stands.
    \<open>Account_Leaving\<close>: a renewal begun behind a sign-out signs the account back in. \<open>Account_Faults\<close>: three more orders
    of events in which the code does not do what its file says.

  \<^bold>\<open>How the code is read.\<close> A JavaScript \<open>Map\<close> is an association list in its order (\<open>js_map\<close> of \<open>Prelude\<close>), a
  \<open>Set\<close> read in order a list without repeats, an absent value \<open>None\<close>, an index out of range \<open>nth_opt\<close>.
  Instants and waits are whole milliseconds, \<open>int\<close>, as the source's are within a double's exact range. An Effect
  fiber is the steps it takes between its awaits; a failure is a value. A text is a \<open>string\<close>, so a character stands for a
  code unit below 256, and what the source asks of white space is asked of those. A search that may not end is
  \<open>partial_function (option)\<close>, \<open>None\<close> where it does not. The service's answers, the clock,
  random keys and the platform are arguments or labels, never assumed.

  \<^bold>\<open>Fuel and termination.\<close> Only the growing of the task tree (\<open>node_from\<close>) takes fuel: the number of rows, each
  call reaching a row not reached before, so it is never spent (\<open>node_nodes_grow\<close> shows the tree grown
  whole with as much fuel as there are rows left). The walks up a task's parents (\<open>home_walk\<close>,
  \<open>open_above\<close>) have a measure, the ids not come by, and end in a loop of parents too. The walk of a
  delivered value (\<open>kept\<close>) ends by the size of the new value. The search for the copies of a phrase
  (\<open>exact_spans\<close>) moves on by the phrase's length, and so ends where the phrase is not empty, which the notes'
  schema has it be.

  \<^bold>\<open>Not modelled.\<close> React components and hooks, which wire these models to the screen; SQL statements and the
  HTTP routes over them, whose behaviour is mostly the database's; schemas of the Effect library, which
  decode a value to the types used here; the runner's protocols with coding agents' processes; the
  files and windows of the platform; and the tables of words. Of the description, the readings of the
  mentions and the pictures a text holds are arguments of the notes. Of the account, the consent
  listener, the settings file and its cipher stand for what they answer. The
  finding of text, the folding of the sidebar's groups, and the service's inbox and queue clocks are left out.
\<close>

end
